(* ===== verification/Gam_Prelude.thy ===== *)
theory Gam_Prelude
  imports Main "HOL-Library.Word" "HOL-Library.Monad_Syntax"
begin

text \<open>
  What the component theories share: the collections of rewrite rules the component proofs use,
  the model of C strings, of the GLib list calls and of the \<^verbatim>\<open>write\<close> and \<^verbatim>\<open>read\<close> system calls,
  and generic lemmas on lists.

  Conventions. A \<^verbatim>\<open>char\<close> of the source is a \<^typ>\<open>char\<close> (eight bits), so a byte buffer and a C
  string are both a \<^typ>\<open>string\<close>. An \<^verbatim>\<open>int\<close> is an \<^typ>\<open>int\<close>, an \<^verbatim>\<open>unsigned short\<close> a 16-bit word.
  A heap pointer is a \<^typ>\<open>nat\<close> that a heap (a map) takes to the object; \<^verbatim>\<open>NULL\<close> is \<^term>\<open>None\<close>.
  A C function that can abort the process (a failed \<^verbatim>\<open>g_assert\<close>, a read through a pointer that is
  not allocated) returns an option, and \<^term>\<open>None\<close> is the abort.
\<close>

section \<open>Collections\<close>

named_theorems wire_simps \<open>reading back what an encoder wrote\<close>
named_theorems frame_simps \<open>fields an operation leaves alone\<close>

declare Let_def [simp]

type_synonym cptr = nat

section \<open>Lists indexed by a C int\<close>

definition nth_opt :: "'a list \<Rightarrow> int \<Rightarrow> 'a option" where
  "nth_opt xs i = (if 0 \<le> i \<and> i < int (length xs) then Some (xs ! nat i) else None)"

lemma nth_opt_Some_iff: "nth_opt xs i = Some x \<longleftrightarrow> 0 \<le> i \<and> i < int (length xs) \<and> x = xs ! nat i"
  by (auto simp: nth_opt_def)

lemma nth_opt_nat [simp]: "i < length xs \<Longrightarrow> nth_opt xs (int i) = Some (xs ! i)"
  by (simp add: nth_opt_def)

lemma nth_opt_mem: "nth_opt xs i = Some x \<Longrightarrow> x \<in> set xs"
  by (auto simp: nth_opt_Some_iff)

text \<open>\<open>insert_at\<close> is what a \<^verbatim>\<open>memmove\<close> by one slot and a store do to an array, \<open>delete_at\<close> what a
  \<^verbatim>\<open>memmove\<close> back does.\<close>

definition insert_at :: "nat \<Rightarrow> 'a \<Rightarrow> 'a list \<Rightarrow> 'a list" where
  "insert_at i x xs = take i xs @ x # drop i xs"

definition delete_at :: "nat \<Rightarrow> 'a list \<Rightarrow> 'a list" where
  "delete_at i xs = take i xs @ drop (Suc i) xs"

lemma length_insert_at [simp]: "length (insert_at i x xs) = Suc (length xs)"
  by (simp add: insert_at_def)

lemma set_insert_at [simp]: "set (insert_at i x xs) = insert x (set xs)"
proof -
  have "set (take i xs) \<union> set (drop i xs) = set xs"
    by (simp only: append_take_drop_id flip: set_append)
  then show ?thesis by (simp add: insert_at_def)
qed

lemma length_delete_at [simp]: "i < length xs \<Longrightarrow> length (delete_at i xs) = length xs - 1"
  by (simp add: delete_at_def)

lemma map_delete_at: "map f (delete_at i xs) = delete_at i (map f xs)"
  by (simp add: delete_at_def take_map drop_map)

lemma map_insert_at: "map f (insert_at i x xs) = insert_at i (f x) (map f xs)"
  by (simp add: insert_at_def take_map drop_map)

lemma set_delete_at_subset: "set (delete_at i xs) \<subseteq> set xs"
  by (auto simp: delete_at_def dest: in_set_takeD in_set_dropD)

lemma sorted_wrt_split:
  "i < length xs \<Longrightarrow> sorted_wrt P xs \<Longrightarrow>
     (\<forall>x \<in> set (take i xs). P x (xs ! i)) \<and> (\<forall>x \<in> set (drop (Suc i) xs). P (xs ! i) x)"
  by (subst (asm) id_take_nth_drop [of i xs]) (auto simp: sorted_wrt_append)

lemma sorted_wrt_delete_at: "sorted_wrt P xs \<Longrightarrow> sorted_wrt P (delete_at i xs)"
proof (cases "i < length xs")
  case True
  assume "sorted_wrt P xs"
  then have "sorted_wrt P (take i xs @ xs ! i # drop (Suc i) xs)"
    using True by (simp flip: id_take_nth_drop)
  then show ?thesis by (auto simp: delete_at_def sorted_wrt_append)
qed (simp add: delete_at_def)

section \<open>C strings\<close>

text \<open>The C string at the start of a byte buffer: the bytes before the first NUL.\<close>

definition c_string :: "string \<Rightarrow> string" where
  "c_string b = takeWhile (\<lambda>c. c \<noteq> CHR 0x00) b"

definition no_nul :: "string \<Rightarrow> bool" where
  "no_nul s \<longleftrightarrow> CHR 0x00 \<notin> set s"

lemma c_string_id: "no_nul s \<Longrightarrow> c_string s = s"
  by (auto simp: c_string_def no_nul_def takeWhile_eq_all_conv)

lemma no_nul_c_string [simp]: "no_nul (c_string s)"
  by (auto simp: no_nul_def c_string_def dest: set_takeWhileD)

lemma length_c_string_le: "length (c_string s) \<le> length s"
  by (simp add: c_string_def length_takeWhile_le)

section \<open>System calls on a socket\<close>

text \<open>
  The answers the kernel gives to the next calls. \<open>W_N n\<close> is a \<^verbatim>\<open>write\<close> that takes \<open>n\<close> bytes (all
  of them when fewer are offered). A call beyond the listed answers takes all it is offered, so the
  list names the interrupted, short and failing calls, any finite number of them.
\<close>

datatype wres = W_EINTR | W_ERR | W_N nat

text \<open>\<open>R_N bs\<close> is a \<^verbatim>\<open>read\<close> that returns the bytes \<open>bs\<close> (none of them: end of file).\<close>

datatype rres = R_EINTR | R_ERR | R_N string

end
