(* ===== verification/Gam_Protocol.thy ===== *)
theory Gam_Protocol
  imports Gam_Prelude
begin

unbundle bit_operations_syntax

text \<open>
  The wire protocol of \<^verbatim>\<open>libgamin/gam_protocol.h\<close>, the event types of \<^verbatim>\<open>lib/gam_event.h\<close> and the
  event codes of \<^verbatim>\<open>libgamin/fam.h\<close>, which client and server share. A packet is a header of five
  unsigned shorts in host (little endian) order and the bytes of a path.
\<close>

section \<open>Constants\<close>

text \<open>\<^verbatim>\<open>MAXPATHLEN\<close> is \<^verbatim>\<open>FILENAME_MAX\<close>, 4096 on Linux.\<close>

definition MAXPATHLEN :: nat where "MAXPATHLEN = 4096"

definition GAM_PROTO_VERSION :: "16 word" where "GAM_PROTO_VERSION = 1"

definition GAM_PACKET_HEADER_LEN :: nat where "GAM_PACKET_HEADER_LEN = 5 * 2"

definition sizeof_GAMPacket :: nat where
  "sizeof_GAMPacket = GAM_PACKET_HEADER_LEN + MAXPATHLEN"

definition GAM_REQ_FILE :: "16 word" where "GAM_REQ_FILE = 1"

definition GAM_REQ_DIR :: "16 word" where "GAM_REQ_DIR = 2"

definition GAM_REQ_CANCEL :: "16 word" where "GAM_REQ_CANCEL = 3"

definition GAM_REQ_DEBUG :: "16 word" where "GAM_REQ_DEBUG = 4"

definition GAM_OPT_NOEXISTS :: "16 word" where "GAM_OPT_NOEXISTS = 16"

lemmas size_defs = MAXPATHLEN_def GAM_PACKET_HEADER_LEN_def sizeof_GAMPacket_def

lemmas req_defs = GAM_REQ_FILE_def GAM_REQ_DIR_def GAM_REQ_CANCEL_def GAM_REQ_DEBUG_def
  GAM_OPT_NOEXISTS_def

section \<open>Event types and FAM codes\<close>

type_synonym evtype = "32 word"

definition GAMIN_EVENT_CHANGED :: evtype where "GAMIN_EVENT_CHANGED = push_bit 4 1"

definition GAMIN_EVENT_CREATED :: evtype where "GAMIN_EVENT_CREATED = push_bit 5 1"

definition GAMIN_EVENT_DELETED :: evtype where "GAMIN_EVENT_DELETED = push_bit 6 1"

definition GAMIN_EVENT_MOVED :: evtype where "GAMIN_EVENT_MOVED = push_bit 7 1"

definition GAMIN_EVENT_EXISTS :: evtype where "GAMIN_EVENT_EXISTS = push_bit 8 1"

definition GAMIN_EVENT_ENDEXISTS :: evtype where "GAMIN_EVENT_ENDEXISTS = push_bit 9 1"

definition GAMIN_EVENT_UNKNOWN :: evtype where "GAMIN_EVENT_UNKNOWN = push_bit 10 1"

lemmas event_defs = GAMIN_EVENT_CHANGED_def GAMIN_EVENT_CREATED_def GAMIN_EVENT_DELETED_def
  GAMIN_EVENT_MOVED_def GAMIN_EVENT_EXISTS_def GAMIN_EVENT_ENDEXISTS_def GAMIN_EVENT_UNKNOWN_def

definition gam_event_to_string :: "evtype \<Rightarrow> string" where
  "gam_event_to_string event =
     (if event = GAMIN_EVENT_CHANGED then ''Changed''
      else if event = GAMIN_EVENT_CREATED then ''Created''
      else if event = GAMIN_EVENT_DELETED then ''Deleted''
      else if event = GAMIN_EVENT_MOVED then ''Moved''
      else if event = GAMIN_EVENT_EXISTS then ''Exists''
      else ''None'')"

definition FAMChanged :: int where "FAMChanged = 1"

definition FAMDeleted :: int where "FAMDeleted = 2"

definition FAMStartExecuting :: int where "FAMStartExecuting = 3"

definition FAMStopExecuting :: int where "FAMStopExecuting = 4"

definition FAMCreated :: int where "FAMCreated = 5"

definition FAMMoved :: int where "FAMMoved = 6"

definition FAMAcknowledge :: int where "FAMAcknowledge = 7"

definition FAMExists :: int where "FAMExists = 8"

definition FAMEndExist :: int where "FAMEndExist = 9"

lemmas fam_defs = FAMChanged_def FAMDeleted_def FAMStartExecuting_def FAMStopExecuting_def
  FAMCreated_def FAMMoved_def FAMAcknowledge_def FAMExists_def FAMEndExist_def

section \<open>Packets\<close>

record GAMPacket =
  p_len :: "16 word"
  p_version :: "16 word"
  p_seq :: "16 word"
  p_type :: "16 word"
  p_pathlen :: "16 word"
  p_path :: string

definition enc16 :: "16 word \<Rightarrow> string" where
  "enc16 w = [char_of (unat w mod 256), char_of (unat w div 256)]"

definition dec16 :: "char \<Rightarrow> char \<Rightarrow> 16 word" where
  "dec16 a b = of_nat (of_char a + 256 * of_char b)"

text \<open>The bytes of a packet as they lie in memory, up to the end of its path.\<close>

definition packet_bytes :: "GAMPacket \<Rightarrow> string" where
  "packet_bytes p = enc16 (p_len p) @ enc16 (p_version p) @ enc16 (p_seq p) @ enc16 (p_type p) @
     enc16 (p_pathlen p) @ p_path p"

text \<open>Reading a field through a packet pointer at the start of a buffer.\<close>

definition rd16 :: "string \<Rightarrow> nat \<Rightarrow> 16 word" where
  "rd16 b i = dec16 (b ! i) (b ! Suc i)"

abbreviation hdr_len :: "string \<Rightarrow> nat" where "hdr_len b \<equiv> unat (rd16 b 0)"

abbreviation hdr_version :: "string \<Rightarrow> 16 word" where "hdr_version b \<equiv> rd16 b 2"

abbreviation hdr_seq :: "string \<Rightarrow> 16 word" where "hdr_seq b \<equiv> rd16 b 4"

abbreviation hdr_type :: "string \<Rightarrow> 16 word" where "hdr_type b \<equiv> rd16 b 6"

abbreviation hdr_pathlen :: "string \<Rightarrow> nat" where "hdr_pathlen b \<equiv> unat (rd16 b 8)"

definition hdr_path :: "string \<Rightarrow> string" where
  "hdr_path b = take (hdr_pathlen b) (drop GAM_PACKET_HEADER_LEN b)"

text \<open>The packet that the four senders of the source build: total and path length, version, sequence
  number and type, each cut to an unsigned short as the assignments do.\<close>

definition make_packet :: "int \<Rightarrow> 16 word \<Rightarrow> string \<Rightarrow> GAMPacket" where
  "make_packet seq type path =
     \<lparr>p_len = of_nat (GAM_PACKET_HEADER_LEN + length path), p_version = GAM_PROTO_VERSION,
      p_seq = of_int seq, p_type = type, p_pathlen = of_nat (length path), p_path = path\<rparr>"

section \<open>Reading back what was written\<close>

lemma length_enc16 [simp]: "length (enc16 w) = 2"
  by (simp add: enc16_def)

lemma dec16_enc16: "enc16 w = [a, b] \<Longrightarrow> dec16 a b = w"
proof -
  assume "enc16 w = [a, b]"
  then have a: "a = char_of (unat w mod 256)" and b: "b = char_of (unat w div 256)"
    by (simp_all add: enc16_def)
  have "unat w < 65536" using unsigned_less [of w] by simp
  then have "unat w div 256 < 256" by simp
  then have "of_char a + 256 * of_char b = unat w"
    using a b by (simp add: of_char_of)
  then show ?thesis by (simp add: dec16_def)
qed

lemma rd16_enc16 [wire_simps]: "rd16 (xs @ enc16 w @ ys) (length xs) = w"
  using dec16_enc16 [of w] by (simp add: rd16_def nth_append enc16_def)

lemma length_packet_bytes [simp]:
  "length (packet_bytes p) = GAM_PACKET_HEADER_LEN + length (p_path p)"
  by (simp add: packet_bytes_def size_defs)

lemma hdr_packet_bytes [wire_simps]:
  "rd16 (packet_bytes p @ r) 0 = p_len p" "rd16 (packet_bytes p @ r) 2 = p_version p"
  "rd16 (packet_bytes p @ r) 4 = p_seq p" "rd16 (packet_bytes p @ r) 6 = p_type p"
  "rd16 (packet_bytes p @ r) 8 = p_pathlen p"
  using rd16_enc16 [of "[]" "p_len p"]
    rd16_enc16 [of "enc16 (p_len p)" "p_version p"]
    rd16_enc16 [of "enc16 (p_len p) @ enc16 (p_version p)" "p_seq p"]
    rd16_enc16 [of "enc16 (p_len p) @ enc16 (p_version p) @ enc16 (p_seq p)" "p_type p"]
    rd16_enc16 [of "enc16 (p_len p) @ enc16 (p_version p) @ enc16 (p_seq p) @ enc16 (p_type p)"
      "p_pathlen p"]
  by (simp_all add: packet_bytes_def)

lemma drop_header_packet_bytes [wire_simps]:
  "drop GAM_PACKET_HEADER_LEN (packet_bytes p @ r) = p_path p @ r"
  by (simp add: packet_bytes_def size_defs)

lemma make_packet_sel [simp]:
  "p_version (make_packet seq type path) = GAM_PROTO_VERSION"
  "p_seq (make_packet seq type path) = of_int seq"
  "p_type (make_packet seq type path) = type"
  "p_path (make_packet seq type path) = path"
  by (simp_all add: make_packet_def)

lemma make_packet_sizes [simp]:
  assumes "length path \<le> MAXPATHLEN"
  shows "unat (p_len (make_packet seq type path)) = GAM_PACKET_HEADER_LEN + length path"
    and "unat (p_pathlen (make_packet seq type path)) = length path"
  using assms by (simp_all add: make_packet_def size_defs unat_of_nat take_bit_nat_eq_self
      del: of_nat_add of_nat_Suc)

lemma unat_of_int_u16: "0 \<le> n \<Longrightarrow> unat (of_int n :: 16 word) = nat n mod 65536"
  by (simp add: unat_eq_nat_uint uint_word_of_int nat_mod_distrib)

end
