(* ===== verification/Gam_Data.thy ===== *)
theory Gam_Data
  imports Gam_Protocol
begin

text \<open>
  The connection data of the client library, \<^verbatim>\<open>libgamin/gam_data.c\<close>: the table of the requests a
  connection runs, sorted by request number and searched by bisection, and the reassembly of the
  events the server sends from the bytes read off the socket.

  A \<^verbatim>\<open>GAMData\<close> is a record value. The valid bytes of the \<^verbatim>\<open>event\<close> buffer, the first \<^verbatim>\<open>evn_read\<close> of it,
  are the list \<open>gd_event\<close>; the slots of \<^verbatim>\<open>req_tab\<close> in use, the first \<^verbatim>\<open>req_nr\<close>, are the list in
  \<open>gd_req_tab\<close>, which is \<^term>\<open>None\<close> while the table is not allocated. The guard against a \<^verbatim>\<open>NULL\<close>
  connection that every function of the file opens with is \<open>with_conn\<close>. Whether \<^verbatim>\<open>malloc\<close> succeeds
  is an argument of the functions that allocate. The build is the one without \<^verbatim>\<open>GAMIN_DEBUG_API\<close>.
\<close>

section \<open>Requests and connections\<close>

datatype GAMReqState = REQ_NONE | REQ_INIT | REQ_CONFIRMED | REQ_SUSPENDED | REQ_CANCELLED

record GAMReqData =
  rq_reqno :: int
  rq_state :: GAMReqState
  rq_type :: int
  rq_filename :: string
  rq_userData :: cptr

record GAMData =
  gd_reqno :: int
  gd_auth :: int
  gd_restarted :: bool
  gd_noexist :: bool
  gd_evn_ready :: bool
  gd_event :: string
  gd_evn_reqnum :: int
  gd_evn_userdata :: cptr
  gd_req_max :: nat
  gd_req_tab :: "GAMReqData list option"
  gd_lock :: nat

definition req_list :: "GAMData \<Rightarrow> GAMReqData list" where
  "req_list c = (case gd_req_tab c of None \<Rightarrow> [] | Some t \<Rightarrow> t)"

abbreviation req_nr :: "GAMData \<Rightarrow> nat" where "req_nr c \<equiv> length (req_list c)"

definition with_conn ::
  "GAMData option \<Rightarrow> (GAMData \<Rightarrow> int \<times> GAMData) \<Rightarrow> int \<times> GAMData option" where
  "with_conn conn f =
     (case conn of None \<Rightarrow> (-1, None) | Some c \<Rightarrow> (let (r, c') = f c in (r, Some c')))"

text \<open>The mutex is recursive: its state is the number of times it is held. The process is one that
  is linked with the thread library, so that \<^verbatim>\<open>is_threaded\<close> is 1 once a connection exists.\<close>

definition gamin_data_lock :: "GAMData \<Rightarrow> GAMData" where
  "gamin_data_lock c = c\<lparr>gd_lock := Suc (gd_lock c)\<rparr>"

definition gamin_data_unlock :: "GAMData \<Rightarrow> GAMData" where
  "gamin_data_unlock c = c\<lparr>gd_lock := gd_lock c - 1\<rparr>"

section \<open>The request table\<close>

text \<open>The bisection of \<open>gamin_data_get_req_loc\<close>. A slot outside the table reads as \<^verbatim>\<open>NULL\<close>, which the
  code reports as an internal error.\<close>

function req_loc_loop :: "GAMReqData list \<Rightarrow> int \<Rightarrow> int \<Rightarrow> int \<Rightarrow> int" where
  "req_loc_loop tab reqno mn mx =
     (if mx > mn then
        (let cur = (mx + mn) div 2 in
         case nth_opt tab cur of
           None \<Rightarrow> -1
         | Some r \<Rightarrow>
             if rq_reqno r = reqno then -1
             else if rq_reqno r < reqno then req_loc_loop tab reqno (cur + 1) mx
             else req_loc_loop tab reqno mn (cur - 1))
      else
        (case nth_opt tab mn of
           None \<Rightarrow> -1
         | Some r \<Rightarrow> if reqno > rq_reqno r then mn + 1 else mn))"
  by pat_completeness auto
termination
  by (relation "measure (\<lambda>(tab, reqno, mn, mx). nat (mx - mn))") auto

definition gamin_data_get_req_loc :: "GAMData \<Rightarrow> int \<Rightarrow> int" where
  "gamin_data_get_req_loc c reqno =
     (if req_nr c = 0 then 0 else req_loc_loop (req_list c) reqno 0 (int (req_nr c) - 1))"

text \<open>\<open>gamin_allocate_request\<close> makes room in the table and allocates a request. \<open>tab_ok\<close> and
  \<open>req_ok\<close> are the outcomes of the two allocations.\<close>

definition gamin_allocate_request :: "bool \<Rightarrow> bool \<Rightarrow> GAMData \<Rightarrow> bool \<times> GAMData" where
  "gamin_allocate_request tab_ok req_ok c =
     (case gd_req_tab c of
        None \<Rightarrow>
          (if tab_ok then (req_ok, c\<lparr>gd_req_max := 10, gd_req_tab := Some []\<rparr>)
           else (False, c\<lparr>gd_req_max := 10\<rparr>))
      | Some t \<Rightarrow>
          if length t = gd_req_max c then
            (if tab_ok then (req_ok, c\<lparr>gd_req_max := 2 * gd_req_max c\<rparr>) else (False, c))
          else if length t > gd_req_max c then
            (False, c\<lparr>gd_req_tab := Some (take (gd_req_max c) t)\<rparr>)
          else (req_ok, c))"

definition new_req :: "string \<Rightarrow> int \<Rightarrow> cptr \<Rightarrow> int \<Rightarrow> GAMReqData" where
  "new_req filename type userData reqno =
     \<lparr>rq_reqno = reqno, rq_state = REQ_INIT, rq_type = type, rq_filename = filename,
      rq_userData = userData\<rparr>"

definition gamin_data_add_req2 ::
  "bool \<Rightarrow> bool \<Rightarrow> string \<Rightarrow> int \<Rightarrow> cptr \<Rightarrow> int \<Rightarrow> GAMData \<Rightarrow> GAMReqData option \<times> GAMData" where
  "gamin_data_add_req2 tab_ok req_ok filename type userData reqno c =
     (let idx = gamin_data_get_req_loc c reqno in
      if idx < 0 then (None, c)
      else if (case nth_opt (req_list c) idx of None \<Rightarrow> False | Some r \<Rightarrow> rq_reqno r = reqno) then
        (None, c)
      else
        (let (ok, c1) = gamin_allocate_request tab_ok req_ok c in
         if \<not> ok then (None, c1)
         else
           (let req = new_req filename type userData reqno;
                idx1 = (case nth_opt (req_list c1) idx of
                          None \<Rightarrow> idx
                        | Some r \<Rightarrow> if rq_reqno r < reqno then idx + 1 else idx)
            in (Some req, c1\<lparr>gd_req_tab := Some (insert_at (nat idx1) req (req_list c1))\<rparr>))))"

definition gamin_data_add_req ::
  "bool \<Rightarrow> bool \<Rightarrow> string \<Rightarrow> int \<Rightarrow> cptr \<Rightarrow> GAMData \<Rightarrow> GAMReqData option \<times> GAMData" where
  "gamin_data_add_req tab_ok req_ok filename type userData c =
     (let (ok, c1) = gamin_allocate_request tab_ok req_ok c in
      if \<not> ok then (None, c1)
      else
        (let req = new_req filename type userData (gd_reqno c1) in
         (Some req, c1\<lparr>gd_reqno := gd_reqno c1 + 1, gd_req_tab := Some (req_list c1 @ [req])\<rparr>)))"

function req_idx_loop :: "GAMReqData list \<Rightarrow> int \<Rightarrow> int \<Rightarrow> int \<Rightarrow> int" where
  "req_idx_loop tab reqno mn mx =
     (if mx \<ge> mn then
        (let cur = (mx + mn) div 2 in
         case nth_opt tab cur of
           None \<Rightarrow> -1
         | Some r \<Rightarrow>
             if rq_reqno r = reqno then cur
             else if rq_reqno r < reqno then req_idx_loop tab reqno (cur + 1) mx
             else req_idx_loop tab reqno mn (cur - 1))
      else -1)"
  by pat_completeness auto
termination
  by (relation "measure (\<lambda>(tab, reqno, mn, mx). nat (mx + 1 - mn))") auto

definition gamin_data_get_req_idx :: "GAMData \<Rightarrow> int \<Rightarrow> int" where
  "gamin_data_get_req_idx c reqno = req_idx_loop (req_list c) reqno 0 (int (req_nr c) - 1)"

definition gamin_data_del_req :: "int \<Rightarrow> GAMData \<Rightarrow> int \<times> GAMData" where
  "gamin_data_del_req reqno c =
     (let idx = gamin_data_get_req_idx c reqno in
      if idx < 0 then (-1, c)
      else (0, c\<lparr>gd_req_tab := Some (delete_at (nat idx) (req_list c))\<rparr>))"

definition set_req_state :: "nat \<Rightarrow> GAMReqState \<Rightarrow> GAMData \<Rightarrow> GAMData" where
  "set_req_state i st c =
     c\<lparr>gd_req_tab := Some ((req_list c)[i := (req_list c ! i)\<lparr>rq_state := st\<rparr>])\<rparr>"

definition gamin_data_cancel :: "int \<Rightarrow> GAMData \<Rightarrow> int \<times> GAMData" where
  "gamin_data_cancel reqno c =
     (let idx = gamin_data_get_req_idx c reqno in
      if idx < 0 then (-1, c)
      else if rq_state (req_list c ! nat idx) = REQ_CANCELLED then (0, c)
      else (1, set_req_state (nat idx) REQ_CANCELLED c))"

definition gamin_data_get_req :: "GAMData \<Rightarrow> int \<Rightarrow> nat option" where
  "gamin_data_get_req c reqno =
     (let idx = gamin_data_get_req_idx c reqno in if idx < 0 then None else Some (nat idx))"

section \<open>Creation and reset\<close>

definition fresh_data :: GAMData where
  "fresh_data =
     \<lparr>gd_reqno = 1, gd_auth = 0, gd_restarted = False, gd_noexist = False, gd_evn_ready = False,
      gd_event = [], gd_evn_reqnum = 0, gd_evn_userdata = 0, gd_req_max = 0, gd_req_tab = None,
      gd_lock = 0\<rparr>"

definition gamin_data_new :: "bool \<Rightarrow> GAMData option" where
  "gamin_data_new malloc_ok = (if malloc_ok then Some fresh_data else None)"

text \<open>\<open>gamin_data_reset\<close> also returns the array of the pending requests, which stays in the table.\<close>

definition gamin_data_reset :: "GAMData \<Rightarrow> int \<times> GAMReqData list option \<times> GAMData" where
  "gamin_data_reset c =
     (int (req_nr c), gd_req_tab c,
      c\<lparr>gd_auth := 0, gd_reqno := 1, gd_restarted := True, gd_evn_ready := False, gd_event := []\<rparr>)"


section \<open>Events\<close>

record FAMEvent =
  fe_reqnum :: int
  fe_filename :: string
  fe_userdata :: cptr
  fe_code :: int

text \<open>The bytes that follow the packet at the start of the buffer, moved down by the \<^verbatim>\<open>memmove\<close>.\<close>

definition next_packet :: "string \<Rightarrow> string" where
  "next_packet b = take (length b - hdr_len b) (drop (GAM_PACKET_HEADER_LEN + hdr_pathlen b) b)"

definition gamin_data_read_event :: "GAMData \<Rightarrow> int \<times> FAMEvent option \<times> GAMData" where
  "gamin_data_read_event c =
     (if \<not> gd_evn_ready c then (-1, None, c)
      else
        (let b = gd_event c;
             event = \<lparr>fe_reqnum = gd_evn_reqnum c, fe_filename = c_string (hdr_path b),
                      fe_userdata = gd_evn_userdata c, fe_code = uint (hdr_type b)\<rparr>;
             c1 = c\<lparr>gd_evn_ready := False\<rparr>;
             c2 = (if fe_code event = FAMAcknowledge
                   then snd (gamin_data_del_req (uint (hdr_seq b)) c1) else c1)
         in (0, Some event, c2\<lparr>gd_event := next_packet b\<rparr>)))"

text \<open>\<open>gamin_data_get_data\<close> returns where in the packet buffer the next bytes go and how many fit.\<close>

definition gamin_data_get_data :: "GAMData \<Rightarrow> nat \<times> nat" where
  "gamin_data_get_data c = (length (gd_event c), sizeof_GAMPacket - length (gd_event c))"

text \<open>The tail of \<open>gamin_data_conn_event\<close>: after a reconnection the events by which the server
  reports the current state are skipped; any other event is made ready.\<close>

definition accept_event :: "string \<Rightarrow> cptr \<Rightarrow> GAMData \<Rightarrow> int \<times> GAMData" where
  "accept_event b userData c =
     (let type = uint (hdr_type b);
          c1 = (if gd_restarted c \<and> (type = FAMCreated \<or> type = FAMMoved \<or> type = FAMChanged)
                then c\<lparr>gd_restarted := False\<rparr> else c)
      in if gd_restarted c1 then
           (0, if type = FAMEndExist then c1\<lparr>gd_restarted := False\<rparr> else c1)
         else
           (1, c1\<lparr>gd_evn_ready := True, gd_evn_reqnum := uint (hdr_seq b),
                  gd_evn_userdata := userData\<rparr>))"

definition gamin_data_conn_event :: "string \<Rightarrow> GAMData \<Rightarrow> int \<times> GAMData" where
  "gamin_data_conn_event b c =
     (case gamin_data_get_req c (uint (hdr_seq b)) of
        None \<Rightarrow> (0, c)
      | Some i \<Rightarrow>
          (let req = req_list c ! i in
           case rq_state req of
             REQ_NONE \<Rightarrow> (0, c)
           | REQ_SUSPENDED \<Rightarrow> (0, c)
           | REQ_CANCELLED \<Rightarrow>
               (if uint (hdr_type b) = FAMAcknowledge then accept_event b (rq_userData req) c
                else (0, c))
           | REQ_INIT \<Rightarrow> accept_event b (rq_userData req) (set_req_state i REQ_CONFIRMED c)
           | REQ_CONFIRMED \<Rightarrow> accept_event b (rq_userData req) c))"

definition gamin_data_done_auth :: "GAMData \<Rightarrow> int \<times> GAMData" where
  "gamin_data_done_auth c = (0, c\<lparr>gd_auth := 1\<rparr>)"

definition gamin_data_need_auth :: "GAMData \<Rightarrow> int" where
  "gamin_data_need_auth c = (if gd_auth c = 1 then 0 else if gd_auth c = 0 then 1 else -1)"

text \<open>The header checks of \<open>gamin_data_conn_data\<close> on the packet at the start of the buffer.\<close>

definition bad_header :: "string \<Rightarrow> bool" where
  "bad_header b \<longleftrightarrow>
     hdr_len b > sizeof_GAMPacket \<or> hdr_version b \<noteq> GAM_PROTO_VERSION \<or>
     hdr_pathlen b \<le> 0 \<or> hdr_pathlen b > MAXPATHLEN \<or>
     hdr_pathlen b + GAM_PACKET_HEADER_LEN \<noteq> hdr_len b"

function conn_data_loop :: "GAMData \<Rightarrow> int \<times> GAMData" where
  "conn_data_loop c =
     (let b = gd_event c in
      if length b < GAM_PACKET_HEADER_LEN then (0, c)
      else if bad_header b then (-1, c)
      else if length b < hdr_len b then (0, c)
      else
        (let (r, c1) = gamin_data_conn_event b c in
         if r < 0 then (-1, c1)
         else if gd_evn_ready c1 then (0, c1)
         else if next_packet b = [] then (0, c1\<lparr>gd_event := []\<rparr>)
         else conn_data_loop (c1\<lparr>gd_event := next_packet b\<rparr>)))"
  by pat_completeness auto
termination
  by (relation "measure (\<lambda>c. length (gd_event c))") (auto simp: bad_header_def next_packet_def)

declare conn_data_loop.simps [simp del]

text \<open>\<open>bytes\<close> are the \<^verbatim>\<open>len\<close> bytes the caller has read to the place \<open>gamin_data_get_data\<close> names.\<close>

definition gamin_data_conn_data :: "string \<Rightarrow> GAMData \<Rightarrow> int \<times> GAMData" where
  "gamin_data_conn_data bytes c =
     (if length bytes + length (gd_event c) > sizeof_GAMPacket then (-1, c)
      else conn_data_loop (c\<lparr>gd_event := gd_event c @ bytes\<rparr>))"

definition gamin_data_event_ready :: "GAMData \<Rightarrow> int \<times> GAMData" where
  "gamin_data_event_ready c =
     (if gd_evn_ready c then (1, c)
      else
        (let c1 = (if gd_event c \<noteq> [] then snd (gamin_data_conn_data [] c) else c)
         in (if gd_evn_ready c1 then 1 else 0, c1)))"

section \<open>Requests of the user\<close>

definition gamin_data_get_reqnum ::
  "bool \<Rightarrow> bool \<Rightarrow> string \<Rightarrow> int \<Rightarrow> cptr \<Rightarrow> GAMData \<Rightarrow> int \<times> GAMData" where
  "gamin_data_get_reqnum tab_ok req_ok filename type userData c =
     (case gamin_data_add_req tab_ok req_ok filename type userData c of
        (None, c1) \<Rightarrow> (-1, c1)
      | (Some req, c1) \<Rightarrow> (rq_reqno req, c1))"

definition gamin_data_get_request ::
  "bool \<Rightarrow> bool \<Rightarrow> string \<Rightarrow> int \<Rightarrow> cptr \<Rightarrow> int \<Rightarrow> GAMData \<Rightarrow> int \<times> GAMData" where
  "gamin_data_get_request tab_ok req_ok filename type userData reqno c =
     (case gamin_data_add_req2 tab_ok req_ok filename type userData reqno c of
        (None, c1) \<Rightarrow> (-1, c1)
      | (Some req, c1) \<Rightarrow> (rq_reqno req, c1))"

definition gamin_data_no_exists :: "GAMData \<Rightarrow> int \<times> GAMData" where
  "gamin_data_no_exists c = (0, c\<lparr>gd_noexist := True\<rparr>)"

definition gamin_data_get_exists :: "GAMData \<Rightarrow> int" where
  "gamin_data_get_exists c = (if gd_noexist c then 0 else 1)"

section \<open>Specification\<close>

text \<open>The table as a sorted sequence of request numbers and as a map from them.\<close>

abbreviation keys :: "GAMReqData list \<Rightarrow> int list" where "keys t \<equiv> map rq_reqno t"

definition reqs_sorted :: "GAMReqData list \<Rightarrow> bool" where
  "reqs_sorted t \<longleftrightarrow> sorted_wrt (<) (keys t)"

text \<open>\<open>loc_at t n p\<close>: slot \<open>p\<close> is where a request numbered \<open>n\<close> belongs.\<close>

definition loc_at :: "GAMReqData list \<Rightarrow> int \<Rightarrow> nat \<Rightarrow> bool" where
  "loc_at t n p \<longleftrightarrow> p \<le> length t \<and> (\<forall>i < p. rq_reqno (t ! i) < n) \<and>
     (\<forall>i < length t. p \<le> i \<longrightarrow> n < rq_reqno (t ! i))"

definition loc_between :: "GAMReqData list \<Rightarrow> int \<Rightarrow> int \<Rightarrow> int \<Rightarrow> bool" where
  "loc_between t n mn mx \<longleftrightarrow> 0 \<le> mn \<and> mn < int (length t) \<and> mx < int (length t) \<and> mn \<le> mx + 1 \<and>
     (\<forall>i < length t. int i < mn \<longrightarrow> rq_reqno (t ! i) < n) \<and>
     (\<forall>i < length t. mx < int i \<longrightarrow> n < rq_reqno (t ! i))"

definition req_map :: "GAMData \<Rightarrow> int \<rightharpoonup> GAMReqData" where
  "req_map c = map_of (map (\<lambda>r. (rq_reqno r, r)) (req_list c))"

text \<open>The invariant of a connection: the table is sorted and within its capacity, and the bytes of the
  event buffer fit in a packet.\<close>

definition data_inv :: "GAMData \<Rightarrow> bool" where
  "data_inv c \<longleftrightarrow> reqs_sorted (req_list c) \<and>
     (gd_req_tab c \<noteq> None \<longrightarrow> 0 < gd_req_max c \<and> req_nr c \<le> gd_req_max c) \<and>
     length (gd_event c) \<le> sizeof_GAMPacket"

text \<open>What \<open>gamin_data_add_req\<close> relies on: the next number is above those of the table.\<close>

definition reqnos_below :: "GAMData \<Rightarrow> bool" where
  "reqnos_below c \<longleftrightarrow> (\<forall>r \<in> set (req_list c). rq_reqno r < gd_reqno c)"

section \<open>The bisections\<close>

lemma reqs_sorted_less:
  "reqs_sorted t \<Longrightarrow> i < j \<Longrightarrow> j < length t \<Longrightarrow> rq_reqno (t ! i) < rq_reqno (t ! j)"
  by (auto simp: reqs_sorted_def sorted_wrt_iff_nth_less)

lemma reqs_sorted_cmp:
  assumes "reqs_sorted t" "i < length t" "j < length t"
  shows "rq_reqno (t ! i) < rq_reqno (t ! j) \<longleftrightarrow> i < j"
    and "rq_reqno (t ! i) = rq_reqno (t ! j) \<longleftrightarrow> i = j"
  using reqs_sorted_less [OF assms(1), of i j] reqs_sorted_less [OF assms(1), of j i] assms(2,3)
  by (auto simp: not_less_iff_gr_or_eq intro: linorder_cases [of i j])

declare req_idx_loop.simps [simp del] req_loc_loop.simps [simp del]

lemma bisect_mid:
  assumes "(mn::int) \<le> mx" "0 \<le> mn" "mx < int (length t)"
  obtains j where "(mx + mn) div 2 = int j" "j < length t" "mn \<le> int j" "int j \<le> mx"
    "mn < mx \<Longrightarrow> int j < mx"
proof
  show "(mx + mn) div 2 = int (nat ((mx + mn) div 2))" using assms by simp
qed (use assms in auto)

lemma req_idx_loop_hit:
  "reqs_sorted t \<Longrightarrow> i < length t \<Longrightarrow> 0 \<le> mn \<Longrightarrow> mn \<le> int i \<Longrightarrow> int i \<le> mx \<Longrightarrow>
     mx < int (length t) \<Longrightarrow> rq_reqno (t ! i) = n \<Longrightarrow> req_idx_loop t n mn mx = int i"
proof (induction t n mn mx rule: req_idx_loop.induct)
  case (1 t n mn mx)
  from "1.prems" obtain j where j: "(mx + mn) div 2 = int j" "j < length t"
    by (elim bisect_mid [rotated 2]) auto
  note cmp = reqs_sorted_cmp [OF "1.prems"(1) j(2) "1.prems"(2)]
  have mid: "nth_opt t ((mx + mn) div 2) = Some (t ! j)" using j by simp
  have "mx \<ge> mn" using "1.prems" by simp
  then show ?case
    using "1.prems" j cmp "1.IH"(1,2) [OF _ refl mid] by (subst req_idx_loop.simps) auto
qed

lemma req_idx_loop_miss: "n \<notin> set (keys t) \<Longrightarrow> req_idx_loop t n mn mx = -1"
proof (induction t n mn mx rule: req_idx_loop.induct)
  case (1 t n mn mx)
  then show ?case
    by (subst req_idx_loop.simps) (auto simp: Let_def split: option.split dest: nth_opt_mem)
qed

lemma loc_between_step:
  assumes "reqs_sorted t" "loc_between t n mn mx" "mn < mx" "mn \<le> int j" "int j < mx" "j < length t"
  shows "rq_reqno (t ! j) < n \<Longrightarrow> loc_between t n (int j + 1) mx"
    and "n < rq_reqno (t ! j) \<Longrightarrow> loc_between t n mn (int j - 1)"
proof -
  have "rq_reqno (t ! i) \<le> rq_reqno (t ! j)" if "i \<le> j" for i
    using reqs_sorted_less [OF assms(1), of i j] assms(6) that by (cases "i = j") auto
  then show "rq_reqno (t ! j) < n \<Longrightarrow> loc_between t n (int j + 1) mx"
    using assms by (auto simp: loc_between_def intro: order.strict_trans1)
  have "rq_reqno (t ! j) \<le> rq_reqno (t ! i)" if "j \<le> i" "i < length t" for i
    using reqs_sorted_less [OF assms(1), of j i] that by (cases "i = j") auto
  then show "n < rq_reqno (t ! j) \<Longrightarrow> loc_between t n mn (int j - 1)"
    using assms by (auto simp: loc_between_def intro: order.strict_trans2)
qed

lemma loc_between_end:
  assumes "loc_between t n mn mx" "\<not> mn < mx" "n \<notin> set (keys t)"
  shows "\<exists>p. loc_at t n p \<and>
    (case nth_opt t mn of None \<Rightarrow> -1 | Some r \<Rightarrow> if n > rq_reqno r then mn + 1 else mn) = int p"
proof -
  define k where "k = nat mn"
  have k: "mn = int k" "k < length t" using assms(1) by (auto simp: k_def loc_between_def)
  have ne: "rq_reqno (t ! k) \<noteq> n" using assms(3) k by force
  let ?p = "if rq_reqno (t ! k) < n then Suc k else k"
  have lo: "rq_reqno (t ! i) < n" if "i < k" for i
    using assms(1) k that by (auto simp: loc_between_def)
  have hi: "n < rq_reqno (t ! i)" if "k < i" "i < length t" for i
    using assms(1,2) k that by (auto simp: loc_between_def)
  have "n < rq_reqno (t ! i)" if "k \<le> i" "i < length t" "\<not> rq_reqno (t ! k) < n" for i
    using hi [of i] ne that by (cases "i = k") auto
  then have "loc_at t n ?p"
    using lo hi k by (auto simp: loc_at_def less_Suc_eq Suc_le_eq)
  then show ?thesis using k by (intro exI [of _ ?p]) auto
qed

lemma req_loc_loop_miss:
  "reqs_sorted t \<Longrightarrow> loc_between t n mn mx \<Longrightarrow> n \<notin> set (keys t) \<Longrightarrow>
     \<exists>p. loc_at t n p \<and> req_loc_loop t n mn mx = int p"
proof (induction t n mn mx rule: req_loc_loop.induct)
  case (1 t n mn mx)
  show ?case
  proof (cases "mx > mn")
    case True
    with "1.prems"(2) have "mn \<le> mx" "0 \<le> mn" "mx < int (length t)"
      by (auto simp: loc_between_def)
    with True obtain j
      where j: "(mx + mn) div 2 = int j" "j < length t" "mn \<le> int j" "int j < mx"
      by (metis bisect_mid)
    have mid: "nth_opt t ((mx + mn) div 2) = Some (t ! j)" using j by simp
    have ne: "rq_reqno (t ! j) \<noteq> n" using "1.prems"(3) j(2) by force
    note step = loc_between_step [OF "1.prems"(1,2) True j(3,4,2)]
    show ?thesis
    proof (cases "rq_reqno (t ! j) < n")
      case lt: True
      from "1.IH"(1) [OF True refl mid ne lt "1.prems"(1)] step(1) [OF lt] "1.prems"(3) j(1)
      show ?thesis using True mid ne lt j by (subst req_loc_loop.simps) simp
    next
      case False
      with ne have gt: "n < rq_reqno (t ! j)" by simp
      from "1.IH"(2) [OF True refl mid ne False "1.prems"(1)] step(2) [OF gt] "1.prems"(3) j(1)
      show ?thesis using True mid ne False j by (subst req_loc_loop.simps) simp
    qed
  next
    case False
    with loc_between_end [OF "1.prems"(2) _ "1.prems"(3)] show ?thesis
      by (subst req_loc_loop.simps) simp
  qed
qed

lemma req_loc_loop_hit:
  "reqs_sorted t \<Longrightarrow> i < length t \<Longrightarrow> 0 \<le> mn \<Longrightarrow> mn \<le> int i \<Longrightarrow> int i \<le> mx \<Longrightarrow>
     mx < int (length t) \<Longrightarrow> rq_reqno (t ! i) = n \<Longrightarrow>
     req_loc_loop t n mn mx = -1 \<or> req_loc_loop t n mn mx = int i"
proof (induction t n mn mx rule: req_loc_loop.induct)
  case (1 t n mn mx)
  from "1.prems" obtain j where j: "(mx + mn) div 2 = int j" "j < length t"
    by (elim bisect_mid [rotated 2]) auto
  note cmp = reqs_sorted_cmp [OF "1.prems"(1) j(2) "1.prems"(2)]
  have mid: "nth_opt t ((mx + mn) div 2) = Some (t ! j)" using j by simp
  show ?case
  proof (cases "mx > mn")
    case True
    with "1.prems" j mid cmp "1.IH"(1,2) [OF True refl mid] show ?thesis
      by (subst (1 2) req_loc_loop.simps) auto
  next
    case False
    with "1.prems" have eq: "mn = int i" "mx = int i" by simp_all
    show ?thesis using "1.prems" unfolding eq by (subst (1 2) req_loc_loop.simps) simp
  qed
qed


section \<open>The table as a map\<close>

lemma map_of_keyed_None: "map_of (map (\<lambda>r. (rq_reqno r, r)) t) n = None \<longleftrightarrow> n \<notin> set (keys t)"
  by (simp add: map_of_eq_None_iff image_image)

lemma map_of_keyed_nth:
  assumes "reqs_sorted t" "i < length t"
  shows "map_of (map (\<lambda>r. (rq_reqno r, r)) t) (rq_reqno (t ! i)) = Some (t ! i)"
proof -
  have "distinct (keys t)" using assms(1) by (auto simp: reqs_sorted_def strict_sorted_iff)
  then show ?thesis using assms(2) by (intro map_of_is_SomeI) (auto simp: comp_def)
qed

lemma map_of_keyed_insert_at:
  assumes "n \<notin> set (keys t)" "rq_reqno r = n"
  shows "map_of (map (\<lambda>r. (rq_reqno r, r)) (insert_at p r t)) =
     (map_of (map (\<lambda>r. (rq_reqno r, r)) t))(n \<mapsto> r)"
proof -
  let ?f = "\<lambda>t. map_of (map (\<lambda>r. (rq_reqno r, r)) t)"
  have tn: "?f (take p t) n = None"
    using assms by (auto simp: map_of_keyed_None dest: in_set_takeD)
  have "?f t = ?f (take p t @ drop p t)" by simp
  also have "\<dots> = ?f (drop p t) ++ ?f (take p t)" by (simp only: map_append map_of_append)
  finally have t: "?f t = ?f (drop p t) ++ ?f (take p t)" .
  have "?f (insert_at p r t) = (?f (drop p t))(n \<mapsto> r) ++ ?f (take p t)"
    using assms(2) by (simp add: insert_at_def)
  also have "\<dots> = (?f (drop p t) ++ ?f (take p t))(n \<mapsto> r)"
    using tn by (simp add: map_add_upd_left domIff)
  finally show ?thesis using t by simp
qed

lemma map_of_keyed_delete_at:
  assumes "reqs_sorted t" "i < length t" "rq_reqno (t ! i) = n"
  shows "map_of (map (\<lambda>r. (rq_reqno r, r)) (delete_at i t)) =
     (map_of (map (\<lambda>r. (rq_reqno r, r)) t))(n := None)"
proof -
  let ?f = "\<lambda>t. map_of (map (\<lambda>r. (rq_reqno r, r)) t)"
  have t: "t = take i t @ t ! i # drop (Suc i) t" using assms(2) by (rule id_take_nth_drop)
  have "sorted_wrt (<) (keys (take i t) @ n # keys (drop (Suc i) t))"
    using assms(1,3) t by (metis reqs_sorted_def map_append list.map(2))
  then have "?f (take i t) n = None" "?f (drop (Suc i) t) n = None"
    by (auto simp: map_of_keyed_None sorted_wrt_append)
  moreover have "?f t = (?f (drop (Suc i) t))(n \<mapsto> t ! i) ++ ?f (take i t)"
    using assms(3) by (subst t) (simp add: map_of_append)
  ultimately show ?thesis
    by (auto simp: delete_at_def map_of_append fun_eq_iff map_add_def split: option.splits)
qed

lemma reqs_sorted_insert_at:
  "reqs_sorted t \<Longrightarrow> loc_at t (rq_reqno r) p \<Longrightarrow> reqs_sorted (insert_at p r t)"
proof -
  assume srt: "reqs_sorted t" and loc: "loc_at t (rq_reqno r) p"
  have "\<forall>x \<in> set (take p t). rq_reqno x < rq_reqno r" "\<forall>x \<in> set (drop p t). rq_reqno r < rq_reqno x"
    using loc by (auto simp: loc_at_def in_set_conv_nth)
  moreover have "sorted_wrt (<) (keys (take p t) @ keys (drop p t))"
    using srt by (simp add: reqs_sorted_def flip: map_append)
  ultimately show ?thesis
    by (auto simp: reqs_sorted_def insert_at_def sorted_wrt_append dest: order.strict_trans)
qed

lemma get_req_idx_hit:
  "reqs_sorted (req_list c) \<Longrightarrow> i < req_nr c \<Longrightarrow> rq_reqno (req_list c ! i) = n \<Longrightarrow>
     gamin_data_get_req_idx c n = int i"
  unfolding gamin_data_get_req_idx_def by (rule req_idx_loop_hit) auto

lemma get_req_idx_miss: "n \<notin> set (keys (req_list c)) \<Longrightarrow> gamin_data_get_req_idx c n = -1"
  by (simp add: gamin_data_get_req_idx_def req_idx_loop_miss)

lemma keys_nthE:
  assumes "n \<in> set (keys t)"
  obtains i where "i < length t" "rq_reqno (t ! i) = n"
  using assms by (auto simp: in_set_conv_nth)

lemma get_req_lookup:
  "reqs_sorted (req_list c) \<Longrightarrow>
     map_option ((!) (req_list c)) (gamin_data_get_req c n) = req_map c n"
proof (cases "n \<in> set (keys (req_list c))")
  case True
  assume srt: "reqs_sorted (req_list c)"
  from True obtain i where "i < req_nr c" "rq_reqno (req_list c ! i) = n" by (rule keys_nthE)
  with srt get_req_idx_hit [OF srt this] map_of_keyed_nth [OF srt] show ?thesis
    by (auto simp: gamin_data_get_req_def req_map_def)
next
  case False
  then show ?thesis
    using get_req_idx_miss [OF False] map_of_keyed_None [of "req_list c" n]
    by (simp add: gamin_data_get_req_def req_map_def)
qed

lemma get_req_loc_miss:
  "reqs_sorted (req_list c) \<Longrightarrow> n \<notin> set (keys (req_list c)) \<Longrightarrow>
     \<exists>p. loc_at (req_list c) n p \<and> gamin_data_get_req_loc c n = int p"
  using req_loc_loop_miss [of "req_list c" n 0 "int (req_nr c) - 1"]
  by (auto simp: gamin_data_get_req_loc_def loc_at_def loc_between_def)

lemma get_req_loc_hit:
  "reqs_sorted (req_list c) \<Longrightarrow> i < req_nr c \<Longrightarrow> rq_reqno (req_list c ! i) = n \<Longrightarrow>
     gamin_data_get_req_loc c n = -1 \<or> gamin_data_get_req_loc c n = int i"
  using req_loc_loop_hit [of "req_list c" i 0 "int (req_nr c) - 1" n]
  by (auto simp: gamin_data_get_req_loc_def)

end
