(* ===== verification/Gam_Request_Table.thy ===== *)
theory Gam_Request_Table
  imports Gam_Data
begin

text \<open>
  The request table of \<^verbatim>\<open>libgamin/gam_data.c\<close> as a finite map: each operation of the table keeps
  its invariant and acts on \<^const>\<open>req_map\<close> as a map operation, allocation failures included. The
  locale \<open>request_table\<close> is the contract the client code relies on; it is interpreted on the
  bisection, insertion and deletion of the source.
\<close>

section \<open>The contract of a table\<close>

datatype 'a table_op = Ins int 'a | Del int

fun table_run ::
  "(int \<Rightarrow> 'a \<Rightarrow> 't \<Rightarrow> 't) \<Rightarrow> (int \<Rightarrow> 't \<Rightarrow> 't) \<Rightarrow> 'a table_op list \<Rightarrow> 't \<Rightarrow> 't" where
  "table_run ins del [] t = t"
| "table_run ins del (Ins n a # os) t = table_run ins del os (ins n a t)"
| "table_run ins del (Del n # os) t = table_run ins del os (del n t)"

text \<open>The same operations on a map: the first insertion under a number wins.\<close>

definition map_ins :: "(int \<Rightarrow> 'a \<Rightarrow> 'r) \<Rightarrow> int \<Rightarrow> 'a \<Rightarrow> (int \<rightharpoonup> 'r) \<Rightarrow> (int \<rightharpoonup> 'r)" where
  "map_ins mk n a m = (if m n = None then m(n \<mapsto> mk n a) else m)"

definition map_del :: "int \<Rightarrow> (int \<rightharpoonup> 'r) \<Rightarrow> (int \<rightharpoonup> 'r)" where
  "map_del n m = m(n := None)"

locale request_table =
  fixes inv :: "'t \<Rightarrow> bool"
    and lookup :: "'t \<Rightarrow> int \<Rightarrow> 'r option"
    and ins :: "int \<Rightarrow> 'a \<Rightarrow> 't \<Rightarrow> 't"
    and del :: "int \<Rightarrow> 't \<Rightarrow> 't"
    and mk :: "int \<Rightarrow> 'a \<Rightarrow> 'r"
  assumes inv_ins: "inv t \<Longrightarrow> inv (ins n a t)"
    and inv_del: "inv t \<Longrightarrow> inv (del n t)"
    and lookup_ins: "inv t \<Longrightarrow> lookup (ins n a t) = map_ins mk n a (lookup t)"
    and lookup_del: "inv t \<Longrightarrow> lookup (del n t) = map_del n (lookup t)"
begin

lemma run_refines:
  "inv t \<Longrightarrow> inv (table_run ins del os t) \<and>
     lookup (table_run ins del os t) = table_run (map_ins mk) map_del os (lookup t)"
proof (induction os arbitrary: t)
  case (Cons x os)
  then show ?case by (cases x) (auto simp: inv_ins inv_del lookup_ins lookup_del)
qed simp

lemma del_ins: "inv t \<Longrightarrow> lookup t n = None \<Longrightarrow> lookup (del n (ins n a t)) = lookup t"
  by (auto simp: inv_ins lookup_ins lookup_del map_ins_def map_del_def)

lemma ins_first_wins: "inv t \<Longrightarrow> lookup (ins n b (ins n a t)) = lookup (ins n a t)"
  by (auto simp: inv_ins lookup_ins map_ins_def)

end

section \<open>Accessors\<close>

lemma req_list_tab [simp]: "req_list (c\<lparr>gd_req_tab := Some t\<rparr>) = t"
  by (simp add: req_list_def)

lemma req_list_frame [frame_simps]:
  "req_list (c\<lparr>gd_reqno := a\<rparr>) = req_list c" "req_list (c\<lparr>gd_auth := a\<rparr>) = req_list c"
  "req_list (c\<lparr>gd_restarted := b\<rparr>) = req_list c" "req_list (c\<lparr>gd_noexist := b\<rparr>) = req_list c"
  "req_list (c\<lparr>gd_evn_ready := b\<rparr>) = req_list c" "req_list (c\<lparr>gd_event := e\<rparr>) = req_list c"
  "req_list (c\<lparr>gd_evn_reqnum := a\<rparr>) = req_list c" "req_list (c\<lparr>gd_evn_userdata := u\<rparr>) = req_list c"
  "req_list (c\<lparr>gd_req_max := m\<rparr>) = req_list c" "req_list (c\<lparr>gd_lock := m\<rparr>) = req_list c"
  by (simp_all add: req_list_def)

lemma req_map_frame [frame_simps]:
  "req_map (c\<lparr>gd_reqno := a\<rparr>) = req_map c" "req_map (c\<lparr>gd_auth := a\<rparr>) = req_map c"
  "req_map (c\<lparr>gd_restarted := b\<rparr>) = req_map c" "req_map (c\<lparr>gd_noexist := b\<rparr>) = req_map c"
  "req_map (c\<lparr>gd_evn_ready := b\<rparr>) = req_map c" "req_map (c\<lparr>gd_event := e\<rparr>) = req_map c"
  "req_map (c\<lparr>gd_evn_reqnum := a\<rparr>) = req_map c" "req_map (c\<lparr>gd_evn_userdata := u\<rparr>) = req_map c"
  "req_map (c\<lparr>gd_req_max := m\<rparr>) = req_map c" "req_map (c\<lparr>gd_lock := m\<rparr>) = req_map c"
  by (simp_all add: req_map_def frame_simps)

lemma data_inv_sorted: "data_inv c \<Longrightarrow> reqs_sorted (req_list c)"
  by (simp add: data_inv_def)

lemma req_map_None_iff: "req_map c n = None \<longleftrightarrow> n \<notin> set (keys (req_list c))"
  by (simp add: req_map_def map_of_keyed_None)

section \<open>Allocation\<close>

lemma allocate_request_list:
  "data_inv c \<Longrightarrow> req_list (snd (gamin_allocate_request tab_ok req_ok c)) = req_list c"
  by (auto simp: gamin_allocate_request_def data_inv_def req_list_def split: option.splits)

lemma allocate_request_inv:
  "data_inv c \<Longrightarrow> data_inv (snd (gamin_allocate_request tab_ok req_ok c))"
  by (auto simp: gamin_allocate_request_def data_inv_def req_list_def reqs_sorted_def
      split: option.splits)

lemma allocate_request_room:
  "data_inv c \<Longrightarrow> fst (gamin_allocate_request tab_ok req_ok c) \<Longrightarrow>
     gd_req_tab (snd (gamin_allocate_request tab_ok req_ok c)) = Some (req_list c) \<and>
     req_nr c < gd_req_max (snd (gamin_allocate_request tab_ok req_ok c))"
  by (auto simp: gamin_allocate_request_def data_inv_def req_list_def split: option.splits if_splits)

lemma allocate_request_ok [simp]: "data_inv c \<Longrightarrow> fst (gamin_allocate_request True True c)"
  by (auto simp: gamin_allocate_request_def data_inv_def req_list_def split: option.splits)

lemma allocate_request_frame [frame_simps]:
  "gd_reqno (snd (gamin_allocate_request a b c)) = gd_reqno c"
  "gd_event (snd (gamin_allocate_request a b c)) = gd_event c"
  "gd_evn_ready (snd (gamin_allocate_request a b c)) = gd_evn_ready c"
  by (auto simp: gamin_allocate_request_def split: option.splits)

section \<open>Insertion and deletion\<close>

lemma loc_at_stays:
  "loc_at t n p \<Longrightarrow>
     (case nth_opt t (int p) of None \<Rightarrow> int p | Some r \<Rightarrow> if rq_reqno r < n then int p + 1 else int p)
       = int p"
  by (auto simp: loc_at_def nth_opt_def)

lemma add_req2_present:
  assumes "data_inv c" "n \<in> set (keys (req_list c))"
  shows "gamin_data_add_req2 tab_ok req_ok f ty u n c = (None, c)"
proof -
  obtain i where i: "i < req_nr c" "rq_reqno (req_list c ! i) = n"
    using assms(2) by (rule keys_nthE)
  from get_req_loc_hit [OF data_inv_sorted [OF assms(1)] i] show ?thesis
    using i by (auto simp: gamin_data_add_req2_def)
qed

lemma add_req2_absent:
  assumes "data_inv c" "n \<notin> set (keys (req_list c))"
  obtains p where "loc_at (req_list c) n p"
    "gamin_data_add_req2 tab_ok req_ok f ty u n c =
       (let (ok, c1) = gamin_allocate_request tab_ok req_ok c in
        if ok then (Some (new_req f ty u n),
                    c1\<lparr>gd_req_tab := Some (insert_at p (new_req f ty u n) (req_list c))\<rparr>)
        else (None, c1))"
proof -
  obtain p where p: "loc_at (req_list c) n p" "gamin_data_get_req_loc c n = int p"
    using get_req_loc_miss [OF data_inv_sorted [OF assms(1)] assms(2)] by auto
  have nk: "\<not> (case nth_opt (req_list c) (int p) of None \<Rightarrow> False | Some r \<Rightarrow> rq_reqno r = n)"
    using assms(2) by (auto split: option.splits dest: nth_opt_mem)
  obtain ok c1 where al: "gamin_allocate_request tab_ok req_ok c = (ok, c1)" by fastforce
  have "req_list c1 = req_list c"
    using allocate_request_list [OF assms(1), of tab_ok req_ok] al by simp
  then show ?thesis
    using that [OF p(1)] p(2) nk al loc_at_stays [OF p(1)]
    by (simp add: gamin_data_add_req2_def Let_def)
qed

lemma new_req_reqno [simp]: "rq_reqno (new_req f ty u n) = n"
  by (simp add: new_req_def)

text \<open>Inserting a request is a map update: a number in the table is refused; a fresh one is entered
  exactly when the allocations succeed and leaves every other number as it was.\<close>

lemma add_req2_update:
  assumes "data_inv c"
  shows "case gamin_data_add_req2 tab_ok req_ok f ty u n c of
      (None, c') \<Rightarrow> req_map c' = req_map c \<and>
        (req_map c n \<noteq> None \<or> \<not> fst (gamin_allocate_request tab_ok req_ok c))
    | (Some r, c') \<Rightarrow> req_map c n = None \<and> r = new_req f ty u n \<and> req_map c' = (req_map c)(n \<mapsto> r)"
proof (cases "n \<in> set (keys (req_list c))")
  case True
  then show ?thesis using add_req2_present [OF assms True] by (simp add: req_map_None_iff)
next
  case False
  obtain ok c1 where al: "gamin_allocate_request tab_ok req_ok c = (ok, c1)" by fastforce
  have "req_list c1 = req_list c"
    using allocate_request_list [OF assms, of tab_ok req_ok] al by simp
  moreover obtain p where "gamin_data_add_req2 tab_ok req_ok f ty u n c =
       (if ok then (Some (new_req f ty u n),
                    c1\<lparr>gd_req_tab := Some (insert_at p (new_req f ty u n) (req_list c))\<rparr>)
        else (None, c1))"
    using add_req2_absent [OF assms False, of tab_ok req_ok f ty u] al by auto
  ultimately show ?thesis
    using False al by (simp add: req_map_def map_of_keyed_None map_of_keyed_insert_at)
qed

lemma add_req2_inv:
  assumes "data_inv c"
  shows "data_inv (snd (gamin_data_add_req2 tab_ok req_ok f ty u n c))"
proof (cases "n \<in> set (keys (req_list c))")
  case True
  then show ?thesis using add_req2_present [OF assms True] assms by simp
next
  case False
  note room = allocate_request_room [OF assms, of tab_ok req_ok]
    and inv = allocate_request_inv [OF assms, of tab_ok req_ok]
  show ?thesis
  proof (rule add_req2_absent [OF assms False, of tab_ok req_ok f ty u])
    fix p
    assume p: "loc_at (req_list c) n p"
    have "reqs_sorted (insert_at p (new_req f ty u n) (req_list c))"
      using reqs_sorted_insert_at [OF data_inv_sorted [OF assms]] p by simp
    moreover assume "gamin_data_add_req2 tab_ok req_ok f ty u n c =
       (let (ok, c1) = gamin_allocate_request tab_ok req_ok c in
        if ok then (Some (new_req f ty u n),
                    c1\<lparr>gd_req_tab := Some (insert_at p (new_req f ty u n) (req_list c))\<rparr>)
        else (None, c1))"
    ultimately show ?thesis
      using inv room by (auto simp: data_inv_def split_beta)
  qed
qed

lemma add_req_spec:
  assumes "data_inv c" "reqnos_below c"
  shows "case gamin_data_add_req tab_ok req_ok f ty u c of
      (None, c') \<Rightarrow> req_map c' = req_map c \<and> data_inv c' \<and> reqnos_below c'
    | (Some r, c') \<Rightarrow> r = new_req f ty u (gd_reqno c) \<and> req_map c (rq_reqno r) = None \<and>
        req_map c' = (req_map c)(rq_reqno r \<mapsto> r) \<and> data_inv c' \<and> reqnos_below c'"
proof -
  obtain ok c1 where al: "gamin_allocate_request tab_ok req_ok c = (ok, c1)" by fastforce
  have c1: "req_list c1 = req_list c" "gd_reqno c1 = gd_reqno c" "data_inv c1"
      "ok \<Longrightarrow> req_nr c < gd_req_max c1"
    using allocate_request_list [OF assms(1), of tab_ok req_ok]
      allocate_request_room [OF assms(1), of tab_ok req_ok] al
      allocate_request_inv [OF assms(1), of tab_ok req_ok]
      allocate_request_frame(1) [of tab_ok req_ok c] by simp_all
  let ?r = "new_req f ty u (gd_reqno c)"
  have fresh: "gd_reqno c \<notin> set (keys (req_list c))"
    using assms(2) by (auto simp: reqnos_below_def)
  have "map_of (map (\<lambda>r. (rq_reqno r, r)) (insert_at (req_nr c) ?r (req_list c))) =
      (map_of (map (\<lambda>r. (rq_reqno r, r)) (req_list c)))(gd_reqno c \<mapsto> ?r)"
    by (rule map_of_keyed_insert_at [OF fresh]) simp
  then have app: "map_of (map (\<lambda>r. (rq_reqno r, r)) (req_list c @ [?r])) =
      (map_of (map (\<lambda>r. (rq_reqno r, r)) (req_list c)))(gd_reqno c \<mapsto> ?r)"
    by (simp add: insert_at_def)
  have "reqs_sorted (req_list c @ [?r])"
    using data_inv_sorted [OF assms(1)] assms(2)
    by (auto simp: reqs_sorted_def sorted_wrt_append reqnos_below_def)
  then show ?thesis
    using c1 al fresh app assms(2)
    by (auto simp: gamin_data_add_req_def data_inv_def reqnos_below_def req_map_def
        map_of_keyed_None Let_def simp del: map_append map_of_append)
qed

lemma del_req_absent:
  "n \<notin> set (keys (req_list c)) \<Longrightarrow> gamin_data_del_req n c = (-1, c)"
  by (simp add: gamin_data_del_req_def get_req_idx_miss)

lemma del_req_present:
  assumes "data_inv c" "i < req_nr c" "rq_reqno (req_list c ! i) = n"
  shows "gamin_data_del_req n c = (0, c\<lparr>gd_req_tab := Some (delete_at i (req_list c))\<rparr>)"
  using get_req_idx_hit [OF data_inv_sorted [OF assms(1)] assms(2,3)]
  by (simp add: gamin_data_del_req_def)

lemma del_req_spec:
  assumes "data_inv c"
  shows "req_map (snd (gamin_data_del_req n c)) = (req_map c)(n := None)"
    and "fst (gamin_data_del_req n c) = (if req_map c n = None then -1 else 0)"
    and "data_inv (snd (gamin_data_del_req n c))"
proof -
  consider "n \<notin> set (keys (req_list c))"
    | i where "i < req_nr c" "rq_reqno (req_list c ! i) = n" by (blast elim: keys_nthE)
  then have "req_map (snd (gamin_data_del_req n c)) = (req_map c)(n := None) \<and>
    fst (gamin_data_del_req n c) = (if req_map c n = None then -1 else 0) \<and>
    data_inv (snd (gamin_data_del_req n c))"
  proof cases
    case 1
    then have "req_map c n = None" by (simp only: req_map_None_iff not_False_eq_True)
    then show ?thesis using assms del_req_absent [OF 1] by (simp add: fun_upd_idem)
  next
    case 2
    have "req_map c n \<noteq> None" using 2 by (auto simp: req_map_None_iff)
    moreover have "reqs_sorted (delete_at i (req_list c))"
      using data_inv_sorted [OF assms] by (simp add: reqs_sorted_def map_delete_at sorted_wrt_delete_at)
    moreover have "gd_req_tab c \<noteq> None" using 2(1) by (cases "gd_req_tab c") (auto simp: req_list_def)
    ultimately show ?thesis
      using assms 2 del_req_present [OF assms 2]
        map_of_keyed_delete_at [OF data_inv_sorted [OF assms] 2]
      by (auto simp: req_map_def data_inv_def)
  qed
  then show "req_map (snd (gamin_data_del_req n c)) = (req_map c)(n := None)"
    and "fst (gamin_data_del_req n c) = (if req_map c n = None then -1 else 0)"
    and "data_inv (snd (gamin_data_del_req n c))" by auto
qed

section \<open>The contract holds of the source's table\<close>

definition table_lookup :: "GAMData \<Rightarrow> int \<Rightarrow> GAMReqData option" where
  "table_lookup c n = map_option ((!) (req_list c)) (gamin_data_get_req c n)"

definition table_ins :: "int \<Rightarrow> string \<times> int \<times> cptr \<Rightarrow> GAMData \<Rightarrow> GAMData" where
  "table_ins n a c =
     (case a of (f, ty, u) \<Rightarrow> snd (gamin_data_add_req2 True True f ty u n c))"

definition table_del :: "int \<Rightarrow> GAMData \<Rightarrow> GAMData" where
  "table_del n c = snd (gamin_data_del_req n c)"

lemma table_lookup_map: "data_inv c \<Longrightarrow> table_lookup c = req_map c"
  by (auto simp: table_lookup_def get_req_lookup data_inv_sorted)

lemma table_ins_map:
  assumes "data_inv c"
  shows "req_map (table_ins n a c) = map_ins (\<lambda>n (f, ty, u). new_req f ty u n) n a (req_map c)"
proof -
  obtain f ty u where a: "a = (f, ty, u)" by (cases a)
  show ?thesis
    using add_req2_update [OF assms, where tab_ok = True and req_ok = True and f = f and ty = ty and u = u
        and n = n] assms
    by (auto simp: a table_ins_def map_ins_def split: prod.splits option.splits)
qed

interpretation rt: request_table data_inv table_lookup table_ins table_del
  "\<lambda>n (f, ty, u). new_req f ty u n"
proof
  show inv_ins: "data_inv (table_ins n a c)" if "data_inv c" for c n a
    using that by (auto simp: table_ins_def add_req2_inv split: prod.split)
  show inv_del: "data_inv (table_del n c)" if "data_inv c" for c n
    using that by (simp add: table_del_def del_req_spec)
  show "table_lookup (table_ins n a c) = map_ins (\<lambda>n (f, ty, u). new_req f ty u n) n a (table_lookup c)"
    if "data_inv c" for c n a
    using that inv_ins [OF that] by (simp add: table_lookup_map table_ins_map)
  show "table_lookup (table_del n c) = map_del n (table_lookup c)" if "data_inv c" for c n
    using that inv_del [OF that]
    by (simp add: table_lookup_map map_del_def) (simp add: table_del_def del_req_spec)
qed

section \<open>Every operation keeps the invariant\<close>

lemma get_req_Some:
  assumes "data_inv c" "gamin_data_get_req c n = Some i"
  shows "i < req_nr c \<and> rq_reqno (req_list c ! i) = n"
proof (cases "n \<in> set (keys (req_list c))")
  case True
  then obtain j where j: "j < req_nr c" "rq_reqno (req_list c ! j) = n" by (rule keys_nthE)
  with get_req_idx_hit [OF data_inv_sorted [OF assms(1)] j] assms(2) show ?thesis
    by (auto simp: gamin_data_get_req_def)
next
  case False
  then show ?thesis using assms(2) get_req_idx_miss [OF False] by (simp add: gamin_data_get_req_def)
qed

lemma set_req_state_keys [simp]:
  "keys (req_list (set_req_state i st c)) = keys (req_list c)"
  "req_nr (set_req_state i st c) = req_nr c"
proof -
  show "keys (req_list (set_req_state i st c)) = keys (req_list c)"
    by (cases "i < req_nr c")
       (auto simp: set_req_state_def map_update list_eq_iff_nth_eq nth_list_update)
qed (simp add: set_req_state_def)

lemma set_req_state_inv: "data_inv c \<Longrightarrow> i < req_nr c \<Longrightarrow> data_inv (set_req_state i st c)"
proof -
  assume a: "data_inv c" "i < req_nr c"
  then have "gd_req_tab c \<noteq> None" by (cases "gd_req_tab c") (auto simp: req_list_def)
  with a show ?thesis
    by (auto simp: data_inv_def reqs_sorted_def simp del: map_update) (auto simp: set_req_state_def)
qed

lemma cancel_inv: "data_inv c \<Longrightarrow> data_inv (snd (gamin_data_cancel n c))"
  using get_req_Some [of c n]
  by (auto simp: gamin_data_cancel_def gamin_data_get_req_def Let_def intro!: set_req_state_inv)

lemma accept_event_inv: "data_inv c \<Longrightarrow> data_inv (snd (accept_event b u c))"
  by (auto simp: accept_event_def data_inv_def frame_simps Let_def)

lemma conn_event_inv: "data_inv c \<Longrightarrow> data_inv (snd (gamin_data_conn_event b c))"
  using get_req_Some [of c "uint (hdr_seq b)"]
  by (auto simp: gamin_data_conn_event_def Let_def accept_event_inv set_req_state_inv
      split: option.splits GAMReqState.splits)

lemma event_update_inv: "data_inv c \<Longrightarrow> length e \<le> sizeof_GAMPacket \<Longrightarrow> data_inv (c\<lparr>gd_event := e\<rparr>)"
  by (simp add: data_inv_def frame_simps)

lemma length_next_packet_le: "length (next_packet b) \<le> length b"
  by (simp add: next_packet_def)

lemma accept_event_event [simp]: "gd_event (snd (accept_event b u c)) = gd_event c"
  by (simp add: accept_event_def Let_def)

lemma conn_event_event [simp]: "gd_event (snd (gamin_data_conn_event b c)) = gd_event c"
  by (auto simp: gamin_data_conn_event_def set_req_state_def Let_def
      split: option.splits GAMReqState.splits)

lemma conn_data_loop_inv: "data_inv c \<Longrightarrow> data_inv (snd (conn_data_loop c))"
proof (induction c rule: conn_data_loop.induct)
  case (1 c)
  obtain r c1 where e: "gamin_data_conn_event (gd_event c) c = (r, c1)" by fastforce
  have c1: "data_inv c1" "length (gd_event c) \<le> sizeof_GAMPacket"
    using conn_event_inv [OF "1.prems", of "gd_event c"] e "1.prems" by (simp_all add: data_inv_def)
  have "data_inv (c1\<lparr>gd_event := next_packet (gd_event c)\<rparr>)"
    using c1 length_next_packet_le [of "gd_event c"] by (simp add: event_update_inv)
  with "1.IH" [OF refl _ _ _ e [symmetric]] "1.prems" e c1 show ?case
    by (subst conn_data_loop.simps) (auto simp: Let_def event_update_inv)
qed

lemma conn_data_inv: "data_inv c \<Longrightarrow> data_inv (snd (gamin_data_conn_data bs c))"
  by (auto simp: gamin_data_conn_data_def intro!: conn_data_loop_inv event_update_inv)

lemma del_req_frame [frame_simps]:
  "gd_event (snd (gamin_data_del_req n c)) = gd_event c"
  "gd_evn_ready (snd (gamin_data_del_req n c)) = gd_evn_ready c"
  "gd_restarted (snd (gamin_data_del_req n c)) = gd_restarted c"
  by (simp_all add: gamin_data_del_req_def Let_def)

lemma read_event_inv: "data_inv c \<Longrightarrow> data_inv (snd (snd (gamin_data_read_event c)))"
proof -
  assume c: "data_inv c"
  then have "data_inv (c\<lparr>gd_evn_ready := False\<rparr>)" by (simp add: data_inv_def frame_simps)
  then show ?thesis
    using c length_next_packet_le [of "gd_event c"]
    by (auto simp: gamin_data_read_event_def Let_def data_inv_def [of c]
        intro!: event_update_inv del_req_spec(3))
qed

lemma event_ready_inv: "data_inv c \<Longrightarrow> data_inv (snd (gamin_data_event_ready c))"
  by (simp add: gamin_data_event_ready_def Let_def conn_data_inv)

section \<open>A connection over time\<close>

text \<open>One step is one call of the library on a connection, and its kind says how it numbers requests: the library
  numbers a request itself, the user numbers it, the numbers start again, or neither.\<close>

datatype data_kind = OWN_NUMBER | USER_NUMBER | RESET | OTHER

inductive data_step :: "data_kind \<Rightarrow> GAMData \<Rightarrow> GAMData \<Rightarrow> bool" where
  lock: "data_step OTHER c (gamin_data_lock c)"
| unlock: "data_step OTHER c (gamin_data_unlock c)"
| add_req: "data_step OWN_NUMBER c (snd (gamin_data_get_reqnum tab_ok req_ok f ty u c))"
| add_req2: "data_step USER_NUMBER c (snd (gamin_data_get_request tab_ok req_ok f ty u n c))"
| del_req: "data_step OTHER c (snd (gamin_data_del_req n c))"
| cancel: "data_step OTHER c (snd (gamin_data_cancel n c))"
| conn_data: "data_step OTHER c (snd (gamin_data_conn_data bs c))"
| event_ready: "data_step OTHER c (snd (gamin_data_event_ready c))"
| read_event: "data_step OTHER c (snd (snd (gamin_data_read_event c)))"
| done_auth: "data_step OTHER c (snd (gamin_data_done_auth c))"
| no_exists: "data_step OTHER c (snd (gamin_data_no_exists c))"
| reset: "data_step RESET c (snd (snd (gamin_data_reset c)))"

text \<open>What calls, of which kinds, lead to from a new connection. Every order of calls is a run.\<close>

inductive data_reach :: "data_kind set \<Rightarrow> GAMData \<Rightarrow> bool" where
  new: "data_reach {} fresh_data"
| step: "data_reach K c \<Longrightarrow> data_step k c c' \<Longrightarrow> data_reach (insert k K) c'"

text \<open>What holds in every order: the table is within its capacity, and the buffer within a packet.\<close>

definition data_bounds :: "GAMData \<Rightarrow> bool" where
  "data_bounds c \<longleftrightarrow> (gd_req_tab c \<noteq> None \<longrightarrow> 0 < gd_req_max c \<and> req_nr c \<le> gd_req_max c) \<and>
     length (gd_event c) \<le> sizeof_GAMPacket"

lemma data_inv_bounds: "data_inv c \<longleftrightarrow> reqs_sorted (req_list c) \<and> data_bounds c"
  by (simp add: data_inv_def data_bounds_def)

lemma data_inv_new: "data_inv fresh_data"
  by (simp add: data_inv_def fresh_data_def req_list_def reqs_sorted_def)

lemma get_reqnum_inv:
  "data_inv c \<Longrightarrow> reqnos_below c \<Longrightarrow> data_inv (snd (gamin_data_get_reqnum tab_ok req_ok f ty u c))"
  using add_req_spec [where c = c and tab_ok = tab_ok and req_ok = req_ok and f = f and ty = ty and u = u]
  by (auto simp: gamin_data_get_reqnum_def split: prod.splits option.splits)

lemma get_request_inv:
  "data_inv c \<Longrightarrow> data_inv (snd (gamin_data_get_request tab_ok req_ok f ty u n c))"
  using add_req2_inv [of c tab_ok req_ok f ty u n]
  by (auto simp: gamin_data_get_request_def split: prod.splits option.splits)

lemma flag_updates_inv:
  "data_inv c \<Longrightarrow> data_inv (gamin_data_lock c)" "data_inv c \<Longrightarrow> data_inv (gamin_data_unlock c)"
  "data_inv c \<Longrightarrow> data_inv (snd (gamin_data_done_auth c))"
  "data_inv c \<Longrightarrow> data_inv (snd (gamin_data_no_exists c))"
  "data_inv c \<Longrightarrow> data_inv (snd (snd (gamin_data_reset c)))"
  by (simp_all add: data_inv_def gamin_data_lock_def gamin_data_unlock_def gamin_data_done_auth_def
      gamin_data_no_exists_def gamin_data_reset_def frame_simps)

text \<open>The operations on a table in any order. Only deleting makes it shorter, and only the two calls that enter a request
  make it longer, when there is room.\<close>

lemma get_req_idx_valid: "gamin_data_get_req_idx c n < 0 \<or> nat (gamin_data_get_req_idx c n) < req_nr c"
proof -
  have loop: "0 \<le> req_idx_loop t n mn mx \<Longrightarrow> nat (req_idx_loop t n mn mx) < length t" for t mn mx
  proof (induction t n mn mx rule: req_idx_loop.induct)
    case (1 t n mn mx)
    show ?case
    proof (cases "mx \<ge> mn \<and> nth_opt t ((mx + mn) div 2) \<noteq> None")
      case True
      then obtain r where r: "nth_opt t ((mx + mn) div 2) = Some r" "mx \<ge> mn" by auto
      have "req_idx_loop t n mn mx = (if rq_reqno r = n then (mx + mn) div 2
          else if rq_reqno r < n then req_idx_loop t n ((mx + mn) div 2 + 1) mx else req_idx_loop t n mn ((mx + mn) div 2 - 1))"
        using r by (subst req_idx_loop.simps) simp
      then show ?thesis using "1.IH"(1,2) [OF r(2) refl r(1)] "1.prems" r(1) by (auto simp: nth_opt_Some_iff split: if_splits)
    qed (use "1.prems" in \<open>auto simp: req_idx_loop.simps [of t n mn mx] Let_def split: if_splits option.splits\<close>)
  qed
  show ?thesis using loop [of "req_list c" 0 "int (req_nr c) - 1"] unfolding gamin_data_get_req_idx_def by linarith
qed

lemma bounds_update:
  assumes "data_bounds c" "req_nr c' \<le> req_nr c" "gd_req_tab c' \<noteq> None \<Longrightarrow> gd_req_tab c \<noteq> None"
    and "gd_req_max c' = gd_req_max c" "length (gd_event c') \<le> sizeof_GAMPacket"
  shows "data_bounds c'"
  using assms by (auto simp: data_bounds_def)

lemma entered_bounds:
  assumes c: "data_bounds c" and al: "gamin_allocate_request tab_ok req_ok c = (ok, c1)"
  shows "data_bounds c1"
    and "ok \<Longrightarrow> length t = Suc (req_nr c1) \<Longrightarrow> data_bounds (c1\<lparr>gd_req_tab := Some t\<rparr>)"
    and "ok \<Longrightarrow> length t = Suc (req_nr c1) \<Longrightarrow> data_bounds (c1\<lparr>gd_reqno := n, gd_req_tab := Some t\<rparr>)"
  using assms by (auto simp: gamin_allocate_request_def data_bounds_def req_list_def split: option.splits if_splits)

lemma set_req_state_bounds: "data_bounds c \<Longrightarrow> i < req_nr c \<Longrightarrow> data_bounds (set_req_state i st c)"
  by (rule bounds_update) (auto simp: set_req_state_def req_list_def data_bounds_def split: option.splits)

lemma del_req_bounds: "data_bounds c \<Longrightarrow> data_bounds (snd (gamin_data_del_req n c))"
  using get_req_idx_valid [of c n]
  by (auto simp: gamin_data_del_req_def Let_def data_bounds_def req_list_def delete_at_def split: option.splits)

lemma cancel_bounds: "data_bounds c \<Longrightarrow> data_bounds (snd (gamin_data_cancel n c))"
  using get_req_idx_valid [of c n] by (auto simp: gamin_data_cancel_def Let_def intro!: set_req_state_bounds)

lemma conn_event_bounds: "data_bounds c \<Longrightarrow> data_bounds (snd (gamin_data_conn_event b c))"
proof -
  assume c: "data_bounds c"
  have acc: "data_bounds d \<Longrightarrow> data_bounds (snd (accept_event b u d))" for u d
    by (auto simp: accept_event_def data_bounds_def frame_simps Let_def)
  show ?thesis
    using c get_req_idx_valid [of c "uint (hdr_seq b)"]
    by (auto simp: gamin_data_conn_event_def gamin_data_get_req_def Let_def acc set_req_state_bounds
        split: option.splits GAMReqState.splits if_splits)
qed

lemma event_update_bounds: "data_bounds c \<Longrightarrow> length e \<le> sizeof_GAMPacket \<Longrightarrow> data_bounds (c\<lparr>gd_event := e\<rparr>)"
  by (simp add: data_bounds_def frame_simps)

lemma conn_data_loop_bounds: "data_bounds c \<Longrightarrow> data_bounds (snd (conn_data_loop c))"
proof (induction c rule: conn_data_loop.induct)
  case (1 c)
  obtain r c1 where e: "gamin_data_conn_event (gd_event c) c = (r, c1)" by fastforce
  have c1: "data_bounds c1" "length (gd_event c) \<le> sizeof_GAMPacket"
    using conn_event_bounds [OF "1.prems", of "gd_event c"] e "1.prems" by (simp_all add: data_bounds_def)
  have "data_bounds (c1\<lparr>gd_event := next_packet (gd_event c)\<rparr>)"
    using c1 length_next_packet_le [of "gd_event c"] by (simp add: event_update_bounds)
  with "1.IH" [OF refl _ _ _ e [symmetric]] "1.prems" e c1 show ?case
    by (subst conn_data_loop.simps) (auto simp: Let_def event_update_bounds)
qed

lemma conn_data_bounds: "data_bounds c \<Longrightarrow> data_bounds (snd (gamin_data_conn_data bs c))"
  by (auto simp: gamin_data_conn_data_def intro!: conn_data_loop_bounds event_update_bounds)

lemma add_bounds:
  assumes "data_bounds c"
  shows "data_bounds (snd (gamin_data_get_reqnum tab_ok req_ok f ty u c))"
    and "data_bounds (snd (gamin_data_get_request tab_ok req_ok f ty u n c))"
proof -
  obtain ok c1 where al: "gamin_allocate_request tab_ok req_ok c = (ok, c1)" by fastforce
  note e = entered_bounds [OF assms al]
  show "data_bounds (snd (gamin_data_get_reqnum tab_ok req_ok f ty u c))"
    using e by (simp add: gamin_data_get_reqnum_def gamin_data_add_req_def al Let_def)
  show "data_bounds (snd (gamin_data_get_request tab_ok req_ok f ty u n c))"
    using e assms by (simp add: gamin_data_get_request_def gamin_data_add_req2_def al Let_def)
qed

lemma data_step_bounds: "data_step k c c' \<Longrightarrow> data_bounds c \<Longrightarrow> data_bounds c'"
proof (induction rule: data_step.induct)
  case (read_event c)
  have "data_bounds (c\<lparr>gd_evn_ready := False\<rparr>)" using read_event by (simp add: data_bounds_def frame_simps)
  moreover have "length (next_packet (gd_event c)) \<le> sizeof_GAMPacket"
    using read_event length_next_packet_le [of "gd_event c"] by (simp add: data_bounds_def)
  ultimately show ?case
    using read_event by (auto simp: gamin_data_read_event_def Let_def intro!: event_update_bounds del_req_bounds)
next
  case (event_ready c)
  then show ?case by (simp add: gamin_data_event_ready_def Let_def conn_data_bounds)
qed (simp_all add: add_bounds del_req_bounds cancel_bounds conn_data_bounds,
    simp_all add: data_bounds_def gamin_data_lock_def gamin_data_unlock_def gamin_data_done_auth_def
      gamin_data_no_exists_def gamin_data_reset_def frame_simps)

text \<open>As long as the library numbers all requests and does not start again, the next number is above those in use.\<close>

definition fewer_keys :: "GAMData \<Rightarrow> GAMData \<Rightarrow> bool" where
  "fewer_keys c c' \<longleftrightarrow> set (keys (req_list c')) \<subseteq> set (keys (req_list c)) \<and> gd_reqno c' = gd_reqno c"

lemma fewer_keys_trans: "fewer_keys c d \<Longrightarrow> fewer_keys d e \<Longrightarrow> fewer_keys c e"
  unfolding fewer_keys_def by (metis order_trans)

lemma fewer_keys_event [simp]: "fewer_keys c (d\<lparr>gd_event := e\<rparr>) = fewer_keys c d"
  by (simp add: fewer_keys_def frame_simps)

lemma fewer_keys_below: "fewer_keys c c' \<Longrightarrow> reqnos_below c \<Longrightarrow> reqnos_below c'"
  by (fastforce simp: fewer_keys_def reqnos_below_def)

lemma fewer_keys_state [simp]: "fewer_keys c (set_req_state i st c)"
proof -
  have "gd_reqno (set_req_state i st c) = gd_reqno c" by (simp add: set_req_state_def)
  then show ?thesis by (simp add: fewer_keys_def)
qed

lemma fewer_keys_del [simp]: "fewer_keys c (snd (gamin_data_del_req n c))"
  by (auto simp: fewer_keys_def gamin_data_del_req_def Let_def req_list_def delete_at_def
      dest: in_set_takeD in_set_dropD split: option.splits)

lemma fewer_keys_conn_event [simp]: "fewer_keys c (snd (gamin_data_conn_event b c))"
proof -
  have acc: "fewer_keys d (snd (accept_event b u d))" for u d
    by (auto simp: fewer_keys_def accept_event_def req_list_def Let_def)
  have id: "fewer_keys d d" for d by (simp add: fewer_keys_def)
  show ?thesis
    using acc id fewer_keys_trans [OF fewer_keys_state acc]
    by (auto simp: gamin_data_conn_event_def Let_def split: option.splits GAMReqState.splits)
qed

lemma fewer_keys_loop: "fewer_keys c (snd (conn_data_loop c))"
proof (induction c rule: conn_data_loop.induct)
  case (1 c)
  obtain r c1 where e: "gamin_data_conn_event (gd_event c) c = (r, c1)" by fastforce
  have c1: "fewer_keys c c1" using fewer_keys_conn_event [of c "gd_event c"] e by simp
  then have c2: "fewer_keys c (c1\<lparr>gd_event := next_packet (gd_event c)\<rparr>)" by simp
  have id: "fewer_keys c c" by (simp add: fewer_keys_def)
  from "1.IH" [OF refl _ _ _ e [symmetric]] e c1 id fewer_keys_trans [OF c2] show ?case
    by (subst conn_data_loop.simps) (auto simp: Let_def)
qed

lemma fewer_keys_conn_data [simp]: "fewer_keys c (snd (gamin_data_conn_data bs c))"
proof -
  have "fewer_keys c (c\<lparr>gd_event := gd_event c @ bs\<rparr>)" by (simp add: fewer_keys_def frame_simps)
  from fewer_keys_trans [OF this fewer_keys_loop] show ?thesis by (simp add: gamin_data_conn_data_def) (simp add: fewer_keys_def)
qed

lemma other_step_keys: "data_step OTHER c c' \<Longrightarrow> fewer_keys c c'"
proof (induction OTHER c c' rule: data_step.induct)
  case (read_event c)
  have "fewer_keys c (c\<lparr>gd_evn_ready := False\<rparr>)" by (simp add: fewer_keys_def frame_simps)
  then have "fewer_keys c (snd (gamin_data_del_req n (c\<lparr>gd_evn_ready := False\<rparr>)))" for n
    using fewer_keys_trans fewer_keys_del by blast
  then show ?case by (simp add: gamin_data_read_event_def Let_def) (simp add: fewer_keys_def frame_simps)
next
  case (event_ready c)
  show ?case using fewer_keys_conn_data [of c "[]"] by (simp add: gamin_data_event_ready_def Let_def) (simp add: fewer_keys_def)
next
  case (cancel c n)
  show ?case by (simp add: gamin_data_cancel_def Let_def) (simp add: fewer_keys_def)
qed (simp_all, simp_all add: fewer_keys_def gamin_data_lock_def gamin_data_unlock_def gamin_data_done_auth_def
      gamin_data_no_exists_def frame_simps)

text \<open>Every step but a number of the library's own keeps the order, and that one does when the number is above the others.\<close>

lemma data_step_inv: "data_step k c c' \<Longrightarrow> data_inv c \<Longrightarrow> k = OWN_NUMBER \<Longrightarrow> reqnos_below c \<Longrightarrow> data_inv c'"
  "data_step k c c' \<Longrightarrow> data_inv c \<Longrightarrow> k \<noteq> OWN_NUMBER \<Longrightarrow> data_inv c'"
  by (induction rule: data_step.induct)
    (simp_all only: flag_updates_inv get_reqnum_inv get_request_inv del_req_spec(3) cancel_inv
      conn_data_inv event_ready_inv read_event_inv simp_thms data_kind.distinct)

lemma own_step_below:
  assumes "data_step OWN_NUMBER c c'" "data_inv c" "reqnos_below c"
  shows "reqnos_below c'"
  using assms
proof (induction OWN_NUMBER c c' rule: data_step.induct)
  case (add_req c tab_ok req_ok f ty u)
  then show ?case
    using add_req_spec [where c = c and tab_ok = tab_ok and req_ok = req_ok and f = f and ty = ty and u = u] by (auto simp: gamin_data_get_reqnum_def split: prod.splits option.splits)
qed

lemma data_reach_bounds: "data_reach K c \<Longrightarrow> data_bounds c"
  by (induction rule: data_reach.induct) (auto simp: fresh_data_def data_bounds_def dest: data_step_bounds)

lemma data_reach_user: "data_reach K c \<Longrightarrow> OWN_NUMBER \<notin> K \<Longrightarrow> data_inv c"
  by (induction rule: data_reach.induct) (auto simp: data_inv_new dest: data_step_inv)

lemma data_reach_own: "data_reach K c \<Longrightarrow> USER_NUMBER \<notin> K \<Longrightarrow> RESET \<notin> K \<Longrightarrow> data_inv c \<and> reqnos_below c"
proof (induction rule: data_reach.induct)
  case new
  show ?case using data_inv_new by (simp add: reqnos_below_def fresh_data_def req_list_def)
next
  case (step K c k c')
  then have c: "data_inv c" "reqnos_below c" and k: "k = OWN_NUMBER \<or> k = OTHER" by (cases k; auto)+
  from k show ?case
  proof
    assume "k = OWN_NUMBER"
    then show ?thesis using step.hyps(2) c data_step_inv(1) own_step_below by blast
  next
    assume k: "k = OTHER"
    then have "fewer_keys c c'" using step.hyps(2) other_step_keys by simp
    then show ?thesis using step.hyps(2) c k data_step_inv(2) fewer_keys_below by blast
  qed
qed

section \<open>Properties\<close>

text \<open>C4. Every sequence of insertions by \<open>gamin_data_add_req2\<close> and deletions by
  \<open>gamin_data_del_req\<close>, in any order and with any numbers, followed by a lookup with
  \<open>gamin_data_get_req\<close>, gives what the same sequence gives on a finite map: the sorted array and its
  two bisections implement a map in which the first insertion under a number wins.\<close>

theorem request_table_refines_map:
  assumes "data_inv c"
  shows "table_lookup (table_run table_ins table_del os c) =
    table_run (map_ins (\<lambda>n (f, ty, u). new_req f ty u n)) map_del os (req_map c)"
  using rt.run_refines [OF assms, of os] by (simp add: table_lookup_map [OF assms])

theorem request_table_refines_map_witness:
  "table_lookup (table_run table_ins table_del
      [Ins 7 (''/a'', 1, 0), Ins 3 (''/b'', 2, 0), Ins 7 (''/c'', 1, 9), Del 3] fresh_data) 7 =
    Some (new_req ''/a'' 1 0 7)"
  unfolding request_table_refines_map [OF data_inv_new]
  by (simp add: map_ins_def map_del_def req_map_def req_list_def fresh_data_def)

text \<open>\<open>gamin_data_add_req2\<close> on every branch: a number that is in the table is refused and nothing
  changes; otherwise the request is entered exactly when both allocations succeed, and then it is
  found under its number, every other number keeps its request, and the slots in use stay within
  the capacity of the allocated array.\<close>

theorem add_req2_all_branches:
  assumes "data_inv c"
  shows "case gamin_data_add_req2 tab_ok req_ok f ty u n c of
      (None, c') \<Rightarrow> table_lookup c' = table_lookup c \<and>
        (table_lookup c n \<noteq> None \<or> \<not> fst (gamin_allocate_request tab_ok req_ok c))
    | (Some r, c') \<Rightarrow> table_lookup c n = None \<and> table_lookup c' = (table_lookup c)(n \<mapsto> r) \<and>
        req_nr c' = Suc (req_nr c) \<and> req_nr c' \<le> gd_req_max c'"
proof -
  obtain r c' where e: "gamin_data_add_req2 tab_ok req_ok f ty u n c = (r, c')" by fastforce
  note upd = add_req2_update [OF assms, where tab_ok = tab_ok and req_ok = req_ok and f = f and ty = ty
      and u = u and n = n]
  have inv: "data_inv c'" using add_req2_inv [OF assms, of tab_ok req_ok f ty u n] e by simp
  show ?thesis
  proof (cases r)
    case None
    then show ?thesis using upd e inv assms by (simp add: table_lookup_map)
  next
    case (Some q)
    with upd e have n: "n \<notin> set (keys (req_list c))"
      by (simp add: req_map_def map_of_keyed_None)
    have "gd_req_tab c' \<noteq> None \<and> req_nr c' = Suc (req_nr c)"
      by (rule add_req2_absent [OF assms n, of tab_ok req_ok f ty u])
         (use Some e in \<open>auto simp: split_beta split: if_splits\<close>)
    with Some show ?thesis using upd e inv assms by (simp add: table_lookup_map data_inv_def)
  qed
qed

theorem add_req2_all_branches_witness:
  "case gamin_data_add_req2 True True ''/a'' 1 0 4 fresh_data of
      (None, c') \<Rightarrow> False | (Some r, c') \<Rightarrow> table_lookup c' 4 = Some r"
  using add_req2_all_branches [OF data_inv_new, where tab_ok = True and req_ok = True and
      f = "''/a''" and ty = 1 and u = 0 and n = 4]
  by (simp add: gamin_allocate_request_def gamin_data_add_req2_def gamin_data_get_req_loc_def
      fresh_data_def req_list_def nth_opt_def Let_def)

text \<open>C25. From a new connection, whatever calls are made in whatever order, the table stays within its capacity and the
  event buffer never holds more than a packet. The table is sorted and without duplicates as long as the library has
  numbered no request itself, or has numbered all of them and did not start its numbers again; the two lemmas behind
  this theorem show that the order is lost otherwise.\<close>

theorem data_reachable_inv:
  assumes "data_reach K c"
  shows "(gd_req_tab c \<noteq> None \<longrightarrow> 0 < gd_req_max c \<and> req_nr c \<le> gd_req_max c) \<and> length (gd_event c) \<le> sizeof_GAMPacket \<and>
    (OWN_NUMBER \<notin> K \<or> (USER_NUMBER \<notin> K \<and> RESET \<notin> K) \<longrightarrow> sorted_wrt (<) (map rq_reqno (req_list c)))"
  using data_reach_bounds [OF assms] data_reach_user [OF assms] data_reach_own [OF assms]
  by (auto simp: data_bounds_def data_inv_def reqs_sorted_def)

theorem data_reachable_inv_witness:
  "sorted_wrt (<) (map rq_reqno (req_list (snd (gamin_data_get_request True True ''/a'' 1 0 4 (gamin_data_lock fresh_data)))))"
proof -
  have "data_reach (insert USER_NUMBER (insert OTHER {})) (snd (gamin_data_get_request True True ''/a'' 1 0 4 (gamin_data_lock fresh_data)))"
    by (rule data_reach.step [OF data_reach.step [OF data_reach.new data_step.lock] data_step.add_req2])
  from data_reachable_inv [OF this] show ?thesis by simp
qed

text \<open>The request numbers of \<open>gamin_data_add_req\<close> are not always increasing: after a request that the
  user numbered 5 the library's own request 1 is appended behind it, and the bisection no longer
  finds it.\<close>

lemma add_req_after_add_req2:
  "let c = snd (gamin_data_add_req2 True True ''/a'' 1 0 5 fresh_data);
       (req, c') = gamin_data_add_req True True ''/b'' 1 0 c
   in map_option rq_reqno req = Some 1 \<and> keys (req_list c') = [5, 1] \<and>
      gamin_data_get_req c' 1 = None"
  by code_simp

text \<open>\<open>gamin_data_reset\<close> starts the numbers again at 1 with the table still full: the next request gets
  a number that is in use, and the lookup finds the old one.\<close>

lemma add_req_after_reset:
  "let c = snd (gamin_data_add_req True True ''/a'' 1 0 fresh_data);
       c1 = snd (snd (gamin_data_reset c));
       (req, c') = gamin_data_add_req True True ''/b'' 1 0 c1
   in map_option rq_reqno req = Some 1 \<and> keys (req_list c') = [1, 1] \<and>
      map_option rq_filename (table_lookup c' 1) = Some ''/a''"
  by code_simp

end
