(* ===== verification/Gam_Delivery.thy ===== *)
theory Gam_Delivery
  imports Gam_Request_Table
begin

text \<open>
  From the bytes the client reads off its socket to the events it hands to the user. The
  specification works on whole packets (\<open>client_packets\<close>); the theorems show that the code, which
  gets the bytes in pieces of any size, delivers the same events in the same order.
\<close>

section \<open>Specification\<close>

definition wf_packet :: "GAMPacket \<Rightarrow> bool" where
  "wf_packet p \<longleftrightarrow> p_version p = GAM_PROTO_VERSION \<and> 0 < length (p_path p) \<and>
     length (p_path p) \<le> MAXPATHLEN \<and> unat (p_pathlen p) = length (p_path p) \<and>
     unat (p_len p) = GAM_PACKET_HEADER_LEN + length (p_path p)"

definition packet_event :: "GAMPacket \<Rightarrow> cptr \<Rightarrow> FAMEvent" where
  "packet_event p u =
     \<lparr>fe_reqnum = uint (p_seq p), fe_filename = c_string (p_path p), fe_userdata = u,
      fe_code = uint (p_type p)\<rparr>"

text \<open>What one whole packet does to a connection: the event it gives, if any, and the new state.\<close>

definition client_packet :: "GAMPacket \<Rightarrow> GAMData \<Rightarrow> FAMEvent list \<times> GAMData" where
  "client_packet p c =
     (let c1 = snd (gamin_data_conn_event (packet_bytes p) c) in
      if gd_evn_ready c1 then
        ([packet_event p (gd_evn_userdata c1)],
         if uint (p_type p) = FAMAcknowledge
         then snd (gamin_data_del_req (uint (p_seq p)) (c1\<lparr>gd_evn_ready := False\<rparr>))
         else c1\<lparr>gd_evn_ready := False\<rparr>)
      else ([], c1))"

fun client_packets :: "GAMPacket list \<Rightarrow> GAMData \<Rightarrow> FAMEvent list \<times> GAMData" where
  "client_packets [] c = ([], c)"
| "client_packets (p # ps) c =
     (let (evs, c1) = client_packet p c; (evs', c2) = client_packets ps c1 in (evs @ evs', c2))"

definition stream :: "GAMPacket list \<Rightarrow> string" where
  "stream ps = concat (map packet_bytes ps)"

text \<open>\<open>partial_of ps t\<close>: \<open>t\<close> is a proper beginning of the first packet of \<open>ps\<close>.\<close>

definition partial_of :: "GAMPacket list \<Rightarrow> string \<Rightarrow> bool" where
  "partial_of ps t \<longleftrightarrow>
     (case ps of [] \<Rightarrow> t = []
      | p # _ \<Rightarrow> length t < length (packet_bytes p) \<and> t = take (length t) (packet_bytes p))"

section \<open>The packet at the start of the buffer\<close>

lemma hdr_path_packet [wire_simps]: "wf_packet p \<Longrightarrow> hdr_path (packet_bytes p @ r) = p_path p"
  unfolding hdr_path_def drop_header_packet_bytes hdr_packet_bytes by (simp add: wf_packet_def)

lemma bad_header_packet [wire_simps]: "wf_packet p \<Longrightarrow> \<not> bad_header (packet_bytes p @ r)"
  by (simp add: bad_header_def wf_packet_def wire_simps size_defs)

lemma next_packet_packet [wire_simps]: "wf_packet p \<Longrightarrow> next_packet (packet_bytes p @ r) = r"
  unfolding next_packet_def hdr_packet_bytes
  by (simp only: add.commute [of GAM_PACKET_HEADER_LEN] drop_header_packet_bytes flip: drop_drop)
     (simp add: wf_packet_def)

lemma rd16_take: "Suc i < k \<Longrightarrow> rd16 (take k b) i = rd16 b i"
  by (simp add: rd16_def)

lemma bad_header_take: "GAM_PACKET_HEADER_LEN \<le> k \<Longrightarrow> bad_header (take k b) = bad_header b"
  by (simp add: bad_header_def rd16_take size_defs)

section \<open>Events and the buffer\<close>

lemma get_req_event [frame_simps]: "gamin_data_get_req (c\<lparr>gd_event := e\<rparr>) n = gamin_data_get_req c n"
  by (simp add: gamin_data_get_req_def gamin_data_get_req_idx_def frame_simps)

lemma accept_event_update [frame_simps]:
  "accept_event b u (c\<lparr>gd_event := e\<rparr>) =
     (let (r, c') = accept_event b u c in (r, c'\<lparr>gd_event := e\<rparr>))"
  by (simp add: accept_event_def Let_def)

lemma set_req_state_event [frame_simps]:
  "set_req_state i st (c\<lparr>gd_event := e\<rparr>) = (set_req_state i st c)\<lparr>gd_event := e\<rparr>"
  by (simp add: set_req_state_def frame_simps)

lemma conn_event_update [frame_simps]:
  "gamin_data_conn_event b (c\<lparr>gd_event := e\<rparr>) =
     (let (r, c') = gamin_data_conn_event b c in (r, c'\<lparr>gd_event := e\<rparr>))"
  by (simp add: gamin_data_conn_event_def frame_simps Let_def split: option.split GAMReqState.split)

lemma del_req_event [frame_simps]:
  "snd (gamin_data_del_req n (c\<lparr>gd_event := e\<rparr>)) = (snd (gamin_data_del_req n c))\<lparr>gd_event := e\<rparr>"
  by (simp add: gamin_data_del_req_def gamin_data_get_req_idx_def frame_simps Let_def)

lemma conn_event_header:
  "rd16 b 4 = rd16 b' 4 \<Longrightarrow> rd16 b 6 = rd16 b' 6 \<Longrightarrow>
     gamin_data_conn_event b c = gamin_data_conn_event b' c"
proof -
  assume "rd16 b 4 = rd16 b' 4" "rd16 b 6 = rd16 b' 6"
  moreover from this have "accept_event b = accept_event b'"
    by (simp add: accept_event_def fun_eq_iff)
  ultimately show ?thesis
    by (simp add: gamin_data_conn_event_def split: option.split GAMReqState.split)
qed

lemma conn_event_packet [wire_simps]:
  "gamin_data_conn_event (packet_bytes p @ r) c = gamin_data_conn_event (packet_bytes p) c"
  using hdr_packet_bytes [of p "[]"] by (intro conn_event_header) (simp_all add: wire_simps)

lemma accept_event_result:
  "\<not> gd_evn_ready c \<Longrightarrow> accept_event b u c = (r, c') \<Longrightarrow>
     0 \<le> r \<and> (gd_evn_ready c' \<longrightarrow> gd_evn_reqnum c' = uint (hdr_seq b) \<and> gd_evn_userdata c' = u)"
  by (auto simp: accept_event_def Let_def split: if_splits)

lemma set_req_state_ready [frame_simps]: "gd_evn_ready (set_req_state i st c) = gd_evn_ready c"
  by (simp add: set_req_state_def)

lemma conn_event_result:
  "\<not> gd_evn_ready c \<Longrightarrow> gamin_data_conn_event b c = (r, c') \<Longrightarrow>
     0 \<le> r \<and> (gd_evn_ready c' \<longrightarrow> gd_evn_reqnum c' = uint (hdr_seq b))"
  by (auto simp: gamin_data_conn_event_def frame_simps Let_def
      split: option.splits GAMReqState.splits if_splits dest!: accept_event_result [rotated])

section \<open>The loop over the buffer\<close>

definition loop_stops :: "string \<Rightarrow> bool" where
  "loop_stops b \<longleftrightarrow> length b < GAM_PACKET_HEADER_LEN \<or> bad_header b \<or> length b < hdr_len b"

lemma conn_data_loop_stop: "loop_stops (gd_event c) \<Longrightarrow> snd (conn_data_loop c) = c"
  by (subst conn_data_loop.simps) (auto simp: loop_stops_def Let_def)

lemma conn_data_loop_step:
  assumes "\<not> loop_stops (gd_event c)" "\<not> gd_evn_ready c"
  shows "conn_data_loop c =
    (let c1 = snd (gamin_data_conn_event (gd_event c) c) in
     if gd_evn_ready c1 then (0, c1)
     else if next_packet (gd_event c) = [] then (0, c1\<lparr>gd_event := []\<rparr>)
     else conn_data_loop (c1\<lparr>gd_event := next_packet (gd_event c)\<rparr>))"
proof -
  obtain r c1 where e: "gamin_data_conn_event (gd_event c) c = (r, c1)" by fastforce
  have "0 \<le> r" using conn_event_result [OF assms(2) e] by simp
  then show ?thesis
    using assms e by (subst conn_data_loop.simps) (auto simp: loop_stops_def Let_def)
qed

text \<open>Induction along the loop on a connection with no event ready.\<close>

lemma conn_data_loop_cases [consumes 1, case_names stop ready last step]:
  assumes "\<not> gd_evn_ready c"
    and stop: "\<And>c. \<not> gd_evn_ready c \<Longrightarrow> loop_stops (gd_event c) \<Longrightarrow> P c c"
    and ready: "\<And>c c1. \<not> gd_evn_ready c \<Longrightarrow> \<not> loop_stops (gd_event c) \<Longrightarrow>
      c1 = snd (gamin_data_conn_event (gd_event c) c) \<Longrightarrow> gd_evn_ready c1 \<Longrightarrow> P c c1"
    and last: "\<And>c c1. \<not> gd_evn_ready c \<Longrightarrow> \<not> loop_stops (gd_event c) \<Longrightarrow>
      c1 = snd (gamin_data_conn_event (gd_event c) c) \<Longrightarrow> \<not> gd_evn_ready c1 \<Longrightarrow>
      next_packet (gd_event c) = [] \<Longrightarrow> P c (c1\<lparr>gd_event := []\<rparr>)"
    and step: "\<And>c c1 c'. \<not> gd_evn_ready c \<Longrightarrow> \<not> loop_stops (gd_event c) \<Longrightarrow>
      c1 = snd (gamin_data_conn_event (gd_event c) c) \<Longrightarrow> \<not> gd_evn_ready c1 \<Longrightarrow>
      next_packet (gd_event c) \<noteq> [] \<Longrightarrow> P (c1\<lparr>gd_event := next_packet (gd_event c)\<rparr>) c' \<Longrightarrow> P c c'"
  shows "P c (snd (conn_data_loop c))"
  using assms(1)
proof (induction "length (gd_event c)" arbitrary: c rule: less_induct)
  case less
  show ?case
  proof (cases "loop_stops (gd_event c)")
    case True
    then show ?thesis using stop [OF less.prems] by (simp add: conn_data_loop_stop)
  next
    case False
    let ?c1 = "snd (gamin_data_conn_event (gd_event c) c)"
    have "length (next_packet (gd_event c)) < length (gd_event c)"
      using False by (auto simp: next_packet_def loop_stops_def bad_header_def)
    then show ?thesis
      using False less.prems less.hyps [of "?c1\<lparr>gd_event := next_packet (gd_event c)\<rparr>"]
        ready [of c ?c1] last [of c ?c1] step [of c ?c1]
      by (auto simp: conn_data_loop_step Let_def)
  qed
qed

lemma conn_data_loop_ready:
  assumes "\<not> gd_evn_ready c"
  shows "gd_evn_ready (snd (conn_data_loop c)) \<longrightarrow> \<not> loop_stops (gd_event (snd (conn_data_loop c)))"
  using assms by (induction rule: conn_data_loop_cases) auto

lemma conn_data_loop_length:
  assumes "\<not> gd_evn_ready c"
  shows "length (gd_event (snd (conn_data_loop c))) \<le> length (gd_event c)"
  using assms
proof (induction rule: conn_data_loop_cases)
  case (step c c1 c')
  then show ?case using length_next_packet_le [of "gd_event c"] by simp
qed auto

lemma conn_data_loop_idle:
  assumes "\<not> gd_evn_ready c"
  shows "\<not> gd_evn_ready (snd (conn_data_loop c)) \<longrightarrow>
     snd (conn_data_loop (snd (conn_data_loop c))) = snd (conn_data_loop c)"
  using assms
  by (induction rule: conn_data_loop_cases)
    (auto intro!: conn_data_loop_stop simp: loop_stops_def size_defs)

section \<open>Draining the buffer\<close>

text \<open>What the loop of a client around \<^verbatim>\<open>FAMPending\<close> and \<^verbatim>\<open>FAMNextEvent\<close> does with the buffered bytes:
  take out events while one is ready.\<close>

lemma event_ready_unready:
  "\<not> gd_evn_ready c \<Longrightarrow> length (gd_event c) \<le> sizeof_GAMPacket \<Longrightarrow>
     gamin_data_event_ready c =
       (let c1 = snd (conn_data_loop c) in (if gd_evn_ready c1 then 1 else 0, c1))"
  by (auto simp: gamin_data_event_ready_def gamin_data_conn_data_def conn_data_loop_stop
      loop_stops_def size_defs Let_def)

lemma read_event_length:
  "length (gd_event (snd (snd (gamin_data_read_event c)))) \<le> length (gd_event c)"
  "gd_evn_ready c \<Longrightarrow> \<not> loop_stops (gd_event c) \<Longrightarrow>
     length (gd_event (snd (snd (gamin_data_read_event c)))) < length (gd_event c)"
  by (auto simp: gamin_data_read_event_def Let_def length_next_packet_le frame_simps
      next_packet_def loop_stops_def bad_header_def)

lemma read_event_unready: "\<not> gd_evn_ready (snd (snd (gamin_data_read_event c)))"
  by (auto simp: gamin_data_read_event_def Let_def frame_simps)

function drain :: "GAMData \<Rightarrow> FAMEvent list \<times> GAMData" where
  "drain c =
     (if fst (gamin_data_event_ready c) = 1 then
        (case gamin_data_read_event (snd (gamin_data_event_ready c)) of
           (r, None, c1) \<Rightarrow> ([], c1)
         | (r, Some ev, c1) \<Rightarrow> (let (evs, c2) = drain c1 in (ev # evs, c2)))
      else ([], snd (gamin_data_event_ready c)))"
  by pat_completeness auto
termination
proof (relation "measure (\<lambda>c. 2 * length (gd_event c) + (if gd_evn_ready c then 1 else 0))")
  fix c r x o' c1 ev
  assume ready: "fst (gamin_data_event_ready c) = 1"
    and rd: "(r, x) = gamin_data_read_event (snd (gamin_data_event_ready c))" "(o', c1) = x" "o' = Some ev"
  define c0 where "c0 = snd (gamin_data_event_ready c)"
  have c1: "\<not> gd_evn_ready c1" "length (gd_event c1) \<le> length (gd_event c0)"
      "gd_evn_ready c0 \<Longrightarrow> \<not> loop_stops (gd_event c0) \<Longrightarrow> length (gd_event c1) < length (gd_event c0)"
    using read_event_unready [of c0] read_event_length [of c0]
    by (simp_all add: c0_def flip: rd)
  show "(c1, c) \<in> measure (\<lambda>c. 2 * length (gd_event c) + (if gd_evn_ready c then 1 else 0))"
  proof (cases "gd_evn_ready c")
    case True
    then have "c0 = c" by (simp add: c0_def gamin_data_event_ready_def)
    with True c1 show ?thesis by simp
  next
    case False
    with ready have "length (gd_event c) \<le> sizeof_GAMPacket"
      by (auto simp: gamin_data_event_ready_def gamin_data_conn_data_def split: if_splits)
    with False ready have "c0 = snd (conn_data_loop c)" "gd_evn_ready (snd (conn_data_loop c))"
      by (auto simp: event_ready_unready c0_def split: if_splits)
    with False c1 conn_data_loop_ready [OF False] conn_data_loop_length [OF False] show ?thesis
      by auto
  qed
qed simp

declare drain.simps [simp del]

lemma drain_unready:
  assumes "\<not> gd_evn_ready c" "length (gd_event c) \<le> sizeof_GAMPacket"
  shows "drain c =
    (let c1 = snd (conn_data_loop c) in
     if gd_evn_ready c1 then
       (case gamin_data_read_event c1 of
          (r, None, c2) \<Rightarrow> ([], c2)
        | (r, Some ev, c2) \<Rightarrow> (let (evs, c3) = drain c2 in (ev # evs, c3)))
     else ([], c1))"
  using assms by (subst drain.simps) (simp add: event_ready_unready)

lemma drain_ready:
  assumes "gd_evn_ready c"
  shows "drain c = (case gamin_data_read_event c of
          (r, None, c2) \<Rightarrow> ([], c2)
        | (r, Some ev, c2) \<Rightarrow> (let (evs, c3) = drain c2 in (ev # evs, c3)))"
  using assms by (subst drain.simps) (simp add: gamin_data_event_ready_def)

lemma drain_stop:
  "\<not> gd_evn_ready c \<Longrightarrow> length (gd_event c) \<le> sizeof_GAMPacket \<Longrightarrow> loop_stops (gd_event c) \<Longrightarrow>
     drain c = ([], c)"
  by (simp add: drain_unready conn_data_loop_stop)

text \<open>Bytes handed to \<open>gamin_data_conn_data\<close> and then drained act as if they had been in the buffer.\<close>

lemma drain_conn_data:
  assumes "\<not> gd_evn_ready c" "length (gd_event c) + length bs \<le> sizeof_GAMPacket"
  shows "drain (snd (gamin_data_conn_data bs c)) = drain (c\<lparr>gd_event := gd_event c @ bs\<rparr>)"
proof -
  let ?c = "c\<lparr>gd_event := gd_event c @ bs\<rparr>"
  have un: "\<not> gd_evn_ready ?c" "length (gd_event ?c) \<le> sizeof_GAMPacket" using assms by simp_all
  have cd: "snd (gamin_data_conn_data bs c) = snd (conn_data_loop ?c)"
    using assms by (simp add: gamin_data_conn_data_def)
  show ?thesis
  proof (cases "gd_evn_ready (snd (conn_data_loop ?c))")
    case True
    then show ?thesis using un by (simp add: cd drain_ready drain_unready)
  next
    case False
    then show ?thesis
      using un conn_data_loop_idle [OF un(1)] conn_data_loop_length [OF un(1)]
      by (simp add: cd drain_unready)
  qed
qed

lemma not_loop_stops_packet: "wf_packet p \<Longrightarrow> \<not> loop_stops (packet_bytes p @ r)"
  by (simp add: loop_stops_def wire_simps) (simp add: wf_packet_def)

lemma read_event_packet:
  assumes "wf_packet p" "gd_evn_ready c" "gd_event c = packet_bytes p @ r"
    "gd_evn_reqnum c = uint (p_seq p)"
  shows "gamin_data_read_event c = (0, Some (packet_event p (gd_evn_userdata c)),
     (if uint (p_type p) = FAMAcknowledge
      then snd (gamin_data_del_req (uint (p_seq p)) (c\<lparr>gd_evn_ready := False\<rparr>))
      else c\<lparr>gd_evn_ready := False\<rparr>)\<lparr>gd_event := r\<rparr>)"
  using assms by (simp add: gamin_data_read_event_def wire_simps packet_event_def)

lemma drain_packet:
  assumes "wf_packet p" "\<not> gd_evn_ready c" "gd_event c = packet_bytes p @ r"
    "length (gd_event c) \<le> sizeof_GAMPacket"
  shows "drain c =
    (let (evs, c1) = client_packet p c; (evs', c2) = drain (c1\<lparr>gd_event := r\<rparr>) in (evs @ evs', c2))"
proof -
  obtain q c1 where e: "gamin_data_conn_event (packet_bytes p) c = (q, c1)" by fastforce
  have loop: "snd (conn_data_loop c) =
      (if gd_evn_ready c1 then c1 else if r = [] then c1\<lparr>gd_event := []\<rparr>
       else snd (conn_data_loop (c1\<lparr>gd_event := r\<rparr>)))"
    using conn_data_loop_step [of c] assms e not_loop_stops_packet [OF assms(1)]
    by (simp add: wire_simps)
  show ?thesis
  proof (cases "gd_evn_ready c1")
    case True
    have "gd_evn_reqnum c1 = uint (p_seq p)"
      using conn_event_result [OF assms(2) e] True hdr_packet_bytes [of p "[]"] by simp
    moreover have "gd_event c1 = packet_bytes p @ r"
      using conn_event_event [of "packet_bytes p" c] e assms(3) by simp
    ultimately show ?thesis
      using True e assms loop read_event_packet [OF assms(1) True]
      by (simp add: drain_unready client_packet_def)
  next
    case False
    have "drain c = drain (c1\<lparr>gd_event := r\<rparr>)"
      using assms False loop
      by (auto simp: drain_unready conn_data_loop_stop loop_stops_def size_defs)
    then show ?thesis using False e by (simp add: client_packet_def split_beta)
  qed
qed

section \<open>Streams of packets\<close>

lemma client_packet_update [frame_simps]:
  "client_packet p (c\<lparr>gd_event := e\<rparr>) =
     (fst (client_packet p c), (snd (client_packet p c))\<lparr>gd_event := e\<rparr>)"
proof -
  have sw: "c1\<lparr>gd_event := e, gd_evn_ready := False\<rparr> = c1\<lparr>gd_evn_ready := False, gd_event := e\<rparr>" for c1
    by simp
  show ?thesis
    by (simp add: client_packet_def frame_simps split_beta sw del: GAMData.update_convs)
qed

lemma client_packets_update [frame_simps]:
  "client_packets ps (c\<lparr>gd_event := e\<rparr>) =
     (fst (client_packets ps c), (snd (client_packets ps c))\<lparr>gd_event := e\<rparr>)"
  by (induction ps arbitrary: c) (simp_all add: frame_simps split_beta)

lemma client_packet_unready:
  "\<not> gd_evn_ready c \<Longrightarrow> \<not> gd_evn_ready (snd (client_packet p c))"
  by (simp add: client_packet_def frame_simps)

lemma client_packets_append:
  "client_packets (ps @ qs) c =
     (let (evs, c1) = client_packets ps c; (evs', c2) = client_packets qs c1 in (evs @ evs', c2))"
  by (induction ps arbitrary: c) (simp_all add: split_beta)

lemma client_packets_unready:
  "\<not> gd_evn_ready c \<Longrightarrow> \<not> gd_evn_ready (snd (client_packets ps c))"
  by (induction ps arbitrary: c) (simp_all add: split_beta client_packet_unready)

lemma stream_simps [simp]:
  "stream [] = []" "stream (p # ps) = packet_bytes p @ stream ps"
  "stream (ps @ qs) = stream ps @ stream qs"
  by (simp_all add: stream_def)

lemma partial_stops:
  assumes "list_all wf_packet ps" "partial_of ps t"
  shows "loop_stops t"
proof (cases ps)
  case (Cons p qs)
  then have t: "length t < length (packet_bytes p)" "t = take (length t) (packet_bytes p)"
    using assms(2) by (simp_all add: partial_of_def)
  show ?thesis
  proof (cases "length t < GAM_PACKET_HEADER_LEN")
    case False
    have "hdr_len t = hdr_len (packet_bytes p)"
      using False rd16_take [of 0 "length t" "packet_bytes p"] by (simp add: size_defs flip: t(2))
    then show ?thesis
      using t(1) assms(1) Cons hdr_packet_bytes(1) [of p "[]"]
      by (simp add: loop_stops_def wf_packet_def)
  qed (simp add: loop_stops_def)
qed (use assms in \<open>simp add: partial_of_def loop_stops_def size_defs\<close>)

lemma drain_stream:
  "list_all wf_packet ps \<Longrightarrow> list_all wf_packet qs \<Longrightarrow> partial_of qs t \<Longrightarrow> \<not> gd_evn_ready c \<Longrightarrow>
     gd_event c = stream ps @ t \<Longrightarrow> length (gd_event c) \<le> sizeof_GAMPacket \<Longrightarrow>
     drain c = (fst (client_packets ps c), (snd (client_packets ps c))\<lparr>gd_event := t\<rparr>)"
proof (induction ps arbitrary: c)
  case Nil
  then show ?case using drain_stop [of c] partial_stops [of qs t] by simp
next
  case (Cons p ps)
  let ?c1 = "(snd (client_packet p c))\<lparr>gd_event := stream ps @ t\<rparr>"
  have "drain c = (let (evs', c2) = drain ?c1 in (fst (client_packet p c) @ evs', c2))"
    using drain_packet [of p c "stream ps @ t"] Cons.prems by (simp add: split_beta)
  also have "drain ?c1 =
      (fst (client_packets ps ?c1), (snd (client_packets ps ?c1))\<lparr>gd_event := t\<rparr>)"
    using Cons.prems by (intro Cons.IH) (simp_all add: client_packet_unready)
  finally show ?case by (simp add: split_beta frame_simps)
qed

text \<open>Every beginning of a stream is some whole packets and a proper beginning of the next.\<close>

lemma stream_prefix_split:
  "list_all wf_packet ps \<Longrightarrow> x @ y = stream ps \<Longrightarrow>
     \<exists>qs rs t. ps = qs @ rs \<and> x = stream qs @ t \<and> t @ y = stream rs \<and> partial_of rs t"
proof (induction ps arbitrary: x)
  case Nil
  then show ?case by (simp add: partial_of_def)
next
  case (Cons p ps)
  show ?case
  proof (cases "length x < length (packet_bytes p)")
    case True
    have "x = take (length x) (x @ y)" by simp
    also have "\<dots> = take (length x) (packet_bytes p)" unfolding Cons.prems(2) using True by simp
    finally have "partial_of (p # ps) x" using True by (simp add: partial_of_def)
    then show ?thesis
      using Cons.prems(2) by (intro exI [of _ "[]"] exI [of _ "p # ps"] exI [of _ x]) simp
  next
    case False
    let ?n = "length (packet_bytes p)"
    define x' where "x' = drop ?n x"
    have "take ?n (x @ y) = packet_bytes p" "drop ?n (x @ y) = stream ps"
      unfolding Cons.prems(2) by simp_all
    with False have x: "x = packet_bytes p @ x'" "x' @ y = stream ps"
      using append_take_drop_id [of ?n x] by (simp_all add: x'_def)
    with Cons.IH [of x'] Cons.prems(1) obtain qs rs t
      where "ps = qs @ rs" "x' = stream qs @ t" "t @ y = stream rs" "partial_of rs t" by auto
    with x(1) show ?thesis by (intro exI [of _ "p # qs"] exI [of _ rs] exI [of _ t]) simp
  qed
qed

lemma partial_short: "list_all wf_packet ps \<Longrightarrow> partial_of ps t \<Longrightarrow> length t < sizeof_GAMPacket"
  by (cases ps) (auto simp: partial_of_def wf_packet_def size_defs)

section \<open>Receiving in pieces\<close>

text \<open>\<open>receive ns s c\<close>: \<open>s\<close> is what the server has sent and \<open>ns\<close> what the kernel is willing to return
  at each \<^verbatim>\<open>read\<close>. Each round reads up to the room that \<open>gamin_data_get_data\<close> names, hands the bytes
  to \<open>gamin_data_conn_data\<close> and drains the events. The last component is what is left unread.\<close>

fun receive :: "nat list \<Rightarrow> string \<Rightarrow> GAMData \<Rightarrow> FAMEvent list \<times> GAMData \<times> string" where
  "receive [] s c = ([], c, s)"
| "receive (n # ns) s c =
     (let k = min n (snd (gamin_data_get_data c));
          (evs, c1) = drain (snd (gamin_data_conn_data (take k s) c));
          (evs', c2, s') = receive ns (drop k s) c1
      in (evs @ evs', c2, s'))"

lemma receive_splits:
  "list_all wf_packet ps \<Longrightarrow> \<not> gd_evn_ready c \<Longrightarrow> partial_of ps (gd_event c) \<Longrightarrow>
     gd_event c @ s = stream ps \<Longrightarrow> list_all (\<lambda>n. 0 < n) ns \<Longrightarrow> receive ns s c = (evs, c', s') \<Longrightarrow>
     \<exists>qs rs t. ps = qs @ rs \<and> partial_of rs t \<and> t @ s' = stream rs \<and>
       evs = fst (client_packets qs c) \<and> c' = (snd (client_packets qs c))\<lparr>gd_event := t\<rparr> \<and>
       length s' \<le> length s - length ns"
proof (induction ns s c arbitrary: ps evs rule: receive.induct)
  case (1 s c)
  then show ?case
    by (intro exI [of _ "[]"] exI [of _ ps] exI [of _ "gd_event c"]) (auto simp: split_beta)
next
  case (2 n ns s c)
  define k where "k = min n (snd (gamin_data_get_data c))"
  let ?x = "gd_event c @ take k s"
  have room: "length ?x \<le> sizeof_GAMPacket"
    using partial_short [OF "2.prems"(1,3)] by (simp add: k_def gamin_data_get_data_def)
  have "0 < k" using "2.prems"(5) partial_short [OF "2.prems"(1,3)]
    by (simp add: k_def gamin_data_get_data_def)
  obtain qs rs t where split: "ps = qs @ rs" "?x = stream qs @ t" "t @ drop k s = stream rs"
      "partial_of rs t"
    using stream_prefix_split [OF "2.prems"(1), of ?x "drop k s"] "2.prems"(4) by auto
  let ?c1 = "(snd (client_packets qs c))\<lparr>gd_event := t\<rparr>"
  have "drain (c\<lparr>gd_event := ?x\<rparr>) = (fst (client_packets qs (c\<lparr>gd_event := ?x\<rparr>)),
      (snd (client_packets qs (c\<lparr>gd_event := ?x\<rparr>)))\<lparr>gd_event := t\<rparr>)"
    using "2.prems"(1,2) split room by (intro drain_stream [of qs rs]) auto
  then have dr: "drain (snd (gamin_data_conn_data (take k s) c)) = (fst (client_packets qs c), ?c1)"
    using drain_conn_data [OF "2.prems"(2), of "take k s"] room by (simp add: frame_simps)
  obtain evs1 c2 s2 where r: "receive ns (drop k s) ?c1 = (evs1, c2, s2)" by (metis prod_cases3)
  then have rec: "receive ns (drop k s) ?c1 = (evs1, c', s')" "evs = fst (client_packets qs c) @ evs1"
    using "2.prems"(6) dr by (simp_all flip: k_def)
  have "\<exists>qs' rs' t'. rs = qs' @ rs' \<and> partial_of rs' t' \<and> t' @ s' = stream rs' \<and>
       evs1 = fst (client_packets qs' ?c1) \<and> c' = (snd (client_packets qs' ?c1))\<lparr>gd_event := t'\<rparr> \<and>
       length s' \<le> length (drop k s) - length ns"
    using "2.IH" [OF k_def dr [symmetric] refl] "2.prems"(1,2,5) split(1,3,4) rec(1)
    by (simp add: client_packets_unready)
  then obtain qs' rs' t' where "rs = qs' @ rs'" "partial_of rs' t'" "t' @ s' = stream rs'"
       "evs1 = fst (client_packets qs' ?c1)" "c' = (snd (client_packets qs' ?c1))\<lparr>gd_event := t'\<rparr>"
       "length s' \<le> length (drop k s) - length ns" by blast
  then show ?case
    using split(1) rec(2) \<open>0 < k\<close>
    by (intro exI [of _ "qs @ qs'"] exI [of _ rs'] exI [of _ t'])
       (auto simp: client_packets_append split_beta frame_simps)
qed

section \<open>One packet\<close>

lemma wf_make_packet [wire_simps]:
  "path \<noteq> [] \<Longrightarrow> length path \<le> MAXPATHLEN \<Longrightarrow> wf_packet (make_packet seq type path)"
  by (simp add: wf_packet_def)

lemma uint_of_int_u16: "0 \<le> n \<Longrightarrow> n < 65536 \<Longrightarrow> uint (of_int n :: 16 word) = n"
  by (simp add: uint_word_of_int)

lemma get_req_map:
  assumes "data_inv c" "req_map c n = Some r"
  obtains i where "gamin_data_get_req c n = Some i" "i < req_nr c" "req_list c ! i = r"
proof -
  have "table_lookup c n = Some r" using assms by (simp add: table_lookup_map)
  then obtain i where i: "gamin_data_get_req c n = Some i" "req_list c ! i = r"
    by (auto simp: table_lookup_def)
  then show ?thesis using that get_req_Some [OF assms(1) i(1)] by simp
qed

lemma map_of_keyed_update:
  assumes "reqs_sorted t" "i < length t" "rq_reqno r = rq_reqno (t ! i)"
  shows "map_of (map (\<lambda>r. (rq_reqno r, r)) (t[i := r])) =
     (map_of (map (\<lambda>r. (rq_reqno r, r)) t))(rq_reqno r \<mapsto> r)"
proof -
  have "t[i := r] = insert_at i r (delete_at i t)"
    using assms(2) by (simp add: insert_at_def delete_at_def upd_conv_take_nth_drop min_def)
  moreover have "rq_reqno r \<notin> set (keys (delete_at i t))"
    using map_of_keyed_delete_at [OF assms(1,2) refl] assms(3)
    by (simp only: fun_upd_same flip: map_of_keyed_None)
  ultimately show ?thesis
    using map_of_keyed_insert_at [of "rq_reqno r" "delete_at i t" r i]
      map_of_keyed_delete_at [OF assms(1,2) refl] assms(3) by simp
qed

lemma set_req_state_map:
  assumes "data_inv c" "i < req_nr c" "req_list c ! i = r"
  shows "req_map (set_req_state i st c) = (req_map c)(rq_reqno r \<mapsto> r\<lparr>rq_state := st\<rparr>)"
  using map_of_keyed_update [OF data_inv_sorted [OF assms(1)] assms(2), of "r\<lparr>rq_state := st\<rparr>"] assms(3)
  by (simp add: req_map_def set_req_state_def)

lemma req_map_reqno: "req_map c n = Some r \<Longrightarrow> rq_reqno r = n"
  by (auto simp: req_map_def dest!: map_of_SomeD)

lemma accept_event_list [frame_simps]: "req_list (snd (accept_event b u c)) = req_list c"
  by (simp add: accept_event_def frame_simps)

lemma accept_event_live [simp]:
  "\<not> gd_restarted c \<Longrightarrow>
     accept_event b u c =
       (1, c\<lparr>gd_evn_ready := True, gd_evn_reqnum := uint (hdr_seq b), gd_evn_userdata := u\<rparr>)"
  by (simp add: accept_event_def)

text \<open>The request that a packet is for, and what the packet does when the request is running.\<close>

lemma client_packet_live:
  assumes "data_inv c" "\<not> gd_evn_ready c" "\<not> gd_restarted c" "req_map c (uint (p_seq p)) = Some r"
    "rq_state r = REQ_INIT \<or> rq_state r = REQ_CONFIRMED" "uint (p_type p) \<noteq> FAMAcknowledge"
  shows "fst (client_packet p c) = [packet_event p (rq_userData r)]"
    and "req_map (snd (client_packet p c)) = (req_map c)(uint (p_seq p) \<mapsto> r\<lparr>rq_state := REQ_CONFIRMED\<rparr>)"
proof -
  obtain i where i: "gamin_data_get_req c (uint (p_seq p)) = Some i" "i < req_nr c" "req_list c ! i = r"
    by (rule get_req_map [OF assms(1,4)])
  have rs: "gd_restarted (set_req_state i st c) = gd_restarted c" for st by (simp add: set_req_state_def)
  have hdr: "rd16 (packet_bytes p) 4 = p_seq p" "rd16 (packet_bytes p) 6 = p_type p"
    using hdr_packet_bytes [of p "[]"] by simp_all
  have conf: "r\<lparr>rq_state := REQ_CONFIRMED\<rparr> = r" if "rq_state r = REQ_CONFIRMED"
    using that by (cases r) simp
  show "fst (client_packet p c) = [packet_event p (rq_userData r)]"
    using assms i hdr by (auto simp: client_packet_def gamin_data_conn_event_def rs)
  show "req_map (snd (client_packet p c)) = (req_map c)(uint (p_seq p) \<mapsto> r\<lparr>rq_state := REQ_CONFIRMED\<rparr>)"
    using assms i hdr set_req_state_map [OF assms(1) i(2,3), of REQ_CONFIRMED]
      req_map_reqno [OF assms(4)]
    by (auto simp: client_packet_def gamin_data_conn_event_def rs frame_simps conf fun_upd_idem)
qed

lemma cancelled_conn_event:
  assumes "data_inv c" "req_map c (uint (p_seq p)) = Some r" "rq_state r = REQ_CANCELLED"
  shows "gamin_data_conn_event (packet_bytes p) c =
    (if uint (p_type p) = FAMAcknowledge then accept_event (packet_bytes p) (rq_userData r) c else (0, c))"
proof -
  obtain i where i: "gamin_data_get_req c (uint (p_seq p)) = Some i" "i < req_nr c" "req_list c ! i = r"
    by (rule get_req_map [OF assms(1,2)])
  have hdr: "rd16 (packet_bytes p) 4 = p_seq p" "rd16 (packet_bytes p) 6 = p_type p"
    using hdr_packet_bytes [of p "[]"] by simp_all
  show ?thesis using assms i hdr by (simp add: gamin_data_conn_event_def)
qed

lemma client_packet_ack:
  assumes "data_inv c" "\<not> gd_restarted c" "req_map c (uint (p_seq p)) = Some r"
    "rq_state r = REQ_CANCELLED" "uint (p_type p) = FAMAcknowledge"
  shows "fst (client_packet p c) = [packet_event p (rq_userData r)]"
    and "req_map (snd (client_packet p c)) = (req_map c)(uint (p_seq p) := None)"
proof -
  obtain i where i: "gamin_data_get_req c (uint (p_seq p)) = Some i" "i < req_nr c" "req_list c ! i = r"
    by (rule get_req_map [OF assms(1,3)])
  have hdr: "rd16 (packet_bytes p) 4 = p_seq p" "rd16 (packet_bytes p) 6 = p_type p"
    using hdr_packet_bytes [of p "[]"] by simp_all
  let ?c1 = "c\<lparr>gd_evn_reqnum := uint (p_seq p), gd_evn_userdata := rq_userData r, gd_evn_ready := False\<rparr>"
  have "data_inv ?c1" using assms(1) by (simp add: data_inv_def frame_simps)
  then have "req_map (snd (gamin_data_del_req (uint (p_seq p)) ?c1)) = (req_map ?c1)(uint (p_seq p) := None)"
    by (rule del_req_spec)
  moreover have "req_map ?c1 = req_map c" by (simp add: req_map_def frame_simps)
  ultimately show "req_map (snd (client_packet p c)) = (req_map c)(uint (p_seq p) := None)"
    using assms i hdr by (simp add: client_packet_def gamin_data_conn_event_def)
  show "fst (client_packet p c) = [packet_event p (rq_userData r)]"
    using assms i hdr by (simp add: client_packet_def gamin_data_conn_event_def)
qed

lemma cancel_map:
  assumes "data_inv c" "req_map c n = Some r" "rq_state r \<noteq> REQ_CANCELLED"
  shows "fst (gamin_data_cancel n c) = 1 \<and>
    req_map (snd (gamin_data_cancel n c)) = (req_map c)(n \<mapsto> r\<lparr>rq_state := REQ_CANCELLED\<rparr>)"
proof -
  obtain i where i: "gamin_data_get_req c n = Some i" "i < req_nr c" "req_list c ! i = r"
    by (rule get_req_map [OF assms(1,2)])
  with set_req_state_map [OF assms(1) i(2,3), of REQ_CANCELLED] req_map_reqno [OF assms(2)] assms(3)
  show ?thesis by (auto simp: gamin_data_cancel_def gamin_data_get_req_def split: if_splits)
qed

lemma cancel_frame [frame_simps]:
  "gd_evn_ready (snd (gamin_data_cancel n c)) = gd_evn_ready c"
  "gd_restarted (snd (gamin_data_cancel n c)) = gd_restarted c"
  "gd_event (snd (gamin_data_cancel n c)) = gd_event c"
  by (simp_all add: gamin_data_cancel_def set_req_state_def)

section \<open>Properties\<close>

text \<open>C2. However the kernel cuts the byte stream of the server into reads, as long as every read
  returns something, the client delivers exactly the events of the packets in the stream, in their
  order, ends with the buffer empty and has read everything after at most one read per byte.\<close>

theorem receive_any_chunks:
  assumes "list_all wf_packet ps" "\<not> gd_evn_ready c" "gd_event c = []"
    "list_all (\<lambda>n. 0 < n) ns" "length (stream ps) \<le> length ns"
  shows "receive ns (stream ps) c =
    (fst (client_packets ps c), (snd (client_packets ps c))\<lparr>gd_event := []\<rparr>, [])"
proof -
  obtain evs c' s' where r: "receive ns (stream ps) c = (evs, c', s')" by (metis prod_cases3)
  have part: "partial_of ps (gd_event c)"
    using assms(1,3) by (cases ps) (simp_all add: partial_of_def size_defs)
  obtain qs rs t where q: "ps = qs @ rs" "partial_of rs t" "t @ s' = stream rs"
      "evs = fst (client_packets qs c)" "c' = (snd (client_packets qs c))\<lparr>gd_event := t\<rparr>"
      "length s' \<le> length (stream ps) - length ns"
    using receive_splits [OF assms(1,2) part _ assms(4) r] assms(3) by auto
  then have "s' = []" using assms(5) by simp
  with q(2,3) have "rs = [] \<and> t = []" by (cases rs) (auto simp: partial_of_def)
  with q r \<open>s' = []\<close> show ?thesis by simp
qed

definition c_live :: GAMData where
  "c_live = snd (gamin_data_add_req True True ''/d'' 2 77 fresh_data)"

theorem receive_any_chunks_witness:
  "fst (receive (replicate 40 (5::nat))
      (stream [make_packet 1 8 ''/d'', make_packet 9 1 ''x'', make_packet 1 1 ''a'']) c_live) =
   [packet_event (make_packet 1 8 ''/d'') 77, packet_event (make_packet 1 1 ''a'') 77]"
proof -
  let ?ps = "[make_packet 1 8 ''/d'', make_packet 9 1 ''x'', make_packet 1 1 ''a'']"
  have "list_all wf_packet ?ps" by (simp add: wf_make_packet size_defs)
  moreover have "\<not> gd_evn_ready c_live" "gd_event c_live = []" by code_simp+
  moreover have "length (stream ?ps) \<le> length (replicate 40 (5::nat))" by (simp add: size_defs)
  ultimately have "receive (replicate 40 5) (stream ?ps) c_live =
      (fst (client_packets ?ps c_live), (snd (client_packets ?ps c_live))\<lparr>gd_event := []\<rparr>, [])"
    by (intro receive_any_chunks) (simp_all add: list_all_iff)
  moreover have "fst (client_packets ?ps c_live) =
      [packet_event (make_packet 1 8 ''/d'') 77, packet_event (make_packet 1 1 ''a'') 77]"
    by code_simp
  ultimately show ?thesis by simp
qed

text \<open>Delivery round trip: an event that the server sends for a running request, as the packet its
  \<open>gam_send_event\<close> builds, comes out of \<open>gamin_data_conn_data\<close> and \<open>gamin_data_read_event\<close> with the
  same request number, path and code and with the user data of the request; the request is then
  confirmed, the others are as they were and the bytes behind the packet stay in the buffer.\<close>

theorem event_delivery_roundtrip:
  assumes "data_inv c" "\<not> gd_evn_ready c" "gd_event c = []" "\<not> gd_restarted c"
    and "req_map c n = Some r" "rq_state r = REQ_INIT \<or> rq_state r = REQ_CONFIRMED"
    and "0 \<le> n" "n < 65536" "no_nul path" "path \<noteq> []" "length path \<le> MAXPATHLEN"
    and "uint type \<noteq> FAMAcknowledge" "length (packet_bytes (make_packet n type path) @ rest) \<le> sizeof_GAMPacket"
  shows "let c1 = snd (gamin_data_conn_data (packet_bytes (make_packet n type path) @ rest) c);
             (res, ev, c2) = gamin_data_read_event c1
         in gd_evn_ready c1 \<and> res = 0 \<and> gd_event c2 = rest \<and>
            ev = Some \<lparr>fe_reqnum = n, fe_filename = path, fe_userdata = rq_userData r, fe_code = uint type\<rparr> \<and>
            req_map c2 = (req_map c)(n \<mapsto> r\<lparr>rq_state := REQ_CONFIRMED\<rparr>)"
proof -
  let ?p = "make_packet n type path"
  let ?c0 = "c\<lparr>gd_event := packet_bytes ?p @ rest\<rparr>"
  have seq: "uint (p_seq ?p) = n" using assms(7,8) by (simp add: uint_of_int_u16)
  have wf: "wf_packet ?p" using assms(10,11) by (rule wf_make_packet)
  obtain q c1 where e: "gamin_data_conn_event (packet_bytes ?p) c = (q, c1)" by fastforce
  have cp: "fst (client_packet ?p c) = [packet_event ?p (rq_userData r)]"
      "req_map (snd (client_packet ?p c)) = (req_map c)(n \<mapsto> r\<lparr>rq_state := REQ_CONFIRMED\<rparr>)"
    using client_packet_live [OF assms(1,2,4), of ?p r] assms(5,6,12) seq by simp_all
  have rdy: "gd_evn_ready c1" and ud: "gd_evn_userdata c1 = rq_userData r"
    using cp(1) e by (auto simp: client_packet_def packet_event_def split: if_splits)
  have req: "gd_evn_reqnum c1 = uint (p_seq ?p)"
    using conn_event_result [OF assms(2) e] rdy hdr_packet_bytes [of ?p "[]"] by simp
  have "snd (gamin_data_conn_data (packet_bytes ?p @ rest) c) = c1\<lparr>gd_event := packet_bytes ?p @ rest\<rparr>"
    using assms(2,3,13) e rdy not_loop_stops_packet [OF wf] conn_data_loop_step [of ?c0]
    by (simp add: gamin_data_conn_data_def wire_simps frame_simps)
  moreover have "req_map (c1\<lparr>gd_evn_ready := False\<rparr>) = (req_map c)(n \<mapsto> r\<lparr>rq_state := REQ_CONFIRMED\<rparr>)"
    using cp(2) e rdy assms(12) by (simp add: client_packet_def)
  ultimately show ?thesis
    using rdy ud req assms(9,12) seq
      read_event_packet [OF wf, of "c1\<lparr>gd_event := packet_bytes ?p @ rest\<rparr>" rest]
    by (simp add: packet_event_def c_string_id frame_simps)
qed

theorem event_delivery_roundtrip_witness:
  "fst (snd (gamin_data_read_event (snd (gamin_data_conn_data
      (packet_bytes (make_packet 1 1 ''a'') @ ''zz'') c_live)))) =
    Some \<lparr>fe_reqnum = 1, fe_filename = ''a'', fe_userdata = 77, fe_code = 1\<rparr>"
proof -
  have "data_inv c_live"
    using add_req_spec [OF data_inv_new, where tab_ok = True and req_ok = True and f = "''/d''"
        and ty = 2 and u = 77]
    by (auto simp: c_live_def reqnos_below_def fresh_data_def req_list_def
        split: prod.splits option.splits)
  moreover have "\<not> gd_evn_ready c_live" "gd_event c_live = []" "\<not> gd_restarted c_live" by code_simp+
  moreover have "req_map c_live 1 = Some (new_req ''/d'' 2 77 1)" by code_simp
  ultimately show ?thesis
    using event_delivery_roundtrip [of c_live 1 "new_req ''/d'' 2 77 1" "''a''" 1 "''zz''"]
    by (simp add: new_req_def no_nul_def size_defs fam_defs split_beta)
qed

text \<open>C26. Cancelling a running request silences it. The call reports 1 and marks the request. An event that was accepted
  before stays, and reading it gives what it would have given. Of the packets for the request that come after, all
  are dropped and change nothing, but for the acknowledgement: it is accepted, and reading it delivers it and takes the
  request out of the table. Only while the events after a reconnection are skipped is the acknowledgement dropped too, and
  the request then stays in the table.\<close>

theorem cancel_until_ack:
  assumes "data_inv c" "req_map c n = Some r" "rq_state r \<noteq> REQ_CANCELLED" "uint (p_seq p) = n"
  shows "let (res, c1) = gamin_data_cancel n c in
    res = 1 \<and> req_map c1 = (req_map c)(n \<mapsto> r\<lparr>rq_state := REQ_CANCELLED\<rparr>) \<and>
    gd_evn_ready c1 = gd_evn_ready c \<and> fst (snd (gamin_data_read_event c1)) = fst (snd (gamin_data_read_event c)) \<and>
    (if uint (p_type p) = FAMAcknowledge \<and> \<not> gd_restarted c
     then fst (gamin_data_conn_event (packet_bytes p) c1) = 1 \<and>
          fst (client_packet p c1) = [packet_event p (rq_userData r)] \<and>
          req_map (snd (client_packet p c1)) = (req_map c)(n := None)
     else gamin_data_conn_event (packet_bytes p) c1 = (0, c1))"
proof -
  note cm = cancel_map [OF assms(1-3)]
  let ?c1 = "snd (gamin_data_cancel n c)"
  have c1: "data_inv ?c1" "req_map ?c1 (uint (p_seq p)) = Some (r\<lparr>rq_state := REQ_CANCELLED\<rparr>)"
    using assms cm by (simp_all add: cancel_inv)
  have ev: "gd_evn_reqnum ?c1 = gd_evn_reqnum c" "gd_evn_userdata ?c1 = gd_evn_userdata c"
    by (simp_all add: gamin_data_cancel_def set_req_state_def Let_def)
  have read: "fst (snd (gamin_data_read_event ?c1)) = fst (snd (gamin_data_read_event c))"
    using ev by (simp add: gamin_data_read_event_def Let_def frame_simps)
  have e: "gamin_data_conn_event (packet_bytes p) ?c1 =
      (if uint (p_type p) = FAMAcknowledge then accept_event (packet_bytes p) (rq_userData r) ?c1 else (0, ?c1))"
    using cancelled_conn_event [OF c1] by simp
  have d: "accept_event (packet_bytes p) (rq_userData r) ?c1 = (0, ?c1)" if "gd_restarted c" "uint (p_type p) = FAMAcknowledge"
    using that hdr_packet_bytes [of p "[]"] by (simp add: accept_event_def frame_simps fam_defs)
  show ?thesis
  proof (cases "uint (p_type p) = FAMAcknowledge \<and> \<not> gd_restarted c")
    case True
    then have "\<not> gd_restarted ?c1" by (simp add: frame_simps)
    with client_packet_ack [OF c1(1) this c1(2)] True cm read e assms(4) show ?thesis by (simp add: split_beta frame_simps)
  next
    case False
    then show ?thesis using cm read e d by (auto simp: split_beta frame_simps)
  qed
qed

theorem cancel_until_ack_witness:
  "gamin_data_conn_event (packet_bytes (make_packet 1 1 ''a'')) (snd (gamin_data_cancel 1 c_live)) =
     (0, snd (gamin_data_cancel 1 c_live))"
proof -
  have "data_inv c_live"
    using add_req_spec [OF data_inv_new, where tab_ok = True and req_ok = True and f = "''/d''"
        and ty = 2 and u = 77]
    by (auto simp: c_live_def reqnos_below_def fresh_data_def req_list_def
        split: prod.splits option.splits)
  moreover have "req_map c_live 1 = Some (new_req ''/d'' 2 77 1)" by code_simp
  ultimately show ?thesis
    using cancel_until_ack [of c_live 1 "new_req ''/d'' 2 77 1" "make_packet 1 1 ''a''"]
    by (simp add: new_req_def fam_defs split_beta)
qed

text \<open>The sequence number of a packet is an unsigned short, so the 65536th request of a connection
  has the packets of request 0 and its events come back under that number.\<close>

lemma seq_number_wraps: "make_packet (n + 65536) type path = make_packet n type path"
  by (simp add: make_packet_def)

end
