(* ===== verification/Gam_Api.thy ===== *)
theory Gam_Api
  imports Gam_Delivery
begin

unbundle bit_operations_syntax

text \<open>
  The public interface of the client library, \<^verbatim>\<open>libgamin/gam_api.c\<close>: connecting to the server, the
  \<^verbatim>\<open>FAM*\<close> calls, and the reconnection after the server went away.

  The state of a call is an \<open>api\<close>: \<^verbatim>\<open>FAMErrno\<close>, the heap of connection data that \<^verbatim>\<open>fc->client\<close> points
  into, and the kernel, that is the answers it gives to the coming system calls and what it has
  been told so far (the bytes taken on each descriptor, the descriptors closed, the servers
  launched). A call that uses connection data which is not allocated aborts, the value \<^term>\<open>None\<close>.
  The build is the Linux one: abstract sockets, \<^verbatim>\<open>SO_PEERCRED\<close>, no debug interface; the checks on a
  socket in the file system are modelled too, as the functions the other build calls.
\<close>

section \<open>The kernel\<close>

datatype sres = S_EINTR | S_ERR | S_N nat

text \<open>\<^verbatim>\<open>recvmsg\<close> answers with 0 at the end of the stream, which the code does not test for; \<open>M_EOF\<close> has the byte that is found
  in the variable nothing was stored in.\<close>

datatype mres = M_EINTR | M_ERR | M_BYTE char | M_EOF char

text \<open>A \<^verbatim>\<open>socket\<close> that fails, and a \<^verbatim>\<open>socket\<close> that succeeds with a \<^verbatim>\<open>connect\<close> that fails or succeeds.\<close>

datatype cres = C_NOSOCK | C_REFUSED int | C_CONNECTED int

record kern =
  k_writes :: "wres list"
  k_reads :: "rres list"
  k_selects :: "sres list"
  k_msgs :: "mres list"
  k_conns :: "cres list"
  k_dup2 :: bool
  k_close :: int
  k_uid :: int
  k_peer :: "int option"
  k_sent :: "int \<Rightarrow> string"
  k_closed :: "int list"
  k_forks :: "string list"

text \<open>Past the listed answers a \<^verbatim>\<open>write\<close> takes everything, a \<^verbatim>\<open>read\<close> finds the end of the stream, a
  \<^verbatim>\<open>select\<close> finds nothing, a message and a connection fail.\<close>

definition took :: "int \<Rightarrow> string \<Rightarrow> kern \<Rightarrow> kern" where
  "took fd bs k = k\<lparr>k_sent := (k_sent k)(fd := k_sent k fd @ bs)\<rparr>"

definition close_fd :: "int \<Rightarrow> kern \<Rightarrow> kern" where
  "close_fd fd k = k\<lparr>k_closed := k_closed k @ [fd]\<rparr>"

record api =
  a_errno :: int
  a_heap :: "cptr \<rightharpoonup> GAMData"
  a_kern :: kern

definition FAM_ARG :: int where "FAM_ARG = 1"

definition FAM_FILE :: int where "FAM_FILE = 2"

definition FAM_CONNECT :: int where "FAM_CONNECT = 3"

definition FAM_AUTH :: int where "FAM_AUTH = 4"

definition FAM_MEM :: int where "FAM_MEM = 5"

definition FAM_UNIMPLEM :: int where "FAM_UNIMPLEM = 6"

lemmas errno_defs = FAM_ARG_def FAM_FILE_def FAM_CONNECT_def FAM_AUTH_def FAM_MEM_def FAM_UNIMPLEM_def

definition set_errno :: "int \<Rightarrow> api \<Rightarrow> api" where
  "set_errno e a = a\<lparr>a_errno := e\<rparr>"

record FAMConnection =
  fc_fd :: int
  fc_client :: "cptr option"

section \<open>The path of the socket\<close>

text \<open>\<open>pw\<close> is the name in the password entry of the user, if there is one; \<open>name\<close> the static buffer.\<close>

definition gamin_get_user_name :: "string option \<Rightarrow> string \<Rightarrow> string" where
  "gamin_get_user_name pw name =
     (if name \<noteq> [] then name else case pw of None \<Rightarrow> name | Some s \<Rightarrow> take 99 s)"

definition gamin_get_socket_path :: "string option \<Rightarrow> string \<Rightarrow> string" where
  "gamin_get_socket_path client_id user =
     take (MAXPATHLEN - 1)
       (''/tmp/fam-'' @ user @ ''-'' @ (case client_id of None \<Rightarrow> [] | Some s \<Rightarrow> s))"

definition gamin_get_socket_dir :: "string \<Rightarrow> string" where
  "gamin_get_socket_dir user = take (MAXPATHLEN - 1) (''/tmp/fam-'' @ user)"

section \<open>Safety of a socket in the file system\<close>

text \<open>What \<^verbatim>\<open>stat\<close> says of a path: its owner, its kind and its permission bits.\<close>

datatype fkind = K_DIR | K_SOCK | K_REG | K_OTHER

record fstat =
  st_uid :: int
  st_kind :: fkind
  st_perm :: "16 word"

text \<open>The octal masks 0700 and 0077.\<close>

definition S_IRWXU :: "16 word" where "S_IRWXU = 448"

definition S_IRWXGO :: "16 word" where "S_IRWXGO = 63"

text \<open>The files at the two paths are looked at and removed by name; \<open>rm_ok p\<close> says whether \<^verbatim>\<open>rmdir\<close> or
  \<^verbatim>\<open>unlink\<close> removes path \<open>p\<close>.\<close>

type_synonym files = "string \<rightharpoonup> fstat"

definition gamin_check_secure_dir ::
  "int \<Rightarrow> (string \<Rightarrow> bool) \<Rightarrow> string \<Rightarrow> files \<Rightarrow> int \<times> files" where
  "gamin_check_secure_dir uid rm_ok dir fs =
     (case fs dir of
        None \<Rightarrow> (0, fs)
      | Some st \<Rightarrow>
          if st_uid st \<noteq> uid \<or> st_kind st \<noteq> K_DIR \<or> st_perm st AND S_IRWXGO \<noteq> 0 \<or>
             st_perm st AND S_IRWXU \<noteq> S_IRWXU
          then (if rm_ok dir then (0, fs(dir := None)) else (-1, fs))
          else (1, fs))"

definition gamin_check_secure_path ::
  "int \<Rightarrow> (string \<Rightarrow> bool) \<Rightarrow> string \<Rightarrow> string \<Rightarrow> files \<Rightarrow> int \<times> files" where
  "gamin_check_secure_path uid rm_ok dir path fs =
     (let (ret, fs1) = gamin_check_secure_dir uid rm_ok dir fs in
      if ret \<le> 0 then (ret, fs1)
      else
        (case fs1 path of
           None \<Rightarrow> (0, fs1)
         | Some st \<Rightarrow>
             if st_uid st \<noteq> uid \<or> st_kind st \<noteq> K_SOCK \<or> st_perm st AND S_IRWXGO \<noteq> 0
             then (if rm_ok path then (0, fs1(path := None)) else (-1, fs1))
             else (1, fs1)))"

section \<open>Connecting\<close>

definition MAX_RETRIES :: nat where "MAX_RETRIES = 25"

text \<open>The \<^verbatim>\<open>goto retry_start\<close> loop, on the answers to the connection attempts; the first failure
  launches a server with the client id, the later ones only wait.\<close>

fun connect_loop :: "string \<Rightarrow> nat \<Rightarrow> cres list \<Rightarrow> kern \<Rightarrow> int \<times> kern" where
  "connect_loop cid retries [] k = (-1, k)"
| "connect_loop cid retries (C_NOSOCK # cs) k = (-1, k\<lparr>k_conns := cs\<rparr>)"
| "connect_loop cid retries (C_CONNECTED fd # cs) k = (fd, k\<lparr>k_conns := cs\<rparr>)"
| "connect_loop cid retries (C_REFUSED fd # cs) k =
     (let k1 = close_fd fd (k\<lparr>k_conns := cs\<rparr>) in
      if retries = 0 then
        connect_loop cid (retries + 1) cs (k1\<lparr>k_forks := k_forks k1 @ [cid]\<rparr>)
      else if retries < MAX_RETRIES then connect_loop cid (retries + 1) cs k1
      else (-1, k1))"

definition gamin_connect_unix_socket :: "string \<Rightarrow> kern \<Rightarrow> int \<times> kern" where
  "gamin_connect_unix_socket cid k = connect_loop cid 0 (k_conns k) k"

text \<open>The loop of \<open>gamin_write_credential_byte\<close>: only an interrupted call is repeated.\<close>

fun credential_loop :: "wres list \<Rightarrow> int \<Rightarrow> kern \<Rightarrow> int \<times> kern" where
  "credential_loop [] fd k = (0, took fd [CHR 0x00] (k\<lparr>k_writes := []\<rparr>))"
| "credential_loop (W_EINTR # ws) fd k = credential_loop ws fd k"
| "credential_loop (W_ERR # ws) fd k = (-1, k\<lparr>k_writes := ws\<rparr>)"
| "credential_loop (W_N n # ws) fd k =
     (if n = 0 then (-1, k\<lparr>k_writes := ws\<rparr>)
      else (0, took fd [CHR 0x00] (k\<lparr>k_writes := ws\<rparr>)))"

definition gamin_write_credential_byte :: "int \<Rightarrow> kern \<Rightarrow> int \<times> kern" where
  "gamin_write_credential_byte fd k = credential_loop (k_writes k) fd k"

fun select_loop :: "sres list \<Rightarrow> kern \<Rightarrow> int \<times> kern" where
  "select_loop [] k = (0, k\<lparr>k_selects := []\<rparr>)"
| "select_loop (S_EINTR # ss) k = select_loop ss k"
| "select_loop (S_ERR # ss) k = (-1, k\<lparr>k_selects := ss\<rparr>)"
| "select_loop (S_N n # ss) k = (if n = 0 then 0 else 1, k\<lparr>k_selects := ss\<rparr>)"

definition gamin_data_available :: "int \<Rightarrow> kern \<Rightarrow> int \<times> kern" where
  "gamin_data_available fd k = (if fd < 0 then (-1, k) else select_loop (k_selects k) k)"

section \<open>Sending\<close>

text \<open>The \<^verbatim>\<open>do\<close> loop of \<open>gamin_write_byte\<close>; \<open>data\<close> is what remains.\<close>

fun write_loop :: "wres list \<Rightarrow> int \<Rightarrow> string \<Rightarrow> kern \<Rightarrow> int \<times> kern" where
  "write_loop [] fd data k = (0, took fd data (k\<lparr>k_writes := []\<rparr>))"
| "write_loop (W_ERR # ws) fd data k = (-1, k\<lparr>k_writes := ws\<rparr>)"
| "write_loop (W_EINTR # ws) fd data k =
     (if data \<noteq> [] then write_loop ws fd data k else (0, k\<lparr>k_writes := ws\<rparr>))"
| "write_loop (W_N n # ws) fd data k =
     (let k1 = took fd (take n data) (k\<lparr>k_writes := ws\<rparr>) in
      if drop n data \<noteq> [] then write_loop ws fd (drop n data) k1 else (0, k1))"

definition gamin_write_byte :: "int \<Rightarrow> string \<Rightarrow> kern \<Rightarrow> int \<times> kern" where
  "gamin_write_byte fd data k = write_loop (k_writes k) fd data k"

text \<open>\<open>gamin_send_request\<close>: \<open>fr\<close> is the request number in the caller's \<^verbatim>\<open>FAMRequest\<close>, \<open>mem\<close> the outcome
  of the two allocations of a new table entry. The connection data is locked and allocated.\<close>

definition req_type :: "16 word \<Rightarrow> GAMData \<Rightarrow> 16 word" where
  "req_type type c =
     (if type = GAM_REQ_DIR \<and> gamin_data_get_exists c = 0 then type OR GAM_OPT_NOEXISTS else type)"

definition send_packet ::
  "16 word \<Rightarrow> int \<Rightarrow> string \<Rightarrow> int \<Rightarrow> cptr \<Rightarrow> GAMData \<Rightarrow> api \<Rightarrow> int \<times> api" where
  "send_packet type fd path reqnum cl c a =
     (let (ret, k) = gamin_write_byte fd (packet_bytes (make_packet reqnum (req_type type c) path)) (a_kern a);
          a1 = a\<lparr>a_heap := (a_heap a)(cl \<mapsto> c), a_kern := k\<rparr>
      in (ret, if ret < 0 then set_errno FAM_CONNECT a1 else a1))"

definition gamin_send_request ::
  "bool \<times> bool \<Rightarrow> 16 word \<Rightarrow> int \<Rightarrow> string option \<Rightarrow> int \<Rightarrow> cptr \<Rightarrow> cptr \<Rightarrow> bool \<Rightarrow> api
     \<Rightarrow> (int \<times> int \<times> api) option" where
  "gamin_send_request mem type fd filename fr userData cl has_reqnum a =
     do { c \<leftarrow> a_heap a cl;
          case filename of
            None \<Rightarrow> (let (ret, a1) = send_packet type fd [] fr cl c a in Some (ret, fr, a1))
          | Some s \<Rightarrow>
              if length s > MAXPATHLEN then Some (-1, fr, set_errno FAM_FILE a)
              else if \<not> has_reqnum then
                (let (reqnum, c1) = gamin_data_get_reqnum (fst mem) (snd mem) s (uint type) userData c in
                 if reqnum < 0 then
                   Some (-1, fr, set_errno FAM_ARG (a\<lparr>a_heap := (a_heap a)(cl \<mapsto> c1)\<rparr>))
                 else (let (ret, a1) = send_packet type fd s reqnum cl c1 a in Some (ret, reqnum, a1)))
              else
                (let (reqnum, c1) =
                       gamin_data_get_request (fst mem) (snd mem) s (uint type) userData fr c in
                 if reqnum < 0 then
                   Some (-1, fr, set_errno FAM_MEM (a\<lparr>a_heap := (a_heap a)(cl \<mapsto> c1)\<rparr>))
                 else (let (ret, a1) = send_packet type fd s reqnum cl c1 a in Some (ret, fr, a1))) }"

section \<open>Receiving\<close>

fun cred_loop :: "mres list \<Rightarrow> kern \<Rightarrow> char option \<times> kern" where
  "cred_loop [] k = (None, k\<lparr>k_msgs := []\<rparr>)"
| "cred_loop (M_EINTR # ms) k = cred_loop ms k"
| "cred_loop (M_ERR # ms) k = (None, k\<lparr>k_msgs := ms\<rparr>)"
| "cred_loop (M_BYTE b # ms) k = (Some b, k\<lparr>k_msgs := ms\<rparr>)"
| "cred_loop (M_EOF b # ms) k = (Some b, k\<lparr>k_msgs := ms\<rparr>)"

definition gamin_check_cred :: "GAMData \<Rightarrow> kern \<Rightarrow> int \<times> GAMData \<times> kern" where
  "gamin_check_cred c k =
     (case cred_loop (k_msgs k) k of
        (None, k1) \<Rightarrow> (-1, c, k1)
      | (Some b, k1) \<Rightarrow>
          if b \<noteq> CHR 0x00 then (-1, c, k1)
          else case k_peer k1 of
            None \<Rightarrow> (-1, c, k1)
          | Some c_uid \<Rightarrow>
              if k_uid k1 \<noteq> c_uid then (-1, c, k1) else (0, snd (gamin_data_done_auth c), k1))"

text \<open>The read of at most \<open>room\<close> bytes, repeated while interrupted. Bytes beyond \<open>room\<close> stay with the
  kernel for the next call.\<close>

fun read_loop :: "rres list \<Rightarrow> nat \<Rightarrow> kern \<Rightarrow> string option \<times> kern" where
  "read_loop [] room k = (Some [], k\<lparr>k_reads := []\<rparr>)"
| "read_loop (R_EINTR # rs) room k = read_loop rs room k"
| "read_loop (R_ERR # rs) room k = (None, k\<lparr>k_reads := rs\<rparr>)"
| "read_loop (R_N bs # rs) room k =
     (Some (take room bs),
      k\<lparr>k_reads := (if drop room bs = [] then rs else R_N (drop room bs) # rs)\<rparr>)"

definition read_more :: "GAMData \<Rightarrow> kern \<Rightarrow> int \<times> GAMData \<times> kern" where
  "read_more c k =
     (case read_loop (k_reads k) (snd (gamin_data_get_data c)) k of
        (None, k1) \<Rightarrow> (-1, c, k1)
      | (Some bs, k1) \<Rightarrow>
          if bs = [] then (-1, c, k1)
          else (let (ret, c1) = gamin_data_conn_data bs c in (if ret < 0 then -1 else 0, c1, k1)))"

definition gamin_read_data :: "int \<Rightarrow> bool \<Rightarrow> GAMData \<Rightarrow> kern \<Rightarrow> int \<times> GAMData \<times> kern" where
  "gamin_read_data fd block c k =
     (if gamin_data_need_auth c = 1 then
        (let (ret, c1, k1) = gamin_check_cred c k in
         if ret < 0 then (-1, c1, k1)
         else if \<not> block then
           (let (av, k2) = gamin_data_available fd k1 in
            if av < 0 then (-1, c1, k2) else if av = 0 then (0, c1, k2) else read_more c1 k2)
         else read_more c1 k1)
      else if gamin_data_need_auth c \<noteq> 0 then (-1, c, k)
      else read_more c k)"

section \<open>Reconnecting\<close>

definition gamin_resend_request :: "int \<Rightarrow> 16 word \<Rightarrow> string \<Rightarrow> int \<Rightarrow> kern \<Rightarrow> int \<times> kern" where
  "gamin_resend_request fd type filename reqnum k =
     (if fd < 0 then (-1, k)
      else gamin_write_byte fd (packet_bytes (make_packet reqnum (type OR GAM_OPT_NOEXISTS) filename)) k)"

fun resend_all :: "int \<Rightarrow> GAMReqData list \<Rightarrow> kern \<Rightarrow> kern" where
  "resend_all fd [] k = k"
| "resend_all fd (r # rs) k =
     resend_all fd rs
       (snd (gamin_resend_request fd (of_int (rq_type r)) (rq_filename r) (rq_reqno r) k))"

definition gamin_try_reconnect :: "string \<Rightarrow> int \<Rightarrow> GAMData \<Rightarrow> kern \<Rightarrow> int \<times> GAMData \<times> kern" where
  "gamin_try_reconnect cid fd c k =
     (if fd < 0 then (-1, c, k)
      else
        (let (newfd, k1) = gamin_connect_unix_socket cid k in
         if newfd < 0 then (-1, c, k1)
         else
           (let (ret, k2) = gamin_write_credential_byte newfd k1 in
            if ret \<noteq> 0 then (-1, c, close_fd newfd k2)
            else
              (let k3 = close_fd newfd
                     (if k_dup2 k2 then k2\<lparr>k_sent := (k_sent k2)(fd := k_sent k2 newfd)\<rparr> else k2) in
               if \<not> k_dup2 k2 then (-1, c, k3)
               else
                 (let (nb, reqs, c1) = gamin_data_reset c in
                  case reqs of None \<Rightarrow> (0, c1, k3) | Some rs \<Rightarrow> (0, c1, resend_all fd rs k3))))))"

section \<open>Public interface\<close>

definition FAMOpen ::
  "string \<Rightarrow> bool \<Rightarrow> cptr \<Rightarrow> FAMConnection option \<Rightarrow> api \<Rightarrow> int \<times> FAMConnection option \<times> api" where
  "FAMOpen cid mem_ok p fc a =
     (case fc of
        None \<Rightarrow> (-1, None, set_errno FAM_ARG a)
      | Some f \<Rightarrow>
          (let (fd, k1) = gamin_connect_unix_socket cid (a_kern a) in
           if fd < 0 then (-1, fc, set_errno FAM_CONNECT (a\<lparr>a_kern := k1\<rparr>))
           else
             (let (ret, k2) = gamin_write_credential_byte fd k1 in
              if ret \<noteq> 0 then (-1, fc, set_errno FAM_CONNECT (a\<lparr>a_kern := close_fd fd k2\<rparr>))
              else
                (case gamin_data_new mem_ok of
                   None \<Rightarrow>
                     (-1, Some \<lparr>fc_fd = fd, fc_client = None\<rparr>,
                      set_errno FAM_MEM (a\<lparr>a_kern := close_fd fd k2\<rparr>))
                 | Some c \<Rightarrow>
                     (0, Some \<lparr>fc_fd = fd, fc_client = Some p\<rparr>,
                      a\<lparr>a_kern := k2, a_heap := (a_heap a)(p \<mapsto> c)\<rparr>)))))"

definition FAMOpen2 ::
  "string \<Rightarrow> bool \<Rightarrow> cptr \<Rightarrow> FAMConnection option \<Rightarrow> string \<Rightarrow> api \<Rightarrow> int \<times> FAMConnection option \<times> api"
  where "FAMOpen2 cid mem_ok p fc appName a = FAMOpen cid mem_ok p fc a"

text \<open>\<open>locked cl f a\<close>: \<open>f\<close> runs on the connection data with the lock taken, and the lock is released.\<close>

definition lock_data :: "cptr \<Rightarrow> api \<Rightarrow> api option" where
  "lock_data cl a =
     do { c \<leftarrow> a_heap a cl; Some (a\<lparr>a_heap := (a_heap a)(cl \<mapsto> gamin_data_lock c)\<rparr>) }"

definition unlock_data :: "cptr \<Rightarrow> api \<Rightarrow> api option" where
  "unlock_data cl a =
     do { c \<leftarrow> a_heap a cl; Some (a\<lparr>a_heap := (a_heap a)(cl \<mapsto> gamin_data_unlock c)\<rparr>) }"

definition gamin_data_free :: "cptr option \<Rightarrow> api \<Rightarrow> api option" where
  "gamin_data_free cl a =
     (case cl of
        None \<Rightarrow> Some a
      | Some p \<Rightarrow> do { c \<leftarrow> a_heap a p; Some (a\<lparr>a_heap := (a_heap a)(p := None)\<rparr>) })"

text \<open>\<open>FAMClose\<close> takes the lock of the connection data without looking whether it is there.\<close>

definition FAMClose :: "FAMConnection option \<Rightarrow> api \<Rightarrow> (int \<times> FAMConnection option \<times> api) option" where
  "FAMClose fc a =
     (case fc of
        None \<Rightarrow> Some (-1, None, set_errno FAM_ARG a)
      | Some f \<Rightarrow>
          do { cl \<leftarrow> fc_client f;
               a1 \<leftarrow> lock_data cl a;
               let a2 = a1\<lparr>a_kern := close_fd (fc_fd f) (a_kern a1)\<rparr>;
               a3 \<leftarrow> gamin_data_free (fc_client f) a2;
               Some (k_close (a_kern a1), Some (f\<lparr>fc_fd := -1\<rparr>), a3) })"

text \<open>The four monitor calls share their body: \<open>type\<close> and \<open>has_reqnum\<close> tell them apart, and the
  variants with a given number pass no user data.\<close>

definition fam_monitor ::
  "16 word \<Rightarrow> bool \<Rightarrow> bool \<times> bool \<Rightarrow> FAMConnection option \<Rightarrow> string option \<Rightarrow> int option \<Rightarrow> cptr \<Rightarrow> api
     \<Rightarrow> (int \<times> int option \<times> api) option" where
  "fam_monitor type has_reqnum mem fc filename fr userData a =
     (case (fc, filename, fr) of
        (Some f, Some s, Some n) \<Rightarrow>
          if (case s of [] \<Rightarrow> True | ch # _ \<Rightarrow> ch \<noteq> CHR ''/'') \<or> length s \<ge> MAXPATHLEN then
            Some (-1, fr, set_errno FAM_FILE a)
          else if fc_fd f < 0 \<or> fc_client f = None then Some (-1, fr, set_errno FAM_ARG a)
          else
            do { cl \<leftarrow> fc_client f;
                 a1 \<leftarrow> lock_data cl a;
                 (ret, n', a2) \<leftarrow> gamin_send_request mem type (fc_fd f) (Some s) n userData cl has_reqnum a1;
                 a3 \<leftarrow> unlock_data cl a2;
                 Some (ret, Some n', a3) }
      | _ \<Rightarrow> Some (-1, fr, set_errno FAM_ARG a))"

definition FAMMonitorDirectory ::
  "bool \<times> bool \<Rightarrow> FAMConnection option \<Rightarrow> string option \<Rightarrow> int option \<Rightarrow> cptr \<Rightarrow> api
     \<Rightarrow> (int \<times> int option \<times> api) option" where
  "FAMMonitorDirectory = fam_monitor GAM_REQ_DIR False"

definition FAMMonitorDirectory2 ::
  "bool \<times> bool \<Rightarrow> FAMConnection option \<Rightarrow> string option \<Rightarrow> int option \<Rightarrow> api
     \<Rightarrow> (int \<times> int option \<times> api) option" where
  "FAMMonitorDirectory2 mem fc filename fr a = fam_monitor GAM_REQ_DIR True mem fc filename fr 0 a"

definition FAMMonitorFile ::
  "bool \<times> bool \<Rightarrow> FAMConnection option \<Rightarrow> string option \<Rightarrow> int option \<Rightarrow> cptr \<Rightarrow> api
     \<Rightarrow> (int \<times> int option \<times> api) option" where
  "FAMMonitorFile = fam_monitor GAM_REQ_FILE False"

definition FAMMonitorFile2 ::
  "bool \<times> bool \<Rightarrow> FAMConnection option \<Rightarrow> string option \<Rightarrow> int option \<Rightarrow> api
     \<Rightarrow> (int \<times> int option \<times> api) option" where
  "FAMMonitorFile2 mem fc filename fr a = fam_monitor GAM_REQ_FILE True mem fc filename fr 0 a"

definition FAMMonitorCollection :: "api \<Rightarrow> int \<times> api" where
  "FAMMonitorCollection a = (-1, set_errno FAM_UNIMPLEM a)"

definition FAMSuspendMonitor :: "api \<Rightarrow> int \<times> api" where
  "FAMSuspendMonitor a = (-1, set_errno FAM_UNIMPLEM a)"

definition FAMResumeMonitor :: "api \<Rightarrow> int \<times> api" where
  "FAMResumeMonitor a = (-1, set_errno FAM_UNIMPLEM a)"

text \<open>\<open>FAMNextEvent\<close> and \<open>FAMPending\<close>, the lock included where the code takes and releases it.\<close>

definition FAMNextEvent ::
  "string \<Rightarrow> FAMConnection option \<Rightarrow> api \<Rightarrow> (int \<times> FAMEvent option \<times> api) option" where
  "FAMNextEvent cid fc a =
     (case fc of
        None \<Rightarrow> Some (-1, None, set_errno FAM_ARG a)
      | Some f \<Rightarrow>
          (case fc_client f of
             None \<Rightarrow> Some (-1, None, set_errno FAM_ARG a)
           | Some cl \<Rightarrow>
               if fc_fd f < 0 then Some (-1, None, a)
               else
                 do { c0 \<leftarrow> a_heap a cl;
                      let (ready, c1) = gamin_data_event_ready (gamin_data_lock c0);
                      let (ret, c2, k) =
                        (if ready = 0 then gamin_read_data (fc_fd f) True c1 (a_kern a)
                         else (0, c1, a_kern a));
                      if ret < 0 then
                        (let (r, c3, k1) = gamin_try_reconnect cid (fc_fd f) c2 k in
                         Some (-1, None, set_errno FAM_CONNECT
                           (a\<lparr>a_heap := (a_heap a)(cl \<mapsto> c3), a_kern := k1\<rparr>)))
                      else
                        (let (r, ev, c3) = gamin_data_read_event c2;
                             a1 = a\<lparr>a_heap := (a_heap a)(cl \<mapsto> gamin_data_unlock c3), a_kern := k\<rparr>
                         in if r < 0 then Some (r, ev, set_errno FAM_CONNECT a1)
                            else Some (1, ev, a1)) }))"

definition FAMPending :: "string \<Rightarrow> FAMConnection option \<Rightarrow> api \<Rightarrow> (int \<times> api) option" where
  "FAMPending cid fc a =
     (case fc of
        None \<Rightarrow> Some (-1, set_errno FAM_ARG a)
      | Some f \<Rightarrow>
          (case fc_client f of
             None \<Rightarrow> Some (-1, set_errno FAM_ARG a)
           | Some cl \<Rightarrow>
               do { c0 \<leftarrow> a_heap a cl;
                    let (ready, c1) = gamin_data_event_ready (gamin_data_lock c0);
                    if ready \<noteq> 0 then
                      Some (1, a\<lparr>a_heap := (a_heap a)(cl \<mapsto> gamin_data_unlock c1)\<rparr>)
                    else
                      (let (av, k1) = gamin_data_available (fc_fd f) (a_kern a) in
                       if av < 0 then Some (-1, a\<lparr>a_heap := (a_heap a)(cl \<mapsto> c1), a_kern := k1\<rparr>)
                       else
                         (let (c2, k2) =
                                (if av > 0 then
                                   (let (ret, c', k') = gamin_read_data (fc_fd f) False c1 k1 in
                                    if ret < 0 then snd (gamin_try_reconnect cid (fc_fd f) c' k')
                                    else (c', k'))
                                 else (c1, k1));
                              (ret, c3) = gamin_data_event_ready c2
                          in Some (ret,
                               a\<lparr>a_heap := (a_heap a)(cl \<mapsto> gamin_data_unlock c3), a_kern := k2\<rparr>))) }))"

definition FAMCancelMonitor ::
  "FAMConnection option \<Rightarrow> int option \<Rightarrow> api \<Rightarrow> (int \<times> api) option" where
  "FAMCancelMonitor fc fr a =
     (case (fc, fr) of
        (Some f, Some n) \<Rightarrow>
          if fc_fd f < 0 \<or> fc_client f = None then Some (-1, set_errno FAM_ARG a)
          else
            do { cl \<leftarrow> fc_client f;
                 c0 \<leftarrow> a_heap a cl;
                 let (ret, c1) = gamin_data_cancel n (gamin_data_lock c0);
                 let a1 = a\<lparr>a_heap := (a_heap a)(cl \<mapsto> c1)\<rparr>;
                 if ret < 0 then
                   do { a2 \<leftarrow> unlock_data cl (set_errno FAM_ARG a1); Some (-1, a2) }
                 else
                   do { (ret, n', a2) \<leftarrow>
                          gamin_send_request (True, True) GAM_REQ_CANCEL (fc_fd f) None n 0 cl False a1;
                        a3 \<leftarrow> unlock_data cl a2;
                        Some (ret, if ret \<noteq> 0 then set_errno FAM_CONNECT a3 else a3) } }
      | _ \<Rightarrow> Some (-1, set_errno FAM_ARG a))"

text \<open>\<open>FAMNoExists\<close> locks the data before \<open>gamin_data_no_exists\<close> looks whether it is there.\<close>

definition FAMNoExists :: "FAMConnection option \<Rightarrow> api \<Rightarrow> (int \<times> api) option" where
  "FAMNoExists fc a =
     (case fc of
        None \<Rightarrow> Some (-1, set_errno FAM_ARG a)
      | Some f \<Rightarrow>
          do { cl \<leftarrow> fc_client f;
               c0 \<leftarrow> a_heap a cl;
               let (ret, c1) = gamin_data_no_exists (gamin_data_lock c0);
               let a1 = a\<lparr>a_heap := (a_heap a)(cl \<mapsto> gamin_data_unlock c1)\<rparr>;
               if ret < 0 then Some (-1, set_errno FAM_ARG a1) else Some (0, a1) })"

end
