(* ===== verification/Gam_Api_Props.thy ===== *)
theory Gam_Api_Props
  imports Gam_Api "HOL-Library.Sublist"
begin

unbundle bit_operations_syntax

text \<open>
  Properties of the client interface: what a write loop leaves on the wire, what the monitor calls do
  to the request table and the socket, which calls release the lock they take, when the server is
  trusted, and how a connection is rebuilt.
\<close>

section \<open>Writing\<close>

lemma took_sent [simp]: "k_sent (took fd bs k) = (k_sent k)(fd := k_sent k fd @ bs)"
  by (simp add: took_def)

lemma took_frame [simp]:
  "k_writes (took fd bs k) = k_writes k" "k_conns (took fd bs k) = k_conns k"
  "k_forks (took fd bs k) = k_forks k" "k_closed (took fd bs k) = k_closed k"
  "k_uid (took fd bs k) = k_uid k" "k_peer (took fd bs k) = k_peer k" "k_dup2 (took fd bs k) = k_dup2 k"
  by (simp_all add: took_def)

lemma close_fd_frame [simp]:
  "k_sent (close_fd fd k) = k_sent k" "k_writes (close_fd fd k) = k_writes k"
  "k_forks (close_fd fd k) = k_forks k" "k_conns (close_fd fd k) = k_conns k"
  "k_closed (close_fd fd k) = k_closed k @ [fd]"
  by (simp_all add: close_fd_def)

lemma write_loop_spec:
  "write_loop ws fd data k = (r, k') \<Longrightarrow>
     \<exists>p. prefix p data \<and> k_sent k' = (k_sent k)(fd := k_sent k fd @ p) \<and>
         (r = 0 \<and> p = data \<or> r = -1 \<and> W_ERR \<in> set ws)"
proof (induction ws fd data k rule: write_loop.induct)
  case (4 n ws fd data k)
  show ?case
  proof (cases "drop n data = []")
    case True
    then show ?thesis using "4.prems" by auto
  next
    case False
    let ?k1 = "took fd (take n data) (k\<lparr>k_writes := ws\<rparr>)"
    have w: "write_loop ws fd (drop n data) ?k1 = (r, k')" using "4.prems" False by simp
    obtain p where p: "prefix p (drop n data)" "k_sent k' = (k_sent ?k1)(fd := k_sent ?k1 fd @ p)"
        "r = 0 \<and> p = drop n data \<or> r = -1 \<and> W_ERR \<in> set ws"
      using "4.IH" [OF refl False w] by blast
    have "prefix (take n data @ p) (take n data @ drop n data)"
      unfolding same_prefix_prefix by (rule p(1))
    then show ?thesis using p(2,3) by (intro exI [of _ "take n data @ p"]) auto
  qed
next
  case (2 ws fd data k)
  then show ?case by (intro exI [of _ "[]"]) auto
qed (auto split: if_splits)

lemma write_loop_ok:
  "W_ERR \<notin> set ws \<Longrightarrow> fst (write_loop ws fd data k) = 0"
  using write_loop_spec [of ws fd data k] by (cases "write_loop ws fd data k") auto

lemma write_loop_rest: "set (k_writes (snd (write_loop ws fd data k))) \<subseteq> set ws"
  by (induction ws fd data k rule: write_loop.induct) auto

lemma write_byte_spec:
  "gamin_write_byte fd data k = (r, k') \<Longrightarrow>
     \<exists>p. prefix p data \<and> k_sent k' = (k_sent k)(fd := k_sent k fd @ p) \<and>
         (r = 0 \<and> p = data \<or> r = -1 \<and> W_ERR \<in> set (k_writes k))"
  unfolding gamin_write_byte_def by (rule write_loop_spec)

lemma write_byte_ok:
  assumes "W_ERR \<notin> set (k_writes k)"
  obtains k' where "gamin_write_byte fd data k = (0, k')"
    "k_sent k' = (k_sent k)(fd := k_sent k fd @ data)" "W_ERR \<notin> set (k_writes k')"
proof -
  obtain r k' where e: "gamin_write_byte fd data k = (r, k')" by fastforce
  have "set (k_writes k') \<subseteq> set (k_writes k)"
    using write_loop_rest [of "k_writes k" fd data k] e by (simp add: gamin_write_byte_def)
  with that write_byte_spec [OF e] assms e show ?thesis by auto
qed

section \<open>Connecting\<close>

lemma connect_loop_bounds:
  "retries \<le> MAX_RETRIES \<Longrightarrow> k_conns k = cs \<Longrightarrow> connect_loop cid retries cs k = (fd, k') \<Longrightarrow>
     length cs \<le> length (k_conns k') + (MAX_RETRIES + 1 - retries) \<and>
     (k_forks k' = k_forks k \<or> retries = 0 \<and> k_forks k' = k_forks k @ [cid])"
proof (induction cid retries cs k arbitrary: rule: connect_loop.induct)
  case (4 cid retries f cs k)
  then show ?case by (fastforce simp: MAX_RETRIES_def split: if_splits)
qed auto

section \<open>The lock\<close>

definition lock_of :: "cptr \<Rightarrow> api \<Rightarrow> nat option" where
  "lock_of cl a = map_option gd_lock (a_heap a cl)"

lemma lock_allocate [frame_simps]: "gd_lock (snd (gamin_allocate_request t r c)) = gd_lock c"
  by (auto simp: gamin_allocate_request_def split: option.splits)

lemma lock_table [frame_simps]:
  "gd_lock (snd (gamin_data_get_reqnum t r f ty u c)) = gd_lock c"
  "gd_lock (snd (gamin_data_get_request t r f ty u n c)) = gd_lock c"
  "gd_lock (snd (gamin_data_cancel n c)) = gd_lock c"
  "gd_lock (snd (gamin_data_del_req n c)) = gd_lock c"
  using lock_allocate [of t r c]
  by (auto simp: gamin_data_get_reqnum_def gamin_data_get_request_def gamin_data_add_req_def
      gamin_data_add_req2_def gamin_data_cancel_def gamin_data_del_req_def set_req_state_def
      split: prod.splits option.splits if_splits)

lemma lock_accept [frame_simps]: "gd_lock (snd (accept_event b u c)) = gd_lock c"
  by (simp add: accept_event_def)

lemma lock_conn_event [frame_simps]: "gd_lock (snd (gamin_data_conn_event b c)) = gd_lock c"
  by (auto simp: gamin_data_conn_event_def set_req_state_def frame_simps
      split: option.splits GAMReqState.splits)

lemma lock_conn_data_loop [frame_simps]: "gd_lock (snd (conn_data_loop c)) = gd_lock c"
proof (induction c rule: conn_data_loop.induct)
  case (1 c)
  obtain r c1 where e: "gamin_data_conn_event (gd_event c) c = (r, c1)" by fastforce
  then have "gd_lock c1 = gd_lock c" using lock_conn_event [of "gd_event c" c] by simp
  with "1.IH" [OF refl _ _ _ e [symmetric]] e show ?case
    by (subst conn_data_loop.simps) auto
qed

lemma lock_events [frame_simps]:
  "gd_lock (snd (gamin_data_conn_data bs c)) = gd_lock c"
  "gd_lock (snd (gamin_data_event_ready c)) = gd_lock c"
  "gd_lock (snd (snd (gamin_data_read_event c))) = gd_lock c"
  by (auto simp: gamin_data_conn_data_def gamin_data_event_ready_def gamin_data_read_event_def frame_simps)

lemma lock_read_data:
  "gd_lock (fst (snd (gamin_read_data fd block c k))) = gd_lock c"
proof -
  have more: "gd_lock (fst (snd (read_more c k))) = gd_lock c" for c k
    using lock_events(1) [of _ c] by (auto simp: read_more_def split: prod.splits option.splits)
      (metis snd_conv)+
  have cred: "gd_lock (fst (snd (gamin_check_cred c k))) = gd_lock c"
    by (auto simp: gamin_check_cred_def gamin_data_done_auth_def split: prod.splits option.splits)
  obtain r c1 k1 where e: "gamin_check_cred c k = (r, c1, k1)" by (metis prod_cases3)
  show ?thesis using more cred e by (auto simp: gamin_read_data_def split: prod.split)
qed

lemma lock_reset: "gd_lock (snd (snd (gamin_data_reset c))) = gd_lock c"
  by (simp add: gamin_data_reset_def)

lemma lock_reconnect: "gd_lock (fst (snd (gamin_try_reconnect cid fd c k))) = gd_lock c"
  using lock_reset [of c] by (auto simp: gamin_try_reconnect_def split: prod.split option.split)

lemma lock_send_request:
  "gamin_send_request mem type fd filename fr u cl has a = Some (ret, n, a') \<Longrightarrow>
     lock_of cl a' = lock_of cl a"
proof -
  assume s: "gamin_send_request mem type fd filename fr u cl has a = Some (ret, n, a')"
  then obtain c where c: "a_heap a cl = Some c"
    by (auto simp: gamin_send_request_def split: Option.bind_splits)
  have p: "lock_of cl (snd (send_packet type fd path reqnum cl c' a)) = Some (gd_lock c')"
    for path reqnum c'
    by (auto simp: send_packet_def set_errno_def lock_of_def split: prod.splits)
  obtain m1 c1 where g1: "gamin_data_get_reqnum (fst mem) (snd mem) (the filename) (uint type) u c = (m1, c1)"
    by fastforce
  obtain m2 c2 where g2:
    "gamin_data_get_request (fst mem) (snd mem) (the filename) (uint type) u fr c = (m2, c2)" by fastforce
  have "gd_lock c1 = gd_lock c" "gd_lock c2 = gd_lock c"
    using lock_table(1) [of "fst mem" "snd mem" "the filename" "uint type" u c]
      lock_table(2) [of "fst mem" "snd mem" "the filename" "uint type" u fr c] g1 g2 by simp_all
  then show ?thesis
    using s c g1 g2 p [of "[]" fr c] p [of "the filename" m1 c1] p [of "the filename" m2 c2]
    by (auto simp: gamin_send_request_def lock_of_def set_errno_def
        split: option.splits if_splits prod.splits)
qed

lemma lock_unlock: "lock_data cl a = Some a1 \<Longrightarrow> lock_of cl a2 = lock_of cl a1 \<Longrightarrow>
    unlock_data cl a2 = Some a3 \<Longrightarrow> lock_of cl a3 = lock_of cl a"
  by (auto simp: lock_data_def unlock_data_def lock_of_def gamin_data_lock_def gamin_data_unlock_def
      split: Option.bind_splits)

section \<open>Sending a request\<close>

lemma send_packet_ok:
  assumes "W_ERR \<notin> set (k_writes (a_kern a))"
  obtains k' where "send_packet type fd path n cl c a =
      (0, a\<lparr>a_heap := (a_heap a)(cl \<mapsto> c), a_kern := k'\<rparr>)"
    "k_sent k' = (k_sent (a_kern a))(fd := k_sent (a_kern a) fd @
       packet_bytes (make_packet n (req_type type c) path))"
proof -
  obtain k' where "gamin_write_byte fd (packet_bytes (make_packet n (req_type type c) path)) (a_kern a) = (0, k')"
    "k_sent k' = (k_sent (a_kern a))(fd := k_sent (a_kern a) fd @
       packet_bytes (make_packet n (req_type type c) path))"
    by (rule write_byte_ok [OF assms])
  then show ?thesis using that by (simp add: send_packet_def)
qed

section \<open>Properties\<close>

text \<open>Writing to the server, whatever the kernel answers (interrupted, short and failing calls in any
  order): a return value of 0 means that exactly the data was added to the stream of that
  descriptor, -1 that a beginning of it was and that a call failed; no other descriptor is written
  to.\<close>

theorem write_byte_exact:
  "let (r, k') = gamin_write_byte fd data k in
     \<exists>p. prefix p data \<and> k_sent k' = (k_sent k)(fd := k_sent k fd @ p) \<and>
         (if W_ERR \<in> set (k_writes k) then r = 0 \<and> p = data \<or> r = -1 else r = 0 \<and> p = data)"
proof -
  obtain r k' where e: "gamin_write_byte fd data k = (r, k')" by fastforce
  from write_byte_spec [OF e] e show ?thesis by auto
qed

text \<open>C27. A monitor call with a full path on an open connection, when memory and the socket hold out:
  it returns 0, the request number it hands back was unused and now stands for a request with that
  path, type and user data, exactly one packet with that number, type and path is added to the
  stream, and the lock is as before.\<close>

theorem monitor_registers_and_sends:
  assumes "a_heap a cl = Some c" "data_inv c" "reqnos_below c" "0 \<le> gd_reqno c"
    and "W_ERR \<notin> set (k_writes (a_kern a))" "0 \<le> fd"
    and "path \<noteq> []" "hd path = CHR ''/''" "length path < MAXPATHLEN"
  shows "\<exists>n c' k'. fam_monitor type False (True, True) (Some \<lparr>fc_fd = fd, fc_client = Some cl\<rparr>)
        (Some path) (Some m) u a = Some (0, Some n, a\<lparr>a_heap := (a_heap a)(cl \<mapsto> c'), a_kern := k'\<rparr>) \<and>
      req_map c n = None \<and> req_map c' = (req_map c)(n \<mapsto> new_req path (uint type) u n) \<and>
      gd_lock c' = gd_lock c \<and> data_inv c' \<and> reqnos_below c' \<and>
      k_sent k' = (k_sent (a_kern a))(fd := k_sent (a_kern a) fd @
        packet_bytes (make_packet n (req_type type c) path))"
proof -
  let ?cl = "gamin_data_lock c" and ?n = "gd_reqno c"
  let ?a1 = "a\<lparr>a_heap := (a_heap a)(cl \<mapsto> ?cl)\<rparr>"
  have inv: "data_inv ?cl" "reqnos_below ?cl"
    using assms(2,3) flag_updates_inv(1) [of c]
    by (simp_all add: gamin_data_lock_def reqnos_below_def frame_simps)
  obtain r c1 where add: "gamin_data_add_req True True path (uint type) u ?cl = (r, c1)" by fastforce
  have "r \<noteq> None"
    using add allocate_request_ok [OF inv(1)] by (auto simp: gamin_data_add_req_def split: prod.splits)
  then have r: "r = Some (new_req path (uint type) u ?n)" "req_map ?cl ?n = None"
      "req_map c1 = (req_map ?cl)(?n \<mapsto> new_req path (uint type) u ?n)" "data_inv c1" "reqnos_below c1"
    using add_req_spec [OF inv, where tab_ok = True and req_ok = True and f = path and ty = "uint type"
        and u = u] add by (auto simp: gamin_data_lock_def)
  have mp: "req_map ?cl = req_map c" by (simp add: gamin_data_lock_def frame_simps)
  have gr: "gamin_data_get_reqnum True True path (uint type) u ?cl = (?n, c1)"
    using add r(1) by (simp add: gamin_data_get_reqnum_def)
  have lk: "gd_lock c1 = Suc (gd_lock c)" "gd_noexist c1 = gd_noexist c"
    using lock_table(1) [of True True path "uint type" u ?cl] gr add
    by (auto simp: gamin_data_lock_def gamin_data_add_req_def gamin_allocate_request_def
        split: prod.splits option.splits if_splits)
  obtain k' where k': "send_packet type fd path ?n cl c1 ?a1 =
      (0, ?a1\<lparr>a_heap := (a_heap ?a1)(cl \<mapsto> c1), a_kern := k'\<rparr>)"
    "k_sent k' = (k_sent (a_kern ?a1))(fd := k_sent (a_kern ?a1) fd @
       packet_bytes (make_packet ?n (req_type type c1) path))"
    by (rule send_packet_ok [of ?a1 type fd path ?n cl c1]) (use assms(5) in auto)
  have rt: "req_type type c1 = req_type type c"
    using lk(2) by (simp add: req_type_def gamin_data_get_exists_def)
  obtain s where "path = CHR ''/'' # s" using assms(7,8) by (cases path) auto
  then have "fam_monitor type False (True, True) (Some \<lparr>fc_fd = fd, fc_client = Some cl\<rparr>)
        (Some path) (Some m) u a =
      Some (0, Some ?n, a\<lparr>a_heap := (a_heap a)(cl \<mapsto> gamin_data_unlock c1), a_kern := k'\<rparr>)"
    using assms(1,4,6,9) gr k'(1)
    by (simp add: fam_monitor_def lock_data_def gamin_send_request_def unlock_data_def)
  moreover have "data_inv (gamin_data_unlock c1)" "reqnos_below (gamin_data_unlock c1)"
      "req_map (gamin_data_unlock c1) = req_map c1" "gd_lock (gamin_data_unlock c1) = gd_lock c"
    using r(5) lk(1) flag_updates_inv(2) [OF r(4)]
    by (simp_all add: gamin_data_unlock_def reqnos_below_def frame_simps)
  ultimately show ?thesis using r(2,3) mp k'(2) rt by auto
qed

definition kern0 :: kern where
  "kern0 = \<lparr>k_writes = [], k_reads = [], k_selects = [], k_msgs = [], k_conns = [], k_dup2 = True,
     k_close = 0, k_uid = 7, k_peer = Some 7, k_sent = (\<lambda>_. []), k_closed = [], k_forks = []\<rparr>"

definition api0 :: api where
  "api0 = \<lparr>a_errno = 0, a_heap = [0 \<mapsto> fresh_data], a_kern = kern0\<lparr>k_writes := [W_EINTR, W_N 3]\<rparr>\<rparr>"

theorem monitor_registers_and_sends_witness:
  "\<exists>n c' k'. fam_monitor GAM_REQ_DIR False (True, True) (Some \<lparr>fc_fd = 4, fc_client = Some 0\<rparr>)
     (Some ''/tmp'') (Some 0) 9 api0 = Some (0, Some n, api0\<lparr>a_heap := [0 \<mapsto> c'], a_kern := k'\<rparr>) \<and>
     k_sent k' 4 = packet_bytes (make_packet n GAM_REQ_DIR ''/tmp'')"
  using monitor_registers_and_sends [of api0 0 fresh_data 4 "''/tmp''" GAM_REQ_DIR 0 9] data_inv_new
  by (auto simp: api0_def kern0_def fresh_data_def reqnos_below_def req_list_def size_defs req_type_def
      gamin_data_get_exists_def)

text \<open>C40. The monitor calls, \<open>FAMCancelMonitor\<close> and \<open>FAMNoExists\<close> on a connection whose data is
  allocated do not abort and release the lock on every path, errors of the table, of the path and
  of the socket included.\<close>

theorem requests_release_lock:
  assumes "fc_client f = Some cl" "a_heap a cl = Some c"
  shows "(\<exists>r fr' a'. fam_monitor type has mem (Some f) filename fr u a = Some (r, fr', a') \<and>
            lock_of cl a' = lock_of cl a) \<and>
         (\<exists>r a'. FAMCancelMonitor (Some f) fr a = Some (r, a') \<and> lock_of cl a' = lock_of cl a) \<and>
         (\<exists>r a'. FAMNoExists (Some f) a = Some (r, a') \<and> lock_of cl a' = lock_of cl a)"
proof (intro conjI)
  have send: "\<exists>ret n a2 a3. gamin_send_request mem type (fc_fd f) s m u cl has a1 = Some (ret, n, a2) \<and>
      unlock_data cl a2 = Some a3 \<and> lock_of cl a3 = map_option (\<lambda>l. l - 1) (lock_of cl a1)"
    if "a_heap a1 cl = Some c1" for mem type s m u has a1 c1
  proof -
    have "gamin_send_request mem type (fc_fd f) s m u cl has a1 \<noteq> None"
      using that by (auto simp: gamin_send_request_def split: option.splits prod.splits)
    then obtain ret n a2 where g: "gamin_send_request mem type (fc_fd f) s m u cl has a1 = Some (ret, n, a2)"
      by auto
    have "lock_of cl a2 = lock_of cl a1" by (rule lock_send_request [OF g])
    with that g show ?thesis
      by (auto simp: lock_of_def unlock_data_def gamin_data_unlock_def split: Option.bind_splits)
  qed
  show "\<exists>r fr' a'. fam_monitor type has mem (Some f) filename fr u a = Some (r, fr', a') \<and>
      lock_of cl a' = lock_of cl a"
  proof (cases "\<exists>s m. filename = Some s \<and> fr = Some m")
    case True
    then obtain s m where sm: "filename = Some s" "fr = Some m" by blast
    let ?a1 = "a\<lparr>a_heap := (a_heap a)(cl \<mapsto> gamin_data_lock c)\<rparr>"
    from send [of ?a1 "gamin_data_lock c" mem type "Some s" m u has] sm assms show ?thesis
      by (cases s) (auto simp: fam_monitor_def lock_data_def lock_of_def gamin_data_lock_def set_errno_def)
  next
    case False
    then show ?thesis
      by (cases filename; cases fr) (auto simp: fam_monitor_def lock_of_def set_errno_def)
  qed
  show "\<exists>r a'. FAMCancelMonitor (Some f) fr a = Some (r, a') \<and> lock_of cl a' = lock_of cl a"
  proof (cases fr)
    case (Some m)
    obtain x c1 where x: "gamin_data_cancel m (gamin_data_lock c) = (x, c1)" by fastforce
    have l: "gd_lock c1 = Suc (gd_lock c)"
      using lock_table(3) [of m "gamin_data_lock c"] x by (simp add: gamin_data_lock_def)
    show ?thesis
    proof (cases "x < 0")
      case True
      then show ?thesis using Some assms x l
        by (auto simp: FAMCancelMonitor_def lock_of_def set_errno_def unlock_data_def gamin_data_unlock_def)
    next
      case False
      from send [of "a\<lparr>a_heap := (a_heap a)(cl \<mapsto> c1)\<rparr>" c1 "(True, True)" GAM_REQ_CANCEL None m 0 False]
      show ?thesis using False Some assms x l
        by (auto simp: FAMCancelMonitor_def lock_of_def set_errno_def)
    qed
  qed (simp add: FAMCancelMonitor_def lock_of_def set_errno_def)
  show "\<exists>r a'. FAMNoExists (Some f) a = Some (r, a') \<and> lock_of cl a' = lock_of cl a"
    using assms by (auto simp: FAMNoExists_def gamin_data_no_exists_def lock_of_def gamin_data_lock_def
        gamin_data_unlock_def)
qed

theorem requests_release_lock_witness:
  "\<exists>r a'. FAMCancelMonitor (Some \<lparr>fc_fd = 4, fc_client = Some 0\<rparr>) (Some 3) api0 = Some (r, a') \<and>
     lock_of 0 a' = lock_of 0 api0"
  using requests_release_lock [of "\<lparr>fc_fd = 4, fc_client = Some 0\<rparr>" 0 api0 fresh_data]
  by (simp add: api0_def)

text \<open>C39. \<open>FAMNextEvent\<close> on an open connection either returns 1 with an event and the lock released, or
  returns -1 without one and with \<^verbatim>\<open>FAMErrno\<close> set to the connection error.\<close>

theorem next_event_outcomes:
  assumes "fc_client f = Some cl" "a_heap a cl = Some c" "0 \<le> fc_fd f"
  shows "\<exists>r ev a'. FAMNextEvent cid (Some f) a = Some (r, ev, a') \<and>
    (r = 1 \<and> ev \<noteq> None \<and> lock_of cl a' = lock_of cl a \<or>
     r = -1 \<and> ev = None \<and> a_errno a' = FAM_CONNECT)"
proof -
  let ?c0 = "gamin_data_lock c"
  obtain x c1 where x: "gamin_data_event_ready ?c0 = (x, c1)" by fastforce
  obtain ret c2 k where rd: "(if x = 0 then gamin_read_data (fc_fd f) True c1 (a_kern a)
      else (0, c1, a_kern a)) = (ret, c2, k)" by (metis prod_cases3)
  have l: "gd_lock c2 = Suc (gd_lock c)"
    using lock_events(2) [of ?c0] lock_read_data [of "fc_fd f" True c1 "a_kern a"] x rd
    by (auto simp: gamin_data_lock_def split: if_splits)
  obtain r ev c3 where re: "gamin_data_read_event c2 = (r, ev, c3)" by (metis prod_cases3)
  have l3: "gd_lock c3 = Suc (gd_lock c)" using lock_events(3) [of c2] re l by simp
  have rv: "r = 0 \<and> ev \<noteq> None \<or> r = -1 \<and> ev = None"
    using re by (auto simp: gamin_data_read_event_def split: if_splits)
  show ?thesis
  proof (cases "ret < 0")
    case True
    then show ?thesis using assms x rd
      by (auto simp: FAMNextEvent_def set_errno_def split: prod.split)
  next
    case False
    then show ?thesis using assms x rd re rv l3
      by (auto simp: FAMNextEvent_def set_errno_def lock_of_def gamin_data_unlock_def)
  qed
qed

theorem next_event_outcomes_witness:
  "\<exists>r ev a'. FAMNextEvent [] (Some \<lparr>fc_fd = 4, fc_client = Some 0\<rparr>) api0 = Some (r, ev, a') \<and>
    (r = 1 \<and> ev \<noteq> None \<and> lock_of 0 a' = lock_of 0 api0 \<or>
     r = -1 \<and> ev = None \<and> a_errno a' = FAM_CONNECT)"
  using next_event_outcomes [of "\<lparr>fc_fd = 4, fc_client = Some 0\<rparr>" 0 api0 fresh_data "[]"]
  by (simp add: api0_def)

text \<open>When the read fails \<open>FAMNextEvent\<close> returns with the lock still held, and so does \<open>FAMPending\<close> when
  \<^verbatim>\<open>select\<close> fails.\<close>

lemma next_event_error_keeps_lock:
  "case FAMNextEvent [] (Some \<lparr>fc_fd = 4, fc_client = Some 0\<rparr>) api0 of
     None \<Rightarrow> False | Some (r, ev, a') \<Rightarrow> r = -1 \<and> lock_of 0 api0 = Some 0 \<and> lock_of 0 a' = Some 1"
  by code_simp

lemma pending_error_keeps_lock:
  "case FAMPending [] (Some \<lparr>fc_fd = 4, fc_client = Some 0\<rparr>)
       (api0\<lparr>a_kern := kern0\<lparr>k_selects := [S_ERR]\<rparr>\<rparr>) of
     None \<Rightarrow> False | Some (r, a') \<Rightarrow> r = -1 \<and> lock_of 0 a' = Some 1"
  by code_simp

text \<open>\<open>FAMClose\<close> frees the connection data and leaves \<^verbatim>\<open>fc->client\<close> pointing to it; \<open>FAMPending\<close>, which
  looks at the pointer and not at the descriptor, then uses freed memory.\<close>

lemma pending_after_close_aborts:
  "FAMClose (Some \<lparr>fc_fd = fd, fc_client = Some cl\<rparr>) a = Some (r, fc', a') \<Longrightarrow>
     FAMPending cid fc' a' = None"
  by (auto simp: FAMClose_def FAMPending_def gamin_data_free_def lock_data_def
      split: Option.bind_splits)

text \<open>The server is trusted only after its credentials were checked: as long as a connection is not
  authenticated, bytes enter its event buffer only if the byte the code looks at is NUL (one received, or what is in the
  variable at the end of the stream) and the peer is the user's own; otherwise the read fails and the connection is left as it was.\<close>

theorem read_needs_credentials:
  assumes "gd_auth c = 0" "gamin_read_data fd block c k = (r, c', k')"
  shows "(r = -1 \<and> c' = c) \<or>
    (\<exists>ms. cred_loop (k_msgs k) k = (Some (CHR 0x00), ms)) \<and> k_peer k = Some (k_uid k) \<and> gd_auth c' = 1"
proof -
  have cl: "k_peer (snd (cred_loop ms k)) = k_peer k \<and> k_uid (snd (cred_loop ms k)) = k_uid k" for ms
    by (induction ms k rule: cred_loop.induct) auto
  have loop: "gd_auth (snd (conn_data_loop c)) = gd_auth c" for c
  proof (induction c rule: conn_data_loop.induct)
    case (1 c)
    obtain q c1 where e: "gamin_data_conn_event (gd_event c) c = (q, c1)" by fastforce
    then have "gd_auth c1 = gd_auth c"
      by (auto simp: gamin_data_conn_event_def accept_event_def set_req_state_def
          split: option.splits GAMReqState.splits if_splits)
    with "1.IH" [OF refl _ _ _ e [symmetric]] e show ?case by (subst conn_data_loop.simps) auto
  qed
  have more: "gd_auth (fst (snd (read_more c k))) = gd_auth c" for c k
    using loop [of "c\<lparr>gd_event := gd_event c @ bs\<rparr>" for bs]
    by (auto simp: read_more_def gamin_data_conn_data_def split: prod.splits option.splits if_splits)
      (metis snd_conv)+
  obtain b k1 where b: "cred_loop (k_msgs k) k = (b, k1)" by fastforce
  show ?thesis
  proof (cases "b = Some (CHR 0x00) \<and> k_peer k = Some (k_uid k)")
    case True
    with b cl [of "k_msgs k"] have "gamin_check_cred c k = (0, c\<lparr>gd_auth := 1\<rparr>, k1)"
      by (simp add: gamin_check_cred_def gamin_data_done_auth_def)
    then show ?thesis
      using True b assms more [of "c\<lparr>gd_auth := 1\<rparr>"]
      by (auto simp: gamin_read_data_def gamin_data_need_auth_def split: prod.splits if_splits)
        (metis fst_conv snd_conv)+
  next
    case False
    with b cl [of "k_msgs k"] have "\<exists>k2. gamin_check_cred c k = (-1, c, k2)"
      by (auto simp: gamin_check_cred_def split: option.splits)
    then show ?thesis using assms by (auto simp: gamin_read_data_def gamin_data_need_auth_def)
  qed
qed

theorem read_needs_credentials_witness:
  "fst (gamin_read_data 4 True fresh_data (kern0\<lparr>k_peer := Some 0, k_msgs := [M_BYTE (CHR 0x00)],
      k_reads := [R_N ''evil'']\<rparr>)) = -1"
proof -
  let ?k = "kern0\<lparr>k_peer := Some 0, k_msgs := [M_BYTE (CHR 0x00)], k_reads := [R_N ''evil'']\<rparr>"
  obtain r c' k' where e: "gamin_read_data 4 True fresh_data ?k = (r, c', k')" by (metis prod_cases3)
  from read_needs_credentials [OF _ e] e show ?thesis by (simp add: fresh_data_def kern0_def)
qed

text \<open>Connecting stops after at most 26 attempts, and at most one server is launched.\<close>

theorem connect_bounded:
  "let (fd, k') = gamin_connect_unix_socket cid k in
     length (k_conns k) \<le> length (k_conns k') + 26 \<and>
     (k_forks k' = k_forks k \<or> k_forks k' = k_forks k @ [cid])"
proof -
  obtain fd k' where e: "gamin_connect_unix_socket cid k = (fd, k')" by fastforce
  then have "length (k_conns k) \<le> length (k_conns k') + (MAX_RETRIES + 1 - 0) \<and>
     (k_forks k' = k_forks k \<or> (0::nat) = 0 \<and> k_forks k' = k_forks k @ [cid])"
    unfolding gamin_connect_unix_socket_def by (intro connect_loop_bounds) simp_all
  with e show ?thesis by (simp add: MAX_RETRIES_def)
qed

text \<open>On builds with the socket in the file system, a path passes the check exactly when the directory
  and the socket are there, belong to the user, are of the right kind and closed to everyone else;
  and unless the check reports an unsafe path, what is left at the directory afterwards is safe.\<close>

theorem secure_path_safe:
  assumes "gamin_check_secure_path uid rm_ok dir path fs = (r, fs')"
  shows "(r = 1 \<longleftrightarrow>
      (\<exists>d. fs dir = Some d \<and> st_uid d = uid \<and> st_kind d = K_DIR \<and> st_perm d AND S_IRWXGO = 0 \<and>
         st_perm d AND S_IRWXU = S_IRWXU) \<and>
      (\<exists>s. fs path = Some s \<and> st_uid s = uid \<and> st_kind s = K_SOCK \<and> st_perm s AND S_IRWXGO = 0)) \<and>
    (r \<noteq> -1 \<longrightarrow> (\<forall>d. fs' dir = Some d \<longrightarrow>
         st_uid d = uid \<and> st_kind d = K_DIR \<and> st_perm d AND S_IRWXGO = 0))"
  using assms
  by (auto simp: gamin_check_secure_path_def gamin_check_secure_dir_def split: option.splits if_splits)

theorem secure_path_safe_witness:
  "fst (gamin_check_secure_path 5 (\<lambda>_. True) ''/tmp/fam-u'' ''/tmp/fam-u/fam-''
     [''/tmp/fam-u'' \<mapsto> \<lparr>st_uid = 6, st_kind = K_DIR, st_perm = 448\<rparr>]) \<noteq> 1"
proof -
  obtain r fs' where e: "gamin_check_secure_path 5 (\<lambda>_. True) ''/tmp/fam-u'' ''/tmp/fam-u/fam-''
     [''/tmp/fam-u'' \<mapsto> \<lparr>st_uid = 6, st_kind = K_DIR, st_perm = 448\<rparr>] = (r, fs')" by fastforce
  from secure_path_safe [OF e] e show ?thesis by simp
qed

lemma resend_all_stream:
  "W_ERR \<notin> set (k_writes k) \<Longrightarrow> 0 \<le> fd \<Longrightarrow>
     k_sent (resend_all fd rs k) fd = k_sent k fd @
       stream (map (\<lambda>r. make_packet (rq_reqno r) (of_int (rq_type r) OR GAM_OPT_NOEXISTS) (rq_filename r)) rs)"
proof (induction rs arbitrary: k)
  case (Cons r rs)
  let ?d = "packet_bytes (make_packet (rq_reqno r) (of_int (rq_type r) OR GAM_OPT_NOEXISTS) (rq_filename r))"
  obtain k1 where k1: "gamin_write_byte fd ?d k = (0, k1)"
      "k_sent k1 = (k_sent k)(fd := k_sent k fd @ ?d)" "W_ERR \<notin> set (k_writes k1)"
    by (rule write_byte_ok [OF Cons.prems(1)])
  with Cons.IH [OF k1(3) Cons.prems(2)] Cons.prems(2) show ?case
    by (simp add: gamin_resend_request_def)
qed simp

lemma credential_ok:
  "set ws \<subseteq> {W_EINTR} \<Longrightarrow>
     credential_loop ws fd k = (0, took fd [CHR 0x00] (k\<lparr>k_writes := []\<rparr>))"
  by (induction ws fd k rule: credential_loop.induct) auto

text \<open>C37. Reconnection: when the server can be reached again and the socket takes what is written, the
  old descriptor carries a fresh stream that starts with the credential byte and then holds every
  request of the table, in the order of the table and under its old number; the table is kept, the
  bytes of the broken stream are dropped and authentication starts again.\<close>

theorem reconnect_replays_table:
  assumes "k_conns k = C_CONNECTED newfd # cs" "0 \<le> newfd" "0 \<le> fd" "k_dup2 k" "set (k_writes k) \<subseteq> {W_EINTR}"
    "k_sent k newfd = []"
  shows "case gamin_try_reconnect cid fd c k of (r, c', k') \<Rightarrow>
    r = 0 \<and> req_list c' = req_list c \<and> gd_auth c' = 0 \<and> gd_event c' = [] \<and> gd_restarted c' \<and>
    k_sent k' fd = [CHR 0x00] @ stream (map (\<lambda>r. make_packet (rq_reqno r)
       (of_int (rq_type r) OR GAM_OPT_NOEXISTS) (rq_filename r)) (req_list c))"
proof -
  let ?k1 = "k\<lparr>k_conns := cs\<rparr>"
  let ?k2 = "took newfd [CHR 0x00] (?k1\<lparr>k_writes := []\<rparr>)"
  let ?k3 = "close_fd newfd (?k2\<lparr>k_sent := (k_sent ?k2)(fd := k_sent ?k2 newfd)\<rparr>)"
  have con: "gamin_connect_unix_socket cid k = (newfd, ?k1)"
    using assms(1) by (simp add: gamin_connect_unix_socket_def)
  have cred: "gamin_write_credential_byte newfd ?k1 = (0, ?k2)"
    using credential_ok [OF assms(5), of newfd ?k1] by (simp add: gamin_write_credential_byte_def)
  have "W_ERR \<notin> set (k_writes ?k3)" "k_sent ?k3 fd = [CHR 0x00]"
    using assms(6) by simp_all
  then show ?thesis
    using con cred assms(2,3,4) resend_all_stream [of ?k3 fd "req_list c"]
    by (auto simp: gamin_try_reconnect_def gamin_data_reset_def frame_simps req_list_def
        split: option.splits)
qed

theorem reconnect_replays_table_witness:
  "k_sent (snd (snd (gamin_try_reconnect [] 4 c_live (kern0\<lparr>k_conns := [C_CONNECTED 5]\<rparr>)))) 4 =
     [CHR 0x00] @ packet_bytes (make_packet 1 (2 OR GAM_OPT_NOEXISTS) ''/d'')"
proof -
  have "req_list c_live = [new_req ''/d'' 2 77 1]" by code_simp
  with reconnect_replays_table [of "kern0\<lparr>k_conns := [C_CONNECTED 5]\<rparr>" 5 "[]" 4 c_live "[]"] show ?thesis
    by (simp add: kern0_def split_beta new_req_def stream_def)
qed

end
