(* ===== verification/Gam_Subscription.thy ===== *)
theory Gam_Subscription
  imports Gam_Protocol
begin

unbundle bit_operations_syntax

text \<open>
  Subscriptions, \<^verbatim>\<open>server/gam_subscription.c\<close>: one monitoring request of a client. The \<^verbatim>\<open>events\<close> and
  \<^verbatim>\<open>options\<close> masks are 32-bit words, the listener is a pointer. The accessors take an optional
  subscription, \<^term>\<open>None\<close> being the \<^verbatim>\<open>NULL\<close> they test for.
\<close>

section \<open>Subscriptions\<close>

record GamSubscription =
  sub_path :: string
  sub_events :: evtype
  sub_reqno :: int
  sub_pathlen :: int
  sub_options :: "32 word"
  sub_is_dir :: bool
  sub_cancelled :: bool
  sub_listener :: "cptr option"

definition gam_subscription_set_event :: "evtype \<Rightarrow> GamSubscription \<Rightarrow> GamSubscription" where
  "gam_subscription_set_event event sub = sub\<lparr>sub_events := sub_events sub OR event\<rparr>"

definition gam_subscription_unset_event :: "evtype \<Rightarrow> GamSubscription \<Rightarrow> GamSubscription" where
  "gam_subscription_unset_event event sub = sub\<lparr>sub_events := sub_events sub AND NOT event\<rparr>"

definition gam_subscription_new :: "string \<Rightarrow> evtype \<Rightarrow> int \<Rightarrow> bool \<Rightarrow> 32 word \<Rightarrow> GamSubscription" where
  "gam_subscription_new path events reqno is_dir options =
     (let sub = \<lparr>sub_path = path, sub_events = events, sub_reqno = reqno,
                 sub_pathlen = int (length path), sub_options = 0, sub_is_dir = False,
                 sub_cancelled = False, sub_listener = None\<rparr>;
          sub1 = gam_subscription_set_event (GAMIN_EVENT_EXISTS OR GAMIN_EVENT_ENDEXISTS) sub
      in sub1\<lparr>sub_is_dir := is_dir, sub_options := options\<rparr>)"

definition gam_subscription_is_dir :: "GamSubscription option \<Rightarrow> bool" where
  "gam_subscription_is_dir sub = (case sub of None \<Rightarrow> False | Some s \<Rightarrow> sub_is_dir s)"

definition gam_subscription_pathlen :: "GamSubscription option \<Rightarrow> int" where
  "gam_subscription_pathlen sub = (case sub of None \<Rightarrow> -1 | Some s \<Rightarrow> sub_pathlen s)"

definition gam_subscription_get_path :: "GamSubscription option \<Rightarrow> string option" where
  "gam_subscription_get_path sub = map_option sub_path sub"

definition gam_subscription_get_reqno :: "GamSubscription option \<Rightarrow> int" where
  "gam_subscription_get_reqno sub = (case sub of None \<Rightarrow> -1 | Some s \<Rightarrow> sub_reqno s)"

definition gam_subscription_get_listener :: "GamSubscription option \<Rightarrow> cptr option" where
  "gam_subscription_get_listener sub = (case sub of None \<Rightarrow> None | Some s \<Rightarrow> sub_listener s)"

definition gam_subscription_set_listener :: "cptr \<Rightarrow> GamSubscription \<Rightarrow> GamSubscription" where
  "gam_subscription_set_listener l sub = sub\<lparr>sub_listener := Some l\<rparr>"

definition gam_subscription_has_event :: "GamSubscription option \<Rightarrow> evtype \<Rightarrow> bool" where
  "gam_subscription_has_event sub event =
     (case sub of None \<Rightarrow> False | Some s \<Rightarrow> sub_events s AND event \<noteq> 0)"

definition gam_subscription_has_option :: "GamSubscription option \<Rightarrow> 32 word \<Rightarrow> bool" where
  "gam_subscription_has_option sub opt =
     (case sub of None \<Rightarrow> False | Some s \<Rightarrow> sub_options s AND opt \<noteq> 0)"

definition gam_subscription_cancel :: "GamSubscription \<Rightarrow> GamSubscription" where
  "gam_subscription_cancel sub = sub\<lparr>sub_cancelled := True\<rparr>"

definition gam_subscription_is_cancelled :: "GamSubscription option \<Rightarrow> bool" where
  "gam_subscription_is_cancelled sub = (case sub of None \<Rightarrow> True | Some s \<Rightarrow> sub_cancelled s)"

definition opt_noexists :: "32 word" where "opt_noexists = 16"

definition gam_subscription_wants_event ::
  "GamSubscription option \<Rightarrow> string option \<Rightarrow> bool \<Rightarrow> evtype \<Rightarrow> bool \<Rightarrow> bool" where
  "gam_subscription_wants_event sub name is_dir_node event force =
     (case (sub, name) of
        (Some s, Some n) \<Rightarrow>
          if event = 0 then False
          else if sub_cancelled s then False
          else if sub_options s AND opt_noexists \<noteq> 0 \<and>
                  (event = GAMIN_EVENT_EXISTS \<or> event = GAMIN_EVENT_ENDEXISTS) then False
          else
            (let same_path = (n = sub_path s) in
             if \<not> sub_is_dir s \<and> \<not> same_path then False
             else if \<not> gam_subscription_has_event sub event then False
             else if force then True
             else if sub_is_dir s \<and> is_dir_node \<and> same_path \<and>
                     (event = GAMIN_EVENT_EXISTS \<or> event = GAMIN_EVENT_CHANGED \<or>
                      event = GAMIN_EVENT_ENDEXISTS) then False
             else True)
      | _ \<Rightarrow> False)"

section \<open>What a client's subscription accepts\<close>

text \<open>The mask of the subscriptions that requests create.\<close>

definition req_events :: evtype where
  "req_events = GAMIN_EVENT_CHANGED OR GAMIN_EVENT_CREATED OR GAMIN_EVENT_DELETED OR
     GAMIN_EVENT_MOVED OR GAMIN_EVENT_EXISTS"

lemma opt_noexists_protocol: "opt_noexists = ucast GAM_OPT_NOEXISTS"
  by (simp add: opt_noexists_def GAM_OPT_NOEXISTS_def)

lemma gam_subscription_new_sel [simp]:
  "sub_path (gam_subscription_new p e n d opt) = p" "sub_reqno (gam_subscription_new p e n d opt) = n"
  "sub_is_dir (gam_subscription_new p e n d opt) = d" "sub_options (gam_subscription_new p e n d opt) = opt"
  "sub_pathlen (gam_subscription_new p e n d opt) = int (length p)"
  "\<not> sub_cancelled (gam_subscription_new p e n d opt)" "sub_listener (gam_subscription_new p e n d opt) = None"
  "sub_events (gam_subscription_new p e n d opt) = e OR (GAMIN_EVENT_EXISTS OR GAMIN_EVENT_ENDEXISTS)"
  by (simp_all add: gam_subscription_new_def gam_subscription_set_event_def)

lemma set_listener_sel [simp]:
  "sub_path (gam_subscription_set_listener l s) = sub_path s"
  "sub_events (gam_subscription_set_listener l s) = sub_events s"
  "sub_reqno (gam_subscription_set_listener l s) = sub_reqno s"
  "sub_pathlen (gam_subscription_set_listener l s) = sub_pathlen s"
  "sub_options (gam_subscription_set_listener l s) = sub_options s"
  "sub_is_dir (gam_subscription_set_listener l s) = sub_is_dir s"
  "sub_cancelled (gam_subscription_set_listener l s) = sub_cancelled s"
  "sub_listener (gam_subscription_set_listener l s) = Some l"
  by (simp_all add: gam_subscription_set_listener_def)

lemma set_unset_event:
  "gam_subscription_has_event (Some (gam_subscription_set_event e s)) e' \<longleftrightarrow>
     gam_subscription_has_event (Some s) e' \<or> e AND e' \<noteq> 0"
  "gam_subscription_has_event (Some (gam_subscription_unset_event e s)) e = False"
proof -
  show "gam_subscription_has_event (Some (gam_subscription_set_event e s)) e' \<longleftrightarrow>
     gam_subscription_has_event (Some s) e' \<or> e AND e' \<noteq> 0"
    by (simp add: gam_subscription_has_event_def gam_subscription_set_event_def bit.conj_disj_distrib2
        or_eq_0_iff)
  have "(sub_events s AND NOT e) AND e = 0" by (simp add: and.assoc)
  then show "gam_subscription_has_event (Some (gam_subscription_unset_event e s)) e = False"
    by (simp add: gam_subscription_has_event_def gam_subscription_unset_event_def)
qed

text \<open>The subscriptions of requests accept the six events of the protocol and nothing else.\<close>

lemma req_events_accepts:
  "(req_events OR (GAMIN_EVENT_EXISTS OR GAMIN_EVENT_ENDEXISTS)) AND event \<noteq> 0"
  if "event \<in> {GAMIN_EVENT_CHANGED, GAMIN_EVENT_CREATED, GAMIN_EVENT_DELETED, GAMIN_EVENT_MOVED,
     GAMIN_EVENT_EXISTS, GAMIN_EVENT_ENDEXISTS}"
  using that by (auto simp: req_events_def event_defs)

text \<open>The subscription a request creates accepts an event that is one of the six of the protocol
  exactly when it is for the requested path, or anything for a directory request, except that
  existence events are dropped under the no-exists option and, unless forced, the events about the
  existence and the change of a monitored directory itself are dropped.\<close>

theorem request_subscription_accepts:
  assumes "event \<in> {GAMIN_EVENT_CHANGED, GAMIN_EVENT_CREATED, GAMIN_EVENT_DELETED, GAMIN_EVENT_MOVED,
     GAMIN_EVENT_EXISTS, GAMIN_EVENT_ENDEXISTS}"
  shows "gam_subscription_wants_event
      (Some (gam_subscription_set_listener l (gam_subscription_new path req_events n is_dir opt)))
      (Some name) is_dir_node event force \<longleftrightarrow>
    (is_dir \<or> name = path) \<and>
    \<not> (opt AND opt_noexists \<noteq> 0 \<and> event \<in> {GAMIN_EVENT_EXISTS, GAMIN_EVENT_ENDEXISTS}) \<and>
    (force \<or> \<not> (is_dir \<and> is_dir_node \<and> name = path \<and>
       event \<in> {GAMIN_EVENT_EXISTS, GAMIN_EVENT_CHANGED, GAMIN_EVENT_ENDEXISTS}))"
proof -
  have "event \<noteq> 0" using assms by (auto simp: event_defs)
  with req_events_accepts [OF assms] show ?thesis
    by (auto simp: gam_subscription_wants_event_def gam_subscription_has_event_def)
qed

theorem request_subscription_accepts_witness:
  "\<not> gam_subscription_wants_event
      (Some (gam_subscription_set_listener 0 (gam_subscription_new ''/d'' req_events 1 True 16)))
      (Some ''/d/f'') False GAMIN_EVENT_EXISTS False"
  using request_subscription_accepts [of GAMIN_EVENT_EXISTS 0 "''/d''" 1 True 16 "''/d/f''" False False]
  by (simp add: opt_noexists_def)

end
