(* ===== verification/Gam_Eq.thy ===== *)
theory Gam_Eq
  imports Gam_Protocol
begin

text \<open>
  The event queue of a connection, \<^verbatim>\<open>server/gam_eq.c\<close>: events wait in order, and an event equal to the
  last one waiting is dropped. The locale \<open>event_queue\<close> states what the connections rely on.
\<close>

section \<open>The queue\<close>

record gam_eq_event =
  ee_reqno :: int
  ee_event :: evtype
  ee_path :: string
  ee_len :: int

type_synonym gam_eq = "gam_eq_event list"

definition gam_eq_event_new :: "int \<Rightarrow> evtype \<Rightarrow> string \<Rightarrow> int \<Rightarrow> gam_eq_event" where
  "gam_eq_event_new reqno event path len =
     \<lparr>ee_reqno = reqno, ee_event = event, ee_path = path, ee_len = len\<rparr>"

definition gam_eq_new :: gam_eq where
  "gam_eq_new = []"

definition gam_eq_queue :: "int \<Rightarrow> evtype \<Rightarrow> string \<Rightarrow> int \<Rightarrow> gam_eq \<Rightarrow> gam_eq" where
  "gam_eq_queue reqno event path len eq =
     (if eq \<noteq> [] \<and> ee_reqno (last eq) = reqno \<and> ee_len (last eq) = len \<and>
         ee_event (last eq) = event \<and> ee_path (last eq) = path
      then eq
      else eq @ [gam_eq_event_new reqno event path len])"

definition gam_eq_size :: "gam_eq option \<Rightarrow> nat" where
  "gam_eq_size eq = (case eq of None \<Rightarrow> 0 | Some q \<Rightarrow> length q)"

section \<open>The contract\<close>

locale event_queue =
  fixes empty :: 'q
    and enq :: "'e \<Rightarrow> 'q \<Rightarrow> 'q"
    and items :: "'q \<Rightarrow> 'e list"
  assumes items_empty: "items empty = []"
    and items_enq: "items (enq e q) =
          (if items q \<noteq> [] \<and> last (items q) = e then items q else items q @ [e])"
begin

lemma remdups_adj_snoc:
  "remdups_adj (xs @ [x]) =
     (if xs \<noteq> [] \<and> last xs = x then remdups_adj xs else remdups_adj xs @ [x])"
  by (cases xs rule: rev_cases) (auto simp: remdups_adj_append_two)

lemma enq_all: "items (fold enq es empty) = remdups_adj es"
proof (induction es rule: rev_induct)
  case (snoc e es)
  have "items (fold enq es empty) \<noteq> [] \<Longrightarrow> last (items (fold enq es empty)) = last es"
    using snoc by (cases es rule: rev_cases) (auto simp: remdups_adj_snoc)
  with snoc show ?case by (auto simp: items_enq remdups_adj_snoc)
qed (simp add: items_empty)

lemma no_adjacent_duplicates:
  "Suc i < length (items (fold enq es empty)) \<Longrightarrow>
     items (fold enq es empty) ! i \<noteq> items (fold enq es empty) ! Suc i"
  unfolding enq_all using remdups_adj_adjacent [of i es] by simp

lemma every_event_waits: "set (items (fold enq es empty)) = set es"
  by (simp add: enq_all)

end

definition eq_enqueue :: "gam_eq_event \<Rightarrow> gam_eq \<Rightarrow> gam_eq" where
  "eq_enqueue e = gam_eq_queue (ee_reqno e) (ee_event e) (ee_path e) (ee_len e)"

interpretation eq: event_queue gam_eq_new eq_enqueue "\<lambda>q. q"
proof
  fix e :: gam_eq_event and q
  have "gam_eq_event_new (ee_reqno e) (ee_event e) (ee_path e) (ee_len e) = e"
    by (cases e) (simp add: gam_eq_event_new_def)
  then show "eq_enqueue e q = (if q \<noteq> [] \<and> last q = e then q else q @ [e])"
    by (cases "last q"; cases e) (auto simp: eq_enqueue_def gam_eq_queue_def)
qed (simp add: gam_eq_new_def)

text \<open>C29. Whatever events are queued on a connection between two flushes, the queue then holds them in
  their order with runs of equal events reduced to one: no event is lost, none is reordered, and two
  neighbours are never equal.\<close>

theorem eq_queue_collapses_runs:
  "let q = fold eq_enqueue es gam_eq_new in
     q = remdups_adj es \<and> set q = set es \<and> (\<forall>i < length q - 1. q ! i \<noteq> q ! Suc i)"
  using eq.enq_all [of es] eq.every_event_waits [of es] eq.no_adjacent_duplicates [of _ es] by auto

theorem eq_queue_collapses_runs_witness:
  "fold eq_enqueue [gam_eq_event_new 1 GAMIN_EVENT_CHANGED ''a'' 1, gam_eq_event_new 1 GAMIN_EVENT_CHANGED ''a'' 1]
     gam_eq_new = [gam_eq_event_new 1 GAMIN_EVENT_CHANGED ''a'' 1]"
  using eq_queue_collapses_runs
    [of "[gam_eq_event_new 1 GAMIN_EVENT_CHANGED ''a'' 1, gam_eq_event_new 1 GAMIN_EVENT_CHANGED ''a'' 1]"]
  by simp

end
