(* ===== verification/Gam_Policy.thy ===== *)
theory Gam_Policy
  imports Gam_Prelude "HOL-Library.Sublist"
begin

text \<open>
  How the server decides between kernel monitoring and polling: the exclude patterns
  (\<^verbatim>\<open>server/gam_excludes.c\<close>), the mounted file systems and their properties (\<^verbatim>\<open>server/gam_fs.c\<close>) and the
  configuration files that fill both (\<^verbatim>\<open>server/gam_conf.c\<close>).

  Glob matching and string splitting are GLib's: they are the fields of the argument \<open>glib\<close>. What
  the files hold and when \<^verbatim>\<open>/etc/mtab\<close> was changed are arguments too.
\<close>

record glib =
  g_pattern_match :: "string \<Rightarrow> string \<Rightarrow> bool"
  g_strsplit :: "char \<Rightarrow> string \<Rightarrow> string list"

section \<open>Exclude patterns\<close>

record gam_exclude =
  ex_pattern :: string
  ex_exclude :: int

record exclude_state =
  xs_initialized :: bool
  xs_excludes :: "gam_exclude list"

definition gam_exclude_add :: "string \<Rightarrow> int \<Rightarrow> bool \<Rightarrow> exclude_state \<Rightarrow> int \<times> exclude_state" where
  "gam_exclude_add pattern exclude malloc_ok x =
     (if malloc_ok then
        (0, x\<lparr>xs_excludes := xs_excludes x @ [\<lparr>ex_pattern = pattern, ex_exclude = exclude\<rparr>]\<rparr>)
      else (-1, x))"

fun exclude_scan :: "glib \<Rightarrow> string \<Rightarrow> gam_exclude list \<Rightarrow> int" where
  "exclude_scan g filename [] = 0"
| "exclude_scan g filename (p # ps) =
     (if g_pattern_match g (ex_pattern p) filename then ex_exclude p
      else exclude_scan g filename ps)"

definition gam_exclude_check_all :: "glib \<Rightarrow> string option \<Rightarrow> exclude_state \<Rightarrow> int" where
  "gam_exclude_check_all g filename x =
     (case filename of None \<Rightarrow> 0 | Some f \<Rightarrow> exclude_scan g f (xs_excludes x))"

definition static_excludes :: "string list" where
  "static_excludes = [''/media/*'', ''/mnt/*'', ''/dev/*'', ''/proc/*'']"

definition gam_exclude_init :: "exclude_state \<Rightarrow> int \<times> exclude_state" where
  "gam_exclude_init x =
     (if xs_initialized x then (-1, x)
      else (0, (fold (\<lambda>p x. snd (gam_exclude_add p 1 True x)) static_excludes x)\<lparr>xs_initialized := True\<rparr>))"

definition gam_exclude_check :: "glib \<Rightarrow> string option \<Rightarrow> exclude_state \<Rightarrow> bool" where
  "gam_exclude_check g filename x = (gam_exclude_check_all g filename x \<noteq> 0)"

section \<open>File systems\<close>

datatype gam_fs_mon_type = GFS_MT_KERNEL | GFS_MT_POLL | GFS_MT_NONE

definition GFS_MT_DEFAULT :: gam_fs_mon_type where "GFS_MT_DEFAULT = GFS_MT_KERNEL"

record gam_fs_properties =
  fp_fsname :: string
  fp_mon_type :: gam_fs_mon_type
  fp_poll_timeout :: int

record gam_fs =
  fs_path :: string
  fs_fsname :: string

record fs_state =
  fss_initialized :: bool
  fss_filesystems :: "gam_fs list"
  fss_props :: "gam_fs_properties list"
  fss_mtime :: int

text \<open>\<^verbatim>\<open>/etc/mtab\<close> at the moment of a call: its contents if it can be read, and its modification time.\<close>

record mtab =
  mt_contents :: "string option"
  mt_mtime :: int

definition DEFAULT_POLL_TIMEOUT :: int where "DEFAULT_POLL_TIMEOUT = 0"

definition gam_fs_find_fs :: "string \<Rightarrow> fs_state \<Rightarrow> gam_fs option" where
  "gam_fs_find_fs path s = find (\<lambda>fs. prefix (fs_path fs) path) (fss_filesystems s)"

definition gam_fs_find_fs_props :: "string \<Rightarrow> fs_state \<Rightarrow> gam_fs_properties option" where
  "gam_fs_find_fs_props path s =
     do { fs \<leftarrow> gam_fs_find_fs path s; find (\<lambda>p. fp_fsname p = fs_fsname fs) (fss_props s) }"

text \<open>One line of the table: a mount point and a type, both not empty. Words are separated by blanks.\<close>

definition mtab_line :: "glib \<Rightarrow> string \<Rightarrow> gam_fs option" where
  "mtab_line g line =
     (if line = [] then None
      else case g_strsplit g (CHR '' '') line of
        _ # w1 # w2 # _ \<Rightarrow>
          if w1 = [] \<or> w2 = [] then None else Some \<lparr>fs_path = w1, fs_fsname = w2\<rparr>
      | _ \<Rightarrow> None)"

text \<open>The new list is built by prepending and sorted by falling length of the mount point.\<close>

definition gam_fs_scan_mtab :: "glib \<Rightarrow> mtab \<Rightarrow> fs_state \<Rightarrow> fs_state" where
  "gam_fs_scan_mtab g m s =
     (case mt_contents m of
        None \<Rightarrow> s
      | Some contents \<Rightarrow>
          s\<lparr>fss_filesystems :=
              sort_key (\<lambda>fs. - int (length (fs_path fs)))
                (rev (List.map_filter (mtab_line g) (g_strsplit g (CHR 0x0A) contents)))\<rparr>)"

definition fs_refresh :: "glib \<Rightarrow> mtab \<Rightarrow> fs_state \<Rightarrow> fs_state" where
  "fs_refresh g m s =
     (let s1 = (if mt_mtime m \<noteq> fss_mtime s then gam_fs_scan_mtab g m s else s)
      in s1\<lparr>fss_mtime := mt_mtime m\<rparr>)"

fun set_props ::
  "string \<Rightarrow> gam_fs_mon_type \<Rightarrow> int \<Rightarrow> gam_fs_properties list \<Rightarrow> gam_fs_properties list option" where
  "set_props fsname type poll_timeout [] = None"
| "set_props fsname type poll_timeout (p # ps) =
     (if fp_fsname p = fsname then
        Some (p\<lparr>fp_mon_type := type,
                fp_poll_timeout := (if poll_timeout \<ge> 0 then poll_timeout else fp_poll_timeout p)\<rparr> # ps)
      else map_option ((#) p) (set_props fsname type poll_timeout ps))"

definition fs_set_props ::
  "string \<Rightarrow> gam_fs_mon_type \<Rightarrow> int \<Rightarrow> fs_state \<Rightarrow> fs_state" where
  "fs_set_props fsname type poll_timeout s =
     (case set_props fsname type poll_timeout (fss_props s) of
        Some ps \<Rightarrow> s\<lparr>fss_props := ps\<rparr>
      | None \<Rightarrow>
          s\<lparr>fss_props :=
              \<lparr>fp_fsname = fsname, fp_mon_type = type,
               fp_poll_timeout = (if poll_timeout \<ge> 0 then poll_timeout else DEFAULT_POLL_TIMEOUT)\<rparr>
              # fss_props s\<rparr>)"

definition default_fs_props :: "(string \<times> gam_fs_mon_type \<times> int) list" where
  "default_fs_props =
     [(''ext3'', GFS_MT_DEFAULT, 0), (''ext2'', GFS_MT_DEFAULT, 0), (''reiser4'', GFS_MT_DEFAULT, 0),
      (''reiserfs'', GFS_MT_DEFAULT, 0), (''novfs'', GFS_MT_POLL, 30), (''nfs'', GFS_MT_POLL, 5),
      (''nfs4'', GFS_MT_POLL, 5)]"

text \<open>The first call sets the default properties; each of these seven calls enters \<open>gam_fs_init\<close> again,
  now on its second branch.\<close>

definition gam_fs_init :: "glib \<Rightarrow> mtab \<Rightarrow> fs_state \<Rightarrow> fs_state" where
  "gam_fs_init g m s =
     (if \<not> fss_initialized s then
        (let s1 = fold (\<lambda>(n, t, p) s. fs_set_props n t p (fs_refresh g m s)) default_fs_props
                    (s\<lparr>fss_initialized := True\<rparr>)
         in gam_fs_scan_mtab g m (s1\<lparr>fss_mtime := mt_mtime m\<rparr>))
      else fs_refresh g m s)"

definition gam_fs_set ::
  "glib \<Rightarrow> mtab \<Rightarrow> string \<Rightarrow> gam_fs_mon_type \<Rightarrow> int \<Rightarrow> fs_state \<Rightarrow> fs_state" where
  "gam_fs_set g m fsname type poll_timeout s = fs_set_props fsname type poll_timeout (gam_fs_init g m s)"

fun unset_props :: "string \<Rightarrow> gam_fs_properties list \<Rightarrow> gam_fs_properties list" where
  "unset_props fsname [] = []"
| "unset_props fsname (p # ps) = (if fp_fsname p = fsname then ps else p # unset_props fsname ps)"

definition gam_fs_unset :: "glib \<Rightarrow> mtab \<Rightarrow> string \<Rightarrow> fs_state \<Rightarrow> fs_state" where
  "gam_fs_unset g m fsname s =
     (let s1 = gam_fs_init g m s in s1\<lparr>fss_props := unset_props fsname (fss_props s1)\<rparr>)"

text \<open>\<open>gam_fs_find_fs\<close> calls \<open>gam_fs_init\<close> a second time.\<close>

definition gam_fs_get_mon_type :: "glib \<Rightarrow> mtab \<Rightarrow> string \<Rightarrow> fs_state \<Rightarrow> gam_fs_mon_type \<times> fs_state" where
  "gam_fs_get_mon_type g m path s =
     (let s1 = gam_fs_init g m (gam_fs_init g m s) in
      (case gam_fs_find_fs_props path s1 of None \<Rightarrow> GFS_MT_DEFAULT | Some p \<Rightarrow> fp_mon_type p, s1))"

definition gam_fs_get_poll_timeout :: "glib \<Rightarrow> mtab \<Rightarrow> string \<Rightarrow> fs_state \<Rightarrow> int \<times> fs_state" where
  "gam_fs_get_poll_timeout g m path s =
     (let s1 = gam_fs_init g m (gam_fs_init g m s) in
      (case gam_fs_find_fs_props path s1 of None \<Rightarrow> DEFAULT_POLL_TIMEOUT | Some p \<Rightarrow> fp_poll_timeout p, s1))"

section \<open>Configuration files\<close>

definition to_lower :: "char \<Rightarrow> char" where
  "to_lower c = (if 65 \<le> (of_char c :: nat) \<and> (of_char c :: nat) \<le> 90 then char_of (of_char c + 32 :: nat) else c)"

definition strcasecmp_eq :: "string \<Rightarrow> string \<Rightarrow> bool" where
  "strcasecmp_eq a b \<longleftrightarrow> map to_lower a = map to_lower b"

definition gam_conf_string_to_mon_type :: "string \<Rightarrow> gam_fs_mon_type" where
  "gam_conf_string_to_mon_type method =
     (if strcasecmp_eq method ''kernel'' then GFS_MT_KERNEL
      else if strcasecmp_eq method ''poll'' then GFS_MT_POLL
      else GFS_MT_NONE)"

text \<open>\<^verbatim>\<open>atoi\<close>: leading blanks, an optional sign, then digits.\<close>

definition is_digit :: "char \<Rightarrow> bool" where
  "is_digit c \<longleftrightarrow> 48 \<le> (of_char c :: nat) \<and> (of_char c :: nat) \<le> 57"

definition digits_value :: "string \<Rightarrow> int" where
  "digits_value s = foldl (\<lambda>n c. 10 * n + (of_char c - 48)) 0 (takeWhile is_digit s)"

definition is_blank :: "char \<Rightarrow> bool" where
  "is_blank c \<longleftrightarrow> c = CHR '' '' \<or> (9 \<le> (of_char c :: nat) \<and> (of_char c :: nat) \<le> 13)"

definition atoi :: "string \<Rightarrow> int" where
  "atoi s =
     (case dropWhile is_blank s of
        CHR ''-'' # t \<Rightarrow> - digits_value t
      | CHR ''+'' # t \<Rightarrow> digits_value t
      | t \<Rightarrow> digits_value t)"

record policy =
  po_exclude :: exclude_state
  po_fs :: fs_state

text \<open>The patterns of a \<^verbatim>\<open>poll\<close> or \<^verbatim>\<open>notify\<close> line, up to a comment; \<^verbatim>\<open>~\<close> stands for the home directory.\<close>

fun conf_patterns :: "string \<Rightarrow> string list \<Rightarrow> string list" where
  "conf_patterns home [] = []"
| "conf_patterns home (w # ws) =
     (case w of
        [] \<Rightarrow> conf_patterns home ws
      | ch # rest \<Rightarrow>
          if ch = CHR ''#'' then []
          else if ch = CHR ''~'' then (home @ rest) # conf_patterns home ws
          else if ch \<noteq> CHR ''/'' then conf_patterns home ws
          else w # conf_patterns home ws)"

definition add_patterns :: "int \<Rightarrow> string list \<Rightarrow> policy \<Rightarrow> policy" where
  "add_patterns exclude ps po =
     po\<lparr>po_exclude := fold (\<lambda>p x. snd (gam_exclude_add p exclude True x)) ps (po_exclude po)\<rparr>"

definition nth_word :: "string list \<Rightarrow> nat \<Rightarrow> string" where
  "nth_word ws i = (if i < length ws then ws ! i else [])"

definition conf_line :: "glib \<Rightarrow> mtab \<Rightarrow> string \<Rightarrow> string \<Rightarrow> policy \<Rightarrow> policy" where
  "conf_line g m home line po =
     (if line = [] \<or> hd line = CHR ''#'' then po
      else
        (let ws = g_strsplit g (CHR '' '') line in
         if nth_word ws 0 = ''fsset'' then
           (if nth_word ws 1 = [] \<or> nth_word ws 2 = [] then po
            else
              po\<lparr>po_fs := gam_fs_set g m (nth_word ws 1) (gam_conf_string_to_mon_type (nth_word ws 2))
                   (if nth_word ws 3 = [] then -1 else atoi (nth_word ws 3)) (po_fs po)\<rparr>)
         else if nth_word ws 0 = ''poll'' then add_patterns 1 (conf_patterns home (tl ws)) po
         else if nth_word ws 0 = ''notify'' then add_patterns 0 (conf_patterns home (tl ws)) po
         else po))"

definition gam_conf_read_internal ::
  "glib \<Rightarrow> mtab \<Rightarrow> string \<Rightarrow> string option \<Rightarrow> policy \<Rightarrow> policy" where
  "gam_conf_read_internal g m home contents po =
     (case contents of
        None \<Rightarrow> po
      | Some s \<Rightarrow> fold (conf_line g m home) (g_strsplit g (CHR 0x0A) s) po)"

text \<open>The system file, the user's file and the mandatory file, in this order.\<close>

definition gam_conf_read ::
  "glib \<Rightarrow> mtab \<Rightarrow> string \<Rightarrow> string option \<Rightarrow> string option \<Rightarrow> string option \<Rightarrow> policy \<Rightarrow> policy" where
  "gam_conf_read g m home global user mandatory po =
     gam_conf_read_internal g m home mandatory
       (gam_conf_read_internal g m home user (gam_conf_read_internal g m home global po))"

section \<open>The list of file systems\<close>

text \<open>The list is ordered by falling length of the mount points.\<close>

definition fs_sorted :: "fs_state \<Rightarrow> bool" where
  "fs_sorted s \<longleftrightarrow> sorted_wrt (\<lambda>a b. length (fs_path a) \<ge> length (fs_path b)) (fss_filesystems s)"

lemma scan_mtab_sorted: "fs_sorted s \<Longrightarrow> fs_sorted (gam_fs_scan_mtab g m s)"
proof -
  have "sorted_wrt (\<lambda>a b. length (fs_path a) \<ge> length (fs_path b))
      (sort_key (\<lambda>fs. - int (length (fs_path fs))) xs)" for xs :: "gam_fs list"
    using sorted_sort_key [of "\<lambda>fs. - int (length (fs_path fs))" xs]
    by (simp add: sorted_wrt_map)
  then show "fs_sorted s \<Longrightarrow> ?thesis"
    by (simp add: fs_sorted_def gam_fs_scan_mtab_def split: option.split)
qed

lemma fs_refresh_sorted: "fs_sorted s \<Longrightarrow> fs_sorted (fs_refresh g m s)"
  using scan_mtab_sorted [of s g m] by (simp add: fs_refresh_def fs_sorted_def)

lemma fs_set_props_frame [simp]:
  "fss_filesystems (fs_set_props n t p s) = fss_filesystems s"
  "fss_mtime (fs_set_props n t p s) = fss_mtime s"
  "fss_initialized (fs_set_props n t p s) = fss_initialized s"
  by (simp_all add: fs_set_props_def split: option.split)

lemma fs_init_sorted:
  assumes "fs_sorted s"
  shows "fs_sorted (gam_fs_init g m s)"
proof -
  let ?f = "\<lambda>(n, t, p) s. fs_set_props n t p (fs_refresh g m s)"
  have "fs_sorted (fold ?f ds s')" if "fs_sorted s'" for ds s'
    using that
  proof (induction ds arbitrary: s')
    case (Cons d ds)
    obtain n t p where d: "d = (n, t, p)" by (cases d)
    have "fs_sorted (?f d s')" using fs_refresh_sorted [OF Cons.prems] by (simp add: d fs_sorted_def)
    then show ?case using Cons.IH by simp
  qed simp
  then have "fs_sorted (fold ?f default_fs_props (s\<lparr>fss_initialized := True\<rparr>))"
    using assms by (simp add: fs_sorted_def)
  then have "fs_sorted ((fold ?f default_fs_props (s\<lparr>fss_initialized := True\<rparr>))\<lparr>fss_mtime := mt_mtime m\<rparr>)"
    by (simp add: fs_sorted_def)
  with assms show ?thesis by (simp add: gam_fs_init_def scan_mtab_sorted fs_refresh_sorted)
qed

lemma find_first:
  assumes "sorted_wrt R xs" "find P xs = Some x"
  shows "x \<in> set xs \<and> P x \<and> (\<forall>y \<in> set xs. P y \<longrightarrow> y = x \<or> R x y)"
  using assms by (induction xs) (auto split: if_splits)

text \<open>C38. A path belongs to the file system with the longest mount point that is a beginning of the path,
  whatever \<^verbatim>\<open>/etc/mtab\<close> holds and in whatever order; when none is found there is none.\<close>

theorem fs_longest_mount_point:
  assumes "fs_sorted s"
  shows "let s1 = gam_fs_init g m s in fs_sorted s1 \<and>
    (case gam_fs_find_fs path s1 of
       None \<Rightarrow> \<forall>fs \<in> set (fss_filesystems s1). \<not> prefix (fs_path fs) path
     | Some fs \<Rightarrow> fs \<in> set (fss_filesystems s1) \<and> prefix (fs_path fs) path \<and>
         (\<forall>fs' \<in> set (fss_filesystems s1). prefix (fs_path fs') path \<longrightarrow>
            length (fs_path fs') \<le> length (fs_path fs)))"
proof -
  let ?s1 = "gam_fs_init g m s"
  have srt: "fs_sorted ?s1" by (rule fs_init_sorted [OF assms])
  show ?thesis
  proof (cases "gam_fs_find_fs path ?s1")
    case None
    then have "\<forall>fs \<in> set (fss_filesystems ?s1). \<not> prefix (fs_path fs) path"
      by (simp add: gam_fs_find_fs_def find_None_iff)
    with None srt show ?thesis by simp
  next
    case (Some fs)
    then show ?thesis
      using srt find_first [of _ "fss_filesystems ?s1" "\<lambda>fs. prefix (fs_path fs) path" fs]
      by (fastforce simp: gam_fs_find_fs_def fs_sorted_def)
  qed
qed

definition fs_state0 :: fs_state where
  "fs_state0 = \<lparr>fss_initialized = False, fss_filesystems = [], fss_props = [], fss_mtime = 0\<rparr>"

text \<open>A splitting function for the examples.\<close>

fun split_on :: "char \<Rightarrow> string \<Rightarrow> string list" where
  "split_on d [] = [[]]"
| "split_on d (c # cs) =
     (if c = d then [] # split_on d cs
      else case split_on d cs of [] \<Rightarrow> [[c]] | w # ws \<Rightarrow> (c # w) # ws)"

definition glib0 :: glib where
  "glib0 = \<lparr>g_pattern_match = (=), g_strsplit = split_on\<rparr>"

definition mtab0 :: mtab where
  "mtab0 = \<lparr>mt_contents = Some (''a / ext3'' @ [CHR 0x0A] @ ''b /home nfs''), mt_mtime = 3\<rparr>"

theorem fs_longest_mount_point_witness:
  "case gam_fs_find_fs ''/home/u'' (gam_fs_init glib0 mtab0 fs_state0) of
     None \<Rightarrow> False | Some fs \<Rightarrow> length (fs_path fs) \<ge> length ''/home''"
proof -
  have "fs_sorted fs_state0" by (simp add: fs_sorted_def fs_state0_def)
  note t = fs_longest_mount_point [OF this, of glib0 mtab0 "''/home/u''"]
  have "\<lparr>fs_path = ''/home'', fs_fsname = ''nfs''\<rparr> \<in> set (fss_filesystems (gam_fs_init glib0 mtab0 fs_state0))"
    by code_simp
  with t show ?thesis by (auto split: option.splits)
qed

text \<open>The beginning of a path is taken character by character: a file system mounted on
  \<^verbatim>\<open>/home\<close> also claims \<^verbatim>\<open>/homework\<close>.\<close>

lemma mount_point_claims_sibling:
  "map_option fs_path (gam_fs_find_fs ''/homework/x'' (gam_fs_init glib0 mtab0 fs_state0)) = Some ''/home''"
  by code_simp

section \<open>Properties of file systems\<close>

lemma find_set_props:
  "set_props n t p ps = Some ps' \<Longrightarrow>
     find (\<lambda>q. fp_fsname q = k) ps' =
       (if k = n then map_option (\<lambda>q. q\<lparr>fp_mon_type := t,
            fp_poll_timeout := (if p \<ge> 0 then p else fp_poll_timeout q)\<rparr>) (find (\<lambda>q. fp_fsname q = n) ps)
        else find (\<lambda>q. fp_fsname q = k) ps)"
  by (induction n t p ps arbitrary: ps' rule: set_props.induct) (auto split: if_splits)

lemma set_props_None: "set_props n t p ps = None \<longleftrightarrow> find (\<lambda>q. fp_fsname q = n) ps = None"
  by (induction n t p ps rule: set_props.induct) auto

lemma find_fs_set_props:
  "map_option fp_mon_type (find (\<lambda>q. fp_fsname q = k) (fss_props (fs_set_props n t p s))) =
     (if k = n then Some t else map_option fp_mon_type (find (\<lambda>q. fp_fsname q = k) (fss_props s)))"
proof (cases "set_props n t p (fss_props s)")
  case None
  then show ?thesis by (simp add: fs_set_props_def)
next
  case (Some ps)
  then have "find (\<lambda>q. fp_fsname q = n) (fss_props s) \<noteq> None"
    using set_props_None [of n t p "fss_props s"] by simp
  then obtain q where "find (\<lambda>q. fp_fsname q = n) (fss_props s) = Some q" by blast
  with Some show ?thesis by (simp add: fs_set_props_def find_set_props)
qed

lemma fs_init_initialized [simp]: "fss_initialized (gam_fs_init g m s)"
  "fss_mtime (gam_fs_init g m s) = mt_mtime m"
proof -
  let ?f = "\<lambda>(n, t, p) s. fs_set_props n t p (fs_refresh g m s)"
  have r: "fss_initialized (fs_refresh g m s) = fss_initialized s" for s
    by (simp add: fs_refresh_def gam_fs_scan_mtab_def split: option.split)
  have "fss_initialized s' \<Longrightarrow> fss_initialized (fold ?f ds s')" for ds s'
    by (induction ds arbitrary: s') (auto simp: r)
  then show "fss_initialized (gam_fs_init g m s)"
    by (simp add: gam_fs_init_def gam_fs_scan_mtab_def r split: option.split)
  show "fss_mtime (gam_fs_init g m s) = mt_mtime m"
    by (simp add: gam_fs_init_def gam_fs_scan_mtab_def fs_refresh_def split: option.split)
qed

lemma fs_init_idem: "fss_initialized s \<Longrightarrow> fss_mtime s = mt_mtime m \<Longrightarrow> gam_fs_init g m s = s"
  by (simp add: gam_fs_init_def fs_refresh_def)

text \<open>Setting the monitoring method of a file system type takes effect for every path on a file
  system of that type and for no other path, as long as the mount table does not change.\<close>

theorem fs_set_takes_effect:
  "let s0 = gam_fs_init g m s; s1 = gam_fs_set g m n t p s in
     fst (gam_fs_get_mon_type g m path s1) =
       (if map_option fs_fsname (gam_fs_find_fs path s0) = Some n then t
        else fst (gam_fs_get_mon_type g m path s0))"
proof -
  let ?s0 = "gam_fs_init g m s"
  let ?s1 = "fs_set_props n t p ?s0"
  have find: "gam_fs_find_fs path ?s1 = gam_fs_find_fs path ?s0" by (simp add: gam_fs_find_fs_def)
  have mt: "(case find P ps of None \<Rightarrow> GFS_MT_DEFAULT | Some q \<Rightarrow> fp_mon_type q) =
      (case map_option fp_mon_type (find P ps) of None \<Rightarrow> GFS_MT_DEFAULT | Some t \<Rightarrow> t)"
    for P and ps :: "gam_fs_properties list" by (simp split: option.split)
  show ?thesis
    using find find_fs_set_props [of _ n t p ?s0]
    by (auto simp: gam_fs_set_def gam_fs_get_mon_type_def fs_init_idem gam_fs_find_fs_props_def mt
        split: Option.bind_split)
qed

section \<open>First match wins\<close>

lemma exclude_scan_append:
  "exclude_scan g f (xs @ ys) =
     (if \<exists>p \<in> set xs. g_pattern_match g (ex_pattern p) f then exclude_scan g f xs
      else exclude_scan g f ys)"
  by (induction xs) auto

lemma exclude_add_fold:
  "xs_excludes (fold (\<lambda>p x. snd (gam_exclude_add p e True x)) ps x) =
     xs_excludes x @ map (\<lambda>p. \<lparr>ex_pattern = p, ex_exclude = e\<rparr>) ps"
  by (induction ps arbitrary: x) (auto simp: gam_exclude_add_def)

lemma conf_line_appends: "\<exists>ys. xs_excludes (po_exclude (conf_line g m home l po)) = xs_excludes (po_exclude po) @ ys"
  by (auto simp: conf_line_def add_patterns_def exclude_add_fold)

lemma conf_read_internal_appends:
  "\<exists>ys. xs_excludes (po_exclude (gam_conf_read_internal g m home c po)) = xs_excludes (po_exclude po) @ ys"
proof (cases c)
  case (Some s)
  have "\<exists>ys. xs_excludes (po_exclude (fold (conf_line g m home) ls po)) = xs_excludes (po_exclude po) @ ys" for ls
  proof (induction ls arbitrary: po)
    case (Cons l ls)
    from Cons [of "conf_line g m home l po"] conf_line_appends [of g m home l po] show ?case by auto
  qed simp
  with Some show ?thesis by (simp add: gam_conf_read_internal_def)
qed (simp add: gam_conf_read_internal_def)

text \<open>For the exclude patterns the first file that says something about a path decides: once a pattern
  of the system or the user's file matches, the mandatory file, which is read last so that it can
  override them, changes nothing for that path.\<close>

theorem mandatory_patterns_do_not_override:
  assumes "p \<in> set (xs_excludes (po_exclude
      (gam_conf_read_internal g m home user (gam_conf_read_internal g m home global po))))"
    and "g_pattern_match g (ex_pattern p) f"
  shows "gam_exclude_check g (Some f) (po_exclude (gam_conf_read g m home global user mandatory po)) =
    gam_exclude_check g (Some f) (po_exclude (gam_conf_read g m home global user None po))"
proof -
  let ?po = "gam_conf_read_internal g m home user (gam_conf_read_internal g m home global po)"
  obtain ys where "xs_excludes (po_exclude (gam_conf_read_internal g m home mandatory ?po)) =
      xs_excludes (po_exclude ?po) @ ys"
    using conf_read_internal_appends by blast
  then show ?thesis
    using assms
    by (auto simp: gam_conf_read_def gam_exclude_check_def gam_exclude_check_all_def exclude_scan_append
        gam_conf_read_internal_def [of g m home None])
qed

definition policy0 :: policy where
  "policy0 = \<lparr>po_exclude = \<lparr>xs_initialized = False, xs_excludes = []\<rparr>, po_fs = fs_state0\<rparr>"

theorem mandatory_patterns_do_not_override_witness:
  "\<not> gam_exclude_check glib0 (Some ''/x'') (po_exclude (gam_conf_read glib0 mtab0 ''/h'' None
       (Some ''notify /x'') (Some ''poll /x'') policy0))"
proof -
  let ?p = "\<lparr>ex_pattern = ''/x'', ex_exclude = 0\<rparr>"
  have "?p \<in> set (xs_excludes (po_exclude (gam_conf_read_internal glib0 mtab0 ''/h'' (Some ''notify /x'')
      (gam_conf_read_internal glib0 mtab0 ''/h'' None policy0))))" by code_simp
  moreover have "g_pattern_match glib0 (ex_pattern ?p) ''/x''" by (simp add: glib0_def)
  ultimately have "gam_exclude_check glib0 (Some ''/x'') (po_exclude (gam_conf_read glib0 mtab0 ''/h'' None
       (Some ''notify /x'') (Some ''poll /x'') policy0)) =
     gam_exclude_check glib0 (Some ''/x'') (po_exclude (gam_conf_read glib0 mtab0 ''/h'' None
       (Some ''notify /x'') None policy0))"
    by (rule mandatory_patterns_do_not_override)
  also have "\<dots> = False" by code_simp
  finally show ?thesis by simp
qed

end
