(* ===== verification/Gam_Srv.thy ===== *)
theory Gam_Srv
  imports Gam_Subscription Gam_Eq Gam_Policy
begin

unbundle bit_operations_syntax

text \<open>
  The state of the server and the paths an event takes to a client: the packet senders and the event
  queue of \<^verbatim>\<open>server/gam_connection.c\<close>, the write loop of \<^verbatim>\<open>server/gam_channel.c\<close>, and the choice of the
  back end and the emission of events of \<^verbatim>\<open>server/gam_server.c\<close>.

  Subscriptions, listeners and connections live in heaps. A dangling pointer and a failed \<^verbatim>\<open>g_assert\<close>
  give \<^term>\<open>None\<close>. The record can be extended by the state of a monitoring back end. The kernel's
  answers to the coming writes are in \<open>sv_writes\<close>, what each descriptor has taken is in \<open>sv_sent\<close>.
\<close>

section \<open>State\<close>

datatype GamConnState = GAM_STATE_ERROR | GAM_STATE_AUTH | GAM_STATE_OKAY | GAM_STATE_CLOSED

record GamListener =
  ls_service :: cptr
  ls_pid :: int
  ls_pidname :: string
  ls_subs :: "cptr list"

record GamConnData =
  cn_state :: GamConnState
  cn_fd :: int
  cn_pid :: int
  cn_pidname :: "string option"
  cn_request :: string
  cn_listener :: "cptr option"
  cn_eq :: gam_eq
  cn_eq_source :: bool

record srv =
  sv_subs :: "cptr \<rightharpoonup> GamSubscription"
  sv_listeners :: "cptr \<rightharpoonup> GamListener"
  sv_conns :: "cptr \<rightharpoonup> GamConnData"
  sv_connlist :: "cptr list"
  sv_next :: cptr
  sv_writes :: "wres list"
  sv_sent :: "int \<Rightarrow> string"
  sv_closed :: "int list"
  sv_inotify :: bool
  sv_no_timeout :: bool
  sv_timeout :: bool
  sv_exited :: bool

text \<open>The functions the back ends install, and what the server asks about a path and a process.\<close>

record 'x hooks =
  hk_kernel_add :: "(cptr \<Rightarrow> 'x \<Rightarrow> (bool \<times> 'x) option) option"
  hk_kernel_remove :: "(cptr \<Rightarrow> 'x \<Rightarrow> (bool \<times> 'x) option) option"
  hk_kernel_remove_all :: "(cptr \<Rightarrow> 'x \<Rightarrow> (bool \<times> 'x) option) option"
  hk_poll_add :: "(cptr \<Rightarrow> 'x \<Rightarrow> (bool \<times> 'x) option) option"
  hk_poll_remove :: "(cptr \<Rightarrow> 'x \<Rightarrow> (bool \<times> 'x) option) option"
  hk_poll_remove_all :: "(cptr \<Rightarrow> 'x \<Rightarrow> (bool \<times> 'x) option) option"
  hk_exclude :: "string \<Rightarrow> bool"
  hk_mon_type :: "string \<Rightarrow> gam_fs_mon_type"
  hk_pidname :: "int \<Rightarrow> string"

definition upd_conn :: "cptr \<Rightarrow> (GamConnData \<Rightarrow> GamConnData) \<Rightarrow> 'b srv_scheme \<Rightarrow> 'b srv_scheme" where
  "upd_conn p f s = s\<lparr>sv_conns := (sv_conns s)(p := map_option f (sv_conns s p))\<rparr>"

section \<open>Writing to a client\<close>

definition srv_took :: "int \<Rightarrow> string \<Rightarrow> 'b srv_scheme \<Rightarrow> 'b srv_scheme" where
  "srv_took fd bs s = s\<lparr>sv_sent := (sv_sent s)(fd := sv_sent s fd @ bs)\<rparr>"

fun conn_write_loop :: "wres list \<Rightarrow> int \<Rightarrow> string \<Rightarrow> 'b srv_scheme \<Rightarrow> bool \<times> 'b srv_scheme" where
  "conn_write_loop [] fd data s = (True, srv_took fd data (s\<lparr>sv_writes := []\<rparr>))"
| "conn_write_loop (W_ERR # ws) fd data s = (False, s\<lparr>sv_writes := ws\<rparr>)"
| "conn_write_loop (W_EINTR # ws) fd data s =
     (if data \<noteq> [] then conn_write_loop ws fd data s else (True, s\<lparr>sv_writes := ws\<rparr>))"
| "conn_write_loop (W_N n # ws) fd data s =
     (let s1 = srv_took fd (take n data) (s\<lparr>sv_writes := ws\<rparr>) in
      if drop n data \<noteq> [] then conn_write_loop ws fd (drop n data) s1 else (True, s1))"

text \<open>A write to a descriptor that was shut down fails.\<close>

definition gam_client_conn_write :: "int \<Rightarrow> string \<Rightarrow> 'b srv_scheme \<Rightarrow> bool \<times> 'b srv_scheme" where
  "gam_client_conn_write fd data s =
     (if fd < 0 \<or> fd \<in> set (sv_closed s) then (False, s) else conn_write_loop (sv_writes s) fd data s)"

text \<open>The event codes of the FAM protocol.\<close>

definition fam_code :: "evtype \<Rightarrow> int option" where
  "fam_code event =
     (if event = GAMIN_EVENT_CHANGED then Some FAMChanged
      else if event = GAMIN_EVENT_CREATED then Some FAMCreated
      else if event = GAMIN_EVENT_DELETED then Some FAMDeleted
      else if event = GAMIN_EVENT_MOVED then Some FAMMoved
      else if event = GAMIN_EVENT_EXISTS then Some FAMExists
      else if event = GAMIN_EVENT_ENDEXISTS then Some FAMEndExist
      else None)"

text \<open>The assertion that \<^verbatim>\<open>path[len]\<close> is NUL says that \<open>len\<close> is the length of the path.\<close>

definition gam_send_event ::
  "cptr \<Rightarrow> int \<Rightarrow> evtype \<Rightarrow> string \<Rightarrow> int \<Rightarrow> 'b srv_scheme \<Rightarrow> (int \<times> 'b srv_scheme) option" where
  "gam_send_event conn reqno event path len s =
     do { c \<leftarrow> sv_conns s conn;
          if cn_fd c < 0 \<or> len \<noteq> int (length path) then None
          else if len \<ge> int MAXPATHLEN then Some (-1, s)
          else case fam_code event of
            None \<Rightarrow> Some (-1, s)
          | Some type \<Rightarrow>
              (let (ok, s1) = gam_client_conn_write (cn_fd c)
                     (packet_bytes (make_packet reqno (of_int type) path)) s
               in Some (if ok then 0 else -1, s1)) }"

definition gam_send_ack ::
  "cptr \<Rightarrow> int \<Rightarrow> string \<Rightarrow> int \<Rightarrow> 'b srv_scheme \<Rightarrow> (int \<times> 'b srv_scheme) option" where
  "gam_send_ack conn reqno path len s =
     do { c \<leftarrow> sv_conns s conn;
          if cn_fd c < 0 \<or> len \<le> 0 \<or> len \<noteq> int (length path) then None
          else if len \<ge> int MAXPATHLEN then Some (-1, s)
          else
            (let (ok, s1) = gam_client_conn_write (cn_fd c)
                   (packet_bytes (make_packet reqno (of_int FAMAcknowledge) path)) s
             in Some (if ok then 0 else -1, s1)) }"

definition gam_queue_event ::
  "cptr \<Rightarrow> int \<Rightarrow> evtype \<Rightarrow> string \<Rightarrow> int \<Rightarrow> 'b srv_scheme \<Rightarrow> 'b srv_scheme option" where
  "gam_queue_event conn reqno event path len s =
     do { c \<leftarrow> sv_conns s conn;
          Some (upd_conn conn (\<lambda>c. c\<lparr>cn_eq := gam_eq_queue reqno event path len (cn_eq c),
                                     cn_eq_source := True\<rparr>) s) }"

section \<open>Flushing the queue\<close>

text \<open>The loop pops the head and sends it; \<open>q\<close> is the queue that remains.\<close>

fun eq_flush_loop :: "gam_eq \<Rightarrow> cptr \<Rightarrow> 'b srv_scheme \<Rightarrow> 'b srv_scheme option" where
  "eq_flush_loop [] conn s = Some s"
| "eq_flush_loop (e # q) conn s =
     do { (r, s1) \<leftarrow> gam_send_event conn (ee_reqno e) (ee_event e) (ee_path e) (ee_len e)
                     (upd_conn conn (\<lambda>c. c\<lparr>cn_eq := q\<rparr>) s);
          eq_flush_loop q conn s1 }"

definition gam_eq_flush :: "cptr \<Rightarrow> 'b srv_scheme \<Rightarrow> (bool \<times> 'b srv_scheme) option" where
  "gam_eq_flush conn s =
     do { c \<leftarrow> sv_conns s conn;
          s1 \<leftarrow> eq_flush_loop (cn_eq c) conn s;
          Some (cn_eq c \<noteq> [], s1) }"

definition gam_connection_eq_flush :: "cptr \<Rightarrow> 'b srv_scheme \<Rightarrow> (bool \<times> 'b srv_scheme) option" where
  "gam_connection_eq_flush conn s =
     do { (work, s1) \<leftarrow> gam_eq_flush conn s;
          Some (work, if work then s1 else upd_conn conn (\<lambda>c. c\<lparr>cn_eq_source := False\<rparr>) s1) }"

section \<open>Emitting events\<close>

text \<open>For an entry of a monitored directory the client is told the name without the directory.\<close>

definition event_subpath :: "GamSubscription \<Rightarrow> string \<Rightarrow> string" where
  "event_subpath sub path =
     (let dlen = sub_pathlen sub in
      if sub_is_dir sub \<and> int (length path) > dlen + 1 \<and> path ! nat dlen = CHR ''/''
      then drop (nat dlen + 1) path else path)"

definition gam_server_emit_one_event ::
  "string \<Rightarrow> bool \<Rightarrow> evtype \<Rightarrow> cptr \<Rightarrow> bool \<Rightarrow> 'b srv_scheme \<Rightarrow> 'b srv_scheme option" where
  "gam_server_emit_one_event path node_is_dir event subp force s =
     do { sub \<leftarrow> sv_subs s subp;
          if \<not> gam_subscription_wants_event (Some sub) (Some path) node_is_dir event force then Some s
          else case sub_listener sub of
            None \<Rightarrow> Some s
          | Some l \<Rightarrow>
              do { ls \<leftarrow> sv_listeners s l;
                   let subpath = event_subpath sub path;
                   if sv_inotify s then
                     gam_queue_event (ls_service ls) (sub_reqno sub) event subpath
                       (int (length subpath)) s
                   else
                     do { (r, s1) \<leftarrow> gam_send_event (ls_service ls) (sub_reqno sub) event subpath
                                     (int (length subpath)) s;
                          Some s1 } } }"

fun gam_server_emit_event ::
  "string \<Rightarrow> bool \<Rightarrow> evtype \<Rightarrow> cptr list \<Rightarrow> bool \<Rightarrow> 'b srv_scheme \<Rightarrow> 'b srv_scheme option" where
  "gam_server_emit_event path is_dir_node event [] force s = Some s"
| "gam_server_emit_event path is_dir_node event (sub # subs) force s =
     do { s1 \<leftarrow> gam_server_emit_one_event path is_dir_node event sub force s;
          gam_server_emit_event path is_dir_node event subs force s1 }"

section \<open>Choosing the back end\<close>

definition call_hook ::
  "(cptr \<Rightarrow> 'x \<Rightarrow> (bool \<times> 'x) option) option \<Rightarrow> cptr \<Rightarrow> 'x \<Rightarrow> (bool \<times> 'x) option" where
  "call_hook h p s = (case h of None \<Rightarrow> Some (False, s) | Some f \<Rightarrow> f p s)"

definition gam_kernel_add_subscription :: "'x hooks \<Rightarrow> cptr \<Rightarrow> 'x \<Rightarrow> (bool \<times> 'x) option" where
  "gam_kernel_add_subscription hk = call_hook (hk_kernel_add hk)"

definition gam_kernel_remove_subscription :: "'x hooks \<Rightarrow> cptr \<Rightarrow> 'x \<Rightarrow> (bool \<times> 'x) option" where
  "gam_kernel_remove_subscription hk = call_hook (hk_kernel_remove hk)"

definition gam_kernel_remove_all_for :: "'x hooks \<Rightarrow> cptr \<Rightarrow> 'x \<Rightarrow> (bool \<times> 'x) option" where
  "gam_kernel_remove_all_for hk = call_hook (hk_kernel_remove_all hk)"

definition gam_poll_add_subscription :: "'x hooks \<Rightarrow> cptr \<Rightarrow> 'x \<Rightarrow> (bool \<times> 'x) option" where
  "gam_poll_add_subscription hk = call_hook (hk_poll_add hk)"

definition gam_poll_remove_subscription :: "'x hooks \<Rightarrow> cptr \<Rightarrow> 'x \<Rightarrow> (bool \<times> 'x) option" where
  "gam_poll_remove_subscription hk = call_hook (hk_poll_remove hk)"

definition gam_poll_remove_all_for :: "'x hooks \<Rightarrow> cptr \<Rightarrow> 'x \<Rightarrow> (bool \<times> 'x) option" where
  "gam_poll_remove_all_for hk = call_hook (hk_poll_remove_all hk)"

definition gam_server_install_kernel_hooks ::
  "(cptr \<Rightarrow> 'x \<Rightarrow> (bool \<times> 'x) option) \<Rightarrow> (cptr \<Rightarrow> 'x \<Rightarrow> (bool \<times> 'x) option) \<Rightarrow>
   (cptr \<Rightarrow> 'x \<Rightarrow> (bool \<times> 'x) option) \<Rightarrow> 'x hooks \<Rightarrow> 'x hooks" where
  "gam_server_install_kernel_hooks add rem rem_all hk =
     hk\<lparr>hk_kernel_add := Some add, hk_kernel_remove := Some rem, hk_kernel_remove_all := Some rem_all\<rparr>"

definition gam_server_install_poll_hooks ::
  "(cptr \<Rightarrow> 'x \<Rightarrow> (bool \<times> 'x) option) \<Rightarrow> (cptr \<Rightarrow> 'x \<Rightarrow> (bool \<times> 'x) option) \<Rightarrow>
   (cptr \<Rightarrow> 'x \<Rightarrow> (bool \<times> 'x) option) \<Rightarrow> 'x hooks \<Rightarrow> 'x hooks" where
  "gam_server_install_poll_hooks add rem rem_all hk =
     hk\<lparr>hk_poll_add := Some add, hk_poll_remove := Some rem, hk_poll_remove_all := Some rem_all\<rparr>"

definition gam_add_subscription ::
  "'b srv_scheme hooks \<Rightarrow> cptr \<Rightarrow> 'b srv_scheme \<Rightarrow> (bool \<times> 'b srv_scheme) option" where
  "gam_add_subscription hk subp s =
     do { sub \<leftarrow> sv_subs s subp;
          if hk_exclude hk (sub_path sub) then
            (if sv_inotify s then gam_poll_add_subscription hk subp s
             else gam_kernel_add_subscription hk subp s)
          else case hk_mon_type hk (sub_path sub) of
            GFS_MT_KERNEL \<Rightarrow> gam_kernel_add_subscription hk subp s
          | GFS_MT_POLL \<Rightarrow> gam_poll_add_subscription hk subp s
          | GFS_MT_NONE \<Rightarrow> Some (False, s) }"

definition gam_remove_subscription ::
  "'b srv_scheme hooks \<Rightarrow> cptr \<Rightarrow> 'b srv_scheme \<Rightarrow> (bool \<times> 'b srv_scheme) option" where
  "gam_remove_subscription hk subp s =
     do { sub \<leftarrow> sv_subs s subp;
          if hk_exclude hk (sub_path sub) then
            (if sv_inotify s then gam_poll_remove_subscription hk subp s
             else gam_kernel_remove_subscription hk subp s)
          else case hk_mon_type hk (sub_path sub) of
            GFS_MT_KERNEL \<Rightarrow> gam_kernel_remove_subscription hk subp s
          | GFS_MT_POLL \<Rightarrow> gam_poll_remove_subscription hk subp s
          | GFS_MT_NONE \<Rightarrow> Some (False, s) }"

section \<open>What the senders put on the wire\<close>

lemma srv_took_simps [simp]:
  "sv_sent (srv_took fd bs s) = (sv_sent s)(fd := sv_sent s fd @ bs)"
  "sv_writes (srv_took fd bs s) = sv_writes s" "sv_closed (srv_took fd bs s) = sv_closed s"
  "sv_conns (srv_took fd bs s) = sv_conns s" "sv_subs (srv_took fd bs s) = sv_subs s"
  "sv_listeners (srv_took fd bs s) = sv_listeners s" "sv_inotify (srv_took fd bs s) = sv_inotify s"
  "sv_connlist (srv_took fd bs s) = sv_connlist s" "sv_next (srv_took fd bs s) = sv_next s"
  by (simp_all add: srv_took_def)

lemma upd_conn_simps [simp]:
  "sv_sent (upd_conn p f s) = sv_sent s" "sv_writes (upd_conn p f s) = sv_writes s"
  "sv_closed (upd_conn p f s) = sv_closed s" "sv_subs (upd_conn p f s) = sv_subs s"
  "sv_listeners (upd_conn p f s) = sv_listeners s" "sv_inotify (upd_conn p f s) = sv_inotify s"
  "sv_connlist (upd_conn p f s) = sv_connlist s" "sv_next (upd_conn p f s) = sv_next s"
  "sv_conns (upd_conn p f s) = (sv_conns s)(p := map_option f (sv_conns s p))"
  by (simp_all add: upd_conn_def)

text \<open>The parts of the server that writing leaves alone.\<close>

definition same_world :: "'b srv_scheme \<Rightarrow> 'b srv_scheme \<Rightarrow> bool" where
  "same_world s s' \<longleftrightarrow> s' = s\<lparr>sv_writes := sv_writes s', sv_sent := sv_sent s'\<rparr>"

lemma same_world_refl [simp]: "same_world s s"
  by (simp add: same_world_def)

lemma same_world_trans: "same_world s s' \<Longrightarrow> same_world s' s'' \<Longrightarrow> same_world s s''"
proof -
  assume a: "same_world s s'" and b: "same_world s' s''"
  have "s'' = s'\<lparr>sv_writes := sv_writes s'', sv_sent := sv_sent s''\<rparr>"
    using b unfolding same_world_def .
  also have "s' = s\<lparr>sv_writes := sv_writes s', sv_sent := sv_sent s'\<rparr>"
    using a unfolding same_world_def .
  finally show ?thesis unfolding same_world_def by simp
qed

lemma same_world_simps:
  assumes "same_world s s'"
  shows "sv_conns s' = sv_conns s" "sv_subs s' = sv_subs s" "sv_listeners s' = sv_listeners s"
    "sv_closed s' = sv_closed s" "sv_inotify s' = sv_inotify s" "sv_connlist s' = sv_connlist s"
    "sv_next s' = sv_next s" "srv.more s' = srv.more s"
  by (subst assms [unfolded same_world_def], simp)+

lemma conn_write_loop_world: "same_world s (snd (conn_write_loop ws fd data s))"
proof (induction ws fd data s rule: conn_write_loop.induct)
  case (4 n ws fd data s)
  have "same_world s (srv_took fd (take n data) (s\<lparr>sv_writes := ws\<rparr>))"
    by (simp add: same_world_def srv_took_def)
  with 4 show ?case by (auto intro: same_world_trans)
qed (auto simp: same_world_def srv_took_def)

lemma conn_write_loop_spec:
  "conn_write_loop ws fd data s = (ok, s') \<Longrightarrow>
     \<exists>p. prefix p data \<and> sv_sent s' = (sv_sent s)(fd := sv_sent s fd @ p) \<and> (ok \<longrightarrow> p = data) \<and>
       (W_ERR \<notin> set ws \<longrightarrow> ok) \<and> set (sv_writes s') \<subseteq> set ws"
proof (induction ws fd data s rule: conn_write_loop.induct)
  case (2 ws fd data s)
  then show ?case by (intro exI [of _ "[]"]) auto
next
  case (4 n ws fd data s)
  let ?s1 = "srv_took fd (take n data) (s\<lparr>sv_writes := ws\<rparr>)"
  show ?case
  proof (cases "drop n data = []")
    case True
    then show ?thesis using "4.prems" by (intro exI [of _ data]) auto
  next
    case False
    have w: "conn_write_loop ws fd (drop n data) ?s1 = (ok, s')" using "4.prems" False by simp
    obtain p where p: "prefix p (drop n data)" "sv_sent s' = (sv_sent ?s1)(fd := sv_sent ?s1 fd @ p)"
        "ok \<longrightarrow> p = drop n data" "W_ERR \<notin> set ws \<longrightarrow> ok" "set (sv_writes s') \<subseteq> set ws"
      using "4.IH" [OF refl False w] by blast
    have "prefix (take n data @ p) (take n data @ drop n data)"
      unfolding same_prefix_prefix by (rule p(1))
    then show ?thesis using p by (intro exI [of _ "take n data @ p"]) auto
  qed
qed (auto split: if_splits)

text \<open>No call of the kernel fails: interrupted and short writes only.\<close>

definition writes_ok :: "'b srv_scheme \<Rightarrow> bool" where
  "writes_ok s \<longleftrightarrow> W_ERR \<notin> set (sv_writes s)"

lemma conn_write_ok:
  assumes "writes_ok s" "0 \<le> fd" "fd \<notin> set (sv_closed s)"
  obtains s' where "gam_client_conn_write fd data s = (True, s')" "same_world s s'" "writes_ok s'"
    "sv_sent s' = (sv_sent s)(fd := sv_sent s fd @ data)"
proof -
  obtain ok s' where e: "conn_write_loop (sv_writes s) fd data s = (ok, s')" by fastforce
  from conn_write_loop_spec [OF e] assms(1) have
    "ok" "sv_sent s' = (sv_sent s)(fd := sv_sent s fd @ data)" "writes_ok s'"
    by (auto simp: writes_ok_def)
  with e that assms(2,3) conn_write_loop_world [of s "sv_writes s" fd data] show ?thesis
    by (simp add: gam_client_conn_write_def)
qed

text \<open>The packet of an event, for the events that have a code.\<close>

definition event_packet :: "int \<Rightarrow> evtype \<Rightarrow> string \<Rightarrow> GAMPacket" where
  "event_packet reqno event path = make_packet reqno (of_int (the (fam_code event))) path"

definition sendable :: "evtype \<Rightarrow> string \<Rightarrow> bool" where
  "sendable event path \<longleftrightarrow> fam_code event \<noteq> None \<and> length path < MAXPATHLEN"

definition conn_open :: "cptr \<Rightarrow> 'b srv_scheme \<Rightarrow> bool" where
  "conn_open p s \<longleftrightarrow> (\<exists>c. sv_conns s p = Some c \<and> 0 \<le> cn_fd c \<and> cn_fd c \<notin> set (sv_closed s))"

definition conn_fd :: "cptr \<Rightarrow> 'b srv_scheme \<Rightarrow> int" where
  "conn_fd p s = cn_fd (the (sv_conns s p))"

lemma send_event_ok:
  assumes "writes_ok s" "conn_open p s"
  obtains r s' where "gam_send_event p reqno event path (int (length path)) s = Some (r, s')"
    "same_world s s'" "writes_ok s'"
    "sv_sent s' = (sv_sent s)(conn_fd p s := sv_sent s (conn_fd p s) @
       (if sendable event path then packet_bytes (event_packet reqno event path) else []))"
    "r = (if sendable event path then 0 else -1)"
proof -
  obtain c where c: "sv_conns s p = Some c" "0 \<le> cn_fd c" "cn_fd c \<notin> set (sv_closed s)"
    using assms(2) by (auto simp: conn_open_def)
  show ?thesis
  proof (cases "sendable event path")
    case True
    obtain s' where "gam_client_conn_write (cn_fd c) (packet_bytes (event_packet reqno event path)) s = (True, s')"
      "same_world s s'" "writes_ok s'"
      "sv_sent s' = (sv_sent s)(cn_fd c := sv_sent s (cn_fd c) @ packet_bytes (event_packet reqno event path))"
      by (rule conn_write_ok [OF assms(1) c(2,3)])
    then show ?thesis using that True c
      by (auto simp: gam_send_event_def event_packet_def sendable_def conn_fd_def)
  next
    case False
    then show ?thesis using that [of "-1" s] c assms(1)
      by (auto simp: gam_send_event_def sendable_def split: option.split)
  qed
qed

lemma upd_eq_open [simp]:
  "conn_open p (upd_conn p (\<lambda>c. c\<lparr>cn_eq := q\<rparr>) s) = conn_open p s"
  "conn_fd p (upd_conn p (\<lambda>c. c\<lparr>cn_eq := q\<rparr>) s) = conn_fd p s" if "sv_conns s p \<noteq> None"
  using that by (auto simp: conn_open_def conn_fd_def)

text \<open>The packets that the events of a queue give.\<close>

definition eq_packets :: "gam_eq \<Rightarrow> GAMPacket list" where
  "eq_packets q = map (\<lambda>e. event_packet (ee_reqno e) (ee_event e) (ee_path e))
     (filter (\<lambda>e. sendable (ee_event e) (ee_path e)) q)"

definition eq_wf :: "gam_eq \<Rightarrow> bool" where
  "eq_wf q \<longleftrightarrow> (\<forall>e \<in> set q. ee_len e = int (length (ee_path e)))"

lemma conn_open_None: "conn_open p s \<Longrightarrow> sv_conns s p \<noteq> None"
  by (auto simp: conn_open_def)

lemma conn_open_same: "same_world s s' \<Longrightarrow> conn_open p s' = conn_open p s"
  "same_world s s' \<Longrightarrow> conn_fd p s' = conn_fd p s"
  by (simp_all add: conn_open_def conn_fd_def same_world_simps)

lemma eq_flush_loop_sends:
  "eq_wf q \<Longrightarrow> writes_ok s \<Longrightarrow> conn_open p s \<Longrightarrow>
     \<exists>s'. eq_flush_loop q p s = Some s' \<and> writes_ok s' \<and>
       sv_sent s' = (sv_sent s)(conn_fd p s := sv_sent s (conn_fd p s) @
         concat (map packet_bytes (eq_packets q))) \<and>
       sv_conns s' = (if q = [] then sv_conns s else (sv_conns s)(p := map_option (\<lambda>c. c\<lparr>cn_eq := []\<rparr>) (sv_conns s p)))"
proof (induction q arbitrary: s)
  case (Cons e q)
  let ?s = "upd_conn p (\<lambda>c. c\<lparr>cn_eq := q\<rparr>) s"
  have len: "ee_len e = int (length (ee_path e))" using Cons.prems(1) by (simp add: eq_wf_def)
  have ne: "sv_conns s p \<noteq> None" by (rule conn_open_None [OF Cons.prems(3)])
  obtain r s1 where s1: "gam_send_event p (ee_reqno e) (ee_event e) (ee_path e) (ee_len e) ?s = Some (r, s1)"
      "same_world ?s s1" "writes_ok s1"
      "sv_sent s1 = (sv_sent ?s)(conn_fd p ?s := sv_sent ?s (conn_fd p ?s) @
         (if sendable (ee_event e) (ee_path e) then packet_bytes (event_packet (ee_reqno e) (ee_event e) (ee_path e)) else []))"
    unfolding len by (rule send_event_ok [of ?s p]) (use Cons.prems ne in \<open>simp_all add: writes_ok_def\<close>)
  have o: "conn_open p s1" "conn_fd p s1 = conn_fd p s"
    using conn_open_same [OF s1(2), of p] Cons.prems(3) ne by simp_all
  have wfq: "eq_wf q" using Cons.prems(1) by (simp add: eq_wf_def)
  obtain s' where s': "eq_flush_loop q p s1 = Some s'" "writes_ok s'"
      "sv_sent s' = (sv_sent s1)(conn_fd p s1 := sv_sent s1 (conn_fd p s1) @ concat (map packet_bytes (eq_packets q)))"
      "sv_conns s' = (if q = [] then sv_conns s1 else (sv_conns s1)(p := map_option (\<lambda>c. c\<lparr>cn_eq := []\<rparr>) (sv_conns s1 p)))"
    using Cons.IH [OF wfq s1(3) o(1)] by blast
  have c1: "sv_conns s1 = (sv_conns s)(p := map_option (\<lambda>c. c\<lparr>cn_eq := q\<rparr>) (sv_conns s p))"
    using same_world_simps(1) [OF s1(2)] by simp
  have "sv_conns s' = (sv_conns s)(p := map_option (\<lambda>c. c\<lparr>cn_eq := []\<rparr>) (sv_conns s p))"
    using s'(4) c1 by (auto simp: option.map_comp comp_def)
  moreover have "sv_sent s' = (sv_sent s)(conn_fd p s := sv_sent s (conn_fd p s) @
         concat (map packet_bytes (eq_packets (e # q))))"
    using s'(3) s1(4) o(2) ne by (auto simp: eq_packets_def)
  ultimately show ?case using s1(1) s'(1,2) by (intro exI [of _ s'] conjI) simp_all
qed (simp add: eq_packets_def)

text \<open>C28. Flushing the queue of an open connection writes one packet for each waiting event that has a code
  and a path within the limit, in the order of the queue, to the descriptor of that connection
  only, however the kernel cuts the writes; the queue is empty afterwards.\<close>

theorem eq_flush_sends_in_order:
  assumes "sv_conns s p = Some c" "0 \<le> cn_fd c" "cn_fd c \<notin> set (sv_closed s)" "eq_wf (cn_eq c)" "writes_ok s"
  shows "\<exists>s'. gam_eq_flush p s = Some (cn_eq c \<noteq> [], s') \<and>
    sv_sent s' = (sv_sent s)(cn_fd c := sv_sent s (cn_fd c) @
      concat (map packet_bytes (eq_packets (cn_eq c)))) \<and>
    sv_conns s' p = Some (c\<lparr>cn_eq := []\<rparr>)"
proof -
  have "conn_open p s" using assms(1-3) by (simp add: conn_open_def)
  from eq_flush_loop_sends [OF assms(4,5) this] assms(1) show ?thesis
    by (cases "cn_eq c = []"; cases c) (auto simp: gam_eq_flush_def conn_fd_def)
qed

definition conn0 :: GamConnData where
  "conn0 = \<lparr>cn_state = GAM_STATE_OKAY, cn_fd = 6, cn_pid = 42, cn_pidname = Some ''x'', cn_request = [],
     cn_listener = Some 1, cn_eq = [], cn_eq_source = False\<rparr>"

definition srv0 :: srv where
  "srv0 = \<lparr>sv_subs = [2 \<mapsto> gam_subscription_set_listener 1 (gam_subscription_new ''/d'' req_events 9 True 0)],
     sv_listeners = [1 \<mapsto> \<lparr>ls_service = 0, ls_pid = 42, ls_pidname = ''x'', ls_subs = [2]\<rparr>],
     sv_conns = [0 \<mapsto> conn0], sv_connlist = [0], sv_next = 3, sv_writes = [W_EINTR, W_N 4],
     sv_sent = (\<lambda>_. []), sv_closed = [], sv_inotify = False, sv_no_timeout = False, sv_timeout = False,
     sv_exited = False\<rparr>"

theorem eq_flush_sends_in_order_witness:
  "\<exists>s'. gam_eq_flush 0 (srv0\<lparr>sv_conns := [0 \<mapsto> conn0\<lparr>cn_eq := [gam_eq_event_new 9 GAMIN_EVENT_CREATED ''f'' 1]\<rparr>]\<rparr>)
      = Some (True, s') \<and>
    sv_sent s' 6 = packet_bytes (make_packet 9 5 ''f'')"
proof -
  let ?c = "conn0\<lparr>cn_eq := [gam_eq_event_new 9 GAMIN_EVENT_CREATED ''f'' 1]\<rparr>"
  have "sendable GAMIN_EVENT_CREATED ''f''" by (simp add: sendable_def fam_code_def event_defs size_defs)
  moreover have "fam_code GAMIN_EVENT_CREATED = Some 5" by (simp add: fam_code_def event_defs fam_defs)
  ultimately show ?thesis
    using eq_flush_sends_in_order [of "srv0\<lparr>sv_conns := [0 \<mapsto> ?c]\<rparr>" 0 ?c]
    by (auto simp: srv0_def conn0_def eq_wf_def writes_ok_def gam_eq_event_new_def eq_packets_def event_packet_def)
qed

section \<open>Emission\<close>

lemma event_subpath_entry:
  "sub_is_dir sub \<Longrightarrow> sub_pathlen sub = int (length (sub_path sub)) \<Longrightarrow> name \<noteq> [] \<Longrightarrow>
     event_subpath sub (sub_path sub @ CHR ''/'' # name) = name"
  by (simp add: event_subpath_def)

lemma event_subpath_self:
  "sub_pathlen sub = int (length (sub_path sub)) \<Longrightarrow> event_subpath sub (sub_path sub) = sub_path sub"
  by (simp add: event_subpath_def)

lemma emit_one_sends:
  assumes "sv_subs s q = Some sub" "sub_listener sub = Some l" "sv_listeners s l = Some ls"
    "conn_open (ls_service ls) s" "writes_ok s" "\<not> sv_inotify s"
  obtains s' where "gam_server_emit_one_event path d event q force s = Some s'"
    "same_world s s'" "writes_ok s'"
    "sv_sent s' = (if gam_subscription_wants_event (Some sub) (Some path) d event force \<and>
          sendable event (event_subpath sub path)
       then (sv_sent s)(conn_fd (ls_service ls) s := sv_sent s (conn_fd (ls_service ls) s) @
          packet_bytes (event_packet (sub_reqno sub) event (event_subpath sub path)))
       else sv_sent s)"
proof (cases "gam_subscription_wants_event (Some sub) (Some path) d event force")
  case True
  obtain r s' where "gam_send_event (ls_service ls) (sub_reqno sub) event (event_subpath sub path)
        (int (length (event_subpath sub path))) s = Some (r, s')" "same_world s s'" "writes_ok s'"
    "sv_sent s' = (sv_sent s)(conn_fd (ls_service ls) s := sv_sent s (conn_fd (ls_service ls) s) @
       (if sendable event (event_subpath sub path)
        then packet_bytes (event_packet (sub_reqno sub) event (event_subpath sub path)) else []))"
    by (rule send_event_ok [OF assms(5,4)])
  then show ?thesis using that [of s'] True assms by (auto simp: gam_server_emit_one_event_def)
next
  case False
  then show ?thesis using that [of s] assms by (simp add: gam_server_emit_one_event_def)
qed

lemma emit_one_queues:
  assumes "sv_subs s q = Some sub" "sub_listener sub = Some l" "sv_listeners s l = Some ls"
    "sv_conns s (ls_service ls) = Some c" "sv_inotify s"
  shows "gam_server_emit_one_event path d event q force s =
    Some (if gam_subscription_wants_event (Some sub) (Some path) d event force
      then upd_conn (ls_service ls) (\<lambda>c. c\<lparr>cn_eq := gam_eq_queue (sub_reqno sub) event
        (event_subpath sub path) (int (length (event_subpath sub path))) (cn_eq c), cn_eq_source := True\<rparr>) s
      else s)"
  using assms by (simp add: gam_server_emit_one_event_def gam_queue_event_def)

text \<open>A subscription whose listener and connection are there and open.\<close>

definition sub_live :: "'b srv_scheme \<Rightarrow> cptr \<Rightarrow> bool" where
  "sub_live s q \<longleftrightarrow> (\<exists>sub l ls. sv_subs s q = Some sub \<and> sub_listener sub = Some l \<and>
     sv_listeners s l = Some ls \<and> conn_open (ls_service ls) s)"

definition sub_of :: "'b srv_scheme \<Rightarrow> cptr \<Rightarrow> GamSubscription" where
  "sub_of s q = the (sv_subs s q)"

definition sub_fd :: "'b srv_scheme \<Rightarrow> cptr \<Rightarrow> int" where
  "sub_fd s q = conn_fd (ls_service (the (sv_listeners s (the (sub_listener (sub_of s q)))))) s"

text \<open>The packets that an event gives on a descriptor: one for each interested subscription of it.\<close>

definition emitted :: "'b srv_scheme \<Rightarrow> string \<Rightarrow> bool \<Rightarrow> evtype \<Rightarrow> bool \<Rightarrow> cptr list \<Rightarrow> int \<Rightarrow> GAMPacket list" where
  "emitted s path d event force qs fd =
     map (\<lambda>q. event_packet (sub_reqno (sub_of s q)) event (event_subpath (sub_of s q) path))
       (filter (\<lambda>q. sub_fd s q = fd \<and> sendable event (event_subpath (sub_of s q) path) \<and>
          gam_subscription_wants_event (Some (sub_of s q)) (Some path) d event force) qs)"

lemma sub_same:
  assumes "same_world s s'"
  shows "sub_live s' = sub_live s" "sub_of s' = sub_of s" "sub_fd s' = sub_fd s"
  using same_world_simps [OF assms] conn_open_same [OF assms]
  by (auto simp: fun_eq_iff sub_live_def sub_of_def sub_fd_def)

text \<open>C6. Emitting an event to a list of subscriptions (when events are sent at once): every descriptor
  gets exactly one packet for each subscription of it that wants the event, in the order of the
  list, with the number of that subscription and the path relative to it, and nothing else.\<close>

theorem emit_event_reaches_subscribers:
  assumes "\<forall>q \<in> set qs. sub_live s q" "writes_ok s" "\<not> sv_inotify s"
  shows "\<exists>s'. gam_server_emit_event path d event qs force s = Some s' \<and>
    (\<forall>fd. sv_sent s' fd = sv_sent s fd @ concat (map packet_bytes (emitted s path d event force qs fd)))"
  using assms
proof (induction qs arbitrary: s)
  case Nil
  then show ?case by (simp add: emitted_def)
next
  case (Cons q qs)
  obtain sub l ls where q: "sv_subs s q = Some sub" "sub_listener sub = Some l"
      "sv_listeners s l = Some ls" "conn_open (ls_service ls) s"
    using Cons.prems(1) by (auto simp: sub_live_def)
  obtain s1 where s1: "gam_server_emit_one_event path d event q force s = Some s1"
    "same_world s s1" "writes_ok s1"
    "sv_sent s1 = (if gam_subscription_wants_event (Some sub) (Some path) d event force \<and>
          sendable event (event_subpath sub path)
       then (sv_sent s)(conn_fd (ls_service ls) s := sv_sent s (conn_fd (ls_service ls) s) @
          packet_bytes (event_packet (sub_reqno sub) event (event_subpath sub path)))
       else sv_sent s)"
    by (rule emit_one_sends [OF q Cons.prems(2,3)])
  have "\<forall>q \<in> set qs. sub_live s1 q" "\<not> sv_inotify s1"
    using Cons.prems(1,3) sub_same [OF s1(2)] same_world_simps [OF s1(2)] by simp_all
  from Cons.IH [OF this(1) s1(3) this(2)] obtain s' where
    s': "gam_server_emit_event path d event qs force s1 = Some s'"
    "\<forall>fd. sv_sent s' fd = sv_sent s1 fd @ concat (map packet_bytes (emitted s1 path d event force qs fd))"
    by blast
  have "emitted s1 path d event force qs = emitted s path d event force qs"
    by (simp add: emitted_def sub_same [OF s1(2)] fun_eq_iff)
  with s1(1,4) s' q show ?case by (auto simp: emitted_def sub_of_def sub_fd_def)
qed

theorem emit_event_reaches_subscribers_witness:
  "\<exists>s'. gam_server_emit_event ''/d/f'' False GAMIN_EVENT_CHANGED [2] False srv0 = Some s' \<and>
     sv_sent s' 6 = packet_bytes (make_packet 9 1 ''f'')"
proof -
  have "sub_live srv0 2" by (simp add: sub_live_def srv0_def conn_open_def conn0_def)
  moreover have "writes_ok srv0" "\<not> sv_inotify srv0" by (simp_all add: writes_ok_def srv0_def)
  moreover have "emitted srv0 ''/d/f'' False GAMIN_EVENT_CHANGED False [2] 6 = [make_packet 9 1 ''f'']"
    by code_simp
  moreover have "sv_sent srv0 6 = []" by (simp add: srv0_def)
  ultimately show ?thesis
    using emit_event_reaches_subscribers [of "[2]" srv0 "''/d/f''" False GAMIN_EVENT_CHANGED False]
    by fastforce
qed

end
