(* ===== verification/Gam_Connection.thy ===== *)
theory Gam_Connection
  imports Gam_Srv
begin

unbundle bit_operations_syntax

text \<open>
  Listeners (\<^verbatim>\<open>server/gam_listener.c\<close>) and the connections of the server (\<^verbatim>\<open>server/gam_connection.c\<close>): the
  requests a client sends, their framing in the byte stream, closing, and the exit of an idle server.

  The valid bytes of the request buffer are the list \<open>cn_request\<close>. The loop over the buffer walks a
  pointer; here it is the list of the bytes from that pointer on.
\<close>

section \<open>Allocation\<close>

definition alloc_sub :: "GamSubscription \<Rightarrow> 'b srv_scheme \<Rightarrow> cptr \<times> 'b srv_scheme" where
  "alloc_sub sub s = (sv_next s, s\<lparr>sv_subs := (sv_subs s)(sv_next s \<mapsto> sub), sv_next := Suc (sv_next s)\<rparr>)"

definition gam_subscription_free :: "cptr \<Rightarrow> 'b srv_scheme \<Rightarrow> 'b srv_scheme option" where
  "gam_subscription_free p s =
     do { sub \<leftarrow> sv_subs s p; Some (s\<lparr>sv_subs := (sv_subs s)(p := None)\<rparr>) }"

section \<open>Listeners\<close>

definition upd_listener ::
  "cptr \<Rightarrow> (GamListener \<Rightarrow> GamListener) \<Rightarrow> 'b srv_scheme \<Rightarrow> 'b srv_scheme" where
  "upd_listener l f s = s\<lparr>sv_listeners := (sv_listeners s)(l := map_option f (sv_listeners s l))\<rparr>"

definition gam_listener_new ::
  "'b srv_scheme hooks \<Rightarrow> cptr \<Rightarrow> int \<Rightarrow> 'b srv_scheme \<Rightarrow> (cptr \<times> 'b srv_scheme) option" where
  "gam_listener_new hk service pid s =
     (if pid = 0 then None
      else Some (sv_next s,
        s\<lparr>sv_listeners := (sv_listeners s)(sv_next s \<mapsto>
            \<lparr>ls_service = service, ls_pid = pid, ls_pidname = hk_pidname hk pid, ls_subs = []\<rparr>),
          sv_next := Suc (sv_next s)\<rparr>))"

definition gam_listener_free_subscription ::
  "'b srv_scheme hooks \<Rightarrow> cptr \<Rightarrow> cptr \<Rightarrow> 'b srv_scheme \<Rightarrow> 'b srv_scheme option" where
  "gam_listener_free_subscription hk l subp s =
     do { ls \<leftarrow> sv_listeners s l;
          sub \<leftarrow> sv_subs s subp;
          if subp \<notin> set (ls_subs ls) then None
          else
            do { (b, s1) \<leftarrow> gam_remove_subscription hk subp s;
                 if sv_inotify s1 \<and> \<not> hk_exclude hk (sub_path sub) \<and>
                    hk_mon_type hk (sub_path sub) \<noteq> GFS_MT_POLL
                 then gam_subscription_free subp s1 else Some s1 } }"

text \<open>The loop takes the first subscription off the list until none is left; the back ends do not touch
  the list.\<close>

fun listener_free_loop ::
  "'b srv_scheme hooks \<Rightarrow> cptr \<Rightarrow> cptr list \<Rightarrow> 'b srv_scheme \<Rightarrow> 'b srv_scheme option" where
  "listener_free_loop hk l [] s = Some s"
| "listener_free_loop hk l (subp # subs) s =
     do { s1 \<leftarrow> gam_listener_free_subscription hk l subp s;
          listener_free_loop hk l subs (upd_listener l (\<lambda>ls. ls\<lparr>ls_subs := subs\<rparr>) s1) }"

definition gam_listener_free ::
  "'b srv_scheme hooks \<Rightarrow> cptr \<Rightarrow> 'b srv_scheme \<Rightarrow> 'b srv_scheme option" where
  "gam_listener_free hk l s =
     do { ls \<leftarrow> sv_listeners s l;
          s1 \<leftarrow> listener_free_loop hk l (ls_subs ls) s;
          Some (s1\<lparr>sv_listeners := (sv_listeners s1)(l := None)\<rparr>) }"

definition find_sub :: "(GamSubscription \<Rightarrow> bool) \<Rightarrow> cptr \<Rightarrow> 'b srv_scheme \<Rightarrow> cptr option" where
  "find_sub P l s =
     do { ls \<leftarrow> sv_listeners s l;
          find (\<lambda>q. case sv_subs s q of None \<Rightarrow> False | Some sub \<Rightarrow> P sub) (ls_subs ls) }"

definition gam_listener_get_subscription :: "cptr \<Rightarrow> string \<Rightarrow> 'b srv_scheme \<Rightarrow> cptr option" where
  "gam_listener_get_subscription l path s = find_sub (\<lambda>sub. sub_path sub = path) l s"

definition gam_listener_get_subscription_by_reqno :: "cptr \<Rightarrow> int \<Rightarrow> 'b srv_scheme \<Rightarrow> cptr option" where
  "gam_listener_get_subscription_by_reqno l reqno s = find_sub (\<lambda>sub. sub_reqno sub = reqno) l s"

definition gam_listener_is_subscribed :: "cptr \<Rightarrow> string \<Rightarrow> 'b srv_scheme \<Rightarrow> bool" where
  "gam_listener_is_subscribed l path s = (gam_listener_get_subscription l path s \<noteq> None)"

definition gam_listener_add_subscription ::
  "cptr \<Rightarrow> cptr \<Rightarrow> 'b srv_scheme \<Rightarrow> 'b srv_scheme option" where
  "gam_listener_add_subscription l subp s =
     do { ls \<leftarrow> sv_listeners s l;
          if subp \<in> set (ls_subs ls) then None
          else Some (upd_listener l (\<lambda>ls. ls\<lparr>ls_subs := subp # ls_subs ls\<rparr>) s) }"

definition gam_listener_remove_subscription ::
  "cptr \<Rightarrow> cptr \<Rightarrow> 'b srv_scheme \<Rightarrow> 'b srv_scheme option" where
  "gam_listener_remove_subscription l subp s =
     do { ls \<leftarrow> sv_listeners s l;
          if subp \<notin> set (ls_subs ls) \<or> subp \<in> set (remove1 subp (ls_subs ls)) then None
          else Some (upd_listener l (\<lambda>ls. ls\<lparr>ls_subs := remove1 subp (ls_subs ls)\<rparr>) s) }"

definition gam_listener_get_subscriptions :: "cptr \<Rightarrow> 'b srv_scheme \<Rightarrow> cptr list option" where
  "gam_listener_get_subscriptions l s = map_option ls_subs (sv_listeners s l)"

section \<open>Idle server\<close>

definition gam_server_use_timeout :: "'b srv_scheme \<Rightarrow> bool" where
  "gam_server_use_timeout s = (\<not> sv_no_timeout s)"

definition gam_cancel_server_timeout :: "'b srv_scheme \<Rightarrow> 'b srv_scheme" where
  "gam_cancel_server_timeout s = s\<lparr>sv_timeout := False\<rparr>"

definition gam_schedule_server_timeout :: "'b srv_scheme \<Rightarrow> 'b srv_scheme" where
  "gam_schedule_server_timeout s = (gam_cancel_server_timeout s)\<lparr>sv_timeout := True\<rparr>"

text \<open>The callback of the timeout; the server exits when no connection is left.\<close>

definition gam_connections_check :: "'b srv_scheme \<Rightarrow> 'b srv_scheme" where
  "gam_connections_check s =
     (let s1 = s\<lparr>sv_timeout := False\<rparr> in
      if sv_connlist s1 = [] then s1\<lparr>sv_exited := True\<rparr> else s1)"

section \<open>Connections\<close>

definition gam_connection_exists :: "cptr \<Rightarrow> 'b srv_scheme \<Rightarrow> bool" where
  "gam_connection_exists conn s = (conn \<in> set (sv_connlist s))"

definition gam_connection_new :: "int \<Rightarrow> 'b srv_scheme \<Rightarrow> cptr \<times> 'b srv_scheme" where
  "gam_connection_new fd s =
     (sv_next s,
      gam_cancel_server_timeout
        (s\<lparr>sv_conns := (sv_conns s)(sv_next s \<mapsto>
             \<lparr>cn_state = GAM_STATE_AUTH, cn_fd = fd, cn_pid = 0, cn_pidname = None, cn_request = [],
              cn_listener = None, cn_eq = gam_eq_new, cn_eq_source = True\<rparr>),
           sv_connlist := sv_next s # sv_connlist s, sv_next := Suc (sv_next s)\<rparr>))"

definition gam_connection_set_pid ::
  "'b srv_scheme hooks \<Rightarrow> cptr \<Rightarrow> int \<Rightarrow> 'b srv_scheme \<Rightarrow> (int \<times> 'b srv_scheme) option" where
  "gam_connection_set_pid hk conn pid s =
     do { c \<leftarrow> sv_conns s conn;
          if cn_state c \<noteq> GAM_STATE_AUTH then
            Some (-1, upd_conn conn (\<lambda>c. c\<lparr>cn_state := GAM_STATE_ERROR\<rparr>) s)
          else
            do { (l, s1) \<leftarrow> gam_listener_new hk conn pid s;
                 Some (0, upd_conn conn (\<lambda>c. c\<lparr>cn_state := GAM_STATE_OKAY, cn_pid := pid,
                       cn_pidname := Some (hk_pidname hk pid), cn_listener := Some l\<rparr>) s1) } }"

definition gam_connection_get_state :: "cptr \<Rightarrow> 'b srv_scheme \<Rightarrow> GamConnState option" where
  "gam_connection_get_state conn s = map_option cn_state (sv_conns s conn)"

definition gam_connection_get_fd :: "cptr \<Rightarrow> 'b srv_scheme \<Rightarrow> int option" where
  "gam_connection_get_fd conn s = map_option cn_fd (sv_conns s conn)"

definition gam_connection_get_pid :: "cptr \<Rightarrow> 'b srv_scheme \<Rightarrow> int option" where
  "gam_connection_get_pid conn s = map_option cn_pid (sv_conns s conn)"

definition gam_connection_get_data :: "cptr \<Rightarrow> 'b srv_scheme \<Rightarrow> (nat \<times> nat) option" where
  "gam_connection_get_data conn s =
     map_option (\<lambda>c. (length (cn_request c), sizeof_GAMPacket - length (cn_request c))) (sv_conns s conn)"

text \<open>Closing flushes the queue, frees the listener with its subscriptions and the connection itself,
  and starts the idle timer when it was the last one.\<close>

definition gam_connection_close ::
  "'b srv_scheme hooks \<Rightarrow> cptr \<Rightarrow> 'b srv_scheme \<Rightarrow> (int \<times> 'b srv_scheme) option" where
  "gam_connection_close hk conn s =
     do { c \<leftarrow> sv_conns s conn;
          if conn \<notin> set (sv_connlist s) then None
          else
            do { (w, s1) \<leftarrow> gam_eq_flush conn s;
                 s2 \<leftarrow> (case cn_listener c of None \<Rightarrow> Some s1 | Some l \<Rightarrow> gam_listener_free hk l s1);
                 let s3 = s2\<lparr>sv_connlist := remove1 conn (sv_connlist s2)\<rparr>;
                 if conn \<in> set (sv_connlist s3) then None
                 else
                   (let s4 = s3\<lparr>sv_conns := (sv_conns s3)(conn := None)\<rparr> in
                    Some (0, if sv_connlist s4 = [] \<and> gam_server_use_timeout s4
                             then gam_schedule_server_timeout s4 else s4)) } }"

text \<open>Each round closes the first connection; the list gets shorter.\<close>

function gam_connections_close ::
  "'b srv_scheme hooks \<Rightarrow> 'b srv_scheme \<Rightarrow> (int \<times> 'b srv_scheme) option" where
  "gam_connections_close hk s =
     (case sv_connlist s of
        [] \<Rightarrow> Some (0, s)
      | conn # _ \<Rightarrow>
          (case gam_connection_close hk conn s of
             None \<Rightarrow> None
           | Some (r, s1) \<Rightarrow>
               if length (sv_connlist s1) < length (sv_connlist s) then gam_connections_close hk s1
               else None))"
  by pat_completeness auto
termination
  by (relation "measure (\<lambda>(hk, s). length (sv_connlist s))") auto

declare gam_connections_close.simps [simp del]

section \<open>Requests\<close>

definition gam_reqtype_to_string :: "16 word \<Rightarrow> string" where
  "gam_reqtype_to_string type =
     (if type = GAM_REQ_FILE then ''MONFILE''
      else if type = GAM_REQ_DIR then ''MONDIR''
      else if type = GAM_REQ_CANCEL then ''CANCEL''
      else if type = GAM_REQ_DEBUG then ''4''
      else [])"

text \<open>\<open>gam_connection_request\<close> on the request at the start of \<open>b\<close>.\<close>

definition request_monitor ::
  "'b srv_scheme hooks \<Rightarrow> cptr \<Rightarrow> string \<Rightarrow> 'b srv_scheme \<Rightarrow> (int \<times> 'b srv_scheme) option" where
  "request_monitor hk l b s =
     (let type = hdr_type b AND 0xF;
          sub = gam_subscription_set_listener l
                  (gam_subscription_new (c_string (hdr_path b)) req_events (uint (hdr_seq b))
                     (type = GAM_REQ_DIR) (ucast (hdr_type b AND 0xFFF0)));
          (subp, s1) = alloc_sub sub s
      in do { (r, s2) \<leftarrow> gam_add_subscription hk subp s1; Some (0, s2) })"

definition request_cancel ::
  "'b srv_scheme hooks \<Rightarrow> cptr \<Rightarrow> cptr \<Rightarrow> string \<Rightarrow> 'b srv_scheme \<Rightarrow> (int \<times> 'b srv_scheme) option" where
  "request_cancel hk conn l b s =
     (case gam_listener_get_subscription_by_reqno l (uint (hdr_seq b)) s of
        None \<Rightarrow> Some (-1, s)
      | Some subp \<Rightarrow>
          do { sub \<leftarrow> sv_subs s subp;
               s1 \<leftarrow> gam_listener_remove_subscription l subp s;
               (r, s2) \<leftarrow> gam_remove_subscription hk subp s1;
               s3 \<leftarrow> (if sv_inotify s2 \<and> \<not> hk_exclude hk (sub_path sub) \<and>
                        hk_mon_type hk (sub_path sub) \<noteq> GFS_MT_POLL
                     then gam_subscription_free subp s2 else Some s2);
               (r, s4) \<leftarrow> gam_send_ack conn (uint (hdr_seq b)) (sub_path sub) (sub_pathlen sub) s3;
               Some (0, s4) })"

definition gam_connection_request ::
  "'b srv_scheme hooks \<Rightarrow> cptr \<Rightarrow> string \<Rightarrow> 'b srv_scheme \<Rightarrow> (int \<times> 'b srv_scheme) option" where
  "gam_connection_request hk conn b s =
     do { c \<leftarrow> sv_conns s conn;
          if cn_state c \<noteq> GAM_STATE_OKAY \<or> cn_fd c < 0 then None
          else
            do { l \<leftarrow> cn_listener c;
                 let type = hdr_type b AND 0xF;
                 if hdr_pathlen b \<ge> MAXPATHLEN then Some (-1, s)
                 else if type = GAM_REQ_FILE \<or> type = GAM_REQ_DIR then request_monitor hk l b s
                 else if type = GAM_REQ_CANCEL then request_cancel hk conn l b s
                 else if type = GAM_REQ_DEBUG then Some (0, s)
                 else Some (-1, s) } }"

section \<open>Framing\<close>

definition bad_request :: "string \<Rightarrow> bool" where
  "bad_request b \<longleftrightarrow>
     hdr_len b > sizeof_GAMPacket \<or> hdr_version b \<noteq> GAM_PROTO_VERSION \<or>
     (hdr_type b \<noteq> GAM_REQ_CANCEL \<and> (hdr_pathlen b \<le> 0 \<or> hdr_pathlen b > MAXPATHLEN)) \<or>
     hdr_pathlen b + GAM_PACKET_HEADER_LEN \<noteq> hdr_len b"

function connection_data_loop ::
  "'b srv_scheme hooks \<Rightarrow> cptr \<Rightarrow> string \<Rightarrow> 'b srv_scheme \<Rightarrow> (int \<times> string \<times> 'b srv_scheme) option" where
  "connection_data_loop hk conn b s =
     (if length b < GAM_PACKET_HEADER_LEN then Some (0, b, s)
      else if bad_request b then Some (-1, b, s)
      else if length b < hdr_len b then Some (0, b, s)
      else
        (case gam_connection_request hk conn b s of
           None \<Rightarrow> None
         | Some (r, s1) \<Rightarrow>
             if r < 0 then Some (-1, b, s1)
             else if drop (hdr_len b) b = [] then Some (0, [], s1)
             else connection_data_loop hk conn (drop (hdr_len b) b) s1))"
  by pat_completeness auto
termination
  by (relation "measure (\<lambda>(hk, conn, b, s). length b)") (auto simp: bad_request_def size_defs)

declare connection_data_loop.simps [simp del]

text \<open>\<open>bytes\<close> are the \<^verbatim>\<open>len\<close> bytes the caller has read into the buffer.\<close>

definition gam_connection_data ::
  "'b srv_scheme hooks \<Rightarrow> cptr \<Rightarrow> string \<Rightarrow> 'b srv_scheme \<Rightarrow> (int \<times> 'b srv_scheme) option" where
  "gam_connection_data hk conn bytes s =
     do { c \<leftarrow> sv_conns s conn;
          if length bytes + length (cn_request c) > sizeof_GAMPacket then None
          else
            do { (r, b, s1) \<leftarrow> connection_data_loop hk conn (cn_request c @ bytes) s;
                 Some (r, upd_conn conn (\<lambda>c. c\<lparr>cn_request := b\<rparr>) s1) } }"

section \<open>Framing does not depend on how the bytes arrive\<close>

lemma rd16_append [wire_simps]: "Suc i < length b \<Longrightarrow> rd16 (b @ y) i = rd16 b i"
  by (simp add: rd16_def nth_append)

lemma header_append:
  assumes "GAM_PACKET_HEADER_LEN \<le> length b"
  shows "rd16 (b @ y) 0 = rd16 b 0" "rd16 (b @ y) 2 = rd16 b 2" "rd16 (b @ y) 4 = rd16 b 4"
    "rd16 (b @ y) 6 = rd16 b 6" "rd16 (b @ y) 8 = rd16 b 8"
  using assms by (simp_all add: rd16_append size_defs)

lemma bad_request_append:
  "GAM_PACKET_HEADER_LEN \<le> length b \<Longrightarrow> bad_request (b @ y) = bad_request b"
  by (simp add: bad_request_def header_append)

lemma request_append:
  assumes "GAM_PACKET_HEADER_LEN \<le> length b" "\<not> bad_request b" "hdr_len b \<le> length b"
  shows "gam_connection_request hk conn (b @ y) s = gam_connection_request hk conn b s"
proof -
  have "GAM_PACKET_HEADER_LEN + hdr_pathlen b \<le> length b" using assms by (auto simp: bad_request_def)
  then have "hdr_path (b @ y) = hdr_path b"
    using assms(1) by (simp add: hdr_path_def header_append)
  then have "request_monitor hk l (b @ y) s = request_monitor hk l b s"
    "request_cancel hk conn l (b @ y) s = request_cancel hk conn l b s" for l
    using assms(1) by (simp_all add: request_monitor_def request_cancel_def header_append
        cong: option.case_cong)
  then show ?thesis
    using assms(1) by (simp add: gam_connection_request_def header_append cong: if_cong)
qed

lemma connection_data_loop_append:
  "connection_data_loop hk conn (b @ y) s =
     (case connection_data_loop hk conn b s of
        None \<Rightarrow> None
      | Some (r, b1, s1) \<Rightarrow>
          if r < 0 then Some (-1, b1 @ y, s1) else connection_data_loop hk conn (b1 @ y) s1)"
proof (induction hk conn b s rule: connection_data_loop.induct)
  case (1 hk conn b s)
  consider (short) "length b < GAM_PACKET_HEADER_LEN"
    | (bad) "\<not> length b < GAM_PACKET_HEADER_LEN" "bad_request b"
    | (part) "\<not> length b < GAM_PACKET_HEADER_LEN" "\<not> bad_request b" "length b < hdr_len b"
    | (full) "\<not> length b < GAM_PACKET_HEADER_LEN" "\<not> bad_request b" "\<not> length b < hdr_len b"
    by blast
  then show ?case
  proof cases
    case short
    then show ?thesis by (subst (2) connection_data_loop.simps) simp
  next
    case bad
    then show ?thesis
      by (subst (1 2) connection_data_loop.simps) (simp add: bad_request_append)
  next
    case part
    then show ?thesis by (subst (2) connection_data_loop.simps) simp
  next
    case full
    have req: "gam_connection_request hk conn (b @ y) s = gam_connection_request hk conn b s"
      using full by (intro request_append) simp_all
    have hdr: "hdr_len (b @ y) = hdr_len b" "bad_request (b @ y) = bad_request b"
      using full(1) by (simp_all add: header_append bad_request_append)
    have drp: "drop (hdr_len b) (b @ y) = drop (hdr_len b) b @ y" using full(3) by simp
    have nil: "connection_data_loop hk conn [] s' = Some (0, [], s')" for s'
      by (subst connection_data_loop.simps) (simp add: size_defs)
    show ?thesis
    proof (cases "gam_connection_request hk conn b s")
      case None
      then show ?thesis using full req hdr by (subst (1 2) connection_data_loop.simps) simp
    next
      case (Some rs)
      obtain r s1 where rs: "rs = (r, s1)" by (cases rs)
      show ?thesis
      proof (cases "r < 0 \<or> drop (hdr_len b) b = []")
        case True
        then show ?thesis using full req hdr Some rs drp nil
          by (subst (1 2) connection_data_loop.simps) auto
      next
        case False
        have lhs: "connection_data_loop hk conn (b @ y) s = connection_data_loop hk conn (drop (hdr_len b) b @ y) s1"
          using False full req hdr Some rs drp by (subst connection_data_loop.simps) simp
        have rhs: "connection_data_loop hk conn b s = connection_data_loop hk conn (drop (hdr_len b) b) s1"
          using False full Some rs by (subst connection_data_loop.simps) simp
        show ?thesis unfolding lhs rhs using "1.IH" [OF full Some rs [symmetric]] False by simp
      qed
    qed
  qed
qed

text \<open>The reads of a connection, each piece added to the bytes left over from the last.\<close>

fun feed ::
  "'b srv_scheme hooks \<Rightarrow> cptr \<Rightarrow> string list \<Rightarrow> string \<Rightarrow> 'b srv_scheme
     \<Rightarrow> (int \<times> string \<times> 'b srv_scheme) option" where
  "feed hk conn [] b s = Some (0, b, s)"
| "feed hk conn (x # xs) b s =
     (case connection_data_loop hk conn (b @ x) s of
        None \<Rightarrow> None
      | Some (r, b1, s1) \<Rightarrow> if r < 0 then Some (r, b1, s1) else feed hk conn xs b1 s1)"

text \<open>Whole requests served one after the other, up to the first that fails.\<close>

fun serve ::
  "'b srv_scheme hooks \<Rightarrow> cptr \<Rightarrow> GAMPacket list \<Rightarrow> 'b srv_scheme \<Rightarrow> (int \<times> 'b srv_scheme) option" where
  "serve hk conn [] s = Some (0, s)"
| "serve hk conn (p # ps) s =
     (case gam_connection_request hk conn (packet_bytes p) s of
        None \<Rightarrow> None
      | Some (r, s1) \<Rightarrow> if r < 0 then Some (-1, s1) else serve hk conn ps s1)"

definition wf_request :: "GAMPacket \<Rightarrow> bool" where
  "wf_request p \<longleftrightarrow> p_version p = GAM_PROTO_VERSION \<and> length (p_path p) \<le> MAXPATHLEN \<and>
     unat (p_pathlen p) = length (p_path p) \<and>
     unat (p_len p) = GAM_PACKET_HEADER_LEN + length (p_path p) \<and>
     (p_type p = GAM_REQ_CANCEL \<or> p_path p \<noteq> [])"

lemma connection_data_loop_result:
  "connection_data_loop hk conn b s = Some (r, b1, s1) \<Longrightarrow> r = 0 \<or> r = -1"
proof (induction hk conn b s rule: connection_data_loop.induct)
  case (1 hk conn b s)
  from "1.prems" show ?case
    by (subst (asm) connection_data_loop.simps)
      (auto split: if_splits option.splits prod.splits dest: "1.IH" [rotated -1])
qed

text \<open>When the loop succeeds it has no complete request left, so running it again changes nothing.\<close>

lemma connection_data_loop_rest:
  "connection_data_loop hk conn b s = Some (r, b1, s1) \<Longrightarrow> 0 \<le> r \<Longrightarrow>
     connection_data_loop hk conn b1 s1 = Some (0, b1, s1)"
proof (induction hk conn b s rule: connection_data_loop.induct)
  case (1 hk conn b s)
  consider (stop) "length b < GAM_PACKET_HEADER_LEN \<or> bad_request b \<or> length b < hdr_len b"
    | (full) "\<not> length b < GAM_PACKET_HEADER_LEN" "\<not> bad_request b" "\<not> length b < hdr_len b"
    by blast
  then show ?case
  proof cases
    case stop
    with "1.prems" have "connection_data_loop hk conn b s = Some (0, b, s) \<and> b1 = b \<and> s1 = s"
      by (subst (asm) connection_data_loop.simps, subst connection_data_loop.simps)
         (auto split: if_splits)
    then show ?thesis by simp
  next
    case full
    obtain q s2 where q: "gam_connection_request hk conn b s = Some (q, s2)"
      using full "1.prems"(1)
      by (subst (asm) connection_data_loop.simps) (auto split: option.splits)
    show ?thesis
    proof (cases "q < 0 \<or> drop (hdr_len b) b = []")
      case True
      then show ?thesis
        using full q "1.prems"
        by (subst (asm) connection_data_loop.simps, subst connection_data_loop.simps)
           (auto simp: size_defs split: if_splits)
    next
      case False
      then have "connection_data_loop hk conn b s = connection_data_loop hk conn (drop (hdr_len b) b) s2"
        using full q by (subst connection_data_loop.simps) simp
      with "1.IH" [OF full q refl] False "1.prems" show ?thesis by simp
    qed
  qed
qed

lemma feed_is_loop:
  "connection_data_loop hk conn b s = Some (0, b, s) \<Longrightarrow>
     map_option (\<lambda>(r, b, s). (r, s)) (feed hk conn xs b s) =
     map_option (\<lambda>(r, b, s). (r, s)) (connection_data_loop hk conn (b @ concat xs) s)"
proof (induction xs arbitrary: b s)
  case (Cons x xs)
  have ap: "connection_data_loop hk conn (b @ concat (x # xs)) s =
     (case connection_data_loop hk conn (b @ x) s of
        None \<Rightarrow> None
      | Some (r, b1, s1) \<Rightarrow>
          if r < 0 then Some (-1, b1 @ concat xs, s1) else connection_data_loop hk conn (b1 @ concat xs) s1)"
    using connection_data_loop_append [of hk conn "b @ x" "concat xs" s] by simp
  show ?case
  proof (cases "connection_data_loop hk conn (b @ x) s")
    case None
    then show ?thesis using ap by simp
  next
    case (Some t)
    obtain r b1 s1 where t: "t = (r, b1, s1)" by (cases t)
    have rv: "r = 0 \<or> r = -1" using connection_data_loop_result Some t by blast
    show ?thesis
    proof (cases "r < 0")
      case True
      then show ?thesis using ap Some t rv by simp
    next
      case False
      have "connection_data_loop hk conn b1 s1 = Some (0, b1, s1)"
        by (rule connection_data_loop_rest [OF Some [unfolded t]]) (use False in simp)
      from Cons.IH [OF this] show ?thesis using False ap Some t by simp
    qed
  qed
qed simp

lemma loop_packet:
  assumes "wf_request p"
  shows "connection_data_loop hk conn (packet_bytes p @ r) s =
    (case gam_connection_request hk conn (packet_bytes p) s of
       None \<Rightarrow> None
     | Some (q, s1) \<Rightarrow> if q < 0 then Some (-1, packet_bytes p @ r, s1) else connection_data_loop hk conn r s1)"
proof -
  have hdr: "rd16 (packet_bytes p @ r) 0 = p_len p" "rd16 (packet_bytes p @ r) 2 = p_version p"
      "rd16 (packet_bytes p @ r) 6 = p_type p" "rd16 (packet_bytes p @ r) 8 = p_pathlen p"
      "rd16 (packet_bytes p) 0 = p_len p" "rd16 (packet_bytes p) 2 = p_version p"
      "rd16 (packet_bytes p) 6 = p_type p" "rd16 (packet_bytes p) 8 = p_pathlen p"
    using hdr_packet_bytes [of p r] hdr_packet_bytes [of p "[]"] by simp_all
  have good: "\<not> bad_request (packet_bytes p @ r)" "\<not> bad_request (packet_bytes p)"
    using assms by (auto simp: bad_request_def wf_request_def hdr size_defs)
  have req: "gam_connection_request hk conn (packet_bytes p @ r) s =
      gam_connection_request hk conn (packet_bytes p) s"
    using assms good by (intro request_append) (simp_all add: hdr wf_request_def)
  have len: "hdr_len (packet_bytes p @ r) = length (packet_bytes p)"
    using assms by (simp add: hdr wf_request_def)
  have nil: "connection_data_loop hk conn [] s' = Some (0, [], s')" for s'
    by (subst connection_data_loop.simps) (simp add: size_defs)
  show ?thesis
    using good(1) req len nil
    by (subst connection_data_loop.simps) (simp split: option.split)
qed

lemma loop_stream:
  "list_all wf_request ps \<Longrightarrow>
     map_option (\<lambda>(r, b, s). (r, s)) (connection_data_loop hk conn (concat (map packet_bytes ps)) s) =
     serve hk conn ps s"
proof (induction ps arbitrary: s)
  case Nil
  then show ?case by (subst connection_data_loop.simps) (simp add: size_defs)
next
  case (Cons p ps)
  then show ?case
    by (auto simp: loop_packet split: option.split)
qed

text \<open>C3. Whatever the pieces in which a client's requests arrive, the server serves exactly these requests,
  each once and in order, up to the first one that fails: the result and the state are those of
  serving the whole requests one by one.\<close>

theorem requests_any_chunks:
  assumes "list_all wf_request ps" "concat chunks = concat (map packet_bytes ps)"
  shows "map_option (\<lambda>(r, b, s). (r, s)) (feed hk conn chunks [] s) = serve hk conn ps s"
proof -
  have "connection_data_loop hk conn [] s = Some (0, [], s)"
    by (subst connection_data_loop.simps) (simp add: size_defs)
  from feed_is_loop [OF this, of chunks] loop_stream [OF assms(1), of hk conn s] assms(2)
  show ?thesis by simp
qed

definition no_hooks :: "srv hooks" where
  "no_hooks = \<lparr>hk_kernel_add = None, hk_kernel_remove = None, hk_kernel_remove_all = None,
     hk_poll_add = None, hk_poll_remove = None, hk_poll_remove_all = None, hk_exclude = (\<lambda>_. False),
     hk_mon_type = (\<lambda>_. GFS_MT_KERNEL), hk_pidname = (\<lambda>_. ''p'')\<rparr>"

theorem requests_any_chunks_witness:
  "map_option (\<lambda>(r, b, s). (r, s)) (feed no_hooks 0 [take 3 (packet_bytes (make_packet 5 1 ''/a'')),
     drop 3 (packet_bytes (make_packet 5 1 ''/a''))] [] srv0) = serve no_hooks 0 [make_packet 5 1 ''/a''] srv0 \<and>
   map_option fst (serve no_hooks 0 [make_packet 5 1 ''/a''] srv0) = Some 0"
proof
  have "list_all wf_request [make_packet 5 1 ''/a'']"
    by (simp add: wf_request_def size_defs make_packet_def GAM_PROTO_VERSION_def)
  moreover have "concat [take 3 (packet_bytes (make_packet 5 1 ''/a'')), drop 3 (packet_bytes (make_packet 5 1 ''/a''))]
      = concat (map packet_bytes [make_packet 5 1 ''/a''])" by (simp del: take_append drop_append)
  ultimately show "map_option (\<lambda>(r, b, s). (r, s)) (feed no_hooks 0
      [take 3 (packet_bytes (make_packet 5 1 ''/a'')), drop 3 (packet_bytes (make_packet 5 1 ''/a''))] [] srv0) =
      serve no_hooks 0 [make_packet 5 1 ''/a''] srv0" by (rule requests_any_chunks)
  show "map_option fst (serve no_hooks 0 [make_packet 5 1 ''/a''] srv0) = Some 0" by code_simp
qed

section \<open>What a request does\<close>

lemma request_fields [wire_simps]:
  assumes "0 \<le> n" "n < 65536" "length path < MAXPATHLEN"
  shows "uint (rd16 (packet_bytes (make_packet n type path)) 4) = n"
    "rd16 (packet_bytes (make_packet n type path)) 6 = type"
    "unat (rd16 (packet_bytes (make_packet n type path)) 8) = length path"
    "hdr_path (packet_bytes (make_packet n type path)) = path"
proof -
  have h: "rd16 (packet_bytes (make_packet n type path)) 4 = of_int n"
      "rd16 (packet_bytes (make_packet n type path)) 6 = type"
      "rd16 (packet_bytes (make_packet n type path)) 8 = p_pathlen (make_packet n type path)"
    using hdr_packet_bytes [of "make_packet n type path" "[]"] by simp_all
  then show "uint (rd16 (packet_bytes (make_packet n type path)) 4) = n"
      "rd16 (packet_bytes (make_packet n type path)) 6 = type"
    using assms(1,2) by (simp_all add: uint_word_of_int)
  show l: "unat (rd16 (packet_bytes (make_packet n type path)) 8) = length path"
    using h(3) assms(3) by simp
  show "hdr_path (packet_bytes (make_packet n type path)) = path"
    using drop_header_packet_bytes [of "make_packet n type path" "[]"] l by (simp add: hdr_path_def)
qed

text \<open>Serving a monitor request creates one subscription with the fields of the request and hands it to
  the back end.\<close>

lemma serve_monitor_request:
  assumes "sv_conns s conn = Some c" "cn_state c = GAM_STATE_OKAY" "0 \<le> cn_fd c" "cn_listener c = Some l"
    and "0 \<le> n" "n < 65536" "no_nul path" "length path < MAXPATHLEN"
    and "type AND 0xF = GAM_REQ_FILE \<or> type AND 0xF = GAM_REQ_DIR"
  shows "gam_connection_request hk conn (packet_bytes (make_packet n type path)) s =
    (let sub = gam_subscription_set_listener l (gam_subscription_new path req_events n
                 (type AND 0xF = GAM_REQ_DIR) (ucast (type AND 0xFFF0)));
         (q, s1) = alloc_sub sub s
     in map_option (\<lambda>(r, s2). (0, s2)) (gam_add_subscription hk q s1))"
proof -
  have bind: "x \<bind> (\<lambda>(r, s2). Some (0, s2)) = map_option (\<lambda>(r, s2). (0, s2)) x"
    for x :: "(bool \<times> 'a srv_scheme) option" by (cases x) auto
  show ?thesis
    using assms
    by (auto simp: gam_connection_request_def request_monitor_def wire_simps c_string_id bind)
qed

text \<open>A request whose path starts with a NUL byte creates a subscription for the empty path; when it is
  cancelled the assertion of \<open>gam_send_ack\<close> on the length fails and the server goes down.\<close>

definition list_hooks :: "srv hooks" where
  "list_hooks = no_hooks\<lparr>hk_kernel_add := Some (\<lambda>q s. map_option (Pair True) (gam_listener_add_subscription 1 q s)),
     hk_kernel_remove := Some (\<lambda>q s. Some (True, s))\<rparr>"

lemma empty_path_cancel_aborts:
  "serve list_hooks 0 [make_packet 5 1 [CHR 0x00]] srv0 \<noteq> None \<and>
   serve list_hooks 0 [make_packet 5 1 [CHR 0x00], make_packet 5 3 []] srv0 = None"
  by code_simp

end
