(* ===== verification/Gam_Channel.thy ===== *)
theory Gam_Channel
  imports Gam_Connection
begin

unbundle bit_operations_syntax

text \<open>
  The sockets of the server, \<^verbatim>\<open>server/gam_channel.c\<close>: the credential exchange, the callback that reads
  from a client, accepting clients, shutting a connection down, and the checks on a socket in the
  file system (the build without abstract sockets).

  The kernel's answers to the calls of one callback are its arguments: \<open>recv\<close> for \<^verbatim>\<open>recvmsg\<close>, \<open>cred\<close> for
  \<^verbatim>\<open>getsockopt\<close> (process and user of the peer), \<open>reads\<close> for \<^verbatim>\<open>read\<close>.
\<close>

section \<open>Shutting down\<close>

definition g_io_channel_shutdown :: "int \<Rightarrow> 'b srv_scheme \<Rightarrow> 'b srv_scheme" where
  "g_io_channel_shutdown fd s = s\<lparr>sv_closed := fd # sv_closed s\<rparr>"

text \<open>\<open>source\<close> is the descriptor of the channel.\<close>

definition gam_client_conn_shutdown ::
  "'b srv_scheme hooks \<Rightarrow> int \<Rightarrow> cptr option \<Rightarrow> 'b srv_scheme \<Rightarrow> 'b srv_scheme option" where
  "gam_client_conn_shutdown hk source conn s =
     (case conn of
        None \<Rightarrow> Some (g_io_channel_shutdown source s)
      | Some p \<Rightarrow>
          if gam_connection_exists p s then
            do { (r, s1) \<leftarrow> gam_connection_close hk p (g_io_channel_shutdown source s); Some s1 }
          else Some s)"

definition gam_conn_error ::
  "'b srv_scheme hooks \<Rightarrow> int \<Rightarrow> cptr option \<Rightarrow> 'b srv_scheme \<Rightarrow> (bool \<times> 'b srv_scheme) option" where
  "gam_conn_error hk source conn s =
     (case conn of
        None \<Rightarrow> Some (False, g_io_channel_shutdown source s)
      | Some p \<Rightarrow>
          if gam_connection_exists p s then
            do { (r, s1) \<leftarrow> gam_connection_close hk p (g_io_channel_shutdown source s); Some (False, s1) }
          else Some (False, s))"

section \<open>Credentials\<close>

text \<open>What \<^verbatim>\<open>recvmsg\<close> answers: an error, one byte, or 0 at the end of the stream. The code does not test for 0 and then reads
  the variable \<open>buf\<close> that nothing was stored in; \<open>RM_EOF\<close> has the byte that is found there.\<close>

datatype recvres = RM_EINTR | RM_ERR | RM_BYTE char | RM_EOF char

fun recv_loop :: "recvres list \<Rightarrow> char option" where
  "recv_loop [] = None"
| "recv_loop (RM_EINTR # rs) = recv_loop rs"
| "recv_loop (RM_ERR # rs) = None"
| "recv_loop (RM_BYTE b # rs) = Some b"
| "recv_loop (RM_EOF b # rs) = Some b"

text \<open>\<open>gam_client_conn_send_cred\<close> returns -1 when it fails and 1 when it succeeds.\<close>

fun send_cred_loop :: "wres list \<Rightarrow> int \<Rightarrow> 'b srv_scheme \<Rightarrow> int \<times> 'b srv_scheme" where
  "send_cred_loop [] fd s = (1, srv_took fd [CHR 0x00] (s\<lparr>sv_writes := []\<rparr>))"
| "send_cred_loop (W_EINTR # ws) fd s = send_cred_loop ws fd s"
| "send_cred_loop (W_ERR # ws) fd s = (-1, s\<lparr>sv_writes := ws\<rparr>)"
| "send_cred_loop (W_N n # ws) fd s =
     (if n = 0 then (-1, s\<lparr>sv_writes := ws\<rparr>) else (1, srv_took fd [CHR 0x00] (s\<lparr>sv_writes := ws\<rparr>)))"

definition gam_client_conn_send_cred :: "int \<Rightarrow> 'b srv_scheme \<Rightarrow> int \<times> 'b srv_scheme" where
  "gam_client_conn_send_cred fd s = send_cred_loop (sv_writes s) fd s"

definition gam_client_conn_check_cred ::
  "'b srv_scheme hooks \<Rightarrow> int \<Rightarrow> recvres list \<Rightarrow> (int \<times> int) option \<Rightarrow> int \<Rightarrow> cptr \<Rightarrow> 'b srv_scheme
     \<Rightarrow> (bool \<times> 'b srv_scheme) option" where
  "gam_client_conn_check_cred hk s_uid recv cred fd conn s =
     (let failed = (\<lambda>s. do { s1 \<leftarrow> gam_client_conn_shutdown hk fd (Some conn) s; Some (False, s1) }) in
      case recv_loop recv of
        None \<Rightarrow> failed s
      | Some buf \<Rightarrow>
          if buf \<noteq> CHR 0x00 then failed s
          else case cred of
            None \<Rightarrow> failed s
          | Some (c_pid, c_uid) \<Rightarrow>
              if s_uid \<noteq> c_uid then failed s
              else
                do { (r, s1) \<leftarrow> gam_connection_set_pid hk conn c_pid s;
                     if r < 0 then failed s1
                     else
                       (let (w, s2) = gam_client_conn_send_cred fd s1 in
                        if w = 0 then failed s2 else Some (True, s2)) })"

section \<open>Reading from a client\<close>

text \<open>The condition of the callback is a set of bits. The code compares it with single bits.\<close>

datatype GIOCondition = G_IO_IN | G_IO_HUP | G_IO_NVAL | G_IO_ERR

definition error_condition :: "GIOCondition set \<Rightarrow> bool" where
  "error_condition cond \<longleftrightarrow> cond = {G_IO_HUP} \<or> cond = {G_IO_NVAL} \<or> cond = {G_IO_ERR}"

fun srv_read_loop :: "rres list \<Rightarrow> nat \<Rightarrow> string option" where
  "srv_read_loop [] room = Some []"
| "srv_read_loop (R_EINTR # rs) room = srv_read_loop rs room"
| "srv_read_loop (R_ERR # rs) room = None"
| "srv_read_loop (R_N bs # rs) room = Some (take room bs)"

definition gam_client_conn_read ::
  "'b srv_scheme hooks \<Rightarrow> int \<Rightarrow> recvres list \<Rightarrow> (int \<times> int) option \<Rightarrow> rres list \<Rightarrow> GIOCondition set \<Rightarrow> cptr option
     \<Rightarrow> int \<Rightarrow> 'b srv_scheme \<Rightarrow> (bool \<times> 'b srv_scheme) option" where
  "gam_client_conn_read hk uid recv cred reads cond info source s =
     (if error_condition cond then gam_conn_error hk source info s
      else case info of
        None \<Rightarrow> Some (False, s)
      | Some conn \<Rightarrow>
          do { c \<leftarrow> sv_conns s conn;
               if cn_fd c < 0 then Some (False, s)
               else
                 let closing = (\<lambda>s. do { s1 \<leftarrow> gam_client_conn_shutdown hk source (Some conn) s;
                                         Some (False, s1) })
                 in case cn_state c of
                   GAM_STATE_AUTH \<Rightarrow> gam_client_conn_check_cred hk uid recv cred (cn_fd c) conn s
                 | GAM_STATE_ERROR \<Rightarrow> Some (False, s)
                 | GAM_STATE_CLOSED \<Rightarrow> Some (False, s)
                 | GAM_STATE_OKAY \<Rightarrow>
                     (case srv_read_loop reads (sizeof_GAMPacket - length (cn_request c)) of
                        None \<Rightarrow> closing s
                      | Some bs \<Rightarrow>
                          if bs = [] then closing s
                          else
                            do { (r, s1) \<leftarrow> gam_connection_data hk conn bs s;
                                 if r < 0 then closing s1 else Some (True, s1) }) })"

section \<open>Accepting clients\<close>

datatype accres = AC_EINTR | AC_ERR | AC_FD int

fun gam_client_create :: "accres list \<Rightarrow> int option" where
  "gam_client_create [] = None"
| "gam_client_create (AC_EINTR # as) = gam_client_create as"
| "gam_client_create (AC_ERR # as) = None"
| "gam_client_create (AC_FD fd # as) = Some fd"

text \<open>The descriptor that \<^verbatim>\<open>accept\<close> answers with is open, also when a closed one had the same number.\<close>

definition gam_incoming_conn_read :: "accres list \<Rightarrow> 'b srv_scheme \<Rightarrow> bool \<times> 'b srv_scheme" where
  "gam_incoming_conn_read acc s =
     (case gam_client_create acc of
        None \<Rightarrow> (False, s)
      | Some fd \<Rightarrow> (True, snd (gam_connection_new fd (s\<lparr>sv_closed := removeAll fd (sv_closed s)\<rparr>))))"

section \<open>The path of the socket and its safety\<close>

text \<open>\<open>user\<close> is what \<^verbatim>\<open>g_get_user_name\<close> answers, \<open>client_id\<close> the variable \<^verbatim>\<open>GAM_CLIENT_ID\<close>.\<close>

definition gam_get_socket_path :: "string option \<Rightarrow> string option \<Rightarrow> string option \<Rightarrow> string option" where
  "gam_get_socket_path session client_id user =
     (let gam_client_id = (case session of
                             None \<Rightarrow> (case client_id of None \<Rightarrow> [] | Some n \<Rightarrow> n)
                           | Some n \<Rightarrow> n)
      in case user of
           None \<Rightarrow> None
         | Some user \<Rightarrow> Some (''/tmp/fam-'' @ user @ ''/fam-'' @ gam_client_id))"

definition gam_get_socket_dir :: "string option \<Rightarrow> string option" where
  "gam_get_socket_dir user = (case user of None \<Rightarrow> None | Some user \<Rightarrow> Some (''/tmp/fam-'' @ user))"

lemma socket_path_in_dir: "gam_get_socket_path session client_id user =
    map_option (\<lambda>d. d @ ''/fam-'' @ (case session of None \<Rightarrow> (case client_id of None \<Rightarrow> [] | Some n \<Rightarrow> n) | Some n \<Rightarrow> n))
      (gam_get_socket_dir user)"
  by (simp add: gam_get_socket_path_def gam_get_socket_dir_def split: option.split)

text \<open>What \<^verbatim>\<open>mkdir\<close> answers, with the \<^verbatim>\<open>stat\<close> of a path that exists (none if that fails), and whether a
  path found unsafe can be removed. Another process may put something there between two rounds, so
  each round has its own answers; past them \<^verbatim>\<open>mkdir\<close> succeeds.\<close>

record pathstat =
  ps_uid :: int
  ps_dir :: bool
  ps_sock :: bool
  ps_mode :: "16 word"

datatype mkdirres = MK_OK | MK_EEXIST "pathstat option" | MK_FAIL

definition dir_safe :: "int \<Rightarrow> pathstat \<Rightarrow> bool" where
  "dir_safe uid st \<longleftrightarrow> ps_uid st = uid \<and> ps_dir st \<and> ps_mode st AND 63 = 0 \<and> ps_mode st AND 448 = 448"

fun check_dir_loop :: "int \<Rightarrow> nat \<Rightarrow> (mkdirres \<times> bool) list \<Rightarrow> bool" where
  "check_dir_loop uid tries [] = True"
| "check_dir_loop uid tries ((MK_OK, rm) # as) = True"
| "check_dir_loop uid tries ((MK_FAIL, rm) # as) = False"
| "check_dir_loop uid tries ((MK_EEXIST None, rm) # as) = False"
| "check_dir_loop uid tries ((MK_EEXIST (Some st), rm) # as) =
     (if dir_safe uid st then True
      else if \<not> rm then False
      else if Suc tries < 5 then check_dir_loop uid (Suc tries) as
      else False)"

definition gam_check_secure_dir :: "int \<Rightarrow> (mkdirres \<times> bool) list \<Rightarrow> bool" where
  "gam_check_secure_dir uid as = check_dir_loop uid 0 as"

definition gam_check_secure_path ::
  "int \<Rightarrow> (mkdirres \<times> bool) list \<Rightarrow> pathstat option \<Rightarrow> bool \<Rightarrow> bool" where
  "gam_check_secure_path uid as st rm_ok =
     (if \<not> gam_check_secure_dir uid as then False
      else case st of
        None \<Rightarrow> True
      | Some t \<Rightarrow>
          if ps_uid t \<noteq> uid \<or> \<not> ps_sock t \<or> ps_mode t AND 63 \<noteq> 0 then rm_ok else True)"

section \<open>Properties\<close>

text \<open>\<open>gam_client_conn_send_cred\<close> never returns 0, so the test of its caller for a failure never fires.\<close>

lemma send_cred_never_zero: "fst (gam_client_conn_send_cred fd s) \<noteq> 0"
proof -
  have "fst (send_cred_loop ws fd s) \<noteq> 0" for ws
    by (induction ws fd s rule: send_cred_loop.induct) auto
  then show ?thesis by (simp add: gam_client_conn_send_cred_def)
qed

lemma shutdown_removes:
  assumes "gam_client_conn_shutdown hk fd (Some p) s = Some s'"
  shows "(if gam_connection_exists p s then sv_conns s' p = None else s' = s)"
  using assms
  by (auto simp: gam_client_conn_shutdown_def gam_connection_close_def gam_schedule_server_timeout_def
      gam_cancel_server_timeout_def split: Option.bind_splits if_splits)

lemma send_cred_loop_frame:
  "sv_conns (snd (send_cred_loop ws fd s)) = sv_conns s" "sv_listeners (snd (send_cred_loop ws fd s)) = sv_listeners s"
  by (induction ws fd s rule: send_cred_loop.induct) auto

lemma check_cred_ok:
  assumes "sv_conns s p = Some c" "cn_state c = GAM_STATE_AUTH"
    "recv_loop recv = Some (CHR 0x00)" "cred = Some (pid, uid)"
    "gam_client_conn_check_cred hk uid recv cred fd p s = Some (r, s')"
  shows "r \<and> (\<exists>c' l. sv_conns s' p = Some c' \<and> cn_state c' = GAM_STATE_OKAY \<and> cn_pid c' = pid \<and>
     cn_listener c' = Some l \<and> map_option ls_pid (sv_listeners s' l) = Some pid)"
proof -
  obtain l s1 where l: "gam_listener_new hk p pid s = Some (l, s1)"
    using assms by (auto simp: gam_client_conn_check_cred_def gam_connection_set_pid_def split: Option.bind_splits)
  let ?s1 = "upd_conn p (\<lambda>c. c\<lparr>cn_state := GAM_STATE_OKAY, cn_pid := pid,
                       cn_pidname := Some (hk_pidname hk pid), cn_listener := Some l\<rparr>) s1"
  have s': "r" "s' = snd (send_cred_loop (sv_writes ?s1) fd ?s1)"
    using assms l send_cred_never_zero [of fd ?s1]
    by (auto simp: gam_client_conn_check_cred_def gam_connection_set_pid_def split_beta
        gam_client_conn_send_cred_def split: if_splits)
  have "sv_conns s1 = sv_conns s" "map_option ls_pid (sv_listeners s1 l) = Some pid"
    using l by (auto simp: gam_listener_new_def split: if_splits)
  with s' assms(1) show ?thesis by (simp add: send_cred_loop_frame upd_conn_def)
qed

text \<open>The byte that the check looks at is NUL: one that the peer sent, or, when the peer sent nothing before the end of
  the stream, what is found in the variable.\<close>

definition nul_seen :: "recvres list \<Rightarrow> bool" where
  "nul_seen recv \<longleftrightarrow>
     (case dropWhile (\<lambda>r. r = RM_EINTR) recv of
        RM_BYTE b # _ \<Rightarrow> b = CHR 0x00
      | RM_EOF b # _ \<Rightarrow> b = CHR 0x00
      | _ \<Rightarrow> False)"

lemma nul_seen_loop: "recv_loop recv = Some (CHR 0x00) \<longleftrightarrow> nul_seen recv"
  by (induction recv rule: recv_loop.induct) (auto simp: nul_seen_def)

text \<open>C30. A client that has not been authenticated is served exactly when its credentials are right. When the kernel
  says that the peer runs under the server's user, and the byte the code looks at is NUL, then the callback keeps the
  channel, and the connection is in the normal state with the peer's process and a listener for it. In every other case
  the callback reports that the channel is to be dropped, and the connection is gone. The byte is one that the
  peer sent; but when it closed its side without sending one, the code looks at a variable that is not initialised, so
  a peer of the same user may then be served too. A peer of another user never is.\<close>

theorem client_needs_credentials:
  assumes "sv_conns s p = Some c" "cn_state c = GAM_STATE_AUTH" "0 \<le> cn_fd c" "gam_connection_exists p s" "\<not> error_condition cond"
    "gam_client_conn_read hk uid recv cred reads cond (Some p) fd s = Some (r, s')"
  shows "if nul_seen recv \<and> map_option snd cred = Some uid
     then r \<and> (\<exists>c' l. sv_conns s' p = Some c' \<and> cn_state c' = GAM_STATE_OKAY \<and>
            Some (cn_pid c') = map_option fst cred \<and> cn_listener c' = Some l \<and>
            map_option ls_pid (sv_listeners s' l) = Some (cn_pid c'))
     else \<not> r \<and> sv_conns s' p = None"
proof (cases "recv_loop recv = Some (CHR 0x00) \<and> map_option snd cred = Some uid")
  case True
  then obtain pid where "cred = Some (pid, uid)" by auto
  with check_cred_ok [of s p c recv cred pid uid hk "cn_fd c" r s'] assms True show ?thesis
    by (auto simp: gam_client_conn_read_def nul_seen_loop)
next
  case False
  have "gam_client_conn_check_cred hk uid recv cred (cn_fd c) p s =
      (do { s1 \<leftarrow> gam_client_conn_shutdown hk (cn_fd c) (Some p) s; Some (False, s1) })"
    using False by (auto simp: gam_client_conn_check_cred_def split: option.splits)
  then have "(do { s1 \<leftarrow> gam_client_conn_shutdown hk (cn_fd c) (Some p) s; Some (False, s1) }) = Some (r, s')"
    using assms by (simp add: gam_client_conn_read_def)
  then obtain s1 where "gam_client_conn_shutdown hk (cn_fd c) (Some p) s = Some s1" "\<not> r" "s' = s1"
    by (auto split: Option.bind_splits)
  with shutdown_removes [OF this(1)] assms(4) False show ?thesis by (auto simp: nul_seen_loop)
qed

theorem client_needs_credentials_witness:
  "\<exists>s'. gam_client_conn_read no_hooks 7 [RM_EINTR, RM_BYTE (CHR 0x00)] (Some (42, 7)) [] {G_IO_IN} (Some 0) 6
      (srv0\<lparr>sv_conns := [0 \<mapsto> conn0\<lparr>cn_state := GAM_STATE_AUTH, cn_listener := None\<rparr>], sv_connlist := [0]\<rparr>) = Some (True, s') \<and>
    map_option cn_pid (sv_conns s' 0) = Some 42"
proof -
  let ?c = "conn0\<lparr>cn_state := GAM_STATE_AUTH, cn_listener := None\<rparr>"
  let ?s = "srv0\<lparr>sv_conns := [0 \<mapsto> ?c], sv_connlist := [0]\<rparr>"
  have e: "\<not> error_condition {G_IO_IN}" by (simp add: error_condition_def)
  have c: "sv_conns ?s 0 = Some ?c" "cn_state ?c = GAM_STATE_AUTH" "0 \<le> cn_fd ?c" "gam_connection_exists 0 ?s"
    by (simp_all add: conn0_def gam_connection_exists_def)
  have "gam_client_conn_read no_hooks 7 [RM_EINTR, RM_BYTE (CHR 0x00)] (Some (42, 7)) [] {G_IO_IN} (Some 0) 6 ?s =
      gam_client_conn_check_cred no_hooks 7 [RM_EINTR, RM_BYTE (CHR 0x00)] (Some (42, 7)) (cn_fd ?c) 0 ?s"
    using c e by (simp add: gam_client_conn_read_def)
  moreover have "map_option (\<lambda>(r, s). True) (gam_client_conn_check_cred no_hooks 7 [RM_EINTR, RM_BYTE (CHR 0x00)] (Some (42, 7)) (cn_fd ?c) 0 ?s) = Some True"
    by code_simp
  ultimately obtain r s' where
    rs: "gam_client_conn_read no_hooks 7 [RM_EINTR, RM_BYTE (CHR 0x00)] (Some (42, 7)) [] {G_IO_IN} (Some 0) 6 ?s = Some (r, s')" by auto
  from client_needs_credentials [OF c e rs] rs show ?thesis by (auto simp: nul_seen_def)
qed

text \<open>A peer that sends nothing.\<close>

lemma served_without_a_byte:
  "map_option (\<lambda>(r, s). (r, map_option cn_state (sv_conns s 0)))
     (gam_client_conn_check_cred no_hooks 7 [RM_EOF (CHR 0x00)] (Some (42, 7)) 6 0
       (srv0\<lparr>sv_conns := [0 \<mapsto> conn0\<lparr>cn_state := GAM_STATE_AUTH, cn_listener := None\<rparr>], sv_connlist := [0]\<rparr>)) = Some (True, Some GAM_STATE_OKAY)"
  by code_simp

text \<open>A round that finds something unsafe and removes it, and a round that ends the search well.\<close>

definition removed_unsafe :: "int \<Rightarrow> mkdirres \<times> bool \<Rightarrow> bool" where
  "removed_unsafe uid a \<longleftrightarrow> snd a \<and>
     (case fst a of MK_EEXIST (Some st) \<Rightarrow> \<not> dir_safe uid st | _ \<Rightarrow> False)"

definition finds_safe :: "int \<Rightarrow> mkdirres \<times> bool \<Rightarrow> bool" where
  "finds_safe uid a \<longleftrightarrow>
     (case fst a of MK_OK \<Rightarrow> True | MK_EEXIST (Some st) \<Rightarrow> dir_safe uid st | _ \<Rightarrow> False)"

definition search_ends :: "int \<Rightarrow> (mkdirres \<times> bool) list \<Rightarrow> nat \<Rightarrow> bool" where
  "search_ends uid as k \<longleftrightarrow> k \<le> length as \<and> (\<forall>i < k. removed_unsafe uid (as ! i)) \<and>
     (k = length as \<or> finds_safe uid (as ! k))"

lemma search_ends_Cons:
  "search_ends uid (a # as) k \<longleftrightarrow>
     (if finds_safe uid a then k = 0 \<or> (removed_unsafe uid a \<and> search_ends uid (a # as) k)
      else removed_unsafe uid a \<and> (\<exists>j. k = Suc j \<and> search_ends uid as j))"
  by (cases k) (auto simp: search_ends_def All_less_Suc2)

lemma not_both: "finds_safe uid a \<Longrightarrow> \<not> removed_unsafe uid a"
  by (auto simp: finds_safe_def removed_unsafe_def split: mkdirres.splits option.splits)

lemma search_ends_simps:
  "search_ends uid [] k \<longleftrightarrow> k = 0"
  "finds_safe uid a \<Longrightarrow> search_ends uid (a # as) k \<longleftrightarrow> k = 0"
  "\<not> finds_safe uid a \<Longrightarrow> search_ends uid (a # as) k \<longleftrightarrow>
     removed_unsafe uid a \<and> (\<exists>j. k = Suc j \<and> search_ends uid as j)"
  using search_ends_Cons [of uid a as k] not_both [of uid a] by (auto simp: search_ends_def)

lemma check_dir_loop_spec:
  "check_dir_loop uid tries as \<longleftrightarrow> (\<exists>k. (k = 0 \<or> tries + k < 5) \<and> search_ends uid as k)"
proof (induction uid tries as rule: check_dir_loop.induct)
  case (5 uid tries st rm as)
  let ?a = "(MK_EEXIST (Some st), rm)"
  have a: "finds_safe uid ?a = dir_safe uid st" "removed_unsafe uid ?a = (rm \<and> \<not> dir_safe uid st)"
    by (simp_all add: finds_safe_def removed_unsafe_def)
  show ?case
  proof (cases "dir_safe uid st")
    case True
    then show ?thesis using a by (simp add: search_ends_simps)
  next
    case False
    have ex: "(\<exists>k. (k = 0 \<or> tries + k < 5) \<and> search_ends uid (?a # as) k) \<longleftrightarrow>
        rm \<and> (\<exists>j. Suc tries + j < 5 \<and> search_ends uid as j)"
    proof -
      have s: "search_ends uid (?a # as) k \<longleftrightarrow> rm \<and> (\<exists>j. k = Suc j \<and> search_ends uid as j)" for k
        using search_ends_simps(3) [of uid ?a as k] a False by simp
      show ?thesis unfolding s by (metis Suc_neq_Zero add_Suc_shift)
    qed
    have "(k = 0 \<or> Suc tries + k < 5) = (Suc tries + k < 5)" if "Suc tries < 5" for k
      using that by auto
    with 5 False have "check_dir_loop uid tries (?a # as) \<longleftrightarrow>
        rm \<and> Suc tries < 5 \<and> (\<exists>j. Suc tries + j < 5 \<and> search_ends uid as j)"
      by auto
    then show ?thesis unfolding ex by auto
  qed
qed (auto simp: search_ends_simps finds_safe_def removed_unsafe_def)

text \<open>The directory of the socket is accepted only after at most four unsafe things found at its path
  were removed, and then because it was created or is the user's own directory closed to others;
  an unsafe directory is never accepted.\<close>

theorem secure_dir_accepts:
  "gam_check_secure_dir uid as \<longleftrightarrow> (\<exists>k \<le> 4. k \<le> length as \<and>
     (\<forall>i < k. removed_unsafe uid (as ! i)) \<and> (k = length as \<or> finds_safe uid (as ! k)))"
proof -
  have "(k = 0 \<or> 0 + k < 5) = (k \<le> 4)" for k :: nat by auto
  then show ?thesis
    unfolding gam_check_secure_dir_def check_dir_loop_spec search_ends_def by (simp only:)
qed

theorem secure_dir_accepts_witness: "gam_check_secure_dir 7 [(MK_OK, False)]"
  unfolding secure_dir_accepts by (intro exI [of _ 0]) (simp add: finds_safe_def)

end
