(* ===== verification/Gam_Node.thy ===== *)
theory Gam_Node
  imports Gam_Srv
begin

unbundle bit_operations_syntax

text \<open>
  The nodes and the node tree of the server, \<^verbatim>\<open>server/gam_node.c\<close> and \<^verbatim>\<open>server/gam_tree.c\<close>, and the lists
  of polled nodes of \<^verbatim>\<open>server/gam_poll_generic.c\<close>.

  The state of the server is extended by a heap of nodes, the hash table from paths to nodes, the root
  and the lists of nodes. A \<^verbatim>\<open>GamNode\<close> and the \<^verbatim>\<open>GNode\<close> that links it into the tree point at each other,
  so they are one record: \<open>nd_parent\<close> and \<open>nd_children\<close> are the links of the \<^verbatim>\<open>GNode\<close>. The file system,
  the clock and the policies are an environment, the same during one call of the back end.
\<close>

section \<open>Environment and state\<close>

record stat =
  st_is_dir :: bool
  st_mtime :: int
  st_mtime_nsec :: int
  st_size :: int
  st_ctime :: int
  st_ctime_nsec :: int

definition stat_zero :: stat where
  "stat_zero = \<lparr>st_is_dir = False, st_mtime = 0, st_mtime_nsec = 0, st_size = 0, st_ctime = 0, st_ctime_nsec = 0\<rparr>"

datatype statres = STAT_OK stat | STAT_NOENT | STAT_ERR

record fenv =
  en_stat :: "string \<Rightarrow> statres"
  en_readdir :: "string \<Rightarrow> string list option"
  en_time :: int
  en_poll_timeout :: "string \<Rightarrow> int"
  en_mon_type :: "string \<Rightarrow> gam_fs_mon_type"
  en_exclude :: "string \<Rightarrow> bool"

text \<open>\<^verbatim>\<open>g_file_test\<close> with \<^verbatim>\<open>G_FILE_TEST_EXISTS\<close> and with \<^verbatim>\<open>G_FILE_TEST_IS_DIR\<close>.\<close>

definition file_exists :: "fenv \<Rightarrow> string \<Rightarrow> bool" where
  "file_exists en path = (case en_stat en path of STAT_OK st \<Rightarrow> True | _ \<Rightarrow> False)"

definition file_is_dir :: "fenv \<Rightarrow> string \<Rightarrow> bool" where
  "file_is_dir en path = (case en_stat en path of STAT_OK st \<Rightarrow> st_is_dir st | _ \<Rightarrow> False)"

text \<open>\<^verbatim>\<open>g_build_filename\<close> of a directory and the name of an entry.\<close>

definition g_build_filename :: "string \<Rightarrow> string \<Rightarrow> string" where
  "g_build_filename d name =
     (if list_all (\<lambda>c. c = CHR ''/'') d then d @ name
      else rev (dropWhile (\<lambda>c. c = CHR ''/'') (rev d)) @ CHR ''/'' # name)"

text \<open>\<^verbatim>\<open>g_path_get_dirname\<close>.\<close>

abbreviation slash :: char where "slash \<equiv> CHR ''/''"

definition g_path_get_dirname :: "string \<Rightarrow> string" where
  "g_path_get_dirname p =
     (if slash \<notin> set p then ''.''
      else (let r = dropWhile (\<lambda>c. c = slash) (dropWhile (\<lambda>c. c \<noteq> slash) (rev p))
            in if r = [] then ''/'' else rev r))"

record GamNode =
  nd_path :: string
  nd_subs :: "cptr list"
  nd_parent :: "cptr option"
  nd_children :: "cptr list"
  nd_is_dir :: bool
  nd_flags :: evtype
  nd_poll_time :: int
  nd_mon_type :: gam_fs_mon_type
  nd_checks :: int
  nd_pflags :: evtype
  nd_lasttime :: int
  nd_sbuf :: stat

record psrv = srv +
  pl_nodes :: "cptr \<rightharpoonup> GamNode"
  pl_nextnode :: cptr
  pl_root :: cptr
  pl_hash :: "string \<rightharpoonup> cptr"
  pl_missing :: "cptr list"
  pl_busy :: "cptr list"
  pl_all :: "cptr list"
  pl_time :: int
  pl_running :: bool

definition upd_node :: "cptr \<Rightarrow> (GamNode \<Rightarrow> GamNode) \<Rightarrow> 'b psrv_scheme \<Rightarrow> 'b psrv_scheme" where
  "upd_node n f s = s\<lparr>pl_nodes := (pl_nodes s)(n := map_option f (pl_nodes s n))\<rparr>"

section \<open>Nodes\<close>

definition FLAG_NEW_NODE :: evtype where "FLAG_NEW_NODE = 32"

definition MON_MISSING :: evtype where "MON_MISSING = 1"

definition MON_NOKERNEL :: evtype where "MON_NOKERNEL = 2"

definition MON_BUSY :: evtype where "MON_BUSY = 4"

definition MON_WRONG_TYPE :: evtype where "MON_WRONG_TYPE = 8"

definition MON_ALL_PFLAGS :: evtype where
  "MON_ALL_PFLAGS = MON_MISSING OR MON_NOKERNEL OR MON_BUSY OR MON_WRONG_TYPE"

definition gam_node_new :: "fenv \<Rightarrow> string \<Rightarrow> cptr option \<Rightarrow> bool \<Rightarrow> GamNode" where
  "gam_node_new en path sub is_dir =
     \<lparr>nd_path = path, nd_subs = (case sub of None \<Rightarrow> [] | Some q \<Rightarrow> [q]), nd_parent = None, nd_children = [],
      nd_is_dir = is_dir, nd_flags = 0, nd_poll_time = en_poll_timeout en path,
      nd_mon_type = en_mon_type en path, nd_checks = 0, nd_pflags = 0, nd_lasttime = 0, nd_sbuf = stat_zero\<rparr>"

definition alloc_node :: "GamNode \<Rightarrow> 'b psrv_scheme \<Rightarrow> cptr \<times> 'b psrv_scheme" where
  "alloc_node nd s = (pl_nextnode s,
     s\<lparr>pl_nodes := (pl_nodes s)(pl_nextnode s \<mapsto> nd), pl_nextnode := Suc (pl_nextnode s)\<rparr>)"

definition gam_node_free :: "cptr \<Rightarrow> 'b psrv_scheme \<Rightarrow> 'b psrv_scheme option" where
  "gam_node_free n s =
     do { nd \<leftarrow> pl_nodes s n;
          if nd_subs nd \<noteq> [] then None else Some (s\<lparr>pl_nodes := (pl_nodes s)(n := None)\<rparr>) }"

definition gam_node_parent :: "cptr \<Rightarrow> 'b psrv_scheme \<Rightarrow> cptr option option" where
  "gam_node_parent n s = map_option nd_parent (pl_nodes s n)"

definition gam_node_is_dir :: "cptr \<Rightarrow> 'b psrv_scheme \<Rightarrow> bool option" where
  "gam_node_is_dir n s = map_option nd_is_dir (pl_nodes s n)"

definition gam_node_set_is_dir :: "cptr \<Rightarrow> bool \<Rightarrow> 'b psrv_scheme \<Rightarrow> 'b psrv_scheme option" where
  "gam_node_set_is_dir n d s =
     do { nd \<leftarrow> pl_nodes s n; Some (upd_node n (\<lambda>nd. nd\<lparr>nd_is_dir := d\<rparr>) s) }"

definition gam_node_get_subscriptions :: "cptr \<Rightarrow> 'b psrv_scheme \<Rightarrow> cptr list option" where
  "gam_node_get_subscriptions n s = map_option nd_subs (pl_nodes s n)"

definition gam_node_has_dir_subscriptions :: "cptr \<Rightarrow> 'b psrv_scheme \<Rightarrow> bool option" where
  "gam_node_has_dir_subscriptions n s =
     do { nd \<leftarrow> pl_nodes s n;
          Some (nd_is_dir nd \<and> list_ex (\<lambda>q. gam_subscription_is_dir (sv_subs s q)) (nd_subs nd)) }"

definition gam_node_add_subscription :: "cptr \<Rightarrow> cptr \<Rightarrow> 'b psrv_scheme \<Rightarrow> 'b psrv_scheme option" where
  "gam_node_add_subscription n subp s =
     do { nd \<leftarrow> pl_nodes s n;
          if subp \<in> set (nd_subs nd) then None
          else Some (upd_node n (\<lambda>nd. nd\<lparr>nd_subs := subp # nd_subs nd\<rparr>) s) }"

definition gam_node_remove_subscription :: "cptr \<Rightarrow> cptr \<Rightarrow> 'b psrv_scheme \<Rightarrow> 'b psrv_scheme option" where
  "gam_node_remove_subscription n subp s =
     do { nd \<leftarrow> pl_nodes s n;
          if subp \<notin> set (nd_subs nd) then None
          else Some (upd_node n (\<lambda>nd. nd\<lparr>nd_subs := removeAll subp (nd_subs nd)\<rparr>) s) }"

text \<open>The assertion that a flag is one bit.\<close>

definition one_flag :: "evtype \<Rightarrow> bool" where
  "one_flag flag \<longleftrightarrow> flag AND (flag - 1) = 0"

definition gam_node_set_flag :: "cptr \<Rightarrow> evtype \<Rightarrow> 'b psrv_scheme \<Rightarrow> 'b psrv_scheme option" where
  "gam_node_set_flag n flag s =
     do { nd \<leftarrow> pl_nodes s n;
          if \<not> one_flag flag then None
          else Some (upd_node n (\<lambda>nd. nd\<lparr>nd_flags := nd_flags nd OR flag\<rparr>) s) }"

definition gam_node_unset_flag :: "cptr \<Rightarrow> evtype \<Rightarrow> 'b psrv_scheme \<Rightarrow> 'b psrv_scheme option" where
  "gam_node_unset_flag n flag s =
     do { nd \<leftarrow> pl_nodes s n;
          if \<not> one_flag flag then None
          else Some (upd_node n (\<lambda>nd. nd\<lparr>nd_flags := nd_flags nd AND NOT flag\<rparr>) s) }"

definition gam_node_has_flag :: "cptr \<Rightarrow> evtype \<Rightarrow> 'b psrv_scheme \<Rightarrow> bool option" where
  "gam_node_has_flag n flag s =
     do { nd \<leftarrow> pl_nodes s n;
          if \<not> one_flag flag then None else Some (nd_flags nd AND flag \<noteq> 0) }"

definition gam_node_set_pflag :: "cptr \<Rightarrow> evtype \<Rightarrow> 'b psrv_scheme \<Rightarrow> 'b psrv_scheme option" where
  "gam_node_set_pflag n flag s =
     do { nd \<leftarrow> pl_nodes s n;
          if \<not> one_flag flag then None
          else Some (upd_node n (\<lambda>nd. nd\<lparr>nd_pflags := nd_pflags nd OR flag\<rparr>) s) }"

definition gam_node_unset_pflag :: "cptr \<Rightarrow> evtype \<Rightarrow> 'b psrv_scheme \<Rightarrow> 'b psrv_scheme option" where
  "gam_node_unset_pflag n flag s =
     do { nd \<leftarrow> pl_nodes s n;
          if \<not> one_flag flag then None
          else Some (upd_node n (\<lambda>nd. nd\<lparr>nd_pflags := nd_pflags nd AND NOT flag\<rparr>) s) }"

definition gam_node_has_pflag :: "cptr \<Rightarrow> evtype \<Rightarrow> 'b psrv_scheme \<Rightarrow> bool option" where
  "gam_node_has_pflag n flag s =
     do { nd \<leftarrow> pl_nodes s n;
          if \<not> one_flag flag then None else Some (nd_pflags nd AND flag \<noteq> 0) }"

definition gam_node_set_pflags :: "cptr \<Rightarrow> evtype \<Rightarrow> 'b psrv_scheme \<Rightarrow> 'b psrv_scheme option" where
  "gam_node_set_pflags n flags s =
     do { nd \<leftarrow> pl_nodes s n; Some (upd_node n (\<lambda>nd. nd\<lparr>nd_pflags := flags\<rparr>) s) }"

definition gam_node_has_pflags :: "cptr \<Rightarrow> evtype \<Rightarrow> 'b psrv_scheme \<Rightarrow> bool option" where
  "gam_node_has_pflags n flags s = do { nd \<leftarrow> pl_nodes s n; Some (nd_pflags nd AND flags \<noteq> 0) }"

text \<open>The subscriptions of the node and, in front of them, those of its parent that are not among them.\<close>

definition emit_subs :: "cptr list \<Rightarrow> cptr list \<Rightarrow> cptr list" where
  "emit_subs subs parent_subs = fold (\<lambda>q qs. if q \<in> set qs then qs else q # qs) parent_subs subs"

definition gam_node_emit_event :: "cptr \<Rightarrow> evtype \<Rightarrow> 'b psrv_scheme \<Rightarrow> 'b psrv_scheme option" where
  "gam_node_emit_event n event s =
     do { nd \<leftarrow> pl_nodes s n;
          parent_subs \<leftarrow> (case nd_parent nd of
             None \<Rightarrow> Some []
           | Some p \<Rightarrow> gam_node_get_subscriptions p s);
          gam_server_emit_event (nd_path nd) (nd_is_dir nd) event (emit_subs (nd_subs nd) parent_subs) False s }"

section \<open>The tree\<close>

definition gam_tree_new :: "fenv \<Rightarrow> 'b psrv_scheme \<Rightarrow> 'b psrv_scheme" where
  "gam_tree_new en s =
     (let (n, s1) = alloc_node (gam_node_new en ''/'' None True) s
      in s1\<lparr>pl_root := n, pl_hash := Map.empty\<rparr>)"

definition gam_tree_add :: "cptr \<Rightarrow> cptr \<Rightarrow> 'b psrv_scheme \<Rightarrow> (bool \<times> 'b psrv_scheme) option" where
  "gam_tree_add parent child s =
     do { cd \<leftarrow> pl_nodes s child;
          pd \<leftarrow> pl_nodes s parent;
          if pl_hash s (nd_path cd) \<noteq> None then Some (False, s)
          else
            (let s1 = upd_node child (\<lambda>nd. nd\<lparr>nd_parent := Some parent, nd_children := []\<rparr>) s;
                 s2 = upd_node parent (\<lambda>nd. nd\<lparr>nd_children := nd_children nd @ [child]\<rparr>) s1
             in Some (True, s2\<lparr>pl_hash := (pl_hash s2)(nd_path cd \<mapsto> child)\<rparr>)) }"

text \<open>\<^verbatim>\<open>g_node_is_ancestor\<close> climbs from the node; \<open>k\<close> bounds the height, the number of nodes ever
  allocated is enough.\<close>

fun is_ancestor :: "nat \<Rightarrow> cptr \<Rightarrow> cptr \<Rightarrow> 'b psrv_scheme \<Rightarrow> bool" where
  "is_ancestor 0 a n s = False"
| "is_ancestor (Suc k) a n s =
     (case pl_nodes s n of
        None \<Rightarrow> False
      | Some nd \<Rightarrow> (case nd_parent nd of None \<Rightarrow> False | Some p \<Rightarrow> p = a \<or> is_ancestor k a p s))"

definition gam_tree_remove :: "cptr \<Rightarrow> 'b psrv_scheme \<Rightarrow> (bool \<times> 'b psrv_scheme) option" where
  "gam_tree_remove n s =
     do { nd \<leftarrow> pl_nodes s n;
          if \<not> is_ancestor (pl_nextnode s) (pl_root s) n s then Some (False, s)
          else if nd_children nd \<noteq> [] then None
          else
            (let s1 = s\<lparr>pl_hash := (pl_hash s)(nd_path nd := None)\<rparr>;
                 s2 = (case nd_parent nd of
                         None \<Rightarrow> s1
                       | Some p \<Rightarrow> upd_node p (\<lambda>pd. pd\<lparr>nd_children := remove1 n (nd_children pd)\<rparr>) s1)
             in do { s3 \<leftarrow> gam_node_free n s2; Some (True, s3) }) }"

definition gam_tree_get_at_path :: "string \<Rightarrow> 'b psrv_scheme \<Rightarrow> cptr option" where
  "gam_tree_get_at_path path s = pl_hash s path"

text \<open>The loop over the positions of the path that makes the directories above it.\<close>

fun add_parents :: "fenv \<Rightarrow> string \<Rightarrow> nat list \<Rightarrow> cptr \<Rightarrow> 'b psrv_scheme \<Rightarrow> (cptr \<times> 'b psrv_scheme) option" where
  "add_parents en path [] parent s = Some (parent, s)"
| "add_parents en path (i # is) parent s =
     (if path ! i \<noteq> CHR ''/'' then add_parents en path is parent s
      else case gam_tree_get_at_path (take i path) s of
        Some p \<Rightarrow> add_parents en path is p s
      | None \<Rightarrow>
          (let (p, s1) = alloc_node (gam_node_new en (take i path) None True) s
           in do { (b, s2) \<leftarrow> gam_tree_add parent p s1; add_parents en path is p s2 }))"

definition gam_tree_add_at_path ::
  "fenv \<Rightarrow> string \<Rightarrow> bool \<Rightarrow> 'b psrv_scheme \<Rightarrow> (cptr option \<times> 'b psrv_scheme) option" where
  "gam_tree_add_at_path en path is_dir s =
     (if path = [] then Some (None, s)
      else case gam_tree_get_at_path path s of
        Some n \<Rightarrow> Some (Some n, s)
      | None \<Rightarrow>
          (let is_dir = (if file_exists en path then file_is_dir en path else is_dir) in
           do { (parent, s1) \<leftarrow> add_parents en path [1..<length path] (pl_root s) s;
                let (n, s2) = alloc_node (gam_node_new en path None is_dir) s1
                in do { (b, s3) \<leftarrow> gam_tree_add parent n s2; Some (Some n, s3) } }))"

text \<open>Each child is put in front of the list, so the children come in the reverse order.\<close>

definition gam_tree_get_children :: "cptr \<Rightarrow> 'b psrv_scheme \<Rightarrow> cptr list option" where
  "gam_tree_get_children n s = map_option (\<lambda>nd. rev (nd_children nd)) (pl_nodes s n)"

definition gam_tree_has_children :: "cptr \<Rightarrow> 'b psrv_scheme \<Rightarrow> bool option" where
  "gam_tree_has_children n s = map_option (\<lambda>nd. nd_children nd \<noteq> []) (pl_nodes s n)"

section \<open>The lists of polled nodes\<close>

definition gam_poll_generic_add_missing :: "cptr \<Rightarrow> 'b psrv_scheme \<Rightarrow> 'b psrv_scheme" where
  "gam_poll_generic_add_missing n s =
     (if n \<in> set (pl_missing s) then s else s\<lparr>pl_missing := n # pl_missing s\<rparr>)"

definition gam_poll_generic_remove_missing :: "cptr \<Rightarrow> 'b psrv_scheme \<Rightarrow> 'b psrv_scheme" where
  "gam_poll_generic_remove_missing n s = s\<lparr>pl_missing := removeAll n (pl_missing s)\<rparr>"

definition gam_poll_generic_add_busy :: "cptr \<Rightarrow> 'b psrv_scheme \<Rightarrow> 'b psrv_scheme" where
  "gam_poll_generic_add_busy n s =
     (if n \<in> set (pl_busy s) then s else s\<lparr>pl_busy := n # pl_busy s\<rparr>)"

definition gam_poll_generic_remove_busy :: "cptr \<Rightarrow> 'b psrv_scheme \<Rightarrow> 'b psrv_scheme" where
  "gam_poll_generic_remove_busy n s = s\<lparr>pl_busy := removeAll n (pl_busy s)\<rparr>"

definition gam_poll_generic_add :: "cptr \<Rightarrow> 'b psrv_scheme \<Rightarrow> 'b psrv_scheme" where
  "gam_poll_generic_add n s = (if n \<in> set (pl_all s) then s else s\<lparr>pl_all := n # pl_all s\<rparr>)"

definition gam_poll_generic_remove :: "cptr \<Rightarrow> 'b psrv_scheme \<Rightarrow> 'b psrv_scheme option" where
  "gam_poll_generic_remove n s =
     (if n \<notin> set (pl_all s) then None else Some (s\<lparr>pl_all := removeAll n (pl_all s)\<rparr>))"

definition gam_poll_generic_unregister_node :: "cptr \<Rightarrow> 'b psrv_scheme \<Rightarrow> 'b psrv_scheme" where
  "gam_poll_generic_unregister_node n s =
     (let s1 = (if pl_missing s \<noteq> [] then gam_poll_generic_remove_missing n s else s);
          s2 = (if pl_busy s1 \<noteq> [] then gam_poll_generic_remove_busy n s1 else s1)
      in if pl_all s2 \<noteq> [] then s2\<lparr>pl_all := remove1 n (pl_all s2)\<rparr> else s2)"

definition gam_poll_generic_update_time :: "fenv \<Rightarrow> 'b psrv_scheme \<Rightarrow> 'b psrv_scheme" where
  "gam_poll_generic_update_time en s = s\<lparr>pl_time := en_time en\<rparr>"

definition gam_poll_generic_get_delta_time :: "int \<Rightarrow> 'b psrv_scheme \<Rightarrow> int" where
  "gam_poll_generic_get_delta_time pt s = (if pl_time s \<ge> pt then pl_time s - pt else 0)"

definition gam_poll_generic_init :: "fenv \<Rightarrow> 'b psrv_scheme \<Rightarrow> 'b psrv_scheme" where
  "gam_poll_generic_init en s = gam_poll_generic_update_time en (gam_tree_new en s)"

text \<open>\<^verbatim>\<open>gam_poll_generic_prune_tree\<close> climbs as long as it removes; \<open>k\<close> bounds the height.\<close>

fun prune_tree :: "nat \<Rightarrow> cptr \<Rightarrow> 'b psrv_scheme \<Rightarrow> 'b psrv_scheme option" where
  "prune_tree 0 n s = None"
| "prune_tree (Suc k) n s =
     do { nd \<leftarrow> pl_nodes s n;
          case nd_parent nd of
            None \<Rightarrow> Some s
          | Some p \<Rightarrow>
              if nd_children nd = [] \<and> nd_subs nd = [] then
                do { (b, s1) \<leftarrow> gam_tree_remove n (gam_poll_generic_unregister_node n s);
                     prune_tree k p s1 }
              else Some s }"

definition gam_poll_generic_prune_tree :: "cptr \<Rightarrow> 'b psrv_scheme \<Rightarrow> 'b psrv_scheme option" where
  "gam_poll_generic_prune_tree n s = prune_tree (pl_nextnode s) n s"

end
