(* ===== verification/Gam_Poll.thy ===== *)
theory Gam_Poll
  imports Gam_Node Gam_Connection
begin

unbundle bit_operations_syntax

text \<open>
  The polling back end: scanning a directory (\<^verbatim>\<open>server/gam_poll_generic.c\<close>) and polling files
  (\<^verbatim>\<open>server/gam_poll_basic.c\<close>). The generic functions take the back end's \<^verbatim>\<open>gam_poll_file\<close> hook as an
  argument. A scan of a directory calls itself for new nodes that have subscriptions; \<open>k\<close> bounds the
  depth of these calls.
\<close>

type_synonym 'x poll_hook = "cptr \<Rightarrow> 'x \<Rightarrow> (evtype \<times> 'x) option"

section \<open>Scanning a directory\<close>

definition scan_entry :: "fenv \<Rightarrow> cptr \<Rightarrow> string \<Rightarrow> 'b psrv_scheme \<Rightarrow> 'b psrv_scheme option" where
  "scan_entry en dir_node name s =
     do { dnd \<leftarrow> pl_nodes s dir_node;
          let path = g_build_filename (nd_path dnd) name
          in case gam_tree_get_at_path path s of
               Some n \<Rightarrow> Some s
             | None \<Rightarrow>
                 (let (n, s1) = alloc_node (gam_node_new en path None (file_is_dir en path)) s
                  in do { (b, s2) \<leftarrow> gam_tree_add dir_node n s1; gam_node_set_flag n FLAG_NEW_NODE s2 }) }"

fun scan_entries :: "fenv \<Rightarrow> cptr \<Rightarrow> string list \<Rightarrow> 'b psrv_scheme \<Rightarrow> 'b psrv_scheme option" where
  "scan_entries en dir_node [] s = Some s"
| "scan_entries en dir_node (name # names) s =
     do { s1 \<leftarrow> scan_entry en dir_node name s; scan_entries en dir_node names s1 }"

text \<open>One child: \<open>scan\<close> is the scan of a directory below.\<close>

definition scan_child ::
  "(cptr \<Rightarrow> 'x psrv_scheme \<Rightarrow> 'x psrv_scheme option) \<Rightarrow> 'x psrv_scheme poll_hook \<Rightarrow> cptr \<Rightarrow> cptr
     \<Rightarrow> 'x psrv_scheme \<Rightarrow> 'x psrv_scheme option" where
  "scan_child scan pf dir_node n s =
     do { is_dir_node \<leftarrow> gam_node_is_dir dir_node s;
          (fevent, s1) \<leftarrow> pf n s;
          new \<leftarrow> gam_node_has_flag n FLAG_NEW_NODE s1;
          (fevent, s2) \<leftarrow>
            (if new then
               do { subs \<leftarrow> gam_node_get_subscriptions n s1;
                    s2 \<leftarrow> gam_node_unset_flag n FLAG_NEW_NODE s1;
                    if is_dir_node \<and> subs \<noteq> [] then
                      do { s3 \<leftarrow> scan n s2; Some (fevent, s3) }
                    else Some (GAMIN_EVENT_CREATED, s2) }
             else Some (fevent, s1));
          if fevent \<noteq> 0 then gam_node_emit_event n fevent s2
          else
            do { missing \<leftarrow> gam_node_has_pflag n MON_MISSING s2;
                 nd \<leftarrow> pl_nodes s2 n;
                 if \<not> missing
                 then gam_server_emit_event (nd_path nd) (nd_is_dir nd) GAMIN_EVENT_EXISTS [] False s2
                 else Some s2 } }"

fun scan_children ::
  "(cptr \<Rightarrow> 'x psrv_scheme \<Rightarrow> 'x psrv_scheme option) \<Rightarrow> 'x psrv_scheme poll_hook \<Rightarrow> cptr \<Rightarrow> cptr list
     \<Rightarrow> 'x psrv_scheme \<Rightarrow> 'x psrv_scheme option" where
  "scan_children scan pf dir_node [] s = Some s"
| "scan_children scan pf dir_node (n # ns) s =
     do { s1 \<leftarrow> scan_child scan pf dir_node n s; scan_children scan pf dir_node ns s1 }"

fun scan_directory :: "nat \<Rightarrow> fenv \<Rightarrow> 'x psrv_scheme poll_hook \<Rightarrow> cptr \<Rightarrow> 'x psrv_scheme \<Rightarrow> 'x psrv_scheme option" where
  "scan_directory 0 en pf dir_node s = None"
| "scan_directory (Suc k) en pf dir_node s =
     (let scan_files = (\<lambda>s.
            do { children \<leftarrow> gam_tree_get_children dir_node s;
                 scan_children (scan_directory k en pf) pf dir_node children s })
      in do { nd \<leftarrow> pl_nodes s dir_node;
              if nd_subs nd = [] then scan_files s
              else if nd_lasttime nd \<noteq> 0 \<and>
                      gam_poll_generic_get_delta_time (nd_lasttime nd) s < nd_poll_time nd
              then Some s
              else
                do { (event, s1) \<leftarrow> pf dir_node s;
                     s2 \<leftarrow> (if event \<noteq> 0 then gam_node_emit_event dir_node event s1 else Some s1);
                     case en_readdir en (nd_path nd) of
                       None \<Rightarrow> Some s2
                     | Some names \<Rightarrow>
                         do { s3 \<leftarrow> scan_entries en dir_node names s2; scan_files s3 } } })"

text \<open>A second level is never reached (a node that is new has no subscription), so two are enough.\<close>

definition gam_poll_generic_scan_directory_internal ::
  "fenv \<Rightarrow> 'x psrv_scheme poll_hook \<Rightarrow> cptr \<Rightarrow> 'x psrv_scheme \<Rightarrow> 'x psrv_scheme option" where
  "gam_poll_generic_scan_directory_internal = scan_directory 2"

definition gam_poll_generic_scan_directory ::
  "fenv \<Rightarrow> 'x psrv_scheme poll_hook \<Rightarrow> string \<Rightarrow> 'x psrv_scheme \<Rightarrow> 'x psrv_scheme option" where
  "gam_poll_generic_scan_directory en pf path s =
     (let s1 = gam_poll_generic_update_time en s in
      case gam_tree_get_at_path path s1 of
        Some n \<Rightarrow> gam_poll_generic_scan_directory_internal en pf n s1
      | None \<Rightarrow>
          do { (r, s2) \<leftarrow> gam_tree_add_at_path en path True s1;
               case r of
                 None \<Rightarrow> Some s2
               | Some n \<Rightarrow> gam_poll_generic_scan_directory_internal en pf n s2 })"

section \<open>The first scan of a directory\<close>

definition first_scan_entry ::
  "fenv \<Rightarrow> cptr \<Rightarrow> cptr \<Rightarrow> bool \<Rightarrow> string \<Rightarrow> string \<Rightarrow> 'b psrv_scheme \<Rightarrow> 'b psrv_scheme option" where
  "first_scan_entry en subp dir_node with_exists dpath name s =
     (let path = g_build_filename dpath name in
      do { s3 \<leftarrow>
             (case gam_tree_get_at_path path s of
                Some n \<Rightarrow> Some s
              | None \<Rightarrow>
                  (let (n, s1) = alloc_node (gam_node_new en path None (file_is_dir en path)) s;
                       sbuf = (case en_stat en path of STAT_OK st \<Rightarrow> st | _ \<Rightarrow> stat_zero);
                       s2 = upd_node n (\<lambda>nd. nd\<lparr>nd_sbuf := sbuf, nd_is_dir := st_is_dir sbuf,
                              nd_pflags := (if en_exclude en path \<or> en_mon_type en path \<noteq> GFS_MT_KERNEL
                                            then nd_pflags nd OR MON_NOKERNEL else nd_pflags nd),
                              nd_lasttime := pl_time s\<rparr>) s1
                   in do { (b, s3) \<leftarrow> gam_tree_add dir_node n s2; Some s3 }));
           if with_exists then gam_server_emit_event name True GAMIN_EVENT_EXISTS [subp] True s3 else Some s3 })"

fun first_scan_entries ::
  "fenv \<Rightarrow> cptr \<Rightarrow> cptr \<Rightarrow> bool \<Rightarrow> string \<Rightarrow> string list \<Rightarrow> 'b psrv_scheme \<Rightarrow> 'b psrv_scheme option" where
  "first_scan_entries en subp dir_node with_exists dpath [] s = Some s"
| "first_scan_entries en subp dir_node with_exists dpath (name # names) s =
     do { s1 \<leftarrow> first_scan_entry en subp dir_node with_exists dpath name s;
          first_scan_entries en subp dir_node with_exists dpath names s1 }"

definition gam_poll_generic_first_scan_dir ::
  "fenv \<Rightarrow> 'b psrv_scheme poll_hook \<Rightarrow> cptr \<Rightarrow> cptr \<Rightarrow> string \<Rightarrow> 'b psrv_scheme \<Rightarrow> 'b psrv_scheme option" where
  "gam_poll_generic_first_scan_dir en pf subp dir_node dpath s =
     do { sub \<leftarrow> sv_subs s subp;
          let with_exists = \<not> gam_subscription_has_option (Some sub) opt_noexists;
              done = (\<lambda>s. if with_exists
                          then gam_server_emit_event dpath True GAMIN_EVENT_ENDEXISTS [subp] True s else Some s)
          in if \<not> file_exists en dpath then
               do { s1 \<leftarrow> gam_server_emit_event dpath True GAMIN_EVENT_DELETED [subp] True s;
                    nd \<leftarrow> pl_nodes s1 dir_node;
                    let s2 = upd_node dir_node (\<lambda>nd. nd\<lparr>
                          nd_sbuf := (case en_stat en (nd_path nd) of STAT_OK st \<Rightarrow> st | _ \<Rightarrow> nd_sbuf nd),
                          nd_lasttime := pl_time s1\<rparr>) s1
                    in if file_exists en dpath then
                         done (upd_node dir_node (\<lambda>nd. nd\<lparr>nd_pflags := MON_WRONG_TYPE, nd_is_dir := False\<rparr>) s2)
                       else
                         do { s3 \<leftarrow> gam_node_set_pflags dir_node MON_MISSING s2;
                              done (gam_poll_generic_add_missing dir_node s3) } }
             else
               do { nd \<leftarrow> pl_nodes s dir_node;
                    (event, s1) \<leftarrow> (if nd_lasttime nd = 0 then pf dir_node s else Some (0, s));
                    s2 \<leftarrow> (if with_exists
                            then gam_server_emit_event dpath True GAMIN_EVENT_EXISTS [subp] True s1 else Some s1);
                    case en_readdir en dpath of
                      None \<Rightarrow> done s2
                    | Some names \<Rightarrow>
                        do { s3 \<leftarrow> first_scan_entries en subp dir_node with_exists dpath names s2; done s3 } } }"

section \<open>Polling a file\<close>

definition gam_poll_generic_node_changed :: "GamNode \<Rightarrow> stat \<Rightarrow> bool" where
  "gam_poll_generic_node_changed nd sbuf \<longleftrightarrow>
     st_mtime (nd_sbuf nd) \<noteq> st_mtime sbuf \<or> st_mtime_nsec (nd_sbuf nd) \<noteq> st_mtime_nsec sbuf \<or>
     st_size (nd_sbuf nd) \<noteq> st_size sbuf \<or> st_ctime (nd_sbuf nd) \<noteq> st_ctime sbuf \<or>
     st_ctime_nsec (nd_sbuf nd) \<noteq> st_ctime_nsec sbuf"

definition gam_poll_basic_poll_file :: "fenv \<Rightarrow> cptr \<Rightarrow> 'b psrv_scheme \<Rightarrow> (evtype \<times> 'b psrv_scheme) option" where
  "gam_poll_basic_poll_file en n s =
     do { nd \<leftarrow> pl_nodes s n;
          if nd_lasttime nd \<noteq> 0 \<and> gam_poll_generic_get_delta_time (nd_lasttime nd) s < nd_poll_time nd
          then Some (0, s)
          else
            let res = en_stat en (nd_path nd);
                sbuf = (case res of STAT_OK st \<Rightarrow> st | _ \<Rightarrow> stat_zero);
                finish = upd_node n (\<lambda>nd. nd\<lparr>nd_is_dir := (if res = STAT_OK sbuf then st_is_dir sbuf else nd_is_dir nd),
                                           nd_sbuf := sbuf\<rparr>)
            in if nd_lasttime nd = 0 then
                 do { s1 \<leftarrow> (if res \<noteq> STAT_OK sbuf then gam_node_set_pflag n MON_MISSING s else Some s);
                      let s2 = upd_node n (\<lambda>nd. nd\<lparr>nd_lasttime := pl_time s1\<rparr>) (finish s1)
                      in Some (if res = STAT_OK sbuf then 0 else GAMIN_EVENT_DELETED, s2) }
               else
                 let s0 = upd_node n (\<lambda>nd. nd\<lparr>nd_lasttime := pl_time s\<rparr>) s
                 in do { missing \<leftarrow> gam_node_has_pflag n MON_MISSING s0;
                         (event, s1) \<leftarrow>
                           (if res \<noteq> STAT_OK sbuf then
                              (if res = STAT_NOENT \<and> \<not> missing then
                                 do { s1 \<leftarrow> gam_node_set_pflags n MON_MISSING s0;
                                      Some (GAMIN_EVENT_DELETED,
                                        gam_poll_generic_add_missing n (gam_poll_generic_remove_busy n s1)) }
                               else Some (0, s0))
                            else if missing then
                              do { s1 \<leftarrow> gam_node_unset_pflag n MON_MISSING s0;
                                   Some (GAMIN_EVENT_CREATED, gam_poll_generic_remove_missing n s1) }
                            else if gam_poll_generic_node_changed nd sbuf then Some (GAMIN_EVENT_CHANGED, s0)
                            else Some (0, s0));
                         Some (event, finish s1) } }"

section \<open>The back end\<close>

definition gam_poll_basic_add_subscription :: "fenv \<Rightarrow> cptr \<Rightarrow> 'b psrv_scheme \<Rightarrow> (bool \<times> 'b psrv_scheme) option" where
  "gam_poll_basic_add_subscription en subp s =
     do { sub \<leftarrow> sv_subs s subp;
          let path = sub_path sub
          in do {
            l \<leftarrow> sub_listener sub;
            s1 \<leftarrow> gam_listener_add_subscription l subp s;
            let s2 = gam_poll_generic_update_time en s1
            in do {
              (r, s3) \<leftarrow> (case gam_tree_get_at_path path s of
                            Some n \<Rightarrow> Some (Some n, s2)
                          | None \<Rightarrow> gam_tree_add_at_path en path (sub_is_dir sub) s2);
              n \<leftarrow> r;
              s4 \<leftarrow> gam_node_add_subscription n subp s3;
              node_is_dir \<leftarrow> gam_node_is_dir n s4;
              s5 \<leftarrow>
                (if node_is_dir then
                   gam_poll_generic_first_scan_dir en (gam_poll_basic_poll_file en) subp n path s4
                 else
                   do { (event, s5) \<leftarrow> gam_poll_basic_poll_file en n s4;
                        let present = event = 0 \<or> event = GAMIN_EVENT_EXISTS \<or>
                                      event = GAMIN_EVENT_CHANGED \<or> event = GAMIN_EVENT_CREATED
                        in do { s6 \<leftarrow> gam_server_emit_one_event path node_is_dir
                                   (if present \<and> \<not> sub_is_dir sub then GAMIN_EVENT_EXISTS
                                    else GAMIN_EVENT_DELETED) subp False s5;
                                gam_server_emit_one_event path node_is_dir GAMIN_EVENT_ENDEXISTS subp False s6 } });
              missing \<leftarrow> gam_node_has_pflag n MON_MISSING s5;
              let s6 = (if missing then gam_poll_generic_add_missing n s5 else s5);
                  s7 = gam_poll_generic_add n s6
              in Some (True, s7\<lparr>pl_running := True\<rparr>) } } }"

text \<open>The loop over the children of a directory whose subscription goes: nodes without subscriptions and
  children are removed until one is kept.\<close>

fun remove_children :: "cptr list \<Rightarrow> bool \<Rightarrow> 'b psrv_scheme \<Rightarrow> 'b psrv_scheme option" where
  "remove_children [] remove_dir s = Some s"
| "remove_children (child # children) remove_dir s =
     do { subs \<leftarrow> gam_node_get_subscriptions child s;
          has \<leftarrow> gam_tree_has_children child s;
          if subs = [] \<and> remove_dir \<and> \<not> has then
            do { (b, s1) \<leftarrow> gam_tree_remove child (gam_poll_generic_unregister_node child s);
                 remove_children children remove_dir s1 }
          else remove_children children False s }"

definition node_remove_directory_subscription ::
  "cptr \<Rightarrow> cptr \<Rightarrow> 'b psrv_scheme \<Rightarrow> (bool \<times> 'b psrv_scheme) option" where
  "node_remove_directory_subscription n subp s =
     do { s1 \<leftarrow> gam_node_remove_subscription n subp s;
          subs \<leftarrow> gam_node_get_subscriptions n s1;
          children \<leftarrow> gam_tree_get_children n s1;
          s2 \<leftarrow> remove_children children (subs = []) s1;
          subs2 \<leftarrow> gam_node_get_subscriptions n s2;
          if subs2 \<noteq> [] then Some (False, s2)
          else
            do { parent \<leftarrow> gam_node_parent n s2;
                 p \<leftarrow> parent;
                 has \<leftarrow> gam_node_has_dir_subscriptions p s2;
                 Some (\<not> has, s2) } }"

text \<open>The two branches of \<^verbatim>\<open>gam_poll_basic_remove_subscription\<close>, for the node of a file and of a directory.\<close>

definition remove_file_sub :: "cptr \<Rightarrow> cptr \<Rightarrow> 'b psrv_scheme \<Rightarrow> 'b psrv_scheme option" where
  "remove_file_sub n subp s =
     do { s1 \<leftarrow> gam_node_remove_subscription n subp s;
          subs \<leftarrow> gam_node_get_subscriptions n s1;
          if subs \<noteq> [] then Some s1
          else
            let s2 = gam_poll_generic_unregister_node n s1
            in do { has \<leftarrow> gam_tree_has_children n s2;
                    parent \<leftarrow> gam_node_parent n s2;
                    if has then None
                    else case parent of
                      None \<Rightarrow> Some s2
                    | Some p \<Rightarrow>
                        do { dirsubs \<leftarrow> gam_node_has_dir_subscriptions p s2;
                             if dirsubs then Some s2
                             else
                               do { (b, s3) \<leftarrow> gam_tree_remove n s2;
                                    gam_poll_generic_prune_tree p s3 } } } }"

definition remove_dir_sub :: "cptr \<Rightarrow> cptr \<Rightarrow> 'b psrv_scheme \<Rightarrow> 'b psrv_scheme option" where
  "remove_dir_sub n subp s =
     do { (remove, s1) \<leftarrow> node_remove_directory_subscription n subp s;
          if \<not> remove then Some s1
          else
            let s2 = gam_poll_generic_unregister_node n s1
            in do { parent \<leftarrow> gam_node_parent n s2;
                    has \<leftarrow> gam_tree_has_children n s2;
                    (b, s3) \<leftarrow> (if \<not> has then gam_tree_remove n s2 else Some (False, s2));
                    p \<leftarrow> parent;
                    gam_poll_generic_prune_tree p s3 } }"

definition gam_poll_basic_remove_subscription :: "cptr \<Rightarrow> 'b psrv_scheme \<Rightarrow> (bool \<times> 'b psrv_scheme) option" where
  "gam_poll_basic_remove_subscription subp s =
     do { sub \<leftarrow> sv_subs s subp;
          case gam_tree_get_at_path (sub_path sub) s of
            None \<Rightarrow> do { s1 \<leftarrow> gam_subscription_free subp s; Some (True, s1) }
          | Some n \<Rightarrow>
              let s0 = s\<lparr>sv_subs := (sv_subs s)(subp \<mapsto> gam_subscription_cancel sub)\<rparr>
              in do {
                is_dir \<leftarrow> gam_node_is_dir n s0;
                s4 \<leftarrow> (if \<not> is_dir then remove_file_sub n subp s0 else remove_dir_sub n subp s0);
                s5 \<leftarrow> gam_subscription_free subp s4;
                Some (True, s5) } }"

fun poll_remove_all :: "cptr list \<Rightarrow> 'b psrv_scheme \<Rightarrow> 'b psrv_scheme option" where
  "poll_remove_all [] s = Some s"
| "poll_remove_all (subp # subs) s =
     do { (b, s1) \<leftarrow> gam_poll_basic_remove_subscription subp s; poll_remove_all subs s1 }"

definition gam_poll_basic_remove_all_for :: "cptr \<Rightarrow> 'b psrv_scheme \<Rightarrow> (bool \<times> 'b psrv_scheme) option" where
  "gam_poll_basic_remove_all_for l s =
     do { subs \<leftarrow> gam_listener_get_subscriptions l s;
          s1 \<leftarrow> poll_remove_all subs s;
          Some (subs \<noteq> [], s1) }"

definition gam_poll_basic_init :: "fenv \<Rightarrow> 'b psrv_scheme hooks \<Rightarrow> 'b psrv_scheme \<Rightarrow> 'b psrv_scheme hooks \<times> 'b psrv_scheme" where
  "gam_poll_basic_init en hk s =
     (gam_server_install_poll_hooks (gam_poll_basic_add_subscription en) gam_poll_basic_remove_subscription
        gam_poll_basic_remove_all_for hk, gam_poll_generic_init en s)"

text \<open>The two loops of the timer. The lists may change in a round, so each round takes the element at the
  next index of the list as it is then; \<open>k\<close> bounds the rounds.\<close>

definition scan_resource :: "fenv \<Rightarrow> cptr \<Rightarrow> 'b psrv_scheme \<Rightarrow> 'b psrv_scheme option" where
  "scan_resource en n s =
     do { nd \<leftarrow> pl_nodes s n;
          if nd_is_dir nd
          then gam_poll_generic_scan_directory_internal en (gam_poll_basic_poll_file en) n s
          else do { (event, s1) \<leftarrow> gam_poll_basic_poll_file en n s; gam_node_emit_event n event s1 } }"

fun scan_all_loop :: "nat \<Rightarrow> fenv \<Rightarrow> nat \<Rightarrow> 'b psrv_scheme \<Rightarrow> 'b psrv_scheme option" where
  "scan_all_loop 0 en idx s = None"
| "scan_all_loop (Suc k) en idx s =
     (if idx < length (pl_all s)
      then do { s1 \<leftarrow> scan_resource en (pl_all s ! idx) s; scan_all_loop k en (Suc idx) s1 }
      else Some s)"

fun scan_missing_loop :: "nat \<Rightarrow> fenv \<Rightarrow> nat \<Rightarrow> 'b psrv_scheme \<Rightarrow> 'b psrv_scheme option" where
  "scan_missing_loop 0 en idx s = None"
| "scan_missing_loop (Suc k) en idx s =
     (if idx < length (pl_missing s)
      then
        let n = pl_missing s ! idx
        in do { s1 \<leftarrow> scan_resource en n s;
                missing \<leftarrow> gam_node_has_pflags n MON_MISSING s1;
                let s2 = (if \<not> missing then gam_poll_generic_add n (gam_poll_generic_remove_missing n s1) else s1)
                in scan_missing_loop k en (Suc idx) s2 }
      else Some s)"

definition gam_poll_basic_scan_callback :: "nat \<Rightarrow> fenv \<Rightarrow> 'b psrv_scheme \<Rightarrow> (bool \<times> 'b psrv_scheme) option" where
  "gam_poll_basic_scan_callback k en s =
     (let s0 = gam_poll_generic_update_time en s in
      do { s1 \<leftarrow> scan_all_loop k en 0 s0;
           s2 \<leftarrow> scan_missing_loop k en 0 s1;
           let did_something = pl_all s0 \<noteq> [] \<or> pl_missing s1 \<noteq> []
           in Some (did_something, if did_something then s2 else s2\<lparr>pl_running := False\<rparr>) })"

end
