(* ===== verification/Gam_Tree_Inv.thy ===== *)
theory Gam_Tree_Inv
  imports Gam_Node
begin

text \<open>
  The invariant of the node tree and of the subscriptions in it, and what every operation of
  \<^verbatim>\<open>server/gam_node.c\<close> and \<^verbatim>\<open>server/gam_tree.c\<close> keeps of it.
\<close>

section \<open>Emitting an event changes connections only\<close>

definition quiet :: "'b srv_scheme \<Rightarrow> 'b srv_scheme \<Rightarrow> bool" where
  "quiet s s' \<longleftrightarrow> sv_subs s' = sv_subs s \<and> sv_listeners s' = sv_listeners s \<and> srv.more s' = srv.more s \<and>
     (\<forall>p. map_option cn_fd (sv_conns s' p) = map_option cn_fd (sv_conns s p))"

lemma quiet_refl [simp]: "quiet s s"
  by (simp add: quiet_def)

lemma quiet_trans: "quiet s s' \<Longrightarrow> quiet s' s'' \<Longrightarrow> quiet s s''"
  by (simp add: quiet_def)

lemma quiet_world: "same_world s s' \<Longrightarrow> quiet s s'"
  by (simp add: quiet_def same_world_simps)

lemma send_event_quiet: "gam_send_event c r e p l s = Some (x, s') \<Longrightarrow> quiet s s'"
  using conn_write_loop_world [of s]
  by (auto simp: gam_send_event_def gam_client_conn_write_def intro!: quiet_world
      split: Option.bind_splits if_splits option.splits prod.splits)
     (metis snd_conv)+

lemma queue_event_quiet: "gam_queue_event c r e p l s = Some s' \<Longrightarrow> quiet s s'"
  by (auto simp: gam_queue_event_def quiet_def upd_conn_def split: Option.bind_splits)

lemma emit_one_quiet: "gam_server_emit_one_event p d e q f s = Some s' \<Longrightarrow> quiet s s'"
  by (auto simp: gam_server_emit_one_event_def dest: send_event_quiet queue_event_quiet
      split: Option.bind_splits if_splits option.splits)

lemma emit_quiet: "gam_server_emit_event p d e qs f s = Some s' \<Longrightarrow> quiet s s'"
  by (induction qs arbitrary: s)
     (auto dest!: emit_one_quiet intro: quiet_trans split: Option.bind_splits)

text \<open>A subscription that is there, with its listener and connection.\<close>

definition sub_linked :: "'b srv_scheme \<Rightarrow> string \<Rightarrow> cptr \<Rightarrow> bool" where
  "sub_linked s path q \<longleftrightarrow> (\<exists>sub l ls c. sv_subs s q = Some sub \<and> sub_path sub = path \<and>
     sub_listener sub = Some l \<and> sv_listeners s l = Some ls \<and>
     sv_conns s (ls_service ls) = Some c \<and> 0 \<le> cn_fd c)"

lemma map_option_fd: "map_option cn_fd x = map_option cn_fd y \<Longrightarrow>
    (\<exists>c. x = Some c \<and> 0 \<le> cn_fd c) \<longleftrightarrow> (\<exists>c. y = Some c \<and> 0 \<le> cn_fd c)"
  by (cases x; cases y) auto

lemma sub_linked_quiet: "quiet s s' \<Longrightarrow> sub_linked s' path q = sub_linked s path q"
proof -
  assume q: "quiet s s'"
  have "(\<exists>c. sv_conns s' p = Some c \<and> 0 \<le> cn_fd c) \<longleftrightarrow> (\<exists>c. sv_conns s p = Some c \<and> 0 \<le> cn_fd c)" for p
    using q by (intro map_option_fd) (simp add: quiet_def)
  then show ?thesis using q unfolding sub_linked_def quiet_def by simp
qed

lemma send_event_runs:
  "sv_conns s p = Some c \<Longrightarrow> 0 \<le> cn_fd c \<Longrightarrow>
     \<exists>r s'. gam_send_event p n e path (int (length path)) s = Some (r, s')"
  by (auto simp: gam_send_event_def split: option.split prod.split)

lemma emit_one_runs:
  assumes "sub_linked s sp q"
  shows "\<exists>s'. gam_server_emit_one_event p d e q f s = Some s'"
proof -
  obtain sub l ls c where q: "sv_subs s q = Some sub" "sub_listener sub = Some l"
      "sv_listeners s l = Some ls" "sv_conns s (ls_service ls) = Some c" "0 \<le> cn_fd c"
    using assms by (auto simp: sub_linked_def)
  obtain r s' where "gam_send_event (ls_service ls) (sub_reqno sub) e (event_subpath sub p)
      (int (length (event_subpath sub p))) s = Some (r, s')"
    using send_event_runs [OF q(4,5)] by blast
  with q show ?thesis by (auto simp: gam_server_emit_one_event_def gam_queue_event_def)
qed

lemma emit_runs:
  "(\<And>q. q \<in> set qs \<Longrightarrow> \<exists>sp. sub_linked s sp q) \<Longrightarrow> \<exists>s'. gam_server_emit_event p d e qs f s = Some s' \<and> quiet s s'"
proof (induction qs arbitrary: s)
  case (Cons q qs)
  obtain sp where "sub_linked s sp q" using Cons.prems [of q] by auto
  then obtain s1 where s1: "gam_server_emit_one_event p d e q f s = Some s1" using emit_one_runs by blast
  have "\<exists>s'. gam_server_emit_event p d e qs f s1 = Some s' \<and> quiet s1 s'"
    using Cons.prems sub_linked_quiet [OF emit_one_quiet [OF s1]] by (intro Cons.IH) auto
  then show ?case using s1 emit_one_quiet [OF s1] by (auto intro: quiet_trans)
qed simp

section \<open>The invariant\<close>

text \<open>The links of the tree: every node but the root hangs below an older node that lists it once, and
  the hash table holds exactly the nodes below the root.\<close>

definition tree_inv :: "'b psrv_scheme \<Rightarrow> bool" where
  "tree_inv s \<longleftrightarrow>
     (\<exists>r. pl_nodes s (pl_root s) = Some r \<and> nd_parent r = None) \<and>
     (\<forall>n nd. pl_nodes s n = Some nd \<longrightarrow> n < pl_nextnode s \<and> distinct (nd_children nd)) \<and>
     (\<forall>n nd. pl_nodes s n = Some nd \<and> n \<noteq> pl_root s \<longrightarrow> pl_hash s (nd_path nd) = Some n \<and>
        (\<exists>p pd. nd_parent nd = Some p \<and> p < n \<and> pl_nodes s p = Some pd \<and> n \<in> set (nd_children pd))) \<and>
     (\<forall>path n. pl_hash s path = Some n \<longrightarrow>
        n \<noteq> pl_root s \<and> (\<exists>nd. pl_nodes s n = Some nd \<and> nd_path nd = path)) \<and>
     (\<forall>n nd c. pl_nodes s n = Some nd \<and> c \<in> set (nd_children nd) \<longrightarrow>
        (\<exists>cd. pl_nodes s c = Some cd \<and> nd_parent cd = Some n))"

definition poll_inv :: "'b psrv_scheme \<Rightarrow> bool" where
  "poll_inv s \<longleftrightarrow> tree_inv s \<and>
     (\<forall>n nd. pl_nodes s n = Some nd \<longrightarrow> (n = pl_root s \<longrightarrow> nd_subs nd = []) \<and>
        distinct (nd_subs nd) \<and> (\<forall>q \<in> set (nd_subs nd). sub_linked s (nd_path nd) q)) \<and>
     set (pl_missing s) \<union> set (pl_busy s) \<union> set (pl_all s) \<subseteq> dom (pl_nodes s) \<and> distinct (pl_all s)"

lemma poll_tree: "poll_inv s \<Longrightarrow> tree_inv s"
  by (simp add: poll_inv_def)

lemma tree_root: "tree_inv s \<Longrightarrow> \<exists>r. pl_nodes s (pl_root s) = Some r \<and> nd_parent r = None"
  by (simp add: tree_inv_def)

lemma tree_node:
  assumes "tree_inv s" "pl_nodes s n = Some nd"
  shows "n < pl_nextnode s" "distinct (nd_children nd)"
  using assms by (auto simp: tree_inv_def)

lemma tree_below:
  assumes "tree_inv s" "pl_nodes s n = Some nd" "n \<noteq> pl_root s"
  shows "pl_hash s (nd_path nd) = Some n"
    "\<exists>p pd. nd_parent nd = Some p \<and> p < n \<and> pl_nodes s p = Some pd \<and> n \<in> set (nd_children pd)"
  using assms by (auto simp: tree_inv_def)

lemma tree_hash:
  assumes "tree_inv s" "pl_hash s path = Some n"
  shows "n \<noteq> pl_root s" "\<exists>nd. pl_nodes s n = Some nd \<and> nd_path nd = path"
  using assms by (auto simp: tree_inv_def)

lemma tree_child:
  assumes "tree_inv s" "pl_nodes s n = Some nd" "c \<in> set (nd_children nd)"
  shows "\<exists>cd. pl_nodes s c = Some cd \<and> nd_parent cd = Some n"
  using assms by (auto simp: tree_inv_def)

lemma tree_fresh: "tree_inv s \<Longrightarrow> pl_nodes s (pl_nextnode s) = None"
  using tree_node(1) [of s "pl_nextnode s"] by (cases "pl_nodes s (pl_nextnode s)") auto

lemma tree_parent_None:
  assumes "tree_inv s" "pl_nodes s n = Some nd"
  shows "nd_parent nd = None \<longleftrightarrow> n = pl_root s"
  using tree_root [OF assms(1)] tree_below(2) [OF assms] assms(2) by (cases "n = pl_root s") auto

lemma poll_sub:
  assumes "poll_inv s" "pl_nodes s n = Some nd"
  shows "distinct (nd_subs nd)" "q \<in> set (nd_subs nd) \<Longrightarrow> sub_linked s (nd_path nd) q"
    "n = pl_root s \<Longrightarrow> nd_subs nd = []"
  using assms by (auto simp: poll_inv_def)

lemma poll_lists:
  assumes "poll_inv s"
  shows "n \<in> set (pl_missing s) \<Longrightarrow> n \<in> dom (pl_nodes s)" "n \<in> set (pl_busy s) \<Longrightarrow> n \<in> dom (pl_nodes s)"
    "n \<in> set (pl_all s) \<Longrightarrow> n \<in> dom (pl_nodes s)" "distinct (pl_all s)"
  using assms by (auto simp: poll_inv_def)

section \<open>What keeps the invariant\<close>

lemma more_ext: "srv.more s' = srv.more s \<Longrightarrow> \<exists>a b c d e f g h i j k l. s' = s\<lparr>sv_subs := a, sv_listeners := b, sv_conns := c,
  sv_connlist := d, sv_next := e, sv_writes := f, sv_sent := g, sv_closed := h, sv_inotify := i, sv_no_timeout := j, sv_timeout := k, sv_exited := l\<rparr>"
  apply (rule exI [of _ "sv_subs s'"])
  apply (rule exI [of _ "sv_listeners s'"])
  apply (rule exI [of _ "sv_conns s'"])
  apply (rule exI [of _ "sv_connlist s'"])
  apply (rule exI [of _ "sv_next s'"])
  apply (rule exI [of _ "sv_writes s'"])
  apply (rule exI [of _ "sv_sent s'"])
  apply (rule exI [of _ "sv_closed s'"])
  apply (rule exI [of _ "sv_inotify s'"])
  apply (rule exI [of _ "sv_no_timeout s'"])
  apply (rule exI [of _ "sv_timeout s'"])
  apply (rule exI [of _ "sv_exited s'"])
  by (rule srv.equality) simp_all

lemma more_poll:
  fixes s :: "'b psrv_scheme"
  assumes "srv.more s' = srv.more s"
  shows "pl_nodes s' = pl_nodes s" "pl_nextnode s' = pl_nextnode s" "pl_root s' = pl_root s"
    "pl_hash s' = pl_hash s" "pl_missing s' = pl_missing s" "pl_busy s' = pl_busy s"
    "pl_all s' = pl_all s" "pl_time s' = pl_time s" "pl_running s' = pl_running s" "psrv.more s' = psrv.more s"
  using more_ext [OF assms] by auto
lemma quiet_poll:
  fixes s :: "'b psrv_scheme"
  assumes "quiet s s'"
  shows "pl_nodes s' = pl_nodes s" "pl_nextnode s' = pl_nextnode s" "pl_root s' = pl_root s"
    "pl_hash s' = pl_hash s" "pl_missing s' = pl_missing s" "pl_busy s' = pl_busy s"
    "pl_all s' = pl_all s" "pl_time s' = pl_time s" "pl_running s' = pl_running s"
proof -
  have "srv.more s' = srv.more s" using assms by (simp add: quiet_def)
  from more_poll [OF this] show "pl_nodes s' = pl_nodes s" "pl_nextnode s' = pl_nextnode s"
    "pl_root s' = pl_root s" "pl_hash s' = pl_hash s" "pl_missing s' = pl_missing s" "pl_busy s' = pl_busy s"
    "pl_all s' = pl_all s" "pl_time s' = pl_time s" "pl_running s' = pl_running s" by simp_all
qed

lemma poll_inv_quiet:
  assumes "quiet s s'" "poll_inv s"
  shows "poll_inv s'"
  using assms(2) unfolding poll_inv_def tree_inv_def quiet_poll [OF assms(1)] sub_linked_quiet [OF assms(1)] .

text \<open>Updates of a node that leave its path and its links alone, and those that leave also its
  subscriptions alone.\<close>

definition keeps_links :: "(GamNode \<Rightarrow> GamNode) \<Rightarrow> bool" where
  "keeps_links f \<longleftrightarrow> (\<forall>nd. nd_path (f nd) = nd_path nd \<and> nd_parent (f nd) = nd_parent nd \<and>
     nd_children (f nd) = nd_children nd)"

definition payload :: "(GamNode \<Rightarrow> GamNode) \<Rightarrow> bool" where
  "payload f \<longleftrightarrow> keeps_links f \<and> (\<forall>nd. nd_subs (f nd) = nd_subs nd)"

lemma upd_node_simps [simp]:
  "pl_nodes (upd_node n f s) = (pl_nodes s)(n := map_option f (pl_nodes s n))"
  "pl_nextnode (upd_node n f s) = pl_nextnode s" "pl_root (upd_node n f s) = pl_root s"
  "pl_hash (upd_node n f s) = pl_hash s" "pl_missing (upd_node n f s) = pl_missing s"
  "pl_busy (upd_node n f s) = pl_busy s" "pl_all (upd_node n f s) = pl_all s"
  "pl_time (upd_node n f s) = pl_time s" "sv_subs (upd_node n f s) = sv_subs s"
  "sv_listeners (upd_node n f s) = sv_listeners s" "sv_conns (upd_node n f s) = sv_conns s"
  by (simp_all add: upd_node_def)

lemma sub_linked_upd_node [simp]: "sub_linked (upd_node n f s) path q = sub_linked s path q"
  by (simp add: sub_linked_def)

lemma links_node:
  assumes "keeps_links f" "pl_nodes (upd_node n f s) m = Some nd'"
  obtains nd where "pl_nodes s m = Some nd" "nd_path nd' = nd_path nd" "nd_parent nd' = nd_parent nd"
    "nd_children nd' = nd_children nd" "nd' = (if m = n then f nd else nd)"
  using assms that by (fastforce simp: keeps_links_def split: if_splits)

lemma tree_inv_links:
  assumes f: "keeps_links f" and inv: "tree_inv s"
  shows "tree_inv (upd_node n f s)"
proof -
  let ?t = "upd_node n f s"
  have up: "\<exists>nd'. pl_nodes ?t m = Some nd' \<and> nd_path nd' = nd_path nd \<and> nd_parent nd' = nd_parent nd \<and>
      nd_children nd' = nd_children nd" if "pl_nodes s m = Some nd" for m nd
    using that f by (auto simp: keeps_links_def)
  show ?thesis
    unfolding tree_inv_def
  proof (intro conjI allI impI)
    show "\<exists>r. pl_nodes ?t (pl_root ?t) = Some r \<and> nd_parent r = None"
      using tree_root [OF inv] up by fastforce
  next
    fix m nd' assume a: "pl_nodes ?t m = Some nd'"
    obtain nd where nd: "pl_nodes s m = Some nd" "nd_children nd' = nd_children nd"
      by (rule links_node [OF f a])
    show "m < pl_nextnode ?t" "distinct (nd_children nd')"
      using tree_node [OF inv nd(1)] nd(2) by simp_all
  next
    fix m nd' assume a: "pl_nodes ?t m = Some nd' \<and> m \<noteq> pl_root ?t"
    obtain nd where nd: "pl_nodes s m = Some nd" "nd_path nd' = nd_path nd" "nd_parent nd' = nd_parent nd"
      by (rule links_node [OF f conjunct1 [OF a]])
    show "pl_hash ?t (nd_path nd') = Some m" using tree_below(1) [OF inv nd(1)] nd(2) a by simp
    obtain p pd where p: "nd_parent nd = Some p" "p < m" "pl_nodes s p = Some pd" "m \<in> set (nd_children pd)"
      using tree_below(2) [OF inv nd(1)] a by auto
    with up [OF p(3)] nd(3)
    show "\<exists>p pd. nd_parent nd' = Some p \<and> p < m \<and> pl_nodes ?t p = Some pd \<and> m \<in> set (nd_children pd)" by metis
  next
    fix path m assume a: "pl_hash ?t path = Some m"
    then have h: "pl_hash s path = Some m" by simp
    show "m \<noteq> pl_root ?t" using tree_hash(1) [OF inv h] by simp
    show "\<exists>nd. pl_nodes ?t m = Some nd \<and> nd_path nd = path" using tree_hash(2) [OF inv h] up by metis
  next
    fix m nd' c assume a: "pl_nodes ?t m = Some nd' \<and> c \<in> set (nd_children nd')"
    obtain nd where nd: "pl_nodes s m = Some nd" "nd_children nd' = nd_children nd"
      by (rule links_node [OF f conjunct1 [OF a]])
    show "\<exists>cd. pl_nodes ?t c = Some cd \<and> nd_parent cd = Some m"
      using tree_child [OF inv nd(1), of c] a nd(2) up by metis
  qed
qed

lemma poll_inv_links:
  assumes f: "keeps_links f" and inv: "poll_inv s"
    and subs: "\<And>nd. pl_nodes s n = Some nd \<Longrightarrow> (n = pl_root s \<longrightarrow> nd_subs (f nd) = []) \<and>
      distinct (nd_subs (f nd)) \<and> (\<forall>q \<in> set (nd_subs (f nd)). sub_linked s (nd_path nd) q)"
  shows "poll_inv (upd_node n f s)"
proof -
  have "(m = pl_root (upd_node n f s) \<longrightarrow> nd_subs nd' = []) \<and> distinct (nd_subs nd') \<and>
      (\<forall>q \<in> set (nd_subs nd'). sub_linked (upd_node n f s) (nd_path nd') q)"
    if a: "pl_nodes (upd_node n f s) m = Some nd'" for m nd'
  proof -
    obtain nd where nd: "pl_nodes s m = Some nd" "nd_path nd' = nd_path nd" "nd' = (if m = n then f nd else nd)"
      by (rule links_node [OF f a])
    show ?thesis using poll_sub [OF inv nd(1)] subs nd by (cases "m = n") auto
  qed
  then show ?thesis
    using tree_inv_links [OF f poll_tree [OF inv], of n] inv by (auto simp: poll_inv_def)
qed

lemma poll_inv_payload: "payload f \<Longrightarrow> poll_inv s \<Longrightarrow> poll_inv (upd_node n f s)"
  using poll_sub [of s n] by (auto simp: payload_def intro!: poll_inv_links)

section \<open>Adding a node\<close>

text \<open>What scanning does to the tree: nodes are added, the ones that are there keep their place and their
  subscriptions, new nodes have none.\<close>

definition grows :: "'b psrv_scheme \<Rightarrow> 'b psrv_scheme \<Rightarrow> bool" where
  "grows s s' \<longleftrightarrow> sv_subs s' = sv_subs s \<and> sv_listeners s' = sv_listeners s \<and>
     (\<forall>p. map_option cn_fd (sv_conns s' p) = map_option cn_fd (sv_conns s p)) \<and>
     pl_root s' = pl_root s \<and> pl_hash s \<subseteq>\<^sub>m pl_hash s' \<and>
     (\<forall>n nd. pl_nodes s n = Some nd \<longrightarrow> (\<exists>nd'. pl_nodes s' n = Some nd' \<and> nd_path nd' = nd_path nd \<and>
        nd_parent nd' = nd_parent nd \<and> nd_subs nd' = nd_subs nd)) \<and>
     (\<forall>n nd'. pl_nodes s n = None \<and> pl_nodes s' n = Some nd' \<longrightarrow> nd_subs nd' = [])"

lemma grows_refl [simp]: "grows s s"
  by (auto simp: grows_def)

lemma grows_trans: "grows s s' \<Longrightarrow> grows s' s'' \<Longrightarrow> grows s s''"
proof -
  assume a: "grows s s'" and b: "grows s' s''"
  have "nd_subs nd'' = []" if "pl_nodes s n = None" "pl_nodes s'' n = Some nd''" for n nd''
    using a b that by (cases "pl_nodes s' n") (fastforce simp: grows_def)+
  moreover have "\<exists>nd''. pl_nodes s'' n = Some nd'' \<and> nd_path nd'' = nd_path nd \<and>
      nd_parent nd'' = nd_parent nd \<and> nd_subs nd'' = nd_subs nd" if "pl_nodes s n = Some nd" for n nd
    using a b that by (fastforce simp: grows_def)
  moreover have "pl_hash s \<subseteq>\<^sub>m pl_hash s''" using a b by (auto simp: grows_def intro: map_le_trans)
  moreover have "sv_subs s'' = sv_subs s" "sv_listeners s'' = sv_listeners s" "pl_root s'' = pl_root s"
      "map_option cn_fd (sv_conns s'' p) = map_option cn_fd (sv_conns s p)" for p
    using a b by (simp_all add: grows_def)
  ultimately show ?thesis unfolding grows_def by blast
qed

lemma grows_quiet:
  fixes s :: "'b psrv_scheme"
  assumes "quiet s s'"
  shows "grows s s'"
  using assms by (auto simp: grows_def quiet_poll [OF assms] quiet_def)

lemma grows_payload: "payload f \<Longrightarrow> grows s (upd_node n f s)"
  by (auto simp: grows_def payload_def keeps_links_def)

lemma grows_node:
  assumes "grows s s'" "pl_nodes s n = Some nd"
  obtains nd' where "pl_nodes s' n = Some nd'" "nd_path nd' = nd_path nd" "nd_parent nd' = nd_parent nd"
    "nd_subs nd' = nd_subs nd"
  using assms unfolding grows_def by blast

lemma sub_linked_grows: "grows s s' \<Longrightarrow> sub_linked s' path q = sub_linked s path q"
proof -
  assume q: "grows s s'"
  have "(\<exists>c. sv_conns s' p = Some c \<and> 0 \<le> cn_fd c) \<longleftrightarrow> (\<exists>c. sv_conns s p = Some c \<and> 0 \<le> cn_fd c)" for p
    using q by (intro map_option_fd) (simp add: grows_def)
  then show ?thesis using q unfolding sub_linked_def grows_def by simp
qed

lemma alloc_node_simps [simp]:
  "fst (alloc_node nd s) = pl_nextnode s" "pl_nodes (snd (alloc_node nd s)) = (pl_nodes s)(pl_nextnode s \<mapsto> nd)"
  "upd_node (pl_nextnode s) f (snd (alloc_node nd s)) = snd (alloc_node (f nd) s)"
  by (simp_all add: alloc_node_def upd_node_def)

text \<open>The state after a new node is hung below another.\<close>

definition hang :: "cptr \<Rightarrow> GamNode \<Rightarrow> 'b psrv_scheme \<Rightarrow> 'b psrv_scheme" where
  "hang p nd s = s\<lparr>pl_nodes := (pl_nodes s)(pl_nextnode s \<mapsto> nd\<lparr>nd_parent := Some p, nd_children := []\<rparr>,
       p := map_option (\<lambda>pd. pd\<lparr>nd_children := nd_children pd @ [pl_nextnode s]\<rparr>) (pl_nodes s p)),
     pl_nextnode := Suc (pl_nextnode s), pl_hash := (pl_hash s)(nd_path nd \<mapsto> pl_nextnode s)\<rparr>"

lemma hang_simps [simp]:
  "pl_nextnode (hang p nd s) = Suc (pl_nextnode s)" "pl_root (hang p nd s) = pl_root s"
  "pl_hash (hang p nd s) = (pl_hash s)(nd_path nd \<mapsto> pl_nextnode s)"
  "pl_missing (hang p nd s) = pl_missing s" "pl_busy (hang p nd s) = pl_busy s" "pl_all (hang p nd s) = pl_all s"
  "pl_time (hang p nd s) = pl_time s" "sv_subs (hang p nd s) = sv_subs s"
  "sv_listeners (hang p nd s) = sv_listeners s" "sv_conns (hang p nd s) = sv_conns s"
  "sub_linked (hang p nd s) path q = sub_linked s path q"
  by (simp_all add: hang_def sub_linked_def)

lemma tree_add_new:
  assumes "tree_inv s" "pl_nodes s p = Some pd" "pl_hash s (nd_path nd) = None"
  shows "gam_tree_add p (pl_nextnode s) (snd (alloc_node nd s)) = Some (True, hang p nd s)"
proof -
  have "pl_nextnode s \<noteq> p" using tree_node(1) [OF assms(1,2)] by simp
  then show ?thesis using assms(2,3)
    by (simp add: gam_tree_add_def alloc_node_def upd_node_def hang_def fun_upd_twist)
qed

lemma hang_nodes:
  assumes "tree_inv s" "pl_nodes s p = Some pd"
  shows "pl_nodes (hang p nd s) m =
    (if m = pl_nextnode s then Some (nd\<lparr>nd_parent := Some p, nd_children := []\<rparr>)
     else if m = p then Some (pd\<lparr>nd_children := nd_children pd @ [pl_nextnode s]\<rparr>)
     else pl_nodes s m)"
proof -
  have "pl_nextnode s \<noteq> p" using tree_node(1) [OF assms] by simp
  then show ?thesis using assms(2) by (simp add: hang_def)
qed

lemma hang_old:
  assumes "tree_inv s" "pl_nodes s p = Some pd" "pl_nodes s m = Some md"
  shows "\<exists>md'. pl_nodes (hang p nd s) m = Some md' \<and> nd_path md' = nd_path md \<and> nd_parent md' = nd_parent md \<and>
    nd_subs md' = nd_subs md \<and> set (nd_children md) \<subseteq> set (nd_children md')"
  using tree_node(1) [OF assms(1,3)] assms(2,3) hang_nodes [OF assms(1,2)] by auto

lemma hang_tree_inv:
  assumes inv: "tree_inv s" and p: "pl_nodes s p = Some pd" and h: "pl_hash s (nd_path nd) = None"
  shows "tree_inv (hang p nd s)"
proof -
  let ?t = "hang p nd s" and ?n = "pl_nextnode s"
  note nodes = hang_nodes [OF inv p]
  have old: "m \<noteq> ?n" if "pl_nodes s m = Some md" for m md using tree_node(1) [OF inv that] by simp
  have root: "pl_root s \<noteq> ?n" using tree_root [OF inv] old by auto
  have cs: "c \<noteq> ?n" if "pl_nodes s m = Some md" "c \<in> set (nd_children md)" for m md c
    using tree_child [OF inv that] old by auto
  show ?thesis
    unfolding tree_inv_def
  proof (intro conjI allI impI)
    show "\<exists>r. pl_nodes ?t (pl_root ?t) = Some r \<and> nd_parent r = None"
      using tree_root [OF inv] hang_old [OF inv p] by fastforce
  next
    fix m md assume a: "pl_nodes ?t m = Some md"
    show "m < pl_nextnode ?t"
      using a p tree_node(1) [OF inv] by (fastforce simp: nodes less_Suc_eq split: if_splits)
    show "distinct (nd_children md)"
      using a p tree_node(2) [OF inv] cs [OF p, of "?n"] by (auto simp: nodes split: if_splits)
  next
    fix m md assume a: "pl_nodes ?t m = Some md \<and> m \<noteq> pl_root ?t"
    show "pl_hash ?t (nd_path md) = Some m"
    proof (cases "m = ?n")
      case True
      then show ?thesis using a by (auto simp: nodes)
    next
      case False
      then obtain md0 where "pl_nodes s m = Some md0" "nd_path md = nd_path md0"
        using a p by (auto simp: nodes split: if_splits)
      with tree_below(1) [OF inv this(1)] a h show ?thesis by auto
    qed
    show "\<exists>q qd. nd_parent md = Some q \<and> q < m \<and> pl_nodes ?t q = Some qd \<and> m \<in> set (nd_children qd)"
    proof (cases "m = ?n")
      case True
      then show ?thesis using a p tree_node(1) [OF inv p] by (auto simp: nodes)
    next
      case False
      then obtain md0 where md0: "pl_nodes s m = Some md0" "nd_parent md = nd_parent md0"
        using a p by (auto simp: nodes split: if_splits)
      obtain q qd where q: "nd_parent md0 = Some q" "q < m" "pl_nodes s q = Some qd" "m \<in> set (nd_children qd)"
        using tree_below(2) [OF inv md0(1)] a by auto
      with hang_old [OF inv p q(3)] md0(2) show ?thesis by fastforce
    qed
  next
    fix path m assume a: "pl_hash ?t path = Some m"
    show "m \<noteq> pl_root ?t" using a root tree_hash(1) [OF inv] by (auto split: if_splits)
    show "\<exists>md. pl_nodes ?t m = Some md \<and> nd_path md = path"
    proof (cases "path = nd_path nd")
      case True
      then show ?thesis using a by (auto simp: nodes)
    next
      case False
      then obtain md where "pl_nodes s m = Some md" "nd_path md = path"
        using a tree_hash(2) [OF inv] by fastforce
      with hang_old [OF inv p this(1)] show ?thesis by fastforce
    qed
  next
    fix m md c assume a: "pl_nodes ?t m = Some md \<and> c \<in> set (nd_children md)"
    show "\<exists>cd. pl_nodes ?t c = Some cd \<and> nd_parent cd = Some m"
    proof (cases "c = ?n")
      case True
      have "m = p"
        using a p cs True by (auto simp: nodes split: if_splits)
      then show ?thesis using True by (simp add: nodes)
    next
      case False
      then obtain md0 where md0: "pl_nodes s m = Some md0" "c \<in> set (nd_children md0)"
        using a p by (auto simp: nodes split: if_splits)
      obtain cd where "pl_nodes s c = Some cd" "nd_parent cd = Some m"
        using tree_child [OF inv md0] by auto
      with hang_old [OF inv p this(1)] show ?thesis by fastforce
    qed
  qed
qed

lemma hang_grows:
  assumes inv: "tree_inv s" and p: "pl_nodes s p = Some pd" and h: "pl_hash s (nd_path nd) = None"
    and "nd_subs nd = []"
  shows "grows s (hang p nd s)"
proof -
  have "pl_hash s \<subseteq>\<^sub>m (pl_hash s)(nd_path nd \<mapsto> pl_nextnode s)"
    using h by (auto simp: map_le_def)
  moreover have "nd_subs md = []" if "pl_nodes s m = None" "pl_nodes (hang p nd s) m = Some md" for m md
    using that p assms(4) by (auto simp: hang_nodes [OF inv p] split: if_splits)
  moreover have "\<exists>md'. pl_nodes (hang p nd s) m = Some md' \<and> nd_path md' = nd_path md \<and>
      nd_parent md' = nd_parent md \<and> nd_subs md' = nd_subs md" if "pl_nodes s m = Some md" for m md
    using hang_old [OF inv p that, of nd] by blast
  ultimately show ?thesis
    unfolding grows_def hang_simps by blast
qed

lemma poll_inv_grows:
  assumes inv: "poll_inv s" and g: "grows s s'" and t: "tree_inv s'"
    and lists: "pl_missing s' = pl_missing s" "pl_busy s' = pl_busy s" "pl_all s' = pl_all s"
  shows "poll_inv s'"
  unfolding poll_inv_def
proof (intro conjI allI impI t)
  fix n nd' assume a: "pl_nodes s' n = Some nd'"
  have "(n = pl_root s' \<longrightarrow> nd_subs nd' = []) \<and> distinct (nd_subs nd') \<and>
      (\<forall>q \<in> set (nd_subs nd'). sub_linked s' (nd_path nd') q)"
  proof (cases "pl_nodes s n")
    case None
    then show ?thesis using g a by (auto simp: grows_def)
  next
    case (Some nd)
    obtain nd'' where "pl_nodes s' n = Some nd''" "nd_path nd'' = nd_path nd" "nd_subs nd'' = nd_subs nd"
      by (rule grows_node [OF g Some])
    then show ?thesis using a poll_sub [OF inv Some] sub_linked_grows [OF g] g by (simp add: grows_def)
  qed
  then show "n = pl_root s' \<Longrightarrow> nd_subs nd' = []" "distinct (nd_subs nd')" "\<forall>q \<in> set (nd_subs nd'). sub_linked s' (nd_path nd') q" by blast+
next
  have "dom (pl_nodes s) \<subseteq> dom (pl_nodes s')" using grows_node [OF g] by blast
  then show "set (pl_missing s') \<union> set (pl_busy s') \<union> set (pl_all s') \<subseteq> dom (pl_nodes s')"
    using inv unfolding lists poll_inv_def by (meson subset_trans)
  show "distinct (pl_all s')" using inv lists by (simp add: poll_inv_def)
qed

lemma poll_add_new:
  assumes "poll_inv s" "pl_nodes s p = Some pd" "pl_hash s (nd_path nd) = None" "nd_subs nd = []"
  shows "gam_tree_add p (pl_nextnode s) (snd (alloc_node nd s)) = Some (True, hang p nd s)"
    "poll_inv (hang p nd s)" "grows s (hang p nd s)"
    "pl_nodes (hang p nd s) (pl_nextnode s) = Some (nd\<lparr>nd_parent := Some p, nd_children := []\<rparr>)"
proof -
  note t = poll_tree [OF assms(1)]
  show "gam_tree_add p (pl_nextnode s) (snd (alloc_node nd s)) = Some (True, hang p nd s)"
    by (rule tree_add_new [OF t assms(2,3)])
  show g: "grows s (hang p nd s)" by (rule hang_grows [OF t assms(2-4)])
  show "poll_inv (hang p nd s)"
    by (rule poll_inv_grows [OF assms(1) g hang_tree_inv [OF t assms(2,3)]]) simp_all
  show "pl_nodes (hang p nd s) (pl_nextnode s) = Some (nd\<lparr>nd_parent := Some p, nd_children := []\<rparr>)"
    by (simp add: hang_nodes [OF t assms(2)])
qed

section \<open>Adding a path\<close>

text \<open>The positions of a path at which the name of a directory above it ends.\<close>

definition dir_ends :: "string \<Rightarrow> nat list \<Rightarrow> nat list" where
  "dir_ends path is = filter (\<lambda>i. path ! i = CHR ''/'') is"

lemma grows_hash: "grows s s' \<Longrightarrow> pl_hash s q = Some n \<Longrightarrow> pl_hash s' q = Some n"
  unfolding grows_def map_le_def by (metis domI)

lemma add_parents_spec:
  assumes "poll_inv s" "pl_nodes s parent \<noteq> None"
  shows "\<exists>p s'. add_parents en path is parent s = Some (p, s') \<and> poll_inv s' \<and> grows s s' \<and>
    pl_nodes s' p \<noteq> None \<and>
    (\<forall>i \<in> set (dir_ends path is). pl_hash s' (take i path) \<noteq> None) \<and>
    (\<forall>q. pl_hash s q = None \<and> pl_hash s' q \<noteq> None \<longrightarrow> (\<exists>i \<in> set (dir_ends path is). q = take i path)) \<and>
    Some p = (if dir_ends path is = [] then Some parent else pl_hash s' (take (last (dir_ends path is)) path))"
  using assms
proof (induction "is" arbitrary: s parent)
  case Nil
  then show ?case by (auto simp: dir_ends_def)
next
  case (Cons i "is")
  show ?case
  proof (cases "path ! i = CHR ''/''")
    case False
    then have e: "dir_ends path (i # is) = dir_ends path is"
      "add_parents en path (i # is) parent s = add_parents en path is parent s" by (simp_all add: dir_ends_def)
    show ?thesis unfolding e by (rule Cons.IH [OF Cons.prems])
  next
    case True
    then have ends: "dir_ends path (i # is) = i # dir_ends path is" by (simp add: dir_ends_def)
    obtain q s1 where q: "add_parents en path (i # is) parent s = add_parents en path is q s1" "poll_inv s1"
        "grows s s1" "pl_hash s1 (take i path) = Some q" "pl_nodes s1 q \<noteq> None"
        "\<forall>r. pl_hash s r = None \<and> pl_hash s1 r \<noteq> None \<longrightarrow> r = take i path"
    proof (cases "pl_hash s (take i path)")
      case (Some q)
      show ?thesis
        by (rule that [of q s])
           (use Some True Cons.prems(1) tree_hash(2) [OF poll_tree [OF Cons.prems(1)] Some]
             in \<open>auto simp: gam_tree_get_at_path_def\<close>)
    next
      case None
      let ?nd = "gam_node_new en (take i path) None True"
      obtain pd where pd: "pl_nodes s parent = Some pd" using Cons.prems(2) by auto
      have nd: "pl_hash s (nd_path ?nd) = None" "nd_subs ?nd = []" using None by (simp_all add: gam_node_new_def)
      note new = poll_add_new [OF Cons.prems(1) pd nd]
      have path: "nd_path ?nd = take i path" by (simp add: gam_node_new_def)
      show ?thesis
      proof (rule that [of "pl_nextnode s" "hang parent ?nd s"])
        show "add_parents en path (i # is) parent s = add_parents en path is (pl_nextnode s) (hang parent ?nd s)"
          using True None new(1) by (simp add: gam_tree_get_at_path_def split_beta)
      qed (use new path in auto)
    qed
    obtain p s' where s': "add_parents en path is q s1 = Some (p, s')" "poll_inv s'" "grows s1 s'"
        "pl_nodes s' p \<noteq> None" "\<forall>i \<in> set (dir_ends path is). pl_hash s' (take i path) \<noteq> None"
        "\<forall>r. pl_hash s1 r = None \<and> pl_hash s' r \<noteq> None \<longrightarrow> (\<exists>i \<in> set (dir_ends path is). r = take i path)"
        "Some p = (if dir_ends path is = [] then Some q else pl_hash s' (take (last (dir_ends path is)) path))"
      using Cons.IH [OF q(2,5)] by blast
    have h: "pl_hash s' (take i path) = Some q" by (rule grows_hash [OF s'(3) q(4)])
    have "\<exists>j \<in> set (dir_ends path (i # is)). r = take j path" if "pl_hash s r = None" "pl_hash s' r \<noteq> None" for r
      using that q(6) s'(6) ends by (cases "pl_hash s1 r = None") auto
    moreover have "Some p = pl_hash s' (take (last (dir_ends path (i # is))) path)"
      using s'(7) h ends by (simp split: if_splits)
    ultimately show ?thesis
      using q(1) s'(1,2,4,5) h ends grows_trans [OF q(3) s'(3)]
      by (intro exI [of _ p] exI [of _ s']) auto
  qed
qed

lemma root_node: "poll_inv s \<Longrightarrow> pl_nodes s (pl_root s) \<noteq> None"
  using tree_root [OF poll_tree] by blast

lemma take_prefix_neq: "i \<in> set (dir_ends path [1..<length path]) \<Longrightarrow> take i path \<noteq> path"
proof
  assume i: "i \<in> set (dir_ends path [1..<length path])" and e: "take i path = path"
  have "length (take i path) = length path" using e by simp
  then show False using i by (simp add: dir_ends_def)
qed

lemma add_at_path_spec:
  assumes inv: "poll_inv s" and path: "path \<noteq> []"
  shows "\<exists>n s'. gam_tree_add_at_path en path d s = Some (Some n, s') \<and> poll_inv s' \<and> grows s s' \<and>
    pl_hash s' path = Some n \<and> (\<exists>nd. pl_nodes s' n = Some nd) \<and>
    (pl_hash s path = None \<longrightarrow> pl_nodes s n = None \<and> (\<forall>i \<in> set (dir_ends path [1..<length path]). pl_hash s' (take i path) \<noteq> None) \<and>
       gam_node_parent n s' = Some (if dir_ends path [1..<length path] = [] then Some (pl_root s)
         else pl_hash s' (take (last (dir_ends path [1..<length path])) path))) \<and>
    (\<forall>q. pl_hash s q = None \<and> pl_hash s' q \<noteq> None \<longrightarrow>
       q = path \<or> (\<exists>i \<in> set (dir_ends path [1..<length path]). q = take i path))"
proof (cases "pl_hash s path")
  case (Some n)
  then show ?thesis using inv path tree_hash(2) [OF poll_tree [OF inv] Some]
    by (intro exI [of _ n] exI [of _ s]) (auto simp: gam_tree_add_at_path_def gam_tree_get_at_path_def)
next
  case None
  let ?d = "if file_exists en path then file_is_dir en path else d"
  let ?ends = "dir_ends path [1..<length path]"
  let ?nd = "gam_node_new en path None ?d"
  obtain p s1 where s1: "add_parents en path [1..<length path] (pl_root s) s = Some (p, s1)" "poll_inv s1"
      "grows s s1" "pl_nodes s1 p \<noteq> None" "\<forall>i \<in> set ?ends. pl_hash s1 (take i path) \<noteq> None"
      "\<forall>q. pl_hash s q = None \<and> pl_hash s1 q \<noteq> None \<longrightarrow> (\<exists>i \<in> set ?ends. q = take i path)"
      "Some p = (if ?ends = [] then Some (pl_root s) else pl_hash s1 (take (last ?ends) path))"
    using add_parents_spec [OF inv root_node [OF inv], of en path "[1..<length path]"] by blast
  have h: "pl_hash s1 path = None" using s1(6) None take_prefix_neq by metis
  obtain pd where pd: "pl_nodes s1 p = Some pd" using s1(4) by auto
  have nd: "pl_hash s1 (nd_path ?nd) = None" "nd_subs ?nd = []" "nd_path ?nd = path"
    using h by (simp_all add: gam_node_new_def)
  note new = poll_add_new [OF s1(2) pd nd(1,2)]
  let ?s' = "hang p ?nd s1"
  have run: "gam_tree_add_at_path en path d s = Some (Some (pl_nextnode s1), ?s')"
    using None path s1(1) new(1)
    by (cases "file_exists en path")
       (simp_all add: gam_tree_add_at_path_def gam_tree_get_at_path_def split_beta)
  have fresh: "pl_nodes s (pl_nextnode s1) = None"
  proof (cases "pl_nodes s (pl_nextnode s1)")
    case (Some x)
    then have "pl_nodes s1 (pl_nextnode s1) \<noteq> None" using grows_node [OF s1(3) Some] by auto
    then show ?thesis using tree_fresh [OF poll_tree [OF s1(2)]] by simp
  qed
  have ends: "pl_hash ?s' (take i path) = pl_hash s1 (take i path)" if "i \<in> set ?ends" for i
    using take_prefix_neq [OF that] nd(3) by simp
  have par: "gam_node_parent (pl_nextnode s1) ?s' = Some (if ?ends = [] then Some (pl_root s)
      else pl_hash ?s' (take (last ?ends) path))"
  proof (cases "?ends = []")
    case True
    then show ?thesis using new(4) s1(7) by (simp add: gam_node_parent_def)
  next
    case False
    then have "last ?ends \<in> set ?ends" by simp
    then show ?thesis using new(4) s1(7) False ends by (simp add: gam_node_parent_def)
  qed
  show ?thesis
  proof (intro exI [of _ "pl_nextnode s1"] exI [of _ ?s'] conjI impI ballI allI)
    show "grows s ?s'" by (rule grows_trans [OF s1(3) new(3)])
    show "pl_hash ?s' (take i path) \<noteq> None" if "i \<in> set ?ends" for i
      using ends [OF that] s1(5) that by simp
    show "q = path \<or> (\<exists>i \<in> set ?ends. q = take i path)" if "pl_hash s q = None \<and> pl_hash ?s' q \<noteq> None" for q
      using that s1(6) nd(3) by (auto split: if_splits)
  qed (use run new fresh nd(3) par in simp_all)
qed

section \<open>Removing a node\<close>

lemma ancestor_root:
  assumes "tree_inv s" "pl_nodes s n = Some nd" "n \<noteq> pl_root s" "n \<le> k"
  shows "is_ancestor k (pl_root s) n s"
  using assms(2-4)
proof (induction k arbitrary: n nd)
  case 0
  then show ?case using tree_below(2) [OF assms(1) 0(1,2)] by auto
next
  case (Suc k)
  obtain p pd where "nd_parent nd = Some p" "p < n" "pl_nodes s p = Some pd"
    using tree_below(2) [OF assms(1) Suc.prems(1,2)] by auto
  then show ?case using Suc.IH [of p pd] Suc.prems by (cases "p = pl_root s") auto
qed

text \<open>The state after a leaf was taken off the tree and freed.\<close>

definition cut :: "cptr \<Rightarrow> GamNode \<Rightarrow> 'b psrv_scheme \<Rightarrow> 'b psrv_scheme" where
  "cut n nd s = s\<lparr>pl_hash := (pl_hash s)(nd_path nd := None),
     pl_nodes := (pl_nodes s)(the (nd_parent nd) := map_option (\<lambda>pd. pd\<lparr>nd_children := remove1 n (nd_children pd)\<rparr>)
       (pl_nodes s (the (nd_parent nd))), n := None)\<rparr>"

lemma cut_simps [simp]:
  "pl_nextnode (cut n nd s) = pl_nextnode s" "pl_root (cut n nd s) = pl_root s"
  "pl_hash (cut n nd s) = (pl_hash s)(nd_path nd := None)"
  "pl_missing (cut n nd s) = pl_missing s" "pl_busy (cut n nd s) = pl_busy s" "pl_all (cut n nd s) = pl_all s"
  "pl_time (cut n nd s) = pl_time s" "sv_subs (cut n nd s) = sv_subs s"
  "sv_listeners (cut n nd s) = sv_listeners s" "sv_conns (cut n nd s) = sv_conns s"
  "sub_linked (cut n nd s) path q = sub_linked s path q"
  by (simp_all add: cut_def sub_linked_def)

lemma tree_remove_leaf:
  assumes inv: "tree_inv s" and n: "pl_nodes s n = Some nd" "n \<noteq> pl_root s"
    and "nd_children nd = []" "nd_subs nd = []"
  shows "gam_tree_remove n s = Some (True, cut n nd s)"
proof -
  obtain p pd where p: "nd_parent nd = Some p" "p < n" "pl_nodes s p = Some pd"
    using tree_below(2) [OF inv n] by auto
  have "is_ancestor (pl_nextnode s) (pl_root s) n s"
    using tree_node(1) [OF inv n(1)] by (intro ancestor_root [OF inv n]) simp
  then show ?thesis
    using n p assms(4,5) by (simp add: gam_tree_remove_def gam_node_free_def cut_def upd_node_def)
qed

lemma cut_tree_inv:
  assumes inv: "tree_inv s" and n: "pl_nodes s n = Some nd" "n \<noteq> pl_root s" and leaf: "nd_children nd = []"
  shows "tree_inv (cut n nd s)"
proof -
  let ?t = "cut n nd s"
  obtain p pd where p: "nd_parent nd = Some p" "p < n" "pl_nodes s p = Some pd"
    using tree_below(2) [OF inv n] by auto
  have nodes: "pl_nodes ?t m = (if m = n then None else if m = p then
      Some (pd\<lparr>nd_children := remove1 n (nd_children pd)\<rparr>) else pl_nodes s m)" for m
    using p by (simp add: cut_def)
  have old: "\<exists>md0. pl_nodes s m = Some md0 \<and> nd_path md = nd_path md0 \<and> nd_parent md = nd_parent md0 \<and>
      m \<noteq> n \<and> set (nd_children md) = set (nd_children md0) - {n} \<and> distinct (nd_children md)"
    if "pl_nodes ?t m = Some md" for m md
  proof -
    have "set (nd_children md0) - {n} = set (nd_children md0)" if "m \<noteq> p" "pl_nodes s m = Some md0" for md0
      using tree_child [OF inv that(2), of n] n(1) p(1) that(1) by auto
    then show ?thesis
      using that p tree_node(2) [OF inv] by (auto simp: nodes set_remove1_eq split: if_splits)
  qed
  have new: "\<exists>md. pl_nodes ?t m = Some md \<and> nd_path md = nd_path md0 \<and> nd_parent md = nd_parent md0 \<and>
      set (nd_children md0) - {n} \<subseteq> set (nd_children md)" if "pl_nodes s m = Some md0" "m \<noteq> n" for m md0
    using that p tree_node(2) [OF inv p(3)] by (auto simp: nodes set_remove1_eq)
  have pn: "path \<noteq> nd_path nd" if "pl_hash s path = Some m" "m \<noteq> n" for path m
    using tree_below(1) [OF inv n] that by auto
  show ?thesis
    unfolding tree_inv_def
  proof (intro conjI allI impI)
    obtain r where r: "pl_nodes s (pl_root s) = Some r" "nd_parent r = None" using tree_root [OF inv] by auto
    then show "\<exists>r. pl_nodes ?t (pl_root ?t) = Some r \<and> nd_parent r = None"
      using new [OF r(1)] n(2) by auto
  next
    fix m md assume a: "pl_nodes ?t m = Some md"
    show "m < pl_nextnode ?t" using old [OF a] tree_node(1) [OF inv] by auto
    show "distinct (nd_children md)" using old [OF a] by auto
  next
    fix m md assume a: "pl_nodes ?t m = Some md \<and> m \<noteq> pl_root ?t"
    obtain md0 where md0: "pl_nodes s m = Some md0" "nd_path md = nd_path md0" "nd_parent md = nd_parent md0" "m \<noteq> n"
      using old [OF conjunct1 [OF a]] by auto
    have mr: "m \<noteq> pl_root s" using a by simp
    show "pl_hash ?t (nd_path md) = Some m"
      using tree_below(1) [OF inv md0(1) mr] pn md0 by auto
    obtain q qd where q: "nd_parent md0 = Some q" "q < m" "pl_nodes s q = Some qd" "m \<in> set (nd_children qd)"
      using tree_below(2) [OF inv md0(1) mr] by auto
    have "q \<noteq> n" using q(3,4) n(1) leaf by auto
    from new [OF q(3) this] q md0(3,4)
    show "\<exists>q qd. nd_parent md = Some q \<and> q < m \<and> pl_nodes ?t q = Some qd \<and> m \<in> set (nd_children qd)" by auto
  next
    fix path m assume a: "pl_hash ?t path = Some m"
    then have h: "pl_hash s path = Some m" "path \<noteq> nd_path nd" by (auto split: if_splits)
    show "m \<noteq> pl_root ?t" using tree_hash(1) [OF inv h(1)] by simp
    obtain md where md: "pl_nodes s m = Some md" "nd_path md = path" using tree_hash(2) [OF inv h(1)] by auto
    then have "m \<noteq> n" using n(1) h(2) by auto
    from new [OF md(1) this] md(2) show "\<exists>md. pl_nodes ?t m = Some md \<and> nd_path md = path" by auto
  next
    fix m md c assume a: "pl_nodes ?t m = Some md \<and> c \<in> set (nd_children md)"
    obtain md0 where md0: "pl_nodes s m = Some md0" "c \<in> set (nd_children md0)" "c \<noteq> n"
      using old [OF conjunct1 [OF a]] a by auto
    obtain cd where "pl_nodes s c = Some cd" "nd_parent cd = Some m" using tree_child [OF inv md0(1,2)] by auto
    with new [OF this(1) md0(3)] show "\<exists>cd. pl_nodes ?t c = Some cd \<and> nd_parent cd = Some m" by auto
  qed
qed

end
