(* ===== verification/Gam_Poll_Inv.thy ===== *)
theory Gam_Poll_Inv
  imports Gam_Poll Gam_Tree_Inv
begin

unbundle bit_operations_syntax

text \<open>
  The polling back end keeps the invariant of the tree, and none of its operations aborts. The generic
  scans are proved in a locale that states what they need of a back end's \<^verbatim>\<open>gam_poll_file\<close>; the basic
  back end provides it.
\<close>

section \<open>Steps\<close>

text \<open>A call that succeeds, keeps the invariant, at most adds nodes, and ends in a state with \<open>Q\<close>.\<close>

definition runs :: "'b psrv_scheme \<Rightarrow> ('b psrv_scheme \<Rightarrow> bool) \<Rightarrow> 'b psrv_scheme option \<Rightarrow> bool" where
  "runs s Q r \<longleftrightarrow> (\<exists>s'. r = Some s' \<and> poll_inv s' \<and> grows s s' \<and> Q s')"

definition runs2 :: "'b psrv_scheme \<Rightarrow> ('b psrv_scheme \<Rightarrow> bool) \<Rightarrow> ('a \<times> 'b psrv_scheme) option \<Rightarrow> bool" where
  "runs2 s Q r \<longleftrightarrow> (\<exists>x s'. r = Some (x, s') \<and> poll_inv s' \<and> grows s s' \<and> Q s')"

lemma runsI: "poll_inv s' \<Longrightarrow> grows s s' \<Longrightarrow> Q s' \<Longrightarrow> runs s Q (Some s')"
  by (simp add: runs_def)

lemma runs2I: "poll_inv s' \<Longrightarrow> grows s s' \<Longrightarrow> Q s' \<Longrightarrow> runs2 s Q (Some (x, s'))"
  by (simp add: runs2_def)

lemma runs_bind:
  assumes "runs s Q r" "\<And>s'. poll_inv s' \<Longrightarrow> grows s s' \<Longrightarrow> Q s' \<Longrightarrow> runs s' R (f s')"
  shows "runs s R (Option.bind r f)"
  using assms by (fastforce simp: runs_def intro: grows_trans)

lemma runs_bind2:
  assumes "runs2 s Q r" "\<And>x s'. poll_inv s' \<Longrightarrow> grows s s' \<Longrightarrow> Q s' \<Longrightarrow> runs s' R (f (x, s'))"
  shows "runs s R (Option.bind r f)"
  using assms by (fastforce simp: runs_def runs2_def intro: grows_trans)

lemma runs2_bind:
  assumes "runs s Q r" "\<And>s'. poll_inv s' \<Longrightarrow> grows s s' \<Longrightarrow> Q s' \<Longrightarrow> runs2 s' R (f s')"
  shows "runs2 s R (Option.bind r f)"
  using assms by (fastforce simp: runs_def runs2_def intro: grows_trans)

lemma runs2_bind2:
  assumes "runs2 s Q r" "\<And>x s'. poll_inv s' \<Longrightarrow> grows s s' \<Longrightarrow> Q s' \<Longrightarrow> runs2 s' R (f (x, s'))"
  shows "runs2 s R (Option.bind r f)"
  using assms by (fastforce simp: runs_def runs2_def intro: grows_trans)

lemma runs_weaken: "runs s Q r \<Longrightarrow> (\<And>s'. Q s' \<Longrightarrow> R s') \<Longrightarrow> runs s R r"
  by (auto simp: runs_def)

lemma node_there: "grows s s' \<Longrightarrow> pl_nodes s n \<noteq> None \<Longrightarrow> pl_nodes s' n \<noteq> None"
  using grows_node by (metis not_None_eq)

section \<open>Single updates\<close>

text \<open>The nodes marked as new.\<close>

definition flagged :: "'b psrv_scheme \<Rightarrow> cptr set" where
  "flagged s = {n. \<exists>nd. pl_nodes s n = Some nd \<and> nd_flags nd AND FLAG_NEW_NODE \<noteq> 0}"

lemma flagged_quiet:
  fixes s :: "'b psrv_scheme"
  shows "quiet s s' \<Longrightarrow> flagged s' = flagged s"
  by (simp add: flagged_def quiet_poll)

lemma flagged_upd: "(\<And>nd. nd_flags (f nd) = nd_flags nd) \<Longrightarrow> flagged (upd_node n f s) = flagged s"
  by (auto simp: flagged_def)

lemma one_flags [simp]: "one_flag FLAG_NEW_NODE" "one_flag MON_MISSING"
  by code_simp+

lemma same_tree:
  assumes "pl_nodes s' = pl_nodes s" "pl_nextnode s' = pl_nextnode s" "pl_root s' = pl_root s" "pl_hash s' = pl_hash s"
    "sv_subs s' = sv_subs s" "sv_listeners s' = sv_listeners s" "sv_conns s' = sv_conns s"
    and "poll_inv s" "set (pl_missing s') \<union> set (pl_busy s') \<union> set (pl_all s') \<subseteq> dom (pl_nodes s)" "distinct (pl_all s')"
  shows "poll_inv s'"
proof -
  have "tree_inv s'" using poll_tree [OF assms(8)] unfolding tree_inv_def assms(1-4) .
  moreover have "sub_linked s' = sub_linked s" unfolding sub_linked_def fun_eq_iff assms(5-7) by simp
  ultimately show ?thesis using assms(8-10) unfolding poll_inv_def assms(1,3) by simp
qed

lemma lists_runs:
  assumes "poll_inv s" "pl_nodes s n \<noteq> None"
  shows "poll_inv (gam_poll_generic_add_missing n s)" "poll_inv (gam_poll_generic_remove_missing n s)"
    "poll_inv (gam_poll_generic_remove_busy n s)" "poll_inv (gam_poll_generic_add n s)"
proof -
  have d: "n \<in> dom (pl_nodes s)" "set (pl_missing s) \<union> set (pl_busy s) \<union> set (pl_all s) \<subseteq> dom (pl_nodes s)"
      "distinct (pl_all s)"
    using assms by (auto simp: poll_inv_def)
  note defs = gam_poll_generic_add_missing_def gam_poll_generic_remove_missing_def
      gam_poll_generic_remove_busy_def gam_poll_generic_add_def
  show "poll_inv (gam_poll_generic_add_missing n s)" "poll_inv (gam_poll_generic_remove_missing n s)"
    "poll_inv (gam_poll_generic_remove_busy n s)" "poll_inv (gam_poll_generic_add n s)"
    by (rule same_tree [where s = s]; use assms(1) d in \<open>auto simp: defs\<close>)+
qed

lemma lists_grows [simp]:
  "grows s (gam_poll_generic_add_missing n s)" "grows s (gam_poll_generic_remove_missing n s)"
  "grows s (gam_poll_generic_remove_busy n s)" "grows s (gam_poll_generic_add n s)"
  "grows s (gam_poll_generic_update_time en s)"
  by (auto simp: gam_poll_generic_add_missing_def gam_poll_generic_remove_missing_def
      gam_poll_generic_remove_busy_def gam_poll_generic_add_def gam_poll_generic_update_time_def grows_def)

lemma lists_nodes [simp]:
  "pl_nodes (gam_poll_generic_add_missing n s) = pl_nodes s"
  "pl_nodes (gam_poll_generic_remove_missing n s) = pl_nodes s"
  "pl_nodes (gam_poll_generic_remove_busy n s) = pl_nodes s"
  "pl_nodes (gam_poll_generic_add n s) = pl_nodes s"
  "pl_nodes (gam_poll_generic_update_time en s) = pl_nodes s"
  by (auto simp: gam_poll_generic_add_missing_def gam_poll_generic_remove_missing_def
      gam_poll_generic_remove_busy_def gam_poll_generic_add_def gam_poll_generic_update_time_def)

lemma lists_missing [simp]:
  "pl_missing (gam_poll_generic_update_time en s) = pl_missing s" "pl_all (gam_poll_generic_update_time en s) = pl_all s"
  "pl_missing (gam_poll_generic_add n s) = pl_missing s"
  "pl_missing (gam_poll_generic_remove_missing n s) = removeAll n (pl_missing s)"
  "pl_nextnode (gam_poll_generic_update_time en s) = pl_nextnode s"
  by (simp_all add: gam_poll_generic_remove_missing_def gam_poll_generic_add_def gam_poll_generic_update_time_def)

lemma lists_flagged [simp]:
  "flagged (gam_poll_generic_add_missing n s) = flagged s"
  "flagged (gam_poll_generic_remove_missing n s) = flagged s"
  "flagged (gam_poll_generic_remove_busy n s) = flagged s"
  "flagged (gam_poll_generic_add n s) = flagged s"
  "flagged (gam_poll_generic_update_time en s) = flagged s"
  by (simp_all add: flagged_def)

lemma update_time_inv: "poll_inv s \<Longrightarrow> poll_inv (gam_poll_generic_update_time en s)"
  by (rule same_tree [where s = s]) (auto simp: gam_poll_generic_update_time_def poll_inv_def)

lemma upd_payload_runs:
  assumes "poll_inv s" "payload f"
  shows "poll_inv (upd_node n f s)" "grows s (upd_node n f s)"
  using assms by (simp_all add: poll_inv_payload grows_payload)

lemma payload_simps [simp]:
  "payload (\<lambda>nd. nd\<lparr>nd_is_dir := g1 nd, nd_sbuf := g2 nd\<rparr>)" "payload (\<lambda>nd. nd\<lparr>nd_lasttime := g3 nd\<rparr>)"
  "payload (\<lambda>nd. nd\<lparr>nd_pflags := g4 nd\<rparr>)" "payload (\<lambda>nd. nd\<lparr>nd_flags := g5 nd\<rparr>)"
  "payload (\<lambda>nd. nd\<lparr>nd_sbuf := g2 nd, nd_lasttime := g3 nd\<rparr>)"
  "payload (\<lambda>nd. nd\<lparr>nd_pflags := g4 nd, nd_is_dir := g1 nd\<rparr>)"
  by (simp_all add: payload_def keeps_links_def)

text \<open>An update that concerns neither the links nor the mark.\<close>

lemma upd_runs:
  assumes "poll_inv s" "payload f" "\<And>nd. nd_flags (f nd) = nd_flags nd" "flagged s \<subseteq> X"
  shows "poll_inv (upd_node n f s) \<and> grows s (upd_node n f s) \<and> flagged (upd_node n f s) \<subseteq> X"
  using assms upd_payload_runs flagged_upd by metis

lemma emit_event_runs:
  assumes "poll_inv s" "pl_nodes s n \<noteq> None" "flagged s \<subseteq> X"
  shows "runs s (\<lambda>s'. flagged s' \<subseteq> X) (gam_node_emit_event n e s)"
proof -
  obtain nd where nd: "pl_nodes s n = Some nd" using assms(2) by auto
  obtain qs where qs: "(case nd_parent nd of None \<Rightarrow> Some [] | Some p \<Rightarrow> gam_node_get_subscriptions p s) = Some qs"
    "\<And>q. q \<in> set qs \<Longrightarrow> \<exists>sp. sub_linked s sp q"
  proof (cases "nd_parent nd")
    case None
    then show ?thesis using that [of "[]"] by simp
  next
    case (Some p)
    obtain pd where "pl_nodes s p = Some pd"
      using tree_below(2) [OF poll_tree [OF assms(1)] nd] tree_parent_None [OF poll_tree [OF assms(1)] nd] Some by auto
    then show ?thesis using that [of "nd_subs pd"] Some poll_sub(2) [OF assms(1)]
      by (auto simp: gam_node_get_subscriptions_def)
  qed
  have "set (emit_subs xs ys) = set xs \<union> set ys" for xs ys
    unfolding emit_subs_def by (induction ys arbitrary: xs) auto
  then have "\<exists>sp. sub_linked s sp q" if "q \<in> set (emit_subs (nd_subs nd) qs)" for q
    using that qs(2) poll_sub(2) [OF assms(1) nd] by blast
  then obtain s' where "gam_server_emit_event (nd_path nd) (nd_is_dir nd) e (emit_subs (nd_subs nd) qs) False s = Some s'"
      "quiet s s'"
    using emit_runs [of "emit_subs (nd_subs nd) qs" s] by blast
  then show ?thesis
    using nd qs(1) assms(1,3) poll_inv_quiet [of s s'] flagged_quiet [of s s'] grows_quiet [of s s']
    by (simp add: gam_node_emit_event_def runs_def)
qed

lemma emit_subs_runs:
  assumes "poll_inv s" "\<And>q. q \<in> set qs \<Longrightarrow> \<exists>sp. sub_linked s sp q" "flagged s \<subseteq> X"
  shows "runs s (\<lambda>s'. flagged s' \<subseteq> X) (gam_server_emit_event p d e qs f s)"
proof -
  obtain s' where "gam_server_emit_event p d e qs f s = Some s'" "quiet s s'"
    using emit_runs [OF assms(2)] by blast
  then show ?thesis
    using assms(1,3) poll_inv_quiet [of s s'] flagged_quiet [of s s'] grows_quiet [of s s']
    by (simp add: runs_def)
qed

section \<open>Polling a file\<close>

lemma payload_run [simp]:
  "\<lbrakk>poll_inv s; payload f\<rbrakk> \<Longrightarrow> poll_inv (upd_node n f s)"
  "payload f \<Longrightarrow> grows s (upd_node n f s)"
  by (simp_all add: poll_inv_payload grows_payload)

lemma flags_kept [simp]:
  "flagged (upd_node n (\<lambda>nd. nd\<lparr>nd_is_dir := g1 nd, nd_sbuf := g2 nd\<rparr>) s) = flagged s"
  "flagged (upd_node n (\<lambda>nd. nd\<lparr>nd_lasttime := g3 nd\<rparr>) s) = flagged s"
  "flagged (upd_node n (\<lambda>nd. nd\<lparr>nd_pflags := g4 nd\<rparr>) s) = flagged s"
  "flagged (upd_node n (\<lambda>nd. nd\<lparr>nd_sbuf := g2 nd, nd_lasttime := g3 nd\<rparr>) s) = flagged s"
  "flagged (upd_node n (\<lambda>nd. nd\<lparr>nd_pflags := g4 nd, nd_is_dir := g1 nd\<rparr>) s) = flagged s"
  by (rule flagged_upd; simp)+

text \<open>What is left of a call after the updates of one node and the lists.\<close>

lemma pflag_runs:
  assumes "poll_inv s" "pl_nodes s n \<noteq> None"
  shows "runs s (\<lambda>s'. flagged s' = flagged s) (gam_node_set_pflag n MON_MISSING s)"
    "runs s (\<lambda>s'. flagged s' = flagged s) (gam_node_unset_pflag n MON_MISSING s)"
    "runs s (\<lambda>s'. flagged s' = flagged s) (gam_node_set_pflags n fl s)"
  using assms
  by (auto simp: gam_node_set_pflag_def gam_node_unset_pflag_def gam_node_set_pflags_def intro!: runsI)

lemma poll_file_runs:
  assumes inv: "poll_inv s" and n: "pl_nodes s n \<noteq> None"
  shows "runs2 s (\<lambda>s'. flagged s' = flagged s) (gam_poll_basic_poll_file en n s)"
proof -
  obtain nd where nd: "pl_nodes s n = Some nd" using n by auto
  define sbuf where "sbuf = (case en_stat en (nd_path nd) of STAT_OK st \<Rightarrow> st | _ \<Rightarrow> stat_zero)"
  have fin: "runs2 s0 (\<lambda>s'. flagged s' = flagged s0) (Some (e, upd_node n (\<lambda>nd. nd\<lparr>nd_is_dir := g1 nd, nd_sbuf := g2 nd\<rparr>) s1))"
    if "poll_inv s1" "grows s0 s1" "flagged s1 = flagged s0" for s0 s1 :: "'a psrv_scheme" and e :: evtype and g1 g2
    by (rule runs2I, rule payload_run(1) [OF that(1)], simp, rule grows_trans [OF that(2) payload_run(2)])
       (simp_all add: that)
  show ?thesis
  proof (cases "nd_lasttime nd \<noteq> 0 \<and> gam_poll_generic_get_delta_time (nd_lasttime nd) s < nd_poll_time nd")
    case True
    then show ?thesis using nd inv by (simp add: gam_poll_basic_poll_file_def runs2I)
  next
    case now: False
    let ?res = "en_stat en (nd_path nd)"
    show ?thesis
    proof (cases "nd_lasttime nd = 0")
      case True
      have s1: "runs s (\<lambda>s'. flagged s' = flagged s) (if ?res \<noteq> STAT_OK sbuf then gam_node_set_pflag n MON_MISSING s else Some s)"
        using pflag_runs(1) [OF inv n] inv by (auto intro: runsI)
      obtain s2 where s2: "(if ?res \<noteq> STAT_OK sbuf then gam_node_set_pflag n MON_MISSING s else Some s) = Some s2"
          "poll_inv s2" "grows s s2" "flagged s2 = flagged s"
        using s1 unfolding runs_def by blast
      let ?f = "upd_node n (\<lambda>nd'. nd'\<lparr>nd_is_dir := (if ?res = STAT_OK sbuf then st_is_dir sbuf else nd_is_dir nd'),
                                           nd_sbuf := sbuf\<rparr>)"
      let ?s3 = "upd_node n (\<lambda>nd. nd\<lparr>nd_lasttime := pl_time s2\<rparr>) (?f s2)"
      have "gam_poll_basic_poll_file en n s =
          Some (if ?res = STAT_OK sbuf then 0 else GAMIN_EVENT_DELETED, ?s3)"
        unfolding gam_poll_basic_poll_file_def nd Option.bind.bind_lunit Let_def sbuf_def [symmetric]
        using s2(1) True now by (simp del: upd_node_simps)
      moreover have "poll_inv ?s3" using s2(2) by simp
      moreover have "grows s ?s3"
        by (rule grows_trans [OF s2(3)], rule grows_trans [OF grows_payload grows_payload]) simp_all
      moreover have "flagged ?s3 = flagged s" using s2(4) by simp
      ultimately show ?thesis by (simp add: runs2I del: upd_node_simps)
    next
      case False
      let ?s0 = "upd_node n (\<lambda>nd. nd\<lparr>nd_lasttime := pl_time s\<rparr>) s"
      have s0: "poll_inv ?s0" "pl_nodes ?s0 n \<noteq> None" "flagged ?s0 = flagged s" "grows s ?s0" using inv n by auto
      obtain missing where m: "gam_node_has_pflag n MON_MISSING ?s0 = Some missing"
        using n by (auto simp: gam_node_has_pflag_def)
      obtain e s1 where r: "(if ?res \<noteq> STAT_OK sbuf then
                              (if ?res = STAT_NOENT \<and> \<not> missing then
                                 do { s1 \<leftarrow> gam_node_set_pflags n MON_MISSING ?s0;
                                      Some (GAMIN_EVENT_DELETED,
                                        gam_poll_generic_add_missing n (gam_poll_generic_remove_busy n s1)) }
                               else Some (0, ?s0))
                            else if missing then
                              do { s1 \<leftarrow> gam_node_unset_pflag n MON_MISSING ?s0;
                                   Some (GAMIN_EVENT_CREATED, gam_poll_generic_remove_missing n s1) }
                            else if gam_poll_generic_node_changed nd sbuf then Some (GAMIN_EVENT_CHANGED, ?s0)
                            else Some (0, ?s0)) = Some (e, s1)"
          and s1: "poll_inv s1" "grows ?s0 s1" "flagged s1 = flagged ?s0"
      proof -
        obtain t1 where t1: "gam_node_set_pflags n MON_MISSING ?s0 = Some t1" "poll_inv t1" "grows ?s0 t1" "flagged t1 = flagged ?s0"
          using pflag_runs(3) [OF s0(1,2), unfolded runs_def] by blast
        obtain t2 where t2: "gam_node_unset_pflag n MON_MISSING ?s0 = Some t2" "poll_inv t2" "grows ?s0 t2" "flagged t2 = flagged ?s0"
          using pflag_runs(2) [OF s0(1,2), unfolded runs_def] by blast
        note there = node_there [OF t1(3) s0(2)] node_there [OF t2(3) s0(2)]
        let ?t1 = "gam_poll_generic_add_missing n (gam_poll_generic_remove_busy n t1)"
        let ?t2 = "gam_poll_generic_remove_missing n t2"
        have u: "poll_inv ?t1" "poll_inv ?t2"
          using lists_runs(1) [OF lists_runs(3) [OF t1(2) there(1)], of n] lists_runs(2) [OF t2(2) there(2)] there
          by simp_all
        have g: "grows ?s0 ?t1" "grows ?s0 ?t2"
          using t1(3) t2(3) by (meson grows_trans lists_grows)+
        from t1 t2 u g s0(1) that show ?thesis
          by (cases "?res = STAT_OK sbuf"; cases "?res = STAT_NOENT"; cases missing;
              cases "gam_poll_generic_node_changed nd sbuf") auto
      qed
      have "gam_poll_basic_poll_file en n s =
          Some (e, upd_node n (\<lambda>nd'. nd'\<lparr>nd_is_dir := (if ?res = STAT_OK sbuf then st_is_dir sbuf else nd_is_dir nd'),
                                           nd_sbuf := sbuf\<rparr>) s1)"
        unfolding gam_poll_basic_poll_file_def nd Option.bind.bind_lunit Let_def sbuf_def [symmetric]
        using r m False now by (simp del: upd_node_simps)
      then show ?thesis
        using fin [OF s1(1), of s e] s1 s0 grows_trans [OF s0(4) s1(2)] by simp
    qed
  qed
qed

section \<open>Scans, for every back end\<close>

text \<open>Nodes marked as new are the directory's own entries and have no subscription.\<close>

definition new_kids :: "cptr \<Rightarrow> 'b psrv_scheme \<Rightarrow> bool" where
  "new_kids d s \<longleftrightarrow> (\<forall>n \<in> flagged s. \<exists>nd. pl_nodes s n = Some nd \<and> nd_parent nd = Some d \<and> nd_subs nd = [])"

lemma grown_kid:
  assumes "grows s s'" "\<exists>nd. pl_nodes s n = Some nd \<and> nd_parent nd = Some d \<and> nd_subs nd = []"
  shows "\<exists>nd. pl_nodes s' n = Some nd \<and> nd_parent nd = Some d \<and> nd_subs nd = []"
  using assms grows_node by metis

lemma new_kids_sub:
  assumes "new_kids d s" "grows s s'" "flagged s' \<subseteq> flagged s"
  shows "new_kids d s'"
  using assms grown_kid [OF assms(2)] unfolding new_kids_def by blast

lemma unset_new_runs:
  assumes "poll_inv s" "pl_nodes s n \<noteq> None"
  shows "runs s (\<lambda>s'. flagged s' = flagged s - {n}) (gam_node_unset_flag n FLAG_NEW_NODE s)"
proof -
  have w: "(w AND NOT FLAG_NEW_NODE) AND FLAG_NEW_NODE = 0" for w :: evtype
    by (rule bit_word_eqI) (simp add: bit_and_iff bit_not_iff)
  let ?t = "upd_node n (\<lambda>nd. nd\<lparr>nd_flags := nd_flags nd AND NOT FLAG_NEW_NODE\<rparr>) s"
  have f: "flagged ?t = flagged s - {n}"
    using assms(2) by (auto simp: flagged_def w split: if_splits)
  have "gam_node_unset_flag n FLAG_NEW_NODE s = Some ?t"
    using assms(2) by (auto simp: gam_node_unset_flag_def)
  moreover have "poll_inv ?t" "grows s ?t" using assms(1) by simp_all
  ultimately show ?thesis using f unfolding runs_def by blast
qed

lemma emitE_runs:
  assumes "poll_inv s" "flagged s \<subseteq> X"
  shows "runs s (\<lambda>s'. flagged s' \<subseteq> X) (gam_server_emit_event p d e [] f s)"
  using assms by (simp add: runs_def)

lemma flagged_upd_subset: "flagged (upd_node n f s) \<subseteq> insert n (flagged s)"
  by (auto simp: flagged_def)

lemma flagged_hang:
  assumes "poll_inv s" "pl_nodes s d = Some dnd"
  shows "flagged (hang d nd s) \<subseteq> insert (pl_nextnode s) (flagged s)"
  using assms(2) by (auto simp: flagged_def hang_nodes [OF poll_tree [OF assms(1)] assms(2)])

locale poll_backend =
  fixes pf :: "'x psrv_scheme poll_hook"
  assumes poll_file: "poll_inv s \<Longrightarrow> pl_nodes s n \<noteq> None \<Longrightarrow> runs2 s (\<lambda>s'. flagged s' = flagged s) (pf n s)"
begin

text \<open>A child is polled, its mark is taken off, and the event is sent.\<close>

lemma scan_child_eq:
  assumes inv: "poll_inv s" and d: "pl_nodes s d \<noteq> None" and n: "pl_nodes s n \<noteq> None" and new: "new_kids e s"
  obtains ev s1 fe t where "pf n s = Some (ev, s1)"
    "if n \<in> flagged s then gam_node_unset_flag n FLAG_NEW_NODE s1 = Some t \<and> fe = GAMIN_EVENT_CREATED
     else t = s1 \<and> fe = ev"
    "poll_inv t" "grows s t" "flagged t = flagged s - {n}"
    "scan_child scan pf d n s = (if fe \<noteq> 0 then gam_node_emit_event n fe t
       else do { missing \<leftarrow> gam_node_has_pflag n MON_MISSING t;
                 nd \<leftarrow> pl_nodes t n;
                 if \<not> missing then gam_server_emit_event (nd_path nd) (nd_is_dir nd) GAMIN_EVENT_EXISTS [] False t
                 else Some t })"
proof -
  obtain b where b: "gam_node_is_dir d s = Some b" using d by (auto simp: gam_node_is_dir_def)
  obtain ev s1 where s1: "pf n s = Some (ev, s1)" "poll_inv s1" "grows s s1" "flagged s1 = flagged s"
    using poll_file [OF inv n] by (auto simp: runs2_def)
  have n1: "pl_nodes s1 n \<noteq> None" by (rule node_there [OF s1(3) n])
  have new1: "new_kids e s1" using new_kids_sub [OF new s1(3)] s1(4) by simp
  have hf: "gam_node_has_flag n FLAG_NEW_NODE s1 = Some (n \<in> flagged s1)"
    using n1 by (auto simp: gam_node_has_flag_def flagged_def)
  obtain s2 where s2: "gam_node_unset_flag n FLAG_NEW_NODE s1 = Some s2" "poll_inv s2" "grows s1 s2"
      "flagged s2 = flagged s1 - {n}"
    using unset_new_runs [OF s1(2) n1] by (auto simp: runs_def)
  define t where "t = (if n \<in> flagged s1 then s2 else s1)"
  define fe where "fe = (if n \<in> flagged s1 then GAMIN_EVENT_CREATED else ev)"
  have mid: "(if n \<in> flagged s1 then
               do { subs \<leftarrow> gam_node_get_subscriptions n s1;
                    s2 \<leftarrow> gam_node_unset_flag n FLAG_NEW_NODE s1;
                    if b \<and> subs \<noteq> [] then
                      do { s3 \<leftarrow> scan n s2; Some (ev, s3) }
                    else Some (GAMIN_EVENT_CREATED, s2) }
             else Some (ev, s1)) = Some (fe, t)"
    using s2(1) new1 by (auto simp: new_kids_def gam_node_get_subscriptions_def t_def fe_def)
  have "scan_child scan pf d n s = (if fe \<noteq> 0 then gam_node_emit_event n fe t
       else do { missing \<leftarrow> gam_node_has_pflag n MON_MISSING t;
                 nd \<leftarrow> pl_nodes t n;
                 if \<not> missing then gam_server_emit_event (nd_path nd) (nd_is_dir nd) GAMIN_EVENT_EXISTS [] False t
                 else Some t })"
    unfolding scan_child_def b s1(1) hf Option.bind.bind_lunit prod.case mid ..
  moreover have "poll_inv t" "grows s t" "flagged t = flagged s - {n}"
    using s1(2-4) s2(2,4) grows_trans [OF s1(3) s2(3)] by (simp_all add: t_def)
  moreover have "if n \<in> flagged s then gam_node_unset_flag n FLAG_NEW_NODE s1 = Some t \<and> fe = GAMIN_EVENT_CREATED
     else t = s1 \<and> fe = ev"
    using s1(4) s2(1) by (simp add: t_def fe_def)
  ultimately show ?thesis using that s1(1) by blast
qed

lemma scan_child_runs:
  assumes "poll_inv s" "pl_nodes s d \<noteq> None" "pl_nodes s n \<noteq> None" "new_kids e s"
  shows "runs s (\<lambda>s'. flagged s' \<subseteq> flagged s - {n}) (scan_child scan pf d n s)"
proof -
  obtain fe t where t: "poll_inv t" "grows s t" "flagged t = flagged s - {n}"
    "scan_child scan pf d n s = (if fe \<noteq> 0 then gam_node_emit_event n fe t
       else do { missing \<leftarrow> gam_node_has_pflag n MON_MISSING t;
                 nd \<leftarrow> pl_nodes t n;
                 if \<not> missing then gam_server_emit_event (nd_path nd) (nd_is_dir nd) GAMIN_EVENT_EXISTS [] False t
                 else Some t })"
    by (rule scan_child_eq [OF assms])
  have n: "pl_nodes t n \<noteq> None" by (rule node_there [OF t(2) assms(3)])
  then obtain nd where nd: "pl_nodes t n = Some nd" by auto
  have f: "flagged t \<subseteq> flagged s - {n}" using t(3) by simp
  have "runs t (\<lambda>s'. flagged s' \<subseteq> flagged s - {n}) (scan_child scan pf d n s)"
  proof (cases "fe \<noteq> 0")
    case True
    then show ?thesis unfolding t(4) if_P [OF True] by (intro emit_event_runs [OF t(1) n f])
  next
    case False
    then have "scan_child scan pf d n s = Some t" unfolding t(4) by (simp add: nd gam_node_has_pflag_def)
    then show ?thesis using runsI [OF t(1) grows_refl, of "\<lambda>s'. flagged s' \<subseteq> flagged s - {n}"] f by simp
  qed
  with t(2) show ?thesis by (auto simp: runs_def intro: grows_trans)
qed

lemma scan_children_runs:
  assumes "poll_inv s" "pl_nodes s d \<noteq> None" "\<forall>n \<in> set ns. pl_nodes s n \<noteq> None" "new_kids e s"
  shows "runs s (\<lambda>s'. flagged s' \<subseteq> flagged s - set ns) (scan_children scan pf d ns s)"
  using assms
proof (induction ns arbitrary: s)
  case Nil
  then show ?case by (simp add: runsI)
next
  case (Cons n ns)
  have n: "pl_nodes s n \<noteq> None" using Cons.prems(3) by simp
  obtain s1 where s1: "scan_child scan pf d n s = Some s1" "poll_inv s1" "grows s s1" "flagged s1 \<subseteq> flagged s - {n}"
    using scan_child_runs [OF Cons.prems(1,2) n Cons.prems(4), where scan = scan, unfolded runs_def] by blast
  have "new_kids e s1" by (rule new_kids_sub [OF Cons.prems(4) s1(3)]) (use s1(4) in auto)
  moreover have "\<forall>n \<in> set ns. pl_nodes s1 n \<noteq> None" "pl_nodes s1 d \<noteq> None"
    using node_there [OF s1(3)] Cons.prems(2,3) by (auto simp del: not_None_eq)
  ultimately have "runs s1 (\<lambda>s'. flagged s' \<subseteq> flagged s1 - set ns) (scan_children scan pf d ns s1)"
    using Cons.IH s1(2) by blast
  then show ?case using s1 by (auto simp: runs_def intro: grows_trans)
qed

lemma scan_entry_runs:
  assumes inv: "poll_inv s" and d: "pl_nodes s d \<noteq> None" and new: "new_kids d s"
  shows "runs s (new_kids d) (scan_entry en d name s)"
proof -
  obtain dnd where dnd: "pl_nodes s d = Some dnd" using d by auto
  let ?path = "g_build_filename (nd_path dnd) name"
  show ?thesis
  proof (cases "pl_hash s ?path")
    case (Some n)
    then show ?thesis using dnd inv new by (simp add: scan_entry_def gam_tree_get_at_path_def runsI)
  next
    case None
    let ?nd = "gam_node_new en ?path None (file_is_dir en ?path)"
    let ?n = "pl_nextnode s"
    have nd: "pl_hash s (nd_path ?nd) = None" "nd_subs ?nd = []" using None by (simp_all add: gam_node_new_def)
    note hg = poll_add_new [OF inv dnd nd]
    let ?s1 = "hang d ?nd s"
    let ?s2 = "upd_node ?n (\<lambda>nd. nd\<lparr>nd_flags := nd_flags nd OR FLAG_NEW_NODE\<rparr>) ?s1"
    have set: "gam_node_set_flag ?n FLAG_NEW_NODE ?s1 = Some ?s2"
      using hg(4) by (simp add: gam_node_set_flag_def)
    have e: "scan_entry en d name s = Some ?s2"
      unfolding scan_entry_def dnd Option.bind.bind_lunit Let_def
      using hg(1) None set by (simp add: gam_tree_get_at_path_def split_beta del: upd_node_simps)
    have inv2: "poll_inv ?s2" using hg(2) by simp
    have g2: "grows s ?s2" by (rule grows_trans [OF hg(3) grows_payload]) simp
    have f: "flagged ?s2 \<subseteq> insert ?n (flagged s)"
      using flagged_upd_subset flagged_hang [OF inv dnd] by blast
    have "new_kids d ?s2"
      unfolding new_kids_def
    proof
      fix m assume "m \<in> flagged ?s2"
      then consider "m = ?n" | "m \<in> flagged s" using f by auto
      then show "\<exists>nd. pl_nodes ?s2 m = Some nd \<and> nd_parent nd = Some d \<and> nd_subs nd = []"
      proof cases
        case 1
        then show ?thesis using hg(4) by (simp add: gam_node_new_def)
      next
        case 2
        then show ?thesis using new by (intro grown_kid [OF g2]) (simp add: new_kids_def)
      qed
    qed
    then show ?thesis unfolding e by (rule runsI [OF inv2 g2])
  qed
qed

lemma scan_entries_runs:
  assumes "poll_inv s" "pl_nodes s d \<noteq> None" "new_kids d s"
  shows "runs s (new_kids d) (scan_entries en d names s)"
  using assms
proof (induction names arbitrary: s)
  case Nil
  then show ?case by (simp add: runsI)
next
  case (Cons name names)
  show ?case
    unfolding scan_entries.simps
    by (rule runs_bind [OF scan_entry_runs [OF Cons.prems]])
       (use Cons.IH node_there Cons.prems(2) in blast)
qed

lemma scan_files_runs:
  assumes "poll_inv s" "pl_nodes s d \<noteq> None" "new_kids d s"
  shows "runs s (\<lambda>s'. flagged s' = {})
    (do { children \<leftarrow> gam_tree_get_children d s; scan_children scan pf d children s })"
proof -
  obtain nd where nd: "pl_nodes s d = Some nd" using assms(2) by auto
  have "flagged s \<subseteq> set (nd_children nd)"
  proof
    fix n assume "n \<in> flagged s"
    then obtain cd where cd: "pl_nodes s n = Some cd" "nd_parent cd = Some d" using assms(3) by (auto simp: new_kids_def)
    then have "n \<noteq> pl_root s" using tree_parent_None [OF poll_tree [OF assms(1)] cd(1)] by auto
    then show "n \<in> set (nd_children nd)" using tree_below(2) [OF poll_tree [OF assms(1)] cd(1)] cd(2) nd by auto
  qed
  moreover have "\<forall>n \<in> set (rev (nd_children nd)). pl_nodes s n \<noteq> None"
    using tree_child [OF poll_tree [OF assms(1)] nd] by auto
  ultimately show ?thesis
    using scan_children_runs [OF assms(1,2) _ assms(3), of "rev (nd_children nd)" scan] nd
    by (auto simp: gam_tree_get_children_def runs_def)
qed

lemma scan_directory_runs:
  assumes inv: "poll_inv s" and d: "pl_nodes s d \<noteq> None" and calm: "flagged s = {}"
  shows "runs s (\<lambda>s'. flagged s' = {}) (scan_directory (Suc k) en pf d s)"
proof -
  obtain nd where nd: "pl_nodes s d = Some nd" using d by auto
  have "new_kids d s" using calm by (simp add: new_kids_def)
  note files = scan_files_runs [where scan = "scan_directory k en pf"]
  obtain e s1 where s1: "pf d s = Some (e, s1)" "poll_inv s1" "grows s s1" "flagged s1 = {}"
    using poll_file [OF inv d] calm by (auto simp: runs2_def)
  have d1: "pl_nodes s1 d \<noteq> None" by (rule node_there [OF s1(3) d])
  have em: "runs s1 (\<lambda>s'. flagged s' \<subseteq> {}) (if e \<noteq> 0 then gam_node_emit_event d e s1 else Some s1)"
    using emit_event_runs [OF s1(2) d1, of "{}" e] s1(2,4) by (auto intro: runsI)
  have rest: "runs s1 (\<lambda>s'. flagged s' = {})
      (do { s2 \<leftarrow> (if e \<noteq> 0 then gam_node_emit_event d e s1 else Some s1);
            case en_readdir en (nd_path nd) of
              None \<Rightarrow> Some s2
            | Some names \<Rightarrow>
                do { s3 \<leftarrow> scan_entries en d names s2;
                     children \<leftarrow> gam_tree_get_children d s3;
                     scan_children (scan_directory k en pf) pf d children s3 } })"
  proof (rule runs_bind [OF em])
    fix s2 assume s2: "poll_inv s2" "grows s1 s2" "flagged s2 \<subseteq> {}"
    have d2: "pl_nodes s2 d \<noteq> None" by (rule node_there [OF s2(2) d1])
    have "new_kids d s2" using s2(3) by (simp add: new_kids_def)
    then have "runs s2 (new_kids d) (scan_entries en d names s2)" for names
      by (rule scan_entries_runs [OF s2(1) d2])
    then have "runs s2 (\<lambda>s'. flagged s' = {})
      (do { s3 \<leftarrow> scan_entries en d names s2; children \<leftarrow> gam_tree_get_children d s3;
            scan_children (scan_directory k en pf) pf d children s3 })" for names
      by (rule runs_bind) (rule files, auto dest: node_there [OF _ d2])
    then show "runs s2 (\<lambda>s'. flagged s' = {}) (case en_readdir en (nd_path nd) of
              None \<Rightarrow> Some s2
            | Some names \<Rightarrow>
                do { s3 \<leftarrow> scan_entries en d names s2;
                     children \<leftarrow> gam_tree_get_children d s3;
                     scan_children (scan_directory k en pf) pf d children s3 })"
      using s2 by (auto intro: runsI split: option.split)
  qed
  then have "runs s (\<lambda>s'. flagged s' = {})
      (do { s2 \<leftarrow> (if e \<noteq> 0 then gam_node_emit_event d e s1 else Some s1);
            case en_readdir en (nd_path nd) of
              None \<Rightarrow> Some s2
            | Some names \<Rightarrow>
                do { s3 \<leftarrow> scan_entries en d names s2;
                     children \<leftarrow> gam_tree_get_children d s3;
                     scan_children (scan_directory k en pf) pf d children s3 } })"
    using s1(3) by (auto simp: runs_def intro: grows_trans)
  then show ?thesis
    using files [OF inv d \<open>new_kids d s\<close>] nd s1(1) runsI [OF inv grows_refl, where Q = "\<lambda>s'. flagged s' = {}"] calm
    by (simp add: Let_def)
qed

lemma scan_internal_runs:
  "poll_inv s \<Longrightarrow> pl_nodes s d \<noteq> None \<Longrightarrow> flagged s = {} \<Longrightarrow>
     runs s (\<lambda>s'. flagged s' = {}) (gam_poll_generic_scan_directory_internal en pf d s)"
  unfolding gam_poll_generic_scan_directory_internal_def numeral_2_eq_2 by (rule scan_directory_runs)

lemma first_scan_entry_runs:
  assumes inv: "poll_inv s" and d: "pl_nodes s d \<noteq> None" and q: "\<exists>sp. sub_linked s sp q" and fl: "flagged s = {}"
  shows "runs s (\<lambda>s'. flagged s' = {}) (first_scan_entry en q d with_exists dpath name s)"
proof -
  let ?path = "g_build_filename dpath name"
  let ?n = "pl_nextnode s"
  let ?sbuf = "case en_stat en ?path of STAT_OK st \<Rightarrow> st | _ \<Rightarrow> stat_zero"
  let ?nd0 = "gam_node_new en ?path None (file_is_dir en ?path)"
  let ?new = "case gam_tree_get_at_path ?path s of
                Some n \<Rightarrow> Some s
              | None \<Rightarrow>
                  (let (n, s1) = alloc_node (gam_node_new en ?path None (file_is_dir en ?path)) s;
                       sbuf = ?sbuf;
                       s2 = upd_node n (\<lambda>nd. nd\<lparr>nd_sbuf := sbuf, nd_is_dir := st_is_dir sbuf,
                              nd_pflags := (if en_exclude en ?path \<or> en_mon_type en ?path \<noteq> GFS_MT_KERNEL
                                            then nd_pflags nd OR MON_NOKERNEL else nd_pflags nd),
                              nd_lasttime := pl_time s\<rparr>) s1
                   in do { (b, s3) \<leftarrow> gam_tree_add d n s2; Some s3 })"
  have new: "runs s (\<lambda>s'. flagged s' = {}) ?new"
  proof (cases "pl_hash s ?path")
    case (Some n)
    then show ?thesis using inv fl by (simp add: gam_tree_get_at_path_def runsI)
  next
    case None
    obtain dnd where dnd: "pl_nodes s d = Some dnd" using d by auto
    let ?nd = "?nd0\<lparr>nd_sbuf := ?sbuf, nd_is_dir := st_is_dir ?sbuf,
                              nd_pflags := (if en_exclude en ?path \<or> en_mon_type en ?path \<noteq> GFS_MT_KERNEL
                                            then nd_pflags ?nd0 OR MON_NOKERNEL else nd_pflags ?nd0),
                              nd_lasttime := pl_time s\<rparr>"
    have nd: "pl_hash s (nd_path ?nd) = None" "nd_subs ?nd = []" using None by (simp_all add: gam_node_new_def)
    note hg = poll_add_new [OF inv dnd nd]
    have "nd_flags ?nd = 0" by (simp add: gam_node_new_def)
    then have "?n \<notin> flagged (hang d ?nd s)" using hg(4) by (simp add: flagged_def)
    then have f: "flagged (hang d ?nd s) = {}"
      using flagged_hang [OF inv dnd, of ?nd] fl by blast
    have "?new = Some (hang d ?nd s)"
      using None hg(1)
      by (simp add: gam_tree_get_at_path_def split_beta del: upd_node_simps split del: if_split)
    with hg(2,3) f show ?thesis by (simp add: runsI)
  qed
  then show ?thesis
    unfolding first_scan_entry_def Let_def
  proof (rule runs_bind)
    fix s' assume s': "poll_inv s'" "grows s s'" "flagged s' = {}"
    have "\<exists>sp. sub_linked s' sp q" using q sub_linked_grows [OF s'(2)] by simp
    then show "runs s' (\<lambda>s'. flagged s' = {})
        (if with_exists then gam_server_emit_event name True GAMIN_EVENT_EXISTS [q] True s' else Some s')"
      using emit_subs_runs [OF s'(1), of "[q]" "{}"] s' by (auto intro: runsI)
  qed
qed

lemma first_scan_entries_runs:
  assumes "poll_inv s" "pl_nodes s d \<noteq> None" "\<exists>sp. sub_linked s sp q" "flagged s = {}"
  shows "runs s (\<lambda>s'. flagged s' = {}) (first_scan_entries en q d with_exists dpath names s)"
  using assms
proof (induction names arbitrary: s)
  case Nil
  then show ?case by (simp add: runsI)
next
  case (Cons name names)
  show ?case
    unfolding first_scan_entries.simps
  proof (rule runs_bind [OF first_scan_entry_runs [OF Cons.prems]])
    fix s' assume s': "poll_inv s'" "grows s s'" "flagged s' = {}"
    show "runs s' (\<lambda>s'. flagged s' = {}) (first_scan_entries en q d with_exists dpath names s')"
      using Cons.IH [OF s'(1) node_there [OF s'(2) Cons.prems(2)] _ s'(3)] Cons.prems(3) sub_linked_grows [OF s'(2)]
      by simp
  qed
qed

lemma first_scan_dir_runs:
  assumes inv: "poll_inv s" and d: "pl_nodes s d \<noteq> None" and q: "\<exists>sp. sub_linked s sp q" and fl: "flagged s = {}"
  shows "runs s (\<lambda>s'. flagged s' = {}) (gam_poll_generic_first_scan_dir en pf q d dpath s)"
proof -
  obtain sub where sub: "sv_subs s q = Some sub" using q by (auto simp: sub_linked_def)
  let ?we = "\<not> gam_subscription_has_option (Some sub) opt_noexists"
  have emit: "runs t (\<lambda>s'. flagged s' = {}) (gam_server_emit_event dpath True e [q] True t)"
    if "poll_inv t" "grows s t" "flagged t = {}" for t e
    using emit_subs_runs [OF that(1), of "[q]" "{}"] that q sub_linked_grows [OF that(2)] by auto
  have endex: "runs t (\<lambda>s'. flagged s' = {})
      (if ?we then gam_server_emit_event dpath True GAMIN_EVENT_ENDEXISTS [q] True t else Some t)"
    if "poll_inv t" "grows s t" "flagged t = {}" for t
    using emit [OF that] that by (auto intro: runsI)
  show ?thesis
  proof (cases "file_exists en dpath")
    case False
    show ?thesis
      unfolding gam_poll_generic_first_scan_dir_def sub Option.bind.bind_lunit Let_def
      using False
    proof (simp only: if_True if_False simp_thms, intro runs_bind [OF emit [OF inv grows_refl fl]])
      fix s1 assume s1: "poll_inv s1" "grows s s1" "flagged s1 = {}"
      obtain nd where nd: "pl_nodes s1 d = Some nd" using node_there [OF s1(2) d] by auto
      let ?s2 = "upd_node d (\<lambda>nda. nda\<lparr>nd_sbuf := case en_stat en (nd_path nda) of STAT_OK st \<Rightarrow> st | _ \<Rightarrow> nd_sbuf nda,
                    nd_lasttime := pl_time s1\<rparr>) s1"
      have s2: "poll_inv ?s2" "grows s1 ?s2" "flagged ?s2 = {}" "pl_nodes ?s2 d \<noteq> None"
        using s1 nd by simp_all
      obtain s3 where s3: "gam_node_set_pflags d MON_MISSING ?s2 = Some s3" "poll_inv s3" "grows ?s2 s3" "flagged s3 = flagged ?s2"
        using pflag_runs(3) [OF s2(1,4), unfolded runs_def] by blast
      let ?s4 = "gam_poll_generic_add_missing d s3"
      have s4: "poll_inv ?s4" "flagged ?s4 = {}"
        using lists_runs(1) [OF s3(2) node_there [OF s3(3) s2(4)]] s3(4) s2(3) by simp_all
      have g: "grows s1 ?s4" by (rule grows_trans [OF s2(2) grows_trans [OF s3(3) lists_grows(1)]])
      have "runs ?s4 (\<lambda>s'. flagged s' = {})
         (if ?we then gam_server_emit_event dpath True GAMIN_EVENT_ENDEXISTS [q] True ?s4 else Some ?s4)"
        by (rule endex [OF s4(1) grows_trans [OF s1(2) g] s4(2)])
      then have "runs s1 (\<lambda>s'. flagged s' = {})
         (if ?we then gam_server_emit_event dpath True GAMIN_EVENT_ENDEXISTS [q] True ?s4 else Some ?s4)"
        using g by (auto simp: runs_def intro: grows_trans)
      then show "runs s1 (\<lambda>s'. flagged s' = {})
        (do { nd \<leftarrow> pl_nodes s1 d;
              s3 \<leftarrow> gam_node_set_pflags d MON_MISSING (upd_node d (\<lambda>nda. nda\<lparr>nd_sbuf := case en_stat en (nd_path nda) of STAT_OK st \<Rightarrow> st | _ \<Rightarrow> nd_sbuf nda,
                    nd_lasttime := pl_time s1\<rparr>) s1);
              if ?we then gam_server_emit_event dpath True GAMIN_EVENT_ENDEXISTS [q] True (gam_poll_generic_add_missing d s3)
              else Some (gam_poll_generic_add_missing d s3) })"
        unfolding nd Option.bind.bind_lunit s3(1) .
    qed
  next
    case True
    obtain nd where nd: "pl_nodes s d = Some nd" using d by auto
    have first: "runs2 s (\<lambda>s'. flagged s' = {}) (if nd_lasttime nd = 0 then pf d s else Some (0, s))"
      using poll_file [OF inv d] inv fl by (auto intro: runs2I)
    have "runs s (\<lambda>s'. flagged s' = {})
      (do { (event, s1) \<leftarrow> (if nd_lasttime nd = 0 then pf d s else Some (0, s));
            s2 \<leftarrow> (if ?we then gam_server_emit_event dpath True GAMIN_EVENT_EXISTS [q] True s1 else Some s1);
            case en_readdir en dpath of
              None \<Rightarrow> if ?we then gam_server_emit_event dpath True GAMIN_EVENT_ENDEXISTS [q] True s2 else Some s2
            | Some names \<Rightarrow>
                do { s3 \<leftarrow> first_scan_entries en q d ?we dpath names s2;
                     if ?we then gam_server_emit_event dpath True GAMIN_EVENT_ENDEXISTS [q] True s3 else Some s3 } })"
    proof (rule runs_bind2 [OF first], simp only: prod.case)
      fix s1 assume s1: "poll_inv s1" "grows s s1" "flagged s1 = {}"
      have ex: "runs s1 (\<lambda>s'. flagged s' = {}) (if ?we then gam_server_emit_event dpath True GAMIN_EVENT_EXISTS [q] True s1 else Some s1)"
        using emit [OF s1] s1 by (auto intro: runsI)
      show "runs s1 (\<lambda>s'. flagged s' = {})
        (do { s2 \<leftarrow> (if ?we then gam_server_emit_event dpath True GAMIN_EVENT_EXISTS [q] True s1 else Some s1);
            case en_readdir en dpath of
              None \<Rightarrow> if ?we then gam_server_emit_event dpath True GAMIN_EVENT_ENDEXISTS [q] True s2 else Some s2
            | Some names \<Rightarrow>
                do { s3 \<leftarrow> first_scan_entries en q d ?we dpath names s2;
                     if ?we then gam_server_emit_event dpath True GAMIN_EVENT_ENDEXISTS [q] True s3 else Some s3 } })"
      proof (rule runs_bind [OF ex])
        fix s2 assume s2: "poll_inv s2" "grows s1 s2" "flagged s2 = {}"
        have g: "grows s s2" by (rule grows_trans [OF s1(2) s2(2)])
        have qq: "\<exists>sp. sub_linked s2 sp q" using q sub_linked_grows [OF g] by simp
        have ents: "runs s2 (\<lambda>s'. flagged s' = {}) (first_scan_entries en q d ?we dpath names s2)" for names
          by (rule first_scan_entries_runs [OF s2(1) node_there [OF g d] qq s2(3)])
        have "runs s2 (\<lambda>s'. flagged s' = {})
            (do { s3 \<leftarrow> first_scan_entries en q d ?we dpath names s2;
                  if ?we then gam_server_emit_event dpath True GAMIN_EVENT_ENDEXISTS [q] True s3 else Some s3 })" for names
          by (rule runs_bind [OF ents], rule endex, assumption, rule grows_trans [OF g], assumption+)
        then show "runs s2 (\<lambda>s'. flagged s' = {}) (case en_readdir en dpath of
              None \<Rightarrow> if ?we then gam_server_emit_event dpath True GAMIN_EVENT_ENDEXISTS [q] True s2 else Some s2
            | Some names \<Rightarrow>
                do { s3 \<leftarrow> first_scan_entries en q d ?we dpath names s2;
                     if ?we then gam_server_emit_event dpath True GAMIN_EVENT_ENDEXISTS [q] True s3 else Some s3 })"
          using endex [OF s2(1) g s2(3)] by (cases "en_readdir en dpath") simp_all
      qed
    qed
    then show ?thesis
      unfolding gam_poll_generic_first_scan_dir_def sub Option.bind.bind_lunit Let_def nd
      using True by simp
  qed
qed

end

interpretation basic_poll: poll_backend "gam_poll_basic_poll_file en" for en
  by unfold_locales (rule poll_file_runs)

end
