(* ===== verification/Gam_Poll_Tick.thy ===== *)
theory Gam_Poll_Tick
  imports Gam_Poll_Inv
begin

unbundle bit_operations_syntax

text \<open>
  The operations of the basic polling back end as wholes: adding a subscription, the timer, removing a
  subscription. Each of them keeps the invariant and does not abort, and the loops of the timer end
  after at most as many rounds as there are nodes.
\<close>

section \<open>What a scan leaves alone\<close>

text \<open>The nodes that are on the list of missing nodes or may get there while the file system is as it is
  in \<open>en\<close>.\<close>

definition waiting :: "fenv \<Rightarrow> 'b psrv_scheme \<Rightarrow> cptr set" where
  "waiting en s = set (pl_missing s) \<union>
     {n. \<exists>nd. pl_nodes s n = Some nd \<and> nd_lasttime nd \<noteq> 0 \<and> nd_pflags nd AND MON_MISSING = 0 \<and>
           en_stat en (nd_path nd) = STAT_NOENT}"

definition frame :: "fenv \<Rightarrow> 'b psrv_scheme \<Rightarrow> 'b psrv_scheme \<Rightarrow> bool" where
  "frame en s s' \<longleftrightarrow> pl_all s' = pl_all s \<and> waiting en s' \<subseteq> waiting en s \<and>
     (distinct (pl_missing s) \<longrightarrow> distinct (pl_missing s')) \<and> pl_time s' = pl_time s"

lemma frame_refl [simp]: "frame en s s"
  by (simp add: frame_def)

lemma frame_trans: "frame en s s' \<Longrightarrow> frame en s' s'' \<Longrightarrow> frame en s s''"
  by (auto simp: frame_def)

lemma frame_quiet:
  fixes s :: "'b psrv_scheme"
  shows "quiet s s' \<Longrightarrow> frame en s s'"
  by (simp add: frame_def waiting_def quiet_poll)

lemma frame_emit:
  fixes s :: "'b psrv_scheme"
  shows "gam_server_emit_event p d e qs f s = Some s' \<Longrightarrow> frame en s s'"
  by (rule frame_quiet, rule emit_quiet)

text \<open>An update of a node that does not change when it was polled nor whether it is missing.\<close>

lemma frame_upd:
  assumes "\<And>nd. nd_lasttime (f nd) = nd_lasttime nd \<and> nd_pflags (f nd) = nd_pflags nd \<and> nd_path (f nd) = nd_path nd"
  shows "frame en s (upd_node n f s)"
  using assms by (auto simp: frame_def waiting_def split: if_splits)

lemma frame_alloc: "nd_lasttime nd = 0 \<Longrightarrow> frame en s (snd (alloc_node nd s))"
  by (auto simp: frame_def waiting_def alloc_node_def split: if_splits)

lemma frame_tree_add:
  assumes "gam_tree_add p c s = Some (b, s')"
  shows "frame en s s'"
proof -
  have h: "frame en s (s\<lparr>pl_hash := h\<rparr>)" for s :: "'a psrv_scheme" and h
    by (simp add: frame_def waiting_def)
  let ?s2 = "upd_node p (\<lambda>nd. nd\<lparr>nd_children := nd_children nd @ [c]\<rparr>)
      (upd_node c (\<lambda>nd. nd\<lparr>nd_parent := Some p, nd_children := []\<rparr>) s)"
  have "frame en s ?s2" by (rule frame_trans; rule frame_upd) simp_all
  then have "frame en s (?s2\<lparr>pl_hash := h\<rparr>)" for h using h by (rule frame_trans)
  moreover have "s' = s \<or> (\<exists>h. s' = ?s2\<lparr>pl_hash := h\<rparr>)"
    using assms by (auto simp: gam_tree_add_def simp del: upd_node_simps split: Option.bind_splits if_splits)
  ultimately show ?thesis by auto
qed

lemma frame_flag:
  "gam_node_set_flag n fl s = Some s' \<Longrightarrow> frame en s s'" "gam_node_unset_flag n fl s = Some s' \<Longrightarrow> frame en s s'"
  by (auto simp: gam_node_set_flag_def gam_node_unset_flag_def simp del: upd_node_simps
      intro!: frame_upd split: Option.bind_splits if_splits)

lemma frame_scan_entry: "scan_entry en' d name s = Some s' \<Longrightarrow> frame en s s'"
proof -
  assume a: "scan_entry en' d name s = Some s'"
  let ?nd = "\<lambda>dnd. gam_node_new en' (g_build_filename (nd_path dnd) name) None
          (file_is_dir en' (g_build_filename (nd_path dnd) name))"
  show ?thesis
  proof (cases "gam_tree_get_at_path (g_build_filename (nd_path (the (pl_nodes s d))) name) s")
    case (Some n)
    then show ?thesis using a by (auto simp: scan_entry_def split: Option.bind_splits)
  next
    case None
    obtain dnd where dnd: "pl_nodes s d = Some dnd"
      using a by (auto simp: scan_entry_def split: Option.bind_splits)
    with None a obtain b s2 where d:
        "gam_tree_add d (pl_nextnode s) (snd (alloc_node (?nd dnd) s)) = Some (b, s2)"
        "gam_node_set_flag (pl_nextnode s) FLAG_NEW_NODE s2 = Some s'"
      by (auto simp: scan_entry_def split_beta split: Option.bind_splits)
    have "nd_lasttime (?nd dnd) = 0" by (simp add: gam_node_new_def)
    from frame_trans [OF frame_trans [OF frame_alloc [OF this] frame_tree_add [OF d(1)]] frame_flag(1) [OF d(2)]]
    show ?thesis .
  qed
qed

section \<open>Polling a file in one equation\<close>

definition poll_due :: "GamNode \<Rightarrow> 'b psrv_scheme \<Rightarrow> bool" where
  "poll_due nd s \<longleftrightarrow> \<not> (nd_lasttime nd \<noteq> 0 \<and> gam_poll_generic_get_delta_time (nd_lasttime nd) s < nd_poll_time nd)"

definition nd_missing :: "GamNode \<Rightarrow> bool" where
  "nd_missing nd \<longleftrightarrow> nd_pflags nd AND MON_MISSING \<noteq> 0"

definition poll_event :: "fenv \<Rightarrow> GamNode \<Rightarrow> evtype" where
  "poll_event en nd =
     (case en_stat en (nd_path nd) of
        STAT_OK st \<Rightarrow>
          if nd_lasttime nd = 0 then 0
          else if nd_missing nd then GAMIN_EVENT_CREATED
          else if gam_poll_generic_node_changed nd st then GAMIN_EVENT_CHANGED else 0
      | STAT_NOENT \<Rightarrow> if nd_lasttime nd = 0 \<or> \<not> nd_missing nd then GAMIN_EVENT_DELETED else 0
      | STAT_ERR \<Rightarrow> if nd_lasttime nd = 0 then GAMIN_EVENT_DELETED else 0)"

definition poll_pflags :: "fenv \<Rightarrow> GamNode \<Rightarrow> evtype" where
  "poll_pflags en nd =
     (case en_stat en (nd_path nd) of
        STAT_OK st \<Rightarrow> if nd_lasttime nd \<noteq> 0 \<and> nd_missing nd then nd_pflags nd AND NOT MON_MISSING else nd_pflags nd
      | STAT_NOENT \<Rightarrow> if nd_lasttime nd = 0 then nd_pflags nd OR MON_MISSING
                      else if nd_missing nd then nd_pflags nd else MON_MISSING
      | STAT_ERR \<Rightarrow> if nd_lasttime nd = 0 then nd_pflags nd OR MON_MISSING else nd_pflags nd)"

definition poll_node :: "fenv \<Rightarrow> int \<Rightarrow> GamNode \<Rightarrow> GamNode" where
  "poll_node en t nd = nd\<lparr>
     nd_is_dir := (case en_stat en (nd_path nd) of STAT_OK st \<Rightarrow> st_is_dir st | _ \<Rightarrow> nd_is_dir nd),
     nd_sbuf := (case en_stat en (nd_path nd) of STAT_OK st \<Rightarrow> st | _ \<Rightarrow> stat_zero),
     nd_lasttime := t, nd_pflags := poll_pflags en nd\<rparr>"

definition poll_lists :: "fenv \<Rightarrow> GamNode \<Rightarrow> cptr \<Rightarrow> 'b psrv_scheme \<Rightarrow> 'b psrv_scheme" where
  "poll_lists en nd n s =
     (if nd_lasttime nd = 0 then s
      else case en_stat en (nd_path nd) of
        STAT_OK st \<Rightarrow> if nd_missing nd then gam_poll_generic_remove_missing n s else s
      | STAT_NOENT \<Rightarrow> if nd_missing nd then s else gam_poll_generic_add_missing n (gam_poll_generic_remove_busy n s)
      | STAT_ERR \<Rightarrow> s)"

lemma upd_node_twice: "upd_node n f (upd_node n g s) = upd_node n (\<lambda>nd. f (g nd)) s"
  by (simp add: upd_node_def option.map_comp comp_def)

lemma upd_node_cong: "(\<And>nd. pl_nodes s n = Some nd \<Longrightarrow> f nd = g nd) \<Longrightarrow> upd_node n f s = upd_node n g s"
  by (cases "pl_nodes s n") (simp_all add: upd_node_def)

lemma upd_node_lists:
  "upd_node n f (gam_poll_generic_remove_missing n s) = gam_poll_generic_remove_missing n (upd_node n f s)"
  "upd_node n f (gam_poll_generic_remove_busy n s) = gam_poll_generic_remove_busy n (upd_node n f s)"
  "upd_node n f (gam_poll_generic_add_missing n s) = gam_poll_generic_add_missing n (upd_node n f s)"
  by (simp_all add: upd_node_def gam_poll_generic_remove_missing_def gam_poll_generic_remove_busy_def
      gam_poll_generic_add_missing_def)

lemma poll_file_eq:
  assumes nd: "pl_nodes s n = Some nd" and due: "poll_due nd s"
  shows "gam_poll_basic_poll_file en n s =
    Some (poll_event en nd, poll_lists en nd n (upd_node n (poll_node en (pl_time s)) s))"
proof -
  note flags = gam_node_set_pflag_def gam_node_unset_pflag_def gam_node_set_pflags_def gam_node_has_pflag_def
  note spec = poll_event_def poll_node_def poll_lists_def poll_pflags_def nd_missing_def
  have c: "upd_node n f s = upd_node n (\<lambda>_. f nd) s" for f
    by (rule upd_node_cong) (simp add: nd)
  show ?thesis
  proof (cases "nd_lasttime nd = 0")
    case True
    then show ?thesis using nd due
      by (cases "en_stat en (nd_path nd)")
         (auto simp: gam_poll_basic_poll_file_def flags spec upd_node_twice upd_node_simps(8)
            simp del: upd_node_simps(1-7) intro!: upd_node_cong)
  next
    case False
    then show ?thesis using nd due
      by (cases "en_stat en (nd_path nd)")
         (auto simp: gam_poll_basic_poll_file_def flags spec upd_node_twice upd_node_lists poll_due_def
            simp del: upd_node_simps(2-11) intro!: upd_node_cong arg_cong [where f = "gam_poll_generic_remove_missing n"]
            arg_cong [where f = "\<lambda>s. gam_poll_generic_add_missing n (gam_poll_generic_remove_busy n s)"])
  qed
qed

lemma poll_file_not_due:
  "pl_nodes s n = Some nd \<Longrightarrow> \<not> poll_due nd s \<Longrightarrow> gam_poll_basic_poll_file en n s = Some (0, s)"
  by (simp add: gam_poll_basic_poll_file_def poll_due_def)

lemma missing_bit: "(w OR MON_MISSING) AND MON_MISSING \<noteq> 0" "MON_MISSING AND MON_MISSING \<noteq> (0 :: evtype)"
proof -
  have b: "bit MON_MISSING 0" by (simp add: MON_MISSING_def)
  then have "bit ((w OR MON_MISSING) AND MON_MISSING) 0" by (simp add: bit_and_iff bit_or_iff)
  then show "(w OR MON_MISSING) AND MON_MISSING \<noteq> 0" by (metis bit_0_eq bot_apply bot_bool_def)
  show "MON_MISSING AND MON_MISSING \<noteq> (0 :: evtype)" by (simp add: MON_MISSING_def)
qed

lemma poll_node_waits:
  assumes "nd_lasttime (poll_node en t nd) \<noteq> 0" "nd_pflags (poll_node en t nd) AND MON_MISSING = 0"
    "en_stat en (nd_path (poll_node en t nd)) = STAT_NOENT"
  shows False
  using assms missing_bit
  by (auto simp: poll_node_def poll_pflags_def nd_missing_def split: if_splits)

lemma frame_poll_file:
  assumes "gam_poll_basic_poll_file en n s = Some (e, s')"
  shows "frame en s s'"
proof -
  obtain nd where nd: "pl_nodes s n = Some nd"
    using assms by (auto simp: gam_poll_basic_poll_file_def split: Option.bind_splits)
  show ?thesis
  proof (cases "poll_due nd s")
    case False
    then show ?thesis using assms poll_file_not_due [OF nd] by simp
  next
    case True
    let ?t = "upd_node n (poll_node en (pl_time s)) s"
    have s': "s' = poll_lists en nd n ?t" using assms poll_file_eq [OF nd True] by simp
    have base: "frame en s ?t"
      using poll_node_waits [of en "pl_time s" nd] nd
      by (auto simp: frame_def waiting_def)
    have n: "n \<in> waiting en s" if "nd_lasttime nd \<noteq> 0" "\<not> nd_missing nd" "en_stat en (nd_path nd) = STAT_NOENT"
      using that nd by (auto simp: waiting_def nd_missing_def)
    have w: "waiting en (gam_poll_generic_add_missing n (gam_poll_generic_remove_busy n ?t)) \<subseteq> insert n (waiting en ?t)"
      "waiting en (gam_poll_generic_remove_missing n ?t) \<subseteq> waiting en ?t"
      by (auto simp: waiting_def gam_poll_generic_add_missing_def gam_poll_generic_remove_busy_def
          gam_poll_generic_remove_missing_def)
    have "frame en s (gam_poll_generic_add_missing n (gam_poll_generic_remove_busy n ?t))"
      if "n \<in> waiting en s"
      using base w(1) that
      by (auto simp: frame_def gam_poll_generic_add_missing_def gam_poll_generic_remove_busy_def)
    moreover have "frame en s (gam_poll_generic_remove_missing n ?t)"
      using base w(2) by (auto simp: frame_def gam_poll_generic_remove_missing_def distinct_removeAll)
    ultimately show ?thesis
      using base n unfolding s' poll_lists_def by (auto split: statres.split)
  qed
qed

text \<open>What holds of every step of a scan holds of the scan.\<close>

locale scan_steps =
  fixes R :: "'x psrv_scheme \<Rightarrow> 'x psrv_scheme \<Rightarrow> bool" and pf :: "'x psrv_scheme poll_hook"
  assumes step_refl: "R s s" and step_trans: "R s s' \<Longrightarrow> R s' s'' \<Longrightarrow> R s s''"
    and step_quiet: "quiet s s' \<Longrightarrow> R s s'"
    and step_unmark: "gam_node_unset_flag n fl s = Some s' \<Longrightarrow> R s s'"
    and step_entry: "scan_entry en d name s = Some s' \<Longrightarrow> R s s'"
    and step_poll: "pf n s = Some (e, s') \<Longrightarrow> R s s'"
begin

lemma step_emit: "gam_server_emit_event p d e qs f s = Some s' \<Longrightarrow> R s s'"
  by (rule step_quiet, rule emit_quiet)

lemma step_node_emit: "gam_node_emit_event n e s = Some s' \<Longrightarrow> R s s'"
  by (auto simp: gam_node_emit_event_def dest: step_emit split: Option.bind_splits)

lemma step_entries: "scan_entries en d names s = Some s' \<Longrightarrow> R s s'"
  by (induction names arbitrary: s)
     (auto dest!: step_entry intro: step_refl step_trans split: Option.bind_splits)

lemma step_child:
  assumes scan: "\<And>n s s'. scan n s = Some s' \<Longrightarrow> R s s'" and a: "scan_child scan pf d n s = Some s'"
  shows "R s s'"
  using a
  by (auto simp: scan_child_def split: Option.bind_splits if_splits
      dest!: step_poll step_node_emit step_unmark scan)
     (meson step_trans)+

lemma step_children:
  assumes scan: "\<And>n s s'. scan n s = Some s' \<Longrightarrow> R s s'"
  shows "scan_children scan pf d ns s = Some s' \<Longrightarrow> R s s'"
  by (induction ns arbitrary: s)
     (auto split: Option.bind_splits dest!: step_child [OF scan, rotated] intro: step_refl step_trans)

lemma step_directory: "scan_directory k en pf d s = Some s' \<Longrightarrow> R s s'"
proof (induction k arbitrary: d s s')
  case (Suc k)
  have kids: "scan_children (scan_directory k en pf) pf d ns s = Some s' \<Longrightarrow> R s s'" for d ns s s'
    by (rule step_children) (rule Suc.IH)
  show ?case
    using Suc.prems
    by (auto split: Option.bind_splits if_splits option.splits
        dest!: kids step_poll step_node_emit step_entries intro: step_refl)
       (meson step_trans)+
qed simp

lemma step_internal: "gam_poll_generic_scan_directory_internal en pf d s = Some s' \<Longrightarrow> R s s'"
  unfolding gam_poll_generic_scan_directory_internal_def by (rule step_directory)

end

text \<open>The same for the first scan of the directory \<open>d\<close>.\<close>

locale first_scan_steps = scan_steps +
  fixes d :: cptr
  assumes step_upd: "payload f \<Longrightarrow> R s (upd_node d f s)"
    and step_missing: "R s (gam_poll_generic_add_missing d s)"
    and step_first_entry: "first_scan_entry en q d w dpath name s = Some s' \<Longrightarrow> R s s'"
begin

lemma step_first_entries: "first_scan_entries en q d w dpath names s = Some s' \<Longrightarrow> R s s'"
proof (induction names arbitrary: s)
  case Nil
  then show ?case by (simp add: step_refl)
next
  case (Cons name names)
  then obtain s1 where "first_scan_entry en q d w dpath name s = Some s1" "first_scan_entries en q d w dpath names s1 = Some s'"
    by (auto split: Option.bind_splits)
  then show ?case using step_first_entry Cons.IH step_trans by blast
qed

lemma step_set_missing: "gam_node_set_pflags d fl s = Some s' \<Longrightarrow> R s (gam_poll_generic_add_missing d s')"
  by (auto simp: gam_node_set_pflags_def simp del: upd_node_simps split: Option.bind_splits
      intro: step_trans [OF step_upd step_missing])

lemma step_first_scan: "gam_poll_generic_first_scan_dir en pf q d dpath s = Some s' \<Longrightarrow> R s s'"
proof -
  assume a: "gam_poll_generic_first_scan_dir en pf q d dpath s = Some s'"
  have u: "R s1 (upd_node d f s2)" if "R s1 s2" "payload f" for f s1 s2
    using step_trans [OF that(1) step_upd [OF that(2)]] .
  have am: "gam_node_set_pflags d fl (upd_node d f s1) = Some s2 \<Longrightarrow> payload f \<Longrightarrow> R s1 (gam_poll_generic_add_missing d s2)"
    for fl f s1 s2
    using step_trans [OF step_upd step_set_missing] .
  show ?thesis
    using a
    by (auto simp: gam_poll_generic_first_scan_dir_def step_refl simp del: upd_node_simps gam_server_emit_event.simps
        dest!: step_emit step_first_entries step_poll am split: Option.bind_splits if_splits option.splits)
       (meson step_trans u payload_simps)+
qed

end

interpretation basic_scan: scan_steps "frame en" "gam_poll_basic_poll_file en" for en
  by unfold_locales
     (rule frame_refl, erule (1) frame_trans, erule frame_quiet, erule frame_flag, erule frame_scan_entry, erule frame_poll_file)

lemma frame_scan_resource: "scan_resource en n s = Some s' \<Longrightarrow> frame en s s'"
  by (auto simp: scan_resource_def split: Option.bind_splits if_splits
      dest!: basic_scan.step_internal frame_poll_file basic_scan.step_node_emit [where en = en])
     (meson frame_trans)+

section \<open>The timer\<close>

text \<open>Between two operations no node is marked as new and the list of missing nodes has no repetition.\<close>

definition poll_ok :: "'b psrv_scheme \<Rightarrow> bool" where
  "poll_ok s \<longleftrightarrow> poll_inv s \<and> flagged s = {} \<and> distinct (pl_missing s)"

lemma scan_resource_runs:
  assumes "poll_ok s" "pl_nodes s n \<noteq> None"
  shows "\<exists>s'. scan_resource en n s = Some s' \<and> poll_ok s' \<and> grows s s' \<and> frame en s s'"
proof -
  have inv: "poll_inv s" "flagged s = {}" using assms(1) by (simp_all add: poll_ok_def)
  obtain nd where nd: "pl_nodes s n = Some nd" using assms(2) by auto
  have "runs s (\<lambda>s'. flagged s' = {}) (scan_resource en n s)"
  proof (cases "nd_is_dir nd")
    case True
    then show ?thesis using basic_poll.scan_internal_runs [OF inv(1) assms(2) inv(2)] nd
      by (simp add: scan_resource_def)
  next
    case False
    have "runs s (\<lambda>s'. flagged s' = {})
        (do { (event, s1) \<leftarrow> gam_poll_basic_poll_file en n s; gam_node_emit_event n event s1 })"
    proof (rule runs_bind2 [OF poll_file_runs [OF inv(1) assms(2)]])
      fix e s' assume s': "poll_inv s'" "grows s s'" "flagged s' = flagged s"
      show "runs s' (\<lambda>s'. flagged s' = {}) (case (e, s') of (event, s1) \<Rightarrow> gam_node_emit_event n event s1)"
        using emit_event_runs [OF s'(1) node_there [OF s'(2) assms(2)], of "{}"] s'(3) inv(2) by simp
    qed
    then show ?thesis using nd False by (simp add: scan_resource_def)
  qed
  then obtain s' where "scan_resource en n s = Some s'" "poll_inv s'" "grows s s'" "flagged s' = {}"
    by (auto simp: runs_def)
  with frame_scan_resource [OF this(1)] assms(1) show ?thesis by (auto simp: poll_ok_def frame_def)
qed

lemma nodes_below: "poll_inv s \<Longrightarrow> dom (pl_nodes s) \<subseteq> {..<pl_nextnode s}"
  using tree_node(1) [OF poll_tree] by fastforce

lemma distinct_below:
  assumes "distinct xs" "set xs \<subseteq> {..<n}"
  shows "length xs \<le> (n :: nat)"
  using assms card_mono [OF _ assms(2)] by (simp add: distinct_card)

lemma scan_all_loop_runs:
  assumes "poll_ok s" "length (pl_all s) < k + idx" "idx \<le> length (pl_all s)"
  shows "\<exists>s'. scan_all_loop k en idx s = Some s' \<and> poll_ok s' \<and> grows s s' \<and> frame en s s'"
  using assms
proof (induction k arbitrary: idx s)
  case (Suc k)
  show ?case
  proof (cases "idx < length (pl_all s)")
    case True
    have "pl_all s ! idx \<in> dom (pl_nodes s)"
      using poll_lists(3) [of s "pl_all s ! idx"] Suc.prems(1) True by (simp add: poll_ok_def)
    then obtain s1 where s1: "scan_resource en (pl_all s ! idx) s = Some s1" "poll_ok s1" "grows s s1" "frame en s s1"
      using scan_resource_runs [OF Suc.prems(1)] by blast
    have "\<exists>s'. scan_all_loop k en (Suc idx) s1 = Some s' \<and> poll_ok s' \<and> grows s1 s' \<and> frame en s1 s'"
      using Suc.prems(2) True s1(4) by (intro Suc.IH [OF s1(2)]) (auto simp: frame_def)
    then show ?thesis using True s1 by (auto intro: grows_trans frame_trans)
  next
    case False
    then show ?thesis using Suc.prems(1) by simp
  qed
qed simp

lemma scan_missing_loop_runs:
  assumes "poll_ok s" "waiting en s \<subseteq> {..<w}" "w < k + idx" "idx \<le> w"
  shows "\<exists>s'. scan_missing_loop k en idx s = Some s' \<and> poll_ok s' \<and> grows s s'"
  using assms
proof (induction k arbitrary: idx s)
  case (Suc k)
  show ?case
  proof (cases "idx < length (pl_missing s)")
    case True
    let ?n = "pl_missing s ! idx"
    have "length (pl_missing s) \<le> w"
      using Suc.prems(1,2) by (intro distinct_below) (auto simp: poll_ok_def waiting_def)
    have n: "?n \<in> dom (pl_nodes s)"
      using poll_lists(1) [of s ?n] Suc.prems(1) True by (simp add: poll_ok_def)
    obtain s1 where s1: "scan_resource en ?n s = Some s1" "poll_ok s1" "grows s s1" "frame en s s1"
      using scan_resource_runs [OF Suc.prems(1)] n by blast
    have n1: "pl_nodes s1 ?n \<noteq> None" using node_there [OF s1(3)] n by blast
    then obtain m where m: "gam_node_has_pflags ?n MON_MISSING s1 = Some m" by (auto simp: gam_node_has_pflags_def)
    let ?s2 = "if \<not> m then gam_poll_generic_add ?n (gam_poll_generic_remove_missing ?n s1) else s1"
    have inv1: "poll_inv s1" "flagged s1 = {}" "distinct (pl_missing s1)" using s1(2) by (simp_all add: poll_ok_def)
    have s2: "poll_ok ?s2"
      using inv1 lists_runs(4) [OF lists_runs(2) [OF inv1(1) n1], of ?n] n1
      by (simp add: poll_ok_def distinct_removeAll)
    have g: "grows s ?s2"
      using s1(3) grows_trans [OF grows_trans [OF s1(3) lists_grows(2)] lists_grows(4)] by simp
    have "waiting en ?s2 \<subseteq> waiting en s1"
      by (auto simp: waiting_def gam_poll_generic_add_def gam_poll_generic_remove_missing_def)
    moreover have "waiting en s1 \<subseteq> waiting en s" using s1(4) by (simp add: frame_def)
    ultimately have "waiting en ?s2 \<subseteq> {..<w}" using Suc.prems(2) by (meson subset_trans)
    then have "\<exists>s'. scan_missing_loop k en (Suc idx) ?s2 = Some s' \<and> poll_ok s' \<and> grows ?s2 s'"
      using Suc.prems(3) True \<open>length (pl_missing s) \<le> w\<close> by (intro Suc.IH [OF s2]) simp_all
    then obtain s' where "scan_missing_loop k en (Suc idx) ?s2 = Some s'" "poll_ok s'" "grows ?s2 s'" by blast
    moreover have "scan_missing_loop (Suc k) en idx s = scan_missing_loop k en (Suc idx) ?s2"
      using True s1(1) m by simp
    ultimately show ?thesis using grows_trans [OF g] by metis
  next
    case False
    then show ?thesis using Suc.prems(1) by simp
  qed
qed simp

lemma running_ok: "poll_ok s \<Longrightarrow> poll_ok (s\<lparr>pl_running := b\<rparr>)"
proof -
  assume ok: "poll_ok s"
  have inv: "poll_inv s" using ok by (simp add: poll_ok_def)
  then have "set (pl_missing s) \<union> set (pl_busy s) \<union> set (pl_all s) \<subseteq> dom (pl_nodes s)" "distinct (pl_all s)"
    unfolding poll_inv_def by blast+
  with inv have "poll_inv (s\<lparr>pl_running := b\<rparr>)"
    by - (rule same_tree [where s = s], simp_all)
  moreover have "flagged (s\<lparr>pl_running := b\<rparr>) = flagged s" by (simp add: flagged_def)
  ultimately show ?thesis using ok by (simp add: poll_ok_def)
qed

lemma running_grows: "grows s s' \<Longrightarrow> grows s (s'\<lparr>pl_running := b\<rparr>)"
  by (simp add: grows_def)

lemma scan_callback_runs:
  assumes "poll_ok s" "pl_nextnode s < k"
  shows "\<exists>b s'. gam_poll_basic_scan_callback k en s = Some (b, s') \<and> poll_ok s' \<and> grows s s'"
proof -
  let ?s0 = "gam_poll_generic_update_time en s"
  have s0: "poll_ok ?s0"
    using assms(1) update_time_inv [of s en] by (simp add: poll_ok_def)
  have n0: "pl_nextnode ?s0 = pl_nextnode s" by simp
  have inv: "poll_inv ?s0" using s0 by (simp add: poll_ok_def)
  have "length (pl_all ?s0) \<le> pl_nextnode s"
    using poll_lists(3,4) [OF inv] nodes_below [OF inv] n0 by (intro distinct_below) auto
  then obtain s1 where s1: "scan_all_loop k en 0 ?s0 = Some s1" "poll_ok s1" "grows ?s0 s1" "frame en ?s0 s1"
    using scan_all_loop_runs [OF s0, of k 0 en] assms(2) by auto
  have "waiting en ?s0 \<subseteq> {..<pl_nextnode s}"
    using poll_lists(1) [OF inv] nodes_below [OF inv] n0 by (fastforce simp: waiting_def)
  then have "waiting en s1 \<subseteq> {..<pl_nextnode s}" using s1(4) by (auto simp: frame_def)
  then obtain s2 where s2: "scan_missing_loop k en 0 s1 = Some s2" "poll_ok s2" "grows s1 s2"
    using scan_missing_loop_runs [OF s1(2), of en "pl_nextnode s" k 0] assms(2) by auto
  have g: "grows s s2" by (rule grows_trans [OF lists_grows(5) grows_trans [OF s1(3) s2(3)]])
  have r: "poll_ok (s2\<lparr>pl_running := False\<rparr>)" "grows s (s2\<lparr>pl_running := False\<rparr>)"
    using running_ok [OF s2(2)] running_grows [OF g] by simp_all
  show ?thesis
    using s1(1) s2 g r by (auto simp: gam_poll_basic_scan_callback_def)
qed

section \<open>Adding a subscription\<close>

definition nodup :: "'b psrv_scheme \<Rightarrow> 'b psrv_scheme \<Rightarrow> bool" where
  "nodup s s' \<longleftrightarrow> (distinct (pl_missing s) \<longrightarrow> distinct (pl_missing s'))"

lemma nodup_refl [simp]: "nodup s s"
  by (simp add: nodup_def)

lemma nodup_trans: "nodup s s' \<Longrightarrow> nodup s' s'' \<Longrightarrow> nodup s s''"
  by (simp add: nodup_def)

lemma nodup_frame: "frame en s s' \<Longrightarrow> nodup s s'"
  by (simp add: frame_def nodup_def)

lemma nodup_upd: "nodup s (upd_node n f s)"
  by (simp add: nodup_def)

lemma nodup_add_missing: "nodup s (gam_poll_generic_add_missing n s)"
  by (simp add: nodup_def gam_poll_generic_add_missing_def)

lemma nodup_emit:
  fixes s :: "'b psrv_scheme"
  shows "gam_server_emit_event p d e qs f s = Some s' \<Longrightarrow> nodup s s'"
  using nodup_frame [OF frame_emit] .

lemma nodup_first_entry: "first_scan_entry en q d w dpath name s = Some s' \<Longrightarrow> nodup s s'"
proof -
  assume a: "first_scan_entry en q d w dpath name s = Some s'"
  have t: "gam_tree_add p c s1 = Some (b, s2) \<Longrightarrow> nodup s1 s2" for p c b and s1 s2 :: "'a psrv_scheme"
    by (rule nodup_frame [OF frame_tree_add])
  have al: "nodup s (snd (alloc_node nd s))" for nd and s :: "'a psrv_scheme"
    by (simp add: nodup_def alloc_node_def)
  show ?thesis
  proof (cases "gam_tree_get_at_path (g_build_filename dpath name) s")
    case (Some n)
    then show ?thesis using a by (auto simp: first_scan_entry_def dest!: nodup_emit simp del: gam_server_emit_event.simps split: if_splits)
  next
    case None
    let ?path = "g_build_filename dpath name"
    let ?sbuf = "case en_stat en ?path of STAT_OK st \<Rightarrow> st | _ \<Rightarrow> stat_zero"
    let ?nd0 = "gam_node_new en ?path None (file_is_dir en ?path)"
    let ?nd = "?nd0\<lparr>nd_sbuf := ?sbuf, nd_is_dir := st_is_dir ?sbuf,
                              nd_pflags := (if en_exclude en ?path \<or> en_mon_type en ?path \<noteq> GFS_MT_KERNEL
                                            then nd_pflags ?nd0 OR MON_NOKERNEL else nd_pflags ?nd0),
                              nd_lasttime := pl_time s\<rparr>"
    obtain b s2 where "gam_tree_add d (pl_nextnode s) (snd (alloc_node ?nd s)) = Some (b, s2)"
        "(if w then gam_server_emit_event name True GAMIN_EVENT_EXISTS [q] True s2 else Some s2) = Some s'"
      using a None
      by (auto simp: first_scan_entry_def split_beta simp del: upd_node_simps cong: if_cong split del: if_split split: Option.bind_splits)
    note b = this
    have e: "nodup s2 s'" using b(2) nodup_emit [of name True GAMIN_EVENT_EXISTS "[q]" True s2 s'] by (cases w) auto
    show ?thesis by (rule nodup_trans [OF al nodup_trans [OF t [OF b(1)] e]])
  qed
qed

interpretation basic_first: first_scan_steps nodup "gam_poll_basic_poll_file en" d for en d
  by unfold_locales
     (simp, erule (1) nodup_trans, erule nodup_frame [OF frame_quiet], erule nodup_frame [OF frame_flag(2)],
      erule nodup_frame [OF frame_scan_entry], erule nodup_frame [OF frame_poll_file], rule nodup_upd,
      rule nodup_add_missing, erule nodup_first_entry)

text \<open>A subscription that can be added: its listener and connection are there, and neither the listener nor
  a node has it yet.\<close>

definition addable :: "'b psrv_scheme \<Rightarrow> cptr \<Rightarrow> bool" where
  "addable s q \<longleftrightarrow> (\<exists>sub l ls c. sv_subs s q = Some sub \<and> sub_path sub \<noteq> [] \<and> sub_listener sub = Some l \<and>
     sv_listeners s l = Some ls \<and> q \<notin> set (ls_subs ls) \<and> sv_conns s (ls_service ls) = Some c \<and> 0 \<le> cn_fd c) \<and>
     (\<forall>n nd. pl_nodes s n = Some nd \<longrightarrow> q \<notin> set (nd_subs nd))"

lemma same_tree_linked:
  assumes "pl_nodes s' = pl_nodes s" "pl_nextnode s' = pl_nextnode s" "pl_root s' = pl_root s" "pl_hash s' = pl_hash s"
    and links: "\<And>n nd q. pl_nodes s n = Some nd \<Longrightarrow> q \<in> set (nd_subs nd) \<Longrightarrow> sub_linked s (nd_path nd) q \<Longrightarrow>
      sub_linked s' (nd_path nd) q"
    and inv: "poll_inv s" and lists: "pl_missing s' = pl_missing s" "pl_busy s' = pl_busy s" "pl_all s' = pl_all s"
  shows "poll_inv s'"
proof -
  have "tree_inv s'" using poll_tree [OF inv] unfolding tree_inv_def assms(1-4) .
  then show ?thesis
    using inv links unfolding poll_inv_def assms(1,3) lists by blast
qed

lemma listener_add_ok:
  assumes "poll_ok s" "sv_listeners s l = Some ls" "q \<notin> set (ls_subs ls)"
  obtains s1 where "gam_listener_add_subscription l q s = Some s1" "poll_ok s1" "sv_subs s1 = sv_subs s"
    "\<And>path r. sub_linked s path r \<Longrightarrow> sub_linked s1 path r" "pl_nodes s1 = pl_nodes s" "pl_hash s1 = pl_hash s"
    "pl_missing s1 = pl_missing s" "pl_busy s1 = pl_busy s" "psrv.more s1 = psrv.more s"
proof -
  let ?s1 = "upd_listener l (\<lambda>ls. ls\<lparr>ls_subs := q # ls_subs ls\<rparr>) s"
  have l: "sub_linked ?s1 path r" if lk: "sub_linked s path r" for path r
  proof -
    obtain sub l' ls' c where "sv_subs s r = Some sub" "sub_path sub = path" "sub_listener sub = Some l'"
      "sv_listeners s l' = Some ls'" "sv_conns s (ls_service ls') = Some c" "0 \<le> cn_fd c"
      using lk by (auto simp: sub_linked_def)
    then show ?thesis using assms(2) by (cases "l' = l") (auto simp: sub_linked_def upd_listener_def)
  qed
  have f: "pl_nodes ?s1 = pl_nodes s" "pl_nextnode ?s1 = pl_nextnode s" "pl_root ?s1 = pl_root s"
    "pl_hash ?s1 = pl_hash s" "pl_missing ?s1 = pl_missing s" "pl_busy ?s1 = pl_busy s" "pl_all ?s1 = pl_all s"
    "sv_subs ?s1 = sv_subs s" "psrv.more ?s1 = psrv.more s" by (simp_all add: upd_listener_def)
  have inv: "poll_inv s" using assms(1) by (simp add: poll_ok_def)
  have "poll_inv ?s1" by (rule same_tree_linked [OF f(1-4) l inv f(5-7)])
  then have "poll_ok ?s1" using assms(1) f(1,5) by (simp add: poll_ok_def flagged_def)
  moreover have "gam_listener_add_subscription l q s = Some ?s1"
    using assms(2,3) by (simp add: gam_listener_add_subscription_def)
  ultimately show ?thesis using that l f by blast
qed

text \<open>A new node is not marked, and hanging it below another leaves the lists alone.\<close>

definition unmarked :: "'b psrv_scheme \<Rightarrow> 'b psrv_scheme \<Rightarrow> bool" where
  "unmarked s s' \<longleftrightarrow> flagged s' \<subseteq> flagged s \<and> pl_missing s' = pl_missing s \<and> pl_busy s' = pl_busy s \<and>
     psrv.more s' = psrv.more s"

lemma unmarked_add:
  assumes "gam_tree_add p (pl_nextnode s) (snd (alloc_node nd s)) = Some (b, s')" "nd_flags nd = 0"
  shows "unmarked s s'"
  using assms
  by (auto simp: unmarked_def gam_tree_add_def flagged_def alloc_node_def upd_node_def
      split: Option.bind_splits if_splits)

lemma unmarked_parents: "add_parents en path is p s = Some (r, s') \<Longrightarrow> unmarked s s'"
proof (induction "is" arbitrary: p s)
  case Nil
  then show ?case by (simp add: unmarked_def)
next
  case (Cons i "is")
  show ?case
  proof (cases "path ! i = CHR ''/'' \<and> gam_tree_get_at_path (take i path) s = None")
    case False
    then show ?thesis using Cons by (auto split: if_splits option.splits)
  next
    case True
    then obtain b s2 where a: "gam_tree_add p (pl_nextnode s) (snd (alloc_node (gam_node_new en (take i path) None True) s)) = Some (b, s2)"
        "add_parents en path is (pl_nextnode s) s2 = Some (r, s')"
      using Cons.prems by (auto simp: split_beta split: Option.bind_splits)
    have "unmarked s s2" by (rule unmarked_add [OF a(1)]) (simp add: gam_node_new_def)
    with Cons.IH [OF a(2)] show ?thesis by (auto simp: unmarked_def)
  qed
qed

lemma add_at_path_frame: "gam_tree_add_at_path en path d s = Some (r, s') \<Longrightarrow> unmarked s s'"
proof -
  assume a: "gam_tree_add_at_path en path d s = Some (r, s')"
  show ?thesis
  proof (cases "path = [] \<or> gam_tree_get_at_path path s \<noteq> None")
    case True
    then show ?thesis using a by (auto simp: gam_tree_add_at_path_def unmarked_def split: if_splits)
  next
    case False
    then obtain p s1 b s2 nd where b: "add_parents en path [1..<length path] (pl_root s) s = Some (p, s1)"
        "gam_tree_add p (pl_nextnode s1) (snd (alloc_node nd s1)) = Some (b, s')" "nd_flags nd = 0"
      using a by (auto simp: gam_tree_add_at_path_def gam_node_new_def split_beta split: Option.bind_splits)
    from unmarked_parents [OF b(1)] unmarked_add [OF b(2,3)] show ?thesis by (auto simp: unmarked_def)
  qed
qed

text \<open>The first half of adding a subscription, which every back end that polls begins with: the listener gets it,
  the node of its path is found or made, and the node gets it.\<close>

lemma add_prepare:
  assumes ok: "poll_ok s" and add: "addable s q" and sub: "sv_subs s q = Some sub"
  obtains l s1 n s3 nd3 where "sub_listener sub = Some l"
    "gam_listener_add_subscription l q s = Some s1"
    "(case gam_tree_get_at_path (sub_path sub) s of
        Some n \<Rightarrow> Some (Some n, gam_poll_generic_update_time en s1)
      | None \<Rightarrow> gam_tree_add_at_path en (sub_path sub) (sub_is_dir sub) (gam_poll_generic_update_time en s1)) = Some (Some n, s3)"
    "pl_nodes s3 n = Some nd3" "nd_path nd3 = sub_path sub" "pl_hash s3 (sub_path sub) = Some n"
    "gam_node_add_subscription n q s3 = Some (upd_node n (\<lambda>nd. nd\<lparr>nd_subs := q # nd_subs nd\<rparr>) s3)"
    "poll_inv (upd_node n (\<lambda>nd. nd\<lparr>nd_subs := q # nd_subs nd\<rparr>) s3)"
    "flagged (upd_node n (\<lambda>nd. nd\<lparr>nd_subs := q # nd_subs nd\<rparr>) s3) = {}"
    "sub_linked (upd_node n (\<lambda>nd. nd\<lparr>nd_subs := q # nd_subs nd\<rparr>) s3) (sub_path sub) q"
    "pl_missing s3 = pl_missing s" "pl_busy s3 = pl_busy s" "psrv.more s3 = psrv.more s"
proof -
  obtain l ls c where q: "sv_subs s q = Some sub" "sub_path sub \<noteq> []" "sub_listener sub = Some l"
     "sv_listeners s l = Some ls" "q \<notin> set (ls_subs ls)" "sv_conns s (ls_service ls) = Some c" "0 \<le> cn_fd c"
    using add sub by (auto simp: addable_def)
  let ?path = "sub_path sub"
  have linked: "sub_linked s ?path q" using q by (auto simp: sub_linked_def)
  obtain s1 where s1: "gam_listener_add_subscription l q s = Some s1" "poll_ok s1" "sv_subs s1 = sv_subs s"
    "\<And>path r. sub_linked s path r \<Longrightarrow> sub_linked s1 path r" "pl_nodes s1 = pl_nodes s" "pl_hash s1 = pl_hash s"
    "pl_missing s1 = pl_missing s" "pl_busy s1 = pl_busy s" "psrv.more s1 = psrv.more s"
    by (rule listener_add_ok [OF ok q(4,5)]) blast
  let ?s2 = "gam_poll_generic_update_time en s1"
  have s2: "poll_inv ?s2" "flagged ?s2 = {}" "distinct (pl_missing ?s2)"
    using s1(2) update_time_inv [of s1 en] by (simp_all add: poll_ok_def)
  have m2: "pl_missing ?s2 = pl_missing s" "pl_busy ?s2 = pl_busy s" "psrv.more ?s2 = psrv.more s"
    using s1(7-9) by (simp_all add: gam_poll_generic_update_time_def)
  have h2: "pl_hash ?s2 = pl_hash s" using s1(6) by (simp add: gam_poll_generic_update_time_def)
  have l2: "sub_linked ?s2 ?path q" using s1(4) [OF linked] sub_linked_grows [OF lists_grows(5)] by metis
  obtain n s3 nd3 where s3: "(case gam_tree_get_at_path ?path s of
        Some n \<Rightarrow> Some (Some n, ?s2)
      | None \<Rightarrow> gam_tree_add_at_path en ?path (sub_is_dir sub) ?s2) = Some (Some n, s3)"
      "poll_inv s3" "grows ?s2 s3" "pl_hash s3 ?path = Some n" "pl_nodes s3 n = Some nd3"
      "flagged s3 = {}" "pl_missing s3 = pl_missing s" "pl_busy s3 = pl_busy s" "psrv.more s3 = psrv.more s"
  proof (cases "pl_hash s ?path")
    case (Some n)
    then obtain nd where "pl_nodes ?s2 n = Some nd" using tree_hash(2) [OF poll_tree [OF s2(1)]] h2 by fastforce
    with Some s2 h2 m2 show ?thesis by (intro that [of n ?s2 nd]) (simp_all add: gam_tree_get_at_path_def)
  next
    case None
    obtain n s3 nd where a: "gam_tree_add_at_path en ?path (sub_is_dir sub) ?s2 = Some (Some n, s3)"
        "poll_inv s3" "grows ?s2 s3" "pl_hash s3 ?path = Some n" "pl_nodes s3 n = Some nd"
      using add_at_path_spec [OF s2(1) q(2), of en "sub_is_dir sub"] by blast
    have "flagged s3 = {}" "pl_missing s3 = pl_missing s" "pl_busy s3 = pl_busy s" "psrv.more s3 = psrv.more s"
      using add_at_path_frame [OF a(1)] s2(2) unfolding unmarked_def m2 by blast+
    with None a show ?thesis by (intro that [of n s3 nd]) (simp_all add: gam_tree_get_at_path_def)
  qed
  have unused: "q \<notin> set (nd_subs nd3)"
  proof (cases "pl_nodes s n")
    case None
    then have "pl_nodes ?s2 n = None" using s1(5) by simp
    then show ?thesis using s3(3,5) by (auto simp: grows_def)
  next
    case (Some nd)
    then have "pl_nodes ?s2 n = Some nd" using s1(5) by simp
    then obtain nd' where "pl_nodes s3 n = Some nd'" "nd_subs nd' = nd_subs nd" by (rule grows_node [OF s3(3)])
    then show ?thesis using s3(5) Some add by (auto simp: addable_def)
  qed
  let ?s4 = "upd_node n (\<lambda>nd. nd\<lparr>nd_subs := q # nd_subs nd\<rparr>) s3"
  have a4: "gam_node_add_subscription n q s3 = Some ?s4" using s3(5) unused by (simp add: gam_node_add_subscription_def)
  have path3: "nd_path nd3 = ?path" "n \<noteq> pl_root s3" using tree_hash [OF poll_tree [OF s3(2)] s3(4)] s3(5) by auto
  have l3: "sub_linked s3 ?path q" using l2 sub_linked_grows [OF s3(3)] by simp
  have inv4: "poll_inv ?s4"
    using poll_sub [OF s3(2,5)] s3(5) path3 unused l3
    by (intro poll_inv_links [OF _ s3(2)]) (auto simp: keeps_links_def)
  have f4: "flagged ?s4 = {}" using s3(6) flagged_upd [of "\<lambda>nd. nd\<lparr>nd_subs := q # nd_subs nd\<rparr>" n s3] by simp
  have l4: "sub_linked ?s4 ?path q" using l3 by (simp only: sub_linked_upd_node)
  show ?thesis
    by (rule that [OF q(3) s1(1) s3(1,5) path3(1) s3(4) a4 inv4 f4 l4 s3(7-9)])
qed

lemma add_subscription_runs:
  assumes ok: "poll_ok s" and add: "addable s q"
  shows "\<exists>s' n nd. gam_poll_basic_add_subscription en q s = Some (True, s') \<and> poll_ok s' \<and>
    gam_tree_get_at_path (sub_path (the (sv_subs s q))) s' = Some n \<and> pl_nodes s' n = Some nd \<and>
    q \<in> set (nd_subs nd) \<and> n \<in> set (pl_all s')"
proof -
  obtain sub where sub: "sv_subs s q = Some sub" using add by (auto simp: addable_def)
  obtain l s1 n s3 nd3 where q: "sub_listener sub = Some l"
    and s1: "gam_listener_add_subscription l q s = Some s1"
    and s3: "(case gam_tree_get_at_path (sub_path sub) s of
        Some n \<Rightarrow> Some (Some n, gam_poll_generic_update_time en s1)
      | None \<Rightarrow> gam_tree_add_at_path en (sub_path sub) (sub_is_dir sub) (gam_poll_generic_update_time en s1)) = Some (Some n, s3)"
      "pl_nodes s3 n = Some nd3" "pl_hash s3 (sub_path sub) = Some n"
    and s4: "gam_node_add_subscription n q s3 = Some (upd_node n (\<lambda>nd. nd\<lparr>nd_subs := q # nd_subs nd\<rparr>) s3)"
      "poll_inv (upd_node n (\<lambda>nd. nd\<lparr>nd_subs := q # nd_subs nd\<rparr>) s3)"
      "flagged (upd_node n (\<lambda>nd. nd\<lparr>nd_subs := q # nd_subs nd\<rparr>) s3) = {}"
      "sub_linked (upd_node n (\<lambda>nd. nd\<lparr>nd_subs := q # nd_subs nd\<rparr>) s3) (sub_path sub) q"
      "pl_missing s3 = pl_missing s"
    by (rule add_prepare [OF ok add sub, of en])
  let ?path = "sub_path sub"
  let ?s4 = "upd_node n (\<lambda>nd. nd\<lparr>nd_subs := q # nd_subs nd\<rparr>) s3"
  have n4: "pl_nodes ?s4 n = Some (nd3\<lparr>nd_subs := q # nd_subs nd3\<rparr>)" using s3(2) by simp
  have l4: "\<exists>sp. sub_linked ?s4 sp q" using s4(4) by blast
  obtain s5 where s5: "(if nd_is_dir nd3 then
                   gam_poll_generic_first_scan_dir en (gam_poll_basic_poll_file en) q n ?path ?s4
                 else
                   do { (event, s5) \<leftarrow> gam_poll_basic_poll_file en n ?s4;
                        let present = event = 0 \<or> event = GAMIN_EVENT_EXISTS \<or>
                                      event = GAMIN_EVENT_CHANGED \<or> event = GAMIN_EVENT_CREATED
                        in do { s6 \<leftarrow> gam_server_emit_one_event ?path False
                                   (if present \<and> \<not> sub_is_dir sub then GAMIN_EVENT_EXISTS
                                    else GAMIN_EVENT_DELETED) q False s5;
                                gam_server_emit_one_event ?path False GAMIN_EVENT_ENDEXISTS q False s6 } }) = Some s5"
      "poll_inv s5" "grows ?s4 s5" "flagged s5 = {}" "nodup ?s4 s5"
  proof (cases "nd_is_dir nd3")
    case True
    obtain s5 where "gam_poll_generic_first_scan_dir en (gam_poll_basic_poll_file en) q n ?path ?s4 = Some s5"
        "poll_inv s5" "grows ?s4 s5" "flagged s5 = {}"
      using basic_poll.first_scan_dir_runs [OF s4(2) _ l4 s4(3), of n en en ?path] n4 by (auto simp: runs_def simp del: upd_node_simps)
    with basic_first.step_first_scan [OF this(1)] True show ?thesis by (intro that [of s5]) simp_all
  next
    case False
    obtain e t1 where t1: "gam_poll_basic_poll_file en n ?s4 = Some (e, t1)" "poll_inv t1" "grows ?s4 t1" "flagged t1 = {}"
      using poll_file_runs [OF s4(2), of n en] n4 s4(3) by (auto simp: runs2_def simp del: upd_node_simps)
    have lt: "sub_linked t ?path q" if "grows ?s4 t" for t
      using sub_linked_grows [OF that] s4(4) by simp
    let ?e = "if (e = 0 \<or> e = GAMIN_EVENT_EXISTS \<or> e = GAMIN_EVENT_CHANGED \<or> e = GAMIN_EVENT_CREATED) \<and> \<not> sub_is_dir sub
       then GAMIN_EVENT_EXISTS else GAMIN_EVENT_DELETED"
    obtain t2 where t2: "gam_server_emit_one_event ?path False ?e q False t1 = Some t2"
      using emit_one_runs [OF lt [OF t1(3)]] by blast
    note q2 = emit_one_quiet [OF t2]
    have g2: "grows ?s4 t2" by (rule grows_trans [OF t1(3) grows_quiet [OF q2]])
    obtain t3 where t3: "gam_server_emit_one_event ?path False GAMIN_EVENT_ENDEXISTS q False t2 = Some t3"
      using emit_one_runs [OF lt [OF g2]] by blast
    note q3 = emit_one_quiet [OF t3]
    show ?thesis
    proof (rule that [of t3])
      show "poll_inv t3" by (rule poll_inv_quiet [OF q3 poll_inv_quiet [OF q2 t1(2)]])
      show "grows ?s4 t3" by (rule grows_trans [OF g2 grows_quiet [OF q3]])
      show "flagged t3 = {}" using flagged_quiet [OF q3] flagged_quiet [OF q2] t1(4) by simp
      show "nodup ?s4 t3"
        using nodup_trans [OF nodup_frame [OF frame_poll_file [OF t1(1)]]
            nodup_trans [OF nodup_frame [OF frame_quiet [OF q2]] nodup_frame [OF frame_quiet [OF q3]]]] .
    qed (use False t1(1) t2 t3 in simp)
  qed
  obtain nd5 where nd5: "pl_nodes s5 n = Some nd5" "nd_subs nd5 = q # nd_subs nd3"
    using grows_node [OF s5(3) n4] by force
  obtain m where m: "gam_node_has_pflag n MON_MISSING s5 = Some m" using nd5(1) by (auto simp: gam_node_has_pflag_def)
  let ?s6 = "if m then gam_poll_generic_add_missing n s5 else s5"
  let ?s7 = "gam_poll_generic_add n ?s6"
  have n5: "pl_nodes s5 n \<noteq> None" using nd5(1) by simp
  have inv6: "poll_inv ?s6" using lists_runs(1) [OF s5(2) n5] s5(2) by simp
  have inv7: "poll_inv ?s7" by (rule lists_runs(4) [OF inv6]) (use n5 in simp)
  have d5: "distinct (pl_missing s5)" using s5(5) s4(5) ok by (simp add: nodup_def poll_ok_def)
  then have d7: "distinct (pl_missing ?s7)" by (simp add: gam_poll_generic_add_missing_def)
  have f7: "flagged ?s7 = {}" using s5(4) by simp
  have ok7: "poll_ok (?s7\<lparr>pl_running := True\<rparr>)" by (rule running_ok) (simp only: poll_ok_def inv7 d7 f7 simp_thms)
  have isd: "gam_node_is_dir n ?s4 = Some (nd_is_dir nd3)" using n4 by (simp del: upd_node_simps add: gam_node_is_dir_def)
  have run: "gam_poll_basic_add_subscription en q s = Some (True, ?s7\<lparr>pl_running := True\<rparr>)"
  proof (cases "nd_is_dir nd3")
    case True
    then have e: "nd_is_dir nd3 = True" by simp
    show ?thesis
      unfolding gam_poll_basic_add_subscription_def sub q Option.bind.bind_lunit Let_def s1 s3(1) prod.case s4(1)
        isd e if_True s5(1) [unfolded e if_True] m ..
  next
    case False
    then have e: "nd_is_dir nd3 = False" by simp
    show ?thesis
      unfolding gam_poll_basic_add_subscription_def sub q Option.bind.bind_lunit Let_def s1 s3(1) prod.case s4(1)
        isd e if_False s5(1) [unfolded e if_False Let_def] m ..
  qed
  have h: "pl_hash (?s7\<lparr>pl_running := True\<rparr>) ?path = Some n"
    using grows_hash [OF s5(3), of ?path n] s3(3) by (simp add: gam_poll_generic_add_def gam_poll_generic_add_missing_def)
  have "n \<in> set (pl_all (?s7\<lparr>pl_running := True\<rparr>))" by (simp add: gam_poll_generic_add_def)
  moreover have "pl_nodes (?s7\<lparr>pl_running := True\<rparr>) n = Some nd5" using nd5(1) by simp
  ultimately show ?thesis using run ok7 h nd5(2) sub by (auto simp: gam_tree_get_at_path_def)
qed

end
