(* ===== verification/Gam_Poll_Remove.thy ===== *)
theory Gam_Poll_Remove
  imports Gam_Poll_Tick
begin

unbundle bit_operations_syntax

text \<open>
  Removing a subscription from the polling back end: the nodes that nobody needs any more are taken off
  the lists and off the tree and freed, from the node of the subscription up to the first directory that
  is still needed. Nothing that others watch is lost, and nothing that was freed is used.
\<close>

section \<open>What removal does to the nodes\<close>

text \<open>Nodes go only when they have no subscription, and the ones that stay keep their place.\<close>

definition shrinks :: "'b psrv_scheme \<Rightarrow> 'b psrv_scheme \<Rightarrow> bool" where
  "shrinks s s' \<longleftrightarrow> sv_subs s' = sv_subs s \<and> sv_listeners s' = sv_listeners s \<and> sv_conns s' = sv_conns s \<and>
     pl_root s' = pl_root s \<and> pl_nextnode s' = pl_nextnode s \<and>
     (\<forall>m md'. pl_nodes s' m = Some md' \<longrightarrow> (\<exists>md. pl_nodes s m = Some md \<and> nd_path md' = nd_path md \<and>
        nd_parent md' = nd_parent md \<and> nd_subs md' = nd_subs md \<and> nd_flags md' = nd_flags md \<and>
        nd_is_dir md' = nd_is_dir md \<and> set (nd_children md') \<subseteq> set (nd_children md))) \<and>
     (\<forall>m md. pl_nodes s m = Some md \<and> nd_subs md \<noteq> [] \<longrightarrow> pl_nodes s' m \<noteq> None \<and>
        (m \<in> set (pl_all s) \<longrightarrow> m \<in> set (pl_all s')) \<and> (m \<in> set (pl_missing s) \<longrightarrow> m \<in> set (pl_missing s'))) \<and>
     (distinct (pl_missing s) \<longrightarrow> distinct (pl_missing s')) \<and>
     (distinct (pl_busy s) \<longrightarrow> distinct (pl_busy s')) \<and> psrv.more s' = psrv.more s"

lemma shrinks_refl [simp]: "shrinks s s"
  by (simp add: shrinks_def)

lemma shrinks_node:
  assumes "shrinks s s'" "pl_nodes s' m = Some md'"
  obtains md where "pl_nodes s m = Some md" "nd_path md' = nd_path md" "nd_parent md' = nd_parent md"
    "nd_subs md' = nd_subs md" "nd_flags md' = nd_flags md" "nd_is_dir md' = nd_is_dir md"
    "set (nd_children md') \<subseteq> set (nd_children md)"
  using assms unfolding shrinks_def by blast

lemma shrinks_kept:
  assumes "shrinks s s'" "pl_nodes s m = Some md" "nd_subs md \<noteq> []"
  obtains md' where "pl_nodes s' m = Some md'" "nd_path md' = nd_path md" "nd_subs md' = nd_subs md"
proof -
  have "pl_nodes s' m \<noteq> None" using assms unfolding shrinks_def by blast
  then obtain md' where md': "pl_nodes s' m = Some md'" by auto
  from shrinks_node [OF assms(1) this] assms(2) md' that show ?thesis by (metis option.inject)
qed

lemma shrinks_trans:
  assumes a: "shrinks s s'" and b: "shrinks s' s''"
  shows "shrinks s s''"
proof -
  have "\<exists>md. pl_nodes s m = Some md \<and> nd_path md'' = nd_path md \<and> nd_parent md'' = nd_parent md \<and>
      nd_subs md'' = nd_subs md \<and> nd_flags md'' = nd_flags md \<and> nd_is_dir md'' = nd_is_dir md \<and>
      set (nd_children md'') \<subseteq> set (nd_children md)"
    if m: "pl_nodes s'' m = Some md''" for m md''
  proof -
    obtain md' where md': "pl_nodes s' m = Some md'" "nd_path md'' = nd_path md'" "nd_parent md'' = nd_parent md'"
      "nd_subs md'' = nd_subs md'" "nd_flags md'' = nd_flags md'" "nd_is_dir md'' = nd_is_dir md'"
      "set (nd_children md'') \<subseteq> set (nd_children md')" by (rule shrinks_node [OF b m])
    from shrinks_node [OF a md'(1)] md'(2-7) show ?thesis by (metis subset_trans)
  qed
  moreover have "pl_nodes s'' m \<noteq> None \<and> (m \<in> set (pl_all s) \<longrightarrow> m \<in> set (pl_all s'')) \<and>
      (m \<in> set (pl_missing s) \<longrightarrow> m \<in> set (pl_missing s''))"
    if m: "pl_nodes s m = Some md" "nd_subs md \<noteq> []" for m md
  proof -
    obtain md' where md': "pl_nodes s' m = Some md'" "nd_subs md' \<noteq> []" using shrinks_kept [OF a m] m(2) by metis
    have "(m \<in> set (pl_all s) \<longrightarrow> m \<in> set (pl_all s')) \<and> (m \<in> set (pl_missing s) \<longrightarrow> m \<in> set (pl_missing s'))"
      using a m unfolding shrinks_def by blast
    moreover have "pl_nodes s'' m \<noteq> None \<and> (m \<in> set (pl_all s') \<longrightarrow> m \<in> set (pl_all s'')) \<and>
        (m \<in> set (pl_missing s') \<longrightarrow> m \<in> set (pl_missing s''))"
      using b md' unfolding shrinks_def by blast
    ultimately show ?thesis by blast
  qed
  ultimately show ?thesis using a b unfolding shrinks_def by auto
qed

lemma shrinks_flagged: "shrinks s s' \<Longrightarrow> flagged s' \<subseteq> flagged s"
  by (fastforce simp: flagged_def elim: shrinks_node)

lemma shrinks_linked: "shrinks s s' \<Longrightarrow> sub_linked s' path q = sub_linked s path q"
  by (simp add: shrinks_def sub_linked_def)

section \<open>Taking a node off the lists and off the tree\<close>

lemma unregister_simps [simp]:
  "pl_nodes (gam_poll_generic_unregister_node n s) = pl_nodes s"
  "pl_nextnode (gam_poll_generic_unregister_node n s) = pl_nextnode s"
  "pl_root (gam_poll_generic_unregister_node n s) = pl_root s"
  "pl_hash (gam_poll_generic_unregister_node n s) = pl_hash s"
  "pl_missing (gam_poll_generic_unregister_node n s) = removeAll n (pl_missing s)"
  "pl_busy (gam_poll_generic_unregister_node n s) = removeAll n (pl_busy s)"
  "pl_all (gam_poll_generic_unregister_node n s) = remove1 n (pl_all s)"
  "sv_subs (gam_poll_generic_unregister_node n s) = sv_subs s"
  "sv_listeners (gam_poll_generic_unregister_node n s) = sv_listeners s"
  "sv_conns (gam_poll_generic_unregister_node n s) = sv_conns s"
  "psrv.more (gam_poll_generic_unregister_node n s) = psrv.more s"
  by (simp_all add: gam_poll_generic_unregister_node_def gam_poll_generic_remove_missing_def
      gam_poll_generic_remove_busy_def)

lemma unregister_inv: "poll_inv s \<Longrightarrow> poll_inv (gam_poll_generic_unregister_node n s)"
proof -
  assume inv: "poll_inv s"
  then have l: "set (pl_missing s) \<union> set (pl_busy s) \<union> set (pl_all s) \<subseteq> dom (pl_nodes s)" "distinct (pl_all s)"
    unfolding poll_inv_def by blast+
  show ?thesis
    by (rule same_tree [where s = s]) (use inv l set_remove1_subset [of n "pl_all s"] in auto)
qed

lemma unregister_shrinks:
  assumes "pl_nodes s n = Some nd" "nd_subs nd = []"
  shows "shrinks s (gam_poll_generic_unregister_node n s)"
  using assms by (auto simp: shrinks_def distinct_removeAll) (metis in_set_remove1 option.inject)

lemma unregistered:
  "distinct (pl_all s) \<Longrightarrow> n \<notin> set (pl_missing (gam_poll_generic_unregister_node n s)) \<union>
     set (pl_busy (gam_poll_generic_unregister_node n s)) \<union> set (pl_all (gam_poll_generic_unregister_node n s))"
  by (simp add: set_remove1_eq)

text \<open>A leaf without subscriptions that is on no list can go.\<close>

lemma cut_nodes:
  assumes inv: "tree_inv s" and n: "pl_nodes s n = Some nd" "n \<noteq> pl_root s" and m: "pl_nodes (cut n nd s) m = Some md'"
  obtains md where "m \<noteq> n" "pl_nodes s m = Some md"
    "md' = (if Some m = nd_parent nd then md\<lparr>nd_children := remove1 n (nd_children md)\<rparr> else md)"
proof -
  obtain p pd where p: "nd_parent nd = Some p" "p < n" "pl_nodes s p = Some pd"
    using tree_below(2) [OF inv n] by auto
  show ?thesis using m p that by (auto simp: cut_def split: if_splits)
qed

lemma cut_poll_inv:
  assumes inv: "poll_inv s" and n: "pl_nodes s n = Some nd" "n \<noteq> pl_root s" and leaf: "nd_children nd = []"
    and free: "n \<notin> set (pl_missing s) \<union> set (pl_busy s) \<union> set (pl_all s)"
  shows "poll_inv (cut n nd s)"
proof -
  let ?t = "cut n nd s"
  note tree = poll_tree [OF inv]
  have nodes: "(m = pl_root ?t \<longrightarrow> nd_subs md = []) \<and> distinct (nd_subs md) \<and>
      (\<forall>q \<in> set (nd_subs md). sub_linked ?t (nd_path md) q)" if "pl_nodes ?t m = Some md" for m md
    using poll_sub [OF inv] by (rule_tac cut_nodes [OF tree n that]) auto
  have lists: "x \<in> dom (pl_nodes ?t)" if "x \<in> set (pl_missing s) \<union> set (pl_busy s) \<union> set (pl_all s)" for x
  proof -
    have "x \<noteq> n" "x \<in> dom (pl_nodes s)" using that free inv unfolding poll_inv_def by blast+
    then show ?thesis by (auto simp: cut_def)
  qed
  then have "set (pl_missing ?t) \<union> set (pl_busy ?t) \<union> set (pl_all ?t) \<subseteq> dom (pl_nodes ?t)"
    unfolding cut_simps by blast
  moreover have "distinct (pl_all ?t)" using poll_lists(4) [OF inv] by simp
  ultimately show ?thesis
    using cut_tree_inv [OF tree n leaf] nodes unfolding poll_inv_def by blast
qed

lemma cut_shrinks:
  assumes inv: "tree_inv s" and n: "pl_nodes s n = Some nd" "n \<noteq> pl_root s" and subs: "nd_subs nd = []"
  shows "shrinks s (cut n nd s)"
proof -
  have "\<exists>md. pl_nodes s m = Some md \<and> nd_path md' = nd_path md \<and>
        nd_parent md' = nd_parent md \<and> nd_subs md' = nd_subs md \<and> nd_flags md' = nd_flags md \<and>
        nd_is_dir md' = nd_is_dir md \<and> set (nd_children md') \<subseteq> set (nd_children md)"
    if "pl_nodes (cut n nd s) m = Some md'" for m md'
    by (rule cut_nodes [OF inv n that]) (auto dest: notin_set_remove1 [rotated] intro: set_remove1_subset [THEN subsetD])
  moreover have "pl_nodes (cut n nd s) m \<noteq> None" if "pl_nodes s m = Some md" "nd_subs md \<noteq> []" for m md
    using that n(1) subs by (auto simp: cut_def)
  moreover have "psrv.more (cut n nd s) = psrv.more s" by (auto simp: cut_def upd_node_def split: option.split)
  ultimately show ?thesis by (simp add: shrinks_def)
qed

text \<open>What every caller does with a node that nobody needs.\<close>

lemma drop_node:
  assumes inv: "poll_inv s" and n: "pl_nodes s n = Some nd" "n \<noteq> pl_root s" and leaf: "nd_children nd = []" "nd_subs nd = []"
  shows "\<exists>s'. gam_tree_remove n (gam_poll_generic_unregister_node n s) = Some (True, s') \<and> poll_inv s' \<and> shrinks s s' \<and>
    (\<forall>m md. pl_nodes s m = Some md \<and> m \<noteq> n \<longrightarrow> pl_nodes s' m \<noteq> None)"
proof -
  let ?t = "gam_poll_generic_unregister_node n s"
  have t: "poll_inv ?t" "pl_nodes ?t n = Some nd" "n \<noteq> pl_root ?t" using unregister_inv [OF inv] n by simp_all
  have "gam_tree_remove n ?t = Some (True, cut n nd ?t)" by (rule tree_remove_leaf [OF poll_tree [OF t(1)] t(2,3) leaf])
  moreover have "poll_inv (cut n nd ?t)"
    by (rule cut_poll_inv [OF t leaf(1) unregistered [OF poll_lists(4) [OF inv]]])
  moreover have "shrinks s (cut n nd ?t)"
    by (rule shrinks_trans [OF unregister_shrinks [OF n(1) leaf(2)] cut_shrinks [OF poll_tree [OF t(1)] t(2,3) leaf(2)]])
  moreover have "\<forall>m md. pl_nodes s m = Some md \<and> m \<noteq> n \<longrightarrow> pl_nodes (cut n nd ?t) m \<noteq> None"
    by (auto simp: cut_def)
  ultimately show ?thesis by blast
qed

section \<open>The loops\<close>

lemma prune_tree_runs:
  assumes "poll_inv s" "pl_nodes s n \<noteq> None" "n < k"
  shows "\<exists>s'. prune_tree k n s = Some s' \<and> poll_inv s' \<and> shrinks s s'"
  using assms
proof (induction k arbitrary: n s)
  case (Suc k)
  obtain nd where nd: "pl_nodes s n = Some nd" using Suc.prems(2) by auto
  show ?case
  proof (cases "nd_parent nd = None \<or> \<not> (nd_children nd = [] \<and> nd_subs nd = [])")
    case True
    then show ?thesis using nd Suc.prems(1) by (auto split: option.split)
  next
    case False
    then obtain p where p: "nd_parent nd = Some p" "nd_children nd = []" "nd_subs nd = []" by auto
    have root: "n \<noteq> pl_root s" using tree_parent_None [OF poll_tree [OF Suc.prems(1)] nd] p(1) by auto
    have "p < n" "pl_nodes s p \<noteq> None" using tree_below(2) [OF poll_tree [OF Suc.prems(1)] nd root] p(1) by auto
    obtain s1 where s1: "gam_tree_remove n (gam_poll_generic_unregister_node n s) = Some (True, s1)" "poll_inv s1"
        "shrinks s s1" "\<forall>m md. pl_nodes s m = Some md \<and> m \<noteq> n \<longrightarrow> pl_nodes s1 m \<noteq> None"
      using drop_node [OF Suc.prems(1) nd root p(2,3)] by blast
    have "pl_nodes s1 p \<noteq> None" using s1(4) \<open>p < n\<close> \<open>pl_nodes s p \<noteq> None\<close> by auto
    then obtain s' where "prune_tree k p s1 = Some s'" "poll_inv s'" "shrinks s1 s'"
      using Suc.IH [OF s1(2), of p] \<open>p < n\<close> Suc.prems(3) by auto
    then show ?thesis using nd p s1(1) shrinks_trans [OF s1(3)] by auto
  qed
qed simp

lemma gam_prune_runs:
  assumes "poll_inv s" "pl_nodes s n \<noteq> None"
  shows "\<exists>s'. gam_poll_generic_prune_tree n s = Some s' \<and> poll_inv s' \<and> shrinks s s'"
  unfolding gam_poll_generic_prune_tree_def
  using assms tree_node(1) [OF poll_tree [OF assms(1)]] by (intro prune_tree_runs) auto

lemma remove_children_runs:
  assumes "poll_inv s" "distinct cs" "\<forall>c \<in> set cs. c \<noteq> pl_root s \<and> pl_nodes s c \<noteq> None"
  shows "\<exists>s'. remove_children cs b s = Some s' \<and> poll_inv s' \<and> shrinks s s' \<and>
    (\<forall>m md. pl_nodes s m = Some md \<and> m \<notin> set cs \<longrightarrow> pl_nodes s' m \<noteq> None)"
  using assms
proof (induction cs arbitrary: b s)
  case (Cons c cs)
  obtain cd where c: "pl_nodes s c = Some cd" "c \<noteq> pl_root s" using Cons.prems(3) by auto
  show ?case
  proof (cases "nd_subs cd = [] \<and> b \<and> nd_children cd = []")
    case False
    then have "remove_children (c # cs) b s = remove_children cs False s"
      using c(1) by (auto simp: gam_node_get_subscriptions_def gam_tree_has_children_def)
    moreover obtain s' where "remove_children cs False s = Some s'" "poll_inv s'" "shrinks s s'"
        "\<forall>m md. pl_nodes s m = Some md \<and> m \<notin> set cs \<longrightarrow> pl_nodes s' m \<noteq> None"
      using Cons.IH [OF Cons.prems(1), of False] Cons.prems(2,3) by auto
    ultimately show ?thesis by auto
  next
    case True
    obtain s1 where s1: "gam_tree_remove c (gam_poll_generic_unregister_node c s) = Some (True, s1)" "poll_inv s1"
        "shrinks s s1" "\<forall>m md. pl_nodes s m = Some md \<and> m \<noteq> c \<longrightarrow> pl_nodes s1 m \<noteq> None"
      using drop_node [OF Cons.prems(1) c] True by blast
    have "pl_root s1 = pl_root s" using s1(3) by (simp add: shrinks_def)
    then have "\<forall>c \<in> set cs. c \<noteq> pl_root s1 \<and> pl_nodes s1 c \<noteq> None"
      using Cons.prems(2,3) s1(4) by (metis distinct.simps(2) list.set_intros(2) not_None_eq)
    then obtain s' where s': "remove_children cs b s1 = Some s'" "poll_inv s'" "shrinks s1 s'"
        "\<forall>m md. pl_nodes s1 m = Some md \<and> m \<notin> set cs \<longrightarrow> pl_nodes s' m \<noteq> None"
      using Cons.IH [OF s1(2), of b] Cons.prems(2) by auto
    moreover have "remove_children (c # cs) b s = remove_children cs b s1"
      using c(1) True s1(1) by (simp add: gam_node_get_subscriptions_def gam_tree_has_children_def)
    moreover have "pl_nodes s' m \<noteq> None" if "pl_nodes s m = Some md" "m \<notin> set (c # cs)" for m md
    proof -
      have "pl_nodes s1 m \<noteq> None" using s1(4) that by auto
      then show ?thesis using s'(4) that(2) by auto
    qed
    ultimately show ?thesis using shrinks_trans [OF s1(3)] by auto
  qed
qed simp

section \<open>Removing a subscription\<close>

text \<open>The subscription \<open>q\<close> belongs to the node \<open>n\<close> of its path, and only to it.\<close>

lemma sub_node_unique:
  assumes inv: "poll_inv s" and q: "sv_subs s q = Some sub"
    and m: "pl_nodes s m = Some md" "q \<in> set (nd_subs md)"
  shows "pl_hash s (sub_path sub) = Some m" "m \<noteq> pl_root s"
proof -
  have "sub_linked s (nd_path md) q" by (rule poll_sub(2) [OF inv m])
  then have p: "nd_path md = sub_path sub" using q by (auto simp: sub_linked_def)
  show r: "m \<noteq> pl_root s" using poll_sub(3) [OF inv m(1)] m(2) by auto
  show "pl_hash s (sub_path sub) = Some m" using tree_below(1) [OF poll_tree [OF inv] m(1) r] p by simp
qed

text \<open>What a removal keeps: every node that another subscription needs, with these subscriptions, and its
  places on the lists.\<close>

definition drops :: "cptr \<Rightarrow> 'b psrv_scheme \<Rightarrow> 'b psrv_scheme \<Rightarrow> bool" where
  "drops q s s' \<longleftrightarrow> (\<forall>m md'. pl_nodes s' m = Some md' \<longrightarrow> q \<notin> set (nd_subs md')) \<and>
     (\<forall>m md. pl_nodes s m = Some md \<and> removeAll q (nd_subs md) \<noteq> [] \<longrightarrow>
        (\<exists>md'. pl_nodes s' m = Some md' \<and> nd_path md' = nd_path md \<and> nd_subs md' = removeAll q (nd_subs md)) \<and>
        (m \<in> set (pl_all s) \<longrightarrow> m \<in> set (pl_all s')) \<and> (m \<in> set (pl_missing s) \<longrightarrow> m \<in> set (pl_missing s')))"

lemma drops_same:
  "drops q s s' \<Longrightarrow> pl_nodes s'' = pl_nodes s' \<Longrightarrow> pl_all s'' = pl_all s' \<Longrightarrow> pl_missing s'' = pl_missing s' \<Longrightarrow>
     drops q s s''"
  by (simp only: drops_def)

lemma drops_shrinks:
  assumes a: "drops q s s'" and b: "shrinks s' s''"
  shows "drops q s s''"
  unfolding drops_def
proof (intro conjI allI impI)
  show "q \<notin> set (nd_subs md'')" if "pl_nodes s'' m = Some md''" for m md''
    using shrinks_node [OF b that] a unfolding drops_def by metis
next
  fix m md assume m: "pl_nodes s m = Some md \<and> removeAll q (nd_subs md) \<noteq> []"
  then obtain md' where md': "pl_nodes s' m = Some md'" "nd_path md' = nd_path md" "nd_subs md' = removeAll q (nd_subs md)"
    and l: "m \<in> set (pl_all s) \<longrightarrow> m \<in> set (pl_all s')" "m \<in> set (pl_missing s) \<longrightarrow> m \<in> set (pl_missing s')"
    using a unfolding drops_def by blast
  have ne: "nd_subs md' \<noteq> []" using md'(3) m by simp
  show "\<exists>md''. pl_nodes s'' m = Some md'' \<and> nd_path md'' = nd_path md \<and> nd_subs md'' = removeAll q (nd_subs md)"
    using shrinks_kept [OF b md'(1) ne] md'(2,3) by metis
  have "(m \<in> set (pl_all s') \<longrightarrow> m \<in> set (pl_all s'')) \<and> (m \<in> set (pl_missing s') \<longrightarrow> m \<in> set (pl_missing s''))"
    using b md'(1) ne unfolding shrinks_def by blast
  with l show "m \<in> set (pl_all s) \<Longrightarrow> m \<in> set (pl_all s'')" "m \<in> set (pl_missing s) \<Longrightarrow> m \<in> set (pl_missing s'')"
    by blast+
qed

text \<open>The subscription can be removed: its node is there, and is a directory, or has no children, or
  stays because of another subscription. Otherwise the code asserts that a file has no children.\<close>

definition removable :: "'b psrv_scheme \<Rightarrow> cptr \<Rightarrow> bool" where
  "removable s q \<longleftrightarrow> (\<exists>sub n nd. sv_subs s q = Some sub \<and> pl_hash s (sub_path sub) = Some n \<and>
     pl_nodes s n = Some nd \<and> q \<in> set (nd_subs nd) \<and>
     (nd_is_dir nd \<or> nd_children nd = [] \<or> removeAll q (nd_subs nd) \<noteq> []))"

lemma cancel_sub_inv:
  assumes inv: "poll_inv s" and q: "sv_subs s q = Some sub"
  shows "poll_inv (s\<lparr>sv_subs := (sv_subs s)(q \<mapsto> gam_subscription_cancel sub)\<rparr>)"
proof (rule same_tree_linked [OF _ _ _ _ _ inv])
  let ?t = "s\<lparr>sv_subs := (sv_subs s)(q \<mapsto> gam_subscription_cancel sub)\<rparr>"
  show "sub_linked ?t path r" if "sub_linked s path r" for path r
    using that q by (auto simp: sub_linked_def gam_subscription_cancel_def)
qed simp_all

lemma free_inv:
  assumes inv: "poll_inv s" and unused: "\<And>m md. pl_nodes s m = Some md \<Longrightarrow> q \<notin> set (nd_subs md)"
  shows "poll_inv (s\<lparr>sv_subs := (sv_subs s)(q := None)\<rparr>)"
proof (rule same_tree_linked [OF _ _ _ _ _ inv])
  let ?t = "s\<lparr>sv_subs := (sv_subs s)(q := None)\<rparr>"
  show "sub_linked ?t (nd_path md) r" if "pl_nodes s m = Some md" "r \<in> set (nd_subs md)" "sub_linked s (nd_path md) r" for m md r
    using that unused [OF that(1)] by (auto simp: sub_linked_def)
qed simp_all

lemma unsubscribe:
  assumes inv: "poll_inv s" and q: "sv_subs s q = Some sub" and n: "pl_nodes s n = Some nd" "q \<in> set (nd_subs nd)"
  defines "s1 \<equiv> upd_node n (\<lambda>nd. nd\<lparr>nd_subs := removeAll q (nd_subs nd)\<rparr>)
      (s\<lparr>sv_subs := (sv_subs s)(q \<mapsto> gam_subscription_cancel sub)\<rparr>)"
  shows "gam_node_remove_subscription n q (s\<lparr>sv_subs := (sv_subs s)(q \<mapsto> gam_subscription_cancel sub)\<rparr>) = Some s1"
    "poll_inv s1" "drops q s s1" "flagged s1 = flagged s" "pl_missing s1 = pl_missing s"
proof -
  let ?s0 = "s\<lparr>sv_subs := (sv_subs s)(q \<mapsto> gam_subscription_cancel sub)\<rparr>"
  have s0: "poll_inv ?s0" "pl_nodes ?s0 n = Some nd" using cancel_sub_inv [OF inv q] n by simp_all
  show "gam_node_remove_subscription n q ?s0 = Some s1"
    using n by (simp add: gam_node_remove_subscription_def s1_def)
  show "poll_inv s1"
    unfolding s1_def using poll_sub [OF s0]
    by (intro poll_inv_links [OF _ s0(1)]) (use n(1) in \<open>auto simp: keeps_links_def distinct_removeAll\<close>)
  show "flagged s1 = flagged s" "pl_missing s1 = pl_missing s"
    by (auto simp: s1_def flagged_def)
  have "q \<notin> set (nd_subs md)" if "pl_nodes s m = Some md" "m \<noteq> n" for m md
    using sub_node_unique(1) [OF inv q that(1)] sub_node_unique(1) [OF inv q n] that(2) by auto
  then show "drops q s s1" by (auto simp: drops_def s1_def)
qed

lemma remove_directory_runs:
  assumes inv: "poll_inv s0" and n: "pl_nodes s0 n = Some nd" "n \<noteq> pl_root s0" and a: "gam_node_remove_subscription n q s = Some s0"
  shows "\<exists>b s'. node_remove_directory_subscription n q s = Some (b, s') \<and> poll_inv s' \<and> shrinks s0 s' \<and>
    pl_nodes s' n \<noteq> None \<and> (b \<longrightarrow> nd_subs nd = [])"
proof -
  have kids: "distinct (rev (nd_children nd))" "\<forall>c \<in> set (rev (nd_children nd)). c \<noteq> pl_root s0 \<and> pl_nodes s0 c \<noteq> None"
    "n \<notin> set (nd_children nd)"
  proof -
    show "distinct (rev (nd_children nd))" using tree_node(2) [OF poll_tree [OF inv] n(1)] by simp
    have c: "\<exists>cd. pl_nodes s0 c = Some cd \<and> nd_parent cd = Some n" if "c \<in> set (nd_children nd)" for c
      using tree_child [OF poll_tree [OF inv] n(1) that] .
    then show "\<forall>c \<in> set (rev (nd_children nd)). c \<noteq> pl_root s0 \<and> pl_nodes s0 c \<noteq> None"
      using tree_root [OF poll_tree [OF inv]] by fastforce
    show "n \<notin> set (nd_children nd)" using c [of n] n tree_below(2) [OF poll_tree [OF inv] n] by auto
  qed
  obtain s' where s': "remove_children (rev (nd_children nd)) (nd_subs nd = []) s0 = Some s'" "poll_inv s'" "shrinks s0 s'"
      "\<forall>m md. pl_nodes s0 m = Some md \<and> m \<notin> set (rev (nd_children nd)) \<longrightarrow> pl_nodes s' m \<noteq> None"
    using remove_children_runs [OF inv kids(1,2)] by blast
  obtain nd' where nd': "pl_nodes s' n = Some nd'" using s'(4) n kids(3) by fastforce
  have old: "nd_subs nd' = nd_subs nd" "nd_parent nd' = nd_parent nd"
    using shrinks_node [OF s'(3) nd'] n(1) by (metis option.inject)+
  have "n \<noteq> pl_root s'" using n(2) s'(3) by (simp add: shrinks_def)
  then obtain p pd where p: "nd_parent nd' = Some p" "pl_nodes s' p = Some pd" "nd_parent nd = Some p"
    using tree_below(2) [OF poll_tree [OF s'(2)] nd'] old(2) by auto
  show ?thesis
    using a n(1) s' nd' old(1) p
    by (auto simp: node_remove_directory_subscription_def gam_node_get_subscriptions_def gam_tree_get_children_def
        gam_node_parent_def gam_node_has_dir_subscriptions_def)
qed

lemma remove_file_runs:
  assumes inv: "poll_inv s1" and a: "gam_node_remove_subscription n q s = Some s1"
    and n: "pl_nodes s1 n = Some nd" "n \<noteq> pl_root s1" and f: "nd_children nd = [] \<or> nd_subs nd \<noteq> []"
  shows "\<exists>s'. remove_file_sub n q s = Some s' \<and> poll_inv s' \<and> shrinks s1 s'"
proof (cases "nd_subs nd = []")
  case True
  then have leaf: "nd_children nd = []" "nd_subs nd = []" using f by simp_all
  obtain p pd where p: "nd_parent nd = Some p" "p < n" "pl_nodes s1 p = Some pd"
    using tree_below(2) [OF poll_tree [OF inv] n] by auto
  obtain s3 where s3: "gam_tree_remove n (gam_poll_generic_unregister_node n s1) = Some (True, s3)" "poll_inv s3"
      "shrinks s1 s3" "\<forall>m md. pl_nodes s1 m = Some md \<and> m \<noteq> n \<longrightarrow> pl_nodes s3 m \<noteq> None"
    using drop_node [OF inv n leaf] by blast
  obtain s4 where s4: "gam_poll_generic_prune_tree p s3 = Some s4" "poll_inv s4" "shrinks s3 s4"
    using gam_prune_runs [OF s3(2), of p] s3(4) p by auto
  show ?thesis
    using a n(1) leaf p s3(1) s4 shrinks_trans [OF s3(3) s4(3)]
      unregister_inv [OF inv, of n] unregister_shrinks [OF n(1) leaf(2)]
    by (auto simp: remove_file_sub_def gam_node_get_subscriptions_def gam_tree_has_children_def gam_node_parent_def
        gam_node_has_dir_subscriptions_def)
next
  case False
  then show ?thesis using a inv n(1) by (auto simp: remove_file_sub_def gam_node_get_subscriptions_def)
qed

lemma remove_dir_runs:
  assumes inv: "poll_inv s1" and a: "gam_node_remove_subscription n q s = Some s1"
    and n: "pl_nodes s1 n = Some nd" "n \<noteq> pl_root s1"
  shows "\<exists>s'. remove_dir_sub n q s = Some s' \<and> poll_inv s' \<and> shrinks s1 s'"
proof -
  obtain b s2 where s2: "node_remove_directory_subscription n q s = Some (b, s2)" "poll_inv s2" "shrinks s1 s2"
      "pl_nodes s2 n \<noteq> None" "b \<longrightarrow> nd_subs nd = []"
    using remove_directory_runs [OF inv n a] by blast
  show ?thesis
  proof (cases b)
    case False
    then show ?thesis using s2 by (auto simp: remove_dir_sub_def)
  next
    case b: True
    obtain nd2 where nd2: "pl_nodes s2 n = Some nd2" "nd_subs nd2 = []" "n \<noteq> pl_root s2"
      using s2(4) shrinks_node [OF s2(3)] n s2(5) b s2(3) by (fastforce simp: shrinks_def)
    obtain p where p: "nd_parent nd2 = Some p" "p < n" "pl_nodes s2 p \<noteq> None"
      using tree_below(2) [OF poll_tree [OF s2(2)] nd2(1,3)] by auto
    let ?s3 = "gam_poll_generic_unregister_node n s2"
    obtain c s3 where s3: "(if nd_children nd2 = [] then gam_tree_remove n ?s3 else Some (False, ?s3)) = Some (c, s3)"
        "poll_inv s3" "shrinks s2 s3" "pl_nodes s3 p \<noteq> None"
    proof (cases "nd_children nd2 = []")
      case True
      then show ?thesis using drop_node [OF s2(2) nd2(1,3) True nd2(2)] p(2,3) that by auto
    next
      case False
      then show ?thesis
        using that [of False ?s3] unregister_inv [OF s2(2), of n] unregister_shrinks [OF nd2(1,2)] p(3) by simp
    qed
    obtain s4 where s4: "gam_poll_generic_prune_tree p s3 = Some s4" "poll_inv s4" "shrinks s3 s4"
      using gam_prune_runs [OF s3(2,4)] by blast
    then show ?thesis
      using b s2(1) nd2(1) p(1) s3(1) shrinks_trans [OF s2(3) shrinks_trans [OF s3(3) s4(3)]]
      by (cases "nd_children nd2 = []") (simp_all add: remove_dir_sub_def gam_node_parent_def gam_tree_has_children_def)
  qed
qed

lemma remove_subscription_runs:
  fixes s :: psrv
  assumes ok: "poll_ok s" and q: "removable s q"
  shows "\<exists>s'. gam_poll_basic_remove_subscription q s = Some (True, s') \<and> poll_ok s' \<and> drops q s s' \<and>
    sv_subs s' = (sv_subs s)(q := None) \<and> sv_listeners s' = sv_listeners s \<and> sv_conns s' = sv_conns s"
proof -
  obtain sub n nd where sub: "sv_subs s q = Some sub" "pl_hash s (sub_path sub) = Some n" "pl_nodes s n = Some nd"
      "q \<in> set (nd_subs nd)" "nd_is_dir nd \<or> nd_children nd = [] \<or> removeAll q (nd_subs nd) \<noteq> []"
    using q by (auto simp: removable_def)
  have inv: "poll_inv s" "flagged s = {}" "distinct (pl_missing s)" using ok by (simp_all add: poll_ok_def)
  let ?s0 = "s\<lparr>sv_subs := (sv_subs s)(q \<mapsto> gam_subscription_cancel sub)\<rparr>"
  define s1 where "s1 = upd_node n (\<lambda>nd. nd\<lparr>nd_subs := removeAll q (nd_subs nd)\<rparr>) ?s0"
  note u = unsubscribe [OF inv(1) sub(1,3,4), folded s1_def]
  have n1: "pl_nodes s1 n = Some (nd\<lparr>nd_subs := removeAll q (nd_subs nd)\<rparr>)" "n \<noteq> pl_root s1"
    using sub(3) tree_hash(1) [OF poll_tree [OF inv(1)] sub(2)] by (simp_all add: s1_def)
  have srv1: "sv_subs s1 = (sv_subs s)(q \<mapsto> gam_subscription_cancel sub)" "sv_listeners s1 = sv_listeners s"
      "sv_conns s1 = sv_conns s" by (simp_all add: s1_def)
  obtain s4 where s4: "(if \<not> nd_is_dir nd then remove_file_sub n q ?s0 else remove_dir_sub n q ?s0) = Some s4"
      "poll_inv s4" "shrinks s1 s4"
    using remove_dir_runs [OF u(2,1) n1] remove_file_runs [OF u(2,1) n1] sub(5) by (cases "nd_is_dir nd") auto
  have d: "drops q s s4" by (rule drops_shrinks [OF u(3) s4(3)])
  let ?s5 = "s4\<lparr>sv_subs := (sv_subs s4)(q := None)\<rparr>"
  have "poll_inv ?s5" using d by (intro free_inv [OF s4(2)]) (auto simp: drops_def)
  moreover have "flagged s4 = {}" "distinct (pl_missing s4)"
    using shrinks_flagged [OF s4(3)] s4(3) u(4,5) inv(2,3) by (simp_all add: shrinks_def)
  ultimately have ok5: "poll_ok ?s5" by (simp add: poll_ok_def flagged_def)
  have srv4: "sv_subs s4 = sv_subs s1" "sv_listeners s4 = sv_listeners s1" "sv_conns s4 = sv_conns s1"
    using s4(3) by (simp_all add: shrinks_def)
  have "drops q s ?s5" by (rule drops_same [OF d]) simp_all
  moreover have "gam_poll_basic_remove_subscription q s = Some (True, ?s5)"
    using sub(1-3) s4(1) srv1(1) srv4(1)
    by (auto simp: gam_poll_basic_remove_subscription_def gam_tree_get_at_path_def gam_node_is_dir_def
        gam_subscription_free_def split: if_splits)
  ultimately show ?thesis using ok5 srv1 srv4 by auto
qed

end
