(* ===== verification/Gam_Poll_Props.thy ===== *)
theory Gam_Poll_Props
  imports Gam_Poll_Tick
begin

unbundle bit_operations_syntax

text \<open>
  What the polling back end promises: the paths of the tree, what one poll of a file observes, the
  messages of a new subscription, and that the timer always comes to an end.
\<close>

section \<open>An example\<close>

text \<open>A file system with the directory \<open>/d\<close> and the files given below it.\<close>

definition demo_stat :: "bool \<Rightarrow> int \<Rightarrow> stat" where
  "demo_stat d t = \<lparr>st_is_dir = d, st_mtime = t, st_mtime_nsec = 0, st_size = 1, st_ctime = t, st_ctime_nsec = 0\<rparr>"

definition demo_env :: "int \<Rightarrow> (string \<times> int) list \<Rightarrow> fenv" where
  "demo_env t files = \<lparr>
     en_stat = (\<lambda>p. if p = ''/d'' then STAT_OK (demo_stat True 1)
                    else case map_of files p of None \<Rightarrow> STAT_NOENT | Some m \<Rightarrow> STAT_OK (demo_stat False m)),
     en_readdir = (\<lambda>p. if p = ''/d'' then Some (map (\<lambda>f. drop 3 (fst f)) files) else None),
     en_time = t, en_poll_timeout = (\<lambda>_. 0), en_mon_type = (\<lambda>_. GFS_MT_POLL), en_exclude = (\<lambda>_. False)\<rparr>"

definition demo_sub :: "string \<Rightarrow> int \<Rightarrow> bool \<Rightarrow> GamSubscription" where
  "demo_sub path n d = gam_subscription_set_listener 1 (gam_subscription_new path req_events n d 0)"

text \<open>The state of a server before a polling back end is initialised, and three subscriptions to add.\<close>

definition no_nodes :: "srv \<Rightarrow> psrv" where
  "no_nodes s = srv.extend s \<lparr>pl_nodes = Map.empty, pl_nextnode = 0, pl_root = 0, pl_hash = Map.empty,
     pl_missing = [], pl_busy = [], pl_all = [], pl_time = 0, pl_running = False\<rparr>"

definition demo0 :: psrv where
  "demo0 = gam_poll_generic_init (demo_env 1 []) (no_nodes
     (srv0\<lparr>sv_listeners := [1 \<mapsto> \<lparr>ls_service = 0, ls_pid = 42, ls_pidname = ''x'', ls_subs = []\<rparr>],
        sv_subs := [2 \<mapsto> demo_sub ''/d'' 9 True, 3 \<mapsto> demo_sub ''/e'' 10 False, 4 \<mapsto> demo_sub ''/e/x'' 11 False]\<rparr>))"

lemma init_ok:
  fixes s :: srv
  shows "poll_ok (gam_poll_generic_init en (no_nodes s))"
proof -
  let ?s = "gam_poll_generic_init en (no_nodes s)"
  let ?r = "gam_node_new en ''/'' None True"
  have f: "pl_nodes ?s = [0 \<mapsto> ?r]" "pl_nextnode ?s = 1" "pl_root ?s = 0" "pl_hash ?s = Map.empty"
    "pl_missing ?s = []" "pl_busy ?s = []" "pl_all ?s = []"
    by (simp_all add: no_nodes_def srv.defs gam_poll_generic_init_def gam_tree_new_def alloc_node_def
        gam_poll_generic_update_time_def)
  show ?thesis
    by (auto simp: poll_ok_def poll_inv_def tree_inv_def flagged_def f gam_node_new_def split: if_splits)
qed

lemma demo_ok: "poll_ok demo0"
  unfolding demo0_def by (rule init_ok)

lemma demo_addable: "addable demo0 2" "addable demo0 3" "addable demo0 4"
  by (simp_all add: addable_def demo0_def no_nodes_def srv.defs gam_poll_generic_init_def gam_tree_new_def
      alloc_node_def gam_poll_generic_update_time_def srv0_def conn0_def demo_sub_def
      gam_subscription_set_listener_def gam_node_new_def)

section \<open>Paths\<close>

text \<open>Adding a path to the tree never fails on a non-empty path. The node of the path is then found under
  it, every directory above it has a node too, the parent is the nearest of them (the root when there is
  none), no other path is added, and the nodes that were there keep their place.\<close>

theorem tree_add_makes_parents:
  assumes "poll_inv s" "path \<noteq> []"
  shows "\<exists>n s'. gam_tree_add_at_path en path d s = Some (Some n, s') \<and> poll_inv s' \<and> grows s s' \<and>
    gam_tree_get_at_path path s' = Some n \<and> pl_nodes s' n \<noteq> None \<and>
    (gam_tree_get_at_path path s = None \<longrightarrow>
       (\<forall>i \<in> set (dir_ends path [1..<length path]). gam_tree_get_at_path (take i path) s' \<noteq> None) \<and>
       gam_node_parent n s' = Some (if dir_ends path [1..<length path] = [] then Some (pl_root s)
         else gam_tree_get_at_path (take (last (dir_ends path [1..<length path])) path) s')) \<and>
    (\<forall>q. gam_tree_get_at_path q s = None \<and> gam_tree_get_at_path q s' \<noteq> None \<longrightarrow>
       q = path \<or> (\<exists>i \<in> set (dir_ends path [1..<length path]). q = take i path))"
  using add_at_path_spec [OF assms, of en d] unfolding gam_tree_get_at_path_def by fastforce

theorem tree_add_makes_parents_witness:
  "\<exists>n s'. gam_tree_add_at_path (demo_env 5 []) ''/e/x'' False demo0 = Some (Some n, s') \<and>
     gam_tree_get_at_path ''/e/x'' s' = Some n \<and> gam_tree_get_at_path ''/e'' s' \<noteq> None \<and>
     gam_node_parent n s' = Some (gam_tree_get_at_path ''/e'' s')"
proof -
  have e: "dir_ends ''/e/x'' [1..<length ''/e/x''] = [2]" by code_simp
  have h: "gam_tree_get_at_path ''/e/x'' demo0 = None" by code_simp
  have i: "poll_inv demo0" using demo_ok by (simp add: poll_ok_def)
  obtain n s' where s': "gam_tree_add_at_path (demo_env 5 []) ''/e/x'' False demo0 = Some (Some n, s')"
      "gam_tree_get_at_path ''/e/x'' s' = Some n"
      "\<forall>i \<in> set [2]. gam_tree_get_at_path (take i ''/e/x'') s' \<noteq> None"
      "gam_node_parent n s' = Some (gam_tree_get_at_path (take (last [2]) ''/e/x'') s')"
    using tree_add_makes_parents [OF i, of "''/e/x''" "demo_env 5 []" False] h unfolding e by auto
  moreover have "take 2 ''/e/x'' = ''/e''" by code_simp
  ultimately show ?thesis by auto
qed

section \<open>What one poll observes\<close>

text \<open>What a node knows of its file, and how an answer of \<^verbatim>\<open>stat\<close> changes that and is reported.\<close>

datatype view = Unknown | Missing | Present stat

definition view_of :: "GamNode \<Rightarrow> view" where
  "view_of nd = (if nd_lasttime nd = 0 then Unknown else if nd_missing nd then Missing else Present (nd_sbuf nd))"

definition stat_changed :: "stat \<Rightarrow> stat \<Rightarrow> bool" where
  "stat_changed a b \<longleftrightarrow> (st_mtime a, st_mtime_nsec a, st_size a, st_ctime a, st_ctime_nsec a) \<noteq>
     (st_mtime b, st_mtime_nsec b, st_size b, st_ctime b, st_ctime_nsec b)"

fun observe :: "view \<Rightarrow> statres \<Rightarrow> view \<times> evtype" where
  "observe Unknown (STAT_OK st) = (Present st, 0)"
| "observe Unknown _ = (Missing, GAMIN_EVENT_DELETED)"
| "observe Missing (STAT_OK st) = (Present st, GAMIN_EVENT_CREATED)"
| "observe Missing _ = (Missing, 0)"
| "observe (Present old) (STAT_OK st) = (Present st, if stat_changed old st then GAMIN_EVENT_CHANGED else 0)"
| "observe (Present old) STAT_NOENT = (Missing, GAMIN_EVENT_DELETED)"
| "observe (Present old) STAT_ERR = (Present stat_zero, 0)"

definition fresh_unmarked :: "GamNode \<Rightarrow> bool" where
  "fresh_unmarked nd \<longleftrightarrow> (nd_lasttime nd = 0 \<longrightarrow> \<not> nd_missing nd)"

lemma missing_kept: "w AND MON_MISSING = 0 \<Longrightarrow> (w AND NOT MON_MISSING) AND MON_MISSING = 0"
  by (simp add: and.assoc and.left_commute)

lemma missing_cleared: "(w AND NOT MON_MISSING) AND MON_MISSING = (0 :: evtype)"
  by (simp add: and.assoc)

lemma view_poll_node:
  assumes "fresh_unmarked nd" "t \<noteq> 0"
  shows "view_of (poll_node en t nd) = fst (observe (view_of nd) (en_stat en (nd_path nd)))"
    "poll_event en nd = snd (observe (view_of nd) (en_stat en (nd_path nd)))"
    "fresh_unmarked (poll_node en t nd)"
  using assms missing_bit missing_cleared
  by (auto simp: fresh_unmarked_def view_of_def poll_node_def poll_pflags_def poll_event_def nd_missing_def
      stat_changed_def gam_poll_generic_node_changed_def split: statres.split)

text \<open>C7. Polling a file implements the observation of its view: when the poll is due, the event it reports
  and what the node then knows are those of the observation of the answer of \<^verbatim>\<open>stat\<close>, every other node is
  as it was, and a missing file waits on the list of missing files exactly when it is reported as
  deleted (or waited already). When the poll is not due it does nothing.\<close>

theorem poll_file_refines_observe:
  assumes "pl_nodes s n = Some nd" "fresh_unmarked nd" "pl_time s \<noteq> 0"
  shows "if poll_due nd s then
      \<exists>s' nd'. gam_poll_basic_poll_file en n s = Some (snd (observe (view_of nd) (en_stat en (nd_path nd))), s') \<and>
        pl_nodes s' = (pl_nodes s)(n \<mapsto> nd') \<and>
        view_of nd' = fst (observe (view_of nd) (en_stat en (nd_path nd))) \<and> fresh_unmarked nd' \<and>
        (view_of nd \<noteq> Unknown \<longrightarrow> (n \<in> set (pl_missing s) \<longleftrightarrow> view_of nd = Missing) \<longrightarrow>
           (n \<in> set (pl_missing s') \<longleftrightarrow> view_of nd' = Missing))
    else gam_poll_basic_poll_file en n s = Some (0, s)"
proof (cases "poll_due nd s")
  case False
  then show ?thesis using poll_file_not_due [OF assms(1)] by simp
next
  case True
  let ?s1 = "upd_node n (poll_node en (pl_time s)) s"
  let ?s' = "poll_lists en nd n ?s1"
  have "pl_nodes ?s' = (pl_nodes s)(n \<mapsto> poll_node en (pl_time s) nd)"
    using assms(1) by (simp add: poll_lists_def split: statres.split)
  moreover have "n \<in> set (pl_missing ?s') \<longleftrightarrow> fst (observe (view_of nd) (en_stat en (nd_path nd))) = Missing"
    if "view_of nd \<noteq> Unknown" "n \<in> set (pl_missing s) \<longleftrightarrow> view_of nd = Missing"
    using that assms(1)
    by (auto simp: view_of_def poll_lists_def gam_poll_generic_remove_missing_def gam_poll_generic_add_missing_def
        gam_poll_generic_remove_busy_def split: statres.split if_splits)
  ultimately show ?thesis
    using True poll_file_eq [OF assms(1) True, of en] view_poll_node [OF assms(2,3), of en] by auto
qed

theorem poll_file_refines_observe_witness:
  "\<exists>s' nd'. gam_poll_basic_poll_file (demo_env 5 [(''/d/a'', 4)]) 0
      (upd_node 0 (\<lambda>nd. nd\<lparr>nd_path := ''/d/a'', nd_lasttime := 1, nd_sbuf := demo_stat False 3\<rparr>) demo0) =
        Some (GAMIN_EVENT_CHANGED, s') \<and>
     pl_nodes s' 0 = Some nd' \<and> view_of nd' = Present (demo_stat False 4)"
proof -
  let ?nd = "(gam_node_new (demo_env 1 []) ''/'' None True)\<lparr>nd_path := ''/d/a'', nd_lasttime := 1, nd_sbuf := demo_stat False 3\<rparr>"
  let ?s = "upd_node 0 (\<lambda>nd. nd\<lparr>nd_path := ''/d/a'', nd_lasttime := 1, nd_sbuf := demo_stat False 3\<rparr>) demo0"
  have a: "pl_nodes ?s 0 = Some ?nd" "pl_time ?s \<noteq> 0"
    by (simp_all add: demo0_def no_nodes_def srv.defs gam_poll_generic_init_def gam_tree_new_def
      alloc_node_def gam_poll_generic_update_time_def demo_env_def)
  have v: "view_of ?nd = Present (demo_stat False 3)"
    by (simp add: view_of_def nd_missing_def gam_node_new_def)
  have o: "observe (Present (demo_stat False 3)) (en_stat (demo_env 5 [(''/d/a'', 4)]) (nd_path ?nd)) =
      (Present (demo_stat False 4), GAMIN_EVENT_CHANGED)"
    by code_simp
  have d: "fresh_unmarked ?nd" "poll_due ?nd ?s"
    by (simp_all add: fresh_unmarked_def poll_due_def gam_node_new_def demo_env_def gam_poll_generic_get_delta_time_def)
  show ?thesis
    using poll_file_refines_observe [OF a(1) d(1) a(2), of "demo_env 5 [(''/d/a'', 4)]"] d(2) unfolding v o by auto
qed

text \<open>A sequence of polls of one node, each with its clock and file system.\<close>

fun polls :: "fenv list \<Rightarrow> cptr \<Rightarrow> 'b psrv_scheme \<Rightarrow> (evtype list \<times> 'b psrv_scheme) option" where
  "polls [] n s = Some ([], s)"
| "polls (en # ens) n s =
     do { (e, s1) \<leftarrow> gam_poll_basic_poll_file en n (gam_poll_generic_update_time en s);
          (es, s2) \<leftarrow> polls ens n s1;
          Some (e # es, s2) }"

fun alternate :: "'a \<Rightarrow> 'a \<Rightarrow> 'a list \<Rightarrow> bool" where
  "alternate a b [] = True"
| "alternate a b (x # xs) = (x = a \<and> alternate b a xs)"

abbreviation appearances :: "evtype list \<Rightarrow> evtype list" where
  "appearances \<equiv> filter (\<lambda>e. e = GAMIN_EVENT_CREATED \<or> e = GAMIN_EVENT_DELETED)"

definition turns :: "view \<Rightarrow> evtype list \<Rightarrow> bool" where
  "turns v es = (if v = Missing then alternate GAMIN_EVENT_CREATED GAMIN_EVENT_DELETED es
     else alternate GAMIN_EVENT_DELETED GAMIN_EVENT_CREATED es)"

lemma turns_observe:
  "turns (fst (observe v r)) (appearances es) \<Longrightarrow> turns v (appearances (snd (observe v r) # es))"
  by (cases "(v, r)" rule: observe.cases) (simp_all add: turns_def event_defs split: if_splits)

text \<open>C36. Over any sequence of polls a file is reported as deleted and as created in turns: after a deletion
  the next such report is a creation, and the other way round, whatever \<^verbatim>\<open>stat\<close> answers in between.\<close>

theorem deleted_and_created_alternate:
  assumes "pl_nodes s n = Some nd" "fresh_unmarked nd" "\<forall>en \<in> set ens. en_time en \<noteq> 0"
  shows "\<exists>es s'. polls ens n s = Some (es, s') \<and> turns (view_of nd) (appearances es)"
  using assms
proof (induction ens arbitrary: s nd)
  case Nil
  then show ?case by (simp add: turns_def)
next
  case (Cons en ens)
  let ?s = "gam_poll_generic_update_time en s"
  have nd: "pl_nodes ?s n = Some nd" and t: "pl_time ?s \<noteq> 0"
    using Cons.prems(1,3) by (simp_all add: gam_poll_generic_update_time_def)
  show ?case
  proof (cases "poll_due nd ?s")
    case False
    then show ?thesis
      using Cons.IH [OF nd Cons.prems(2)] Cons.prems(3) poll_file_not_due [OF nd False, of en] by (auto simp: event_defs)
  next
    case True
    let ?o = "observe (view_of nd) (en_stat en (nd_path nd))"
    let ?nd = "poll_node en (pl_time ?s) nd"
    let ?s1 = "poll_lists en nd n (upd_node n (poll_node en (pl_time ?s)) ?s)"
    note v = view_poll_node [OF Cons.prems(2) t, of en]
    have p: "gam_poll_basic_poll_file en n ?s = Some (snd ?o, ?s1)"
      using poll_file_eq [OF nd True, of en] v(2) by simp
    have "pl_nodes ?s1 n = Some ?nd"
      using nd by (simp add: poll_lists_def split: statres.split)
    from Cons.IH [OF this v(3)] Cons.prems(3) obtain es s' where
      s': "polls ens n ?s1 = Some (es, s')" "turns (view_of ?nd) (appearances es)" by auto
    from s'(2) have "turns (view_of nd) (appearances (snd ?o # es))"
      unfolding v(1) by (rule turns_observe)
    with p s'(1) show ?thesis by auto
  qed
qed

theorem deleted_and_created_alternate_witness:
  "\<exists>es s'. polls [demo_env 5 [], demo_env 6 [(''/'', 5)], demo_env 7 [(''/'', 6)], demo_env 8 []] 0 demo0 = Some (es, s') \<and>
     turns Unknown (appearances es)"
proof -
  let ?nd = "gam_node_new (demo_env 1 []) ''/'' None True"
  have a: "pl_nodes demo0 0 = Some ?nd"
    by (simp add: demo0_def no_nodes_def srv.defs gam_poll_generic_init_def gam_tree_new_def
      alloc_node_def gam_poll_generic_update_time_def)
  have b: "fresh_unmarked ?nd" "view_of ?nd = Unknown"
    by (simp_all add: fresh_unmarked_def view_of_def nd_missing_def gam_node_new_def)
  show ?thesis
    using deleted_and_created_alternate [OF a b(1),
        of "[demo_env 5 [], demo_env 6 [(''/'', 5)], demo_env 7 [(''/'', 6)], demo_env 8 []]"] b(2)
    by (simp add: demo_env_def)
qed

section \<open>The timer\<close>

text \<open>C23. The timer's callback always comes to an end: its two loops, which walk over lists that change while
  they walk, need at most as many rounds as nodes were ever allocated; it does not abort, keeps the
  invariant, and never removes a node.\<close>

theorem scan_callback_terminates:
  assumes "poll_ok s" "pl_nextnode s < k"
  shows "\<exists>b s'. gam_poll_basic_scan_callback k en s = Some (b, s') \<and> poll_ok s' \<and> grows s s'"
  by (rule scan_callback_runs [OF assms])

theorem scan_callback_terminates_witness:
  "\<exists>b s'. gam_poll_basic_scan_callback 2 (demo_env 5 []) demo0 = Some (b, s') \<and> poll_ok s'"
proof -
  have "pl_nextnode demo0 < 2"
    by (simp add: demo0_def no_nodes_def srv.defs gam_poll_generic_init_def gam_tree_new_def
      alloc_node_def gam_poll_generic_update_time_def)
  from scan_callback_terminates [OF demo_ok this, of "demo_env 5 []"] show ?thesis by blast
qed

section \<open>New subscriptions\<close>

text \<open>The tree makes no node with the empty path.\<close>

lemma alloc_add_no_empty:
  assumes "gam_tree_add par n s1 = Some (b, s')" "alloc_node nd s = (n, s1)" "nd_path nd \<noteq> []" "gam_tree_get_at_path [] s = None"
  shows "gam_tree_get_at_path [] s' = None"
  using assms
  by (auto simp: gam_tree_add_def alloc_node_def gam_tree_get_at_path_def upd_node_def Let_def
      split: Option.bind_splits if_splits)

lemma add_parents_no_empty:
  "add_parents en path is par s = Some (p, s') \<Longrightarrow> 0 \<notin> set is \<Longrightarrow> path \<noteq> [] \<Longrightarrow> gam_tree_get_at_path [] s = None \<Longrightarrow>
     gam_tree_get_at_path [] s' = None"
proof (induction en path "is" par s rule: add_parents.induct)
  case (2 en path i "is" par s)
  show ?case
  proof (cases "path ! i \<noteq> CHR ''/'' \<or> gam_tree_get_at_path (take i path) s \<noteq> None")
    case True
    then show ?thesis using 2 by (auto split: if_splits)
  next
    case False
    obtain n s1 where n: "alloc_node (gam_node_new en (take i path) None True) s = (n, s1)" by fastforce
    then obtain b s2 where s2: "gam_tree_add par n s1 = Some (b, s2)" "add_parents en path is n s2 = Some (p, s')"
      using "2.prems"(1) False by (auto split: Option.bind_splits)
    have "gam_tree_get_at_path [] s2 = None"
      by (rule alloc_add_no_empty [OF s2(1) n]) (use "2.prems" in \<open>auto simp: gam_node_new_def\<close>)
    then show ?thesis using "2.IH"(2) [OF _ _ refl n [symmetric] s2(1) refl s2(2)] False "2.prems" by auto
  qed
qed simp

lemma add_at_path_no_empty:
  assumes "gam_tree_add_at_path en path d s = Some (r, s')" "gam_tree_get_at_path [] s = None"
  shows "gam_tree_get_at_path [] s' = None"
proof (cases "path = [] \<or> gam_tree_get_at_path path s \<noteq> None")
  case False
  let ?d = "if file_exists en path then file_is_dir en path else d"
  obtain par s1 where s1: "add_parents en path [1..<length path] (pl_root s) s = Some (par, s1)"
    using assms(1) False by (auto simp: gam_tree_add_at_path_def Let_def split: Option.bind_splits)
  obtain n s2 where n: "alloc_node (gam_node_new en path None ?d) s1 = (n, s2)" by fastforce
  obtain b where b: "gam_tree_add par n s2 = Some (b, s')"
    using assms(1) False s1 n by (auto simp: gam_tree_add_at_path_def Let_def split: Option.bind_splits)
  have e: "gam_tree_get_at_path [] s1 = None" by (rule add_parents_no_empty [OF s1]) (use assms(2) False in auto)
  show ?thesis by (rule alloc_add_no_empty [OF b n]) (use False e in \<open>auto simp: gam_node_new_def\<close>)
qed (use assms in \<open>auto simp: gam_tree_add_at_path_def split: if_splits\<close>)

text \<open>C31. Adding a subscription that is new, with its listener and an open connection: for a path that is not empty it
  returns, the subscription then belongs to the node of its path, the node is polled from then on, and the invariant
  holds. For the empty path, which a request can have, it aborts: there is no node for it, and the tree never makes one.\<close>

theorem add_subscription_registers:
  assumes ok: "poll_ok s" and sub: "sv_subs s q = Some sub" "sub_listener sub = Some l" "sv_listeners s l = Some ls"
      "q \<notin> set (ls_subs ls)" "\<forall>n nd. pl_nodes s n = Some nd \<longrightarrow> q \<notin> set (nd_subs nd)"
    and conn: "sv_conns s (ls_service ls) = Some c" "0 \<le> cn_fd c" and empty: "gam_tree_get_at_path [] s = None"
  shows "if sub_path sub = [] then gam_poll_basic_add_subscription en q s = None
    else \<exists>s' n nd. gam_poll_basic_add_subscription en q s = Some (True, s') \<and> poll_ok s' \<and>
      gam_tree_get_at_path (sub_path sub) s' = Some n \<and> pl_nodes s' n = Some nd \<and>
      q \<in> set (nd_subs nd) \<and> n \<in> set (pl_all s')"
proof (cases "sub_path sub = []")
  case True
  then show ?thesis
    using sub empty by (simp add: gam_poll_basic_add_subscription_def gam_listener_add_subscription_def gam_tree_add_at_path_def Let_def)
next
  case False
  then have "addable s q" using sub conn unfolding addable_def by blast
  from add_subscription_runs [OF ok this] show ?thesis using sub(1) False by simp
qed

theorem add_subscription_registers_witness:
  "(\<exists>s' n nd. gam_poll_basic_add_subscription (demo_env 5 [(''/d/a'', 4)]) 2 demo0 = Some (True, s') \<and> poll_ok s' \<and>
    gam_tree_get_at_path ''/d'' s' = Some n \<and> pl_nodes s' n = Some nd \<and> 2 \<in> set (nd_subs nd))"
proof -
  obtain sub l ls c where a: "sv_subs demo0 2 = Some sub" "sub_listener sub = Some l" "sv_listeners demo0 l = Some ls"
      "q \<notin> set (ls_subs ls)" "sv_conns demo0 (ls_service ls) = Some c" "0 \<le> cn_fd c" "\<forall>n nd. pl_nodes demo0 n = Some nd \<longrightarrow> 2 \<notin> set (nd_subs nd)"
    if "q = 2" for q
    using demo_addable(1) unfolding addable_def by blast
  have "map_option sub_path (sv_subs demo0 2) = Some ''/d''" "gam_tree_get_at_path [] demo0 = None" by code_simp+
  with add_subscription_registers [OF demo_ok a(1-4,7,5,6) [OF refl], of "demo_env 5 [(''/d/a'', 4)]"] a(1) [OF refl] show ?thesis by auto
qed

section \<open>What a new subscription is told\<close>

text \<open>A subscription of an open connection, written to at once, with the descriptor \<open>fd\<close>; and a step that
  sends it the packets \<open>ps\<close> and nothing else to anyone.\<close>

definition ready :: "cptr \<Rightarrow> GamSubscription \<Rightarrow> int \<Rightarrow> 'b srv_scheme \<Rightarrow> bool" where
  "ready q sub fd s \<longleftrightarrow> sv_subs s q = Some sub \<and> (\<exists>l ls. sub_listener sub = Some l \<and> sv_listeners s l = Some ls \<and>
     conn_open (ls_service ls) s \<and> conn_fd (ls_service ls) s = fd) \<and> writes_ok s \<and> \<not> sv_inotify s"

definition tells :: "cptr \<Rightarrow> GamSubscription \<Rightarrow> int \<Rightarrow> GAMPacket list \<Rightarrow> 'b srv_scheme \<Rightarrow> 'b srv_scheme \<Rightarrow> bool" where
  "tells q sub fd ps s s' \<longleftrightarrow>
     sv_sent s' = (sv_sent s)(fd := sv_sent s fd @ concat (map packet_bytes ps)) \<and> ready q sub fd s'"

definition same_srv :: "'b srv_scheme \<Rightarrow> 'b srv_scheme \<Rightarrow> bool" where
  "same_srv s s' \<longleftrightarrow> sv_subs s' = sv_subs s \<and> sv_listeners s' = sv_listeners s \<and> sv_conns s' = sv_conns s \<and>
     sv_closed s' = sv_closed s \<and> sv_inotify s' = sv_inotify s \<and> sv_sent s' = sv_sent s \<and> sv_writes s' = sv_writes s"

lemma tells_same: "ready q sub fd s \<Longrightarrow> same_srv s s' \<Longrightarrow> tells q sub fd [] s s'"
  by (simp add: ready_def tells_def same_srv_def conn_open_def conn_fd_def writes_ok_def)

lemma tells_trans: "tells q sub fd a s s' \<Longrightarrow> tells q sub fd b s' s'' \<Longrightarrow> tells q sub fd (a @ b) s s''"
  by (simp add: tells_def)

lemma tells_ready: "tells q sub fd ps s s' \<Longrightarrow> ready q sub fd s'"
  by (simp add: tells_def)

lemma tells_emit:
  assumes r: "ready q sub fd s" and e: "gam_server_emit_event p d e [q] f s = Some s'"
    and w: "gam_subscription_wants_event (Some sub) (Some p) d e f" "sendable e (event_subpath sub p)"
  shows "tells q sub fd [event_packet (sub_reqno sub) e (event_subpath sub p)] s s'"
proof -
  obtain l ls where l: "sv_subs s q = Some sub" "sub_listener sub = Some l" "sv_listeners s l = Some ls"
      "conn_open (ls_service ls) s" "writes_ok s" "\<not> sv_inotify s" "conn_fd (ls_service ls) s = fd"
    using r by (auto simp: ready_def)
  obtain s1 where s1: "gam_server_emit_one_event p d e q f s = Some s1" "same_world s s1" "writes_ok s1"
      "sv_sent s1 = (sv_sent s)(fd := sv_sent s fd @ packet_bytes (event_packet (sub_reqno sub) e (event_subpath sub p)))"
    by (rule emit_one_sends [OF l(1-6), of p d e f]) (use w l(7) in simp)
  have "s' = s1" using e s1(1) by simp
  then show ?thesis
    using s1 r same_world_simps [OF s1(2)] by (simp add: tells_def ready_def conn_open_def conn_fd_def)
qed

lemma same_srv_simps [simp]:
  "same_srv s s" "same_srv s (upd_node n f s)" "same_srv s (gam_poll_generic_add_missing n s)"
  "same_srv s (gam_poll_generic_remove_missing n s)" "same_srv s (gam_poll_generic_remove_busy n s)"
  "same_srv s (gam_poll_generic_add n s)" "same_srv s (gam_poll_generic_update_time en s)"
  "same_srv s (hang p nd s)" "same_srv s (s\<lparr>pl_running := b\<rparr>)"
  by (simp_all add: same_srv_def upd_node_def gam_poll_generic_add_missing_def gam_poll_generic_remove_missing_def
      gam_poll_generic_remove_busy_def gam_poll_generic_add_def gam_poll_generic_update_time_def hang_def)

lemma same_srv_trans: "same_srv s s' \<Longrightarrow> same_srv s' s'' \<Longrightarrow> same_srv s s''"
  by (simp add: same_srv_def)

lemma poll_file_same_srv: "gam_poll_basic_poll_file en n s = Some (e, s') \<Longrightarrow> same_srv s s'"
proof -
  assume a: "gam_poll_basic_poll_file en n s = Some (e, s')"
  obtain nd where nd: "pl_nodes s n = Some nd"
    using a by (auto simp: gam_poll_basic_poll_file_def split: Option.bind_splits)
  show ?thesis
  proof (cases "poll_due nd s")
    case False
    then show ?thesis using a poll_file_not_due [OF nd] by simp
  next
    case True
    have l: "same_srv t (poll_lists en nd n t)" for t :: "'a psrv_scheme"
      unfolding poll_lists_def
      by (auto simp: same_srv_def gam_poll_generic_add_missing_def gam_poll_generic_remove_missing_def
          gam_poll_generic_remove_busy_def split: statres.split)
    then show ?thesis
      using a poll_file_eq [OF nd True, of en] same_srv_trans [OF same_srv_simps(2) l] by auto
  qed
qed

lemma pflags_same_srv: "gam_node_set_pflags n fl s = Some s' \<Longrightarrow> same_srv s s'"
  by (auto simp: gam_node_set_pflags_def simp del: upd_node_simps split: Option.bind_splits)

text \<open>A subscription to a directory that wants to hear of existing files.\<close>

definition wants_listing :: "GamSubscription \<Rightarrow> string \<Rightarrow> bool" where
  "wants_listing sub dpath \<longleftrightarrow> sub_is_dir sub \<and> sub_path sub = dpath \<and> sub_pathlen sub = int (length dpath) \<and>
     \<not> sub_cancelled sub \<and> \<not> gam_subscription_has_option (Some sub) opt_noexists \<and>
     gam_subscription_has_event (Some sub) GAMIN_EVENT_EXISTS \<and>
     gam_subscription_has_event (Some sub) GAMIN_EVENT_ENDEXISTS \<and>
     gam_subscription_has_event (Some sub) GAMIN_EVENT_DELETED \<and> length dpath < MAXPATHLEN"

lemma wants_listing_accepts:
  assumes "wants_listing sub dpath" "e \<in> {GAMIN_EVENT_EXISTS, GAMIN_EVENT_ENDEXISTS, GAMIN_EVENT_DELETED}"
  shows "gam_subscription_wants_event (Some sub) (Some p) d e True"
  using assms by (auto simp: wants_listing_def gam_subscription_wants_event_def gam_subscription_has_option_def event_defs)

lemma entry_subpath: "wants_listing sub dpath \<Longrightarrow> CHR ''/'' \<notin> set name \<Longrightarrow> event_subpath sub name = name"
proof -
  assume w: "wants_listing sub dpath" and a: "CHR ''/'' \<notin> set name"
  then have "name ! i \<noteq> CHR ''/''" if "i < length name" for i using nth_mem that by metis
  then show ?thesis using w by (auto simp: event_subpath_def wants_listing_def)
qed

lemma listing_sendable:
  "length p < MAXPATHLEN \<Longrightarrow> e \<in> {GAMIN_EVENT_EXISTS, GAMIN_EVENT_ENDEXISTS, GAMIN_EVENT_DELETED} \<Longrightarrow> sendable e p"
  by (auto simp: sendable_def fam_code_def event_defs)

lemma first_scan_entry_tells:
  assumes r: "ready q sub fd s" and w: "wants_listing sub dpath" and inv: "poll_inv s" "pl_nodes s d = Some dnd"
    and name: "CHR ''/'' \<notin> set name" "length name < MAXPATHLEN"
    and a: "first_scan_entry en q d True dp name s = Some s'"
  shows "tells q sub fd [event_packet (sub_reqno sub) GAMIN_EVENT_EXISTS name] s s'"
proof -
  let ?path = "g_build_filename dp name"
  let ?sbuf = "case en_stat en ?path of STAT_OK st \<Rightarrow> st | _ \<Rightarrow> stat_zero"
  let ?nd0 = "gam_node_new en ?path None (file_is_dir en ?path)"
  let ?nd = "?nd0\<lparr>nd_sbuf := ?sbuf, nd_is_dir := st_is_dir ?sbuf,
                              nd_pflags := (if en_exclude en ?path \<or> en_mon_type en ?path \<noteq> GFS_MT_KERNEL
                                            then nd_pflags ?nd0 OR MON_NOKERNEL else nd_pflags ?nd0),
                              nd_lasttime := pl_time s\<rparr>"
  obtain s1 where s1: "same_srv s s1" "gam_server_emit_event name True GAMIN_EVENT_EXISTS [q] True s1 = Some s'"
  proof (cases "pl_hash s ?path")
    case (Some n)
    then show ?thesis using that [of s] a by (simp add: first_scan_entry_def gam_tree_get_at_path_def)
  next
    case None
    have nd: "pl_hash s (nd_path ?nd) = None" "nd_subs ?nd = []" using None by (simp_all add: gam_node_new_def)
    note new = poll_add_new(1) [OF inv nd]
    have "first_scan_entry en q d True dp name s =
        gam_server_emit_event name True GAMIN_EVENT_EXISTS [q] True (hang d ?nd s)"
      using None new by (simp add: first_scan_entry_def gam_tree_get_at_path_def split_beta
          del: upd_node_simps gam_server_emit_event.simps split del: if_split)
    then show ?thesis using that [of "hang d ?nd s"] a by (simp del: gam_server_emit_event.simps)
  qed
  have t: "tells q sub fd [] s s1" by (rule tells_same [OF r s1(1)])
  have "tells q sub fd [event_packet (sub_reqno sub) GAMIN_EVENT_EXISTS (event_subpath sub name)] s1 s'"
    by (rule tells_emit [OF tells_ready [OF t] s1(2) wants_listing_accepts [OF w]])
       (simp_all add: entry_subpath [OF w] name listing_sendable)
  from tells_trans [OF t this] show ?thesis by (simp add: entry_subpath [OF w] name)
qed

lemma first_scan_entries_tells:
  assumes "ready q sub fd s" "wants_listing sub dpath" "poll_inv s" "pl_nodes s d \<noteq> None" "flagged s = {}"
    and "list_all (\<lambda>name. CHR ''/'' \<notin> set name \<and> length name < MAXPATHLEN) names" "\<exists>sp. sub_linked s sp q"
    and "first_scan_entries en q d True dp names s = Some s'"
  shows "tells q sub fd (map (event_packet (sub_reqno sub) GAMIN_EVENT_EXISTS) names) s s'"
  using assms
proof (induction names arbitrary: s)
  case Nil
  then show ?case using tells_same [of q sub fd s s] by simp
next
  case (Cons name names)
  obtain s1 where s1: "first_scan_entry en q d True dp name s = Some s1" "first_scan_entries en q d True dp names s1 = Some s'"
    using Cons.prems(8) by (auto split: Option.bind_splits)
  obtain dnd where d: "pl_nodes s d = Some dnd" using Cons.prems(4) by auto
  have g: "poll_inv s1" "grows s s1" "flagged s1 = {}"
    using basic_poll.first_scan_entry_runs [OF Cons.prems(3,4,7,5), of en True dp name] s1(1) by (auto simp: runs_def)
  have t: "tells q sub fd [event_packet (sub_reqno sub) GAMIN_EVENT_EXISTS name] s s1"
    by (rule first_scan_entry_tells [OF Cons.prems(1-3) d _ _ s1(1)]) (use Cons.prems(6) in simp_all)
  have "tells q sub fd (map (event_packet (sub_reqno sub) GAMIN_EVENT_EXISTS) names) s1 s'"
    using Cons.prems(6,7) sub_linked_grows [OF g(2)]
    by (intro Cons.IH [OF tells_ready [OF t] Cons.prems(2) g(1) node_there [OF g(2) Cons.prems(4)] g(3) _ _ s1(2)]) simp_all
  from tells_trans [OF t this] show ?case by simp
qed

text \<open>The messages of a listing: the directory, its entries by name, the end.\<close>

definition listing :: "GamSubscription \<Rightarrow> string \<Rightarrow> string list \<Rightarrow> GAMPacket list" where
  "listing sub dpath names =
     map (event_packet (sub_reqno sub) GAMIN_EVENT_EXISTS) (dpath # names) @
     [event_packet (sub_reqno sub) GAMIN_EVENT_ENDEXISTS dpath]"

definition entries :: "fenv \<Rightarrow> string \<Rightarrow> string list" where
  "entries en dpath = (case en_readdir en dpath of None \<Rightarrow> [] | Some names \<Rightarrow> names)"

text \<open>C8. The first scan of a directory tells the new subscription, and nobody else, exactly this: that the
  directory exists, each entry by its name in the order of the directory, and the end of the listing;
  for a missing directory that it is deleted, and the end of the listing.\<close>

theorem first_scan_tells_listing:
  assumes "poll_inv s" "flagged s = {}" "pl_nodes s n \<noteq> None" "ready q sub fd s" "wants_listing sub dpath"
    and "list_all (\<lambda>name. CHR ''/'' \<notin> set name \<and> length name < MAXPATHLEN) (entries en dpath)"
  shows "\<exists>s'. gam_poll_generic_first_scan_dir en (gam_poll_basic_poll_file en) q n dpath s = Some s' \<and>
    sv_sent s' = (sv_sent s)(fd := sv_sent s fd @ concat (map packet_bytes
      (if file_exists en dpath then listing sub dpath (entries en dpath)
       else [event_packet (sub_reqno sub) GAMIN_EVENT_DELETED dpath,
             event_packet (sub_reqno sub) GAMIN_EVENT_ENDEXISTS dpath])))"
proof -
  let ?pk = "event_packet (sub_reqno sub)"
  have sub: "sv_subs s q = Some sub" using assms(4) by (simp add: ready_def)
  have lk: "\<exists>sp. sub_linked s sp q"
    using assms(4) by (auto simp: ready_def sub_linked_def conn_open_def)
  have we: "\<not> gam_subscription_has_option (Some sub) opt_noexists" using assms(5) by (simp add: wants_listing_def)
  obtain s' where s': "gam_poll_generic_first_scan_dir en (gam_poll_basic_poll_file en) q n dpath s = Some s'"
    using basic_poll.first_scan_dir_runs [OF assms(1,3) lk assms(2), of en en dpath] by (auto simp: runs_def)
  have self: "event_subpath sub dpath = dpath" using assms(5) event_subpath_self [of sub] by (simp add: wants_listing_def)
  have emit: "tells q sub fd [?pk e dpath] t t'"
    if "ready q sub fd t" "gam_server_emit_event dpath True e [q] True t = Some t'"
      "e \<in> {GAMIN_EVENT_EXISTS, GAMIN_EVENT_ENDEXISTS, GAMIN_EVENT_DELETED}" for t t' e
    using tells_emit [OF that(1,2) wants_listing_accepts [OF assms(5) that(3)]] listing_sendable [of dpath e] that(3) assms(5)
    unfolding self by (simp add: wants_listing_def)
  have "tells q sub fd (if file_exists en dpath then listing sub dpath (entries en dpath)
       else [?pk GAMIN_EVENT_DELETED dpath, ?pk GAMIN_EVENT_ENDEXISTS dpath]) s s'"
  proof (cases "file_exists en dpath")
    case False
    obtain s1 f s3 where a: "gam_server_emit_event dpath True GAMIN_EVENT_DELETED [q] True s = Some s1"
        "gam_node_set_pflags n MON_MISSING (upd_node n f s1) = Some s3"
        "gam_server_emit_event dpath True GAMIN_EVENT_ENDEXISTS [q] True (gam_poll_generic_add_missing n s3) = Some s'"
      using s' False we
      by (fastforce simp: gam_poll_generic_first_scan_dir_def sub simp del: upd_node_simps gam_server_emit_event.simps
          split: Option.bind_splits)
    note t1 = emit [OF assms(4) a(1), simplified]
    have t2: "tells q sub fd [] s1 (gam_poll_generic_add_missing n s3)"
      by (rule tells_same [OF tells_ready [OF t1]])
         (rule same_srv_trans [OF same_srv_simps(2) same_srv_trans [OF pflags_same_srv [OF a(2)] same_srv_simps(3)]])
    from tells_trans [OF t1 tells_trans [OF t2 emit [OF tells_ready [OF t2] a(3)]]] False show ?thesis by simp
  next
    case True
    obtain nd e s1 s2 s3 where a: "pl_nodes s n = Some nd"
        "(if nd_lasttime nd = 0 then gam_poll_basic_poll_file en n s else Some (0, s)) = Some (e, s1)"
        "gam_server_emit_event dpath True GAMIN_EVENT_EXISTS [q] True s1 = Some s2"
        "first_scan_entries en q n True dpath (entries en dpath) s2 = Some s3"
        "gam_server_emit_event dpath True GAMIN_EVENT_ENDEXISTS [q] True s3 = Some s'"
      using s' True we
      by (fastforce simp: gam_poll_generic_first_scan_dir_def sub entries_def
          simp del: upd_node_simps gam_server_emit_event.simps split: Option.bind_splits option.splits)
    have s1: "same_srv s s1 \<and> poll_inv s1 \<and> flagged s1 = {} \<and> grows s s1"
      using a(2) poll_file_same_srv poll_file_runs [OF assms(1,3), of en] assms(1,2)
      by (auto simp: runs2_def split: if_splits)
    have t1: "tells q sub fd [] s s1" using tells_same [OF assms(4)] s1 by blast
    note t2 = emit [OF tells_ready [OF t1] a(3), simplified]
    note quiet = emit_quiet [OF a(3)]
    have g: "grows s s2" using grows_trans grows_quiet [OF quiet] s1 by blast
    have "tells q sub fd (map (?pk GAMIN_EVENT_EXISTS) (entries en dpath)) s2 s3"
      using poll_inv_quiet [OF quiet] s1 flagged_quiet [OF quiet] lk sub_linked_grows [OF g]
      by (intro first_scan_entries_tells [OF tells_ready [OF t2] assms(5) _ node_there [OF g assms(3)] _ assms(6) _ a(4)]) auto
    note t3 = this
    from tells_trans [OF t1 tells_trans [OF t2 tells_trans [OF t3 emit [OF tells_ready [OF t3] a(5)]]]] True
    show ?thesis by (simp add: listing_def)
  qed
  then show ?thesis using s' by (simp add: tells_def)
qed

theorem first_scan_tells_listing_witness:
  "\<exists>s'. gam_poll_generic_first_scan_dir (demo_env 5 [(''/d/a'', 4), (''/d/b'', 4)])
        (gam_poll_basic_poll_file (demo_env 5 [(''/d/a'', 4), (''/d/b'', 4)])) 2 1 ''/d''
        (hang 0 (gam_node_new (demo_env 5 []) ''/d'' None True) demo0) = Some s' \<and>
    sv_sent s' 6 = concat (map packet_bytes
      [make_packet 9 8 ''/d'', make_packet 9 8 ''a'', make_packet 9 8 ''b'', make_packet 9 9 ''/d''])"
proof -
  let ?en = "demo_env 5 [(''/d/a'', 4), (''/d/b'', 4)]"
  let ?nd = "gam_node_new (demo_env 5 []) ''/d'' None True"
  let ?s = "hang 0 ?nd demo0"
  note demo = demo0_def no_nodes_def srv.defs gam_poll_generic_init_def gam_tree_new_def alloc_node_def
    gam_poll_generic_update_time_def
  have inv: "poll_inv demo0" "flagged demo0 = {}" using demo_ok by (simp_all add: poll_ok_def)
  have r: "pl_nodes demo0 0 = Some (gam_node_new (demo_env 1 []) ''/'' None True)" "pl_hash demo0 (nd_path ?nd) = None"
      "nd_subs ?nd = []" "pl_nextnode demo0 = 1"
    by (simp_all add: demo gam_node_new_def demo_env_def)
  note new = poll_add_new [OF inv(1) r(1-3)]
  have nflag: "1 \<notin> flagged ?s" using new(4) r(4) by (simp add: flagged_def gam_node_new_def)
  then have f: "flagged ?s = {}" using flagged_hang [OF inv(1) r(1), of ?nd] inv(2) r(4) by auto
  have n: "pl_nodes ?s 1 \<noteq> None" using new(4) r(4) by simp
  have rd: "ready 2 (demo_sub ''/d'' 9 True) 6 ?s"
    by (simp add: ready_def demo hang_def srv0_def demo_sub_def gam_subscription_set_listener_def conn_open_def conn_fd_def
        conn0_def writes_ok_def)
  have w: "wants_listing (demo_sub ''/d'' 9 True) ''/d''" by code_simp
  have e: "entries ?en ''/d'' = [''a'', ''b'']" "file_exists ?en ''/d''" "sub_reqno (demo_sub ''/d'' 9 True) = 9"
    by (code_simp, code_simp, code_simp)
  have l: "list_all (\<lambda>name. CHR ''/'' \<notin> set name \<and> length name < MAXPATHLEN) (entries ?en ''/d'')"
    unfolding e by (simp add: size_defs)
  have ev: "listing (demo_sub ''/d'' 9 True) ''/d'' [''a'', ''b''] =
      [make_packet 9 8 ''/d'', make_packet 9 8 ''a'', make_packet 9 8 ''b'', make_packet 9 9 ''/d'']"
    by code_simp
  have sent: "sv_sent ?s 6 = []" by (simp add: demo hang_def srv0_def)
  show ?thesis
    using first_scan_tells_listing [OF new(2) f n rd w l] sent unfolding e(1,3) ev by (auto simp: e(2))
qed

section \<open>Where it aborts\<close>

text \<open>A file that is watched and missing, and then a path below it: the node of the file has a child now, and
  when the subscription of the file is cancelled the assertion that it has none fails.\<close>

lemma cancel_with_child_aborts:
  "(do { (b, s1) \<leftarrow> gam_poll_basic_add_subscription (demo_env 5 []) 3 demo0;
         (b, s2) \<leftarrow> gam_poll_basic_add_subscription (demo_env 5 []) 4 s1;
         gam_poll_basic_remove_subscription 3 s2 }) = None"
  by code_simp

text \<open>A subscription to the empty path has no node.\<close>

lemma empty_path_aborts:
  "gam_poll_basic_add_subscription (demo_env 5 []) 5
     (demo0\<lparr>sv_subs := (sv_subs demo0)(5 \<mapsto> demo_sub [] 12 False)\<rparr>) = None"
  by code_simp

text \<open>The root is not in the hash table, so a subscription to it makes a second node with its path.\<close>

lemma second_root:
  "(do { (b, s1) \<leftarrow> gam_poll_basic_add_subscription (demo_env 5 []) 5
           (demo0\<lparr>sv_subs := (sv_subs demo0)(5 \<mapsto> demo_sub ''/'' 12 True)\<rparr>);
         Some (pl_root s1, gam_tree_get_at_path ''/'' s1,
           map (\<lambda>n. map_option nd_path (pl_nodes s1 n)) [0, 1]) }) = Some (0, Some 1, [Some ''/'', Some ''/''])"
  by code_simp

end
