(* ===== verification/Gam_Poll_Report.thy ===== *)
theory Gam_Poll_Report
  imports Gam_Poll_Remove Gam_Poll_Props
begin

unbundle bit_operations_syntax

text \<open>
  The promises of the polling back end over time: a subscription can be cancelled without harm to the
  others, and an entry that appears in a watched directory is reported by the next scan.
\<close>

section \<open>Cancelling\<close>

text \<open>C32. Removing a subscription never aborts when its node is a directory, has no children or is needed by
  another subscription. The subscription is freed and no node refers to it any more; every node that
  another subscription needs is still there, with these subscriptions and its places on the lists of
  polled nodes; and the invariant holds, so no list and no link points at a node that was freed.\<close>

theorem remove_subscription_safe:
  fixes s :: psrv
  assumes "poll_ok s" "removable s q"
  shows "\<exists>s'. gam_poll_basic_remove_subscription q s = Some (True, s') \<and> poll_ok s' \<and> drops q s s' \<and>
    sv_subs s' = (sv_subs s)(q := None)"
  using remove_subscription_runs [OF assms] by blast

theorem remove_subscription_safe_witness:
  "\<exists>s s'. gam_poll_basic_add_subscription (demo_env 5 [(''/d/a'', 4)]) 2 demo0 = Some (True, s) \<and>
     gam_poll_basic_remove_subscription 2 s = Some (True, s') \<and> poll_ok s' \<and> drops 2 s s'"
proof -
  let ?en = "demo_env 5 [(''/d/a'', 4)]"
  obtain s n nd where s: "gam_poll_basic_add_subscription ?en 2 demo0 = Some (True, s)" "poll_ok s"
      "gam_tree_get_at_path (sub_path (the (sv_subs demo0 2))) s = Some n" "pl_nodes s n = Some nd" "2 \<in> set (nd_subs nd)"
    using add_subscription_runs [OF demo_ok demo_addable(1), of ?en] by blast
  have v: "map_option (\<lambda>(b, s). (sv_subs s 2, map_option nd_is_dir (pl_nodes s (the (pl_hash s ''/d'')))))
      (gam_poll_basic_add_subscription ?en 2 demo0) = Some (Some (demo_sub ''/d'' 9 True), Some True)"
    by code_simp
  have p: "sub_path (the (sv_subs demo0 2)) = ''/d''" "sub_path (demo_sub ''/d'' 9 True) = ''/d''"
    by (code_simp, code_simp)
  have h: "sv_subs s 2 = Some (demo_sub ''/d'' 9 True)" "pl_hash s ''/d'' = Some n" "nd_is_dir nd"
    using v s p(1) by (auto simp: gam_tree_get_at_path_def)
  have "removable s 2" unfolding removable_def using s(4,5) h p(2) by auto
  from remove_subscription_safe [OF s(2) this] s(1) show ?thesis by blast
qed

section \<open>What is sent stays sent\<close>

text \<open>A step that leaves a subscription reachable and only adds to what was sent to it.\<close>

definition extends :: "'b srv_scheme \<Rightarrow> 'b srv_scheme \<Rightarrow> bool" where
  "extends s s' \<longleftrightarrow> (\<forall>q sub fd. ready q sub fd s \<longrightarrow> ready q sub fd s' \<and> prefix (sv_sent s fd) (sv_sent s' fd))"

lemma extends_refl [simp]: "extends s s"
  by (simp add: extends_def)

lemma extends_trans: "extends s s' \<Longrightarrow> extends s' s'' \<Longrightarrow> extends s s''"
  unfolding extends_def by (meson prefix_order.trans)

lemma extends_same_srv: "same_srv s s' \<Longrightarrow> extends s s'"
  by (simp add: extends_def same_srv_def ready_def conn_open_def conn_fd_def writes_ok_def)

lemma send_event_extends:
  assumes "gam_send_event p r e path l s = Some (x, s')"
  shows "same_world s s' \<and> (writes_ok s \<longrightarrow> writes_ok s') \<and> prefix (sv_sent s fd) (sv_sent s' fd)"
proof -
  obtain c where c: "sv_conns s p = Some c"
    using assms by (auto simp: gam_send_event_def split: Option.bind_splits)
  let ?data = "packet_bytes (make_packet r (of_int (the (fam_code e))) path)"
  consider "s' = s" | ok where "conn_write_loop (sv_writes s) (cn_fd c) ?data s = (ok, s')"
    using assms c by (fastforce simp: gam_send_event_def gam_client_conn_write_def
        split: Option.bind_splits if_splits option.splits prod.splits)
  then show ?thesis
  proof cases
    case 2
    then show ?thesis
      using conn_write_loop_spec [OF 2] conn_write_loop_world [of s "sv_writes s" "cn_fd c" ?data] by (auto simp: writes_ok_def)
  qed simp
qed

lemma emit_one_extends:
  assumes "gam_server_emit_one_event p d e q f s = Some s'"
  shows "extends s s'"
proof (cases "sv_inotify s")
  case True
  then show ?thesis by (simp add: extends_def ready_def)
next
  case False
  then have "s' = s \<or> (\<exists>c r path l x. gam_send_event c r e path l s = Some (x, s'))"
    using assms by (auto simp: gam_server_emit_one_event_def split: Option.bind_splits if_splits option.splits)
  then show ?thesis
  proof
    assume "\<exists>c r path l x. gam_send_event c r e path l s = Some (x, s')"
    then obtain c r path l x where a: "gam_send_event c r e path l s = Some (x, s')" by blast
    show ?thesis
      using send_event_extends [OF a] same_world_simps [of s s']
      by (simp add: extends_def ready_def conn_open_def conn_fd_def)
  qed simp
qed

lemma emit_extends: "gam_server_emit_event p d e qs f s = Some s' \<Longrightarrow> extends s s'"
  by (induction qs arbitrary: s) (auto dest!: emit_one_extends intro: extends_trans split: Option.bind_splits)

lemma emit_append:
  "gam_server_emit_event p d e (qs @ rs) f s =
     Option.bind (gam_server_emit_event p d e qs f s) (gam_server_emit_event p d e rs f)"
  by (induction qs arbitrary: s) (auto simp: Option.bind_assoc intro!: Option.bind_cong)

text \<open>Every subscription of the list that wants the event finds its packet in what it was sent.\<close>

lemma emit_includes:
  assumes e: "gam_server_emit_event p d e qs f s = Some s'" and r: "ready q sub fd s" and q: "q \<in> set qs"
    and w: "gam_subscription_wants_event (Some sub) (Some p) d e f" "sendable e (event_subpath sub p)"
  shows "\<exists>x y. sv_sent s' fd = sv_sent s fd @ x @ packet_bytes (event_packet (sub_reqno sub) e (event_subpath sub p)) @ y"
proof -
  let ?pk = "packet_bytes (event_packet (sub_reqno sub) e (event_subpath sub p))"
  obtain as bs where qs: "qs = as @ [q] @ bs" using q by (auto dest: split_list)
  obtain s1 s2 where s: "gam_server_emit_event p d e as f s = Some s1" "gam_server_emit_event p d e [q] f s1 = Some s2"
      "gam_server_emit_event p d e bs f s2 = Some s'"
    using e unfolding qs emit_append by (auto split: Option.bind_splits)
  have r1: "ready q sub fd s1" and p1: "prefix (sv_sent s fd) (sv_sent s1 fd)"
    using emit_extends [OF s(1)] r by (auto simp: extends_def)
  note t = tells_emit [OF r1 s(2) w]
  have "sv_sent s2 fd = sv_sent s1 fd @ ?pk" using t by (simp add: tells_def)
  moreover have "prefix (sv_sent s2 fd) (sv_sent s' fd)"
    using emit_extends [OF s(3)] tells_ready [OF t] by (auto simp: extends_def)
  ultimately show ?thesis using p1 by (auto simp: prefix_def) blast
qed

lemma prefix_includes: "prefix a b \<Longrightarrow> c = b @ x @ p @ y \<Longrightarrow> \<exists>x y. c = a @ x @ p @ y"
  by (metis append.assoc prefix_def)

lemma node_emit_event_subs:
  assumes "gam_node_emit_event n e s = Some s'" "pl_nodes s n = Some nd" "nd_parent nd = Some d" "pl_nodes s d = Some dnd"
  shows "gam_server_emit_event (nd_path nd) (nd_is_dir nd) e (emit_subs (nd_subs nd) (nd_subs dnd)) False s = Some s'"
    "set (emit_subs (nd_subs nd) (nd_subs dnd)) = set (nd_subs nd) \<union> set (nd_subs dnd)"
proof -
  show "gam_server_emit_event (nd_path nd) (nd_is_dir nd) e (emit_subs (nd_subs nd) (nd_subs dnd)) False s = Some s'"
    using assms by (simp add: gam_node_emit_event_def gam_node_get_subscriptions_def)
  have "set (emit_subs xs ys) = set xs \<union> set ys" for xs ys
    unfolding emit_subs_def by (induction ys arbitrary: xs) auto
  then show "set (emit_subs (nd_subs nd) (nd_subs dnd)) = set (nd_subs nd) \<union> set (nd_subs dnd)" .
qed

lemma node_emit_extends: "gam_node_emit_event n e s = Some s' \<Longrightarrow> extends s s'"
  by (auto simp: gam_node_emit_event_def dest: emit_extends split: Option.bind_splits)

lemma node_emit_quiet:
  fixes s :: "'b psrv_scheme"
  shows "gam_node_emit_event n e s = Some s' \<Longrightarrow> quiet s s'"
  by (auto simp: gam_node_emit_event_def dest: emit_quiet split: Option.bind_splits)

lemma unset_flag_same_srv: "gam_node_unset_flag n f s = Some s' \<Longrightarrow> same_srv s s'"
  by (auto simp: gam_node_unset_flag_def simp del: upd_node_simps split: Option.bind_splits if_splits)

section \<open>New entries\<close>

text \<open>An entry without a node gets one, marked as new, below the directory; nothing else changes.\<close>

lemma scan_entry_cases:
  assumes inv: "poll_inv s" and d: "pl_nodes s d = Some dnd" and a: "scan_entry en d name s = Some s'"
  shows "same_srv s s'" "flagged s \<subseteq> flagged s'"
    "pl_hash s (g_build_filename (nd_path dnd) name) = None \<Longrightarrow>
       \<exists>n. pl_hash s' = (pl_hash s)(g_build_filename (nd_path dnd) name \<mapsto> n) \<and> n \<in> flagged s'"
    "pl_hash s (g_build_filename (nd_path dnd) name) \<noteq> None \<Longrightarrow> s' = s"
proof -
  let ?path = "g_build_filename (nd_path dnd) name"
  show old: "s' = s" if "pl_hash s ?path \<noteq> None"
    using that a d by (auto simp: scan_entry_def gam_tree_get_at_path_def)
  let ?nd = "gam_node_new en ?path None (file_is_dir en ?path)"
  let ?n = "pl_nextnode s"
  let ?s2 = "upd_node ?n (\<lambda>nd. nd\<lparr>nd_flags := nd_flags nd OR FLAG_NEW_NODE\<rparr>) (hang d ?nd s)"
  have new: "s' = ?s2 \<and> ?n \<in> flagged ?s2 \<and> flagged s \<subseteq> flagged ?s2 \<and>
      pl_hash ?s2 = (pl_hash s)(?path \<mapsto> ?n)" if h: "pl_hash s ?path = None"
  proof -
    have nd: "pl_hash s (nd_path ?nd) = None" "nd_subs ?nd = []" using h by (simp_all add: gam_node_new_def)
    note hg = poll_add_new [OF inv d nd]
    have "bit FLAG_NEW_NODE 5" by (simp add: FLAG_NEW_NODE_def bit_numeral_rec)
    then have "bit ((w OR FLAG_NEW_NODE) AND FLAG_NEW_NODE) 5" for w :: evtype
      by (simp add: bit_and_iff bit_or_iff)
    then have w: "(w OR FLAG_NEW_NODE) AND FLAG_NEW_NODE \<noteq> 0" for w :: evtype
      by (metis bit_0_eq bot_apply bot_bool_def)
    have "s' = ?s2"
      using a d h hg(1,4) by (simp add: scan_entry_def gam_tree_get_at_path_def split_beta gam_node_set_flag_def del: upd_node_simps)
    moreover have "?n \<in> flagged ?s2" using hg(4) w by (simp add: flagged_def)
    moreover have "flagged s \<subseteq> flagged ?s2"
      using tree_fresh [OF poll_tree [OF inv]] d by (auto simp: flagged_def hang_nodes [OF poll_tree [OF inv] d])
    moreover have "pl_hash ?s2 = (pl_hash s)(?path \<mapsto> ?n)" by (simp add: gam_node_new_def)
    ultimately show ?thesis by blast
  qed
  show "\<exists>n. pl_hash s' = (pl_hash s)(?path \<mapsto> n) \<and> n \<in> flagged s'" if "pl_hash s ?path = None"
    using new [OF that] by auto
  show "flagged s \<subseteq> flagged s'" using old new by (cases "pl_hash s ?path") auto
  have "same_srv s ?s2" by (rule same_srv_trans [OF same_srv_simps(8) same_srv_simps(2)])
  then show "same_srv s s'" using old new by (cases "pl_hash s ?path") (auto simp del: upd_node_simps)
qed

lemma scan_entries_new:
  assumes "poll_inv s" "pl_nodes s d = Some dnd" "new_kids d s" "scan_entries en d names s = Some s'"
  shows "same_srv s s' \<and> flagged s \<subseteq> flagged s' \<and>
    (\<forall>name \<in> set names. pl_hash s (g_build_filename (nd_path dnd) name) = None \<longrightarrow>
       (\<exists>n \<in> flagged s'. pl_hash s' (g_build_filename (nd_path dnd) name) = Some n))"
  using assms
proof (induction names arbitrary: s dnd)
  case (Cons name names)
  obtain s1 where s1: "scan_entry en d name s = Some s1" "scan_entries en d names s1 = Some s'"
    using Cons.prems(4) by (auto split: Option.bind_splits)
  have d: "pl_nodes s d \<noteq> None" using Cons.prems(2) by simp
  have g: "poll_inv s1" "grows s s1" "new_kids d s1"
    using basic_poll.scan_entry_runs [OF Cons.prems(1) d Cons.prems(3), of en name] s1(1) by (auto simp: runs_def)
  obtain dnd1 where d1: "pl_nodes s1 d = Some dnd1" "nd_path dnd1 = nd_path dnd"
    using grows_node [OF g(2) Cons.prems(2)] by metis
  note ih = Cons.IH [OF g(1) d1(1) g(3) s1(2), unfolded d1(2)]
  have g': "grows s1 s'"
    using basic_poll.scan_entries_runs [OF g(1) _ g(3), of en names] d1(1) s1(2) by (auto simp: runs_def)
  note c = scan_entry_cases [OF Cons.prems(1,2) s1(1)]
  let ?path = "\<lambda>name. g_build_filename (nd_path dnd) name"
  have "\<exists>n \<in> flagged s'. pl_hash s' (?path m) = Some n" if m: "m \<in> set (name # names)" "pl_hash s (?path m) = None" for m
  proof (cases "pl_hash s1 (?path m)")
    case None
    then have "m \<noteq> name" using c(3) m(2) by auto
    then show ?thesis using ih None m(1) by auto
  next
    case (Some n)
    then have "n \<in> flagged s1" using c(3,4) m(2) by (cases "pl_hash s (?path name)") (auto split: if_splits)
    then show ?thesis using ih grows_hash [OF g' Some] by auto
  qed
  then show ?case using ih c(1,2) same_srv_trans by blast
qed simp

lemma scan_child_extends:
  assumes inv: "poll_inv s" "pl_nodes s d \<noteq> None" "pl_nodes s n \<noteq> None" "new_kids d s"
    and a: "scan_child scan (gam_poll_basic_poll_file en) d n s = Some s'"
  shows "extends s s'" "flagged s' = flagged s - {n}"
    "\<And>q sub fd nd dnd. \<lbrakk>n \<in> flagged s; ready q sub fd s; pl_nodes s n = Some nd; pl_nodes s d = Some dnd; q \<in> set (nd_subs dnd);
       \<And>b. gam_subscription_wants_event (Some sub) (Some (nd_path nd)) b GAMIN_EVENT_CREATED False;
       sendable GAMIN_EVENT_CREATED (event_subpath sub (nd_path nd))\<rbrakk> \<Longrightarrow>
      \<exists>x y. sv_sent s' fd = sv_sent s fd @ x @
        packet_bytes (event_packet (sub_reqno sub) GAMIN_EVENT_CREATED (event_subpath sub (nd_path nd))) @ y"
proof -
  obtain ev s1 fe t where t: "gam_poll_basic_poll_file en n s = Some (ev, s1)"
    "if n \<in> flagged s then gam_node_unset_flag n FLAG_NEW_NODE s1 = Some t \<and> fe = GAMIN_EVENT_CREATED
     else t = s1 \<and> fe = ev"
    "poll_inv t" "grows s t" "flagged t = flagged s - {n}"
    "scan_child scan (gam_poll_basic_poll_file en) d n s = (if fe \<noteq> 0 then gam_node_emit_event n fe t
       else do { missing \<leftarrow> gam_node_has_pflag n MON_MISSING t;
                 nd \<leftarrow> pl_nodes t n;
                 if \<not> missing then gam_server_emit_event (nd_path nd) (nd_is_dir nd) GAMIN_EVENT_EXISTS [] False t
                 else Some t })"
    by (rule basic_poll.scan_child_eq [OF inv])
  have st: "same_srv s t"
    using poll_file_same_srv [OF t(1)] t(2) unset_flag_same_srv same_srv_trans by (metis (full_types))
  have last: "(fe \<noteq> 0 \<and> gam_node_emit_event n fe t = Some s') \<or> (fe = 0 \<and> s' = t)"
    using a unfolding t(6) by (auto split: if_splits Option.bind_splits)
  show "extends s s'"
    using extends_trans [OF extends_same_srv [OF st]] extends_same_srv [OF st] last node_emit_extends by blast
  show "flagged s' = flagged s - {n}" using last flagged_quiet [OF node_emit_quiet] t(5) by metis
  fix q sub fd nd dnd
  assume n: "n \<in> flagged s" and r: "ready q sub fd s" and nd: "pl_nodes s n = Some nd" "pl_nodes s d = Some dnd"
    and q: "q \<in> set (nd_subs dnd)"
    and w: "\<And>b. gam_subscription_wants_event (Some sub) (Some (nd_path nd)) b GAMIN_EVENT_CREATED False"
    "sendable GAMIN_EVENT_CREATED (event_subpath sub (nd_path nd))"
  have em: "gam_node_emit_event n GAMIN_EVENT_CREATED t = Some s'" using last t(2) n by (auto simp: event_defs)
  have "nd_parent nd = Some d" using inv(4) n nd(1) by (auto simp: new_kids_def)
  then obtain nd' dnd' where nd': "pl_nodes t n = Some nd'" "nd_path nd' = nd_path nd" "nd_parent nd' = Some d"
      "pl_nodes t d = Some dnd'" "nd_subs dnd' = nd_subs dnd"
    using grows_node [OF t(4)] nd by metis
  note e = node_emit_event_subs [OF em nd'(1,3,4)]
  have r': "ready q sub fd t" and sent: "sv_sent t = sv_sent s"
    using extends_same_srv [OF st] r st by (auto simp: extends_def same_srv_def)
  have "q \<in> set (emit_subs (nd_subs nd') (nd_subs dnd'))" using e(2) nd'(5) q by simp
  from emit_includes [OF e(1) r' this, unfolded nd'(2), OF w(1) w(2)]
  show "\<exists>x y. sv_sent s' fd = sv_sent s fd @ x @
        packet_bytes (event_packet (sub_reqno sub) GAMIN_EVENT_CREATED (event_subpath sub (nd_path nd))) @ y"
    unfolding sent .
qed

lemma scan_children_includes:
  assumes "poll_inv s" "pl_nodes s d = Some dnd" "\<forall>m \<in> set ns. pl_nodes s m \<noteq> None" "new_kids d s"
    and "scan_children scan (gam_poll_basic_poll_file en) d ns s = Some s'"
  shows "extends s s' \<and> (\<forall>n nd q sub fd. n \<in> set ns \<longrightarrow> n \<in> flagged s \<longrightarrow> ready q sub fd s \<longrightarrow> pl_nodes s n = Some nd \<longrightarrow>
       q \<in> set (nd_subs dnd) \<longrightarrow> sendable GAMIN_EVENT_CREATED (event_subpath sub (nd_path nd)) \<longrightarrow>
       (\<forall>b. gam_subscription_wants_event (Some sub) (Some (nd_path nd)) b GAMIN_EVENT_CREATED False) \<longrightarrow>
      (\<exists>x y. sv_sent s' fd = sv_sent s fd @ x @
        packet_bytes (event_packet (sub_reqno sub) GAMIN_EVENT_CREATED (event_subpath sub (nd_path nd))) @ y))"
  using assms
proof (induction ns arbitrary: s dnd)
  case (Cons m ns)
  let ?pk = "\<lambda>sub nd. packet_bytes (event_packet (sub_reqno sub) GAMIN_EVENT_CREATED (event_subpath sub (nd_path nd)))"
  have there: "pl_nodes s d \<noteq> None" "pl_nodes s m \<noteq> None" using Cons.prems(2,3) by auto
  obtain s1 where s1: "scan_child scan (gam_poll_basic_poll_file en) d m s = Some s1"
      "scan_children scan (gam_poll_basic_poll_file en) d ns s1 = Some s'"
    using Cons.prems(5) by (auto split: Option.bind_splits)
  note c = scan_child_extends [OF Cons.prems(1) there Cons.prems(4) s1(1)]
  have "runs s (\<lambda>s'. flagged s' \<subseteq> flagged s - {m}) (scan_child scan (gam_poll_basic_poll_file en) d m s)"
    by (rule basic_poll.scan_child_runs [OF Cons.prems(1) there Cons.prems(4)])
  then have g: "poll_inv s1" "grows s s1" using s1(1) by (auto simp: runs_def)
  have new1: "new_kids d s1" by (rule new_kids_sub [OF Cons.prems(4) g(2)]) (use c(2) in auto)
  obtain dnd1 where d1: "pl_nodes s1 d = Some dnd1" "nd_subs dnd1 = nd_subs dnd"
    using grows_node [OF g(2) Cons.prems(2)] by metis
  have "\<forall>n \<in> set ns. pl_nodes s1 n \<noteq> None" using node_there [OF g(2)] Cons.prems(3) by (auto simp del: not_None_eq)
  note ih = Cons.IH [OF g(1) d1(1) this new1 s1(2), unfolded d1(2)]
  have "\<exists>x y. sv_sent s' fd = sv_sent s fd @ x @ ?pk sub nd @ y"
    if a: "n \<in> set (m # ns)" "n \<in> flagged s" "ready q sub fd s" "pl_nodes s n = Some nd" "q \<in> set (nd_subs dnd)"
      "sendable GAMIN_EVENT_CREATED (event_subpath sub (nd_path nd))"
      "\<forall>b. gam_subscription_wants_event (Some sub) (Some (nd_path nd)) b GAMIN_EVENT_CREATED False"
    for n nd q sub fd
  proof (cases "n = m")
    case True
    obtain x y where "sv_sent s1 fd = sv_sent s fd @ x @ ?pk sub nd @ y"
      using c(3) [OF a(2) [unfolded True] a(3) a(4) [unfolded True] Cons.prems(2) a(5) _ a(6)] a(7) by blast
    moreover have "prefix (sv_sent s1 fd) (sv_sent s' fd)"
      using ih c(1) a(3) unfolding extends_def by blast
    ultimately show ?thesis by (auto simp: prefix_def)
  next
    case False
    obtain nd1 where nd1: "pl_nodes s1 n = Some nd1" "nd_path nd1 = nd_path nd" using grows_node [OF g(2) a(4)] by metis
    have r1: "ready q sub fd s1" "prefix (sv_sent s fd) (sv_sent s1 fd)" using c(1) a(3) by (auto simp: extends_def)
    have "n \<in> set ns" "n \<in> flagged s1" using a(1,2) False c(2) by auto
    then obtain x y where "sv_sent s' fd = sv_sent s1 fd @ x @ ?pk sub nd @ y"
      using ih r1(1) nd1 a(5-7) by metis
    then show ?thesis by (rule prefix_includes [OF r1(2)])
  qed
  then show ?case using extends_trans [OF c(1)] ih by blast
qed simp

text \<open>C12. An entry that appears in a watched directory is reported: when the scan of the directory is due and
  the directory can be read, then each of its entries that had no node before has one after the scan,
  and every subscription of the directory that wants to know has been sent that the entry was created.\<close>

theorem new_entry_is_reported:
  assumes ok: "poll_ok s" and d: "pl_nodes s d = Some dnd" "poll_due dnd s"
    and q: "q \<in> set (nd_subs dnd)" "ready q sub fd s"
    and dir: "en_readdir en (nd_path dnd) = Some names" "name \<in> set names"
    and new: "gam_tree_get_at_path (g_build_filename (nd_path dnd) name) s = None"
    and w: "\<forall>b. gam_subscription_wants_event (Some sub) (Some (g_build_filename (nd_path dnd) name)) b GAMIN_EVENT_CREATED False"
      "sendable GAMIN_EVENT_CREATED (event_subpath sub (g_build_filename (nd_path dnd) name))"
  shows "\<exists>s' x y. gam_poll_generic_scan_directory_internal en (gam_poll_basic_poll_file en) d s = Some s' \<and>
    gam_tree_get_at_path (g_build_filename (nd_path dnd) name) s' \<noteq> None \<and>
    sv_sent s' fd = sv_sent s fd @ x @ packet_bytes (event_packet (sub_reqno sub) GAMIN_EVENT_CREATED
      (event_subpath sub (g_build_filename (nd_path dnd) name))) @ y"
proof -
  let ?path = "g_build_filename (nd_path dnd) name"
  have inv: "poll_inv s" "flagged s = {}" and there: "pl_nodes s d \<noteq> None" using ok d(1) by (simp_all add: poll_ok_def)
  have "runs s (\<lambda>s'. flagged s' = {}) (gam_poll_generic_scan_directory_internal en (gam_poll_basic_poll_file en) d s)"
    by (rule basic_poll.scan_internal_runs [OF inv(1) there inv(2)])
  then obtain s' where s': "gam_poll_generic_scan_directory_internal en (gam_poll_basic_poll_file en) d s = Some s'" "grows s s'"
    by (auto simp: runs_def)
  have due: "\<not> (nd_lasttime dnd \<noteq> 0 \<and> gam_poll_generic_get_delta_time (nd_lasttime dnd) s < nd_poll_time dnd)" "nd_subs dnd \<noteq> []"
    using d(2) q(1) by (auto simp: poll_due_def)
  obtain e s1 s2 s3 children where a: "gam_poll_basic_poll_file en d s = Some (e, s1)"
      "(if e \<noteq> 0 then gam_node_emit_event d e s1 else Some s1) = Some s2"
      "scan_entries en d names s2 = Some s3" "gam_tree_get_children d s3 = Some children"
      "scan_children (scan_directory 1 en (gam_poll_basic_poll_file en)) (gam_poll_basic_poll_file en) d children s3 = Some s'"
    using s'(1) d(1) due dir(1)
    by (fastforce simp: gam_poll_generic_scan_directory_internal_def numeral_2_eq_2 split: Option.bind_splits if_splits)
  have p1: "same_srv s s1" "poll_inv s1" "grows s s1" "flagged s1 = {}"
    using poll_file_same_srv [OF a(1)] poll_file_runs [OF inv(1) there, of en] a(1) inv(2) by (auto simp: runs2_def)
  have x2: "extends s1 s2" "quiet s1 s2"
    using a(2) by (auto dest: node_emit_extends node_emit_quiet split: if_splits)
  have p2: "poll_inv s2" "flagged s2 = {}" "grows s s2" "pl_hash s2 = pl_hash s"
  proof -
    show "poll_inv s2" "flagged s2 = {}" "grows s s2"
      using poll_inv_quiet [OF x2(2) p1(2)] flagged_quiet [OF x2(2)] p1(4) grows_trans [OF p1(3) grows_quiet [OF x2(2)]] by simp_all
    have "pl_hash s1 = pl_hash s"
      using a(1) poll_file_eq [OF d] by (auto simp: poll_lists_def gam_poll_generic_add_missing_def
          gam_poll_generic_remove_missing_def gam_poll_generic_remove_busy_def split: statres.split)
    then show "pl_hash s2 = pl_hash s" using quiet_poll(4) [OF x2(2)] by simp
  qed
  obtain dnd2 where d2: "pl_nodes s2 d = Some dnd2" "nd_path dnd2 = nd_path dnd" "nd_subs dnd2 = nd_subs dnd"
    using grows_node [OF p2(3) d(1)] by metis
  have k2: "new_kids d s2" using p2(2) by (simp add: new_kids_def)
  note en = scan_entries_new [OF p2(1) d2(1) k2 a(3), unfolded d2(2)]
  obtain n where n: "n \<in> flagged s3" "pl_hash s3 ?path = Some n"
    using en dir(2) new p2(4) by (auto simp: gam_tree_get_at_path_def)
  have g3: "poll_inv s3" "grows s2 s3" "new_kids d s3"
    using basic_poll.scan_entries_runs [OF p2(1) _ k2, of en names] d2(1) a(3) by (auto simp: runs_def)
  obtain dnd3 where d3: "pl_nodes s3 d = Some dnd3" "nd_subs dnd3 = nd_subs dnd"
    using grows_node [OF g3(2) d2(1)] d2(3) by metis
  obtain nd where nd: "pl_nodes s3 n = Some nd" "nd_path nd = ?path" using tree_hash(2) [OF poll_tree [OF g3(1)] n(2)] by auto
  have "nd_parent nd = Some d" using g3(3) n(1) nd(1) by (auto simp: new_kids_def)
  then have kid: "n \<in> set children"
    using tree_below(2) [OF poll_tree [OF g3(1)] nd(1)] tree_hash(1) [OF poll_tree [OF g3(1)] n(2)] a(4) d3(1)
    by (auto simp: gam_tree_get_children_def)
  have kids: "\<forall>m \<in> set children. pl_nodes s3 m \<noteq> None"
    using tree_child [OF poll_tree [OF g3(1)] d3(1)] a(4) d3(1) by (fastforce simp: gam_tree_get_children_def)
  have r3: "ready q sub fd s3" and pre: "prefix (sv_sent s fd) (sv_sent s3 fd)"
    using extends_trans [OF extends_trans [OF extends_same_srv [OF p1(1)] x2(1)] extends_same_srv [of s2 s3]] en q(2)
    by (auto simp: extends_def)
  note sc = scan_children_includes [OF g3(1) d3(1) kids g3(3) a(5), unfolded d3(2)]
  obtain x y where xy: "sv_sent s' fd = sv_sent s3 fd @ x @ packet_bytes (event_packet (sub_reqno sub) GAMIN_EVENT_CREATED
      (event_subpath sub ?path)) @ y"
    using conjunct2 [OF sc, rule_format, OF kid n(1) r3 nd(1) q(1), unfolded nd(2)] w by blast
  have "runs s3 (\<lambda>s'. flagged s' \<subseteq> flagged s3 - set children)
      (scan_children (scan_directory 1 en (gam_poll_basic_poll_file en)) (gam_poll_basic_poll_file en) d children s3)"
    by (rule basic_poll.scan_children_runs [OF g3(1) _ kids g3(3)]) (simp add: d3(1))
  then have "grows s3 s'" using a(5) by (auto simp: runs_def)
  then have "gam_tree_get_at_path ?path s' \<noteq> None" using grows_hash [OF _ n(2)] by (simp add: gam_tree_get_at_path_def)
  with s'(1) prefix_includes [OF pre xy] show ?thesis by blast
qed

theorem new_entry_is_reported_witness:
  "\<exists>s s' x y n. gam_poll_basic_add_subscription (demo_env 5 []) 2 demo0 = Some (True, s) \<and>
     gam_tree_get_at_path ''/d'' s = Some n \<and>
     gam_poll_generic_scan_directory_internal (demo_env 6 [(''/d/a'', 6)])
       (gam_poll_basic_poll_file (demo_env 6 [(''/d/a'', 6)])) n s = Some s' \<and>
     sv_sent s' 6 = sv_sent s 6 @ x @ packet_bytes (make_packet 9 5 ''a'') @ y"
proof -
  let ?en = "demo_env 5 []" and ?en' = "demo_env 6 [(''/d/a'', 6)]"
  let ?sub = "demo_sub ''/d'' 9 True"
  have p: "sub_path (the (sv_subs demo0 2)) = ''/d''" by code_simp
  obtain s n nd where s: "gam_poll_basic_add_subscription ?en 2 demo0 = Some (True, s)" "poll_ok s"
      "gam_tree_get_at_path ''/d'' s = Some n" "pl_nodes s n = Some nd" "2 \<in> set (nd_subs nd)"
    using add_subscription_runs [OF demo_ok demo_addable(1), of ?en] unfolding p by blast
  have v: "map_option (\<lambda>(b, s). (sv_subs s 2, map_option ls_service (sv_listeners s 1), map_option cn_fd (sv_conns s 0),
        (sv_closed s, sv_writes s, sv_inotify s), pl_hash s ''/d/a'', map_option nd_poll_time (pl_nodes s (the (pl_hash s ''/d'')))))
      (gam_poll_basic_add_subscription ?en 2 demo0) =
      Some (Some ?sub, Some 0, Some 6, ([], [], False), None, Some 0)"
    by code_simp
  have c: "sv_subs s 2 = Some ?sub" "map_option ls_service (sv_listeners s 1) = Some 0"
      "map_option cn_fd (sv_conns s 0) = Some 6" "sv_closed s = []" "sv_writes s = []" "\<not> sv_inotify s"
      "pl_hash s ''/d/a'' = None" "nd_poll_time nd = 0"
    using v s(1,3,4) by (auto simp: gam_tree_get_at_path_def)
  have l: "sub_listener ?sub = Some 1" by code_simp
  have r: "ready 2 ?sub 6 s" using c l by (auto simp: ready_def conn_open_def conn_fd_def writes_ok_def)
  have path: "nd_path nd = ''/d''" using tree_hash(2) [of s "''/d''" n] s by (auto simp: poll_ok_def poll_tree gam_tree_get_at_path_def)
  have due: "poll_due nd s" using c(8) by (auto simp: poll_due_def gam_poll_generic_get_delta_time_def)
  have f: "g_build_filename ''/d'' ''a'' = ''/d/a''" by code_simp
  have dir: "en_readdir ?en' ''/d'' = Some [''a'']" by code_simp
  have "gam_subscription_wants_event (Some ?sub) (Some ''/d/a'') True GAMIN_EVENT_CREATED False"
      "gam_subscription_wants_event (Some ?sub) (Some ''/d/a'') False GAMIN_EVENT_CREATED False" by (code_simp, code_simp)
  then have w: "\<forall>b. gam_subscription_wants_event (Some ?sub) (Some ''/d/a'') b GAMIN_EVENT_CREATED False"
    by (metis (full_types))
  have se: "sendable GAMIN_EVENT_CREATED (event_subpath ?sub ''/d/a'')" by code_simp
  have pk: "event_packet (sub_reqno ?sub) GAMIN_EVENT_CREATED (event_subpath ?sub ''/d/a'') = make_packet 9 5 ''a''"
    by code_simp
  have new: "gam_tree_get_at_path (g_build_filename (nd_path nd) ''a'') s = None"
    unfolding path f using c(7) by (simp add: gam_tree_get_at_path_def)
  from new_entry_is_reported [OF s(2,4) due s(5) r dir [folded path] _ new] w se s(1,3)
  show ?thesis unfolding path f pk by fastforce
qed

section \<open>Where an entry is missed\<close>

text \<open>When a watched directory lies in another watched directory and the outer one comes first on the list
  of polled nodes, each round first polls the inner directory as an entry of the outer one; its own scan
  is then never due (with a poll interval of a second or more), and its new entries are not reported.\<close>

definition nested_env :: "int \<Rightarrow> (string \<times> int) list \<Rightarrow> fenv" where
  "nested_env t files = (demo_env t files)\<lparr>
     en_poll_timeout := (\<lambda>_. 1),
     en_stat := (\<lambda>p. if p = ''/d'' \<or> p = ''/d/s'' then STAT_OK (demo_stat True 1)
                     else case map_of files p of None \<Rightarrow> STAT_NOENT | Some m \<Rightarrow> STAT_OK (demo_stat False m)),
     en_readdir := (\<lambda>p. if p = ''/d'' then Some [''s'']
                        else if p = ''/d/s'' then Some (map (\<lambda>f. drop 5 (fst f)) files) else None)\<rparr>"

fun ticks :: "int list \<Rightarrow> psrv \<Rightarrow> psrv option" where
  "ticks [] s = Some s"
| "ticks (t # ts) s = do { (b, s1) \<leftarrow> gam_poll_basic_scan_callback 9 (nested_env t [(''/d/s/x'', 6)]) s; ticks ts s1 }"

definition nested_run :: "cptr \<Rightarrow> cptr \<Rightarrow> int list \<Rightarrow> bool option" where
  "nested_run q1 q2 ts =
     do { let s = demo0\<lparr>sv_subs := (sv_subs demo0)(5 \<mapsto> demo_sub ''/d/s'' 12 True)\<rparr>;
          (b, s1) \<leftarrow> gam_poll_basic_add_subscription (nested_env 5 []) q1 s;
          (b, s2) \<leftarrow> gam_poll_basic_add_subscription (nested_env 5 []) q2 s1;
          s3 \<leftarrow> ticks ts s2;
          Some (gam_tree_get_at_path ''/d/s/x'' s3 \<noteq> None) }"

lemma nested_directory_is_missed:
  "nested_run 5 2 [6, 7] = Some False" "nested_run 2 5 [6] = Some True"
  by (code_simp, code_simp)

end
