(* ===== verification/Gam_Ik.thy ===== *)
theory Gam_Ik
  imports Gam_Protocol
begin

unbundle bit_operations_syntax

text \<open>
  Reading events from the kernel, \<^verbatim>\<open>server/inotify-kernel.c\<close>: the source that delays the reads, the
  parser of the buffer, the pairing of the two halves of a move and the queue of events that are ready.

  The \<^verbatim>\<open>ik_event_t\<close> and \<^verbatim>\<open>ik_event_internal_t\<close> objects live in two heaps, because a pair is shared by
  two queues: an access to an object that was freed gives \<^term>\<open>None\<close>, as does a failed \<^verbatim>\<open>g_assert\<close>.
  The clock is a function from the number of calls made to the answer.
\<close>

section \<open>Event bits\<close>

type_synonym kmask = "32 word"

definition IN_ACCESS :: kmask where "IN_ACCESS = 0x1"

definition IN_MODIFY :: kmask where "IN_MODIFY = 0x2"

definition IN_ATTRIB :: kmask where "IN_ATTRIB = 0x4"

definition IN_CLOSE_WRITE :: kmask where "IN_CLOSE_WRITE = 0x8"

definition IN_CLOSE_NOWRITE :: kmask where "IN_CLOSE_NOWRITE = 0x10"

definition IN_OPEN :: kmask where "IN_OPEN = 0x20"

definition IN_MOVED_FROM :: kmask where "IN_MOVED_FROM = 0x40"

definition IN_MOVED_TO :: kmask where "IN_MOVED_TO = 0x80"

definition IN_CREATE :: kmask where "IN_CREATE = 0x100"

definition IN_DELETE :: kmask where "IN_DELETE = 0x200"

definition IN_DELETE_SELF :: kmask where "IN_DELETE_SELF = 0x400"

definition IN_MOVE_SELF :: kmask where "IN_MOVE_SELF = 0x800"

definition IN_UNMOUNT :: kmask where "IN_UNMOUNT = 0x2000"

definition IN_Q_OVERFLOW :: kmask where "IN_Q_OVERFLOW = 0x4000"

definition IN_IGNORED :: kmask where "IN_IGNORED = 0x8000"

definition IN_ONLYDIR :: kmask where "IN_ONLYDIR = 0x1000000"

definition IN_ISDIR :: kmask where "IN_ISDIR = 0x40000000"

lemmas in_defs = IN_ACCESS_def IN_MODIFY_def IN_ATTRIB_def IN_CLOSE_WRITE_def IN_CLOSE_NOWRITE_def
  IN_OPEN_def IN_MOVED_FROM_def IN_MOVED_TO_def IN_CREATE_def IN_DELETE_def IN_DELETE_SELF_def
  IN_MOVE_SELF_def IN_UNMOUNT_def IN_Q_OVERFLOW_def IN_IGNORED_def IN_ONLYDIR_def IN_ISDIR_def

text \<open>\<open>mask & bit\<close> as a condition.\<close>

definition has_bit :: "kmask \<Rightarrow> kmask \<Rightarrow> bool" where
  "has_bit m b \<longleftrightarrow> m AND b \<noteq> 0"

section \<open>State\<close>

record ik_event =
  ke_wd :: int
  ke_mask :: kmask
  ke_cookie :: "32 word"
  ke_len :: "32 word"
  ke_name :: string
  ke_pair :: "cptr option"

type_synonym timeval = "int \<times> int"

record ik_internal =
  ii_event :: cptr
  ii_seen :: bool
  ii_sent :: bool
  ii_hold :: timeval
  ii_pair :: "cptr option"

record ikst =
  ik_evs :: "cptr \<rightharpoonup> ik_event"
  ik_ints :: "cptr \<rightharpoonup> ik_internal"
  ik_next :: cptr
  ik_todo :: "cptr list"
  ik_queue :: "cptr list"
  ik_cookies :: "32 word \<rightharpoonup> cptr"
  ik_matches :: "32 word"
  ik_misses :: "32 word"
  ik_running :: bool
  ik_poll_enabled :: bool
  ik_prev_pending :: int
  ik_pending_count :: int
  ik_ticks :: nat

definition ik_init :: ikst where
  "ik_init = \<lparr>ik_evs = Map.empty, ik_ints = Map.empty, ik_next = 0, ik_todo = [], ik_queue = [],
     ik_cookies = Map.empty, ik_matches = 0, ik_misses = 0, ik_running = False, ik_poll_enabled = True,
     ik_prev_pending = 0, ik_pending_count = 0, ik_ticks = 0\<rparr>"

definition upd_ev :: "cptr \<Rightarrow> (ik_event \<Rightarrow> ik_event) \<Rightarrow> ikst \<Rightarrow> ikst" where
  "upd_ev p f k = k\<lparr>ik_evs := (ik_evs k)(p := map_option f (ik_evs k p))\<rparr>"

definition upd_int :: "cptr \<Rightarrow> (ik_internal \<Rightarrow> ik_internal) \<Rightarrow> ikst \<Rightarrow> ikst" where
  "upd_int p f k = k\<lparr>ik_ints := (ik_ints k)(p := map_option f (ik_ints k p))\<rparr>"

section \<open>When to read\<close>

definition MAX_PENDING_COUNT :: int where "MAX_PENDING_COUNT = 2"

definition MAX_QUEUED_EVENTS :: nat where "MAX_QUEUED_EVENTS = 2048"

definition AVERAGE_EVENT_SIZE :: nat where "AVERAGE_EVENT_SIZE = 32"

text \<open>\<open>readable\<close> is the \<^verbatim>\<open>G_IO_IN\<close> bit of the poll and \<open>ioctl\<close> the answer to \<^verbatim>\<open>FIONREAD\<close>, none when the
  call fails. The subtraction and the comparisons are in \<^verbatim>\<open>unsigned int\<close>.\<close>

definition ik_do_read :: "ikst \<Rightarrow> bool \<times> ikst" where
  "ik_do_read k = (True, k\<lparr>ik_prev_pending := 0, ik_pending_count := 0\<rparr>)"

definition ik_source_check :: "bool \<Rightarrow> 32 word option \<Rightarrow> ikst \<Rightarrow> bool \<times> ikst" where
  "ik_source_check readable ioctl k =
     (if \<not> ik_poll_enabled k \<or> \<not> readable then (False, k)
      else if ik_pending_count k < MAX_PENDING_COUNT then
        (case ioctl of
           None \<Rightarrow> ik_do_read k
         | Some bytes \<Rightarrow>
             (let pending = bytes div of_nat AVERAGE_EVENT_SIZE in
              if pending > of_nat (MAX_QUEUED_EVENTS div 2) then ik_do_read k
              else if pending - of_int (ik_prev_pending k) < push_bit (nat (ik_pending_count k)) 1
              then ik_do_read k
              else (False, k\<lparr>ik_prev_pending := sint pending, ik_pending_count := ik_pending_count k + 1,
                             ik_poll_enabled := False\<rparr>)))
      else ik_do_read k)"

definition ik_source_timeout :: "ikst \<Rightarrow> ikst" where
  "ik_source_timeout k = k\<lparr>ik_poll_enabled := True\<rparr>"

section \<open>Events\<close>

text \<open>Four bytes of a little-endian buffer.\<close>

definition enc32 :: "32 word \<Rightarrow> string" where
  "enc32 w = enc16 (of_nat (unat w mod 65536)) @ enc16 (of_nat (unat w div 65536))"

definition dec32 :: "string \<Rightarrow> 32 word" where
  "dec32 b = of_nat (unat (rd16 b 0) + 65536 * unat (rd16 b 2))"

text \<open>
  The buffer is \<open>BUF\<close> bytes long and zero after the bytes that were read. A read past its end has no
  value. \<open>buf_word\<close> is a field of the \<^verbatim>\<open>struct inotify_event\<close> at an offset, \<open>buf_name\<close> the C string behind
  the struct.
\<close>

definition BUF :: nat where "BUF = AVERAGE_EVENT_SIZE * MAX_QUEUED_EVENTS"

definition buf_word :: "string \<Rightarrow> nat \<Rightarrow> 32 word option" where
  "buf_word b i = (if i + 4 \<le> BUF then Some (dec32 (take 4 (drop i b @ replicate 4 (CHR 0x00)))) else None)"

definition buf_name :: "string \<Rightarrow> nat \<Rightarrow> string option" where
  "buf_name b i =
     (if i < BUF \<and> (CHR 0x00 \<in> set (drop i b) \<or> length b < BUF) then Some (c_string (drop i b)) else None)"

definition ik_event_new :: "string \<Rightarrow> nat \<Rightarrow> ik_event option" where
  "ik_event_new b i =
     do { wd \<leftarrow> buf_word b i;
          m \<leftarrow> buf_word b (i + 4);
          cookie \<leftarrow> buf_word b (i + 8);
          len \<leftarrow> buf_word b (i + 12);
          name \<leftarrow> (if len \<noteq> 0 then buf_name b (i + 16) else Some []);
          Some \<lparr>ke_wd = sint wd, ke_mask = m, ke_cookie = cookie, ke_len = len, ke_name = name, ke_pair = None\<rparr> }"

definition ik_event_new_dummy :: "string option \<Rightarrow> int \<Rightarrow> kmask \<Rightarrow> ik_event" where
  "ik_event_new_dummy name wd m =
     (let name = (case name of Some n \<Rightarrow> n | None \<Rightarrow> []) in
      \<lparr>ke_wd = wd, ke_mask = m, ke_cookie = 0, ke_len = of_nat (length name), ke_name = name, ke_pair = None\<rparr>)"

partial_function (option) ik_event_free :: "cptr \<Rightarrow> ikst \<Rightarrow> ikst option" where
  "ik_event_free e k =
     do { ev \<leftarrow> ik_evs k e;
          k1 \<leftarrow> (case ke_pair ev of Some p \<Rightarrow> ik_event_free p k | None \<Rightarrow> Some k);
          if ik_evs k1 e = None then None else Some (k1\<lparr>ik_evs := (ik_evs k1)(e := None)\<rparr>) }"

text \<open>\<^verbatim>\<open>g_get_current_time\<close> and \<^verbatim>\<open>g_time_val_add\<close>.\<close>

definition get_current_time :: "(nat \<Rightarrow> timeval) \<Rightarrow> ikst \<Rightarrow> timeval \<times> ikst" where
  "get_current_time clk k = (clk (ik_ticks k), k\<lparr>ik_ticks := Suc (ik_ticks k)\<rparr>)"

definition g_time_val_add :: "timeval \<Rightarrow> int \<Rightarrow> timeval" where
  "g_time_val_add tv us =
     (fst tv + (snd tv + us) div 1000000, (snd tv + us) mod 1000000)"

definition DEFAULT_HOLD_UNTIL_TIME :: int where "DEFAULT_HOLD_UNTIL_TIME = 0"

definition MOVE_HOLD_UNTIL_TIME :: int where "MOVE_HOLD_UNTIL_TIME = 0"

definition alloc_event :: "ik_event \<Rightarrow> ikst \<Rightarrow> cptr \<times> ikst" where
  "alloc_event ev k = (ik_next k,
     k\<lparr>ik_evs := (ik_evs k)(ik_next k \<mapsto> ev), ik_next := Suc (ik_next k)\<rparr>)"

definition ik_event_internal_new :: "(nat \<Rightarrow> timeval) \<Rightarrow> cptr \<Rightarrow> ikst \<Rightarrow> cptr \<times> ikst" where
  "ik_event_internal_new clk e k =
     (let (tv, k1) = get_current_time clk k;
          i = \<lparr>ii_event = e, ii_seen = False, ii_sent = False,
               ii_hold = g_time_val_add tv DEFAULT_HOLD_UNTIL_TIME, ii_pair = None\<rparr>
      in (ik_next k1, k1\<lparr>ik_ints := (ik_ints k1)(ik_next k1 \<mapsto> i), ik_next := Suc (ik_next k1)\<rparr>))"

section \<open>Reading\<close>

text \<open>At most a buffer full of what the channel has.\<close>

definition ik_read_events :: "string \<Rightarrow> string" where
  "ik_read_events data = take BUF data"

text \<open>The loop of \<^verbatim>\<open>ik_read_callback\<close> from offset \<open>i\<close> of the bytes read.\<close>

function ik_read_loop :: "(nat \<Rightarrow> timeval) \<Rightarrow> string \<Rightarrow> nat \<Rightarrow> ikst \<Rightarrow> ikst option" where
  "ik_read_loop clk b i k =
     (if i < length b then
        (case ik_event_new b i of
           None \<Rightarrow> None
         | Some ev \<Rightarrow>
             (let (e, k1) = alloc_event ev k;
                  (p, k2) = ik_event_internal_new clk e k1
              in ik_read_loop clk b (i + 16 + unat (ke_len ev)) (k2\<lparr>ik_todo := ik_todo k2 @ [p]\<rparr>)))
      else Some k)"
  by pat_completeness auto
termination
  by (relation "measure (\<lambda>(clk, b, i, k). length b - i)") auto

text \<open>What \<^verbatim>\<open>ik_read_callback\<close> does under the lock; \<open>events > 0\<close> exactly when bytes were read.\<close>

definition ik_read_locked :: "(nat \<Rightarrow> timeval) \<Rightarrow> string \<Rightarrow> ikst \<Rightarrow> ikst option" where
  "ik_read_locked clk data k =
     do { k1 \<leftarrow> ik_read_loop clk (ik_read_events data) 0 k;
          Some (if \<not> ik_running k1 \<and> ik_read_events data \<noteq> [] then k1\<lparr>ik_running := True\<rparr> else k1) }"

section \<open>Pairing the halves of a move\<close>

definition g_timeval_lt :: "timeval \<Rightarrow> timeval \<Rightarrow> bool" where
  "g_timeval_lt a b \<longleftrightarrow>
     (if fst a < fst b then True else if fst a > fst b then False else snd a < snd b)"

definition g_timeval_eq :: "timeval \<Rightarrow> timeval \<Rightarrow> bool" where
  "g_timeval_eq a b \<longleftrightarrow> fst a = fst b \<and> snd a = snd b"

definition ik_pair_events :: "cptr \<Rightarrow> cptr \<Rightarrow> ikst \<Rightarrow> ikst option" where
  "ik_pair_events p q k =
     do { i \<leftarrow> ik_ints k p;
          j \<leftarrow> ik_ints k q;
          e \<leftarrow> ik_evs k (ii_event i);
          f \<leftarrow> ik_evs k (ii_event j);
          if ke_cookie e \<noteq> ke_cookie f \<or> ii_pair i \<noteq> None \<or> ii_pair j \<noteq> None then None
          else
            let k1 = upd_ev (ii_event i) (\<lambda>e. e\<lparr>ke_pair := Some (ii_event j)\<rparr>)
                       (upd_int p (\<lambda>i. i\<lparr>ii_pair := Some q\<rparr>) k);
                hold = (if g_timeval_lt (ii_hold i) (ii_hold j) then ii_hold j else ii_hold i)
            in Some (upd_int q (\<lambda>j. j\<lparr>ii_hold := hold\<rparr>) (upd_int p (\<lambda>i. i\<lparr>ii_hold := hold\<rparr>) k1)) }"

definition ik_event_add_microseconds :: "cptr \<Rightarrow> int \<Rightarrow> ikst \<Rightarrow> ikst" where
  "ik_event_add_microseconds p us = upd_int p (\<lambda>i. i\<lparr>ii_hold := g_time_val_add (ii_hold i) us\<rparr>)"

definition ik_event_ready :: "(nat \<Rightarrow> timeval) \<Rightarrow> cptr \<Rightarrow> ikst \<Rightarrow> (bool \<times> ikst) option" where
  "ik_event_ready clk p k =
     do { i \<leftarrow> ik_ints k p;
          let (tv, k1) = get_current_time clk k
          in do { e \<leftarrow> ik_evs k (ii_event i);
                  Some (ke_cookie e = 0 \<or> ii_pair i \<noteq> None \<or> g_timeval_lt (ii_hold i) tv \<or>
                          g_timeval_eq (ii_hold i) tv, k1) } }"

definition ik_pair_moves :: "cptr \<Rightarrow> ikst \<Rightarrow> ikst option" where
  "ik_pair_moves p k =
     do { i \<leftarrow> ik_ints k p;
          if ii_seen i \<or> ii_sent i then Some k
          else
            do { e \<leftarrow> ik_evs k (ii_event i);
                 k1 \<leftarrow>
                   (if ke_cookie e \<noteq> 0 then
                      (if has_bit (ke_mask e) IN_MOVED_FROM then
                         Some (ik_event_add_microseconds p MOVE_HOLD_UNTIL_TIME
                                 (k\<lparr>ik_cookies := (ik_cookies k)(ke_cookie e \<mapsto> p)\<rparr>))
                       else if has_bit (ke_mask e) IN_MOVED_TO then
                         (case ik_cookies k (ke_cookie e) of
                            Some m \<Rightarrow> ik_pair_events m p (k\<lparr>ik_cookies := (ik_cookies k)(ke_cookie e := None)\<rparr>)
                          | None \<Rightarrow> Some k)
                       else Some k)
                    else Some k);
                 Some (upd_int p (\<lambda>i. i\<lparr>ii_seen := True\<rparr>) k1) } }"

fun ik_pair_all :: "cptr list \<Rightarrow> ikst \<Rightarrow> ikst option" where
  "ik_pair_all [] k = Some k"
| "ik_pair_all (p # ps) k = do { k1 \<leftarrow> ik_pair_moves p k; ik_pair_all ps k1 }"

section \<open>Moving events to the event queue\<close>

text \<open>The new masks of a half that was not paired.\<close>

definition ik_unpaired :: "ik_event \<Rightarrow> ikst \<Rightarrow> kmask \<times> ikst" where
  "ik_unpaired e k =
     (let m = ke_mask e;
          (m, k) = (if has_bit m IN_MOVED_FROM
                    then (IN_DELETE OR (m AND IN_ISDIR), k\<lparr>ik_misses := ik_misses k + 1\<rparr>) else (m, k));
          m = (if has_bit m IN_MOVED_TO then IN_CREATE OR (m AND IN_ISDIR) else m)
      in (m, k))"

text \<open>The steps for the event at the head once it is ready and popped.\<close>

definition ik_send_one :: "cptr \<Rightarrow> ikst \<Rightarrow> ikst option" where
  "ik_send_one p k =
     do { i \<leftarrow> ik_ints k p;
          e \<leftarrow> ik_evs k (ii_event i);
          let k1 = (if ke_cookie e \<noteq> 0 \<and> ii_pair i = None \<and> ik_cookies k (ke_cookie e) \<noteq> None
                    then k\<lparr>ik_cookies := (ik_cookies k)(ke_cookie e := None)\<rparr> else k)
          in do { k2 \<leftarrow>
                    (case ii_pair i of
                       Some q \<Rightarrow>
                         if ik_ints k1 q = None then None
                         else Some (upd_int p (\<lambda>i. i\<lparr>ii_sent := True\<rparr>)
                                     (upd_int q (\<lambda>j. j\<lparr>ii_sent := True\<rparr>)
                                       (k1\<lparr>ik_matches := ik_matches k1 + 1\<rparr>)))
                     | None \<Rightarrow>
                         if ke_cookie e \<noteq> 0 then
                           let (m, k2) = ik_unpaired e k1
                           in Some (upd_ev (ii_event i) (\<lambda>e. e\<lparr>ke_mask := m\<rparr>) k2)
                         else Some k1);
                  Some (k2\<lparr>ik_queue := ik_queue k2 @ [ii_event i], ik_ints := (ik_ints k2)(p := None)\<rparr>) } }"

text \<open>\<open>ps\<close> is what is left of \<^verbatim>\<open>events_to_process\<close>.\<close>

fun ik_process_loop :: "(nat \<Rightarrow> timeval) \<Rightarrow> cptr list \<Rightarrow> ikst \<Rightarrow> ikst option" where
  "ik_process_loop clk [] k = Some (k\<lparr>ik_todo := []\<rparr>)"
| "ik_process_loop clk (p # ps) k =
     do { i \<leftarrow> ik_ints k p;
          if ii_sent i then ik_process_loop clk ps (k\<lparr>ik_ints := (ik_ints k)(p := None)\<rparr>)
          else
            do { (ready, k1) \<leftarrow> ik_event_ready clk p k;
                 if \<not> ready then Some (k1\<lparr>ik_todo := p # ps\<rparr>)
                 else do { k2 \<leftarrow> ik_send_one p k1; ik_process_loop clk ps k2 } } }"

definition ik_process_events :: "(nat \<Rightarrow> timeval) \<Rightarrow> ikst \<Rightarrow> ikst option" where
  "ik_process_events clk k = do { k1 \<leftarrow> ik_pair_all (ik_todo k) k; ik_process_loop clk (ik_todo k) k1 }"

section \<open>Statistics and names\<close>

definition ik_move_stats :: "ikst \<Rightarrow> 32 word \<times> 32 word" where
  "ik_move_stats k = (ik_matches k, ik_misses k)"

definition mask_names :: "(kmask \<times> string) list" where
  "mask_names =
     [(IN_ACCESS, ''ACCESS''), (IN_MODIFY, ''MODIFY''), (IN_ATTRIB, ''ATTRIB''), (IN_CLOSE_WRITE, ''CLOSE_WRITE''),
      (IN_CLOSE_NOWRITE, ''CLOSE_NOWRITE''), (IN_OPEN, ''OPEN''), (IN_MOVED_FROM, ''MOVED_FROM''),
      (IN_MOVED_TO, ''MOVED_TO''), (IN_DELETE, ''DELETE''), (IN_CREATE, ''CREATE''),
      (IN_DELETE_SELF, ''DELETE_SELF''), (IN_UNMOUNT, ''UNMOUNT''), (IN_Q_OVERFLOW, ''Q_OVERFLOW''),
      (IN_IGNORED, ''IGNORED'')]"

definition ik_mask_to_string :: "kmask \<Rightarrow> string" where
  "ik_mask_to_string m =
     (let is_dir = has_bit m IN_ISDIR;
          name = (case map_of mask_names (m AND NOT IN_ISDIR) of Some s \<Rightarrow> s | None \<Rightarrow> ''UNKNOWN_EVENT'')
      in if is_dir then name @ '' (dir)'' else name)"

end
