(* ===== verification/Gam_Ip.thy ===== *)
theory Gam_Ip
  imports Gam_Ik Gam_Poll
begin

unbundle bit_operations_syntax

text \<open>
  The directories watched through inotify: the subscriptions of the back end (\<^verbatim>\<open>server/inotify-sub.c\<close>),
  the callbacks into the server (\<^verbatim>\<open>server/gam_inotify.c\<close>, \<^verbatim>\<open>server/inotify-helper.c\<close>), the watched
  directories and the dispatch of events (\<^verbatim>\<open>server/inotify-path.c\<close>) and the missing list
  (\<^verbatim>\<open>server/inotify-missing.c\<close>).

  The state of the polling server is extended once more. \<^verbatim>\<open>ih_sub_t\<close> and \<^verbatim>\<open>ip_watched_dir_t\<close> objects live
  in heaps. What the kernel answers to \<^verbatim>\<open>inotify_add_watch\<close> is a function of the calls made so far, which
  the state records. \<^verbatim>\<open>inotify_lock\<close> is a flag; without GLib threads (\<open>ie_threads\<close>) locking does nothing,
  with them locking it twice never returns, which is \<^term>\<open>None\<close>.
\<close>

section \<open>State\<close>

record ih_sub_t =
  hs_is_dir :: bool
  hs_pathname :: string
  hs_dirname :: string
  hs_filename :: "string option"
  hs_flags :: kmask
  hs_cancelled :: bool
  hs_user :: cptr

record ip_watched_dir =
  wdir_path :: string
  wdir_wd :: int
  wdir_subs :: "cptr list"

datatype watchres = ADD_WD nat | ADD_NOENT | ADD_ERR

datatype kcall = K_ADD string kmask | K_RM int

record ienv = fenv +
  ie_watch :: "kcall list \<Rightarrow> string \<Rightarrow> kmask \<Rightarrow> watchres"
  ie_init_fd :: int
  ie_mode :: "string \<Rightarrow> 32 word"
  ie_clock :: "nat \<Rightarrow> timeval"
  ie_threads :: bool

record isrv = psrv +
  in_ik :: ikst
  in_fd :: int
  in_calls :: "kcall list"
  in_ik_started :: bool
  in_ip_started :: bool
  in_locked :: bool
  in_subs :: "cptr \<rightharpoonup> ih_sub_t"
  in_dirs :: "cptr \<rightharpoonup> ip_watched_dir"
  in_next :: cptr
  in_path_hash :: "string \<rightharpoonup> cptr"
  in_sub_hash :: "cptr \<rightharpoonup> cptr"
  in_wd_hash :: "int \<rightharpoonup> cptr list"
  in_missing :: "cptr list"
  in_scanning :: bool
  in_list :: "cptr list"

definition upd_isub :: "cptr \<Rightarrow> (ih_sub_t \<Rightarrow> ih_sub_t) \<Rightarrow> 'b isrv_scheme \<Rightarrow> 'b isrv_scheme" where
  "upd_isub q f s = s\<lparr>in_subs := (in_subs s)(q := map_option f (in_subs s q))\<rparr>"

definition upd_dir :: "cptr \<Rightarrow> (ip_watched_dir \<Rightarrow> ip_watched_dir) \<Rightarrow> 'b isrv_scheme \<Rightarrow> 'b isrv_scheme" where
  "upd_dir d f s = s\<lparr>in_dirs := (in_dirs s)(d := map_option f (in_dirs s d))\<rparr>"

definition G_LOCK :: "'e ienv_scheme \<Rightarrow> 'b isrv_scheme \<Rightarrow> 'b isrv_scheme option" where
  "G_LOCK en s = (if ie_threads en \<and> in_locked s then None else Some (s\<lparr>in_locked := True\<rparr>))"

definition G_UNLOCK :: "'b isrv_scheme \<Rightarrow> 'b isrv_scheme" where
  "G_UNLOCK s = s\<lparr>in_locked := False\<rparr>"

section \<open>Subscriptions of the back end\<close>

text \<open>\<^verbatim>\<open>g_path_get_basename\<close>.\<close>

definition g_path_get_basename :: "string \<Rightarrow> string" where
  "g_path_get_basename p =
     (if p = [] then ''.''
      else (let r = dropWhile (\<lambda>c. c = slash) (rev p)
            in if r = [] then ''/'' else rev (takeWhile (\<lambda>c. c \<noteq> slash) r)))"

text \<open>The character tested is the one at index \<open>strlen\<close>, the final NUL.\<close>

definition ih_sub_fix_dirname :: "ih_sub_t \<Rightarrow> ih_sub_t" where
  "ih_sub_fix_dirname sub =
     (let len = length (hs_dirname sub) in
      if (hs_dirname sub @ [CHR 0x00]) ! len = slash then sub\<lparr>hs_dirname := take len (hs_dirname sub)\<rparr> else sub)"

definition ih_sub_setup :: "ih_sub_t \<Rightarrow> ih_sub_t" where
  "ih_sub_setup sub = ih_sub_fix_dirname
     (if hs_is_dir sub then sub\<lparr>hs_dirname := hs_pathname sub, hs_filename := None\<rparr>
      else sub\<lparr>hs_dirname := g_path_get_dirname (hs_pathname sub),
               hs_filename := Some (g_path_get_basename (hs_pathname sub))\<rparr>)"

definition ih_sub_new :: "string \<Rightarrow> bool \<Rightarrow> kmask \<Rightarrow> cptr \<Rightarrow> 'b isrv_scheme \<Rightarrow> cptr \<times> 'b isrv_scheme" where
  "ih_sub_new pathname is_dir flags userdata s =
     (let sub = ih_sub_setup \<lparr>hs_is_dir = is_dir, hs_pathname = pathname, hs_dirname = [], hs_filename = None,
                  hs_flags = flags, hs_cancelled = False, hs_user = userdata\<rparr>
      in (in_next s, s\<lparr>in_subs := (in_subs s)(in_next s \<mapsto> sub), in_next := Suc (in_next s)\<rparr>))"

definition ih_sub_free :: "cptr \<Rightarrow> 'b isrv_scheme \<Rightarrow> 'b isrv_scheme option" where
  "ih_sub_free q s = do { sub \<leftarrow> in_subs s q; Some (s\<lparr>in_subs := (in_subs s)(q := None)\<rparr>) }"

section \<open>Callbacks into the server\<close>

definition ih_mask_to_EventType :: "kmask \<Rightarrow> evtype" where
  "ih_mask_to_EventType m =
     (let m = m AND NOT IN_ISDIR in
      if m = IN_MODIFY \<or> m = IN_ATTRIB then GAMIN_EVENT_CHANGED
      else if m = IN_MOVE_SELF \<or> m = IN_MOVED_FROM \<or> m = IN_DELETE \<or> m = IN_DELETE_SELF then GAMIN_EVENT_DELETED
      else if m = IN_CREATE \<or> m = IN_MOVED_TO then GAMIN_EVENT_CREATED
      else -1)"

definition S_IFDIR :: "32 word" where "S_IFDIR = 0x4000"

text \<open>The entries of a directory: \<open>ie_mode\<close> is the mode \<^verbatim>\<open>lstat\<close> gives, zero when it fails.\<close>

fun send_entries ::
  "'e ienv_scheme \<Rightarrow> string \<Rightarrow> evtype \<Rightarrow> cptr \<Rightarrow> string list \<Rightarrow> 'b srv_scheme \<Rightarrow> 'b srv_scheme option" where
  "send_entries en pathname gevent subp [] s = Some s"
| "send_entries en pathname gevent subp (filename # names) s =
     (let fullname = pathname @ slash # filename;
          file_is_dir = (ie_mode en fullname AND S_IFDIR \<noteq> 0)
      in do { s1 \<leftarrow> gam_server_emit_one_event fullname file_is_dir gevent subp True s;
              send_entries en pathname gevent subp names s1 })"

definition gam_inotify_send_initial_events ::
  "'e ienv_scheme \<Rightarrow> string \<Rightarrow> cptr \<Rightarrow> bool \<Rightarrow> bool \<Rightarrow> 'b srv_scheme \<Rightarrow> 'b srv_scheme option" where
  "gam_inotify_send_initial_events en pathname subp is_dir was_missing s =
     (let gevent = (if was_missing then GAMIN_EVENT_CREATED
                    else if file_exists (fenv.truncate en) pathname then GAMIN_EVENT_EXISTS
                    else GAMIN_EVENT_DELETED)
      in do { s1 \<leftarrow> gam_server_emit_one_event pathname is_dir gevent subp True s;
              s2 \<leftarrow> (if is_dir then
                       (case en_readdir en pathname of
                          Some names \<Rightarrow> send_entries en pathname gevent subp names s1
                        | None \<Rightarrow> Some s1)
                     else Some s1);
              if \<not> was_missing then gam_server_emit_one_event pathname is_dir GAMIN_EVENT_ENDEXISTS subp True s2
              else Some s2 })"

definition gam_inotify_event_callback :: "string \<Rightarrow> kmask \<Rightarrow> cptr \<Rightarrow> 'b srv_scheme \<Rightarrow> 'b srv_scheme option" where
  "gam_inotify_event_callback fullpath m subp s =
     do { sub \<leftarrow> sv_subs s subp;
          gam_server_emit_one_event fullpath (sub_is_dir sub) (ih_mask_to_EventType m) subp True s }"

definition gam_inotify_found_callback :: "'e ienv_scheme \<Rightarrow> string \<Rightarrow> cptr \<Rightarrow> 'b srv_scheme \<Rightarrow> 'b srv_scheme option" where
  "gam_inotify_found_callback en fullpath subp s =
     do { sub \<leftarrow> sv_subs s subp;
          gam_inotify_send_initial_events en (sub_path sub) subp (sub_is_dir sub) True s }"

text \<open>The name of an event is never \<^verbatim>\<open>NULL\<close>.\<close>

definition ih_event_callback :: "ik_event \<Rightarrow> cptr \<Rightarrow> 'b isrv_scheme \<Rightarrow> 'b isrv_scheme option" where
  "ih_event_callback ev q s =
     do { sub \<leftarrow> in_subs s q;
          gam_inotify_event_callback (hs_dirname sub @ slash # ke_name ev) (ke_mask ev) (hs_user sub) s }"

definition ih_found_callback :: "'e ienv_scheme \<Rightarrow> cptr \<Rightarrow> 'b isrv_scheme \<Rightarrow> 'b isrv_scheme option" where
  "ih_found_callback en q s =
     do { sub \<leftarrow> in_subs s q;
          case hs_filename sub of
            Some f \<Rightarrow>
              (let fullpath = hs_dirname sub @ slash # f in
               if \<not> file_exists (fenv.truncate en) fullpath then Some s
               else gam_inotify_found_callback en fullpath (hs_user sub) s)
          | None \<Rightarrow> gam_inotify_found_callback en (hs_dirname sub @ [slash]) (hs_user sub) s }"

section \<open>Watches\<close>

definition ik_watch :: "'e ienv_scheme \<Rightarrow> string \<Rightarrow> kmask \<Rightarrow> 'b isrv_scheme \<Rightarrow> (watchres \<times> 'b isrv_scheme) option" where
  "ik_watch en path m s =
     (if in_fd s < 0 then None
      else Some (ie_watch en (in_calls s) path m, s\<lparr>in_calls := in_calls s @ [K_ADD path m]\<rparr>))"

definition ik_ignore :: "string \<Rightarrow> int \<Rightarrow> 'b isrv_scheme \<Rightarrow> 'b isrv_scheme option" where
  "ik_ignore path wd s =
     (if wd < 0 \<or> in_fd s < 0 then None else Some (s\<lparr>in_calls := in_calls s @ [K_RM wd]\<rparr>))"

definition IP_INOTIFY_MASK :: kmask where
  "IP_INOTIFY_MASK = IN_MODIFY OR IN_ATTRIB OR IN_MOVED_FROM OR IN_MOVED_TO OR IN_DELETE OR IN_CREATE OR
     IN_DELETE_SELF OR IN_UNMOUNT OR IN_MOVE_SELF"

definition ip_watched_dir_new :: "string \<Rightarrow> int \<Rightarrow> 'b isrv_scheme \<Rightarrow> cptr \<times> 'b isrv_scheme" where
  "ip_watched_dir_new path wd s =
     (in_next s, s\<lparr>in_dirs := (in_dirs s)(in_next s \<mapsto> \<lparr>wdir_path = path, wdir_wd = wd, wdir_subs = []\<rparr>),
                   in_next := Suc (in_next s)\<rparr>)"

definition ip_watched_dir_free :: "cptr \<Rightarrow> 'b isrv_scheme \<Rightarrow> 'b isrv_scheme option" where
  "ip_watched_dir_free d s =
     do { dir \<leftarrow> in_dirs s d;
          if wdir_subs dir \<noteq> [] then None else Some (s\<lparr>in_dirs := (in_dirs s)(d := None)\<rparr>) }"

definition ip_map_path_dir :: "cptr \<Rightarrow> 'b isrv_scheme \<Rightarrow> 'b isrv_scheme option" where
  "ip_map_path_dir d s =
     do { dir \<leftarrow> in_dirs s d; Some (s\<lparr>in_path_hash := (in_path_hash s)(wdir_path dir \<mapsto> d)\<rparr>) }"

definition ip_map_sub_dir :: "cptr \<Rightarrow> cptr \<Rightarrow> 'b isrv_scheme \<Rightarrow> 'b isrv_scheme option" where
  "ip_map_sub_dir q d s =
     do { dir \<leftarrow> in_dirs s d;
          Some (upd_dir d (\<lambda>dir. dir\<lparr>wdir_subs := q # wdir_subs dir\<rparr>)
                 (s\<lparr>in_sub_hash := (in_sub_hash s)(q \<mapsto> d)\<rparr>)) }"

definition dirs_of :: "int \<Rightarrow> 'b isrv_scheme \<Rightarrow> cptr list" where
  "dirs_of wd s = (case in_wd_hash s wd of None \<Rightarrow> [] | Some l \<Rightarrow> l)"

definition ip_map_wd_dir :: "int \<Rightarrow> cptr \<Rightarrow> 'b isrv_scheme \<Rightarrow> 'b isrv_scheme option" where
  "ip_map_wd_dir wd d s =
     do { dir \<leftarrow> in_dirs s d;
          if wd < 0 then None
          else Some (s\<lparr>in_wd_hash := (in_wd_hash s)(wdir_wd dir \<mapsto> d # dirs_of wd s)\<rparr>) }"

text \<open>The last slash of a path, \<^verbatim>\<open>g_strrstr (path_copy, "/")\<close>.\<close>

definition last_slash :: "string \<Rightarrow> nat option" where
  "last_slash p = (if slash \<in> set p then Some (length p - 1 - length (takeWhile (\<lambda>c. c \<noteq> slash) (rev p))) else None)"

text \<open>The loop over the parents; the path is cut at its last slash unless that is its first character. The
  loop may run forever.\<close>

partial_function (option) ip_watch_parent ::
  "'e ienv_scheme \<Rightarrow> string \<Rightarrow> kmask \<Rightarrow> 'b isrv_scheme \<Rightarrow> ((nat \<times> string) option \<times> 'b isrv_scheme) option" where
  "ip_watch_parent en path_copy m s =
     (case last_slash path_copy of
        None \<Rightarrow> Some (None, s)
      | Some i \<Rightarrow>
          (let p = (if i \<noteq> 0 then take i path_copy else path_copy) in
           do { (r, s1) \<leftarrow> ik_watch en p m s;
                case r of
                  ADD_NOENT \<Rightarrow> ip_watch_parent en p m s1
                | ADD_WD wd \<Rightarrow> Some (Some (wd, p), s1)
                | ADD_ERR \<Rightarrow> Some (None, s1) }))"

declare ip_watch_parent.simps [code]

text \<open>A new watched directory in both hash tables.\<close>

definition add_watched_dir :: "string \<Rightarrow> nat \<Rightarrow> 'b isrv_scheme \<Rightarrow> (cptr \<times> 'b isrv_scheme) option" where
  "add_watched_dir path wd s =
     (let (d, s1) = ip_watched_dir_new path (int wd) s
      in do { s2 \<leftarrow> ip_map_wd_dir (int wd) d s1; s3 \<leftarrow> ip_map_path_dir d s2; Some (d, s3) })"

definition ip_start_watching :: "'e ienv_scheme \<Rightarrow> cptr \<Rightarrow> 'b isrv_scheme \<Rightarrow> (bool \<times> 'b isrv_scheme) option" where
  "ip_start_watching en q s =
     do { sub \<leftarrow> in_subs s q;
          if hs_cancelled sub then None
          else
            let m = IP_INOTIFY_MASK OR IN_ONLYDIR OR hs_flags sub
            in case in_path_hash s (hs_dirname sub) of
                 Some d \<Rightarrow> do { s1 \<leftarrow> ip_map_sub_dir q d s; Some (True, s1) }
               | None \<Rightarrow>
                   do { (r, s1) \<leftarrow> ik_watch en (hs_dirname sub) m s;
                        case r of
                          ADD_ERR \<Rightarrow> Some (False, s1)
                        | ADD_WD wd \<Rightarrow>
                            do { (d, s2) \<leftarrow> add_watched_dir (hs_dirname sub) wd s1;
                                 s3 \<leftarrow> ip_map_sub_dir q d s2; Some (True, s3) }
                        | ADD_NOENT \<Rightarrow>
                            do { (found, s2) \<leftarrow> ip_watch_parent en (hs_dirname sub) m s1;
                                 case found of
                                   None \<Rightarrow> Some (False, s2)
                                 | Some (wd, parent_path) \<Rightarrow>
                                     do { (d, s3) \<leftarrow> add_watched_dir parent_path wd s2;
                                          s4 \<leftarrow> ip_map_sub_dir q d s3; Some (True, s4) } } } }"

definition ip_unmap_path_dir :: "cptr \<Rightarrow> 'b isrv_scheme \<Rightarrow> 'b isrv_scheme option" where
  "ip_unmap_path_dir d s =
     do { dir \<leftarrow> in_dirs s d; Some (s\<lparr>in_path_hash := (in_path_hash s)(wdir_path dir := None)\<rparr>) }"

definition ip_unmap_wd_dir :: "int \<Rightarrow> cptr \<Rightarrow> 'b isrv_scheme \<Rightarrow> 'b isrv_scheme option" where
  "ip_unmap_wd_dir wd d s =
     (case in_wd_hash s wd of
        None \<Rightarrow> Some s
      | Some l \<Rightarrow>
          if wd < 0 then None
          else do { dir \<leftarrow> in_dirs s d;
                    let l' = remove1 d l
                    in Some (s\<lparr>in_wd_hash := (in_wd_hash s)(wdir_wd dir := if l' = [] then None else Some l')\<rparr>) })"

definition ip_unmap_wd :: "int \<Rightarrow> 'b isrv_scheme \<Rightarrow> 'b isrv_scheme option" where
  "ip_unmap_wd wd s =
     (case in_wd_hash s wd of
        None \<Rightarrow> Some s
      | Some l \<Rightarrow> if wd < 0 then None else Some (s\<lparr>in_wd_hash := (in_wd_hash s)(wd := None)\<rparr>))"

definition ip_unmap_sub_dir :: "cptr \<Rightarrow> cptr \<Rightarrow> 'b isrv_scheme \<Rightarrow> 'b isrv_scheme option" where
  "ip_unmap_sub_dir q d s =
     do { dir \<leftarrow> in_dirs s d;
          Some (upd_dir d (\<lambda>dir. dir\<lparr>wdir_subs := remove1 q (wdir_subs dir)\<rparr>)
                 (s\<lparr>in_sub_hash := (in_sub_hash s)(q := None)\<rparr>)) }"

definition ip_unmap_all_subs :: "cptr \<Rightarrow> 'b isrv_scheme \<Rightarrow> 'b isrv_scheme option" where
  "ip_unmap_all_subs d s =
     do { dir \<leftarrow> in_dirs s d;
          Some (upd_dir d (\<lambda>dir. dir\<lparr>wdir_subs := []\<rparr>)
                 (s\<lparr>in_sub_hash := (in_sub_hash s) |` (- set (wdir_subs dir))\<rparr>)) }"

definition ip_stop_watching :: "cptr \<Rightarrow> 'b isrv_scheme \<Rightarrow> 'b isrv_scheme option" where
  "ip_stop_watching q s =
     (case in_sub_hash s q of
        None \<Rightarrow> Some s
      | Some d \<Rightarrow>
          do { s1 \<leftarrow> ip_unmap_sub_dir q d s;
               dir \<leftarrow> in_dirs s1 d;
               if wdir_subs dir \<noteq> [] then Some s1
               else
                 do { s2 \<leftarrow> ik_ignore (wdir_path dir) (wdir_wd dir) s1;
                      s3 \<leftarrow> ip_unmap_wd_dir (wdir_wd dir) d s2;
                      s4 \<leftarrow> ip_unmap_path_dir d s3;
                      ip_watched_dir_free d s4 } })"

section \<open>The missing list\<close>

definition im_add :: "cptr \<Rightarrow> 'b isrv_scheme \<Rightarrow> 'b isrv_scheme" where
  "im_add q s = (if q \<in> set (in_missing s) then s else s\<lparr>in_missing := q # in_missing s, in_scanning := True\<rparr>)"

definition im_rm :: "cptr \<Rightarrow> 'b isrv_scheme \<Rightarrow> 'b isrv_scheme" where
  "im_rm q s = s\<lparr>in_missing := remove1 q (in_missing s)\<rparr>"

text \<open>The loop over the list; the first component of the result is \<open>nolonger_missing\<close>.\<close>

fun im_scan_loop ::
  "'e ienv_scheme \<Rightarrow> cptr list \<Rightarrow> cptr list \<Rightarrow> 'b isrv_scheme \<Rightarrow> (cptr list \<times> 'b isrv_scheme) option" where
  "im_scan_loop en [] nolonger s = Some (nolonger, s)"
| "im_scan_loop en (q # qs) nolonger s =
     do { (not_m, s1) \<leftarrow> ip_start_watching en q s;
          if not_m then do { s2 \<leftarrow> ih_found_callback en q s1; im_scan_loop en qs (q # nolonger) s2 }
          else im_scan_loop en qs nolonger s1 }"

definition im_scan_missing :: "'e ienv_scheme \<Rightarrow> 'b isrv_scheme \<Rightarrow> (bool \<times> 'b isrv_scheme) option" where
  "im_scan_missing en s =
     do { s1 \<leftarrow> G_LOCK en s;
          (nolonger, s2) \<leftarrow> im_scan_loop en (in_missing s1) [] s1;
          let s3 = s2\<lparr>in_missing := fold remove1 nolonger (in_missing s2)\<rparr>
          in if in_missing s3 = [] then Some (False, G_UNLOCK (s3\<lparr>in_scanning := False\<rparr>))
             else Some (True, G_UNLOCK s3) }"

section \<open>Dispatch\<close>

definition ip_wd_delete :: "cptr \<Rightarrow> 'b isrv_scheme \<Rightarrow> 'b isrv_scheme option" where
  "ip_wd_delete d s =
     do { dir \<leftarrow> in_dirs s d;
          s1 \<leftarrow> ip_unmap_all_subs d (fold im_add (wdir_subs dir) s);
          s2 \<leftarrow> ip_unmap_path_dir d s1;
          ip_watched_dir_free d s2 }"

fun ip_wd_delete_all :: "cptr list \<Rightarrow> 'b isrv_scheme \<Rightarrow> 'b isrv_scheme option" where
  "ip_wd_delete_all [] s = Some s"
| "ip_wd_delete_all (d # ds) s = do { s1 \<leftarrow> ip_wd_delete d s; ip_wd_delete_all ds s1 }"

text \<open>\<^verbatim>\<open>g_build_filename\<close> of the directory and the name of an event, which may be empty.\<close>

definition event_path :: "string \<Rightarrow> string \<Rightarrow> string" where
  "event_path dpath name = (if name = [] then dpath else g_build_filename dpath name)"

text \<open>One subscription of a directory; \<open>resub\<close> is the list of those to watch again.\<close>

definition dispatch_sub ::
  "ik_event \<Rightarrow> string \<Rightarrow> cptr \<Rightarrow> cptr list \<Rightarrow> 'b isrv_scheme \<Rightarrow> (cptr list \<times> 'b isrv_scheme) option" where
  "dispatch_sub ev dpath q resub s =
     do { sub \<leftarrow> in_subs s q;
          let path = event_path dpath (ke_name ev)
          in if hs_filename sub \<noteq> None \<and> hs_filename sub \<noteq> Some (ke_name ev) then Some (resub, s)
             else if take (length path) (hs_dirname sub) = path then
               do { s1 \<leftarrow>
                      (if hs_dirname sub = path then
                         do { s1 \<leftarrow> ih_event_callback ev q (upd_isub q (\<lambda>sub. sub\<lparr>hs_dirname := dpath\<rparr>) s);
                              Some (upd_isub q (\<lambda>sub'. sub'\<lparr>hs_dirname := hs_dirname sub\<rparr>) s1) }
                       else Some s);
                    Some (q # resub, s1) }
             else do { s1 \<leftarrow> ih_event_callback ev q s; Some (resub, s1) } }"

fun dispatch_subs ::
  "ik_event \<Rightarrow> string \<Rightarrow> cptr list \<Rightarrow> cptr list \<Rightarrow> 'b isrv_scheme \<Rightarrow> (cptr list \<times> 'b isrv_scheme) option" where
  "dispatch_subs ev dpath [] resub s = Some (resub, s)"
| "dispatch_subs ev dpath (q # qs) resub s =
     do { (resub1, s1) \<leftarrow> dispatch_sub ev dpath q resub s; dispatch_subs ev dpath qs resub1 s1 }"

fun dispatch_dirs ::
  "ik_event \<Rightarrow> cptr list \<Rightarrow> cptr list \<Rightarrow> 'b isrv_scheme \<Rightarrow> (cptr list \<times> 'b isrv_scheme) option" where
  "dispatch_dirs ev [] resub s = Some (resub, s)"
| "dispatch_dirs ev (d # ds) resub s =
     do { dir \<leftarrow> in_dirs s d;
          (resub1, s1) \<leftarrow> dispatch_subs ev (wdir_path dir) (wdir_subs dir) resub s;
          dispatch_dirs ev ds resub1 s1 }"

text \<open>The second half of a move.\<close>

fun dispatch_pair_subs :: "ik_event \<Rightarrow> cptr list \<Rightarrow> 'b isrv_scheme \<Rightarrow> 'b isrv_scheme option" where
  "dispatch_pair_subs ev [] s = Some s"
| "dispatch_pair_subs ev (q # qs) s =
     do { sub \<leftarrow> in_subs s q;
          s1 \<leftarrow> (if hs_filename sub \<noteq> None \<and> hs_filename sub \<noteq> Some (ke_name ev) then Some s
                  else ih_event_callback ev q s);
          dispatch_pair_subs ev qs s1 }"

fun dispatch_pair_dirs :: "ik_event \<Rightarrow> cptr list \<Rightarrow> 'b isrv_scheme \<Rightarrow> 'b isrv_scheme option" where
  "dispatch_pair_dirs ev [] s = Some s"
| "dispatch_pair_dirs ev (d # ds) s =
     do { dir \<leftarrow> in_dirs s d;
          s1 \<leftarrow> dispatch_pair_subs ev (wdir_subs dir) s;
          dispatch_pair_dirs ev ds s1 }"

fun resubscribe :: "'e ienv_scheme \<Rightarrow> cptr list \<Rightarrow> 'b isrv_scheme \<Rightarrow> 'b isrv_scheme option" where
  "resubscribe en [] s = Some s"
| "resubscribe en (q # qs) s =
     do { s1 \<leftarrow> ip_stop_watching q s; (r, s2) \<leftarrow> ip_start_watching en q s1; resubscribe en qs s2 }"

definition ip_event_dispatch ::
  "'e ienv_scheme \<Rightarrow> cptr list \<Rightarrow> cptr list \<Rightarrow> ik_event \<Rightarrow> ik_event option \<Rightarrow> 'b isrv_scheme \<Rightarrow> 'b isrv_scheme option" where
  "ip_event_dispatch en dir_list pair_dir_list ev pair s =
     do { (resub, s1) \<leftarrow> dispatch_dirs ev dir_list [] s;
          s2 \<leftarrow> (case pair of None \<Rightarrow> Some s1 | Some pv \<Rightarrow> dispatch_pair_dirs pv pair_dir_list s1);
          resubscribe en resub s2 }"

definition free_event :: "cptr \<Rightarrow> 'b isrv_scheme \<Rightarrow> 'b isrv_scheme option" where
  "free_event e s = do { k \<leftarrow> ik_event_free e (in_ik s); Some (s\<lparr>in_ik := k\<rparr>) }"

definition ip_event_callback :: "'e ienv_scheme \<Rightarrow> cptr \<Rightarrow> 'b isrv_scheme \<Rightarrow> 'b isrv_scheme option" where
  "ip_event_callback en e s =
     do { ev \<leftarrow> ik_evs (in_ik s) e;
          if has_bit (ke_mask ev) IN_IGNORED then free_event e s
          else
            do { pair \<leftarrow> (case ke_pair ev of None \<Rightarrow> Some None | Some f \<Rightarrow> map_option Some (ik_evs (in_ik s) f));
                 let pair_dir_list = (case pair of None \<Rightarrow> [] | Some pv \<Rightarrow> dirs_of (ke_wd pv) s)
                 in do { s1 \<leftarrow> (if has_bit (ke_mask ev) IP_INOTIFY_MASK
                                then ip_event_dispatch en (dirs_of (ke_wd ev) s) pair_dir_list ev pair s else Some s);
                         s2 \<leftarrow> (if has_bit (ke_mask ev) IN_DELETE_SELF \<or> has_bit (ke_mask ev) IN_MOVE_SELF
                                then do { s2 \<leftarrow> ip_wd_delete_all (dirs_of (ke_wd ev) s1) s1;
                                          ip_unmap_wd (ke_wd ev) s2 }
                                else Some s1);
                         free_event e s2 } } }"

end
