(* ===== verification/Gam_Inotify.thy ===== *)
theory Gam_Inotify
  imports Gam_Ip
begin

unbundle bit_operations_syntax

text \<open>
  The inotify back end as the server sees it: the subscription list (\<^verbatim>\<open>server/inotify-helper.c\<close>), the
  operations that are installed as the kernel hooks (\<^verbatim>\<open>server/gam_inotify.c\<close>), starting it, and the two
  callbacks of the main loop that read and process kernel events (\<^verbatim>\<open>server/inotify-kernel.c\<close>).
\<close>

section \<open>Subscriptions\<close>

definition ih_sub_add :: "'e ienv_scheme \<Rightarrow> cptr \<Rightarrow> 'b isrv_scheme \<Rightarrow> (bool \<times> 'b isrv_scheme) option" where
  "ih_sub_add en q s =
     do { s1 \<leftarrow> G_LOCK en s;
          if q \<in> set (in_list s1) then None
          else
            do { (ok, s2) \<leftarrow> ip_start_watching en q s1;
                 let s3 = (if \<not> ok then im_add q s2 else s2)
                 in Some (True, G_UNLOCK (s3\<lparr>in_list := q # in_list s3\<rparr>)) } }"

definition ih_sub_cancel :: "'e ienv_scheme \<Rightarrow> cptr \<Rightarrow> 'b isrv_scheme \<Rightarrow> (bool \<times> 'b isrv_scheme) option" where
  "ih_sub_cancel en q s =
     do { s1 \<leftarrow> G_LOCK en s;
          sub \<leftarrow> in_subs s1 q;
          if hs_cancelled sub then Some (True, G_UNLOCK s1)
          else if q \<notin> set (in_list s1) then None
          else
            do { s2 \<leftarrow> ip_stop_watching q (im_rm q (upd_isub q (\<lambda>sub. sub\<lparr>hs_cancelled := True\<rparr>) s1));
                 Some (True, G_UNLOCK (s2\<lparr>in_list := remove1 q (in_list s2)\<rparr>)) } }"

text \<open>The loop over \<^verbatim>\<open>sub_list\<close>; only the element visited is taken off it, and its successor is saved first.\<close>

fun foreach_loop ::
  "'e ienv_scheme \<Rightarrow> (cptr \<Rightarrow> 'b isrv_scheme \<Rightarrow> bool option) \<Rightarrow> bool \<Rightarrow> cptr list \<Rightarrow> 'b isrv_scheme
     \<Rightarrow> 'b isrv_scheme option" where
  "foreach_loop en f free [] s = Some s"
| "foreach_loop en f free (q # qs) s =
     do { hit \<leftarrow> f q s;
          s1 \<leftarrow> (if hit then
                   do { (b, s1) \<leftarrow> ih_sub_cancel en q s;
                        if free then ih_sub_free q s1 else Some s1 }
                  else Some s);
          foreach_loop en f free qs s1 }"

definition ih_sub_foreach_worker ::
  "'e ienv_scheme \<Rightarrow> (cptr \<Rightarrow> 'b isrv_scheme \<Rightarrow> bool option) \<Rightarrow> bool \<Rightarrow> 'b isrv_scheme \<Rightarrow> 'b isrv_scheme option" where
  "ih_sub_foreach_worker en f free s =
     do { s1 \<leftarrow> G_LOCK en s;
          s2 \<leftarrow> foreach_loop en f free (in_list s1) s1;
          Some (G_UNLOCK s2) }"

definition ih_sub_foreach ::
  "'e ienv_scheme \<Rightarrow> (cptr \<Rightarrow> 'b isrv_scheme \<Rightarrow> bool option) \<Rightarrow> 'b isrv_scheme \<Rightarrow> 'b isrv_scheme option" where
  "ih_sub_foreach en f = ih_sub_foreach_worker en f False"

definition ih_sub_foreach_free ::
  "'e ienv_scheme \<Rightarrow> (cptr \<Rightarrow> 'b isrv_scheme \<Rightarrow> bool option) \<Rightarrow> 'b isrv_scheme \<Rightarrow> 'b isrv_scheme option" where
  "ih_sub_foreach_free en f = ih_sub_foreach_worker en f True"

definition ih_running :: "'b isrv_scheme \<Rightarrow> bool" where
  "ih_running s = sv_inotify s"

section \<open>The kernel hooks\<close>

definition gam_inotify_add_subscription ::
  "'e ienv_scheme \<Rightarrow> cptr \<Rightarrow> 'b isrv_scheme \<Rightarrow> (bool \<times> 'b isrv_scheme) option" where
  "gam_inotify_add_subscription en subp s =
     do { sub \<leftarrow> sv_subs s subp;
          l \<leftarrow> sub_listener sub;
          s1 \<leftarrow> gam_listener_add_subscription l subp s;
          let (isub, s2) = ih_sub_new (sub_path sub) (sub_is_dir sub) 0 subp s1
          in do { (ok, s3) \<leftarrow> ih_sub_add en isub s2;
                  if \<not> ok then do { s4 \<leftarrow> ih_sub_free isub s3; Some (False, s4) }
                  else do { s4 \<leftarrow> gam_inotify_send_initial_events en (sub_path sub) subp (sub_is_dir sub) False s3;
                            Some (True, s4) } } }"

definition gam_inotify_remove_sub_pred :: "cptr \<Rightarrow> cptr \<Rightarrow> 'b isrv_scheme \<Rightarrow> bool option" where
  "gam_inotify_remove_sub_pred callerdata q s =
     do { sub \<leftarrow> in_subs s q; Some (hs_user sub = callerdata) }"

definition gam_inotify_remove_subscription ::
  "'e ienv_scheme \<Rightarrow> cptr \<Rightarrow> 'b isrv_scheme \<Rightarrow> (bool \<times> 'b isrv_scheme) option" where
  "gam_inotify_remove_subscription en subp s =
     do { s1 \<leftarrow> ih_sub_foreach_free en (gam_inotify_remove_sub_pred subp) s; Some (True, s1) }"

definition gam_inotify_remove_listener_pred :: "cptr \<Rightarrow> cptr \<Rightarrow> 'b isrv_scheme \<Rightarrow> bool option" where
  "gam_inotify_remove_listener_pred callerdata q s =
     do { sub \<leftarrow> in_subs s q;
          gsub \<leftarrow> sv_subs s (hs_user sub);
          Some (gam_subscription_get_listener (Some gsub) = Some callerdata) }"

definition gam_inotify_remove_all_for ::
  "'e ienv_scheme \<Rightarrow> cptr \<Rightarrow> 'b isrv_scheme \<Rightarrow> (bool \<times> 'b isrv_scheme) option" where
  "gam_inotify_remove_all_for en l s =
     do { s1 \<leftarrow> ih_sub_foreach_free en (gam_inotify_remove_listener_pred l) s; Some (True, s1) }"

section \<open>Starting\<close>

definition ik_startup :: "'e ienv_scheme \<Rightarrow> 'b isrv_scheme \<Rightarrow> bool \<times> 'b isrv_scheme" where
  "ik_startup en s =
     (if in_ik_started s then (in_fd s \<ge> 0, s)
      else if ie_init_fd en < 0 then (False, s\<lparr>in_fd := ie_init_fd en\<rparr>)
      else (True, s\<lparr>in_fd := ie_init_fd en, in_ik_started := True, in_ik := ik_init\<rparr>))"

definition ip_startup :: "'e ienv_scheme \<Rightarrow> 'b isrv_scheme \<Rightarrow> bool \<times> 'b isrv_scheme" where
  "ip_startup en s =
     (if in_ip_started s then (True, s)
      else (let (result, s1) = ik_startup en s in
            if \<not> result then (False, s1)
            else (True, s1\<lparr>in_ip_started := True, in_path_hash := Map.empty, in_sub_hash := Map.empty,
                           in_wd_hash := Map.empty\<rparr>)))"

definition ih_startup :: "'e ienv_scheme \<Rightarrow> 'b isrv_scheme \<Rightarrow> (bool \<times> 'b isrv_scheme) option" where
  "ih_startup en s =
     do { s1 \<leftarrow> G_LOCK en s;
          if sv_inotify s1 then Some (True, G_UNLOCK s1)
          else (let (result, s2) = ip_startup en s1 in
                if \<not> result then Some (False, G_UNLOCK s2)
                else Some (True, G_UNLOCK (s2\<lparr>sv_inotify := True\<rparr>))) }"

definition gam_inotify_init ::
  "'e ienv_scheme \<Rightarrow> 'b isrv_scheme hooks \<Rightarrow> 'b isrv_scheme \<Rightarrow> (bool \<times> 'b isrv_scheme hooks \<times> 'b isrv_scheme) option" where
  "gam_inotify_init en hk s =
     (let (hk1, s1) = gam_poll_basic_init (fenv.truncate en) hk s;
          hk2 = gam_server_install_kernel_hooks (gam_inotify_add_subscription en) (gam_inotify_remove_subscription en)
                  (gam_inotify_remove_all_for en) hk1
      in do { (result, s2) \<leftarrow> ih_startup en s1; Some (result, hk2, s2) })"

section \<open>The callbacks of the main loop\<close>

definition ik_read_callback :: "'e ienv_scheme \<Rightarrow> string \<Rightarrow> 'b isrv_scheme \<Rightarrow> (bool \<times> 'b isrv_scheme) option" where
  "ik_read_callback en data s =
     do { s1 \<leftarrow> G_LOCK en s;
          k \<leftarrow> ik_read_locked (ie_clock en) data (in_ik s1);
          Some (True, G_UNLOCK (s1\<lparr>in_ik := k\<rparr>)) }"

text \<open>The loop that empties the event queue; \<open>n\<close> bounds the rounds, and the callback queues nothing.\<close>

fun ik_send_events :: "nat \<Rightarrow> 'e ienv_scheme \<Rightarrow> 'b isrv_scheme \<Rightarrow> 'b isrv_scheme option" where
  "ik_send_events 0 en s = None"
| "ik_send_events (Suc n) en s =
     (case ik_queue (in_ik s) of
        [] \<Rightarrow> Some s
      | e # q \<Rightarrow>
          do { s1 \<leftarrow> ip_event_callback en e (s\<lparr>in_ik := (in_ik s)\<lparr>ik_queue := q\<rparr>\<rparr>);
               ik_send_events n en s1 })"

definition ik_process_eq_callback :: "'e ienv_scheme \<Rightarrow> 'b isrv_scheme \<Rightarrow> (bool \<times> 'b isrv_scheme) option" where
  "ik_process_eq_callback en s =
     do { s1 \<leftarrow> G_LOCK en s;
          k \<leftarrow> ik_process_events (ie_clock en) (in_ik s1);
          s2 \<leftarrow> ik_send_events (Suc (length (ik_queue k))) en (s1\<lparr>in_ik := k\<rparr>);
          if ik_todo (in_ik s2) = []
          then Some (False, G_UNLOCK (s2\<lparr>in_ik := (in_ik s2)\<lparr>ik_running := False\<rparr>\<rparr>))
          else Some (True, G_UNLOCK s2) }"

end
