(* ===== verification/Gam_Ik_Inv.thy ===== *)
theory Gam_Ik_Inv
  imports Gam_Ik "HOL-Library.Multiset"
begin

unbundle bit_operations_syntax

text \<open>
  The invariant of the event queues of \<^verbatim>\<open>server/inotify-kernel.c\<close>, over the heaps of events and of queue
  entries: every allocated event is queued once, the halves of a move name each other. Pairing the moves and
  handing events on keep it.
\<close>

section \<open>The invariant\<close>

text \<open>The event an internal event still has to hand on.\<close>

definition own :: "ikst \<Rightarrow> cptr \<Rightarrow> cptr option" where
  "own k p = (case ik_ints k p of None \<Rightarrow> None | Some i \<Rightarrow> if ii_sent i then None else Some (ii_event i))"

definition owned :: "ikst \<Rightarrow> cptr list \<Rightarrow> cptr list" where
  "owned k ps = List.map_filter (own k) ps"

text \<open>A queued event, with its other half.\<close>

definition parts :: "ikst \<Rightarrow> cptr \<Rightarrow> cptr list" where
  "parts k e = e # (case ik_evs k e of None \<Rightarrow> [] | Some ev \<Rightarrow> (case ke_pair ev of None \<Rightarrow> [] | Some f \<Rightarrow> [f]))"

definition flat :: "ikst \<Rightarrow> cptr list" where
  "flat k = concat (map (parts k) (ik_queue k))"

definition target :: "ikst \<Rightarrow> cptr \<Rightarrow> cptr \<Rightarrow> bool" where
  "target k p q \<longleftrightarrow> (\<exists>i. ik_ints k p = Some i \<and> \<not> ii_sent i \<and> ii_pair i = Some q)"

definition pair_ok :: "ikst \<Rightarrow> ik_event \<Rightarrow> cptr \<Rightarrow> bool" where
  "pair_ok k e q \<longleftrightarrow>
     (\<exists>j f. ik_ints k q = Some j \<and> \<not> ii_sent j \<and> ii_seen j \<and> ii_pair j = None \<and>
        ik_evs k (ii_event j) = Some f \<and> ke_pair e = Some (ii_event j) \<and> ke_cookie f = ke_cookie e \<and>
        has_bit (ke_mask e) IN_MOVED_FROM \<and> has_bit (ke_mask f) IN_MOVED_TO \<and>
        \<not> has_bit (ke_mask f) IN_MOVED_FROM \<and> ke_cookie e \<noteq> 0)"

definition link1 :: "ikst \<Rightarrow> cptr \<Rightarrow> cptr list \<Rightarrow> bool" where
  "link1 k p ys \<longleftrightarrow>
     (\<forall>i. ik_ints k p = Some i \<longrightarrow> \<not> ii_sent i \<longrightarrow>
        (\<exists>e. ik_evs k (ii_event i) = Some e \<and>
           (case ii_pair i of None \<Rightarrow> ke_pair e = None | Some q \<Rightarrow> ii_seen i \<and> q \<in> set ys \<and> pair_ok k e q)))"

definition linked :: "ikst \<Rightarrow> cptr list \<Rightarrow> bool" where
  "linked k ps \<longleftrightarrow> (\<forall>xs p ys. ps = xs @ p # ys \<longrightarrow> link1 k p ys)"

definition awaits :: "ikst \<Rightarrow> cptr list \<Rightarrow> 32 word \<Rightarrow> cptr \<Rightarrow> bool" where
  "awaits k ps c p \<longleftrightarrow>
     c \<noteq> 0 \<and> p \<in> set ps \<and>
     (\<exists>i e. ik_ints k p = Some i \<and> \<not> ii_sent i \<and> ii_seen i \<and> ii_pair i = None \<and>
        ik_evs k (ii_event i) = Some e \<and> ke_cookie e = c \<and> has_bit (ke_mask e) IN_MOVED_FROM)"

definition ready_event :: "ikst \<Rightarrow> cptr \<Rightarrow> bool" where
  "ready_event k e \<longleftrightarrow>
     (\<exists>ev. ik_evs k e = Some ev \<and>
        (case ke_pair ev of
           None \<Rightarrow> ke_cookie ev \<noteq> 0 \<longrightarrow>
             \<not> has_bit (ke_mask ev) IN_MOVED_FROM \<and> \<not> has_bit (ke_mask ev) IN_MOVED_TO
         | Some f \<Rightarrow> \<exists>fv. ik_evs k f = Some fv \<and> ke_pair fv = None \<and> ke_cookie fv = ke_cookie ev \<and>
             has_bit (ke_mask ev) IN_MOVED_FROM \<and> has_bit (ke_mask fv) IN_MOVED_TO))"

definition ik_inv :: "ikst \<Rightarrow> cptr list \<Rightarrow> bool" where
  "ik_inv k ps \<longleftrightarrow>
     distinct ps \<and> dom (ik_ints k) = set ps \<and>
     distinct (owned k ps @ flat k) \<and> dom (ik_evs k) = set (owned k ps @ flat k) \<and>
     linked k ps \<and> (\<forall>p p' q. target k p q \<longrightarrow> target k p' q \<longrightarrow> p = p') \<and>
     (\<forall>c p. ik_cookies k c = Some p \<longrightarrow> awaits k ps c p) \<and>
     (\<forall>e \<in> set (ik_queue k). ready_event k e) \<and>
     (\<forall>n. n \<in> dom (ik_evs k) \<union> dom (ik_ints k) \<longrightarrow> n < ik_next k)"

text \<open>What was seen by an earlier pass comes before what was not.\<close>

definition is_seen :: "ikst \<Rightarrow> cptr \<Rightarrow> bool" where
  "is_seen k p \<longleftrightarrow> (\<exists>i. ik_ints k p = Some i \<and> ii_seen i)"

definition fresh :: "ikst \<Rightarrow> cptr \<Rightarrow> bool" where
  "fresh k p \<longleftrightarrow> (\<exists>i. ik_ints k p = Some i \<and> \<not> ii_seen i \<and> \<not> ii_sent i \<and> ii_pair i = None)"

definition ik_ok :: "ikst \<Rightarrow> bool" where
  "ik_ok k \<longleftrightarrow> ik_inv k (ik_todo k) \<and>
     (\<exists>xs ys. ik_todo k = xs @ ys \<and> list_all (is_seen k) xs \<and> list_all (fresh k) ys)"

text \<open>What no operation changes of an event.\<close>

definition core :: "ik_event \<Rightarrow> int \<times> 32 word \<times> 32 word \<times> string" where
  "core ev = (ke_wd ev, ke_cookie ev, ke_len ev, ke_name ev)"

definition same_events :: "ikst \<Rightarrow> ikst \<Rightarrow> bool" where
  "same_events k k' \<longleftrightarrow> (\<forall>e. map_option core (ik_evs k' e) = map_option core (ik_evs k e))"

lemma same_events_refl [simp]: "same_events k k"
  by (simp add: same_events_def)

lemma same_events_trans: "same_events k k' \<Longrightarrow> same_events k' k'' \<Longrightarrow> same_events k k''"
  by (simp add: same_events_def)

lemma upd_int_simps [simp]:
  "ik_evs (upd_int p f k) = ik_evs k" "ik_next (upd_int p f k) = ik_next k"
  "ik_todo (upd_int p f k) = ik_todo k" "ik_queue (upd_int p f k) = ik_queue k"
  "ik_cookies (upd_int p f k) = ik_cookies k" "ik_running (upd_int p f k) = ik_running k"
  "ik_ticks (upd_int p f k) = ik_ticks k"
  "ik_ints (upd_int p f k) = (ik_ints k)(p := map_option f (ik_ints k p))"
  by (simp_all add: upd_int_def)

lemma upd_ev_simps [simp]:
  "ik_ints (upd_ev p f k) = ik_ints k" "ik_next (upd_ev p f k) = ik_next k"
  "ik_todo (upd_ev p f k) = ik_todo k" "ik_queue (upd_ev p f k) = ik_queue k"
  "ik_cookies (upd_ev p f k) = ik_cookies k" "ik_running (upd_ev p f k) = ik_running k"
  "ik_ticks (upd_ev p f k) = ik_ticks k"
  "ik_evs (upd_ev p f k) = (ik_evs k)(p := map_option f (ik_evs k p))"
  by (simp_all add: upd_ev_def)

text \<open>The invariant reads five fields only.\<close>

lemma ik_inv_cong:
  assumes "ik_evs k' = ik_evs k" "ik_ints k' = ik_ints k" "ik_queue k' = ik_queue k"
    "ik_cookies k' = ik_cookies k" "ik_next k' = ik_next k"
  shows "ik_inv k' ps = ik_inv k ps"
  unfolding ik_inv_def owned_def own_def [abs_def] flat_def parts_def [abs_def] linked_def link1_def pair_ok_def
    target_def awaits_def ready_event_def assms by (rule refl)

lemma owned_Nil [simp]: "owned k [] = []"
  by (simp add: owned_def)

lemma owned_Cons: "owned k (p # ps) = (case own k p of None \<Rightarrow> owned k ps | Some e \<Rightarrow> e # owned k ps)"
  by (simp add: owned_def List.map_filter_def split: option.splits)

lemma owned_append [simp]: "owned k (ps @ qs) = owned k ps @ owned k qs"
  by (simp add: owned_def List.map_filter_def)

lemma owned_cong: "(\<And>p. p \<in> set ps \<Longrightarrow> own k' p = own k p) \<Longrightarrow> owned k' ps = owned k ps"
  by (simp add: owned_def List.map_filter_def cong: map_cong filter_cong)

lemma owned_memI: "p \<in> set ps \<Longrightarrow> own k p = Some e \<Longrightarrow> e \<in> set (owned k ps)"
  by (induction ps) (auto simp: owned_Cons split: option.splits)

lemma owned_memD: "e \<in> set (owned k ps) \<Longrightarrow> \<exists>p \<in> set ps. own k p = Some e"
  by (induction ps) (auto simp: owned_Cons split: option.splits)

lemma owned_inj:
  assumes "distinct (owned k ps)" "p \<in> set ps" "q \<in> set ps" "own k p = Some e" "own k q = Some e"
  shows "p = q"
  using assms by (induction ps) (auto simp: owned_Cons split: option.splits dest: owned_memI)

lemma own_Some_iff: "own k p = Some e \<longleftrightarrow> (\<exists>i. ik_ints k p = Some i \<and> \<not> ii_sent i \<and> ii_event i = e)"
  by (auto simp: own_def split: option.splits)

lemma flat_memI: "e \<in> set (ik_queue k) \<Longrightarrow> e \<in> set (flat k)"
  by (auto simp: flat_def parts_def)

lemma flat_pairI:
  "e \<in> set (ik_queue k) \<Longrightarrow> ik_evs k e = Some ev \<Longrightarrow> ke_pair ev = Some f \<Longrightarrow> f \<in> set (flat k)"
  by (auto simp: flat_def parts_def intro!: bexI [of _ e])

lemma linkedD: "linked k ps \<Longrightarrow> p \<in> set ps \<Longrightarrow> \<exists>ys. set ys \<subseteq> set ps \<and> link1 k p ys"
  unfolding linked_def by (metis in_set_conv_decomp set_append set_subset_Cons Un_upper2 subset_trans)

lemma linked_Cons: "linked k (p # ps) \<longleftrightarrow> link1 k p ps \<and> linked k ps"
proof
  assume *: "linked k (p # ps)"
  have "link1 k q ys" if "ps = xs @ q # ys" for xs q ys
    using * that unfolding linked_def by (metis append_Cons)
  then show "link1 k p ps \<and> linked k ps"
    using * unfolding linked_def by (metis append_Nil)
next
  assume "link1 k p ps \<and> linked k ps"
  then show "linked k (p # ps)"
    unfolding linked_def by (metis append_eq_Cons_conv list.inject)
qed

lemma linked_Nil [simp]: "linked k []"
  by (simp add: linked_def)

text \<open>Facts of the invariant.\<close>

lemma ik_invD:
  assumes "ik_inv k ps"
  shows "distinct ps" "dom (ik_ints k) = set ps" "distinct (owned k ps)" "distinct (flat k)"
    "set (owned k ps) \<inter> set (flat k) = {}" "dom (ik_evs k) = set (owned k ps) \<union> set (flat k)"
    "linked k ps" "\<And>p p' q. target k p q \<Longrightarrow> target k p' q \<Longrightarrow> p = p'"
    "\<And>c p. ik_cookies k c = Some p \<Longrightarrow> awaits k ps c p"
    "\<And>e. e \<in> set (ik_queue k) \<Longrightarrow> ready_event k e"
    "\<And>n. n \<in> dom (ik_evs k) \<Longrightarrow> n < ik_next k" "\<And>n. n \<in> dom (ik_ints k) \<Longrightarrow> n < ik_next k"
  using assms unfolding ik_inv_def by (auto simp del: Un_iff)

lemma ik_inv_event:
  assumes "ik_inv k ps" "p \<in> set ps" "ik_ints k p = Some i" "\<not> ii_sent i"
  shows "\<exists>e. ik_evs k (ii_event i) = Some e"
proof -
  have "own k p = Some (ii_event i)" using assms by (simp add: own_def)
  then have "ii_event i \<in> dom (ik_evs k)"
    using assms(2) by (simp add: ik_invD(6) [OF assms(1)] owned_memI)
  then show ?thesis by blast
qed

lemma ik_init_ok: "ik_ok ik_init"
  by (simp add: ik_ok_def ik_inv_def ik_init_def flat_def target_def)

section \<open>Pairing keeps the invariant\<close>

lemma ik_inv_seen:
  assumes inv: "ik_inv k ps" and i: "ik_ints k p = Some i"
    and i': "ii_event i' = ii_event i" "ii_sent i' = ii_sent i" "ii_pair i' = ii_pair i" "ii_seen i \<longrightarrow> ii_seen i'"
  shows "ik_inv (k\<lparr>ik_ints := (ik_ints k)(p \<mapsto> i')\<rparr>) ps"
proof -
  let ?k = "k\<lparr>ik_ints := (ik_ints k)(p \<mapsto> i')\<rparr>"
  have own: "own ?k q = own k q" for q using i i' by (simp add: own_def)
  have owned: "owned ?k qs = owned k qs" for qs by (rule owned_cong) (rule own)
  have flat: "flat ?k = flat k" by (simp add: flat_def parts_def [abs_def])
  have tgt: "target ?k a b = target k a b" for a b using i i' by (auto simp: target_def)
  have pok: "pair_ok k e q \<Longrightarrow> pair_ok ?k e q" for e q using i i' by (auto simp: pair_ok_def)
  have l1: "link1 k q ys \<Longrightarrow> link1 ?k q ys" for q ys
    using i i' by (fastforce simp: link1_def intro: pok split: option.splits if_splits)
  have w: "awaits k ps c q \<Longrightarrow> awaits ?k ps c q" for c q using i i' by (auto simp: awaits_def)
  have r: "ready_event ?k e = ready_event k e" for e by (simp add: ready_event_def cong: option.case_cong)
  have d: "dom (ik_ints ?k) = dom (ik_ints k)" using i by auto
  show ?thesis
    using inv unfolding ik_inv_def owned flat tgt r d linked_def by (auto intro: l1 w)
qed

lemma ik_inv_pair:
  assumes inv: "ik_inv k ps" and ps: "ps = xs @ p # ys" "m \<in> set xs"
    and i: "ik_ints k m = Some i" "\<not> ii_sent i" "ii_seen i" "ii_pair i = None"
    and e: "ik_evs k (ii_event i) = Some e" "ke_cookie e = c" "has_bit (ke_mask e) IN_MOVED_FROM" "c \<noteq> 0"
    and j: "ik_ints k p = Some j" "\<not> ii_sent j" "ii_seen j" "ii_pair j = None"
    and f: "ik_evs k (ii_event j) = Some f" "ke_cookie f = c" "has_bit (ke_mask f) IN_MOVED_TO"
      "\<not> has_bit (ke_mask f) IN_MOVED_FROM"
    and nt: "\<And>r. \<not> target k r p"
  shows "ik_inv (k\<lparr>ik_ints := (ik_ints k)(m \<mapsto> i\<lparr>ii_pair := Some p, ii_hold := h\<rparr>),
                   ik_evs := (ik_evs k)(ii_event i \<mapsto> e\<lparr>ke_pair := Some (ii_event j)\<rparr>),
                   ik_cookies := (ik_cookies k)(c := None)\<rparr>) ps"
    (is "ik_inv ?k ps")
proof -
  note D = ik_invD [OF inv]
  have mp: "m \<noteq> p" using ps D(1) by auto
  have own: "own ?k q = own k q" for q using i by (simp add: own_def)
  have owned: "owned ?k qs = owned k qs" for qs by (rule owned_cong) (rule own)
  have om: "own k m = Some (ii_event i)" using i by (simp add: own_def)
  have mem: "m \<in> set ps" using ps by simp
  have diff: "ii_event a \<noteq> ii_event i" if "ik_ints k q = Some a" "\<not> ii_sent a" "q \<noteq> m" for a q
  proof
    assume "ii_event a = ii_event i"
    then have "own k q = Some (ii_event i)" using that by (simp add: own_def)
    moreover have "q \<in> set ps" using that(1) D(2) by blast
    ultimately show False using owned_inj [OF D(3) _ mem _ om] that(3) by blast
  qed
  have nf: "ii_event i \<notin> set (flat k)" using owned_memI [OF mem om] D(5) by blast
  have evq: "ik_evs ?k a = ik_evs k a" if "a \<in> set (flat k)" for a using that nf by auto
  have flat: "flat ?k = flat k"
    by (simp add: flat_def) (rule arg_cong [of _ _ concat], rule map_cong [OF refl],
      use nf in \<open>auto simp: parts_def flat_memI\<close>)
  have dome: "dom (ik_evs ?k) = dom (ik_evs k)" using e by auto
  have domi: "dom (ik_ints ?k) = dom (ik_ints k)" using i by auto
  have pok: "pair_ok ?k a q" if "pair_ok k a q" for a q
  proof -
    have "q \<noteq> m" using that i e by (auto simp: pair_ok_def)
    then show ?thesis using that by (auto simp: pair_ok_def dest: diff)
  qed
  have pm: "pair_ok ?k (e\<lparr>ke_pair := Some (ii_event j)\<rparr>) p"
    using mp j f e diff [OF j(1,2)] by (auto simp: pair_ok_def)
  have l1: "link1 ?k q zs" if "ps = ws @ q # zs" for q ws zs
  proof (cases "q = m")
    case True
    have "p \<in> set zs"
      using that ps True D(1) by (auto simp: append_eq_append_conv2 append_eq_Cons_conv Cons_eq_append_conv)
    then show ?thesis using True i e pm by (simp add: link1_def)
  next
    case False
    have "link1 k q zs" using D(7) that unfolding linked_def by blast
    then show ?thesis using False
      by (fastforce simp: link1_def intro: pok dest: diff split: option.splits)
  qed
  have tgt: "target ?k a b \<longleftrightarrow> target k a b \<or> a = m \<and> b = p" for a b
    using i by (auto simp: target_def)
  have t: "target ?k a b \<Longrightarrow> target ?k a' b \<Longrightarrow> a = a'" for a a' b
    unfolding tgt using D(8) nt by blast
  have w: "awaits ?k ps c' q" if "((ik_cookies k)(c := None)) c' = Some q" for c' q
  proof -
    have "c' \<noteq> c" "awaits k ps c' q" using that D(9) by (auto split: if_splits)
    moreover from this have "q \<noteq> m" using i e by (auto simp: awaits_def)
    ultimately show ?thesis by (auto simp: awaits_def dest: diff)
  qed
  have r: "ready_event ?k a" if "a \<in> set (ik_queue k)" for a
  proof -
    have re: "ready_event k a" using D(10) that by blast
    then obtain ev where ev: "ik_evs k a = Some ev" by (auto simp: ready_event_def)
    have "ik_evs ?k a = ik_evs k a" using evq flat_memI [OF that] by blast
    moreover have "ik_evs ?k g = ik_evs k g" if "ke_pair ev = Some g" for g
      using evq flat_pairI [OF \<open>a \<in> set (ik_queue k)\<close> ev that] by blast
    ultimately show ?thesis using re ev by (auto simp: ready_event_def split: option.splits)
  qed
  show ?thesis
    unfolding ik_inv_def
  proof (intro conjI)
    show "linked ?k ps" unfolding linked_def using l1 by blast
    show "\<forall>a a' b. target ?k a b \<longrightarrow> target ?k a' b \<longrightarrow> a = a'" using t by blast
    show "\<forall>c' q. ik_cookies ?k c' = Some q \<longrightarrow> awaits ?k ps c' q" using w by simp
    show "\<forall>a\<in>set (ik_queue ?k). ready_event ?k a" using r by simp
    show "\<forall>n. n \<in> dom (ik_evs ?k) \<union> dom (ik_ints ?k) \<longrightarrow> n < ik_next ?k"
      unfolding dome domi using D(11,12) by auto
    show "distinct (owned ?k ps @ flat ?k)" unfolding owned flat using D(3,4,5) by simp
    show "dom (ik_evs ?k) = set (owned ?k ps @ flat ?k)" unfolding owned flat dome D(6) by simp
  qed (use D(1,2) domi in auto)
qed

lemma same_events_pair:
  "ik_evs k a = Some e \<Longrightarrow> same_events k (k\<lparr>ik_ints := t, ik_evs := (ik_evs k)(a \<mapsto> e\<lparr>ke_pair := b\<rparr>), ik_cookies := h\<rparr>)"
  by (auto simp: same_events_def core_def)

section \<open>A pass over the queue\<close>

text \<open>What the pass leaves alone.\<close>

definition keeps :: "ikst \<Rightarrow> ikst \<Rightarrow> bool" where
  "keeps k k' \<longleftrightarrow> (\<forall>p. own k' p = own k p) \<and> flat k' = flat k \<and> ik_queue k' = ik_queue k \<and>
     ik_todo k' = ik_todo k \<and> ik_running k' = ik_running k \<and> ik_ticks k' = ik_ticks k \<and> same_events k k'"

lemma keeps_refl [simp]: "keeps k k"
  by (simp add: keeps_def)

lemma keeps_trans: "keeps k k' \<Longrightarrow> keeps k' k'' \<Longrightarrow> keeps k k''"
  by (auto simp: keeps_def intro: same_events_trans)

lemma is_seen_mono:
  "is_seen k q \<Longrightarrow> (\<And>i. ik_ints k q = Some i \<Longrightarrow> ii_seen i \<Longrightarrow> \<exists>i'. ik_ints k' q = Some i' \<and> ii_seen i') \<Longrightarrow> is_seen k' q"
  by (auto simp: is_seen_def)

lemma fresh_not_target:
  assumes inv: "ik_inv k ps" and fr: "fresh k p"
  shows "\<not> target k r p"
proof
  assume "target k r p"
  then obtain i where i: "ik_ints k r = Some i" "\<not> ii_sent i" "ii_pair i = Some p" by (auto simp: target_def)
  then have "r \<in> set ps" using ik_invD(2) [OF inv] by blast
  then obtain ys where "link1 k r ys" using linkedD [OF ik_invD(7) [OF inv]] by blast
  then have "\<exists>e. pair_ok k e p" using i by (auto simp: link1_def)
  then show False using fr by (auto simp: pair_ok_def fresh_def)
qed

lemma ik_pair_moves_step:
  assumes inv: "ik_inv k ps" and ps: "ps = xs @ p # ys"
    and seen: "list_all (is_seen k) xs" and fr: "fresh k p" and ys: "list_all (fresh k) ys"
  shows "\<exists>k'. ik_pair_moves p k = Some k' \<and> ik_inv k' ps \<and> keeps k k' \<and>
           list_all (is_seen k') (xs @ [p]) \<and> list_all (fresh k') ys"
proof -
  note D = ik_invD [OF inv]
  obtain j where j: "ik_ints k p = Some j" "\<not> ii_seen j" "\<not> ii_sent j" "ii_pair j = None"
    using fr by (auto simp: fresh_def)
  obtain e where e: "ik_evs k (ii_event j) = Some e"
    using ik_inv_event [OF inv _ j(1,3)] ps by auto
  have dist: "p \<notin> set xs" "p \<notin> set ys" "set xs \<inter> set ys = {}" using D(1) ps by auto
  let ?s = "\<lambda>j. (ik_ints k)(p \<mapsto> j\<lparr>ii_seen := True\<rparr>)"
  let ?ks = "k\<lparr>ik_ints := ?s j\<rparr>"
  have sx: "list_all (is_seen k') (xs @ [p])"
    if "\<And>q. q \<noteq> p \<Longrightarrow> is_seen k q \<Longrightarrow> is_seen k' q" "is_seen k' p" for k'
    using that seen dist by (auto simp: list_all_iff) metis
  have fy: "list_all (fresh k') ys" if "\<And>q. q \<in> set ys \<Longrightarrow> fresh k q \<Longrightarrow> fresh k' q" for k'
    using that ys by (auto simp: list_all_iff)
  have inv_s: "ik_inv (k\<lparr>ik_ints := (ik_ints k)(p \<mapsto> j')\<rparr>) ps"
    if "ii_event j' = ii_event j" "ii_sent j' = ii_sent j" "ii_pair j' = ii_pair j" "ii_seen j'" for j'
    by (rule ik_inv_seen [OF inv j(1)]) (use that in auto)
  consider (plain) "ke_cookie e = 0 \<or> \<not> has_bit (ke_mask e) IN_MOVED_FROM \<and>
        (has_bit (ke_mask e) IN_MOVED_TO \<longrightarrow> ik_cookies k (ke_cookie e) = None)"
    | (mfrom) "ke_cookie e \<noteq> 0" "has_bit (ke_mask e) IN_MOVED_FROM"
    | (match) m where "ke_cookie e \<noteq> 0" "\<not> has_bit (ke_mask e) IN_MOVED_FROM" "has_bit (ke_mask e) IN_MOVED_TO"
        "ik_cookies k (ke_cookie e) = Some m"
    by (cases "ik_cookies k (ke_cookie e)") blast+
  then show ?thesis
  proof cases
    case plain
    then have "ik_pair_moves p k = Some (upd_int p (\<lambda>i. i\<lparr>ii_seen := True\<rparr>) k)"
      using j e by (auto simp: ik_pair_moves_def)
    moreover have "upd_int p (\<lambda>i. i\<lparr>ii_seen := True\<rparr>) k = ?ks" using j by (simp add: upd_int_def)
    moreover have "keeps k ?ks"
      using j by (auto simp: keeps_def own_def flat_def parts_def [abs_def] same_events_def)
    moreover have "list_all (is_seen ?ks) (xs @ [p])" by (rule sx) (auto simp: is_seen_def)
    moreover have "list_all (fresh ?ks) ys" by (rule fy) (use dist in \<open>auto simp: fresh_def\<close>)
    ultimately show ?thesis using inv_s [of "j\<lparr>ii_seen := True\<rparr>"] by simp
  next
    case mfrom
    define j' where "j' = j\<lparr>ii_hold := g_time_val_add (ii_hold j) MOVE_HOLD_UNTIL_TIME, ii_seen := True\<rparr>"
    define k1 where "k1 = k\<lparr>ik_ints := (ik_ints k)(p \<mapsto> j')\<rparr>"
    define k2 where "k2 = k1\<lparr>ik_cookies := (ik_cookies k)(ke_cookie e \<mapsto> p)\<rparr>"
    have run: "ik_pair_moves p k = Some k2"
      using j e mfrom by (simp add: ik_pair_moves_def ik_event_add_microseconds_def upd_int_def k2_def k1_def j'_def)
    have i1: "ik_inv k1 ps" unfolding k1_def by (rule inv_s) (simp_all add: j'_def)
    have w: "awaits k2 ps c q = awaits k1 ps c q" for c q by (simp add: awaits_def k2_def)
    have wp: "awaits k1 ps (ke_cookie e) p" using j e mfrom ps by (auto simp: awaits_def k1_def j'_def)
    have same: "owned k2 ps = owned k1 ps" "flat k2 = flat k1" "linked k2 ps = linked k1 ps"
      "\<And>a b. target k2 a b = target k1 a b" "\<And>a. ready_event k2 a = ready_event k1 a"
      by (simp_all add: k2_def owned_def own_def [abs_def] flat_def parts_def [abs_def] linked_def link1_def
          pair_ok_def target_def ready_event_def cong: option.case_cong)
    have dom: "ik_ints k2 = ik_ints k1" "ik_evs k2 = ik_evs k1" "ik_queue k2 = ik_queue k1" "ik_next k2 = ik_next k1"
      by (simp_all add: k2_def)
    have ck: "\<forall>c q. ik_cookies k2 c = Some q \<longrightarrow> awaits k1 ps c q"
      using ik_invD(9) [OF i1] wp by (auto simp: k2_def k1_def split: if_splits)
    have "ik_inv k2 ps" using i1 ck unfolding ik_inv_def same dom w by blast
    moreover have "keeps k k2"
      using j by (auto simp: keeps_def own_def flat_def parts_def [abs_def] same_events_def k2_def k1_def j'_def)
    moreover have "list_all (is_seen k2) (xs @ [p])" by (rule sx) (auto simp: is_seen_def k2_def k1_def j'_def)
    moreover have "list_all (fresh k2) ys" by (rule fy) (use dist in \<open>auto simp: fresh_def k2_def k1_def j'_def\<close>)
    ultimately show ?thesis using run by blast
  next
    case (match m)
    have w: "awaits k ps (ke_cookie e) m" using D(9) match by blast
    then obtain i f where i: "ik_ints k m = Some i" "\<not> ii_sent i" "ii_seen i" "ii_pair i = None"
        and f: "ik_evs k (ii_event i) = Some f" "ke_cookie f = ke_cookie e" "has_bit (ke_mask f) IN_MOVED_FROM"
      by (auto simp: awaits_def)
    have "\<not> fresh k m" using i by (simp add: fresh_def)
    then have mxs: "m \<in> set xs" using w ps fr ys by (auto simp: awaits_def list_all_iff)
    then have mp: "m \<noteq> p" "m \<notin> set ys" using dist by auto
    have ne: "ii_event i \<noteq> ii_event j" using f match e by auto
    define h where "h = (if g_timeval_lt (ii_hold i) (ii_hold j) then ii_hold j else ii_hold i)"
    define j' where "j' = j\<lparr>ii_hold := h, ii_seen := True\<rparr>"
    define k1 where "k1 = k\<lparr>ik_ints := (ik_ints k)(p \<mapsto> j')\<rparr>"
    define k2 where "k2 = k1\<lparr>ik_ints := (ik_ints k1)(m \<mapsto> i\<lparr>ii_pair := Some p, ii_hold := h\<rparr>),
          ik_evs := (ik_evs k1)(ii_event i \<mapsto> f\<lparr>ke_pair := Some (ii_event j)\<rparr>),
          ik_cookies := (ik_cookies k1)(ke_cookie e := None)\<rparr>"
    have run: "ik_pair_moves p k = Some k2"
      using j e match i f mp ne
      by (simp add: ik_pair_moves_def ik_pair_events_def upd_int_def upd_ev_def k2_def k1_def j'_def h_def
          fun_upd_twist del: fun_upd_apply) (auto simp: fun_eq_iff)
    have nt: "\<not> target k1 r p" for r
      using fresh_not_target [OF inv fr, of r] j by (auto simp: target_def k1_def j'_def)
    have i1: "ik_inv k1 ps" unfolding k1_def by (rule inv_s) (simp_all add: j'_def)
    have "ik_inv k2 ps"
      unfolding k2_def using ik_inv_pair [OF i1 ps mxs, of i f "ke_cookie e" j' e h] i f j e match mp nt
      by (simp add: k1_def j'_def)
    moreover have "keeps k k2"
    proof -
      have nf: "ii_event i \<notin> set (flat k)"
        using owned_memI [of m ps k "ii_event i"] w D(5) i by (auto simp: own_def awaits_def)
      have "flat k2 = flat k"
        by (simp add: flat_def k2_def k1_def) (rule arg_cong [of _ _ concat], rule map_cong [OF refl],
          use nf in \<open>auto simp: parts_def flat_memI\<close>)
      then show ?thesis
        using j i f by (auto simp: keeps_def own_def same_events_def core_def k2_def k1_def j'_def)
    qed
    moreover have "list_all (is_seen k2) (xs @ [p])"
      by (rule sx) (use i mp in \<open>auto simp: is_seen_def k2_def k1_def j'_def\<close>)
    moreover have "list_all (fresh k2) ys" by (rule fy) (use dist mp in \<open>auto simp: fresh_def k2_def k1_def j'_def\<close>)
    ultimately show ?thesis using run by blast
  qed
qed

lemma ik_pair_moves_seen: "is_seen k p \<Longrightarrow> ik_pair_moves p k = Some k"
  by (auto simp: is_seen_def ik_pair_moves_def)

lemma ik_pair_all_seen: "list_all (is_seen k) ps \<Longrightarrow> ik_pair_all (ps @ qs) k = ik_pair_all qs k"
  by (induction ps) (auto simp: ik_pair_moves_seen)

lemma ik_pair_all_fresh:
  "ik_inv k ps \<Longrightarrow> ps = xs @ ys \<Longrightarrow> list_all (is_seen k) xs \<Longrightarrow> list_all (fresh k) ys \<Longrightarrow>
     \<exists>k'. ik_pair_all ys k = Some k' \<and> ik_inv k' ps \<and> keeps k k' \<and> list_all (is_seen k') ps"
proof (induction ys arbitrary: k xs)
  case (Cons p ys)
  obtain k1 where k1: "ik_pair_moves p k = Some k1" "ik_inv k1 ps" "keeps k k1"
      "list_all (is_seen k1) (xs @ [p])" "list_all (fresh k1) ys"
    using ik_pair_moves_step [OF Cons.prems(1,2,3)] Cons.prems(4) by auto
  obtain k2 where "ik_pair_all ys k1 = Some k2" "ik_inv k2 ps" "keeps k1 k2" "list_all (is_seen k2) ps"
    using Cons.IH [OF k1(2) _ k1(4,5)] Cons.prems(2) by auto
  then show ?case using k1(1,3) by (auto intro: keeps_trans)
qed auto

lemma ik_pair_all_ok:
  assumes "ik_ok k"
  shows "\<exists>k'. ik_pair_all (ik_todo k) k = Some k' \<and> ik_inv k' (ik_todo k) \<and> keeps k k' \<and>
           list_all (is_seen k') (ik_todo k)"
proof -
  obtain xs ys where "ik_todo k = xs @ ys" "list_all (is_seen k) xs" "list_all (fresh k) ys"
    using assms by (auto simp: ik_ok_def)
  then show ?thesis
    using ik_pair_all_fresh [of k "ik_todo k" xs ys] assms by (auto simp: ik_ok_def ik_pair_all_seen)
qed

section \<open>Handing events on\<close>

lemma ik_inv_drop_sent:
  assumes inv: "ik_inv k (p # ps)" and i: "ik_ints k p = Some i" "ii_sent i"
  shows "ik_inv (k\<lparr>ik_ints := (ik_ints k)(p := None)\<rparr>) ps" (is "ik_inv ?k ps")
    "owned (k\<lparr>ik_ints := (ik_ints k)(p := None)\<rparr>) ps = owned k (p # ps)"
proof -
  note D = ik_invD [OF inv]
  have p: "p \<notin> set ps" using D(1) by simp
  have own: "own ?k q = own k q" for q using i by (simp add: own_def)
  have op: "own k p = None" using i by (simp add: own_def)
  show ow: "owned ?k ps = owned k (p # ps)" by (simp add: owned_Cons op) (rule owned_cong, rule own)
  have tgt: "target ?k a b \<longleftrightarrow> target k a b" for a b using i by (auto simp: target_def)
  have pok: "pair_ok k e q \<Longrightarrow> pair_ok ?k e q" for e q using i by (auto simp: pair_ok_def)
  have "link1 ?k q ys" if "link1 k q ys" for q ys
    using that by (fastforce simp: link1_def intro: pok split: option.splits)
  then have l: "linked ?k ps" using D(7) unfolding linked_Cons by (auto simp: linked_def)
  have w: "awaits ?k ps c q" if "awaits k (p # ps) c q" for c q using that i by (auto simp: awaits_def)
  have same: "flat ?k = flat k" "\<And>e. ready_event ?k e = ready_event k e"
    by (simp_all add: flat_def parts_def [abs_def] ready_event_def cong: option.case_cong)
  show "ik_inv ?k ps"
    unfolding ik_inv_def same ow
  proof (intro conjI)
    show "dom (ik_ints ?k) = set ps" using D(2) p by auto
    show "\<forall>n. n \<in> dom (ik_evs ?k) \<union> dom (ik_ints ?k) \<longrightarrow> n < ik_next ?k" using D(11,12) by auto
    show "\<forall>a a' b. target ?k a b \<longrightarrow> target ?k a' b \<longrightarrow> a = a'" unfolding tgt using D(8) by blast
    show "\<forall>c q. ik_cookies ?k c = Some q \<longrightarrow> awaits ?k ps c q" using w D(9) by simp
  qed (use D l in \<open>auto\<close>)
qed

text \<open>The state after the head \<open>p\<close> was handed on, together with its pair when it has one.\<close>

definition handed_on :: "ikst \<Rightarrow> cptr \<Rightarrow> ik_internal \<Rightarrow> ik_event \<Rightarrow> ikst \<Rightarrow> bool" where
  "handed_on k p i e k' \<longleftrightarrow>
     ik_evs k' = (ik_evs k)(ii_event i \<mapsto> e) \<and>
     ik_ints k' = (case ii_pair i of None \<Rightarrow> ik_ints k
                   | Some q \<Rightarrow> (ik_ints k)(q := map_option (\<lambda>j. j\<lparr>ii_sent := True\<rparr>) (ik_ints k q)))(p := None) \<and>
     ik_queue k' = ik_queue k @ [ii_event i] \<and>
     (\<forall>c r. ik_cookies k' c = Some r \<longrightarrow> ik_cookies k c = Some r \<and> r \<noteq> p) \<and>
     ik_next k' = ik_next k \<and> ik_running k' = ik_running k"

lemma handed_on_inv:
  assumes inv: "ik_inv k (p # ps)" and i: "ik_ints k p = Some i" "\<not> ii_sent i"
    and e: "ik_evs k (ii_event i) = Some e" and k': "handed_on k p i e' k'"
    and e': "core e' = core e" "ke_pair e' = ke_pair e" "ii_pair i \<noteq> None \<longrightarrow> e' = e"
      "ii_pair i = None \<longrightarrow> ke_cookie e \<noteq> 0 \<longrightarrow> \<not> has_bit (ke_mask e') IN_MOVED_FROM \<and> \<not> has_bit (ke_mask e') IN_MOVED_TO"
  shows "ik_inv k' ps \<and> mset (owned k' ps) + mset (flat k') = mset (owned k (p # ps)) + mset (flat k) \<and>
    (\<forall>r. r \<noteq> p \<longrightarrow> is_seen k r \<longrightarrow> is_seen k' r) \<and> same_events k k'"
proof -
  note D = ik_invD [OF inv]
  have p: "p \<notin> set ps" "distinct ps" using D(1) by auto
  have op: "own k p = Some (ii_event i)" using i by (simp add: own_def)
  have ck: "ke_cookie e' = ke_cookie e" using e'(1) by (simp add: core_def)
  have l1: "link1 k p ps" and lp: "linked k ps" using D(7) by (simp_all add: linked_Cons)
  have evs: "ik_evs k' = (ik_evs k)(ii_event i \<mapsto> e')" and q': "ik_queue k' = ik_queue k @ [ii_event i]"
    and nx: "ik_next k' = ik_next k" and cks: "\<And>c r. ik_cookies k' c = Some r \<Longrightarrow> ik_cookies k c = Some r \<and> r \<noteq> p"
    using k' by (auto simp: handed_on_def)
  have ints: "ik_ints k' = (case ii_pair i of None \<Rightarrow> ik_ints k
                   | Some q \<Rightarrow> (ik_ints k)(q := map_option (\<lambda>j. j\<lparr>ii_sent := True\<rparr>) (ik_ints k q)))(p := None)"
    using k' by (simp add: handed_on_def)
  have diff: "ii_event a \<noteq> ii_event i" if "ik_ints k q = Some a" "\<not> ii_sent a" "q \<noteq> p" for a q
  proof
    assume "ii_event a = ii_event i"
    then have "own k q = Some (ii_event i)" using that by (simp add: own_def)
    moreover have "q \<in> set (p # ps)" using that(1) D(2) by blast
    ultimately show False using owned_inj [OF D(3), of q p] op that(3) by auto
  qed
  have nf: "ii_event i \<notin> set (flat k)" using owned_memI [of p "p # ps" k "ii_event i"] op D(5) by auto
  have other: "ik_ints k' r = Some j'"
    if "ik_ints k r = Some j'" "r \<noteq> p" "ii_pair i \<noteq> Some r" for r j'
    using that by (auto simp: ints split: option.splits)
  have bk: "ik_ints k' r = Some j' \<Longrightarrow> \<not> ii_sent j' \<Longrightarrow> ik_ints k r = Some j' \<and> r \<noteq> p \<and> ii_pair i \<noteq> Some r" for r j'
    by (auto simp: ints split: option.splits if_splits)
  have tgt: "target k' a b \<Longrightarrow> target k a b \<and> a \<noteq> p" for a b using bk by (auto simp: target_def)
  have notq: "ii_pair i \<noteq> Some b" if "target k a b" "a \<noteq> p" for a b
    using D(8) [OF that(1), of p] that(2) i by (auto simp: target_def)
  have lk: "link1 k' r ys" if l: "link1 k r ys" "set ys \<subseteq> set ps" for r ys
    unfolding link1_def
  proof (intro allI impI)
    fix a assume a: "ik_ints k' r = Some a" "\<not> ii_sent a"
    have b: "ik_ints k r = Some a" "r \<noteq> p" using bk [OF a] by auto
    obtain g where g: "ik_evs k (ii_event a) = Some g"
        "case ii_pair a of None \<Rightarrow> ke_pair g = None | Some q \<Rightarrow> ii_seen a \<and> q \<in> set ys \<and> pair_ok k g q"
      using l(1) b a(2) by (auto simp: link1_def)
    have "pair_ok k' g q" if "ii_pair a = Some q" "q \<in> set ys" "pair_ok k g q" for q
    proof -
      have "q \<noteq> p" using that(2) l(2) p(1) by auto
      moreover have "ii_pair i \<noteq> Some q" using notq [of r q] that(1) b a(2) by (auto simp: target_def)
      ultimately show ?thesis using that(3) other diff unfolding pair_ok_def evs by fastforce
    qed
    then show "\<exists>e. ik_evs k' (ii_event a) = Some e \<and>
        (case ii_pair a of None \<Rightarrow> ke_pair e = None | Some q \<Rightarrow> ii_seen a \<and> q \<in> set ys \<and> pair_ok k' e q)"
      using g diff [OF b(1) a(2) b(2)] by (auto simp: evs split: option.splits)
  qed
  have linked': "linked k' ps"
    using lp unfolding linked_def by (metis lk set_append set_subset_Cons Un_upper2 subset_trans)
  have w: "awaits k' ps c r" if "ik_cookies k' c = Some r" for c r
  proof -
    have wr: "awaits k (p # ps) c r" "r \<noteq> p" using D(9) cks that by blast+
    moreover have "ii_pair i \<noteq> Some r"
      using l1 i e wr by (auto simp: link1_def pair_ok_def awaits_def)
    ultimately show ?thesis using other diff unfolding awaits_def evs by fastforce
  qed
  have evq: "ik_evs k' a = ik_evs k a" if "a \<in> set (flat k)" for a using that nf by (auto simp: evs)
  have rd: "ready_event k' a" if "a \<in> set (ik_queue k)" for a
  proof -
    have re: "ready_event k a" using D(10) that by blast
    then obtain ev where ev: "ik_evs k a = Some ev" by (auto simp: ready_event_def)
    have "ik_evs k' a = ik_evs k a" using evq flat_memI [OF that] by blast
    moreover have "ik_evs k' g = ik_evs k g" if "ke_pair ev = Some g" for g
      using evq flat_pairI [OF \<open>a \<in> set (ik_queue k)\<close> ev that] by blast
    ultimately show ?thesis using re ev by (auto simp: ready_event_def split: option.splits)
  qed
  have parts_same: "concat (map (parts k') (ik_queue k)) = flat k"
    unfolding flat_def by (rule arg_cong [of _ _ concat], rule map_cong [OF refl])
      (simp add: parts_def evq flat_memI)
  have flat': "flat k' = flat k @ parts k' (ii_event i)"
    using parts_same by (simp add: flat_def q')
  have se: "same_events k k'" using e e'(1) by (auto simp: same_events_def evs)
  have seen: "is_seen k' r" if "r \<noteq> p" "is_seen k r" for r
    using that by (auto simp: is_seen_def ints split: option.splits)
  have doms: "dom (ik_ints k') = set ps"
    using D(2) p(1) l1 i e by (auto simp: ints link1_def pair_ok_def split: option.splits)
  have dome: "dom (ik_evs k') = dom (ik_evs k)" using e by (auto simp: evs)
  have main: "ready_event k' (ii_event i) \<and>
      mset (owned k (p # ps)) = mset (owned k' ps) + mset (parts k' (ii_event i))"
  proof (cases "ii_pair i")
    case None
    have ow: "owned k' ps = owned k ps"
      by (rule owned_cong) (use p None in \<open>auto simp: own_def ints\<close>)
    have pe: "ke_pair e' = None" using l1 i e e'(2) None by (auto simp: link1_def)
    then have "ready_event k' (ii_event i)" using e'(4) None ck by (auto simp: ready_event_def evs)
    moreover have "parts k' (ii_event i) = [ii_event i]" using pe by (simp add: parts_def evs)
    ultimately show ?thesis using op ow by (simp add: owned_Cons)
  next
    case (Some q)
    have e'e: "e' = e" using e'(3) Some by simp
    have q: "q \<in> set ps" "pair_ok k e q" using l1 i e Some by (auto simp: link1_def)
    then obtain j f where j: "ik_ints k q = Some j" "\<not> ii_sent j" "ii_pair j = None"
        and f: "ik_evs k (ii_event j) = Some f" "ke_pair e = Some (ii_event j)" "ke_cookie f = ke_cookie e"
          "has_bit (ke_mask e) IN_MOVED_FROM" "has_bit (ke_mask f) IN_MOVED_TO"
      by (auto simp: pair_ok_def)
    have qp: "q \<noteq> p" using q(1) p(1) by auto
    have df: "ii_event j \<noteq> ii_event i" using diff [OF j(1,2) qp] .
    obtain zs where "link1 k q zs" using linkedD [OF lp q(1)] by blast
    then have pf: "ke_pair f = None" using j f by (auto simp: link1_def)
    have rdy: "ready_event k' (ii_event i)" using f pf df e'e by (auto simp: ready_event_def evs)
    obtain us bs where ps: "ps = us @ q # bs" using q(1) by (auto simp: in_set_conv_decomp)
    have ab: "q \<notin> set us" "q \<notin> set bs" "p \<notin> set us" "p \<notin> set bs" using p ps by auto
    have "own k' r = own k r" if "r \<noteq> q" "r \<noteq> p" for r using that Some by (simp add: own_def ints)
    then have "owned k' us = owned k us" "owned k' bs = owned k bs" by (metis ab owned_cong)+
    moreover have "own k' q = None" "own k q = Some (ii_event j)" using Some j qp by (simp_all add: own_def ints)
    ultimately have "mset (owned k ps) = mset (owned k' ps) + {#ii_event j#}"
      by (simp add: ps owned_Cons)
    then show ?thesis using rdy f e'e op by (simp add: owned_Cons parts_def evs)
  qed
  have ms: "mset (owned k' ps) + mset (flat k') = mset (owned k (p # ps)) + mset (flat k)"
    using main by (simp add: flat')
  have both: "mset (owned k' ps @ flat k') = mset (owned k (p # ps) @ flat k)" using ms by simp
  have "ik_inv k' ps"
    unfolding ik_inv_def
  proof (intro conjI)
    show "distinct (owned k' ps @ flat k')"
      using mset_eq_imp_distinct_iff [OF both] D(3,4,5) by simp
    show "dom (ik_evs k') = set (owned k' ps @ flat k')"
      using mset_eq_setD [OF both] D(6) dome by simp
    show "\<forall>a a' b. target k' a b \<longrightarrow> target k' a' b \<longrightarrow> a = a'" using tgt D(8) by blast
    show "\<forall>a\<in>set (ik_queue k'). ready_event k' a" using rd main by (auto simp: q')
    show "\<forall>n. n \<in> dom (ik_evs k') \<union> dom (ik_ints k') \<longrightarrow> n < ik_next k'"
      unfolding dome doms nx using D(2,11,12) by auto
  qed (use p linked' w doms in auto)
  then show ?thesis using ms seen se by blast
qed

lemma bit_out [simp]:
  "\<not> has_bit (IN_DELETE OR (m AND IN_ISDIR)) IN_MOVED_FROM" "\<not> has_bit (IN_DELETE OR (m AND IN_ISDIR)) IN_MOVED_TO"
  "\<not> has_bit (IN_CREATE OR (m AND IN_ISDIR)) IN_MOVED_FROM" "\<not> has_bit (IN_CREATE OR (m AND IN_ISDIR)) IN_MOVED_TO"
  by (simp_all add: has_bit_def in_defs word_ao_dist and.assoc)

lemma ik_unpaired_mask:
  assumes "ik_unpaired e k = (m, k')"
  shows "\<not> has_bit m IN_MOVED_FROM" "\<not> has_bit m IN_MOVED_TO" "\<exists>n. k' = k\<lparr>ik_misses := n\<rparr>"
  using assms by (auto simp: ik_unpaired_def split: if_splits intro: exI [of _ "ik_misses k"])

lemma ik_send_one_runs:
  assumes inv: "ik_inv k (p # ps)" and i: "ik_ints k p = Some i" "\<not> ii_sent i"
  obtains k' e e' where "ik_send_one p k = Some k'" "ik_evs k (ii_event i) = Some e" "handed_on k p i e' k'"
    "core e' = core e" "ke_pair e' = ke_pair e" "ii_pair i \<noteq> None \<longrightarrow> e' = e"
    "ii_pair i = None \<longrightarrow> ke_cookie e \<noteq> 0 \<longrightarrow>
       \<not> has_bit (ke_mask e') IN_MOVED_FROM \<and> \<not> has_bit (ke_mask e') IN_MOVED_TO" "ik_ticks k' = ik_ticks k"
proof -
  note res = that
  note D = ik_invD [OF inv]
  obtain e where e: "ik_evs k (ii_event i) = Some e" using ik_inv_event [OF inv _ i] by auto
  have wp: "ke_cookie e = c" "ii_pair i = None" if "ik_cookies k c = Some p" for c
    using D(9) [OF that] i e by (auto simp: awaits_def)
  define k1 where "k1 = (if ke_cookie e \<noteq> 0 \<and> ii_pair i = None \<and> ik_cookies k (ke_cookie e) \<noteq> None
             then k\<lparr>ik_cookies := (ik_cookies k)(ke_cookie e := None)\<rparr> else k)"
  have ck: "ik_cookies k c = Some r \<and> r \<noteq> p" if "ik_cookies k1 c = Some r" "ke_cookie e \<noteq> 0 \<or> ii_pair i \<noteq> None" for c r
    using that wp [of c] by (auto simp: k1_def split: if_splits)
  have k1: "ik_evs k1 = ik_evs k" "ik_ints k1 = ik_ints k" "ik_queue k1 = ik_queue k" "ik_next k1 = ik_next k"
      "ik_running k1 = ik_running k" "ik_ticks k1 = ik_ticks k" by (simp_all add: k1_def)
  have send: "ik_send_one p k = do { k2 \<leftarrow>
        (case ii_pair i of
           Some q \<Rightarrow> if ik_ints k1 q = None then None
             else Some (upd_int p (\<lambda>i. i\<lparr>ii_sent := True\<rparr>) (upd_int q (\<lambda>j. j\<lparr>ii_sent := True\<rparr>)
                    (k1\<lparr>ik_matches := ik_matches k1 + 1\<rparr>)))
         | None \<Rightarrow> if ke_cookie e \<noteq> 0 then
               let (m, k2) = ik_unpaired e k1 in Some (upd_ev (ii_event i) (\<lambda>e. e\<lparr>ke_mask := m\<rparr>) k2)
             else Some k1);
        Some (k2\<lparr>ik_queue := ik_queue k2 @ [ii_event i], ik_ints := (ik_ints k2)(p := None)\<rparr>) }"
    unfolding ik_send_one_def i(1) e Option.bind.bind_lunit Let_def k1_def [symmetric] by (rule refl)
  show thesis
  proof (cases "ii_pair i")
    case (Some q)
    have "pair_ok k e q" using D(7) i e Some by (auto simp: linked_Cons link1_def)
    then obtain j where j: "ik_ints k q = Some j" by (auto simp: pair_ok_def)
    define k' where "k' = (let k2 = upd_int p (\<lambda>i. i\<lparr>ii_sent := True\<rparr>) (upd_int q (\<lambda>j. j\<lparr>ii_sent := True\<rparr>)
        (k1\<lparr>ik_matches := ik_matches k1 + 1\<rparr>))
      in k2\<lparr>ik_queue := ik_queue k2 @ [ii_event i], ik_ints := (ik_ints k2)(p := None)\<rparr>)"
    have "ik_send_one p k = Some k'" using Some j k1 by (simp add: send k'_def)
    moreover have "handed_on k p i e k'" "ik_ticks k' = ik_ticks k"
      using e Some ck k1 by (auto simp: handed_on_def k'_def)
    ultimately show thesis using e Some by (intro res [of k' e e]) auto
  next
    case None
    show thesis
    proof (cases "ke_cookie e = 0")
      case True
      have "ik_send_one p k = Some (k\<lparr>ik_queue := ik_queue k @ [ii_event i], ik_ints := (ik_ints k)(p := None)\<rparr>)"
        (is "_ = Some ?k'") using i e None True by (simp add: ik_send_one_def)
      moreover have "ik_cookies k c \<noteq> Some p" for c using wp(1) [of c] D(9) [of c p] True by (auto simp: awaits_def)
      then have "handed_on k p i e ?k'" using e None by (auto simp: handed_on_def)
      ultimately show thesis using e None True by (intro res [of ?k' e e]) auto
    next
      case False
      obtain m k2 where u: "ik_unpaired e k1 = (m, k2)" by fastforce
      obtain n where k2: "k2 = k1\<lparr>ik_misses := n\<rparr>" using ik_unpaired_mask(3) [OF u] by blast
      define k' where "k' = (let k3 = upd_ev (ii_event i) (\<lambda>e. e\<lparr>ke_mask := m\<rparr>) k2
        in k3\<lparr>ik_queue := ik_queue k3 @ [ii_event i], ik_ints := (ik_ints k3)(p := None)\<rparr>)"
      have "ik_send_one p k = Some k'" using None False u by (simp add: send k'_def)
      moreover have "handed_on k p i (e\<lparr>ke_mask := m\<rparr>) k'" "ik_ticks k' = ik_ticks k"
        using e None False ck k1 by (auto simp: handed_on_def k'_def k2)
      ultimately show thesis using e None ik_unpaired_mask(1,2) [OF u]
        by (intro res [of k' e "e\<lparr>ke_mask := m\<rparr>"]) (simp_all add: core_def)
    qed
  qed
qed

text \<open>What the loop promises for the part \<open>ps\<close> of the queue that is left.\<close>

definition handed :: "ikst \<Rightarrow> cptr list \<Rightarrow> ikst \<Rightarrow> bool" where
  "handed k ps k' \<longleftrightarrow>
     ik_inv k' (ik_todo k') \<and> list_all (is_seen k') (ik_todo k') \<and> (\<exists>us. ps = us @ ik_todo k') \<and>
     mset (owned k' (ik_todo k')) + mset (flat k') = mset (owned k ps) + mset (flat k) \<and> same_events k k' \<and>
     ik_running k' = ik_running k"

lemma handed_step:
  assumes "handed k1 ps k'" "mset (owned k1 ps) + mset (flat k1) = mset (owned k (p # ps)) + mset (flat k)"
    "same_events k k1" "ik_running k1 = ik_running k"
  shows "handed k (p # ps) k'"
proof -
  obtain us where "ps = us @ ik_todo k'" using assms(1) by (auto simp: handed_def)
  then have "p # ps = (p # us) @ ik_todo k'" by simp
  then show ?thesis using assms by (auto simp: handed_def intro: same_events_trans)
qed

lemma ik_process_loop_ok:
  "ik_inv k ps \<Longrightarrow> list_all (is_seen k) ps \<Longrightarrow> \<exists>k'. ik_process_loop clk ps k = Some k' \<and> handed k ps k'"
proof (induction ps arbitrary: k)
  case Nil
  then have "ik_inv (k\<lparr>ik_todo := []\<rparr>) []" by (subst ik_inv_cong [where k = k]) auto
  moreover have "flat (k\<lparr>ik_todo := []\<rparr>) = flat k" by (simp add: flat_def parts_def [abs_def])
  ultimately show ?case by (simp add: handed_def same_events_def)
next
  case (Cons p ps)
  note inv = Cons.prems(1)
  have pn: "p \<notin> set ps" using ik_invD(1) [OF inv] by simp
  obtain i where i: "ik_ints k p = Some i" using ik_invD(2) [OF inv] by (auto simp: dom_def set_eq_iff)
  have seen: "list_all (is_seen k1) ps" if "\<And>r. r \<noteq> p \<Longrightarrow> is_seen k r \<Longrightarrow> is_seen k1 r" for k1
    using that Cons.prems(2) pn by (auto simp: list_all_iff) metis
  show ?case
  proof (cases "ii_sent i")
    case True
    let ?k1 = "k\<lparr>ik_ints := (ik_ints k)(p := None)\<rparr>"
    have k1: "ik_inv ?k1 ps" "owned ?k1 ps = owned k (p # ps)" using ik_inv_drop_sent [OF inv i True] by auto
    have s1: "list_all (is_seen ?k1) ps" by (rule seen) (auto simp: is_seen_def)
    obtain k' where k': "ik_process_loop clk ps ?k1 = Some k'" "handed ?k1 ps k'"
      using Cons.IH [OF k1(1) s1] by blast
    moreover have "flat ?k1 = flat k" "same_events k ?k1"
      by (simp_all add: flat_def parts_def [abs_def] same_events_def)
    ultimately show ?thesis using i True k1(2) handed_step [of ?k1 ps k' k p] by simp
  next
    case False
    obtain e where e: "ik_evs k (ii_event i) = Some e" using ik_inv_event [OF inv _ i False] by auto
    let ?k1 = "k\<lparr>ik_ticks := Suc (ik_ticks k)\<rparr>"
    obtain r where r: "ik_event_ready clk p k = Some (r, ?k1)"
      using i e by (auto simp: ik_event_ready_def get_current_time_def)
    have own: "own ?k1 q = own k q" for q by (simp add: own_def)
    have k1: "ik_inv ?k1 (p # ps)" "owned ?k1 qs = owned k qs" "flat ?k1 = flat k" "same_events k ?k1"
        "is_seen ?k1 q = is_seen k q" for qs q
      using inv by (simp_all add: ik_inv_cong [of ?k1 k] flat_def parts_def [abs_def] same_events_def is_seen_def
          owned_cong [OF own])
    show ?thesis
    proof (cases r)
      case False
      let ?k' = "?k1\<lparr>ik_todo := p # ps\<rparr>"
      have "ik_inv ?k' (p # ps)" using k1(1) by (simp add: ik_inv_cong [of ?k' ?k1])
      moreover have "own ?k' q = own k q" for q by (simp add: own_def)
      then have "owned ?k' (p # ps) = owned k (p # ps)" by (intro owned_cong)
      moreover have "flat ?k' = flat k" by (simp add: flat_def parts_def [abs_def])
      moreover have "list_all (is_seen ?k') (p # ps)"
        using Cons.prems(2) by (simp add: is_seen_def list_all_iff)
      ultimately have "handed k (p # ps) ?k'" by (simp add: handed_def same_events_def)
      then show ?thesis using i \<open>\<not> ii_sent i\<close> r False by simp
    next
      case True
      have i1: "ik_ints ?k1 p = Some i" using i by simp
      obtain k2 e e' where k2: "ik_send_one p ?k1 = Some k2" and e: "ik_evs ?k1 (ii_event i) = Some e"
          and h: "handed_on ?k1 p i e' k2" "core e' = core e" "ke_pair e' = ke_pair e" "ii_pair i \<noteq> None \<longrightarrow> e' = e"
            "ii_pair i = None \<longrightarrow> ke_cookie e \<noteq> 0 \<longrightarrow>
               \<not> has_bit (ke_mask e') IN_MOVED_FROM \<and> \<not> has_bit (ke_mask e') IN_MOVED_TO"
        by (rule ik_send_one_runs [OF k1(1) i1 \<open>\<not> ii_sent i\<close>])
      note H = handed_on_inv [OF k1(1) i1 \<open>\<not> ii_sent i\<close> e h]
      have s2: "list_all (is_seen k2) ps" by (rule seen) (use H k1(5) in blast)
      obtain k' where k': "ik_process_loop clk ps k2 = Some k'" "handed k2 ps k'"
        using Cons.IH [OF _ s2] H by blast
      have "same_events k k2" using H k1(4) same_events_trans by blast
      moreover have "ik_running k2 = ik_running k" using h(1) by (simp add: handed_on_def)
      ultimately have "handed k (p # ps) k'"
        using handed_step [OF k'(2), of k p] H k1(2,3) by simp
      then show ?thesis using i \<open>\<not> ii_sent i\<close> r True k2 k'(1) by simp
    qed
  qed
qed

lemma ik_process_ok:
  assumes ok: "ik_ok k"
  shows "\<exists>k'. ik_process_events clk k = Some k' \<and> ik_ok k' \<and> handed k (ik_todo k) k'"
proof -
  obtain k1 where k1: "ik_pair_all (ik_todo k) k = Some k1" "ik_inv k1 (ik_todo k)" "keeps k k1"
      "list_all (is_seen k1) (ik_todo k)"
    using ik_pair_all_ok [OF ok] by blast
  obtain k' where k': "ik_process_loop clk (ik_todo k) k1 = Some k'" "handed k1 (ik_todo k) k'"
    using ik_process_loop_ok [OF k1(2,4)] by blast
  have "owned k1 (ik_todo k) = owned k (ik_todo k)" by (rule owned_cong) (use k1(3) in \<open>simp add: keeps_def\<close>)
  then have h: "handed k (ik_todo k) k'"
    using k'(2) k1(3) by (auto simp: handed_def keeps_def intro: same_events_trans)
  have "ik_todo k' = ik_todo k' @ [] \<and> list_all (is_seen k') (ik_todo k') \<and> list_all (fresh k') []"
    using h by (simp add: handed_def)
  then have "ik_ok k'" unfolding ik_ok_def using h by (simp only: handed_def) blast
  then show ?thesis using k1(1) k'(1) h by (simp add: ik_process_events_def)
qed

end
