(* ===== verification/Gam_Ik_Props.thy ===== *)
theory Gam_Ik_Props
  imports Gam_Ik_Inv
begin

unbundle bit_operations_syntax

text \<open>
  Properties of the event queues of \<^verbatim>\<open>server/inotify-kernel.c\<close>, from the invariant: when an event is ready,
  what reading the kernel's bytes adds, that freeing an event is safe; no access to an object that was freed,
  no event lost or handed on twice, no half of a move handed on alone.
\<close>

section \<open>Time\<close>

definition tle :: "timeval \<Rightarrow> timeval \<Rightarrow> bool" where
  "tle a b \<longleftrightarrow> g_timeval_lt a b \<or> g_timeval_eq a b"

lemma tle_iff: "tle a b \<longleftrightarrow> fst a < fst b \<or> fst a = fst b \<and> snd a \<le> snd b"
  by (auto simp: tle_def g_timeval_lt_def g_timeval_eq_def)

text \<open>A clock that is never set back, and internal events that are not held beyond the present.\<close>

definition good_clock :: "(nat \<Rightarrow> timeval) \<Rightarrow> bool" where
  "good_clock clk \<longleftrightarrow> (\<forall>t. 0 \<le> snd (clk t) \<and> snd (clk t) < 1000000 \<and> tle (clk t) (clk (Suc t)))"

definition held_ok :: "(nat \<Rightarrow> timeval) \<Rightarrow> nat \<Rightarrow> timeval \<Rightarrow> bool" where
  "held_ok clk t h \<longleftrightarrow> 0 \<le> snd h \<and> snd h < 1000000 \<and> tle h (clk t)"

definition on_time :: "(nat \<Rightarrow> timeval) \<Rightarrow> ikst \<Rightarrow> bool" where
  "on_time clk k \<longleftrightarrow> (\<forall>p i. ik_ints k p = Some i \<longrightarrow> held_ok clk (ik_ticks k) (ii_hold i))"

lemma g_time_val_add_0: "held_ok clk t tv \<Longrightarrow> g_time_val_add tv 0 = tv"
  by (simp add: g_time_val_add_def prod_eq_iff held_ok_def)

lemma on_time_upd:
  "on_time clk k \<Longrightarrow> (\<And>i. ik_ints k p = Some i \<Longrightarrow> held_ok clk (ik_ticks k) (ii_hold i) \<Longrightarrow> held_ok clk (ik_ticks k) (ii_hold (f i))) \<Longrightarrow>
     on_time clk (upd_int p f k)"
  by (auto simp: on_time_def)

lemma on_time_same: "ik_ints k' = ik_ints k \<Longrightarrow> ik_ticks k' = ik_ticks k \<Longrightarrow> on_time clk k' = on_time clk k"
  by (simp add: on_time_def)

lemma on_time_pair_events: "ik_pair_events p q k = Some k' \<Longrightarrow> on_time clk k \<Longrightarrow> on_time clk k'"
proof -
  assume run: "ik_pair_events p q k = Some k'" and ot: "on_time clk k"
  obtain i j where ij: "ik_ints k p = Some i" "ik_ints k q = Some j" using run
    by (auto simp: ik_pair_events_def bind_eq_Some_conv)
  define h where "h = (if g_timeval_lt (ii_hold i) (ii_hold j) then ii_hold j else ii_hold i)"
  have h: "held_ok clk (ik_ticks k) h" using ot ij by (simp add: on_time_def h_def)
  have "k' = upd_int q (\<lambda>j. j\<lparr>ii_hold := h\<rparr>) (upd_int p (\<lambda>i. i\<lparr>ii_hold := h\<rparr>)
      (upd_ev (ii_event i) (\<lambda>e. e\<lparr>ke_pair := Some (ii_event j)\<rparr>) (upd_int p (\<lambda>i. i\<lparr>ii_pair := Some q\<rparr>) k)))"
    using run ij unfolding ik_pair_events_def h_def by (auto simp: bind_eq_Some_conv split: if_split_asm)
  then show ?thesis
    using h ot by (auto intro!: on_time_upd simp del: upd_int_simps(8) simp: on_time_same [of "upd_ev _ _ _"])
qed

lemma on_time_pair_moves:
  assumes run: "ik_pair_moves p k = Some k'" and ot: "on_time clk k"
  shows "on_time clk k'"
proof (cases "is_seen k p \<or> (\<exists>i. ik_ints k p = Some i \<and> ii_sent i)")
  case True
  then show ?thesis using run ot by (auto simp: ik_pair_moves_def is_seen_def)
next
  case False
  then obtain i where i: "ik_ints k p = Some i" "\<not> ii_seen i" "\<not> ii_sent i"
    using run by (auto simp: ik_pair_moves_def is_seen_def bind_eq_Some_conv)
  have seen: "on_time clk (upd_int p (\<lambda>i. i\<lparr>ii_seen := True\<rparr>) k1)" if "on_time clk k1" for k1
    by (rule on_time_upd [OF that]) simp
  have hold: "on_time clk (ik_event_add_microseconds p MOVE_HOLD_UNTIL_TIME (k\<lparr>ik_cookies := c\<rparr>))" for c
    unfolding ik_event_add_microseconds_def MOVE_HOLD_UNTIL_TIME_def
    by (rule on_time_upd) (use ot in \<open>auto simp: on_time_same [of "k\<lparr>ik_cookies := c\<rparr>" k] g_time_val_add_0\<close>)
  have pair: "on_time clk k1" if "ik_pair_events m p (k\<lparr>ik_cookies := c\<rparr>) = Some k1" for m c k1
    using on_time_pair_events [OF that] ot by (simp add: on_time_same [of "k\<lparr>ik_cookies := c\<rparr>" k])
  show ?thesis
    using run i ot by (auto simp: ik_pair_moves_def bind_eq_Some_conv simp del: upd_int_simps
        split: if_split_asm option.split_asm intro!: seen hold dest: pair)
qed

lemma on_time_pair_all: "ik_pair_all ps k = Some k' \<Longrightarrow> on_time clk k \<Longrightarrow> on_time clk k'"
  by (induction ps arbitrary: k) (auto simp: bind_eq_Some_conv dest: on_time_pair_moves)

lemma on_time_send_one: "ik_send_one p k = Some k' \<Longrightarrow> on_time clk k \<Longrightarrow> on_time clk k'"
  unfolding on_time_def
  by (auto simp: ik_send_one_def ik_unpaired_def bind_eq_Some_conv split: if_splits option.splits)

lemma held_ok_Suc: "good_clock clk \<Longrightarrow> held_ok clk t h \<Longrightarrow> held_ok clk (Suc t) h"
  by (auto simp: held_ok_def good_clock_def tle_iff) (metis linorder_not_less order.strict_trans order.trans nless_le)+

lemma on_time_tick: "good_clock clk \<Longrightarrow> on_time clk k \<Longrightarrow> on_time clk (k\<lparr>ik_ticks := Suc (ik_ticks k)\<rparr>)"
  by (simp add: on_time_def held_ok_Suc)

lemma ik_process_loop_empties:
  "ik_process_loop clk ps k = Some k' \<Longrightarrow> good_clock clk \<Longrightarrow> on_time clk k \<Longrightarrow> ik_todo k' = [] \<and> on_time clk k'"
proof (induction ps arbitrary: k)
  case (Cons p ps)
  obtain i where i: "ik_ints k p = Some i" using Cons.prems(1) by (auto simp: bind_eq_Some_conv)
  show ?case
  proof (cases "ii_sent i")
    case True
    have "on_time clk (k\<lparr>ik_ints := (ik_ints k)(p := None)\<rparr>)" using Cons.prems(3) by (auto simp: on_time_def)
    then show ?thesis using Cons i True by simp
  next
    case False
    let ?k1 = "k\<lparr>ik_ticks := Suc (ik_ticks k)\<rparr>"
    have h: "tle (ii_hold i) (clk (ik_ticks k))" using Cons.prems(3) i by (auto simp: on_time_def held_ok_def)
    obtain e where e: "ik_evs k (ii_event i) = Some e"
      using Cons.prems(1) i False by (auto simp: ik_event_ready_def get_current_time_def bind_eq_Some_conv)
    have "ik_event_ready clk p k = Some (True, ?k1)"
      using i e h by (simp add: ik_event_ready_def get_current_time_def tle_def)
    then obtain k2 where k2: "ik_send_one p ?k1 = Some k2" "ik_process_loop clk ps k2 = Some k'"
      using Cons.prems(1) i False by (auto simp: bind_eq_Some_conv)
    then show ?thesis
      using Cons.IH [OF k2(2) Cons.prems(2)] on_time_send_one [OF k2(1)] on_time_tick [OF Cons.prems(2,3)] by blast
  qed
qed (auto simp: on_time_def)

lemma ik_process_empties:
  "ik_process_events clk k = Some k' \<Longrightarrow> good_clock clk \<Longrightarrow> on_time clk k \<Longrightarrow> ik_todo k' = [] \<and> on_time clk k'"
  by (auto simp: ik_process_events_def bind_eq_Some_conv dest: on_time_pair_all ik_process_loop_empties)

section \<open>Reading\<close>

text \<open>The bytes the kernel writes for an event: the struct, the name and at least one NUL, when there is a name.\<close>

definition kernel_bytes :: "ik_event \<Rightarrow> string" where
  "kernel_bytes ev = enc32 (of_int (ke_wd ev)) @ enc32 (ke_mask ev) @ enc32 (ke_cookie ev) @ enc32 (ke_len ev) @
     ke_name ev @ replicate (unat (ke_len ev) - length (ke_name ev)) (CHR 0x00)"

definition kernel_event :: "ik_event \<Rightarrow> bool" where
  "kernel_event ev \<longleftrightarrow> - 2147483648 \<le> ke_wd ev \<and> ke_wd ev < 2147483648 \<and> no_nul (ke_name ev) \<and> ke_pair ev = None \<and>
     (ke_len ev = 0 \<and> ke_name ev = [] \<or> length (ke_name ev) < unat (ke_len ev))"

lemma length_enc32 [simp]: "length (enc32 w) = 4"
  by (simp add: enc32_def)

lemma dec32_enc32 [simp]: "dec32 (enc32 w) = w"
proof -
  let ?a = "of_nat (unat w mod 65536) :: 16 word" and ?b = "of_nat (unat w div 65536) :: 16 word"
  have "unat w < 4294967296" using unsigned_less [of w] by simp
  then have b: "unat ?b = unat w div 65536" by (simp add: unat_of_nat)
  have a: "unat ?a = unat w mod 65536" by (simp add: unat_of_nat)
  have "rd16 (enc32 w) 0 = ?a" using rd16_enc16 [of "[]" ?a "enc16 ?b"] by (simp add: enc32_def)
  moreover have "rd16 (enc32 w) 2 = ?b" using rd16_enc16 [of "enc16 ?a" ?b "[]"] by (simp add: enc32_def)
  moreover have "unat w mod 65536 + 65536 * (unat w div 65536) = unat w" by simp
  ultimately show ?thesis by (simp only: dec32_def a b) simp
qed

lemma buf_word_at:
  "length (xs @ enc32 w @ ys) \<le> BUF \<Longrightarrow> buf_word (xs @ enc32 w @ ys) (length xs) = Some w"
  by (simp add: buf_word_def)

lemma buf_word_at':
  assumes "b = xs @ enc32 w @ ys" "i = length xs" "length b \<le> BUF"
  shows "buf_word b i = Some w"
  using assms buf_word_at by blast

lemma c_string_app_nul: "no_nul s \<Longrightarrow> c_string (s @ CHR 0x00 # r) = s"
  unfolding c_string_def by (subst takeWhile_append2) (auto simp: no_nul_def)

lemma length_kernel_bytes: "kernel_event ev \<Longrightarrow> length (kernel_bytes ev) = 16 + unat (ke_len ev)"
  by (auto simp: kernel_bytes_def kernel_event_def)

lemma ik_event_new_at:
  assumes ev: "kernel_event ev" and len: "length (xs @ kernel_bytes ev @ ys) \<le> BUF"
  shows "ik_event_new (xs @ kernel_bytes ev @ ys) (length xs) = Some ev"
proof -
  let ?b = "xs @ kernel_bytes ev @ ys"
  let ?w = "enc32 (of_int (ke_wd ev))" and ?m = "enc32 (ke_mask ev)" and ?c = "enc32 (ke_cookie ev)"
    and ?l = "enc32 (ke_len ev)"
  let ?n = "ke_name ev @ replicate (unat (ke_len ev) - length (ke_name ev)) (CHR 0x00)"
  have b: "?b = xs @ ?w @ ?m @ ?c @ ?l @ ?n @ ys" by (simp add: kernel_bytes_def)
  have w: "buf_word ?b (length xs) = Some (of_int (ke_wd ev))"
    by (rule buf_word_at' [where xs = xs and ys = "?m @ ?c @ ?l @ ?n @ ys"]) (use len b in auto)
  have m: "buf_word ?b (length xs + 4) = Some (ke_mask ev)"
    by (rule buf_word_at' [where xs = "xs @ ?w" and ys = "?c @ ?l @ ?n @ ys"]) (use len b in auto)
  have c: "buf_word ?b (length xs + 8) = Some (ke_cookie ev)"
    by (rule buf_word_at' [where xs = "xs @ ?w @ ?m" and ys = "?l @ ?n @ ys"]) (use len b in auto)
  have l: "buf_word ?b (length xs + 12) = Some (ke_len ev)"
    by (rule buf_word_at' [where xs = "xs @ ?w @ ?m @ ?c" and ys = "?n @ ys"]) (use len b in auto)
  have s: "sint (of_int (ke_wd ev) :: 32 word) = ke_wd ev"
    using ev by (simp add: kernel_event_def int_word_sint)
  have nm: "buf_name ?b (length xs + 16) = Some (ke_name ev)" if nz: "ke_len ev \<noteq> 0"
  proof -
    have lt: "length (ke_name ev) < unat (ke_len ev)" and nn: "no_nul (ke_name ev)"
      using ev nz by (auto simp: kernel_event_def)
    then obtain d where d: "unat (ke_len ev) - length (ke_name ev) = Suc d"
      by (metis Suc_diff_Suc)
    have dr: "drop (length xs + 16) ?b = ke_name ev @ CHR 0x00 # replicate d (CHR 0x00) @ ys"
      unfolding b by (simp add: d)
    have "length xs + 16 < BUF" using len length_kernel_bytes [OF ev] lt by simp
    then show ?thesis unfolding buf_name_def dr using c_string_app_nul [OF nn] by simp
  qed
  have "(if ke_len ev \<noteq> 0 then buf_name ?b (length xs + 16) else Some []) = Some (ke_name ev)"
    using nm ev by (auto simp: kernel_event_def)
  then show ?thesis
    using ev unfolding ik_event_new_def w m c l Option.bind.bind_lunit by (simp add: s kernel_event_def)
qed

lemma ready_event_mono:
  assumes r: "ready_event k a" and same: "\<And>b x. ik_evs k b = Some x \<Longrightarrow> ik_evs k' b = Some x"
  shows "ready_event k' a"
proof -
  obtain ev where ev: "ik_evs k a = Some ev" using r by (auto simp: ready_event_def)
  then have "ik_evs k' a = Some ev" by (rule same)
  then show ?thesis using r ev by (cases "ke_pair ev") (auto simp: ready_event_def dest: same)
qed

text \<open>One more internal event at the end of the queue.\<close>

definition pushed :: "(nat \<Rightarrow> timeval) \<Rightarrow> ik_event \<Rightarrow> ikst \<Rightarrow> ikst" where
  "pushed clk ev k = (let (e, k1) = alloc_event ev k; (p, k2) = ik_event_internal_new clk e k1
     in k2\<lparr>ik_todo := ik_todo k2 @ [p]\<rparr>)"

lemma pushed_simps:
  "ik_evs (pushed clk ev k) = (ik_evs k)(ik_next k \<mapsto> ev)"
  "ik_ints (pushed clk ev k) = (ik_ints k)(Suc (ik_next k) \<mapsto>
     \<lparr>ii_event = ik_next k, ii_seen = False, ii_sent = False,
      ii_hold = g_time_val_add (clk (ik_ticks k)) DEFAULT_HOLD_UNTIL_TIME, ii_pair = None\<rparr>)"
  "ik_todo (pushed clk ev k) = ik_todo k @ [Suc (ik_next k)]" "ik_next (pushed clk ev k) = Suc (Suc (ik_next k))"
  "ik_queue (pushed clk ev k) = ik_queue k" "ik_cookies (pushed clk ev k) = ik_cookies k"
  "ik_running (pushed clk ev k) = ik_running k" "ik_ticks (pushed clk ev k) = Suc (ik_ticks k)"
  by (simp_all add: pushed_def alloc_event_def ik_event_internal_new_def get_current_time_def)

lemma pushed_ok:
  assumes ok: "ik_ok k" and ev: "ke_pair ev = None"
  shows "ik_ok (pushed clk ev k)"
proof -
  let ?k = "pushed clk ev k" and ?ps = "ik_todo k" and ?e = "ik_next k" and ?p = "Suc (ik_next k)"
  have inv: "ik_inv k ?ps" using ok by (simp add: ik_ok_def)
  note D = ik_invD [OF inv] and P = pushed_simps [of clk ev k]
  have lt: "ik_evs k a = Some x \<Longrightarrow> a < ?e" "ik_ints k b = Some y \<Longrightarrow> b < ?e" for a b x y using D(11,12) by blast+
  have pn: "?p \<notin> set ?ps" using D(2) lt(2) by fastforce
  have own: "own ?k q = (if q = ?p then Some ?e else own k q)" for q by (simp add: own_def P)
  have ow: "owned ?k ?ps = owned k ?ps" by (rule owned_cong) (use pn own in auto)
  have owp: "owned ?k (?ps @ [?p]) = owned k ?ps @ [?e]" using ow own by (simp add: owned_Cons)
  have en: "?e \<notin> dom (ik_evs k)" using lt by auto
  have fl: "flat ?k = flat k"
    unfolding flat_def P by (rule arg_cong [of _ _ concat], rule map_cong [OF refl])
      (use en D(6) in \<open>auto simp: parts_def P dest!: flat_memI\<close>)
  have tgt: "target ?k a b = (a \<noteq> ?p \<and> target k a b)" for a b by (auto simp: target_def P)
  have pok: "pair_ok ?k x q" if po: "pair_ok k x q" for x q
  proof -
    obtain j f where "ik_ints k q = Some j" "ik_evs k (ii_event j) = Some f" using po by (auto simp: pair_ok_def)
    then have "q \<noteq> ?p" "ii_event j \<noteq> ?e" using lt by fastforce+
    then show ?thesis using po \<open>ik_ints k q = Some j\<close> by (auto simp: pair_ok_def P)
  qed
  have l1: "link1 ?k q (ys @ zs)" if "link1 k q ys" "q \<noteq> ?p" for q ys zs
    using that lt by (fastforce simp: link1_def P intro: pok split: option.splits)
  have lp: "link1 ?k ?p zs" for zs using ev by (simp add: link1_def P)
  have "link1 ?k q zs" if "?ps @ [?p] = ws @ q # zs" for ws q zs
  proof (cases zs rule: rev_cases)
    case Nil
    then show ?thesis using that lp by simp
  next
    case (snoc zs' z)
    then have "?ps = ws @ q # zs'" "z = ?p" using that by auto
    moreover from this have "q \<noteq> ?p" using pn by auto
    ultimately show ?thesis using l1 D(7) snoc unfolding linked_def by blast
  qed
  then have lk: "linked ?k (?ps @ [?p])" by (simp add: linked_def)
  have w: "awaits ?k (?ps @ [?p]) c q" if wt: "awaits k ?ps c q" for c q
  proof -
    obtain i e where i: "ik_ints k q = Some i" "ik_evs k (ii_event i) = Some e" using wt by (auto simp: awaits_def)
    then have "q \<noteq> ?p" "ii_event i \<noteq> ?e" using lt by fastforce+
    then show ?thesis using wt i by (auto simp: awaits_def P)
  qed
  have same: "ik_evs ?k a = Some x" if "ik_evs k a = Some x" for a x using that lt(1) [OF that] by (simp add: P)
  have r: "ready_event ?k a" if "ready_event k a" for a
    using that same by (rule ready_event_mono)
  have "ik_inv ?k (?ps @ [?p])"
    unfolding ik_inv_def owp fl
  proof (intro conjI)
    show "dom (ik_ints ?k) = set (?ps @ [?p])" using D(2) by (simp add: P)
    show "dom (ik_evs ?k) = set ((owned k ?ps @ [?e]) @ flat k)" using D(6) by (simp add: P)
    show "distinct ((owned k ?ps @ [?e]) @ flat k)" using D(3,4,5,6) en by auto
    show "\<forall>a a' b. target ?k a b \<longrightarrow> target ?k a' b \<longrightarrow> a = a'" using tgt D(8) by blast
    show "\<forall>c q. ik_cookies ?k c = Some q \<longrightarrow> awaits ?k (?ps @ [?p]) c q" using w D(9) by (simp add: P)
    show "\<forall>a\<in>set (ik_queue ?k). ready_event ?k a" using r D(10) by (simp add: P)
    show "\<forall>n. n \<in> dom (ik_evs ?k) \<union> dom (ik_ints ?k) \<longrightarrow> n < ik_next ?k"
      using D(11,12) by (auto simp: P less_Suc_eq)
  qed (use D(1) pn lk in auto)
  moreover obtain xs ys where xy: "?ps = xs @ ys" "list_all (is_seen k) xs" "list_all (fresh k) ys"
    using ok by (auto simp: ik_ok_def)
  have "?p \<notin> set xs" "?p \<notin> set ys" using xy pn by auto
  then have "list_all (is_seen ?k) xs" "list_all (fresh ?k) (ys @ [?p])"
    using xy by (auto simp: list_all_iff is_seen_def fresh_def P)
  moreover have "ik_todo ?k = xs @ (ys @ [?p])" using xy by (simp add: P)
  ultimately show ?thesis unfolding ik_ok_def P(3) using xy(1) by blast
qed

lemma ik_read_loop_events:
  "list_all kernel_event evs \<Longrightarrow> length (xs @ concat (map kernel_bytes evs)) \<le> BUF \<Longrightarrow>
     ik_read_loop clk (xs @ concat (map kernel_bytes evs)) (length xs) k = Some (fold (pushed clk) evs k)"
proof (induction evs arbitrary: xs k)
  case (Cons ev evs)
  have ev: "kernel_event ev" and l: "length (xs @ kernel_bytes ev @ concat (map kernel_bytes evs)) \<le> BUF"
    using Cons.prems by simp_all
  let ?b = "xs @ kernel_bytes ev @ concat (map kernel_bytes evs)"
  have new: "ik_event_new ?b (length xs) = Some ev" by (rule ik_event_new_at [OF ev l])
  have lt: "length xs < length ?b" by (simp add: length_kernel_bytes [OF ev])
  have "ik_read_loop clk ?b (length xs) k = ik_read_loop clk ?b (length xs + 16 + unat (ke_len ev)) (pushed clk ev k)"
    using new lt by (subst ik_read_loop.simps) (simp add: pushed_def split_beta)
  also have "\<dots> = ik_read_loop clk ((xs @ kernel_bytes ev) @ concat (map kernel_bytes evs))
      (length (xs @ kernel_bytes ev)) (pushed clk ev k)"
    by (simp add: length_kernel_bytes [OF ev] add.assoc)
  also have "\<dots> = Some (fold (pushed clk) evs (pushed clk ev k))"
    by (rule Cons.IH) (use Cons.prems in auto)
  finally show ?case by simp
qed (subst ik_read_loop.simps, simp)

text \<open>The events that wait, in order.\<close>

definition todo_events :: "ikst \<Rightarrow> ik_event option list" where
  "todo_events k = map (\<lambda>p. Option.bind (own k p) (ik_evs k)) (ik_todo k)"

lemma todo_events_pushed:
  assumes ok: "ik_ok k"
  shows "todo_events (pushed clk ev k) = todo_events k @ [Some ev]"
proof -
  have inv: "ik_inv k (ik_todo k)" using ok by (simp add: ik_ok_def)
  note D = ik_invD [OF inv]
  have "Option.bind (own (pushed clk ev k) p) (ik_evs (pushed clk ev k)) = Option.bind (own k p) (ik_evs k)"
    if p: "p \<in> set (ik_todo k)" for p
  proof -
    have "p \<noteq> Suc (ik_next k)" using D(12) [of p] D(2) p by auto
    then have o: "own (pushed clk ev k) p = own k p" by (simp add: own_def pushed_simps)
    show ?thesis
    proof (cases "own k p")
      case (Some e)
      then have "e \<in> dom (ik_evs k)" using D(6) owned_memI [OF p] by blast
      then have "e \<noteq> ik_next k" using D(11) by blast
      then show ?thesis using o Some by (simp add: pushed_simps)
    qed (use o in simp)
  qed
  then show ?thesis by (simp add: todo_events_def pushed_simps own_def)
qed

lemma fold_pushed:
  "ik_ok k \<Longrightarrow> list_all kernel_event evs \<Longrightarrow>
     ik_ok (fold (pushed clk) evs k) \<and> todo_events (fold (pushed clk) evs k) = todo_events k @ map Some evs \<and>
     ik_queue (fold (pushed clk) evs k) = ik_queue k \<and> ik_running (fold (pushed clk) evs k) = ik_running k"
proof (induction evs arbitrary: k)
  case (Cons ev evs)
  have "ik_ok (pushed clk ev k)" by (rule pushed_ok) (use Cons.prems in \<open>auto simp: kernel_event_def\<close>)
  then show ?case using Cons.IH [of "pushed clk ev k"] Cons.prems todo_events_pushed [of k clk ev]
    by (simp add: pushed_simps)
qed auto

lemma on_time_pushed:
  assumes "good_clock clk" "on_time clk k"
  shows "on_time clk (pushed clk ev k)"
proof -
  have "held_ok clk (ik_ticks k) (clk (ik_ticks k))"
    using assms(1) by (simp add: held_ok_def good_clock_def tle_iff)
  then show ?thesis
    using assms held_ok_Suc [OF assms(1)] by (simp add: on_time_def pushed_simps DEFAULT_HOLD_UNTIL_TIME_def g_time_val_add_0)
qed

lemma on_time_fold: "good_clock clk \<Longrightarrow> on_time clk k \<Longrightarrow> on_time clk (fold (pushed clk) evs k)"
  by (induction evs arbitrary: k) (auto simp: on_time_pushed)

lemma ik_ok_running [simp]: "ik_ok (k\<lparr>ik_running := b\<rparr>) = ik_ok k"
  by (simp add: ik_ok_def ik_inv_cong [of "k\<lparr>ik_running := b\<rparr>" k] is_seen_def [abs_def] fresh_def [abs_def])

lemma ik_read_locked_events:
  assumes ok: "ik_ok k" and evs: "list_all kernel_event evs" and l: "length (concat (map kernel_bytes evs)) \<le> BUF"
  shows "ik_read_locked clk (concat (map kernel_bytes evs)) k =
    Some ((fold (pushed clk) evs k)\<lparr>ik_running := ik_running k \<or> evs \<noteq> []\<rparr>)"
proof -
  have b: "ik_read_events (concat (map kernel_bytes evs)) = concat (map kernel_bytes evs)"
    using l by (simp add: ik_read_events_def)
  have run: "ik_read_loop clk (concat (map kernel_bytes evs)) 0 k = Some (fold (pushed clk) evs k)"
    using ik_read_loop_events [of evs "[]" clk k] evs l by simp
  have ne: "concat (map kernel_bytes evs) = [] \<longleftrightarrow> evs = []"
    using evs by (cases evs) (auto dest!: length_kernel_bytes [THEN arg_cong [of _ _ "\<lambda>n. n = 0"]])
  have "ik_running (fold (pushed clk) evs k) = ik_running k" using fold_pushed [OF ok evs] by blast
  then show ?thesis
    unfolding ik_read_locked_def b run using ne by (cases "ik_running k"; cases "evs = []") auto
qed

section \<open>Freeing an event\<close>

lemma ik_event_free_simps:
  assumes "ik_evs k e = Some ev"
  shows "ke_pair ev = None \<Longrightarrow> ik_event_free e k = Some (k\<lparr>ik_evs := (ik_evs k)(e := None)\<rparr>)"
    "ke_pair ev = Some f \<Longrightarrow> f \<noteq> e \<Longrightarrow> ik_evs k f = Some fv \<Longrightarrow> ke_pair fv = None \<Longrightarrow>
       ik_event_free e k = Some (k\<lparr>ik_evs := (ik_evs k)(f := None, e := None)\<rparr>)"
  using assms by (simp_all add: ik_event_free.simps [of e k] ik_event_free.simps [of f k])

lemma ik_inv_popped:
  assumes inv: "ik_inv k ps" and q: "ik_queue k = e # q"
  shows "ik_inv (k\<lparr>ik_queue := q, ik_evs := (ik_evs k) |` (- set (parts k e))\<rparr>) ps" (is "ik_inv ?k ps")
proof -
  note D = ik_invD [OF inv]
  have fl: "flat k = parts k e @ concat (map (parts k) q)" by (simp add: flat_def q)
  have sub: "set (concat (map (parts k) q)) \<inter> set (parts k e) = {}" "distinct (concat (map (parts k) q))"
    using D(4) fl by auto
  have own: "own ?k p = own k p" for p by (simp add: own_def)
  have ow: "owned ?k ps = owned k ps" by (rule owned_cong) (rule own)
  have keep: "ik_evs ?k a = ik_evs k a" if "a \<in> set (owned k ps) \<or> a \<in> set (concat (map (parts k) q))" for a
    using that D(5) fl sub by (auto simp: restrict_map_def)
  have pq: "parts ?k a = parts k a" if "a \<in> set q" for a
  proof -
    have "a \<in> set (concat (map (parts k) q))" using that by (auto simp: parts_def)
    then show ?thesis using keep by (simp add: parts_def)
  qed
  have fl': "flat ?k = concat (map (parts k) q)"
    unfolding flat_def by (simp add: pq cong: map_cong)
  have ev: "ik_evs ?k (ii_event i) = ik_evs k (ii_event i)" if "ik_ints k p = Some i" "\<not> ii_sent i" for p i
  proof -
    have "p \<in> set ps" "own k p = Some (ii_event i)" using that D(2) by (auto simp: own_def)
    then show ?thesis using keep owned_memI by blast
  qed
  have pok: "pair_ok ?k x p" if "pair_ok k x p" for x p
    using that ev by (fastforce simp: pair_ok_def)
  have "link1 ?k p ys" if l: "link1 k p ys" for p ys
    unfolding link1_def
  proof (intro allI impI)
    fix i assume i: "ik_ints ?k p = Some i" "\<not> ii_sent i"
    then obtain x where x: "ik_evs k (ii_event i) = Some x"
        "case ii_pair i of None \<Rightarrow> ke_pair x = None | Some r \<Rightarrow> ii_seen i \<and> r \<in> set ys \<and> pair_ok k x r"
      using l by (auto simp: link1_def)
    then show "\<exists>x. ik_evs ?k (ii_event i) = Some x \<and>
        (case ii_pair i of None \<Rightarrow> ke_pair x = None | Some r \<Rightarrow> ii_seen i \<and> r \<in> set ys \<and> pair_ok ?k x r)"
      using ev [of p i] i pok by (auto split: option.splits)
  qed
  then have lk: "linked ?k ps" using D(7) by (auto simp: linked_def)
  have tgt: "target ?k a b = target k a b" for a b by (simp add: target_def)
  have w: "awaits ?k ps c p" if "awaits k ps c p" for c p
    using that ev by (fastforce simp: awaits_def)
  have r: "ready_event ?k a" if a: "a \<in> set q" for a
  proof -
    have re: "ready_event k a" using D(10) q a by simp
    then obtain x where x: "ik_evs k a = Some x" by (auto simp: ready_event_def)
    have "a \<in> set (concat (map (parts k) q))" using a by (auto simp: parts_def)
    then have "ik_evs ?k a = Some x" using keep x by metis
    moreover have "ik_evs ?k g = ik_evs k g" if g: "ke_pair x = Some g" for g
    proof -
      have "g \<in> set (concat (map (parts k) q))" using a g x by (auto simp: parts_def intro!: bexI [of _ a])
      then show ?thesis using keep by blast
    qed
    ultimately show ?thesis using re x by (cases "ke_pair x") (auto simp: ready_event_def)
  qed
  show ?thesis
    unfolding ik_inv_def ow fl' tgt
  proof (intro conjI)
    show "dom (ik_evs ?k) = set (owned k ps @ concat (map (parts k) q))"
      using D(5,6) fl sub by auto
    show "distinct (owned k ps @ concat (map (parts k) q))" using D(3,5) fl sub by auto
    show "\<forall>n. n \<in> dom (ik_evs ?k) \<union> dom (ik_ints ?k) \<longrightarrow> n < ik_next ?k" using D(11,12) by auto
    show "\<forall>c p. ik_cookies ?k c = Some p \<longrightarrow> awaits ?k ps c p" using w D(9) by simp
  qed (use D(1,2,8) lk r in auto)
qed

lemma ik_event_free_popped:
  assumes inv: "ik_inv k ps" and q: "ik_queue k = e # q"
  shows "ik_event_free e (k\<lparr>ik_queue := q\<rparr>) =
    Some (k\<lparr>ik_queue := q, ik_evs := (ik_evs k) |` (- set (parts k e))\<rparr>)"
proof -
  note D = ik_invD [OF inv]
  have re: "ready_event k e" using D(10) q by simp
  then obtain ev where ev: "ik_evs k e = Some ev" by (auto simp: ready_event_def)
  show ?thesis
  proof (cases "ke_pair ev")
    case None
    then have "(ik_evs k)(e := None) = (ik_evs k) |` (- set (parts k e))" using ev by (auto simp: parts_def)
    then show ?thesis using ev None by (simp add: ik_event_free_simps(1) [of _ e ev])
  next
    case (Some f)
    then obtain fv where fv: "ik_evs k f = Some fv" "ke_pair fv = None" using re ev by (auto simp: ready_event_def)
    have p: "parts k e = [e, f]" using ev Some by (simp add: parts_def)
    have "f \<noteq> e" using D(4) p by (auto simp: flat_def q)
    moreover have "(ik_evs k)(f := None, e := None) = (ik_evs k) |` (- set (parts k e))" unfolding p by (auto simp: restrict_map_def fun_eq_iff)
    ultimately show ?thesis using ev Some fv by (simp add: ik_event_free_simps(2) [of _ e ev f fv])
  qed
qed

section \<open>Properties\<close>

text \<open>C9. Processing the events that were read never fails an assertion and never touches an object that was
  freed. Every event is afterwards either still awaits or handed on, once, alone or as the second half of
  a move, with its descriptor, cookie and name unchanged (\<open>ik_ok\<close> says that the awaits and the queued events
  are distinct and are all the events allocated). An event with a cookie is never handed on as an unmatched
  half of a move: it comes with its other half, or its mask is no longer that of a move. With a clock that is
  never set back nothing is held.\<close>

theorem kernel_events_conserved:
  assumes "ik_ok k"
  shows "\<exists>k'. ik_process_events clk k = Some k' \<and> ik_ok k' \<and>
    mset (owned k' (ik_todo k')) + mset (flat k') = mset (owned k (ik_todo k)) + mset (flat k) \<and>
    (\<forall>e. map_option core (ik_evs k' e) = map_option core (ik_evs k e)) \<and>
    (\<forall>e \<in> set (ik_queue k'). ready_event k' e) \<and>
    (good_clock clk \<longrightarrow> on_time clk k \<longrightarrow> ik_todo k' = [])"
proof -
  obtain k' where k': "ik_process_events clk k = Some k'" "ik_ok k'" "handed k (ik_todo k) k'"
    using ik_process_ok [OF assms] by blast
  then show ?thesis
    using ik_process_empties [OF k'(1)] by (auto simp: handed_def same_events_def ik_ok_def ik_inv_def)
qed

text \<open>A rename of a file and a change of another one.\<close>

definition kev :: "kmask \<Rightarrow> 32 word \<Rightarrow> string \<Rightarrow> ik_event" where
  "kev m c name = \<lparr>ke_wd = 1, ke_mask = m, ke_cookie = c, ke_len = 16, ke_name = name, ke_pair = None\<rparr>"

definition demo_events :: "ik_event list" where
  "demo_events = [kev IN_MOVED_FROM 7 ''a'', kev IN_MODIFY 0 ''c'', kev IN_MOVED_TO 7 ''b'']"

lemma demo_events_kernel: "list_all kernel_event demo_events"
  by (simp add: demo_events_def kev_def kernel_event_def no_nul_def)

lemma demo_ik_ok: "ik_ok (fold (pushed clk) demo_events ik_init)"
  using fold_pushed [OF ik_init_ok demo_events_kernel] by blast

theorem kernel_events_conserved_witness:
  "\<exists>k'. ik_process_events (\<lambda>t. (int t, 0)) (fold (pushed (\<lambda>t. (int t, 0))) demo_events ik_init) = Some k' \<and>
     ik_todo k' = [] \<and> mset (flat k') = {#0, 2, 4#}"
proof -
  let ?clk = "\<lambda>t. (int t, 0)" and ?k = "fold (pushed (\<lambda>t. (int t, 0))) demo_events ik_init"
  have "good_clock ?clk" by (simp add: good_clock_def tle_iff)
  moreover have "on_time ?clk ?k"
    by (rule on_time_fold [OF \<open>good_clock ?clk\<close>]) (simp add: on_time_def ik_init_def)
  moreover have "owned ?k (ik_todo ?k) = [0, 2, 4]" "flat ?k = []"
    by (simp_all add: demo_events_def pushed_simps owned_Cons own_def ik_init_def flat_def eval_nat_numeral)
  ultimately show ?thesis
    using kernel_events_conserved [OF demo_ik_ok [of ?clk], of ?clk] by (auto simp: owned_def List.map_filter_def)
qed

text \<open>C33. Round trip of the buffer of the kernel: the bytes of a list of events (struct, name and padding), as
  many as fit the buffer, are read back as these events, in order, behind those that wait already; the
  timer that processes them is then running.\<close>

theorem kernel_buffer_roundtrip:
  assumes "ik_ok k" "list_all kernel_event evs" "length (concat (map kernel_bytes evs)) \<le> BUF"
  shows "\<exists>k'. ik_read_locked clk (concat (map kernel_bytes evs)) k = Some k' \<and> ik_ok k' \<and>
    todo_events k' = todo_events k @ map Some evs \<and> ik_queue k' = ik_queue k \<and>
    ik_running k' = (ik_running k \<or> evs \<noteq> [])"
proof -
  let ?k = "fold (pushed clk) evs k"
  have f: "ik_ok ?k" "todo_events ?k = todo_events k @ map Some evs" "ik_queue ?k = ik_queue k"
    using fold_pushed [OF assms(1,2)] by blast+
  have "todo_events (?k\<lparr>ik_running := b\<rparr>) = todo_events ?k" for b by (simp add: todo_events_def own_def)
  then show ?thesis using ik_read_locked_events [OF assms] f by simp
qed

theorem kernel_buffer_roundtrip_witness:
  "\<exists>k'. ik_read_locked (\<lambda>t. (0, 0)) (concat (map kernel_bytes demo_events)) ik_init = Some k' \<and>
     todo_events k' = map Some demo_events \<and> ik_running k'"
proof -
  have "length (concat (map kernel_bytes demo_events)) \<le> BUF"
    using demo_events_kernel by (simp add: demo_events_def length_kernel_bytes BUF_def AVERAGE_EVENT_SIZE_def
        MAX_QUEUED_EVENTS_def) (simp add: kev_def)
  from kernel_buffer_roundtrip [OF ik_init_ok demo_events_kernel this, of "\<lambda>t. (0, 0)"]
  show ?thesis by (auto simp: todo_events_def ik_init_def demo_events_def)
qed

lemma pending_count_check:
  assumes "ik_source_check True ioctl k = (False, k')" "ik_poll_enabled k" "0 \<le> ik_pending_count k"
  shows "ik_pending_count k < 2 \<and> ik_pending_count k' = ik_pending_count k + 1 \<and>
    (\<exists>b. ioctl = Some b \<and> b div 32 \<le> 1024)"
  using assms
  by (auto simp: ik_source_check_def ik_do_read_def MAX_PENDING_COUNT_def MAX_QUEUED_EVENTS_def AVERAGE_EVENT_SIZE_def
      split: if_splits option.splits)

lemma check_reads: "ik_source_check True ioctl k = (True, k') \<Longrightarrow> ik_prev_pending k' = 0 \<and> ik_pending_count k' = 0"
  by (auto simp: ik_source_check_def ik_do_read_def split: if_splits option.splits)

text \<open>C35. Events are not left in the kernel: of three consecutive polls that find the descriptor readable, with
  the timer in between that enables the poll again, one decides to read; a poll that does not read finds at
  most 1024 events pending, half of what the kernel keeps, and reading resets both counters.\<close>

theorem read_delayed_at_most_twice:
  assumes "ik_poll_enabled k" "0 \<le> ik_pending_count k"
    and "ik_source_check True a k = (r1, k1)"
    and "ik_source_check True b (ik_source_timeout k1) = (r2, k2)"
    and "ik_source_check True c (ik_source_timeout k2) = (r3, k3)"
  shows "(r1 \<or> r2 \<or> r3) \<and>
    (r1 \<and> ik_prev_pending k1 = 0 \<and> ik_pending_count k1 = 0 \<or> \<not> r1 \<and> (\<exists>n. a = Some n \<and> n div 32 \<le> 1024))"
proof -
  have "r3" if no: "\<not> r1" "\<not> r2"
  proof (rule ccontr)
    assume "\<not> r3"
    have 1: "ik_pending_count k1 = ik_pending_count k + 1" using pending_count_check [of a k k1] assms no by simp
    have 2: "ik_pending_count k2 = ik_pending_count k1 + 1"
      using pending_count_check [of b "ik_source_timeout k1" k2] 1 assms no by (simp add: ik_source_timeout_def)
    have "ik_pending_count k2 < 2"
      using pending_count_check [of c "ik_source_timeout k2" k3] 1 2 assms \<open>\<not> r3\<close> by (simp add: ik_source_timeout_def)
    then show False using 1 2 assms(2) by simp
  qed
  then show ?thesis using pending_count_check [of a k k1] check_reads [of a k k1] assms by (cases r1) auto
qed

theorem read_delayed_at_most_twice_witness:
  "fst (ik_source_check True (Some 320) ik_init) = False \<and>
   fst (ik_source_check True (Some 640) (ik_source_timeout (snd (ik_source_check True (Some 320) ik_init)))) = False \<and>
   fst (ik_source_check True (Some 960) (ik_source_timeout (snd (ik_source_check True (Some 640)
     (ik_source_timeout (snd (ik_source_check True (Some 320) ik_init))))))) = True"
proof -
  define k1 where "k1 = snd (ik_source_check True (Some 320) ik_init)"
  define k2 where "k2 = snd (ik_source_check True (Some 640) (ik_source_timeout k1))"
  have 1: "ik_source_check True (Some 320) ik_init = (False, k1)"
    unfolding k1_def by (rule prod_eqI) (code_simp, simp)
  have 2: "ik_source_check True (Some 640) (ik_source_timeout k1) = (False, k2)"
    unfolding k2_def k1_def by (rule prod_eqI) (code_simp, simp)
  have "ik_poll_enabled ik_init" "0 \<le> ik_pending_count ik_init" by (simp_all add: ik_init_def)
  from read_delayed_at_most_twice [OF this 1 2 surjective_pairing, of "Some 960"]
  show ?thesis unfolding k1_def [symmetric] k2_def [symmetric] using 1 2 by simp
qed

section \<open>Divergences\<close>

text \<open>The clock is the wall clock: when it is set back, an unmatched half of a move holds itself and every
  event behind it.\<close>

lemma clock_set_back_holds_events:
  "map_option (\<lambda>k. (length (ik_todo k), length (ik_queue k)))
     (ik_process_events (\<lambda>t. if t < 2 then (100, 0) else (50, 0))
        (fold (pushed (\<lambda>t. (100, 0))) [kev IN_MOVED_TO 7 ''b'', kev IN_MODIFY 0 ''c''] ik_init)) = Some (2, 0)"
  by code_simp

end
