(* ===== verification/Gam_Ip_Inv.thy ===== *)
theory Gam_Ip_Inv
  imports Gam_Inotify Gam_Ik_Props Gam_Tree_Inv
begin

unbundle bit_operations_syntax

text \<open>
  The invariant of the inotify back end: the three hash tables, the watched directories, the subscription
  list and the missing list agree, so that no operation follows a pointer to an object that was freed.
\<close>

section \<open>The invariant of the watched directories\<close>

definition ip_inv :: "'b isrv_scheme \<Rightarrow> bool" where
  "ip_inv s \<longleftrightarrow>
     (\<forall>q d. in_sub_hash s q = Some d \<longleftrightarrow> (\<exists>dir. in_dirs s d = Some dir \<and> q \<in> set (wdir_subs dir))) \<and>
     (\<forall>d dir. in_dirs s d = Some dir \<longrightarrow>
        distinct (wdir_subs dir) \<and> wdir_subs dir \<noteq> [] \<and> 0 \<le> wdir_wd dir \<and> d \<in> set (dirs_of (wdir_wd dir) s) \<and>
        d < in_next s) \<and>
     (\<forall>w l. in_wd_hash s w = Some l \<longrightarrow>
        l \<noteq> [] \<and> distinct l \<and> (\<forall>d \<in> set l. \<exists>dir. in_dirs s d = Some dir \<and> wdir_wd dir = w)) \<and>
     (\<forall>p d. in_path_hash s p = Some d \<longrightarrow> (\<exists>dir. in_dirs s d = Some dir \<and> wdir_path dir = p)) \<and>
     (\<forall>q d. in_sub_hash s q = Some d \<longrightarrow> (\<exists>sub. in_subs s q = Some sub)) \<and>
     (\<forall>q sub. in_subs s q = Some sub \<longrightarrow> q < in_next s)"

text \<open>The fields that starting and stopping a watch may change.\<close>

definition ip_frame :: "'b isrv_scheme \<Rightarrow> 'b isrv_scheme \<Rightarrow> bool" where
  "ip_frame s s' \<longleftrightarrow>
     s' = s\<lparr>in_calls := in_calls s', in_dirs := in_dirs s', in_next := in_next s', in_path_hash := in_path_hash s',
            in_sub_hash := in_sub_hash s', in_wd_hash := in_wd_hash s'\<rparr>"

lemma ip_frame_refl [simp]: "ip_frame s s"
  by (simp add: ip_frame_def)

lemma ip_frame_trans: "ip_frame s s' \<Longrightarrow> ip_frame s' s'' \<Longrightarrow> ip_frame s s''"
proof -
  assume a: "ip_frame s s'" and b: "ip_frame s' s''"
  show ?thesis unfolding ip_frame_def
    by (subst b [unfolded ip_frame_def], subst a [unfolded ip_frame_def]) simp
qed

lemma ip_frame_simps:
  assumes "ip_frame s s'"
  shows "in_subs s' = in_subs s" "in_fd s' = in_fd s" "in_ik s' = in_ik s" "in_locked s' = in_locked s"
    "in_missing s' = in_missing s" "in_scanning s' = in_scanning s" "in_list s' = in_list s"
    "sv_subs s' = sv_subs s" "sv_listeners s' = sv_listeners s" "sv_conns s' = sv_conns s" "sv_inotify s' = sv_inotify s"
    "sv_sent s' = sv_sent s" "sv_writes s' = sv_writes s" "sv_closed s' = sv_closed s"
  by (subst assms [unfolded ip_frame_def], simp)+

lemma ip_frame_linked: "ip_frame s s' \<Longrightarrow> sub_linked s' p q = sub_linked s p q"
  by (simp add: sub_linked_def ip_frame_simps)

text \<open>A call that only changes these fields, keeps the invariant and attaches \<open>q\<close> or not.\<close>

lemma dirs_of_iff: "in_wd_hash s w = Some l \<Longrightarrow> dirs_of w s = l"
  by (simp add: dirs_of_def)

lemma ip_invD:
  assumes "ip_inv s"
  shows "\<And>q d. in_sub_hash s q = Some d \<longleftrightarrow> (\<exists>dir. in_dirs s d = Some dir \<and> q \<in> set (wdir_subs dir))"
    "\<And>d dir. in_dirs s d = Some dir \<Longrightarrow> distinct (wdir_subs dir) \<and> wdir_subs dir \<noteq> [] \<and> 0 \<le> wdir_wd dir \<and>
       d \<in> set (dirs_of (wdir_wd dir) s) \<and> d < in_next s"
    "\<And>w l. in_wd_hash s w = Some l \<Longrightarrow>
        l \<noteq> [] \<and> distinct l \<and> (\<forall>d \<in> set l. \<exists>dir. in_dirs s d = Some dir \<and> wdir_wd dir = w)"
    "\<And>p d. in_path_hash s p = Some d \<Longrightarrow> (\<exists>dir. in_dirs s d = Some dir \<and> wdir_path dir = p)"
    "\<And>q d. in_sub_hash s q = Some d \<Longrightarrow> (\<exists>sub. in_subs s q = Some sub)"
    "\<And>q sub. in_subs s q = Some sub \<Longrightarrow> q < in_next s"
  using assms unfolding ip_inv_def by (blast+)

lemma ip_inv_unique: "ip_inv s \<Longrightarrow> in_dirs s d = Some dir \<Longrightarrow> in_dirs s d' = Some dir' \<Longrightarrow>
    q \<in> set (wdir_subs dir) \<Longrightarrow> q \<in> set (wdir_subs dir') \<Longrightarrow> d = d'"
  using ip_invD(1) by (metis option.inject)

lemma ip_inv_dirs_of: "ip_inv s \<Longrightarrow> d \<in> set (dirs_of w s) \<Longrightarrow> \<exists>dir. in_dirs s d = Some dir \<and> wdir_wd dir = w"
  by (cases "in_wd_hash s w") (auto simp: dirs_of_def dest!: ip_invD(3) [where w = w])

lemma ip_inv_dirs_distinct: "ip_inv s \<Longrightarrow> distinct (dirs_of w s)"
  by (cases "in_wd_hash s w") (auto simp: dirs_of_def dest!: ip_invD(3) [where w = w])

lemma ip_invI:
  assumes "\<And>q d. in_sub_hash s q = Some d \<longleftrightarrow> (\<exists>dir. in_dirs s d = Some dir \<and> q \<in> set (wdir_subs dir))"
    "\<And>d dir. in_dirs s d = Some dir \<Longrightarrow> distinct (wdir_subs dir) \<and> wdir_subs dir \<noteq> [] \<and> 0 \<le> wdir_wd dir \<and>
       d \<in> set (dirs_of (wdir_wd dir) s) \<and> d < in_next s"
    "\<And>w l. in_wd_hash s w = Some l \<Longrightarrow>
        l \<noteq> [] \<and> distinct l \<and> (\<forall>d \<in> set l. \<exists>dir. in_dirs s d = Some dir \<and> wdir_wd dir = w)"
    "\<And>p d. in_path_hash s p = Some d \<Longrightarrow> \<exists>dir. in_dirs s d = Some dir \<and> wdir_path dir = p"
    "\<And>q d. in_sub_hash s q = Some d \<Longrightarrow> \<exists>sub. in_subs s q = Some sub"
    "\<And>q sub. in_subs s q = Some sub \<Longrightarrow> q < in_next s"
  shows "ip_inv s"
  unfolding ip_inv_def by (intro conjI) (use assms in blast)+

section \<open>Removing a directory\<close>

text \<open>The state without the directory \<open>d\<close> and without the subscriptions it had.\<close>

definition without_dir :: "cptr \<Rightarrow> ip_watched_dir \<Rightarrow> 'b isrv_scheme \<Rightarrow> 'b isrv_scheme" where
  "without_dir d dir s = s\<lparr>
     in_dirs := (in_dirs s)(d := None),
     in_path_hash := (in_path_hash s)(wdir_path dir := None),
     in_sub_hash := (in_sub_hash s) |` (- set (wdir_subs dir)),
     in_wd_hash := (in_wd_hash s)(wdir_wd dir :=
        (let l = remove1 d (dirs_of (wdir_wd dir) s) in if l = [] then None else Some l))\<rparr>"

lemma without_dir_inv:
  assumes inv: "ip_inv s" and d: "in_dirs s d = Some dir"
  shows "ip_inv (without_dir d dir s)" (is "ip_inv ?s")
proof -
  note D = ip_invD [OF inv]
  have dirs: "in_dirs ?s = (in_dirs s)(d := None)" and sh: "in_sub_hash ?s = (in_sub_hash s) |` (- set (wdir_subs dir))"
    and ph: "in_path_hash ?s = (in_path_hash s)(wdir_path dir := None)" and nx: "in_next ?s = in_next s"
    and sb: "in_subs ?s = in_subs s" by (simp_all add: without_dir_def)
  have wh: "in_wd_hash ?s w = (if w = wdir_wd dir then
      (let l = remove1 d (dirs_of w s) in if l = [] then None else Some l) else in_wd_hash s w)" for w
    by (simp add: without_dir_def)
  have dof: "dirs_of w ?s = remove1 d (dirs_of w s)" for w
  proof (cases "w = wdir_wd dir")
    case False
    have "d \<notin> set (dirs_of w s)" using ip_inv_dirs_of [OF inv, of d w] d False by auto
    then show ?thesis using False by (simp add: dirs_of_def wh remove1_idem)
  qed (auto simp: dirs_of_def wh)
  have 1: "in_sub_hash ?s q = Some a \<longleftrightarrow> (\<exists>x. in_dirs ?s a = Some x \<and> q \<in> set (wdir_subs x))" for q a
  proof -
    have "q \<in> set (wdir_subs dir) \<Longrightarrow> in_dirs s a = Some x \<Longrightarrow> q \<in> set (wdir_subs x) \<Longrightarrow> a = d" for x
      using ip_inv_unique [OF inv] d by blast
    then show ?thesis using D(1) [of q a] d by (auto simp: dirs sh restrict_map_def)
  qed
  have 2: "distinct (wdir_subs x) \<and> wdir_subs x \<noteq> [] \<and> 0 \<le> wdir_wd x \<and> a \<in> set (dirs_of (wdir_wd x) ?s) \<and> a < in_next ?s"
    if "in_dirs ?s a = Some x" for a x
  proof -
    have "in_dirs s a = Some x" "a \<noteq> d" using that by (auto simp: dirs split: if_splits)
    then show ?thesis using D(2) [of a x] ip_inv_dirs_distinct [OF inv] by (simp add: dof nx)
  qed
  have 3: "l \<noteq> [] \<and> distinct l \<and> (\<forall>a\<in>set l. \<exists>x. in_dirs ?s a = Some x \<and> wdir_wd x = w)"
    if l: "in_wd_hash ?s w = Some l" for w l
  proof -
    have ne: "l \<noteq> []" using l D(3) [of w l] by (auto simp: wh split: if_splits)
    have "l = remove1 d (dirs_of w s)" using dof [of w] l by (simp add: dirs_of_def)
    then show ?thesis using ne ip_inv_dirs_of [OF inv] ip_inv_dirs_distinct [OF inv] by (auto simp: dirs)
  qed
  have 4: "\<exists>x. in_dirs ?s a = Some x \<and> wdir_path x = p" if "in_path_hash ?s p = Some a" for p a
  proof -
    have pa: "in_path_hash s p = Some a" "p \<noteq> wdir_path dir" using that by (auto simp: ph split: if_splits)
    then obtain x where "in_dirs s a = Some x" "wdir_path x = p" using D(4) by blast
    then show ?thesis using pa(2) d by (auto simp: dirs)
  qed
  have 5: "\<exists>sub. in_subs ?s q = Some sub" if "in_sub_hash ?s q = Some a" for q a
    using that D(5) by (auto simp: sh sb restrict_map_def split: if_splits)
  show ?thesis using 1 2 3 4 5 D(6) unfolding sb [symmetric] nx [symmetric] by (rule ip_invI)
qed

lemma without_dir_frame: "ip_frame s (without_dir d dir s)"
  by (simp add: ip_frame_def without_dir_def)

section \<open>Stopping a watch\<close>

lemma ip_frame_calls: "ip_frame s (s\<lparr>in_calls := c\<rparr>)"
  by (simp add: ip_frame_def)

lemma ip_inv_calls [simp]: "ip_inv (s\<lparr>in_calls := c\<rparr>) = ip_inv s"
  by (simp add: ip_inv_def dirs_of_def)

lemma dirs_of_calls [simp]: "dirs_of w (s\<lparr>in_calls := c\<rparr>) = dirs_of w s"
  by (simp add: dirs_of_def)

text \<open>A directory that keeps other subscriptions loses \<open>q\<close> only.\<close>

lemma ip_inv_drop_sub:
  assumes inv: "ip_inv s" and d: "in_dirs s d = Some dir" and q: "q \<in> set (wdir_subs dir)"
    and ne: "remove1 q (wdir_subs dir) \<noteq> []"
  shows "ip_inv (upd_dir d (\<lambda>dir. dir\<lparr>wdir_subs := remove1 q (wdir_subs dir)\<rparr>)
           (s\<lparr>in_sub_hash := (in_sub_hash s)(q := None)\<rparr>))" (is "ip_inv ?s")
proof -
  note D = ip_invD [OF inv]
  have dirs: "in_dirs ?s = (in_dirs s)(d \<mapsto> dir\<lparr>wdir_subs := remove1 q (wdir_subs dir)\<rparr>)"
    and dof: "\<And>w. dirs_of w ?s = dirs_of w s"
    using d by (simp_all add: upd_dir_def dirs_of_def)
  have dist: "distinct (wdir_subs dir)" using D(2) [OF d] by simp
  have other: "q \<notin> set (wdir_subs x)" if "in_dirs s a = Some x" "a \<noteq> d" for a x
    using ip_inv_unique [OF inv that(1) d] q that(2) by blast
  have "in_sub_hash ?s r = Some a \<longleftrightarrow> (\<exists>x. in_dirs ?s a = Some x \<and> r \<in> set (wdir_subs x))" for r a
    using D(1) [of r a] d dist other unfolding dirs by (auto simp: upd_dir_def)
  moreover have "distinct (wdir_subs x) \<and> wdir_subs x \<noteq> [] \<and> 0 \<le> wdir_wd x \<and> a \<in> set (dirs_of (wdir_wd x) ?s) \<and>
      a < in_next ?s" if "in_dirs ?s a = Some x" for a x
    using that D(2) [OF d] D(2) [of a x] ne dist unfolding dirs dof by (auto simp: upd_dir_def split: if_splits)
  moreover have "l \<noteq> [] \<and> distinct l \<and> (\<forall>a\<in>set l. \<exists>x. in_dirs ?s a = Some x \<and> wdir_wd x = w)"
    if "in_wd_hash ?s w = Some l" for w l
    using D(3) [of w l] that d unfolding dirs by (fastforce simp: upd_dir_def)
  moreover have "\<exists>x. in_dirs ?s a = Some x \<and> wdir_path x = p" if "in_path_hash ?s p = Some a" for p a
    using D(4) [of p a] that d unfolding dirs by (fastforce simp: upd_dir_def)
  moreover have "\<exists>sub. in_subs ?s r = Some sub" if "in_sub_hash ?s r = Some a" for r a
    using D(5) [of r a] that by (auto simp: upd_dir_def split: if_splits)
  moreover have "r < in_next ?s" if "in_subs ?s r = Some sub" for r sub using D(6) that by (simp add: upd_dir_def)
  ultimately show ?thesis by (rule ip_invI)
qed

lemma ip_stop_watching_runs:
  assumes inv: "ip_inv s" and fd: "0 \<le> in_fd s"
  shows "\<exists>s'. ip_stop_watching q s = Some s' \<and> ip_inv s' \<and> ip_frame s s' \<and>
    in_sub_hash s' = (in_sub_hash s)(q := None)"
proof (cases "in_sub_hash s q")
  case None
  then have "(in_sub_hash s)(q := None) = in_sub_hash s" by (simp add: fun_upd_idem)
  then show ?thesis using None inv by (simp add: ip_stop_watching_def)
next
  case (Some d)
  note D = ip_invD [OF inv]
  obtain dir where d: "in_dirs s d = Some dir" "q \<in> set (wdir_subs dir)" using D(1) Some by blast
  let ?s1 = "upd_dir d (\<lambda>dir. dir\<lparr>wdir_subs := remove1 q (wdir_subs dir)\<rparr>)
           (s\<lparr>in_sub_hash := (in_sub_hash s)(q := None)\<rparr>)"
  show ?thesis
  proof (cases "remove1 q (wdir_subs dir) = []")
    case False
    have "ip_stop_watching q s = Some ?s1"
      using Some d False by (simp add: ip_stop_watching_def ip_unmap_sub_dir_def upd_dir_def)
    moreover have "ip_frame s ?s1" by (simp add: ip_frame_def upd_dir_def)
    ultimately show ?thesis using ip_inv_drop_sub [OF inv d False] by (simp add: upd_dir_def)
  next
    case True
    have qs: "wdir_subs dir = [q]"
      using True d(2) by (cases "wdir_subs dir") (auto split: if_splits)
    have w: "0 \<le> wdir_wd dir" "d \<in> set (dirs_of (wdir_wd dir) s)" using D(2) [OF d(1)] by auto
    then obtain l where l: "in_wd_hash s (wdir_wd dir) = Some l"
      by (cases "in_wd_hash s (wdir_wd dir)") (auto simp: dirs_of_def)
    define s' where "s' = (without_dir d dir s)\<lparr>in_calls := in_calls s @ [K_RM (wdir_wd dir)]\<rparr>"
    have "ip_stop_watching q s = Some s'"
      using Some d True fd w(1) l qs
      by (simp add: ip_stop_watching_def ip_unmap_sub_dir_def upd_dir_def ik_ignore_def ip_unmap_wd_dir_def
          ip_unmap_path_dir_def ip_watched_dir_free_def s'_def without_dir_def dirs_of_def restrict_map_def
          fun_eq_iff isrv.defs)
    moreover have "ip_inv s'" by (simp add: s'_def without_dir_inv [OF inv d(1)])
    moreover have "ip_frame s s'" unfolding s'_def by (rule ip_frame_trans [OF without_dir_frame ip_frame_calls])
    moreover have "in_sub_hash s' = (in_sub_hash s)(q := None)"
      by (simp add: s'_def without_dir_def qs restrict_map_def fun_eq_iff)
    ultimately show ?thesis by blast
  qed
qed

section \<open>Looking for a parent that exists\<close>

text \<open>The last path the loop over the parents gets to.\<close>

definition top_dir :: "string \<Rightarrow> string" where
  "top_dir p = slash # takeWhile (\<lambda>c. c \<noteq> slash) (tl p)"

definition top_found :: "'e ienv_scheme \<Rightarrow> string \<Rightarrow> bool" where
  "top_found en p \<longleftrightarrow> p ! 0 \<noteq> slash \<or> (\<forall>cs m. ie_watch en cs (top_dir p) m \<noteq> ADD_NOENT)"

lemma last_slash_Some: "last_slash p = Some i \<Longrightarrow> i < length p \<and> p ! i = slash \<and> slash \<notin> set (drop (Suc i) p)"
proof -
  assume l: "last_slash p = Some i"
  then have "slash \<in> set p" by (simp add: last_slash_def split: if_splits)
  then obtain xs ys where p: "p = xs @ slash # ys" "slash \<notin> set ys" by (metis split_list_last)
  have "takeWhile (\<lambda>c. c \<noteq> slash) (rev p) = rev ys"
    using p(2) by (simp add: p(1)) (subst takeWhile_append2, auto)
  then have "i = length xs" using l p by (simp add: last_slash_def)
  then show ?thesis using p by simp
qed

lemma last_slash_0:
  assumes "last_slash p = Some 0"
  shows "p = top_dir p"
proof -
  have p: "p \<noteq> []" "p ! 0 = slash" "slash \<notin> set (tl p)"
    using last_slash_Some [OF assms] by (auto simp: drop_Suc)
  have "takeWhile (\<lambda>c. c \<noteq> slash) (tl p) = tl p"
    unfolding takeWhile_eq_all_conv using p(3) by auto
  then show ?thesis unfolding top_dir_def using p(1,2) by (metis hd_Cons_tl hd_conv_nth)
qed

lemma top_dir_take:
  assumes l: "last_slash p = Some i" and i: "i \<noteq> 0" and hd: "p ! 0 = slash"
  shows "top_dir (take i p) = top_dir p"
proof -
  obtain n where n: "i = Suc n" using i by (cases i) auto
  have s: "tl p ! n = slash" "n < length (tl p)" using last_slash_Some [OF l] n by (auto simp: nth_tl)
  have "takeWhile (\<lambda>c. c \<noteq> slash) (tl p) = takeWhile (\<lambda>c. c \<noteq> slash) (take n (tl p) @ slash # drop (Suc n) (tl p))"
    using s by (metis id_take_nth_drop)
  also have "\<dots> = takeWhile (\<lambda>c. c \<noteq> slash) (take n (tl p))"
    by (auto simp: takeWhile_append intro!: takeWhile_eq_all_conv [THEN iffD2, symmetric])
  finally show ?thesis by (simp add: top_dir_def n tl_take)
qed

lemma count_pos: "x \<in> set xs \<Longrightarrow> 1 \<le> length (filter (\<lambda>c. c = x) xs)"
  by (induction xs) auto

text \<open>When the first component of the path is never missing, the loop ends; it makes one call per slash at
  most, and a directory it finds is a prefix of the path.\<close>

lemma ip_watch_parent_ends:
  assumes fd: "0 \<le> in_fd s" and top: "top_found en p"
  shows "\<exists>r c. ip_watch_parent en p m s = Some (r, s\<lparr>in_calls := c\<rparr>) \<and>
    length c \<le> length (in_calls s) + length (filter (\<lambda>c. c = slash) p) \<and>
    (\<forall>wd p'. r = Some (wd, p') \<longrightarrow> (\<exists>n. p' = take n p))"
  using assms
proof (induction "length p" arbitrary: p s rule: less_induct)
  case less
  show ?case
  proof (cases "last_slash p")
    case None
    then show ?thesis
      by (subst ip_watch_parent.simps) (auto intro!: exI [of _ None] exI [of _ "in_calls s"])
  next
    case (Some i)
    define q where "q = (if i \<noteq> 0 then take i p else p)"
    define s1 where "s1 = s\<lparr>in_calls := in_calls s @ [K_ADD q m]\<rparr>"
    have w: "ik_watch en q m s = Some (ie_watch en (in_calls s) q m, s1)"
      using less.prems(1) by (simp add: ik_watch_def s1_def)
    have run: "ip_watch_parent en p m s = (case ie_watch en (in_calls s) q m of
          ADD_NOENT \<Rightarrow> ip_watch_parent en q m s1 | ADD_WD wd \<Rightarrow> Some (Some (wd, q), s1) | ADD_ERR \<Rightarrow> Some (None, s1))"
      by (subst ip_watch_parent.simps) (simp only: Some option.case q_def [symmetric] Let_def w Option.bind.bind_lunit prod.case)
    have sl: "slash \<in> set p" using last_slash_Some [OF Some] by (metis nth_mem)
    then have n1: "1 \<le> length (filter (\<lambda>c. c = slash) p)" by (rule count_pos)
    have tk: "\<exists>n. q = take n p" by (cases "i = 0") (auto simp: q_def intro: exI [of _ "length p"])
    show ?thesis
    proof (cases "ie_watch en (in_calls s) q m = ADD_NOENT")
      case False
      obtain r where r: "ip_watch_parent en p m s = Some (r, s1)" "r = None \<or> (\<exists>wd. r = Some (wd, q))"
        using run False by (cases "ie_watch en (in_calls s) q m") auto
      have "\<forall>wd p'. r = Some (wd, p') \<longrightarrow> (\<exists>n. p' = take n p)" using r(2) tk by blast
      then show ?thesis
        using r(1) n1 by (intro exI [of _ r] exI [of _ "in_calls s @ [K_ADD q m]"]) (simp add: s1_def)
    next
      case True
      have i0: "i \<noteq> 0"
      proof
        assume "i = 0"
        then have "p ! 0 = slash" "q = top_dir p"
          using last_slash_Some [OF Some] last_slash_0 [of p] Some by (auto simp: q_def)
        then show False using True less.prems(2) unfolding top_found_def by blast
      qed
      have q: "q = take i p" "length q < length p" using i0 last_slash_Some [OF Some] by (simp_all add: q_def)
      have cnt: "Suc (length (filter (\<lambda>c. c = slash) q)) \<le> length (filter (\<lambda>c. c = slash) p)"
      proof -
        have p: "p = take i p @ slash # drop (Suc i) p" using last_slash_Some [OF Some] by (metis id_take_nth_drop)
        have "length (filter (\<lambda>c. c = slash) (take i p @ slash # drop (Suc i) p)) =
            Suc (length (filter (\<lambda>c. c = slash) (take i p)) + length (filter (\<lambda>c. c = slash) (drop (Suc i) p)))" by simp
        then show ?thesis unfolding p [symmetric] q(1) by linarith
      qed
      have fd1: "0 \<le> in_fd s1" using less.prems(1) by (simp add: s1_def)
      have "q ! 0 = p ! 0" using i0 by (simp add: q(1))
      then have "top_found en q" using less.prems(2) top_dir_take [OF Some i0] q(1) by (auto simp: top_found_def)
      from less.hyps [OF q(2) fd1 this] obtain r c where
        r: "ip_watch_parent en q m s1 = Some (r, s1\<lparr>in_calls := c\<rparr>)"
          "length c \<le> length (in_calls s1) + length (filter (\<lambda>c. c = slash) q)"
          "\<forall>wd p'. r = Some (wd, p') \<longrightarrow> (\<exists>n. p' = take n q)" by blast
      have "\<forall>wd p'. r = Some (wd, p') \<longrightarrow> (\<exists>n. p' = take n p)" using r(3) q(1) by (metis take_take)
      then show ?thesis
        using r(1,2) cnt run True by (intro exI [of _ r] exI [of _ c]) (auto simp: s1_def)
    qed
  qed
qed

text \<open>A path in the root directory that stays missing: the loop asks for it again and again and never ends.\<close>

lemma ip_watch_parent_loops:
  assumes "last_slash p = Some 0" "\<And>cs. ie_watch en cs p m = ADD_NOENT"
  shows "ip_watch_parent en p m s = None"
proof (rule ccontr)
  assume "ip_watch_parent en p m s \<noteq> None"
  then obtain y where y: "ip_watch_parent en p m s = Some y" by blast
  have "\<not> (last_slash p = Some 0 \<and> (\<forall>cs. ie_watch en cs p m = ADD_NOENT))"
  proof (rule ip_watch_parent.raw_induct
      [where P = "\<lambda>en p m s y. \<not> (last_slash p = Some 0 \<and> (\<forall>cs. ie_watch en cs p m = ADD_NOENT))", OF _ y])
    fix f :: "'a ienv_scheme \<Rightarrow> string \<Rightarrow> kmask \<Rightarrow> 'b isrv_scheme \<Rightarrow> ((nat \<times> string) option \<times> 'b isrv_scheme) option"
      and en p m s y
    assume IH: "\<And>en p m s y. f en p m s = Some y \<Longrightarrow> \<not> (last_slash p = Some 0 \<and> (\<forall>cs. ie_watch en cs p m = ADD_NOENT))"
      and eq: "(case last_slash p of None \<Rightarrow> Some (None, s)
        | Some i \<Rightarrow> let p = if i \<noteq> 0 then take i p else p
            in do { (r, s1) \<leftarrow> ik_watch en p m s;
                    case r of ADD_NOENT \<Rightarrow> f en p m s1 | ADD_WD wd \<Rightarrow> Some (Some (wd, p), s1)
                    | ADD_ERR \<Rightarrow> Some (None, s1) }) = Some y"
    show "\<not> (last_slash p = Some 0 \<and> (\<forall>cs. ie_watch en cs p m = ADD_NOENT))"
    proof
      assume a: "last_slash p = Some 0 \<and> (\<forall>cs. ie_watch en cs p m = ADD_NOENT)"
      then obtain s1 where "f en p m s1 = Some y" using eq by (auto simp: ik_watch_def split: if_splits)
      then show False using IH a by blast
    qed
  qed
  then show False using assms by blast
qed

section \<open>Starting a watch\<close>

text \<open>The state with a new directory whose only subscription is \<open>q\<close>.\<close>

definition with_dir :: "cptr \<Rightarrow> string \<Rightarrow> nat \<Rightarrow> 'b isrv_scheme \<Rightarrow> 'b isrv_scheme" where
  "with_dir q path wd s = s\<lparr>
     in_dirs := (in_dirs s)(in_next s \<mapsto> \<lparr>wdir_path = path, wdir_wd = int wd, wdir_subs = [q]\<rparr>),
     in_next := Suc (in_next s),
     in_path_hash := (in_path_hash s)(path \<mapsto> in_next s),
     in_sub_hash := (in_sub_hash s)(q \<mapsto> in_next s),
     in_wd_hash := (in_wd_hash s)(int wd \<mapsto> in_next s # dirs_of (int wd) s)\<rparr>"

lemma with_dir_run:
  "do { (d, s1) \<leftarrow> add_watched_dir path wd s; ip_map_sub_dir q d s1 } = Some (with_dir q path wd s)"
  by (simp add: add_watched_dir_def ip_watched_dir_new_def ip_map_wd_dir_def ip_map_path_dir_def ip_map_sub_dir_def
      upd_dir_def with_dir_def dirs_of_def)

lemma with_dir_frame: "ip_frame s (with_dir q path wd s)"
  by (simp add: ip_frame_def with_dir_def)

lemma with_dir_inv:
  assumes inv: "ip_inv s" and q: "in_sub_hash s q = None" "in_subs s q = Some sub" "\<not> hs_cancelled sub"
  shows "ip_inv (with_dir q path wd s)" (is "ip_inv ?s")
proof -
  note D = ip_invD [OF inv]
  let ?d = "in_next s"
  have fr: "in_dirs s ?d = None" using D(2) [of ?d] by (cases "in_dirs s ?d") auto
  have nd: "?d \<notin> set (dirs_of w s)" for w using ip_inv_dirs_of [OF inv, of ?d w] fr by auto
  have dirs: "in_dirs ?s = (in_dirs s)(?d \<mapsto> \<lparr>wdir_path = path, wdir_wd = int wd, wdir_subs = [q]\<rparr>)"
    by (simp add: with_dir_def)
  have dof: "dirs_of w ?s = (if w = int wd then [?d] else []) @ dirs_of w s" for w
    by (simp add: dirs_of_def with_dir_def)
  have q': "q \<notin> set (wdir_subs x)" if "in_dirs s a = Some x" for a x using D(1) [of q a] q(1) that by auto
  have "in_sub_hash ?s r = Some a \<longleftrightarrow> (\<exists>x. in_dirs ?s a = Some x \<and> r \<in> set (wdir_subs x))" for r a
    using D(1) [of r a] fr q' unfolding dirs by (auto simp: with_dir_def)
  moreover have "distinct (wdir_subs x) \<and> wdir_subs x \<noteq> [] \<and> 0 \<le> wdir_wd x \<and> a \<in> set (dirs_of (wdir_wd x) ?s) \<and>
      a < in_next ?s" if "in_dirs ?s a = Some x" for a x
    using that D(2) [of a x] unfolding dirs dof by (auto simp: with_dir_def split: if_splits)
  moreover have "l \<noteq> [] \<and> distinct l \<and> (\<forall>a\<in>set l. \<exists>x. in_dirs ?s a = Some x \<and> wdir_wd x = w)"
    if l: "in_wd_hash ?s w = Some l" for w l
  proof (cases "w = int wd")
    case True
    then have "l = ?d # dirs_of w s" using l by (simp add: with_dir_def)
    then show ?thesis
      using nd ip_inv_dirs_distinct [OF inv] ip_inv_dirs_of [OF inv, of _ w] True fr by (auto simp: dirs)
  next
    case False
    then have "in_wd_hash s w = Some l" using l by (simp add: with_dir_def)
    then show ?thesis using D(3) [of w l] fr by (fastforce simp: dirs)
  qed
  moreover have "\<exists>x. in_dirs ?s a = Some x \<and> wdir_path x = p" if "in_path_hash ?s p = Some a" for p a
    using D(4) [of p a] that fr unfolding dirs by (fastforce simp: with_dir_def split: if_splits)
  moreover have "\<exists>sub. in_subs ?s r = Some sub" if "in_sub_hash ?s r = Some a" for r a
    using D(5) [of r a] that q by (auto simp: with_dir_def split: if_splits)
  moreover have "r < in_next ?s" if "in_subs ?s r = Some sub" for r sub using D(6) that by (fastforce simp: with_dir_def)
  ultimately show ?thesis by (rule ip_invI)
qed

text \<open>A directory that is watched already gets one more subscription.\<close>

lemma ip_inv_map_sub:
  assumes inv: "ip_inv s" and q: "in_sub_hash s q = None" "in_subs s q = Some sub" "\<not> hs_cancelled sub"
    and d: "in_dirs s d = Some dir"
  shows "\<exists>s'. ip_map_sub_dir q d s = Some s' \<and> ip_inv s' \<and> ip_frame s s' \<and> in_sub_hash s' = (in_sub_hash s)(q \<mapsto> d)"
proof -
  note D = ip_invD [OF inv]
  let ?s = "upd_dir d (\<lambda>dir. dir\<lparr>wdir_subs := q # wdir_subs dir\<rparr>) (s\<lparr>in_sub_hash := (in_sub_hash s)(q \<mapsto> d)\<rparr>)"
  have dirs: "in_dirs ?s = (in_dirs s)(d \<mapsto> dir\<lparr>wdir_subs := q # wdir_subs dir\<rparr>)"
    and dof: "\<And>w. dirs_of w ?s = dirs_of w s"
    using d by (simp_all add: upd_dir_def dirs_of_def)
  have q': "q \<notin> set (wdir_subs x)" if "in_dirs s a = Some x" for a x using D(1) [of q a] q(1) that by auto
  have "in_sub_hash ?s r = Some a \<longleftrightarrow> (\<exists>x. in_dirs ?s a = Some x \<and> r \<in> set (wdir_subs x))" for r a
    using D(1) [of r a] d q' unfolding dirs by (auto simp: upd_dir_def)
  moreover have "distinct (wdir_subs x) \<and> wdir_subs x \<noteq> [] \<and> 0 \<le> wdir_wd x \<and> a \<in> set (dirs_of (wdir_wd x) ?s) \<and>
      a < in_next ?s" if "in_dirs ?s a = Some x" for a x
    using that D(2) [OF d] D(2) [of a x] q' [OF d] unfolding dirs dof by (auto simp: upd_dir_def split: if_splits)
  moreover have "l \<noteq> [] \<and> distinct l \<and> (\<forall>a\<in>set l. \<exists>x. in_dirs ?s a = Some x \<and> wdir_wd x = w)"
    if "in_wd_hash ?s w = Some l" for w l
    using D(3) [of w l] that d unfolding dirs by (fastforce simp: upd_dir_def)
  moreover have "\<exists>x. in_dirs ?s a = Some x \<and> wdir_path x = p" if "in_path_hash ?s p = Some a" for p a
    using D(4) [of p a] that d unfolding dirs by (fastforce simp: upd_dir_def)
  moreover have "\<exists>sub. in_subs ?s r = Some sub" if "in_sub_hash ?s r = Some a" for r a
    using D(5) [of r a] that q by (auto simp: upd_dir_def split: if_splits)
  moreover have "r < in_next ?s" if "in_subs ?s r = Some sub" for r sub using D(6) that by (simp add: upd_dir_def)
  ultimately have "ip_inv ?s" by (rule ip_invI)
  then show ?thesis using d by (simp add: ip_map_sub_dir_def ip_frame_def upd_dir_def)
qed

lemma ip_start_watching_runs:
  fixes s :: "'b isrv_scheme"
  assumes inv: "ip_inv s" and fd: "0 \<le> in_fd s" and q: "in_sub_hash s q = None"
    and sub: "in_subs s q = Some sub" "\<not> hs_cancelled sub" and top: "top_found en (hs_dirname sub)"
  shows "\<exists>b s'. ip_start_watching en q s = Some (b, s') \<and> ip_inv s' \<and> ip_frame s s' \<and>
    (if b then \<exists>d. in_sub_hash s' = (in_sub_hash s)(q \<mapsto> d) else in_sub_hash s' = in_sub_hash s)"
proof (cases "in_path_hash s (hs_dirname sub)")
  case (Some d)
  then obtain dir where "in_dirs s d = Some dir" using ip_invD(4) [OF inv] by blast
  then show ?thesis using ip_inv_map_sub [OF inv q sub] Some sub by (fastforce simp: ip_start_watching_def)
next
  case None
  define m where "m = (IP_INOTIFY_MASK OR IN_ONLYDIR OR hs_flags sub)"
  define s1 where "s1 = s\<lparr>in_calls := in_calls s @ [K_ADD (hs_dirname sub) m]\<rparr>"
  have w: "ik_watch en (hs_dirname sub) m s = Some (ie_watch en (in_calls s) (hs_dirname sub) m, s1)"
    using fd by (simp add: ik_watch_def s1_def)
  have new: "do { (d, s2) \<leftarrow> add_watched_dir path wd s'; s3 \<leftarrow> ip_map_sub_dir q d s2; Some (True, s3) } =
      Some (True, with_dir q path wd s')" for path wd and s' :: "'b isrv_scheme"
    using with_dir_run [of path wd s' q] by (cases "add_watched_dir path wd s'") auto
  have fin: "ip_inv (with_dir q path wd (s\<lparr>in_calls := c\<rparr>)) \<and> ip_frame s (with_dir q path wd (s\<lparr>in_calls := c\<rparr>)) \<and>
      (\<exists>d. in_sub_hash (with_dir q path wd (s\<lparr>in_calls := c\<rparr>)) = (in_sub_hash s)(q \<mapsto> d))" for path wd c
  proof -
    have "ip_inv (with_dir q path wd (s\<lparr>in_calls := c\<rparr>))"
      by (rule with_dir_inv [where sub = sub]) (use inv q sub in auto)
    then show ?thesis using ip_frame_trans [OF ip_frame_calls with_dir_frame] by (auto simp: with_dir_def)
  qed
  have run: "ip_start_watching en q s =
      (case ie_watch en (in_calls s) (hs_dirname sub) m of
         ADD_ERR \<Rightarrow> Some (False, s1)
       | ADD_WD wd \<Rightarrow> Some (True, with_dir q (hs_dirname sub) wd s1)
       | ADD_NOENT \<Rightarrow>
           do { (found, s2) \<leftarrow> ip_watch_parent en (hs_dirname sub) m s1;
                case found of None \<Rightarrow> Some (False, s2)
                | Some (wd, parent_path) \<Rightarrow> Some (True, with_dir q parent_path wd s2) })"
    unfolding ip_start_watching_def sub(1) Option.bind.bind_lunit Let_def m_def [symmetric] w None option.case prod.case
    using sub(2) by (simp add: new cong: watchres.case_cong option.case_cong)
  have i1: "ip_inv s1" "ip_frame s s1" using inv by (simp_all add: s1_def ip_frame_calls)
  show ?thesis
  proof (cases "ie_watch en (in_calls s) (hs_dirname sub) m")
    case (ADD_WD wd)
    then show ?thesis using run fin [of "hs_dirname sub" wd] by (fastforce simp: s1_def)
  next
    case ADD_ERR
    then show ?thesis using run i1 by (fastforce simp: s1_def)
  next
    case ADD_NOENT
    have "0 \<le> in_fd s1" using fd by (simp add: s1_def)
    from ip_watch_parent_ends [OF this top, of m] obtain r c where
      r: "ip_watch_parent en (hs_dirname sub) m s1 = Some (r, s1\<lparr>in_calls := c\<rparr>)" by blast
    have s2: "s1\<lparr>in_calls := c\<rparr> = s\<lparr>in_calls := c\<rparr>" by (simp add: s1_def)
    show ?thesis
    proof (cases r)
      case None
      then show ?thesis using run ADD_NOENT r inv s2
        by (intro exI [of _ False] exI [of _ "s\<lparr>in_calls := c\<rparr>"]) (simp add: ip_frame_calls)
    next
      case (Some x)
      obtain wd pp where x: "x = (wd, pp)" by fastforce
      then show ?thesis using run ADD_NOENT r Some fin [of pp wd c] s2 by (fastforce simp: x)
    qed
  qed
qed

section \<open>Deleting the directories of a descriptor\<close>

text \<open>One directory is freed and its subscriptions become missing; the list of the descriptor still names it.\<close>

definition missing_frame :: "'b isrv_scheme \<Rightarrow> 'b isrv_scheme \<Rightarrow> bool" where
  "missing_frame s s' \<longleftrightarrow> s' = s\<lparr>in_missing := in_missing s', in_scanning := in_scanning s'\<rparr>"

lemma missing_frame_trans: "missing_frame s s' \<Longrightarrow> missing_frame s' s'' \<Longrightarrow> missing_frame s s''"
proof -
  assume a: "missing_frame s s'" and b: "missing_frame s' s''"
  show ?thesis unfolding missing_frame_def
    by (subst b [unfolded missing_frame_def], subst a [unfolded missing_frame_def]) simp
qed

lemma im_add_frame: "missing_frame s (im_add q s)"
  by (simp add: missing_frame_def im_add_def)

lemma fold_im_add_frame: "missing_frame s (fold im_add qs s)"
  by (induction qs arbitrary: s) (auto simp: missing_frame_def [of s s for s] intro: missing_frame_trans im_add_frame)

lemma fold_im_add_set [simp]: "set (in_missing (fold im_add qs s)) = set qs \<union> set (in_missing s)"
  by (induction qs arbitrary: s) (auto simp: im_add_def)

lemma fold_im_add_distinct: "distinct (in_missing s) \<Longrightarrow> distinct (in_missing (fold im_add qs s))"
  by (induction qs arbitrary: s) (auto simp: im_add_def)

lemma fold_im_add_scanning:
  "in_missing s \<noteq> [] \<longrightarrow> in_scanning s \<Longrightarrow> in_missing (fold im_add qs s) \<noteq> [] \<longrightarrow> in_scanning (fold im_add qs s)"
  by (induction qs arbitrary: s) (auto simp: im_add_def)

text \<open>\<open>rest\<close> is what is left of the list of the descriptor \<open>w\<close>.\<close>

definition wd_list :: "int \<Rightarrow> cptr list \<Rightarrow> 'b isrv_scheme \<Rightarrow> 'b isrv_scheme" where
  "wd_list w rest s = s\<lparr>in_wd_hash := (in_wd_hash s)(w := if rest = [] then None else Some rest)\<rparr>"

lemma missing_frame_simps:
  assumes "missing_frame s s'"
  shows "in_dirs s' = in_dirs s" "in_path_hash s' = in_path_hash s" "in_sub_hash s' = in_sub_hash s"
    "in_wd_hash s' = in_wd_hash s" "in_next s' = in_next s" "in_subs s' = in_subs s"
  by (subst assms [unfolded missing_frame_def], simp)+

text \<open>The fields that the dispatch of an event may change, apart from what the emission changes.\<close>

definition in_frame :: "'b isrv_scheme \<Rightarrow> 'b isrv_scheme \<Rightarrow> bool" where
  "in_frame s s' \<longleftrightarrow>
     s' = s\<lparr>in_calls := in_calls s', in_dirs := in_dirs s', in_next := in_next s', in_path_hash := in_path_hash s',
            in_sub_hash := in_sub_hash s', in_wd_hash := in_wd_hash s', in_missing := in_missing s',
            in_scanning := in_scanning s'\<rparr>"

lemma in_frame_trans: "in_frame s s' \<Longrightarrow> in_frame s' s'' \<Longrightarrow> in_frame s s''"
proof -
  assume a: "in_frame s s'" and b: "in_frame s' s''"
  show ?thesis unfolding in_frame_def
    by (subst b [unfolded in_frame_def], subst a [unfolded in_frame_def]) simp
qed

lemma ip_in_frame: "ip_frame s s' \<Longrightarrow> in_frame s s'"
proof -
  assume a: "ip_frame s s'"
  show ?thesis unfolding in_frame_def by (subst (1) a [unfolded ip_frame_def]) (simp add: ip_frame_simps [OF a])
qed

lemma in_frame_simps:
  assumes "in_frame s s'"
  shows "in_subs s' = in_subs s" "in_fd s' = in_fd s" "in_ik s' = in_ik s" "in_locked s' = in_locked s"
    "in_list s' = in_list s" "sv_subs s' = sv_subs s" "sv_listeners s' = sv_listeners s" "sv_conns s' = sv_conns s"
  by (subst assms [unfolded in_frame_def], simp)+

text \<open>Subscriptions only move from a directory to the missing list.\<close>

definition detached :: "'b isrv_scheme \<Rightarrow> 'b isrv_scheme \<Rightarrow> bool" where
  "detached s s' \<longleftrightarrow>
     in_frame s s' \<and>
     dom (in_sub_hash s') \<union> set (in_missing s') = dom (in_sub_hash s) \<union> set (in_missing s) \<and>
     (dom (in_sub_hash s) \<inter> set (in_missing s) = {} \<longrightarrow> dom (in_sub_hash s') \<inter> set (in_missing s') = {}) \<and>
     (distinct (in_missing s) \<longrightarrow> distinct (in_missing s')) \<and>
     ((in_missing s \<noteq> [] \<longrightarrow> in_scanning s) \<longrightarrow> in_missing s' \<noteq> [] \<longrightarrow> in_scanning s')"

lemma detached_trans: "detached s s' \<Longrightarrow> detached s' s'' \<Longrightarrow> detached s s''"
  unfolding detached_def by (intro conjI) (blast intro: in_frame_trans, simp, blast+)

lemma ip_wd_delete_runs:
  assumes inv: "ip_inv (wd_list w (d # ds) s)"
  shows "\<exists>s'. ip_wd_delete d s = Some s' \<and> ip_inv (wd_list w ds s') \<and> detached s s'"
proof -
  let ?t = "wd_list w (d # ds) s"
  have "in_wd_hash ?t w = Some (d # ds)" by (simp add: wd_list_def)
  then obtain dir where d: "in_dirs s d = Some dir" "wdir_wd dir = w" "d \<notin> set ds"
    using ip_invD(3) [OF inv, of w "d # ds"] by (auto simp: wd_list_def)
  have dt: "in_dirs ?t d = Some dir" using d by (simp add: wd_list_def)
  define f where "f = fold im_add (wdir_subs dir) s"
  have ff: "f = s\<lparr>in_missing := in_missing f, in_scanning := in_scanning f\<rparr>"
    using fold_im_add_frame [of s "wdir_subs dir"] by (simp add: f_def missing_frame_def)
  define s' where "s' = f\<lparr>in_dirs := (in_dirs s)(d := None), in_path_hash := (in_path_hash s)(wdir_path dir := None),
      in_sub_hash := (in_sub_hash s) |` (- set (wdir_subs dir))\<rparr>"
  have fs: "in_dirs f = in_dirs s" "in_path_hash f = in_path_hash s" "in_sub_hash f = in_sub_hash s"
      "in_wd_hash f = in_wd_hash s" "in_next f = in_next s" "in_subs f = in_subs s" "in_calls f = in_calls s"
    by (subst ff, simp)+
  have run: "ip_wd_delete d s = Some s'"
    unfolding ip_wd_delete_def d(1) Option.bind.bind_lunit f_def [symmetric]
    by (simp add: d(1) fs ip_unmap_all_subs_def ip_unmap_path_dir_def ip_watched_dir_free_def upd_dir_def s'_def)
  have sh: "dom (in_sub_hash s) \<inter> set (wdir_subs dir) = set (wdir_subs dir)"
    using ip_invD(1) [OF inv] dt by (auto simp: wd_list_def)
  have i: "ip_inv (without_dir d dir ?t)" by (rule without_dir_inv [OF inv dt])
  have dl: "remove1 d (dirs_of w ?t) = ds" using d(3) by (simp add: wd_list_def dirs_of_def)
  have wh: "in_wd_hash (without_dir d dir ?t) = in_wd_hash (wd_list w ds s')"
    unfolding without_dir_def d(2) dl by (simp add: wd_list_def s'_def fs fun_eq_iff)
  have cong: "ip_inv a = ip_inv b" if "in_dirs a = in_dirs b" "in_path_hash a = in_path_hash b"
      "in_sub_hash a = in_sub_hash b" "in_wd_hash a = in_wd_hash b" "in_next a = in_next b" "in_subs a = in_subs b" for a b
    using that unfolding ip_inv_def dirs_of_def by simp
  have "ip_inv (wd_list w ds s') = ip_inv (without_dir d dir ?t)"
    by (rule cong) (use wh in \<open>simp_all add: without_dir_def wd_list_def s'_def fs\<close>)
  then have i': "ip_inv (wd_list w ds s')" using i by simp
  have ms: "set (in_missing s') = set (wdir_subs dir) \<union> set (in_missing s)"
    by (simp add: s'_def f_def)
  have "detached s s'"
    unfolding detached_def
  proof (intro conjI)
    show "in_frame s s'" unfolding in_frame_def s'_def by (subst (1) ff) (simp add: fs)
    show "dom (in_sub_hash s') \<union> set (in_missing s') = dom (in_sub_hash s) \<union> set (in_missing s)"
      using sh unfolding ms by (auto simp: s'_def restrict_map_def split: if_splits)
    show "dom (in_sub_hash s) \<inter> set (in_missing s) = {} \<longrightarrow> dom (in_sub_hash s') \<inter> set (in_missing s') = {}"
    proof -
      have "dom (in_sub_hash s') = dom (in_sub_hash s) - set (wdir_subs dir)" by (auto simp: s'_def)
      then show ?thesis unfolding ms by blast
    qed
    show "distinct (in_missing s) \<longrightarrow> distinct (in_missing s')"
      using fold_im_add_distinct [of s "wdir_subs dir"] by (simp add: s'_def f_def)
    show "(in_missing s \<noteq> [] \<longrightarrow> in_scanning s) \<longrightarrow> in_missing s' \<noteq> [] \<longrightarrow> in_scanning s'"
      using fold_im_add_scanning [of s "wdir_subs dir"] by (simp add: s'_def f_def)
  qed
  then show ?thesis using run i' by blast
qed

lemma ip_wd_delete_all_runs:
  "ip_inv (wd_list w ds s) \<Longrightarrow>
     \<exists>s'. ip_wd_delete_all ds s = Some s' \<and> ip_inv (wd_list w [] s') \<and> detached s s'"
proof (induction ds arbitrary: s)
  case Nil
  then show ?case by (simp add: detached_def in_frame_def)
next
  case (Cons d ds)
  obtain s1 where s1: "ip_wd_delete d s = Some s1" "ip_inv (wd_list w ds s1)" "detached s s1"
    using ip_wd_delete_runs [OF Cons.prems] by blast
  then show ?case using Cons.IH [OF s1(2)] detached_trans [OF s1(3)] by auto
qed

lemma ip_wd_delete_wd_runs:
  assumes inv: "ip_inv s"
  shows "\<exists>s'. do { s1 \<leftarrow> ip_wd_delete_all (dirs_of w s) s; ip_unmap_wd w s1 } = Some s' \<and> ip_inv s' \<and> detached s s'"
proof -
  have "wd_list w (dirs_of w s) s = s"
    using ip_invD(3) [OF inv, of w] by (cases "in_wd_hash s w") (auto simp: wd_list_def dirs_of_def fun_upd_idem)
  then have "ip_inv (wd_list w (dirs_of w s) s)" using inv by simp
  from ip_wd_delete_all_runs [OF this] obtain s1 where
    s1: "ip_wd_delete_all (dirs_of w s) s = Some s1" "ip_inv (wd_list w [] s1)" "detached s s1" by blast
  have wh: "in_wd_hash s1 = in_wd_hash s"
  proof -
    have "ip_wd_delete_all ds t = Some t' \<Longrightarrow> in_wd_hash t' = in_wd_hash t" for ds and t t' :: "'a isrv_scheme"
    proof (induction ds arbitrary: t)
      case (Cons d ds)
      have "in_wd_hash (fold im_add qs t) = in_wd_hash t" for qs
        by (rule missing_frame_simps [OF fold_im_add_frame])
      then show ?case using Cons
        by (auto simp: ip_wd_delete_def ip_unmap_all_subs_def ip_unmap_path_dir_def ip_watched_dir_free_def upd_dir_def
            bind_eq_Some_conv split: if_splits)
    qed simp
    then show ?thesis using s1(1) by blast
  qed
  have un: "ip_unmap_wd w s1 = Some (wd_list w [] s1)"
  proof (cases "in_wd_hash s w")
    case None
    then show ?thesis using wh by (simp add: ip_unmap_wd_def wd_list_def fun_upd_idem)
  next
    case (Some l)
    then have "0 \<le> w" using ip_invD(3) [OF inv Some] ip_invD(2) [OF inv] by (cases l) auto
    then show ?thesis using wh Some by (simp add: ip_unmap_wd_def wd_list_def)
  qed
  have "detached s1 (wd_list w [] s1)" by (simp add: detached_def in_frame_def wd_list_def)
  then have "detached s (wd_list w [] s1)" using detached_trans [OF s1(3)] by blast
  then show ?thesis using s1 un by simp
qed

end
