(* ===== verification/Gam_Inotify_Inv.thy ===== *)
theory Gam_Inotify_Inv
  imports Gam_Ip_Inv
begin

unbundle bit_operations_syntax

text \<open>
  The invariant of the whole inotify back end, and what every operation of it keeps.
\<close>

section \<open>Emission leaves the back end alone\<close>

lemma quiet_in:
  fixes s :: "'b isrv_scheme"
  assumes "quiet s s'"
  shows "in_ik s' = in_ik s" "in_fd s' = in_fd s" "in_calls s' = in_calls s" "in_locked s' = in_locked s"
    "in_subs s' = in_subs s" "in_dirs s' = in_dirs s" "in_next s' = in_next s" "in_path_hash s' = in_path_hash s"
    "in_sub_hash s' = in_sub_hash s" "in_wd_hash s' = in_wd_hash s" "in_missing s' = in_missing s"
    "in_scanning s' = in_scanning s" "in_list s' = in_list s"
  using assms unfolding quiet_def by (cases s; cases s'; simp)+

lemma dirs_of_quiet:
  fixes s :: "'b isrv_scheme"
  shows "quiet s s' \<Longrightarrow> dirs_of w s' = dirs_of w s"
  by (simp add: dirs_of_def quiet_in)

lemma ip_inv_quiet:
  fixes s :: "'b isrv_scheme"
  assumes "quiet s s'"
  shows "ip_inv s' = ip_inv s"
  unfolding ip_inv_def quiet_in [OF assms] dirs_of_quiet [OF assms] by (rule refl)

section \<open>The invariant\<close>

definition lists_ok :: "'b isrv_scheme \<Rightarrow> bool" where
  "lists_ok s \<longleftrightarrow>
     distinct (in_list s) \<and> set (in_list s) = dom (in_subs s) \<and> distinct (in_missing s) \<and>
     set (in_missing s) \<subseteq> dom (in_subs s) \<and> dom (in_sub_hash s) \<inter> set (in_missing s) = {} \<and>
     (in_missing s \<noteq> [] \<longrightarrow> in_scanning s) \<and> (\<forall>q sub. in_subs s q = Some sub \<longrightarrow> \<not> hs_cancelled sub)"

text \<open>The subscription of the client behind each subscription of the back end is there, and the first component
  of its directory is one the kernel finds.\<close>

definition users_ok :: "'e ienv_scheme \<Rightarrow> 'b isrv_scheme \<Rightarrow> bool" where
  "users_ok en s \<longleftrightarrow>
     (\<forall>q sub. in_subs s q = Some sub \<longrightarrow> (\<exists>p. sub_linked s p (hs_user sub)) \<and> top_found en (hs_dirname sub))"

definition in_rest :: "'e ienv_scheme \<Rightarrow> 'b isrv_scheme \<Rightarrow> bool" where
  "in_rest en s \<longleftrightarrow> ip_inv s \<and> 0 \<le> in_fd s \<and> lists_ok s \<and> users_ok en s"

definition in_ok :: "'e ienv_scheme \<Rightarrow> 'b isrv_scheme \<Rightarrow> bool" where
  "in_ok en s \<longleftrightarrow> in_rest en s \<and> ik_ok (in_ik s)"

lemma lists_ok_quiet:
  fixes s :: "'b isrv_scheme"
  assumes "quiet s s'"
  shows "lists_ok s' = lists_ok s"
  unfolding lists_ok_def quiet_in [OF assms] by (rule refl)

lemma users_ok_quiet:
  fixes s :: "'b isrv_scheme"
  assumes "quiet s s'"
  shows "users_ok en s' = users_ok en s"
  unfolding users_ok_def quiet_in [OF assms] sub_linked_quiet [OF assms] by (rule refl)

lemma in_rest_quiet:
  fixes s :: "'b isrv_scheme"
  assumes "quiet s s'"
  shows "in_rest en s' = in_rest en s"
  unfolding in_rest_def quiet_in [OF assms] ip_inv_quiet [OF assms] lists_ok_quiet [OF assms] users_ok_quiet [OF assms]
  by (rule refl)

lemma users_ok_frame: "in_frame s s' \<Longrightarrow> users_ok en s' = users_ok en s"
  by (simp add: users_ok_def sub_linked_def in_frame_simps)

text \<open>Starting and stopping a watch.\<close>

lemma ip_frame_ok:
  assumes ok: "in_rest en s" and f: "ip_frame s s'" and inv: "ip_inv s'"
    and dis: "dom (in_sub_hash s') \<inter> set (in_missing s) = {}"
  shows "in_rest en s'"
  using ok f inv dis by (simp add: in_rest_def lists_ok_def users_ok_frame [OF ip_in_frame [OF f]] ip_frame_simps)

lemma detached_ok:
  assumes ok: "in_rest en s" and d: "detached s s'" and inv: "ip_inv s'"
  shows "in_rest en s'"
proof -
  have f: "in_frame s s'" using d by (simp add: detached_def)
  have "dom (in_sub_hash s) \<subseteq> dom (in_subs s)" using ok ip_invD(5) by (fastforce simp: in_rest_def)
  moreover have "set (in_missing s') \<subseteq> dom (in_sub_hash s) \<union> set (in_missing s)"
    using d unfolding detached_def by blast
  moreover have "set (in_missing s) \<subseteq> dom (in_subs s)" using ok by (simp add: in_rest_def lists_ok_def)
  ultimately have "set (in_missing s') \<subseteq> dom (in_subs s)" by blast
  then show ?thesis
    using ok d inv by (simp add: in_rest_def lists_ok_def users_ok_frame [OF f] in_frame_simps [OF f] detached_def)
qed

section \<open>Callbacks\<close>

lemma event_callback_runs:
  "sub_linked s p u \<Longrightarrow> \<exists>s'. gam_inotify_event_callback path m u s = Some s' \<and> quiet s s'"
proof -
  assume l: "sub_linked s p u"
  obtain sub where sub: "sv_subs s u = Some sub" using l by (auto simp: sub_linked_def)
  obtain s' where "gam_server_emit_one_event path (sub_is_dir sub) (ih_mask_to_EventType m) u True s = Some s'"
    using emit_one_runs [OF l] by blast
  then show ?thesis using sub emit_one_quiet by (auto simp: gam_inotify_event_callback_def)
qed

lemma send_entries_runs:
  "sub_linked s p u \<Longrightarrow> \<exists>s'. send_entries en path ev u names s = Some s' \<and> quiet s s'"
proof (induction names arbitrary: s)
  case (Cons n names)
  obtain s1 where s1: "gam_server_emit_one_event (path @ slash # n) (ie_mode en (path @ slash # n) AND S_IFDIR \<noteq> 0) ev u True s = Some s1"
    using emit_one_runs [OF Cons.prems] by blast
  have q: "quiet s s1" by (rule emit_one_quiet [OF s1])
  then have "sub_linked s1 p u" using Cons.prems sub_linked_quiet by blast
  from Cons.IH [OF this] show ?case using s1 quiet_trans [OF q] by auto
qed simp

lemma initial_events_runs:
  assumes l: "sub_linked s p u"
  shows "\<exists>s'. gam_inotify_send_initial_events en path u d w s = Some s' \<and> quiet s s'"
proof -
  define g where "g = (if w then GAMIN_EVENT_CREATED else if file_exists (fenv.truncate en) path
    then GAMIN_EVENT_EXISTS else GAMIN_EVENT_DELETED)"
  obtain s1 where s1: "gam_server_emit_one_event path d g u True s = Some s1" using emit_one_runs [OF l] by blast
  have q1: "quiet s s1" by (rule emit_one_quiet [OF s1])
  have l1: "sub_linked s1 p u" using l sub_linked_quiet [OF q1] by blast
  have "\<exists>s2. (if d then (case en_readdir en path of Some names \<Rightarrow> send_entries en path g u names s1
      | None \<Rightarrow> Some s1) else Some s1) = Some s2 \<and> quiet s1 s2"
    using send_entries_runs [OF l1, of en path g] by (cases d; cases "en_readdir en path"; simp)
  then obtain s2 where s2: "(if d then (case en_readdir en path of Some names \<Rightarrow> send_entries en path g u names s1
      | None \<Rightarrow> Some s1) else Some s1) = Some s2" "quiet s1 s2" by blast
  have l2: "sub_linked s2 p u" using l1 sub_linked_quiet [OF s2(2)] by blast
  obtain s3 where s3: "gam_server_emit_one_event path d GAMIN_EVENT_ENDEXISTS u True s2 = Some s3"
    using emit_one_runs [OF l2] by blast
  have "gam_inotify_send_initial_events en path u d w s = (if \<not> w then Some s3 else Some s2)"
    unfolding gam_inotify_send_initial_events_def Let_def g_def [symmetric] s1 Option.bind.bind_lunit s2(1) s3 ..
  then show ?thesis using quiet_trans [OF q1 s2(2)] quiet_trans [OF _ emit_one_quiet [OF s3]] by auto
qed

lemma found_callback_runs:
  assumes "sub_linked s p u"
  shows "\<exists>s'. gam_inotify_found_callback en path u s = Some s' \<and> quiet s s'"
proof -
  obtain sub where "sv_subs s u = Some sub" using assms by (auto simp: sub_linked_def)
  then show ?thesis using initial_events_runs [OF assms, of en "sub_path sub" "sub_is_dir sub" True]
    by (simp add: gam_inotify_found_callback_def)
qed

lemma ih_event_callback_runs:
  assumes "in_subs s q = Some sub" "sub_linked s p (hs_user sub)"
  shows "\<exists>s'. ih_event_callback ev q s = Some s' \<and> quiet s s'"
  using event_callback_runs [OF assms(2)] assms(1) by (simp add: ih_event_callback_def)

lemma ih_found_callback_runs:
  assumes "in_subs s q = Some sub" "sub_linked s p (hs_user sub)"
  shows "\<exists>s'. ih_found_callback en q s = Some s' \<and> quiet s s'"
  using found_callback_runs [OF assms(2), of en] assms(1)
  by (cases "hs_filename sub") (simp_all add: ih_found_callback_def)

section \<open>Dispatch\<close>

lemma upd_isub_undo:
  fixes s :: "'b isrv_scheme"
  assumes q: "quiet (upd_isub r f s) s1" and undo: "\<And>x. in_subs s r = Some x \<Longrightarrow> g (f x) = x"
  shows "quiet s (upd_isub r g s1)"
proof -
  have "srv.more s1 = srv.more (upd_isub r f s)" using q by (simp add: quiet_def)
  from more_ext [OF this] obtain a b c d e f' g' h i j k l where
    s1: "s1 = (upd_isub r f s)\<lparr>sv_subs := a, sv_listeners := b, sv_conns := c, sv_connlist := d, sv_next := e,
      sv_writes := f', sv_sent := g', sv_closed := h, sv_inotify := i, sv_no_timeout := j, sv_timeout := k, sv_exited := l\<rparr>"
    by blast
  have "(in_subs s)(r := map_option g (map_option f (in_subs s r))) = in_subs s"
    using undo by (cases "in_subs s r") (auto simp: fun_upd_idem)
  then have "srv.more (upd_isub r g s1) = srv.more s" by (simp add: s1 upd_isub_def)
  moreover have "sv_subs s1 = sv_subs s" "sv_listeners s1 = sv_listeners s"
    "\<And>p. map_option cn_fd (sv_conns s1 p) = map_option cn_fd (sv_conns s p)"
    using q by (simp_all add: quiet_def upd_isub_def)
  ultimately show ?thesis by (simp add: quiet_def upd_isub_def)
qed

lemma linked_upd_isub [simp]: "sub_linked (upd_isub r f s) p u = sub_linked s p u"
  by (simp add: sub_linked_def upd_isub_def)

lemma dispatch_sub_runs:
  assumes ok: "users_ok en s" and q: "in_subs s q = Some sub"
  shows "\<exists>r s'. dispatch_sub ev dpath q resub s = Some (r, s') \<and> quiet s s' \<and> set r \<subseteq> insert q (set resub)"
proof -
  obtain p where l: "sub_linked s p (hs_user sub)" using ok q by (auto simp: users_ok_def)
  let ?path = "event_path dpath (ke_name ev)"
  consider (skip) "hs_filename sub \<noteq> None \<and> hs_filename sub \<noteq> Some (ke_name ev)"
    | (self) "\<not> (hs_filename sub \<noteq> None \<and> hs_filename sub \<noteq> Some (ke_name ev))" "hs_dirname sub = ?path"
    | (below) "\<not> (hs_filename sub \<noteq> None \<and> hs_filename sub \<noteq> Some (ke_name ev))" "hs_dirname sub \<noteq> ?path"
        "take (length ?path) (hs_dirname sub) = ?path"
    | (plain) "\<not> (hs_filename sub \<noteq> None \<and> hs_filename sub \<noteq> Some (ke_name ev))"
        "take (length ?path) (hs_dirname sub) \<noteq> ?path"
    by blast
  then show ?thesis
  proof cases
    case skip
    then show ?thesis using q by (auto simp: dispatch_sub_def)
  next
    case self
    let ?s = "upd_isub q (\<lambda>sub. sub\<lparr>hs_dirname := dpath\<rparr>) s"
    have "in_subs ?s q = Some (sub\<lparr>hs_dirname := dpath\<rparr>)" using q by (simp add: upd_isub_def)
    then obtain s1 where s1: "ih_event_callback ev q ?s = Some s1" "quiet ?s s1"
      using ih_event_callback_runs [of ?s q _ p ev] l by fastforce
    have "quiet s (upd_isub q (\<lambda>sub'. sub'\<lparr>hs_dirname := hs_dirname sub\<rparr>) s1)"
      by (rule upd_isub_undo [OF s1(2)]) (use q in auto)
    moreover have "dispatch_sub ev dpath q resub s =
        Some (q # resub, upd_isub q (\<lambda>sub'. sub'\<lparr>hs_dirname := hs_dirname sub\<rparr>) s1)"
      using q self s1(1) by (simp add: dispatch_sub_def)
    ultimately show ?thesis by fastforce
  next
    case below
    then show ?thesis using q by (auto simp: dispatch_sub_def)
  next
    case plain
    then show ?thesis using q ih_event_callback_runs [OF q l, of ev] by (auto simp: dispatch_sub_def)
  qed
qed

lemma dispatch_subs_runs:
  "users_ok en s \<Longrightarrow> set qs \<subseteq> dom (in_subs s) \<Longrightarrow>
     \<exists>r s'. dispatch_subs ev dpath qs resub s = Some (r, s') \<and> quiet s s' \<and> set r \<subseteq> set qs \<union> set resub"
proof (induction qs arbitrary: s resub)
  case (Cons q qs)
  obtain sub where "in_subs s q = Some sub" using Cons.prems by auto
  from dispatch_sub_runs [OF Cons.prems(1) this] obtain r1 s1 where
    s1: "dispatch_sub ev dpath q resub s = Some (r1, s1)" "quiet s s1" "set r1 \<subseteq> insert q (set resub)" by blast
  have "users_ok en s1" "set qs \<subseteq> dom (in_subs s1)"
    using Cons.prems users_ok_quiet [OF s1(2)] quiet_in [OF s1(2)] by auto
  from Cons.IH [OF this, of r1] obtain r s' where
    "dispatch_subs ev dpath qs r1 s1 = Some (r, s')" "quiet s1 s'" "set r \<subseteq> set qs \<union> set r1" by blast
  then show ?case using s1 quiet_trans [OF s1(2)] by (auto simp: subset_iff)
qed auto

lemma dispatch_dirs_runs:
  "in_rest en s \<Longrightarrow> set ds \<subseteq> dom (in_dirs s) \<Longrightarrow>
     \<exists>r s'. dispatch_dirs ev ds resub s = Some (r, s') \<and> quiet s s' \<and> set r \<subseteq> dom (in_sub_hash s) \<union> set resub"
proof (induction ds arbitrary: s resub)
  case (Cons d ds)
  obtain dir where d: "in_dirs s d = Some dir" using Cons.prems by auto
  have inv: "ip_inv s" and us: "users_ok en s" using Cons.prems(1) by (simp_all add: in_rest_def)
  have sh: "set (wdir_subs dir) \<subseteq> dom (in_sub_hash s)" using ip_invD(1) [OF inv] d by blast
  then have "set (wdir_subs dir) \<subseteq> dom (in_subs s)" using ip_invD(5) [OF inv] by blast
  from dispatch_subs_runs [OF us this] obtain r1 s1 where
    s1: "dispatch_subs ev (wdir_path dir) (wdir_subs dir) resub s = Some (r1, s1)" "quiet s s1"
      "set r1 \<subseteq> set (wdir_subs dir) \<union> set resub" by blast
  have "in_rest en s1" "set ds \<subseteq> dom (in_dirs s1)"
    using Cons.prems in_rest_quiet [OF s1(2)] quiet_in [OF s1(2)] by auto
  from Cons.IH [OF this, of r1] obtain r s' where
    "dispatch_dirs ev ds r1 s1 = Some (r, s')" "quiet s1 s'" "set r \<subseteq> dom (in_sub_hash s) \<union> set r1"
    using quiet_in [OF s1(2)] by auto
  then show ?case using d s1 sh quiet_trans [OF s1(2)] by (auto simp: subset_iff)
qed auto

lemma dispatch_pair_subs_runs:
  "users_ok en s \<Longrightarrow> set qs \<subseteq> dom (in_subs s) \<Longrightarrow> \<exists>s'. dispatch_pair_subs ev qs s = Some s' \<and> quiet s s'"
proof (induction qs arbitrary: s)
  case (Cons q qs)
  obtain sub p where sub: "in_subs s q = Some sub" "sub_linked s p (hs_user sub)"
    using Cons.prems unfolding users_ok_def by (auto simp: dom_def) blast
  obtain s1 where s1: "(if hs_filename sub \<noteq> None \<and> hs_filename sub \<noteq> Some (ke_name ev) then Some s
      else ih_event_callback ev q s) = Some s1" "quiet s s1"
    using ih_event_callback_runs [OF sub, of ev] by (metis quiet_refl)
  have "users_ok en s1" "set qs \<subseteq> dom (in_subs s1)"
    using Cons.prems users_ok_quiet [OF s1(2)] quiet_in [OF s1(2)] by auto
  from Cons.IH [OF this] show ?case using sub s1 quiet_trans [OF s1(2)] by auto
qed simp

lemma dispatch_pair_dirs_runs:
  "in_rest en s \<Longrightarrow> set ds \<subseteq> dom (in_dirs s) \<Longrightarrow> \<exists>s'. dispatch_pair_dirs ev ds s = Some s' \<and> quiet s s'"
proof (induction ds arbitrary: s)
  case (Cons d ds)
  obtain dir where d: "in_dirs s d = Some dir" using Cons.prems by auto
  have inv: "ip_inv s" and us: "users_ok en s" using Cons.prems(1) by (simp_all add: in_rest_def)
  have "set (wdir_subs dir) \<subseteq> dom (in_sub_hash s)" using ip_invD(1) [OF inv] d by blast
  then have "set (wdir_subs dir) \<subseteq> dom (in_subs s)" using ip_invD(5) [OF inv] by blast
  from dispatch_pair_subs_runs [OF us this] obtain s1 where
    s1: "dispatch_pair_subs ev (wdir_subs dir) s = Some s1" "quiet s s1" by blast
  have "in_rest en s1" "set ds \<subseteq> dom (in_dirs s1)"
    using Cons.prems in_rest_quiet [OF s1(2)] quiet_in [OF s1(2)] by auto
  from Cons.IH [OF this] show ?case using d s1 quiet_trans [OF s1(2)] by auto
qed simp


lemma resubscribe_runs:
  "in_rest en s \<Longrightarrow> set qs \<subseteq> dom (in_subs s) \<Longrightarrow> set qs \<inter> set (in_missing s) = {} \<Longrightarrow>
     \<exists>s'. resubscribe en qs s = Some s' \<and> in_rest en s' \<and> ip_frame s s'"
proof (induction qs arbitrary: s)
  case (Cons q qs)
  have inv: "ip_inv s" and fd: "0 \<le> in_fd s" and dis: "dom (in_sub_hash s) \<inter> set (in_missing s) = {}"
    using Cons.prems(1) by (simp_all add: in_rest_def lists_ok_def)
  obtain sub where sub: "in_subs s q = Some sub" using Cons.prems(2) by auto
  obtain s1 where s1: "ip_stop_watching q s = Some s1" "ip_inv s1" "ip_frame s s1"
      "in_sub_hash s1 = (in_sub_hash s)(q := None)"
    using ip_stop_watching_runs [OF inv fd] by blast
  have r1: "in_rest en s1" by (rule ip_frame_ok [OF Cons.prems(1) s1(3,2)]) (use dis s1(4) in auto)
  note f1 = ip_frame_simps [OF s1(3)]
  have nc: "\<not> hs_cancelled sub" and top: "top_found en (hs_dirname sub)"
    using Cons.prems(1) sub by (auto simp: in_rest_def lists_ok_def users_ok_def)
  obtain b s2 where s2: "ip_start_watching en q s1 = Some (b, s2)" "ip_inv s2" "ip_frame s1 s2"
      "if b then \<exists>d. in_sub_hash s2 = (in_sub_hash s1)(q \<mapsto> d) else in_sub_hash s2 = in_sub_hash s1"
    using ip_start_watching_runs [OF s1(2), of q sub en] fd s1(4) sub nc top f1 by auto
  have "dom (in_sub_hash s2) \<subseteq> insert q (dom (in_sub_hash s))"
  proof (cases b)
    case True
    then obtain d where "in_sub_hash s2 = ((in_sub_hash s)(q := None))(q \<mapsto> d)" using s2(4) s1(4) by auto
    then show ?thesis by simp
  qed (use s2(4) s1(4) in auto)
  moreover have "q \<notin> set (in_missing s)" using Cons.prems(3) by simp
  ultimately have "dom (in_sub_hash s2) \<inter> set (in_missing s) = {}" using dis by blast
  then have "dom (in_sub_hash s2) \<inter> set (in_missing s1) = {}" by (simp only: f1(5))
  from ip_frame_ok [OF r1 s2(3,2) this] have r2: "in_rest en s2" .
  note f2 = ip_frame_simps [OF s2(3)]
  have "set qs \<subseteq> dom (in_subs s2)" "set qs \<inter> set (in_missing s2) = {}" using Cons.prems f1 f2 by auto
  from Cons.IH [OF r2 this] show ?case
    using s1(1) s2(1) ip_frame_trans [OF s1(3) ip_frame_trans [OF s2(3)]] by auto
qed simp

text \<open>What an event may change: the watches, the missing list and what clients are told.\<close>

definition in_step :: "'b isrv_scheme \<Rightarrow> 'b isrv_scheme \<Rightarrow> bool" where
  "in_step s s' \<longleftrightarrow> in_ik s' = in_ik s \<and> in_locked s' = in_locked s \<and> in_subs s' = in_subs s \<and> in_list s' = in_list s \<and>
     sv_subs s' = sv_subs s \<and> sv_listeners s' = sv_listeners s"

lemma in_step_trans: "in_step s s' \<Longrightarrow> in_step s' s'' \<Longrightarrow> in_step s s''"
  by (simp add: in_step_def)

lemma in_step_quiet: "quiet s s' \<Longrightarrow> in_step s s'"
  for s :: "'b isrv_scheme"
  by (simp add: in_step_def quiet_in quiet_def)

lemma in_step_frame: "in_frame s s' \<Longrightarrow> in_step s s'"
  by (simp add: in_step_def in_frame_simps)

lemma dirs_of_there: "ip_inv s \<Longrightarrow> set (dirs_of w s) \<subseteq> dom (in_dirs s)"
  using ip_inv_dirs_of by blast

lemma ip_event_dispatch_runs:
  assumes ok: "in_rest en s"
  shows "\<exists>s'. ip_event_dispatch en (dirs_of w s) (case pair of None \<Rightarrow> [] | Some pv \<Rightarrow> dirs_of (ke_wd pv) s) ev pair s = Some s' \<and>
    in_rest en s' \<and> in_step s s'"
proof -
  have inv: "ip_inv s" using ok by (simp add: in_rest_def)
  obtain r s1 where s1: "dispatch_dirs ev (dirs_of w s) [] s = Some (r, s1)" "quiet s s1" "set r \<subseteq> dom (in_sub_hash s)"
    using dispatch_dirs_runs [OF ok dirs_of_there [OF inv], of ev w "[]"] by auto
  have r1: "in_rest en s1" using ok in_rest_quiet [OF s1(2)] by blast
  have "\<exists>s2. (case pair of None \<Rightarrow> Some s1 | Some pv \<Rightarrow>
      dispatch_pair_dirs pv (case pair of None \<Rightarrow> [] | Some pv \<Rightarrow> dirs_of (ke_wd pv) s) s1) = Some s2 \<and> quiet s1 s2"
  proof (cases pair)
    case (Some pv)
    have "set (dirs_of (ke_wd pv) s) \<subseteq> dom (in_dirs s1)" using dirs_of_there [OF inv] quiet_in [OF s1(2)] by simp
    from dispatch_pair_dirs_runs [OF r1 this] show ?thesis using Some by simp
  qed simp
  then obtain s2 where s2: "(case pair of None \<Rightarrow> Some s1 | Some pv \<Rightarrow>
      dispatch_pair_dirs pv (case pair of None \<Rightarrow> [] | Some pv \<Rightarrow> dirs_of (ke_wd pv) s) s1) = Some s2" "quiet s1 s2" by blast
  have q2: "quiet s s2" by (rule quiet_trans [OF s1(2) s2(2)])
  have r2: "in_rest en s2" using ok in_rest_quiet [OF q2] by blast
  have "dom (in_sub_hash s) \<subseteq> dom (in_subs s)" using ip_invD(5) [OF inv] by blast
  then have "set r \<subseteq> dom (in_subs s2)" "set r \<inter> set (in_missing s2) = {}"
  proof -
    have "dom (in_sub_hash s) \<inter> set (in_missing s) = {}" using ok by (simp add: in_rest_def lists_ok_def)
    then show "set r \<inter> set (in_missing s2) = {}" using s1(3) unfolding quiet_in [OF q2] by blast
    show "set r \<subseteq> dom (in_subs s2)" using s1(3) \<open>dom (in_sub_hash s) \<subseteq> dom (in_subs s)\<close> unfolding quiet_in [OF q2] by blast
  qed
  from resubscribe_runs [OF r2 this] obtain s' where
    s': "resubscribe en r s2 = Some s'" "in_rest en s'" "ip_frame s2 s'" by blast
  have "in_step s s'" by (rule in_step_trans [OF in_step_quiet [OF q2] in_step_frame [OF ip_in_frame [OF s'(3)]]])
  then show ?thesis using s1(1) s2(1) s'(1,2) by (simp add: ip_event_dispatch_def)
qed


lemma ip_delete_self_runs:
  assumes ok: "in_rest en s"
  shows "\<exists>s'. do { s1 \<leftarrow> ip_wd_delete_all (dirs_of w s) s; ip_unmap_wd w s1 } = Some s' \<and> in_rest en s' \<and> in_step s s'"
proof -
  have inv: "ip_inv s" using ok by (simp add: in_rest_def)
  obtain s' where s': "do { s1 \<leftarrow> ip_wd_delete_all (dirs_of w s) s; ip_unmap_wd w s1 } = Some s'" "ip_inv s'" "detached s s'"
    using ip_wd_delete_wd_runs [OF inv] by blast
  moreover have "in_step s s'" using s'(3) by (intro in_step_frame) (simp add: detached_def)
  ultimately show ?thesis using detached_ok [OF ok] by blast
qed

section \<open>The event queue\<close>

lemma in_rest_ik [simp]: "in_rest en (s\<lparr>in_ik := k\<rparr>) = in_rest en s"
  by (simp add: in_rest_def ip_inv_def dirs_of_def lists_ok_def users_ok_def sub_linked_def)

lemma in_rest_locked [simp]: "in_rest en (s\<lparr>in_locked := b\<rparr>) = in_rest en s"
  by (simp add: in_rest_def ip_inv_def dirs_of_def lists_ok_def users_ok_def sub_linked_def)

lemma ik_ok_popped:
  assumes ok: "ik_ok k" and q: "ik_queue k = e # q"
  shows "\<exists>k'. ik_event_free e (k\<lparr>ik_queue := q\<rparr>) = Some k' \<and> ik_ok k' \<and> ik_queue k' = q \<and> ik_todo k' = ik_todo k \<and>
    ik_running k' = ik_running k"
proof -
  let ?k = "k\<lparr>ik_queue := q, ik_evs := (ik_evs k) |` (- set (parts k e))\<rparr>"
  have inv: "ik_inv k (ik_todo k)" using ok by (simp add: ik_ok_def)
  have "ik_inv ?k (ik_todo k)" by (rule ik_inv_popped [OF inv q])
  moreover have "is_seen ?k = is_seen k" "fresh ?k = fresh k" by (simp_all add: is_seen_def [abs_def] fresh_def [abs_def])
  ultimately have "ik_ok ?k" using ok by (simp add: ik_ok_def)
  then show ?thesis using ik_event_free_popped [OF inv q] by simp
qed

lemma ip_event_callback_runs:
  assumes ok: "in_ok en s" and q: "ik_queue (in_ik s) = e # q"
  shows "\<exists>s'. ip_event_callback en e (s\<lparr>in_ik := (in_ik s)\<lparr>ik_queue := q\<rparr>\<rparr>) = Some s' \<and> in_ok en s' \<and>
    ik_queue (in_ik s') = q \<and> ik_todo (in_ik s') = ik_todo (in_ik s) \<and> in_locked s' = in_locked s \<and>
    in_subs s' = in_subs s \<and> in_list s' = in_list s \<and> sv_subs s' = sv_subs s \<and> sv_listeners s' = sv_listeners s"
proof -
  let ?s = "s\<lparr>in_ik := (in_ik s)\<lparr>ik_queue := q\<rparr>\<rparr>"
  have rest: "in_rest en ?s" and ik: "ik_ok (in_ik s)" using ok by (simp_all add: in_ok_def)
  obtain k' where k': "ik_event_free e ((in_ik s)\<lparr>ik_queue := q\<rparr>) = Some k'" "ik_ok k'" "ik_queue k' = q"
      "ik_todo k' = ik_todo (in_ik s)"
    using ik_ok_popped [OF ik q] by blast
  have free: "\<exists>s'. free_event e t = Some s' \<and> in_ok en s' \<and> ik_queue (in_ik s') = q \<and>
      ik_todo (in_ik s') = ik_todo (in_ik s) \<and> in_locked s' = in_locked s \<and> in_subs s' = in_subs s \<and> in_list s' = in_list s \<and>
      sv_subs s' = sv_subs s \<and> sv_listeners s' = sv_listeners s"
    if "in_rest en t" "in_step ?s t" for t
    using that k' by (simp add: free_event_def in_step_def in_ok_def)
  have "ready_event (in_ik s) e" using ik q by (auto simp: ik_ok_def ik_inv_def)
  then obtain ev where ev: "ik_evs (in_ik s) e = Some ev" by (auto simp: ready_event_def)
  have pr: "ke_pair ev = None \<or> (\<exists>f fv. ke_pair ev = Some f \<and> ik_evs (in_ik s) f = Some fv)"
    using \<open>ready_event (in_ik s) e\<close> ev by (cases "ke_pair ev") (auto simp: ready_event_def)
  show ?thesis
  proof (cases "has_bit (ke_mask ev) IN_IGNORED")
    case True
    then show ?thesis using free [OF rest] ev by (simp add: ip_event_callback_def in_step_def)
  next
    case False
    obtain pair where pair: "(case ke_pair ev of None \<Rightarrow> Some None | Some f \<Rightarrow> map_option Some (ik_evs (in_ik ?s) f)) = Some pair"
      using pr by auto
    let ?pl = "case pair of None \<Rightarrow> [] | Some pv \<Rightarrow> dirs_of (ke_wd pv) ?s"
    obtain s1 where s1: "(if has_bit (ke_mask ev) IP_INOTIFY_MASK
        then ip_event_dispatch en (dirs_of (ke_wd ev) ?s) ?pl ev pair ?s else Some ?s) = Some s1" "in_rest en s1" "in_step ?s s1"
      using ip_event_dispatch_runs [OF rest, of "ke_wd ev" pair ev] rest
      by (cases "has_bit (ke_mask ev) IP_INOTIFY_MASK") (auto simp: in_step_def)
    obtain s2 where s2: "(if has_bit (ke_mask ev) IN_DELETE_SELF \<or> has_bit (ke_mask ev) IN_MOVE_SELF
        then do { s2 \<leftarrow> ip_wd_delete_all (dirs_of (ke_wd ev) s1) s1; ip_unmap_wd (ke_wd ev) s2 } else Some s1) = Some s2"
        "in_rest en s2" "in_step s1 s2"
      using ip_delete_self_runs [OF s1(2), of "ke_wd ev"] s1(2)
      by (cases "has_bit (ke_mask ev) IN_DELETE_SELF \<or> has_bit (ke_mask ev) IN_MOVE_SELF") (auto simp: in_step_def)
    have ev': "ik_evs (in_ik ?s) e = Some ev" using ev by simp
    have "ip_event_callback en e ?s = free_event e s2"
      unfolding ip_event_callback_def ev' pair s1(1) s2(1) Option.bind.bind_lunit Let_def using False by simp
    then show ?thesis using free [OF s2(2) in_step_trans [OF s1(3) s2(3)]] by simp
  qed
qed

lemma ik_send_events_runs:
  "in_ok en s \<Longrightarrow> length (ik_queue (in_ik s)) < n \<Longrightarrow>
     \<exists>s'. ik_send_events n en s = Some s' \<and> in_ok en s' \<and> ik_queue (in_ik s') = [] \<and>
       ik_todo (in_ik s') = ik_todo (in_ik s) \<and> in_locked s' = in_locked s \<and> in_subs s' = in_subs s \<and> in_list s' = in_list s \<and>
       sv_subs s' = sv_subs s \<and> sv_listeners s' = sv_listeners s"
proof (induction n arbitrary: s)
  case (Suc n)
  show ?case
  proof (cases "ik_queue (in_ik s)")
    case Nil
    then show ?thesis using Suc.prems(1) by simp
  next
    case (Cons e q)
    obtain s1 where s1: "ip_event_callback en e (s\<lparr>in_ik := (in_ik s)\<lparr>ik_queue := q\<rparr>\<rparr>) = Some s1" "in_ok en s1"
        "ik_queue (in_ik s1) = q" "ik_todo (in_ik s1) = ik_todo (in_ik s)" "in_locked s1 = in_locked s"
        "in_subs s1 = in_subs s" "in_list s1 = in_list s" "sv_subs s1 = sv_subs s" "sv_listeners s1 = sv_listeners s"
      using ip_event_callback_runs [OF Suc.prems(1) Cons] by blast
    have "length (ik_queue (in_ik s1)) < n" using Suc.prems(2) Cons s1(3) by simp
    from Suc.IH [OF s1(2) this] show ?thesis using Cons s1 by auto
  qed
qed simp

end
