(* ===== verification/Gam_Inotify_Ops.thy ===== *)
theory Gam_Inotify_Ops
  imports Gam_Inotify_Inv
begin

unbundle bit_operations_syntax

text \<open>
  The operations the main loop and the server call: each succeeds on a state with the invariant and the
  lock free, and leaves such a state.
\<close>

section \<open>The two callbacks of the kernel part\<close>

definition idle_ok :: "'e ienv_scheme \<Rightarrow> 'b isrv_scheme \<Rightarrow> bool" where
  "idle_ok en s \<longleftrightarrow> in_ok en s \<and> \<not> in_locked s"

text \<open>The client side and the subscriptions are as before.\<close>

definition same_subs :: "'b isrv_scheme \<Rightarrow> 'b isrv_scheme \<Rightarrow> bool" where
  "same_subs s s' \<longleftrightarrow> in_subs s' = in_subs s \<and> in_list s' = in_list s \<and> sv_subs s' = sv_subs s \<and>
     sv_listeners s' = sv_listeners s"

lemma G_LOCK_free [simp]: "\<not> in_locked s \<Longrightarrow> G_LOCK en s = Some (s\<lparr>in_locked := True\<rparr>)"
  by (simp add: G_LOCK_def)

lemma in_ok_locked [simp]: "in_ok en (s\<lparr>in_locked := b\<rparr>) = in_ok en s"
  by (simp add: in_ok_def)

lemma read_callback_runs:
  assumes ok: "idle_ok en s" and evs: "list_all kernel_event evs" and l: "length (concat (map kernel_bytes evs)) \<le> BUF"
  shows "\<exists>s'. ik_read_callback en (concat (map kernel_bytes evs)) s = Some (True, s') \<and> idle_ok en s' \<and> same_subs s s'"
proof -
  have ik: "ik_ok (in_ik s)" using ok by (simp add: idle_ok_def in_ok_def)
  have "ik_ok (fold (pushed (ie_clock en)) evs (in_ik s))" using fold_pushed [OF ik evs] by blast
  then show ?thesis
    using ok ik_read_locked_events [OF ik evs l, of "ie_clock en"]
    by (simp add: ik_read_callback_def idle_ok_def in_ok_def G_UNLOCK_def same_subs_def)
qed

lemma process_callback_runs:
  assumes ok: "idle_ok en s"
  shows "\<exists>b s'. ik_process_eq_callback en s = Some (b, s') \<and> idle_ok en s' \<and> same_subs s s' \<and> ik_queue (in_ik s') = []"
proof -
  let ?s1 = "s\<lparr>in_locked := True\<rparr>"
  obtain k where k: "ik_process_events (ie_clock en) (in_ik s) = Some k" "ik_ok k"
    using ik_process_ok [of "in_ik s" "ie_clock en"] ok by (auto simp: idle_ok_def in_ok_def)
  have ok1: "in_ok en (?s1\<lparr>in_ik := k\<rparr>)" using ok k(2) by (simp add: idle_ok_def in_ok_def)
  from ik_send_events_runs [OF ok1, of "Suc (length (ik_queue k))"] obtain s2 where
    s2: "ik_send_events (Suc (length (ik_queue k))) en (?s1\<lparr>in_ik := k\<rparr>) = Some s2" "in_ok en s2" "ik_queue (in_ik s2) = []"
      "in_subs s2 = in_subs s" "in_list s2 = in_list s" "sv_subs s2 = sv_subs s" "sv_listeners s2 = sv_listeners s"
    by auto
  have lk: "\<not> in_locked s" using ok by (simp add: idle_ok_def)
  show ?thesis
  proof (cases "ik_todo (in_ik s2) = []")
    case True
    let ?s' = "G_UNLOCK (s2\<lparr>in_ik := (in_ik s2)\<lparr>ik_running := False\<rparr>\<rparr>)"
    show ?thesis
      using s2 k(1) lk True
      by (intro exI [of _ False] exI [of _ ?s'])
        (simp add: ik_process_eq_callback_def idle_ok_def in_ok_def G_UNLOCK_def same_subs_def del: ik_send_events.simps)
  next
    case False
    then show ?thesis
      using s2 k(1) lk
      by (intro exI [of _ True] exI [of _ "G_UNLOCK s2"])
        (simp add: ik_process_eq_callback_def idle_ok_def G_UNLOCK_def same_subs_def del: ik_send_events.simps)
  qed
qed

section \<open>The scan of the missing list\<close>

lemma fold_remove1: "distinct xs \<Longrightarrow> fold remove1 ys xs = filter (\<lambda>x. x \<notin> set ys) xs"
proof (induction ys arbitrary: xs)
  case (Cons y ys)
  then show ?case by (simp add: distinct_remove1_removeAll removeAll_filter_not_eq filter_filter conj_commute
      eq_commute [of y])
qed simp

lemma ip_inv_missing [simp]: "ip_inv (s\<lparr>in_missing := M\<rparr>) = ip_inv s" "ip_inv (s\<lparr>in_scanning := b\<rparr>) = ip_inv s"
    "ip_inv (s\<lparr>in_list := L\<rparr>) = ip_inv s" "ip_inv (s\<lparr>in_locked := b\<rparr>) = ip_inv s"
  by (simp_all add: ip_inv_def dirs_of_def)

lemma users_ok_missing [simp]: "users_ok en (s\<lparr>in_missing := M\<rparr>) = users_ok en s"
    "users_ok en (s\<lparr>in_scanning := b\<rparr>) = users_ok en s" "users_ok en (s\<lparr>in_list := L\<rparr>) = users_ok en s"
    "users_ok en (s\<lparr>in_locked := b\<rparr>) = users_ok en s"
  by (simp_all add: users_ok_def sub_linked_def)

text \<open>\<open>M\<close> is the missing list without the subscriptions that were found so far.\<close>

lemma lists_ok_shrink:
  assumes "lists_ok (s\<lparr>in_missing := M\<rparr>)" "set M' \<subseteq> set M" "distinct M'" "dom (in_sub_hash s1) \<inter> set M' = {}"
    "in_subs s1 = in_subs s" "in_list s1 = in_list s" "in_scanning s1 = in_scanning s"
  shows "lists_ok (s1\<lparr>in_missing := M'\<rparr>)"
proof -
  have "M' \<noteq> [] \<longrightarrow> M \<noteq> []" using assms(2) by auto
  then show ?thesis using assms unfolding lists_ok_def by simp blast
qed

lemma im_scan_loop_ok:
  fixes s :: "'b isrv_scheme"
  shows "in_rest en (s\<lparr>in_missing := M\<rparr>) \<Longrightarrow> set qs \<subseteq> set M \<Longrightarrow> distinct qs \<Longrightarrow> set nolonger \<inter> set M = {} \<Longrightarrow>
     \<exists>r s'. im_scan_loop en qs nolonger s = Some (r, s') \<and>
       in_rest en (s'\<lparr>in_missing := filter (\<lambda>q. q \<notin> set r) M\<rparr>) \<and> set r \<subseteq> set nolonger \<union> set qs \<and> set nolonger \<subseteq> set r \<and>
       in_missing s' = in_missing s \<and> in_ik s' = in_ik s \<and> in_locked s' = in_locked s \<and> same_subs s s'"
proof (induction qs arbitrary: s M nolonger)
  case Nil
  then have "filter (\<lambda>q. q \<notin> set nolonger) M = M" by (auto simp: filter_id_conv)
  then show ?case using Nil by (simp add: same_subs_def)
next
  case (Cons q qs)
  let ?m = "s\<lparr>in_missing := M\<rparr>"
  have inv: "ip_inv s" and fd: "0 \<le> in_fd s" and us: "users_ok en s" and dis: "dom (in_sub_hash s) \<inter> set M = {}"
    and mdom: "set M \<subseteq> dom (in_subs s)" and nc: "\<And>q sub. in_subs s q = Some sub \<Longrightarrow> \<not> hs_cancelled sub"
    and dM: "distinct M" and lo: "lists_ok ?m"
    using Cons.prems(1) by (auto simp: in_rest_def lists_ok_def)
  have qM: "q \<in> set M" using Cons.prems(2) by simp
  then obtain sub where sub: "in_subs s q = Some sub" using mdom by blast
  obtain p where top: "top_found en (hs_dirname sub)" and l: "sub_linked s p (hs_user sub)" using us sub by (auto simp: users_ok_def)
  have sh: "in_sub_hash s q = None"
  proof (rule ccontr)
    assume "in_sub_hash s q \<noteq> None"
    then have "q \<in> dom (in_sub_hash s) \<inter> set M" using qM by auto
    then show False unfolding dis by simp
  qed
  obtain b s1 where s1: "ip_start_watching en q s = Some (b, s1)" "ip_inv s1" "ip_frame s s1"
      "if b then \<exists>d. in_sub_hash s1 = (in_sub_hash s)(q \<mapsto> d) else in_sub_hash s1 = in_sub_hash s"
    using ip_start_watching_runs [OF inv fd sh sub nc [OF sub] top] by blast
  note f1 = ip_frame_simps [OF s1(3)]
  show ?case
  proof (cases b)
    case True
    let ?M = "filter (\<lambda>x. x \<noteq> q) M"
    obtain d where d: "in_sub_hash s1 = (in_sub_hash s)(q \<mapsto> d)" using s1(4) True by auto
    have l1: "sub_linked s1 p (hs_user sub)" using l by (simp add: ip_frame_linked [OF s1(3)])
    have "in_subs s1 q = Some sub" using sub f1 by simp
    from ih_found_callback_runs [OF this l1] obtain s2 where s2: "ih_found_callback en q s1 = Some s2" "quiet s1 s2" by blast
    note q2 = quiet_in [OF s2(2)]
    have "dom (in_sub_hash s1) \<inter> set ?M = {}" using dis d by auto
    then have "lists_ok (s1\<lparr>in_missing := ?M\<rparr>)"
      using dM by (intro lists_ok_shrink [OF lo]) (simp_all add: f1)
    then have "in_rest en (s1\<lparr>in_missing := ?M\<rparr>)"
      using s1(2) fd f1 us users_ok_frame [OF ip_in_frame [OF s1(3)], of en] by (simp add: in_rest_def)
    moreover have "in_rest en (s2\<lparr>in_missing := ?M\<rparr>) = in_rest en (s1\<lparr>in_missing := ?M\<rparr>)"
      using ip_inv_quiet [OF s2(2)] users_ok_quiet [OF s2(2), of en] q2 by (simp add: in_rest_def lists_ok_def)
    ultimately have r2: "in_rest en (s2\<lparr>in_missing := ?M\<rparr>)" by simp
    have "set qs \<subseteq> set ?M" "set (q # nolonger) \<inter> set ?M = {}" using Cons.prems by auto
    from Cons.IH [OF r2 this(1) _ this(2)] Cons.prems(3) obtain r s' where
      s': "im_scan_loop en qs (q # nolonger) s2 = Some (r, s')"
        "in_rest en (s'\<lparr>in_missing := filter (\<lambda>x. x \<notin> set r) ?M\<rparr>)" "set r \<subseteq> set (q # nolonger) \<union> set qs"
        "set (q # nolonger) \<subseteq> set r" "in_missing s' = in_missing s2" "in_ik s' = in_ik s2" "in_locked s' = in_locked s2" "same_subs s2 s'" by auto
    have "q \<in> set r" using s'(4) by simp
    then have "filter (\<lambda>x. x \<notin> set r) ?M = filter (\<lambda>x. x \<notin> set r) M" by (auto simp: filter_filter intro!: filter_cong)
    then show ?thesis
      using s' s1(1) s2 True f1 q2 by (auto simp: same_subs_def quiet_def)
  next
    case False
    then have r1: "in_rest en (s1\<lparr>in_missing := M\<rparr>)"
      using Cons.prems(1) s1 f1 users_ok_frame [OF ip_in_frame [OF s1(3)], of en] by (simp add: in_rest_def lists_ok_def)
    have "set qs \<subseteq> set M" "distinct qs" using Cons.prems(2,3) by auto
    from Cons.IH [OF r1 this Cons.prems(4)] obtain r s' where
      s': "im_scan_loop en qs nolonger s1 = Some (r, s')"
        "in_rest en (s'\<lparr>in_missing := filter (\<lambda>x. x \<notin> set r) M\<rparr>)" "set r \<subseteq> set nolonger \<union> set qs"
        "set nolonger \<subseteq> set r" "in_missing s' = in_missing s1" "in_ik s' = in_ik s1" "in_locked s' = in_locked s1"
        "same_subs s1 s'" by blast
    show ?thesis
    proof (intro exI conjI)
      show "im_scan_loop en (q # qs) nolonger s = Some (r, s')" using s'(1) s1(1) False by simp
      show "set r \<subseteq> set nolonger \<union> set (q # qs)" using s'(3) by auto
    qed (use s' f1 in \<open>simp_all add: same_subs_def\<close>)
  qed
qed

lemma im_scan_missing_runs:
  assumes ok: "idle_ok en s"
  shows "\<exists>b s'. im_scan_missing en s = Some (b, s') \<and> idle_ok en s' \<and> same_subs s s'"
proof -
  let ?s1 = "s\<lparr>in_locked := True\<rparr>"
  have rest: "in_rest en s" and ik: "ik_ok (in_ik s)" and lk: "\<not> in_locked s"
    using ok by (simp_all add: idle_ok_def in_ok_def)
  have dm: "distinct (in_missing s)" and sc: "in_missing s \<noteq> [] \<longrightarrow> in_scanning s"
    using rest by (simp_all add: in_rest_def lists_ok_def)
  have "in_rest en (?s1\<lparr>in_missing := in_missing s\<rparr>)"
    using rest by (simp add: in_rest_def lists_ok_def)
  from im_scan_loop_ok [OF this _ dm, of "[]"] obtain r s2 where
    s2: "im_scan_loop en (in_missing s) [] ?s1 = Some (r, s2)"
      "in_rest en (s2\<lparr>in_missing := filter (\<lambda>x. x \<notin> set r) (in_missing s)\<rparr>)"
      "in_missing s2 = in_missing s" "in_ik s2 = in_ik s" "same_subs ?s1 s2" by auto
  define s3 where "s3 = s2\<lparr>in_missing := fold remove1 r (in_missing s2)\<rparr>"
  have s3: "in_rest en s3" using s2(2) unfolding s3_def s2(3) fold_remove1 [OF dm] .
  have run: "im_scan_missing en s = Some (if in_missing s3 = []
      then (False, G_UNLOCK (s3\<lparr>in_scanning := False\<rparr>)) else (True, G_UNLOCK s3))"
    using s2(1) lk by (simp add: im_scan_missing_def s3_def)
  have same: "same_subs s s3" using s2(5) by (simp add: same_subs_def s3_def)
  show ?thesis
  proof (cases "in_missing s3 = []")
    case True
    then have "in_rest en (s3\<lparr>in_scanning := False\<rparr>)" using s3 by (simp add: in_rest_def lists_ok_def)
    then show ?thesis
      using run True same ik s2(4) by (intro exI [of _ False] exI [of _ "G_UNLOCK (s3\<lparr>in_scanning := False\<rparr>)"])
        (simp add: idle_ok_def in_ok_def G_UNLOCK_def same_subs_def s3_def)
  next
    case False
    then show ?thesis
      using run s3 same ik s2(4) by (intro exI [of _ True] exI [of _ "G_UNLOCK s3"])
        (simp add: idle_ok_def in_ok_def G_UNLOCK_def same_subs_def s3_def)
  qed
qed

section \<open>Adding a subscription\<close>

text \<open>The new subscription of the back end is watched or missing, whatever the kernel answers.\<close>

lemma ih_sub_add_runs:
  fixes s :: "'b isrv_scheme"
  assumes ok: "idle_ok en s" and top: "top_found en (hs_dirname sub)" and l: "sub_linked s p (hs_user sub)"
    and nc: "\<not> hs_cancelled sub"
  shows "\<exists>s'. ih_sub_add en (in_next s) (s\<lparr>in_subs := (in_subs s)(in_next s \<mapsto> sub), in_next := Suc (in_next s)\<rparr>) = Some (True, s') \<and>
    idle_ok en s' \<and> in_subs s' = (in_subs s)(in_next s \<mapsto> sub) \<and> in_list s' = in_next s # in_list s \<and>
    (in_next s \<in> dom (in_sub_hash s') \<or> in_next s \<in> set (in_missing s')) \<and>
    sv_subs s' = sv_subs s \<and> sv_listeners s' = sv_listeners s \<and> sv_conns s' = sv_conns s"
proof -
  let ?q = "in_next s"
  let ?s0 = "s\<lparr>in_subs := (in_subs s)(?q \<mapsto> sub), in_next := Suc ?q\<rparr>"
  let ?s1 = "?s0\<lparr>in_locked := True\<rparr>"
  have rest: "in_rest en s" and ik: "ik_ok (in_ik s)" and lk: "\<not> in_locked s"
    using ok by (simp_all add: idle_ok_def in_ok_def)
  have inv: "ip_inv s" and fd: "0 \<le> in_fd s" and us: "users_ok en s" and lo: "lists_ok s"
    using rest by (simp_all add: in_rest_def)
  note D = ip_invD [OF inv]
  have fresh: "in_subs s ?q = None" using D(6) [of ?q] by (cases "in_subs s ?q") auto
  then have nl: "?q \<notin> set (in_list s)" "?q \<notin> set (in_missing s)" and nh: "in_sub_hash s ?q = None"
    using lo D(5) [of ?q] by (auto simp: lists_ok_def)
  have i1: "ip_inv ?s1"
  proof (rule ip_invI)
    show "a < in_next ?s1" if "in_subs ?s1 a = Some x" for a x using that D(6) by (fastforce split: if_splits)
    show "\<exists>x. in_subs ?s1 a = Some x" if "in_sub_hash ?s1 a = Some d" for a d using that D(5) by auto
  qed (use D in \<open>auto simp: dirs_of_def less_Suc_eq\<close>)
  obtain b s2 where s2: "ip_start_watching en ?q ?s1 = Some (b, s2)" "ip_inv s2" "ip_frame ?s1 s2"
      "if b then \<exists>d. in_sub_hash s2 = (in_sub_hash ?s1)(?q \<mapsto> d) else in_sub_hash s2 = in_sub_hash ?s1"
    using ip_start_watching_runs [OF i1, of ?q sub en] fd nh nc top by auto
  note f2 = ip_frame_simps [OF s2(3), simplified]
  define s3 where "s3 = (if \<not> b then im_add ?q s2 else s2)"
  define s' where "s' = G_UNLOCK (s3\<lparr>in_list := ?q # in_list s3\<rparr>)"
  have run: "ih_sub_add en ?q ?s0 = Some (True, s')"
    using lk nl(1) s2(1) by (simp add: ih_sub_add_def s3_def s'_def)
  have flds: "in_subs s' = (in_subs s)(?q \<mapsto> sub)" "in_list s' = ?q # in_list s" "in_fd s' = in_fd s" "in_ik s' = in_ik s"
      "in_sub_hash s' = in_sub_hash s2" "sv_subs s' = sv_subs s" "sv_listeners s' = sv_listeners s"
      "sv_conns s' = sv_conns s" "in_missing s' = (if b then in_missing s else ?q # in_missing s)"
      "in_scanning s' = (if b then in_scanning s else True)" "\<not> in_locked s'"
    using f2 nl(2) by (simp_all add: s'_def s3_def G_UNLOCK_def im_add_def)
  have inv': "ip_inv s'"
    using s2(2) by (simp add: s'_def s3_def G_UNLOCK_def im_add_def)
  have dis0: "dom (in_sub_hash s) \<inter> set (in_missing s) = {}" using lo by (simp add: lists_ok_def)
  have dis: "dom (in_sub_hash s') \<inter> set (in_missing s') = {}"
  proof (cases b)
    case True
    then obtain d where "in_sub_hash s2 = (in_sub_hash s)(?q \<mapsto> d)" using s2(4) by auto
    then show ?thesis using dis0 nl(2) True unfolding flds by auto
  next
    case False
    then have "in_sub_hash s2 = in_sub_hash s" using s2(4) by simp
    then show ?thesis using dis0 nh False unfolding flds by auto
  qed
  have lo': "lists_ok s'"
    using lo dis nl fresh nc unfolding lists_ok_def flds by (auto split: if_splits)
  have "sub_linked s' r u = sub_linked s r u" for r u by (simp add: sub_linked_def flds)
  then have us': "users_ok en s'" using us top l unfolding users_ok_def flds by auto
  have "?q \<in> dom (in_sub_hash s') \<or> ?q \<in> set (in_missing s')"
    using s2(4) unfolding flds by (cases b) auto
  then show ?thesis
    using run inv' lo' us' flds fd ik by (auto simp: idle_ok_def in_ok_def in_rest_def)
qed

definition new_isub :: "string \<Rightarrow> bool \<Rightarrow> cptr \<Rightarrow> ih_sub_t" where
  "new_isub path is_dir user = ih_sub_setup \<lparr>hs_is_dir = is_dir, hs_pathname = path, hs_dirname = [], hs_filename = None,
     hs_flags = 0, hs_cancelled = False, hs_user = user\<rparr>"

lemma fix_dirname_id [simp]: "ih_sub_fix_dirname sub = sub"
  by (simp add: ih_sub_fix_dirname_def nth_append)

lemma new_isub_simps [simp]:
  "hs_user (new_isub path d u) = u" "\<not> hs_cancelled (new_isub path d u)"
  "hs_dirname (new_isub path d u) = (if d then path else g_path_get_dirname path)"
  "hs_filename (new_isub path d u) = (if d then None else Some (g_path_get_basename path))"
  "hs_flags (new_isub path d u) = 0"
  by (simp_all add: new_isub_def ih_sub_setup_def)

lemma idle_ok_listener:
  assumes ok: "idle_ok en s" and f: "\<And>ls. ls_service (f ls) = ls_service ls"
  shows "idle_ok en (upd_listener l f s)"
proof -
  have "sub_linked (upd_listener l f s) p u = sub_linked s p u" for p u
    using f by (auto simp: sub_linked_def upd_listener_def split: if_splits) (force+)?
  then show ?thesis
    using ok by (simp add: idle_ok_def in_ok_def in_rest_def ip_inv_def dirs_of_def lists_ok_def users_ok_def upd_listener_def)
qed

text \<open>A subscription that can be added: its listener and connection are there, the listener does not have it
  yet, and the first component of its directory is found.\<close>

definition in_addable :: "'e ienv_scheme \<Rightarrow> cptr \<Rightarrow> GamSubscription \<Rightarrow> 'b isrv_scheme \<Rightarrow> bool" where
  "in_addable en subp sub s \<longleftrightarrow>
     sv_subs s subp = Some sub \<and> sub_linked s (sub_path sub) subp \<and>
     (\<forall>l ls. sub_listener sub = Some l \<longrightarrow> sv_listeners s l = Some ls \<longrightarrow> subp \<notin> set (ls_subs ls)) \<and>
     top_found en (hs_dirname (new_isub (sub_path sub) (sub_is_dir sub) subp))"

lemma inotify_add_runs:
  fixes s :: "'b isrv_scheme"
  assumes ok: "idle_ok en s" and add: "in_addable en subp sub s"
  shows "\<exists>s' q. gam_inotify_add_subscription en subp s = Some (True, s') \<and> idle_ok en s' \<and>
    in_subs s q = None \<and> in_subs s' = (in_subs s)(q \<mapsto> new_isub (sub_path sub) (sub_is_dir sub) subp) \<and>
    (q \<in> dom (in_sub_hash s') \<or> q \<in> set (in_missing s')) \<and> sv_subs s' = sv_subs s"
proof -
  let ?i = "new_isub (sub_path sub) (sub_is_dir sub) subp" and ?q = "in_next s"
  obtain l ls where l: "sv_subs s subp = Some sub" "sub_listener sub = Some l" "sv_listeners s l = Some ls" "subp \<notin> set (ls_subs ls)"
    using add unfolding in_addable_def sub_linked_def by auto
  define s1 where "s1 = upd_listener l (\<lambda>ls. ls\<lparr>ls_subs := subp # ls_subs ls\<rparr>) s"
  have s1: "gam_listener_add_subscription l subp s = Some s1" using l by (simp add: gam_listener_add_subscription_def s1_def)
  have ok1: "idle_ok en s1" unfolding s1_def by (rule idle_ok_listener [OF ok]) simp
  have flds: "in_subs s1 = in_subs s" "in_next s1 = ?q" "sv_subs s1 = sv_subs s" by (simp_all add: s1_def upd_listener_def)
  have "sub_linked s (sub_path sub) subp" using add by (simp add: in_addable_def)
  then have l1: "sub_linked s1 (sub_path sub) (hs_user ?i)"
    using l by (auto simp: sub_linked_def s1_def upd_listener_def)
  have top: "top_found en (hs_dirname ?i)" using add by (simp add: in_addable_def)
  have "\<not> hs_cancelled ?i" by simp
  from ih_sub_add_runs [OF ok1 top l1 this] obtain s3 where
    s3: "ih_sub_add en ?q (s1\<lparr>in_subs := (in_subs s)(?q \<mapsto> ?i), in_next := Suc ?q\<rparr>) = Some (True, s3)" "idle_ok en s3"
      "in_subs s3 = (in_subs s)(?q \<mapsto> ?i)" "?q \<in> dom (in_sub_hash s3) \<or> ?q \<in> set (in_missing s3)"
      "sv_subs s3 = sv_subs s" "sv_listeners s3 = sv_listeners s1" "sv_conns s3 = sv_conns s1"
    unfolding flds by blast
  have new: "ih_sub_new (sub_path sub) (sub_is_dir sub) 0 subp s1 = (?q, s1\<lparr>in_subs := (in_subs s)(?q \<mapsto> ?i), in_next := Suc ?q\<rparr>)"
    by (simp add: ih_sub_new_def new_isub_def flds)
  have "sub_linked s3 (sub_path sub) subp" using l1 s3(5,6,7) flds by (simp add: sub_linked_def)
  from initial_events_runs [OF this, of en "sub_path sub" "sub_is_dir sub" False] obtain s4 where
    s4: "gam_inotify_send_initial_events en (sub_path sub) subp (sub_is_dir sub) False s3 = Some s4" "quiet s3 s4" by blast
  note q4 = quiet_in [OF s4(2)]
  have ok4: "idle_ok en s4"
    using s3(2) in_rest_quiet [OF s4(2), of en] q4 by (simp add: idle_ok_def in_ok_def)
  have "ip_inv s" using ok by (simp add: idle_ok_def in_ok_def in_rest_def)
  then have "in_subs s ?q = None" using ip_invD(6) [of s ?q] by (cases "in_subs s ?q") auto
  moreover have "gam_inotify_add_subscription en subp s = Some (True, s4)"
    using l s1 s3(1) s4(1) new by (simp add: gam_inotify_add_subscription_def)
  moreover have "sv_subs s4 = sv_subs s" using s4(2) s3(5) by (simp add: quiet_def)
  ultimately show ?thesis using ok4 s3(3,4) q4 by auto
qed

section \<open>Removing subscriptions\<close>

text \<open>Without threads the lock can be taken twice.\<close>

lemma G_LOCK_no_threads [simp]: "\<not> ie_threads en \<Longrightarrow> G_LOCK en s = Some (s\<lparr>in_locked := True\<rparr>)"
  by (simp add: G_LOCK_def)

lemma ip_inv_upd_isub [simp]: "ip_inv (upd_isub q f s) = ip_inv s"
proof -
  have "(\<exists>x. map_option f (in_subs s q) = Some x) = (\<exists>x. in_subs s q = Some x)" by (cases "in_subs s q") auto
  then show ?thesis by (auto simp: ip_inv_def dirs_of_def upd_isub_def)
qed

lemma cancel_free_runs:
  fixes s :: "'b isrv_scheme"
  assumes th: "\<not> ie_threads en" and rest: "in_rest en s" and q: "in_subs s q = Some sub"
  shows "\<exists>s'. do { (b, s1) \<leftarrow> ih_sub_cancel en q s; ih_sub_free q s1 } = Some s' \<and> in_rest en s' \<and>
    in_subs s' = (in_subs s)(q := None) \<and> in_list s' = remove1 q (in_list s) \<and> in_ik s' = in_ik s \<and>
    sv_subs s' = sv_subs s \<and> sv_listeners s' = sv_listeners s"
proof -
  have inv: "ip_inv s" and fd: "0 \<le> in_fd s" and us: "users_ok en s" and lo: "lists_ok s"
    using rest by (simp_all add: in_rest_def)
  have nc: "\<not> hs_cancelled sub" and ql: "q \<in> set (in_list s)" using lo q by (auto simp: lists_ok_def)
  define s1 where "s1 = im_rm q (upd_isub q (\<lambda>sub. sub\<lparr>hs_cancelled := True\<rparr>) (s\<lparr>in_locked := True\<rparr>))"
  have i1: "ip_inv s1" using inv by (simp add: s1_def im_rm_def)
  have fd1: "0 \<le> in_fd s1" using fd by (simp add: s1_def im_rm_def upd_isub_def)
  obtain s2 where s2: "ip_stop_watching q s1 = Some s2" "ip_inv s2" "ip_frame s1 s2" "in_sub_hash s2 = (in_sub_hash s1)(q := None)"
    using ip_stop_watching_runs [OF i1 fd1] by blast
  note f2 = ip_frame_simps [OF s2(3)]
  have subs1: "in_subs s1 = (in_subs s)(q \<mapsto> sub\<lparr>hs_cancelled := True\<rparr>)" using q by (simp add: s1_def im_rm_def upd_isub_def)
  have f1: "in_list s1 = in_list s" "in_missing s1 = remove1 q (in_missing s)" "in_sub_hash s1 = in_sub_hash s" "in_ik s1 = in_ik s"
      "in_scanning s1 = in_scanning s" "sv_subs s1 = sv_subs s" "sv_listeners s1 = sv_listeners s" "sv_conns s1 = sv_conns s"
    by (simp_all add: s1_def im_rm_def upd_isub_def)
  define s' where "s' = (G_UNLOCK (s2\<lparr>in_list := remove1 q (in_list s2)\<rparr>))\<lparr>in_subs := (in_subs s)(q := None)\<rparr>"
  have run: "do { (b, s1) \<leftarrow> ih_sub_cancel en q s; ih_sub_free q s1 } = Some s'"
    using th q nc ql s2(1) subs1 f2(1)
    by (simp add: ih_sub_cancel_def s1_def [symmetric] ih_sub_free_def s'_def G_UNLOCK_def)
  have flds: "in_subs s' = (in_subs s)(q := None)" "in_list s' = remove1 q (in_list s)" "in_missing s' = remove1 q (in_missing s)"
      "in_sub_hash s' = (in_sub_hash s)(q := None)" "in_scanning s' = in_scanning s" "in_ik s' = in_ik s" "in_fd s' = in_fd s"
      "sv_subs s' = sv_subs s" "sv_listeners s' = sv_listeners s" "sv_conns s' = sv_conns s"
    using f1 f2 s2(4) by (simp_all add: s'_def G_UNLOCK_def s1_def im_rm_def upd_isub_def)
  have inv': "ip_inv s'"
  proof (rule ip_invI)
    note D = ip_invD [OF s2(2)]
    have e: "in_dirs s' = in_dirs s2" "in_next s' = in_next s2" "in_path_hash s' = in_path_hash s2"
        "in_wd_hash s' = in_wd_hash s2" "in_sub_hash s' = in_sub_hash s2" "\<And>w. dirs_of w s' = dirs_of w s2"
      by (simp_all add: s'_def G_UNLOCK_def dirs_of_def)
    show "\<exists>x. in_subs s' r = Some x" if r: "in_sub_hash s' r = Some d" for r d
      using r ip_invD(5) [OF inv, of r d] by (auto simp: flds split: if_splits)
    show "r < in_next s'" if r: "in_subs s' r = Some x" for r x
    proof -
      have "in_subs s2 r \<noteq> None" using r f2(1) subs1 by (auto simp: flds split: if_splits)
      then show ?thesis using D(6) unfolding e by auto
    qed
    show "(in_sub_hash s' r = Some d) = (\<exists>dir. in_dirs s' d = Some dir \<and> r \<in> set (wdir_subs dir))" for r d
      unfolding e by (rule D(1))
  qed (use ip_invD [OF s2(2)] in \<open>auto simp: s'_def G_UNLOCK_def dirs_of_def\<close>)
  have lo': "lists_ok s'"
  proof -
    have m: "set (remove1 q (in_missing s)) = set (in_missing s) - {q}" "set (remove1 q (in_list s)) = set (in_list s) - {q}"
      using lo by (simp_all add: lists_ok_def)
    have "remove1 q (in_missing s) \<noteq> [] \<longrightarrow> in_missing s \<noteq> []" by auto
    then show ?thesis using lo unfolding lists_ok_def flds m by (auto simp: distinct_remove1)
  qed
  have "sub_linked s' r u = sub_linked s r u" for r u by (simp add: sub_linked_def flds)
  then have us': "users_ok en s'" using us unfolding users_ok_def flds by auto
  show ?thesis using run inv' lo' us' flds fd by (simp add: in_rest_def)
qed


text \<open>The loop frees the subscriptions that the predicate accepts, and no other.\<close>

lemma foreach_free_runs:
  fixes s :: "'b isrv_scheme"
  assumes th: "\<not> ie_threads en"
  shows "in_rest en s \<Longrightarrow> distinct qs \<Longrightarrow> set qs \<subseteq> dom (in_subs s) \<Longrightarrow>
     (\<And>q t. q \<in> set qs \<Longrightarrow> in_subs t q = in_subs s q \<Longrightarrow> sv_subs t = sv_subs s \<Longrightarrow> f q t = Some (P q)) \<Longrightarrow>
     \<exists>s'. foreach_loop en f True qs s = Some s' \<and> in_rest en s' \<and>
       in_subs s' = in_subs s |` (- {q \<in> set qs. P q}) \<and> in_ik s' = in_ik s \<and>
       sv_subs s' = sv_subs s \<and> sv_listeners s' = sv_listeners s"
proof (induction qs arbitrary: s)
  case (Cons q qs)
  obtain sub where sub: "in_subs s q = Some sub" using Cons.prems(3) by auto
  have fq: "f q s = Some (P q)" using Cons.prems(4) by simp
  have qn: "q \<notin> set qs" and dq: "distinct qs" using Cons.prems(2) by auto
  show ?case
  proof (cases "P q")
    case True
    obtain s1 where s1: "do { (b, s1) \<leftarrow> ih_sub_cancel en q s; ih_sub_free q s1 } = Some s1" "in_rest en s1"
        "in_subs s1 = (in_subs s)(q := None)" "in_ik s1 = in_ik s" "sv_subs s1 = sv_subs s" "sv_listeners s1 = sv_listeners s"
      using cancel_free_runs [OF th Cons.prems(1) sub] by blast
    have "set qs \<subseteq> dom (in_subs s1)" using Cons.prems(3) qn by (auto simp: s1(3))
    moreover have "f r t = Some (P r)" if "r \<in> set qs" "in_subs t r = in_subs s1 r" "sv_subs t = sv_subs s1" for r t
      using Cons.prems(4) [of r t] that s1(3,5) qn by (auto split: if_splits)
    ultimately obtain s' where s': "foreach_loop en f True qs s1 = Some s'" "in_rest en s'"
        "in_subs s' = in_subs s1 |` (- {q \<in> set qs. P q})" "in_ik s' = in_ik s1" "sv_subs s' = sv_subs s1"
        "sv_listeners s' = sv_listeners s1"
      using Cons.IH [OF s1(2) dq] by blast
    have "foreach_loop en f True (q # qs) s = Some s'"
      using fq True s1(1) s'(1) by (cases "ih_sub_cancel en q s") auto
    moreover have "in_subs s' = in_subs s |` (- {r \<in> set (q # qs). P r})"
      unfolding s'(3) s1(3) using True by (auto simp: fun_eq_iff restrict_map_def)
    ultimately show ?thesis using s' s1 by simp
  next
    case False
    have "f r t = Some (P r)" if "r \<in> set qs" "in_subs t r = in_subs s r" "sv_subs t = sv_subs s" for r t
      using Cons.prems(4) [of r t] that by simp
    then obtain s' where s': "foreach_loop en f True qs s = Some s'" "in_rest en s'"
        "in_subs s' = in_subs s |` (- {q \<in> set qs. P q})" "in_ik s' = in_ik s" "sv_subs s' = sv_subs s"
        "sv_listeners s' = sv_listeners s"
      using Cons.IH [OF Cons.prems(1) dq] Cons.prems(3) by auto
    have "{r \<in> set (q # qs). P r} = {r \<in> set qs. P r}" using False by auto
    then show ?thesis using s' fq False by simp
  qed
qed (simp add: restrict_map_def)

lemma foreach_worker_runs:
  fixes s :: "'b isrv_scheme"
  assumes th: "\<not> ie_threads en" and ok: "idle_ok en s"
    and f: "\<And>q t. in_subs s q \<noteq> None \<Longrightarrow> in_subs t q = in_subs s q \<Longrightarrow> sv_subs t = sv_subs s \<Longrightarrow> f q t = Some (P q)"
  shows "\<exists>s'. ih_sub_foreach_free en f s = Some s' \<and> idle_ok en s' \<and>
    in_subs s' = in_subs s |` (- {q. P q}) \<and> sv_subs s' = sv_subs s \<and> sv_listeners s' = sv_listeners s"
proof -
  let ?s1 = "s\<lparr>in_locked := True\<rparr>"
  have rest: "in_rest en ?s1" and ik: "ik_ok (in_ik s)" using ok by (simp_all add: idle_ok_def in_ok_def)
  have l: "distinct (in_list s)" "set (in_list s) = dom (in_subs s)"
    using ok by (simp_all add: idle_ok_def in_ok_def in_rest_def lists_ok_def)
  have g: "f q t = Some (P q)" if "q \<in> set (in_list s)" "in_subs t q = in_subs ?s1 q" "sv_subs t = sv_subs ?s1" for q t
    using f that l(2) by auto
  have sub: "set (in_list s) \<subseteq> dom (in_subs ?s1)" using l(2) by simp
  obtain s2 where s2: "foreach_loop en f True (in_list s) ?s1 = Some s2" "in_rest en s2"
      "in_subs s2 = in_subs s |` (- {q \<in> set (in_list s). P q})" "in_ik s2 = in_ik s" "sv_subs s2 = sv_subs s"
      "sv_listeners s2 = sv_listeners s"
    using foreach_free_runs [OF th rest l(1) sub, of f P] g by auto
  have "in_subs s |` (- {q \<in> set (in_list s). P q}) = in_subs s |` (- {q. P q})"
    using l(2) by (auto simp: fun_eq_iff restrict_map_def)
  then show ?thesis
    using th s2 ik by (simp add: ih_sub_foreach_free_def ih_sub_foreach_worker_def G_UNLOCK_def idle_ok_def in_ok_def)
qed

lemma inotify_remove_runs:
  fixes s :: "'b isrv_scheme"
  assumes th: "\<not> ie_threads en" and ok: "idle_ok en s"
  shows "\<exists>s'. gam_inotify_remove_subscription en subp s = Some (True, s') \<and> idle_ok en s' \<and>
    in_subs s' = in_subs s |` {q. \<forall>sub. in_subs s q = Some sub \<longrightarrow> hs_user sub \<noteq> subp} \<and> sv_subs s' = sv_subs s \<and>
    sv_listeners s' = sv_listeners s"
proof -
  let ?P = "\<lambda>q. \<exists>sub. in_subs s q = Some sub \<and> hs_user sub = subp"
  have "gam_inotify_remove_sub_pred subp q t = Some (?P q)" if "in_subs s q \<noteq> None" "in_subs t q = in_subs s q" "sv_subs t = sv_subs s"
    for q t using that by (auto simp: gam_inotify_remove_sub_pred_def)
  from foreach_worker_runs [where f = "gam_inotify_remove_sub_pred subp" and P = ?P, OF th ok this] obtain s' where
    s': "ih_sub_foreach_free en (gam_inotify_remove_sub_pred subp) s = Some s'" "idle_ok en s'"
      "in_subs s' = in_subs s |` (- {q. ?P q})" "sv_subs s' = sv_subs s" "sv_listeners s' = sv_listeners s" by blast
  have "- {q. ?P q} = {q. \<forall>sub. in_subs s q = Some sub \<longrightarrow> hs_user sub \<noteq> subp}" by auto
  then show ?thesis using s' by (simp add: gam_inotify_remove_subscription_def)
qed

lemma inotify_remove_all_runs:
  fixes s :: "'b isrv_scheme"
  assumes th: "\<not> ie_threads en" and ok: "idle_ok en s"
  shows "\<exists>s'. gam_inotify_remove_all_for en l s = Some (True, s') \<and> idle_ok en s' \<and>
    in_subs s' = in_subs s |` {q. \<forall>sub gsub. in_subs s q = Some sub \<longrightarrow> sv_subs s (hs_user sub) = Some gsub \<longrightarrow>
      sub_listener gsub \<noteq> Some l} \<and> sv_subs s' = sv_subs s \<and> sv_listeners s' = sv_listeners s"
proof -
  let ?P = "\<lambda>q. \<exists>sub gsub. in_subs s q = Some sub \<and> sv_subs s (hs_user sub) = Some gsub \<and> sub_listener gsub = Some l"
  have us: "users_ok en s" using ok by (simp add: idle_ok_def in_ok_def in_rest_def)
  have "gam_inotify_remove_listener_pred l q t = Some (?P q)"
    if q: "in_subs s q \<noteq> None" "in_subs t q = in_subs s q" "sv_subs t = sv_subs s" for q t
  proof -
    obtain sub where sub: "in_subs s q = Some sub" using q(1) by auto
    then obtain gsub where "sv_subs s (hs_user sub) = Some gsub" using us unfolding users_ok_def sub_linked_def by blast
    then show ?thesis
      using sub q by (auto simp: gam_inotify_remove_listener_pred_def gam_subscription_get_listener_def)
  qed
  from foreach_worker_runs [where f = "gam_inotify_remove_listener_pred l" and P = ?P, OF th ok this] obtain s' where
    s': "ih_sub_foreach_free en (gam_inotify_remove_listener_pred l) s = Some s'" "idle_ok en s'"
      "in_subs s' = in_subs s |` (- {q. ?P q})" "sv_subs s' = sv_subs s" "sv_listeners s' = sv_listeners s" by blast
  have "- {q. ?P q} = {q. \<forall>sub gsub. in_subs s q = Some sub \<longrightarrow> sv_subs s (hs_user sub) = Some gsub \<longrightarrow>
      sub_listener gsub \<noteq> Some l}" by auto
  then show ?thesis using s' by (simp add: gam_inotify_remove_all_for_def)
qed

end
