(* ===== verification/Gam_Inotify_Props.thy ===== *)
theory Gam_Inotify_Props
  imports Gam_Inotify_Ops Gam_Poll_Props
begin

unbundle bit_operations_syntax

text \<open>
  The properties of the inotify back end, over all runs of its operations, and what modelling it showed.
\<close>

section \<open>Runs\<close>

text \<open>The calls the main loop and the server make. \<open>I_READ\<close> is a read of the bytes of the given kernel events.\<close>

datatype in_call = I_READ "ik_event list" | I_PROCESS | I_SCAN | I_ADD cptr | I_REMOVE cptr | I_REMOVE_ALL cptr

fun do_call :: "'e ienv_scheme \<Rightarrow> in_call \<Rightarrow> isrv \<Rightarrow> (bool \<times> isrv) option" where
  "do_call en (I_READ evs) s = ik_read_callback en (concat (map kernel_bytes evs)) s"
| "do_call en I_PROCESS s = ik_process_eq_callback en s"
| "do_call en I_SCAN s = im_scan_missing en s"
| "do_call en (I_ADD subp) s = gam_inotify_add_subscription en subp s"
| "do_call en (I_REMOVE subp) s = gam_inotify_remove_subscription en subp s"
| "do_call en (I_REMOVE_ALL l) s = gam_inotify_remove_all_for en l s"

text \<open>When a call is made: what is read is a list of whole events that fits the buffer, and a subscription is
  added once, with its listener and connection.\<close>

fun call_ok :: "in_call \<Rightarrow> isrv \<Rightarrow> bool" where
  "call_ok (I_READ evs) s \<longleftrightarrow> list_all kernel_event evs \<and> length (concat (map kernel_bytes evs)) \<le> BUF"
| "call_ok (I_ADD subp) s \<longleftrightarrow> (\<exists>sub. sv_subs s subp = Some sub \<and> sub_linked s (sub_path sub) subp \<and>
     (\<forall>l ls. sub_listener sub = Some l \<longrightarrow> sv_listeners s l = Some ls \<longrightarrow> subp \<notin> set (ls_subs ls)))"
| "call_ok c s \<longleftrightarrow> True"

text \<open>The one condition the code does not see to: that the kernel finds the first component of the directory that
  is to be monitored, without which the loop over the parents does not end.\<close>

fun tops_found :: "'e ienv_scheme \<Rightarrow> in_call \<Rightarrow> isrv \<Rightarrow> bool" where
  "tops_found en (I_ADD subp) s \<longleftrightarrow>
     (\<forall>sub. sv_subs s subp = Some sub \<longrightarrow> top_found en (hs_dirname (new_isub (sub_path sub) (sub_is_dir sub) subp)))"
| "tops_found en c s \<longleftrightarrow> True"

text \<open>The rest of the server may change its own part of the state, as long as the subscriptions that the back
  end has keep their listener and connection.\<close>

definition server_step :: "isrv \<Rightarrow> isrv \<Rightarrow> bool" where
  "server_step s s' \<longleftrightarrow> psrv.more s' = psrv.more s \<and>
     (\<forall>q sub. in_subs s q = Some sub \<longrightarrow> (\<exists>p. sub_linked s' p (hs_user sub)))"

definition clean :: "isrv \<Rightarrow> bool" where
  "clean s \<longleftrightarrow> \<not> sv_inotify s \<and> \<not> in_ik_started s \<and> \<not> in_ip_started s \<and> \<not> in_locked s \<and> in_subs s = Map.empty \<and>
     in_dirs s = Map.empty \<and> in_missing s = [] \<and> in_list s = []"

text \<open>The runs. \<open>W\<close> gives the answers of \<^verbatim>\<open>inotify_add_watch\<close>: since every call of it is recorded and
  \<open>W\<close> is a function of the record, they are any sequence of answers. Everything else of the environment, the
  files and the clock, may be another one at each step; GLib threads are off, for the program never starts
  them. The flag says that the first component was found for each subscription added so far.\<close>

inductive in_reach :: "(kcall list \<Rightarrow> string \<Rightarrow> kmask \<Rightarrow> watchres) \<Rightarrow> bool \<Rightarrow> isrv \<Rightarrow> bool" for W where
  start: "clean s \<Longrightarrow> ie_watch (en :: ienv) = W \<Longrightarrow> ih_startup en s = Some (True, s') \<Longrightarrow> in_reach W True s'"
| call: "in_reach W f s \<Longrightarrow> ie_watch (en :: ienv) = W \<Longrightarrow> \<not> ie_threads en \<Longrightarrow> call_ok c s \<Longrightarrow>
    do_call en c s = Some (b, s') \<Longrightarrow> in_reach W (f \<and> tops_found en c s) s'"
| server: "in_reach W f s \<Longrightarrow> server_step s s' \<Longrightarrow> in_reach W f s'"

inductive_cases in_reach_cases: "in_reach W f s"

text \<open>The invariant depends on the environment only through the answers to \<^verbatim>\<open>inotify_add_watch\<close>.\<close>

lemma idle_ok_env: "ie_watch en = ie_watch en' \<Longrightarrow> idle_ok en s = idle_ok en' s"
  by (simp add: idle_ok_def in_ok_def in_rest_def users_ok_def top_found_def)

lemma startup_ok:
  assumes "clean s" "ih_startup en s = Some (True, s')"
  shows "idle_ok en s'"
  using assms
  by (auto simp: ih_startup_def ip_startup_def ik_startup_def clean_def G_UNLOCK_def idle_ok_def in_ok_def in_rest_def
      ip_inv_def dirs_of_def lists_ok_def users_ok_def ik_init_ok split: if_splits)

lemma do_call_runs:
  assumes th: "\<not> ie_threads en" and ok: "idle_ok en s" and c: "call_ok c s" "tops_found en c s"
  shows "\<exists>b s'. do_call en c s = Some (b, s') \<and> idle_ok en s'"
proof (cases c)
  case (I_READ evs)
  then show ?thesis using read_callback_runs [OF ok, of evs] c by auto
next
  case I_PROCESS
  then show ?thesis using process_callback_runs [OF ok] by auto
next
  case I_SCAN
  then show ?thesis using im_scan_missing_runs [OF ok] by auto
next
  case (I_ADD subp)
  then obtain sub where "in_addable en subp sub s" using c unfolding in_addable_def by auto
  from inotify_add_runs [OF ok this] show ?thesis using I_ADD by auto
next
  case (I_REMOVE subp)
  then show ?thesis using inotify_remove_runs [OF th ok, of subp] by auto
next
  case (I_REMOVE_ALL l)
  then show ?thesis using inotify_remove_all_runs [OF th ok, of l] by auto
qed

lemma server_step_ok:
  assumes ok: "idle_ok en s" and st: "server_step s s'"
  shows "idle_ok en s'"
proof -
  have f: "in_ik s' = in_ik s" "in_fd s' = in_fd s" "in_locked s' = in_locked s"
    "in_subs s' = in_subs s" "in_dirs s' = in_dirs s" "in_next s' = in_next s" "in_path_hash s' = in_path_hash s"
    "in_sub_hash s' = in_sub_hash s" "in_wd_hash s' = in_wd_hash s" "in_missing s' = in_missing s"
    "in_scanning s' = in_scanning s" "in_list s' = in_list s"
    using st unfolding server_step_def by (cases s; cases s'; simp)+
  have d: "dirs_of w s' = dirs_of w s" for w by (simp add: dirs_of_def f)
  have "users_ok en s'" using ok st unfolding idle_ok_def in_ok_def in_rest_def users_ok_def server_step_def f by blast
  then show ?thesis
    using ok st unfolding idle_ok_def in_ok_def in_rest_def ip_inv_def lists_ok_def server_step_def f d by simp
qed

lemma in_reach_ok:
  assumes "in_reach W f s" f "ie_watch (en :: ienv) = W"
  shows "idle_ok en s"
  using assms
proof (induction arbitrary: en rule: in_reach.induct)
  case (start s en0 s')
  have "ie_watch en0 = ie_watch en" using start by simp
  from idle_ok_env [OF this, of s'] show ?case using startup_ok [OF start(1,3)] by simp
next
  case (call f s en0 c b s')
  have "idle_ok en0 s" using call by blast
  from do_call_runs [OF call(3) this call(4)] have "idle_ok en0 s'" using call by auto
  moreover have "ie_watch en0 = ie_watch en" using call by simp
  ultimately show ?case using idle_ok_env by blast
next
  case (server f s s')
  have "idle_ok en s" using server by blast
  then show ?case using server(2) by (rule server_step_ok)
qed

section \<open>Whom an event is reported to\<close>

text \<open>The specification of the dispatch. A subscription of a directory with the event's watch descriptor is
  concerned when it has no file name or that of the event. Its own directory is the watched one, or one that is
  missing below it. If its directory is the one the event is about, it is told of it under the watched directory
  and watched anew, for now it may be there; if the path of the event is only a prefix of its directory, it is
  watched anew without being told; in all other cases it is told, under its own directory.\<close>

definition wants :: "ik_event \<Rightarrow> ih_sub_t \<Rightarrow> bool" where
  "wants ev sub \<longleftrightarrow> hs_filename sub = None \<or> hs_filename sub = Some (ke_name ev)"

definition above :: "string \<Rightarrow> string \<Rightarrow> string \<Rightarrow> bool" where
  "above dpath name dirname \<longleftrightarrow> take (length (event_path dpath name)) dirname = event_path dpath name"

definition told_under :: "string \<Rightarrow> string \<Rightarrow> string \<Rightarrow> string option" where
  "told_under dpath name dirname =
     (if dirname = event_path dpath name then Some dpath else if above dpath name dirname then None else Some dirname)"

definition notice :: "ik_event \<Rightarrow> string \<Rightarrow> ih_sub_t \<Rightarrow> (string \<times> cptr) list" where
  "notice ev dpath sub =
     (if \<not> wants ev sub then []
      else case told_under dpath (ke_name ev) (hs_dirname sub) of
             None \<Rightarrow> []
           | Some d \<Rightarrow> [(d @ slash # ke_name ev, hs_user sub)])"

definition renewed :: "ik_event \<Rightarrow> string \<Rightarrow> ih_sub_t \<Rightarrow> bool" where
  "renewed ev dpath sub \<longleftrightarrow> wants ev sub \<and> above dpath (ke_name ev) (hs_dirname sub)"

text \<open>The subscriptions of the directories of a watch descriptor, with the path of the directory; the paths and
  subscriptions of the server an event is reported with; the subscriptions that are watched anew.\<close>

definition watchers :: "int \<Rightarrow> 'b isrv_scheme \<Rightarrow> (string \<times> cptr) list" where
  "watchers w s = concat (map (\<lambda>d. case in_dirs s d of None \<Rightarrow> []
     | Some dir \<Rightarrow> map (Pair (wdir_path dir)) (wdir_subs dir)) (dirs_of w s))"

definition notices_of :: "ik_event \<Rightarrow> 'b isrv_scheme \<Rightarrow> (string \<times> cptr) list \<Rightarrow> (string \<times> cptr) list" where
  "notices_of ev s ws = concat (map (\<lambda>(p, q). case in_subs s q of None \<Rightarrow> [] | Some sub \<Rightarrow> notice ev p sub) ws)"

definition renewals_of :: "ik_event \<Rightarrow> 'b isrv_scheme \<Rightarrow> (string \<times> cptr) list \<Rightarrow> cptr list" where
  "renewals_of ev s ws = map snd (filter (\<lambda>(p, q). case in_subs s q of None \<Rightarrow> False | Some sub \<Rightarrow> renewed ev p sub) ws)"

definition notices :: "ik_event \<Rightarrow> 'b isrv_scheme \<Rightarrow> (string \<times> cptr) list" where
  "notices ev s = notices_of ev s (watchers (ke_wd ev) s)"

definition renewals :: "ik_event \<Rightarrow> 'b isrv_scheme \<Rightarrow> cptr list" where
  "renewals ev s = renewals_of ev s (watchers (ke_wd ev) s)"

fun report_all :: "kmask \<Rightarrow> (string \<times> cptr) list \<Rightarrow> 'b isrv_scheme \<Rightarrow> 'b isrv_scheme option" where
  "report_all m [] s = Some s"
| "report_all m ((path, user) # xs) s =
     do { s1 \<leftarrow> gam_inotify_event_callback path m user s; report_all m xs s1 }"

text \<open>The other half of a move is reported to each subscription concerned, under its own directory.\<close>

definition told_dir :: "ik_event \<Rightarrow> 'b isrv_scheme \<Rightarrow> cptr \<Rightarrow> ih_sub_t list" where
  "told_dir ev s d =
     (case in_dirs s d of None \<Rightarrow> [] | Some dir \<Rightarrow> filter (wants ev) (List.map_filter (in_subs s) (wdir_subs dir)))"

definition told :: "ik_event \<Rightarrow> 'b isrv_scheme \<Rightarrow> ih_sub_t list" where
  "told ev s = concat (map (told_dir ev s) (dirs_of (ke_wd ev) s))"

abbreviation plain :: "ik_event \<Rightarrow> ih_sub_t \<Rightarrow> string \<times> cptr" where
  "plain ev sub \<equiv> (hs_dirname sub @ slash # ke_name ev, hs_user sub)"

text \<open>Every subscription of the directories of a watch descriptor is for that directory, none waits for a
  directory below it.\<close>

definition at_home :: "int \<Rightarrow> 'b isrv_scheme \<Rightarrow> bool" where
  "at_home w s \<longleftrightarrow> list_all (\<lambda>d. case in_dirs s d of None \<Rightarrow> True | Some dir \<Rightarrow>
     list_all (\<lambda>q. case in_subs s q of None \<Rightarrow> True | Some sub \<Rightarrow> hs_dirname sub = wdir_path dir) (wdir_subs dir))
       (dirs_of w s)"

definition entry_name :: "string \<Rightarrow> bool" where
  "entry_name n \<longleftrightarrow> n \<noteq> [] \<and> slash \<notin> set n"

lemma event_path_not_prefix:
  assumes "entry_name n"
  shows "take (length (event_path p n)) p \<noteq> event_path p n"
proof
  assume a: "take (length (event_path p n)) p = event_path p n"
  obtain c n' where n: "n = c # n'" "c \<noteq> slash" using assms by (cases n) (auto simp: entry_name_def)
  define t where "t = rev (dropWhile (\<lambda>c. c = slash) (rev p))"
  define u where "u = rev (takeWhile (\<lambda>c. c = slash) (rev p))"
  have p: "p = t @ u" unfolding t_def u_def by (metis rev_append rev_rev_ident takeWhile_dropWhile_id)
  have u: "\<forall>x \<in> set u. x = slash" unfolding u_def by (auto dest: set_takeWhileD)
  show False
  proof (cases "list_all (\<lambda>c. c = slash) p")
    case True
    then have "take (length (p @ n)) p = p @ n" using a n by (simp add: event_path_def g_build_filename_def)
    then show False using n by simp
  next
    case False
    then have "event_path p n = t @ slash # c # n'" using n by (simp add: event_path_def g_build_filename_def t_def)
    then have e: "take (Suc (Suc (length n'))) u = slash # c # n'" using a by (simp add: p)
    have "c \<in> set (take (Suc (Suc (length n'))) u)" unfolding e by simp
    then show False using u n by (auto dest: in_set_takeD)
  qed
qed

lemma event_callback_quiet: "gam_inotify_event_callback p m u s = Some s' \<Longrightarrow> quiet s s'"
  by (auto simp: gam_inotify_event_callback_def bind_eq_Some_conv intro: emit_one_quiet)

lemma report_all_append: "report_all m (xs @ ys) s = do { s1 \<leftarrow> report_all m xs s; report_all m ys s1 }"
  by (induction xs arbitrary: s) (auto split: Option.bind_splits)

lemma report_all_runs:
  assumes "\<And>x. x \<in> set xs \<Longrightarrow> \<exists>p. sub_linked s p (snd x)"
  shows "\<exists>s'. report_all m xs s = Some s' \<and> quiet s s'"
  using assms
proof (induction xs arbitrary: s)
  case (Cons x xs)
  obtain path u where x: "x = (path, u)" by (cases x)
  obtain p where "sub_linked s p u" using Cons.prems [of x] x by auto
  then obtain s1 where s1: "gam_inotify_event_callback path m u s = Some s1" "quiet s s1" using event_callback_runs by blast
  have "\<exists>p. sub_linked s1 p (snd y)" if "y \<in> set xs" for y
    using Cons.prems [of y] that sub_linked_quiet [OF s1(2)] by auto
  from Cons.IH [OF this] show ?case using s1 quiet_trans [OF s1(2)] unfolding x by auto
qed simp

text \<open>Telling a client does not look at the subscriptions of the back end.\<close>

lemma took_in_subs: "srv_took fd bs (s\<lparr>in_subs := X\<rparr>) = (srv_took fd bs s)\<lparr>in_subs := X\<rparr>"
  "s\<lparr>in_subs := X, sv_writes := ws\<rparr> = s\<lparr>sv_writes := ws, in_subs := X\<rparr>"
  "upd_conn c g (s\<lparr>in_subs := X\<rparr>) = (upd_conn c g s)\<lparr>in_subs := X\<rparr>"
  by (simp_all add: srv_took_def upd_conn_def)

lemma write_in_subs: "conn_write_loop ws fd data (s\<lparr>in_subs := X\<rparr>) =
    map_prod id (\<lambda>t. t\<lparr>in_subs := X\<rparr>) (conn_write_loop ws fd data s)"
  by (induction ws fd data s rule: conn_write_loop.induct) (simp_all add: took_in_subs Let_def)

lemma send_in_subs: "gam_send_event c r e p l (s\<lparr>in_subs := X\<rparr>) =
    map_option (map_prod id (\<lambda>t. t\<lparr>in_subs := X\<rparr>)) (gam_send_event c r e p l s)"
  by (simp add: gam_send_event_def gam_client_conn_write_def write_in_subs split: Option.bind_splits option.splits prod.splits)

lemma emit_one_in_subs: "gam_server_emit_one_event p d e q f s = Some s' \<Longrightarrow>
    gam_server_emit_one_event p d e q f (s\<lparr>in_subs := X\<rparr>) = Some (s'\<lparr>in_subs := X\<rparr>)"
  by (auto simp: gam_server_emit_one_event_def gam_queue_event_def took_in_subs send_in_subs
      split: Option.bind_splits if_splits option.splits)

lemma event_callback_in_subs: "gam_inotify_event_callback p m u s = Some s' \<Longrightarrow>
    gam_inotify_event_callback p m u (s\<lparr>in_subs := X\<rparr>) = Some (s'\<lparr>in_subs := X\<rparr>)"
  by (auto simp: gam_inotify_event_callback_def dest: emit_one_in_subs split: Option.bind_splits)

text \<open>One subscription, the subscriptions of a directory, and the directories.\<close>

lemma dispatch_sub_spec:
  fixes s :: "'b isrv_scheme"
  assumes q: "in_subs s q = Some sub" and l: "sub_linked s p (hs_user sub)"
  shows "dispatch_sub ev dpath q r s =
    map_option (Pair (if renewed ev dpath sub then q # r else r)) (report_all (ke_mask ev) (notice ev dpath sub) s)"
proof (cases "wants ev sub \<and> hs_dirname sub = event_path dpath (ke_name ev)")
  case True
  let ?X = "(in_subs s)(q \<mapsto> sub\<lparr>hs_dirname := dpath\<rparr>)"
  obtain s1 where s1: "gam_inotify_event_callback (dpath @ slash # ke_name ev) (ke_mask ev) (hs_user sub) s = Some s1" "quiet s s1"
    using event_callback_runs [OF l] by blast
  have u: "upd_isub q (\<lambda>sub. sub\<lparr>hs_dirname := dpath\<rparr>) s = s\<lparr>in_subs := ?X\<rparr>" using q by (simp add: upd_isub_def)
  have e: "ih_event_callback ev q (s\<lparr>in_subs := ?X\<rparr>) = Some (s1\<lparr>in_subs := ?X\<rparr>)"
    using event_callback_in_subs [OF s1(1), of ?X] by (simp add: ih_event_callback_def)
  have "in_subs s = (in_subs s)(q \<mapsto> sub)" using q by auto
  then have "upd_isub q (\<lambda>sub'. sub'\<lparr>hs_dirname := hs_dirname sub\<rparr>) (s1\<lparr>in_subs := ?X\<rparr>) = s1\<lparr>in_subs := in_subs s1\<rparr>"
    using quiet_in(5) [OF s1(2)] by (simp add: upd_isub_def)
  then have "upd_isub q (\<lambda>sub'. sub'\<lparr>hs_dirname := hs_dirname sub\<rparr>) (s1\<lparr>in_subs := ?X\<rparr>) = s1" by simp
  then show ?thesis
    using True q u e s1(1) by (auto simp: dispatch_sub_def notice_def told_under_def renewed_def above_def wants_def)
next
  case False
  then show ?thesis
    using q by (auto simp: dispatch_sub_def notice_def told_under_def renewed_def above_def wants_def ih_event_callback_def
        map_conv_bind_option comp_def)
qed

lemma dispatch_subs_spec:
  fixes s :: "'b isrv_scheme"
  assumes us: "users_ok en s" and q: "set qs \<subseteq> dom (in_subs s)"
  shows "dispatch_subs ev dpath qs r s =
    map_option (Pair (rev (renewals_of ev s (map (Pair dpath) qs)) @ r))
      (report_all (ke_mask ev) (notices_of ev s (map (Pair dpath) qs)) s)"
  using us q
proof (induction qs arbitrary: s r)
  case (Cons x qs)
  obtain sub where sub: "in_subs s x = Some sub" using Cons.prems by auto
  obtain p where l: "sub_linked s p (hs_user sub)" using Cons.prems(1) sub by (auto simp: users_ok_def)
  have "\<exists>p. sub_linked s p (snd y)" if "y \<in> set (notice ev dpath sub)" for y
    using that l by (auto simp: notice_def split: if_splits option.splits)
  from report_all_runs [OF this] obtain s1 where
    s1: "report_all (ke_mask ev) (notice ev dpath sub) s = Some s1" "quiet s s1" by blast
  have e: "in_subs s1 = in_subs s" by (rule quiet_in(5) [OF s1(2)])
  have "users_ok en s1" "set qs \<subseteq> dom (in_subs s1)" using Cons.prems users_ok_quiet [OF s1(2), of en] e by auto
  from Cons.IH [OF this, of "if renewed ev dpath sub then x # r else r"] show ?case
    using s1(1) sub by (simp add: dispatch_sub_spec [OF sub l] notices_of_def renewals_of_def e report_all_append)
qed (simp add: notices_of_def renewals_of_def)

definition dir_watchers :: "'b isrv_scheme \<Rightarrow> cptr \<Rightarrow> (string \<times> cptr) list" where
  "dir_watchers s d = (case in_dirs s d of None \<Rightarrow> [] | Some dir \<Rightarrow> map (Pair (wdir_path dir)) (wdir_subs dir))"

lemma watchers_dirs: "watchers w s = concat (map (dir_watchers s) (dirs_of w s))"
  by (simp add: watchers_def dir_watchers_def [abs_def])

lemma notices_append: "notices_of ev s (xs @ ys) = notices_of ev s xs @ notices_of ev s ys"
  by (simp add: notices_of_def)

lemma renewals_append: "renewals_of ev s (xs @ ys) = renewals_of ev s xs @ renewals_of ev s ys"
  by (simp add: renewals_of_def)

lemma notices_linked:
  assumes "users_ok en s" "y \<in> set (notices_of ev s ws)"
  shows "\<exists>p. sub_linked s p (snd y)"
proof -
  obtain w q where "y \<in> set (case in_subs s q of None \<Rightarrow> [] | Some sub \<Rightarrow> notice ev w sub)"
    using assms(2) by (auto simp: notices_of_def)
  then obtain sub where q: "in_subs s q = Some sub" "y \<in> set (notice ev w sub)" by (cases "in_subs s q") auto
  then have "snd y = hs_user sub" by (auto simp: notice_def split: option.splits if_splits)
  then show ?thesis using assms(1) q(1) by (auto simp: users_ok_def)
qed

lemma report_notices_runs:
  assumes "users_ok en s"
  shows "\<exists>s'. report_all (ke_mask ev) (notices_of ev s ws) s = Some s' \<and> quiet s s'"
  using notices_linked [OF assms] by (intro report_all_runs) blast

lemma dispatch_dirs_spec:
  fixes s :: "'b isrv_scheme"
  assumes us: "users_ok en s" and inv: "ip_inv s" and d: "set ds \<subseteq> dom (in_dirs s)"
  shows "dispatch_dirs ev ds r s =
    map_option (Pair (rev (renewals_of ev s (concat (map (dir_watchers s) ds))) @ r))
      (report_all (ke_mask ev) (notices_of ev s (concat (map (dir_watchers s) ds))) s)"
  using us inv d
proof (induction ds arbitrary: s r)
  case (Cons x ds)
  obtain dir where dir: "in_dirs s x = Some dir" using Cons.prems(3) by auto
  have w: "dir_watchers s x = map (Pair (wdir_path dir)) (wdir_subs dir)" by (simp add: dir_watchers_def dir)
  have "set (wdir_subs dir) \<subseteq> dom (in_sub_hash s)" using ip_invD(1) [OF Cons.prems(2)] dir by blast
  then have qs: "set (wdir_subs dir) \<subseteq> dom (in_subs s)" using ip_invD(5) [OF Cons.prems(2)] by blast
  obtain s1 where s1: "report_all (ke_mask ev) (notices_of ev s (dir_watchers s x)) s = Some s1" "quiet s s1"
    using report_notices_runs [OF Cons.prems(1), of ev "dir_watchers s x"] by blast
  note qi = quiet_in [OF s1(2)]
  have prems: "users_ok en s1" "ip_inv s1" "set ds \<subseteq> dom (in_dirs s1)"
    using Cons.prems users_ok_quiet [OF s1(2), of en] ip_inv_quiet [OF s1(2)] qi by auto
  have same: "notices_of ev s1 = notices_of ev s" "renewals_of ev s1 = renewals_of ev s" "dir_watchers s1 = dir_watchers s"
    by (simp_all add: notices_of_def [abs_def] renewals_of_def [abs_def] dir_watchers_def [abs_def] qi)
  show ?case
    using Cons.IH [OF prems, of "rev (renewals_of ev s (dir_watchers s x)) @ r"] s1(1)
    by (simp add: dir dispatch_subs_spec [OF Cons.prems(1) qs] w [symmetric] notices_append renewals_append
        report_all_append same)
qed (simp add: notices_of_def renewals_of_def)

lemma told_dir_quiet:
  fixes s :: "'b isrv_scheme"
  assumes "quiet s s1"
  shows "told_dir ev s1 = told_dir ev s"
  unfolding told_dir_def fun_eq_iff quiet_in [OF assms] by simp

lemma told_quiet:
  fixes s :: "'b isrv_scheme"
  shows "quiet s s1 \<Longrightarrow> told ev s1 = told ev s"
  by (simp add: told_def told_dir_quiet dirs_of_quiet)

lemma told_linked:
  assumes "users_ok en s" "y \<in> set (map (plain ev) (concat (map (told_dir ev s) ds)))"
  shows "\<exists>p. sub_linked s p (snd y)"
  using assms by (fastforce simp: told_dir_def users_ok_def List.map_filter_def split: option.splits)

lemma tell_dirs_runs:
  assumes "users_ok en s"
  shows "\<exists>s'. report_all m (map (plain ev) (concat (map (told_dir ev s) ds))) s = Some s' \<and> quiet s s'"
  using told_linked [OF assms] by (intro report_all_runs) blast

lemma dispatch_pair_subs_told:
  fixes s :: "'b isrv_scheme"
  assumes q: "\<And>q. q \<in> set qs \<Longrightarrow> in_subs s q \<noteq> None"
  shows "dispatch_pair_subs ev qs s =
    report_all (ke_mask ev) (map (plain ev) (filter (wants ev) (List.map_filter (in_subs s) qs))) s"
  using q
proof (induction qs arbitrary: s)
  case (Cons x qs)
  obtain sub where sub: "in_subs s x = Some sub" using Cons.prems by fastforce
  show ?case
  proof (cases "wants ev sub")
    case True
    let ?c = "gam_inotify_event_callback (hs_dirname sub @ slash # ke_name ev) (ke_mask ev) (hs_user sub) s"
    have c: "ih_event_callback ev x s = ?c" using sub by (simp add: ih_event_callback_def)
    show ?thesis
    proof (cases ?c)
      case None
      then show ?thesis using c True sub by (auto simp: wants_def)
    next
      case (Some s1)
      have e: "in_subs s1 = in_subs s" using quiet_in(5) event_callback_quiet Some by blast
      then have "\<And>q. q \<in> set qs \<Longrightarrow> in_subs s1 q \<noteq> None" using Cons.prems by simp
      from Cons.IH [OF this] show ?thesis using Some c True sub e by (auto simp: wants_def)
    qed
  next
    case False
    then have "hs_filename sub \<noteq> None" "hs_filename sub \<noteq> Some (ke_name ev)" by (auto simp: wants_def)
    then show ?thesis using sub False Cons.IH [of s] Cons.prems by simp
  qed
qed simp

lemma dispatch_pair_dirs_told:
  fixes s :: "'b isrv_scheme"
  assumes us: "users_ok en s"
    and d: "\<And>d. d \<in> set ds \<Longrightarrow> \<exists>dir. in_dirs s d = Some dir \<and> (\<forall>q \<in> set (wdir_subs dir). in_subs s q \<noteq> None)"
  shows "dispatch_pair_dirs ev ds s = report_all (ke_mask ev) (map (plain ev) (concat (map (told_dir ev s) ds))) s"
  using us d
proof (induction ds arbitrary: s)
  case (Cons x ds)
  obtain dir where dir: "in_dirs s x = Some dir" "\<And>q. q \<in> set (wdir_subs dir) \<Longrightarrow> in_subs s q \<noteq> None"
    using Cons.prems(2) by fastforce
  obtain s1 where s1: "report_all (ke_mask ev) (map (plain ev) (told_dir ev s x)) s = Some s1" "quiet s s1"
    using tell_dirs_runs [OF Cons.prems(1), of "ke_mask ev" ev "[x]"] by auto
  have one: "dispatch_pair_subs ev (wdir_subs dir) s = Some s1"
    using dispatch_pair_subs_told [OF dir(2)] s1(1) dir(1) by (simp add: told_dir_def)
  have us1: "users_ok en s1" using Cons.prems(1) users_ok_quiet [OF s1(2), of en] by simp
  have d1: "\<And>d. d \<in> set ds \<Longrightarrow> \<exists>dir. in_dirs s1 d = Some dir \<and> (\<forall>q \<in> set (wdir_subs dir). in_subs s1 q \<noteq> None)"
    unfolding quiet_in [OF s1(2)] using Cons.prems(2) by auto
  show ?case
    using Cons.IH [OF us1 d1] one dir(1) s1(1) by (simp add: report_all_append told_dir_quiet [OF s1(2)])
qed simp

lemma dirs_of_subs:
  assumes inv: "ip_inv s" and d: "d \<in> set (dirs_of w s)"
  shows "\<exists>dir. in_dirs s d = Some dir \<and> (\<forall>q \<in> set (wdir_subs dir). in_subs s q \<noteq> None)"
proof -
  obtain dir where dir: "in_dirs s d = Some dir" using ip_inv_dirs_of [OF inv d] by blast
  have "in_subs s q \<noteq> None" if q: "q \<in> set (wdir_subs dir)" for q
  proof -
    have "in_sub_hash s q = Some d" unfolding ip_invD(1) [OF inv] using dir q by blast
    from ip_invD(5) [OF inv this] show ?thesis by blast
  qed
  then show ?thesis using dir by blast
qed

text \<open>The dispatch of an event, and of the other half of a move, is the specification.\<close>

lemma ip_event_dispatch_spec:
  fixes s :: "'b isrv_scheme"
  assumes rest: "in_rest en s"
  shows "ip_event_dispatch en (dirs_of (ke_wd ev) s)
      (case pair of None \<Rightarrow> [] | Some pv \<Rightarrow> dirs_of (ke_wd pv) s) ev pair s =
    do { s1 \<leftarrow> report_all (ke_mask ev) (notices ev s) s;
         s2 \<leftarrow> (case pair of None \<Rightarrow> Some s1 | Some pv \<Rightarrow> report_all (ke_mask pv) (map (plain pv) (told pv s)) s1);
         resubscribe en (rev (renewals ev s)) s2 }"
proof -
  have inv: "ip_inv s" and us: "users_ok en s" using rest by (simp_all add: in_rest_def)
  obtain s1 where s1: "report_all (ke_mask ev) (notices ev s) s = Some s1" "quiet s s1"
    using report_notices_runs [OF us] unfolding notices_def by blast
  have one: "dispatch_dirs ev (dirs_of (ke_wd ev) s) [] s = Some (rev (renewals ev s), s1)"
    using dispatch_dirs_spec [OF us inv dirs_of_there [OF inv], of ev "ke_wd ev" "[]"] s1(1)
    by (simp add: notices_def renewals_def watchers_dirs)
  have us1: "users_ok en s1" using us users_ok_quiet [OF s1(2), of en] by simp
  have inv1: "ip_inv s1" using inv ip_inv_quiet [OF s1(2)] by simp
  have two: "dispatch_pair_dirs pv (dirs_of (ke_wd pv) s) s1 = report_all (ke_mask pv) (map (plain pv) (told pv s)) s1" for pv
    using dispatch_pair_dirs_told [where ds = "dirs_of (ke_wd pv) s1" and ev = pv, OF us1 dirs_of_subs [OF inv1]]
    by (simp add: told_def told_dir_quiet [OF s1(2)] dirs_of_quiet [OF s1(2)])
  show ?thesis
    by (cases pair) (simp_all add: ip_event_dispatch_def one s1(1) two)
qed

text \<open>The usual case: when every subscription of the directories is for that directory, an event on an entry is told
  to each that is concerned, and none is watched anew.\<close>

lemma usual_dispatch:
  fixes s :: "'b isrv_scheme"
  assumes n: "entry_name (ke_name ev)" and home: "at_home (ke_wd ev) s"
  shows "notices ev s = map (plain ev) (told ev s)" "renewals ev s = []"
proof -
  have dn: "hs_dirname sub = p" if "(p, q) \<in> set (watchers (ke_wd ev) s)" "in_subs s q = Some sub" for p q sub
    using that home by (fastforce simp: watchers_def at_home_def list_all_iff split: option.splits)
  have no: "\<not> above p (ke_name ev) p" for p using event_path_not_prefix [OF n] by (simp add: above_def)
  then have "p \<noteq> event_path p (ke_name ev)" for p by (metis above_def take_all_iff order_refl)
  then have one: "notice ev p sub = (if wants ev sub then [plain ev sub] else [])" if "hs_dirname sub = p" for p sub
    using that no by (simp add: notice_def told_under_def)
  show "renewals ev s = []"
    using dn no by (fastforce simp: renewals_def renewals_of_def filter_empty_conv renewed_def split: option.splits)
  have step: "notices_of ev s (dir_watchers s d) = map (plain ev) (told_dir ev s d)" if "d \<in> set (dirs_of (ke_wd ev) s)" for d
  proof (cases "in_dirs s d")
    case (Some dir)
    have h: "hs_dirname sub = wdir_path dir" if "q \<in> set (wdir_subs dir)" "in_subs s q = Some sub" for q sub
      using home that Some \<open>d \<in> set (dirs_of (ke_wd ev) s)\<close> by (fastforce simp: at_home_def list_all_iff split: option.splits)
    have "notices_of ev s (map (Pair (wdir_path dir)) qs) = map (plain ev) (filter (wants ev) (List.map_filter (in_subs s) qs))"
      if "set qs \<subseteq> set (wdir_subs dir)" for qs
      using that
    proof (induction qs)
      case (Cons q qs)
      show ?case
      proof (cases "in_subs s q")
        case (Some sub)
        then have "notice ev (wdir_path dir) sub = (if wants ev sub then [plain ev sub] else [])"
          using one [OF h [OF _ Some]] Cons.prems by auto
        then show ?thesis using Some Cons by (simp add: notices_of_def List.map_filter_def)
      qed (use Cons in \<open>simp add: notices_of_def List.map_filter_def\<close>)
    qed (simp add: notices_of_def)
    then show ?thesis using Some by (simp add: dir_watchers_def told_dir_def)
  qed (simp add: dir_watchers_def told_dir_def notices_of_def)
  have "notices_of ev s (concat (map (dir_watchers s) ds)) = map (plain ev) (concat (map (told_dir ev s) ds))"
    if "set ds \<subseteq> set (dirs_of (ke_wd ev) s)" for ds
    using that step by (induction ds) (simp_all add: notices_append, simp add: notices_of_def)
  then show "notices ev s = map (plain ev) (told ev s)"
    by (simp add: notices_def told_def watchers_dirs)
qed

section \<open>An example\<close>

definition demo_ienv :: "(string \<times> int) list \<Rightarrow> ienv" where
  "demo_ienv files = fenv.extend (demo_env 1 files)
     \<lparr>ie_watch = (\<lambda>cs p m. if p = ''/d'' then ADD_WD 1 else if p = ''/'' then ADD_WD 2 else ADD_ERR),
      ie_init_fd = 3, ie_mode = (\<lambda>p. 0), ie_clock = (\<lambda>t. (int t, 0)), ie_threads = False\<rparr>"

definition demo_i :: isrv where
  "demo_i = psrv.extend demo0
     \<lparr>in_ik = ik_init, in_fd = -1, in_calls = [], in_ik_started = False, in_ip_started = False, in_locked = False,
      in_subs = Map.empty, in_dirs = Map.empty, in_next = 0, in_path_hash = Map.empty, in_sub_hash = Map.empty,
      in_wd_hash = Map.empty, in_missing = [], in_scanning = False, in_list = []\<rparr>"

definition demo_started :: isrv where
  "demo_started = snd (the (ih_startup (demo_ienv [(''/d/a'', 4)]) demo_i))"

lemma demo_env_simps [simp]:
  "ie_watch (demo_ienv f) = (\<lambda>cs p m. if p = ''/d'' then ADD_WD 1 else if p = ''/'' then ADD_WD 2 else ADD_ERR)"
  "ie_init_fd (demo_ienv f) = 3" "\<not> ie_threads (demo_ienv f)"
  by (simp_all add: demo_ienv_def fenv.defs)

lemma demo_clean: "clean demo_i"
  by (simp add: clean_def demo_i_def psrv.defs demo0_def no_nodes_def srv.defs gam_poll_generic_init_def gam_tree_new_def
      alloc_node_def gam_poll_generic_update_time_def srv0_def)

lemma demo_startup: "ih_startup (demo_ienv f) demo_i = Some (True, demo_i\<lparr>in_fd := 3, in_ik_started := True,
    in_ip_started := True, sv_inotify := True\<rparr>)"
  using demo_clean by (simp add: ih_startup_def ip_startup_def ik_startup_def clean_def G_UNLOCK_def)
    (simp add: demo_i_def psrv.defs)

lemma demo_reach: "in_reach (ie_watch (demo_ienv f)) True demo_started"
  unfolding demo_started_def demo_startup by (simp, rule in_reach.start [OF demo_clean _ demo_startup]) simp

lemma demo_in_addable: "in_addable (demo_ienv f) 2 (demo_sub ''/d'' 9 True) demo_started"
  unfolding demo_started_def demo_startup
  by (simp add: in_addable_def top_found_def demo_i_def psrv.defs demo0_def no_nodes_def srv.defs gam_poll_generic_init_def
      gam_tree_new_def alloc_node_def gam_poll_generic_update_time_def srv0_def conn0_def demo_sub_def sub_linked_def
      gam_subscription_set_listener_def gam_node_new_def)

section \<open>Properties\<close>

text \<open>C10. The inotify back end never aborts and never follows a pointer to an object that was freed, as long as
  the kernel finds the first component of every directory it was asked to monitor: in every state that starting
  it, reading any events, processing them, scanning the missing list, adding and removing subscriptions and the
  rest of the server can lead to, whatever \<^verbatim>\<open>inotify_add_watch\<close> answers and the files and the clock are at each
  step, each of these calls returns, and its state has the invariant: the three hash tables name the watched
  directories and their subscriptions and nothing else, a directory is watched exactly as long as it has a
  subscription, a subscription is not both watched and missing, and every event that is allocated is queued once.
  Two conditions are part of the claim. GLib threads are off, as in the program, which never calls
  \<^verbatim>\<open>g_thread_init\<close>; with them the removal of a subscription would wait for its own lock
  (\<open>removal_deadlocks_with_threads\<close>). And a directory whose first component the kernel answers \<^verbatim>\<open>ENOENT\<close> for is not
  added; with it the loop over the parents does not end (\<open>ip_watch_parent_loops\<close>).\<close>

theorem inotify_never_aborts:
  assumes "in_reach W True s" "ie_watch (en :: ienv) = W" "\<not> ie_threads en" "call_ok c s" "tops_found en c s"
  shows "\<exists>b s'. do_call en c s = Some (b, s') \<and> idle_ok en s'"
  using do_call_runs [OF assms(3) in_reach_ok [OF assms(1) TrueI assms(2)] assms(4,5)] .

theorem inotify_never_aborts_witness:
  "\<exists>b s'. do_call (demo_ienv [(''/d/a'', 4)]) (I_ADD 2) demo_started = Some (b, s') \<and> idle_ok (demo_ienv [(''/d/a'', 4)]) s'"
proof -
  have "call_ok (I_ADD 2) demo_started" "tops_found (demo_ienv [(''/d/a'', 4)]) (I_ADD 2) demo_started"
    using demo_in_addable unfolding in_addable_def by auto
  from inotify_never_aborts [OF demo_reach _ demo_env_simps(3) this] show ?thesis by simp
qed


text \<open>An event of the mask, other than one that the watched directory itself is gone.\<close>

definition dispatched_event :: "ik_event \<Rightarrow> bool" where
  "dispatched_event ev \<longleftrightarrow> has_bit (ke_mask ev) IP_INOTIFY_MASK \<and> \<not> has_bit (ke_mask ev) IN_IGNORED \<and>
     \<not> has_bit (ke_mask ev) IN_DELETE_SELF \<and> \<not> has_bit (ke_mask ev) IN_MOVE_SELF"

definition pair_of :: "ik_event \<Rightarrow> 'b isrv_scheme \<Rightarrow> ik_event option" where
  "pair_of ev s = (case ke_pair ev of None \<Rightarrow> None | Some f \<Rightarrow> ik_evs (in_ik s) f)"

definition demo_watching :: isrv where
  "demo_watching = (snd (the (gam_inotify_add_subscription (demo_ienv [(''/d/a'', 4)]) 2 demo_started)))
     \<lparr>in_ik := ik_init\<lparr>ik_evs := [0 \<mapsto> kev IN_MOVED_FROM 7 ''c''\<lparr>ke_pair := Some 1\<rparr>, 1 \<mapsto> kev IN_MOVED_TO 7 ''b'']\<rparr>\<rparr>"

lemma demo_idle: "idle_ok (demo_ienv f) demo_started"
  by (rule in_reach_ok [OF demo_reach TrueI]) simp

lemma demo_watching_rest: "in_rest (demo_ienv [(''/d/a'', 4)]) demo_watching"
proof -
  let ?en = "demo_ienv [(''/d/a'', 4)]"
  obtain s' where "gam_inotify_add_subscription ?en 2 demo_started = Some (True, s')" "idle_ok ?en s'"
    using inotify_add_runs [OF demo_idle demo_in_addable] by blast
  then show ?thesis by (simp add: demo_watching_def idle_ok_def in_ok_def in_rest_ik)
qed

lemma demo_watching_facts:
  "ik_evs (in_ik demo_watching) 0 = Some (kev IN_MOVED_FROM 7 ''c''\<lparr>ke_pair := Some 1\<rparr>)"
  "pair_of (kev IN_MOVED_FROM 7 ''c''\<lparr>ke_pair := Some 1\<rparr>) demo_watching = Some (kev IN_MOVED_TO 7 ''b'')"
  "at_home 1 demo_watching" "dispatched_event (kev IN_MOVED_FROM 7 ''c''\<lparr>ke_pair := Some 1\<rparr>)" "entry_name ''c''"
  "map (\<lambda>sub. (hs_dirname sub, hs_user sub)) (told (kev IN_MOVED_TO 7 ''b'') demo_watching) = [(''/d'', 2)]"
  by code_simp+

text \<open>C11. The dispatch of an event is its specification. In order, each subscription of the directories with the
  event's watch descriptor that has no file name, or that of the event, is looked at: when its directory is the
  one the event is about, it is told of the event under the watched directory, and will be watched anew; when
  the path of the event is a proper prefix of its directory, it is not told, and will be watched anew; otherwise
  it is told once, under its own directory and the name of the event. Then, if the event is the first half of a
  move, each such subscription of the other directory is told of the second half; then those to be watched anew
  are, the last one first; then the event is freed. All of this succeeds. In the usual case, that the event has
  the name of an entry and each of the subscriptions is for the watched directory and not for a missing one below
  it, every subscription concerned is told under its directory and none is watched anew.\<close>

theorem event_reaches_its_subscriptions:
  assumes rest: "in_rest en s" and e: "ik_evs (in_ik s) e = Some ev" and ev: "dispatched_event ev"
    and pair: "ke_pair ev \<noteq> None \<longrightarrow> pair_of ev s \<noteq> None"
  shows "\<exists>s1 s2 s3. report_all (ke_mask ev) (notices ev s) s = Some s1 \<and>
    (case pair_of ev s of None \<Rightarrow> Some s1 | Some pv \<Rightarrow> report_all (ke_mask pv) (map (plain pv) (told pv s)) s1) = Some s2 \<and>
    resubscribe en (rev (renewals ev s)) s2 = Some s3 \<and> ip_event_callback en e s = free_event e s3 \<and>
    (entry_name (ke_name ev) \<and> at_home (ke_wd ev) s \<longrightarrow>
       notices ev s = map (plain ev) (told ev s) \<and> renewals ev s = [] \<and> s3 = s2)"
proof -
  let ?pl = "case pair_of ev s of None \<Rightarrow> [] | Some pv \<Rightarrow> dirs_of (ke_wd pv) s"
  obtain s3 where s3: "ip_event_dispatch en (dirs_of (ke_wd ev) s) ?pl ev (pair_of ev s) s = Some s3"
    using ip_event_dispatch_runs [OF rest] by blast
  from this [unfolded ip_event_dispatch_spec [OF rest]] obtain s1 s2 where
    d: "report_all (ke_mask ev) (notices ev s) s = Some s1"
      "(case pair_of ev s of None \<Rightarrow> Some s1 | Some pv \<Rightarrow> report_all (ke_mask pv) (map (plain pv) (told pv s)) s1) = Some s2"
      "resubscribe en (rev (renewals ev s)) s2 = Some s3"
    unfolding bind_eq_Some_conv by blast
  have p: "(case ke_pair ev of None \<Rightarrow> Some None | Some f \<Rightarrow> map_option Some (ik_evs (in_ik s) f)) = Some (pair_of ev s)"
    using pair by (auto simp: pair_of_def split: option.splits)
  have "ip_event_callback en e s = free_event e s3"
    using ev unfolding ip_event_callback_def e Option.bind.bind_lunit p Let_def s3 dispatched_event_def by simp
  moreover have "notices ev s = map (plain ev) (told ev s) \<and> renewals ev s = [] \<and> s3 = s2"
    if "entry_name (ke_name ev) \<and> at_home (ke_wd ev) s"
    using usual_dispatch [of ev s] that d(3) by simp
  ultimately show ?thesis using d by blast
qed

theorem event_reaches_its_subscriptions_witness:
  "\<exists>s1 s2. report_all IN_MOVED_FROM (map (plain (kev IN_MOVED_FROM 7 ''c''))
      (told (kev IN_MOVED_FROM 7 ''c''\<lparr>ke_pair := Some 1\<rparr>) demo_watching)) demo_watching = Some s1 \<and>
    report_all IN_MOVED_TO (map (plain (kev IN_MOVED_TO 7 ''b'')) (told (kev IN_MOVED_TO 7 ''b'') demo_watching)) s1 = Some s2 \<and>
    map (\<lambda>sub. (hs_dirname sub, hs_user sub)) (told (kev IN_MOVED_TO 7 ''b'') demo_watching) = [(''/d'', 2)] \<and>
    ip_event_callback (demo_ienv [(''/d/a'', 4)]) 0 demo_watching = free_event 0 s2"
proof -
  let ?ev = "kev IN_MOVED_FROM 7 ''c''\<lparr>ke_pair := Some 1\<rparr>"
  have k: "ke_wd ?ev = 1" "ke_name ?ev = ''c''" "ke_name (kev IN_MOVED_FROM 7 ''c'') = ''c''"
    "ke_mask (kev IN_MOVED_TO 7 ''b'') = IN_MOVED_TO" "ke_mask ?ev = IN_MOVED_FROM" by (simp_all add: kev_def)
  have usual: "entry_name (ke_name ?ev) \<and> at_home (ke_wd ?ev) demo_watching" using demo_watching_facts(3,5) k by simp
  have p: "ke_pair ?ev \<noteq> None \<longrightarrow> pair_of ?ev demo_watching \<noteq> None" using demo_watching_facts(2) by simp
  obtain s1 s2 where s: "report_all (ke_mask ?ev) (notices ?ev demo_watching) demo_watching = Some s1"
      "(case pair_of ?ev demo_watching of None \<Rightarrow> Some s1
        | Some pv \<Rightarrow> report_all (ke_mask pv) (map (plain pv) (told pv demo_watching)) s1) = Some s2"
      "ip_event_callback (demo_ienv [(''/d/a'', 4)]) 0 demo_watching = free_event 0 s2"
      "notices ?ev demo_watching = map (plain ?ev) (told ?ev demo_watching)"
    using event_reaches_its_subscriptions [OF demo_watching_rest demo_watching_facts(1,4)] usual p by blast
  have "map (plain ?ev) xs = map (plain (kev IN_MOVED_FROM 7 ''c'')) xs" for xs by (simp add: k)
  then show ?thesis
    using s demo_watching_facts(2,6) k(4,5) by (intro exI [of _ s1] exI [of _ s2]) simp
qed

text \<open>A subscription for a missing directory, watched through its parent, is told of the creation of the directory
  under the parent, and watched anew.\<close>

lemma missing_directory_noticed:
  assumes "hs_filename sub = None" "hs_dirname sub = ''/d/x''"
  shows "notice (kev IN_CREATE 7 ''x'') ''/d'' sub = [(''/d/x'', hs_user sub)]"
    "renewed (kev IN_CREATE 7 ''x'') ''/d'' sub"
  using assms by (simp_all add: notice_def wants_def told_under_def renewed_def above_def event_path_def g_build_filename_def kev_def)

text \<open>C34. A subscription that is removed is forgotten: removing it returns, the invariant holds again, and of the
  back end's subscriptions exactly those made for it are gone, from the list, from the missing list, from the
  directories they were watched through; the others stay as they were. So no later event can name it.\<close>

theorem cancelled_subscription_is_forgotten:
  assumes "\<not> ie_threads en" "idle_ok en s"
  shows "\<exists>s'. gam_inotify_remove_subscription en subp s = Some (True, s') \<and> idle_ok en s' \<and>
    in_subs s' = in_subs s |` {q. \<forall>sub. in_subs s q = Some sub \<longrightarrow> hs_user sub \<noteq> subp} \<and>
    (\<forall>ev sub. sub \<in> set (told ev s') \<longrightarrow> hs_user sub \<noteq> subp) \<and>
    (\<forall>q \<in> set (in_list s') \<union> set (in_missing s') \<union> dom (in_sub_hash s'). \<exists>sub. in_subs s' q = Some sub \<and> hs_user sub \<noteq> subp)"
proof -
  obtain s' where s': "gam_inotify_remove_subscription en subp s = Some (True, s')" "idle_ok en s'"
      "in_subs s' = in_subs s |` {q. \<forall>sub. in_subs s q = Some sub \<longrightarrow> hs_user sub \<noteq> subp}"
    using inotify_remove_runs [OF assms, of subp] by blast
  have gone: "hs_user sub \<noteq> subp" if "in_subs s' q = Some sub" for q sub
    using that unfolding s'(3) by (auto simp: restrict_map_def split: if_splits)
  have l: "lists_ok s'" and inv: "ip_inv s'" using s'(2) by (simp_all add: idle_ok_def in_ok_def in_rest_def)
  have "set (in_list s') \<union> set (in_missing s') \<union> dom (in_sub_hash s') \<subseteq> dom (in_subs s')"
    using l ip_invD(5) [OF inv] unfolding lists_ok_def by blast
  then have a: "\<forall>q \<in> set (in_list s') \<union> set (in_missing s') \<union> dom (in_sub_hash s'). \<exists>sub. in_subs s' q = Some sub \<and> hs_user sub \<noteq> subp"
    using gone by blast
  have "hs_user sub \<noteq> subp" if sub: "sub \<in> set (told ev s')" for ev sub
  proof -
    have "\<exists>q. in_subs s' q = Some sub"
      using sub by (auto simp: told_def told_dir_def List.map_filter_def split: option.splits)
    then show ?thesis using gone by blast
  qed
  then show ?thesis using s' a by blast
qed

theorem cancelled_subscription_is_forgotten_witness:
  "\<exists>s s'. gam_inotify_add_subscription (demo_ienv []) 2 demo_started = Some (True, s) \<and>
    (\<exists>q sub. in_subs s q = Some sub \<and> hs_user sub = 2) \<and>
    gam_inotify_remove_subscription (demo_ienv []) 2 s = Some (True, s') \<and>
    (\<forall>q sub. in_subs s' q = Some sub \<longrightarrow> hs_user sub \<noteq> 2)"
proof -
  let ?en = "demo_ienv []"
  obtain s q where s: "gam_inotify_add_subscription ?en 2 demo_started = Some (True, s)" "idle_ok ?en s"
      "in_subs s = (in_subs demo_started)(q \<mapsto> new_isub ''/d'' True 2)"
    using inotify_add_runs [OF demo_idle demo_in_addable, of "[]"] by (auto simp: demo_sub_def gam_subscription_set_listener_def)
  obtain s' where s': "gam_inotify_remove_subscription ?en 2 s = Some (True, s')"
      "in_subs s' = in_subs s |` {q. \<forall>sub. in_subs s q = Some sub \<longrightarrow> hs_user sub \<noteq> 2}"
    using cancelled_subscription_is_forgotten [OF demo_env_simps(3) s(2), of 2] by blast
  have "in_subs s q = Some (new_isub ''/d'' True 2) \<and> hs_user (new_isub ''/d'' True 2) = 2" by (simp add: s(3))
  moreover have "\<forall>q sub. in_subs s' q = Some sub \<longrightarrow> hs_user sub \<noteq> 2"
    unfolding s'(2) by (auto simp: restrict_map_def split: if_splits)
  ultimately show ?thesis using s(1) s'(1) by blast
qed

end
