(* ===== verification/Gam_Inotify_Gaps.thy ===== *)
theory Gam_Inotify_Gaps
  imports Gam_Inotify_Props
begin

unbundle bit_operations_syntax

text \<open>
  What modelling the inotify back end showed: runs in which it does not do what it is meant to, each a lemma on
  the definitions.
\<close>

text \<open>A file system where \<open>/d\<close> is there, and the answer for the directories below it is given.\<close>

definition gap_ienv :: "watchres \<Rightarrow> ienv" where
  "gap_ienv r = (demo_ienv [])\<lparr>ie_watch := (\<lambda>cs p m. if p = ''/'' then ADD_WD 2 else if p = ''/d'' then ADD_WD 1 else r)\<rparr>"

definition gap_i :: "ih_sub_t list \<Rightarrow> isrv" where
  "gap_i subs = demo_started\<lparr>in_subs := map_of (zip [10..<10 + length subs] subs), in_next := 20,
     in_list := [10..<10 + length subs], sv_subs := (sv_subs demo_started)(5 \<mapsto> demo_sub ''/d/x'' 12 True)\<rparr>"

definition gap_events :: "isrv \<Rightarrow> (evtype \<times> string) list" where
  "gap_events s = (case sv_conns s 0 of None \<Rightarrow> [] | Some c \<Rightarrow> map (\<lambda>e. (ee_event e, ee_path e)) (cn_eq c))"

text \<open>Watching a parent counts as watching, so the scan of the missing list reports a directory as created that
  does not exist.\<close>

lemma missing_directory_reported_created:
  "map_option (\<lambda>(b, s). (in_missing s, map_option wdir_path (Option.bind (in_sub_hash s 10) (in_dirs s)), gap_events s))
     (im_scan_missing (gap_ienv ADD_NOENT) ((gap_i [new_isub ''/d/x'' True 5])\<lparr>in_missing := [10]\<rparr>)) =
   Some ([], Some ''/d'', [(GAMIN_EVENT_CREATED, ''/d/x'')])"
  by code_simp

text \<open>A second watched directory is made for a parent that is watched already. Both have the one watch descriptor
  of the kernel, and when the second goes, the kernel is told to stop watching for both.\<close>

lemma shared_watch_removed:
  "map_option (\<lambda>s. (drop 3 (in_calls s), map_option wdir_path (Option.bind (in_sub_hash s 10) (in_dirs s)), in_path_hash s ''/d''))
     (do { (a, s1) \<leftarrow> ip_start_watching (gap_ienv ADD_NOENT) 10 (gap_i [new_isub ''/d'' True 2, new_isub ''/d/x'' True 5]);
           (b, s2) \<leftarrow> ip_start_watching (gap_ienv ADD_NOENT) 11 s1;
           ip_stop_watching 11 s2 }) =
   Some ([K_RM 1], Some ''/d'', None)"
  by code_simp

text \<open>A directory that appears and cannot be watched, for want of permission for example: the subscription is then
  neither on a watched directory nor on the missing list, and nothing looks for it again.\<close>

lemma failed_resubscription_is_lost:
  "map_option (\<lambda>s. (in_sub_hash s 10, in_missing s))
     (do { (a, s1) \<leftarrow> ip_start_watching (gap_ienv ADD_NOENT) 10 (gap_i [new_isub ''/d/x'' True 5]);
           ip_event_dispatch (gap_ienv ADD_ERR) (dirs_of 1 s1) [] (kev IN_CREATE 0 ''x'') None s1 }) = Some (None, [])"
  by code_simp

text \<open>An event in a parent that is watched for a missing directory is reported as one in the missing directory.\<close>

lemma parent_event_reported_below:
  assumes "in_subs s q = Some sub" "hs_filename sub = None" "hs_dirname sub = ''/d/x''" "ke_name ev = ''c''"
  shows "dispatch_sub ev ''/d'' q r s =
    map_option (Pair r) (gam_inotify_event_callback ''/d/x/c'' (ke_mask ev) (hs_user sub) s)"
  using assms by (simp add: dispatch_sub_def event_path_def g_build_filename_def ih_event_callback_def
      map_conv_bind_option comp_def)

text \<open>A subscription for a file in a missing directory is not watched anew when the directory appears: the name of
  the directory is not that of the file.\<close>

lemma file_in_missing_directory_not_resubscribed:
  assumes "in_subs s q = Some sub" "hs_filename sub = Some f" "ke_name ev \<noteq> f"
  shows "dispatch_sub ev p q r s = Some (r, s)"
  using assms by (simp add: dispatch_sub_def)

text \<open>The prefix test does not stop at the end of a path component.\<close>

lemma event_on_sibling_resubscribes:
  assumes "in_subs s q = Some sub" "hs_filename sub = None" "hs_dirname sub = ''/d/xy''" "ke_name ev = ''x''"
  shows "dispatch_sub ev ''/d'' q r s = Some (q # r, s)"
  using assms by (simp add: dispatch_sub_def event_path_def g_build_filename_def)

text \<open>An event about the directory itself, such as a change of its attributes, has no name, and is taken for the
  appearance of the directory: its watch is removed and made again, and any event in between is lost.\<close>

lemma self_event_resubscribes:
  "map_option (\<lambda>s. drop 1 (in_calls s))
     (do { (a, s1) \<leftarrow> ip_start_watching (gap_ienv ADD_NOENT) 10 (gap_i [new_isub ''/d'' True 2]);
           ip_event_dispatch (gap_ienv ADD_NOENT) (dirs_of 1 s1) [] (kev IN_ATTRIB 0 []) None s1 }) =
   Some [K_RM 1, K_ADD ''/d'' (IP_INOTIFY_MASK OR IN_ONLYDIR)]"
  by code_simp

text \<open>With GLib threads the loop over the subscriptions holds the lock that cancelling one takes.\<close>

lemma removal_deadlocks_with_threads:
  assumes "ie_threads en" "\<not> in_locked s" "in_list s = q # qs" "in_subs s q = Some sub" "hs_user sub = subp"
  shows "gam_inotify_remove_subscription en subp s = None"
  using assms by (simp add: gam_inotify_remove_subscription_def ih_sub_foreach_free_def ih_sub_foreach_worker_def
      gam_inotify_remove_sub_pred_def ih_sub_cancel_def G_LOCK_def)

text \<open>An unmounted file system has no event of the protocol, and a block device is reported as a directory.\<close>

lemma unmount_has_no_event: "ih_mask_to_EventType IN_UNMOUNT = -1"
  by code_simp

lemma block_device_is_a_directory: "(0x6000 :: 32 word) AND S_IFDIR \<noteq> 0"
  by code_simp

end
