(* ===== verification/Gam_Dnotify.thy ===== *)
theory Gam_Dnotify
  imports Gam_Poll
begin

unbundle bit_operations_syntax

text \<open>
  The dnotify back end: the directories that are open for notification (\<^verbatim>\<open>server/gam_dnotify.c\<close>), the
  handlers through which polling turns kernel monitoring on and off (\<^verbatim>\<open>server/gam_poll_generic.c\<close>) and the
  polling back end that goes with it (\<^verbatim>\<open>server/gam_poll_dnotify.c\<close>).

  The state of the polling server is extended by the two hash tables and the queue of signals. A \<^verbatim>\<open>DNotifyData\<close>
  object is in \<^verbatim>\<open>path_hash\<close>, under its own path, from its creation until it is freed, so that table is the
  heap of these objects and \<^verbatim>\<open>fd_hash\<close> names an object by its path. What \<^verbatim>\<open>open\<close> answers is a function of the
  calls made so far, which the state records. The lock of the tables is taken and released within one
  function that calls no other function of the server, and left out.
\<close>

section \<open>Open directories\<close>

datatype pollHandlerMode = GAMIN_ACTIVATE | GAMIN_DEACTIVATE | GAMIN_FLOWCONTROLSTART | GAMIN_FLOWCONTROLSTOP

record DNotifyData =
  dd_path :: string
  dd_fd :: int
  dd_refcount :: int
  dd_busy :: int

datatype dcall = D_OPEN string int | D_NOTIFY int | D_CLOSE int

record denv = fenv +
  de_open :: "dcall list \<Rightarrow> string \<Rightarrow> int"

record dsrv = psrv +
  dn_path_hash :: "string \<rightharpoonup> DNotifyData"
  dn_fd_hash :: "int \<rightharpoonup> string"
  dn_changes :: "int list"
  dn_calls :: "dcall list"

definition upd_data :: "string \<Rightarrow> (DNotifyData \<Rightarrow> DNotifyData) \<Rightarrow> 'b dsrv_scheme \<Rightarrow> 'b dsrv_scheme" where
  "upd_data p f s = s\<lparr>dn_path_hash := (dn_path_hash s)(p := map_option f (dn_path_hash s p))\<rparr>"

text \<open>\<^verbatim>\<open>open\<close>, \<^verbatim>\<open>close\<close> and the two \<^verbatim>\<open>fcntl\<close> calls that ask for notification.\<close>

definition dn_open :: "'e denv_scheme \<Rightarrow> string \<Rightarrow> 'b dsrv_scheme \<Rightarrow> int \<times> 'b dsrv_scheme" where
  "dn_open en path s =
     (let fd = de_open en (dn_calls s) path in (fd, s\<lparr>dn_calls := dn_calls s @ [D_OPEN path fd]\<rparr>))"

definition dn_notify :: "int \<Rightarrow> 'b dsrv_scheme \<Rightarrow> 'b dsrv_scheme" where
  "dn_notify fd s = s\<lparr>dn_calls := dn_calls s @ [D_NOTIFY fd]\<rparr>"

definition dn_close :: "int \<Rightarrow> 'b dsrv_scheme \<Rightarrow> 'b dsrv_scheme" where
  "dn_close fd s = s\<lparr>dn_calls := dn_calls s @ [D_CLOSE fd]\<rparr>"

definition gam_dnotify_data_new :: "string \<Rightarrow> int \<Rightarrow> DNotifyData" where
  "gam_dnotify_data_new path fd = \<lparr>dd_path = path, dd_fd = fd, dd_refcount = 1, dd_busy = 0\<rparr>"

text \<open>The four operations of \<^verbatim>\<open>gam_dnotify_directory_handler_internal\<close>.\<close>

definition dn_activate :: "'e denv_scheme \<Rightarrow> string \<Rightarrow> 'b dsrv_scheme \<Rightarrow> 'b dsrv_scheme" where
  "dn_activate en path s =
     (case dn_path_hash s path of
        Some data \<Rightarrow> upd_data path (\<lambda>data. data\<lparr>dd_refcount := dd_refcount data + 1\<rparr>) s
      | None \<Rightarrow>
          (let (fd, s1) = dn_open en path s in
           if fd < 0 then s1
           else dn_notify fd (s1\<lparr>dn_fd_hash := (dn_fd_hash s1)(fd \<mapsto> path),
                                 dn_path_hash := (dn_path_hash s1)(path \<mapsto> gam_dnotify_data_new path fd)\<rparr>)))"

definition dn_deactivate :: "string \<Rightarrow> 'b dsrv_scheme \<Rightarrow> 'b dsrv_scheme" where
  "dn_deactivate path s =
     (case dn_path_hash s path of
        None \<Rightarrow> s
      | Some data \<Rightarrow>
          if dd_refcount data - 1 = 0 then
            (let s1 = dn_close (dd_fd data) s
             in s1\<lparr>dn_path_hash := (dn_path_hash s1)(dd_path data := None),
                   dn_fd_hash := (dn_fd_hash s1)(dd_fd data := None)\<rparr>)
          else upd_data path (\<lambda>data. data\<lparr>dd_refcount := dd_refcount data - 1\<rparr>) s)"

definition dn_flow_start :: "string \<Rightarrow> 'b dsrv_scheme \<Rightarrow> 'b dsrv_scheme" where
  "dn_flow_start path s =
     (case dn_path_hash s path of
        None \<Rightarrow> s
      | Some data \<Rightarrow>
          let s1 = (if dd_fd data \<ge> 0 then
                      (let s1 = dn_close (dd_fd data) s
                       in upd_data path (\<lambda>data. data\<lparr>dd_fd := -1\<rparr>)
                            (s1\<lparr>dn_fd_hash := (dn_fd_hash s1)(dd_fd data := None)\<rparr>))
                    else s)
          in upd_data path (\<lambda>data. data\<lparr>dd_busy := dd_busy data + 1\<rparr>) s1)"

definition dn_flow_stop :: "'e denv_scheme \<Rightarrow> string \<Rightarrow> 'b dsrv_scheme \<Rightarrow> 'b dsrv_scheme" where
  "dn_flow_stop en path s =
     (case dn_path_hash s path of
        None \<Rightarrow> s
      | Some data \<Rightarrow>
          if \<not> 0 < dd_busy data then s
          else
            let s1 = upd_data path (\<lambda>data. data\<lparr>dd_busy := dd_busy data - 1\<rparr>) s
            in if dd_busy data - 1 \<noteq> 0 then s1
               else
                 (let (fd, s2) = dn_open en (dd_path data) s1 in
                  if fd < 0 then s2
                  else
                    (let s3 = upd_data path (\<lambda>data. data\<lparr>dd_fd := fd\<rparr>) s2
                     in dn_notify fd (s3\<lparr>dn_fd_hash := (dn_fd_hash s3)(fd \<mapsto> path)\<rparr>))))"

type_synonym 'x path_handler = "string \<Rightarrow> pollHandlerMode \<Rightarrow> 'x \<Rightarrow> 'x"

fun gam_dnotify_directory_handler_internal :: "'e denv_scheme \<Rightarrow> 'b dsrv_scheme path_handler" where
  "gam_dnotify_directory_handler_internal en path GAMIN_ACTIVATE s = dn_activate en path s"
| "gam_dnotify_directory_handler_internal en path GAMIN_DEACTIVATE s = dn_deactivate path s"
| "gam_dnotify_directory_handler_internal en path GAMIN_FLOWCONTROLSTART s = dn_flow_start path s"
| "gam_dnotify_directory_handler_internal en path GAMIN_FLOWCONTROLSTOP s = dn_flow_stop en path s"

definition gam_dnotify_directory_handler :: "'e denv_scheme \<Rightarrow> 'b dsrv_scheme path_handler" where
  "gam_dnotify_directory_handler en path mode s = gam_dnotify_directory_handler_internal en path mode s"

definition gam_dnotify_file_handler :: "'e denv_scheme \<Rightarrow> 'b dsrv_scheme path_handler" where
  "gam_dnotify_file_handler en path mode s =
     (if file_is_dir (fenv.truncate en) path then gam_dnotify_directory_handler_internal en path mode s else s)"

section \<open>Turning kernel monitoring on and off\<close>

datatype GamKernelHandler =
  GAMIN_K_NONE | GAMIN_K_DNOTIFY | GAMIN_K_INOTIFY | GAMIN_K_KQUEUE | GAMIN_K_MACH | GAMIN_K_INOTIFY2

text \<open>The part of the installed kernel hooks that polling uses.\<close>

record 'x khooks =
  kh_handler :: GamKernelHandler
  kh_dir :: "'x path_handler option"
  kh_file :: "'x path_handler option"

definition gam_kernel_dir_handler :: "'x khooks \<Rightarrow> 'x path_handler" where
  "gam_kernel_dir_handler kh path mode s = (case kh_dir kh of None \<Rightarrow> s | Some f \<Rightarrow> f path mode s)"

definition gam_kernel_file_handler :: "'x khooks \<Rightarrow> 'x path_handler" where
  "gam_kernel_file_handler kh path mode s = (case kh_file kh of None \<Rightarrow> s | Some f \<Rightarrow> f path mode s)"

definition gam_poll_generic_trigger_file_handler ::
  "'x psrv_scheme khooks \<Rightarrow> string \<Rightarrow> pollHandlerMode \<Rightarrow> cptr \<Rightarrow> 'x psrv_scheme \<Rightarrow> 'x psrv_scheme option" where
  "gam_poll_generic_trigger_file_handler kh path mode n s =
     do { nd \<leftarrow> pl_nodes s n;
          if nd_mon_type nd \<noteq> GFS_MT_KERNEL then Some s
          else if kh_handler kh = GAMIN_K_DNOTIFY \<or> kh_handler kh = GAMIN_K_INOTIFY then
            (if nd_is_dir nd then Some (gam_kernel_file_handler kh path mode s)
             else case nd_parent nd of
               None \<Rightarrow> Some s
             | Some parent \<Rightarrow>
                 do { pd \<leftarrow> pl_nodes s parent;
                      busy \<leftarrow> gam_node_has_pflag parent MON_BUSY s;
                      case mode of
                        GAMIN_ACTIVATE \<Rightarrow> Some (gam_kernel_dir_handler kh (nd_path pd) mode s)
                      | GAMIN_DEACTIVATE \<Rightarrow> Some (gam_kernel_dir_handler kh (nd_path pd) mode s)
                      | GAMIN_FLOWCONTROLSTART \<Rightarrow>
                          (if \<not> busy then
                             gam_node_set_pflag parent MON_BUSY
                               (gam_poll_generic_add_busy parent (gam_kernel_dir_handler kh (nd_path pd) mode s))
                           else Some s)
                      | GAMIN_FLOWCONTROLSTOP \<Rightarrow>
                          (if busy then
                             gam_node_unset_pflag parent MON_BUSY
                               (gam_poll_generic_remove_busy parent (gam_kernel_dir_handler kh (nd_path pd) mode s))
                           else Some s) })
          else Some (gam_kernel_file_handler kh path mode s) }"

definition gam_poll_generic_trigger_dir_handler ::
  "'x psrv_scheme khooks \<Rightarrow> string \<Rightarrow> pollHandlerMode \<Rightarrow> cptr \<Rightarrow> 'x psrv_scheme \<Rightarrow> 'x psrv_scheme option" where
  "gam_poll_generic_trigger_dir_handler kh path mode n s =
     do { nd \<leftarrow> pl_nodes s n;
          if nd_mon_type nd \<noteq> GFS_MT_KERNEL then Some s
          else if kh_handler kh = GAMIN_K_DNOTIFY \<or> kh_handler kh = GAMIN_K_INOTIFY then
            (if nd_is_dir nd then Some (gam_kernel_dir_handler kh path mode s)
             else gam_poll_generic_trigger_file_handler kh path mode n s)
          else Some (gam_kernel_dir_handler kh path mode s) }"

definition gam_poll_generic_trigger_handler ::
  "'x psrv_scheme khooks \<Rightarrow> string \<Rightarrow> pollHandlerMode \<Rightarrow> cptr \<Rightarrow> 'x psrv_scheme \<Rightarrow> 'x psrv_scheme option" where
  "gam_poll_generic_trigger_handler kh path mode n s =
     do { nd \<leftarrow> pl_nodes s n;
          if nd_is_dir nd then gam_poll_generic_trigger_dir_handler kh (nd_path nd) mode n s
          else gam_poll_generic_trigger_file_handler kh (nd_path nd) mode n s }"

end
