(* ===== verification/Gam_Poll_Dnotify.thy ===== *)
theory Gam_Poll_Dnotify
  imports Gam_Dnotify
begin

unbundle bit_operations_syntax

text \<open>
  The polling back end of dnotify, \<^verbatim>\<open>server/gam_poll_dnotify.c\<close>, and the rest of \<^verbatim>\<open>server/gam_dnotify.c\<close>:
  signals, the hooks and starting. \<open>kh\<close> is the part of the installed kernel hooks that
  \<^verbatim>\<open>gam_poll_generic_trigger_handler\<close> uses.
\<close>

section \<open>Turning monitoring of a node on and off\<close>

definition kernel_path :: "fenv \<Rightarrow> string \<Rightarrow> bool" where
  "kernel_path en path \<longleftrightarrow> \<not> (en_exclude en path \<or> en_mon_type en path \<noteq> GFS_MT_KERNEL)"

text \<open>The loop over the subscriptions of a node, one call for each.\<close>

fun trigger_each ::
  "'x psrv_scheme khooks \<Rightarrow> string \<Rightarrow> pollHandlerMode \<Rightarrow> cptr \<Rightarrow> cptr list \<Rightarrow> 'x psrv_scheme \<Rightarrow> 'x psrv_scheme option" where
  "trigger_each kh path mode n [] s = Some s"
| "trigger_each kh path mode n (q # qs) s =
     do { s1 \<leftarrow> gam_poll_generic_trigger_handler kh path mode n s; trigger_each kh path mode n qs s1 }"

definition gam_poll_dnotify_delist_node ::
  "fenv \<Rightarrow> 'x psrv_scheme khooks \<Rightarrow> cptr \<Rightarrow> 'x psrv_scheme \<Rightarrow> 'x psrv_scheme option" where
  "gam_poll_dnotify_delist_node en kh n s =
     do { nd \<leftarrow> pl_nodes s n;
          if \<not> kernel_path en (nd_path nd) then Some s
          else trigger_each kh (nd_path nd) GAMIN_DEACTIVATE n (nd_subs nd) s }"

definition gam_poll_dnotify_relist_node ::
  "fenv \<Rightarrow> 'x psrv_scheme khooks \<Rightarrow> cptr \<Rightarrow> 'x psrv_scheme \<Rightarrow> 'x psrv_scheme option" where
  "gam_poll_dnotify_relist_node en kh n s =
     do { nd \<leftarrow> pl_nodes s n;
          if \<not> kernel_path en (nd_path nd) then Some s
          else trigger_each kh (nd_path nd) GAMIN_ACTIVATE n (nd_subs nd) s }"

definition gam_poll_dnotify_flowon_node ::
  "fenv \<Rightarrow> 'x psrv_scheme khooks \<Rightarrow> cptr \<Rightarrow> 'x psrv_scheme \<Rightarrow> 'x psrv_scheme option" where
  "gam_poll_dnotify_flowon_node en kh n s =
     do { nd \<leftarrow> pl_nodes s n;
          if \<not> kernel_path en (nd_path nd) then Some s
          else gam_poll_generic_trigger_handler kh (nd_path nd) GAMIN_FLOWCONTROLSTART n s }"

definition gam_poll_dnotify_flowoff_node ::
  "fenv \<Rightarrow> 'x psrv_scheme khooks \<Rightarrow> cptr \<Rightarrow> 'x psrv_scheme \<Rightarrow> 'x psrv_scheme option" where
  "gam_poll_dnotify_flowoff_node en kh n s =
     do { nd \<leftarrow> pl_nodes s n;
          if \<not> kernel_path en (nd_path nd) then Some s
          else gam_poll_generic_trigger_handler kh (nd_path nd) GAMIN_FLOWCONTROLSTOP n s }"

section \<open>Polling a file\<close>

text \<open>The first poll of a node.\<close>

definition first_poll :: "fenv \<Rightarrow> cptr \<Rightarrow> GamNode \<Rightarrow> 'x psrv_scheme \<Rightarrow> (evtype \<times> 'x psrv_scheme) option" where
  "first_poll en n nd s =
     (let path = nd_path nd;
          res = en_stat en path;
          sbuf = (case res of STAT_OK st \<Rightarrow> st | _ \<Rightarrow> stat_zero)
      in do { s1 \<leftarrow> (if res \<noteq> STAT_OK sbuf then gam_node_set_pflag n MON_MISSING s
                      else gam_node_set_is_dir n (st_is_dir sbuf) s);
              s2 \<leftarrow> (if \<not> kernel_path en path then gam_node_set_pflag n MON_NOKERNEL s1 else Some s1);
              Some (if res = STAT_OK sbuf then 0 else GAMIN_EVENT_DELETED,
                    upd_node n (\<lambda>nd. nd\<lparr>nd_sbuf := sbuf, nd_lasttime := pl_time s2\<rparr>) s2) })"

text \<open>The file was deleted.\<close>

definition dnotify_deleted ::
  "fenv \<Rightarrow> 'x psrv_scheme khooks \<Rightarrow> cptr \<Rightarrow> 'x psrv_scheme \<Rightarrow> 'x psrv_scheme option" where
  "dnotify_deleted en kh n s =
     do { s1 \<leftarrow> gam_node_set_pflags n MON_MISSING s;
          let s2 = gam_poll_generic_remove_busy n s1
          in do { subs \<leftarrow> gam_node_get_subscriptions n s2;
                  if subs \<noteq> [] then
                    do { s3 \<leftarrow> gam_poll_dnotify_delist_node en kh n s2;
                         Some (gam_poll_generic_add_missing n s3) }
                  else Some s2 } }"

text \<open>What has happened to the file since the last poll, up to the copy of the \<^verbatim>\<open>stat\<close> buffer.\<close>

definition next_poll ::
  "fenv \<Rightarrow> 'x psrv_scheme khooks \<Rightarrow> cptr \<Rightarrow> GamNode \<Rightarrow> 'x psrv_scheme \<Rightarrow> (evtype \<times> 'x psrv_scheme) option" where
  "next_poll en kh n nd s =
     (let res = en_stat en (nd_path nd);
          sbuf = (case res of STAT_OK st \<Rightarrow> st | _ \<Rightarrow> stat_zero)
      in do { missing \<leftarrow> gam_node_has_pflag n MON_MISSING s;
              (event, s1) \<leftarrow>
                (if res \<noteq> STAT_OK sbuf then
                   (if res = STAT_NOENT \<and> \<not> missing then
                      do { s1 \<leftarrow> dnotify_deleted en kh n s; Some (GAMIN_EVENT_DELETED, s1) }
                    else Some (0, s))
                 else if missing then
                   do { s1 \<leftarrow> gam_node_unset_pflag n MON_MISSING s; Some (GAMIN_EVENT_CREATED, s1) }
                 else if gam_poll_generic_node_changed nd sbuf then Some (GAMIN_EVENT_CHANGED, s)
                 else Some (0, s));
              Some (event, upd_node n (\<lambda>nd. nd\<lparr>nd_is_dir := (if res = STAT_OK sbuf then st_is_dir sbuf else nd_is_dir nd),
                                               nd_sbuf := sbuf\<rparr>) s1) })"

text \<open>Load control: counting the changes, and the switches to polling and back.\<close>

definition count_checks :: "evtype \<Rightarrow> int \<Rightarrow> GamNode \<Rightarrow> GamNode" where
  "count_checks event t nd =
     (let busy = (nd_pflags nd AND MON_BUSY \<noteq> 0) in
      if t = nd_lasttime nd then
        (if \<not> busy \<and> st_mtime (nd_sbuf nd) = t then nd\<lparr>nd_checks := nd_checks nd + 1\<rparr> else nd)
      else
        nd\<lparr>nd_lasttime := t,
           nd_checks := (if busy then (if event = 0 then nd_checks nd + 1 else nd_checks nd) else 0)\<rparr>)"

definition go_busy ::
  "fenv \<Rightarrow> 'x psrv_scheme khooks \<Rightarrow> cptr \<Rightarrow> 'x psrv_scheme \<Rightarrow> 'x psrv_scheme option" where
  "go_busy en kh n s =
     do { nd \<leftarrow> pl_nodes s n;
          busy \<leftarrow> gam_node_has_pflag n MON_BUSY s;
          if nd_checks nd \<ge> 4 \<and> \<not> busy \<and> nd_subs nd \<noteq> [] \<and> kernel_path en (nd_path nd) then
            do { s1 \<leftarrow> gam_node_set_pflag n MON_BUSY s;
                 let s2 = gam_poll_generic_add_busy n (upd_node n (\<lambda>nd. nd\<lparr>nd_checks := 0\<rparr>) s1)
                 in do { s3 \<leftarrow> gam_poll_dnotify_flowon_node en kh n s2;
                         is_dir \<leftarrow> gam_node_is_dir n s3;
                         if is_dir then Some s3
                         else
                           do { parent \<leftarrow> gam_node_parent n s3;
                                case parent of
                                  None \<Rightarrow> Some s3
                                | Some p \<Rightarrow>
                                    do { subs \<leftarrow> gam_node_get_subscriptions p s3;
                                         Some (if subs \<noteq> [] then gam_poll_generic_add_busy p s3 else s3) } } } }
          else Some s }"

definition go_kernel ::
  "fenv \<Rightarrow> 'x psrv_scheme khooks \<Rightarrow> evtype \<Rightarrow> cptr \<Rightarrow> 'x psrv_scheme \<Rightarrow> 'x psrv_scheme option" where
  "go_kernel en kh event n s =
     do { nd \<leftarrow> pl_nodes s n;
          busy \<leftarrow> gam_node_has_pflag n MON_BUSY s;
          if event = 0 \<and> busy \<and> nd_checks nd > 5 \<and> nd_subs nd \<noteq> [] \<and> kernel_path en (nd_path nd) then
            do { s1 \<leftarrow> gam_node_unset_pflag n MON_BUSY s;
                 gam_poll_dnotify_flowoff_node en kh n
                   (gam_poll_generic_remove_busy n (upd_node n (\<lambda>nd. nd\<lparr>nd_checks := 0\<rparr>) s1)) }
          else Some s }"

definition gam_poll_dnotify_poll_file ::
  "fenv \<Rightarrow> 'x psrv_scheme khooks \<Rightarrow> cptr \<Rightarrow> 'x psrv_scheme \<Rightarrow> (evtype \<times> 'x psrv_scheme) option" where
  "gam_poll_dnotify_poll_file en kh n s =
     do { nd \<leftarrow> pl_nodes s n;
          if nd_lasttime nd \<noteq> 0 \<and> gam_poll_generic_get_delta_time (nd_lasttime nd) s < nd_poll_time nd
          then Some (0, s)
          else if nd_lasttime nd = 0 then first_poll en n nd s
          else
            do { (event, s1) \<leftarrow> next_poll en kh n nd s;
                 nokernel \<leftarrow> gam_node_has_pflag n MON_NOKERNEL s1;
                 if nokernel then Some (event, s1)
                 else
                   do { s2 \<leftarrow> go_busy en kh n (upd_node n (count_checks event (pl_time s1)) s1);
                        s3 \<leftarrow> go_kernel en kh event n s2;
                        Some (event, s3) } } }"

section \<open>Subscriptions\<close>

definition node_add_subscription ::
  "fenv \<Rightarrow> 'x psrv_scheme khooks \<Rightarrow> cptr option \<Rightarrow> cptr \<Rightarrow> 'x psrv_scheme \<Rightarrow> (int \<times> 'x psrv_scheme) option" where
  "node_add_subscription en kh node subp s =
     (case node of
        None \<Rightarrow> Some (-1, s)
      | Some n \<Rightarrow>
          do { nd \<leftarrow> pl_nodes s n;
               if nd_path nd = [] \<or> hd (nd_path nd) \<noteq> slash then Some (-1, s)
               else
                 do { s1 \<leftarrow> gam_node_add_subscription n subp s;
                      if en_exclude en (nd_path nd) \<or> en_mon_type en (nd_path nd) = GFS_MT_POLL then
                        do { s2 \<leftarrow> (if nd_lasttime nd = 0 then map_option snd (gam_poll_dnotify_poll_file en kh n s1)
                                     else Some s1);
                             Some (0, gam_poll_generic_add_missing n s2) }
                      else
                        do { s2 \<leftarrow> gam_poll_generic_trigger_handler kh (nd_path nd) GAMIN_ACTIVATE n s1;
                             Some (0, s2) } } })"

definition node_remove_subscription ::
  "fenv \<Rightarrow> 'x psrv_scheme khooks \<Rightarrow> cptr \<Rightarrow> cptr \<Rightarrow> 'x psrv_scheme \<Rightarrow> (int \<times> 'x psrv_scheme) option" where
  "node_remove_subscription en kh n subp s =
     do { nd \<leftarrow> pl_nodes s n;
          if nd_path nd = [] \<or> hd (nd_path nd) \<noteq> slash then Some (-1, s)
          else
            do { s1 \<leftarrow> gam_node_remove_subscription n subp s;
                 if en_exclude en (nd_path nd) \<or> en_mon_type en (nd_path nd) = GFS_MT_POLL then Some (0, s1)
                 else
                   do { flags \<leftarrow> gam_node_has_pflags n MON_ALL_PFLAGS s1;
                        if nd_pflags nd \<noteq> MON_BUSY \<and> flags then Some (0, s1)
                        else
                          do { s2 \<leftarrow> gam_poll_generic_trigger_handler kh (nd_path nd) GAMIN_DEACTIVATE n s1;
                               Some (0, s2) } } } }"

text \<open>\<^verbatim>\<open>node_remove_directory_subscription\<close> of this file; the loop over the children is the one of the basic
  back end.\<close>

definition dnotify_remove_directory_subscription ::
  "fenv \<Rightarrow> 'x psrv_scheme khooks \<Rightarrow> cptr \<Rightarrow> cptr \<Rightarrow> 'x psrv_scheme \<Rightarrow> (bool \<times> 'x psrv_scheme) option" where
  "dnotify_remove_directory_subscription en kh n subp s =
     do { (rc, s1) \<leftarrow> node_remove_subscription en kh n subp s;
          subs \<leftarrow> gam_node_get_subscriptions n s1;
          children \<leftarrow> gam_tree_get_children n s1;
          s2 \<leftarrow> remove_children children (subs = []) s1;
          subs2 \<leftarrow> gam_node_get_subscriptions n s2;
          if subs2 \<noteq> [] then Some (False, s2)
          else
            do { parent \<leftarrow> gam_node_parent n s2;
                 p \<leftarrow> parent;
                 has \<leftarrow> gam_node_has_dir_subscriptions p s2;
                 Some (\<not> has, s2) } }"

definition gam_poll_dnotify_add_subscription ::
  "fenv \<Rightarrow> 'x psrv_scheme khooks \<Rightarrow> cptr \<Rightarrow> 'x psrv_scheme \<Rightarrow> (bool \<times> 'x psrv_scheme) option" where
  "gam_poll_dnotify_add_subscription en kh subp s =
     do { sub \<leftarrow> sv_subs s subp;
          let path = sub_path sub
          in do {
            l \<leftarrow> sub_listener sub;
            s1 \<leftarrow> gam_listener_add_subscription l subp s;
            let s2 = gam_poll_generic_update_time en s1
            in do {
              (r, s3) \<leftarrow> (case gam_tree_get_at_path path s of
                            Some n \<Rightarrow> Some (Some n, s2)
                          | None \<Rightarrow> gam_tree_add_at_path en path (sub_is_dir sub) s2);
              (rc, s4) \<leftarrow> node_add_subscription en kh r subp s3;
              if rc < 0 then Some (False, s4)
              else
                do { n \<leftarrow> r;
                     node_is_dir \<leftarrow> gam_node_is_dir n s4;
                     s5 \<leftarrow>
                       (if node_is_dir then
                          gam_poll_generic_first_scan_dir en (gam_poll_dnotify_poll_file en kh) subp n path s4
                        else
                          do { (event, s5) \<leftarrow> gam_poll_dnotify_poll_file en kh n s4;
                               let present = event = 0 \<or> event = GAMIN_EVENT_EXISTS \<or>
                                             event = GAMIN_EVENT_CHANGED \<or> event = GAMIN_EVENT_CREATED
                               in do { s6 \<leftarrow> gam_server_emit_one_event path node_is_dir
                                          (if present \<and> \<not> sub_is_dir sub then GAMIN_EVENT_EXISTS
                                           else GAMIN_EVENT_DELETED) subp False s5;
                                       gam_server_emit_one_event path node_is_dir GAMIN_EVENT_ENDEXISTS subp False s6 } });
                     missing \<leftarrow> gam_node_has_pflag n MON_MISSING s5;
                     nokernel \<leftarrow> gam_node_has_pflag n MON_NOKERNEL s5;
                     let s6 = (if missing \<or> nokernel then gam_poll_generic_add_missing n s5 else s5)
                     in do {
                       (r2, s7) \<leftarrow>
                         (if node_is_dir then Some (Some n, s6)
                          else
                            let parent = g_path_get_dirname path
                            in case gam_tree_get_at_path parent s6 of
                                 Some p \<Rightarrow> Some (Some p, s6)
                               | None \<Rightarrow> gam_tree_add_at_path en parent (sub_is_dir sub) s6);
                       m \<leftarrow> r2;
                       Some (True, gam_poll_generic_add m s7) } } } } }"

text \<open>The two branches of \<^verbatim>\<open>gam_poll_dnotify_remove_subscription_real\<close>.\<close>

definition dnotify_remove_file_sub ::
  "fenv \<Rightarrow> 'x psrv_scheme khooks \<Rightarrow> cptr \<Rightarrow> cptr \<Rightarrow> 'x psrv_scheme \<Rightarrow> 'x psrv_scheme option" where
  "dnotify_remove_file_sub en kh n subp s =
     do { (rc, s1) \<leftarrow> node_remove_subscription en kh n subp s;
          subs \<leftarrow> gam_node_get_subscriptions n s1;
          if subs \<noteq> [] then Some s1
          else
            let s2 = gam_poll_generic_unregister_node n s1
            in do { has \<leftarrow> gam_tree_has_children n s2;
                    parent \<leftarrow> gam_node_parent n s2;
                    if has then Some s2
                    else case parent of
                      None \<Rightarrow> Some s2
                    | Some p \<Rightarrow>
                        do { dirsubs \<leftarrow> gam_node_has_dir_subscriptions p s2;
                             if dirsubs then Some s2
                             else
                               do { (b, s3) \<leftarrow> gam_tree_remove n s2;
                                    gam_poll_generic_prune_tree p s3 } } } }"

definition dnotify_remove_dir_sub ::
  "fenv \<Rightarrow> 'x psrv_scheme khooks \<Rightarrow> cptr \<Rightarrow> cptr \<Rightarrow> 'x psrv_scheme \<Rightarrow> 'x psrv_scheme option" where
  "dnotify_remove_dir_sub en kh n subp s =
     do { (remove, s1) \<leftarrow> dnotify_remove_directory_subscription en kh n subp s;
          if \<not> remove then Some s1
          else
            let s2 = gam_poll_generic_unregister_node n s1
            in do { parent \<leftarrow> gam_node_parent n s2;
                    has \<leftarrow> gam_tree_has_children n s2;
                    (b, s3) \<leftarrow> (if \<not> has then gam_tree_remove n s2 else Some (False, s2));
                    p \<leftarrow> parent;
                    gam_poll_generic_prune_tree p s3 } }"

definition gam_poll_dnotify_remove_subscription_real ::
  "fenv \<Rightarrow> 'x psrv_scheme khooks \<Rightarrow> cptr \<Rightarrow> 'x psrv_scheme \<Rightarrow> 'x psrv_scheme option" where
  "gam_poll_dnotify_remove_subscription_real en kh subp s =
     do { sub \<leftarrow> sv_subs s subp;
          s1 \<leftarrow>
            (case gam_tree_get_at_path (sub_path sub) s of
               None \<Rightarrow> Some s
             | Some n \<Rightarrow>
                 do { is_dir \<leftarrow> gam_node_is_dir n s;
                      if \<not> is_dir then dnotify_remove_file_sub en kh n subp s
                      else dnotify_remove_dir_sub en kh n subp s });
          gam_subscription_free subp s1 }"

definition gam_poll_dnotify_remove_subscription ::
  "fenv \<Rightarrow> 'x psrv_scheme khooks \<Rightarrow> cptr \<Rightarrow> 'x psrv_scheme \<Rightarrow> (bool \<times> 'x psrv_scheme) option" where
  "gam_poll_dnotify_remove_subscription en kh subp s =
     do { sub \<leftarrow> sv_subs s subp;
          case gam_tree_get_at_path (sub_path sub) s of
            None \<Rightarrow> do { s1 \<leftarrow> gam_subscription_free subp s; Some (True, s1) }
          | Some n \<Rightarrow>
              do { s1 \<leftarrow> gam_poll_dnotify_remove_subscription_real en kh subp
                           (s\<lparr>sv_subs := (sv_subs s)(subp \<mapsto> gam_subscription_cancel sub)\<rparr>);
                   Some (True, s1) } }"

fun dnotify_remove_all ::
  "fenv \<Rightarrow> 'x psrv_scheme khooks \<Rightarrow> cptr list \<Rightarrow> 'x psrv_scheme \<Rightarrow> 'x psrv_scheme option" where
  "dnotify_remove_all en kh [] s = Some s"
| "dnotify_remove_all en kh (subp # subs) s =
     do { (b, s1) \<leftarrow> gam_poll_dnotify_remove_subscription en kh subp s; dnotify_remove_all en kh subs s1 }"

definition gam_poll_dnotify_remove_all_for ::
  "fenv \<Rightarrow> 'x psrv_scheme khooks \<Rightarrow> cptr \<Rightarrow> 'x psrv_scheme \<Rightarrow> (bool \<times> 'x psrv_scheme) option" where
  "gam_poll_dnotify_remove_all_for en kh l s =
     do { subs \<leftarrow> gam_listener_get_subscriptions l s;
          s1 \<leftarrow> dnotify_remove_all en kh subs s;
          Some (subs \<noteq> [], s1) }"

section \<open>The timer\<close>

text \<open>What both loops do with a node before they look at its flags.\<close>

definition dnotify_scan_resource ::
  "fenv \<Rightarrow> 'x psrv_scheme khooks \<Rightarrow> cptr \<Rightarrow> 'x psrv_scheme \<Rightarrow> 'x psrv_scheme option" where
  "dnotify_scan_resource en kh n s =
     do { nd \<leftarrow> pl_nodes s n;
          if nd_is_dir nd
          then gam_poll_generic_scan_directory_internal en (gam_poll_dnotify_poll_file en kh) n s
          else do { (event, s1) \<leftarrow> gam_poll_dnotify_poll_file en kh n s; gam_node_emit_event n event s1 } }"

text \<open>Whether a node can go back to the kernel.\<close>

definition kernel_again :: "fenv \<Rightarrow> cptr \<Rightarrow> 'x psrv_scheme \<Rightarrow> bool option" where
  "kernel_again en n s =
     do { flags \<leftarrow> gam_node_has_pflags n MON_ALL_PFLAGS s;
          nd \<leftarrow> pl_nodes s n;
          Some (\<not> flags \<and> kernel_path en (nd_path nd)) }"

fun dnotify_missing_loop ::
  "nat \<Rightarrow> fenv \<Rightarrow> 'x psrv_scheme khooks \<Rightarrow> nat \<Rightarrow> 'x psrv_scheme \<Rightarrow> 'x psrv_scheme option" where
  "dnotify_missing_loop 0 en kh idx s = None"
| "dnotify_missing_loop (Suc k) en kh idx s =
     (if idx < length (pl_missing s)
      then
        let n = pl_missing s ! idx
        in do { s1 \<leftarrow> dnotify_scan_resource en kh n s;
                again \<leftarrow> kernel_again en n s1;
                s2 \<leftarrow> (if again then
                         let s2 = gam_poll_generic_remove_missing n s1
                         in do { subs \<leftarrow> gam_node_get_subscriptions n s2;
                                 if subs \<noteq> [] then gam_poll_dnotify_relist_node en kh n s2 else Some s2 }
                       else Some s1);
                dnotify_missing_loop k en kh (Suc idx) s2 }
      else Some s)"

fun dnotify_busy_loop ::
  "nat \<Rightarrow> fenv \<Rightarrow> 'x psrv_scheme khooks \<Rightarrow> nat \<Rightarrow> 'x psrv_scheme \<Rightarrow> 'x psrv_scheme option" where
  "dnotify_busy_loop 0 en kh idx s = None"
| "dnotify_busy_loop (Suc k) en kh idx s =
     (if idx < length (pl_busy s)
      then
        let n = pl_busy s ! idx
        in do { s1 \<leftarrow> dnotify_scan_resource en kh n s;
                again \<leftarrow> kernel_again en n s1;
                s2 \<leftarrow> (if again then
                         let s2 = gam_poll_generic_remove_busy n s1
                         in do { subs \<leftarrow> gam_node_get_subscriptions n s2;
                                 if subs \<noteq> [] then gam_poll_dnotify_flowoff_node en kh n s2 else Some s2 }
                       else Some s1);
                dnotify_busy_loop k en kh (Suc idx) s2 }
      else Some s)"

definition gam_poll_dnotify_scan_callback ::
  "nat \<Rightarrow> fenv \<Rightarrow> 'x psrv_scheme khooks \<Rightarrow> 'x psrv_scheme \<Rightarrow> (bool \<times> 'x psrv_scheme) option" where
  "gam_poll_dnotify_scan_callback k en kh s =
     do { s1 \<leftarrow> dnotify_missing_loop k en kh 0 (gam_poll_generic_update_time en s);
          s2 \<leftarrow> dnotify_busy_loop k en kh 0 s1;
          Some (True, s2) }"

definition gam_poll_dnotify_init ::
  "fenv \<Rightarrow> 'x psrv_scheme khooks \<Rightarrow> 'x psrv_scheme hooks \<Rightarrow> 'x psrv_scheme \<Rightarrow> 'x psrv_scheme hooks \<times> 'x psrv_scheme" where
  "gam_poll_dnotify_init en kh hk s =
     (gam_server_install_poll_hooks (gam_poll_dnotify_add_subscription en kh)
        (gam_poll_dnotify_remove_subscription en kh) (gam_poll_dnotify_remove_all_for en kh) hk,
      (gam_poll_generic_init en s)\<lparr>pl_running := True\<rparr>)"

section \<open>Signals\<close>

definition MAX_QUEUE_SIZE :: nat where "MAX_QUEUE_SIZE = 500"

text \<open>\<open>dn_changes\<close> has the head of the queue first. \<^verbatim>\<open>si_fd\<close> is the descriptor of the signal.\<close>

definition dnotify_signal_handler :: "int \<Rightarrow> 'b dsrv_scheme \<Rightarrow> 'b dsrv_scheme" where
  "dnotify_signal_handler si_fd s =
     (if length (dn_changes s) > MAX_QUEUE_SIZE then s else s\<lparr>dn_changes := si_fd # dn_changes s\<rparr>)"

text \<open>The loop pops from the tail and stops at the end of the queue and at the descriptor 0, which is
  \<^verbatim>\<open>NULL\<close> as a pointer; \<open>fds\<close> is the queue from its tail. Signals can arrive while the loop runs: \<open>sigs\<close> has
  those that arrive in each round, after the pop, which are pushed at the head of the queue. A signal in the
  midst of a push or a pop, which \<^verbatim>\<open>GQueue\<close> does not allow for, is not part of the model. What the signal
  handler writes to the pipe only wakes the main loop, which may call the handler of the pipe at any time.\<close>

definition queue_signals :: "int list \<Rightarrow> int list \<Rightarrow> int list" where
  "queue_signals now fds = fold (\<lambda>fd q. if length q > MAX_QUEUE_SIZE then q else q @ [fd]) now fds"

definition pipe_one :: "'e denv_scheme \<Rightarrow> 'b dsrv_scheme khooks \<Rightarrow> int \<Rightarrow> 'b dsrv_scheme \<Rightarrow> 'b dsrv_scheme option" where
  "pipe_one en kh fd s =
     (case dn_fd_hash s fd of
        None \<Rightarrow> Some s
      | Some path \<Rightarrow>
          do { data \<leftarrow> dn_path_hash s path;
               gam_poll_generic_scan_directory (fenv.truncate en)
                 (gam_poll_dnotify_poll_file (fenv.truncate en) kh) (dd_path data) s })"

fun pipe_loop ::
  "'e denv_scheme \<Rightarrow> 'b dsrv_scheme khooks \<Rightarrow> int list list \<Rightarrow> int list \<Rightarrow> 'b dsrv_scheme \<Rightarrow> 'b dsrv_scheme option" where
  "pipe_loop en kh sigs [] s = Some (s\<lparr>dn_changes := []\<rparr>)"
| "pipe_loop en kh [] (fd # fds) s =
     (if fd = 0 then Some (s\<lparr>dn_changes := rev fds\<rparr>)
      else do { s1 \<leftarrow> pipe_one en kh fd s; pipe_loop en kh [] fds s1 })"
| "pipe_loop en kh (now # later) (fd # fds) s =
     (if fd = 0 then Some (s\<lparr>dn_changes := rev fds\<rparr>)
      else do { s1 \<leftarrow> pipe_one en kh fd s; pipe_loop en kh later (queue_signals now fds) s1 })"

definition gam_dnotify_pipe_handler ::
  "'e denv_scheme \<Rightarrow> 'b dsrv_scheme khooks \<Rightarrow> int list list \<Rightarrow> 'b dsrv_scheme \<Rightarrow> (bool \<times> 'b dsrv_scheme) option" where
  "gam_dnotify_pipe_handler en kh sigs s = do { s1 \<leftarrow> pipe_loop en kh sigs (rev (dn_changes s)) s; Some (True, s1) }"

text \<open>Queueing the signals of a round is what the signal handler does.\<close>

lemma queue_signals_handler:
  "rev (dn_changes (fold dnotify_signal_handler now s)) = queue_signals now (rev (dn_changes s))"
  by (induction now arbitrary: s) (simp_all add: queue_signals_def dnotify_signal_handler_def)

section \<open>The kernel hooks\<close>

definition gam_dnotify_add_subscription ::
  "'x hooks \<Rightarrow> cptr \<Rightarrow> 'x \<Rightarrow> (bool \<times> 'x) option" where
  "gam_dnotify_add_subscription hk subp s =
     do { (ok, s1) \<leftarrow> gam_poll_add_subscription hk subp s; Some (if \<not> ok then (False, s1) else (True, s1)) }"

definition gam_dnotify_remove_subscription ::
  "'x hooks \<Rightarrow> cptr \<Rightarrow> 'x \<Rightarrow> (bool \<times> 'x) option" where
  "gam_dnotify_remove_subscription hk subp s =
     do { (ok, s1) \<leftarrow> gam_poll_remove_subscription hk subp s; Some (if \<not> ok then (False, s1) else (True, s1)) }"

definition gam_dnotify_remove_all_for ::
  "'x hooks \<Rightarrow> cptr \<Rightarrow> 'x \<Rightarrow> (bool \<times> 'x) option" where
  "gam_dnotify_remove_all_for hk l s =
     do { (ok, s1) \<leftarrow> gam_poll_remove_all_for hk l s; Some (if \<not> ok then (False, s1) else (True, s1)) }"

text \<open>What is installed for polling once the back end runs, and starting it; \<open>pipe_ok\<close> is the result of
  \<^verbatim>\<open>pipe\<close>.\<close>

definition dnotify_khooks :: "'e denv_scheme \<Rightarrow> 'b dsrv_scheme khooks" where
  "dnotify_khooks en = \<lparr>kh_handler = GAMIN_K_DNOTIFY, kh_dir = Some (gam_dnotify_directory_handler en),
     kh_file = Some (gam_dnotify_file_handler en)\<rparr>"

definition gam_dnotify_init ::
  "'e denv_scheme \<Rightarrow> bool \<Rightarrow> 'b dsrv_scheme hooks \<Rightarrow> 'b dsrv_scheme \<Rightarrow> bool \<times> 'b dsrv_scheme hooks \<times> 'b dsrv_scheme" where
  "gam_dnotify_init en pipe_ok hk s =
     (let (hk1, s1) = gam_poll_dnotify_init (fenv.truncate en) (dnotify_khooks en) hk s in
      if \<not> pipe_ok then (False, hk1, s1)
      else
        (True, gam_server_install_kernel_hooks (gam_dnotify_add_subscription hk1)
                 (gam_dnotify_remove_subscription hk1) (gam_dnotify_remove_all_for hk1) hk1,
         s1\<lparr>dn_changes := [], dn_path_hash := Map.empty, dn_fd_hash := Map.empty\<rparr>))"

end
