(* ===== verification/Gam_Dnotify_Inv.thy ===== *)
theory Gam_Dnotify_Inv
  imports Gam_Poll_Dnotify Gam_Poll_Tick
begin

unbundle bit_operations_syntax

text \<open>
  Polling for dnotify keeps the invariant of the tree and does not abort, whatever kernel hooks are installed that
  keep to their own part of the state. The hooks are a locale; those of dnotify provide it.
\<close>

section \<open>The kernel hooks\<close>

text \<open>A step that changes nothing but the part of the state that belongs to the kernel back end.\<close>

definition only_more :: "'x psrv_scheme \<Rightarrow> 'x psrv_scheme \<Rightarrow> bool" where
  "only_more s s' \<longleftrightarrow> pl_nodes s' = pl_nodes s \<and> pl_nextnode s' = pl_nextnode s \<and> pl_root s' = pl_root s \<and>
    pl_hash s' = pl_hash s \<and> pl_missing s' = pl_missing s \<and> pl_busy s' = pl_busy s \<and> pl_all s' = pl_all s \<and>
    pl_time s' = pl_time s \<and> pl_running s' = pl_running s \<and> sv_subs s' = sv_subs s \<and>
    sv_listeners s' = sv_listeners s \<and> sv_conns s' = sv_conns s"

lemma only_more_refl [simp]: "only_more s s"
  by (simp add: only_more_def)

lemma only_more_trans: "only_more s s' \<Longrightarrow> only_more s' s'' \<Longrightarrow> only_more s s''"
  by (simp add: only_more_def)

lemma only_more_simps:
  assumes "only_more s s'"
  shows "pl_nodes s' = pl_nodes s" "pl_nextnode s' = pl_nextnode s" "pl_root s' = pl_root s"
    "pl_hash s' = pl_hash s" "pl_missing s' = pl_missing s" "pl_busy s' = pl_busy s" "pl_all s' = pl_all s"
    "pl_time s' = pl_time s" "sv_subs s' = sv_subs s" "sv_listeners s' = sv_listeners s" "sv_conns s' = sv_conns s"
  using assms by (simp_all add: only_more_def)

lemma only_more_runs:
  assumes "only_more s s'" "poll_inv s"
  shows "poll_inv s'" "grows s s'" "flagged s' = flagged s"
proof -
  note s' = only_more_simps [OF assms(1)]
  show "poll_inv s'"
    using assms(2) poll_lists [OF assms(2)] by (intro same_tree [OF _ _ _ _ _ _ _ assms(2)]) (auto simp: s')
  show "grows s s'" by (auto simp: grows_def s')
  show "flagged s' = flagged s" by (simp add: flagged_def s')
qed

text \<open>The handlers keep to the part of the state that is theirs, and keep an invariant of it.\<close>

locale kernel_hooks =
  fixes kh :: "'x psrv_scheme khooks" and I :: "'x psrv_scheme \<Rightarrow> bool"
  assumes dir_more: "only_more s (gam_kernel_dir_handler kh p m s)"
    and file_more: "only_more s (gam_kernel_file_handler kh p m s)"
    and dir_keeps: "I s \<Longrightarrow> I (gam_kernel_dir_handler kh p m s)"
    and file_keeps: "I s \<Longrightarrow> I (gam_kernel_file_handler kh p m s)"
    and more_keeps: "psrv.more s' = psrv.more s \<Longrightarrow> I s \<Longrightarrow> I s'"

text \<open>Those of dnotify.\<close>

lemma handler_more: "only_more s (gam_dnotify_directory_handler_internal en p m s)"
  by (cases m) (auto simp: only_more_def dn_activate_def dn_deactivate_def dn_flow_start_def dn_flow_stop_def
      dn_open_def dn_notify_def dn_close_def upd_data_def split: option.split)

lemma dnotify_handlers:
  "gam_kernel_dir_handler (dnotify_khooks en) p m s = gam_dnotify_directory_handler_internal en p m s"
  "gam_kernel_file_handler (dnotify_khooks en) p m s =
     (if file_is_dir (fenv.truncate en) p then gam_dnotify_directory_handler_internal en p m s else s)"
  by (simp_all add: gam_kernel_dir_handler_def gam_kernel_file_handler_def dnotify_khooks_def
      gam_dnotify_directory_handler_def gam_dnotify_file_handler_def)

lemma more_dsrv:
  fixes s :: "'b dsrv_scheme"
  assumes "psrv.more s' = psrv.more s"
  shows "dn_path_hash s' = dn_path_hash s" "dn_fd_hash s' = dn_fd_hash s" "dn_changes s' = dn_changes s" "dn_calls s' = dn_calls s"
  using assms by (cases s; cases s'; simp)+

section \<open>Steps\<close>

text \<open>The nodes that a poll may put on the lists: those with subscriptions and their parents.\<close>

definition listable :: "'b psrv_scheme \<Rightarrow> cptr set" where
  "listable s = {n. \<exists>nd. pl_nodes s n = Some nd \<and> nd_subs nd \<noteq> []} \<union>
     {p. \<exists>n nd. pl_nodes s n = Some nd \<and> nd_subs nd \<noteq> [] \<and> nd_parent nd = Some p}"

definition dframe :: "'b psrv_scheme \<Rightarrow> 'b psrv_scheme \<Rightarrow> bool" where
  "dframe s s' \<longleftrightarrow> listable s' \<subseteq> listable s \<and>
     set (pl_missing s') \<subseteq> set (pl_missing s) \<union> listable s \<and> set (pl_busy s') \<subseteq> set (pl_busy s) \<union> listable s \<and>
     (distinct (pl_missing s) \<longrightarrow> distinct (pl_missing s')) \<and> (distinct (pl_busy s) \<longrightarrow> distinct (pl_busy s'))"

lemma dframe_refl [simp]: "dframe s s"
  by (simp add: dframe_def)

lemma dframe_trans: "dframe s s' \<Longrightarrow> dframe s' s'' \<Longrightarrow> dframe s s''"
  unfolding dframe_def by auto

lemma dframe_quiet:
  fixes s :: "'b psrv_scheme"
  shows "quiet s s' \<Longrightarrow> dframe s s'"
  by (simp add: dframe_def listable_def quiet_poll)

lemma dframe_more: "only_more s s' \<Longrightarrow> dframe s s'"
  by (simp add: dframe_def listable_def only_more_simps)

lemma dframe_upd: "(\<And>nd. nd_subs (f nd) = nd_subs nd \<and> nd_parent (f nd) = nd_parent nd) \<Longrightarrow> dframe s (upd_node n f s)"
  by (auto simp: dframe_def listable_def split: if_splits) blast

lemma dframe_lists:
  "dframe s (gam_poll_generic_remove_missing n s)" "dframe s (gam_poll_generic_remove_busy n s)"
  "n \<in> listable s \<Longrightarrow> dframe s (gam_poll_generic_add_missing n s)" "n \<in> listable s \<Longrightarrow> dframe s (gam_poll_generic_add_busy n s)"
  by (auto simp: dframe_def listable_def gam_poll_generic_remove_missing_def gam_poll_generic_remove_busy_def
      gam_poll_generic_add_missing_def gam_poll_generic_add_busy_def distinct_removeAll)


lemma listableI:
  assumes "pl_nodes s n = Some nd" "nd_subs nd \<noteq> []"
  shows "n \<in> listable s" "nd_parent nd = Some p \<Longrightarrow> p \<in> listable s"
  using assms by (auto simp: listable_def)

text \<open>A step of polling: it keeps the invariants, the subscriptions and what is marked as new.\<close>

definition dkeeps :: "('x psrv_scheme \<Rightarrow> bool) \<Rightarrow> 'x psrv_scheme \<Rightarrow> 'x psrv_scheme \<Rightarrow> bool" where
  "dkeeps I s s' \<longleftrightarrow> poll_inv s' \<and> grows s s' \<and> flagged s' = flagged s \<and> dframe s s' \<and> (I s \<longrightarrow> I s')"

definition druns :: "('x psrv_scheme \<Rightarrow> bool) \<Rightarrow> 'x psrv_scheme \<Rightarrow> 'x psrv_scheme option \<Rightarrow> bool" where
  "druns I s r \<longleftrightarrow> (\<exists>s'. r = Some s' \<and> dkeeps I s s')"

definition druns2 :: "('x psrv_scheme \<Rightarrow> bool) \<Rightarrow> 'x psrv_scheme \<Rightarrow> ('a \<times> 'x psrv_scheme) option \<Rightarrow> bool" where
  "druns2 I s r \<longleftrightarrow> (\<exists>x s'. r = Some (x, s') \<and> dkeeps I s s')"

lemma dkeepsD:
  assumes "dkeeps I s s'"
  shows "poll_inv s'" "grows s s'" "flagged s' = flagged s" "dframe s s'" "I s \<Longrightarrow> I s'"
  using assms by (simp_all add: dkeeps_def)

lemma dkeeps_refl: "poll_inv s \<Longrightarrow> dkeeps I s s"
  by (simp add: dkeeps_def)

lemma dkeeps_trans: "dkeeps I s s' \<Longrightarrow> dkeeps I s' s'' \<Longrightarrow> dkeeps I s s''"
  by (auto simp: dkeeps_def intro: grows_trans dframe_trans)

lemma dkeeps_node:
  assumes "dkeeps I s s'" "pl_nodes s n = Some nd"
  obtains nd' where "pl_nodes s' n = Some nd'" "nd_path nd' = nd_path nd" "nd_parent nd' = nd_parent nd" "nd_subs nd' = nd_subs nd"
  by (rule grows_node [OF dkeepsD(2) [OF assms(1)] assms(2)])

lemma dkeeps_there: "dkeeps I s s' \<Longrightarrow> pl_nodes s n \<noteq> None \<Longrightarrow> pl_nodes s' n \<noteq> None"
  by (rule node_there [OF dkeepsD(2)])

lemma druns_Some: "druns I s (Some s') \<longleftrightarrow> dkeeps I s s'"
  by (simp add: druns_def)

lemma druns2_Some: "druns2 I s (Some (x, s')) \<longleftrightarrow> dkeeps I s s'"
  by (simp add: druns2_def)

lemma druns_bind: "druns I s r \<Longrightarrow> (\<And>s'. dkeeps I s s' \<Longrightarrow> druns I s' (f s')) \<Longrightarrow> druns I s (Option.bind r f)"
  by (fastforce simp: druns_def intro: dkeeps_trans)

lemma druns2_bind: "druns I s r \<Longrightarrow> (\<And>s'. dkeeps I s s' \<Longrightarrow> druns2 I s' (f s')) \<Longrightarrow> druns2 I s (Option.bind r f)"
  by (fastforce simp: druns_def druns2_def intro: dkeeps_trans)

lemma druns_bind2:
  "druns2 I s r \<Longrightarrow> (\<And>x s'. dkeeps I s s' \<Longrightarrow> druns I s' (f (x, s'))) \<Longrightarrow> druns I s (Option.bind r f)"
  by (fastforce simp: druns_def druns2_def intro: dkeeps_trans)

lemma druns2_bind2:
  "druns2 I s r \<Longrightarrow> (\<And>x s'. dkeeps I s s' \<Longrightarrow> druns2 I s' (f (x, s'))) \<Longrightarrow> druns2 I s (Option.bind r f)"
  by (fastforce simp: druns2_def intro: dkeeps_trans)

lemma druns_step: "dkeeps I s s' \<Longrightarrow> druns I s' r \<Longrightarrow> druns I s r"
  by (auto simp: druns_def intro: dkeeps_trans)

lemma druns2_step: "dkeeps I s s' \<Longrightarrow> druns2 I s' r \<Longrightarrow> druns2 I s r"
  by (auto simp: druns2_def intro: dkeeps_trans)

lemma druns_snd: "druns2 I s r \<Longrightarrow> druns I s (map_option snd r)"
  by (auto simp: druns_def druns2_def)

lemma more_flags [simp]: "one_flag MON_BUSY" "one_flag MON_NOKERNEL"
  by code_simp+

lemma add_busy_inv:
  assumes "poll_inv s" "pl_nodes s n \<noteq> None"
  shows "poll_inv (gam_poll_generic_add_busy n s)"
  using assms poll_lists [OF assms(1)]
  by (intro same_tree [OF _ _ _ _ _ _ _ assms(1)]) (auto simp: gam_poll_generic_add_busy_def)

lemma lists_more:
  "psrv.more (gam_poll_generic_add_missing n s) = psrv.more s" "psrv.more (gam_poll_generic_remove_missing n s) = psrv.more s"
  "psrv.more (gam_poll_generic_add_busy n s) = psrv.more s" "psrv.more (gam_poll_generic_remove_busy n s) = psrv.more s"
  "psrv.more (upd_node n f s) = psrv.more s"
  by (simp_all add: gam_poll_generic_add_missing_def gam_poll_generic_remove_missing_def gam_poll_generic_add_busy_def
      gam_poll_generic_remove_busy_def upd_node_def)

context kernel_hooks
begin

lemma dkeeps_quiet: "quiet s s' \<Longrightarrow> poll_inv s \<Longrightarrow> dkeeps I s s'"
  using more_keeps [of s' s] more_poll(10) [of s' s]
  by (simp add: dkeeps_def poll_inv_quiet grows_quiet flagged_quiet dframe_quiet) (simp add: quiet_def)

lemma dkeeps_upd:
  assumes "poll_inv s" "payload f" "\<And>nd. nd_flags (f nd) = nd_flags nd"
  shows "dkeeps I s (upd_node n f s)"
proof -
  have "dframe s (upd_node n f s)" using assms(2) by (intro dframe_upd) (simp add: payload_def keeps_links_def)
  then show ?thesis
    using assms more_keeps [OF lists_more(5), of s n f] flagged_upd [of f n s] by (simp add: dkeeps_def del: upd_node_simps)
qed

lemma dkeeps_lists:
  assumes "poll_inv s" "pl_nodes s n \<noteq> None"
  shows "dkeeps I s (gam_poll_generic_remove_missing n s)" "dkeeps I s (gam_poll_generic_remove_busy n s)"
    "n \<in> listable s \<Longrightarrow> dkeeps I s (gam_poll_generic_add_missing n s)"
    "n \<in> listable s \<Longrightarrow> dkeeps I s (gam_poll_generic_add_busy n s)"
proof -
  have "grows s (gam_poll_generic_add_busy n s)" "flagged (gam_poll_generic_add_busy n s) = flagged s"
    by (auto simp: gam_poll_generic_add_busy_def grows_def flagged_def)
  then show "dkeeps I s (gam_poll_generic_remove_missing n s)" "dkeeps I s (gam_poll_generic_remove_busy n s)"
    "n \<in> listable s \<Longrightarrow> dkeeps I s (gam_poll_generic_add_missing n s)"
    "n \<in> listable s \<Longrightarrow> dkeeps I s (gam_poll_generic_add_busy n s)"
    using lists_runs [OF assms] add_busy_inv [OF assms] dframe_lists(1,2) [of s n] dframe_lists(3,4) [of n s]
      lists_more [THEN more_keeps]
    by (simp_all add: dkeeps_def)
qed

lemma dkeeps_hooks:
  assumes "poll_inv s"
  shows "dkeeps I s (gam_kernel_dir_handler kh p m s)" "dkeeps I s (gam_kernel_file_handler kh p m s)"
  using only_more_runs [OF dir_more assms] only_more_runs [OF file_more assms] dframe_more [OF dir_more]
    dframe_more [OF file_more] dir_keeps file_keeps
  by (simp_all add: dkeeps_def)

lemma druns_pflag:
  assumes "poll_inv s" "pl_nodes s n \<noteq> None"
  shows "one_flag fl \<Longrightarrow> druns I s (gam_node_set_pflag n fl s)" "one_flag fl \<Longrightarrow> druns I s (gam_node_unset_pflag n fl s)"
    "druns I s (gam_node_set_pflags n fl s)" "druns I s (gam_node_set_is_dir n b s)"
  using assms
  by (auto simp: gam_node_set_pflag_def gam_node_unset_pflag_def gam_node_set_pflags_def gam_node_set_is_dir_def druns_Some
      payload_def keeps_links_def simp del: upd_node_simps intro!: dkeeps_upd)

lemma trigger_file_runs:
  assumes inv: "poll_inv s" and nd: "pl_nodes s n = Some nd" and subs: "m = GAMIN_FLOWCONTROLSTART \<Longrightarrow> nd_subs nd \<noteq> []"
  shows "druns I s (gam_poll_generic_trigger_file_handler kh path m n s)"
proof (cases "nd_parent nd")
  case None
  then show ?thesis
    using nd inv by (simp add: gam_poll_generic_trigger_file_handler_def druns_Some dkeeps_refl dkeeps_hooks)
next
  case (Some p)
  then obtain pd where pd: "pl_nodes s p = Some pd"
    using tree_below(2) [OF poll_tree [OF inv] nd] tree_parent_None [OF poll_tree [OF inv] nd] by auto
  let ?s1 = "gam_kernel_dir_handler kh (nd_path pd) m s"
  note k1 = dkeeps_hooks(1) [OF inv, of "nd_path pd" m]
  obtain pd1 nd1 where n1: "pl_nodes ?s1 p = Some pd1" "pl_nodes ?s1 n = Some nd1" "nd_subs nd1 = nd_subs nd" "nd_parent nd1 = nd_parent nd"
    using dkeeps_node [OF k1 pd] dkeeps_node [OF k1 nd] by metis
  note lists = dkeeps_lists [OF dkeepsD(1) [OF k1], of p]
  have start: "druns I s (gam_node_set_pflag p MON_BUSY (gam_poll_generic_add_busy p ?s1))" if "m = GAMIN_FLOWCONTROLSTART"
  proof -
    have "p \<in> listable ?s1" using listableI(2) [OF n1(2)] n1(3,4) subs [OF that] Some by simp
    then have k: "dkeeps I s (gam_poll_generic_add_busy p ?s1)" using dkeeps_trans [OF k1] lists(4) n1(1) by simp
    show ?thesis by (rule druns_step [OF k druns_pflag(1) [OF dkeepsD(1) [OF k] dkeeps_there [OF k]]]) (simp_all add: pd)
  qed
  have stop: "druns I s (gam_node_unset_pflag p MON_BUSY (gam_poll_generic_remove_busy p ?s1))"
  proof -
    have k: "dkeeps I s (gam_poll_generic_remove_busy p ?s1)" using dkeeps_trans [OF k1] lists(2) n1(1) by simp
    show ?thesis by (rule druns_step [OF k druns_pflag(2) [OF dkeepsD(1) [OF k] dkeeps_there [OF k]]]) (simp_all add: pd)
  qed
  show ?thesis
    using nd pd Some start stop k1 inv
    by (cases m) (simp_all add: gam_poll_generic_trigger_file_handler_def gam_node_has_pflag_def druns_Some dkeeps_refl dkeeps_hooks)
qed

lemma trigger_runs:
  assumes "poll_inv s" "pl_nodes s n = Some nd" "m = GAMIN_FLOWCONTROLSTART \<Longrightarrow> nd_subs nd \<noteq> []"
  shows "druns I s (gam_poll_generic_trigger_handler kh path m n s)"
  using trigger_file_runs [OF assms] assms(1,2)
  by (simp add: gam_poll_generic_trigger_handler_def gam_poll_generic_trigger_dir_handler_def druns_Some dkeeps_refl dkeeps_hooks)

lemma trigger_each_runs:
  "poll_inv s \<Longrightarrow> pl_nodes s n \<noteq> None \<Longrightarrow> m \<noteq> GAMIN_FLOWCONTROLSTART \<Longrightarrow> druns I s (trigger_each kh path m n qs s)"
proof (induction qs arbitrary: s)
  case Nil
  then show ?case by (simp add: druns_Some dkeeps_refl)
next
  case (Cons q qs)
  then obtain nd where nd: "pl_nodes s n = Some nd" by auto
  show ?case
    unfolding trigger_each.simps
  proof (rule druns_bind [OF trigger_runs [OF Cons.prems(1) nd]])
    fix s' assume k: "dkeeps I s s'"
    show "druns I s' (trigger_each kh path m n qs s')"
      by (rule Cons.IH [OF dkeepsD(1) [OF k] dkeeps_there [OF k Cons.prems(2)] Cons.prems(3)])
  qed (use Cons.prems(3) in simp)
qed

lemma listing_runs:
  assumes "poll_inv s" "pl_nodes s n = Some nd"
  shows "druns I s (gam_poll_dnotify_delist_node en kh n s)" "druns I s (gam_poll_dnotify_relist_node en kh n s)"
    "nd_subs nd \<noteq> [] \<Longrightarrow> druns I s (gam_poll_dnotify_flowon_node en kh n s)"
    "druns I s (gam_poll_dnotify_flowoff_node en kh n s)"
  using assms trigger_each_runs [OF assms(1), of n] trigger_runs [OF assms, of GAMIN_FLOWCONTROLSTART]
    trigger_runs [OF assms, of GAMIN_FLOWCONTROLSTOP]
  by (simp_all add: gam_poll_dnotify_delist_node_def gam_poll_dnotify_relist_node_def gam_poll_dnotify_flowon_node_def
      gam_poll_dnotify_flowoff_node_def druns_Some dkeeps_refl)

lemma first_poll_runs:
  assumes inv: "poll_inv s" and n: "pl_nodes s n \<noteq> None"
  shows "druns2 I s (first_poll en n nd s)"
  unfolding first_poll_def Let_def
  apply (rule druns2_bind)
   apply (simp add: druns_pflag [OF inv n])
  apply (rule druns2_bind)
   apply (auto intro!: druns_pflag dkeeps_refl simp: druns_Some dest: dkeepsD(1) dkeeps_there [OF _ n])[1]
  apply (auto simp: druns2_Some payload_def keeps_links_def simp del: upd_node_simps intro!: dkeeps_upd dest: dkeepsD(1))
  done

lemma deleted_runs:
  assumes inv: "poll_inv s" and n: "pl_nodes s n \<noteq> None"
  shows "druns I s (dnotify_deleted en kh n s)"
  unfolding dnotify_deleted_def
proof (rule druns_bind [OF druns_pflag(3) [OF inv n]])
  fix s1 assume k1: "dkeeps I s s1"
  then have i1: "poll_inv s1" "pl_nodes s1 n \<noteq> None" using dkeepsD(1) dkeeps_there n by blast+
  let ?s2 = "gam_poll_generic_remove_busy n s1"
  have k2: "dkeeps I s1 ?s2" by (rule dkeeps_lists(2) [OF i1])
  obtain nd where nd: "pl_nodes ?s2 n = Some nd" using i1(2) by auto
  have "druns I ?s2 (do { s3 \<leftarrow> gam_poll_dnotify_delist_node en kh n ?s2; Some (gam_poll_generic_add_missing n s3) })"
    if subs: "nd_subs nd \<noteq> []"
  proof (rule druns_bind [OF listing_runs(1) [OF dkeepsD(1) [OF k2] nd]])
    fix s3 assume k3: "dkeeps I ?s2 s3"
    obtain nd3 where nd3: "pl_nodes s3 n = Some nd3" "nd_subs nd3 \<noteq> []" using dkeeps_node [OF k3 nd] subs by metis
    then show "druns I s3 (Some (gam_poll_generic_add_missing n s3))"
      using dkeeps_lists(3) [OF dkeepsD(1) [OF k3], of n] listableI(1) [OF nd3] by (simp add: druns_Some)
  qed
  then show "druns I s1 (let s2 = ?s2 in do { subs \<leftarrow> gam_node_get_subscriptions n s2;
      if subs \<noteq> [] then
        do { s3 \<leftarrow> gam_poll_dnotify_delist_node en kh n s2; Some (gam_poll_generic_add_missing n s3) }
      else Some s2 })"
    using druns_step [OF k2] dkeeps_refl [OF dkeepsD(1) [OF k2]] nd
    by (auto simp: gam_node_get_subscriptions_def druns_Some simp del: lists_nodes)
qed

lemma next_poll_runs:
  assumes inv: "poll_inv s" and n: "pl_nodes s n \<noteq> None"
  shows "druns2 I s (next_poll en kh n nd s)"
proof -
  let ?res = "en_stat en (nd_path nd)"
  let ?sbuf = "case ?res of STAT_OK st \<Rightarrow> st | _ \<Rightarrow> stat_zero"
  obtain missing where m: "gam_node_has_pflag n MON_MISSING s = Some missing"
    using n by (auto simp: gam_node_has_pflag_def)
  have ev: "druns2 I s (do { s1 \<leftarrow> r; Some (e, s1) })" if "druns I s r" for r and e :: evtype
    using that by (auto simp: druns_def druns2_def)
  have "druns2 I s
      (if ?res \<noteq> STAT_OK ?sbuf then
         (if ?res = STAT_NOENT \<and> \<not> missing then
            do { s1 \<leftarrow> dnotify_deleted en kh n s; Some (GAMIN_EVENT_DELETED, s1) }
          else Some (0, s))
       else if missing then
         do { s1 \<leftarrow> gam_node_unset_pflag n MON_MISSING s; Some (GAMIN_EVENT_CREATED, s1) }
       else if gam_poll_generic_node_changed nd ?sbuf then Some (GAMIN_EVENT_CHANGED, s)
       else Some (0, s))"
    using ev [OF deleted_runs [OF inv n]] ev [OF druns_pflag(2) [OF inv n one_flags(2)]] dkeeps_refl [OF inv]
    by (simp add: druns2_Some)
  then show ?thesis
    unfolding next_poll_def Let_def m Option.bind.bind_lunit
    by (rule druns2_bind2) (auto simp: druns2_Some simp del: upd_node_simps intro!: dkeeps_upd dest: dkeepsD(1))
qed

lemma go_busy_runs:
  assumes inv: "poll_inv s" and n: "pl_nodes s n \<noteq> None"
  shows "druns I s (go_busy en kh n s)"
proof -
  obtain nd where nd: "pl_nodes s n = Some nd" using n by auto
  define b where "b = (nd_checks nd \<ge> 4 \<and> \<not> nd_pflags nd AND MON_BUSY \<noteq> 0 \<and> nd_subs nd \<noteq> [] \<and> kernel_path en (nd_path nd))"
  let ?rest = "do { s1 \<leftarrow> gam_node_set_pflag n MON_BUSY s;
                 let s2 = gam_poll_generic_add_busy n (upd_node n (\<lambda>nd. nd\<lparr>nd_checks := 0\<rparr>) s1)
                 in do { s3 \<leftarrow> gam_poll_dnotify_flowon_node en kh n s2;
                         is_dir \<leftarrow> gam_node_is_dir n s3;
                         if is_dir then Some s3
                         else
                           do { parent \<leftarrow> gam_node_parent n s3;
                                case parent of
                                  None \<Rightarrow> Some s3
                                | Some p \<Rightarrow>
                                    do { subs \<leftarrow> gam_node_get_subscriptions p s3;
                                         Some (if subs \<noteq> [] then gam_poll_generic_add_busy p s3 else s3) } } } }"
  have go: "go_busy en kh n s = (if b then ?rest else Some s)"
    using nd by (simp add: go_busy_def gam_node_has_pflag_def b_def)
  have "druns I s ?rest" if subs: "nd_subs nd \<noteq> []"
    unfolding Let_def
  proof (rule druns_bind [OF druns_pflag(1) [OF inv n more_flags(1)]])
    fix s1 assume k1: "dkeeps I s s1"
    let ?t = "upd_node n (\<lambda>nd. nd\<lparr>nd_checks := 0\<rparr>) s1"
    have kt: "dkeeps I s1 ?t" by (rule dkeeps_upd) (simp_all add: dkeepsD(1) [OF k1] payload_def keeps_links_def)
    obtain ndt where ndt: "pl_nodes ?t n = Some ndt" "nd_subs ndt \<noteq> []"
      using dkeeps_node [OF dkeeps_trans [OF k1 kt] nd] subs by metis
    let ?s2 = "gam_poll_generic_add_busy n ?t"
    have k2: "dkeeps I s1 ?s2"
      using dkeeps_trans [OF kt dkeeps_lists(4) [OF dkeepsD(1) [OF kt] _ listableI(1) [OF ndt]]] ndt(1) by blast
    obtain nd2 where nd2: "pl_nodes ?s2 n = Some nd2" "nd_subs nd2 \<noteq> []"
      using dkeeps_node [OF dkeeps_trans [OF k1 k2] nd] subs by metis
    show "druns I s1 (do { s3 \<leftarrow> gam_poll_dnotify_flowon_node en kh n ?s2;
                         is_dir \<leftarrow> gam_node_is_dir n s3;
                         if is_dir then Some s3
                         else
                           do { parent \<leftarrow> gam_node_parent n s3;
                                case parent of
                                  None \<Rightarrow> Some s3
                                | Some p \<Rightarrow>
                                    do { subs \<leftarrow> gam_node_get_subscriptions p s3;
                                         Some (if subs \<noteq> [] then gam_poll_generic_add_busy p s3 else s3) } } })"
    proof (rule druns_step [OF k2], rule druns_bind [OF listing_runs(3) [OF dkeepsD(1) [OF k2] nd2]])
      fix s3 assume k3: "dkeeps I ?s2 s3"
      obtain nd3 where nd3: "pl_nodes s3 n = Some nd3" using dkeeps_node [OF k3 nd2(1)] by metis
      have "\<exists>pd. pl_nodes s3 p = Some pd" if "nd_parent nd3 = Some p" for p
        using tree_below(2) [OF poll_tree [OF dkeepsD(1) [OF k3]] nd3]
          tree_parent_None [OF poll_tree [OF dkeepsD(1) [OF k3]] nd3] that by auto
      then show "druns I s3 (do { is_dir \<leftarrow> gam_node_is_dir n s3;
                         if is_dir then Some s3
                         else
                           do { parent \<leftarrow> gam_node_parent n s3;
                                case parent of
                                  None \<Rightarrow> Some s3
                                | Some p \<Rightarrow>
                                    do { subs \<leftarrow> gam_node_get_subscriptions p s3;
                                         Some (if subs \<noteq> [] then gam_poll_generic_add_busy p s3 else s3) } } })"
        using nd3 dkeeps_refl [OF dkeepsD(1) [OF k3]] dkeeps_lists(4) [OF dkeepsD(1) [OF k3]] listableI(1) [of s3]
        by (cases "nd_parent nd3")
           (auto simp: gam_node_is_dir_def gam_node_parent_def gam_node_get_subscriptions_def druns_Some)
    qed
  qed
  then show ?thesis unfolding go using dkeeps_refl [OF inv] by (simp add: druns_Some b_def)
qed

lemma go_kernel_runs:
  assumes inv: "poll_inv s" and n: "pl_nodes s n \<noteq> None"
  shows "druns I s (go_kernel en kh event n s)"
proof -
  obtain nd where nd: "pl_nodes s n = Some nd" using n by auto
  have "druns I s (do { s1 \<leftarrow> gam_node_unset_pflag n MON_BUSY s;
                 gam_poll_dnotify_flowoff_node en kh n
                   (gam_poll_generic_remove_busy n (upd_node n (\<lambda>nd. nd\<lparr>nd_checks := 0\<rparr>) s1)) })"
  proof (rule druns_bind [OF druns_pflag(2) [OF inv n more_flags(1)]])
    fix s1 assume k1: "dkeeps I s s1"
    let ?t = "upd_node n (\<lambda>nd. nd\<lparr>nd_checks := 0\<rparr>) s1"
    have kt: "dkeeps I s1 ?t" by (rule dkeeps_upd) (simp_all add: dkeepsD(1) [OF k1] payload_def keeps_links_def)
    have k2: "dkeeps I s1 (gam_poll_generic_remove_busy n ?t)"
      by (rule dkeeps_trans [OF kt dkeeps_lists(2) [OF dkeepsD(1) [OF kt] dkeeps_there [OF dkeeps_trans [OF k1 kt] n]]])
    obtain nd2 where nd2: "pl_nodes (gam_poll_generic_remove_busy n ?t) n = Some nd2"
      by (rule dkeeps_node [OF dkeeps_trans [OF k1 k2] nd])
    show "druns I s1 (gam_poll_dnotify_flowoff_node en kh n (gam_poll_generic_remove_busy n ?t))"
      by (rule druns_step [OF k2 listing_runs(4) [OF dkeepsD(1) [OF k2] nd2]])
  qed
  then show ?thesis using nd dkeeps_refl [OF inv] by (simp add: go_kernel_def gam_node_has_pflag_def druns_Some)
qed

lemma count_checks_payload: "payload (count_checks e t)" "nd_flags (count_checks e t nd) = nd_flags nd"
  by (simp_all add: payload_def keeps_links_def count_checks_def)

lemma dnotify_poll_file_runs:
  assumes inv: "poll_inv s" and n: "pl_nodes s n \<noteq> None"
  shows "druns2 I s (gam_poll_dnotify_poll_file en kh n s)"
proof -
  obtain nd where nd: "pl_nodes s n = Some nd" using n by auto
  have "druns2 I s (do { (event, s1) \<leftarrow> next_poll en kh n nd s;
                 nokernel \<leftarrow> gam_node_has_pflag n MON_NOKERNEL s1;
                 if nokernel then Some (event, s1)
                 else
                   do { s2 \<leftarrow> go_busy en kh n (upd_node n (count_checks event (pl_time s1)) s1);
                        s3 \<leftarrow> go_kernel en kh event n s2;
                        Some (event, s3) } })"
  proof (rule druns2_bind2 [OF next_poll_runs [OF inv n]], unfold prod.case)
    fix e s1 assume k1: "dkeeps I s s1"
    let ?t = "upd_node n (count_checks e (pl_time s1)) s1"
    have kt: "dkeeps I s1 ?t" by (rule dkeeps_upd [OF dkeepsD(1) [OF k1] count_checks_payload])
    have "druns2 I ?t (do { s2 \<leftarrow> go_busy en kh n ?t; s3 \<leftarrow> go_kernel en kh e n s2; Some (e, s3) })"
    proof (rule druns2_bind [OF go_busy_runs [OF dkeepsD(1) [OF kt] dkeeps_there [OF dkeeps_trans [OF k1 kt] n]]])
      fix s2 assume k2: "dkeeps I ?t s2"
      show "druns2 I s2 (do { s3 \<leftarrow> go_kernel en kh e n s2; Some (e, s3) })"
        by (rule druns2_bind [OF go_kernel_runs [OF dkeepsD(1) [OF k2] dkeeps_there [OF dkeeps_trans [OF dkeeps_trans [OF k1 kt] k2] n]]])
           (simp add: druns2_Some dkeeps_refl [OF dkeepsD(1)])
    qed
    then have "druns2 I s1 (do { s2 \<leftarrow> go_busy en kh n ?t; s3 \<leftarrow> go_kernel en kh e n s2; Some (e, s3) })"
      by (rule druns2_step [OF kt])
    moreover obtain b where "gam_node_has_pflag n MON_NOKERNEL s1 = Some b"
      using dkeeps_there [OF k1 n] by (auto simp: gam_node_has_pflag_def)
    ultimately show "druns2 I s1 (do { nokernel \<leftarrow> gam_node_has_pflag n MON_NOKERNEL s1;
                 if nokernel then Some (e, s1)
                 else do { s2 \<leftarrow> go_busy en kh n ?t; s3 \<leftarrow> go_kernel en kh e n s2; Some (e, s3) } })"
      using dkeeps_refl [OF dkeepsD(1) [OF k1]] by (simp add: druns2_Some del: upd_node_simps)
  qed
  then show ?thesis
    using nd first_poll_runs [OF inv n] dkeeps_refl [OF inv] by (simp add: gam_poll_dnotify_poll_file_def druns2_Some)
qed

end

section \<open>Scans\<close>

text \<open>What every step of a scan keeps, the marks apart.\<close>

definition kept :: "('x psrv_scheme \<Rightarrow> bool) \<Rightarrow> 'x psrv_scheme \<Rightarrow> 'x psrv_scheme \<Rightarrow> bool" where
  "kept I s s' \<longleftrightarrow> (poll_inv s \<longrightarrow> poll_inv s' \<and> grows s s' \<and> dframe s s' \<and> (I s \<longrightarrow> I s'))"

lemma kept_keeps: "(poll_inv s \<Longrightarrow> dkeeps I s s') \<Longrightarrow> kept I s s'"
  by (auto simp: kept_def dkeeps_def)

lemma kept_refl: "kept I s s"
  by (simp add: kept_def)

lemma kept_trans: "kept I s s' \<Longrightarrow> kept I s' s'' \<Longrightarrow> kept I s s''"
  by (auto simp: kept_def intro: grows_trans dframe_trans)

lemma hang_dframe:
  assumes inv: "poll_inv s" and d: "pl_nodes s d = Some dnd" and subs: "nd_subs nd = []"
  shows "dframe s (hang d nd s)" "psrv.more (hang d nd s) = psrv.more s"
proof -
  note nodes = hang_nodes [OF poll_tree [OF inv] d]
  have "listable (hang d nd s) \<subseteq> listable s"
    using subs d by (auto simp: listable_def nodes split: if_splits)
  then show "dframe s (hang d nd s)" by (simp add: dframe_def)
  show "psrv.more (hang d nd s) = psrv.more s" by (simp add: hang_def alloc_node_def)
qed

context kernel_hooks
begin

lemma kept_entry:
  assumes "scan_entry en d name s = Some s'"
  shows "kept I s s'"
proof (unfold kept_def, rule impI)
  assume inv: "poll_inv s"
  obtain dnd where dnd: "pl_nodes s d = Some dnd" using assms by (auto simp: scan_entry_def split: Option.bind_splits)
  let ?path = "g_build_filename (nd_path dnd) name"
  let ?nd = "gam_node_new en ?path None (file_is_dir en ?path)"
  show "poll_inv s' \<and> grows s s' \<and> dframe s s' \<and> (I s \<longrightarrow> I s')"
  proof (cases "pl_hash s ?path")
    case (Some n)
    then show ?thesis using assms dnd inv by (simp add: scan_entry_def gam_tree_get_at_path_def)
  next
    case None
    then have nd: "pl_hash s (nd_path ?nd) = None" "nd_subs ?nd = []" by (simp_all add: gam_node_new_def)
    note hg = poll_add_new [OF inv dnd nd]
    let ?s1 = "hang d ?nd s"
    let ?f = "\<lambda>nd. nd\<lparr>nd_flags := nd_flags nd OR FLAG_NEW_NODE\<rparr>"
    have s': "s' = upd_node (pl_nextnode s) ?f ?s1"
      using assms dnd None hg(1,4)
      by (simp add: scan_entry_def gam_tree_get_at_path_def split_beta gam_node_set_flag_def del: upd_node_simps)
    have "dframe ?s1 s'" unfolding s' by (rule dframe_upd) simp
    moreover have "grows ?s1 s'" unfolding s' by (rule grows_payload) simp
    moreover have "poll_inv s'" unfolding s' using hg(2) by simp
    moreover have "psrv.more s' = psrv.more s"
      unfolding s' lists_more using hang_dframe(2) [OF inv dnd nd(2)] .
    ultimately show ?thesis
      using hang_dframe(1) [OF inv dnd nd(2)] hg(3) more_keeps by (meson dframe_trans grows_trans)
  qed
qed

end

sublocale kernel_hooks < dn_poll: poll_backend "gam_poll_dnotify_poll_file en kh" for en
proof
  fix s :: "'x psrv_scheme" and n assume "poll_inv s" "pl_nodes s n \<noteq> None"
  from dnotify_poll_file_runs [OF this, of en]
  show "runs2 s (\<lambda>s'. flagged s' = flagged s) (gam_poll_dnotify_poll_file en kh n s)"
    by (auto simp: druns2_def runs2_def dkeeps_def)
qed

sublocale kernel_hooks < dn_scan: scan_steps "kept I" "gam_poll_dnotify_poll_file en kh" for en
proof
  fix s s' :: "'x psrv_scheme" and n e assume a: "gam_poll_dnotify_poll_file en kh n s = Some (e, s')"
  then have n: "pl_nodes s n \<noteq> None" by (auto simp: gam_poll_dnotify_poll_file_def split: Option.bind_splits)
  show "kept I s s'"
    by (rule kept_keeps) (use dnotify_poll_file_runs [OF _ n, of en] a in \<open>auto simp: druns2_def\<close>)
next
  fix s s' :: "'x psrv_scheme" and n fl assume "gam_node_unset_flag n fl s = Some s'"
  then have s': "s' = upd_node n (\<lambda>nd. nd\<lparr>nd_flags := nd_flags nd AND NOT fl\<rparr>) s"
    by (auto simp: gam_node_unset_flag_def simp del: upd_node_simps split: Option.bind_splits if_splits)
  have "dframe s s'" unfolding s' by (rule dframe_upd) simp
  then show "kept I s s'"
    unfolding kept_def s' using more_keeps [OF lists_more(5)] by (simp del: upd_node_simps)
qed (rule kept_refl, erule (1) kept_trans, rule kept_keeps, erule (1) dkeeps_quiet, erule kept_entry)

context kernel_hooks
begin

lemma node_emit_runs:
  assumes "poll_inv s" "pl_nodes s n \<noteq> None"
  shows "druns I s (gam_node_emit_event n e s)"
proof -
  obtain s' where s': "gam_node_emit_event n e s = Some s'" "poll_inv s'" "grows s s'" "flagged s' \<subseteq> flagged s"
    using emit_event_runs [OF assms order_refl, of e] by (auto simp: runs_def)
  then have "quiet s s'" by (auto simp: gam_node_emit_event_def dest: emit_quiet split: Option.bind_splits)
  then show ?thesis using dkeeps_quiet [OF _ assms(1)] s'(1) by (simp add: druns_def)
qed

lemma internal_runs:
  assumes inv: "poll_inv s" and calm: "flagged s = {}" and n: "pl_nodes s n \<noteq> None"
  shows "druns I s (gam_poll_generic_scan_directory_internal en (gam_poll_dnotify_poll_file en kh) n s)"
proof -
  obtain s' where s': "gam_poll_generic_scan_directory_internal en (gam_poll_dnotify_poll_file en kh) n s = Some s'" "flagged s' = {}"
    using dn_poll.scan_internal_runs [OF inv n calm, of en en] by (auto simp: runs_def)
  have "kept I s s'" by (rule dn_scan.step_internal [OF s'(1)])
  then show ?thesis using s' calm inv by (simp add: kept_def dkeeps_def druns_def)
qed

lemma dn_resource_runs:
  assumes inv: "poll_inv s" and calm: "flagged s = {}" and n: "pl_nodes s n \<noteq> None"
  shows "druns I s (dnotify_scan_resource en kh n s)"
proof -
  obtain nd where nd: "pl_nodes s n = Some nd" using n by auto
  have "druns I s (do { (event, s1) \<leftarrow> gam_poll_dnotify_poll_file en kh n s; gam_node_emit_event n event s1 })"
    by (rule druns_bind2 [OF dnotify_poll_file_runs [OF inv n]])
       (auto intro!: node_emit_runs dest: dkeepsD(1) dkeeps_there [OF _ n])
  then show ?thesis using nd internal_runs [OF assms] by (simp add: dnotify_scan_resource_def)
qed

lemma dkeeps_time:
  assumes "poll_inv s"
  shows "dkeeps I s (gam_poll_generic_update_time en s)"
  using assms more_keeps [of "gam_poll_generic_update_time en s" s] update_time_inv [OF assms]
  by (simp add: dkeeps_def dframe_def listable_def) (simp add: gam_poll_generic_update_time_def)

end

section \<open>The timer\<close>

text \<open>The two loops are the same but for the list, and for what is done with a node that goes back to the
  kernel.\<close>

definition lists_below :: "nat \<Rightarrow> 'x psrv_scheme \<Rightarrow> bool" where
  "lists_below w s \<longleftrightarrow> distinct (pl_missing s) \<and> distinct (pl_busy s) \<and>
     set (pl_missing s) \<union> set (pl_busy s) \<union> listable s \<subseteq> {..<w}"

lemma lists_below_keeps: "dkeeps I s s' \<Longrightarrow> lists_below w s \<Longrightarrow> lists_below w s'"
  unfolding dkeeps_def dframe_def lists_below_def by blast

lemma lists_below_length:
  assumes "lists_below w s"
  shows "length (pl_missing s) \<le> w" "length (pl_busy s) \<le> w"
  using assms distinct_below [of "pl_missing s" w] distinct_below [of "pl_busy s" w] by (auto simp: lists_below_def)

context kernel_hooks
begin

lemma back_to_kernel_runs:
  assumes inv: "poll_inv s" and calm: "flagged s = {}" and n: "pl_nodes s n \<noteq> None"
    and off: "\<And>s1. poll_inv s1 \<Longrightarrow> pl_nodes s1 n \<noteq> None \<Longrightarrow> dkeeps I s1 (off s1)"
    and on: "\<And>s1. poll_inv s1 \<Longrightarrow> pl_nodes s1 n \<noteq> None \<Longrightarrow> druns I s1 (on s1)"
  shows "druns I s
    (do { s1 \<leftarrow> dnotify_scan_resource en kh n s;
          again \<leftarrow> kernel_again en n s1;
          if again then
            let s2 = off s1
            in do { subs \<leftarrow> gam_node_get_subscriptions n s2; if subs \<noteq> [] then on s2 else Some s2 }
          else Some s1 })"
proof (rule druns_bind [OF dn_resource_runs [OF inv calm n]])
  fix s1 assume k1: "dkeeps I s s1"
  then have i1: "poll_inv s1" "pl_nodes s1 n \<noteq> None" using dkeepsD(1) dkeeps_there n by blast+
  note k2 = off [OF i1]
  then have i2: "poll_inv (off s1)" "pl_nodes (off s1) n \<noteq> None" using dkeepsD(1) dkeeps_there i1(2) by blast+
  obtain again subs where "kernel_again en n s1 = Some again" "gam_node_get_subscriptions n (off s1) = Some subs"
    using i1(2) i2(2) by (auto simp: kernel_again_def gam_node_has_pflags_def gam_node_get_subscriptions_def)
  then show "druns I s1 (do { again \<leftarrow> kernel_again en n s1;
          if again then
            let s2 = off s1
            in do { subs \<leftarrow> gam_node_get_subscriptions n s2; if subs \<noteq> [] then on s2 else Some s2 }
          else Some s1 })"
    using druns_step [OF k2 on [OF i2]] k2 dkeeps_refl [OF i1(1)] by (simp add: druns_Some)
qed

lemma missing_loop_runs:
  assumes "poll_inv s" "flagged s = {}" "lists_below w s" "w < k + idx" "idx \<le> w"
  shows "druns I s (dnotify_missing_loop k en kh idx s)"
  using assms
proof (induction k arbitrary: idx s)
  case (Suc k)
  show ?case
  proof (cases "idx < length (pl_missing s)")
    case True
    let ?n = "pl_missing s ! idx"
    have n: "pl_nodes s ?n \<noteq> None" using poll_lists(1) [OF Suc.prems(1), of ?n] True by auto
    have loop: "dnotify_missing_loop (Suc k) en kh idx s =
      Option.bind (do { s1 \<leftarrow> dnotify_scan_resource en kh ?n s;
          again \<leftarrow> kernel_again en ?n s1;
          if again then
            let s2 = gam_poll_generic_remove_missing ?n s1
            in do { subs \<leftarrow> gam_node_get_subscriptions ?n s2;
                    if subs \<noteq> [] then gam_poll_dnotify_relist_node en kh ?n s2 else Some s2 }
          else Some s1 }) (dnotify_missing_loop k en kh (Suc idx))"
      using True by (simp add: Option.bind_assoc)
    show ?thesis
      unfolding loop
    proof (rule druns_bind [OF back_to_kernel_runs [OF Suc.prems(1,2) n]])
      fix s2 assume k2: "dkeeps I s s2"
      show "druns I s2 (dnotify_missing_loop k en kh (Suc idx) s2)"
        using dkeepsD(1,3) [OF k2] lists_below_keeps [OF k2 Suc.prems(3)] lists_below_length(1) [OF Suc.prems(3)]
          Suc.prems(2,4) True by (intro Suc.IH) auto
    qed (auto intro!: dkeeps_lists(1) listing_runs(2))
  next
    case False
    then show ?thesis using dkeeps_refl [OF Suc.prems(1)] by (simp add: druns_Some)
  qed
qed simp

lemma busy_loop_runs:
  assumes "poll_inv s" "flagged s = {}" "lists_below w s" "w < k + idx" "idx \<le> w"
  shows "druns I s (dnotify_busy_loop k en kh idx s)"
  using assms
proof (induction k arbitrary: idx s)
  case (Suc k)
  show ?case
  proof (cases "idx < length (pl_busy s)")
    case True
    let ?n = "pl_busy s ! idx"
    have n: "pl_nodes s ?n \<noteq> None" using poll_lists(2) [OF Suc.prems(1), of ?n] True by auto
    have loop: "dnotify_busy_loop (Suc k) en kh idx s =
      Option.bind (do { s1 \<leftarrow> dnotify_scan_resource en kh ?n s;
          again \<leftarrow> kernel_again en ?n s1;
          if again then
            let s2 = gam_poll_generic_remove_busy ?n s1
            in do { subs \<leftarrow> gam_node_get_subscriptions ?n s2;
                    if subs \<noteq> [] then gam_poll_dnotify_flowoff_node en kh ?n s2 else Some s2 }
          else Some s1 }) (dnotify_busy_loop k en kh (Suc idx))"
      using True by (simp add: Option.bind_assoc)
    show ?thesis
      unfolding loop
    proof (rule druns_bind [OF back_to_kernel_runs [OF Suc.prems(1,2) n]])
      fix s2 assume k2: "dkeeps I s s2"
      show "druns I s2 (dnotify_busy_loop k en kh (Suc idx) s2)"
        using dkeepsD(1,3) [OF k2] lists_below_keeps [OF k2 Suc.prems(3)] lists_below_length(2) [OF Suc.prems(3)]
          Suc.prems(2,4) True by (intro Suc.IH) auto
    qed (auto intro!: dkeeps_lists(2) listing_runs(4))
  next
    case False
    then show ?thesis using dkeeps_refl [OF Suc.prems(1)] by (simp add: druns_Some)
  qed
qed simp

lemma timer_runs:
  assumes "poll_inv s" "flagged s = {}" "distinct (pl_missing s)" "distinct (pl_busy s)" "pl_nextnode s < k"
  shows "\<exists>s'. gam_poll_dnotify_scan_callback k en kh s = Some (True, s') \<and> dkeeps I s s'"
proof -
  let ?s0 = "gam_poll_generic_update_time en s"
  note k0 = dkeeps_time [OF assms(1), of en]
  have "\<exists>pd. pl_nodes s p = Some pd" if "pl_nodes s n = Some nd" "nd_parent nd = Some p" for n nd p
    using tree_below(2) [OF poll_tree [OF assms(1)] that(1)] tree_parent_None [OF poll_tree [OF assms(1)] that(1)] that(2) by auto
  then have "listable s \<subseteq> dom (pl_nodes s)" by (auto simp: listable_def)
  then have "set (pl_missing s) \<union> set (pl_busy s) \<union> listable s \<subseteq> dom (pl_nodes s)"
    using poll_lists(1,2) [OF assms(1)] by blast
  then have "lists_below (pl_nextnode s) s"
    unfolding lists_below_def using assms(3,4) nodes_below [OF assms(1)] by blast
  note b0 = lists_below_keeps [OF k0 this]
  have f0: "flagged ?s0 = {}" using dkeepsD(3) [OF k0] assms(2) by simp
  obtain s1 where s1: "dnotify_missing_loop k en kh 0 ?s0 = Some s1" "dkeeps I ?s0 s1"
    using missing_loop_runs [OF dkeepsD(1) [OF k0] f0 b0, of k 0 en] assms(5) by (auto simp: druns_def)
  have f1: "flagged s1 = {}" using dkeepsD(3) [OF s1(2)] f0 by simp
  obtain s2 where s2: "dnotify_busy_loop k en kh 0 s1 = Some s2" "dkeeps I s1 s2"
    using busy_loop_runs [OF dkeepsD(1) [OF s1(2)] f1 lists_below_keeps [OF s1(2) b0], of k 0 en] assms(5)
    by (auto simp: druns_def)
  show ?thesis
    using s1(1) s2(1) dkeeps_trans [OF dkeeps_trans [OF k0 s1(2)] s2(2)] by (simp add: gam_poll_dnotify_scan_callback_def)
qed

end

end
