(* ===== verification/Gam_Dnotify_Ops.thy ===== *)
theory Gam_Dnotify_Ops
  imports Gam_Dnotify_Inv Gam_Poll_Remove
begin

unbundle bit_operations_syntax

text \<open>
  Adding and removing a subscription, and handling the signals of the kernel, with dnotify: each keeps the invariant
  and does not abort.
\<close>

section \<open>Adding a subscription\<close>

text \<open>What the first scan of the directory \<open>d\<close> keeps, which has a subscription.\<close>

definition sub_at :: "cptr \<Rightarrow> 'x psrv_scheme \<Rightarrow> bool" where
  "sub_at d s \<longleftrightarrow> (\<exists>nd. pl_nodes s d = Some nd \<and> nd_subs nd \<noteq> [])"

definition kept_at :: "('x psrv_scheme \<Rightarrow> bool) \<Rightarrow> cptr \<Rightarrow> 'x psrv_scheme \<Rightarrow> 'x psrv_scheme \<Rightarrow> bool" where
  "kept_at I d s s' \<longleftrightarrow> (poll_inv s \<and> sub_at d s \<longrightarrow> poll_inv s' \<and> grows s s' \<and> dframe s s' \<and> (I s \<longrightarrow> I s'))"

lemma kept_at: "kept I s s' \<Longrightarrow> kept_at I d s s'"
  by (simp add: kept_def kept_at_def)

lemma sub_at_grows: "grows s s' \<Longrightarrow> sub_at d s \<Longrightarrow> sub_at d s'"
  unfolding sub_at_def using grows_node by metis

lemma kept_at_trans: "kept_at I d s s' \<Longrightarrow> kept_at I d s' s'' \<Longrightarrow> kept_at I d s s''"
  unfolding kept_at_def using sub_at_grows grows_trans dframe_trans by blast

context kernel_hooks
begin

lemma kept_first_entry:
  assumes "first_scan_entry en q d w dpath name s = Some s'"
  shows "kept_at I d s s'"
proof (unfold kept_at_def, rule impI)
  assume a: "poll_inv s \<and> sub_at d s"
  then have inv: "poll_inv s" and "sub_at d s" by simp_all
  then obtain dnd where dnd: "pl_nodes s d = Some dnd" by (auto simp: sub_at_def)
  let ?path = "g_build_filename dpath name"
  let ?sbuf = "case en_stat en ?path of STAT_OK st \<Rightarrow> st | _ \<Rightarrow> stat_zero"
  let ?nd0 = "gam_node_new en ?path None (file_is_dir en ?path)"
  let ?nd = "?nd0\<lparr>nd_sbuf := ?sbuf, nd_is_dir := st_is_dir ?sbuf,
                              nd_pflags := (if en_exclude en ?path \<or> en_mon_type en ?path \<noteq> GFS_MT_KERNEL
                                            then nd_pflags ?nd0 OR MON_NOKERNEL else nd_pflags ?nd0),
                              nd_lasttime := pl_time s\<rparr>"
  obtain t where t: "(if w then gam_server_emit_event name True GAMIN_EVENT_EXISTS [q] True t else Some t) = Some s'"
      "poll_inv t" "grows s t" "dframe s t" "psrv.more t = psrv.more s"
  proof (cases "pl_hash s ?path")
    case (Some n)
    then show ?thesis using assms inv that [of s]
      by (simp add: first_scan_entry_def gam_tree_get_at_path_def del: gam_server_emit_event.simps)
  next
    case None
    then have nd: "pl_hash s (nd_path ?nd) = None" "nd_subs ?nd = []" by (simp_all add: gam_node_new_def)
    note hg = poll_add_new [OF inv dnd nd]
    show ?thesis
      using assms None hg hang_dframe [OF inv dnd nd(2)] that [of "hang d ?nd s"]
      by (simp add: first_scan_entry_def gam_tree_get_at_path_def split_beta
          del: upd_node_simps gam_server_emit_event.simps split del: if_split)
  qed
  have "quiet t s'"
    using t(1) by (cases w) (auto dest: emit_quiet simp del: gam_server_emit_event.simps)
  then have "dkeeps I t s'" using dkeeps_quiet t(2) by blast
  then show "poll_inv s' \<and> grows s s' \<and> dframe s s' \<and> (I s \<longrightarrow> I s')"
    using t more_keeps [OF t(5)] by (auto simp: dkeeps_def intro: grows_trans dframe_trans)
qed

end

sublocale kernel_hooks < dn_first: first_scan_steps "kept_at I d" "gam_poll_dnotify_poll_file en kh" d for en d
proof
  fix s s' :: "'x psrv_scheme" and f
  show "kept_at I d s s" by (rule kept_at [OF kept_refl])
  show "payload f \<Longrightarrow> kept_at I d s (upd_node d f s)"
    using dframe_upd [of f s d] more_keeps [OF lists_more(5), of s d f]
    by (simp add: kept_at_def payload_def keeps_links_def del: upd_node_simps)
  show "kept_at I d s (gam_poll_generic_add_missing d s)"
    using dkeeps_lists(3) [of s d] listableI(1) [of s d] by (fastforce simp: kept_at_def dkeeps_def sub_at_def)
qed (rule kept_at_trans, assumption, assumption, (rule kept_at, erule dn_scan.step_quiet dn_scan.step_unmark dn_scan.step_entry
  dn_scan.step_poll)+, erule kept_first_entry)

text \<open>The states between two operations.\<close>

definition dpoll_ok :: "('x psrv_scheme \<Rightarrow> bool) \<Rightarrow> 'x psrv_scheme \<Rightarrow> bool" where
  "dpoll_ok I s \<longleftrightarrow> poll_ok s \<and> distinct (pl_busy s) \<and> I s"

lemma dpoll_ok_keeps: "dkeeps I s s' \<Longrightarrow> dpoll_ok I s \<Longrightarrow> dpoll_ok I s'"
  by (auto simp: dpoll_ok_def poll_ok_def dkeeps_def dframe_def)

lemma dpoll_okD:
  assumes "dpoll_ok I s"
  shows "poll_inv s" "flagged s = {}" "distinct (pl_missing s)" "distinct (pl_busy s)" "I s" "poll_ok s"
  using assms by (simp_all add: dpoll_ok_def poll_ok_def)

lemma sub_at_keeps: "dkeeps I s s' \<Longrightarrow> sub_at d s \<Longrightarrow> sub_at d s'"
  by (rule sub_at_grows [OF dkeepsD(2)])

lemma sub_at_listable: "sub_at d s \<Longrightarrow> d \<in> listable s \<and> pl_nodes s d \<noteq> None"
  by (auto simp: sub_at_def listable_def)

context kernel_hooks
begin

lemma dkeeps_add_missing: "poll_inv s \<Longrightarrow> sub_at n s \<Longrightarrow> dkeeps I s (gam_poll_generic_add_missing n s)"
  using dkeeps_lists(3) [of s n] sub_at_listable [of n s] by blast

lemma emit_one_druns:
  assumes "poll_inv s" "sub_linked s path' q"
  shows "druns I s (gam_server_emit_one_event path d e q f s)"
  using emit_one_runs [OF assms(2), of path d e f] dkeeps_quiet [OF emit_one_quiet assms(1)] by (auto simp: druns_def)

lemma node_add_runs:
  assumes nd: "pl_nodes s3 n = Some nd" "nd_path nd \<noteq> []" "hd (nd_path nd) = slash"
    and add: "gam_node_add_subscription n q s3 = Some s4" and s4: "poll_inv s4" "sub_at n s4"
  shows "\<exists>s5. node_add_subscription en kh (Some n) q s3 = Some (0, s5) \<and> dkeeps I s4 s5"
proof (cases "en_exclude en (nd_path nd) \<or> en_mon_type en (nd_path nd) = GFS_MT_POLL")
  case True
  have "druns I s4 (if nd_lasttime nd = 0 then map_option snd (gam_poll_dnotify_poll_file en kh n s4) else Some s4)"
    using druns_snd [OF dnotify_poll_file_runs [OF s4(1)]] sub_at_listable [OF s4(2)] dkeeps_refl [OF s4(1)]
    by (simp add: druns_Some)
  then obtain s2 where s2: "(if nd_lasttime nd = 0 then map_option snd (gam_poll_dnotify_poll_file en kh n s4) else Some s4) = Some s2"
      "dkeeps I s4 s2" by (auto simp: druns_def simp del: map_option_eq_Some split del: if_split)
  have "dkeeps I s4 (gam_poll_generic_add_missing n s2)"
    by (rule dkeeps_trans [OF s2(2) dkeeps_add_missing [OF dkeepsD(1) sub_at_keeps]]) (use s2(2) s4(2) in auto)
  then show ?thesis using nd add s2(1) True by (simp add: node_add_subscription_def)
next
  case False
  obtain nd4 where "pl_nodes s4 n = Some nd4" using s4(2) by (auto simp: sub_at_def)
  from trigger_runs [OF s4(1) this, of GAMIN_ACTIVATE "nd_path nd"]
  show ?thesis using nd add False by (auto simp: node_add_subscription_def druns_def)
qed

text \<open>What the new subscription is told, in both cases.\<close>

lemma first_report_runs:
  assumes ok: "dpoll_ok I s" and n: "sub_at n s" and q: "sub_linked s path q" and b: "gam_node_is_dir n s = Some b"
  shows "druns I s
     (if b then gam_poll_generic_first_scan_dir en (gam_poll_dnotify_poll_file en kh) q n path s
      else
        do { (event, s5) \<leftarrow> gam_poll_dnotify_poll_file en kh n s;
             let present = event = 0 \<or> event = GAMIN_EVENT_EXISTS \<or>
                           event = GAMIN_EVENT_CHANGED \<or> event = GAMIN_EVENT_CREATED
             in do { s6 \<leftarrow> gam_server_emit_one_event path b
                        (if present \<and> \<not> dir then GAMIN_EVENT_EXISTS else GAMIN_EVENT_DELETED) q False s5;
                     gam_server_emit_one_event path b GAMIN_EVENT_ENDEXISTS q False s6 } })"
proof (cases b)
  case True
  note inv = dpoll_okD [OF ok]
  have n': "pl_nodes s n \<noteq> None" using sub_at_listable [OF n] by blast
  have "\<exists>sp. sub_linked s sp q" using q by blast
  from dn_poll.first_scan_dir_runs [OF inv(1) n' this inv(2), of en en path]
  obtain s' where s': "gam_poll_generic_first_scan_dir en (gam_poll_dnotify_poll_file en kh) q n path s = Some s'"
      "poll_inv s'" "grows s s'" "flagged s' = {}" by (auto simp: runs_def)
  have "kept_at I n s s'" by (rule dn_first.step_first_scan [OF s'(1)])
  then have "dkeeps I s s'" using s'(4) inv(1,2) n by (simp add: kept_at_def dkeeps_def)
  then show ?thesis using True s'(1) by (simp add: druns_Some)
next
  case False
  have n': "pl_nodes s n \<noteq> None" using sub_at_listable [OF n] by blast
  have lk: "sub_linked s' path q" if "dkeeps I s s'" for s' using sub_linked_grows [OF dkeepsD(2) [OF that]] q by simp
  have "druns I s
        (do { (event, s5) \<leftarrow> gam_poll_dnotify_poll_file en kh n s;
             let present = event = 0 \<or> event = GAMIN_EVENT_EXISTS \<or>
                           event = GAMIN_EVENT_CHANGED \<or> event = GAMIN_EVENT_CREATED
             in do { s6 \<leftarrow> gam_server_emit_one_event path b
                        (if present \<and> \<not> dir then GAMIN_EVENT_EXISTS else GAMIN_EVENT_DELETED) q False s5;
                     gam_server_emit_one_event path b GAMIN_EVENT_ENDEXISTS q False s6 } })"
  proof (rule druns_bind2 [OF dnotify_poll_file_runs [OF dpoll_okD(1) [OF ok] n']], unfold prod.case Let_def)
    fix e s5 assume k5: "dkeeps I s s5"
    let ?e = "if (e = 0 \<or> e = GAMIN_EVENT_EXISTS \<or> e = GAMIN_EVENT_CHANGED \<or> e = GAMIN_EVENT_CREATED) \<and> \<not> dir
      then GAMIN_EVENT_EXISTS else GAMIN_EVENT_DELETED"
    show "druns I s5 (do { s6 \<leftarrow> gam_server_emit_one_event path b ?e q False s5;
                     gam_server_emit_one_event path b GAMIN_EVENT_ENDEXISTS q False s6 })"
    proof (rule druns_bind [OF emit_one_druns [OF dkeepsD(1) [OF k5] lk [OF k5]]])
      fix s6 assume "dkeeps I s5 s6"
      then have "dkeeps I s s6" by (rule dkeeps_trans [OF k5])
      then show "druns I s6 (gam_server_emit_one_event path b GAMIN_EVENT_ENDEXISTS q False s6)"
        using emit_one_druns [OF dkeepsD(1) lk] by blast
    qed
  qed
  then show ?thesis using False by simp
qed

lemma add_path_ok:
  assumes ok: "dpoll_ok I s" and path: "path \<noteq> []"
  shows "\<exists>n s'. gam_tree_add_at_path en path dir s = Some (Some n, s') \<and> dpoll_ok I s' \<and> grows s s' \<and> pl_nodes s' n \<noteq> None"
proof -
  obtain n s' where s': "gam_tree_add_at_path en path dir s = Some (Some n, s')" "poll_inv s'" "grows s s'" "pl_nodes s' n \<noteq> None"
    using add_at_path_spec [OF dpoll_okD(1) [OF ok] path, of en dir] by blast
  have "unmarked s s'" by (rule add_at_path_frame [OF s'(1)])
  then have "dpoll_ok I s'"
    using s'(2) dpoll_okD [OF ok] more_keeps [of s' s] by (auto simp: unmarked_def dpoll_ok_def poll_ok_def)
  then show ?thesis using s' by blast
qed

lemma scan_directory_runs:
  assumes ok: "dpoll_ok I s" and n: "pl_nodes s n \<noteq> None"
  shows "\<exists>s'. gam_poll_generic_scan_directory_internal en (gam_poll_dnotify_poll_file en kh) n s = Some s' \<and> dpoll_ok I s'"
  using internal_runs [OF dpoll_okD(1,2) [OF ok] n] dpoll_ok_keeps [OF _ ok] by (auto simp: druns_def)

text \<open>The node that is put on the list of polled nodes.\<close>

lemma polled_node:
  assumes ok: "dpoll_ok I s" and n: "pl_nodes s n \<noteq> None"
  obtains m s' where "(if b then Some (Some n, s)
     else let parent = g_path_get_dirname path
          in case gam_tree_get_at_path parent s of
               Some p \<Rightarrow> Some (Some p, s)
             | None \<Rightarrow> gam_tree_add_at_path en parent dir s) = Some (Some m, s')"
    "dpoll_ok I s'" "pl_nodes s' m \<noteq> None" "grows s s'"
proof (cases "b \<or> pl_hash s (g_path_get_dirname path) \<noteq> None")
  case True
  then show ?thesis
  proof (cases b)
    case True
    then show ?thesis using that [of n s] ok n by simp
  next
    case False
    then obtain p where p: "pl_hash s (g_path_get_dirname path) = Some p" using True by auto
    then have "pl_nodes s p \<noteq> None" using tree_hash(2) [OF poll_tree [OF dpoll_okD(1) [OF ok]] p] by auto
    then show ?thesis using that [of p s] ok p False by (simp add: gam_tree_get_at_path_def)
  qed
next
  case False
  have "g_path_get_dirname path \<noteq> []" by (simp add: g_path_get_dirname_def)
  then obtain m s' where s': "gam_tree_add_at_path en (g_path_get_dirname path) dir s = Some (Some m, s')" "dpoll_ok I s'"
      "grows s s'" "pl_nodes s' m \<noteq> None"
    using add_path_ok [OF ok] by blast
  then show ?thesis using that [of m s'] s' False by (simp add: gam_tree_get_at_path_def)
qed

lemma add_list_ok:
  assumes "dpoll_ok I s" "pl_nodes s m \<noteq> None"
  shows "dpoll_ok I (gam_poll_generic_add m s)"
  using assms dpoll_okD [OF assms(1)] lists_runs(4) [OF dpoll_okD(1) [OF assms(1)] assms(2)]
    more_keeps [of "gam_poll_generic_add m s" s]
  by (simp add: dpoll_ok_def poll_ok_def) (simp add: gam_poll_generic_add_def)

lemma dnotify_add_runs:
  assumes ok: "dpoll_ok I s" and add: "addable s q" and sub: "sv_subs s q = Some sub" "hd (sub_path sub) = slash"
  shows "\<exists>s' n. gam_poll_dnotify_add_subscription en kh q s = Some (True, s') \<and> dpoll_ok I s' \<and>
    gam_tree_get_at_path (sub_path sub) s' = Some n \<and> (\<exists>nd. pl_nodes s' n = Some nd \<and> q \<in> set (nd_subs nd))"
proof -
  have "poll_ok s" "sub_path sub \<noteq> []" using ok add sub(1) by (auto simp: dpoll_ok_def addable_def)
  obtain l s1 n s3 nd3 where l: "sub_listener sub = Some l" and s1: "gam_listener_add_subscription l q s = Some s1"
    and s3: "(case gam_tree_get_at_path (sub_path sub) s of
        Some n \<Rightarrow> Some (Some n, gam_poll_generic_update_time en s1)
      | None \<Rightarrow> gam_tree_add_at_path en (sub_path sub) (sub_is_dir sub) (gam_poll_generic_update_time en s1)) = Some (Some n, s3)"
      "pl_nodes s3 n = Some nd3" "nd_path nd3 = sub_path sub" "pl_hash s3 (sub_path sub) = Some n"
    and s4: "gam_node_add_subscription n q s3 = Some (upd_node n (\<lambda>nd. nd\<lparr>nd_subs := q # nd_subs nd\<rparr>) s3)"
      "poll_inv (upd_node n (\<lambda>nd. nd\<lparr>nd_subs := q # nd_subs nd\<rparr>) s3)"
      "flagged (upd_node n (\<lambda>nd. nd\<lparr>nd_subs := q # nd_subs nd\<rparr>) s3) = {}"
      "sub_linked (upd_node n (\<lambda>nd. nd\<lparr>nd_subs := q # nd_subs nd\<rparr>) s3) (sub_path sub) q"
    and old: "pl_missing s3 = pl_missing s" "pl_busy s3 = pl_busy s" "psrv.more s3 = psrv.more s"
    by (rule add_prepare [OF \<open>poll_ok s\<close> add sub(1), of en])
  let ?path = "sub_path sub"
  define s4 where "s4 = upd_node n (\<lambda>nd. nd\<lparr>nd_subs := q # nd_subs nd\<rparr>) s3"
  note s4 = s4 [folded s4_def]
  have "psrv.more s4 = psrv.more s" using old(3) by (simp add: s4_def lists_more)
  then have ok4: "dpoll_ok I s4"
    using s4(2,3) dpoll_okD [OF ok] old more_keeps [of s4 s] by (auto simp: dpoll_ok_def poll_ok_def s4_def)
  have at4: "sub_at n s4" using s3(2) by (simp add: sub_at_def s4_def)
  have q4: "\<exists>nd. pl_nodes s4 n = Some nd \<and> nd_subs nd = q # nd_subs nd3" using s3(2) by (simp add: s4_def)
  obtain s5 where s5: "node_add_subscription en kh (Some n) q s3 = Some (0, s5)" "dkeeps I s4 s5"
    using node_add_runs [OF s3(2) _ _ s4(1,2) at4, of en] s3(3) sub(2) \<open>?path \<noteq> []\<close> by auto
  have ok5: "dpoll_ok I s5" by (rule dpoll_ok_keeps [OF s5(2) ok4])
  have at5: "sub_at n s5" by (rule sub_at_keeps [OF s5(2) at4])
  have lk5: "sub_linked s5 ?path q" using sub_linked_grows [OF dkeepsD(2) [OF s5(2)]] s4(4) by simp
  obtain b where b: "gam_node_is_dir n s5 = Some b" using at5 by (auto simp: sub_at_def gam_node_is_dir_def)
  note rep = first_report_runs [OF ok5 at5 lk5 b, of en "sub_is_dir sub"]
  let ?rep = "if b then gam_poll_generic_first_scan_dir en (gam_poll_dnotify_poll_file en kh) q n ?path s5
      else
        do { (event, s5) \<leftarrow> gam_poll_dnotify_poll_file en kh n s5;
             let present = event = 0 \<or> event = GAMIN_EVENT_EXISTS \<or>
                           event = GAMIN_EVENT_CHANGED \<or> event = GAMIN_EVENT_CREATED
             in do { s6 \<leftarrow> gam_server_emit_one_event ?path b
                        (if present \<and> \<not> sub_is_dir sub then GAMIN_EVENT_EXISTS else GAMIN_EVENT_DELETED) q False s5;
                     gam_server_emit_one_event ?path b GAMIN_EVENT_ENDEXISTS q False s6 } }"
  obtain s6 where s6: "?rep = Some s6" "dkeeps I s5 s6" using rep unfolding druns_def by blast
  have ok6: "dpoll_ok I s6" by (rule dpoll_ok_keeps [OF s6(2) ok5])
  have at6: "sub_at n s6" by (rule sub_at_keeps [OF s6(2) at5])
  obtain m k where mk: "gam_node_has_pflag n MON_MISSING s6 = Some m" "gam_node_has_pflag n MON_NOKERNEL s6 = Some k"
    using at6 by (auto simp: sub_at_def gam_node_has_pflag_def)
  define s7 where "s7 = (if m \<or> k then gam_poll_generic_add_missing n s6 else s6)"
  have k7: "dkeeps I s6 s7"
    using dkeeps_add_missing [OF dpoll_okD(1) [OF ok6] at6] dkeeps_refl [OF dpoll_okD(1) [OF ok6]] by (simp add: s7_def)
  have ok7: "dpoll_ok I s7" by (rule dpoll_ok_keeps [OF k7 ok6])
  have at7: "sub_at n s7" by (rule sub_at_keeps [OF k7 at6])
  then have n7: "pl_nodes s7 n \<noteq> None" using sub_at_listable by blast
  obtain r s8 where s8: "(if b then Some (Some n, s7)
     else let parent = g_path_get_dirname ?path
          in case gam_tree_get_at_path parent s7 of
               Some p \<Rightarrow> Some (Some p, s7)
             | None \<Rightarrow> gam_tree_add_at_path en parent (sub_is_dir sub) s7) = Some (Some r, s8)"
    "dpoll_ok I s8" "pl_nodes s8 r \<noteq> None" "grows s7 s8" by (rule polled_node [OF ok7 n7])
  let ?s9 = "gam_poll_generic_add r s8"
  have run: "gam_poll_dnotify_add_subscription en kh q s = Some (True, ?s9)"
    unfolding gam_poll_dnotify_add_subscription_def sub(1) Option.bind.bind_lunit Let_def l s1 s3(1) prod.case s5(1)
      b s6(1) [unfolded Let_def] mk s7_def [symmetric] s8(1) [unfolded Let_def] by simp
  have g: "grows s4 ?s9"
    using dkeepsD(2) [OF s5(2)] dkeepsD(2) [OF s6(2)] dkeepsD(2) [OF k7] s8(4) lists_grows(4) by (meson grows_trans)
  have "pl_hash s4 ?path = Some n" using s3(4) by (simp add: s4_def)
  from grows_hash [OF g this] have "gam_tree_get_at_path ?path ?s9 = Some n" by (simp add: gam_tree_get_at_path_def)
  moreover have "\<exists>nd. pl_nodes ?s9 n = Some nd \<and> q \<in> set (nd_subs nd)"
    using q4 grows_node [OF g] by (metis list.set_intros(1))
  ultimately show ?thesis using run add_list_ok [OF s8(2,3)] by blast
qed

end

section \<open>Removing a subscription\<close>

text \<open>The subscription is on the node of its path.\<close>

definition on_node :: "'x psrv_scheme \<Rightarrow> cptr \<Rightarrow> bool" where
  "on_node s q \<longleftrightarrow> (\<exists>sub n nd. sv_subs s q = Some sub \<and> sub_path sub \<noteq> [] \<and> hd (sub_path sub) = slash \<and>
     pl_hash s (sub_path sub) = Some n \<and> pl_nodes s n = Some nd \<and> q \<in> set (nd_subs nd))"

lemma re_add:
  assumes "pl_nodes s n = Some nd" "q \<notin> set (nd_subs nd)"
  shows "gam_node_remove_subscription n q (upd_node n (\<lambda>nd. nd\<lparr>nd_subs := q # nd_subs nd\<rparr>) s) = Some s"
  using assms by (simp add: gam_node_remove_subscription_def upd_node_twice) (simp add: upd_node_def fun_upd_idem)

text \<open>What comes after the node has lost the subscription is as in the basic back end.\<close>

lemma remove_tail:
  assumes "node_remove_subscription en kh n q s = Some (rc, s2)" "gam_node_remove_subscription n q t = Some s2"
  shows "dnotify_remove_dir_sub en kh n q s = remove_dir_sub n q t"
    "pl_nodes s2 n = Some nd \<Longrightarrow> nd_children nd = [] \<or> nd_subs nd \<noteq> [] \<Longrightarrow>
      dnotify_remove_file_sub en kh n q s = remove_file_sub n q t"
    "pl_nodes s2 n = Some nd \<Longrightarrow> nd_children nd \<noteq> [] \<Longrightarrow> nd_subs nd = [] \<Longrightarrow>
      dnotify_remove_file_sub en kh n q s = Some (gam_poll_generic_unregister_node n s2)"
  using assms
  by (auto simp: dnotify_remove_dir_sub_def remove_dir_sub_def dnotify_remove_directory_subscription_def
      node_remove_directory_subscription_def dnotify_remove_file_sub_def remove_file_sub_def
      gam_node_get_subscriptions_def gam_tree_has_children_def gam_node_parent_def)

context kernel_hooks
begin

lemma deactivate_more:
  assumes inv: "poll_inv s" and nd: "pl_nodes s n = Some nd"
  shows "\<exists>s'. gam_poll_generic_trigger_handler kh path GAMIN_DEACTIVATE n s = Some s' \<and> only_more s s' \<and> (I s \<longrightarrow> I s')"
proof (cases "nd_parent nd")
  case None
  then show ?thesis
    using nd dir_more file_more dir_keeps file_keeps
    by (auto simp: gam_poll_generic_trigger_handler_def gam_poll_generic_trigger_dir_handler_def
        gam_poll_generic_trigger_file_handler_def)
next
  case (Some p)
  then obtain pd where "pl_nodes s p = Some pd"
    using tree_below(2) [OF poll_tree [OF inv] nd] tree_parent_None [OF poll_tree [OF inv] nd] by auto
  then show ?thesis
    using nd Some dir_more file_more dir_keeps file_keeps
    by (auto simp: gam_poll_generic_trigger_handler_def gam_poll_generic_trigger_dir_handler_def
        gam_poll_generic_trigger_file_handler_def gam_node_has_pflag_def)
qed

lemma node_remove_runs:
  assumes nd: "pl_nodes s n = Some nd" "nd_path nd \<noteq> []" "hd (nd_path nd) = slash"
    and rem: "gam_node_remove_subscription n q s = Some s1" and inv: "poll_inv s1" and nd1: "pl_nodes s1 n \<noteq> None"
  shows "\<exists>s2. node_remove_subscription en kh n q s = Some (0, s2) \<and> only_more s1 s2 \<and> (I s1 \<longrightarrow> I s2)"
proof -
  obtain nd1 where nd1: "pl_nodes s1 n = Some nd1" using nd1 by auto
  then obtain fl where fl: "gam_node_has_pflags n MON_ALL_PFLAGS s1 = Some fl" by (simp add: gam_node_has_pflags_def)
  show ?thesis
    using nd rem fl deactivate_more [OF inv nd1, of "nd_path nd"]
    by (auto simp: node_remove_subscription_def)
qed

lemma dnotify_remove_runs:
  assumes ok: "dpoll_ok I s" and q: "on_node s q"
  shows "\<exists>s'. gam_poll_dnotify_remove_subscription en kh q s = Some (True, s') \<and> dpoll_ok I s' \<and> drops q s s' \<and>
    sv_subs s' = (sv_subs s)(q := None)"
proof -
  obtain sub n nd where sub: "sv_subs s q = Some sub" "sub_path sub \<noteq> []" "hd (sub_path sub) = slash"
      "pl_hash s (sub_path sub) = Some n" "pl_nodes s n = Some nd" "q \<in> set (nd_subs nd)"
    using q by (auto simp: on_node_def)
  note inv = dpoll_okD [OF ok]
  let ?s0 = "s\<lparr>sv_subs := (sv_subs s)(q \<mapsto> gam_subscription_cancel sub)\<rparr>"
  define s1 where "s1 = upd_node n (\<lambda>nd. nd\<lparr>nd_subs := removeAll q (nd_subs nd)\<rparr>) ?s0"
  note u = unsubscribe [OF inv(1) sub(1,5,6), folded s1_def]
  have path: "nd_path nd = sub_path sub" "n \<noteq> pl_root s" using tree_hash [OF poll_tree [OF inv(1)] sub(4)] sub(5) by auto
  have n1: "pl_nodes s1 n = Some (nd\<lparr>nd_subs := removeAll q (nd_subs nd)\<rparr>)" "n \<noteq> pl_root s1"
    using sub(5) path(2) by (simp_all add: s1_def)
  have more1: "psrv.more s1 = psrv.more s" "pl_busy s1 = pl_busy s"
      "sv_subs s1 = (sv_subs s)(q \<mapsto> gam_subscription_cancel sub)"
    by (simp_all add: s1_def lists_more)
  have n0: "pl_nodes ?s0 n = Some nd" "nd_path nd \<noteq> []" "hd (nd_path nd) = slash" using sub path by simp_all
  obtain s2 where s2: "node_remove_subscription en kh n q ?s0 = Some (0, s2)" "only_more s1 s2" "I s1 \<longrightarrow> I s2"
    using node_remove_runs [OF n0 u(1,2)] n1(1) by blast
  note m2 = only_more_simps [OF s2(2)]
  have i2: "poll_inv s2" "flagged s2 = flagged s1" using only_more_runs [OF s2(2) u(2)] by simp_all
  let ?nd = "nd\<lparr>nd_subs := removeAll q (nd_subs nd)\<rparr>"
  have n2: "pl_nodes s2 n = Some ?nd" "n \<noteq> pl_root s2" using n1 m2 by simp_all
  let ?t = "upd_node n (\<lambda>nd. nd\<lparr>nd_subs := q # nd_subs nd\<rparr>) s2"
  have t: "gam_node_remove_subscription n q ?t = Some s2" by (rule re_add [OF n2(1)]) simp
  note tail = remove_tail [OF s2(1) t]
  obtain s4 where s4: "(if \<not> nd_is_dir nd then dnotify_remove_file_sub en kh n q ?s0 else dnotify_remove_dir_sub en kh n q ?s0) = Some s4"
      "poll_inv s4" "shrinks s2 s4"
  proof (cases "nd_is_dir nd")
    case True
    then show ?thesis using that remove_dir_runs [OF i2(1) t n2] tail(1) by auto
  next
    case False
    show ?thesis
    proof (cases "nd_children ?nd = [] \<or> nd_subs ?nd \<noteq> []")
      case leaf: True
      show ?thesis
        using that remove_file_runs [OF i2(1) t n2 leaf] tail(2) [OF n2(1) leaf] False by auto
    next
      case kids: False
      show ?thesis
        using that [of "gam_poll_generic_unregister_node n s2"] tail(3) [OF n2(1)] kids False
          unregister_inv [OF i2(1)] unregister_shrinks [OF n2(1)] by auto
    qed
  qed
  have "drops q s s2" by (rule drops_same [OF u(3)]) (use m2 in simp_all)
  then have d: "drops q s s4" by (rule drops_shrinks [OF _ s4(3)])
  let ?s5 = "s4\<lparr>sv_subs := (sv_subs s4)(q := None)\<rparr>"
  have "poll_inv ?s5" using d by (intro free_inv [OF s4(2)]) (auto simp: drops_def)
  moreover have "flagged s4 = {}" "distinct (pl_missing s4)" "distinct (pl_busy s4)" "psrv.more s4 = psrv.more s2"
    using shrinks_flagged [OF s4(3)] s4(3) u(4,5) i2(2) inv(2,3,4) m2 more1(2) by (simp_all add: shrinks_def)
  moreover have "I s4"
    using more_keeps [OF more1(1) inv(5)] s2(3) more_keeps [OF \<open>psrv.more s4 = psrv.more s2\<close>] by blast
  ultimately have ok5: "dpoll_ok I ?s5"
    using more_keeps [of ?s5 s4] by (simp add: dpoll_ok_def poll_ok_def flagged_def)
  have srv: "sv_subs s4 = (sv_subs s)(q \<mapsto> gam_subscription_cancel sub)" using s4(3) m2 more1(3) by (simp add: shrinks_def)
  have "gam_poll_dnotify_remove_subscription en kh q s = Some (True, ?s5)"
    using sub s4(1) srv
    by (auto simp: gam_poll_dnotify_remove_subscription_def gam_poll_dnotify_remove_subscription_real_def
        gam_tree_get_at_path_def gam_node_is_dir_def gam_subscription_free_def gam_subscription_cancel_def split: if_splits)
  moreover have "drops q s ?s5" by (rule drops_same [OF d]) simp_all
  ultimately show ?thesis using ok5 srv by auto
qed

end

end
