(* ===== verification/Gam_Dnotify_Props.thy ===== *)
theory Gam_Dnotify_Props
  imports Gam_Dnotify_Ops Gam_Poll_Props
begin

unbundle bit_operations_syntax

text \<open>
  The directories that are open for dnotify: an invariant of the two tables and of the calls made to the kernel,
  and the tables as counters. With it the dnotify back end as a whole, over all runs of its operations.
\<close>

section \<open>The calls\<close>

text \<open>The descriptors that are open after some calls. It has no value when a descriptor is used or closed that is
  not open, or when \<^verbatim>\<open>open\<close> gives one that is; \<^verbatim>\<open>close (-1)\<close> does nothing.\<close>

fun dcall_step :: "dcall \<Rightarrow> int set \<Rightarrow> int set option" where
  "dcall_step (D_OPEN p fd) S = (if fd < 0 then Some S else if fd \<in> S then None else Some (insert fd S))"
| "dcall_step (D_NOTIFY fd) S = (if fd \<in> S then Some S else None)"
| "dcall_step (D_CLOSE fd) S = (if fd = -1 then Some S else if fd \<in> S then Some (S - {fd}) else None)"

fun fds_after :: "dcall list \<Rightarrow> int set \<Rightarrow> int set option" where
  "fds_after [] S = Some S"
| "fds_after (c # cs) S = do { S1 \<leftarrow> dcall_step c S; fds_after cs S1 }"

lemma fds_after_append: "fds_after (xs @ ys) S = do { S1 \<leftarrow> fds_after xs S; fds_after ys S1 }"
  by (induction xs arbitrary: S) (auto split: Option.bind_splits)

text \<open>\<^verbatim>\<open>open\<close> never answers with a descriptor that is open.\<close>

definition good_open :: "'e denv_scheme \<Rightarrow> bool" where
  "good_open en \<longleftrightarrow> (\<forall>cs S p. fds_after cs {} = Some S \<longrightarrow> de_open en cs p \<notin> S)"

section \<open>The invariant\<close>

definition data_ok :: "string \<Rightarrow> DNotifyData \<Rightarrow> bool" where
  "data_ok p data \<longleftrightarrow> dd_path data = p \<and> 1 \<le> dd_refcount data \<and> 0 \<le> dd_busy data \<and> -1 \<le> dd_fd data \<and>
     (0 < dd_busy data \<longrightarrow> dd_fd data = -1)"

definition dn_inv :: "'b dsrv_scheme \<Rightarrow> bool" where
  "dn_inv s \<longleftrightarrow>
     (\<forall>p data. dn_path_hash s p = Some data \<longrightarrow> data_ok p data) \<and>
     (\<forall>fd p. dn_fd_hash s fd = Some p \<longleftrightarrow> 0 \<le> fd \<and> (\<exists>data. dn_path_hash s p = Some data \<and> dd_fd data = fd)) \<and>
     fds_after (dn_calls s) {} = Some (dom (dn_fd_hash s))"

lemma dn_invD:
  assumes "dn_inv s"
  shows "\<And>p data. dn_path_hash s p = Some data \<Longrightarrow> data_ok p data"
    "\<And>fd p. dn_fd_hash s fd = Some p \<longleftrightarrow> 0 \<le> fd \<and> (\<exists>data. dn_path_hash s p = Some data \<and> dd_fd data = fd)"
    "fds_after (dn_calls s) {} = Some (dom (dn_fd_hash s))"
  using assms unfolding dn_inv_def by blast+

text \<open>The tables as counters: how often a directory was asked for, how often flow control was, and whether the
  kernel watches it.\<close>

definition watches :: "'b dsrv_scheme \<Rightarrow> string \<rightharpoonup> int \<times> int \<times> bool" where
  "watches s p = map_option (\<lambda>d. (dd_refcount d, dd_busy d, 0 \<le> dd_fd d)) (dn_path_hash s p)"

fun watch_step :: "pollHandlerMode \<Rightarrow> bool \<Rightarrow> (int \<times> int \<times> bool) option \<Rightarrow> (int \<times> int \<times> bool) option" where
  "watch_step GAMIN_ACTIVATE ok None = (if ok then Some (1, 0, True) else None)"
| "watch_step GAMIN_ACTIVATE ok (Some (r, b, l)) = Some (r + 1, b, l)"
| "watch_step GAMIN_DEACTIVATE ok (Some (r, b, l)) = (if r = 1 then None else Some (r - 1, b, l))"
| "watch_step GAMIN_FLOWCONTROLSTART ok (Some (r, b, l)) = Some (r, b + 1, False)"
| "watch_step GAMIN_FLOWCONTROLSTOP ok (Some (r, b, l)) =
     (if b = 0 then Some (r, b, l) else if b = 1 then Some (r, 0, ok) else Some (r, b - 1, l))"
| "watch_step m ok None = None"

text \<open>An update of one object and of the descriptor it has.\<close>

lemma dn_inv_update:
  assumes inv: "dn_inv s" and old: "dn_path_hash s p = Some data" and ok: "data_ok p data'"
    and ph: "dn_path_hash s' = (dn_path_hash s)(p \<mapsto> data')"
    and fh: "dn_fd_hash s' = (let h = (dn_fd_hash s)(dd_fd data := None) in
       if 0 \<le> dd_fd data' then h(dd_fd data' \<mapsto> p) else h)"
    and new: "dd_fd data' = dd_fd data \<or> dd_fd data' \<notin> dom (dn_fd_hash s)"
    and calls: "fds_after (dn_calls s') {} = Some (dom (dn_fd_hash s'))"
  shows "dn_inv s'"
proof -
  have f: "dn_fd_hash s fd = Some q \<longleftrightarrow> 0 \<le> fd \<and> (\<exists>data. dn_path_hash s q = Some data \<and> dd_fd data = fd)" for fd q
    by (rule dn_invD(2) [OF inv])
  have own: "dn_fd_hash s (dd_fd data) = Some p" if "0 \<le> dd_fd data" using f old that by blast
  have "dn_fd_hash s' fd = Some q \<longleftrightarrow> 0 \<le> fd \<and> (\<exists>d. dn_path_hash s' q = Some d \<and> dd_fd d = fd)" for fd q
  proof (cases "q = p")
    case True
    then show ?thesis using f [of fd p] old unfolding ph fh by (auto simp: Let_def)
  next
    case False
    have "fd \<noteq> dd_fd data" if "dn_fd_hash s fd = Some q" using that own f [of fd q] False by auto
    moreover have "fd \<noteq> dd_fd data'" if "dn_fd_hash s fd = Some q" "fd \<noteq> dd_fd data" using that new by auto
    ultimately show ?thesis using f [of fd q] False unfolding ph fh by (auto simp: Let_def)
  qed
  then show ?thesis using dn_invD(1) [OF inv] ok calls unfolding dn_inv_def ph by auto
qed

lemma own_fd:
  assumes "dn_inv s" "dn_path_hash s p = Some data"
  shows "dn_fd_hash s (dd_fd data) = (if 0 \<le> dd_fd data then Some p else None)"
proof (cases "dn_fd_hash s (dd_fd data)")
  case None
  then show ?thesis using dn_invD(2) [OF assms(1), of "dd_fd data" p] assms(2) by auto
next
  case (Some q)
  then have "0 \<le> dd_fd data" using dn_invD(2) [OF assms(1)] by blast
  then show ?thesis using dn_invD(2) [OF assms(1), of "dd_fd data" p] assms(2) by auto
qed

lemma dn_inv_keep_fd:
  assumes inv: "dn_inv s" and old: "dn_path_hash s p = Some data" and ok: "data_ok p (f data)" and fd: "dd_fd (f data) = dd_fd data"
  shows "dn_inv (upd_data p f s)"
proof (rule dn_inv_update [OF inv old ok])
  show "dn_fd_hash (upd_data p f s) = (let h = (dn_fd_hash s)(dd_fd data := None) in
      if 0 \<le> dd_fd (f data) then h(dd_fd (f data) \<mapsto> p) else h)"
    using own_fd [OF inv old] by (auto simp: upd_data_def fd fun_eq_iff Let_def)
qed (use old fd dn_invD(3) [OF inv] in \<open>simp_all add: upd_data_def\<close>)

lemma watches_upd:
  "watches (upd_data p f s) =
     (watches s)(p := map_option (\<lambda>d. (dd_refcount (f d), dd_busy (f d), 0 \<le> dd_fd (f d))) (dn_path_hash s p))"
  by (simp add: watches_def upd_data_def fun_eq_iff option.map_comp comp_def)

lemma activate_ok:
  assumes inv: "dn_inv s" and op: "good_open en"
  shows "dn_inv (dn_activate en p s) \<and>
    watches (dn_activate en p s) = (watches s)(p := watch_step GAMIN_ACTIVATE (0 \<le> de_open en (dn_calls s) p) (watches s p))"
proof (cases "dn_path_hash s p")
  case (Some data)
  have ok: "data_ok p data" using dn_invD(1) [OF inv Some] .
  then have "dn_inv (upd_data p (\<lambda>data. data\<lparr>dd_refcount := dd_refcount data + 1\<rparr>) s)"
    by (intro dn_inv_keep_fd [OF inv Some]) (simp_all add: data_ok_def)
  then show ?thesis using Some by (simp add: dn_activate_def watches_upd watches_def)
next
  case None
  define fd where "fd = de_open en (dn_calls s) p"
  have new: "fd \<notin> dom (dn_fd_hash s)" using op dn_invD(3) [OF inv] unfolding good_open_def fd_def by blast
  let ?s' = "dn_activate en p s"
  show ?thesis
  proof (cases "fd < 0")
    case True
    then have "?s' = s\<lparr>dn_calls := dn_calls s @ [D_OPEN p fd]\<rparr>"
      using None by (simp add: dn_activate_def dn_open_def fd_def)
    then show ?thesis
      using inv True None unfolding dn_inv_def by (simp add: watches_def fds_after_append fd_def fun_eq_iff)
  next
    case False
    then have s': "?s' = s\<lparr>dn_calls := dn_calls s @ [D_OPEN p fd, D_NOTIFY fd], dn_fd_hash := (dn_fd_hash s)(fd \<mapsto> p),
        dn_path_hash := (dn_path_hash s)(p \<mapsto> gam_dnotify_data_new p fd)\<rparr>"
      using None by (simp add: dn_activate_def dn_open_def dn_notify_def fd_def)
    have f: "dn_fd_hash s g = Some q \<longleftrightarrow> 0 \<le> g \<and> (\<exists>data. dn_path_hash s q = Some data \<and> dd_fd data = g)" for g q
      by (rule dn_invD(2) [OF inv])
    have "dn_fd_hash ?s' g = Some q \<longleftrightarrow> 0 \<le> g \<and> (\<exists>data. dn_path_hash ?s' q = Some data \<and> dd_fd data = g)" for g q
      using f [of g q] None new False by (auto simp: s' gam_dnotify_data_new_def)
    moreover have "data_ok q data" if "dn_path_hash ?s' q = Some data" for q data
      using that dn_invD(1) [OF inv] False by (auto simp: s' gam_dnotify_data_new_def data_ok_def split: if_splits)
    moreover have "fds_after (dn_calls ?s') {} = Some (dom (dn_fd_hash ?s'))"
      using dn_invD(3) [OF inv] new False by (simp add: s' fds_after_append)
    ultimately have "dn_inv ?s'" unfolding dn_inv_def by blast
    then show ?thesis
      using None False by (simp add: s' watches_def gam_dnotify_data_new_def fun_eq_iff fd_def [symmetric])
  qed
qed

lemma deactivate_ok:
  assumes inv: "dn_inv s"
  shows "dn_inv (dn_deactivate p s) \<and> watches (dn_deactivate p s) = (watches s)(p := watch_step GAMIN_DEACTIVATE ok (watches s p))"
proof (cases "dn_path_hash s p")
  case None
  then show ?thesis using inv by (simp add: dn_deactivate_def watches_def fun_eq_iff)
next
  case (Some data)
  have ok: "data_ok p data" using dn_invD(1) [OF inv Some] .
  show ?thesis
  proof (cases "dd_refcount data = 1")
    case False
    then have "dn_inv (upd_data p (\<lambda>data. data\<lparr>dd_refcount := dd_refcount data - 1\<rparr>) s)"
      using ok by (intro dn_inv_keep_fd [OF inv Some]) (simp_all add: data_ok_def)
    then show ?thesis using Some False by (simp add: dn_deactivate_def watches_upd watches_def)
  next
    case True
    let ?s' = "dn_deactivate p s"
    have s': "?s' = s\<lparr>dn_calls := dn_calls s @ [D_CLOSE (dd_fd data)], dn_path_hash := (dn_path_hash s)(p := None),
        dn_fd_hash := (dn_fd_hash s)(dd_fd data := None)\<rparr>"
      using Some True ok by (simp add: dn_deactivate_def dn_close_def data_ok_def)
    have "dn_fd_hash ?s' g = Some q \<longleftrightarrow> 0 \<le> g \<and> (\<exists>data. dn_path_hash ?s' q = Some data \<and> dd_fd data = g)" for g q
      using dn_invD(2) [OF inv, of g q] own_fd [OF inv Some] Some by (auto simp: s')
    moreover have "fds_after (dn_calls ?s') {} = Some (dom (dn_fd_hash ?s'))"
      using dn_invD(3) [OF inv] own_fd [OF inv Some] ok
      by (cases "0 \<le> dd_fd data") (auto simp: s' fds_after_append data_ok_def)
    ultimately have "dn_inv ?s'" using dn_invD(1) [OF inv] unfolding dn_inv_def by (auto simp: s' split: if_splits)
    then show ?thesis using Some True by (simp add: s' watches_def fun_eq_iff)
  qed
qed

lemma flow_start_ok:
  assumes inv: "dn_inv s"
  shows "dn_inv (dn_flow_start p s) \<and>
    watches (dn_flow_start p s) = (watches s)(p := watch_step GAMIN_FLOWCONTROLSTART ok (watches s p))"
proof (cases "dn_path_hash s p")
  case None
  then show ?thesis using inv by (simp add: dn_flow_start_def watches_def fun_eq_iff)
next
  case (Some data)
  have ok: "data_ok p data" using dn_invD(1) [OF inv Some] .
  show ?thesis
  proof (cases "0 \<le> dd_fd data")
    case False
    then have "dn_inv (upd_data p (\<lambda>data. data\<lparr>dd_busy := dd_busy data + 1\<rparr>) s)"
      using ok by (intro dn_inv_keep_fd [OF inv Some]) (simp_all add: data_ok_def)
    then show ?thesis using Some False by (simp add: dn_flow_start_def watches_upd watches_def)
  next
    case True
    let ?s' = "dn_flow_start p s"
    let ?data = "data\<lparr>dd_fd := -1, dd_busy := dd_busy data + 1\<rparr>"
    have s': "?s' = s\<lparr>dn_calls := dn_calls s @ [D_CLOSE (dd_fd data)], dn_path_hash := (dn_path_hash s)(p \<mapsto> ?data),
        dn_fd_hash := (dn_fd_hash s)(dd_fd data := None)\<rparr>"
      using Some True by (simp add: dn_flow_start_def dn_close_def upd_data_def)
    have "dn_inv ?s'"
    proof (rule dn_inv_update [OF inv Some, of ?data])
      show "fds_after (dn_calls ?s') {} = Some (dom (dn_fd_hash ?s'))"
        using dn_invD(3) [OF inv] own_fd [OF inv Some] True by (auto simp: s' fds_after_append)
      show "dd_fd ?data = dd_fd data \<or> dd_fd ?data \<notin> dom (dn_fd_hash s)"
        using dn_invD(2) [OF inv] by auto
    qed (use ok in \<open>simp_all add: s' data_ok_def\<close>)
    then show ?thesis using Some by (simp add: s' watches_def fun_eq_iff)
  qed
qed

lemma flow_stop_ok:
  assumes inv: "dn_inv s" and op: "good_open en"
  shows "dn_inv (dn_flow_stop en p s) \<and> watches (dn_flow_stop en p s) =
    (watches s)(p := watch_step GAMIN_FLOWCONTROLSTOP (0 \<le> de_open en (dn_calls s) p) (watches s p))"
proof (cases "dn_path_hash s p")
  case None
  then show ?thesis using inv by (simp add: dn_flow_stop_def watches_def fun_eq_iff)
next
  case (Some data)
  have ok: "data_ok p data" using dn_invD(1) [OF inv Some] .
  let ?f = "\<lambda>data. data\<lparr>dd_busy := dd_busy data - 1\<rparr>"
  have dec: "dn_inv (upd_data p ?f s)" if "0 < dd_busy data"
    using ok that by (intro dn_inv_keep_fd [OF inv Some]) (simp_all add: data_ok_def)
  consider (idle) "dd_busy data = 0" | (more) "1 < dd_busy data" | (one) "dd_busy data = 1"
    using ok unfolding data_ok_def by fastforce
  then show ?thesis
  proof cases
    case idle
    then show ?thesis using Some inv by (simp add: dn_flow_stop_def watches_def fun_eq_iff)
  next
    case more
    then show ?thesis using Some dec by (simp add: dn_flow_stop_def watches_upd watches_def)
  next
    case one
    define fd where "fd = de_open en (dn_calls s) p"
    have p: "dd_path data = p" "dd_fd data = -1" using ok one by (simp_all add: data_ok_def)
    have new: "fd \<notin> dom (dn_fd_hash s)" using op dn_invD(3) [OF inv] unfolding good_open_def fd_def by blast
    let ?s' = "dn_flow_stop en p s"
    show ?thesis
    proof (cases "fd < 0")
      case True
      have s': "?s' = (upd_data p ?f s)\<lparr>dn_calls := dn_calls s @ [D_OPEN p fd]\<rparr>"
        using Some one p True by (simp add: dn_flow_stop_def dn_open_def upd_data_def fd_def)
      have "dn_inv ?s'" using dec one True unfolding s' dn_inv_def by (simp add: upd_data_def fds_after_append)
      moreover have "watches ?s' = watches (upd_data p ?f s)" unfolding s' by (simp add: watches_def fun_eq_iff)
      ultimately show ?thesis
        using Some one p True by (simp add: watches_upd fd_def [symmetric], simp add: watches_def)
    next
      case False
      let ?data = "data\<lparr>dd_busy := 0, dd_fd := fd\<rparr>"
      have s': "?s' = s\<lparr>dn_calls := dn_calls s @ [D_OPEN p fd, D_NOTIFY fd], dn_path_hash := (dn_path_hash s)(p \<mapsto> ?data),
          dn_fd_hash := (dn_fd_hash s)(fd \<mapsto> p)\<rparr>"
        using Some one p False by (simp add: dn_flow_stop_def dn_open_def dn_notify_def upd_data_def fd_def)
      have "dn_inv ?s'"
      proof (rule dn_inv_update [OF inv Some, of ?data])
        show "dn_fd_hash ?s' = (let h = (dn_fd_hash s)(dd_fd data := None) in
            if 0 \<le> dd_fd ?data then h(dd_fd ?data \<mapsto> p) else h)"
          using own_fd [OF inv Some] p False by (auto simp: s' fun_eq_iff Let_def)
        show "fds_after (dn_calls ?s') {} = Some (dom (dn_fd_hash ?s'))"
          using dn_invD(3) [OF inv] new False by (simp add: s' fds_after_append)
      qed (use ok new False in \<open>simp_all add: s' data_ok_def\<close>)
      then show ?thesis using Some one False by (simp add: s' watches_def fun_eq_iff fd_def [symmetric])
    qed
  qed
qed

lemma handler_ok:
  assumes "dn_inv s" "good_open en"
  shows "dn_inv (gam_dnotify_directory_handler_internal en p m s) \<and>
    watches (gam_dnotify_directory_handler_internal en p m s) =
      (watches s)(p := watch_step m (0 \<le> de_open en (dn_calls s) p) (watches s p))"
  using activate_ok [OF assms] deactivate_ok [OF assms(1)] flow_start_ok [OF assms(1)] flow_stop_ok [OF assms]
  by (cases m) auto

section \<open>Sequences of requests\<close>

fun handle_all :: "'e denv_scheme \<Rightarrow> (string \<times> pollHandlerMode) list \<Rightarrow> 'b dsrv_scheme \<Rightarrow> 'b dsrv_scheme" where
  "handle_all en [] s = s"
| "handle_all en ((p, m) # cs) s = handle_all en cs (gam_dnotify_directory_handler_internal en p m s)"

text \<open>Whether \<^verbatim>\<open>open\<close> would succeed on the directory of each request.\<close>

fun opens :: "'e denv_scheme \<Rightarrow> (string \<times> pollHandlerMode) list \<Rightarrow> 'b dsrv_scheme \<Rightarrow> bool list" where
  "opens en [] s = []"
| "opens en ((p, m) # cs) s =
     (0 \<le> de_open en (dn_calls s) p) # opens en cs (gam_dnotify_directory_handler_internal en p m s)"

fun count_all :: "((string \<times> pollHandlerMode) \<times> bool) list \<Rightarrow> (string \<rightharpoonup> int \<times> int \<times> bool) \<Rightarrow> string \<rightharpoonup> int \<times> int \<times> bool" where
  "count_all [] w = w"
| "count_all (((p, m), ok) # cs) w = count_all cs (w(p := watch_step m ok (w p)))"

definition fresh_fd :: "dcall list \<Rightarrow> int" where
  "fresh_fd cs = 3 + sum_list (map (\<lambda>c. case c of D_OPEN p fd \<Rightarrow> max 0 fd | _ \<Rightarrow> 0) cs)"

definition demo_denv :: denv where
  "demo_denv = \<lparr>en_stat = (\<lambda>p. STAT_NOENT), en_readdir = (\<lambda>p. None), en_time = 1, en_poll_timeout = (\<lambda>p. 0),
     en_mon_type = (\<lambda>p. GFS_MT_KERNEL), en_exclude = (\<lambda>p. False),
     de_open = (\<lambda>cs p. if p = ''/d'' then fresh_fd cs else -1)\<rparr>"

definition demo_dn :: "psrv \<Rightarrow> dsrv" where
  "demo_dn s = psrv.extend s \<lparr>dn_path_hash = Map.empty, dn_fd_hash = Map.empty, dn_changes = [], dn_calls = []\<rparr>"

lemma demo_dn_inv: "dn_inv (demo_dn s)"
  by (simp add: dn_inv_def demo_dn_def psrv.defs)

lemma fds_after_bound: "fds_after cs S = Some T \<Longrightarrow> fd \<in> T \<Longrightarrow> fd \<in> S \<or> 0 \<le> fd \<and> fd < fresh_fd cs"
proof (induction cs arbitrary: S)
  case (Cons c cs)
  then obtain S1 where S1: "dcall_step c S = Some S1" "fds_after cs S1 = Some T" by (auto split: Option.bind_splits)
  have nn: "0 \<le> sum_list (map (\<lambda>c. case c of D_OPEN p fd \<Rightarrow> max 0 fd | _ \<Rightarrow> 0) cs)"
    by (rule sum_list_nonneg) (auto split: dcall.split)
  have mono: "fresh_fd cs \<le> fresh_fd (c # cs)" by (auto simp: fresh_fd_def split: dcall.split)
  from Cons.IH [OF S1(2) Cons.prems(2)] consider "fd \<in> S1" | "0 \<le> fd" "fd < fresh_fd cs" by blast
  then show ?case
  proof cases
    case 1
    then have "fd \<in> S \<or> (\<exists>p. c = D_OPEN p fd \<and> 0 \<le> fd)" using S1(1) by (cases c) (auto split: if_splits)
    then show ?thesis using nn by (auto simp: fresh_fd_def)
  qed (use mono in auto)
qed simp

lemma demo_good_open: "good_open demo_denv"
  unfolding good_open_def
proof (intro allI impI notI)
  fix cs S p
  assume "fds_after cs {} = Some S" "de_open demo_denv cs p \<in> S"
  from fds_after_bound [OF this] show False by (simp add: demo_denv_def split: if_splits)
qed

text \<open>C21. The dnotify tables count: after any sequence of requests to activate, deactivate, and start and stop flow
  control, the object of each directory has the numbers of the requests that were not undone, it is there exactly
  as long as it was activated more often than deactivated, and the kernel watches it exactly as long as flow
  control is off (unless \<^verbatim>\<open>open\<close> failed). The invariant holds throughout: the descriptors that are open are those of the
  table, each is closed once, and notification is only asked for on an open one.\<close>

theorem dnotify_tables_count:
  assumes "dn_inv s" "good_open en"
  shows "dn_inv (handle_all en calls s) \<and>
    watches (handle_all en calls s) = count_all (zip calls (opens en calls s)) (watches s)"
  using assms(1)
proof (induction calls arbitrary: s)
  case (Cons c calls)
  obtain p m where c: "c = (p, m)" by (cases c)
  note step = handler_ok [OF Cons.prems assms(2), of p m]
  from Cons.IH [OF conjunct1 [OF step], unfolded conjunct2 [OF step]] show ?case by (simp only: c handle_all.simps opens.simps count_all.simps zip_Cons_Cons)
qed simp

definition demo_requests :: "(string \<times> pollHandlerMode) list" where
  "demo_requests = [(''/d'', GAMIN_ACTIVATE), (''/d'', GAMIN_ACTIVATE), (''/d'', GAMIN_FLOWCONTROLSTART),
     (''/d'', GAMIN_DEACTIVATE)]"

theorem dnotify_tables_count_witness:
  "dn_inv (handle_all demo_denv demo_requests (demo_dn demo0)) \<and>
    watches (handle_all demo_denv demo_requests (demo_dn demo0)) =
      count_all (zip demo_requests (opens demo_denv demo_requests (demo_dn demo0))) (watches (demo_dn demo0)) \<and>
    watches (handle_all demo_denv demo_requests (demo_dn demo0)) ''/d'' = Some (1, 1, False)"
proof -
  have "watches (handle_all demo_denv demo_requests (demo_dn demo0)) ''/d'' = Some (1, 1, False)" by code_simp
  then show ?thesis
    using dnotify_tables_count [OF demo_dn_inv [of demo0] demo_good_open, of demo_requests] by blast
qed

section \<open>The back end as a whole\<close>

interpretation dnk: kernel_hooks "dnotify_khooks env" "\<lambda>s. good_open env \<longrightarrow> dn_inv s" for env :: "'e denv_scheme"
proof
  fix s s' :: "'b dsrv_scheme" and p m
  show "only_more s (gam_kernel_dir_handler (dnotify_khooks env) p m s)"
    "only_more s (gam_kernel_file_handler (dnotify_khooks env) p m s)"
    by (simp_all add: dnotify_handlers handler_more)
  assume i: "good_open env \<longrightarrow> dn_inv s"
  then show "good_open env \<longrightarrow> dn_inv (gam_kernel_dir_handler (dnotify_khooks env) p m s)"
    "good_open env \<longrightarrow> dn_inv (gam_kernel_file_handler (dnotify_khooks env) p m s)"
    using handler_ok [of s env p m] by (simp_all add: dnotify_handlers)
  assume m: "psrv.more s' = psrv.more s"
  from i show "good_open env \<longrightarrow> dn_inv s'" unfolding dn_inv_def more_dsrv [OF m] .
qed

definition dn_ok :: "'b dsrv_scheme \<Rightarrow> bool" where
  "dn_ok s \<longleftrightarrow> poll_ok s \<and> distinct (pl_busy s) \<and> dn_inv s"

lemma dn_ok: "good_open en \<Longrightarrow> dpoll_ok (\<lambda>s. good_open en \<longrightarrow> dn_inv s) s = dn_ok s"
  by (simp add: dn_ok_def dpoll_ok_def)

text \<open>The calls of the server and of the main loop, and a signal of the kernel. The timer gets one round more than
  nodes were ever made. \<open>DN_PIPE\<close> is given the signals that arrive while the handler of the pipe works.\<close>

datatype dn_call = DN_ADD cptr | DN_REMOVE cptr | DN_REMOVE_ALL cptr | DN_TIMER | DN_SIGNAL int | DN_PIPE "int list list"

fun do_dn_call :: "denv \<Rightarrow> dn_call \<Rightarrow> dsrv \<Rightarrow> (bool \<times> dsrv) option" where
  "do_dn_call en (DN_ADD q) s = gam_poll_dnotify_add_subscription (fenv.truncate en) (dnotify_khooks en) q s"
| "do_dn_call en (DN_REMOVE q) s = gam_poll_dnotify_remove_subscription (fenv.truncate en) (dnotify_khooks en) q s"
| "do_dn_call en (DN_REMOVE_ALL l) s = gam_poll_dnotify_remove_all_for (fenv.truncate en) (dnotify_khooks en) l s"
| "do_dn_call en DN_TIMER s =
     gam_poll_dnotify_scan_callback (Suc (pl_nextnode s)) (fenv.truncate en) (dnotify_khooks en) s"
| "do_dn_call en (DN_SIGNAL fd) s = Some (True, dnotify_signal_handler fd s)"
| "do_dn_call en (DN_PIPE sigs) s = gam_dnotify_pipe_handler en (dnotify_khooks en) sigs s"

text \<open>A subscription is added once, with its listener, its connection and an absolute path, and removed while its
  node has it.\<close>

fun dn_call_ok :: "dn_call \<Rightarrow> dsrv \<Rightarrow> bool" where
  "dn_call_ok (DN_ADD q) s \<longleftrightarrow> addable s q \<and> (\<exists>sub. sv_subs s q = Some sub \<and> hd (sub_path sub) = slash)"
| "dn_call_ok (DN_REMOVE q) s \<longleftrightarrow> on_node s q"
| "dn_call_ok (DN_REMOVE_ALL l) s \<longleftrightarrow>
     (\<exists>ls. sv_listeners s l = Some ls \<and> distinct (ls_subs ls) \<and> (\<forall>q \<in> set (ls_subs ls). on_node s q))"
| "dn_call_ok c s \<longleftrightarrow> True"

text \<open>The rest of the server changes its own part of the state, and leaves the subscriptions that are on a node with
  their listener and connection.\<close>

definition dn_server_step :: "dsrv \<Rightarrow> dsrv \<Rightarrow> bool" where
  "dn_server_step s s' \<longleftrightarrow> srv.more s' = srv.more s \<and>
     (\<forall>n nd. pl_nodes s n = Some nd \<longrightarrow> (\<forall>q \<in> set (nd_subs nd). sub_linked s' (nd_path nd) q))"

definition unstarted :: "dsrv \<Rightarrow> bool" where
  "unstarted s \<longleftrightarrow> pl_nodes s = Map.empty \<and> pl_hash s = Map.empty \<and> pl_nextnode s = 0 \<and> pl_missing s = [] \<and>
     pl_busy s = [] \<and> pl_all s = [] \<and> dn_calls s = []"

text \<open>The file system and what \<^verbatim>\<open>open\<close> answers may be different at every call.\<close>

inductive dn_reach :: "dsrv \<Rightarrow> bool" where
  start: "unstarted s \<Longrightarrow> gam_dnotify_init (en :: denv) True hk s = (True, hk', s') \<Longrightarrow> dn_reach s'"
| call: "dn_reach s \<Longrightarrow> good_open en \<Longrightarrow> dn_call_ok c s \<Longrightarrow> do_dn_call en c s = Some (b, s') \<Longrightarrow> dn_reach s'"
| server: "dn_reach s \<Longrightarrow> dn_server_step s s' \<Longrightarrow> dn_reach s'"

inductive_cases dn_reach_cases: "dn_reach s"

lemma dn_init_ok:
  assumes "unstarted s" "gam_dnotify_init en True hk s = (True, hk', s')"
  shows "dn_ok s'"
proof -
  let ?r = "gam_node_new (fenv.truncate en) ''/'' None True"
  have f: "pl_nodes s' = [0 \<mapsto> ?r]" "pl_nextnode s' = 1" "pl_root s' = 0" "pl_hash s' = Map.empty"
    "pl_missing s' = []" "pl_busy s' = []" "pl_all s' = []" "dn_path_hash s' = Map.empty" "dn_fd_hash s' = Map.empty"
    "dn_calls s' = []"
    using assms
    by (auto simp: unstarted_def gam_dnotify_init_def gam_poll_dnotify_init_def gam_poll_generic_init_def gam_tree_new_def
        alloc_node_def gam_poll_generic_update_time_def)
  show ?thesis
    by (auto simp: dn_ok_def poll_ok_def poll_inv_def tree_inv_def flagged_def dn_inv_def f gam_node_new_def split: if_splits)
qed

lemma server_step_dn_ok:
  assumes ok: "dn_ok s" and st: "dn_server_step s s'"
  shows "dn_ok s'"
proof -
  have more: "srv.more s' = srv.more s" using st by (simp add: dn_server_step_def)
  note f = more_poll [OF more]
  have "poll_inv s'"
    by (rule same_tree_linked [OF f(1-4) _ _ f(5-7)]) (use ok st in \<open>auto simp: dn_ok_def poll_ok_def dn_server_step_def\<close>)
  moreover have "dn_inv s'" using ok more_dsrv [OF f(10)] by (simp add: dn_ok_def dn_inv_def)
  ultimately show ?thesis using ok f by (simp add: dn_ok_def poll_ok_def flagged_def)
qed

text \<open>Removing one subscription leaves the others on their nodes.\<close>

lemma on_node_drops:
  fixes s :: "'x psrv_scheme"
  assumes inv: "poll_inv s'" and d: "drops q s s'" and subs: "sv_subs s' = (sv_subs s)(q := None)" and r: "on_node s r" "r \<noteq> q"
    and inv0: "poll_inv s"
  shows "on_node s' r"
proof -
  obtain sub n nd where sub: "sv_subs s r = Some sub" "sub_path sub \<noteq> []" "hd (sub_path sub) = slash"
      "pl_hash s (sub_path sub) = Some n" "pl_nodes s n = Some nd" "r \<in> set (nd_subs nd)"
    using r(1) by (auto simp: on_node_def)
  have "r \<in> set (removeAll q (nd_subs nd))" using sub(6) r(2) by simp
  then have "removeAll q (nd_subs nd) \<noteq> []" by (metis list.set(1) empty_iff)
  then obtain nd' where nd': "pl_nodes s' n = Some nd'" "nd_path nd' = nd_path nd" "nd_subs nd' = removeAll q (nd_subs nd)"
    using d sub(5) unfolding drops_def by blast
  have in': "r \<in> set (nd_subs nd')" using nd'(3) sub(6) r(2) by simp
  have sv: "sv_subs s' r = Some sub" using subs sub(1) r(2) by simp
  have "pl_hash s' (sub_path sub) = Some n" by (rule sub_node_unique(1) [OF inv sv nd'(1) in'])
  then show ?thesis using sv sub(2,3) nd'(1) in' by (auto simp: on_node_def)
qed

lemma remove_all_runs:
  fixes s :: "'b dsrv_scheme" and en :: "'e denv_scheme"
  assumes "good_open en" "dn_ok s" "distinct qs" "\<forall>q \<in> set qs. on_node s q"
  shows "\<exists>s'. dnotify_remove_all e (dnotify_khooks en) qs s = Some s' \<and> dn_ok s'"
  using assms(2-)
proof (induction qs arbitrary: s)
  case (Cons q qs)
  obtain s1 where s1: "gam_poll_dnotify_remove_subscription e (dnotify_khooks en) q s = Some (True, s1)" "dn_ok s1"
      "drops q s s1" "sv_subs s1 = (sv_subs s)(q := None)"
    using dnk.dnotify_remove_runs [of en s q e] Cons.prems dn_ok [OF assms(1)] by auto
  have inv: "poll_inv s" "poll_inv s1" using Cons.prems(1) s1(2) by (simp_all add: dn_ok_def poll_ok_def)
  have "\<forall>r \<in> set qs. on_node s1 r"
    using on_node_drops [OF inv(2) s1(3,4) _ _ inv(1)] Cons.prems(2,3) by auto
  then obtain s' where "dnotify_remove_all e (dnotify_khooks en) qs s1 = Some s'" "dn_ok s'"
    using Cons.IH [OF s1(2)] Cons.prems(2) by auto
  then show ?case using s1(1) by simp
qed simp

lemma scan_path_runs:
  fixes s :: "'b dsrv_scheme" and en :: "'e denv_scheme"
  assumes op: "good_open en" and ok: "dn_ok s"
  shows "\<exists>s'. gam_poll_generic_scan_directory e (gam_poll_dnotify_poll_file e (dnotify_khooks en)) path s = Some s' \<and> dn_ok s'"
proof -
  let ?s1 = "gam_poll_generic_update_time e s"
  let ?I = "\<lambda>s :: 'b dsrv_scheme. good_open en \<longrightarrow> dn_inv s"
  have ok0: "dpoll_ok ?I s" by (simp add: ok dn_ok [OF op])
  have ok1: "dpoll_ok ?I ?s1" by (rule dpoll_ok_keeps [OF dnk.dkeeps_time [OF dpoll_okD(1) [OF ok0]] ok0])
  have scan: "\<exists>s'. gam_poll_generic_scan_directory_internal e (gam_poll_dnotify_poll_file e (dnotify_khooks en)) n t = Some s' \<and> dn_ok s'"
    if "dpoll_ok ?I t" "pl_nodes t n \<noteq> None" for t n
    using dnk.scan_directory_runs [OF that] dn_ok [OF op] by auto
  show ?thesis
  proof (cases "gam_tree_get_at_path path ?s1")
    case (Some n)
    then have "pl_nodes ?s1 n \<noteq> None"
      using tree_hash(2) [OF poll_tree [OF dpoll_okD(1) [OF ok1]]] by (auto simp: gam_tree_get_at_path_def)
    then show ?thesis using scan [OF ok1] Some by (simp add: gam_poll_generic_scan_directory_def)
  next
    case None
    show ?thesis
    proof (cases "path = []")
      case True
      then show ?thesis using None ok1 [unfolded dn_ok [OF op]] by (simp add: gam_poll_generic_scan_directory_def gam_tree_add_at_path_def)
    next
      case False
      obtain n t where t: "gam_tree_add_at_path e path True ?s1 = Some (Some n, t)" "dpoll_ok ?I t" "pl_nodes t n \<noteq> None"
        using dnk.add_path_ok [OF ok1 False] by blast
      then show ?thesis using scan [OF t(2,3)] None by (simp add: gam_poll_generic_scan_directory_def)
    qed
  qed
qed

lemma changes_ok: "dn_ok s \<Longrightarrow> dn_ok (s\<lparr>dn_changes := cs\<rparr>)"
proof -
  assume ok: "dn_ok s"
  have "only_more s (s\<lparr>dn_changes := cs\<rparr>)" by (simp add: only_more_def)
  from only_more_runs [OF this] ok show ?thesis by (simp add: dn_ok_def poll_ok_def dn_inv_def)
qed

lemma pipe_one_runs:
  fixes s :: "'b dsrv_scheme" and en :: "'e denv_scheme"
  assumes "good_open en" "dn_ok s"
  shows "\<exists>s'. pipe_one en (dnotify_khooks en) fd s = Some s' \<and> dn_ok s'"
proof (cases "dn_fd_hash s fd")
  case (Some path)
  then obtain data where data: "dn_path_hash s path = Some data"
    using assms(2) dn_invD(2) [of s fd path] by (auto simp: dn_ok_def)
  obtain s1 where "gam_poll_generic_scan_directory (fenv.truncate en)
      (gam_poll_dnotify_poll_file (fenv.truncate en) (dnotify_khooks en)) (dd_path data) s = Some s1" "dn_ok s1"
    using scan_path_runs [OF assms] by blast
  then show ?thesis using Some data by (simp add: pipe_one_def)
qed (simp add: pipe_one_def assms(2))

text \<open>The handler of the pipe ends, however many signals arrive meanwhile: there are finitely many.\<close>

lemma pipe_loop_runs:
  fixes s :: "'b dsrv_scheme" and en :: "'e denv_scheme"
  assumes "good_open en" "dn_ok s"
  shows "\<exists>s'. pipe_loop en (dnotify_khooks en) sigs fds s = Some s' \<and> dn_ok s' \<and>
    (0 \<notin> set fds \<union> set (concat sigs) \<longrightarrow> dn_changes s' = [])"
  using assms(2)
proof (induction sigs arbitrary: fds s)
  case Nil
  then show ?case
  proof (induction fds arbitrary: s)
    case (Cons fd fds)
    obtain s1 where "pipe_one en (dnotify_khooks en) fd s = Some s1" "dn_ok s1"
      using pipe_one_runs [OF assms(1) Cons.prems] by blast
    then show ?case using Cons.IH [of s1] Cons.prems by (auto simp: changes_ok)
  qed (simp add: changes_ok)
next
  case (Cons now later)
  show ?case
  proof (cases fds)
    case Nil
    then show ?thesis using Cons.prems by (simp add: changes_ok)
  next
    case (Cons fd fds')
    obtain s1 where s1: "pipe_one en (dnotify_khooks en) fd s = Some s1" "dn_ok s1"
      using pipe_one_runs [OF assms(1) Cons.prems] by blast
    have "set (queue_signals now qs) \<subseteq> set now \<union> set qs" for qs
      unfolding queue_signals_def by (induction now arbitrary: qs) (force split: if_splits)+
    then show ?thesis using Cons.IH [OF s1(2), of "queue_signals now fds'"] Cons.prems Cons s1 by (auto simp: changes_ok)
  qed
qed

lemma do_dn_call_runs:
  assumes op: "good_open en" and ok: "dn_ok s" and c: "dn_call_ok c s"
  shows "\<exists>b s'. do_dn_call en c s = Some (b, s') \<and> dn_ok s'"
proof -
  note ok' = ok [folded dn_ok [OF op]]
  note inv = dpoll_okD [OF ok']
  show ?thesis
  proof (cases c)
    case (DN_ADD q)
    then obtain sub where "addable s q" "sv_subs s q = Some sub" "hd (sub_path sub) = slash" using c by auto
    from dnk.dnotify_add_runs [OF ok' this, of "fenv.truncate en"] show ?thesis using DN_ADD dn_ok [OF op] by auto
  next
    case (DN_REMOVE q)
    then show ?thesis using dnk.dnotify_remove_runs [OF ok', of q "fenv.truncate en"] c dn_ok [OF op] by auto
  next
    case (DN_REMOVE_ALL l)
    then obtain ls where "sv_listeners s l = Some ls" "distinct (ls_subs ls)" "\<forall>q \<in> set (ls_subs ls). on_node s q"
      using c by auto
    with remove_all_runs [OF op ok, of "ls_subs ls" "fenv.truncate en"] show ?thesis
      using DN_REMOVE_ALL by (auto simp: gam_poll_dnotify_remove_all_for_def gam_listener_get_subscriptions_def)
  next
    case DN_TIMER
    obtain s' where s': "do_dn_call en c s = Some (True, s')" "dkeeps (\<lambda>s. good_open en \<longrightarrow> dn_inv s) s s'"
      using dnk.timer_runs [where env = en and en = "fenv.truncate en" and k = "Suc (pl_nextnode s)", OF inv(1-4)] DN_TIMER
      by auto
    from dpoll_ok_keeps [OF s'(2) ok'] s'(1) dn_ok [OF op] show ?thesis by auto
  next
    case (DN_SIGNAL fd)
    then show ?thesis using changes_ok [OF ok] ok by (auto simp: dnotify_signal_handler_def)
  next
    case (DN_PIPE sigs)
    then show ?thesis using pipe_loop_runs [OF op ok, of sigs "rev (dn_changes s)"] by (auto simp: gam_dnotify_pipe_handler_def)
  qed
qed

lemma dn_reach_ok: "dn_reach s \<Longrightarrow> dn_ok s"
proof (induction rule: dn_reach.induct)
  case (call s en c b s')
  then show ?case using do_dn_call_runs [of en s c] by auto
qed (auto intro: dn_init_ok server_step_dn_ok)

section \<open>Properties of the back end\<close>

text \<open>A run: the back end is started, and a subscription for a file that is not there is added.\<close>

definition demo_unstarted :: dsrv where
  "demo_unstarted = demo_dn (no_nodes (srv0\<lparr>sv_listeners := [1 \<mapsto> \<lparr>ls_service = 0, ls_pid = 42, ls_pidname = ''x'', ls_subs = []\<rparr>],
     sv_subs := [2 \<mapsto> demo_sub ''/d'' 9 True, 3 \<mapsto> demo_sub ''/e'' 10 False]\<rparr>))"

definition demo_hooks :: "dsrv hooks" where
  "demo_hooks = \<lparr>hk_kernel_add = None, hk_kernel_remove = None, hk_kernel_remove_all = None, hk_poll_add = None,
     hk_poll_remove = None, hk_poll_remove_all = None, hk_exclude = (\<lambda>_. False), hk_mon_type = (\<lambda>_. GFS_MT_KERNEL),
     hk_pidname = (\<lambda>_. [])\<rparr>"

definition demo_dn_started :: dsrv where
  "demo_dn_started = snd (snd (gam_dnotify_init demo_denv True demo_hooks demo_unstarted))"

definition demo_dn_watching :: dsrv where
  "demo_dn_watching = snd (the (do_dn_call demo_denv (DN_ADD 3) demo_dn_started))"

lemma demo_dn_reach: "dn_reach demo_dn_started"
proof (rule dn_reach.start)
  show "unstarted demo_unstarted" by (simp add: unstarted_def demo_unstarted_def demo_dn_def no_nodes_def psrv.defs srv.defs)
  show "gam_dnotify_init demo_denv True demo_hooks demo_unstarted =
      (True, fst (snd (gam_dnotify_init demo_denv True demo_hooks demo_unstarted)), demo_dn_started)"
    by (simp add: demo_dn_started_def gam_dnotify_init_def split_beta)
qed

lemma demo_dn_call: "dn_call_ok (DN_ADD 3) demo_dn_started"
  by (simp add: addable_def demo_dn_started_def demo_unstarted_def demo_dn_def no_nodes_def psrv.defs srv.defs
      gam_dnotify_init_def gam_poll_dnotify_init_def gam_poll_generic_init_def gam_tree_new_def
      alloc_node_def gam_poll_generic_update_time_def srv0_def conn0_def demo_sub_def split_beta
      gam_subscription_set_listener_def gam_subscription_new_def gam_subscription_set_event_def gam_node_new_def)

lemma demo_dn_watching: "dn_reach demo_dn_watching" "pl_missing demo_dn_watching = [1]" "pl_nextnode demo_dn_watching < 9"
    "on_node demo_dn_watching 3"
proof -
  obtain b s' where s': "do_dn_call demo_denv (DN_ADD 3) demo_dn_started = Some (b, s')"
    using do_dn_call_runs [OF demo_good_open dn_reach_ok [OF demo_dn_reach] demo_dn_call] by blast
  then have e: "demo_dn_watching = s'" by (simp add: demo_dn_watching_def)
  show "dn_reach demo_dn_watching" unfolding e by (rule dn_reach.call [OF demo_dn_reach demo_good_open demo_dn_call s'])
  show "pl_missing demo_dn_watching = [1]" "pl_nextnode demo_dn_watching < 9" by code_simp+
  have v: "map_option sub_path (sv_subs demo_dn_watching 3) = Some ''/e''" "pl_hash demo_dn_watching ''/e'' = Some 1"
      "map_option nd_subs (pl_nodes demo_dn_watching 1) = Some [3]" by code_simp+
  show "on_node demo_dn_watching 3" using v by (auto simp: on_node_def)
qed

text \<open>C13. The dnotify back end never aborts and never uses an object that was freed, as far as its queue of signals
  is safe: in every state that starting it, adding and removing subscriptions, the timer, signals and the pipe they wake
  the main loop with, and the rest of the server can lead to, with any file system at each call, every one of these
  calls returns, and its state has the invariant: the tree is well formed, the lists name nodes of the tree without
  repetition, and the descriptors that are open are those of the tables. Two conditions are part of the claim. \<^verbatim>\<open>open\<close>
  does not answer with a descriptor that is open. And a signal is handled between two calls of the main loop, or between
  two pops of the handler of the pipe, never in the midst of an operation on the queue: \<^verbatim>\<open>GQueue\<close> is not safe against
  that, as a comment at the queue says, and nothing in the code blocks the signal there.\<close>

theorem dnotify_never_aborts:
  assumes "dn_reach s" "good_open en" "dn_call_ok c s"
  shows "\<exists>b s'. do_dn_call en c s = Some (b, s') \<and> dn_ok s'"
  by (rule do_dn_call_runs [OF assms(2) dn_reach_ok [OF assms(1)] assms(3)])

theorem dnotify_never_aborts_witness:
  "\<exists>b s'. do_dn_call demo_denv (DN_REMOVE 3) demo_dn_watching = Some (b, s') \<and> dn_ok s'"
proof -
  have "dn_call_ok (DN_REMOVE 3) demo_dn_watching" using demo_dn_watching(4) by simp
  from dnotify_never_aborts [OF demo_dn_watching(1) demo_good_open this] show ?thesis .
qed

text \<open>C24. The timer of the dnotify back end comes to an end: its two loops, which walk over lists that change while they
  walk, need no more rounds than nodes were ever made. It does not abort, keeps the invariant and every node with its
  subscriptions, and only nodes with subscriptions and their parents get on the lists.\<close>

theorem dnotify_timer_terminates:
  fixes s :: dsrv
  assumes "dn_ok s" "good_open en" "pl_nextnode s < k"
  shows "\<exists>s'. gam_poll_dnotify_scan_callback k (fenv.truncate en) (dnotify_khooks en) s = Some (True, s') \<and> dn_ok s' \<and>
    grows s s' \<and> set (pl_missing s') \<subseteq> set (pl_missing s) \<union> listable s \<and> set (pl_busy s') \<subseteq> set (pl_busy s) \<union> listable s"
proof -
  note ok = assms(1) [folded dn_ok [OF assms(2)]]
  obtain s' where s': "gam_poll_dnotify_scan_callback k (fenv.truncate en) (dnotify_khooks en) s = Some (True, s')"
      "dkeeps (\<lambda>s. good_open en \<longrightarrow> dn_inv s) s s'"
    using dnk.timer_runs [where env = en and en = "fenv.truncate en" and k = k, OF dpoll_okD(1-4) [OF ok] assms(3)] by blast
  from dpoll_ok_keeps [OF s'(2) ok, unfolded dn_ok [OF assms(2)]] s' show ?thesis by (auto simp: dkeeps_def dframe_def)
qed

theorem dnotify_timer_terminates_witness:
  "pl_missing demo_dn_watching = [1] \<and>
   (\<exists>s'. gam_poll_dnotify_scan_callback 9 (fenv.truncate demo_denv) (dnotify_khooks demo_denv) demo_dn_watching = Some (True, s') \<and>
     dn_ok s')"
  using dnotify_timer_terminates [OF dn_reach_ok [OF demo_dn_watching(1)] demo_good_open demo_dn_watching(3)] demo_dn_watching(2)
  by blast

end
