(* ===== verification/Gam_Dnotify_View.thy ===== *)
theory Gam_Dnotify_View
  imports Gam_Dnotify_Props
begin

unbundle bit_operations_syntax

text \<open>
  What polling with dnotify reports: the same observation of a file as the basic back end, however it turns kernel
  monitoring on and off meanwhile; and runs in which the back end does not do what it is meant to.
\<close>

section \<open>What is known of the files\<close>

definition seen :: "GamNode \<Rightarrow> bool \<times> bool \<times> stat" where
  "seen nd = (nd_lasttime nd = 0, nd_missing nd, nd_sbuf nd)"

lemma view_seen: "seen nd' = seen nd \<Longrightarrow> view_of nd' = view_of nd" "seen nd' = seen nd \<Longrightarrow> fresh_unmarked nd' = fresh_unmarked nd"
  by (simp_all add: seen_def view_of_def fresh_unmarked_def)

text \<open>A step that changes nothing of what is known of the files.\<close>

definition same_seen :: "'x psrv_scheme \<Rightarrow> 'x psrv_scheme \<Rightarrow> bool" where
  "same_seen s s' \<longleftrightarrow> pl_time s' = pl_time s \<and> (\<forall>m. map_option seen (pl_nodes s' m) = map_option seen (pl_nodes s m))"

lemma same_seen_refl [simp]: "same_seen s s"
  by (simp add: same_seen_def)

lemma same_seen_trans: "same_seen s s' \<Longrightarrow> same_seen s' s'' \<Longrightarrow> same_seen s s''"
  by (simp add: same_seen_def)

lemma same_seen_more: "only_more s s' \<Longrightarrow> same_seen s s'"
  by (simp add: same_seen_def only_more_simps)

lemma same_seen_upd: "(\<And>nd. pl_nodes s n = Some nd \<Longrightarrow> seen (f nd) = seen nd) \<Longrightarrow> same_seen s (upd_node n f s)"
  by (cases "pl_nodes s n") (auto simp: same_seen_def)

lemma same_seen_at:
  "pl_nodes s n = Some nd \<Longrightarrow> seen (f nd) = seen (g nd) \<Longrightarrow> same_seen (upd_node n g s) (upd_node n f s)"
  by (simp add: same_seen_def)

lemma same_seen_lists:
  "same_seen s (gam_poll_generic_add_missing n s)" "same_seen s (gam_poll_generic_remove_missing n s)"
  "same_seen s (gam_poll_generic_add_busy n s)" "same_seen s (gam_poll_generic_remove_busy n s)"
  by (simp_all add: same_seen_def gam_poll_generic_add_missing_def gam_poll_generic_remove_missing_def
      gam_poll_generic_add_busy_def gam_poll_generic_remove_busy_def)

lemma busy_bit:
  "(w OR MON_BUSY) AND MON_MISSING = w AND (MON_MISSING :: evtype)"
  "(w AND NOT MON_BUSY) AND MON_MISSING = w AND (MON_MISSING :: evtype)"
  "(w OR MON_NOKERNEL) AND MON_MISSING = w AND (MON_MISSING :: evtype)"
proof -
  have z: "MON_BUSY AND MON_MISSING = (0 :: evtype)" "NOT MON_BUSY AND MON_MISSING = (MON_MISSING :: evtype)"
      "MON_NOKERNEL AND MON_MISSING = (0 :: evtype)"
    by code_simp+
  show "(w OR MON_BUSY) AND MON_MISSING = w AND (MON_MISSING :: evtype)"
    "(w OR MON_NOKERNEL) AND MON_MISSING = w AND (MON_MISSING :: evtype)" by (simp_all add: bit.conj_disj_distrib2 z)
  show "(w AND NOT MON_BUSY) AND MON_MISSING = w AND (MON_MISSING :: evtype)" by (simp add: and.assoc z)
qed

lemma same_seen_busy:
  "gam_node_set_pflag n MON_BUSY s = Some s' \<Longrightarrow> same_seen s s'" "gam_node_unset_pflag n MON_BUSY s = Some s' \<Longrightarrow> same_seen s s'"
  by (auto simp: gam_node_set_pflag_def gam_node_unset_pflag_def seen_def nd_missing_def busy_bit simp del: upd_node_simps
      intro!: same_seen_upd split: Option.bind_splits)

context kernel_hooks
begin

lemma same_seen_hooks: "same_seen s (gam_kernel_dir_handler kh p m s)" "same_seen s (gam_kernel_file_handler kh p m s)"
  by (rule same_seen_more, rule dir_more) (rule same_seen_more, rule file_more)

lemma seen_trigger_file: "gam_poll_generic_trigger_file_handler kh path m n s = Some s' \<Longrightarrow> same_seen s s'"
  by (auto simp: gam_poll_generic_trigger_file_handler_def same_seen_hooks split: Option.bind_splits if_splits option.splits pollHandlerMode.splits
      dest!: same_seen_busy intro: same_seen_hooks same_seen_trans [OF same_seen_trans [OF same_seen_hooks(1)]] same_seen_lists)

lemma seen_trigger: "gam_poll_generic_trigger_handler kh path m n s = Some s' \<Longrightarrow> same_seen s s'"
  by (auto simp: gam_poll_generic_trigger_handler_def gam_poll_generic_trigger_dir_handler_def same_seen_hooks
      dest: seen_trigger_file split: Option.bind_splits if_splits)

lemma seen_trigger_each: "trigger_each kh path m n qs s = Some s' \<Longrightarrow> same_seen s s'"
  by (induction qs arbitrary: s) (auto dest!: seen_trigger intro: same_seen_trans split: Option.bind_splits)

lemma seen_listing:
  "gam_poll_dnotify_delist_node en kh n s = Some s' \<Longrightarrow> same_seen s s'"
  "gam_poll_dnotify_flowon_node en kh n s = Some s' \<Longrightarrow> same_seen s s'"
  "gam_poll_dnotify_flowoff_node en kh n s = Some s' \<Longrightarrow> same_seen s s'"
  by (auto simp: gam_poll_dnotify_delist_node_def gam_poll_dnotify_flowon_node_def gam_poll_dnotify_flowoff_node_def
      dest: seen_trigger seen_trigger_each split: Option.bind_splits if_splits)

lemma seen_checks: "same_seen s (upd_node n (\<lambda>nd. nd\<lparr>nd_checks := c nd\<rparr>) s)"
  by (rule same_seen_upd) (simp add: seen_def nd_missing_def)

lemma seen_go_busy:
  assumes "go_busy en kh n s = Some s'"
  shows "same_seen s s'"
proof -
  let ?t = "\<lambda>s1. gam_poll_generic_add_busy n (upd_node n (\<lambda>nd. nd\<lparr>nd_checks := 0\<rparr>) s1)"
  consider "s' = s" | s1 s3 p where "gam_node_set_pflag n MON_BUSY s = Some s1" "gam_poll_dnotify_flowon_node en kh n (?t s1) = Some s3"
      "s' = s3 \<or> s' = gam_poll_generic_add_busy p s3"
    using assms
    by (auto simp: go_busy_def simp del: upd_node_simps split: Option.bind_splits if_splits option.splits)
  then show ?thesis
  proof cases
    case 2
    have "same_seen s (?t s1)"
      by (rule same_seen_trans [OF same_seen_busy(1) [OF 2(1)] same_seen_trans [OF seen_checks same_seen_lists(3)]])
    then have "same_seen s s3" by (rule same_seen_trans [OF _ seen_listing(2) [OF 2(2)]])
    then show ?thesis using 2(3) same_seen_trans same_seen_lists(3) by blast
  qed simp
qed

lemma seen_go_kernel:
  assumes "go_kernel en kh e n s = Some s'"
  shows "same_seen s s'"
proof -
  let ?t = "\<lambda>s1. gam_poll_generic_remove_busy n (upd_node n (\<lambda>nd. nd\<lparr>nd_checks := 0\<rparr>) s1)"
  obtain nd where nd: "pl_nodes s n = Some nd" using assms by (auto simp: go_kernel_def split: Option.bind_splits)
  let ?b = "e = 0 \<and> nd_pflags nd AND MON_BUSY \<noteq> 0 \<and> nd_checks nd > 5 \<and> nd_subs nd \<noteq> [] \<and> kernel_path en (nd_path nd)"
  have "go_kernel en kh e n s = (if ?b then do { s1 \<leftarrow> gam_node_unset_pflag n MON_BUSY s;
      gam_poll_dnotify_flowoff_node en kh n (?t s1) } else Some s)"
    using nd by (simp add: go_kernel_def gam_node_has_pflag_def del: upd_node_simps)
  then consider "s' = s" | s1 where "gam_node_unset_pflag n MON_BUSY s = Some s1" "gam_poll_dnotify_flowoff_node en kh n (?t s1) = Some s'"
    using assms by (cases ?b) (auto split: Option.bind_splits)
  then show ?thesis
  proof cases
    case 2
    have "same_seen s (?t s1)"
      by (rule same_seen_trans [OF same_seen_busy(2) [OF 2(1)] same_seen_trans [OF seen_checks same_seen_lists(4)]])
    then show ?thesis by (rule same_seen_trans [OF _ seen_listing(3) [OF 2(2)]])
  qed simp
qed

text \<open>A poll in two parts: what is known of the file, and then steps that do not change that.\<close>

lemma seen_deleted:
  assumes "dnotify_deleted en kh n s = Some s'"
  shows "same_seen (upd_node n (\<lambda>nd. nd\<lparr>nd_pflags := MON_MISSING\<rparr>) s) s'"
proof -
  let ?s1 = "upd_node n (\<lambda>nd. nd\<lparr>nd_pflags := MON_MISSING\<rparr>) s"
  let ?s2 = "gam_poll_generic_remove_busy n ?s1"
  consider "s' = ?s2" | s3 where "gam_poll_dnotify_delist_node en kh n ?s2 = Some s3" "s' = gam_poll_generic_add_missing n s3"
    using assms
    by (auto simp: dnotify_deleted_def gam_node_set_pflags_def simp del: upd_node_simps split: Option.bind_splits if_splits)
  then show ?thesis
  proof cases
    case 2
    have "same_seen ?s1 s3" by (rule same_seen_trans [OF same_seen_lists(4) seen_listing(1) [OF 2(1)]])
    then show ?thesis unfolding 2(2) by (rule same_seen_trans [OF _ same_seen_lists(1)])
  qed (simp only: same_seen_lists)
qed

lemma seen_next_poll:
  assumes nd: "pl_nodes s n = Some nd" and run: "next_poll en kh n nd s = Some (e, s')" and old: "nd_lasttime nd \<noteq> 0"
  shows "e = poll_event en nd \<and> same_seen (upd_node n (\<lambda>nd'. poll_node en (nd_lasttime nd) nd) s) s'"
proof -
  let ?res = "en_stat en (nd_path nd)"
  let ?f = "\<lambda>nd'. nd'\<lparr>nd_is_dir := (if ?res = STAT_OK (case ?res of STAT_OK st \<Rightarrow> st | _ \<Rightarrow> stat_zero) then st_is_dir (case ?res of STAT_OK st \<Rightarrow> st | _ \<Rightarrow> stat_zero) else nd_is_dir nd'),
     nd_sbuf := (case ?res of STAT_OK st \<Rightarrow> st | _ \<Rightarrow> stat_zero)\<rparr>"
  have at: "same_seen (upd_node n g s) (upd_node n ?f s1)"
    if h: "same_seen (upd_node n h s) s1" and g: "seen (?f (h nd)) = seen (g nd)" for g h s1
  proof -
    have "map_option seen (pl_nodes s1 n) = map_option seen (pl_nodes (upd_node n h s) n)"
      using h unfolding same_seen_def by blast
    then obtain nd1 where nd1: "pl_nodes s1 n = Some nd1" "seen nd1 = seen (h nd)" using nd by auto
    have "seen (?f nd1) = seen (g nd)" using g nd1(2) by (auto simp: seen_def nd_missing_def)
    then show ?thesis using h nd nd1 by (auto simp: same_seen_def)
  qed
  have id: "same_seen (upd_node n (\<lambda>nd. nd) s) s" using nd by (simp add: same_seen_def)
  have m: "gam_node_has_pflag n MON_MISSING s = Some (nd_missing nd)"
    using nd by (simp add: gam_node_has_pflag_def nd_missing_def)
  let ?g = "\<lambda>nd'. poll_node en (nd_lasttime nd) nd"
  note spec = seen_def nd_missing_def poll_node_def poll_pflags_def
  have "e = poll_event en nd \<and> (\<exists>h s1. same_seen (upd_node n h s) s1 \<and> seen (?f (h nd)) = seen (?g nd) \<and> s' = upd_node n ?f s1)"
  proof (cases ?res)
    case (STAT_OK st)
    show ?thesis
    proof (cases "nd_missing nd")
      case True
      let ?h = "\<lambda>nd. nd\<lparr>nd_pflags := nd_pflags nd AND NOT MON_MISSING\<rparr>"
      have "seen (?f (?h nd)) = seen (?g nd)" using True STAT_OK old by (simp add: spec)
      moreover have "e = poll_event en nd" "s' = upd_node n ?f (upd_node n ?h s)"
        using run True STAT_OK old nd m
        by (simp_all add: next_poll_def gam_node_unset_pflag_def poll_event_def del: upd_node_simps)
      ultimately show ?thesis using same_seen_refl by blast
    next
      case False
      have "seen (?f nd) = seen (?g nd)" using False STAT_OK old by (simp add: spec)
      moreover have "e = poll_event en nd" "s' = upd_node n ?f s"
        using run False STAT_OK old nd m
        by (auto simp: next_poll_def poll_event_def simp del: upd_node_simps split: if_splits)
      ultimately show ?thesis using id by blast
    qed
  next
    case STAT_NOENT
    show ?thesis
    proof (cases "nd_missing nd")
      case False
      let ?h = "\<lambda>nd. nd\<lparr>nd_pflags := MON_MISSING\<rparr>"
      have "seen (?f (?h nd)) = seen (?g nd)" using False STAT_NOENT old by (simp add: spec)
      moreover obtain s1 where "dnotify_deleted en kh n s = Some s1" "e = poll_event en nd" "s' = upd_node n ?f s1"
        using run False STAT_NOENT old nd m
        by (auto simp: next_poll_def poll_event_def simp del: upd_node_simps split: Option.bind_splits)
      ultimately show ?thesis using seen_deleted by blast
    next
      case True
      have "seen (?f nd) = seen (?g nd)" using True STAT_NOENT old by (simp add: spec)
      moreover have "e = poll_event en nd" "s' = upd_node n ?f s"
        using run True STAT_NOENT old nd m by (simp_all add: next_poll_def poll_event_def del: upd_node_simps)
      ultimately show ?thesis using id by blast
    qed
  next
    case STAT_ERR
    have "seen (?f nd) = seen (?g nd)" using STAT_ERR old by (simp add: spec)
    moreover have "e = poll_event en nd" "s' = upd_node n ?f s"
      using run STAT_ERR old nd m by (simp_all add: next_poll_def poll_event_def del: upd_node_simps)
    ultimately show ?thesis using id by blast
  qed
  then obtain h s1 where h: "e = poll_event en nd" "same_seen (upd_node n h s) s1" "seen (?f (h nd)) = seen (?g nd)"
      "s' = upd_node n ?f s1" by blast
  have "same_seen (upd_node n ?g s) s'" unfolding h(4) by (rule at [OF h(2)]) (rule h(3))
  then show ?thesis using h(1) by simp
qed

lemma seen_first_poll:
  assumes nd: "pl_nodes s n = Some nd" and run: "first_poll en n nd s = Some (e, s')" and new: "nd_lasttime nd = 0"
  shows "e = poll_event en nd \<and> same_seen (upd_node n (\<lambda>nd'. poll_node en (pl_time s) nd) s) s'"
proof -
  let ?res = "en_stat en (nd_path nd)"
  let ?f = "\<lambda>nd. nd\<lparr>
     nd_is_dir := (case ?res of STAT_OK st \<Rightarrow> st_is_dir st | _ \<Rightarrow> nd_is_dir nd),
     nd_pflags := (let w = (case ?res of STAT_OK st \<Rightarrow> nd_pflags nd | _ \<Rightarrow> nd_pflags nd OR MON_MISSING)
                   in if kernel_path en (nd_path nd) then w else w OR MON_NOKERNEL),
     nd_sbuf := (case ?res of STAT_OK st \<Rightarrow> st | _ \<Rightarrow> stat_zero), nd_lasttime := pl_time s\<rparr>"
  have "first_poll en n nd s = Some (poll_event en nd, upd_node n ?f s)"
    using nd new
    by (cases ?res; cases "kernel_path en (nd_path nd)")
       (auto simp: first_poll_def gam_node_set_pflag_def gam_node_set_is_dir_def upd_node_twice upd_node_simps(8)
          poll_event_def simp del: upd_node_simps(2-7) intro!: upd_node_cong)
  then have s': "e = poll_event en nd" "s' = upd_node n ?f s" using run by simp_all
  have f: "seen (?f nd) = seen (poll_node en (pl_time s) nd)"
    using new by (auto simp: seen_def poll_node_def poll_pflags_def nd_missing_def busy_bit split: statres.split)
  have "same_seen (upd_node n (\<lambda>nd'. poll_node en (pl_time s) nd) s) s'" unfolding s'(2) by (rule same_seen_at [OF nd]) (rule f)
  then show ?thesis using s'(1) by simp
qed

lemma dnotify_poll_seen:
  assumes nd: "pl_nodes s n = Some nd" and due: "poll_due nd s" and time: "pl_time s \<noteq> 0"
    and run: "gam_poll_dnotify_poll_file en kh n s = Some (e, s')"
  shows "e = poll_event en nd \<and> same_seen (upd_node n (\<lambda>nd'. poll_node en (pl_time s) nd) s) s'"
proof (cases "nd_lasttime nd = 0")
  case True
  then show ?thesis using run nd seen_first_poll [OF nd] by (simp add: gam_poll_dnotify_poll_file_def)
next
  case False
  have poll: "gam_poll_dnotify_poll_file en kh n s =
      do { (event, s1) \<leftarrow> next_poll en kh n nd s;
           nokernel \<leftarrow> gam_node_has_pflag n MON_NOKERNEL s1;
           if nokernel then Some (event, s1)
           else
             do { s2 \<leftarrow> go_busy en kh n (upd_node n (count_checks event (pl_time s1)) s1);
                  s3 \<leftarrow> go_kernel en kh event n s2;
                  Some (event, s3) } }"
    using nd due False by (simp add: gam_poll_dnotify_poll_file_def poll_due_def)
  obtain s1 s2 where s1: "next_poll en kh n nd s = Some (e, s1)"
    and s': "s' = s1 \<or> go_busy en kh n (upd_node n (count_checks e (pl_time s1)) s1) = Some s2 \<and> go_kernel en kh e n s2 = Some s'"
  proof -
    obtain s1 b where a: "next_poll en kh n nd s = Some (e, s1)" "gam_node_has_pflag n MON_NOKERNEL s1 = Some b"
        "(if b then Some (e, s1) else do { s2 \<leftarrow> go_busy en kh n (upd_node n (count_checks e (pl_time s1)) s1);
            s3 \<leftarrow> go_kernel en kh e n s2; Some (e, s3) }) = Some (e, s')"
      using run unfolding poll by (auto simp del: upd_node_simps split: Option.bind_splits if_splits)
    then show ?thesis using that by (cases b) (auto simp del: upd_node_simps split: Option.bind_splits)
  qed
  let ?t = "upd_node n (\<lambda>nd'. poll_node en (pl_time s) nd) s"
  note np = seen_next_poll [OF nd s1 False]
  have "same_seen ?t (upd_node n (\<lambda>nd'. poll_node en (nd_lasttime nd) nd) s)"
    using nd False time by (simp add: same_seen_def seen_def poll_node_def nd_missing_def)
  then have k1: "same_seen ?t s1" by (rule same_seen_trans [OF _ conjunct2 [OF np]])
  then have "map_option seen (pl_nodes s1 n) = map_option seen (pl_nodes ?t n)" "pl_time s1 = pl_time s"
    by (auto simp only: same_seen_def upd_node_simps)
  then obtain nd1 where nd1: "pl_nodes s1 n = Some nd1" "nd_lasttime nd1 \<noteq> 0" "pl_time s1 \<noteq> 0"
    using nd time by (auto simp: seen_def poll_node_def)
  have c: "same_seen s1 (upd_node n (count_checks e (pl_time s1)) s1)"
    using nd1 by (intro same_seen_upd) (simp add: count_checks_def seen_def nd_missing_def)
  have "same_seen s1 s'"
  proof (cases "s' = s1")
    case False
    with s' have "go_busy en kh n (upd_node n (count_checks e (pl_time s1)) s1) = Some s2" "go_kernel en kh e n s2 = Some s'"
      by simp_all
    from same_seen_trans [OF c same_seen_trans [OF seen_go_busy [OF this(1)] seen_go_kernel [OF this(2)]]] show ?thesis .
  qed simp
  from same_seen_trans [OF k1 this] np show ?thesis by simp
qed

end

text \<open>C22. Polling a file with dnotify implements the same observation as the basic back end: when the poll is due, the
  event it reports and what the node then knows are those of the observation of the answer of \<^verbatim>\<open>stat\<close>, whatever it does
  about kernel monitoring and flow control on the way, and what every other node knows is as it was. When the poll is not
  due it does nothing.\<close>

theorem dnotify_poll_refines_observe:
  fixes s :: "'b dsrv_scheme"
  assumes "poll_inv s" "pl_nodes s n = Some nd" "fresh_unmarked nd" "pl_time s \<noteq> 0"
  shows "if poll_due nd s then
      \<exists>s' nd'. gam_poll_dnotify_poll_file en (dnotify_khooks env) n s = Some (snd (observe (view_of nd) (en_stat en (nd_path nd))), s') \<and>
        pl_nodes s' n = Some nd' \<and> view_of nd' = fst (observe (view_of nd) (en_stat en (nd_path nd))) \<and> fresh_unmarked nd' \<and>
        (\<forall>m. m \<noteq> n \<longrightarrow> map_option view_of (pl_nodes s' m) = map_option view_of (pl_nodes s m))
    else gam_poll_dnotify_poll_file en (dnotify_khooks env) n s = Some (0, s)"
proof (cases "poll_due nd s")
  case False
  then show ?thesis using assms(2) by (simp add: gam_poll_dnotify_poll_file_def poll_due_def)
next
  case True
  let ?t = "upd_node n (\<lambda>nd'. poll_node en (pl_time s) nd) s"
  obtain e s' where run: "gam_poll_dnotify_poll_file en (dnotify_khooks env) n s = Some (e, s')"
    using dnk.dnotify_poll_file_runs [where env = env and en = en and n = n, OF assms(1)] assms(2) by (auto simp: druns2_def)
  note seen = dnk.dnotify_poll_seen [OF assms(2) True assms(4) run]
  have at: "map_option seen (pl_nodes s' m) = map_option seen (pl_nodes ?t m)" for m
    using seen unfolding same_seen_def by blast
  obtain nd' where nd': "pl_nodes s' n = Some nd'" "seen nd' = seen (poll_node en (pl_time s) nd)" using at [of n] assms(2) by auto
  have others: "map_option view_of (pl_nodes s' m) = map_option view_of (pl_nodes s m)" if "m \<noteq> n" for m
    using at [of m] that by (cases "pl_nodes s m"; cases "pl_nodes s' m") (auto dest: view_seen(1))
  note v = view_poll_node [OF assms(3,4), of en]
  have e: "e = snd (observe (view_of nd) (en_stat en (nd_path nd)))" using seen v(2) by simp
  have n: "view_of nd' = fst (observe (view_of nd) (en_stat en (nd_path nd)))" "fresh_unmarked nd'"
    using view_seen [OF nd'(2)] v(1,3) by simp_all
  show ?thesis
    unfolding if_P [OF True] run e
    by (rule exI [of _ s'], rule exI [of _ nd']) (use nd'(1) n others in simp)
qed

theorem dnotify_poll_refines_observe_witness:
  "\<exists>s' nd'. gam_poll_dnotify_poll_file (demo_env 5 [(''/e'', 4)]) (dnotify_khooks demo_denv) 1 demo_dn_watching =
      Some (GAMIN_EVENT_CREATED, s') \<and> pl_nodes s' 1 = Some nd' \<and> view_of nd' = Present (demo_stat False 4)"
proof -
  let ?s = demo_dn_watching
  have "map_option (\<lambda>nd. (nd_path nd, view_of nd, fresh_unmarked nd, poll_due nd ?s)) (pl_nodes ?s 1) = Some (''/e'', Missing, True, True)"
    by code_simp
  then obtain nd where nd: "pl_nodes ?s 1 = Some nd" "nd_path nd = ''/e''" "view_of nd = Missing" "fresh_unmarked nd" "poll_due nd ?s"
    by auto
  have "pl_time ?s \<noteq> 0" by code_simp
  have o: "observe Missing (en_stat (demo_env 5 [(''/e'', 4)]) ''/e'') = (Present (demo_stat False 4), GAMIN_EVENT_CREATED)"
    by code_simp
  have "poll_inv ?s" using dn_reach_ok [OF demo_dn_watching(1)] by (simp add: dn_ok_def poll_ok_def)
  from dnotify_poll_refines_observe [OF this nd(1,4) \<open>pl_time ?s \<noteq> 0\<close>, of "demo_env 5 [(''/e'', 4)]" demo_denv]
  show ?thesis using nd(5) unfolding nd(2,3) o by auto
qed

section \<open>What modelling showed\<close>

text \<open>A directory whose reopening fails when flow control ends is left unwatched although it is not busy, and a later
  activation does not open it again.\<close>

lemma failed_reopen_stays_unwatched:
  assumes "dn_inv s" "good_open en" "watches s p = Some (r, 1, l)" "de_open en (dn_calls s) p < 0"
  defines "s' \<equiv> gam_dnotify_directory_handler_internal en p GAMIN_FLOWCONTROLSTOP s"
  shows "watches s' p = Some (r, 0, False) \<and>
    watches (gam_dnotify_directory_handler_internal en p GAMIN_ACTIVATE s') p = Some (r + 1, 0, False)"
proof -
  note stop = handler_ok [OF assms(1,2), of p GAMIN_FLOWCONTROLSTOP, folded s'_def]
  then have "watches s' p = Some (r, 0, False)" using assms(3,4) by simp
  with handler_ok [OF conjunct1 [OF stop] assms(2), of p GAMIN_ACTIVATE] show ?thesis by simp
qed

text \<open>A directory opened as descriptor 0 ends the loop over the signals, and what was queued behind it waits.\<close>

lemma descriptor_zero_ends_loop: "pipe_loop en kh sigs (0 # fds) s = Some (s\<lparr>dn_changes := rev fds\<rparr>)"
  by (cases sigs) simp_all

text \<open>Signals are dropped without a trace when the queue is longer than 500.\<close>

lemma full_queue_drops: "length (dn_changes s) > 500 \<Longrightarrow> dnotify_signal_handler fd s = s"
  by (simp add: dnotify_signal_handler_def MAX_QUEUE_SIZE_def)

text \<open>A file that is deleted loses the mark that it is not to be monitored by the kernel.\<close>

lemma deletion_forgets_nokernel:
  fixes s :: "'b dsrv_scheme"
  assumes "pl_nodes s n = Some nd" "nd_subs nd = []"
  shows "\<exists>s'. dnotify_deleted en kh n s = Some s' \<and> gam_node_has_pflag n MON_NOKERNEL s' = Some False"
proof -
  have "MON_MISSING AND MON_NOKERNEL = (0 :: evtype)" by code_simp
  then show ?thesis
    using assms by (simp add: dnotify_deleted_def gam_node_set_pflags_def gam_node_get_subscriptions_def gam_node_has_pflag_def)
qed

end
