(* ===== verification/Gam_Kqueue.thy ===== *)
theory Gam_Kqueue
  imports Gam_Node Gam_Connection
begin

unbundle bit_operations_syntax

text \<open>
  The kqueue back end, \<^verbatim>\<open>server/gam_kqueue.c\<close>: the hash tables that may be changed while they are walked, the
  three pollers, the monitors of subscriptions and of the files in a directory, and the hooks.

  The state of the server is extended by the heaps of \<^verbatim>\<open>SubMonitor\<close> and \<^verbatim>\<open>FileMonitor\<close> objects, the two hash
  tables of subscription monitors, the pollers and the kernel's table of open descriptors, which says for each the
  monitor it was registered with. A \<^verbatim>\<open>GHashTable\<close> of pointers is the list of its keys; the table of the file
  monitors of a directory has the name inside the monitor as its key, so it is the list of these monitors. The
  order in which GLib walks a table is a parameter.

  Every system call reads the file system anew: \<open>kq_tick\<close> counts them, and the answers of the environment depend on
  it, so files may come and go between any two calls.
\<close>

section \<open>State\<close>

record kstat =
  ks_ino :: int
  ks_mode :: "32 word"
  ks_uid :: int
  ks_gid :: int
  ks_mtime :: int
  ks_ctime :: int
  ks_size :: int

record MiniStat =
  ms_exists :: bool
  ms_ino :: int
  ms_mode :: "32 word"
  ms_uid :: int
  ms_gid :: int
  ms_mtime :: int
  ms_ctime :: int
  ms_size :: int

record HashTable =
  ht_main :: "cptr list"
  ht_iterating :: bool
  ht_additions :: "cptr list"
  ht_removals :: "cptr list"

record Monitor =
  mo_pathname :: string
  mo_fd :: int
  mo_sb :: MiniStat
  mo_poll_count :: "32 word"

record SubMonitor = Monitor +
  sm_subs :: "cptr list"
  sm_fmons :: HashTable
  sm_unsupported :: HashTable
  sm_isdir :: bool

record FileMonitor = Monitor +
  fm_smon :: cptr
  fm_filename :: string

record Poller =
  po_interval :: nat
  po_timeout :: "nat option"
  po_smons :: HashTable

datatype poller = missing_smon_poller | unsupported_smon_poller | unsupported_fmon_poller

type_synonym mflags = "32 word"

record kenv =
  ke_lstat :: "nat \<Rightarrow> string \<Rightarrow> kstat option"
  ke_readdir :: "nat \<Rightarrow> string \<Rightarrow> string list option"
  ke_open :: "nat \<Rightarrow> (int \<rightharpoonup> cptr option) \<Rightarrow> string \<Rightarrow> int"
  ke_kevent :: "nat \<Rightarrow> int \<Rightarrow> bool"
  ke_order :: "cptr list \<Rightarrow> cptr list"

record ksrv = srv +
  kq_smons :: "cptr \<rightharpoonup> SubMonitor"
  kq_fmons :: "cptr \<rightharpoonup> FileMonitor"
  kq_next :: cptr
  kq_fds :: "int \<rightharpoonup> cptr option"
  kq_tick :: nat
  kq_open_files :: "32 word"
  kq_max_open_files :: "32 word"
  kq_dir_hash :: "string \<rightharpoonup> cptr"
  kq_file_hash :: "string \<rightharpoonup> cptr"
  kq_pollers :: "poller \<Rightarrow> Poller"

definition MONITOR_ISDIR :: mflags where "MONITOR_ISDIR = 1"

definition MONITOR_ISNOTDIR :: mflags where "MONITOR_ISNOTDIR = 2"

definition SUB_MONITOR_WAS_MISSING :: mflags where "SUB_MONITOR_WAS_MISSING = 4"

definition FILE_MONITOR_POSSIBLY_RECREATED :: mflags where "FILE_MONITOR_POSSIBLY_RECREATED = 4"

definition has_flag :: "mflags \<Rightarrow> mflags \<Rightarrow> bool" where
  "has_flag flags f \<longleftrightarrow> flags AND f \<noteq> 0"

text \<open>The test \<^verbatim>\<open>(mode & S_IFDIR) != 0\<close>.\<close>

definition mode_isdir :: "32 word \<Rightarrow> bool" where
  "mode_isdir mode \<longleftrightarrow> mode AND 0x4000 \<noteq> 0"

definition dir_flag :: "bool \<Rightarrow> mflags" where
  "dir_flag b = (if b then MONITOR_ISDIR else MONITOR_ISNOTDIR)"

definition put_smon :: "cptr \<Rightarrow> SubMonitor \<Rightarrow> 'b ksrv_scheme \<Rightarrow> 'b ksrv_scheme" where
  "put_smon p sm s = s\<lparr>kq_smons := (kq_smons s)(p \<mapsto> sm)\<rparr>"

definition put_fmon :: "cptr \<Rightarrow> FileMonitor \<Rightarrow> 'b ksrv_scheme \<Rightarrow> 'b ksrv_scheme" where
  "put_fmon f fm s = s\<lparr>kq_fmons := (kq_fmons s)(f \<mapsto> fm)\<rparr>"

section \<open>System calls\<close>

definition kq_lstat :: "kenv \<Rightarrow> string \<Rightarrow> 'b ksrv_scheme \<Rightarrow> kstat option \<times> 'b ksrv_scheme" where
  "kq_lstat en path s = (ke_lstat en (kq_tick s) path, s\<lparr>kq_tick := Suc (kq_tick s)\<rparr>)"

definition kq_readdir :: "kenv \<Rightarrow> string \<Rightarrow> 'b ksrv_scheme \<Rightarrow> string list option \<times> 'b ksrv_scheme" where
  "kq_readdir en path s = (ke_readdir en (kq_tick s) path, s\<lparr>kq_tick := Suc (kq_tick s)\<rparr>)"

definition kq_open :: "kenv \<Rightarrow> string \<Rightarrow> 'b ksrv_scheme \<Rightarrow> int \<times> 'b ksrv_scheme" where
  "kq_open en path s =
     (let fd = ke_open en (kq_tick s) (kq_fds s) path;
          s1 = s\<lparr>kq_tick := Suc (kq_tick s)\<rparr>
      in (fd, if fd < 0 then s1 else s1\<lparr>kq_fds := (kq_fds s1)(fd \<mapsto> None)\<rparr>))"

definition kq_kevent :: "kenv \<Rightarrow> int \<Rightarrow> cptr \<Rightarrow> 'b ksrv_scheme \<Rightarrow> bool \<times> 'b ksrv_scheme" where
  "kq_kevent en fd udata s =
     (let ok = ke_kevent en (kq_tick s) fd;
          s1 = s\<lparr>kq_tick := Suc (kq_tick s)\<rparr>
      in (ok, if ok then s1\<lparr>kq_fds := (kq_fds s1)(fd \<mapsto> Some udata)\<rparr> else s1))"

definition kq_close :: "int \<Rightarrow> 'b ksrv_scheme \<Rightarrow> 'b ksrv_scheme" where
  "kq_close fd s = s\<lparr>kq_fds := (kq_fds s)(fd := None)\<rparr>"

section \<open>Helpers\<close>

definition ministat_zero :: MiniStat where
  "ministat_zero = \<lparr>ms_exists = False, ms_ino = 0, ms_mode = 0, ms_uid = 0, ms_gid = 0, ms_mtime = 0, ms_ctime = 0, ms_size = 0\<rparr>"

definition gam_kqueue_mini_lstat :: "kenv \<Rightarrow> string \<Rightarrow> 'b ksrv_scheme \<Rightarrow> MiniStat \<times> 'b ksrv_scheme" where
  "gam_kqueue_mini_lstat en pathname s =
     (let (r, s1) = kq_lstat en pathname s in
      case r of
        None \<Rightarrow> (ministat_zero, s1)
      | Some sb \<Rightarrow> (\<lparr>ms_exists = True, ms_ino = ks_ino sb, ms_mode = ks_mode sb, ms_uid = ks_uid sb, ms_gid = ks_gid sb,
                    ms_mtime = ks_mtime sb, ms_ctime = ks_ctime sb, ms_size = ks_size sb\<rparr>, s1))"

definition gam_kqueue_differs :: "MiniStat \<Rightarrow> MiniStat \<Rightarrow> bool" where
  "gam_kqueue_differs sb1 sb2 \<longleftrightarrow>
     ms_mtime sb1 \<noteq> ms_mtime sb2 \<or> ms_ctime sb1 \<noteq> ms_ctime sb2 \<or> ms_size sb1 \<noteq> ms_size sb2 \<or>
     ms_mode sb1 \<noteq> ms_mode sb2 \<or> ms_uid sb1 \<noteq> ms_uid sb2 \<or> ms_gid sb1 \<noteq> ms_gid sb2 \<or> ms_ino sb1 \<noteq> ms_ino sb2"

definition gam_kqueue_isdir :: "kenv \<Rightarrow> string \<Rightarrow> mflags \<Rightarrow> 'b ksrv_scheme \<Rightarrow> bool \<times> 'b ksrv_scheme" where
  "gam_kqueue_isdir en pathname flags s =
     (if has_flag flags MONITOR_ISDIR then (True, s)
      else if has_flag flags MONITOR_ISNOTDIR then (False, s)
      else (let (r, s1) = kq_lstat en pathname s
            in (case r of None \<Rightarrow> False | Some sb \<Rightarrow> mode_isdir (ks_mode sb), s1)))"

section \<open>Hash tables that may change while they are walked\<close>

text \<open>Where a table is: in a poller, or one of the two of a subscription monitor.\<close>

datatype table = T_SMONS poller | T_FMONS cptr | T_UNSUPPORTED cptr

fun get_table :: "table \<Rightarrow> 'b ksrv_scheme \<Rightarrow> HashTable option" where
  "get_table (T_SMONS k) s = Some (po_smons (kq_pollers s k))"
| "get_table (T_FMONS p) s = map_option sm_fmons (kq_smons s p)"
| "get_table (T_UNSUPPORTED p) s = map_option sm_unsupported (kq_smons s p)"

fun upd_table :: "table \<Rightarrow> (HashTable \<Rightarrow> HashTable) \<Rightarrow> 'b ksrv_scheme \<Rightarrow> 'b ksrv_scheme" where
  "upd_table (T_SMONS k) g s =
     s\<lparr>kq_pollers := (kq_pollers s)(k := (kq_pollers s k)\<lparr>po_smons := g (po_smons (kq_pollers s k))\<rparr>)\<rparr>"
| "upd_table (T_FMONS p) g s =
     s\<lparr>kq_smons := (kq_smons s)(p := map_option (\<lambda>sm. sm\<lparr>sm_fmons := g (sm_fmons sm)\<rparr>) (kq_smons s p))\<rparr>"
| "upd_table (T_UNSUPPORTED p) g s =
     s\<lparr>kq_smons := (kq_smons s)(p := map_option (\<lambda>sm. sm\<lparr>sm_unsupported := g (sm_unsupported sm)\<rparr>) (kq_smons s p))\<rparr>"

record 'x HashTableMethods =
  hm_add :: "table \<Rightarrow> cptr \<Rightarrow> 'x \<Rightarrow> 'x option"
  hm_post_add :: "(table \<Rightarrow> 'x \<Rightarrow> 'x option) option"
  hm_remove :: "table \<Rightarrow> cptr \<Rightarrow> 'x \<Rightarrow> 'x option"
  hm_post_remove :: "(table \<Rightarrow> 'x \<Rightarrow> 'x option) option"

definition hash_table_empty :: HashTable where
  "hash_table_empty = \<lparr>ht_main = [], ht_iterating = False, ht_additions = [], ht_removals = []\<rparr>"

text \<open>\<^verbatim>\<open>gam_kqueue_hash_table_new\<close>, always of an empty \<^verbatim>\<open>GHashTable\<close>; the methods go with the place of the table.\<close>

definition gam_kqueue_hash_table_new :: HashTable where
  "gam_kqueue_hash_table_new = hash_table_empty"

definition gam_kqueue_hash_table_default_add_cb :: "table \<Rightarrow> cptr \<Rightarrow> 'b ksrv_scheme \<Rightarrow> 'b ksrv_scheme option" where
  "gam_kqueue_hash_table_default_add_cb t item s =
     Some (upd_table t (\<lambda>h. h\<lparr>ht_main := (if item \<in> set (ht_main h) then ht_main h else ht_main h @ [item])\<rparr>) s)"

definition gam_kqueue_hash_table_default_remove_cb :: "table \<Rightarrow> cptr \<Rightarrow> 'b ksrv_scheme \<Rightarrow> 'b ksrv_scheme option" where
  "gam_kqueue_hash_table_default_remove_cb t item s =
     Some (upd_table t (\<lambda>h. h\<lparr>ht_main := removeAll item (ht_main h)\<rparr>) s)"

definition post :: "(table \<Rightarrow> 'x \<Rightarrow> 'x option) option \<Rightarrow> table \<Rightarrow> 'x \<Rightarrow> 'x option" where
  "post f t s = (case f of None \<Rightarrow> Some s | Some g \<Rightarrow> g t s)"

definition gam_kqueue_hash_table_add ::
  "'b ksrv_scheme HashTableMethods \<Rightarrow> table \<Rightarrow> cptr \<Rightarrow> 'b ksrv_scheme \<Rightarrow> 'b ksrv_scheme option" where
  "gam_kqueue_hash_table_add m t item s =
     do { h \<leftarrow> get_table t s;
          if ht_iterating h then Some (upd_table t (\<lambda>h. h\<lparr>ht_additions := item # ht_additions h\<rparr>) s)
          else do { s1 \<leftarrow> hm_add m t item s; post (hm_post_add m) t s1 } }"

definition gam_kqueue_hash_table_remove ::
  "'b ksrv_scheme HashTableMethods \<Rightarrow> table \<Rightarrow> cptr \<Rightarrow> 'b ksrv_scheme \<Rightarrow> 'b ksrv_scheme option" where
  "gam_kqueue_hash_table_remove m t item s =
     do { h \<leftarrow> get_table t s;
          if ht_iterating h then Some (upd_table t (\<lambda>h. h\<lparr>ht_removals := item # ht_removals h\<rparr>) s)
          else do { s1 \<leftarrow> hm_remove m t item s; post (hm_post_remove m) t s1 } }"

text \<open>\<^verbatim>\<open>g_hash_table_foreach\<close>: GLib does not allow the table to change meanwhile.\<close>

fun table_foreach ::
  "table \<Rightarrow> cptr list \<Rightarrow> (cptr \<Rightarrow> 'b ksrv_scheme \<Rightarrow> 'b ksrv_scheme option) \<Rightarrow> cptr list \<Rightarrow> 'b ksrv_scheme
     \<Rightarrow> 'b ksrv_scheme option" where
  "table_foreach t main f [] s = Some s"
| "table_foreach t main f (x # xs) s =
     do { s1 \<leftarrow> f x s;
          h \<leftarrow> get_table t s1;
          if ht_main h \<noteq> main then None else table_foreach t main f xs s1 }"

fun table_each :: "(cptr \<Rightarrow> 'x \<Rightarrow> 'x option) \<Rightarrow> cptr list \<Rightarrow> 'x \<Rightarrow> 'x option" where
  "table_each f [] s = Some s"
| "table_each f (x # xs) s = do { s1 \<leftarrow> f x s; table_each f xs s1 }"

definition apply_additions ::
  "'b ksrv_scheme HashTableMethods \<Rightarrow> table \<Rightarrow> 'b ksrv_scheme \<Rightarrow> 'b ksrv_scheme option" where
  "apply_additions m t s =
     do { h \<leftarrow> get_table t s;
          if ht_additions h = [] then Some s
          else do { s1 \<leftarrow> table_each (hm_add m t) (ht_additions h) s;
                    post (hm_post_add m) t (upd_table t (\<lambda>h. h\<lparr>ht_additions := []\<rparr>) s1) } }"

definition apply_removals ::
  "'b ksrv_scheme HashTableMethods \<Rightarrow> table \<Rightarrow> 'b ksrv_scheme \<Rightarrow> 'b ksrv_scheme option" where
  "apply_removals m t s =
     do { h \<leftarrow> get_table t s;
          if ht_removals h = [] then Some s
          else do { s1 \<leftarrow> table_each (hm_remove m t) (ht_removals h) s;
                    post (hm_post_remove m) t (upd_table t (\<lambda>h. h\<lparr>ht_removals := []\<rparr>) s1) } }"

definition gam_kqueue_hash_table_foreach ::
  "kenv \<Rightarrow> 'b ksrv_scheme HashTableMethods \<Rightarrow> table \<Rightarrow> (cptr \<Rightarrow> 'b ksrv_scheme \<Rightarrow> 'b ksrv_scheme option)
     \<Rightarrow> 'b ksrv_scheme \<Rightarrow> 'b ksrv_scheme option" where
  "gam_kqueue_hash_table_foreach en m t f s =
     do { h \<leftarrow> get_table t s;
          if ht_iterating h then None
          else
            do { s1 \<leftarrow> table_foreach t (ht_main h) f (ke_order en (ht_main h)) (upd_table t (\<lambda>h. h\<lparr>ht_iterating := True\<rparr>) s);
                 s2 \<leftarrow> apply_additions m t (upd_table t (\<lambda>h. h\<lparr>ht_iterating := False\<rparr>) s1);
                 apply_removals m t s2 } }"

section \<open>Pollers\<close>

text \<open>\<open>po_timeout\<close> is the interval of the timer when it is installed.\<close>

definition gam_kqueue_poller_init :: "poller \<Rightarrow> nat \<Rightarrow> 'b ksrv_scheme \<Rightarrow> 'b ksrv_scheme" where
  "gam_kqueue_poller_init k interval s =
     s\<lparr>kq_pollers := (kq_pollers s)(k := \<lparr>po_interval = interval, po_timeout = None, po_smons = gam_kqueue_hash_table_new\<rparr>)\<rparr>"

fun gam_kqueue_poller_post_add_cb :: "table \<Rightarrow> 'b ksrv_scheme \<Rightarrow> 'b ksrv_scheme option" where
  "gam_kqueue_poller_post_add_cb (T_SMONS k) s =
     (let po = kq_pollers s k in
      Some (if po_timeout po = None
            then s\<lparr>kq_pollers := (kq_pollers s)(k := po\<lparr>po_timeout := Some (po_interval po)\<rparr>)\<rparr> else s))"
| "gam_kqueue_poller_post_add_cb _ s = None"

fun gam_kqueue_poller_post_remove_cb :: "table \<Rightarrow> 'b ksrv_scheme \<Rightarrow> 'b ksrv_scheme option" where
  "gam_kqueue_poller_post_remove_cb (T_SMONS k) s =
     (let po = kq_pollers s k in
      Some (if ht_main (po_smons po) = [] \<and> po_timeout po \<noteq> None
            then s\<lparr>kq_pollers := (kq_pollers s)(k := po\<lparr>po_timeout := None\<rparr>)\<rparr> else s))"
| "gam_kqueue_poller_post_remove_cb _ s = None"

definition poller_hash_table_methods :: "'b ksrv_scheme HashTableMethods" where
  "poller_hash_table_methods =
     \<lparr>hm_add = gam_kqueue_hash_table_default_add_cb, hm_post_add = Some gam_kqueue_poller_post_add_cb,
      hm_remove = gam_kqueue_hash_table_default_remove_cb, hm_post_remove = Some gam_kqueue_poller_post_remove_cb\<rparr>"

definition gam_kqueue_poller_add_sub_monitor :: "poller \<Rightarrow> cptr \<Rightarrow> 'b ksrv_scheme \<Rightarrow> 'b ksrv_scheme option" where
  "gam_kqueue_poller_add_sub_monitor k p s = gam_kqueue_hash_table_add poller_hash_table_methods (T_SMONS k) p s"

definition gam_kqueue_poller_remove_sub_monitor :: "poller \<Rightarrow> cptr \<Rightarrow> 'b ksrv_scheme \<Rightarrow> 'b ksrv_scheme option" where
  "gam_kqueue_poller_remove_sub_monitor k p s = gam_kqueue_hash_table_remove poller_hash_table_methods (T_SMONS k) p s"

text \<open>The timer of a poller; \<open>func\<close> is its function.\<close>

definition gam_kqueue_poller_timeout_cb ::
  "kenv \<Rightarrow> poller \<Rightarrow> (cptr \<Rightarrow> 'b ksrv_scheme \<Rightarrow> 'b ksrv_scheme option) \<Rightarrow> 'b ksrv_scheme \<Rightarrow> (bool \<times> 'b ksrv_scheme) option" where
  "gam_kqueue_poller_timeout_cb en k func s =
     do { s1 \<leftarrow> gam_kqueue_hash_table_foreach en poller_hash_table_methods (T_SMONS k) func s; Some (True, s1) }"

section \<open>Monitors\<close>

text \<open>The operations of the base class take the pointer of the monitor and its object, and return the object changed.\<close>

definition gam_kqueue_monitor_enable_kqueue ::
  "kenv \<Rightarrow> cptr \<Rightarrow> 'm Monitor_scheme \<Rightarrow> 'b ksrv_scheme \<Rightarrow> bool \<times> 'm Monitor_scheme \<times> 'b ksrv_scheme" where
  "gam_kqueue_monitor_enable_kqueue en p mon s =
     (if kq_open_files s = kq_max_open_files s then (False, mon, s)
      else
        let (fd, s1) = kq_open en (mo_pathname mon) s;
            mon1 = mon\<lparr>mo_fd := fd\<rparr>
        in if fd < 0 then (False, mon1, s1)
           else
             let (ok, s2) = kq_kevent en fd p s1
             in if \<not> ok then (False, mon1\<lparr>mo_fd := -1\<rparr>, kq_close fd s2)
                else (True, mon1, s2\<lparr>kq_open_files := kq_open_files s2 + 1\<rparr>))"

text \<open>Closing the descriptor of a monitor, when it has one.\<close>

definition close_monitor :: "'m Monitor_scheme \<Rightarrow> 'b ksrv_scheme \<Rightarrow> 'm Monitor_scheme \<times> 'b ksrv_scheme" where
  "close_monitor mon s =
     (if mo_fd mon \<ge> 0
      then (mon\<lparr>mo_fd := -1\<rparr>, (kq_close (mo_fd mon) s)\<lparr>kq_open_files := kq_open_files s - 1\<rparr>)
      else (mon, s))"

definition gam_kqueue_monitor_set_unsupported ::
  "kenv \<Rightarrow> 'm Monitor_scheme \<Rightarrow> 'b ksrv_scheme \<Rightarrow> 'm Monitor_scheme \<times> 'b ksrv_scheme" where
  "gam_kqueue_monitor_set_unsupported en mon s =
     (let (mon1, s1) = close_monitor mon s;
          (sb, s2) = gam_kqueue_mini_lstat en (mo_pathname mon1) s1
      in (mon1\<lparr>mo_sb := sb\<rparr>, s2))"

definition gam_kqueue_monitor_free :: "'m Monitor_scheme \<Rightarrow> 'b ksrv_scheme \<Rightarrow> 'b ksrv_scheme" where
  "gam_kqueue_monitor_free mon s = snd (close_monitor mon s)"

definition gam_kqueue_file_monitor_free :: "cptr \<Rightarrow> 'b ksrv_scheme \<Rightarrow> 'b ksrv_scheme option" where
  "gam_kqueue_file_monitor_free f s =
     do { fm \<leftarrow> kq_fmons s f;
          let s1 = gam_kqueue_monitor_free fm s in Some (s1\<lparr>kq_fmons := (kq_fmons s1)(f := None)\<rparr>) }"

section \<open>Monitors of subscriptions\<close>

definition gam_kqueue_sub_monitor_init_fmons :: "cptr \<Rightarrow> 'b ksrv_scheme \<Rightarrow> 'b ksrv_scheme option" where
  "gam_kqueue_sub_monitor_init_fmons p s =
     do { sm \<leftarrow> kq_smons s p;
          Some (put_smon p (sm\<lparr>sm_fmons := gam_kqueue_hash_table_new, sm_unsupported := gam_kqueue_hash_table_new\<rparr>) s) }"

definition gam_kqueue_sub_monitor_new :: "cptr \<Rightarrow> 'b ksrv_scheme \<Rightarrow> (cptr \<times> 'b ksrv_scheme) option" where
  "gam_kqueue_sub_monitor_new subp s =
     do { sub \<leftarrow> sv_subs s subp;
          let p = kq_next s;
              sm = \<lparr>mo_pathname = sub_path sub, mo_fd = -1, mo_sb = ministat_zero, mo_poll_count = 0, sm_subs = [],
                    sm_fmons = hash_table_empty, sm_unsupported = hash_table_empty, sm_isdir = sub_is_dir sub\<rparr>
          in do { s1 \<leftarrow> gam_kqueue_sub_monitor_init_fmons p (put_smon p sm (s\<lparr>kq_next := Suc p\<rparr>)); Some (p, s1) } }"

text \<open>\<^verbatim>\<open>gam_kqueue_hash_table_destroy\<close> of the table of file monitors frees these. The caller frees the monitor that has the
  tables, or gives it new ones at once.\<close>

definition gam_kqueue_hash_table_destroy ::
  "(cptr \<Rightarrow> 'b ksrv_scheme \<Rightarrow> 'b ksrv_scheme option) \<Rightarrow> table \<Rightarrow> 'b ksrv_scheme \<Rightarrow> 'b ksrv_scheme option" where
  "gam_kqueue_hash_table_destroy destroy t s =
     do { h \<leftarrow> get_table t s;
          if ht_iterating h then None
          else do { s1 \<leftarrow> table_each destroy (ht_main h) s; Some (upd_table t (\<lambda>h. hash_table_empty) s1) } }"

definition gam_kqueue_sub_monitor_clear_fmons :: "cptr \<Rightarrow> 'b ksrv_scheme \<Rightarrow> 'b ksrv_scheme option" where
  "gam_kqueue_sub_monitor_clear_fmons p s =
     do { sm \<leftarrow> kq_smons s p;
          s1 \<leftarrow> (if ht_main (sm_unsupported sm) \<noteq> []
                  then gam_kqueue_poller_remove_sub_monitor unsupported_fmon_poller p s else Some s);
          s2 \<leftarrow> gam_kqueue_hash_table_destroy (\<lambda>f s. Some s) (T_UNSUPPORTED p) s1;
          gam_kqueue_hash_table_destroy gam_kqueue_file_monitor_free (T_FMONS p) s2 }"

definition gam_kqueue_sub_monitor_free :: "cptr \<Rightarrow> 'b ksrv_scheme \<Rightarrow> 'b ksrv_scheme option" where
  "gam_kqueue_sub_monitor_free p s =
     do { s1 \<leftarrow> gam_kqueue_poller_remove_sub_monitor missing_smon_poller p s;
          s2 \<leftarrow> gam_kqueue_poller_remove_sub_monitor unsupported_smon_poller p s1;
          s3 \<leftarrow> gam_kqueue_sub_monitor_clear_fmons p s2;
          sm \<leftarrow> kq_smons s3 p;
          let s4 = gam_kqueue_monitor_free sm s3 in Some (s4\<lparr>kq_smons := (kq_smons s4)(p := None)\<rparr>) }"

text \<open>The methods of the two tables. \<^verbatim>\<open>g_hash_table_replace\<close> frees the monitor that had the same name.\<close>

fun lookup_name :: "string \<Rightarrow> cptr list \<Rightarrow> 'b ksrv_scheme \<Rightarrow> cptr option option" where
  "lookup_name name [] s = Some None"
| "lookup_name name (f # fs) s =
     do { fm \<leftarrow> kq_fmons s f; if fm_filename fm = name then Some (Some f) else lookup_name name fs s }"

definition gam_kqueue_sub_monitor_add_fmon_cb :: "table \<Rightarrow> cptr \<Rightarrow> 'b ksrv_scheme \<Rightarrow> 'b ksrv_scheme option" where
  "gam_kqueue_sub_monitor_add_fmon_cb t f s =
     do { fm \<leftarrow> kq_fmons s f;
          h \<leftarrow> get_table t s;
          old \<leftarrow> lookup_name (fm_filename fm) (ht_main h) s;
          case old of
            None \<Rightarrow> Some (upd_table t (\<lambda>h. h\<lparr>ht_main := ht_main h @ [f]\<rparr>) s)
          | Some g \<Rightarrow>
              gam_kqueue_file_monitor_free g
                (upd_table t (\<lambda>h. h\<lparr>ht_main := removeAll g (ht_main h) @ [f]\<rparr>) s) }"

definition gam_kqueue_sub_monitor_remove_fmon_cb :: "table \<Rightarrow> cptr \<Rightarrow> 'b ksrv_scheme \<Rightarrow> 'b ksrv_scheme option" where
  "gam_kqueue_sub_monitor_remove_fmon_cb t f s =
     do { fm \<leftarrow> kq_fmons s f;
          h \<leftarrow> get_table t s;
          old \<leftarrow> lookup_name (fm_filename fm) (ht_main h) s;
          case old of
            None \<Rightarrow> Some s
          | Some g \<Rightarrow>
              gam_kqueue_file_monitor_free g (upd_table t (\<lambda>h. h\<lparr>ht_main := removeAll g (ht_main h)\<rparr>) s) }"

definition sub_monitor_fmons_hash_table_methods :: "'b ksrv_scheme HashTableMethods" where
  "sub_monitor_fmons_hash_table_methods =
     \<lparr>hm_add = gam_kqueue_sub_monitor_add_fmon_cb, hm_post_add = None,
      hm_remove = gam_kqueue_sub_monitor_remove_fmon_cb, hm_post_remove = None\<rparr>"

fun gam_kqueue_sub_monitor_post_add_unsupported_fmon_cb :: "table \<Rightarrow> 'b ksrv_scheme \<Rightarrow> 'b ksrv_scheme option" where
  "gam_kqueue_sub_monitor_post_add_unsupported_fmon_cb (T_UNSUPPORTED p) s =
     gam_kqueue_poller_add_sub_monitor unsupported_fmon_poller p s"
| "gam_kqueue_sub_monitor_post_add_unsupported_fmon_cb _ s = None"

fun gam_kqueue_sub_monitor_post_remove_unsupported_fmon_cb :: "table \<Rightarrow> 'b ksrv_scheme \<Rightarrow> 'b ksrv_scheme option" where
  "gam_kqueue_sub_monitor_post_remove_unsupported_fmon_cb (T_UNSUPPORTED p) s =
     do { sm \<leftarrow> kq_smons s p;
          if ht_main (sm_unsupported sm) = [] then gam_kqueue_poller_remove_sub_monitor unsupported_fmon_poller p s
          else Some s }"
| "gam_kqueue_sub_monitor_post_remove_unsupported_fmon_cb _ s = None"

definition sub_monitor_unsupported_fmons_hash_table_methods :: "'b ksrv_scheme HashTableMethods" where
  "sub_monitor_unsupported_fmons_hash_table_methods =
     \<lparr>hm_add = gam_kqueue_hash_table_default_add_cb,
      hm_post_add = Some gam_kqueue_sub_monitor_post_add_unsupported_fmon_cb,
      hm_remove = gam_kqueue_hash_table_default_remove_cb,
      hm_post_remove = Some gam_kqueue_sub_monitor_post_remove_unsupported_fmon_cb\<rparr>"

definition add_fmon :: "cptr \<Rightarrow> cptr \<Rightarrow> 'b ksrv_scheme \<Rightarrow> 'b ksrv_scheme option" where
  "add_fmon p f s = gam_kqueue_hash_table_add sub_monitor_fmons_hash_table_methods (T_FMONS p) f s"

definition remove_fmon :: "cptr \<Rightarrow> cptr \<Rightarrow> 'b ksrv_scheme \<Rightarrow> 'b ksrv_scheme option" where
  "remove_fmon p f s = gam_kqueue_hash_table_remove sub_monitor_fmons_hash_table_methods (T_FMONS p) f s"

definition add_unsupported :: "cptr \<Rightarrow> cptr \<Rightarrow> 'b ksrv_scheme \<Rightarrow> 'b ksrv_scheme option" where
  "add_unsupported p f s =
     gam_kqueue_hash_table_add sub_monitor_unsupported_fmons_hash_table_methods (T_UNSUPPORTED p) f s"

definition remove_unsupported :: "cptr \<Rightarrow> cptr \<Rightarrow> 'b ksrv_scheme \<Rightarrow> 'b ksrv_scheme option" where
  "remove_unsupported p f s =
     gam_kqueue_hash_table_remove sub_monitor_unsupported_fmons_hash_table_methods (T_UNSUPPORTED p) f s"

definition gam_kqueue_sub_monitor_set_missing :: "cptr \<Rightarrow> 'b ksrv_scheme \<Rightarrow> 'b ksrv_scheme option" where
  "gam_kqueue_sub_monitor_set_missing p s =
     do { sm \<leftarrow> kq_smons s p;
          let (sm1, s0) = close_monitor sm s;
              s1 = put_smon p sm1 s0
          in do { s2 \<leftarrow> (if ht_main (sm_fmons sm1) \<noteq> []
                         then do { s2 \<leftarrow> gam_kqueue_sub_monitor_clear_fmons p s1;
                                   gam_kqueue_sub_monitor_init_fmons p s2 }
                         else Some s1);
                  s3 \<leftarrow> gam_kqueue_poller_remove_sub_monitor unsupported_smon_poller p s2;
                  gam_kqueue_poller_add_sub_monitor missing_smon_poller p s3 } }"

definition gam_kqueue_sub_monitor_set_unsupported :: "kenv \<Rightarrow> cptr \<Rightarrow> 'b ksrv_scheme \<Rightarrow> 'b ksrv_scheme option" where
  "gam_kqueue_sub_monitor_set_unsupported en p s =
     do { sm \<leftarrow> kq_smons s p;
          let (sm1, s1) = gam_kqueue_monitor_set_unsupported en sm s
          in gam_kqueue_poller_add_sub_monitor unsupported_smon_poller p (put_smon p sm1 s1) }"

section \<open>Monitors of the files in a directory\<close>

definition gam_kqueue_file_monitor_set_unsupported :: "kenv \<Rightarrow> cptr \<Rightarrow> 'b ksrv_scheme \<Rightarrow> 'b ksrv_scheme option" where
  "gam_kqueue_file_monitor_set_unsupported en f s =
     do { fm \<leftarrow> kq_fmons s f;
          let (fm1, s1) = gam_kqueue_monitor_set_unsupported en fm s
          in add_unsupported (fm_smon fm1) f (put_fmon f fm1 s1) }"

text \<open>What follows the last slash, or the whole path: \<^verbatim>\<open>strrchr\<close> and the assignment after it.\<close>

definition after_slash :: "string \<Rightarrow> string" where
  "after_slash path = rev (takeWhile (\<lambda>c. c \<noteq> CHR ''/'') (rev path))"

definition gam_kqueue_file_monitor_new ::
  "kenv \<Rightarrow> cptr \<Rightarrow> string \<Rightarrow> 'b ksrv_scheme \<Rightarrow> (cptr \<times> mflags \<times> 'b ksrv_scheme) option" where
  "gam_kqueue_file_monitor_new en p filename s =
     do { sm \<leftarrow> kq_smons s p;
          let f = kq_next s;
              pathname = g_build_filename (mo_pathname sm) filename;
              fm = \<lparr>mo_pathname = pathname, mo_fd = -1, mo_sb = ministat_zero, mo_poll_count = 0,
                    fm_smon = p, fm_filename = after_slash pathname\<rparr>
          in do { s1 \<leftarrow> add_fmon p f (put_fmon f fm (s\<lparr>kq_next := Suc f\<rparr>));
                  fm1 \<leftarrow> kq_fmons s1 f;
                  let (ok, fm2, s2) = gam_kqueue_monitor_enable_kqueue en f fm1 s1;
                      s3 = put_fmon f fm2 s2
                  in if ok then Some (f, 0, s3)
                     else do { s4 \<leftarrow> gam_kqueue_file_monitor_set_unsupported en f s3;
                               fm4 \<leftarrow> kq_fmons s4 f;
                               Some (f, dir_flag (mode_isdir (ms_mode (mo_sb fm4))), s4) } } }"

text \<open>The event for a new monitor makes no further one, so two levels are enough; \<open>k\<close> counts them.\<close>

fun file_monitor_emit :: "nat \<Rightarrow> kenv \<Rightarrow> cptr \<Rightarrow> evtype \<Rightarrow> mflags \<Rightarrow> 'b ksrv_scheme \<Rightarrow> 'b ksrv_scheme option" where
  "file_monitor_emit 0 en f event flags s = None"
| "file_monitor_emit (Suc k) en f event flags s =
     do { fm \<leftarrow> kq_fmons s f;
          sm \<leftarrow> kq_smons s (fm_smon fm);
          let stat_done = (\<not> has_flag flags MONITOR_ISDIR \<and> \<not> has_flag flags MONITOR_ISNOTDIR);
              (r, s0) = (if stat_done then kq_lstat en (mo_pathname fm) s else (None, s));
              isdir = (if stat_done then (case r of None \<Rightarrow> False | Some sb \<Rightarrow> mode_isdir (ks_mode sb))
                       else has_flag flags MONITOR_ISDIR)
          in do { s1 \<leftarrow> gam_server_emit_event (mo_pathname fm) isdir event (sm_subs sm) True s0;
                  if event = GAMIN_EVENT_DELETED \<or> event = GAMIN_EVENT_MOVED then
                    do { s2 \<leftarrow> (if mo_fd fm < 0 then remove_unsupported (fm_smon fm) f s1 else Some s1);
                         if has_flag flags FILE_MONITOR_POSSIBLY_RECREATED then
                           (let (r2, s3) = (if stat_done then (r, s2) else kq_lstat en (mo_pathname fm) s2)
                            in if r2 \<noteq> None then
                                 do { (new, new_flags, s4) \<leftarrow> gam_kqueue_file_monitor_new en (fm_smon fm) (fm_filename fm) s3;
                                      file_monitor_emit k en new GAMIN_EVENT_CREATED new_flags s4 }
                               else remove_fmon (fm_smon fm) f s3)
                         else remove_fmon (fm_smon fm) f s2 }
                  else Some s1 } }"

definition gam_kqueue_file_monitor_emit_event ::
  "kenv \<Rightarrow> cptr \<Rightarrow> evtype \<Rightarrow> mflags \<Rightarrow> 'b ksrv_scheme \<Rightarrow> 'b ksrv_scheme option" where
  "gam_kqueue_file_monitor_emit_event = file_monitor_emit 2"

section \<open>Events of a subscription monitor\<close>

text \<open>The loop over the names in a directory, with the event for the new monitors.\<close>

fun new_entries :: "kenv \<Rightarrow> cptr \<Rightarrow> evtype \<Rightarrow> string list \<Rightarrow> 'b ksrv_scheme \<Rightarrow> 'b ksrv_scheme option" where
  "new_entries en p event [] s = Some s"
| "new_entries en p event (name # names) s =
     do { (f, flags, s1) \<leftarrow> gam_kqueue_file_monitor_new en p name s;
          s2 \<leftarrow> gam_kqueue_file_monitor_emit_event en f event flags s1;
          new_entries en p event names s2 }"

fun change_entries :: "kenv \<Rightarrow> cptr \<Rightarrow> string list \<Rightarrow> 'b ksrv_scheme \<Rightarrow> 'b ksrv_scheme option" where
  "change_entries en p [] s = Some s"
| "change_entries en p (name # names) s =
     do { sm \<leftarrow> kq_smons s p;
          known \<leftarrow> lookup_name name (ht_main (sm_fmons sm)) s;
          s2 \<leftarrow> (if known = None
                 then do { (f, flags, s1) \<leftarrow> gam_kqueue_file_monitor_new en p name s;
                           gam_kqueue_file_monitor_emit_event en f GAMIN_EVENT_CREATED flags s1 }
                 else Some s);
          change_entries en p names s2 }"

definition gam_kqueue_sub_monitor_handle_directory_change_removal_cb ::
  "kenv \<Rightarrow> string list \<Rightarrow> cptr \<Rightarrow> 'b ksrv_scheme \<Rightarrow> 'b ksrv_scheme option" where
  "gam_kqueue_sub_monitor_handle_directory_change_removal_cb en filenames f s =
     do { fm \<leftarrow> kq_fmons s f;
          if fm_filename fm \<notin> set filenames
          then gam_kqueue_file_monitor_emit_event en f GAMIN_EVENT_DELETED MONITOR_ISNOTDIR s
          else Some s }"

definition gam_kqueue_sub_monitor_handle_directory_change ::
  "kenv \<Rightarrow> cptr \<Rightarrow> bool \<Rightarrow> 'b ksrv_scheme \<Rightarrow> 'b ksrv_scheme option" where
  "gam_kqueue_sub_monitor_handle_directory_change en p isdir s =
     do { sm \<leftarrow> kq_smons s p;
          let (r, s1) = (if isdir then kq_readdir en (mo_pathname sm) s else (None, s));
              filenames = (case r of None \<Rightarrow> [] | Some names \<Rightarrow> names)
          in do { s2 \<leftarrow> change_entries en p filenames s1;
                  gam_kqueue_hash_table_foreach en sub_monitor_fmons_hash_table_methods (T_FMONS p)
                    (gam_kqueue_sub_monitor_handle_directory_change_removal_cb en filenames) s2 } }"

definition gam_kqueue_sub_monitor_emit_event ::
  "kenv \<Rightarrow> cptr \<Rightarrow> evtype \<Rightarrow> mflags \<Rightarrow> 'b ksrv_scheme \<Rightarrow> 'b ksrv_scheme option" where
  "gam_kqueue_sub_monitor_emit_event en p event flags s =
     do { sm \<leftarrow> kq_smons s p;
          let (isdir, s1) = gam_kqueue_isdir en (mo_pathname sm) flags s
          in if event = GAMIN_EVENT_CHANGED \<and> sm_isdir sm
             then gam_kqueue_sub_monitor_handle_directory_change en p isdir s1
             else
               do { s2 \<leftarrow> (if event = GAMIN_EVENT_DELETED \<or> event = GAMIN_EVENT_MOVED
                           then gam_kqueue_sub_monitor_set_missing p s1 else Some s1);
                    gam_server_emit_event (mo_pathname sm) isdir event (sm_subs sm) True s2 } }"

definition gam_kqueue_sub_monitor_enable_notification ::
  "kenv \<Rightarrow> cptr \<Rightarrow> mflags \<Rightarrow> 'b ksrv_scheme \<Rightarrow> 'b ksrv_scheme option" where
  "gam_kqueue_sub_monitor_enable_notification en p flags0 s0 =
     do { sm \<leftarrow> kq_smons s0 p;
          let was_missing = has_flag flags0 SUB_MONITOR_WAS_MISSING;
              (r, s) = (if was_missing then (None, s0) else kq_lstat en (mo_pathname sm) s0);
              exists = (was_missing \<or> r \<noteq> None);
              flags = (if was_missing then flags0
                       else flags0 OR dir_flag (case r of None \<Rightarrow> False | Some sb \<Rightarrow> mode_isdir (ks_mode sb)))
          in if exists then
               let gevent = (if was_missing then GAMIN_EVENT_CREATED else GAMIN_EVENT_EXISTS)
               in do { s1 \<leftarrow> gam_kqueue_sub_monitor_emit_event en p gevent flags s;
                       s2 \<leftarrow> (if sm_isdir sm \<and> has_flag flags MONITOR_ISDIR then
                               (let (names, s2) = kq_readdir en (mo_pathname sm) s1 in
                                case names of
                                  None \<Rightarrow> Some s2
                                | Some filenames \<Rightarrow> new_entries en p gevent filenames s2)
                              else Some s1);
                       s3 \<leftarrow> (if \<not> was_missing
                              then gam_kqueue_sub_monitor_emit_event en p GAMIN_EVENT_ENDEXISTS flags s2 else Some s2);
                       sm3 \<leftarrow> kq_smons s3 p;
                       let (ok, sm4, s4) = gam_kqueue_monitor_enable_kqueue en p sm3 s3;
                           s5 = put_smon p sm4 s4
                       in if \<not> ok then gam_kqueue_sub_monitor_set_unsupported en p s5 else Some s5 }
             else
               do { s1 \<leftarrow> gam_kqueue_sub_monitor_emit_event en p GAMIN_EVENT_DELETED flags s;
                    gam_kqueue_sub_monitor_emit_event en p GAMIN_EVENT_ENDEXISTS flags s1 } }"

section \<open>Kernel events\<close>

record kevent =
  ev_udata :: cptr
  ev_flags :: "32 word"
  ev_fflags :: "32 word"

definition EV_ERROR :: "32 word" where "EV_ERROR = 0x4000"

definition NOTE_RENAME :: "32 word" where "NOTE_RENAME = 0x20"

text \<open>\<^verbatim>\<open>NOTE_DELETE | NOTE_REVOKE\<close> and \<^verbatim>\<open>NOTE_WRITE | NOTE_EXTEND | NOTE_ATTRIB | NOTE_LINK\<close>.\<close>

definition VN_NOTE_DELETED :: "32 word" where "VN_NOTE_DELETED = 0x1 OR 0x40"

definition VN_NOTE_CHANGED :: "32 word" where "VN_NOTE_CHANGED = 0x2 OR 0x4 OR 0x8 OR 0x10"

definition gam_kqueue_sub_monitor_handle_kevent ::
  "kenv \<Rightarrow> cptr \<Rightarrow> kevent \<Rightarrow> 'b ksrv_scheme \<Rightarrow> 'b ksrv_scheme option" where
  "gam_kqueue_sub_monitor_handle_kevent en p ev s =
     (if ev_flags ev AND EV_ERROR \<noteq> 0 then gam_kqueue_sub_monitor_set_unsupported en p s
      else
        do { s1 \<leftarrow> (if ev_fflags ev AND VN_NOTE_CHANGED \<noteq> 0
                    then gam_kqueue_sub_monitor_emit_event en p GAMIN_EVENT_CHANGED 0 s else Some s);
             if ev_fflags ev AND VN_NOTE_DELETED \<noteq> 0
             then gam_kqueue_sub_monitor_emit_event en p GAMIN_EVENT_DELETED MONITOR_ISNOTDIR s1
             else if ev_fflags ev AND NOTE_RENAME \<noteq> 0
             then gam_kqueue_sub_monitor_emit_event en p GAMIN_EVENT_MOVED MONITOR_ISNOTDIR s1
             else Some s1 })"

definition gam_kqueue_file_monitor_handle_kevent ::
  "kenv \<Rightarrow> cptr \<Rightarrow> kevent \<Rightarrow> 'b ksrv_scheme \<Rightarrow> 'b ksrv_scheme option" where
  "gam_kqueue_file_monitor_handle_kevent en f ev s =
     (if ev_flags ev AND EV_ERROR \<noteq> 0 then gam_kqueue_file_monitor_set_unsupported en f s
      else
        do { s1 \<leftarrow> (if ev_fflags ev AND VN_NOTE_CHANGED \<noteq> 0
                    then gam_kqueue_file_monitor_emit_event en f GAMIN_EVENT_CHANGED 0 s else Some s);
             if ev_fflags ev AND VN_NOTE_DELETED \<noteq> 0
             then gam_kqueue_file_monitor_emit_event en f GAMIN_EVENT_DELETED
                    (MONITOR_ISNOTDIR OR FILE_MONITOR_POSSIBLY_RECREATED) s1
             else if ev_fflags ev AND NOTE_RENAME \<noteq> 0
             then gam_kqueue_file_monitor_emit_event en f GAMIN_EVENT_MOVED
                    (MONITOR_ISNOTDIR OR FILE_MONITOR_POSSIBLY_RECREATED) s1
             else Some s1 })"

text \<open>The handler of the monitor's class; a pointer that is neither kind of monitor is dangling.\<close>

definition handle_kevent :: "kenv \<Rightarrow> kevent \<Rightarrow> 'b ksrv_scheme \<Rightarrow> 'b ksrv_scheme option" where
  "handle_kevent en ev s =
     (if kq_smons s (ev_udata ev) \<noteq> None then gam_kqueue_sub_monitor_handle_kevent en (ev_udata ev) ev s
      else if kq_fmons s (ev_udata ev) \<noteq> None then gam_kqueue_file_monitor_handle_kevent en (ev_udata ev) ev s
      else None)"

fun handle_kevents :: "kenv \<Rightarrow> kevent list \<Rightarrow> 'b ksrv_scheme \<Rightarrow> 'b ksrv_scheme option" where
  "handle_kevents en [] s = Some s"
| "handle_kevents en (ev # evs) s = do { s1 \<leftarrow> handle_kevent en ev s; handle_kevents en evs s1 }"

text \<open>What \<^verbatim>\<open>kevent\<close> answers: nothing when it fails, else at most one event.\<close>

definition gam_kqueue_kevent_cb ::
  "kenv \<Rightarrow> kevent list option \<Rightarrow> 'b ksrv_scheme \<Rightarrow> (bool \<times> 'b ksrv_scheme) option" where
  "gam_kqueue_kevent_cb en evs s =
     (case evs of
        None \<Rightarrow> Some (True, s)
      | Some evs \<Rightarrow> do { s1 \<leftarrow> handle_kevents en evs s; Some (True, s1) })"

section \<open>Polling\<close>

definition CFG_UNSUPPORTED_SMON_KQUEUE_RETRY_FREQUENCY :: "32 word" where
  "CFG_UNSUPPORTED_SMON_KQUEUE_RETRY_FREQUENCY = 10"

definition CFG_UNSUPPORTED_FMON_KQUEUE_RETRY_FREQUENCY :: "32 word" where
  "CFG_UNSUPPORTED_FMON_KQUEUE_RETRY_FREQUENCY = 10"

definition gam_kqueue_missing_smon_poll :: "kenv \<Rightarrow> cptr \<Rightarrow> 'b ksrv_scheme \<Rightarrow> 'b ksrv_scheme option" where
  "gam_kqueue_missing_smon_poll en p s =
     do { sm \<leftarrow> kq_smons s p;
          let (r, s1) = kq_lstat en (mo_pathname sm) s
          in case r of
               None \<Rightarrow> Some s1
             | Some sb \<Rightarrow>
                 do { s2 \<leftarrow> gam_kqueue_poller_remove_sub_monitor missing_smon_poller p s1;
                      gam_kqueue_sub_monitor_enable_notification en p
                        (SUB_MONITOR_WAS_MISSING OR dir_flag (mode_isdir (ks_mode sb))) s2 } }"

text \<open>The event that polling finds, from the state seen now and the one seen before.\<close>

definition smon_poll_event :: "MiniStat \<Rightarrow> MiniStat \<Rightarrow> evtype option" where
  "smon_poll_event sb old =
     (if \<not> ms_exists sb \<and> ms_exists old then Some GAMIN_EVENT_DELETED
      else if gam_kqueue_differs sb old then Some GAMIN_EVENT_CHANGED
      else None)"

definition gam_kqueue_unsupported_smon_poll :: "kenv \<Rightarrow> cptr \<Rightarrow> 'b ksrv_scheme \<Rightarrow> 'b ksrv_scheme option" where
  "gam_kqueue_unsupported_smon_poll en p s =
     do { sm \<leftarrow> kq_smons s p;
          let sm0 = sm\<lparr>mo_poll_count := mo_poll_count sm + 1\<rparr>
          in do { s1 \<leftarrow> (if mo_poll_count sm0 = CFG_UNSUPPORTED_SMON_KQUEUE_RETRY_FREQUENCY then
                          (let (ok, sm1, s1) = gam_kqueue_monitor_enable_kqueue en p (sm0\<lparr>mo_poll_count := 0\<rparr>) s;
                               s2 = put_smon p sm1 s1
                           in if ok then gam_kqueue_poller_remove_sub_monitor missing_smon_poller p s2 else Some s2)
                         else Some (put_smon p sm0 s));
                  sm1 \<leftarrow> kq_smons s1 p;
                  let (sb, s2) = gam_kqueue_mini_lstat en (mo_pathname sm1) s1
                  in case smon_poll_event sb (mo_sb sm1) of
                       None \<Rightarrow> Some s2
                     | Some event \<Rightarrow>
                         gam_kqueue_sub_monitor_emit_event en p event (dir_flag (mode_isdir (ms_mode sb)))
                           (put_smon p (sm1\<lparr>mo_sb := sb\<rparr>) s2) } }"

definition gam_kqueue_unsupported_fmon_poll_foreach_cb :: "kenv \<Rightarrow> cptr \<Rightarrow> 'b ksrv_scheme \<Rightarrow> 'b ksrv_scheme option" where
  "gam_kqueue_unsupported_fmon_poll_foreach_cb en f s =
     do { fm \<leftarrow> kq_fmons s f;
          let fm0 = fm\<lparr>mo_poll_count := mo_poll_count fm + 1\<rparr>
          in do { s1 \<leftarrow> (if mo_poll_count fm0 = CFG_UNSUPPORTED_FMON_KQUEUE_RETRY_FREQUENCY then
                          (let (ok, fm1, s1) = gam_kqueue_monitor_enable_kqueue en f (fm0\<lparr>mo_poll_count := 0\<rparr>) s;
                               s2 = put_fmon f fm1 s1
                           in if ok then remove_unsupported (fm_smon fm1) f s2 else Some s2)
                         else Some (put_fmon f fm0 s));
                  fm1 \<leftarrow> kq_fmons s1 f;
                  let (sb, s2) = gam_kqueue_mini_lstat en (mo_pathname fm1) s1
                  in case smon_poll_event sb (mo_sb fm1) of
                       None \<Rightarrow> Some s2
                     | Some event \<Rightarrow>
                         gam_kqueue_file_monitor_emit_event en f event (dir_flag (mode_isdir (ms_mode sb)))
                           (put_fmon f (fm1\<lparr>mo_sb := sb\<rparr>) s2) } }"

definition gam_kqueue_unsupported_fmon_poll :: "kenv \<Rightarrow> cptr \<Rightarrow> 'b ksrv_scheme \<Rightarrow> 'b ksrv_scheme option" where
  "gam_kqueue_unsupported_fmon_poll en p s =
     gam_kqueue_hash_table_foreach en sub_monitor_unsupported_fmons_hash_table_methods (T_UNSUPPORTED p)
       (gam_kqueue_unsupported_fmon_poll_foreach_cb en) s"

fun poller_func :: "poller \<Rightarrow> kenv \<Rightarrow> cptr \<Rightarrow> 'b ksrv_scheme \<Rightarrow> 'b ksrv_scheme option" where
  "poller_func missing_smon_poller = gam_kqueue_missing_smon_poll"
| "poller_func unsupported_smon_poller = gam_kqueue_unsupported_smon_poll"
| "poller_func unsupported_fmon_poller = gam_kqueue_unsupported_fmon_poll"

section \<open>The kernel hooks\<close>

definition gam_kqueue_get_uint_sysctl :: "(string \<Rightarrow> 32 word option) \<Rightarrow> string \<Rightarrow> 32 word option" where
  "gam_kqueue_get_uint_sysctl sysctl name = sysctl name"

text \<open>\<^verbatim>\<open>maxfiles *= 0.7\<close> in double precision: 0.7 is 6305039478318694 / 2^53, the product is rounded to 53 bits, to an even
  one when it lies in the middle, and then cut to an integer.\<close>

function bit_size :: "int \<Rightarrow> nat" where
  "bit_size n = (if n \<le> 0 then 0 else Suc (bit_size (n div 2)))"
  by pat_completeness auto
termination by (relation "measure nat") auto

declare bit_size.simps [simp del]

definition round_double :: "int \<Rightarrow> int" where
  "round_double n =
     (if n < 2 ^ 53 then n
      else
        let u = 2 ^ (bit_size n - 53);
            q = n div u;
            r = n mod u
        in (if 2 * r > u \<or> (2 * r = u \<and> odd q) then q + 1 else q) * u)"

definition reserve_ratio :: "32 word \<Rightarrow> 32 word" where
  "reserve_ratio n = of_int (round_double (uint n * 6305039478318694) div 2 ^ 53)"

definition CFG_SELF_FILE_RESERVE :: "32 word" where "CFG_SELF_FILE_RESERVE = 200"

definition max_files :: "32 word \<Rightarrow> 32 word \<Rightarrow> 32 word" where
  "max_files maxfiles maxfilesperproc =
     min (reserve_ratio maxfiles)
       (if maxfilesperproc > CFG_SELF_FILE_RESERVE then maxfilesperproc - CFG_SELF_FILE_RESERVE else 0)"

definition gam_kqueue_add_subscription :: "kenv \<Rightarrow> cptr \<Rightarrow> 'b ksrv_scheme \<Rightarrow> (bool \<times> 'b ksrv_scheme) option" where
  "gam_kqueue_add_subscription en subp s =
     do { sub \<leftarrow> sv_subs s subp;
          l \<leftarrow> sub_listener sub;
          s1 \<leftarrow> gam_listener_add_subscription l subp s;
          case (if sub_is_dir sub then kq_dir_hash s1 else kq_file_hash s1) (sub_path sub) of
            Some p \<Rightarrow>
              do { sm \<leftarrow> kq_smons s1 p;
                   Some (True, put_smon p (sm\<lparr>sm_subs := sm_subs sm @ [subp]\<rparr>) s1) }
          | None \<Rightarrow>
              do { (p, s2) \<leftarrow> gam_kqueue_sub_monitor_new subp s1;
                   sm \<leftarrow> kq_smons s2 p;
                   let s3 = put_smon p (sm\<lparr>sm_subs := sm_subs sm @ [subp]\<rparr>) s2;
                       s4 = (if sub_is_dir sub then s3\<lparr>kq_dir_hash := (kq_dir_hash s3)(mo_pathname sm \<mapsto> p)\<rparr>
                             else s3\<lparr>kq_file_hash := (kq_file_hash s3)(mo_pathname sm \<mapsto> p)\<rparr>)
                   in do { s5 \<leftarrow> gam_kqueue_sub_monitor_enable_notification en p 0 s4; Some (True, s5) } } }"

definition gam_kqueue_remove_subscription :: "cptr \<Rightarrow> 'b ksrv_scheme \<Rightarrow> (bool \<times> 'b ksrv_scheme) option" where
  "gam_kqueue_remove_subscription subp s =
     do { sub \<leftarrow> sv_subs s subp;
          case (if sub_is_dir sub then kq_dir_hash s else kq_file_hash s) (sub_path sub) of
            None \<Rightarrow> Some (False, s)
          | Some p \<Rightarrow>
              do { sm \<leftarrow> kq_smons s p;
                   let subs = removeAll subp (sm_subs sm);
                       s1 = put_smon p (sm\<lparr>sm_subs := subs\<rparr>) s
                   in do { s2 \<leftarrow> (if subs = [] then
                                   gam_kqueue_sub_monitor_free p
                                     (if sub_is_dir sub then s1\<lparr>kq_dir_hash := (kq_dir_hash s1)(mo_pathname sm := None)\<rparr>
                                      else s1\<lparr>kq_file_hash := (kq_file_hash s1)(mo_pathname sm := None)\<rparr>)
                                  else Some s1);
                           sub2 \<leftarrow> sv_subs s2 subp;
                           Some (True, s2\<lparr>sv_subs := (sv_subs s2)(subp \<mapsto> gam_subscription_cancel sub2)\<rparr>) } } }"

fun remove_each :: "cptr list \<Rightarrow> 'b ksrv_scheme \<Rightarrow> (bool \<times> 'b ksrv_scheme) option" where
  "remove_each [] s = Some (True, s)"
| "remove_each (q # qs) s =
     do { (ok, s1) \<leftarrow> gam_kqueue_remove_subscription q s;
          (success, s2) \<leftarrow> remove_each qs s1;
          Some (ok \<and> success, s2) }"

definition gam_kqueue_remove_all_for :: "cptr \<Rightarrow> 'b ksrv_scheme \<Rightarrow> (bool \<times> 'b ksrv_scheme) option" where
  "gam_kqueue_remove_all_for l s = do { subs \<leftarrow> gam_listener_get_subscriptions l s; remove_each subs s }"

text \<open>Starting: \<open>kq\<close> is the descriptor \<^verbatim>\<open>kqueue\<close> answers with.\<close>

definition gam_kqueue_init ::
  "int \<Rightarrow> (string \<Rightarrow> 32 word option) \<Rightarrow> kenv \<Rightarrow> 'b ksrv_scheme hooks \<Rightarrow> 'b ksrv_scheme
     \<Rightarrow> bool \<times> 'b ksrv_scheme hooks \<times> 'b ksrv_scheme" where
  "gam_kqueue_init kq sysctl en hk s =
     (if kq < 0 then (False, hk, s)
      else case gam_kqueue_get_uint_sysctl sysctl ''kern.maxfiles'' of
        None \<Rightarrow> (False, hk, s)
      | Some maxfiles \<Rightarrow>
          (case gam_kqueue_get_uint_sysctl sysctl ''kern.maxfilesperproc'' of
             None \<Rightarrow> (False, hk, s)
           | Some maxfilesperproc \<Rightarrow>
               let s1 = s\<lparr>kq_max_open_files := max_files maxfiles maxfilesperproc,
                          kq_dir_hash := Map.empty, kq_file_hash := Map.empty\<rparr>;
                   s2 = gam_kqueue_poller_init missing_smon_poller 1000 s1;
                   s3 = gam_kqueue_poller_init unsupported_smon_poller 3000 s2;
                   s4 = gam_kqueue_poller_init unsupported_fmon_poller 3000 s3
               in (True, gam_server_install_kernel_hooks (gam_kqueue_add_subscription en) gam_kqueue_remove_subscription
                           gam_kqueue_remove_all_for hk, s4)))"

end
