(* ===== verification/Gam_Kqueue_Inv.thy ===== *)
theory Gam_Kqueue_Inv
  imports Gam_Kqueue Gam_Tree_Inv
begin

text \<open>
  The invariant of the kqueue back end and what its elementary operations keep of it: the tables that may be walked,
  the pollers, opening and closing of descriptors, and the file monitors of a directory.
\<close>

section \<open>Results\<close>

text \<open>An operation returns, and its result has a property.\<close>

definition succeeds :: "'a option \<Rightarrow> ('a \<Rightarrow> bool) \<Rightarrow> bool" where
  "succeeds m Q \<longleftrightarrow> (\<exists>x. m = Some x \<and> Q x)"

lemma succeeds_Some [simp]: "succeeds (Some x) Q = Q x"
  by (simp add: succeeds_def)

lemma succeeds_None [simp]: "\<not> succeeds None Q"
  by (simp add: succeeds_def)

lemma succeeds_bind: "succeeds (Option.bind m f) Q = succeeds m (\<lambda>x. succeeds (f x) Q)"
  by (cases m) simp_all

lemma succeeds_mono: "succeeds m P \<Longrightarrow> (\<And>x. m = Some x \<Longrightarrow> P x \<Longrightarrow> Q x) \<Longrightarrow> succeeds m Q"
  by (auto simp: succeeds_def)

lemma succeeds_step: "succeeds m P \<Longrightarrow> (\<And>x. P x \<Longrightarrow> succeeds (f x) Q) \<Longrightarrow> succeeds (Option.bind m f) Q"
  by (auto simp: succeeds_bind intro: succeeds_mono)

section \<open>The invariant\<close>

text \<open>What a table holds once the changes that wait for the end of the walk are made.\<close>

definition content :: "HashTable \<Rightarrow> cptr set" where
  "content h = (set (ht_main h) \<union> set (ht_additions h)) - set (ht_removals h)"

definition table_ok :: "HashTable \<Rightarrow> bool" where
  "table_ok h \<longleftrightarrow> distinct (ht_main h) \<and> (\<not> ht_iterating h \<longrightarrow> ht_additions h = [] \<and> ht_removals h = [])"

definition sub_table_ok :: "HashTable \<Rightarrow> bool" where
  "sub_table_ok h \<longleftrightarrow> table_ok h \<and> ht_additions h = [] \<and> set (ht_removals h) \<subseteq> set (ht_main h) \<and> distinct (ht_removals h)"

definition fmon_name :: "'b ksrv_scheme \<Rightarrow> cptr \<Rightarrow> string" where
  "fmon_name s f = fm_filename (the (kq_fmons s f))"

definition poller_content :: "'b ksrv_scheme \<Rightarrow> poller \<Rightarrow> cptr set" where
  "poller_content s k = content (po_smons (kq_pollers s k))"

text \<open>The file monitors without a descriptor.\<close>

definition closed_fmons :: "'b ksrv_scheme \<Rightarrow> cptr set" where
  "closed_fmons s = {f. \<exists>fm. kq_fmons s f = Some fm \<and> mo_fd fm < 0}"

definition owned_by :: "'b ksrv_scheme \<Rightarrow> string \<Rightarrow> cptr \<Rightarrow> cptr \<Rightarrow> bool" where
  "owned_by s d p f \<longleftrightarrow> (\<exists>fm. kq_fmons s f = Some fm \<and> fm_smon fm = p \<and> slash \<notin> set (fm_filename fm) \<and>
     mo_pathname fm = g_build_filename d (fm_filename fm))"

text \<open>The file monitors that have no descriptor are those that are polled, except for those in \<open>Y\<close>, which are about to
  change.\<close>

definition smon_ok :: "cptr set \<Rightarrow> 'b ksrv_scheme \<Rightarrow> cptr \<Rightarrow> SubMonitor \<Rightarrow> bool" where
  "smon_ok Y s p sm \<longleftrightarrow>
     sub_table_ok (sm_fmons sm) \<and> sub_table_ok (sm_unsupported sm) \<and>
     (\<forall>f \<in> set (ht_main (sm_fmons sm)). owned_by s (mo_pathname sm) p f) \<and>
     inj_on (fmon_name s) (set (ht_main (sm_fmons sm))) \<and>
     set (ht_main (sm_unsupported sm)) \<subseteq> {..<kq_next s} \<and>
     content (sm_unsupported sm) - Y = content (sm_fmons sm) \<inter> closed_fmons s - Y \<and>
     (p \<in> poller_content s unsupported_fmon_poller \<longleftrightarrow> ht_main (sm_unsupported sm) \<noteq> []) \<and>
     (\<forall>q \<in> set (sm_subs sm). sub_linked s (mo_pathname sm) q)"

definition poller_ok :: "'b ksrv_scheme \<Rightarrow> Poller \<Rightarrow> bool" where
  "poller_ok s po \<longleftrightarrow> table_ok (po_smons po) \<and>
     set (ht_main (po_smons po)) \<union> set (ht_additions (po_smons po)) \<subseteq> dom (kq_smons s) \<and>
     po_timeout po = (if ht_main (po_smons po) = [] then None else Some (po_interval po))"

definition mon_fd :: "'b ksrv_scheme \<Rightarrow> cptr \<Rightarrow> int option" where
  "mon_fd s q = (case kq_smons s q of Some sm \<Rightarrow> Some (mo_fd sm) | None \<Rightarrow> map_option mo_fd (kq_fmons s q))"

text \<open>The descriptors that are open are those of the monitors, each registered with its monitor, and they are counted.\<close>

definition fds_ok :: "'b ksrv_scheme \<Rightarrow> bool" where
  "fds_ok s \<longleftrightarrow> (\<forall>fd u. kq_fds s fd = Some u \<longleftrightarrow> 0 \<le> fd \<and> (\<exists>q. u = Some q \<and> mon_fd s q = Some fd)) \<and>
     finite (dom (kq_fds s)) \<and> unat (kq_open_files s) = card (dom (kq_fds s)) \<and> kq_open_files s \<le> kq_max_open_files s"

definition heap_ok :: "'b ksrv_scheme \<Rightarrow> bool" where
  "heap_ok s \<longleftrightarrow> dom (kq_smons s) \<union> dom (kq_fmons s) \<subseteq> {..<kq_next s} \<and> dom (kq_smons s) \<inter> dom (kq_fmons s) = {} \<and>
     (\<forall>f fm. kq_fmons s f = Some fm \<longrightarrow> (\<exists>sm. kq_smons s (fm_smon fm) = Some sm \<and> f \<in> set (ht_main (sm_fmons sm))))"

definition kq_inv :: "(cptr \<Rightarrow> cptr set) \<Rightarrow> 'b ksrv_scheme \<Rightarrow> bool" where
  "kq_inv Y s \<longleftrightarrow> heap_ok s \<and> fds_ok s \<and> (\<forall>k. poller_ok s (kq_pollers s k)) \<and>
     (\<forall>p sm. kq_smons s p = Some sm \<longrightarrow> smon_ok (Y p) s p sm)"

abbreviation none :: "cptr \<Rightarrow> cptr set" where "none \<equiv> (\<lambda>_. {})"

lemma kq_invD:
  assumes "kq_inv Y s"
  shows "heap_ok s" "fds_ok s" "poller_ok s (kq_pollers s k)"
    "kq_smons s p = Some sm \<Longrightarrow> smon_ok (Y p) s p sm"
  using assms by (auto simp: kq_inv_def)

lemma smon_okD:
  assumes "smon_ok Y s p sm"
  shows "sub_table_ok (sm_fmons sm)" "sub_table_ok (sm_unsupported sm)"
    "f \<in> set (ht_main (sm_fmons sm)) \<Longrightarrow> owned_by s (mo_pathname sm) p f"
    "inj_on (fmon_name s) (set (ht_main (sm_fmons sm)))"
    "set (ht_main (sm_unsupported sm)) \<subseteq> {..<kq_next s}"
    "content (sm_unsupported sm) - Y = content (sm_fmons sm) \<inter> closed_fmons s - Y"
    "p \<in> poller_content s unsupported_fmon_poller \<longleftrightarrow> ht_main (sm_unsupported sm) \<noteq> []"
    "q \<in> set (sm_subs sm) \<Longrightarrow> sub_linked s (mo_pathname sm) q"
  using assms unfolding smon_ok_def by blast+

lemma content_sub_table: "sub_table_ok h \<Longrightarrow> content h = set (ht_main h) - set (ht_removals h)"
  by (simp add: content_def sub_table_ok_def)

section \<open>What an operation on one subscription monitor leaves alone\<close>

definition same_sv :: "'b srv_scheme \<Rightarrow> 'b srv_scheme \<Rightarrow> bool" where
  "same_sv s s' \<longleftrightarrow> sv_subs s' = sv_subs s \<and> sv_listeners s' = sv_listeners s \<and>
     (\<forall>p. map_option cn_fd (sv_conns s' p) = map_option cn_fd (sv_conns s p))"

definition same_walk :: "HashTable \<Rightarrow> HashTable \<Rightarrow> bool" where
  "same_walk h h' \<longleftrightarrow> ht_iterating h' = ht_iterating h \<and> (ht_iterating h \<longrightarrow> ht_main h' = ht_main h)"

definition same_smon :: "SubMonitor \<Rightarrow> SubMonitor \<Rightarrow> bool" where
  "same_smon sm sm' \<longleftrightarrow> mo_pathname sm' = mo_pathname sm \<and> sm_isdir sm' = sm_isdir sm \<and> sm_subs sm' = sm_subs sm \<and>
     same_walk (sm_fmons sm) (sm_fmons sm') \<and> same_walk (sm_unsupported sm) (sm_unsupported sm')"

definition same_poller :: "cptr \<Rightarrow> Poller \<Rightarrow> Poller \<Rightarrow> bool" where
  "same_poller p po po' \<longleftrightarrow> po_interval po' = po_interval po \<and> same_walk (po_smons po) (po_smons po') \<and>
     content (po_smons po') - {p} = content (po_smons po) - {p}"

definition kframe :: "cptr \<Rightarrow> 'b ksrv_scheme \<Rightarrow> 'b ksrv_scheme \<Rightarrow> bool" where
  "kframe p s s' \<longleftrightarrow> same_sv s s' \<and> kq_dir_hash s' = kq_dir_hash s \<and> kq_file_hash s' = kq_file_hash s \<and>
     kq_max_open_files s' = kq_max_open_files s \<and> kq_next s \<le> kq_next s' \<and>
     (\<forall>r. r \<noteq> p \<longrightarrow> kq_smons s' r = kq_smons s r) \<and>
     (\<exists>sm sm'. kq_smons s p = Some sm \<and> kq_smons s' p = Some sm' \<and> same_smon sm sm') \<and>
     (\<forall>k. same_poller p (kq_pollers s k) (kq_pollers s' k)) \<and>
     (\<forall>f fm. kq_fmons s f = Some fm \<and> fm_smon fm \<noteq> p \<longrightarrow> kq_fmons s' f = Some fm)"

lemma same_sv_refl [simp]: "same_sv s s"
  by (simp add: same_sv_def)

lemma same_sv_trans: "same_sv s s' \<Longrightarrow> same_sv s' s'' \<Longrightarrow> same_sv s s''"
  by (simp add: same_sv_def)

lemma same_sv_quiet: "quiet s s' \<Longrightarrow> same_sv s s'"
  by (simp add: quiet_def same_sv_def)

lemma same_walk_refl [simp]: "same_walk h h"
  by (simp add: same_walk_def)

lemma same_walk_trans: "same_walk h h' \<Longrightarrow> same_walk h' h'' \<Longrightarrow> same_walk h h''"
  by (auto simp: same_walk_def)

lemma same_smon_refl [simp]: "same_smon sm sm"
  by (simp add: same_smon_def)

lemma same_smon_trans: "same_smon a b \<Longrightarrow> same_smon b c \<Longrightarrow> same_smon a c"
  by (auto simp: same_smon_def intro: same_walk_trans)

lemma same_poller_refl [simp]: "same_poller p po po"
  by (simp add: same_poller_def)

lemma same_poller_trans: "same_poller p a b \<Longrightarrow> same_poller p b c \<Longrightarrow> same_poller p a c"
  by (auto simp: same_poller_def intro: same_walk_trans)

lemma kframe_refl: "kq_smons s p = Some sm \<Longrightarrow> kframe p s s"
  by (simp add: kframe_def)

lemma kframe_trans: "kframe p s s' \<Longrightarrow> kframe p s' s'' \<Longrightarrow> kframe p s s''"
proof -
  assume a: "kframe p s s'" and b: "kframe p s' s''"
  obtain x x' where x: "kq_smons s p = Some x" "kq_smons s' p = Some x'" "same_smon x x'"
    using a by (auto simp: kframe_def)
  obtain y where y: "kq_smons s'' p = Some y" "same_smon x' y" using b x(2) by (auto simp: kframe_def)
  have "\<exists>sm sm'. kq_smons s p = Some sm \<and> kq_smons s'' p = Some sm' \<and> same_smon sm sm'"
    using x y same_smon_trans by blast
  moreover have "same_sv s s''" using a b by (auto simp: kframe_def intro: same_sv_trans)
  moreover have "same_poller p (kq_pollers s k) (kq_pollers s'' k)" for k
    using a b unfolding kframe_def by (blast intro: same_poller_trans)
  ultimately show ?thesis using a b by (simp add: kframe_def)
qed

lemma kframeE:
  assumes "kframe p s s'" "kq_smons s p = Some sm"
  obtains sm' where "kq_smons s' p = Some sm'" "same_smon sm sm'"
  using assms by (auto simp: kframe_def)

lemma kframeD:
  assumes "kframe p s s'"
  shows "same_sv s s'" "kq_dir_hash s' = kq_dir_hash s" "kq_file_hash s' = kq_file_hash s"
    "kq_max_open_files s' = kq_max_open_files s" "kq_next s \<le> kq_next s'"
    "r \<noteq> p \<Longrightarrow> kq_smons s' r = kq_smons s r" "same_poller p (kq_pollers s k) (kq_pollers s' k)"
    "dom (kq_smons s') = dom (kq_smons s)"
proof -
  show "dom (kq_smons s') = dom (kq_smons s)"
  proof (intro set_eqI)
    fix r show "r \<in> dom (kq_smons s') \<longleftrightarrow> r \<in> dom (kq_smons s)"
      using assms by (cases "r = p") (auto simp: kframe_def)
  qed
qed (use assms in \<open>auto simp: kframe_def\<close>)

lemma sub_linked_same_srv: "same_sv s s' \<Longrightarrow> sub_linked s' path q = sub_linked s path q"
proof -
  assume q: "same_sv s s'"
  have "(\<exists>c. sv_conns s' p = Some c \<and> 0 \<le> cn_fd c) \<longleftrightarrow> (\<exists>c. sv_conns s p = Some c \<and> 0 \<le> cn_fd c)" for p
    using q by (intro map_option_fd) (simp add: same_sv_def)
  then show ?thesis using q unfolding sub_linked_def same_sv_def by simp
qed

lemma poller_content_other:
  assumes "same_poller p (kq_pollers s k) (kq_pollers s' k)" "r \<noteq> p"
  shows "r \<in> poller_content s' k \<longleftrightarrow> r \<in> poller_content s k"
  using assms by (auto simp: same_poller_def poller_content_def)

text \<open>The other subscription monitors keep their part of the invariant.\<close>

lemma smon_ok_other:
  assumes inv: "kq_inv Y s" and fr: "kframe p s s'" and r: "r \<noteq> p" "kq_smons s r = Some sm"
  shows "smon_ok (Y r) s' r sm"
proof -
  have ok: "smon_ok (Y r) s r sm" by (rule kq_invD(4) [OF inv r(2)])
  let ?F = "set (ht_main (sm_fmons sm))"
  have same: "kq_fmons s' f = kq_fmons s f" if f: "f \<in> ?F" for f
  proof -
    obtain fm where "kq_fmons s f = Some fm" "fm_smon fm = r" using smon_okD(3) [OF ok f] unfolding owned_by_def by blast
    then show ?thesis using fr r(1) by (auto simp: kframe_def)
  qed
  have "content (sm_fmons sm) \<subseteq> ?F" using content_sub_table [OF smon_okD(1) [OF ok]] by blast
  then have c: "content (sm_fmons sm) \<inter> closed_fmons s' = content (sm_fmons sm) \<inter> closed_fmons s"
    using same by (auto simp: closed_fmons_def)
  have n: "fmon_name s' f = fmon_name s f" if "f \<in> ?F" for f using same [OF that] by (simp add: fmon_name_def)
  show ?thesis unfolding smon_ok_def
  proof (intro conjI ballI)
    show "inj_on (fmon_name s') ?F" using smon_okD(4) [OF ok] inj_on_cong [of ?F "fmon_name s'" "fmon_name s"] n by simp
    show "owned_by s' (mo_pathname sm) r f" if "f \<in> ?F" for f using smon_okD(3) [OF ok that] same [OF that] by (simp add: owned_by_def)
    show "set (ht_main (sm_unsupported sm)) \<subseteq> {..<kq_next s'}"
      using smon_okD(5) [OF ok] kframeD(5) [OF fr] by fastforce
    show "content (sm_unsupported sm) - Y r = content (sm_fmons sm) \<inter> closed_fmons s' - Y r"
      using smon_okD(6) [OF ok] c by simp
    show "(r \<in> poller_content s' unsupported_fmon_poller) = (ht_main (sm_unsupported sm) \<noteq> [])"
      using smon_okD(7) [OF ok] poller_content_other [OF kframeD(7) [OF fr] r(1)] by simp
    show "sub_linked s' (mo_pathname sm) q" if "q \<in> set (sm_subs sm)" for q
      using smon_okD(8) [OF ok that] sub_linked_same_srv [OF kframeD(1) [OF fr]] by simp
  qed (use smon_okD(1,2) [OF ok] in simp_all)
qed

text \<open>Building the invariant after an operation on the monitor \<open>p\<close>.\<close>

lemma kq_invI:
  assumes inv: "kq_inv Y s" and fr: "kframe p s s'" and Y': "\<And>r. r \<noteq> p \<Longrightarrow> Y' r = Y r"
    and "heap_ok s'" "fds_ok s'" and po: "\<And>k. poller_ok s' (kq_pollers s' k)"
    and sm: "\<And>sm. kq_smons s' p = Some sm \<Longrightarrow> smon_ok (Y' p) s' p sm"
  shows "kq_inv Y' s'"
  unfolding kq_inv_def
proof (intro conjI allI impI)
  fix r sm assume r: "kq_smons s' r = Some sm"
  show "smon_ok (Y' r) s' r sm"
  proof (cases "r = p")
    case True
    then show ?thesis using r sm by simp
  next
    case False
    then show ?thesis using smon_ok_other [OF inv fr False] kframeD(6) [OF fr False] r Y' [OF False] by simp
  qed
qed (use assms(4,5) po in auto)

section \<open>Descriptors\<close>

text \<open>\<^verbatim>\<open>open\<close> does not answer with a descriptor that is open.\<close>

definition fresh_fds :: "kenv \<Rightarrow> bool" where
  "fresh_fds en \<longleftrightarrow> (\<forall>t m path. ke_open en t m path \<ge> 0 \<longrightarrow> ke_open en t m path \<notin> dom m)"

lemma fds_same:
  assumes "fds_ok s" "kq_fds s' = kq_fds s" "kq_open_files s' = kq_open_files s" "kq_max_open_files s' = kq_max_open_files s"
    and "\<And>q fd. 0 \<le> fd \<Longrightarrow> mon_fd s' q = Some fd \<longleftrightarrow> mon_fd s q = Some fd"
  shows "fds_ok s'"
  using assms by (auto simp: fds_ok_def)

lemma fds_opened:
  assumes ok: "fds_ok s" and fd: "0 \<le> fd" "fd \<notin> dom (kq_fds s)" and neq: "kq_open_files s \<noteq> kq_max_open_files s"
    and s': "kq_fds s' = (kq_fds s)(fd \<mapsto> Some q)" "kq_open_files s' = kq_open_files s + 1"
      "kq_max_open_files s' = kq_max_open_files s"
    and old: "\<And>x. mon_fd s q = Some x \<Longrightarrow> x < 0" and new: "mon_fd s' = (mon_fd s)(q \<mapsto> fd)"
  shows "fds_ok s'"
proof -
  have lt: "kq_open_files s < kq_max_open_files s" using ok neq unfolding fds_ok_def by (blast intro: le_neq_trans)
  then have "kq_open_files s + 1 \<le> kq_max_open_files s" by (rule inc_le)
  moreover have "unat (kq_open_files s + 1) = Suc (unat (kq_open_files s))"
    using lt by unat_arith
  moreover have "kq_fds s' x = Some u \<longleftrightarrow> 0 \<le> x \<and> (\<exists>r. u = Some r \<and> mon_fd s' r = Some x)" for x u
  proof -
    have k: "kq_fds s y = Some v \<longleftrightarrow> 0 \<le> y \<and> (\<exists>r. v = Some r \<and> mon_fd s r = Some y)" for y v
      using ok by (simp add: fds_ok_def)
    have "mon_fd s r \<noteq> Some fd" for r using k [of fd "Some r"] fd by auto
    then have at: "mon_fd s' r = Some fd \<longleftrightarrow> r = q" for r by (simp add: new)
    have "mon_fd s' r = Some x \<longleftrightarrow> mon_fd s r = Some x" if "0 \<le> x" "x \<noteq> fd" for r
      using that old by (cases "r = q") (auto simp: new)
    then show ?thesis using k [of x u] at fd(1) by (cases "x = fd") (auto simp: s'(1))
  qed
  ultimately show ?thesis using ok fd(2) s' by (simp add: fds_ok_def)
qed

lemma fds_closed:
  assumes ok: "fds_ok s" and fd: "0 \<le> fd" "mon_fd s q = Some fd"
    and s': "kq_fds s' = (kq_fds s)(fd := None)" "kq_open_files s' = kq_open_files s - 1"
      "kq_max_open_files s' = kq_max_open_files s"
    and new: "mon_fd s' = (mon_fd s)(q := y)" and y: "\<And>x. y = Some x \<Longrightarrow> x < 0"
  shows "fds_ok s'"
proof -
  have k: "kq_fds s x = Some v \<longleftrightarrow> 0 \<le> x \<and> (\<exists>r. v = Some r \<and> mon_fd s r = Some x)" for x v
    using ok by (simp add: fds_ok_def)
  have at: "kq_fds s fd = Some (Some q)" using k fd by simp
  have fin: "finite (dom (kq_fds s))" and c: "unat (kq_open_files s) = card (dom (kq_fds s))"
    using ok by (simp_all add: fds_ok_def)
  have in_dom: "fd \<in> dom (kq_fds s)" using at by blast
  have pos: "unat (kq_open_files s) > 0" using c in_dom fin by (auto simp: card_gt_0_iff)
  then have nz: "kq_open_files s \<noteq> 0" by auto
  have u: "unat (kq_open_files s - 1) = unat (kq_open_files s) - 1" using nz by (simp add: unat_minus_one)
  then have "unat (kq_open_files s') = card (dom (kq_fds s'))"
    using c s' in_dom fin by (simp add: card_Diff_singleton)
  moreover have "kq_open_files s' \<le> kq_max_open_files s'"
    using ok s' u unfolding fds_ok_def word_le_nat_alt by (metis diff_le_self order_trans)
  moreover have "kq_fds s' x = Some u \<longleftrightarrow> 0 \<le> x \<and> (\<exists>r. u = Some r \<and> mon_fd s' r = Some x)" for x u
  proof -
    have "mon_fd s r = Some fd \<Longrightarrow> r = q" for r using k [of fd "Some r"] at fd by simp
    then have at: "mon_fd s' r \<noteq> Some fd" for r using y fd(1) by (cases "r = q") (auto simp: new)
    have "mon_fd s' r = Some x \<longleftrightarrow> mon_fd s r = Some x" if "0 \<le> x" "x \<noteq> fd" for r
      using that y fd(2) by (cases "r = q") (auto simp: new)
    then show ?thesis using k [of x u] at by (cases "x = fd") (auto simp: s'(1))
  qed
  ultimately show ?thesis using fin s' by (simp add: fds_ok_def)
qed

text \<open>Asking for kernel events either opens one descriptor for the monitor or changes nothing.\<close>

lemma enable_kqueue_cases:
  assumes en: "fresh_fds en" and e: "gam_kqueue_monitor_enable_kqueue en q mon s = (ok, mon', s')"
    and neg: "mo_fd mon < 0"
  obtains (opened) t fd where "ok" "0 \<le> fd" "fd \<notin> dom (kq_fds s)" "mon' = mon\<lparr>mo_fd := fd\<rparr>" "kq_open_files s \<noteq> kq_max_open_files s"
      "s' = s\<lparr>kq_tick := t, kq_fds := (kq_fds s)(fd \<mapsto> Some q), kq_open_files := kq_open_files s + 1\<rparr>"
  | (failed) t fd where "\<not> ok" "fd < 0" "mon' = mon\<lparr>mo_fd := fd\<rparr>" "s' = s\<lparr>kq_tick := t\<rparr>"
proof -
  let ?fd = "ke_open en (kq_tick s) (kq_fds s) (mo_pathname mon)"
  consider "kq_open_files s = kq_max_open_files s" | "kq_open_files s \<noteq> kq_max_open_files s" "?fd < 0"
    | "kq_open_files s \<noteq> kq_max_open_files s" "0 \<le> ?fd" "ke_kevent en (Suc (kq_tick s)) ?fd"
    | "kq_open_files s \<noteq> kq_max_open_files s" "0 \<le> ?fd" "\<not> ke_kevent en (Suc (kq_tick s)) ?fd"
    by (cases "kq_open_files s = kq_max_open_files s"; cases "?fd < 0"; cases "ke_kevent en (Suc (kq_tick s)) ?fd")
       (simp_all add: not_less)
  then show thesis
  proof cases
    case 1
    show thesis by (rule failed [of "mo_fd mon" "kq_tick s"]) (use 1 e neg in \<open>auto simp: gam_kqueue_monitor_enable_kqueue_def\<close>)
  next
    case 2
    show thesis by (rule failed [of ?fd "Suc (kq_tick s)"]) (use 2 e in \<open>auto simp: gam_kqueue_monitor_enable_kqueue_def kq_open_def\<close>)
  next
    case 3
    show thesis by (rule opened [of ?fd "Suc (Suc (kq_tick s))"]) (use 3 e en in \<open>auto simp: gam_kqueue_monitor_enable_kqueue_def kq_open_def kq_kevent_def fresh_fds_def\<close>)
  next
    case 4
    have "kq_fds s ?fd = None" using en 4(2) by (auto simp: fresh_fds_def)
    then have "(kq_fds s)(?fd := None) = kq_fds s" by (simp add: fun_upd_idem)
    then show thesis by (intro failed [of "-1" "Suc (Suc (kq_tick s))"]) (use 4 e in \<open>auto simp: gam_kqueue_monitor_enable_kqueue_def kq_open_def kq_kevent_def kq_close_def\<close>)
  qed
qed

section \<open>Pollers\<close>

abbreviation set_poller :: "poller \<Rightarrow> Poller \<Rightarrow> 'b ksrv_scheme \<Rightarrow> 'b ksrv_scheme" where
  "set_poller k po s \<equiv> s\<lparr>kq_pollers := (kq_pollers s)(k := po)\<rparr>"

lemma poller_add_effect:
  assumes ok: "poller_ok s (kq_pollers s k)" and p: "p \<in> dom (kq_smons s)" "p \<notin> set (ht_removals (po_smons (kq_pollers s k)))"
  shows "succeeds (gam_kqueue_poller_add_sub_monitor k p s) (\<lambda>s'. \<exists>po'. s' = set_poller k po' s \<and> poller_ok s po' \<and>
    same_poller p (kq_pollers s k) po' \<and> content (po_smons po') = insert p (content (po_smons (kq_pollers s k))))"
proof -
  let ?po = "kq_pollers s k" and ?h = "po_smons (kq_pollers s k)"
  show ?thesis
  proof (cases "ht_iterating ?h")
    case True
    let ?po' = "?po\<lparr>po_smons := ?h\<lparr>ht_additions := p # ht_additions ?h\<rparr>\<rparr>"
    have "gam_kqueue_poller_add_sub_monitor k p s = Some (set_poller k ?po' s)"
      using True by (simp add: gam_kqueue_poller_add_sub_monitor_def gam_kqueue_hash_table_add_def)
    then show ?thesis using ok p True
      by (auto simp: poller_ok_def table_ok_def same_poller_def same_walk_def content_def intro!: exI [of _ ?po'])
  next
    case False
    let ?main = "if p \<in> set (ht_main ?h) then ht_main ?h else ht_main ?h @ [p]"
    let ?po1 = "?po\<lparr>po_smons := ?h\<lparr>ht_main := ?main\<rparr>\<rparr>"
    let ?po' = "if po_timeout ?po = None then ?po1\<lparr>po_timeout := Some (po_interval ?po)\<rparr> else ?po1"
    have pend: "ht_additions ?h = []" "ht_removals ?h = []" using ok False by (auto simp: poller_ok_def table_ok_def)
    have "gam_kqueue_poller_add_sub_monitor k p s = Some (set_poller k ?po' s)"
      using False by (cases "po_timeout ?po") (simp_all add: gam_kqueue_poller_add_sub_monitor_def gam_kqueue_hash_table_add_def
          poller_hash_table_methods_def gam_kqueue_hash_table_default_add_cb_def post_def)
    moreover have "poller_ok s ?po'" using ok p False
      by (auto simp: poller_ok_def table_ok_def)
    moreover have "same_poller p ?po ?po'" using pend False by (auto simp: same_poller_def same_walk_def content_def)
    moreover have "content (po_smons ?po') = insert p (content ?h)" using pend by (auto simp: content_def)
    ultimately show ?thesis unfolding succeeds_def by blast
  qed
qed

lemma poller_remove_effect:
  assumes ok: "poller_ok s (kq_pollers s k)"
  shows "succeeds (gam_kqueue_poller_remove_sub_monitor k p s) (\<lambda>s'. \<exists>po'. s' = set_poller k po' s \<and> poller_ok s po' \<and>
    same_poller p (kq_pollers s k) po' \<and> content (po_smons po') = content (po_smons (kq_pollers s k)) - {p} \<and>
    (\<not> ht_iterating (po_smons (kq_pollers s k)) \<longrightarrow> p \<notin> set (ht_main (po_smons po'))))"
proof -
  let ?po = "kq_pollers s k" and ?h = "po_smons (kq_pollers s k)"
  show ?thesis
  proof (cases "ht_iterating ?h")
    case True
    let ?po' = "?po\<lparr>po_smons := ?h\<lparr>ht_removals := p # ht_removals ?h\<rparr>\<rparr>"
    have "gam_kqueue_poller_remove_sub_monitor k p s = Some (set_poller k ?po' s)"
      using True by (simp add: gam_kqueue_poller_remove_sub_monitor_def gam_kqueue_hash_table_remove_def)
    then show ?thesis using ok True
      by (auto simp: poller_ok_def table_ok_def same_poller_def same_walk_def content_def intro!: exI [of _ ?po'])
  next
    case False
    let ?main = "removeAll p (ht_main ?h)"
    let ?po1 = "?po\<lparr>po_smons := ?h\<lparr>ht_main := ?main\<rparr>\<rparr>"
    let ?po' = "if ?main = [] \<and> po_timeout ?po \<noteq> None then ?po1\<lparr>po_timeout := None\<rparr> else ?po1"
    have pend: "ht_additions ?h = []" "ht_removals ?h = []" using ok False by (auto simp: poller_ok_def table_ok_def)
    have "gam_kqueue_poller_remove_sub_monitor k p s = Some (set_poller k ?po' s)"
      using False by (cases "po_timeout ?po") (simp_all add: gam_kqueue_poller_remove_sub_monitor_def gam_kqueue_hash_table_remove_def
          poller_hash_table_methods_def gam_kqueue_hash_table_default_remove_cb_def post_def)
    moreover have "poller_ok s ?po'" using ok False
      by (auto simp: poller_ok_def table_ok_def distinct_removeAll)
    moreover have h: "po_smons ?po' = ?h\<lparr>ht_main := ?main\<rparr>" "po_interval ?po' = po_interval ?po" by simp_all
    have "same_poller p ?po ?po'" using pend False by (simp only: same_poller_def h) (auto simp: same_walk_def content_def)
    moreover have "content (po_smons ?po') = content ?h - {p}" "p \<notin> set (ht_main (po_smons ?po'))"
      unfolding h using pend by (auto simp: content_def)
    ultimately show ?thesis unfolding succeeds_def by blast
  qed
qed

section \<open>Changes to one monitor\<close>

text \<open>The parts of the state that changes to monitors and tables leave alone.\<close>

definition same_rest :: "'b ksrv_scheme \<Rightarrow> 'b ksrv_scheme \<Rightarrow> bool" where
  "same_rest s s' \<longleftrightarrow> same_sv s s' \<and> kq_dir_hash s' = kq_dir_hash s \<and> kq_file_hash s' = kq_file_hash s \<and>
     kq_max_open_files s' = kq_max_open_files s"

lemma same_rest_refl [simp]: "same_rest s s"
  by (simp add: same_rest_def)

lemma same_rest_upd [simp]:
  "same_rest s (s\<lparr>kq_tick := t\<rparr>)" "same_rest s (put_smon p sm s)" "same_rest s (put_fmon f fm s)"
  "same_rest s (set_poller k po s)"
  by (simp_all add: same_rest_def same_sv_def put_smon_def put_fmon_def)

lemma mon_fd_cong: "kq_smons s' = kq_smons s \<Longrightarrow> kq_fmons s' = kq_fmons s \<Longrightarrow> mon_fd s' = mon_fd s"
  by (simp add: mon_fd_def fun_eq_iff split: option.split)

lemma mon_fd_upd [simp]: "mon_fd (s\<lparr>kq_tick := t\<rparr>) = mon_fd s" "mon_fd (set_poller k po s) = mon_fd s"
  by (rule mon_fd_cong; simp)+

lemma mon_fd_smon:
  "kq_smons s' = (kq_smons s)(p \<mapsto> sm') \<Longrightarrow> kq_fmons s' = kq_fmons s \<Longrightarrow> mon_fd s' = (mon_fd s)(p \<mapsto> mo_fd sm')"
  by (simp add: mon_fd_def fun_eq_iff split: option.split)

lemma mon_fd_fmon:
  "kq_fmons s' = (kq_fmons s)(f := x) \<Longrightarrow> kq_smons s' = kq_smons s \<Longrightarrow> kq_smons s f = None \<Longrightarrow>
     mon_fd s' = (mon_fd s)(f := map_option mo_fd x)"
  by (simp add: mon_fd_def fun_eq_iff split: option.split)

lemma mon_fd_Some: "kq_smons s p = Some sm \<Longrightarrow> mon_fd s p = Some (mo_fd sm)"
  "kq_smons s f = None \<Longrightarrow> kq_fmons s f = Some fm \<Longrightarrow> mon_fd s f = Some (mo_fd fm)"
  by (simp_all add: mon_fd_def)

lemma kq_inv_tick [simp]: "kq_inv Y (s\<lparr>kq_tick := t\<rparr>) = kq_inv Y s"
  by (simp add: kq_inv_def heap_ok_def fds_ok_def poller_ok_def smon_ok_def owned_by_def fmon_name_def
      closed_fmons_def poller_content_def sub_linked_def inj_on_def)

lemma kframe_tick [simp]: "kframe p s (s'\<lparr>kq_tick := t\<rparr>) = kframe p s s'" "kframe p (s\<lparr>kq_tick := t\<rparr>) s' = kframe p s s'"
  by (simp_all add: kframe_def same_sv_def)

lemma poller_ok_dom: "dom (kq_smons s') = dom (kq_smons s) \<Longrightarrow> poller_ok s' po = poller_ok s po"
  by (simp add: poller_ok_def)

text \<open>A poller changes at \<open>p\<close>.\<close>

lemma set_poller_inv:
  assumes inv: "kq_inv Y s" and p: "kq_smons s p = Some sm" and ok: "poller_ok s po'" "same_poller p (kq_pollers s k) po'"
    and u: "k = unsupported_fmon_poller \<Longrightarrow> p \<in> content (po_smons po') \<longleftrightarrow> ht_main (sm_unsupported sm) \<noteq> []"
  shows "kq_inv Y (set_poller k po' s) \<and> kframe p s (set_poller k po' s)"
proof
  show fr: "kframe p s (set_poller k po' s)" using p ok(2) by (simp add: kframe_def same_sv_def)
  have sm: "smon_ok (Y p) s p sm" by (rule kq_invD(4) [OF inv p])
  show "kq_inv Y (set_poller k po' s)"
  proof (rule kq_invI [OF inv fr])
    show "heap_ok (set_poller k po' s)" using kq_invD(1) [OF inv] by (simp add: heap_ok_def)
    show "fds_ok (set_poller k po' s)" using kq_invD(2) [OF inv] by (simp add: fds_ok_def)
    show "poller_ok (set_poller k po' s) (kq_pollers (set_poller k po' s) j)" for j
      using ok(1) kq_invD(3) [OF inv, of j] by (simp add: poller_ok_def)
    fix sm' assume "kq_smons (set_poller k po' s) p = Some sm'"
    then show "smon_ok (Y p) (set_poller k po' s) p sm'"
      using sm p u by (simp add: smon_ok_def owned_by_def fmon_name_def closed_fmons_def poller_content_def sub_linked_def inj_on_def)
  qed simp
qed

text \<open>The fields of a file monitor change, perhaps its descriptor.\<close>

lemma put_fmon_inv:
  assumes inv: "kq_inv Y s" and f: "kq_fmons s f = Some fm" "fm_smon fm = p"
    and fm': "fm_smon fm' = p" "fm_filename fm' = fm_filename fm" "mo_pathname fm' = mo_pathname fm" "f \<in> Y p \<or> (mo_fd fm' < 0 \<longleftrightarrow> mo_fd fm < 0)"
    and s': "kq_fmons s' = (kq_fmons s)(f \<mapsto> fm')" "kq_smons s' = kq_smons s" "kq_pollers s' = kq_pollers s"
      "kq_next s' = kq_next s" "same_rest s s'" "fds_ok s'"
  shows "kq_inv Y s' \<and> kframe p s s'"
proof
  obtain sm where p: "kq_smons s p = Some sm" "f \<in> set (ht_main (sm_fmons sm))"
    using kq_invD(1) [OF inv] f unfolding heap_ok_def by blast
  show fr: "kframe p s s'" using p s' f by (auto simp: kframe_def same_rest_def)
  have sm: "smon_ok (Y p) s p sm" by (rule kq_invD(4) [OF inv p(1)])
  show "kq_inv Y s'"
  proof (rule kq_invI [OF inv fr _ _ s'(6)])
    show "heap_ok s'" using kq_invD(1) [OF inv] f fm' p unfolding heap_ok_def s'(1,2,4) by (auto split: if_splits)
    show "poller_ok s' (kq_pollers s' k)" for k using kq_invD(3) [OF inv, of k] s'(2,3) by (simp add: poller_ok_def)
    fix sm' assume "kq_smons s' p = Some sm'"
    then have [simp]: "sm' = sm" using p s'(2) by simp
    have o: "owned_by s' (mo_pathname sm) p g" if "g \<in> set (ht_main (sm_fmons sm))" for g
      using smon_okD(3) [OF sm that] smon_okD(3) [OF sm p(2)] f fm' by (auto simp: owned_by_def s'(1))
    have n: "fmon_name s' = fmon_name s" using f(1) fm'(2) by (auto simp: fmon_name_def fun_eq_iff s'(1))
    have "closed_fmons s' - Y p = closed_fmons s - Y p" using f(1) fm'(4) by (auto simp: closed_fmons_def s'(1))
    then have "content (sm_unsupported sm) - Y p = content (sm_fmons sm) \<inter> closed_fmons s' - Y p"
      using smon_okD(6) [OF sm] by blast
    moreover have "sub_linked s' = sub_linked s" using s'(5) by (simp add: fun_eq_iff sub_linked_same_srv same_rest_def)
    ultimately show "smon_ok (Y p) s' p sm'"
      using smon_okD [OF sm] o s'(3,4) unfolding smon_ok_def n by (simp add: poller_content_def)
  qed simp
qed

text \<open>The fields of a subscription monitor change, but not its tables.\<close>

lemma put_smon_inv:
  assumes inv: "kq_inv Y s" and p: "kq_smons s p = Some sm"
    and sm': "sm_fmons sm' = sm_fmons sm" "sm_unsupported sm' = sm_unsupported sm" "sm_subs sm' = sm_subs sm"
      "mo_pathname sm' = mo_pathname sm" "sm_isdir sm' = sm_isdir sm"
    and s': "kq_smons s' = (kq_smons s)(p \<mapsto> sm')" "kq_fmons s' = kq_fmons s" "kq_pollers s' = kq_pollers s"
      "kq_next s' = kq_next s" "same_rest s s'" "fds_ok s'"
  shows "kq_inv Y s' \<and> kframe p s s'"
proof
  show fr: "kframe p s s'" using p s' sm' by (auto simp: kframe_def same_rest_def same_smon_def)
  have sm: "smon_ok (Y p) s p sm" by (rule kq_invD(4) [OF inv p(1)])
  have d: "dom (kq_smons s') = dom (kq_smons s)" using p s'(1) by auto
  show "kq_inv Y s'"
  proof (rule kq_invI [OF inv fr _ _ s'(6)])
    show "heap_ok s'" using kq_invD(1) [OF inv] p sm' unfolding heap_ok_def d s'(2,4) unfolding s'(1) by (auto split: if_splits) fastforce+
    show "poller_ok s' (kq_pollers s' k)" for k using kq_invD(3) [OF inv, of k] s'(3) d by (simp add: poller_ok_def)
    fix sm2 assume "kq_smons s' p = Some sm2"
    then have [simp]: "sm2 = sm'" using s'(1) by simp
    have "sub_linked s' = sub_linked s" using s'(5) by (simp add: fun_eq_iff sub_linked_same_srv same_rest_def)
    moreover have "fmon_name s' = fmon_name s" "closed_fmons s' = closed_fmons s" "owned_by s' = owned_by s"
      by (auto simp: fmon_name_def closed_fmons_def owned_by_def fun_eq_iff s'(2))
    ultimately show "smon_ok (Y p) s' p sm2"
      using sm s'(3,4) sm' unfolding smon_ok_def by (simp add: poller_content_def)
  qed simp
qed

text \<open>The table of polled file monitors changes, and with it the poller.\<close>

lemma put_unsupported_inv:
  assumes inv: "kq_inv Y s" and p: "kq_smons s p = Some sm"
    and h: "sub_table_ok h" "set (ht_main h) \<subseteq> {..<kq_next s}" "same_walk (sm_unsupported sm) h"
      "content h - Z = content (sm_fmons sm) \<inter> closed_fmons s - Z"
    and po: "poller_ok s po'" "same_poller p (kq_pollers s unsupported_fmon_poller) po'"
      "p \<in> content (po_smons po') \<longleftrightarrow> ht_main h \<noteq> []"
    and s': "s' = set_poller unsupported_fmon_poller po' (put_smon p (sm\<lparr>sm_unsupported := h\<rparr>) s)"
  shows "kq_inv (Y(p := Z)) s' \<and> kframe p s s'"
proof
  show fr: "kframe p s s'" using p h(3) po(2) unfolding s' by (simp add: kframe_def same_sv_def same_smon_def put_smon_def)
  have sm: "smon_ok (Y p) s p sm" by (rule kq_invD(4) [OF inv p(1)])
  have d: "dom (kq_smons s') = dom (kq_smons s)" using p by (auto simp: s' put_smon_def)
  have F: "kq_fmons s' = kq_fmons s" by (simp add: s' put_smon_def)
  show "kq_inv (Y(p := Z)) s'"
  proof (rule kq_invI [OF inv fr])
    show "heap_ok s'" using kq_invD(1) [OF inv] p unfolding heap_ok_def d F by (auto simp: s' put_smon_def) fastforce+
    have "mon_fd s' = mon_fd s"
      using mon_fd_smon [of s' s p "sm\<lparr>sm_unsupported := h\<rparr>"] mon_fd_Some(1) [OF p] by (simp add: s' put_smon_def fun_upd_idem)
    then show "fds_ok s'" by (intro fds_same [OF kq_invD(2) [OF inv]]) (simp_all add: s' put_smon_def)
    show "poller_ok s' (kq_pollers s' k)" for k
      using po(1) kq_invD(3) [OF inv, of k] unfolding poller_ok_dom [OF d] by (simp add: s' put_smon_def)
    fix sm2 assume "kq_smons s' p = Some sm2"
    then have [simp]: "sm2 = sm\<lparr>sm_unsupported := h\<rparr>" by (simp add: s' put_smon_def)
    have "sub_linked s' = sub_linked s"
      by (intro ext sub_linked_same_srv kframeD(1) [OF fr])
    moreover have "fmon_name s' = fmon_name s" "closed_fmons s' = closed_fmons s" "owned_by s' = owned_by s"
      by (auto simp: fmon_name_def closed_fmons_def owned_by_def fun_eq_iff F)
    moreover have "p \<in> poller_content s' unsupported_fmon_poller \<longleftrightarrow> ht_main h \<noteq> []" "kq_next s' = kq_next s"
      using po(3) by (simp_all add: s' put_smon_def poller_content_def)
    ultimately show "smon_ok ((Y(p := Z)) p) s' p sm2"
      using sm h unfolding smon_ok_def by simp
  qed simp
qed

section \<open>The tables of a directory\<close>

lemma upd_unsupported: "kq_smons s p = Some sm \<Longrightarrow>
    upd_table (T_UNSUPPORTED p) g s = put_smon p (sm\<lparr>sm_unsupported := g (sm_unsupported sm)\<rparr>) s"
  by (simp add: put_smon_def)

lemma upd_fmons: "kq_smons s p = Some sm \<Longrightarrow>
    upd_table (T_FMONS p) g s = put_smon p (sm\<lparr>sm_fmons := g (sm_fmons sm)\<rparr>) s"
  by (simp add: put_smon_def)

lemma put_smon_same [simp]:
  "kq_smons (put_smon p sm s) = (kq_smons s)(p \<mapsto> sm)" "kq_fmons (put_smon p sm s) = kq_fmons s"
  "kq_pollers (put_smon p sm s) = kq_pollers s" "kq_next (put_smon p sm s) = kq_next s"
  "kq_fds (put_smon p sm s) = kq_fds s" "kq_open_files (put_smon p sm s) = kq_open_files s"
  "kq_max_open_files (put_smon p sm s) = kq_max_open_files s" "kq_tick (put_smon p sm s) = kq_tick s"
  "kq_dir_hash (put_smon p sm s) = kq_dir_hash s" "kq_file_hash (put_smon p sm s) = kq_file_hash s"
  "sv_subs (put_smon p sm s) = sv_subs s" "sv_listeners (put_smon p sm s) = sv_listeners s"
  "sv_conns (put_smon p sm s) = sv_conns s"
  by (simp_all add: put_smon_def)

lemma put_fmon_same [simp]:
  "kq_smons (put_fmon p sm s) = kq_smons s" "kq_fmons (put_fmon p sm s) = (kq_fmons s)(p \<mapsto> sm)"
  "kq_pollers (put_fmon p sm s) = kq_pollers s" "kq_next (put_fmon p sm s) = kq_next s"
  "kq_fds (put_fmon p sm s) = kq_fds s" "kq_open_files (put_fmon p sm s) = kq_open_files s"
  "kq_max_open_files (put_fmon p sm s) = kq_max_open_files s" "kq_tick (put_fmon p sm s) = kq_tick s"
  "kq_dir_hash (put_fmon p sm s) = kq_dir_hash s" "kq_file_hash (put_fmon p sm s) = kq_file_hash s"
  "sv_subs (put_fmon p sm s) = sv_subs s" "sv_listeners (put_fmon p sm s) = sv_listeners s"
  "sv_conns (put_fmon p sm s) = sv_conns s"
  by (simp_all add: put_fmon_def)

text \<open>The state after a change to the table of polled file monitors.\<close>

abbreviation unsupported_changed :: "cptr \<Rightarrow> SubMonitor \<Rightarrow> HashTable \<Rightarrow> Poller \<Rightarrow> 'b ksrv_scheme \<Rightarrow> 'b ksrv_scheme" where
  "unsupported_changed p sm h po s \<equiv> set_poller unsupported_fmon_poller po (put_smon p (sm\<lparr>sm_unsupported := h\<rparr>) s)"

lemma content_remove: "sub_table_ok h \<Longrightarrow> \<not> ht_iterating h \<Longrightarrow>
    content (h\<lparr>ht_main := removeAll f (ht_main h)\<rparr>) = content h - {f}"
  by (auto simp: content_def sub_table_ok_def table_ok_def)

lemma content_defer: "sub_table_ok h \<Longrightarrow> content (h\<lparr>ht_removals := f # ht_removals h\<rparr>) = content h - {f}"
  by (auto simp: content_def)

lemma remove_unsupported_ok:
  assumes inv: "kq_inv Y s" and p: "kq_smons s p = Some sm"
    and f: "ht_iterating (sm_unsupported sm) \<Longrightarrow> f \<in> content (sm_unsupported sm)"
  shows "succeeds (remove_unsupported p f s) (\<lambda>s'. \<exists>h po. s' = unsupported_changed p sm h po s \<and>
    content h = content (sm_unsupported sm) - {f} \<and> kq_inv (Y(p := insert f (Y p))) s' \<and> kframe p s s')"
proof -
  let ?u = "sm_unsupported sm" and ?po = "kq_pollers s unsupported_fmon_poller"
  note sm = kq_invD(4) [OF inv p]
  note ok = kq_invD(3) [OF inv, of unsupported_fmon_poller]
  have new: "content h - insert f (Y p) = content (sm_fmons sm) \<inter> closed_fmons s - insert f (Y p)"
    if "content h = content ?u - {f}" for h using smon_okD(6) [OF sm] that by blast
  have iff: "p \<in> content (po_smons ?po) \<longleftrightarrow> ht_main ?u \<noteq> []" using smon_okD(7) [OF sm] by (simp add: poller_content_def)
  show ?thesis
  proof (cases "ht_iterating ?u")
    case True
    let ?h = "?u\<lparr>ht_removals := f # ht_removals ?u\<rparr>"
    have c: "content ?h = content ?u - {f}" by (rule content_defer [OF smon_okD(2) [OF sm]])
    have "sub_table_ok ?h" using smon_okD(2) [OF sm] f [OF True] True by (auto simp: sub_table_ok_def table_ok_def content_def)
    then have "kq_inv (Y(p := insert f (Y p))) (unsupported_changed p sm ?h ?po s) \<and> kframe p s (unsupported_changed p sm ?h ?po s)"
      by (intro put_unsupported_inv [OF inv p _ _ _ new [OF c] ok _ _ refl])
         (use smon_okD(5) [OF sm] iff in \<open>simp_all add: same_walk_def\<close>)
    moreover have "remove_unsupported p f s = Some (unsupported_changed p sm ?h ?po s)"
      using True p by (simp add: remove_unsupported_def gam_kqueue_hash_table_remove_def put_smon_def)
    ultimately show ?thesis using c unfolding succeeds_def by blast
  next
    case False
    let ?h = "?u\<lparr>ht_main := removeAll f (ht_main ?u)\<rparr>"
    let ?s1 = "put_smon p (sm\<lparr>sm_unsupported := ?h\<rparr>) s"
    have c: "content ?h = content ?u - {f}" by (rule content_remove [OF smon_okD(2) [OF sm] False])
    have t: "sub_table_ok ?h" using smon_okD(2) [OF sm] False by (auto simp: sub_table_ok_def table_ok_def distinct_removeAll)
    have d: "dom (kq_smons ?s1) = dom (kq_smons s)" using p by auto
    have e: "remove_unsupported p f s =
        (if ht_main ?h = [] then gam_kqueue_poller_remove_sub_monitor unsupported_fmon_poller p ?s1 else Some ?s1)"
      using False p by (simp add: remove_unsupported_def gam_kqueue_hash_table_remove_def put_smon_def
          sub_monitor_unsupported_fmons_hash_table_methods_def gam_kqueue_hash_table_default_remove_cb_def post_def)
    have in_u: "set (ht_main ?h) \<subseteq> {..<kq_next s}" using smon_okD(5) [OF sm] by auto
    have walk: "same_walk ?u ?h" using False by (simp add: same_walk_def)
    show ?thesis
    proof (cases "ht_main ?h = []")
      case True
      have ok1: "poller_ok ?s1 (kq_pollers ?s1 unsupported_fmon_poller)" using ok unfolding poller_ok_dom [OF d] by simp
      obtain po' where po': "gam_kqueue_poller_remove_sub_monitor unsupported_fmon_poller p ?s1 = Some (unsupported_changed p sm ?h po' s)"
          "poller_ok ?s1 po'" "same_poller p ?po po'" "content (po_smons po') = content (po_smons ?po) - {p}"
        using poller_remove_effect [OF ok1, of p] by (auto simp: succeeds_def)
      have "kq_inv (Y(p := insert f (Y p))) (unsupported_changed p sm ?h po' s) \<and> kframe p s (unsupported_changed p sm ?h po' s)"
        by (rule put_unsupported_inv [OF inv p t in_u walk new [OF c] _ po'(3) _ refl])
           (use po'(2,4) poller_ok_dom [OF d] True in simp_all)
      then show ?thesis using True c unfolding succeeds_def e po'(1) by auto
    next
      case nonempty: False
      then have "ht_main ?u \<noteq> []" by auto
      then have "kq_inv (Y(p := insert f (Y p))) (unsupported_changed p sm ?h ?po s) \<and> kframe p s (unsupported_changed p sm ?h ?po s)"
        by (intro put_unsupported_inv [OF inv p t in_u walk new [OF c] ok _ _ refl]) (use iff nonempty in simp_all)
      moreover have "unsupported_changed p sm ?h ?po s = ?s1" by (simp add: put_smon_def)
      ultimately show ?thesis using nonempty c unfolding succeeds_def e by metis
    qed
  qed
qed

lemma add_unsupported_ok:
  assumes inv: "kq_inv Y s" and p: "kq_smons s p = Some sm" and it: "\<not> ht_iterating (sm_unsupported sm)"
    and up: "\<not> ht_iterating (po_smons (kq_pollers s unsupported_fmon_poller))"
    and f: "f < kq_next s" "f \<in> content (sm_fmons sm) \<inter> closed_fmons s"
  shows "succeeds (add_unsupported p f s) (\<lambda>s'. \<exists>h po. s' = unsupported_changed p sm h po s \<and>
    content h = insert f (content (sm_unsupported sm)) \<and> kq_inv (Y(p := Y p - {f})) s' \<and> kframe p s s')"
proof -
  let ?u = "sm_unsupported sm" and ?po = "kq_pollers s unsupported_fmon_poller"
  note sm = kq_invD(4) [OF inv p]
  note ok = kq_invD(3) [OF inv, of unsupported_fmon_poller]
  let ?h = "?u\<lparr>ht_main := (if f \<in> set (ht_main ?u) then ht_main ?u else ht_main ?u @ [f])\<rparr>"
  let ?s1 = "put_smon p (sm\<lparr>sm_unsupported := ?h\<rparr>) s"
  have pend: "ht_additions ?u = []" "ht_removals ?u = []" using smon_okD(2) [OF sm] it by (auto simp: sub_table_ok_def table_ok_def)
  have c: "content ?h = insert f (content ?u)" using pend by (auto simp: content_def)
  have t: "sub_table_ok ?h" using smon_okD(2) [OF sm] it by (auto simp: sub_table_ok_def table_ok_def)
  have new: "content ?h - (Y p - {f}) = content (sm_fmons sm) \<inter> closed_fmons s - (Y p - {f})"
    unfolding c using smon_okD(6) [OF sm] f(2) by blast
  have d: "dom (kq_smons ?s1) = dom (kq_smons s)" using p by auto
  have e: "add_unsupported p f s = gam_kqueue_poller_add_sub_monitor unsupported_fmon_poller p ?s1"
    using it p by (simp add: add_unsupported_def gam_kqueue_hash_table_add_def put_smon_def
        sub_monitor_unsupported_fmons_hash_table_methods_def gam_kqueue_hash_table_default_add_cb_def post_def)
  have ok1: "poller_ok ?s1 (kq_pollers ?s1 unsupported_fmon_poller)" using ok unfolding poller_ok_dom [OF d] by simp
  have "p \<notin> set (ht_removals (po_smons (kq_pollers ?s1 unsupported_fmon_poller)))"
    using ok up by (auto simp: poller_ok_def table_ok_def)
  then obtain po' where po': "gam_kqueue_poller_add_sub_monitor unsupported_fmon_poller p ?s1 = Some (unsupported_changed p sm ?h po' s)"
      "poller_ok ?s1 po'" "same_poller p ?po po'" "content (po_smons po') = insert p (content (po_smons ?po))"
    using poller_add_effect [OF ok1, of p] by (auto simp: succeeds_def)
  have "kq_inv (Y(p := Y p - {f})) (unsupported_changed p sm ?h po' s) \<and> kframe p s (unsupported_changed p sm ?h po' s)"
  proof (rule put_unsupported_inv [OF inv p t _ _ new _ po'(3) _ refl])
    show "set (ht_main ?h) \<subseteq> {..<kq_next s}" using smon_okD(5) [OF sm] f(1) by auto
    show "same_walk ?u ?h" using it by (simp add: same_walk_def)
    show "poller_ok s po'" using po'(2) unfolding poller_ok_dom [OF d] .
    show "(p \<in> content (po_smons po')) = (ht_main ?h \<noteq> [])" using po'(4) by auto
  qed
  then show ?thesis using c unfolding succeeds_def e po'(1) by blast
qed

section \<open>Making and freeing file monitors\<close>

lemma lookup_name_found:
  "f \<in> set fs \<Longrightarrow> \<forall>g \<in> set fs. kq_fmons s g \<noteq> None \<Longrightarrow> inj_on (fmon_name s) (set fs) \<Longrightarrow>
     lookup_name (fmon_name s f) fs s = Some (Some f)"
proof (induction fs)
  case (Cons g fs)
  obtain gm where g: "kq_fmons s g = Some gm" using Cons.prems(2) by auto
  show ?case
  proof (cases "fmon_name s g = fmon_name s f")
    case True
    then have "g = f" using Cons.prems(1,3) by (meson inj_onD list.set_intros(1))
    then show ?thesis using g by (simp add: fmon_name_def)
  next
    case False
    then have "f \<in> set fs" "fm_filename gm \<noteq> fmon_name s f" using Cons.prems(1) g by (auto simp: fmon_name_def)
    moreover have "lookup_name (fmon_name s f) fs s = Some (Some f)"
      by (rule Cons.IH) (use Cons.prems \<open>f \<in> set fs\<close> in \<open>auto simp: inj_on_def\<close>)
    ultimately show ?thesis using g by simp
  qed
qed simp

lemma lookup_name_none:
  "\<forall>g \<in> set fs. kq_fmons s g \<noteq> None \<Longrightarrow> name \<notin> fmon_name s ` set fs \<Longrightarrow> lookup_name name fs s = Some None"
  by (induction fs) (auto simp: fmon_name_def)

lemma owned_not_smon: "heap_ok s \<Longrightarrow> kq_fmons s f = Some fm \<Longrightarrow> kq_smons s f = None"
  unfolding heap_ok_def by (metis IntI domI empty_iff option.exhaust)

lemma free_effect:
  assumes "kq_smons s f = None" "fds_ok s" "kq_fmons s f = Some fm"
  shows "succeeds (gam_kqueue_file_monitor_free f s) (\<lambda>s'. fds_ok s' \<and>
    s' = s\<lparr>kq_fmons := (kq_fmons s)(f := None), kq_fds := kq_fds s', kq_open_files := kq_open_files s'\<rparr>)"
proof -
  obtain s' where e: "gam_kqueue_file_monitor_free f s = Some s'"
    and s': "s' = s\<lparr>kq_fmons := (kq_fmons s)(f := None), kq_fds := kq_fds s', kq_open_files := kq_open_files s'\<rparr>"
      "kq_fds s' = (if mo_fd fm \<ge> 0 then (kq_fds s)(mo_fd fm := None) else kq_fds s)"
      "kq_open_files s' = (if mo_fd fm \<ge> 0 then kq_open_files s - 1 else kq_open_files s)"
    using assms(3) by (auto simp: gam_kqueue_file_monitor_free_def gam_kqueue_monitor_free_def close_monitor_def kq_close_def)
  note sm = assms(1)
  have F: "kq_fmons s' = (kq_fmons s)(f := None)" "kq_smons s' = kq_smons s" "kq_max_open_files s' = kq_max_open_files s"
    by (subst s'(1), simp)+
  have m: "mon_fd s' = (mon_fd s)(f := None)" using mon_fd_fmon [OF F(1,2) sm] by simp
  have old: "mon_fd s f = Some (mo_fd fm)" by (rule mon_fd_Some(2) [OF sm assms(3)])
  have "fds_ok s'"
  proof (cases "mo_fd fm \<ge> 0")
    case True
    show ?thesis by (rule fds_closed [OF assms(2) True old _ _ F(3) m]) (use True s'(2,3) in simp_all)
  next
    case False
    then show ?thesis using old F(3) s'(2,3) by (intro fds_same [OF assms(2)]) (auto simp: m)
  qed
  then show ?thesis using e s'(1) by simp
qed

text \<open>A file monitor leaves the table and is freed.\<close>

lemma drop_fmon_inv:
  assumes inv: "kq_inv Y s" and p: "kq_smons s p = Some sm" and f: "f \<in> set (ht_main (sm_fmons sm))" "f \<notin> content (sm_unsupported sm)"
    and it: "\<not> ht_iterating (sm_fmons sm)"
    and s': "kq_fmons s' = (kq_fmons s)(f := None)"
      "kq_smons s' = (kq_smons s)(p \<mapsto> sm\<lparr>sm_fmons := (sm_fmons sm)\<lparr>ht_main := removeAll f (ht_main (sm_fmons sm))\<rparr>\<rparr>)"
      "kq_pollers s' = kq_pollers s" "kq_next s' = kq_next s" "same_rest s s'" "fds_ok s'"
  shows "kq_inv (Y(p := Y p - {f})) s' \<and> kframe p s s'"
proof
  note sm = kq_invD(4) [OF inv p] and heap = kq_invD(1) [OF inv]
  let ?h = "(sm_fmons sm)\<lparr>ht_main := removeAll f (ht_main (sm_fmons sm))\<rparr>"
  obtain fm where fm: "kq_fmons s f = Some fm" "fm_smon fm = p" using smon_okD(3) [OF sm f(1)] unfolding owned_by_def by blast
  have c: "content ?h = content (sm_fmons sm) - {f}" by (rule content_remove [OF smon_okD(1) [OF sm] it])
  have walk: "same_walk (sm_fmons sm) ?h" using it by (simp add: same_walk_def)
  show fr: "kframe p s s'" using p s' fm walk by (auto simp: kframe_def same_rest_def same_smon_def)
  have d: "dom (kq_smons s') = dom (kq_smons s)" by (rule kframeD(8) [OF fr])
  show "kq_inv (Y(p := Y p - {f})) s'"
  proof (rule kq_invI [OF inv fr _ _ s'(6)])
    show "heap_ok s'" unfolding heap_ok_def d s'(4)
    proof (intro conjI allI impI)
      show "dom (kq_smons s) \<union> dom (kq_fmons s') \<subseteq> {..<kq_next s}" "dom (kq_smons s) \<inter> dom (kq_fmons s') = {}"
        using heap by (auto simp: heap_ok_def s'(1))
      fix g gm assume g: "kq_fmons s' g = Some gm"
      then have "g \<noteq> f" "kq_fmons s g = Some gm" by (auto simp: s'(1) split: if_splits)
      with heap obtain sm2 where "kq_smons s (fm_smon gm) = Some sm2" "g \<in> set (ht_main (sm_fmons sm2))"
        unfolding heap_ok_def by blast
      then show "\<exists>sm. kq_smons s' (fm_smon gm) = Some sm \<and> g \<in> set (ht_main (sm_fmons sm))"
        using p \<open>g \<noteq> f\<close> by (auto simp: s'(2))
    qed
    show "poller_ok s' (kq_pollers s' k)" for k using kq_invD(3) [OF inv, of k] by (simp add: s'(3) poller_ok_dom [OF d])
    fix sm2 assume "kq_smons s' p = Some sm2"
    then have [simp]: "sm2 = sm\<lparr>sm_fmons := ?h\<rparr>" by (simp add: s'(2))
    have own: "owned_by s' (mo_pathname sm) p g" if "g \<in> set (ht_main ?h)" for g
      using smon_okD(3) [OF sm, of g] that by (auto simp: owned_by_def s'(1))
    have "inj_on (fmon_name s) (set (ht_main ?h))" using smon_okD(4) [OF sm] by (auto intro: inj_on_subset)
    then have inj: "inj_on (fmon_name s') (set (ht_main ?h))" by (auto simp: inj_on_def fmon_name_def s'(1))
    have "closed_fmons s' = closed_fmons s - {f}" by (auto simp: closed_fmons_def s'(1))
    then have "content (sm_unsupported sm) - (Y p - {f}) = content ?h \<inter> closed_fmons s' - (Y p - {f})"
      using smon_okD(6) [OF sm] f(2) unfolding c by blast
    moreover have "sub_linked s' = sub_linked s" by (intro ext sub_linked_same_srv kframeD(1) [OF fr])
    moreover have "sub_table_ok ?h" using smon_okD(1) [OF sm] it by (auto simp: sub_table_ok_def table_ok_def distinct_removeAll)
    ultimately show "smon_ok ((Y(p := Y p - {f})) p) s' p sm2"
      using smon_okD(2,5,7,8) [OF sm] own inj unfolding smon_ok_def by (simp add: poller_content_def s'(3,4))
  qed simp
qed

text \<open>A new file monitor enters the table, without a descriptor.\<close>

lemma insert_fmon_inv:
  assumes inv: "kq_inv Y s" and p: "kq_smons s p = Some sm" and it: "\<not> ht_iterating (sm_fmons sm)"
    and f: "f = kq_next s" "fm_smon fm = p" "mo_fd fm < 0" "slash \<notin> set (fm_filename fm)"
      "mo_pathname fm = g_build_filename (mo_pathname sm) (fm_filename fm)" "fm_filename fm \<notin> fmon_name s ` set (ht_main (sm_fmons sm))"
    and s': "kq_fmons s' = (kq_fmons s)(f \<mapsto> fm)"
      "kq_smons s' = (kq_smons s)(p \<mapsto> sm\<lparr>sm_fmons := (sm_fmons sm)\<lparr>ht_main := ht_main (sm_fmons sm) @ [f]\<rparr>\<rparr>)"
      "kq_pollers s' = kq_pollers s" "kq_next s' = Suc f" "same_rest s s'"
      "kq_fds s' = kq_fds s" "kq_open_files s' = kq_open_files s"
  shows "kq_inv (Y(p := insert f (Y p))) s' \<and> kframe p s s'"
proof
  note sm = kq_invD(4) [OF inv p] and heap = kq_invD(1) [OF inv]
  let ?h = "(sm_fmons sm)\<lparr>ht_main := ht_main (sm_fmons sm) @ [f]\<rparr>"
  have fresh: "kq_fmons s f = None" "kq_smons s f = None" using heap f(1) by (auto simp: heap_ok_def)
  have main: "g \<noteq> f" if "g \<in> set (ht_main (sm_fmons sm))" for g
    using smon_okD(3) [OF sm that] fresh(1) by (auto simp: owned_by_def)
  have walk: "same_walk (sm_fmons sm) ?h" using it by (simp add: same_walk_def)
  show fr: "kframe p s s'" using p s' f walk fresh(1) by (auto simp: kframe_def same_rest_def same_smon_def)
  have d: "dom (kq_smons s') = dom (kq_smons s)" by (rule kframeD(8) [OF fr])
  have pf: "p \<noteq> f" using p fresh by auto
  show "kq_inv (Y(p := insert f (Y p))) s'"
  proof (rule kq_invI [OF inv fr])
    show "heap_ok s'" unfolding heap_ok_def d s'(4)
    proof (intro conjI allI impI)
      show "dom (kq_smons s) \<union> dom (kq_fmons s') \<subseteq> {..<Suc f}" "dom (kq_smons s) \<inter> dom (kq_fmons s') = {}"
        using heap fresh f(1) unfolding heap_ok_def s'(1) by fastforce+
      fix g gm assume g: "kq_fmons s' g = Some gm"
      show "\<exists>sm. kq_smons s' (fm_smon gm) = Some sm \<and> g \<in> set (ht_main (sm_fmons sm))"
      proof (cases "g = f")
        case True
        then show ?thesis using g f(2) by (simp add: s'(1,2))
      next
        case False
        then have "kq_fmons s g = Some gm" using g by (simp add: s'(1))
        with heap obtain sm2 where "kq_smons s (fm_smon gm) = Some sm2" "g \<in> set (ht_main (sm_fmons sm2))"
          unfolding heap_ok_def by blast
        then show ?thesis using p by (auto simp: s'(2))
      qed
    qed
    have "mon_fd s' q = (if q = f then Some (mo_fd fm) else mon_fd s q)" for q
      using p pf fresh by (auto simp: mon_fd_def s'(1,2) split: option.split)
    then show "fds_ok s'" using f(3) s'(5) fresh by (intro fds_same [OF kq_invD(2) [OF inv] s'(6,7)]) (auto simp: same_rest_def mon_fd_def)
    show "poller_ok s' (kq_pollers s' k)" for k using kq_invD(3) [OF inv, of k] by (simp add: s'(3) poller_ok_dom [OF d])
    fix sm2 assume "kq_smons s' p = Some sm2"
    then have [simp]: "sm2 = sm\<lparr>sm_fmons := ?h\<rparr>" by (simp add: s'(2))
    have own: "owned_by s' (mo_pathname sm) p g" if "g \<in> set (ht_main ?h)" for g
      using smon_okD(3) [OF sm, of g] main that f(2,4,5) by (auto simp: owned_by_def s'(1))
    have n: "fmon_name s' g = (if g = f then fm_filename fm else fmon_name s g)" for g by (simp add: fmon_name_def s'(1))
    have "fmon_name s g \<noteq> fm_filename fm" if "g \<in> set (ht_main (sm_fmons sm))" for g using f(6) that by force
    then have inj: "inj_on (fmon_name s') (set (ht_main ?h))"
      using smon_okD(4) [OF sm] main unfolding inj_on_def n by (auto split: if_splits) metis+
    have "closed_fmons s' - {f} = closed_fmons s - {f}" by (auto simp: closed_fmons_def s'(1))
    moreover have "content ?h - {f} = content (sm_fmons sm) - {f}" by (auto simp: content_def)
    ultimately have "content (sm_unsupported sm) - insert f (Y p) = content ?h \<inter> closed_fmons s' - insert f (Y p)"
      using smon_okD(6) [OF sm] by blast
    moreover have "sub_linked s' = sub_linked s" by (intro ext sub_linked_same_srv kframeD(1) [OF fr])
    moreover have "sub_table_ok ?h" using smon_okD(1) [OF sm] it main by (auto simp: sub_table_ok_def table_ok_def)
    moreover have "set (ht_main (sm_unsupported sm)) \<subseteq> {..<kq_next s'}" using smon_okD(5) [OF sm] by (auto simp: s'(4) f(1))
    ultimately show "smon_ok ((Y(p := insert f (Y p))) p) s' p sm2"
      using smon_okD(2,7,8) [OF sm] own inj unfolding smon_ok_def by (simp add: poller_content_def s'(3))
  qed simp
qed

end
