(* ===== verification/Gam_Kqueue_Files.thy ===== *)
theory Gam_Kqueue_Files
  imports Gam_Kqueue_Inv
begin

unbundle bit_operations_syntax

text \<open>
  What the operations of the kqueue back end on monitors do: the events of a file monitor, a change in a directory,
  the loss of a monitored path, and turning on notification.
\<close>

section \<open>File monitors enter and leave their table\<close>

lemma post_None [simp]: "post None t = Some"
  by (simp add: post_def fun_eq_iff)

text \<open>Exemptions of monitors that are in neither table can be dropped.\<close>

lemma kq_inv_drop:
  assumes inv: "kq_inv Y s" and p: "kq_smons s p = Some sm" and Z: "Z \<subseteq> Y p"
    and gone: "\<And>g. g \<in> Y p - Z \<Longrightarrow> g \<in> content (sm_unsupported sm) \<longleftrightarrow> g \<in> content (sm_fmons sm) \<inter> closed_fmons s"
  shows "kq_inv (Y(p := Z)) s"
proof (rule kq_invI [OF inv kframe_refl [OF p]])
  fix sm2 assume "kq_smons s p = Some sm2"
  then have [simp]: "sm2 = sm" using p by simp
  have "content (sm_unsupported sm) - Z = content (sm_fmons sm) \<inter> closed_fmons s - Z"
    using smon_okD(6) [OF kq_invD(4) [OF inv p]] Z gone by blast
  then show "smon_ok ((Y(p := Z)) p) s p sm2" using kq_invD(4) [OF inv p] unfolding smon_ok_def by simp
qed (use inv in \<open>auto simp: kq_inv_def\<close>)

text \<open>The state after a change to the table of file monitors that leaves the pollers alone.\<close>

definition fmons_changed :: "cptr \<Rightarrow> SubMonitor \<Rightarrow> HashTable \<Rightarrow> 'b ksrv_scheme \<Rightarrow> 'b ksrv_scheme \<Rightarrow> bool" where
  "fmons_changed p sm h s s' \<longleftrightarrow> kq_smons s' = (kq_smons s)(p \<mapsto> sm\<lparr>sm_fmons := h\<rparr>) \<and> kq_pollers s' = kq_pollers s \<and>
     kq_tick s' = kq_tick s \<and> srv.truncate s' = srv.truncate s"

lemma remove_fmon_ok:
  assumes inv: "kq_inv Y s" and p: "kq_smons s p = Some sm"
    and f: "f \<in> content (sm_fmons sm)" "f \<notin> content (sm_unsupported sm)"
  shows "succeeds (remove_fmon p f s) (\<lambda>s'. kq_inv (Y(p := Y p - {f})) s' \<and> kframe p s s' \<and>
    (\<exists>h. fmons_changed p sm h s s' \<and> content h = content (sm_fmons sm) - {f}) \<and>
    kq_fmons s' = (if ht_iterating (sm_fmons sm) then kq_fmons s else (kq_fmons s)(f := None)))"
proof -
  let ?h = "sm_fmons sm"
  note sm = kq_invD(4) [OF inv p] and heap = kq_invD(1) [OF inv]
  have main: "f \<in> set (ht_main ?h)" using f(1) content_sub_table [OF smon_okD(1) [OF sm]] by blast
  show ?thesis
  proof (cases "ht_iterating ?h")
    case True
    let ?h' = "?h\<lparr>ht_removals := f # ht_removals ?h\<rparr>"
    let ?s' = "put_smon p (sm\<lparr>sm_fmons := ?h'\<rparr>) s"
    have e: "remove_fmon p f s = Some ?s'"
      using True p by (simp add: remove_fmon_def gam_kqueue_hash_table_remove_def put_smon_def)
    have c: "content ?h' = content ?h - {f}" by (rule content_defer [OF smon_okD(1) [OF sm]])
    have fr: "kframe p s ?s'" using p by (simp add: kframe_def same_sv_def same_smon_def same_walk_def)
    have d: "dom (kq_smons ?s') = dom (kq_smons s)" by (rule kframeD(8) [OF fr])
    have "kq_inv (Y(p := Y p - {f})) ?s'"
    proof (rule kq_invI [OF inv fr])
      show "heap_ok ?s'" using heap p unfolding heap_ok_def d by (auto simp: put_smon_def) fastforce+
      have "mon_fd ?s' = mon_fd s"
        using mon_fd_smon [of ?s' s p "sm\<lparr>sm_fmons := ?h'\<rparr>"] mon_fd_Some(1) [OF p] by (simp add: fun_upd_idem)
      then show "fds_ok ?s'" by (intro fds_same [OF kq_invD(2) [OF inv]]) simp_all
      show "poller_ok ?s' (kq_pollers ?s' k)" for k using kq_invD(3) [OF inv, of k] unfolding poller_ok_dom [OF d] by simp
      fix sm2 assume "kq_smons ?s' p = Some sm2"
      then have [simp]: "sm2 = sm\<lparr>sm_fmons := ?h'\<rparr>" by simp
      have "content (sm_unsupported sm) - (Y p - {f}) = content ?h' \<inter> closed_fmons s - (Y p - {f})"
        unfolding c using smon_okD(6) [OF sm] f(2) by blast
      moreover have "sub_table_ok ?h'" using smon_okD(1) [OF sm] True main f(1) by (auto simp: sub_table_ok_def table_ok_def content_def)
      moreover have "sub_linked ?s' = sub_linked s" by (intro ext sub_linked_same_srv kframeD(1) [OF fr])
      moreover have "fmon_name ?s' = fmon_name s" "closed_fmons ?s' = closed_fmons s" "owned_by ?s' = owned_by s"
        by (simp_all add: fmon_name_def closed_fmons_def owned_by_def fun_eq_iff)
      ultimately show "smon_ok ((Y(p := Y p - {f})) p) ?s' p sm2"
        using sm unfolding smon_ok_def by (simp add: poller_content_def)
    qed simp
    then show ?thesis using e c True fr by (auto simp: fmons_changed_def put_smon_def srv.defs)
  next
    case False
    let ?h' = "?h\<lparr>ht_main := removeAll f (ht_main ?h)\<rparr>"
    let ?s1 = "put_smon p (sm\<lparr>sm_fmons := ?h'\<rparr>) s"
    obtain fm where fm: "kq_fmons s f = Some fm" using smon_okD(3) [OF sm main] unfolding owned_by_def by blast
    have own: "\<forall>g \<in> set (ht_main ?h). kq_fmons s g \<noteq> None" using smon_okD(3) [OF sm] by (auto simp: owned_by_def)
    have "fm_filename fm = fmon_name s f" using fm by (simp add: fmon_name_def)
    then have e: "remove_fmon p f s = gam_kqueue_file_monitor_free f ?s1"
      using False p fm lookup_name_found [OF main own smon_okD(4) [OF sm]]
      by (simp add: remove_fmon_def gam_kqueue_hash_table_remove_def put_smon_def sub_monitor_fmons_hash_table_methods_def
          gam_kqueue_sub_monitor_remove_fmon_cb_def post_def)
    have pf: "p \<noteq> f" using owned_not_smon [OF heap fm] p by auto
    have c: "content ?h' = content ?h - {f}" by (rule content_remove [OF smon_okD(1) [OF sm] False])
    have "mon_fd ?s1 = mon_fd s"
      using mon_fd_smon [of ?s1 s p "sm\<lparr>sm_fmons := ?h'\<rparr>"] mon_fd_Some(1) [OF p] by (simp add: fun_upd_idem)
    then have fds1: "fds_ok ?s1" by (intro fds_same [OF kq_invD(2) [OF inv]]) simp_all
    have sf: "kq_smons ?s1 f = None" using owned_not_smon [OF heap fm] pf by simp
    obtain s' where s': "gam_kqueue_file_monitor_free f ?s1 = Some s'" "fds_ok s'"
        "s' = ?s1\<lparr>kq_fmons := (kq_fmons ?s1)(f := None), kq_fds := kq_fds s', kq_open_files := kq_open_files s'\<rparr>"
      using free_effect [OF sf fds1, of fm] fm by (auto simp: succeeds_def)
    have F: "kq_fmons s' = (kq_fmons s)(f := None)" "kq_smons s' = (kq_smons s)(p \<mapsto> sm\<lparr>sm_fmons := ?h'\<rparr>)"
        "kq_pollers s' = kq_pollers s" "kq_next s' = kq_next s" "same_rest s s'" "kq_tick s' = kq_tick s"
        "srv.truncate s' = srv.truncate s"
      by (subst s'(3), simp add: same_rest_def same_sv_def put_smon_def srv.defs)+
    have "kq_inv (Y(p := Y p - {f})) s' \<and> kframe p s s'"
      by (rule drop_fmon_inv [OF inv p main f(2) False F(1-5) s'(2)])
    then show ?thesis using e s'(1) c F False by (auto simp: fmons_changed_def)
  qed
qed

text \<open>A new file monitor enters the table; one with the same name that was there is freed.\<close>

lemma add_fmon_ok:
  assumes inv: "kq_inv Y s" and p: "kq_smons s p = Some sm" and it: "\<not> ht_iterating (sm_fmons sm)"
    and f: "f = kq_next s" "fm_smon fm = p" "mo_fd fm < 0" "slash \<notin> set (fm_filename fm)"
      "mo_pathname fm = g_build_filename (mo_pathname sm) (fm_filename fm)"
    and old: "\<And>g. g \<in> set (ht_main (sm_fmons sm)) \<Longrightarrow> fmon_name s g = fm_filename fm \<Longrightarrow> g \<notin> content (sm_unsupported sm)"
  shows "succeeds (add_fmon p f (put_fmon f fm (s\<lparr>kq_next := Suc f\<rparr>))) (\<lambda>s'.
    kq_inv (Y(p := insert f (Y p \<inter> {g. g \<in> set (ht_main (sm_fmons sm)) \<longrightarrow> fmon_name s g \<noteq> fm_filename fm}))) s' \<and> kframe p s s' \<and>
    (\<exists>h. fmons_changed p sm h s s' \<and> \<not> ht_iterating h \<and>
      set (ht_main h) = insert f {g \<in> set (ht_main (sm_fmons sm)). fmon_name s g \<noteq> fm_filename fm}) \<and>
    kq_fmons s' f = Some fm \<and>
    (\<forall>g \<in> set (ht_main (sm_fmons sm)). fmon_name s g \<noteq> fm_filename fm \<longrightarrow> kq_fmons s' g = kq_fmons s g))"
proof -
  let ?h = "sm_fmons sm" and ?s0 = "put_fmon f fm (s\<lparr>kq_next := Suc f\<rparr>)"
  note sm = kq_invD(4) [OF inv p] and heap = kq_invD(1) [OF inv]
  have fresh: "kq_fmons s f = None" "kq_smons s f = None" using heap f(1) by (auto simp: heap_ok_def)
  have main: "g \<noteq> f \<and> kq_fmons s g \<noteq> None" if "g \<in> set (ht_main ?h)" for g
    using smon_okD(3) [OF sm that] fresh(1) by (auto simp: owned_by_def)
  have name0: "fmon_name ?s0 g = fmon_name s g" if "g \<in> set (ht_main ?h)" for g using main [OF that] by (simp add: fmon_name_def)
  have own0: "\<forall>g \<in> set (ht_main ?h). kq_fmons ?s0 g \<noteq> None" using main by auto
  have inj0: "inj_on (fmon_name ?s0) (set (ht_main ?h))"
    using smon_okD(4) [OF sm] inj_on_cong [of "set (ht_main ?h)" "fmon_name ?s0" "fmon_name s"] name0 by simp
  show ?thesis
  proof (cases "fm_filename fm \<in> fmon_name s ` set (ht_main ?h)")
    case False
    let ?h' = "?h\<lparr>ht_main := ht_main ?h @ [f]\<rparr>"
    let ?s' = "put_smon p (sm\<lparr>sm_fmons := ?h'\<rparr>) ?s0"
    have "fm_filename fm \<notin> fmon_name ?s0 ` set (ht_main ?h)" using False name0 by force
    then have e: "add_fmon p f ?s0 = Some ?s'"
      using it p lookup_name_none [OF own0, of "fm_filename fm"]
      by (simp add: add_fmon_def gam_kqueue_hash_table_add_def put_smon_def put_fmon_def sub_monitor_fmons_hash_table_methods_def
          gam_kqueue_sub_monitor_add_fmon_cb_def)
    have i: "kq_inv (Y(p := insert f (Y p))) ?s' \<and> kframe p s ?s'"
      by (rule insert_fmon_inv [OF inv p it f False]) (simp_all add: same_rest_def same_sv_def)
    have n: "g \<in> set (ht_main ?h) \<Longrightarrow> fmon_name s g \<noteq> fm_filename fm" for g using False by force
    then have "Y p \<inter> {g. g \<in> set (ht_main ?h) \<longrightarrow> fmon_name s g \<noteq> fm_filename fm} = Y p" by blast
    then show ?thesis using e i n it main
      by (auto simp: fmons_changed_def put_smon_def put_fmon_def srv.defs intro!: exI [of _ ?h'])
  next
    case True
    then obtain g where g: "g \<in> set (ht_main ?h)" "fmon_name s g = fm_filename fm" by auto
    let ?h' = "?h\<lparr>ht_main := removeAll g (ht_main ?h) @ [f]\<rparr>"
    let ?s1 = "put_smon p (sm\<lparr>sm_fmons := ?h'\<rparr>) ?s0"
    obtain gm where gm: "kq_fmons s g = Some gm" using main [OF g(1)] by auto
    have "fm_filename fm = fmon_name ?s0 g" using g name0 by simp
    then have e: "add_fmon p f ?s0 = gam_kqueue_file_monitor_free g ?s1"
      using it p lookup_name_found [OF g(1) own0 inj0]
      by (simp add: add_fmon_def gam_kqueue_hash_table_add_def put_smon_def put_fmon_def sub_monitor_fmons_hash_table_methods_def
          gam_kqueue_sub_monitor_add_fmon_cb_def)
    have pf: "p \<noteq> f" "p \<noteq> g" "f \<noteq> g" using p fresh owned_not_smon [OF heap gm] main [OF g(1)] by auto
    have gs: "kq_smons s g = None" by (rule owned_not_smon [OF heap gm])
    have m1: "mon_fd ?s1 q = (if q = f then Some (mo_fd fm) else mon_fd s q)" for q
      using p pf fresh by (auto simp: mon_fd_def split: option.split)
    have "mon_fd s f = None" using fresh by (simp add: mon_fd_def)
    then have fds1: "fds_ok ?s1" using f(3) by (intro fds_same [OF kq_invD(2) [OF inv]]) (auto simp: m1)
    obtain s' where s': "gam_kqueue_file_monitor_free g ?s1 = Some s'" "fds_ok s'"
        "s' = ?s1\<lparr>kq_fmons := (kq_fmons ?s1)(g := None), kq_fds := kq_fds s', kq_open_files := kq_open_files s'\<rparr>"
      using free_effect [OF _ fds1, of g gm] gs gm pf by (auto simp: succeeds_def)
    have F: "kq_fmons s' = ((kq_fmons s)(g := None))(f \<mapsto> fm)" "kq_smons s' = (kq_smons s)(p \<mapsto> sm\<lparr>sm_fmons := ?h'\<rparr>)"
        "kq_pollers s' = kq_pollers s" "kq_next s' = Suc f" "same_rest s s'" "kq_tick s' = kq_tick s"
        "srv.truncate s' = srv.truncate s"
      using pf by (subst s'(3), simp add: same_rest_def same_sv_def put_smon_def put_fmon_def srv.defs fun_upd_twist)+
    let ?hm = "?h\<lparr>ht_main := removeAll g (ht_main ?h)\<rparr>"
    let ?m = "s\<lparr>kq_fmons := (kq_fmons s)(g := None), kq_smons := (kq_smons s)(p \<mapsto> sm\<lparr>sm_fmons := ?hm\<rparr>),
        kq_fds := kq_fds s', kq_open_files := kq_open_files s'\<rparr>"
    have "mon_fd s' q = (if q = f then Some (mo_fd fm) else mon_fd ?m q)" for q
      using p pf fresh by (auto simp: mon_fd_def F(1,2) split: option.split)
    moreover have "mon_fd ?m f = None" using fresh pf by (simp add: mon_fd_def)
    ultimately have fdsm: "fds_ok ?m" using f(3) F(5)
      by (intro fds_same [OF s'(2)]) (auto simp: same_rest_def split: if_splits)
    have im: "kq_inv (Y(p := Y p - {g})) ?m \<and> kframe p s ?m"
      by (rule drop_fmon_inv [OF inv p g(1) old [OF g] it _ _ _ _ _ fdsm]) (simp_all add: same_rest_def same_sv_def)
    have ng: "fm_filename fm \<notin> fmon_name ?m ` set (ht_main ?hm)"
    proof
      assume "fm_filename fm \<in> fmon_name ?m ` set (ht_main ?hm)"
      then obtain x where x: "x \<in> set (ht_main ?hm)" "fm_filename fm = fmon_name ?m x" by blast
      then have "x \<in> set (ht_main ?h)" "x \<noteq> g" by simp_all
      moreover from this have "fmon_name s x = fmon_name s g" using x(2) g(2) by (simp add: fmon_name_def)
      ultimately show False using smon_okD(4) [OF sm] g(1) by (meson inj_onD)
    qed
    have i': "kq_inv ((Y(p := Y p - {g}))(p := insert f ((Y(p := Y p - {g})) p))) s' \<and> kframe p ?m s'"
      by (rule insert_fmon_inv [OF conjunct1 [OF im], where sm = "sm\<lparr>sm_fmons := ?hm\<rparr>" and fm = fm])
         (use it f ng F in \<open>auto simp: same_rest_def same_sv_def\<close>)
    have fr: "kframe p s s'" using im i' kframe_trans by blast
    have only: "x \<in> set (ht_main ?h) \<Longrightarrow> fmon_name s x = fm_filename fm \<longleftrightarrow> x = g" for x
      using smon_okD(4) [OF sm] g by (auto simp: inj_on_def)
    have "Y p \<inter> {g. g \<in> set (ht_main ?h) \<longrightarrow> fmon_name s g \<noteq> fm_filename fm} = Y p - {g}" using only g by blast
    then have "kq_inv (Y(p := insert f (Y p \<inter> {g. g \<in> set (ht_main ?h) \<longrightarrow> fmon_name s g \<noteq> fm_filename fm}))) s'"
      using i' by simp
    moreover have "set (ht_main ?h') = insert f {g \<in> set (ht_main ?h). fmon_name s g \<noteq> fm_filename fm}" using only by auto
    moreover have "\<forall>x \<in> set (ht_main ?h). fmon_name s x \<noteq> fm_filename fm \<longrightarrow> kq_fmons s' x = kq_fmons s x"
      using only main pf by (auto simp: F(1))
    ultimately show ?thesis unfolding e s'(1) succeeds_Some using fr F it pf
      by (intro conjI exI [of _ ?h']) (simp_all add: fmons_changed_def)
  qed
qed

section \<open>Emitting events\<close>

text \<open>Emission does not look at the back end's part of the state.\<close>

lemma truncate_simps [simp]:
  "sv_subs (srv.truncate s) = sv_subs s" "sv_listeners (srv.truncate s) = sv_listeners s"
  "sv_conns (srv.truncate s) = sv_conns s" "sv_writes (srv.truncate s) = sv_writes s" "sv_sent (srv.truncate s) = sv_sent s"
  "sv_closed (srv.truncate s) = sv_closed s" "sv_inotify (srv.truncate s) = sv_inotify s"
  "srv.truncate (srv.truncate s) = srv.truncate s"
  by (simp_all add: srv.defs)

lemma truncate_took: "srv.truncate (srv_took fd bs s) = srv_took fd bs (srv.truncate s)"
  "srv.truncate (s\<lparr>sv_writes := ws\<rparr>) = (srv.truncate s)\<lparr>sv_writes := ws\<rparr>"
  "srv.truncate (upd_conn c g s) = upd_conn c g (srv.truncate s)"
  by (simp_all add: srv.defs srv_took_def upd_conn_def)

lemma truncate_write: "map_prod id srv.truncate (conn_write_loop ws fd data s) = conn_write_loop ws fd data (srv.truncate s)"
  by (induction ws fd data s rule: conn_write_loop.induct) (simp_all add: truncate_took)

lemma truncate_conn_write: "gam_client_conn_write fd data s = (ok, s') \<Longrightarrow>
    gam_client_conn_write fd data (srv.truncate s) = (ok, srv.truncate s')"
  using truncate_write [of "sv_writes s" fd data s] by (auto simp: gam_client_conn_write_def split: if_splits)

lemma truncate_send: "gam_send_event c r e p l s = Some (x, s') \<Longrightarrow>
    gam_send_event c r e p l (srv.truncate s) = Some (x, srv.truncate s')"
  by (auto simp: gam_send_event_def split: Option.bind_splits if_splits option.splits prod.splits dest: truncate_conn_write)

lemma truncate_emit_one: "gam_server_emit_one_event p d e q f s = Some s' \<Longrightarrow>
    gam_server_emit_one_event p d e q f (srv.truncate s) = Some (srv.truncate s')"
  by (auto simp: gam_server_emit_one_event_def gam_queue_event_def truncate_took dest: truncate_send
      split: Option.bind_splits if_splits option.splits)

lemma truncate_emit: "gam_server_emit_event p d e qs f s = Some s' \<Longrightarrow>
    gam_server_emit_event p d e qs f (srv.truncate s) = Some (srv.truncate s')"
proof (induction qs arbitrary: s)
  case (Cons q qs)
  obtain s1 where s1: "gam_server_emit_one_event p d e q f s = Some s1" "gam_server_emit_event p d e qs f s1 = Some s'"
    using Cons.prems by (auto split: Option.bind_splits)
  show ?case using truncate_emit_one [OF s1(1)] Cons.IH [OF s1(2)] by simp
qed simp

text \<open>A list of events, each a path, whether it is a directory, and the kind, told to the subscriptions in order.\<close>

type_synonym report = "string \<times> bool \<times> evtype"

fun tell_each :: "report list \<Rightarrow> cptr list \<Rightarrow> srv \<Rightarrow> srv option" where
  "tell_each [] qs s = Some s"
| "tell_each ((path, d, e) # evs) qs s =
     do { s1 \<leftarrow> gam_server_emit_event path d e qs True s; tell_each evs qs s1 }"

lemma tell_each_append: "tell_each (xs @ ys) qs s = do { s1 \<leftarrow> tell_each xs qs s; tell_each ys qs s1 }"
proof (induction xs qs s rule: tell_each.induct)
  case (2 path d e evs qs s)
  then show ?case by (cases "gam_server_emit_event path d e qs True s") simp_all
qed simp

definition emits :: "cptr list \<Rightarrow> report list \<Rightarrow> 'b srv_scheme \<Rightarrow> 'b srv_scheme \<Rightarrow> bool" where
  "emits qs evs s s' \<longleftrightarrow> tell_each evs qs (srv.truncate s) = Some (srv.truncate s')"

lemma emits_none [simp]: "emits qs [] s s' \<longleftrightarrow> srv.truncate s' = srv.truncate s"
  by (auto simp: emits_def)

lemma emits_trans: "emits qs xs s s' \<Longrightarrow> emits qs ys s' s'' \<Longrightarrow> emits qs (xs @ ys) s s''"
  by (simp add: emits_def tell_each_append)

lemma emits_truncate: "emits qs evs s s' \<Longrightarrow> srv.truncate t = srv.truncate s \<Longrightarrow> srv.truncate t' = srv.truncate s' \<Longrightarrow> emits qs evs t t'"
  by (simp add: emits_def)

lemma more_ksrv:
  assumes "srv.more s' = srv.more s"
  shows "kq_smons s' = kq_smons s" "kq_fmons s' = kq_fmons s" "kq_next s' = kq_next s" "kq_fds s' = kq_fds s"
    "kq_open_files s' = kq_open_files s" "kq_max_open_files s' = kq_max_open_files s" "kq_dir_hash s' = kq_dir_hash s"
    "kq_file_hash s' = kq_file_hash s" "kq_pollers s' = kq_pollers s" "kq_tick s' = kq_tick s"
  using assms by (cases s; cases s'; simp)+

text \<open>The part of the state that belongs to the back end, up to the count of system calls.\<close>

definition same_kq :: "'b ksrv_scheme \<Rightarrow> 'b ksrv_scheme \<Rightarrow> bool" where
  "same_kq s s' \<longleftrightarrow> kq_smons s' = kq_smons s \<and> kq_fmons s' = kq_fmons s \<and> kq_next s' = kq_next s \<and> kq_fds s' = kq_fds s \<and>
     kq_open_files s' = kq_open_files s \<and> kq_max_open_files s' = kq_max_open_files s \<and> kq_dir_hash s' = kq_dir_hash s \<and>
     kq_file_hash s' = kq_file_hash s \<and> kq_pollers s' = kq_pollers s \<and> same_sv s s'"

lemma same_kq_refl [simp]: "same_kq s s"
  by (simp add: same_kq_def)

lemma same_kq_trans: "same_kq s s' \<Longrightarrow> same_kq s' s'' \<Longrightarrow> same_kq s s''"
  by (auto simp: same_kq_def intro: same_sv_trans)

lemma same_kq_tick [simp]: "same_kq s (s\<lparr>kq_tick := t\<rparr>)"
  by (simp add: same_kq_def same_sv_def)

lemma same_kq_quiet: "quiet s s' \<Longrightarrow> same_kq s s'"
  using more_ksrv [of s' s] by (simp add: same_kq_def same_sv_quiet quiet_def)

lemma kq_inv_same: "same_kq s s' \<Longrightarrow> kq_inv Y s \<Longrightarrow> kq_inv Y s'"
proof -
  assume same: "same_kq s s'" and inv: "kq_inv Y s"
  note f = same [unfolded same_kq_def]
  have [simp]: "sub_linked s' = sub_linked s" by (intro ext sub_linked_same_srv) (use f in blast)
  have [simp]: "mon_fd s' = mon_fd s" by (rule mon_fd_cong) (use f in auto)
  have [simp]: "fmon_name s' = fmon_name s" "closed_fmons s' = closed_fmons s" "owned_by s' = owned_by s" "poller_content s' = poller_content s"
    using f by (auto simp: fmon_name_def closed_fmons_def owned_by_def poller_content_def fun_eq_iff)
  show ?thesis using inv f by (simp add: kq_inv_def heap_ok_def fds_ok_def poller_ok_def smon_ok_def)
qed

lemma kframe_same: "same_kq s s' \<Longrightarrow> kq_smons s p = Some sm \<Longrightarrow> kframe p s s'"
  by (simp add: same_kq_def kframe_def)

text \<open>Telling the subscriptions of a monitor.\<close>

lemma emit_subs_ok:
  assumes inv: "kq_inv Y s" and p: "kq_smons s p = Some sm"
  shows "succeeds (gam_server_emit_event path d e (sm_subs sm) True s) (\<lambda>s'. same_kq s s' \<and> emits (sm_subs sm) [(path, d, e)] s s')"
proof -
  have "\<exists>sp. sub_linked s sp q" if "q \<in> set (sm_subs sm)" for q using smon_okD(8) [OF kq_invD(4) [OF inv p] that] by blast
  from emit_runs [OF this] obtain s' where "gam_server_emit_event path d e (sm_subs sm) True s = Some s'" "quiet s s'" by blast
  then show ?thesis using truncate_emit [of path d e "sm_subs sm" True s s'] same_kq_quiet [of s s'] by (simp add: emits_def)
qed

section \<open>Operations on a file monitor\<close>

text \<open>An operation on the file monitors of \<open>p\<close> leaves the way \<open>p\<close> itself is watched alone.\<close>

definition fstep :: "cptr \<Rightarrow> 'b ksrv_scheme \<Rightarrow> 'b ksrv_scheme \<Rightarrow> bool" where
  "fstep p s s' \<longleftrightarrow> kframe p s s' \<and> (\<forall>k. k \<noteq> unsupported_fmon_poller \<longrightarrow> kq_pollers s' k = kq_pollers s k) \<and>
     map_option Monitor.truncate (kq_smons s' p) = map_option Monitor.truncate (kq_smons s p)"

lemma fstep_frame: "fstep p s s' \<Longrightarrow> kframe p s s'"
  by (simp add: fstep_def)

lemma fstep_trans: "fstep p s s' \<Longrightarrow> fstep p s' s'' \<Longrightarrow> fstep p s s''"
  by (auto simp: fstep_def intro: kframe_trans)

lemma fstep_same: "same_kq s s' \<Longrightarrow> kq_smons s p = Some sm \<Longrightarrow> fstep p s s'"
  by (simp add: fstep_def kframe_same) (simp add: same_kq_def)

definition dir_names :: "'b ksrv_scheme \<Rightarrow> cptr \<Rightarrow> string set" where
  "dir_names s p = (case kq_smons s p of None \<Rightarrow> {} | Some sm \<Rightarrow> fmon_name s ` content (sm_fmons sm))"

lemma fmon_name_cong: "kq_fmons s' = kq_fmons s \<Longrightarrow> fmon_name s' = fmon_name s"
  by (simp add: fmon_name_def fun_eq_iff)

lemma dir_names_Some: "kq_smons s p = Some sm \<Longrightarrow> dir_names s p = fmon_name s ` content (sm_fmons sm)"
  by (simp add: dir_names_def)

lemma dir_names_same: "same_kq s s' \<Longrightarrow> dir_names s' p = dir_names s p"
  using fmon_name_cong [of s' s] by (cases "kq_smons s p") (simp_all add: same_kq_def dir_names_def)

lemma kq_inv_weaken:
  assumes inv: "kq_inv Y s" and p: "kq_smons s p = Some sm" and Z: "Y p \<subseteq> Z"
  shows "kq_inv (Y(p := Z)) s"
proof (rule kq_invI [OF inv kframe_refl [OF p]])
  fix sm2 assume "kq_smons s p = Some sm2"
  then have [simp]: "sm2 = sm" using p by simp
  have "content (sm_unsupported sm) - Z = content (sm_fmons sm) \<inter> closed_fmons s - Z"
    using smon_okD(6) [OF kq_invD(4) [OF inv p]] Z by blast
  then show "smon_ok ((Y(p := Z)) p) s p sm2" using kq_invD(4) [OF inv p] unfolding smon_ok_def by simp
qed (use inv in \<open>auto simp: kq_inv_def\<close>)

text \<open>The monitor and the descriptors after closing.\<close>

definition closing :: "int \<Rightarrow> 'b ksrv_scheme \<Rightarrow> 'b ksrv_scheme" where
  "closing fd s = s\<lparr>kq_fds := (if fd \<ge> 0 then (kq_fds s)(fd := None) else kq_fds s),
     kq_open_files := (if fd \<ge> 0 then kq_open_files s - 1 else kq_open_files s)\<rparr>"

lemma close_monitor_effect:
  "close_monitor mon s = (mon\<lparr>mo_fd := (if mo_fd mon \<ge> 0 then -1 else mo_fd mon)\<rparr>, closing (mo_fd mon) s)"
  by (simp add: close_monitor_def closing_def kq_close_def)

lemma mini_lstat_effect:
  obtains t sb where "gam_kqueue_mini_lstat en path s = (sb, s\<lparr>kq_tick := t\<rparr>)"
  by (cases "ke_lstat en (kq_tick s) path") (auto simp: gam_kqueue_mini_lstat_def kq_lstat_def)

lemma set_unsupported_effect:
  obtains t sb where "gam_kqueue_monitor_set_unsupported en mon s =
    (mon\<lparr>mo_fd := (if mo_fd mon \<ge> 0 then -1 else mo_fd mon), mo_sb := sb\<rparr>, (closing (mo_fd mon) s)\<lparr>kq_tick := t\<rparr>)"
proof -
  obtain t sb where "gam_kqueue_mini_lstat en (mo_pathname mon) (closing (mo_fd mon) s) = (sb, (closing (mo_fd mon) s)\<lparr>kq_tick := t\<rparr>)"
    by (rule mini_lstat_effect)
  then show thesis using that [of sb t] by (simp add: gam_kqueue_monitor_set_unsupported_def close_monitor_effect)
qed

lemma fds_closing:
  assumes ok: "fds_ok s" and q: "mon_fd s q = Some fd" and s': "mon_fd s' = (mon_fd s)(q := y)" and y: "\<And>x. y = Some x \<Longrightarrow> x < 0"
    and e: "kq_fds s' = kq_fds (closing fd s)" "kq_open_files s' = kq_open_files (closing fd s)" "kq_max_open_files s' = kq_max_open_files s"
  shows "fds_ok s'"
proof (cases "fd \<ge> 0")
  case True
  show ?thesis by (rule fds_closed [OF ok True q _ _ e(3) s' y]) (use e True in \<open>simp_all add: closing_def\<close>)
next
  case False
  then show ?thesis using e q y by (intro fds_same [OF ok]) (auto simp: closing_def s')
qed

lemma closing_same [simp]:
  "kq_smons (closing fd s) = kq_smons s" "kq_fmons (closing fd s) = kq_fmons s" "kq_pollers (closing fd s) = kq_pollers s"
  "kq_next (closing fd s) = kq_next s" "kq_max_open_files (closing fd s) = kq_max_open_files s"
  "kq_dir_hash (closing fd s) = kq_dir_hash s" "kq_file_hash (closing fd s) = kq_file_hash s"
  "sv_subs (closing fd s) = sv_subs s" "sv_listeners (closing fd s) = sv_listeners s" "sv_conns (closing fd s) = sv_conns s"
  "srv.truncate (closing fd s) = srv.truncate s"
  by (simp_all add: closing_def srv.defs)

lemma truncate_upd [simp]: "srv.truncate (put_fmon f fm s) = srv.truncate s" "srv.truncate (put_smon p sm s) = srv.truncate s"
  "srv.truncate (s\<lparr>kq_tick := t\<rparr>) = srv.truncate s" "srv.truncate (s\<lparr>kq_pollers := P\<rparr>) = srv.truncate s"
  "srv.truncate (s\<lparr>kq_fds := fds\<rparr>) = srv.truncate s" "srv.truncate (s\<lparr>kq_open_files := n\<rparr>) = srv.truncate s"
  "srv.truncate (s\<lparr>kq_next := m\<rparr>) = srv.truncate s"
  by (simp_all add: put_fmon_def put_smon_def srv.defs)

lemma emits_tick [simp]: "emits qs evs (s\<lparr>kq_tick := t\<rparr>) s' = emits qs evs s s'"
  "same_kq (s\<lparr>kq_tick := t\<rparr>) s' = same_kq s s'"
  by (simp_all add: emits_def same_kq_def same_sv_def)

lemma fmon_set_unsupported_ok:
  assumes inv: "kq_inv Y s" and f: "kq_fmons s f = Some fm" "fm_smon fm = p" and p: "kq_smons s p = Some sm"
    and c: "f \<in> content (sm_fmons sm)" and it: "\<not> ht_iterating (sm_unsupported sm)"
    and up: "\<not> ht_iterating (po_smons (kq_pollers s unsupported_fmon_poller))"
  shows "succeeds (gam_kqueue_file_monitor_set_unsupported en f s) (\<lambda>s'. kq_inv (Y(p := Y p - {f})) s' \<and> fstep p s s' \<and>
    emits qs [] s s' \<and> (\<exists>h. kq_smons s' = (kq_smons s)(p \<mapsto> sm\<lparr>sm_unsupported := h\<rparr>)) \<and>
    (\<exists>fm'. kq_fmons s' = (kq_fmons s)(f \<mapsto> fm') \<and> mo_pathname fm' = mo_pathname fm \<and> fm_smon fm' = p \<and>
      fm_filename fm' = fm_filename fm))"
proof -
  obtain t sb where e: "gam_kqueue_monitor_set_unsupported en fm s =
      (fm\<lparr>mo_fd := (if mo_fd fm \<ge> 0 then -1 else mo_fd fm), mo_sb := sb\<rparr>, (closing (mo_fd fm) s)\<lparr>kq_tick := t\<rparr>)"
    by (rule set_unsupported_effect)
  let ?fm = "fm\<lparr>mo_fd := (if mo_fd fm \<ge> 0 then -1 else mo_fd fm), mo_sb := sb\<rparr>"
  let ?s1 = "put_fmon f ?fm ((closing (mo_fd fm) s)\<lparr>kq_tick := t\<rparr>)"
  let ?Y = "Y(p := insert f (Y p))"
  note heap = kq_invD(1) [OF inv]
  have sf: "kq_smons s f = None" by (rule owned_not_smon [OF heap f(1)])
  have m: "mon_fd ?s1 = (mon_fd s)(f := Some (mo_fd ?fm))" using mon_fd_fmon [of ?s1 s f "Some ?fm"] sf by simp
  have "fds_ok ?s1"
    by (rule fds_closing [OF kq_invD(2) [OF inv] mon_fd_Some(2) [OF sf f(1)] m]) (auto split: if_splits)
  then have i1: "kq_inv ?Y ?s1 \<and> kframe p s ?s1"
    by (intro put_fmon_inv [OF kq_inv_weaken [OF inv p] f]) (use f in \<open>auto simp: same_rest_def same_sv_def\<close>)
  have f1: "f < kq_next ?s1" using heap f(1) by (auto simp: heap_ok_def)
  have "f \<in> content (sm_fmons sm) \<inter> closed_fmons ?s1" using c by (simp add: closed_fmons_def)
  then obtain s' h po where s': "add_unsupported p f ?s1 = Some s'" "s' = unsupported_changed p sm h po ?s1"
      "kq_inv (?Y(p := ?Y p - {f})) s'" "kframe p ?s1 s'"
    using add_unsupported_ok [OF conjunct1 [OF i1], of p sm f] p it up f1 by (auto simp: succeeds_def)
  have "fstep p s s'" using kframe_trans [OF conjunct2 [OF i1] s'(4)] p by (simp add: fstep_def s'(2) Monitor.defs)
  moreover have "?Y(p := ?Y p - {f}) = Y(p := Y p - {f})" by auto
  ultimately show ?thesis using e f s' by (auto simp: gam_kqueue_file_monitor_set_unsupported_def)
qed

lemma after_slash_build: "slash \<notin> set name \<Longrightarrow> after_slash (g_build_filename d name) = name"
proof -
  assume n: "slash \<notin> set name"
  have "takeWhile (\<lambda>c. c \<noteq> slash) (rev name @ slash # xs) = rev name" for xs
    using n by (subst takeWhile_append2) auto
  moreover have "takeWhile (\<lambda>c. c \<noteq> slash) (rev name @ rev d) = rev name" if d: "list_all (\<lambda>c. c = slash) d"
  proof -
    have tw: "takeWhile (\<lambda>c. c \<noteq> slash) xs = []" if "set xs \<subseteq> {slash}" for xs using that by (cases xs) auto
    have "takeWhile (\<lambda>c. c \<noteq> slash) (rev d) = []" by (rule tw) (use d in \<open>auto simp: list_all_iff\<close>)
    then show ?thesis using n by (subst takeWhile_append2) auto
  qed
  ultimately show ?thesis by (auto simp: after_slash_def g_build_filename_def)
qed

text \<open>None of the tables that adding a file monitor changes is being walked.\<close>

definition still :: "cptr \<Rightarrow> 'b ksrv_scheme \<Rightarrow> bool" where
  "still p s \<longleftrightarrow> (\<exists>sm. kq_smons s p = Some sm \<and> \<not> ht_iterating (sm_fmons sm) \<and> \<not> ht_iterating (sm_unsupported sm)) \<and>
     \<not> ht_iterating (po_smons (kq_pollers s unsupported_fmon_poller))"

lemma stillE:
  assumes "still p s"
  obtains sm where "kq_smons s p = Some sm" "\<not> ht_iterating (sm_fmons sm)" "\<not> ht_iterating (sm_unsupported sm)"
    "\<not> ht_iterating (po_smons (kq_pollers s unsupported_fmon_poller))"
  using assms by (auto simp: still_def)

lemma still_frame: "kframe p s s' \<Longrightarrow> still p s' = still p s"
proof -
  assume fr: "kframe p s s'"
  then obtain sm sm' where "kq_smons s p = Some sm" "kq_smons s' p = Some sm'" "same_smon sm sm'" by (auto simp: kframe_def)
  moreover have "ht_iterating (po_smons (kq_pollers s' k)) = ht_iterating (po_smons (kq_pollers s k))" for k
    using kframeD(7) [OF fr, of k] by (simp add: same_poller_def same_walk_def)
  ultimately show ?thesis by (auto simp: still_def same_smon_def same_walk_def)
qed

text \<open>A new file monitor has its place in the table, and either a descriptor or the poller.\<close>

lemma file_monitor_new_ok:
  assumes en: "fresh_fds en" and inv: "kq_inv Y s" and st: "still p s" and p: "kq_smons s p = Some sm" and name: "slash \<notin> set name"
    and old: "\<And>g. g \<in> set (ht_main (sm_fmons sm)) \<Longrightarrow> fmon_name s g = name \<Longrightarrow> g \<notin> content (sm_unsupported sm)"
    and Y: "Y p \<subseteq> {g \<in> set (ht_main (sm_fmons sm)). fmon_name s g = name}"
  shows "succeeds (gam_kqueue_file_monitor_new en p name s) (\<lambda>(f, flags, s'). kq_inv (Y(p := {})) s' \<and> fstep p s s' \<and>
    emits qs [] s s' \<and> dir_names s' p = insert name (dir_names s p) \<and>
    (\<exists>fm. kq_fmons s' f = Some fm \<and> fm_smon fm = p \<and> mo_pathname fm = g_build_filename (mo_pathname sm) name))"
proof -
  let ?f = "kq_next s"
  let ?fm = "\<lparr>mo_pathname = g_build_filename (mo_pathname sm) name, mo_fd = -1, mo_sb = ministat_zero, mo_poll_count = 0,
      fm_smon = p, fm_filename = name\<rparr>"
  have it: "\<not> ht_iterating (sm_fmons sm)" "\<not> ht_iterating (sm_unsupported sm)"
    and up: "\<not> ht_iterating (po_smons (kq_pollers s unsupported_fmon_poller))" using st p by (auto simp: still_def)
  have "Y p \<inter> {g. g \<in> set (ht_main (sm_fmons sm)) \<longrightarrow> fmon_name s g \<noteq> name} = {}" using Y by blast
  then obtain s1 h where s1: "add_fmon p ?f (put_fmon ?f ?fm (s\<lparr>kq_next := Suc ?f\<rparr>)) = Some s1" "kq_inv (Y(p := {?f})) s1"
      "kframe p s s1" "fmons_changed p sm h s s1" "\<not> ht_iterating h" "kq_fmons s1 ?f = Some ?fm"
      "set (ht_main h) = insert ?f {g \<in> set (ht_main (sm_fmons sm)). fmon_name s g \<noteq> name}"
      "\<And>g. g \<in> set (ht_main (sm_fmons sm)) \<Longrightarrow> fmon_name s g \<noteq> name \<Longrightarrow> kq_fmons s1 g = kq_fmons s g"
    using add_fmon_ok [OF inv p it(1) refl, of ?fm] name old by (auto simp: succeeds_def)
  have p1: "kq_smons s1 p = Some (sm\<lparr>sm_fmons := h\<rparr>)" and po1: "kq_pollers s1 = kq_pollers s"
    using s1(4) by (simp_all add: fmons_changed_def)
  note sm1 = kq_invD(4) [OF s1(2) p1]
  have c1: "content h = set (ht_main h)" using smon_okD(1) [OF sm1] s1(5) by (simp add: content_sub_table sub_table_ok_def table_ok_def)
  have c0: "content (sm_fmons sm) = set (ht_main (sm_fmons sm))"
    using smon_okD(1) [OF kq_invD(4) [OF inv p]] it(1) by (simp add: content_sub_table sub_table_ok_def table_ok_def)
  have "fmon_name s1 ` content h = insert name (fmon_name s ` content (sm_fmons sm))"
  proof -
    have "fmon_name s1 ` {g \<in> set (ht_main (sm_fmons sm)). fmon_name s g \<noteq> name} =
        fmon_name s ` {g \<in> set (ht_main (sm_fmons sm)). fmon_name s g \<noteq> name}"
      by (rule image_cong) (use s1(8) in \<open>auto simp: fmon_name_def\<close>)
    moreover have "fmon_name s1 ?f = name" using s1(6) by (simp add: fmon_name_def)
    ultimately show ?thesis unfolding c1 c0 s1(7) by auto
  qed
  then have ent: "dir_names s1 p = insert name (dir_names s p)" using p p1 by (simp add: dir_names_def)
  have fst1: "fstep p s s1" using s1(3,4) p by (simp add: fstep_def fmons_changed_def Monitor.defs)
  have sf: "kq_smons s1 ?f = None" by (rule owned_not_smon [OF kq_invD(1) [OF s1(2)] s1(6)])
  obtain ok fm2 s2 where e2: "gam_kqueue_monitor_enable_kqueue en ?f ?fm s1 = (ok, fm2, s2)" by (cases "gam_kqueue_monitor_enable_kqueue en ?f ?fm s1")
  have new: "gam_kqueue_file_monitor_new en p name s = (let s3 = put_fmon ?f fm2 s2 in
      if ok then Some (?f, 0, s3)
      else do { s4 \<leftarrow> gam_kqueue_file_monitor_set_unsupported en ?f s3; fm4 \<leftarrow> kq_fmons s4 ?f;
                Some (?f, dir_flag (mode_isdir (ms_mode (mo_sb fm4))), s4) })"
    using p s1(1,6) e2 name by (simp add: gam_kqueue_file_monitor_new_def after_slash_build)
  let ?s3 = "put_fmon ?f fm2 s2"
  have neg: "mo_fd ?fm < 0" by simp
  have "(\<exists>fd. fm2 = ?fm\<lparr>mo_fd := fd\<rparr> \<and> (ok \<longleftrightarrow> 0 \<le> fd)) \<and> fds_ok ?s3 \<and> (\<exists>t x y. s2 = s1\<lparr>kq_tick := t, kq_fds := x, kq_open_files := y\<rparr>)"
    using en e2 neg
  proof (cases rule: enable_kqueue_cases)
    case (opened t fd)
    have "mon_fd ?s3 = (mon_fd s1)(?f \<mapsto> fd)" using mon_fd_fmon [of ?s3 s1 ?f "Some fm2"] sf by (simp add: opened)
    then have "fds_ok ?s3"
      by (rule fds_opened [OF kq_invD(2) [OF s1(2)] opened(2,3,5) _ _ _ _, rotated -1])
         (use mon_fd_Some(2) [OF sf s1(6)] in \<open>auto simp: opened\<close>)
    then show ?thesis using opened by auto
  next
    case (failed t fd)
    have "mon_fd ?s3 = (mon_fd s1)(?f \<mapsto> fd)" using mon_fd_fmon [of ?s3 s1 ?f "Some fm2"] sf by (simp add: failed)
    then have "fds_ok ?s3" using mon_fd_Some(2) [OF sf s1(6)] failed(2)
      by (intro fds_same [OF kq_invD(2) [OF s1(2)]]) (auto simp: failed(3,4))
    moreover have "\<exists>t x y. s2 = s1\<lparr>kq_tick := t, kq_fds := x, kq_open_files := y\<rparr>"
      using failed(4) by (intro exI [of _ t] exI [of _ "kq_fds s1"] exI [of _ "kq_open_files s1"]) simp
    moreover have "ok \<longleftrightarrow> 0 \<le> fd" using failed(1,2) by simp
    ultimately show ?thesis using failed(3) by blast
  qed
  then obtain fd t x y where F: "fm2 = ?fm\<lparr>mo_fd := fd\<rparr>" "ok \<longleftrightarrow> 0 \<le> fd" "fds_ok ?s3" "s2 = s1\<lparr>kq_tick := t, kq_fds := x, kq_open_files := y\<rparr>"
    by blast
  have i3: "kq_inv (Y(p := {?f})) ?s3 \<and> kframe p s1 ?s3"
    by (rule put_fmon_inv [OF s1(2,6)]) (use F in \<open>auto simp: same_rest_def same_sv_def\<close>)
  have fst3: "fstep p s1 ?s3" using i3 F(4) by (simp add: fstep_def)
  have n3: "fmon_name ?s3 = fmon_name s1" using s1(6) by (auto simp: fmon_name_def fun_eq_iff F)
  have ent3: "dir_names ?s3 p = dir_names s1 p" using p1 n3 by (simp add: dir_names_def F(4))
  have in_main: "?f \<in> content h" using s1(7) c1 by simp
  show ?thesis
  proof (cases ok)
    case True
    have "?f \<notin> content (sm_unsupported sm)"
      using content_sub_table [OF smon_okD(2) [OF kq_invD(4) [OF inv p]]] smon_okD(5) [OF kq_invD(4) [OF inv p]] by auto
    then have "kq_inv (Y(p := {})) ?s3"
    proof -
      assume nu: "?f \<notin> content (sm_unsupported sm)"
      have "kq_inv ((Y(p := {?f}))(p := {})) ?s3"
        by (rule kq_inv_drop [OF conjunct1 [OF i3], where sm = "sm\<lparr>sm_fmons := h\<rparr>"])
           (use p1 F True nu in \<open>auto simp: closed_fmons_def\<close>)
      then show ?thesis by simp
    qed
    then show ?thesis using new True fstep_trans [OF fst1 fst3] ent ent3 s1(4) by (auto simp: F fmons_changed_def)
  next
    case False
    have f3: "kq_fmons ?s3 ?f = Some fm2" "fm_smon fm2 = p" by (simp_all add: F)
    have p3: "kq_smons ?s3 p = Some (sm\<lparr>sm_fmons := h\<rparr>)" using p1 by (simp add: F(4))
    obtain s4 h4 fm4 where s4: "gam_kqueue_file_monitor_set_unsupported en ?f ?s3 = Some s4" "kq_inv ((Y(p := {?f}))(p := (Y(p := {?f})) p - {?f})) s4"
        "fstep p ?s3 s4" "emits qs [] ?s3 s4" "kq_smons s4 = (kq_smons ?s3)(p \<mapsto> sm\<lparr>sm_fmons := h, sm_unsupported := h4\<rparr>)"
        "kq_fmons s4 = (kq_fmons ?s3)(?f \<mapsto> fm4)" "mo_pathname fm4 = mo_pathname fm2" "fm_smon fm4 = p" "fm_filename fm4 = fm_filename fm2"
      using fmon_set_unsupported_ok [OF conjunct1 [OF i3] f3 p3, of en qs] in_main it(2) up by (auto simp: succeeds_def F po1)
    have "fmon_name s4 = fmon_name ?s3" using s4(6,9) f3(1) by (auto simp: fmon_name_def fun_eq_iff)
    then have "dir_names s4 p = dir_names ?s3 p" using p3 s4(5) by (simp add: dir_names_def)
    moreover have "kq_inv (Y(p := {})) s4" using s4(2) by simp
    ultimately show ?thesis using new False s4 fstep_trans [OF fstep_trans [OF fst1 fst3] s4(3)] ent ent3 s1(4)
      by (auto simp: F fmons_changed_def)
  qed
qed

section \<open>Events of a file monitor\<close>

definition fmon_at :: "'b ksrv_scheme \<Rightarrow> cptr \<Rightarrow> cptr \<Rightarrow> FileMonitor \<Rightarrow> SubMonitor \<Rightarrow> bool" where
  "fmon_at s p f fm sm \<longleftrightarrow> kq_fmons s f = Some fm \<and> fm_smon fm = p \<and> kq_smons s p = Some sm \<and> f \<in> content (sm_fmons sm)"

lemma fmon_at_same: "same_kq s s' \<Longrightarrow> fmon_at s p f fm sm \<Longrightarrow> fmon_at s' p f fm sm"
  by (simp add: fmon_at_def same_kq_def)

text \<open>The events that do not end the monitor.\<close>

lemma emit_plain:
  assumes inv: "kq_inv Y s" and f: "kq_fmons s f = Some fm" "kq_smons s (fm_smon fm) = Some sm"
    and e: "event \<noteq> GAMIN_EVENT_DELETED" "event \<noteq> GAMIN_EVENT_MOVED"
  shows "succeeds (file_monitor_emit (Suc k) en f event flags s)
    (\<lambda>s'. same_kq s s' \<and> (\<exists>d. emits (sm_subs sm) [(mo_pathname fm, d, event)] s s'))"
proof -
  let ?sd = "\<not> has_flag flags MONITOR_ISDIR \<and> \<not> has_flag flags MONITOR_ISNOTDIR"
  obtain t r where r: "(if ?sd then kq_lstat en (mo_pathname fm) s else (None, s)) = (r, s\<lparr>kq_tick := t\<rparr>)"
  proof (cases ?sd)
    case True
    show ?thesis by (rule that [of "ke_lstat en (kq_tick s) (mo_pathname fm)" "Suc (kq_tick s)"]) (use True in \<open>simp add: kq_lstat_def\<close>)
  next
    case False
    show ?thesis by (rule that [of None "kq_tick s"]) (use False in auto)
  qed
  let ?d = "if ?sd then (case r of None \<Rightarrow> False | Some sb \<Rightarrow> mode_isdir (ks_mode sb)) else has_flag flags MONITOR_ISDIR"
  have eq: "file_monitor_emit (Suc k) en f event flags s = gam_server_emit_event (mo_pathname fm) ?d event (sm_subs sm) True (s\<lparr>kq_tick := t\<rparr>)"
    using f e by (simp add: r cong: option.case_cong)
  show ?thesis unfolding eq
    using emit_subs_ok [of Y "s\<lparr>kq_tick := t\<rparr>" "fm_smon fm" sm "mo_pathname fm" ?d event] inv f
    by (auto simp: succeeds_def)
qed

text \<open>What is told and what is left when the file is gone, and the file system is not asked again.\<close>

lemma emit_gone:
  assumes inv: "kq_inv Y s" and f: "fmon_at s p f fm sm" "f \<notin> Y p"
    and e: "event = GAMIN_EVENT_DELETED \<or> event = GAMIN_EVENT_MOVED"
    and fl: "\<not> has_flag flags FILE_MONITOR_POSSIBLY_RECREATED" "has_flag flags MONITOR_ISDIR \<or> has_flag flags MONITOR_ISNOTDIR"
  shows "succeeds (file_monitor_emit (Suc k) en f event flags s) (\<lambda>s'. kq_inv Y s' \<and> fstep p s s' \<and>
    emits (sm_subs sm) [(mo_pathname fm, has_flag flags MONITOR_ISDIR, event)] s s' \<and>
    dir_names s' p = dir_names s p - {fm_filename fm} \<and>
    (\<exists>sm'. kq_smons s' p = Some sm' \<and> content (sm_fmons sm') = content (sm_fmons sm) - {f} \<and>
       content (sm_unsupported sm') = content (sm_unsupported sm) - {f}) \<and>
    kq_fmons s' = (if ht_iterating (sm_fmons sm) then kq_fmons s else (kq_fmons s)(f := None)))"
proof -
  note at = f(1) [unfolded fmon_at_def]
  note sm = kq_invD(4) [OF inv, of p sm]
  obtain s1 where s1: "gam_server_emit_event (mo_pathname fm) (has_flag flags MONITOR_ISDIR) event (sm_subs sm) True s = Some s1"
      "same_kq s s1" "emits (sm_subs sm) [(mo_pathname fm, has_flag flags MONITOR_ISDIR, event)] s s1"
    using emit_subs_ok [OF inv, of p sm "mo_pathname fm" "has_flag flags MONITOR_ISDIR" event] at by (auto simp: succeeds_def)
  have i1: "kq_inv Y s1" by (rule kq_inv_same [OF s1(2) inv])
  note at1 = fmon_at_same [OF s1(2) f(1), unfolded fmon_at_def]
  have ok: "smon_ok (Y p) s p sm" using sm at by simp
  have closed: "f \<in> content (sm_unsupported sm) \<longleftrightarrow> mo_fd fm < 0"
  proof -
    have "f \<in> content (sm_unsupported sm) \<longleftrightarrow> f \<in> content (sm_unsupported sm) - Y p" using f(2) by blast
    also have "\<dots> \<longleftrightarrow> f \<in> closed_fmons s" unfolding smon_okD(6) [OF ok] using at f(2) by blast
    finally show ?thesis using at by (simp add: closed_fmons_def)
  qed
  have "succeeds (if mo_fd fm < 0 then remove_unsupported p f s1 else Some s1)
      (\<lambda>s2. \<exists>h. kq_smons s2 = (kq_smons s1)(p \<mapsto> sm\<lparr>sm_unsupported := h\<rparr>) \<and> content h = content (sm_unsupported sm) - {f} \<and>
        kq_inv (Y(p := insert f (Y p))) s2 \<and> fstep p s1 s2 \<and> kq_fmons s2 = kq_fmons s1 \<and> srv.truncate s2 = srv.truncate s1)"
  proof (cases "mo_fd fm < 0")
    case True
    have "f \<in> content (sm_unsupported sm)" using True closed by simp
    then show ?thesis using True remove_unsupported_ok [OF i1, of p sm f] at1
      by (auto elim!: succeeds_mono simp: fstep_def Monitor.defs)
  next
    case False
    have "kq_smons s1 = (kq_smons s1)(p \<mapsto> sm\<lparr>sm_unsupported := sm_unsupported sm\<rparr>)" using at1 by (simp add: fun_upd_idem)
    moreover have "content (sm_unsupported sm) = content (sm_unsupported sm) - {f}" using closed False by blast
    moreover have "kq_inv (Y(p := insert f (Y p))) s1" using kq_inv_weaken [OF i1, of p sm "insert f (Y p)"] at1 by blast
    ultimately show ?thesis using False fstep_same [OF same_kq_refl, of s1 p sm] at1 by (simp, intro exI [of _ "sm_unsupported sm"], simp)
  qed
  then obtain s2 h where s2: "(if mo_fd fm < 0 then remove_unsupported p f s1 else Some s1) = Some s2"
      "kq_smons s2 = (kq_smons s1)(p \<mapsto> sm\<lparr>sm_unsupported := h\<rparr>)" "content h = content (sm_unsupported sm) - {f}"
      "kq_inv (Y(p := insert f (Y p))) s2" "fstep p s1 s2" "kq_fmons s2 = kq_fmons s1" "srv.truncate s2 = srv.truncate s1"
    by (auto simp: succeeds_def)
  have p2: "kq_smons s2 p = Some (sm\<lparr>sm_unsupported := h\<rparr>)" using s2(2) by simp
  obtain s3 h3 where s3: "remove_fmon p f s2 = Some s3" "kq_inv ((Y(p := insert f (Y p)))(p := (Y(p := insert f (Y p))) p - {f})) s3"
      "kframe p s2 s3" "fmons_changed p (sm\<lparr>sm_unsupported := h\<rparr>) h3 s2 s3" "content h3 = content (sm_fmons sm) - {f}"
      "kq_fmons s3 = (if ht_iterating (sm_fmons sm) then kq_fmons s2 else (kq_fmons s2)(f := None))"
    using remove_fmon_ok [OF s2(4) p2, of f] at s2(3) by (auto simp: succeeds_def)
  have eq: "file_monitor_emit (Suc k) en f event flags s = Some s3"
    using at e fl s1(1) s2(1) s3(1) by auto
  have "Y(p := Y p - {f}) = Y" using f(2) by auto
  then have i3: "kq_inv Y s3" using s3(2) by simp
  have fst: "fstep p s s3"
    using fstep_trans [OF fstep_trans [OF fstep_same [OF s1(2)] s2(5)], of sm s3] s3(3,4) at p2
    by (simp add: fstep_def fmons_changed_def Monitor.defs)
  have F: "kq_fmons s3 = (if ht_iterating (sm_fmons sm) then kq_fmons s else (kq_fmons s)(f := None))"
    using s3(6) s2(6) s1(2) by (simp add: same_kq_def)
  have p3: "kq_smons s3 p = Some (sm\<lparr>sm_unsupported := h, sm_fmons := h3\<rparr>)" using s3(4) by (simp add: fmons_changed_def)
  have nm: "fmon_name s3 g = fmon_name s g" if "g \<noteq> f" for g using that by (simp add: fmon_name_def F)
  have "fmon_name s3 ` (content (sm_fmons sm) - {f}) = fmon_name s ` (content (sm_fmons sm) - {f})"
    by (rule image_cong) (use nm in auto)
  also have "\<dots> = fmon_name s ` content (sm_fmons sm) - {fm_filename fm}"
  proof -
    have "content (sm_fmons sm) \<subseteq> set (ht_main (sm_fmons sm))" using content_sub_table [OF smon_okD(1) [OF ok]] by blast
    then have "inj_on (fmon_name s) (content (sm_fmons sm))" using smon_okD(4) [OF ok] by (rule inj_on_subset [rotated])
    from inj_on_image_set_diff [OF this, of "content (sm_fmons sm)" "{f}"] show ?thesis using at by (simp add: fmon_name_def)
  qed
  finally have "dir_names s3 p = dir_names s p - {fm_filename fm}" using p3 s3(5) at by (simp add: dir_names_def)
  then show ?thesis using eq i3 fst F p3 s3(4,5) s2(3,7) s1(3) by (auto simp: fmons_changed_def intro: emits_truncate)
qed

section \<open>A directory changes\<close>

lemma flag_simps [simp]:
  "\<not> has_flag 0 f" "\<not> has_flag MONITOR_ISNOTDIR MONITOR_ISDIR" "has_flag MONITOR_ISNOTDIR MONITOR_ISNOTDIR" "has_flag MONITOR_ISDIR MONITOR_ISDIR"
  "\<not> has_flag MONITOR_ISNOTDIR FILE_MONITOR_POSSIBLY_RECREATED" "\<not> has_flag MONITOR_ISDIR FILE_MONITOR_POSSIBLY_RECREATED"
  "has_flag (MONITOR_ISNOTDIR OR FILE_MONITOR_POSSIBLY_RECREATED) MONITOR_ISNOTDIR"
  "\<not> has_flag (MONITOR_ISNOTDIR OR FILE_MONITOR_POSSIBLY_RECREATED) MONITOR_ISDIR"
  "has_flag (MONITOR_ISNOTDIR OR FILE_MONITOR_POSSIBLY_RECREATED) FILE_MONITOR_POSSIBLY_RECREATED"
  "\<not> has_flag (dir_flag b) SUB_MONITOR_WAS_MISSING" "\<not> has_flag (dir_flag b) FILE_MONITOR_POSSIBLY_RECREATED"
  "has_flag (dir_flag b) MONITOR_ISDIR = b" "has_flag (dir_flag b) MONITOR_ISNOTDIR = (\<not> b)"
  "has_flag (SUB_MONITOR_WAS_MISSING OR dir_flag b) SUB_MONITOR_WAS_MISSING" "has_flag (SUB_MONITOR_WAS_MISSING OR dir_flag b) MONITOR_ISDIR = b"
  "has_flag (SUB_MONITOR_WAS_MISSING OR dir_flag b) MONITOR_ISNOTDIR = (\<not> b)"
  by (simp_all add: has_flag_def dir_flag_def MONITOR_ISDIR_def MONITOR_ISNOTDIR_def FILE_MONITOR_POSSIBLY_RECREATED_def
      SUB_MONITOR_WAS_MISSING_def)

lemma event_neq [simp]:
  "GAMIN_EVENT_CREATED \<noteq> GAMIN_EVENT_DELETED" "GAMIN_EVENT_CREATED \<noteq> GAMIN_EVENT_MOVED" "GAMIN_EVENT_CREATED \<noteq> GAMIN_EVENT_CHANGED"
  "GAMIN_EVENT_EXISTS \<noteq> GAMIN_EVENT_DELETED" "GAMIN_EVENT_EXISTS \<noteq> GAMIN_EVENT_MOVED" "GAMIN_EVENT_EXISTS \<noteq> GAMIN_EVENT_CHANGED"
  "GAMIN_EVENT_ENDEXISTS \<noteq> GAMIN_EVENT_DELETED" "GAMIN_EVENT_ENDEXISTS \<noteq> GAMIN_EVENT_MOVED" "GAMIN_EVENT_ENDEXISTS \<noteq> GAMIN_EVENT_CHANGED"
  "GAMIN_EVENT_CHANGED \<noteq> GAMIN_EVENT_DELETED" "GAMIN_EVENT_CHANGED \<noteq> GAMIN_EVENT_MOVED"
  "GAMIN_EVENT_DELETED \<noteq> GAMIN_EVENT_CHANGED" "GAMIN_EVENT_MOVED \<noteq> GAMIN_EVENT_CHANGED"
  by (simp_all add: event_defs)

text \<open>The events told, without the word on whether it is a directory.\<close>

definition as_told :: "report list \<Rightarrow> (string \<times> evtype) list" where
  "as_told evs = map (\<lambda>(path, d, e). (path, e)) evs"

lemma as_told_simps [simp]: "as_told [] = []" "as_told ((path, d, e) # evs) = (path, e) # as_told evs"
  "as_told (evs @ evs') = as_told evs @ as_told evs'"
  by (simp_all add: as_told_def)

lemma fstep_smon:
  assumes "fstep p s s'" "kq_smons s p = Some sm"
  obtains sm' where "kq_smons s' p = Some sm'" "same_smon sm sm'" "Monitor.truncate sm' = Monitor.truncate sm"
proof -
  obtain sm' where "kq_smons s' p = Some sm'" "same_smon sm sm'" by (rule kframeE [OF fstep_frame [OF assms(1)] assms(2)])
  with that assms show thesis by (simp add: fstep_def)
qed

text \<open>A new entry is told, and has its monitor.\<close>

lemma new_entry_ok:
  assumes en: "fresh_fds en" and inv: "kq_inv none s" and st: "still p s" and p: "kq_smons s p = Some sm"
    and name: "slash \<notin> set name" "name \<notin> dir_names s p" and e: "event \<noteq> GAMIN_EVENT_DELETED" "event \<noteq> GAMIN_EVENT_MOVED"
  shows "succeeds (do { (f, flags, s1) \<leftarrow> gam_kqueue_file_monitor_new en p name s;
                        gam_kqueue_file_monitor_emit_event en f event flags s1 })
    (\<lambda>s'. kq_inv none s' \<and> fstep p s s' \<and> dir_names s' p = insert name (dir_names s p) \<and>
       (\<exists>d. emits (sm_subs sm) [(g_build_filename (mo_pathname sm) name, d, event)] s s'))"
proof -
  note ok = kq_invD(4) [OF inv p]
  have it: "\<not> ht_iterating (sm_fmons sm)" using st p by (auto simp: still_def)
  have c: "content (sm_fmons sm) = set (ht_main (sm_fmons sm))"
    using smon_okD(1) [OF ok] it by (simp add: content_sub_table sub_table_ok_def table_ok_def)
  have n: "fmon_name s g \<noteq> name" if "g \<in> set (ht_main (sm_fmons sm))" for g
    using name(2) that p c by (auto simp: dir_names_def)
  obtain f flags s1 fm where s1: "gam_kqueue_file_monitor_new en p name s = Some (f, flags, s1)" "kq_inv (none(p := {})) s1" "fstep p s s1"
      "emits (sm_subs sm) [] s s1" "dir_names s1 p = insert name (dir_names s p)" "kq_fmons s1 f = Some fm" "fm_smon fm = p"
      "mo_pathname fm = g_build_filename (mo_pathname sm) name"
    using file_monitor_new_ok [OF en inv st p name(1), where qs = "sm_subs sm"] n by (auto simp: succeeds_def)
  have i1: "kq_inv none s1" using s1(2) by (simp add: fun_upd_def if_cong)
  obtain sm1 where sm1: "kq_smons s1 p = Some sm1" "same_smon sm sm1" by (rule fstep_smon [OF s1(3) p])
  have "sm_subs sm1 = sm_subs sm" using sm1(2) by (simp add: same_smon_def)
  then obtain s2 d where s2: "gam_kqueue_file_monitor_emit_event en f event flags s1 = Some s2" "same_kq s1 s2"
      "emits (sm_subs sm) [(mo_pathname fm, d, event)] s1 s2"
    using emit_plain [OF i1 s1(6), of sm1 event 1 en flags] e sm1 s1(7)
    by (auto simp: succeeds_def gam_kqueue_file_monitor_emit_event_def numeral_2_eq_2)
  have "emits (sm_subs sm) ([] @ [(mo_pathname fm, d, event)]) s s2" by (rule emits_trans [OF s1(4) s2(3)])
  then show ?thesis using s1 s2 fstep_trans [OF s1(3) fstep_same [OF s2(2) sm1(1)]] kq_inv_same [OF s2(2) i1] dir_names_same [OF s2(2), of p]
    by auto
qed

lemma new_entries_ok:
  assumes en: "fresh_fds en" and e: "event \<noteq> GAMIN_EVENT_DELETED" "event \<noteq> GAMIN_EVENT_MOVED"
  shows "kq_inv none s \<Longrightarrow> still p s \<Longrightarrow> kq_smons s p = Some sm \<Longrightarrow> distinct names \<Longrightarrow> (\<And>n. n \<in> set names \<Longrightarrow> slash \<notin> set n) \<Longrightarrow>
    dir_names s p \<inter> set names = {} \<Longrightarrow>
    succeeds (new_entries en p event names s) (\<lambda>s'. kq_inv none s' \<and> fstep p s s' \<and> dir_names s' p = dir_names s p \<union> set names \<and>
      (\<exists>evs. emits (sm_subs sm) evs s s' \<and> as_told evs = map (\<lambda>n. (g_build_filename (mo_pathname sm) n, event)) names))"
proof (induction names arbitrary: s sm)
  case Nil
  then show ?case using fstep_same [OF same_kq_refl, of s p sm] by (auto intro: exI [of _ "[]"])
next
  case (Cons name names)
  have "slash \<notin> set name" "name \<notin> dir_names s p" using Cons.prems(5,6) by auto
  from new_entry_ok [OF en Cons.prems(1-3) this e] obtain f flags s1 s2 d where s2:
      "gam_kqueue_file_monitor_new en p name s = Some (f, flags, s1)" "gam_kqueue_file_monitor_emit_event en f event flags s1 = Some s2"
      "kq_inv none s2" "fstep p s s2" "dir_names s2 p = insert name (dir_names s p)"
      "emits (sm_subs sm) [(g_build_filename (mo_pathname sm) name, d, event)] s s2"
    by (auto simp: succeeds_def split: Option.bind_splits)
  obtain sm2 where sm2: "kq_smons s2 p = Some sm2" "same_smon sm sm2" by (rule fstep_smon [OF s2(4) Cons.prems(3)])
  have same: "sm_subs sm2 = sm_subs sm" "mo_pathname sm2 = mo_pathname sm" using sm2(2) by (simp_all add: same_smon_def)
  have st: "still p s2" using Cons.prems(2) still_frame [OF fstep_frame [OF s2(4)]] by simp
  from Cons.IH [OF s2(3) st sm2(1)] Cons.prems(4-6) s2(5) obtain s3 evs where s3: "new_entries en p event names s2 = Some s3"
      "kq_inv none s3" "fstep p s2 s3" "dir_names s3 p = dir_names s2 p \<union> set names" "emits (sm_subs sm) evs s2 s3"
      "as_told evs = map (\<lambda>n. (g_build_filename (mo_pathname sm) n, event)) names"
    by (auto simp: succeeds_def same)
  show ?case using s2(1,2,5) s3 fstep_trans [OF s2(4) s3(3)] emits_trans [OF s2(6) s3(5)] by fastforce
qed

lemma change_entries_ok:
  assumes en: "fresh_fds en"
  shows "kq_inv none s \<Longrightarrow> still p s \<Longrightarrow> kq_smons s p = Some sm \<Longrightarrow> distinct names \<Longrightarrow> (\<And>n. n \<in> set names \<Longrightarrow> slash \<notin> set n) \<Longrightarrow>
    succeeds (change_entries en p names s) (\<lambda>s'. kq_inv none s' \<and> fstep p s s' \<and> dir_names s' p = dir_names s p \<union> set names \<and>
      (\<exists>evs. emits (sm_subs sm) evs s s' \<and>
        as_told evs = map (\<lambda>n. (g_build_filename (mo_pathname sm) n, GAMIN_EVENT_CREATED)) (filter (\<lambda>n. n \<notin> dir_names s p) names)))"
proof (induction names arbitrary: s sm)
  case Nil
  then show ?case using fstep_same [OF same_kq_refl, of s p sm] by (auto intro: exI [of _ "[]"])
next
  case (Cons name names)
  note ok = kq_invD(4) [OF Cons.prems(1,3)]
  have it: "\<not> ht_iterating (sm_fmons sm)" using Cons.prems(2,3) by (auto simp: still_def)
  have c: "content (sm_fmons sm) = set (ht_main (sm_fmons sm))"
    using smon_okD(1) [OF ok] it by (simp add: content_sub_table sub_table_ok_def table_ok_def)
  have own: "\<forall>g \<in> set (ht_main (sm_fmons sm)). kq_fmons s g \<noteq> None" using smon_okD(3) [OF ok] by (auto simp: owned_by_def)
  have ent: "dir_names s p = fmon_name s ` set (ht_main (sm_fmons sm))" using Cons.prems(3) c by (simp add: dir_names_def)
  show ?case
  proof (cases "name \<in> dir_names s p")
    case True
    then obtain g where g: "g \<in> set (ht_main (sm_fmons sm))" "name = fmon_name s g" using ent by auto
    have "lookup_name name (ht_main (sm_fmons sm)) s = Some (Some g)" using lookup_name_found [OF g(1) own smon_okD(4) [OF ok]] g(2) by simp
    then have "change_entries en p (name # names) s = change_entries en p names s" using Cons.prems(3) by simp
    moreover have "dir_names s p \<union> set (name # names) = dir_names s p \<union> set names" using True by auto
    ultimately show ?thesis using Cons.IH [OF Cons.prems(1-3)] Cons.prems(4,5) True by simp
  next
    case False
    then have l: "lookup_name name (ht_main (sm_fmons sm)) s = Some None" using lookup_name_none [OF own] ent by simp
    have "slash \<notin> set name" using Cons.prems(5) by simp
    from new_entry_ok [OF en Cons.prems(1-3) this False, of GAMIN_EVENT_CREATED] obtain f flags s1 s2 d where s2:
        "gam_kqueue_file_monitor_new en p name s = Some (f, flags, s1)"
        "gam_kqueue_file_monitor_emit_event en f GAMIN_EVENT_CREATED flags s1 = Some s2"
        "kq_inv none s2" "fstep p s s2" "dir_names s2 p = insert name (dir_names s p)"
        "emits (sm_subs sm) [(g_build_filename (mo_pathname sm) name, d, GAMIN_EVENT_CREATED)] s s2"
      by (auto simp: succeeds_def split: Option.bind_splits)
    obtain sm2 where sm2: "kq_smons s2 p = Some sm2" "same_smon sm sm2" by (rule fstep_smon [OF s2(4) Cons.prems(3)])
    have same: "sm_subs sm2 = sm_subs sm" "mo_pathname sm2 = mo_pathname sm" using sm2(2) by (simp_all add: same_smon_def)
    have st: "still p s2" using Cons.prems(2) still_frame [OF fstep_frame [OF s2(4)]] by simp
    have fl: "filter (\<lambda>n. n \<notin> dir_names s2 p) names = filter (\<lambda>n. n \<notin> dir_names s p) names"
      using Cons.prems(4) s2(5) by (intro filter_cong) auto
    from Cons.IH [OF s2(3) st sm2(1)] Cons.prems(4,5) obtain s3 evs where s3: "change_entries en p names s2 = Some s3"
        "kq_inv none s3" "fstep p s2 s3" "dir_names s3 p = dir_names s2 p \<union> set names" "emits (sm_subs sm) evs s2 s3"
        "as_told evs = map (\<lambda>n. (g_build_filename (mo_pathname sm) n, GAMIN_EVENT_CREATED)) (filter (\<lambda>n. n \<notin> dir_names s p) names)"
      by (auto simp: succeeds_def same fl)
    show ?thesis using s2(1,2,5) s3 l False Cons.prems(3) fstep_trans [OF s2(4) s3(3)] emits_trans [OF s2(6) s3(5)] by fastforce
  qed
qed

text \<open>The walk over the file monitors: those whose name is not listed are told to be deleted, and wait for their removal.\<close>

lemma removal_loop:
  assumes "kq_inv none s" "kq_smons s p = Some sm" "ht_iterating (sm_fmons sm)" "set xs \<subseteq> content (sm_fmons sm)" "distinct xs"
  shows "succeeds (table_foreach (T_FMONS p) (ht_main (sm_fmons sm)) (gam_kqueue_sub_monitor_handle_directory_change_removal_cb en names) xs s)
    (\<lambda>s'. kq_inv none s' \<and> fstep p s s' \<and> kq_fmons s' = kq_fmons s \<and>
      (\<exists>sm'. kq_smons s' p = Some sm' \<and> content (sm_fmons sm') = content (sm_fmons sm) - {x \<in> set xs. fmon_name s x \<notin> set names}) \<and>
      emits (sm_subs sm) (map (\<lambda>x. (g_build_filename (mo_pathname sm) (fmon_name s x), False, GAMIN_EVENT_DELETED))
        (filter (\<lambda>x. fmon_name s x \<notin> set names) xs)) s s')"
  using assms
proof (induction xs arbitrary: s sm)
  case Nil
  then show ?case using fstep_same [OF same_kq_refl, of s p sm] by auto
next
  case (Cons x xs)
  note inv = Cons.prems(1) and p = Cons.prems(2)
  note ok = kq_invD(4) [OF inv p]
  have x: "x \<in> content (sm_fmons sm)" using Cons.prems(4) by simp
  then have "x \<in> set (ht_main (sm_fmons sm))" using content_sub_table [OF smon_okD(1) [OF ok]] by blast
  then obtain fm where fm: "kq_fmons s x = Some fm" "fm_smon fm = p" "mo_pathname fm = g_build_filename (mo_pathname sm) (fm_filename fm)"
    using smon_okD(3) [OF ok] unfolding owned_by_def by blast
  have nm: "fmon_name s x = fm_filename fm" using fm by (simp add: fmon_name_def)
  let ?cb = "gam_kqueue_sub_monitor_handle_directory_change_removal_cb en names"
  let ?ev = "\<lambda>x. (g_build_filename (mo_pathname sm) (fmon_name s x), False, GAMIN_EVENT_DELETED)"
  have "succeeds (?cb x s) (\<lambda>s1. kq_inv none s1 \<and> fstep p s s1 \<and> kq_fmons s1 = kq_fmons s \<and>
      (\<exists>sm1. kq_smons s1 p = Some sm1 \<and> content (sm_fmons sm1) = content (sm_fmons sm) - {y. y = x \<and> fmon_name s x \<notin> set names}) \<and>
      emits (sm_subs sm) (if fmon_name s x \<notin> set names then [?ev x] else []) s s1)"
  proof (cases "fmon_name s x \<in> set names")
    case True
    then show ?thesis using fm p inv nm fstep_same [OF same_kq_refl, of s p sm]
      by (simp add: gam_kqueue_sub_monitor_handle_directory_change_removal_cb_def)
  next
    case False
    have "fmon_at s p x fm sm" using fm p x by (simp add: fmon_at_def)
    from emit_gone [OF inv this, of GAMIN_EVENT_DELETED MONITOR_ISNOTDIR 1 en] show ?thesis
      using False fm nm Cons.prems(3)
      by (auto elim!: succeeds_mono
          simp: gam_kqueue_sub_monitor_handle_directory_change_removal_cb_def gam_kqueue_file_monitor_emit_event_def numeral_2_eq_2)
  qed
  then obtain s1 sm1 where s1: "?cb x s = Some s1" "kq_inv none s1" "fstep p s s1" "kq_fmons s1 = kq_fmons s" "kq_smons s1 p = Some sm1"
      "content (sm_fmons sm1) = content (sm_fmons sm) - {y. y = x \<and> fmon_name s x \<notin> set names}"
      "emits (sm_subs sm) (if fmon_name s x \<notin> set names then [?ev x] else []) s s1"
    by (auto simp: succeeds_def)
  have same: "same_smon sm sm1" using fstep_smon [OF s1(3) p] s1(5) by fastforce
  then have eqs: "sm_subs sm1 = sm_subs sm" "mo_pathname sm1 = mo_pathname sm" "ht_iterating (sm_fmons sm1)"
      "ht_main (sm_fmons sm1) = ht_main (sm_fmons sm)"
    using Cons.prems(3) by (simp_all add: same_smon_def same_walk_def)
  have n1: "fmon_name s1 = fmon_name s" by (rule fmon_name_cong [OF s1(4)])
  have "set xs \<subseteq> content (sm_fmons sm1)" using Cons.prems(4,5) s1(6) by auto
  then obtain s2 sm2 where s2: "table_foreach (T_FMONS p) (ht_main (sm_fmons sm)) ?cb xs s1 = Some s2" "kq_inv none s2" "fstep p s1 s2"
      "kq_fmons s2 = kq_fmons s1" "kq_smons s2 p = Some sm2"
      "content (sm_fmons sm2) = content (sm_fmons sm1) - {x \<in> set xs. fmon_name s x \<notin> set names}"
      "emits (sm_subs sm) (map ?ev (filter (\<lambda>x. fmon_name s x \<notin> set names) xs)) s1 s2"
    using Cons.IH [OF s1(2,5) eqs(3)] Cons.prems(5) by (auto simp: succeeds_def eqs n1)
  have "table_foreach (T_FMONS p) (ht_main (sm_fmons sm)) ?cb (x # xs) s = Some s2" using s1(1,5) s2(1) eqs(4) by simp
  moreover have "content (sm_fmons sm2) = content (sm_fmons sm) - {y \<in> set (x # xs). fmon_name s y \<notin> set names}"
    using s2(6) s1(6) by auto
  ultimately show ?case using s2 s1(4) fstep_trans [OF s1(3) s2(3)] emits_trans [OF s1(7) s2(7)] by (simp split: if_splits)
qed

text \<open>Removing from the table does not look at the removals that wait.\<close>

definition set_removals :: "cptr \<Rightarrow> cptr list \<Rightarrow> 'b ksrv_scheme \<Rightarrow> 'b ksrv_scheme" where
  "set_removals p R s = upd_table (T_FMONS p) (\<lambda>h. h\<lparr>ht_removals := R\<rparr>) s"

lemma removals_main_swap: "(h :: HashTable)\<lparr>ht_removals := R, ht_main := m\<rparr> = h\<lparr>ht_main := m, ht_removals := R\<rparr>"
  by simp

lemma lookup_name_cong: "kq_fmons s' = kq_fmons s \<Longrightarrow> lookup_name name fs s' = lookup_name name fs s"
proof (induction fs)
  case (Cons f fs)
  then show ?case by (cases "kq_fmons s f") simp_all
qed simp

lemma set_removals_lookup: "lookup_name name fs (set_removals p R s) = lookup_name name fs s"
  by (rule lookup_name_cong) (simp add: set_removals_def)

lemma set_removals_free: "gam_kqueue_file_monitor_free f (set_removals p R s) = map_option (set_removals p R) (gam_kqueue_file_monitor_free f s)"
  by (cases "kq_fmons s f")
     (simp_all add: set_removals_def gam_kqueue_file_monitor_free_def gam_kqueue_monitor_free_def close_monitor_def kq_close_def)

lemma set_removals_cb: "gam_kqueue_sub_monitor_remove_fmon_cb (T_FMONS p) f (set_removals p R s) =
    map_option (set_removals p R) (gam_kqueue_sub_monitor_remove_fmon_cb (T_FMONS p) f s)"
proof -
  have u: "upd_table (T_FMONS p) (\<lambda>h. h\<lparr>ht_main := removeAll g (ht_main h)\<rparr>) (set_removals p R s) =
      set_removals p R (upd_table (T_FMONS p) (\<lambda>h. h\<lparr>ht_main := removeAll g (ht_main h)\<rparr>) s)" for g
    by (cases "kq_smons s p") (simp_all add: set_removals_def removals_main_swap)
  have t: "map_option ht_main (get_table (T_FMONS p) (set_removals p R s)) = map_option ht_main (get_table (T_FMONS p) s)"
    by (simp add: set_removals_def option.map_comp comp_def)
  have k: "kq_fmons (set_removals p R s) = kq_fmons s" by (simp add: set_removals_def)
  show ?thesis
  proof (cases "kq_fmons s f")
    case (Some fm)
    show ?thesis
    proof (cases "get_table (T_FMONS p) s")
      case None
      then show ?thesis using t Some k by (simp add: gam_kqueue_sub_monitor_remove_fmon_cb_def del: get_table.simps)
    next
      case h: (Some h)
      then obtain h' where h': "get_table (T_FMONS p) (set_removals p R s) = Some h'" "ht_main h' = ht_main h" using t by auto
      show ?thesis
      proof (cases "lookup_name (fm_filename fm) (ht_main h) s")
        case None
        then show ?thesis using Some k h h' by (simp add: gam_kqueue_sub_monitor_remove_fmon_cb_def set_removals_lookup del: get_table.simps)
      next
        case old: (Some old)
        then show ?thesis using Some k h h' u set_removals_free [of _ p R]
          by (cases old) (simp_all add: gam_kqueue_sub_monitor_remove_fmon_cb_def set_removals_lookup del: get_table.simps upd_table.simps)
      qed
    qed
  qed (simp add: gam_kqueue_sub_monitor_remove_fmon_cb_def k)
qed

lemma set_removals_each: "table_each (gam_kqueue_sub_monitor_remove_fmon_cb (T_FMONS p)) fs (set_removals p R s) =
    map_option (set_removals p R) (table_each (gam_kqueue_sub_monitor_remove_fmon_cb (T_FMONS p)) fs s)"
proof (induction fs arbitrary: s)
  case (Cons f fs)
  show ?case
    by (cases "gam_kqueue_sub_monitor_remove_fmon_cb (T_FMONS p) f s") (simp_all add: set_removals_cb Cons.IH)
qed simp

text \<open>Starting and ending the walk.\<close>

definition walk :: "cptr \<Rightarrow> 'b ksrv_scheme \<Rightarrow> 'b ksrv_scheme" where
  "walk p s = upd_table (T_FMONS p) (\<lambda>h. h\<lparr>ht_iterating := True\<rparr>) s"

definition unwalk :: "cptr \<Rightarrow> 'b ksrv_scheme \<Rightarrow> 'b ksrv_scheme" where
  "unwalk p s = upd_table (T_FMONS p) (\<lambda>h. h\<lparr>ht_iterating := False, ht_removals := []\<rparr>) s"

lemma walk_same [simp]: "kq_fmons (walk p s) = kq_fmons s" "srv.truncate (walk p s) = srv.truncate s"
  "kq_fmons (unwalk p s) = kq_fmons s" "srv.truncate (unwalk p s) = srv.truncate s" "emits qs evs (walk p s) s' = emits qs evs s s'"
  by (simp_all add: walk_def unwalk_def emits_def srv.defs)

text \<open>Changing the marks of the table of file monitors, with the exemptions that go with it.\<close>

lemma put_fmons_inv:
  assumes inv: "kq_inv Y s" and p: "kq_smons s p = Some sm" and h: "ht_main h = ht_main (sm_fmons sm)" "sub_table_ok h"
    and Z: "content (sm_unsupported sm) - Z = content h \<inter> closed_fmons s - Z"
  shows "kq_inv (Y(p := Z)) (put_smon p (sm\<lparr>sm_fmons := h\<rparr>) s)"
proof -
  let ?sm = "sm\<lparr>sm_fmons := h\<rparr>"
  let ?s' = "put_smon p ?sm s"
  have d: "dom (kq_smons ?s') = dom (kq_smons s)" using p by auto
  have [simp]: "sub_linked ?s' = sub_linked s" by (simp add: sub_linked_def fun_eq_iff)
  have [simp]: "fmon_name ?s' = fmon_name s" "closed_fmons ?s' = closed_fmons s" "owned_by ?s' = owned_by s" "poller_content ?s' = poller_content s"
    by (simp_all add: fmon_name_def closed_fmons_def owned_by_def poller_content_def fun_eq_iff)
  have "heap_ok ?s'" using kq_invD(1) [OF inv] p h(1) unfolding heap_ok_def d by (auto simp: put_smon_def) fastforce+
  moreover have "mon_fd ?s' = mon_fd s"
    using mon_fd_smon [of ?s' s p ?sm] mon_fd_Some(1) [OF p] by (simp add: fun_upd_idem)
  then have "fds_ok ?s'" by (intro fds_same [OF kq_invD(2) [OF inv]]) simp_all
  moreover have "poller_ok ?s' (kq_pollers ?s' k)" for k using kq_invD(3) [OF inv, of k] unfolding poller_ok_dom [OF d] by simp
  moreover have "smon_ok ((Y(p := Z)) r) ?s' r sm2" if "kq_smons ?s' r = Some sm2" for r sm2
  proof (cases "r = p")
    case True
    then have sm2: "sm2 = ?sm" using that by simp
    show ?thesis unfolding sm2 True using kq_invD(4) [OF inv p] h Z by (simp add: smon_ok_def)
  next
    case False
    then show ?thesis using that kq_invD(4) [OF inv, of r sm2] by (simp add: smon_ok_def)
  qed
  ultimately show ?thesis by (simp add: kq_inv_def)
qed

lemma walk_inv:
  assumes inv: "kq_inv none s" and p: "kq_smons s p = Some sm" and it: "\<not> ht_iterating (sm_fmons sm)"
  shows "kq_inv none (walk p s)" "kq_smons (walk p s) p = Some (sm\<lparr>sm_fmons := (sm_fmons sm)\<lparr>ht_iterating := True\<rparr>\<rparr>)"
proof -
  let ?h = "(sm_fmons sm)\<lparr>ht_iterating := True\<rparr>"
  note ok = kq_invD(4) [OF inv p]
  have "kq_inv (none(p := {})) (put_smon p (sm\<lparr>sm_fmons := ?h\<rparr>) s)"
    by (rule put_fmons_inv [OF inv p]) (use smon_okD(1,6) [OF ok] in \<open>simp_all add: sub_table_ok_def table_ok_def content_def\<close>)
  moreover have "walk p s = put_smon p (sm\<lparr>sm_fmons := ?h\<rparr>) s" using p by (simp add: walk_def put_smon_def)
  ultimately show "kq_inv none (walk p s)" by (simp add: fun_upd_def if_cong)
  show "kq_smons (walk p s) p = Some (sm\<lparr>sm_fmons := ?h\<rparr>)" using p by (simp add: walk_def)
qed

lemma unwalk_inv:
  assumes inv: "kq_inv none s" and p: "kq_smons s p = Some sm"
  shows "kq_inv (none(p := set (ht_removals (sm_fmons sm)))) (unwalk p s)"
    "kq_smons (unwalk p s) p = Some (sm\<lparr>sm_fmons := (sm_fmons sm)\<lparr>ht_iterating := False, ht_removals := []\<rparr>\<rparr>)"
proof -
  let ?h = "(sm_fmons sm)\<lparr>ht_iterating := False, ht_removals := []\<rparr>" and ?R = "set (ht_removals (sm_fmons sm))"
  note ok = kq_invD(4) [OF inv p]
  have c: "content ?h - ?R = content (sm_fmons sm) - ?R" by (auto simp: content_def)
  have "content (sm_unsupported sm) - ?R = content ?h \<inter> closed_fmons s - ?R"
    using smon_okD(6) [OF ok] c by blast
  then have "kq_inv (none(p := ?R)) (put_smon p (sm\<lparr>sm_fmons := ?h\<rparr>) s)"
    by (intro put_fmons_inv [OF inv p]) (use smon_okD(1) [OF ok] in \<open>auto simp: sub_table_ok_def table_ok_def\<close>)
  moreover have "unwalk p s = put_smon p (sm\<lparr>sm_fmons := ?h\<rparr>) s" using p by (simp add: unwalk_def put_smon_def)
  ultimately show "kq_inv (none(p := ?R)) (unwalk p s)" by simp
  show "kq_smons (unwalk p s) p = Some (sm\<lparr>sm_fmons := ?h\<rparr>)" using p by (simp add: unwalk_def)
qed

lemma fstep_unwalk:
  assumes st: "fstep p (walk p s) s1" and p: "kq_smons s p = Some sm" "\<not> ht_iterating (sm_fmons sm)"
  shows "fstep p s (unwalk p s1)"
proof -
  obtain sm1 where sm1: "kq_smons s1 p = Some sm1" "same_smon (sm\<lparr>sm_fmons := (sm_fmons sm)\<lparr>ht_iterating := True\<rparr>\<rparr>) sm1"
      "Monitor.truncate sm1 = Monitor.truncate (sm\<lparr>sm_fmons := (sm_fmons sm)\<lparr>ht_iterating := True\<rparr>\<rparr>)"
    by (rule fstep_smon [OF st]) (use p in \<open>simp_all add: walk_def\<close>)
  have "same_smon sm (sm1\<lparr>sm_fmons := (sm_fmons sm1)\<lparr>ht_iterating := False, ht_removals := []\<rparr>\<rparr>)"
    using sm1(2) p(2) by (simp add: same_smon_def same_walk_def)
  then show ?thesis using st p(1) sm1(1,3)
    by (auto simp: fstep_def kframe_def walk_def unwalk_def Monitor.defs same_sv_def)
qed

text \<open>The removals that waited.\<close>

lemma removals_loop:
  assumes "kq_inv (none(p := set R)) s" "kq_smons s p = Some sm" "\<not> ht_iterating (sm_fmons sm)" "distinct R"
    "set R \<subseteq> content (sm_fmons sm)" "set R \<inter> content (sm_unsupported sm) = {}"
  shows "succeeds (table_each (gam_kqueue_sub_monitor_remove_fmon_cb (T_FMONS p)) R s) (\<lambda>s'. kq_inv none s' \<and> fstep p s s' \<and>
    srv.truncate s' = srv.truncate s \<and> kq_fmons s' = kq_fmons s |` (- set R) \<and>
    (\<exists>sm'. kq_smons s' p = Some sm' \<and> content (sm_fmons sm') = content (sm_fmons sm) - set R))"
  using assms
proof (induction R arbitrary: s sm)
  case Nil
  then show ?case using fstep_same [OF same_kq_refl, of s p sm] by (simp add: fun_upd_def if_cong)
next
  case (Cons f R)
  let ?Y = "none(p := set (f # R))"
  have f: "f \<in> content (sm_fmons sm)" "f \<notin> content (sm_unsupported sm)" using Cons.prems(5,6) by auto
  obtain s1 h where s1: "remove_fmon p f s = Some s1" "kq_inv (?Y(p := ?Y p - {f})) s1" "kframe p s s1" "fmons_changed p sm h s s1"
      "content h = content (sm_fmons sm) - {f}" "kq_fmons s1 = (kq_fmons s)(f := None)"
    using remove_fmon_ok [OF Cons.prems(1,2) f, unfolded if_not_P [OF Cons.prems(3)] succeeds_def] by blast
  have p1: "kq_smons s1 p = Some (sm\<lparr>sm_fmons := h\<rparr>)" using s1(4) by (simp add: fmons_changed_def)
  have cb: "gam_kqueue_sub_monitor_remove_fmon_cb (T_FMONS p) f s = Some s1"
    using s1(1) Cons.prems(2,3)
    by (simp add: remove_fmon_def gam_kqueue_hash_table_remove_def sub_monitor_fmons_hash_table_methods_def)
  have "?Y(p := ?Y p - {f}) = none(p := set R)" using Cons.prems(4) by auto
  then have i1: "kq_inv (none(p := set R)) s1" using s1(2) by simp
  have "\<not> ht_iterating h" using s1(3) Cons.prems(2,3) p1 by (auto simp: kframe_def same_smon_def same_walk_def)
  then obtain s2 sm2 where s2: "table_each (gam_kqueue_sub_monitor_remove_fmon_cb (T_FMONS p)) R s1 = Some s2" "kq_inv none s2" "fstep p s1 s2"
      "srv.truncate s2 = srv.truncate s1" "kq_fmons s2 = kq_fmons s1 |` (- set R)" "kq_smons s2 p = Some sm2"
      "content (sm_fmons sm2) = content (sm_fmons sm) - {f} - set R"
    using Cons.IH [OF i1 p1] Cons.prems(4-6) s1(5) by (auto simp: succeeds_def)
  have "fstep p s s1" using s1(3,4) Cons.prems(2) p1 by (simp add: fstep_def fmons_changed_def Monitor.defs)
  moreover have "kq_fmons s |` (- set (f # R)) = kq_fmons s2" unfolding s2(5) s1(6) by (auto simp: restrict_map_def fun_eq_iff)
  moreover have "content (sm_fmons sm) - set (f # R) = content (sm_fmons sm) - {f} - set R" by auto
  ultimately show ?case using cb s2 s1(4) fstep_trans [of p s s1 s2] by (auto simp: fmons_changed_def)
qed

text \<open>GLib walks every key once, in an order of its own.\<close>

definition good_order :: "kenv \<Rightarrow> bool" where
  "good_order en \<longleftrightarrow> (\<forall>xs. set (ke_order en xs) = set xs \<and> (distinct xs \<longrightarrow> distinct (ke_order en xs)))"

lemma good_order_simps:
  assumes "good_order en"
  shows "set (ke_order en xs) = set xs" "distinct xs \<Longrightarrow> distinct (ke_order en xs)"
  using assms by (simp_all add: good_order_def)

text \<open>After the walk the monitors that are left are those of the listed names, and the others were told to be deleted.\<close>

lemma directory_removals_ok:
  assumes ord: "good_order en" and inv: "kq_inv none s" and st: "still p s" and p: "kq_smons s p = Some sm"
  shows "succeeds (gam_kqueue_hash_table_foreach en sub_monitor_fmons_hash_table_methods (T_FMONS p)
      (gam_kqueue_sub_monitor_handle_directory_change_removal_cb en names) s)
    (\<lambda>s'. kq_inv none s' \<and> fstep p s s' \<and> dir_names s' p = dir_names s p \<inter> set names \<and>
      emits (sm_subs sm) (map (\<lambda>x. (g_build_filename (mo_pathname sm) (fmon_name s x), False, GAMIN_EVENT_DELETED))
        (filter (\<lambda>x. fmon_name s x \<notin> set names) (ke_order en (ht_main (sm_fmons sm))))) s s')"
proof -
  let ?m = sub_monitor_fmons_hash_table_methods and ?M = "ht_main (sm_fmons sm)"
  let ?cb = "gam_kqueue_sub_monitor_handle_directory_change_removal_cb en names"
  let ?evs = "map (\<lambda>x. (g_build_filename (mo_pathname sm) (fmon_name s x), False, GAMIN_EVENT_DELETED))
        (filter (\<lambda>x. fmon_name s x \<notin> set names) (ke_order en ?M))"
  have it: "\<not> ht_iterating (sm_fmons sm)" using st p by (auto simp: still_def)
  note ok = kq_invD(4) [OF inv p]
  have c: "content (sm_fmons sm) = set ?M" using smon_okD(1) [OF ok] it by (simp add: content_sub_table sub_table_ok_def table_ok_def)
  let ?smw = "sm\<lparr>sm_fmons := (sm_fmons sm)\<lparr>ht_iterating := True\<rparr>\<rparr>"
  note w = walk_inv [OF inv p it]
  have nw: "fmon_name (walk p s) = fmon_name s" by (rule fmon_name_cong) (simp add: walk_def)
  have "content (sm_fmons ?smw) = content (sm_fmons sm)" by (simp add: content_def)
  moreover have "distinct ?M" using smon_okD(1) [OF ok] by (simp add: sub_table_ok_def table_ok_def)
  ultimately obtain s1 sm1 where s1: "table_foreach (T_FMONS p) ?M ?cb (ke_order en ?M) (walk p s) = Some s1" "kq_inv none s1" "fstep p (walk p s) s1"
      "kq_fmons s1 = kq_fmons s" "kq_smons s1 p = Some sm1" "content (sm_fmons sm1) = set ?M - {x \<in> set ?M. fmon_name s x \<notin> set names}"
      "emits (sm_subs sm) ?evs s s1"
    using removal_loop [OF w, of "ke_order en ?M" en names] c good_order_simps [OF ord, of ?M]
    by (auto simp: succeeds_def nw)
  note ok1 = kq_invD(4) [OF s1(2,5)]
  let ?R = "ht_removals (sm_fmons sm1)"
  note u = unwalk_inv [OF s1(2,5)]
  let ?smu = "sm1\<lparr>sm_fmons := (sm_fmons sm1)\<lparr>ht_iterating := False, ht_removals := []\<rparr>\<rparr>"
  have t1: "sub_table_ok (sm_fmons sm1)" by (rule smon_okD(1) [OF ok1])
  have cu: "content (sm_fmons ?smu) = set (ht_main (sm_fmons sm1))" using t1 by (simp add: content_def sub_table_ok_def)
  have m1: "ht_main (sm_fmons sm1) = ?M"
    using fstep_smon [OF s1(3) w(2)] s1(5) by (fastforce simp: same_smon_def same_walk_def)
  have nr: "set ?R \<inter> content (sm_unsupported sm1) = {}"
  proof -
    have "content (sm_unsupported sm1) \<subseteq> content (sm_fmons sm1)" using smon_okD(6) [OF ok1] by blast
    then show ?thesis by (auto simp: content_def)
  qed
  obtain s2 sm2 where s2: "table_each (gam_kqueue_sub_monitor_remove_fmon_cb (T_FMONS p)) ?R (unwalk p s1) = Some s2" "kq_inv none s2"
      "fstep p (unwalk p s1) s2" "srv.truncate s2 = srv.truncate (unwalk p s1)" "kq_fmons s2 = kq_fmons (unwalk p s1) |` (- set ?R)"
      "kq_smons s2 p = Some sm2" "content (sm_fmons sm2) = set ?M - set ?R"
    using removals_loop [OF u] t1 cu nr m1 by (auto simp: succeeds_def sub_table_ok_def)
  have unw: "unwalk p s1 = set_removals p [] (upd_table (T_FMONS p) (\<lambda>h. h\<lparr>ht_iterating := False\<rparr>) s1)"
    "upd_table (T_FMONS p) (\<lambda>h. h\<lparr>ht_iterating := False\<rparr>) s1 = set_removals p ?R (unwalk p s1)"
    using s1(5) by (simp_all add: unwalk_def set_removals_def)
  have r2: "ht_removals (sm_fmons sm2) = []"
    using fstep_smon [OF s2(3) u(2)] s2(6) smon_okD(1) [OF kq_invD(4) [OF s2(2,6)]]
    by (fastforce simp: same_smon_def same_walk_def sub_table_ok_def table_ok_def)
  then have "sm2\<lparr>sm_fmons := (sm_fmons sm2)\<lparr>ht_removals := []\<rparr>\<rparr> = sm2" by simp
  then have cleared: "set_removals p [] s2 = s2" "set_removals p [] (set_removals p ?R s2) = s2"
    using s2(6) by (simp_all add: set_removals_def fun_upd_idem)
  have "gam_kqueue_hash_table_foreach en ?m (T_FMONS p) ?cb s = apply_removals ?m (T_FMONS p) (set_removals p ?R (unwalk p s1))"
  proof -
    have "get_table (T_FMONS p) (set_removals p ?R (unwalk p s1)) = Some ((sm_fmons sm1)\<lparr>ht_iterating := False\<rparr>)"
      using s1(5) unfolding unw(2) [symmetric] by simp
    then have "apply_additions ?m (T_FMONS p) (set_removals p ?R (unwalk p s1)) = Some (set_removals p ?R (unwalk p s1))"
      using t1 by (simp add: apply_additions_def sub_table_ok_def del: get_table.simps)
    then show ?thesis using p it s1(1) unw(2) by (simp add: gam_kqueue_hash_table_foreach_def walk_def)
  qed
  also have "\<dots> = Some s2"
  proof (cases "?R = []")
    case True
    then have "s2 = unwalk p s1" using s2(1) by simp
    then have "set_removals p ?R (unwalk p s1) = s2" using True cleared(1) by simp
    then show ?thesis using r2 s2(6) by (simp add: apply_removals_def)
  next
    case False
    have g: "get_table (T_FMONS p) (set_removals p ?R (unwalk p s1)) = Some ((sm_fmons sm1)\<lparr>ht_iterating := False\<rparr>)"
      using s1(5) unfolding unw(2) [symmetric] by simp
    have "table_each (gam_kqueue_sub_monitor_remove_fmon_cb (T_FMONS p)) ?R (set_removals p ?R (unwalk p s1)) = Some (set_removals p ?R s2)"
      using s2(1) by (simp add: set_removals_each)
    then show ?thesis using g False cleared(2)
      by (simp add: apply_removals_def sub_monitor_fmons_hash_table_methods_def set_removals_def del: get_table.simps upd_table.simps)
  qed
  finally have run: "gam_kqueue_hash_table_foreach en ?m (T_FMONS p) ?cb s = Some s2" .
  have left: "set ?M - set ?R = {x \<in> set ?M. fmon_name s x \<in> set names}"
    using s1(6) content_sub_table [OF t1] m1 by auto
  have "fmon_name s2 ` (set ?M - set ?R) = fmon_name s ` (set ?M - set ?R)"
    by (rule image_cong) (use s1(4) in \<open>simp_all add: fmon_name_def s2(5)\<close>)
  then have "dir_names s2 p = dir_names s p \<inter> set names"
    using s2(6,7) p c unfolding dir_names_Some [OF s2(6)] dir_names_Some [OF p] s2(7) left c by auto
  moreover have "fstep p s s2" by (rule fstep_trans [OF fstep_unwalk [OF s1(3) p it] s2(3)])
  moreover have "srv.truncate s2 = srv.truncate s1" using s2(4) by simp
  ultimately show ?thesis using run s2(2) emits_truncate [OF s1(7) refl] by simp
qed

text \<open>What is asked of the environment: descriptors are fresh, tables are walked in some order, and the names in a directory
  are distinct and have no slash.\<close>

definition good_dirs :: "kenv \<Rightarrow> bool" where
  "good_dirs en \<longleftrightarrow> (\<forall>t path names. ke_readdir en t path = Some names \<longrightarrow> distinct names \<and> (\<forall>n \<in> set names. slash \<notin> set n))"

definition good_kenv :: "kenv \<Rightarrow> bool" where
  "good_kenv en \<longleftrightarrow> fresh_fds en \<and> good_order en \<and> good_dirs en"

text \<open>The names a change of the directory is compared with.\<close>

definition listed :: "kenv \<Rightarrow> bool \<Rightarrow> string \<Rightarrow> nat \<Rightarrow> string list" where
  "listed en isdir path t = (if isdir then case ke_readdir en t path of None \<Rightarrow> [] | Some names \<Rightarrow> names else [])"

lemma listed_ok: "good_dirs en \<Longrightarrow> distinct (listed en isdir path t) \<and> (\<forall>n \<in> set (listed en isdir path t). slash \<notin> set n)"
  by (cases "ke_readdir en t path"; cases isdir) (simp_all add: listed_def good_dirs_def)

lemma directory_change_ok:
  assumes en: "good_kenv en" and inv: "kq_inv none s" and st: "still p s" and p: "kq_smons s p = Some sm"
  shows "succeeds (gam_kqueue_sub_monitor_handle_directory_change en p isdir s) (\<lambda>s'. kq_inv none s' \<and> fstep p s s' \<and>
    dir_names s' p = set (listed en isdir (mo_pathname sm) (kq_tick s)) \<and>
    (\<exists>evs gone. emits (sm_subs sm) evs s s' \<and> distinct gone \<and> set gone = dir_names s p - set (listed en isdir (mo_pathname sm) (kq_tick s)) \<and>
      as_told evs =
        map (\<lambda>n. (g_build_filename (mo_pathname sm) n, GAMIN_EVENT_CREATED))
          (filter (\<lambda>n. n \<notin> dir_names s p) (listed en isdir (mo_pathname sm) (kq_tick s))) @
        map (\<lambda>n. (g_build_filename (mo_pathname sm) n, GAMIN_EVENT_DELETED)) gone))"
proof -
  let ?names = "listed en isdir (mo_pathname sm) (kq_tick s)"
  have fresh: "fresh_fds en" and ord: "good_order en" and dirs: "good_dirs en" using en by (simp_all add: good_kenv_def)
  obtain r t where r: "(if isdir then kq_readdir en (mo_pathname sm) s else (None, s)) = (r, s\<lparr>kq_tick := t\<rparr>)"
      "?names = (case r of None \<Rightarrow> [] | Some names \<Rightarrow> names)"
  proof (cases isdir)
    case True
    show ?thesis by (rule that [of "ke_readdir en (kq_tick s) (mo_pathname sm)" "Suc (kq_tick s)"]) (use True in \<open>simp_all add: kq_readdir_def listed_def\<close>)
  next
    case False
    show ?thesis by (rule that [of None "kq_tick s"]) (use False in \<open>simp_all add: listed_def\<close>)
  qed
  let ?s1 = "s\<lparr>kq_tick := t\<rparr>"
  have e1: "dir_names ?s1 p = dir_names s p" by (rule dir_names_same) simp
  have p1: "kq_smons ?s1 p = Some sm" "kq_inv none ?s1" "still p ?s1" using p inv st by (simp_all add: still_def)
  obtain s2 evs where s2: "change_entries en p ?names ?s1 = Some s2" "kq_inv none s2" "fstep p ?s1 s2"
      "dir_names s2 p = dir_names s p \<union> set ?names" "emits (sm_subs sm) evs s s2"
      "as_told evs = map (\<lambda>n. (g_build_filename (mo_pathname sm) n, GAMIN_EVENT_CREATED)) (filter (\<lambda>n. n \<notin> dir_names s p) ?names)"
    using change_entries_ok [OF fresh p1(2,3,1), of ?names] listed_ok [OF dirs, of isdir "mo_pathname sm" "kq_tick s"]
    by (auto simp: succeeds_def e1)
  obtain sm2 where sm2: "kq_smons s2 p = Some sm2" "same_smon sm sm2" by (rule fstep_smon [OF s2(3) p1(1)])
  have same: "sm_subs sm2 = sm_subs sm" "mo_pathname sm2 = mo_pathname sm" using sm2(2) by (simp_all add: same_smon_def)
  have st2: "still p s2" using p1(3) still_frame [OF fstep_frame [OF s2(3)]] by simp
  let ?xs = "filter (\<lambda>x. fmon_name s2 x \<notin> set ?names) (ke_order en (ht_main (sm_fmons sm2)))"
  let ?dels = "map (\<lambda>x. (g_build_filename (mo_pathname sm) (fmon_name s2 x), False, GAMIN_EVENT_DELETED)) ?xs"
  obtain s3 where s3: "gam_kqueue_hash_table_foreach en sub_monitor_fmons_hash_table_methods (T_FMONS p)
        (gam_kqueue_sub_monitor_handle_directory_change_removal_cb en ?names) s2 = Some s3"
      "kq_inv none s3" "fstep p s2 s3" "dir_names s3 p = dir_names s2 p \<inter> set ?names" "emits (sm_subs sm) ?dels s2 s3"
    using directory_removals_ok [OF ord s2(2) st2 sm2(1), of ?names] by (auto simp: succeeds_def same)
  have run: "gam_kqueue_sub_monitor_handle_directory_change en p isdir s = Some s3"
    using p r s2(1) s3(1) by (simp add: gam_kqueue_sub_monitor_handle_directory_change_def)
  note ok2 = kq_invD(4) [OF s2(2) sm2(1)]
  have it2: "\<not> ht_iterating (sm_fmons sm2)" using st2 sm2(1) by (auto simp: still_def)
  have M: "dir_names s2 p = fmon_name s2 ` set (ht_main (sm_fmons sm2))" "distinct (ht_main (sm_fmons sm2))"
    using smon_okD(1) [OF ok2] it2 by (simp_all add: dir_names_Some [OF sm2(1)] content_sub_table sub_table_ok_def table_ok_def)
  let ?gone = "map (fmon_name s2) ?xs"
  have "distinct ?gone" unfolding distinct_map
    using good_order_simps [OF ord, of "ht_main (sm_fmons sm2)"] M(2) smon_okD(4) [OF ok2] by (auto intro: inj_on_subset)
  moreover have "set ?gone = dir_names s p - set ?names"
    using s2(4) good_order_simps(1) [OF ord, of "ht_main (sm_fmons sm2)"] M(1) by auto
  moreover have "as_told ?dels = map (\<lambda>n. (g_build_filename (mo_pathname sm) n, GAMIN_EVENT_DELETED)) ?gone" by (simp add: as_told_def)
  ultimately have "\<exists>evs gone. emits (sm_subs sm) evs s s3 \<and> distinct gone \<and> set gone = dir_names s p - set ?names \<and>
      as_told evs = map (\<lambda>n. (g_build_filename (mo_pathname sm) n, GAMIN_EVENT_CREATED)) (filter (\<lambda>n. n \<notin> dir_names s p) ?names) @
        map (\<lambda>n. (g_build_filename (mo_pathname sm) n, GAMIN_EVENT_DELETED)) gone"
    using emits_trans [OF s2(5) s3(5)] s2(6) by (intro exI [of _ "evs @ ?dels"] exI [of _ ?gone]) simp
  moreover have "fstep p s s3" using fstep_trans [OF s2(3) s3(3)] by (simp add: fstep_def)
  moreover have "dir_names s3 p = set ?names" using s3(4) s2(4) by auto
  ultimately show ?thesis using run s3(2) by simp
qed

lemma remove_fmon_exempt:
  assumes inv: "kq_inv (none(p := {f})) s" and p: "kq_smons s p = Some sm"
    and f: "f \<in> content (sm_fmons sm)" "f \<notin> content (sm_unsupported sm)"
  shows "succeeds (remove_fmon p f s) (\<lambda>s'. kq_inv none s' \<and> fstep p s s')"
proof (rule succeeds_mono [OF remove_fmon_ok [OF inv p f]])
  fix s' assume a: "kq_inv ((none(p := {f}))(p := (none(p := {f})) p - {f})) s' \<and> kframe p s s' \<and>
      (\<exists>h. fmons_changed p sm h s s' \<and> content h = content (sm_fmons sm) - {f}) \<and>
      kq_fmons s' = (if ht_iterating (sm_fmons sm) then kq_fmons s else (kq_fmons s)(f := None))"
  have "(none(p := {f}))(p := (none(p := {f})) p - {f}) = none" by auto
  moreover obtain h where h: "fmons_changed p sm h s s'" "kframe p s s'" using a by blast
  have "fstep p s s'" using h p by (simp add: fstep_def fmons_changed_def Monitor.defs)
  ultimately show "kq_inv none s' \<and> fstep p s s'" using conjunct1 [OF a] by simp
qed

text \<open>A file that was removed and is there again gets a new monitor.\<close>

lemma emit_recreated:
  assumes en: "good_kenv en" and inv: "kq_inv none s" and st: "still p s" and f: "fmon_at s p f fm sm"
    and e: "event = GAMIN_EVENT_DELETED \<or> event = GAMIN_EVENT_MOVED"
  shows "succeeds (gam_kqueue_file_monitor_emit_event en f event (MONITOR_ISNOTDIR OR FILE_MONITOR_POSSIBLY_RECREATED) s)
    (\<lambda>s'. kq_inv none s' \<and> fstep p s s')"
proof -
  note at = f [unfolded fmon_at_def]
  note ok = kq_invD(4) [OF inv, of p sm]
  have fresh: "fresh_fds en" using en by (simp add: good_kenv_def)
  obtain s1 where s1: "gam_server_emit_event (mo_pathname fm) False event (sm_subs sm) True s = Some s1" "same_kq s s1"
    using emit_subs_ok [OF inv, of p sm "mo_pathname fm" False event] at by (auto simp: succeeds_def)
  have i1: "kq_inv none s1" by (rule kq_inv_same [OF s1(2) inv])
  note at1 = fmon_at_same [OF s1(2) f, unfolded fmon_at_def]
  have sm: "smon_ok {} s1 p sm" using kq_invD(4) [OF i1, of p sm] at1 by simp
  have closed: "f \<in> content (sm_unsupported sm) \<longleftrightarrow> mo_fd fm < 0" using smon_okD(6) [OF sm] at1 by (simp add: closed_fmons_def)
  have "succeeds (if mo_fd fm < 0 then remove_unsupported p f s1 else Some s1)
      (\<lambda>s2. \<exists>h. kq_smons s2 p = Some (sm\<lparr>sm_unsupported := h\<rparr>) \<and> f \<notin> content h \<and>
        kq_inv (none(p := {f})) s2 \<and> fstep p s1 s2 \<and> kq_fmons s2 = kq_fmons s1)"
  proof (cases "mo_fd fm < 0")
    case True
    then show ?thesis using remove_unsupported_ok [OF i1, of p sm f] at1 closed
      by (auto elim!: succeeds_mono simp: fstep_def Monitor.defs)
  next
    case False
    have "kq_inv (none(p := {f})) s1" using kq_inv_weaken [OF i1, of p sm "{f}"] at1 by simp
    then show ?thesis using False fstep_same [OF same_kq_refl, of s1 p sm] at1 closed
      by (simp, intro exI [of _ "sm_unsupported sm"], simp)
  qed
  then obtain s2 h where s2: "(if mo_fd fm < 0 then remove_unsupported p f s1 else Some s1) = Some s2"
      "kq_smons s2 p = Some (sm\<lparr>sm_unsupported := h\<rparr>)" "f \<notin> content h" "kq_inv (none(p := {f})) s2" "fstep p s1 s2" "kq_fmons s2 = kq_fmons s1"
    by (auto simp: succeeds_def)
  let ?s3 = "s2\<lparr>kq_tick := Suc (kq_tick s2)\<rparr>" and ?r = "ke_lstat en (kq_tick s2) (mo_pathname fm)"
  let ?sm2 = "sm\<lparr>sm_unsupported := h\<rparr>"
  have eq: "gam_kqueue_file_monitor_emit_event en f event (MONITOR_ISNOTDIR OR FILE_MONITOR_POSSIBLY_RECREATED) s =
      (if ?r \<noteq> None then do { (new, new_flags, s4) \<leftarrow> gam_kqueue_file_monitor_new en p (fm_filename fm) ?s3;
          file_monitor_emit (Suc 0) en new GAMIN_EVENT_CREATED new_flags s4 } else remove_fmon p f ?s3)"
    unfolding gam_kqueue_file_monitor_emit_event_def numeral_2_eq_2
    by (subst file_monitor_emit.simps(2)) (use at e s1(1) s2(1) in \<open>auto simp: kq_lstat_def simp del: file_monitor_emit.simps\<close>)
  have fst3: "fstep p s ?s3" using fstep_trans [OF fstep_same [OF s1(2)] s2(5)] at by (simp add: fstep_def)
  have i3: "kq_inv (none(p := {f})) ?s3" using s2(4) by simp
  have p3: "kq_smons ?s3 p = Some ?sm2" using s2(2) by simp
  have st3: "still p ?s3" using st still_frame [OF fstep_frame [OF fst3]] by simp
  have it: "\<not> ht_iterating (sm_fmons sm)" using st at by (auto simp: still_def)
  have own2: "f \<in> set (ht_main (sm_fmons sm))" using at1 content_sub_table [OF smon_okD(1) [OF sm]] by blast
  have own1: "slash \<notin> set (fm_filename fm)" using smon_okD(3) [OF sm own2] at1 by (simp add: owned_by_def)
  note own = own1 own2
  have nm: "fmon_name ?s3 g = fmon_name s1 g" for g by (simp add: fmon_name_def s2(6))
  have nf: "fmon_name s1 f = fm_filename fm" using at1 by (simp add: fmon_name_def)
  have only: "g = f" if "g \<in> set (ht_main (sm_fmons sm))" "fmon_name ?s3 g = fm_filename fm" for g
    by (rule inj_onD [OF smon_okD(4) [OF sm]]) (use own2 that nm nf in simp_all)
  show ?thesis
  proof (cases "?r = None")
    case True
    have "f \<in> content (sm_fmons ?sm2)" "f \<notin> content (sm_unsupported ?sm2)" using at1 s2(3) by simp_all
    from remove_fmon_exempt [OF i3 p3 this] show ?thesis unfolding eq if_not_P [OF not_not [THEN iffD2, OF True]]
      by (rule succeeds_mono) (use fstep_trans [OF fst3] in blast)
  next
    case False
    have Y: "(none(p := {f})) p \<subseteq> {g \<in> set (ht_main (sm_fmons ?sm2)). fmon_name ?s3 g = fm_filename fm}" using own(2) nm nf by simp
    have old: "g \<notin> content (sm_unsupported ?sm2)" if "g \<in> set (ht_main (sm_fmons ?sm2))" "fmon_name ?s3 g = fm_filename fm" for g
      using only [of g] that s2(3) by auto
    have none: "(none(p := {f}))(p := {}) = none" by auto
    from file_monitor_new_ok [OF fresh i3 st3 p3 own(1) old Y, where qs = "[]", unfolded none]
    obtain new flags s4 fm4 where s4: "gam_kqueue_file_monitor_new en p (fm_filename fm) ?s3 = Some (new, flags, s4)"
        "kq_inv none s4" "fstep p ?s3 s4" "kq_fmons s4 new = Some fm4" "fm_smon fm4 = p"
      unfolding succeeds_def split_paired_Ex prod.case by blast
    note i4 = s4(2)
    obtain sm4 where sm4: "kq_smons s4 p = Some sm4" by (rule fstep_smon [OF s4(3) p3])
    from emit_plain [OF i4 s4(4), of sm4 GAMIN_EVENT_CREATED 0 en flags] sm4 s4(5)
    obtain s5 where s5: "file_monitor_emit (Suc 0) en new GAMIN_EVENT_CREATED flags s4 = Some s5" "same_kq s4 s5"
      by (auto simp: succeeds_def)
    show ?thesis unfolding eq
      using False s4(1) s5 kq_inv_same [OF s5(2) i4] fstep_trans [OF fstep_trans [OF fst3 s4(3)] fstep_same [OF s5(2) sm4]] by simp
  qed
qed

end
