(* ===== verification/Gam_Kqueue_Subs.thy ===== *)
theory Gam_Kqueue_Subs
  imports Gam_Kqueue_Files
begin

unbundle bit_operations_syntax

text \<open>
  What the operations on the monitors of subscriptions do to the invariant: clearing the files of a directory, a
  monitor that is missing or cannot be watched by the kernel, its events, and the start of notification.
\<close>

section \<open>Clearing a directory\<close>

lemma free_all:
  assumes "fds_ok s" "distinct fs" "\<forall>f \<in> set fs. kq_fmons s f \<noteq> None \<and> kq_smons s f = None"
  shows "succeeds (table_each gam_kqueue_file_monitor_free fs s) (\<lambda>s'. fds_ok s' \<and>
    s' = s\<lparr>kq_fmons := kq_fmons s |` (- set fs), kq_fds := kq_fds s', kq_open_files := kq_open_files s'\<rparr>)"
  using assms
proof (induction fs arbitrary: s)
  case Nil
  have "kq_fmons s |` (- set []) = kq_fmons s" by (simp add: restrict_map_def)
  moreover have "s = s\<lparr>kq_fmons := kq_fmons s, kq_fds := kq_fds s, kq_open_files := kq_open_files s\<rparr>" by (rule ksrv.equality) simp_all
  ultimately show ?case using Nil.prems(1) by simp
next
  case (Cons f fs)
  obtain fm where "kq_fmons s f = Some fm" using Cons.prems(3) by auto
  then obtain s1 where s1: "gam_kqueue_file_monitor_free f s = Some s1" "fds_ok s1"
      "s1 = s\<lparr>kq_fmons := (kq_fmons s)(f := None), kq_fds := kq_fds s1, kq_open_files := kq_open_files s1\<rparr>"
    using free_effect [of s f fm] Cons.prems unfolding succeeds_def by auto
  have F: "kq_fmons s1 = (kq_fmons s)(f := None)" "kq_smons s1 = kq_smons s" by (subst s1(3), simp)+
  have "\<forall>g \<in> set fs. kq_fmons s1 g \<noteq> None \<and> kq_smons s1 g = None" using Cons.prems(2,3) by (auto simp: F)
  then obtain s2 where s2: "table_each gam_kqueue_file_monitor_free fs s1 = Some s2" "fds_ok s2"
      "s2 = s1\<lparr>kq_fmons := kq_fmons s1 |` (- set fs), kq_fds := kq_fds s2, kq_open_files := kq_open_files s2\<rparr>"
    using Cons.IH [OF s1(2)] Cons.prems(2) unfolding succeeds_def by auto
  have "kq_fmons s1 |` (- set fs) = kq_fmons s |` (- set (f # fs))" by (auto simp: F restrict_map_def)
  then have "s2 = s\<lparr>kq_fmons := kq_fmons s |` (- set (f # fs)), kq_fds := kq_fds s2, kq_open_files := kq_open_files s2\<rparr>"
    by (subst s2(3), subst s1(3)) simp
  then show ?case using s1(1) s2(1,2) by simp
qed

text \<open>All file monitors of \<open>p\<close> go, and both tables are empty.\<close>

lemma drop_all_inv:
  assumes inv: "kq_inv Y s" and p: "kq_smons s p = Some sm" and it: "\<not> ht_iterating (sm_fmons sm)" "\<not> ht_iterating (sm_unsupported sm)"
    and out: "p \<notin> poller_content s unsupported_fmon_poller"
    and s': "kq_fmons s' = kq_fmons s |` (- set (ht_main (sm_fmons sm)))"
      "kq_smons s' = (kq_smons s)(p \<mapsto> sm\<lparr>sm_unsupported := hash_table_empty, sm_fmons := hash_table_empty\<rparr>)"
      "kq_pollers s' = kq_pollers s" "kq_next s' = kq_next s" "same_rest s s'" "fds_ok s'"
  shows "kq_inv (Y(p := {})) s' \<and> kframe p s s'"
proof
  let ?sm = "sm\<lparr>sm_unsupported := hash_table_empty, sm_fmons := hash_table_empty\<rparr>"
  note sm = kq_invD(4) [OF inv p] and heap = kq_invD(1) [OF inv]
  have mine: "fm_smon fm = p" if "f \<in> set (ht_main (sm_fmons sm))" "kq_fmons s f = Some fm" for f fm
    using smon_okD(3) [OF sm that(1)] that(2) by (simp add: owned_by_def)
  have "same_smon sm ?sm" using it by (simp add: same_smon_def same_walk_def hash_table_empty_def)
  then have "\<exists>x x'. kq_smons s p = Some x \<and> kq_smons s' p = Some x' \<and> same_smon x x'" using p by (simp add: s'(2))
  moreover have "kq_fmons s' f = Some fm" if "kq_fmons s f = Some fm" "fm_smon fm \<noteq> p" for f fm
    using that mine by (auto simp: s'(1) restrict_map_def)
  ultimately show fr: "kframe p s s'" using s'(3-5) unfolding kframe_def same_rest_def s'(2) by simp
  have d: "dom (kq_smons s') = dom (kq_smons s)" by (rule kframeD(8) [OF fr])
  show "kq_inv (Y(p := {})) s'"
  proof (rule kq_invI [OF inv fr _ _ s'(6)])
    show "heap_ok s'" unfolding heap_ok_def d s'(4)
    proof (intro conjI allI impI)
      show "dom (kq_smons s) \<union> dom (kq_fmons s') \<subseteq> {..<kq_next s}" "dom (kq_smons s) \<inter> dom (kq_fmons s') = {}"
        using heap unfolding heap_ok_def s'(1) dom_restrict by blast+
      fix g gm assume g: "kq_fmons s' g = Some gm"
      then have "g \<notin> set (ht_main (sm_fmons sm))" "kq_fmons s g = Some gm" by (auto simp: s'(1) restrict_map_def split: if_splits)
      with heap obtain sm2 where "kq_smons s (fm_smon gm) = Some sm2" "g \<in> set (ht_main (sm_fmons sm2))" unfolding heap_ok_def by blast
      moreover from this have "fm_smon gm \<noteq> p" using p \<open>g \<notin> _\<close> by auto
      ultimately show "\<exists>sm. kq_smons s' (fm_smon gm) = Some sm \<and> g \<in> set (ht_main (sm_fmons sm))" by (simp add: s'(2))
    qed
    show "poller_ok s' (kq_pollers s' k)" for k using kq_invD(3) [OF inv, of k] by (simp add: s'(3) poller_ok_dom [OF d])
    fix sm2 assume "kq_smons s' p = Some sm2"
    then have [simp]: "sm2 = ?sm" by (simp add: s'(2))
    have "sub_linked s' = sub_linked s" by (intro ext sub_linked_same_srv kframeD(1) [OF fr])
    then show "smon_ok ((Y(p := {})) p) s' p sm2" using smon_okD(8) [OF sm] out
      unfolding smon_ok_def by (simp add: hash_table_empty_def sub_table_ok_def table_ok_def content_def poller_content_def s'(3))
  qed simp
qed

lemma sub_linked_put [simp]: "sub_linked (put_smon p sm s) = sub_linked s" "sub_linked (set_poller k po s) = sub_linked s"
  by (simp_all add: sub_linked_def fun_eq_iff)

lemma clear_fmons_ok:
  assumes inv: "kq_inv none s" and st: "still p s" and p: "kq_smons s p = Some sm"
  shows "succeeds (gam_kqueue_sub_monitor_clear_fmons p s) (\<lambda>s'. kq_inv none s' \<and> kframe p s s' \<and>
    kq_smons s' p = Some (sm\<lparr>sm_unsupported := hash_table_empty, sm_fmons := hash_table_empty\<rparr>) \<and>
    (\<forall>k. k \<noteq> unsupported_fmon_poller \<longrightarrow> kq_pollers s' k = kq_pollers s k) \<and> kq_tick s' = kq_tick s \<and>
    p \<notin> poller_content s' unsupported_fmon_poller \<and> srv.truncate s' = srv.truncate s)"
proof -
  let ?u = "sm_unsupported sm" and ?po = "kq_pollers s unsupported_fmon_poller"
  note sm = kq_invD(4) [OF inv p]
  note ok = kq_invD(3) [OF inv, of unsupported_fmon_poller]
  have it: "\<not> ht_iterating (sm_fmons sm)" "\<not> ht_iterating ?u" using st p by (auto simp: still_def)
  have iff: "p \<in> content (po_smons ?po) \<longleftrightarrow> ht_main ?u \<noteq> []" using smon_okD(7) [OF sm] by (simp add: poller_content_def)
  obtain po where po: "(if ht_main ?u \<noteq> [] then gam_kqueue_poller_remove_sub_monitor unsupported_fmon_poller p s else Some s) =
        Some (set_poller unsupported_fmon_poller po s)" "poller_ok s po" "same_poller p ?po po" "p \<notin> content (po_smons po)"
  proof (cases "ht_main ?u = []")
    case True
    show ?thesis by (rule that [of ?po]) (use True ok iff in simp_all)
  next
    case False
    obtain po' where po': "gam_kqueue_poller_remove_sub_monitor unsupported_fmon_poller p s = Some (set_poller unsupported_fmon_poller po' s)"
        "poller_ok s po'" "same_poller p ?po po'" "content (po_smons po') = content (po_smons ?po) - {p}"
      using poller_remove_effect [OF ok, of p] unfolding succeeds_def by blast
    show ?thesis by (rule that [of po']) (use False po' in simp_all)
  qed
  let ?s1 = "set_poller unsupported_fmon_poller po s"
  let ?s2 = "unsupported_changed p sm hash_table_empty po s" and ?sm2 = "sm\<lparr>sm_unsupported := hash_table_empty\<rparr>"
  have "kq_inv (none(p := UNIV)) ?s2 \<and> kframe p s ?s2"
    by (rule put_unsupported_inv [OF inv p _ _ _ _ po(2,3) _ refl])
       (use it po(4) in \<open>simp_all add: hash_table_empty_def sub_table_ok_def table_ok_def same_walk_def\<close>)
  then have i2: "kq_inv (none(p := UNIV)) ?s2" and f2: "kframe p s ?s2" by simp_all
  have p2: "kq_smons ?s2 p = Some ?sm2" by simp
  have d2: "gam_kqueue_hash_table_destroy (\<lambda>f s. Some s) (T_UNSUPPORTED p) ?s1 = Some ?s2"
  proof -
    have e: "table_each (\<lambda>f s. Some s) xs t = Some t" for xs :: "cptr list" and t :: "'a ksrv_scheme" by (induction xs) simp_all
    show ?thesis using p it by (simp add: gam_kqueue_hash_table_destroy_def e put_smon_def)
  qed
  note sm2 = kq_invD(4) [OF i2 p2]
  let ?fs = "ht_main (sm_fmons sm)"
  have fs: "distinct ?fs" "\<forall>f \<in> set ?fs. kq_fmons ?s2 f \<noteq> None \<and> kq_smons ?s2 f = None"
  proof -
    show "distinct ?fs" using smon_okD(1) [OF sm] by (simp add: sub_table_ok_def table_ok_def)
    show "\<forall>f \<in> set ?fs. kq_fmons ?s2 f \<noteq> None \<and> kq_smons ?s2 f = None"
    proof
      fix f assume "f \<in> set ?fs"
      then obtain fm where "kq_fmons ?s2 f = Some fm" using smon_okD(3) [OF sm2, of f] unfolding owned_by_def by auto
      then show "kq_fmons ?s2 f \<noteq> None \<and> kq_smons ?s2 f = None" using owned_not_smon [OF kq_invD(1) [OF i2], of f fm] by blast
    qed
  qed
  obtain s3 where s3: "table_each gam_kqueue_file_monitor_free ?fs ?s2 = Some s3" "fds_ok s3"
      "s3 = ?s2\<lparr>kq_fmons := kq_fmons ?s2 |` (- set ?fs), kq_fds := kq_fds s3, kq_open_files := kq_open_files s3\<rparr>"
    using free_all [OF kq_invD(2) [OF i2] fs] unfolding succeeds_def by blast
  let ?s4 = "upd_table (T_FMONS p) (\<lambda>h. hash_table_empty) s3"
  have F: "kq_smons s3 = kq_smons ?s2" "kq_fmons s3 = kq_fmons ?s2 |` (- set ?fs)" "kq_pollers s3 = kq_pollers ?s2" "kq_next s3 = kq_next ?s2"
    "kq_max_open_files s3 = kq_max_open_files s" "kq_dir_hash s3 = kq_dir_hash s" "kq_file_hash s3 = kq_file_hash s" "same_sv ?s2 s3"
    "kq_tick s3 = kq_tick s" "srv.truncate s3 = srv.truncate s"
    by (subst s3(3), simp add: same_sv_def srv.defs put_smon_def)+
  let ?sm4 = "sm\<lparr>sm_unsupported := hash_table_empty, sm_fmons := hash_table_empty\<rparr>"
  have S4: "kq_smons ?s4 = (kq_smons ?s2)(p \<mapsto> ?sm4)" by (simp add: F(1))
  have "mon_fd ?s4 = mon_fd s3"
    using mon_fd_smon [of ?s4 s3 p ?sm4] mon_fd_Some(1) [of s3 p ?sm2] S4 by (simp add: F(1) fun_upd_idem)
  then have "fds_ok ?s4" by (intro fds_same [OF s3(2)]) simp_all
  then have "kq_inv ((none(p := UNIV))(p := {})) ?s4 \<and> kframe p ?s2 ?s4"
    by (intro drop_all_inv [OF i2 p2])
       (use it po(4) F S4 in \<open>simp_all add: poller_content_def same_rest_def same_sv_def hash_table_empty_def\<close>)
  moreover have "(none(p := UNIV))(p := {}) = none" by auto
  ultimately have i4: "kq_inv none ?s4" and f4: "kframe p s ?s4" using kframe_trans [OF f2] by (simp_all del: upd_table.simps)
  have "gam_kqueue_hash_table_destroy gam_kqueue_file_monitor_free (T_FMONS p) ?s2 = Some ?s4"
    using it s3(1) by (simp add: gam_kqueue_hash_table_destroy_def)
  then have "gam_kqueue_sub_monitor_clear_fmons p s = Some ?s4"
    unfolding gam_kqueue_sub_monitor_clear_fmons_def p Option.bind.simps po(1) d2 .
  moreover have "p \<notin> poller_content ?s4 unsupported_fmon_poller" "\<forall>k. k \<noteq> unsupported_fmon_poller \<longrightarrow> kq_pollers ?s4 k = kq_pollers s k"
    using po(4) by (simp_all add: poller_content_def F(3))
  moreover have "kq_smons ?s4 p = Some ?sm4" using S4 by simp
  moreover have "srv.truncate ?s4 = srv.truncate s" "kq_tick ?s4 = kq_tick s" using F(9,10) by (simp_all add: srv.defs)
  ultimately show ?thesis using i4 f4 by (simp del: upd_table.simps)
qed

section \<open>A monitor that is missing or cannot be watched\<close>

lemma poller_add_inv:
  assumes inv: "kq_inv Y s" and p: "kq_smons s p = Some sm" and k: "k \<noteq> unsupported_fmon_poller"
    and r: "p \<notin> set (ht_removals (po_smons (kq_pollers s k)))"
  shows "succeeds (gam_kqueue_poller_add_sub_monitor k p s) (\<lambda>s'. \<exists>po'. s' = set_poller k po' s \<and> kq_inv Y s' \<and> kframe p s s' \<and>
    content (po_smons po') = insert p (content (po_smons (kq_pollers s k))))"
proof -
  have "p \<in> dom (kq_smons s)" using p by blast
  from poller_add_effect [OF kq_invD(3) [OF inv] this r] obtain po' where po': "gam_kqueue_poller_add_sub_monitor k p s = Some (set_poller k po' s)"
      "poller_ok s po'" "same_poller p (kq_pollers s k) po'" "content (po_smons po') = insert p (content (po_smons (kq_pollers s k)))"
    unfolding succeeds_def by blast
  then show ?thesis using set_poller_inv [OF inv p po'(2,3)] k by auto
qed

lemma poller_remove_inv:
  assumes inv: "kq_inv Y s" and p: "kq_smons s p = Some sm" and k: "k \<noteq> unsupported_fmon_poller"
  shows "succeeds (gam_kqueue_poller_remove_sub_monitor k p s) (\<lambda>s'. \<exists>po'. s' = set_poller k po' s \<and> kq_inv Y s' \<and> kframe p s s' \<and>
    content (po_smons po') = content (po_smons (kq_pollers s k)) - {p} \<and>
    (\<not> ht_iterating (po_smons (kq_pollers s k)) \<longrightarrow> p \<notin> set (ht_main (po_smons po'))))"
proof -
  obtain po' where po': "gam_kqueue_poller_remove_sub_monitor k p s = Some (set_poller k po' s)"
      "poller_ok s po'" "same_poller p (kq_pollers s k) po'" "content (po_smons po') = content (po_smons (kq_pollers s k)) - {p}"
      "\<not> ht_iterating (po_smons (kq_pollers s k)) \<longrightarrow> p \<notin> set (ht_main (po_smons po'))"
    using poller_remove_effect [OF kq_invD(3) [OF inv, of k], of p] unfolding succeeds_def by blast
  then show ?thesis using set_poller_inv [OF inv p po'(2,3)] k by auto
qed

lemma poller_content_set [simp]:
  "poller_content (set_poller k po s) j = (if j = k then content (po_smons po) else poller_content s j)"
  "poller_content (put_smon p sm s) j = poller_content s j" "poller_content (s\<lparr>kq_tick := t\<rparr>) j = poller_content s j"
  by (simp_all add: poller_content_def)

text \<open>The descriptor of a subscription monitor is closed.\<close>

lemma smon_closing_inv:
  assumes inv: "kq_inv Y s" and p: "kq_smons s p = Some sm"
    and sm': "sm_fmons sm' = sm_fmons sm" "sm_unsupported sm' = sm_unsupported sm" "sm_subs sm' = sm_subs sm"
      "mo_pathname sm' = mo_pathname sm" "sm_isdir sm' = sm_isdir sm" "mo_fd sm' < 0"
  shows "kq_inv Y (put_smon p sm' (closing (mo_fd sm) s)) \<and> kframe p s (put_smon p sm' (closing (mo_fd sm) s))"
proof -
  let ?s1 = "put_smon p sm' (closing (mo_fd sm) s)"
  have m: "mon_fd ?s1 = (mon_fd s)(p := Some (mo_fd sm'))" by (rule mon_fd_smon) simp_all
  have "fds_ok ?s1"
    by (rule fds_closing [OF kq_invD(2) [OF inv] mon_fd_Some(1) [OF p] m]) (use sm'(6) in simp_all)
  then show ?thesis
    by (intro put_smon_inv [OF inv p sm'(1-5)]) (simp_all add: same_rest_def same_sv_def)
qed

definition is_missing :: "'b ksrv_scheme \<Rightarrow> cptr \<Rightarrow> bool" where
  "is_missing s p \<longleftrightarrow> (\<exists>sm. kq_smons s p = Some sm \<and> mo_fd sm < 0 \<and> content (sm_fmons sm) = {}) \<and>
     p \<in> poller_content s missing_smon_poller \<and> p \<notin> poller_content s unsupported_smon_poller"

lemma set_missing_ok:
  assumes inv: "kq_inv none s" and st: "still p s" and p: "kq_smons s p = Some sm"
    and r: "p \<notin> set (ht_removals (po_smons (kq_pollers s missing_smon_poller)))"
  shows "succeeds (gam_kqueue_sub_monitor_set_missing p s) (\<lambda>s'. kq_inv none s' \<and> kframe p s s' \<and> is_missing s' p \<and>
    srv.truncate s' = srv.truncate s \<and> kq_tick s' = kq_tick s)"
proof -
  let ?sm1 = "sm\<lparr>mo_fd := (if mo_fd sm \<ge> 0 then -1 else mo_fd sm)\<rparr>"
  let ?s1 = "put_smon p ?sm1 (closing (mo_fd sm) s)"
  have "kq_inv none ?s1 \<and> kframe p s ?s1" by (rule smon_closing_inv [OF inv p]) simp_all
  then have i1: "kq_inv none ?s1" and f1: "kframe p s ?s1" by simp_all
  have p1: "kq_smons ?s1 p = Some ?sm1" by simp
  have st1: "still p ?s1" using st still_frame [OF f1] by simp
  have it: "\<not> ht_iterating (sm_fmons sm)" using st p by (auto simp: still_def)
  have c1: "content (sm_fmons sm) = set (ht_main (sm_fmons sm))"
    using smon_okD(1) [OF kq_invD(4) [OF inv p]] it by (simp add: content_sub_table sub_table_ok_def table_ok_def)
  have "\<exists>s2 sm2. (if ht_main (sm_fmons ?sm1) \<noteq> [] then do { s2 \<leftarrow> gam_kqueue_sub_monitor_clear_fmons p ?s1; gam_kqueue_sub_monitor_init_fmons p s2 }
      else Some ?s1) = Some s2 \<and> kq_inv none s2 \<and> kframe p ?s1 s2 \<and> kq_smons s2 p = Some sm2 \<and> mo_fd sm2 < 0 \<and> content (sm_fmons sm2) = {} \<and>
      (\<forall>k. k \<noteq> unsupported_fmon_poller \<longrightarrow> kq_pollers s2 k = kq_pollers s k) \<and> srv.truncate s2 = srv.truncate s \<and> kq_tick s2 = kq_tick s"
  proof (cases "ht_main (sm_fmons sm) = []")
    case True
    then show ?thesis using i1 kframe_refl [OF p1] c1 by (intro exI [of _ ?s1] exI [of _ ?sm1]) (simp add: closing_def)
  next
    case False
    let ?sm2 = "?sm1\<lparr>sm_unsupported := hash_table_empty, sm_fmons := hash_table_empty\<rparr>"
    obtain s2 where s2: "gam_kqueue_sub_monitor_clear_fmons p ?s1 = Some s2" "kq_inv none s2" "kframe p ?s1 s2" "kq_smons s2 p = Some ?sm2"
        "\<forall>k. k \<noteq> unsupported_fmon_poller \<longrightarrow> kq_pollers s2 k = kq_pollers ?s1 k" "srv.truncate s2 = srv.truncate ?s1" "kq_tick s2 = kq_tick ?s1"
      using clear_fmons_ok [OF i1 st1 p1] unfolding succeeds_def by blast
    have "gam_kqueue_sub_monitor_init_fmons p s2 = Some s2"
      using s2(4) by (simp add: gam_kqueue_sub_monitor_init_fmons_def gam_kqueue_hash_table_new_def put_smon_def fun_upd_idem)
    then show ?thesis using s2 False
      by (intro exI [of _ s2] exI [of _ ?sm2]) (simp add: hash_table_empty_def content_def closing_def)
  qed
  then obtain s2 sm2 where s2: "(if ht_main (sm_fmons ?sm1) \<noteq> [] then do { s2 \<leftarrow> gam_kqueue_sub_monitor_clear_fmons p ?s1; gam_kqueue_sub_monitor_init_fmons p s2 }
      else Some ?s1) = Some s2" "kq_inv none s2" "kframe p ?s1 s2" "kq_smons s2 p = Some sm2" "mo_fd sm2 < 0" "content (sm_fmons sm2) = {}"
      "\<forall>k. k \<noteq> unsupported_fmon_poller \<longrightarrow> kq_pollers s2 k = kq_pollers s k" "srv.truncate s2 = srv.truncate s" "kq_tick s2 = kq_tick s"
    by blast
  obtain s3 po3 where s3: "gam_kqueue_poller_remove_sub_monitor unsupported_smon_poller p s2 = Some s3" "s3 = set_poller unsupported_smon_poller po3 s2"
      "kq_inv none s3" "kframe p s2 s3" "content (po_smons po3) = content (po_smons (kq_pollers s2 unsupported_smon_poller)) - {p}"
    using poller_remove_inv [OF s2(2,4), of unsupported_smon_poller] unfolding succeeds_def by blast
  have p3: "kq_smons s3 p = Some sm2" using s2(4) s3(2) by simp
  have "p \<notin> set (ht_removals (po_smons (kq_pollers s3 missing_smon_poller)))" using r s2(7) s3(2) by simp
  then obtain s4 po4 where s4: "gam_kqueue_poller_add_sub_monitor missing_smon_poller p s3 = Some s4" "s4 = set_poller missing_smon_poller po4 s3"
      "kq_inv none s4" "kframe p s3 s4" "content (po_smons po4) = insert p (content (po_smons (kq_pollers s3 missing_smon_poller)))"
    using poller_add_inv [OF s3(3) p3, of missing_smon_poller] unfolding succeeds_def by blast
  have "gam_kqueue_sub_monitor_set_missing p s = Some s4"
    unfolding gam_kqueue_sub_monitor_set_missing_def p Option.bind.simps close_monitor_effect Let_def prod.case s2(1) s3(1) s4(1) ..
  moreover have "is_missing s4 p" using s2(4-6) s3(2,5) s4(2,5) by (simp add: is_missing_def poller_content_def)
  moreover have "kframe p s s4" by (rule kframe_trans [OF f1 kframe_trans [OF s2(3) kframe_trans [OF s3(4) s4(4)]]])
  ultimately show ?thesis using s4(3) s2(8,9) by (simp add: s4(2) s3(2))
qed

lemma smon_set_unsupported_ok:
  assumes inv: "kq_inv none s" and p: "kq_smons s p = Some sm"
    and r: "p \<notin> set (ht_removals (po_smons (kq_pollers s unsupported_smon_poller)))"
  shows "succeeds (gam_kqueue_sub_monitor_set_unsupported en p s) (\<lambda>s'. kq_inv none s' \<and> kframe p s s' \<and>
    (\<exists>sm'. kq_smons s' p = Some sm' \<and> mo_fd sm' < 0 \<and> sm_fmons sm' = sm_fmons sm) \<and> dir_names s' p = dir_names s p \<and>
    poller_content s' unsupported_smon_poller = insert p (poller_content s unsupported_smon_poller) \<and>
    (\<forall>k. k \<noteq> unsupported_smon_poller \<longrightarrow> kq_pollers s' k = kq_pollers s k) \<and> srv.truncate s' = srv.truncate s)"
proof -
  obtain t sb where e: "gam_kqueue_monitor_set_unsupported en sm s =
      (sm\<lparr>mo_fd := (if mo_fd sm \<ge> 0 then -1 else mo_fd sm), mo_sb := sb\<rparr>, (closing (mo_fd sm) s)\<lparr>kq_tick := t\<rparr>)"
    by (rule set_unsupported_effect)
  let ?sm1 = "sm\<lparr>mo_fd := (if mo_fd sm \<ge> 0 then -1 else mo_fd sm), mo_sb := sb\<rparr>"
  let ?s1 = "(put_smon p ?sm1 (closing (mo_fd sm) s))\<lparr>kq_tick := t\<rparr>"
  have sw: "put_smon p ?sm1 ((closing (mo_fd sm) s)\<lparr>kq_tick := t\<rparr>) = ?s1" by (simp add: put_smon_def)
  have "kq_inv none (put_smon p ?sm1 (closing (mo_fd sm) s)) \<and> kframe p s (put_smon p ?sm1 (closing (mo_fd sm) s))"
    by (rule smon_closing_inv [OF inv p]) simp_all
  then have i1: "kq_inv none ?s1" and f1: "kframe p s ?s1" by simp_all
  have p1: "kq_smons ?s1 p = Some ?sm1" by simp
  have "p \<notin> set (ht_removals (po_smons (kq_pollers ?s1 unsupported_smon_poller)))" using r by simp
  then obtain s2 po2 where s2: "gam_kqueue_poller_add_sub_monitor unsupported_smon_poller p ?s1 = Some s2" "s2 = set_poller unsupported_smon_poller po2 ?s1"
      "kq_inv none s2" "kframe p ?s1 s2" "content (po_smons po2) = insert p (content (po_smons (kq_pollers ?s1 unsupported_smon_poller)))"
    using poller_add_inv [OF i1 p1, of unsupported_smon_poller] unfolding succeeds_def by blast
  have "gam_kqueue_sub_monitor_set_unsupported en p s = Some s2"
    unfolding gam_kqueue_sub_monitor_set_unsupported_def p Option.bind.simps e Let_def prod.case sw s2(1) ..
  moreover have "fmon_name s2 = fmon_name s" by (rule fmon_name_cong) (simp add: s2(2))
  then have "dir_names s2 p = dir_names s p" using p by (simp add: dir_names_def s2(2))
  ultimately show ?thesis using s2(3,5) kframe_trans [OF f1 s2(4)] by (simp add: s2(2) poller_content_def)
qed

section \<open>Events of a subscription monitor\<close>

lemma isdir_effect:
  obtains t d where "gam_kqueue_isdir en path flags s = (d, s\<lparr>kq_tick := t\<rparr>)"
    "has_flag flags MONITOR_ISDIR \<or> has_flag flags MONITOR_ISNOTDIR \<Longrightarrow> t = kq_tick s"
proof -
  consider "has_flag flags MONITOR_ISDIR" | "\<not> has_flag flags MONITOR_ISDIR" "has_flag flags MONITOR_ISNOTDIR"
    | "\<not> has_flag flags MONITOR_ISDIR" "\<not> has_flag flags MONITOR_ISNOTDIR" by blast
  then show thesis
  proof cases
    case 1
    show thesis by (rule that [of True "kq_tick s"]) (use 1 in \<open>simp_all add: gam_kqueue_isdir_def\<close>)
  next
    case 2
    show thesis by (rule that [of False "kq_tick s"]) (use 2 in \<open>simp_all add: gam_kqueue_isdir_def\<close>)
  next
    case 3
    show thesis by (rule that [of _ "Suc (kq_tick s)"]) (use 3 in \<open>simp_all add: gam_kqueue_isdir_def kq_lstat_def\<close>)
  qed
qed

lemma emit_tick:
  assumes "gam_server_emit_event path d e qs f s = Some s'"
  shows "kq_tick s' = kq_tick s"
  by (rule more_ksrv(10)) (use emit_quiet [OF assms] in \<open>simp add: quiet_def\<close>)

lemma smon_emit_plain:
  assumes inv: "kq_inv none s" and p: "kq_smons s p = Some sm"
    and e: "event \<noteq> GAMIN_EVENT_DELETED" "event \<noteq> GAMIN_EVENT_MOVED" "event = GAMIN_EVENT_CHANGED \<Longrightarrow> \<not> sm_isdir sm"
  shows "succeeds (gam_kqueue_sub_monitor_emit_event en p event flags s) (\<lambda>s'. same_kq s s' \<and>
    (\<exists>d. emits (sm_subs sm) [(mo_pathname sm, d, event)] s s') \<and>
    (has_flag flags MONITOR_ISDIR \<or> has_flag flags MONITOR_ISNOTDIR \<longrightarrow> kq_tick s' = kq_tick s))"
proof -
  obtain t d where d: "gam_kqueue_isdir en (mo_pathname sm) flags s = (d, s\<lparr>kq_tick := t\<rparr>)"
      "has_flag flags MONITOR_ISDIR \<or> has_flag flags MONITOR_ISNOTDIR \<Longrightarrow> t = kq_tick s"
    using isdir_effect [of en "mo_pathname sm" flags s] by blast
  have "kq_inv none (s\<lparr>kq_tick := t\<rparr>)" "kq_smons (s\<lparr>kq_tick := t\<rparr>) p = Some sm" using inv p by simp_all
  from emit_subs_ok [OF this] obtain s' where s': "gam_server_emit_event (mo_pathname sm) d event (sm_subs sm) True (s\<lparr>kq_tick := t\<rparr>) = Some s'"
      "same_kq (s\<lparr>kq_tick := t\<rparr>) s'" "emits (sm_subs sm) [(mo_pathname sm, d, event)] (s\<lparr>kq_tick := t\<rparr>) s'"
    unfolding succeeds_def by blast
  have "gam_kqueue_sub_monitor_emit_event en p event flags s = Some s'"
    using p d(1) e s'(1) by (cases "event = GAMIN_EVENT_CHANGED") (simp_all add: gam_kqueue_sub_monitor_emit_event_def)
  then show ?thesis using s'(2,3) emit_tick [OF s'(1)] d(2) by auto
qed

lemma smon_emit_change:
  assumes en: "good_kenv en" and inv: "kq_inv none s" and st: "still p s" and p: "kq_smons s p = Some sm" "sm_isdir sm"
  shows "succeeds (gam_kqueue_sub_monitor_emit_event en p GAMIN_EVENT_CHANGED flags s) (\<lambda>s'. kq_inv none s' \<and> fstep p s s')"
proof -
  obtain t d where d: "gam_kqueue_isdir en (mo_pathname sm) flags s = (d, s\<lparr>kq_tick := t\<rparr>)" by (rule isdir_effect)
  let ?s1 = "s\<lparr>kq_tick := t\<rparr>"
  have "kq_inv none ?s1" "still p ?s1" "kq_smons ?s1 p = Some sm" using inv st p by (simp_all add: still_def)
  from directory_change_ok [OF en this, of d] obtain s' where s': "gam_kqueue_sub_monitor_handle_directory_change en p d ?s1 = Some s'"
      "kq_inv none s'" "fstep p ?s1 s'"
    unfolding succeeds_def by blast
  then have "fstep p s s'" by (simp add: fstep_def)
  then show ?thesis using p d s' by (simp add: gam_kqueue_sub_monitor_emit_event_def)
qed

lemma smon_emit_gone:
  assumes inv: "kq_inv none s" and st: "still p s" and p: "kq_smons s p = Some sm"
    and r: "p \<notin> set (ht_removals (po_smons (kq_pollers s missing_smon_poller)))"
    and e: "event = GAMIN_EVENT_DELETED \<or> event = GAMIN_EVENT_MOVED"
  shows "succeeds (gam_kqueue_sub_monitor_emit_event en p event flags s) (\<lambda>s'. kq_inv none s' \<and> kframe p s s' \<and> is_missing s' p \<and>
    (\<exists>d. emits (sm_subs sm) [(mo_pathname sm, d, event)] s s'))"
proof -
  obtain t d where d: "gam_kqueue_isdir en (mo_pathname sm) flags s = (d, s\<lparr>kq_tick := t\<rparr>)" by (rule isdir_effect)
  let ?s1 = "s\<lparr>kq_tick := t\<rparr>"
  have s1: "kq_inv none ?s1" "still p ?s1" "kq_smons ?s1 p = Some sm" "p \<notin> set (ht_removals (po_smons (kq_pollers ?s1 missing_smon_poller)))"
    using inv st p r by (simp_all add: still_def)
  from set_missing_ok [OF this] obtain s2 where s2: "gam_kqueue_sub_monitor_set_missing p ?s1 = Some s2" "kq_inv none s2" "kframe p ?s1 s2"
      "is_missing s2 p" "srv.truncate s2 = srv.truncate ?s1"
    unfolding succeeds_def by blast
  obtain sm2 where sm2: "kq_smons s2 p = Some sm2" "same_smon sm sm2" by (rule kframeE [OF s2(3) s1(3)])
  have subs: "sm_subs sm2 = sm_subs sm" using sm2(2) by (simp add: same_smon_def)
  obtain s3 where s3: "gam_server_emit_event (mo_pathname sm) d event (sm_subs sm) True s2 = Some s3" "same_kq s2 s3"
      "emits (sm_subs sm) [(mo_pathname sm, d, event)] s2 s3"
    using emit_subs_ok [OF s2(2) sm2(1), of "mo_pathname sm" d event] unfolding succeeds_def subs by blast
  have "gam_kqueue_sub_monitor_emit_event en p event flags s = Some s3"
    using p d e s2(1) s3(1) by (auto simp: gam_kqueue_sub_monitor_emit_event_def)
  moreover have "kframe p s s3" using kframe_trans [OF s2(3) kframe_same [OF s3(2) sm2(1)]] by simp
  moreover have "is_missing s3 p" using s2(4) s3(2) by (simp add: is_missing_def same_kq_def poller_content_def)
  moreover have "emits (sm_subs sm) [(mo_pathname sm, d, event)] s s3" using s3(3) s2(5) by (simp add: emits_def)
  ultimately show ?thesis using kq_inv_same [OF s3(2) s2(2)] by auto
qed

section \<open>Starting to watch\<close>

text \<open>How a monitor is watched: the kernel reports on it, or a poller does.\<close>

definition watched :: "'b ksrv_scheme \<Rightarrow> cptr \<Rightarrow> bool" where
  "watched s p \<longleftrightarrow> is_missing s p \<or> (\<exists>sm. kq_smons s p = Some sm \<and> p \<notin> poller_content s missing_smon_poller \<and>
     (0 \<le> mo_fd sm \<or> p \<in> poller_content s unsupported_smon_poller))"

lemma smon_enable_effect:
  assumes en: "fresh_fds en" and inv: "kq_inv none s" and p: "kq_smons s p = Some sm" "mo_fd sm < 0"
    and sm0: "sm_fmons sm0 = sm_fmons sm" "sm_unsupported sm0 = sm_unsupported sm" "sm_subs sm0 = sm_subs sm"
      "mo_pathname sm0 = mo_pathname sm" "sm_isdir sm0 = sm_isdir sm" "mo_fd sm0 < 0"
    and e: "gam_kqueue_monitor_enable_kqueue en p sm0 s = (ok, sm1, s1)"
  shows "kq_inv none (put_smon p sm1 s1) \<and> kframe p s (put_smon p sm1 s1) \<and> (ok \<longleftrightarrow> 0 \<le> mo_fd sm1) \<and>
    (\<exists>fd. sm1 = sm0\<lparr>mo_fd := fd\<rparr>) \<and> kq_fmons s1 = kq_fmons s \<and> kq_pollers s1 = kq_pollers s \<and> srv.truncate s1 = srv.truncate s"
  using en e sm0(6)
proof (cases rule: enable_kqueue_cases)
  case (opened t fd)
  let ?s2 = "put_smon p sm1 s1"
  have "mon_fd ?s2 = (mon_fd s)(p \<mapsto> fd)" using mon_fd_smon [of ?s2 s p sm1] by (simp add: opened)
  then have "fds_ok ?s2"
    by (rule fds_opened [OF kq_invD(2) [OF inv] opened(2,3,5) _ _ _ _, rotated -1])
       (use mon_fd_Some(1) [OF p(1)] p(2) in \<open>auto simp: opened\<close>)
  then have "kq_inv none ?s2 \<and> kframe p s ?s2"
    by (intro put_smon_inv [OF inv p(1), where sm' = sm1]) (use sm0 in \<open>simp_all add: opened same_rest_def same_sv_def\<close>)
  then show ?thesis using opened(1,2) by (auto simp: opened(4,6) srv.defs)
next
  case (failed t fd)
  let ?s2 = "put_smon p sm1 s1"
  have "mon_fd ?s2 = (mon_fd s)(p \<mapsto> fd)" using mon_fd_smon [of ?s2 s p sm1] by (simp add: failed)
  then have "fds_ok ?s2" using mon_fd_Some(1) [OF p(1)] p(2) failed(2)
    by (intro fds_same [OF kq_invD(2) [OF inv]]) (auto simp: failed(3,4))
  then have "kq_inv none ?s2 \<and> kframe p s ?s2"
    by (intro put_smon_inv [OF inv p(1), where sm' = sm1]) (use sm0 in \<open>simp_all add: failed same_rest_def same_sv_def\<close>)
  then show ?thesis using failed(1,2) by (auto simp: failed(3,4))
qed

lemma smon_enable_ok:
  assumes en: "fresh_fds en" and inv: "kq_inv none s" and p: "kq_smons s p = Some sm" "mo_fd sm < 0"
    and out: "p \<notin> poller_content s missing_smon_poller" "p \<notin> set (ht_removals (po_smons (kq_pollers s unsupported_smon_poller)))"
  shows "succeeds (let (ok, sm4, s4) = gam_kqueue_monitor_enable_kqueue en p sm s; s5 = put_smon p sm4 s4
      in if \<not> ok then gam_kqueue_sub_monitor_set_unsupported en p s5 else Some s5)
    (\<lambda>s'. kq_inv none s' \<and> kframe p s s' \<and> watched s' p \<and> p \<notin> poller_content s' missing_smon_poller \<and>
      dir_names s' p = dir_names s p \<and> srv.truncate s' = srv.truncate s)"
proof -
  obtain ok sm4 s4 where e: "gam_kqueue_monitor_enable_kqueue en p sm s = (ok, sm4, s4)" by (cases "gam_kqueue_monitor_enable_kqueue en p sm s")
  let ?s5 = "put_smon p sm4 s4"
  obtain fd where E: "kq_inv none ?s5" "kframe p s ?s5" "ok \<longleftrightarrow> 0 \<le> mo_fd sm4" "sm4 = sm\<lparr>mo_fd := fd\<rparr>" "kq_fmons s4 = kq_fmons s"
      "kq_pollers s4 = kq_pollers s" "srv.truncate s4 = srv.truncate s"
    using smon_enable_effect [OF en inv p _ _ _ _ _ p(2) e] by auto
  have "fmon_name ?s5 = fmon_name s" by (rule fmon_name_cong) (simp add: E(5))
  then have ent: "dir_names ?s5 p = dir_names s p" using p(1) by (simp add: dir_names_def E(4))
  show ?thesis
  proof (cases ok)
    case True
    then have "watched ?s5 p" "p \<notin> poller_content ?s5 missing_smon_poller"
      using E(3) out(1) by (simp_all add: watched_def poller_content_def E(6))
    then show ?thesis using True E(1,2,7) ent e by simp
  next
    case False
    have p5: "kq_smons ?s5 p = Some sm4" by simp
    have "p \<notin> set (ht_removals (po_smons (kq_pollers ?s5 unsupported_smon_poller)))" using out(2) by (simp add: E(6))
    from smon_set_unsupported_ok [OF E(1) p5 this] obtain s6 sm6 where s6: "gam_kqueue_sub_monitor_set_unsupported en p ?s5 = Some s6" "kq_inv none s6"
        "kframe p ?s5 s6" "kq_smons s6 p = Some sm6" "dir_names s6 p = dir_names ?s5 p"
        "poller_content s6 unsupported_smon_poller = insert p (poller_content ?s5 unsupported_smon_poller)"
        "\<forall>k. k \<noteq> unsupported_smon_poller \<longrightarrow> kq_pollers s6 k = kq_pollers ?s5 k" "srv.truncate s6 = srv.truncate ?s5"
      unfolding succeeds_def by blast
    have "poller_content s6 missing_smon_poller = poller_content s missing_smon_poller" using s6(7) by (simp add: poller_content_def E(6))
    then have "watched s6 p" "p \<notin> poller_content s6 missing_smon_poller" using s6(4,6) out(1) by (simp_all add: watched_def)
    then show ?thesis using False e s6 ent E(7) kframe_trans [OF E(2) s6(3)] by simp
  qed
qed

definition found :: "bool \<Rightarrow> evtype" where
  "found was_missing = (if was_missing then GAMIN_EVENT_CREATED else GAMIN_EVENT_EXISTS)"

lemma found_simps: "found True = GAMIN_EVENT_CREATED" "found False = GAMIN_EVENT_EXISTS"
  by (simp_all add: found_def)

text \<open>What a monitor is told when its file is there: the file, the names in it, and the end of the listing.\<close>

definition first_told :: "bool \<Rightarrow> string \<Rightarrow> string list \<Rightarrow> (string \<times> evtype) list" where
  "first_told was_missing path names =
     (path, found was_missing) # map (\<lambda>n. (g_build_filename path n, found was_missing)) names @
     (if was_missing then [] else [(path, GAMIN_EVENT_ENDEXISTS)])"

lemma notify_exists_ok:
  assumes en: "good_kenv en" and inv: "kq_inv none s" and st: "still p s" and p: "kq_smons s p = Some sm" "mo_fd sm < 0"
    and ent: "dir_names s p = {}" and out: "p \<notin> poller_content s missing_smon_poller"
    and ru: "p \<notin> set (ht_removals (po_smons (kq_pollers s unsupported_smon_poller)))"
    and fl: "has_flag flags MONITOR_ISDIR = d" "has_flag flags MONITOR_ISNOTDIR = (\<not> d)"
  shows "succeeds (do { s1 \<leftarrow> gam_kqueue_sub_monitor_emit_event en p (found was) flags s;
      s2 \<leftarrow> (if sm_isdir sm \<and> has_flag flags MONITOR_ISDIR
             then (let (names, s2) = kq_readdir en (mo_pathname sm) s1 in
                   case names of None \<Rightarrow> Some s2 | Some filenames \<Rightarrow> new_entries en p (found was) filenames s2)
             else Some s1);
      s3 \<leftarrow> (if \<not> was then gam_kqueue_sub_monitor_emit_event en p GAMIN_EVENT_ENDEXISTS flags s2 else Some s2);
      sm3 \<leftarrow> kq_smons s3 p;
      let (ok, sm4, s4) = gam_kqueue_monitor_enable_kqueue en p sm3 s3; s5 = put_smon p sm4 s4
      in if \<not> ok then gam_kqueue_sub_monitor_set_unsupported en p s5 else Some s5 })
    (\<lambda>s'. kq_inv none s' \<and> kframe p s s' \<and> watched s' p \<and> p \<notin> poller_content s' missing_smon_poller \<and>
      dir_names s' p = set (listed en (sm_isdir sm \<and> d) (mo_pathname sm) (kq_tick s)) \<and>
      (\<exists>evs. emits (sm_subs sm) evs s s' \<and>
        as_told evs = first_told was (mo_pathname sm) (listed en (sm_isdir sm \<and> d) (mo_pathname sm) (kq_tick s))))"
proof -
  let ?path = "mo_pathname sm" and ?names = "listed en (sm_isdir sm \<and> d) (mo_pathname sm) (kq_tick s)" and ?ev = "found was"
  have fresh: "fresh_fds en" and dirs: "good_dirs en" using en by (simp_all add: good_kenv_def)
  have ev: "?ev \<noteq> GAMIN_EVENT_DELETED" "?ev \<noteq> GAMIN_EVENT_MOVED" "?ev \<noteq> GAMIN_EVENT_CHANGED" by (simp_all add: found_def)
  obtain s1 e1 where s1: "gam_kqueue_sub_monitor_emit_event en p ?ev flags s = Some s1" "same_kq s s1" "emits (sm_subs sm) [(?path, e1, ?ev)] s s1"
      "kq_tick s1 = kq_tick s"
    using smon_emit_plain [OF inv p(1) ev(1,2), of en flags] ev(3) fl unfolding succeeds_def by blast
  have i1: "kq_inv none s1" by (rule kq_inv_same [OF s1(2) inv])
  have p1: "kq_smons s1 p = Some sm" using s1(2) p by (simp add: same_kq_def)
  have f1: "fstep p s s1" by (rule fstep_same [OF s1(2) p(1)])
  have st1: "still p s1" using st still_frame [OF fstep_frame [OF f1]] by simp
  have ent1: "dir_names s1 p = {}" using ent dir_names_same [OF s1(2)] by simp
  have "\<exists>s2 evs. (if sm_isdir sm \<and> has_flag flags MONITOR_ISDIR
             then (let (names, s2) = kq_readdir en ?path s1 in
                   case names of None \<Rightarrow> Some s2 | Some filenames \<Rightarrow> new_entries en p ?ev filenames s2)
             else Some s1) = Some s2 \<and> kq_inv none s2 \<and> fstep p s1 s2 \<and> dir_names s2 p = set ?names \<and> emits (sm_subs sm) evs s1 s2 \<and>
      as_told evs = map (\<lambda>n. (g_build_filename ?path n, ?ev)) ?names"
  proof (cases "sm_isdir sm \<and> d")
    case True
    let ?s1 = "s1\<lparr>kq_tick := Suc (kq_tick s1)\<rparr>"
    have e: "dir_names ?s1 p = dir_names s1 p" by (rule dir_names_same) simp
    have a: "kq_inv none ?s1" "still p ?s1" "kq_smons ?s1 p = Some sm" using i1 st1 p1 by (simp_all add: still_def)
    show ?thesis
    proof (cases "ke_readdir en (kq_tick s) ?path")
      case None
      have "fstep p s1 ?s1" by (rule fstep_same [OF _ p1]) simp
      then show ?thesis using True None fl a e ent1 s1(4)
        by (intro exI [of _ ?s1] exI [of _ "[]"]) (simp add: kq_readdir_def listed_def)
    next
      case (Some names)
      have nm: "?names = names" using True Some by (simp add: listed_def)
      have "dir_names ?s1 p \<inter> set names = {}" using e ent1 by simp
      moreover have "distinct names" "\<And>n. n \<in> set names \<Longrightarrow> slash \<notin> set n" using dirs Some unfolding good_dirs_def by blast+
      ultimately obtain s2 evs where s2: "new_entries en p ?ev names ?s1 = Some s2" "kq_inv none s2" "fstep p ?s1 s2"
          "dir_names s2 p = dir_names ?s1 p \<union> set names" "emits (sm_subs sm) evs ?s1 s2" "as_told evs = map (\<lambda>n. (g_build_filename ?path n, ?ev)) names"
        using new_entries_ok [OF fresh ev(1,2) a, of names] unfolding succeeds_def by blast
      have "fstep p s1 s2" using s2(3) by (simp add: fstep_def)
      then show ?thesis unfolding nm using True Some fl s2 e ent1 s1(4)
        by (intro exI [of _ s2] exI [of _ evs]) (simp add: kq_readdir_def)
    qed
  next
    case False
    then have "?names = []" unfolding listed_def by (rule if_not_P)
    then show ?thesis using False fl i1 ent1 fstep_same [OF same_kq_refl p1] by (intro exI [of _ s1] exI [of _ "[]"]) auto
  qed
  then obtain s2 evs where s2: "(if sm_isdir sm \<and> has_flag flags MONITOR_ISDIR
             then (let (names, s2) = kq_readdir en ?path s1 in
                   case names of None \<Rightarrow> Some s2 | Some filenames \<Rightarrow> new_entries en p ?ev filenames s2)
             else Some s1) = Some s2" "kq_inv none s2" "fstep p s1 s2" "dir_names s2 p = set ?names" "emits (sm_subs sm) evs s1 s2"
      "as_told evs = map (\<lambda>n. (g_build_filename ?path n, ?ev)) ?names"
    by blast
  have f2: "fstep p s s2" by (rule fstep_trans [OF f1 s2(3)])
  obtain sm2 where sm2: "kq_smons s2 p = Some sm2" "same_smon sm sm2" "Monitor.truncate sm2 = Monitor.truncate sm" by (rule fstep_smon [OF f2 p(1)])
  have S: "sm_subs sm2 = sm_subs sm" "mo_pathname sm2 = ?path" using sm2(2) by (simp_all add: same_smon_def)
  have "\<exists>s3 d3. (if \<not> was then gam_kqueue_sub_monitor_emit_event en p GAMIN_EVENT_ENDEXISTS flags s2 else Some s2) = Some s3 \<and>
      same_kq s2 s3 \<and> emits (sm_subs sm) (if was then [] else [(?path, d3, GAMIN_EVENT_ENDEXISTS)]) s2 s3"
  proof (cases was)
    case False
    then show ?thesis
      using smon_emit_plain [OF s2(2) sm2(1), of GAMIN_EVENT_ENDEXISTS en flags] unfolding succeeds_def S by auto
  qed simp
  then obtain s3 d3 where s3: "(if \<not> was then gam_kqueue_sub_monitor_emit_event en p GAMIN_EVENT_ENDEXISTS flags s2 else Some s2) = Some s3"
      "same_kq s2 s3" "emits (sm_subs sm) (if was then [] else [(?path, d3, GAMIN_EVENT_ENDEXISTS)]) s2 s3"
    by blast
  have i3: "kq_inv none s3" by (rule kq_inv_same [OF s3(2) s2(2)])
  have p3: "kq_smons s3 p = Some sm2" using s3(2) sm2(1) by (simp add: same_kq_def)
  have po: "kq_pollers s3 k = kq_pollers s k" if "k \<noteq> unsupported_fmon_poller" for k
    using f2 s3(2) that by (simp add: fstep_def same_kq_def)
  have neg: "mo_fd sm2 < 0" using sm2(3) p(2) by (simp add: Monitor.defs)
  have "p \<notin> poller_content s3 missing_smon_poller" "p \<notin> set (ht_removals (po_smons (kq_pollers s3 unsupported_smon_poller)))"
    using out ru by (simp_all add: po poller_content_def)
  from smon_enable_ok [OF fresh i3 p3 neg this] obtain s4 where s4: "(let (ok, sm4, s4) = gam_kqueue_monitor_enable_kqueue en p sm2 s3; s5 = put_smon p sm4 s4
      in if \<not> ok then gam_kqueue_sub_monitor_set_unsupported en p s5 else Some s5) = Some s4" "kq_inv none s4" "kframe p s3 s4" "watched s4 p"
      "p \<notin> poller_content s4 missing_smon_poller"
      "dir_names s4 p = dir_names s3 p" "srv.truncate s4 = srv.truncate s3"
    unfolding succeeds_def by blast
  have fr: "kframe p s s4" by (rule kframe_trans [OF fstep_frame [OF f2] kframe_trans [OF kframe_same [OF s3(2) sm2(1)] s4(3)]])
  let ?evs = "[(?path, e1, ?ev)] @ evs @ (if was then [] else [(?path, d3, GAMIN_EVENT_ENDEXISTS)])"
  have "emits (sm_subs sm) ?evs s s3" by (intro emits_trans [OF s1(3)] emits_trans [OF s2(5)] s3(3))
  then have "emits (sm_subs sm) ?evs s s4" using s4(7) by (simp add: emits_def)
  moreover have "as_told ?evs = first_told was ?path ?names" using s2(6) by (simp add: first_told_def)
  moreover have "dir_names s4 p = set ?names" using s4(6) s2(4) dir_names_same [OF s3(2)] by simp
  ultimately show ?thesis using s4(2,4,5) fr
    unfolding s1(1) s2(1) s3(1) p3 Option.bind.simps s4(1) succeeds_Some by blast
qed

lemma flags_or [simp]: "0 OR f = (f :: mflags)"
  by simp

text \<open>The monitor of a new subscription.\<close>

lemma enable_new_ok:
  assumes en: "good_kenv en" and inv: "kq_inv none s" and st: "still p s" and p: "kq_smons s p = Some sm" "mo_fd sm < 0"
    and ent: "dir_names s p = {}" and out: "p \<notin> poller_content s missing_smon_poller"
    and ru: "p \<notin> set (ht_removals (po_smons (kq_pollers s unsupported_smon_poller)))"
      "p \<notin> set (ht_removals (po_smons (kq_pollers s missing_smon_poller)))"
  shows "succeeds (gam_kqueue_sub_monitor_enable_notification en p 0 s) (\<lambda>s'. kq_inv none s' \<and> kframe p s s' \<and> watched s' p \<and>
    (case ke_lstat en (kq_tick s) (mo_pathname sm) of
       None \<Rightarrow> is_missing s' p \<and> (\<exists>evs. emits (sm_subs sm) evs s s' \<and>
         as_told evs = [(mo_pathname sm, GAMIN_EVENT_DELETED), (mo_pathname sm, GAMIN_EVENT_ENDEXISTS)])
     | Some sb \<Rightarrow> (let names = listed en (sm_isdir sm \<and> mode_isdir (ks_mode sb)) (mo_pathname sm) (Suc (kq_tick s))
         in dir_names s' p = set names \<and> (\<exists>evs. emits (sm_subs sm) evs s s' \<and> as_told evs = first_told False (mo_pathname sm) names))))"
proof -
  let ?s1 = "s\<lparr>kq_tick := Suc (kq_tick s)\<rparr>" and ?r = "ke_lstat en (kq_tick s) (mo_pathname sm)"
  have e1: "dir_names ?s1 p = dir_names s p" by (rule dir_names_same) simp
  have a: "kq_inv none ?s1" "still p ?s1" "kq_smons ?s1 p = Some sm" using inv st p by (simp_all add: still_def)
  show ?thesis
  proof (cases ?r)
    case None
    have r1: "p \<notin> set (ht_removals (po_smons (kq_pollers ?s1 missing_smon_poller)))" using ru by simp
    let ?fl = "dir_flag False"
    obtain s2 d2 where s2: "gam_kqueue_sub_monitor_emit_event en p GAMIN_EVENT_DELETED ?fl ?s1 = Some s2" "kq_inv none s2" "kframe p ?s1 s2"
        "is_missing s2 p" "emits (sm_subs sm) [(mo_pathname sm, d2, GAMIN_EVENT_DELETED)] ?s1 s2"
      using smon_emit_gone [OF a r1, of GAMIN_EVENT_DELETED en ?fl] unfolding succeeds_def by blast
    obtain sm2 where sm2: "kq_smons s2 p = Some sm2" "same_smon sm sm2" by (rule kframeE [OF s2(3) a(3)])
    have S: "sm_subs sm2 = sm_subs sm" "mo_pathname sm2 = mo_pathname sm" using sm2(2) by (simp_all add: same_smon_def)
    obtain s3 d3 where s3: "gam_kqueue_sub_monitor_emit_event en p GAMIN_EVENT_ENDEXISTS ?fl s2 = Some s3" "same_kq s2 s3"
        "emits (sm_subs sm) [(mo_pathname sm, d3, GAMIN_EVENT_ENDEXISTS)] s2 s3"
      using smon_emit_plain [OF s2(2) sm2(1), of GAMIN_EVENT_ENDEXISTS en ?fl] unfolding succeeds_def S by auto
    have run: "gam_kqueue_sub_monitor_enable_notification en p 0 s = Some s3"
      using p None s2(1) s3(1) by (simp add: gam_kqueue_sub_monitor_enable_notification_def kq_lstat_def)
    have miss: "is_missing s3 p" using s2(4) s3(2) by (simp add: is_missing_def same_kq_def poller_content_def)
    have "kframe p s s3" using kframe_trans [OF s2(3) kframe_same [OF s3(2) sm2(1)]] by simp
    moreover have "emits (sm_subs sm) ([(mo_pathname sm, d2, GAMIN_EVENT_DELETED)] @ [(mo_pathname sm, d3, GAMIN_EVENT_ENDEXISTS)]) s s3"
      using emits_trans [OF s2(5) s3(3)] by simp
    ultimately show ?thesis using run miss None kq_inv_same [OF s3(2) s2(2)]
      by (auto simp: watched_def intro!: exI [of _ "[(mo_pathname sm, d2, GAMIN_EVENT_DELETED)] @ [(mo_pathname sm, d3, GAMIN_EVENT_ENDEXISTS)]"])
  next
    case (Some sb)
    let ?d = "mode_isdir (ks_mode sb)"
    have b: "dir_names ?s1 p = {}" "p \<notin> poller_content ?s1 missing_smon_poller"
      "p \<notin> set (ht_removals (po_smons (kq_pollers ?s1 unsupported_smon_poller)))" using e1 ent out ru by simp_all
    have fl: "has_flag (dir_flag ?d) MONITOR_ISDIR = ?d" "has_flag (dir_flag ?d) MONITOR_ISNOTDIR = (\<not> ?d)" by simp_all
    note ok = notify_exists_ok [OF en a p(2) b fl, of False, unfolded found_simps]
    show ?thesis
      unfolding gam_kqueue_sub_monitor_enable_notification_def kq_lstat_def
      using p Some ok by (auto elim!: succeeds_mono)
  qed
qed

end
