(* ===== verification/Gam_Kqueue_Calls.thy ===== *)
theory Gam_Kqueue_Calls
  imports Gam_Kqueue_Subs
begin

unbundle bit_operations_syntax

text \<open>
  What the calls of the kqueue back end keep: the state between two calls, the hash tables of monitors, and which tables
  are being walked.
\<close>

section \<open>What the calls keep\<close>

text \<open>The tables that are walked: those of the pollers in \<open>K\<close>.\<close>

definition walked :: "poller set \<Rightarrow> 'b ksrv_scheme \<Rightarrow> bool" where
  "walked K s \<longleftrightarrow> (\<forall>k. ht_iterating (po_smons (kq_pollers s k)) \<longleftrightarrow> k \<in> K) \<and>
     (\<forall>p sm. kq_smons s p = Some sm \<longrightarrow> \<not> ht_iterating (sm_fmons sm) \<and> \<not> ht_iterating (sm_unsupported sm))"

definition smon_hash :: "'b ksrv_scheme \<Rightarrow> bool \<Rightarrow> string \<rightharpoonup> cptr" where
  "smon_hash s d = (if d then kq_dir_hash s else kq_file_hash s)"

text \<open>A monitor is in the hash table of its kind under its path, and has the subscriptions of this kind and path.\<close>

definition hashes_ok :: "'b ksrv_scheme \<Rightarrow> bool" where
  "hashes_ok s \<longleftrightarrow>
     (\<forall>d path p. smon_hash s d path = Some p \<longleftrightarrow> (\<exists>sm. kq_smons s p = Some sm \<and> sm_isdir sm = d \<and> mo_pathname sm = path)) \<and>
     (\<forall>p sm. kq_smons s p = Some sm \<longrightarrow> sm_subs sm \<noteq> [] \<and>
        (\<forall>q \<in> set (sm_subs sm). \<exists>sub. sv_subs s q = Some sub \<and> sub_is_dir sub = sm_isdir sm))"

definition kq_ok :: "poller set \<Rightarrow> 'b ksrv_scheme \<Rightarrow> bool" where
  "kq_ok K s \<longleftrightarrow> kq_inv none s \<and> walked K s \<and> hashes_ok s \<and> (\<forall>p \<in> dom (kq_smons s). watched s p)"

lemma kq_okD:
  assumes "kq_ok K s"
  shows "kq_inv none s" "walked K s" "hashes_ok s" "kq_smons s p = Some sm \<Longrightarrow> watched s p"
  using assms by (auto simp: kq_ok_def)

lemma walked_still: "walked K s \<Longrightarrow> unsupported_fmon_poller \<notin> K \<Longrightarrow> kq_smons s p = Some sm \<Longrightarrow> still p s"
  by (simp add: walked_def still_def)

lemma no_removals:
  assumes "kq_inv none s" "walked K s" "k \<notin> K"
  shows "ht_removals (po_smons (kq_pollers s k)) = []"
  using kq_invD(3) [OF assms(1), of k] assms(2,3) by (simp add: walked_def poller_ok_def table_ok_def)

lemma walked_kframe: "kframe p s s' \<Longrightarrow> walked K s' = walked K s"
proof -
  assume fr: "kframe p s s'"
  have po: "ht_iterating (po_smons (kq_pollers s' k)) = ht_iterating (po_smons (kq_pollers s k))" for k
    using kframeD(7) [OF fr, of k] by (simp add: same_poller_def same_walk_def)
  obtain sm sm' where sm: "kq_smons s p = Some sm" "kq_smons s' p = Some sm'" "same_smon sm sm'" using fr by (auto simp: kframe_def)
  let ?still = "\<lambda>sm. \<not> ht_iterating (sm_fmons sm) \<and> \<not> ht_iterating (sm_unsupported sm)"
  have "?still sm' = ?still sm" using sm(3) by (simp add: same_smon_def same_walk_def)
  then have "(\<forall>sm. kq_smons s' r = Some sm \<longrightarrow> ?still sm) = (\<forall>sm. kq_smons s r = Some sm \<longrightarrow> ?still sm)" for r
    using sm(1,2) kframeD(6) [OF fr, of r] by (cases "r = p") simp_all
  then show ?thesis unfolding walked_def po by blast
qed

lemma is_missing_content: "is_missing s p \<Longrightarrow> p \<in> poller_content s missing_smon_poller"
  by (simp add: is_missing_def)

lemma watched_missing: "watched s p \<Longrightarrow> is_missing s p \<longleftrightarrow> p \<in> poller_content s missing_smon_poller"
  by (auto simp: watched_def is_missing_def)

lemma watched_other:
  assumes fr: "kframe p s s'" and r: "r \<noteq> p"
  shows "is_missing s' r = is_missing s r" "watched s' r = watched s r"
  using kframeD(6) [OF fr r] poller_content_other [OF kframeD(7) [OF fr] r] by (simp_all add: watched_def is_missing_def)

lemma hashes_kframe:
  assumes fr: "kframe p s s'" and ok: "hashes_ok s"
  shows "hashes_ok s'"
proof -
  obtain sm sm' where sm: "kq_smons s p = Some sm" "kq_smons s' p = Some sm'" "same_smon sm sm'" using fr by (auto simp: kframe_def)
  have h: "smon_hash s' d = smon_hash s d" for d using kframeD(2,3) [OF fr] by (simp add: smon_hash_def)
  have sv: "sv_subs s' = sv_subs s" using kframeD(1) [OF fr] by (simp add: same_sv_def)
  have a: "(\<exists>sm. kq_smons s' r = Some sm \<and> sm_isdir sm = d \<and> mo_pathname sm = path) \<longleftrightarrow>
      (\<exists>sm. kq_smons s r = Some sm \<and> sm_isdir sm = d \<and> mo_pathname sm = path)" for r d path
    using sm kframeD(6) [OF fr, of r] by (cases "r = p") (simp_all add: same_smon_def)
  have "sm_subs x \<noteq> [] \<and> (\<forall>q \<in> set (sm_subs x). \<exists>sub. sv_subs s q = Some sub \<and> sub_is_dir sub = sm_isdir x)" if "kq_smons s' r = Some x" for r x
  proof (cases "r = p")
    case True
    then have "x = sm'" using that sm(2) by simp
    moreover have "sm_subs sm \<noteq> [] \<and> (\<forall>q \<in> set (sm_subs sm). \<exists>sub. sv_subs s q = Some sub \<and> sub_is_dir sub = sm_isdir sm)"
      using ok sm(1) unfolding hashes_ok_def by blast
    ultimately show ?thesis using sm(3) by (simp add: same_smon_def)
  next
    case False
    then show ?thesis using ok that kframeD(6) [OF fr False] unfolding hashes_ok_def by simp
  qed
  moreover have "\<forall>d path p. smon_hash s d path = Some p \<longleftrightarrow> (\<exists>sm. kq_smons s p = Some sm \<and> sm_isdir sm = d \<and> mo_pathname sm = path)"
    using ok unfolding hashes_ok_def by blast
  ultimately show ?thesis unfolding hashes_ok_def h sv a by blast
qed

text \<open>An operation on one monitor that keeps the invariant and leaves this monitor watched.\<close>

lemma kq_ok_step:
  assumes ok: "kq_ok K s" and "kq_inv none s'" and fr: "kframe p s s'" and w: "watched s' p"
  shows "kq_ok K s'"
proof -
  have "watched s' r" if "r \<in> dom (kq_smons s')" for r
  proof (cases "r = p")
    case False
    have "r \<in> dom (kq_smons s)" using that kframeD(8) [OF fr] by simp
    then show ?thesis using ok watched_other(2) [OF fr False] by (simp add: kq_ok_def)
  qed (use w in simp)
  then show ?thesis using ok assms(2) walked_kframe [OF fr] hashes_kframe [OF fr] by (simp add: kq_ok_def)
qed

lemma fstep_watched:
  assumes fs: "fstep p s s'" and w: "watched s p" and out: "p \<notin> poller_content s missing_smon_poller"
  shows "watched s' p" "p \<notin> poller_content s' missing_smon_poller"
proof -
  have po: "poller_content s' k = poller_content s k" if "k \<noteq> unsupported_fmon_poller" for k
    using fs that by (simp add: fstep_def poller_content_def)
  obtain sm where sm: "kq_smons s p = Some sm" "0 \<le> mo_fd sm \<or> p \<in> poller_content s unsupported_smon_poller"
    using w out by (auto simp: watched_def is_missing_def)
  obtain sm' where sm': "kq_smons s' p = Some sm'" "Monitor.truncate sm' = Monitor.truncate sm" by (rule fstep_smon [OF fs sm(1)])
  have "mo_fd sm' = mo_fd sm" using sm'(2) by (simp add: Monitor.defs)
  then show "watched s' p" "p \<notin> poller_content s' missing_smon_poller" using sm sm'(1) out by (simp_all add: watched_def po)
qed

lemma same_kq_watched: "same_kq s s' \<Longrightarrow> watched s' p = watched s p"
  by (simp add: watched_def is_missing_def same_kq_def poller_content_def)

lemma same_kq_content: "same_kq s s' \<Longrightarrow> poller_content s' k = poller_content s k"
  by (simp add: same_kq_def poller_content_def)

section \<open>Kernel events\<close>

lemma smon_kevent_ok:
  assumes en: "good_kenv en" and ok: "kq_ok {} s" and p: "kq_smons s p = Some sm" and out: "p \<notin> poller_content s missing_smon_poller"
  shows "succeeds (gam_kqueue_sub_monitor_handle_kevent en p ev s) (kq_ok {})"
proof -
  note inv = kq_okD(1) [OF ok] and w = kq_okD(2) [OF ok]
  have still: "still p t" if "kframe p s t" for t using still_frame [OF that] walked_still [OF w _ p] by simp
  have st: "still p s" by (rule still [OF kframe_refl [OF p]])
  show ?thesis
  proof (cases "ev_flags ev AND EV_ERROR = 0")
    case False
    have "p \<notin> set (ht_removals (po_smons (kq_pollers s unsupported_smon_poller)))" using no_removals [OF inv w] by simp
    from smon_set_unsupported_ok [OF inv p this] obtain s1 sm1 where s1: "gam_kqueue_sub_monitor_set_unsupported en p s = Some s1" "kq_inv none s1"
        "kframe p s s1" "kq_smons s1 p = Some sm1"
        "poller_content s1 unsupported_smon_poller = insert p (poller_content s unsupported_smon_poller)"
        "\<forall>k. k \<noteq> unsupported_smon_poller \<longrightarrow> kq_pollers s1 k = kq_pollers s k"
      unfolding succeeds_def by blast
    have "watched s1 p" using s1(4-6) out by (simp add: watched_def poller_content_def)
    then show ?thesis using False s1(1) kq_ok_step [OF ok s1(2,3)] by (simp add: gam_kqueue_sub_monitor_handle_kevent_def)
  next
    case True
    have "\<exists>s1. (if ev_fflags ev AND VN_NOTE_CHANGED \<noteq> 0 then gam_kqueue_sub_monitor_emit_event en p GAMIN_EVENT_CHANGED 0 s else Some s) = Some s1 \<and>
        kq_inv none s1 \<and> fstep p s s1"
    proof (cases "ev_fflags ev AND VN_NOTE_CHANGED \<noteq> 0")
      case ch: True
      show ?thesis
      proof (cases "sm_isdir sm")
        case True
        then show ?thesis using smon_emit_change [OF en inv st p, of 0] ch unfolding succeeds_def by simp
      next
        case False
        then show ?thesis using smon_emit_plain [OF inv p, of GAMIN_EVENT_CHANGED en 0] ch kq_inv_same [OF _ inv] fstep_same [OF _ p]
          unfolding succeeds_def by auto
      qed
    next
      case False
      then show ?thesis using inv fstep_same [OF same_kq_refl p] by simp
    qed
    then obtain s1 where s1: "(if ev_fflags ev AND VN_NOTE_CHANGED \<noteq> 0 then gam_kqueue_sub_monitor_emit_event en p GAMIN_EVENT_CHANGED 0 s
        else Some s) = Some s1" "kq_inv none s1" "fstep p s s1"
      by blast
    note f1 = fstep_frame [OF s1(3)]
    note ok1 = kq_ok_step [OF ok s1(2) f1 fstep_watched(1) [OF s1(3) kq_okD(4) [OF ok p] out]]
    obtain sm1 where p1: "kq_smons s1 p = Some sm1" by (rule fstep_smon [OF s1(3) p])
    have r1: "p \<notin> set (ht_removals (po_smons (kq_pollers s1 missing_smon_poller)))" using no_removals [OF s1(2) kq_okD(2) [OF ok1]] by simp
    have gone: "succeeds (gam_kqueue_sub_monitor_emit_event en p e MONITOR_ISNOTDIR s1) (kq_ok {})"
      if "e = GAMIN_EVENT_DELETED \<or> e = GAMIN_EVENT_MOVED" for e
      using smon_emit_gone [OF s1(2) still [OF f1] p1 r1 that, of en MONITOR_ISNOTDIR]
      by (rule succeeds_mono) (use kq_ok_step [OF ok1] in \<open>auto simp: watched_def\<close>)
    have "gam_kqueue_sub_monitor_handle_kevent en p ev s =
        (if ev_fflags ev AND VN_NOTE_DELETED \<noteq> 0 then gam_kqueue_sub_monitor_emit_event en p GAMIN_EVENT_DELETED MONITOR_ISNOTDIR s1
         else if ev_fflags ev AND NOTE_RENAME \<noteq> 0 then gam_kqueue_sub_monitor_emit_event en p GAMIN_EVENT_MOVED MONITOR_ISNOTDIR s1
         else Some s1)"
      unfolding gam_kqueue_sub_monitor_handle_kevent_def s1(1) using True by simp
    then show ?thesis using gone ok1 by simp
  qed
qed

lemma fmon_kevent_ok:
  assumes en: "good_kenv en" and ok: "kq_ok {} s" and f: "kq_fmons s f = Some fm"
  shows "succeeds (gam_kqueue_file_monitor_handle_kevent en f ev s) (kq_ok {})"
proof -
  note inv = kq_okD(1) [OF ok] and w = kq_okD(2) [OF ok]
  define p where "p = fm_smon fm"
  obtain sm where p: "kq_smons s p = Some sm" "f \<in> set (ht_main (sm_fmons sm))"
    using kq_invD(1) [OF inv] f unfolding heap_ok_def p_def by blast
  note smok = kq_invD(4) [OF inv p(1)]
  have it: "\<not> ht_iterating (sm_fmons sm)" "\<not> ht_iterating (sm_unsupported sm)" "\<not> ht_iterating (po_smons (kq_pollers s unsupported_fmon_poller))"
    using w p(1) by (auto simp: walked_def)
  have c: "f \<in> content (sm_fmons sm)"
    using smon_okD(1) [OF smok] it(1) p(2) by (simp add: content_sub_table sub_table_ok_def table_ok_def)
  have at: "fmon_at s p f fm sm" using f p(1) c by (simp add: fmon_at_def p_def)
  have out: "p \<notin> poller_content s missing_smon_poller"
    using watched_missing [OF kq_okD(4) [OF ok p(1)]] c p(1) by (auto simp: is_missing_def)
  have fin: "kq_ok {} s'" if "kq_inv none s'" "fstep p s s'" for s'
    by (rule kq_ok_step [OF ok that(1) fstep_frame [OF that(2)] fstep_watched(1) [OF that(2) kq_okD(4) [OF ok p(1)] out]])
  show ?thesis
  proof (cases "ev_flags ev AND EV_ERROR = 0")
    case False
    have "none(p := none p - {f}) = none" by auto
    note e = fmon_set_unsupported_ok [OF inv f refl p(1) [unfolded p_def] c it(2,3), of en "[]", folded p_def, unfolded this]
    show ?thesis using False e fin unfolding gam_kqueue_file_monitor_handle_kevent_def
      by (simp add: succeeds_def) blast
  next
    case True
    have "\<exists>s1. (if ev_fflags ev AND VN_NOTE_CHANGED \<noteq> 0 then gam_kqueue_file_monitor_emit_event en f GAMIN_EVENT_CHANGED 0 s else Some s) = Some s1 \<and> same_kq s s1"
    proof (cases "ev_fflags ev AND VN_NOTE_CHANGED = 0")
      case False
      then show ?thesis using emit_plain [OF inv f p(1) [unfolded p_def], of GAMIN_EVENT_CHANGED 1 en 0]
        unfolding succeeds_def gam_kqueue_file_monitor_emit_event_def numeral_2_eq_2 by auto
    qed simp
    then obtain s1 where s1: "(if ev_fflags ev AND VN_NOTE_CHANGED \<noteq> 0 then gam_kqueue_file_monitor_emit_event en f GAMIN_EVENT_CHANGED 0 s else Some s) = Some s1"
        "same_kq s s1" by blast
    note f1 = fstep_same [OF s1(2) p(1)]
    have i1: "kq_inv none s1" by (rule kq_inv_same [OF s1(2) inv])
    have st1: "still p s1" using still_frame [OF fstep_frame [OF f1]] walked_still [OF w _ p(1)] by simp
    note at1 = fmon_at_same [OF s1(2) at]
    have gone: "succeeds (gam_kqueue_file_monitor_emit_event en f e (MONITOR_ISNOTDIR OR FILE_MONITOR_POSSIBLY_RECREATED) s1) (kq_ok {})"
      if "e = GAMIN_EVENT_DELETED \<or> e = GAMIN_EVENT_MOVED" for e
      using emit_recreated [OF en i1 st1 at1 that] by (rule succeeds_mono) (use fstep_trans [OF f1] fin in blast)
    have "gam_kqueue_file_monitor_handle_kevent en f ev s =
        (if ev_fflags ev AND VN_NOTE_DELETED \<noteq> 0
         then gam_kqueue_file_monitor_emit_event en f GAMIN_EVENT_DELETED (MONITOR_ISNOTDIR OR FILE_MONITOR_POSSIBLY_RECREATED) s1
         else if ev_fflags ev AND NOTE_RENAME \<noteq> 0
         then gam_kqueue_file_monitor_emit_event en f GAMIN_EVENT_MOVED (MONITOR_ISNOTDIR OR FILE_MONITOR_POSSIBLY_RECREATED) s1
         else Some s1)"
      unfolding gam_kqueue_file_monitor_handle_kevent_def s1(1) using True by simp
    then show ?thesis using gone fin [OF i1 f1] by simp
  qed
qed

end
