(* ===== verification/Gam_Kqueue_Fpoll.thy ===== *)
theory Gam_Kqueue_Fpoll
  imports Gam_Kqueue_Calls
begin

unbundle bit_operations_syntax

text \<open>
  Polling the files of a directory that the kernel cannot watch: every file of the table is looked at once, and the
  table is settled when the walk ends.
\<close>

section \<open>Polling the files of a directory\<close>

lemma upd_table_comp: "upd_table t g (upd_table t f s) = upd_table t (\<lambda>h. g (f h)) s"
  by (cases t) (simp_all add: option.map_comp o_def)

lemma each_default_remove:
  "table_each (gam_kqueue_hash_table_default_remove_cb t) R s =
     Some (upd_table t (\<lambda>h. h\<lparr>ht_main := filter (\<lambda>x. x \<notin> set R) (ht_main h)\<rparr>) s)"
proof (induction R arbitrary: s)
  case Nil
  have "upd_table t (\<lambda>h. h) s = s" by (cases t) (simp_all add: option.map_ident fun_upd_idem)
  then show ?case by simp
next
  case (Cons x R)
  have e: "filter (\<lambda>y. y \<notin> set R) (removeAll x M) = filter (\<lambda>y. y \<notin> set (x # R)) M" for M
    by (induction M) auto
  show ?case by (simp only: table_each.simps gam_kqueue_hash_table_default_remove_cb_def Option.bind.simps
        Cons.IH [unfolded gam_kqueue_hash_table_default_remove_cb_def] upd_table_comp) (simp add: e del: upd_table.simps)
qed

text \<open>Marking the table of polled files, with the exemptions that go with it.\<close>

lemma put_unsupported_marks:
  assumes inv: "kq_inv Y s" and p: "kq_smons s p = Some sm" and h: "ht_main h = ht_main (sm_unsupported sm)" "sub_table_ok h"
    and Z: "content h - Z = content (sm_fmons sm) \<inter> closed_fmons s - Z"
  shows "kq_inv (Y(p := Z)) (put_smon p (sm\<lparr>sm_unsupported := h\<rparr>) s)"
proof -
  let ?sm = "sm\<lparr>sm_unsupported := h\<rparr>"
  let ?s' = "put_smon p ?sm s"
  have d: "dom (kq_smons ?s') = dom (kq_smons s)" using p by auto
  have [simp]: "fmon_name ?s' = fmon_name s" "closed_fmons ?s' = closed_fmons s" "owned_by ?s' = owned_by s"
    by (simp_all add: fmon_name_def closed_fmons_def owned_by_def fun_eq_iff)
  have "heap_ok ?s'" using kq_invD(1) [OF inv] p unfolding heap_ok_def d by (auto simp: put_smon_def) fastforce+
  moreover have "mon_fd ?s' = mon_fd s"
    using mon_fd_smon [of ?s' s p ?sm] mon_fd_Some(1) [OF p] by (simp add: fun_upd_idem)
  then have "fds_ok ?s'" by (intro fds_same [OF kq_invD(2) [OF inv]]) simp_all
  moreover have "poller_ok ?s' (kq_pollers ?s' k)" for k using kq_invD(3) [OF inv, of k] unfolding poller_ok_dom [OF d] by simp
  moreover have "smon_ok ((Y(p := Z)) r) ?s' r sm2" if "kq_smons ?s' r = Some sm2" for r sm2
  proof (cases "r = p")
    case True
    then have sm2: "sm2 = ?sm" using that by simp
    show ?thesis unfolding sm2 True using kq_invD(4) [OF inv p] h Z by (simp add: smon_ok_def)
  next
    case False
    then show ?thesis using that kq_invD(4) [OF inv, of r sm2] by (simp add: smon_ok_def)
  qed
  ultimately show ?thesis by (simp add: kq_inv_def)
qed

text \<open>Polling one file of the walk leaves the others to be polled as they are.\<close>

definition poll_one :: "cptr \<Rightarrow> cptr \<Rightarrow> 'b ksrv_scheme \<Rightarrow> 'b ksrv_scheme \<Rightarrow> bool" where
  "poll_one p f s s' \<longleftrightarrow> fstep p s s' \<and> (\<forall>g. g \<noteq> f \<longrightarrow> kq_fmons s' g = kq_fmons s g) \<and>
     (\<exists>sm sm'. kq_smons s p = Some sm \<and> kq_smons s' p = Some sm' \<and> content (sm_unsupported sm') - {f} = content (sm_unsupported sm) - {f})"

lemma poll_one_trans: "poll_one p f s s' \<Longrightarrow> poll_one p f s' s'' \<Longrightarrow> poll_one p f s s''"
proof -
  assume a: "poll_one p f s s'" and b: "poll_one p f s' s''"
  then obtain sm sm' sm'' where "kq_smons s p = Some sm" "kq_smons s'' p = Some sm''" "content (sm_unsupported sm'') - {f} = content (sm_unsupported sm) - {f}"
    unfolding poll_one_def by auto
  moreover have "fstep p s s'" "fstep p s' s''" using a b by (simp_all add: poll_one_def)
  then have "fstep p s s''" by (rule fstep_trans)
  ultimately show ?thesis using a b unfolding poll_one_def by simp
qed

lemma none_upd: "none(p := {}) = none" "none(p := {f}, p := {}) = none"
  by auto

text \<open>A file that the kernel could not watch may be watched now.\<close>

lemma fmon_retry_ok:
  assumes en: "fresh_fds en" and inv: "kq_inv none s" and f: "kq_fmons s f = Some fm" "fm_smon fm = p" and p: "kq_smons s p = Some sm"
    and c: "f \<in> content (sm_unsupported sm)"
  shows "succeeds (let (ok, fm1, s1) = gam_kqueue_monitor_enable_kqueue en f (fm\<lparr>mo_poll_count := n\<rparr>) s; s2 = put_fmon f fm1 s1
      in if ok then remove_unsupported (fm_smon fm1) f s2 else Some s2)
    (\<lambda>s'. kq_inv none s' \<and> poll_one p f s s' \<and> (\<exists>fm' sm'. fmon_at s' p f fm' sm' \<and> fm_smon fm' = p))"
proof -
  let ?fm0 = "fm\<lparr>mo_poll_count := n\<rparr>"
  note smok = kq_invD(4) [OF inv p]
  have cf: "f \<in> content (sm_fmons sm)" "f \<in> closed_fmons s" using c smon_okD(6) [OF smok] by auto
  have neg: "mo_fd fm < 0" using cf(2) f(1) by (simp add: closed_fmons_def)
  have sf: "kq_smons s f = None" by (rule owned_not_smon [OF kq_invD(1) [OF inv] f(1)])
  obtain ok fm1 s1 where e: "gam_kqueue_monitor_enable_kqueue en f ?fm0 s = (ok, fm1, s1)" by (cases "gam_kqueue_monitor_enable_kqueue en f ?fm0 s")
  let ?s2 = "put_fmon f fm1 s1"
  have neg0: "mo_fd ?fm0 < 0" using neg by simp
  have weak: "kq_inv (none(p := {f})) s" by (rule kq_inv_weaken [OF inv p]) simp
  have "(\<exists>fd. fm1 = ?fm0\<lparr>mo_fd := fd\<rparr> \<and> (ok \<longleftrightarrow> 0 \<le> fd)) \<and> fds_ok ?s2 \<and> (\<exists>t x y. s1 = s\<lparr>kq_tick := t, kq_fds := x, kq_open_files := y\<rparr>)"
    using en e neg0
  proof (cases rule: enable_kqueue_cases)
    case (opened t fd)
    have "mon_fd ?s2 = (mon_fd s)(f \<mapsto> fd)" using mon_fd_fmon [of ?s2 s f "Some fm1"] sf by (simp add: opened)
    then have "fds_ok ?s2"
      by (rule fds_opened [OF kq_invD(2) [OF inv] opened(2,3,5) _ _ _ _, rotated -1])
         (use mon_fd_Some(2) [OF sf f(1)] neg in \<open>auto simp: opened\<close>)
    then show ?thesis using opened by auto
  next
    case (failed t fd)
    have "mon_fd ?s2 = (mon_fd s)(f \<mapsto> fd)" using mon_fd_fmon [of ?s2 s f "Some fm1"] sf by (simp add: failed)
    then have "fds_ok ?s2" using mon_fd_Some(2) [OF sf f(1)] failed(2) neg
      by (intro fds_same [OF kq_invD(2) [OF inv]]) (auto simp: failed(3,4))
    moreover have "\<exists>t x y. s1 = s\<lparr>kq_tick := t, kq_fds := x, kq_open_files := y\<rparr>"
      using failed(4) by (intro exI [of _ t] exI [of _ "kq_fds s"] exI [of _ "kq_open_files s"]) simp
    moreover have "ok \<longleftrightarrow> 0 \<le> fd" using failed(1,2) by simp
    ultimately show ?thesis using failed(3) by blast
  qed
  then obtain fd t x y where F: "fm1 = ?fm0\<lparr>mo_fd := fd\<rparr>" "ok \<longleftrightarrow> 0 \<le> fd" "fds_ok ?s2" "s1 = s\<lparr>kq_tick := t, kq_fds := x, kq_open_files := y\<rparr>"
    by blast
  have put: "kq_inv Y ?s2 \<and> kframe p s ?s2" if "kq_inv Y s" "f \<in> Y p \<or> \<not> ok" for Y
    by (rule put_fmon_inv [OF that(1) f]) (use that(2) F f(2) neg in \<open>auto simp: same_rest_def same_sv_def\<close>)
  have i2: "kq_inv (none(p := {f})) ?s2" "kframe p s ?s2" using put [OF weak] by simp_all
  have p2: "kq_smons ?s2 p = Some sm" using p by (simp add: F(4))
  have f2: "kq_fmons ?s2 = (kq_fmons s)(f \<mapsto> fm1)" by (simp add: F(4))
  have fs2: "fstep p s ?s2" using i2(2) by (simp add: fstep_def F(4))
  have one2: "poll_one p f s ?s2" using fs2 p p2 f2 by (simp add: poll_one_def)
  show ?thesis
  proof (cases ok)
    case False
    have "kq_inv none ?s2" using put [OF inv] False by simp
    moreover have "fmon_at ?s2 p f fm1 sm" using p2 f2 cf(1) f(2) F(1) by (simp add: fmon_at_def)
    ultimately show ?thesis using False e one2 f(2) F(1) by auto
  next
    case True
    from remove_unsupported_ok [OF i2(1) p2 c] obtain s3 h po where s3: "remove_unsupported p f ?s2 = Some s3" "s3 = unsupported_changed p sm h po ?s2"
        "content h = content (sm_unsupported sm) - {f}" "kq_inv ((none(p := {f}))(p := insert f ((none(p := {f})) p))) s3" "kframe p ?s2 s3"
      unfolding succeeds_def by blast
    let ?sm3 = "sm\<lparr>sm_unsupported := h\<rparr>"
    have p3: "kq_smons s3 p = Some ?sm3" and f3: "kq_fmons s3 = kq_fmons ?s2" by (simp_all add: s3(2))
    have "(none(p := {f}))(p := insert f ((none(p := {f})) p)) = none(p := {f})" by auto
    then have i3: "kq_inv (none(p := {f})) s3" using s3(4) by simp
    have "kq_inv ((none(p := {f}))(p := {})) s3"
    proof (rule kq_inv_drop [OF i3 p3])
      fix g assume "g \<in> (none(p := {f})) p - {}"
      then have g: "g = f" by simp
      have "f \<notin> closed_fmons s3" using F(1,2) True f2 f3 by (simp add: closed_fmons_def)
      then show "g \<in> content (sm_unsupported ?sm3) \<longleftrightarrow> g \<in> content (sm_fmons ?sm3) \<inter> closed_fmons s3" using s3(3) g by simp
    qed simp
    then have "kq_inv none s3" unfolding none_upd(2) .
    moreover have po3: "kq_pollers s3 k = kq_pollers ?s2 k" if "k \<noteq> unsupported_fmon_poller" for k using that by (simp add: s3(2))
    have "fstep p ?s2 s3" using s3(5) p2 p3 po3 by (simp add: fstep_def Monitor.defs)
    then have "poll_one p f ?s2 s3" using s3(3) p2 p3 f3 by (simp add: poll_one_def)
    then have "poll_one p f s s3" by (rule poll_one_trans [OF one2])
    moreover have "fmon_at s3 p f fm1 ?sm3" using p3 f2 f3 cf(1) f(2) F(1) by (simp add: fmon_at_def)
    ultimately show ?thesis using True e s3(1) f(2) F(1) by auto
  qed
qed

lemma smon_poll_event_cases:
  obtains "smon_poll_event sb old = None" | "smon_poll_event sb old = Some GAMIN_EVENT_DELETED" | "smon_poll_event sb old = Some GAMIN_EVENT_CHANGED"
proof -
  have "smon_poll_event sb old = None \<or> smon_poll_event sb old = Some GAMIN_EVENT_DELETED \<or> smon_poll_event sb old = Some GAMIN_EVENT_CHANGED"
    by (simp add: smon_poll_event_def)
  then show thesis using that by blast
qed

lemma fmon_poll_ok:
  assumes en: "good_kenv en" and inv: "kq_inv none s" and f: "kq_fmons s f = Some fm" "fm_smon fm = p" and p: "kq_smons s p = Some sm"
    and c: "f \<in> content (sm_unsupported sm)"
  shows "succeeds (gam_kqueue_unsupported_fmon_poll_foreach_cb en f s) (\<lambda>s'. kq_inv none s' \<and> poll_one p f s s')"
proof -
  have fresh: "fresh_fds en" using en by (simp add: good_kenv_def)
  let ?n = "mo_poll_count fm + 1" and ?fm0 = "fm\<lparr>mo_poll_count := mo_poll_count fm + 1\<rparr>"
  note smok = kq_invD(4) [OF inv p]
  have cf: "f \<in> content (sm_fmons sm)" using c smon_okD(6) [OF smok] by auto
  have "succeeds (if mo_poll_count ?fm0 = CFG_UNSUPPORTED_FMON_KQUEUE_RETRY_FREQUENCY then
        (let (ok, fm1, s1) = gam_kqueue_monitor_enable_kqueue en f (?fm0\<lparr>mo_poll_count := 0\<rparr>) s; s2 = put_fmon f fm1 s1
         in if ok then remove_unsupported (fm_smon fm1) f s2 else Some s2)
      else Some (put_fmon f ?fm0 s))
    (\<lambda>s'. kq_inv none s' \<and> poll_one p f s s' \<and> (\<exists>fm' sm'. fmon_at s' p f fm' sm' \<and> fm_smon fm' = p))"
  proof (cases "?n = CFG_UNSUPPORTED_FMON_KQUEUE_RETRY_FREQUENCY")
    case True
    then show ?thesis using fmon_retry_ok [OF fresh inv f p c, of 0] by simp
  next
    case False
    let ?s1 = "put_fmon f (fm\<lparr>mo_poll_count := ?n\<rparr>) s"
    have sf: "kq_smons s f = None" by (rule owned_not_smon [OF kq_invD(1) [OF inv] f(1)])
    have "mon_fd ?s1 = mon_fd s" using mon_fd_fmon [of ?s1 s f "Some (fm\<lparr>mo_poll_count := ?n\<rparr>)"] sf mon_fd_Some(2) [OF sf f(1)]
      by (simp add: fun_upd_idem)
    then have "fds_ok ?s1" by (intro fds_same [OF kq_invD(2) [OF inv]]) simp_all
    then have i: "kq_inv none ?s1 \<and> kframe p s ?s1"
      by (intro put_fmon_inv [OF inv f]) (use f(2) in \<open>simp_all add: same_rest_def same_sv_def\<close>)
    moreover have "poll_one p f s ?s1" using i p by (simp add: poll_one_def fstep_def)
    moreover have "fmon_at ?s1 p f (fm\<lparr>mo_poll_count := ?n\<rparr>) sm" using p cf f(2) by (simp add: fmon_at_def)
    ultimately show ?thesis using False f(2) by auto
  qed
  then obtain s1 fm1 sm1 where s1: "(if mo_poll_count ?fm0 = CFG_UNSUPPORTED_FMON_KQUEUE_RETRY_FREQUENCY then
        (let (ok, fm1, s1) = gam_kqueue_monitor_enable_kqueue en f (?fm0\<lparr>mo_poll_count := 0\<rparr>) s; s2 = put_fmon f fm1 s1
         in if ok then remove_unsupported (fm_smon fm1) f s2 else Some s2)
      else Some (put_fmon f ?fm0 s)) = Some s1" "kq_inv none s1" "poll_one p f s s1" "fmon_at s1 p f fm1 sm1"
    unfolding succeeds_def by blast
  note at = s1(4) [unfolded fmon_at_def]
  obtain t sb where e: "gam_kqueue_mini_lstat en (mo_pathname fm1) s1 = (sb, s1\<lparr>kq_tick := t\<rparr>)" by (rule mini_lstat_effect)
  have at1: "kq_fmons s1 f = Some fm1" using at by simp
  let ?s2 = "s1\<lparr>kq_tick := t\<rparr>" and ?fm2 = "fm1\<lparr>mo_sb := sb\<rparr>"
  let ?s3 = "put_fmon f ?fm2 ?s2"
  have run: "gam_kqueue_unsupported_fmon_poll_foreach_cb en f s =
      (case smon_poll_event sb (mo_sb fm1) of None \<Rightarrow> Some ?s2
       | Some event \<Rightarrow> gam_kqueue_file_monitor_emit_event en f event (dir_flag (mode_isdir (ms_mode sb))) ?s3)"
    unfolding gam_kqueue_unsupported_fmon_poll_foreach_cb_def f(1) Option.bind.simps Let_def s1(1) [unfolded Let_def] at1 e prod.case ..
  have i2: "kq_inv none ?s2" using s1(2) by simp
  have f2: "kq_fmons ?s2 f = Some fm1" "fm_smon fm1 = p" and p2: "kq_smons ?s2 p = Some sm1" using at by simp_all
  have sf: "kq_smons ?s2 f = None" by (rule owned_not_smon [OF kq_invD(1) [OF i2] f2(1)])
  have "mon_fd ?s3 = mon_fd ?s2" using mon_fd_fmon [of ?s3 ?s2 f "Some ?fm2"] sf mon_fd_Some(2) [OF sf f2(1)] by (simp add: fun_upd_idem)
  then have "fds_ok ?s3" by (intro fds_same [OF kq_invD(2) [OF i2]]) simp_all
  then have i3: "kq_inv none ?s3 \<and> kframe p ?s2 ?s3"
    by (intro put_fmon_inv [OF i2 f2]) (use f2(2) in \<open>simp_all add: same_rest_def same_sv_def\<close>)
  have one2: "poll_one p f s ?s2" using s1(3) by (simp add: poll_one_def fstep_def)
  have "poll_one p f ?s2 ?s3" using i3 p2 by (simp add: poll_one_def fstep_def)
  then have one3: "poll_one p f s ?s3" by (rule poll_one_trans [OF one2])
  have at3: "fmon_at ?s3 p f ?fm2 sm1" using at by (simp add: fmon_at_def)
  let ?fl = "dir_flag (mode_isdir (ms_mode sb))"
  show ?thesis
  proof (cases rule: smon_poll_event_cases [of sb "mo_sb fm1"])
    case 1
    then show ?thesis using run i2 one2 by simp
  next
    case 2
    have e: "GAMIN_EVENT_DELETED = GAMIN_EVENT_DELETED \<or> GAMIN_EVENT_DELETED = GAMIN_EVENT_MOVED" by simp
    have fl: "\<not> has_flag ?fl FILE_MONITOR_POSSIBLY_RECREATED" "has_flag ?fl MONITOR_ISDIR \<or> has_flag ?fl MONITOR_ISNOTDIR" by simp_all
    have "f \<notin> none p" by simp
    from emit_gone [OF conjunct1 [OF i3] at3 this e fl, of 1 en] obtain s4 sm4 where s4: "file_monitor_emit (Suc 1) en f GAMIN_EVENT_DELETED ?fl ?s3 = Some s4" "kq_inv none s4" "fstep p ?s3 s4"
        "kq_smons s4 p = Some sm4" "content (sm_unsupported sm4) = content (sm_unsupported sm1) - {f}"
        "kq_fmons s4 = (if ht_iterating (sm_fmons sm1) then kq_fmons ?s3 else (kq_fmons ?s3)(f := None))"
      unfolding succeeds_def by blast
    have "poll_one p f ?s3 s4" using s4(3-6) p2 by (simp add: poll_one_def)
    then have "poll_one p f s s4" by (rule poll_one_trans [OF one3])
    then show ?thesis using run 2 s4(1,2) by (simp add: gam_kqueue_file_monitor_emit_event_def numeral_2_eq_2 del: file_monitor_emit.simps)
  next
    case 3
    have f3: "kq_fmons ?s3 f = Some ?fm2" "kq_smons ?s3 (fm_smon ?fm2) = Some sm1" using at by simp_all
    have e: "GAMIN_EVENT_CHANGED \<noteq> GAMIN_EVENT_DELETED" "GAMIN_EVENT_CHANGED \<noteq> GAMIN_EVENT_MOVED" by simp_all
    from emit_plain [OF conjunct1 [OF i3] f3 e, of 1 en ?fl]
    obtain s4 where s4: "file_monitor_emit (Suc 1) en f GAMIN_EVENT_CHANGED ?fl ?s3 = Some s4" "same_kq ?s3 s4"
      unfolding succeeds_def by blast
    have "poll_one p f ?s3 s4" using fstep_same [OF s4(2), of p sm1] s4(2) p2 by (simp add: poll_one_def same_kq_def)
    then have "poll_one p f s s4" by (rule poll_one_trans [OF one3])
    then show ?thesis using run 3 s4(1) kq_inv_same [OF s4(2) conjunct1 [OF i3]]
      by (simp add: gam_kqueue_file_monitor_emit_event_def numeral_2_eq_2 del: file_monitor_emit.simps)
  qed
qed

lemma unsupported_files:
  assumes inv: "kq_inv Y s" and p: "kq_smons s p = Some sm" and f: "f \<in> content (sm_unsupported sm)" "f \<notin> Y p"
  obtains fm where "kq_fmons s f = Some fm" "fm_smon fm = p"
proof -
  note smok = kq_invD(4) [OF inv p]
  have "f \<in> content (sm_fmons sm)" using f smon_okD(6) [OF smok] by auto
  then have "f \<in> set (ht_main (sm_fmons sm))" using content_sub_table [OF smon_okD(1) [OF smok]] by blast
  from smon_okD(3) [OF smok this] show thesis using that unfolding owned_by_def by blast
qed

lemma fmon_polls_loop:
  assumes en: "good_kenv en"
  shows "kq_inv none s \<Longrightarrow> kq_smons s p = Some sm \<Longrightarrow> ht_iterating (sm_unsupported sm) \<Longrightarrow> ht_main (sm_unsupported sm) = M \<Longrightarrow>
    distinct xs \<Longrightarrow> set xs \<subseteq> content (sm_unsupported sm) \<Longrightarrow>
    succeeds (table_foreach (T_UNSUPPORTED p) M (gam_kqueue_unsupported_fmon_poll_foreach_cb en) xs s) (\<lambda>s'. kq_inv none s' \<and> fstep p s s')"
proof (induction xs arbitrary: s sm)
  case Nil
  then show ?case using fstep_same [OF same_kq_refl, of s p sm] by simp
next
  case (Cons x xs)
  have x: "x \<in> content (sm_unsupported sm)" using Cons.prems(6) by simp
  obtain fm where fm: "kq_fmons s x = Some fm" "fm_smon fm = p" by (rule unsupported_files [OF Cons.prems(1,2) x]) simp_all
  obtain s1 where s1: "gam_kqueue_unsupported_fmon_poll_foreach_cb en x s = Some s1" "kq_inv none s1" "poll_one p x s s1"
    using fmon_poll_ok [OF en Cons.prems(1) fm Cons.prems(2) x] unfolding succeeds_def by blast
  have f1: "fstep p s s1" using s1(3) by (simp add: poll_one_def)
  obtain sm1 where sm1: "kq_smons s1 p = Some sm1" "same_smon sm sm1" by (rule fstep_smon [OF f1 Cons.prems(2)])
  have c1: "content (sm_unsupported sm1) - {x} = content (sm_unsupported sm) - {x}" using s1(3) sm1(1) Cons.prems(2) by (simp add: poll_one_def)
  have w: "ht_iterating (sm_unsupported sm1)" "ht_main (sm_unsupported sm1) = M"
    using sm1(2) Cons.prems(3,4) by (simp_all add: same_smon_def same_walk_def)
  have "set xs \<subseteq> content (sm_unsupported sm1)" using Cons.prems(5,6) c1 by auto
  then obtain s2 where s2: "table_foreach (T_UNSUPPORTED p) M (gam_kqueue_unsupported_fmon_poll_foreach_cb en) xs s1 = Some s2" "kq_inv none s2" "fstep p s1 s2"
    using Cons.IH [OF s1(2) sm1(1) w] Cons.prems(5) unfolding succeeds_def by auto
  show ?case using s1(1) s2 sm1(1) w(2) fstep_trans [OF f1 s2(3)] by simp
qed

lemma fstep_unmark:
  assumes st: "fstep p (put_smon p (sm\<lparr>sm_unsupported := (sm_unsupported sm)\<lparr>ht_iterating := True\<rparr>\<rparr>) s) s1" and p: "kq_smons s p = Some sm"
    and it: "\<not> ht_iterating (sm_unsupported sm)" "\<not> ht_iterating h" and sm1: "kq_smons s1 p = Some sm1"
    and po: "same_poller p (kq_pollers s1 unsupported_fmon_poller) po"
  shows "fstep p s (unsupported_changed p sm1 h po s1)"
proof -
  let ?sm0 = "sm\<lparr>sm_unsupported := (sm_unsupported sm)\<lparr>ht_iterating := True\<rparr>\<rparr>" and ?s2 = "unsupported_changed p sm1 h po s1"
  have s1: "same_smon ?sm0 sm1" "Monitor.truncate sm1 = Monitor.truncate ?sm0" using fstep_smon [OF st] sm1 by fastforce+
  have "same_smon sm (sm1\<lparr>sm_unsupported := h\<rparr>)" using s1(1) it by (simp add: same_smon_def same_walk_def)
  then have a: "\<exists>x x'. kq_smons s p = Some x \<and> kq_smons ?s2 p = Some x' \<and> same_smon x x'" using p by simp
  have fr: "kframe p (put_smon p ?sm0 s) s1" by (rule fstep_frame [OF st])
  have b: "same_poller p (kq_pollers s k) (kq_pollers ?s2 k)" for k
    using kframeD(7) [OF fr, of k] same_poller_trans [OF _ po] by (cases "k = unsupported_fmon_poller") simp_all
  have c: "kq_fmons ?s2 f = Some fm" if "kq_fmons s f = Some fm" "fm_smon fm \<noteq> p" for f fm
    using fr that unfolding kframe_def by simp
  have d: "kq_smons ?s2 r = kq_smons s r" if "r \<noteq> p" for r using kframeD(6) [OF fr that] that by simp
  have "same_sv s ?s2" using kframeD(1) [OF fr] by (simp add: same_sv_def)
  then have "kframe p s ?s2" unfolding kframe_def using a b c d kframeD(2-5) [OF fr] by simp
  then show ?thesis using st p s1(2) unfolding fstep_def by (simp add: Monitor.defs)
qed

lemma unsupported_fmon_poll_ok:
  assumes en: "good_kenv en" and inv: "kq_inv none s" and p: "kq_smons s p = Some sm" and it: "\<not> ht_iterating (sm_unsupported sm)"
  shows "succeeds (gam_kqueue_unsupported_fmon_poll en p s) (\<lambda>s'. kq_inv none s' \<and> fstep p s s')"
proof -
  let ?u = "sm_unsupported sm" and ?M = "ht_main (sm_unsupported sm)"
  let ?m = "sub_monitor_unsupported_fmons_hash_table_methods :: 'a ksrv_scheme HashTableMethods"
  let ?sm0 = "sm\<lparr>sm_unsupported := ?u\<lparr>ht_iterating := True\<rparr>\<rparr>"
  let ?s0 = "put_smon p ?sm0 s"
  have ord: "good_order en" using en by (simp add: good_kenv_def)
  note smok = kq_invD(4) [OF inv p]
  note t0 = smon_okD(2) [OF smok]
  have "kq_inv (none(p := {})) ?s0"
    by (rule put_unsupported_marks [OF inv p]) (use t0 smon_okD(6) [OF smok] in \<open>simp_all add: sub_table_ok_def table_ok_def content_def\<close>)
  then have i0: "kq_inv none ?s0" unfolding none_upd(1) .
  have c0: "content (sm_unsupported ?sm0) = set ?M" using t0 it by (simp add: content_def sub_table_ok_def table_ok_def)
  have xs: "distinct (ke_order en ?M)" "set (ke_order en ?M) \<subseteq> content (sm_unsupported ?sm0)"
    using good_order_simps [OF ord, of ?M] t0 c0 by (simp_all add: sub_table_ok_def table_ok_def)
  have p0: "kq_smons ?s0 p = Some ?sm0" by simp
  obtain s1 where s1: "table_foreach (T_UNSUPPORTED p) ?M (gam_kqueue_unsupported_fmon_poll_foreach_cb en) (ke_order en ?M) ?s0 = Some s1"
      "kq_inv none s1" "fstep p ?s0 s1"
    using fmon_polls_loop [OF en i0 p0 _ _ xs] unfolding succeeds_def by auto
  obtain sm1 where sm1: "kq_smons s1 p = Some sm1" "same_smon ?sm0 sm1" by (rule fstep_smon [OF s1(3) p0])
  let ?u1 = "sm_unsupported sm1" and ?R = "ht_removals (sm_unsupported sm1)" and ?po = "kq_pollers s1 unsupported_fmon_poller"
  note smok1 = kq_invD(4) [OF s1(2) sm1(1)]
  note t1 = smon_okD(2) [OF smok1]
  note ok1 = kq_invD(3) [OF s1(2), of unsupported_fmon_poller]
  have m1: "ht_main ?u1 = ?M" using sm1(2) by (simp add: same_smon_def same_walk_def)
  let ?F = "filter (\<lambda>x. x \<notin> set ?R) ?M"
  define h where "h = \<lparr>ht_main = ?F, ht_iterating = False, ht_additions = [], ht_removals = []\<rparr>"
  have H: "ht_main h = ?F" "\<not> ht_iterating h" "content h = content ?u1" "sub_table_ok h"
    using t1 m1 by (auto simp: h_def content_def sub_table_ok_def table_ok_def)
  have iff: "p \<in> content (po_smons ?po) \<longleftrightarrow> ?M \<noteq> []" using smon_okD(7) [OF smok1] m1 by (simp add: poller_content_def)
  let ?t = "put_smon p (sm1\<lparr>sm_unsupported := h\<rparr>) s1"
  have d: "dom (kq_smons ?t) = dom (kq_smons s1)" using sm1(1) by auto
  have "\<exists>po. (if ?R = [] then Some ?t else if ?F = [] then gam_kqueue_poller_remove_sub_monitor unsupported_fmon_poller p ?t else Some ?t) =
      Some (unsupported_changed p sm1 h po s1) \<and> poller_ok s1 po \<and> same_poller p ?po po \<and> (p \<in> content (po_smons po) \<longleftrightarrow> ?F \<noteq> [])"
  proof (cases "?R \<noteq> [] \<and> ?F = []")
    case False
    have same: "unsupported_changed p sm1 h ?po s1 = ?t" by (simp add: put_smon_def)
    have "?F \<noteq> [] \<longleftrightarrow> ?M \<noteq> []"
    proof (cases "?R = []")
      case R: False
      then have F: "?F \<noteq> []" using False by blast
      then have "?M \<noteq> []" by auto
      then show ?thesis using F by blast
    qed simp
    then show ?thesis using False ok1 iff same by (intro exI [of _ ?po]) (auto simp del: filter_empty_conv)
  next
    case True
    have "poller_ok ?t (kq_pollers ?t unsupported_fmon_poller)" using ok1 unfolding poller_ok_dom [OF d] by simp
    from poller_remove_effect [OF this, of p] obtain po where po: "gam_kqueue_poller_remove_sub_monitor unsupported_fmon_poller p ?t =
        Some (unsupported_changed p sm1 h po s1)" "poller_ok ?t po" "same_poller p ?po po" "content (po_smons po) = content (po_smons ?po) - {p}"
      unfolding succeeds_def by auto
    show ?thesis using True po(1-3) po(4) unfolding poller_ok_dom [OF d] by (intro exI [of _ po]) (simp del: filter_empty_conv)
  qed
  then obtain po where po: "(if ?R = [] then Some ?t else if ?F = [] then gam_kqueue_poller_remove_sub_monitor unsupported_fmon_poller p ?t else Some ?t) =
      Some (unsupported_changed p sm1 h po s1)" "poller_ok s1 po" "same_poller p ?po po" "p \<in> content (po_smons po) \<longleftrightarrow> ?F \<noteq> []"
    by blast
  have "gam_kqueue_unsupported_fmon_poll en p s = apply_removals ?m (T_UNSUPPORTED p) (put_smon p (sm1\<lparr>sm_unsupported := ?u1\<lparr>ht_iterating := False\<rparr>\<rparr>) s1)"
  proof -
    have "ht_additions ?u1 = []" using t1 by (simp add: sub_table_ok_def)
    then show ?thesis using p it s1(1) sm1(1)
      by (simp add: gam_kqueue_unsupported_fmon_poll_def gam_kqueue_hash_table_foreach_def apply_additions_def put_smon_def)
  qed
  also have "\<dots> = (if ?R = [] then Some ?t else if ?F = [] then gam_kqueue_poller_remove_sub_monitor unsupported_fmon_poller p ?t else Some ?t)"
  proof (cases "?R = []")
    case True
    then have "?u1\<lparr>ht_iterating := False\<rparr> = h" using m1 t1 by (simp add: h_def sub_table_ok_def)
    then show ?thesis using True by (simp add: apply_removals_def h_def)
  next
    case False
    let ?t1 = "put_smon p (sm1\<lparr>sm_unsupported := ?u1\<lparr>ht_iterating := False\<rparr>\<rparr>) s1"
    have "ht_additions ?u1 = []" using t1 by (simp add: sub_table_ok_def)
    then have hh: "?u1\<lparr>ht_iterating := False, ht_main := ?F, ht_removals := []\<rparr> = h" using m1 by (simp add: h_def)
    have "upd_table (T_UNSUPPORTED p) (\<lambda>h. h\<lparr>ht_removals := []\<rparr>)
        (upd_table (T_UNSUPPORTED p) (\<lambda>h. h\<lparr>ht_main := filter (\<lambda>x. x \<notin> set ?R) (ht_main h)\<rparr>) ?t1) = ?t"
      using m1 hh by (simp add: put_smon_def)
    then show ?thesis using False
      by (simp add: apply_removals_def sub_monitor_unsupported_fmons_hash_table_methods_def each_default_remove H(1) post_def
          del: upd_table.simps filter_empty_conv)
  qed
  finally have run: "gam_kqueue_unsupported_fmon_poll en p s = Some (unsupported_changed p sm1 h po s1)" unfolding po(1) .
  let ?h0 = "\<lparr>ht_main = ?M, ht_iterating = False, ht_additions = [], ht_removals = []\<rparr>"
  let ?s2 = "put_smon p (sm1\<lparr>sm_unsupported := ?h0\<rparr>) s1"
  have "content ?h0 - set ?R = content ?u1 - set ?R" using t1 m1 by (auto simp: content_def sub_table_ok_def)
  then have Z: "content ?h0 - set ?R = content (sm_fmons sm1) \<inter> closed_fmons s1 - set ?R" using smon_okD(6) [OF smok1] by simp
  have "sub_table_ok ?h0" using t1 m1 by (simp add: sub_table_ok_def table_ok_def)
  with Z have i2: "kq_inv (none(p := set ?R)) ?s2" by (intro put_unsupported_marks [OF s1(2) sm1(1)]) (simp_all add: m1)
  have "kq_inv ((none(p := set ?R))(p := {})) (unsupported_changed p (sm1\<lparr>sm_unsupported := ?h0\<rparr>) h po ?s2) \<and>
      kframe p ?s2 (unsupported_changed p (sm1\<lparr>sm_unsupported := ?h0\<rparr>) h po ?s2)"
  proof (rule put_unsupported_inv [OF i2 _ H(4) _ _ _ _ _ _ refl])
    show "set (ht_main h) \<subseteq> {..<kq_next ?s2}" using smon_okD(5) [OF smok1] m1 H(1) by auto
    show "same_walk (sm_unsupported (sm1\<lparr>sm_unsupported := ?h0\<rparr>)) h" using H(2) by (simp add: same_walk_def)
    have cl: "closed_fmons ?s2 = closed_fmons s1" by (simp add: closed_fmons_def)
    show "content h - {} = content (sm_fmons (sm1\<lparr>sm_unsupported := ?h0\<rparr>)) \<inter> closed_fmons ?s2 - {}"
      using smon_okD(6) [OF smok1] by (simp add: H(3) cl)
    have d2: "dom (kq_smons ?s2) = dom (kq_smons s1)" using sm1(1) by auto
    show "poller_ok ?s2 po" using po(2) unfolding poller_ok_dom [OF d2] .
    show "same_poller p (kq_pollers ?s2 unsupported_fmon_poller) po" using po(3) by simp
    show "p \<in> content (po_smons po) \<longleftrightarrow> ht_main h \<noteq> []" using po(4) H(1) by simp
  qed simp
  moreover have "unsupported_changed p (sm1\<lparr>sm_unsupported := ?h0\<rparr>) h po ?s2 = unsupported_changed p sm1 h po s1" by (simp add: put_smon_def)
  moreover have "(none(p := set ?R))(p := {}) = none" by auto
  ultimately have "kq_inv none (unsupported_changed p sm1 h po s1)" by simp
  then show ?thesis using run fstep_unmark [OF s1(3) p it H(2) sm1(1) po(3)] by simp
qed

end
