(* ===== verification/Gam_Kqueue_Timers.thy ===== *)
theory Gam_Kqueue_Timers
  imports Gam_Kqueue_Fpoll
begin

unbundle bit_operations_syntax

text \<open>
  The timers of the three pollers: polling a missing monitor, a directory that cannot be watched, and the files of a
  directory, and the loop over the table of a poller.
\<close>

section \<open>Polling the monitors of subscriptions\<close>

lemma missing_poll_ok:
  assumes en: "good_kenv en" and ok: "kq_ok K s" and K: "unsupported_fmon_poller \<notin> K" "unsupported_smon_poller \<notin> K"
    and m: "p \<in> poller_content s missing_smon_poller" and p: "kq_smons s p = Some sm"
  shows "succeeds (gam_kqueue_missing_smon_poll en p s) (\<lambda>s'. kq_ok K s' \<and> kframe p s s' \<and>
    (ke_lstat en (kq_tick s) (mo_pathname sm) \<noteq> None \<longrightarrow> p \<notin> poller_content s' missing_smon_poller))"
proof -
  note inv = kq_okD(1) [OF ok] and w = kq_okD(2) [OF ok]
  have miss: "is_missing s p" using watched_missing [OF kq_okD(4) [OF ok p]] m by simp
  let ?s1 = "s\<lparr>kq_tick := Suc (kq_tick s)\<rparr>"
  have i1: "kq_inv none ?s1" and p1: "kq_smons ?s1 p = Some sm" using inv p by simp_all
  have fr1: "kframe p s ?s1" using kframe_refl [OF p] by simp
  show ?thesis
  proof (cases "ke_lstat en (kq_tick s) (mo_pathname sm)")
    case None
    have "watched ?s1 p" using miss by (simp add: watched_def is_missing_def)
    then show ?thesis using p None kq_ok_step [OF ok i1 fr1] fr1 by (simp add: gam_kqueue_missing_smon_poll_def kq_lstat_def)
  next
    case (Some sb)
    let ?d = "mode_isdir (ks_mode sb)"
    let ?fl = "SUB_MONITOR_WAS_MISSING OR dir_flag ?d"
    obtain s2 po where s2: "gam_kqueue_poller_remove_sub_monitor missing_smon_poller p ?s1 = Some s2" "s2 = set_poller missing_smon_poller po ?s1"
        "kq_inv none s2" "kframe p ?s1 s2" "content (po_smons po) = content (po_smons (kq_pollers ?s1 missing_smon_poller)) - {p}"
      using poller_remove_inv [OF i1 p1, of missing_smon_poller] unfolding succeeds_def by blast
    have fr2: "kframe p s s2" by (rule kframe_trans [OF fr1 s2(4)])
    have p2: "kq_smons s2 p = Some sm" using p by (simp add: s2(2))
    have st2: "still p s2" using still_frame [OF fr2] walked_still [OF w K(1) p] by simp
    have neg: "mo_fd sm < 0" "content (sm_fmons sm) = {}" using miss p by (simp_all add: is_missing_def)
    have ent: "dir_names s2 p = {}" using p2 neg(2) by (simp add: dir_names_def)
    have out: "p \<notin> poller_content s2 missing_smon_poller" using s2(5) by (simp add: s2(2) poller_content_def)
    have ru: "p \<notin> set (ht_removals (po_smons (kq_pollers s2 unsupported_smon_poller)))" using no_removals [OF inv w K(2)] by (simp add: s2(2))
    have fl: "has_flag ?fl MONITOR_ISDIR = ?d" "has_flag ?fl MONITOR_ISNOTDIR = (\<not> ?d)" by simp_all
    have "gam_kqueue_missing_smon_poll en p s = gam_kqueue_sub_monitor_enable_notification en p ?fl s2"
      using p Some s2(1) by (simp add: gam_kqueue_missing_smon_poll_def kq_lstat_def)
    moreover have "succeeds (gam_kqueue_sub_monitor_enable_notification en p ?fl s2) (\<lambda>s'. kq_inv none s' \<and> kframe p s2 s' \<and> watched s' p \<and>
        p \<notin> poller_content s' missing_smon_poller)"
      unfolding gam_kqueue_sub_monitor_enable_notification_def
      using p2 notify_exists_ok [OF en s2(3) st2 p2 neg(1) ent out ru fl, of True, unfolded found_simps]
      by (auto elim!: succeeds_mono)
    ultimately show ?thesis using kq_ok_step [OF ok] kframe_trans [OF fr2] by (auto elim!: succeeds_mono)
  qed
qed

lemma unsupported_poll_ok:
  assumes en: "good_kenv en" and ok: "kq_ok K s" and K: "unsupported_fmon_poller \<notin> K" "missing_smon_poller \<notin> K"
    and u: "p \<in> poller_content s unsupported_smon_poller" and p: "kq_smons s p = Some sm"
    and safe: "mo_fd sm < 0 \<or> mo_poll_count sm + 1 \<noteq> CFG_UNSUPPORTED_SMON_KQUEUE_RETRY_FREQUENCY"
  shows "succeeds (gam_kqueue_unsupported_smon_poll en p s) (\<lambda>s'. kq_ok K s' \<and> kframe p s s')"
proof -
  note inv = kq_okD(1) [OF ok] and w = kq_okD(2) [OF ok]
  have fresh: "fresh_fds en" using en by (simp add: good_kenv_def)
  have out: "p \<notin> poller_content s missing_smon_poller"
    using watched_missing [OF kq_okD(4) [OF ok p]] u by (auto simp: is_missing_def)
  let ?sm0 = "sm\<lparr>mo_poll_count := mo_poll_count sm + 1\<rparr>"
  have "\<exists>s1 sm1. (if mo_poll_count ?sm0 = CFG_UNSUPPORTED_SMON_KQUEUE_RETRY_FREQUENCY then
        (let (ok, sm1, s1) = gam_kqueue_monitor_enable_kqueue en p (?sm0\<lparr>mo_poll_count := 0\<rparr>) s; s2 = put_smon p sm1 s1
         in if ok then gam_kqueue_poller_remove_sub_monitor missing_smon_poller p s2 else Some s2)
      else Some (put_smon p ?sm0 s)) = Some s1 \<and> kq_inv none s1 \<and> kframe p s s1 \<and> kq_smons s1 p = Some sm1 \<and>
      p \<notin> poller_content s1 missing_smon_poller \<and> poller_content s1 unsupported_smon_poller = poller_content s unsupported_smon_poller"
  proof (cases "mo_poll_count ?sm0 = CFG_UNSUPPORTED_SMON_KQUEUE_RETRY_FREQUENCY")
    case False
    have "kq_inv none (put_smon p ?sm0 s) \<and> kframe p s (put_smon p ?sm0 s)"
    proof (rule put_smon_inv [OF inv p, where sm' = ?sm0])
      have "mon_fd (put_smon p ?sm0 s) = mon_fd s"
        using mon_fd_smon [of "put_smon p ?sm0 s" s p ?sm0] mon_fd_Some(1) [OF p] by (simp add: fun_upd_idem)
      then show "fds_ok (put_smon p ?sm0 s)" by (intro fds_same [OF kq_invD(2) [OF inv]]) simp_all
    qed (simp_all add: same_rest_def same_sv_def)
    then show ?thesis unfolding if_not_P [OF False] using out by (intro exI [of _ "put_smon p ?sm0 s"] exI [of _ ?sm0]) simp
  next
    case True
    let ?smz = "?sm0\<lparr>mo_poll_count := 0\<rparr>"
    obtain r sm1 s1 where e: "gam_kqueue_monitor_enable_kqueue en p ?smz s = (r, sm1, s1)" by (cases "gam_kqueue_monitor_enable_kqueue en p ?smz s")
    have z: "sm_fmons ?smz = sm_fmons sm" "sm_unsupported ?smz = sm_unsupported sm" "sm_subs ?smz = sm_subs sm" "mo_pathname ?smz = mo_pathname sm"
      "sm_isdir ?smz = sm_isdir sm" "mo_fd ?smz < 0" using safe True by simp_all
    have neg: "mo_fd sm < 0" using safe True by simp
    have E: "kq_inv none (put_smon p sm1 s1)" "kframe p s (put_smon p sm1 s1)" "kq_pollers s1 = kq_pollers s"
      using smon_enable_effect [OF fresh inv p neg z e] by blast+
    have p1: "kq_smons (put_smon p sm1 s1) p = Some sm1" by simp
    show ?thesis
    proof (cases r)
      case r: False
      show ?thesis unfolding if_P [OF True] e using r E out by (intro exI [of _ "put_smon p sm1 s1"] exI [of _ sm1]) (simp add: poller_content_def)
    next
      case r: True
      obtain s2 po where s2: "gam_kqueue_poller_remove_sub_monitor missing_smon_poller p (put_smon p sm1 s1) = Some s2"
          "s2 = set_poller missing_smon_poller po (put_smon p sm1 s1)" "kq_inv none s2" "kframe p (put_smon p sm1 s1) s2"
          "content (po_smons po) = content (po_smons (kq_pollers (put_smon p sm1 s1) missing_smon_poller)) - {p}"
        using poller_remove_inv [OF E(1) p1, of missing_smon_poller] unfolding succeeds_def by blast
      have "p \<notin> poller_content s2 missing_smon_poller" "poller_content s2 unsupported_smon_poller = poller_content s unsupported_smon_poller"
        "kq_smons s2 p = Some sm1" using s2(5) E(3) by (simp_all add: s2(2) poller_content_def)
      then show ?thesis unfolding if_P [OF True] e using r s2(1,3) kframe_trans [OF E(2) s2(4)]
        by (intro exI [of _ s2] exI [of _ sm1]) simp
    qed
  qed
  then obtain s1 sm1 where s1: "(if mo_poll_count ?sm0 = CFG_UNSUPPORTED_SMON_KQUEUE_RETRY_FREQUENCY then
        (let (ok, sm1, s1) = gam_kqueue_monitor_enable_kqueue en p (?sm0\<lparr>mo_poll_count := 0\<rparr>) s; s2 = put_smon p sm1 s1
         in if ok then gam_kqueue_poller_remove_sub_monitor missing_smon_poller p s2 else Some s2)
      else Some (put_smon p ?sm0 s)) = Some s1" "kq_inv none s1" "kframe p s s1" "kq_smons s1 p = Some sm1"
      "p \<notin> poller_content s1 missing_smon_poller" "poller_content s1 unsupported_smon_poller = poller_content s unsupported_smon_poller"
    by blast
  obtain t sb where e: "gam_kqueue_mini_lstat en (mo_pathname sm1) s1 = (sb, s1\<lparr>kq_tick := t\<rparr>)" by (rule mini_lstat_effect)
  let ?s2 = "s1\<lparr>kq_tick := t\<rparr>" and ?sm2 = "sm1\<lparr>mo_sb := sb\<rparr>" and ?fl = "dir_flag (mode_isdir (ms_mode sb))"
  let ?s3 = "put_smon p ?sm2 ?s2"
  have run: "gam_kqueue_unsupported_smon_poll en p s =
      (case smon_poll_event sb (mo_sb sm1) of None \<Rightarrow> Some ?s2 | Some event \<Rightarrow> gam_kqueue_sub_monitor_emit_event en p event ?fl ?s3)"
    unfolding gam_kqueue_unsupported_smon_poll_def p Option.bind.simps Let_def s1(1) [unfolded Let_def] s1(4) e prod.case ..
  have i2: "kq_inv none ?s2" and p2: "kq_smons ?s2 p = Some sm1" using s1(2,4) by simp_all
  have fr2: "kframe p s ?s2" using s1(3) by simp
  have wa: "watched s' p" if "kq_smons s' p \<noteq> None" "\<And>k. k \<noteq> unsupported_fmon_poller \<Longrightarrow> poller_content s' k = poller_content s1 k" for s'
    using that s1(5,6) u by (auto simp: watched_def)
  have "kq_inv none ?s3 \<and> kframe p ?s2 ?s3"
  proof (rule put_smon_inv [OF i2 p2, where sm' = ?sm2])
    have "mon_fd ?s3 = mon_fd ?s2" using mon_fd_smon [of ?s3 ?s2 p ?sm2] mon_fd_Some(1) [OF p2] by (simp add: fun_upd_idem)
    then show "fds_ok ?s3" by (intro fds_same [OF kq_invD(2) [OF i2]]) simp_all
  qed (simp_all add: same_rest_def same_sv_def)
  then have i3: "kq_inv none ?s3" and fr3: "kframe p s ?s3" using kframe_trans [OF fr2] by blast+
  have p3: "kq_smons ?s3 p = Some ?sm2" by simp
  have st3: "still p ?s3" using still_frame [OF fr3] walked_still [OF w K(1) p] by simp
  have step: "kq_ok K s' \<and> kframe p s s'" if "kq_inv none s'" "kframe p s s'" "watched s' p" for s'
    using kq_ok_step [OF ok that] that(2) by simp
  show ?thesis
  proof (cases rule: smon_poll_event_cases [of sb "mo_sb sm1"])
    case 1
    have "watched ?s2 p" by (rule wa) (use s1(4) in simp_all)
    then show ?thesis using run 1 step [OF i2 fr2] by simp
  next
    case 2
    have "p \<notin> set (ht_removals (po_smons (kq_pollers ?s3 missing_smon_poller)))"
    proof -
      have "walked K ?s3" using walked_kframe [OF fr3] w by simp
      then show ?thesis using no_removals [OF i3 _ K(2)] by simp
    qed
    from smon_emit_gone [OF i3 st3 p3 this, of GAMIN_EVENT_DELETED en ?fl] obtain s4 where s4:
        "gam_kqueue_sub_monitor_emit_event en p GAMIN_EVENT_DELETED ?fl ?s3 = Some s4" "kq_inv none s4" "kframe p ?s3 s4" "is_missing s4 p"
      unfolding succeeds_def by blast
    have "watched s4 p" using s4(4) by (simp add: watched_def)
    then show ?thesis using run 2 s4(1) step [OF s4(2) kframe_trans [OF fr3 s4(3)]] by simp
  next
    case 3
    have "\<exists>s4. gam_kqueue_sub_monitor_emit_event en p GAMIN_EVENT_CHANGED ?fl ?s3 = Some s4 \<and> kq_inv none s4 \<and> fstep p ?s3 s4"
    proof (cases "sm_isdir ?sm2")
      case True
      then show ?thesis using smon_emit_change [OF en i3 st3 p3 True, of ?fl] unfolding succeeds_def by blast
    next
      case False
      have c: "GAMIN_EVENT_CHANGED \<noteq> GAMIN_EVENT_DELETED" "GAMIN_EVENT_CHANGED \<noteq> GAMIN_EVENT_MOVED" by simp_all
      obtain s4 where "gam_kqueue_sub_monitor_emit_event en p GAMIN_EVENT_CHANGED ?fl ?s3 = Some s4" "same_kq ?s3 s4"
        using smon_emit_plain [OF i3 p3 c False, of en ?fl] unfolding succeeds_def by blast
      then show ?thesis using kq_inv_same [OF _ i3] fstep_same [OF _ p3] by blast
    qed
    then obtain s4 where s4: "gam_kqueue_sub_monitor_emit_event en p GAMIN_EVENT_CHANGED ?fl ?s3 = Some s4" "kq_inv none s4" "fstep p ?s3 s4"
      by blast
    have po: "poller_content s4 k = poller_content s1 k" if "k \<noteq> unsupported_fmon_poller" for k
      using s4(3) that by (simp add: fstep_def poller_content_def)
    obtain sm4 where "kq_smons s4 p = Some sm4" by (rule fstep_smon [OF s4(3) p3])
    then have "watched s4 p" by (intro wa) (simp_all add: po)
    then show ?thesis using run 3 s4(1) step [OF s4(2) kframe_trans [OF fr3 fstep_frame [OF s4(3)]]] by simp
  qed
qed


lemma files_poll_ok:
  assumes en: "good_kenv en" and ok: "kq_ok K s" and m: "p \<in> poller_content s unsupported_fmon_poller" and p: "kq_smons s p = Some sm"
  shows "succeeds (gam_kqueue_unsupported_fmon_poll en p s) (\<lambda>s'. kq_ok K s' \<and> kframe p s s')"
proof -
  note inv = kq_okD(1) [OF ok]
  note smok = kq_invD(4) [OF inv p]
  have it: "\<not> ht_iterating (sm_unsupported sm)" using kq_okD(2) [OF ok] p by (auto simp: walked_def)
  have "ht_main (sm_unsupported sm) \<noteq> []" using smon_okD(7) [OF smok] m by simp
  moreover have "content (sm_unsupported sm) = set (ht_main (sm_unsupported sm))"
    using smon_okD(2) [OF smok] it by (simp add: content_sub_table sub_table_ok_def table_ok_def)
  ultimately have "content (sm_fmons sm) \<noteq> {}" using smon_okD(6) [OF smok] by auto
  then have out: "p \<notin> poller_content s missing_smon_poller"
    using watched_missing [OF kq_okD(4) [OF ok p]] p by (auto simp: is_missing_def)
  from unsupported_fmon_poll_ok [OF en inv p it] show ?thesis
    by (rule succeeds_mono)
       (use kq_ok_step [OF ok] fstep_watched(1) [OF _ kq_okD(4) [OF ok p] out] fstep_frame in blast)
qed

section \<open>The timers\<close>

definition add_all :: "cptr list \<Rightarrow> cptr list \<Rightarrow> cptr list" where
  "add_all A M = foldl (\<lambda>M x. if x \<in> set M then M else M @ [x]) M A"

lemma add_all_ok: "set (add_all A M) = set M \<union> set A" "distinct M \<Longrightarrow> distinct (add_all A M)"
  by (induction A arbitrary: M) (auto simp: add_all_def)

lemma each_default_add:
  "table_each (gam_kqueue_hash_table_default_add_cb t) A s = Some (upd_table t (\<lambda>h. h\<lparr>ht_main := add_all A (ht_main h)\<rparr>) s)"
proof (induction A arbitrary: s)
  case Nil
  have "upd_table t (\<lambda>h. h) s = s" by (cases t) (simp_all add: option.map_ident fun_upd_idem)
  then show ?case by (simp add: add_all_def)
next
  case (Cons x A)
  have e: "add_all A (if x \<in> set M then M else M @ [x]) = add_all (x # A) M" for M by (simp add: add_all_def)
  show ?case by (simp only: table_each.simps gam_kqueue_hash_table_default_add_cb_def Option.bind.simps
        Cons.IH [unfolded gam_kqueue_hash_table_default_add_cb_def] upd_table_comp) (simp add: e del: upd_table.simps)
qed

text \<open>The end of a walk: the changes that waited are made, and the timer runs exactly when the poller has monitors.\<close>

definition settled :: "Poller \<Rightarrow> Poller" where
  "settled po =
     (let h = po_smons po; M = filter (\<lambda>x. x \<notin> set (ht_removals h)) (add_all (ht_additions h) (ht_main h))
      in po\<lparr>po_smons := h\<lparr>ht_main := M, ht_iterating := False, ht_additions := [], ht_removals := []\<rparr>,
            po_timeout := (if M = [] then None else Some (po_interval po))\<rparr>)"

lemma settled_ok:
  assumes "poller_ok s po"
  shows "poller_ok s (settled po)" "content (po_smons (settled po)) = content (po_smons po)" "\<not> ht_iterating (po_smons (settled po))"
  using assms by (auto simp: settled_def poller_ok_def table_ok_def content_def add_all_ok Let_def)

lemma additions_effect:
  assumes ok: "poller_ok s (kq_pollers s k)" and s': "s' = upd_table (T_SMONS k) (\<lambda>h. h\<lparr>ht_iterating := False\<rparr>) s"
  obtains po where "apply_additions poller_hash_table_methods (T_SMONS k) s' = Some (set_poller k po s)"
    "po_smons po = (po_smons (kq_pollers s k))\<lparr>ht_iterating := False, ht_additions := [],
       ht_main := add_all (ht_additions (po_smons (kq_pollers s k))) (ht_main (po_smons (kq_pollers s k)))\<rparr>"
    "po_interval po = po_interval (kq_pollers s k)" "po_timeout po = (if ht_main (po_smons po) = [] then None else Some (po_interval po))"
proof -
  let ?po = "kq_pollers s k" and ?h = "po_smons (kq_pollers s k)"
  let ?A = "ht_additions ?h" and ?M = "ht_main ?h"
  have tm: "po_timeout ?po = (if ?M = [] then None else Some (po_interval ?po))" using ok by (simp add: poller_ok_def)
  show thesis
  proof (cases "?A = []")
    case True
    show thesis
      by (rule that [of "?po\<lparr>po_smons := ?h\<lparr>ht_iterating := False\<rparr>\<rparr>"])
         (use True tm in \<open>simp_all add: s' apply_additions_def add_all_def\<close>)
  next
    case False
    have ne: "add_all ?A ?M \<noteq> []" using False add_all_ok(1) [of ?A ?M] by (cases "add_all ?A ?M") auto
    let ?po2 = "?po\<lparr>po_smons := ?h\<lparr>ht_iterating := False, ht_main := add_all ?A ?M, ht_additions := []\<rparr>\<rparr>"
    have run: "apply_additions poller_hash_table_methods (T_SMONS k) s' =
        Some (if po_timeout ?po = None then set_poller k (?po2\<lparr>po_timeout := Some (po_interval ?po)\<rparr>) s else set_poller k ?po2 s)"
      using False by (simp add: s' apply_additions_def poller_hash_table_methods_def each_default_add post_def)
    show thesis
    proof (cases "po_timeout ?po = None")
      case True
      show thesis by (rule that [OF run [unfolded if_P [OF True]]]) (use ne in simp_all)
    next
      case t: False
      show thesis by (rule that [OF run [unfolded if_not_P [OF t]]]) (use ne t tm in \<open>simp_all split: if_splits\<close>)
    qed
  qed
qed

lemma removals_effect:
  assumes tm: "po_timeout (kq_pollers s k) =
      (if ht_main (po_smons (kq_pollers s k)) = [] then None else Some (po_interval (kq_pollers s k)))"
  obtains po where "apply_removals poller_hash_table_methods (T_SMONS k) s = Some (set_poller k po s)"
    "po_smons po = (po_smons (kq_pollers s k))\<lparr>ht_removals := [],
       ht_main := filter (\<lambda>x. x \<notin> set (ht_removals (po_smons (kq_pollers s k)))) (ht_main (po_smons (kq_pollers s k)))\<rparr>"
    "po_interval po = po_interval (kq_pollers s k)" "po_timeout po = (if ht_main (po_smons po) = [] then None else Some (po_interval po))"
proof -
  let ?po = "kq_pollers s k" and ?h = "po_smons (kq_pollers s k)"
  let ?F = "filter (\<lambda>x. x \<notin> set (ht_removals ?h)) (ht_main ?h)"
  show thesis
  proof (cases "ht_removals ?h = []")
    case True
    show thesis by (rule that [of ?po]) (use True tm in \<open>simp_all add: apply_removals_def\<close>)
  next
    case False
    let ?po2 = "?po\<lparr>po_smons := ?h\<lparr>ht_main := ?F, ht_removals := []\<rparr>\<rparr>"
    have run: "apply_removals poller_hash_table_methods (T_SMONS k) s =
        Some (if ?F = [] \<and> po_timeout ?po \<noteq> None then set_poller k (?po2\<lparr>po_timeout := None\<rparr>) s else set_poller k ?po2 s)"
      using False by (cases "po_timeout ?po")
        (simp_all add: apply_removals_def poller_hash_table_methods_def each_default_remove post_def del: filter_empty_conv)
    show thesis
    proof (cases "?F = [] \<and> po_timeout ?po \<noteq> None")
      case True
      show thesis by (rule that [OF run [unfolded if_P [OF True]]]) (use True in \<open>simp_all del: filter_empty_conv\<close>)
    next
      case t: False
      have "po_timeout ?po = (if ?F = [] then None else Some (po_interval ?po))"
      proof (cases "ht_main ?h = []")
        case False
        then have "?F \<noteq> []" using t tm by (simp del: filter_empty_conv)
        then show ?thesis using tm False by (simp del: filter_empty_conv)
      qed (use tm in simp)
      then show thesis by (intro that [OF run [unfolded if_not_P [OF t]]]) (simp_all del: filter_empty_conv)
    qed
  qed
qed

lemma walk_end:
  assumes ok: "poller_ok s (kq_pollers s k)"
  shows "Option.bind (apply_additions poller_hash_table_methods (T_SMONS k) (upd_table (T_SMONS k) (\<lambda>h. h\<lparr>ht_iterating := False\<rparr>) s))
      (apply_removals poller_hash_table_methods (T_SMONS k)) = Some (set_poller k (settled (kq_pollers s k)) s)"
proof -
  let ?po = "kq_pollers s k" and ?h = "po_smons (kq_pollers s k)"
  obtain po1 where po1: "apply_additions poller_hash_table_methods (T_SMONS k) (upd_table (T_SMONS k) (\<lambda>h. h\<lparr>ht_iterating := False\<rparr>) s) =
        Some (set_poller k po1 s)"
      "po_smons po1 = ?h\<lparr>ht_iterating := False, ht_additions := [], ht_main := add_all (ht_additions ?h) (ht_main ?h)\<rparr>"
      "po_interval po1 = po_interval ?po" "po_timeout po1 = (if ht_main (po_smons po1) = [] then None else Some (po_interval po1))"
    by (rule additions_effect [OF ok refl])
  define s1 where "s1 = set_poller k po1 s"
  have k1: "kq_pollers s1 k = po1" by (simp add: s1_def)
  from removals_effect [of s1 k, unfolded k1, OF po1(4)] obtain po2 where po2:
      "apply_removals poller_hash_table_methods (T_SMONS k) s1 = Some (set_poller k po2 s1)"
      "po_smons po2 = (po_smons po1)\<lparr>ht_removals := [], ht_main := filter (\<lambda>x. x \<notin> set (ht_removals (po_smons po1))) (ht_main (po_smons po1))\<rparr>"
      "po_interval po2 = po_interval po1" "po_timeout po2 = (if ht_main (po_smons po2) = [] then None else Some (po_interval po2))"
    by blast
  have "po2 = settled ?po"
    by (rule Poller.equality) (use po1(2,3) po2(2-4) in \<open>simp_all add: settled_def Let_def del: filter_empty_conv\<close>)
  then show ?thesis using po1(1) po2(1) by (simp add: s1_def)
qed

lemma set_poller_marks:
  assumes ok: "kq_ok K s" and po: "poller_ok s po" "content (po_smons po) = content (po_smons (kq_pollers s k))"
  shows "kq_ok (if ht_iterating (po_smons po) then insert k K else K - {k}) (set_poller k po s)"
proof -
  let ?s' = "set_poller k po s"
  note inv = kq_okD(1) [OF ok]
  have c: "poller_content ?s' = poller_content s" using po(2) by (auto simp: poller_content_def fun_eq_iff)
  have [simp]: "fmon_name ?s' = fmon_name s" "closed_fmons ?s' = closed_fmons s" "owned_by ?s' = owned_by s"
    by (simp_all add: fmon_name_def closed_fmons_def owned_by_def fun_eq_iff)
  have h: "smon_hash ?s' = smon_hash s" by (simp add: smon_hash_def fun_eq_iff)
  have "heap_ok ?s'" using kq_invD(1) [OF inv] by (simp add: heap_ok_def)
  moreover have "fds_ok ?s'" by (rule fds_same [OF kq_invD(2) [OF inv]]) simp_all
  moreover have "poller_ok ?s' (kq_pollers ?s' j)" for j using po(1) kq_invD(3) [OF inv, of j] by (simp add: poller_ok_def)
  moreover have "smon_ok {} ?s' p sm" if "kq_smons ?s' p = Some sm" for p sm
    using kq_invD(4) [OF inv, of p sm] that by (simp add: smon_ok_def c)
  ultimately have "kq_inv none ?s'" by (simp add: kq_inv_def)
  moreover have "walked (if ht_iterating (po_smons po) then insert k K else K - {k}) ?s'"
    using kq_okD(2) [OF ok] by (auto simp: walked_def)
  moreover have "hashes_ok ?s'" using kq_okD(3) [OF ok] by (simp add: hashes_ok_def h)
  moreover have "watched ?s' p" if "p \<in> dom (kq_smons ?s')" for p
    using ok that by (auto simp: kq_ok_def watched_def is_missing_def c)
  ultimately show ?thesis by (simp add: kq_ok_def)
qed

lemma poller_loop:
  assumes step: "\<And>p s sm. kq_ok {k} s \<Longrightarrow> kq_smons s p = Some sm \<Longrightarrow> Pre s p \<Longrightarrow>
      succeeds (f p s) (\<lambda>s'. kq_ok {k} s' \<and> kframe p s s' \<and> Post s' p)"
    and keep: "\<And>p r s s'. kframe r s s' \<Longrightarrow> p \<noteq> r \<Longrightarrow> Pre s p \<Longrightarrow> Pre s' p"
    and keep': "\<And>p r s s'. kframe r s s' \<Longrightarrow> p \<noteq> r \<Longrightarrow> Post s p \<Longrightarrow> Post s' p"
  shows "kq_ok {k} s \<Longrightarrow> ht_main (po_smons (kq_pollers s k)) = M \<Longrightarrow> distinct xs \<Longrightarrow> set xs \<subseteq> dom (kq_smons s) \<Longrightarrow> \<forall>p \<in> set xs. Pre s p \<Longrightarrow>
    succeeds (table_foreach (T_SMONS k) M f xs s) (\<lambda>s'. kq_ok {k} s' \<and> (\<forall>p. p \<in> set xs \<or> p \<in> D \<and> Post s p \<longrightarrow> Post s' p))"
proof (induction xs arbitrary: s D)
  case (Cons x xs)
  obtain sm where p: "kq_smons s x = Some sm" using Cons.prems(4) by auto
  obtain s1 where s1: "f x s = Some s1" "kq_ok {k} s1" "kframe x s s1" "Post s1 x"
    using step [OF Cons.prems(1) p] Cons.prems(5) unfolding succeeds_def by auto
  have "ht_iterating (po_smons (kq_pollers s k))" using kq_okD(2) [OF Cons.prems(1)] by (simp add: walked_def)
  then have main: "ht_main (po_smons (kq_pollers s1 k)) = M"
    using kframeD(7) [OF s1(3), of k] Cons.prems(2) by (simp add: same_poller_def same_walk_def)
  have pre: "\<forall>p \<in> set xs. Pre s1 p"
  proof
    fix p assume "p \<in> set xs"
    then have "p \<noteq> x" "Pre s p" using Cons.prems(3,5) by auto
    then show "Pre s1 p" by (rule keep [OF s1(3)])
  qed
  have xs: "distinct xs" "set xs \<subseteq> dom (kq_smons s1)" using Cons.prems(3,4) kframeD(8) [OF s1(3)] by auto
  from Cons.IH [OF s1(2) main xs pre, of "insert x D"] obtain s2 where s2: "table_foreach (T_SMONS k) M f xs s1 = Some s2" "kq_ok {k} s2"
      "\<forall>p. p \<in> set xs \<or> p \<in> insert x D \<and> Post s1 p \<longrightarrow> Post s2 p"
    unfolding succeeds_def by blast
  have "Post s2 p" if "p \<in> set (x # xs) \<or> p \<in> D \<and> Post s p" for p
  proof (cases "p = x")
    case True
    then show ?thesis using s2(3) s1(4) by simp
  next
    case False
    then show ?thesis using s2(3) that keep' [OF s1(3) False] by auto
  qed
  then show ?case using s1(1) s2(1,2) main by simp
qed simp

text \<open>The timer of a poller: every monitor that the poller has is polled, and the timer goes on if there are monitors left.\<close>

lemma timeout_ok:
  assumes en: "good_kenv en" and ok: "kq_ok {} s"
    and step: "\<And>p s sm. kq_ok {k} s \<Longrightarrow> kq_smons s p = Some sm \<Longrightarrow> Pre s p \<Longrightarrow>
      succeeds (f p s) (\<lambda>s'. kq_ok {k} s' \<and> kframe p s s' \<and> Post s' p)"
    and keep: "\<And>p r s s'. kframe r s s' \<Longrightarrow> p \<noteq> r \<Longrightarrow> Pre s p \<Longrightarrow> Pre s' p"
    and keep': "\<And>p r s s'. kframe r s s' \<Longrightarrow> p \<noteq> r \<Longrightarrow> Post s p \<Longrightarrow> Post s' p"
    and post: "\<And>p s s'. Post s p \<Longrightarrow> kq_smons s' = kq_smons s \<Longrightarrow> poller_content s' = poller_content s \<Longrightarrow> Post s' p"
    and pre: "\<And>p s'. p \<in> poller_content s k \<Longrightarrow> kq_smons s' = kq_smons s \<Longrightarrow> poller_content s' = poller_content s \<Longrightarrow> Pre s' p"
  shows "succeeds (gam_kqueue_poller_timeout_cb en k f s) (\<lambda>(again, s'). again \<and> kq_ok {} s' \<and> (\<forall>p \<in> poller_content s k. Post s' p))"
proof -
  let ?po = "kq_pollers s k" and ?h = "po_smons (kq_pollers s k)"
  let ?po0 = "?po\<lparr>po_smons := ?h\<lparr>ht_iterating := True\<rparr>\<rparr>"
  let ?s0 = "set_poller k ?po0 s"
  have ord: "good_order en" using en by (simp add: good_kenv_def)
  note inv = kq_okD(1) [OF ok]
  note pok = kq_invD(3) [OF inv, of k]
  have it: "\<not> ht_iterating ?h" using kq_okD(2) [OF ok] by (simp add: walked_def)
  have "poller_ok s ?po0" using pok by (auto simp: poller_ok_def table_ok_def)
  then have ok0: "kq_ok {k} ?s0" using set_poller_marks [OF ok, of ?po0 k] by (simp add: content_def)
  have c: "content ?h = set (ht_main ?h)" using pok it by (auto simp: poller_ok_def table_ok_def content_def)
  have "poller_content ?s0 = poller_content s" by (auto simp: poller_content_def content_def fun_eq_iff)
  then have Pre: "\<forall>p \<in> set (ke_order en (ht_main ?h)). Pre ?s0 p"
    using pre c good_order_simps(1) [OF ord] by (simp add: poller_content_def)
  have xs: "distinct (ke_order en (ht_main ?h))" "set (ke_order en (ht_main ?h)) \<subseteq> dom (kq_smons ?s0)"
    using pok good_order_simps [OF ord, of "ht_main ?h"] by (auto simp: poller_ok_def table_ok_def)
  have main: "ht_main (po_smons (kq_pollers ?s0 k)) = ht_main ?h" by simp
  have "succeeds (table_foreach (T_SMONS k) (ht_main ?h) f (ke_order en (ht_main ?h)) ?s0)
    (\<lambda>s'. kq_ok {k} s' \<and> (\<forall>p. p \<in> set (ke_order en (ht_main ?h)) \<or> p \<in> {} \<and> Post ?s0 p \<longrightarrow> Post s' p))"
  proof (rule poller_loop [where Pre = Pre and Post = Post])
    show "succeeds (f p t) (\<lambda>t'. kq_ok {k} t' \<and> kframe p t t' \<and> Post t' p)" if "kq_ok {k} t" "kq_smons t p = Some sm" "Pre t p" for p t sm
      by (rule step [OF that])
    show "Pre t' p" if "kframe r t t'" "p \<noteq> r" "Pre t p" for p r t t' by (rule keep [OF that])
    show "Post t' p" if "kframe r t t'" "p \<noteq> r" "Post t p" for p r t t' by (rule keep' [OF that])
  qed (rule ok0 main xs Pre)+
  then obtain s1 where s1: "table_foreach (T_SMONS k) (ht_main ?h) f (ke_order en (ht_main ?h)) ?s0 = Some s1" "kq_ok {k} s1"
      "\<forall>p \<in> poller_content s k. Post s1 p"
    using c good_order_simps(1) [OF ord, of "ht_main ?h"] unfolding succeeds_def poller_content_def by blast
  note pok1 = kq_invD(3) [OF kq_okD(1) [OF s1(2)], of k]
  have "gam_kqueue_hash_table_foreach en poller_hash_table_methods (T_SMONS k) f s = Some (set_poller k (settled (kq_pollers s1 k)) s1)"
  proof -
    have "gam_kqueue_hash_table_foreach en poller_hash_table_methods (T_SMONS k) f s =
        Option.bind (apply_additions poller_hash_table_methods (T_SMONS k) (upd_table (T_SMONS k) (\<lambda>h. h\<lparr>ht_iterating := False\<rparr>) s1))
          (apply_removals poller_hash_table_methods (T_SMONS k))"
      using it s1(1) by (simp add: gam_kqueue_hash_table_foreach_def)
    then show ?thesis unfolding walk_end [OF pok1] .
  qed
  moreover have "kq_ok {} (set_poller k (settled (kq_pollers s1 k)) s1)"
    using set_poller_marks [OF s1(2) settled_ok(1,2) [OF pok1]] settled_ok(3) [OF pok1] by simp
  moreover have "Post (set_poller k (settled (kq_pollers s1 k)) s1) p" if "p \<in> poller_content s k" for p
    by (rule post [of s1]) (use s1(3) that settled_ok(2) [OF pok1] in \<open>auto simp: poller_content_def fun_eq_iff\<close>)
  ultimately show ?thesis by (simp add: gam_kqueue_poller_timeout_cb_def)
qed

text \<open>Polling a monitor that cannot be watched does not ask the kernel, at its tenth poll, for a second descriptor.\<close>

definition retry_safe :: "'b ksrv_scheme \<Rightarrow> bool" where
  "retry_safe s \<longleftrightarrow> (\<forall>p \<in> poller_content s unsupported_smon_poller. \<forall>sm. kq_smons s p = Some sm \<longrightarrow>
     mo_fd sm < 0 \<or> mo_poll_count sm + 1 \<noteq> CFG_UNSUPPORTED_SMON_KQUEUE_RETRY_FREQUENCY)"

text \<open>A missing file that is there again at every look.\<close>

definition always_there :: "kenv \<Rightarrow> string \<Rightarrow> bool" where
  "always_there en path \<longleftrightarrow> (\<forall>t. ke_lstat en t path \<noteq> None)"

text \<open>What the timer of a poller leaves behind.\<close>

fun after_poll :: "kenv \<Rightarrow> poller \<Rightarrow> 'b ksrv_scheme \<Rightarrow> cptr \<Rightarrow> bool" where
  "after_poll en missing_smon_poller s p \<longleftrightarrow>
     (\<forall>sm. kq_smons s p = Some sm \<and> always_there en (mo_pathname sm) \<longrightarrow> p \<notin> poller_content s missing_smon_poller)"
| "after_poll en _ s p \<longleftrightarrow> True"

lemma timer_ok:
  assumes en: "good_kenv en" and ok: "kq_ok {} s" and safe: "k = unsupported_smon_poller \<Longrightarrow> retry_safe s"
  shows "succeeds (gam_kqueue_poller_timeout_cb en k (poller_func k en) s)
    (\<lambda>(again, s'). again \<and> kq_ok {} s' \<and> (\<forall>p \<in> poller_content s k. after_poll en k s' p))"
proof (cases k)
  case missing_smon_poller
  show ?thesis unfolding missing_smon_poller poller_func.simps
  proof (rule timeout_ok [OF en ok, where Pre = "\<lambda>s p. p \<in> poller_content s missing_smon_poller"])
    show "succeeds (gam_kqueue_missing_smon_poll en p s)
        (\<lambda>s'. kq_ok {missing_smon_poller} s' \<and> kframe p s s' \<and> after_poll en missing_smon_poller s' p)"
      if "kq_ok {missing_smon_poller} s" "kq_smons s p = Some sm" "p \<in> poller_content s missing_smon_poller" for p s sm
    proof (rule succeeds_mono [OF missing_poll_ok [OF en that(1) _ _ that(3,2)]])
      fix s' assume a: "kq_ok {missing_smon_poller} s' \<and> kframe p s s' \<and>
          (ke_lstat en (kq_tick s) (mo_pathname sm) \<noteq> None \<longrightarrow> p \<notin> poller_content s' missing_smon_poller)"
      have fr: "kframe p s s'" "kq_smons s p = Some sm" using a that(2) by blast+
      obtain sm' where sm': "kq_smons s' p = Some sm'" "same_smon sm sm'" by (rule kframeE [OF fr])
      then have "after_poll en missing_smon_poller s' p" using a by (simp add: always_there_def same_smon_def)
      then show "kq_ok {missing_smon_poller} s' \<and> kframe p s s' \<and> after_poll en missing_smon_poller s' p" using a by simp
    qed simp_all
    show "p \<in> poller_content s' missing_smon_poller" if "kframe r s s'" "p \<noteq> r" "p \<in> poller_content s missing_smon_poller" for p r s s'
      using that(3) poller_content_other [OF kframeD(7) [OF that(1)] that(2)] by simp
    show "after_poll en missing_smon_poller s' p" if "kframe r s s'" "p \<noteq> r" "after_poll en missing_smon_poller s p" for p r s s'
      using that(3) poller_content_other [OF kframeD(7) [OF that(1)] that(2)] kframeD(6) [OF that(1,2)] by simp
  qed simp_all
next
  case unsupported_smon_poller
  let ?Pre = "\<lambda>s p. p \<in> poller_content s unsupported_smon_poller \<and> (\<forall>sm. kq_smons s p = Some sm \<longrightarrow>
     mo_fd sm < 0 \<or> mo_poll_count sm + 1 \<noteq> CFG_UNSUPPORTED_SMON_KQUEUE_RETRY_FREQUENCY)"
  show ?thesis unfolding unsupported_smon_poller poller_func.simps
  proof (rule timeout_ok [OF en ok, where Pre = ?Pre])
    show "succeeds (gam_kqueue_unsupported_smon_poll en p s) (\<lambda>s'. kq_ok {unsupported_smon_poller} s' \<and> kframe p s s' \<and> after_poll en unsupported_smon_poller s' p)"
      if "kq_ok {unsupported_smon_poller} s" "kq_smons s p = Some sm" "?Pre s p" for p s sm
    proof -
      have "p \<in> poller_content s unsupported_smon_poller"
        "mo_fd sm < 0 \<or> mo_poll_count sm + 1 \<noteq> CFG_UNSUPPORTED_SMON_KQUEUE_RETRY_FREQUENCY" using that(2,3) by auto
      then show ?thesis using unsupported_poll_ok [OF en that(1) _ _ _ that(2)] by simp
    qed
    show "?Pre s' p" if "kframe r s s'" "p \<noteq> r" "?Pre s p" for p r s s'
      using that kframeD(6) [OF that(1,2)] poller_content_other [OF kframeD(7) [OF that(1)] that(2)] by simp
    show "?Pre s' p" if "p \<in> poller_content s unsupported_smon_poller" "kq_smons s' = kq_smons s" "poller_content s' = poller_content s" for p s'
      using safe [OF unsupported_smon_poller] that by (auto simp: retry_safe_def)
  qed simp_all
next
  case unsupported_fmon_poller
  show ?thesis unfolding unsupported_fmon_poller poller_func.simps
  proof (rule timeout_ok [OF en ok, where Pre = "\<lambda>s p. p \<in> poller_content s unsupported_fmon_poller"])
    show "succeeds (gam_kqueue_unsupported_fmon_poll en p s) (\<lambda>s'. kq_ok {unsupported_fmon_poller} s' \<and> kframe p s s' \<and> after_poll en unsupported_fmon_poller s' p)"
      if "kq_ok {unsupported_fmon_poller} s" "kq_smons s p = Some sm" "p \<in> poller_content s unsupported_fmon_poller" for p s sm
      using files_poll_ok [OF en that(1,3,2)] by simp
    show "p \<in> poller_content s' unsupported_fmon_poller" if "kframe r s s'" "p \<noteq> r" "p \<in> poller_content s unsupported_fmon_poller" for p r s s'
      using that(3) poller_content_other [OF kframeD(7) [OF that(1)] that(2)] by simp
  qed simp_all
qed

end
