(* ===== verification/Gam_Kqueue_Hooks.thy ===== *)
theory Gam_Kqueue_Hooks
  imports Gam_Kqueue_Timers
begin

unbundle bit_operations_syntax

text \<open>
  The hooks of the kqueue back end: a subscription that joins a monitor or gets a new one, and the removal of one
  subscription or of all those of a listener.
\<close>

section \<open>Subscriptions come and go\<close>

text \<open>A monitor without files that no poller has is freed.\<close>

lemma free_smon_inv:
  assumes inv: "kq_inv none s" and p: "kq_smons s p = Some sm" and e: "ht_main (sm_fmons sm) = []"
    and po: "\<And>k. p \<notin> set (ht_main (po_smons (kq_pollers s k))) \<union> set (ht_additions (po_smons (kq_pollers s k)))"
  shows "kq_inv none ((closing (mo_fd sm) s)\<lparr>kq_smons := (kq_smons s)(p := None)\<rparr>)"
proof -
  let ?s' = "(closing (mo_fd sm) s)\<lparr>kq_smons := (kq_smons s)(p := None)\<rparr>"
  note heap = kq_invD(1) [OF inv]
  have other: "fm_smon fm \<noteq> p" if "kq_fmons s f = Some fm" for f fm
  proof
    assume "fm_smon fm = p"
    moreover obtain x where "kq_smons s (fm_smon fm) = Some x" "f \<in> set (ht_main (sm_fmons x))" using heap \<open>kq_fmons s f = Some fm\<close>
      unfolding heap_ok_def by blast
    ultimately show False using p e by simp
  qed
  have nf: "kq_fmons s p = None" using heap p unfolding heap_ok_def by (cases "kq_fmons s p") auto
  have [simp]: "fmon_name ?s' = fmon_name s" "closed_fmons ?s' = closed_fmons s" "owned_by ?s' = owned_by s" "sub_linked ?s' = sub_linked s"
      "poller_content ?s' = poller_content s"
    by (simp_all add: fmon_name_def closed_fmons_def owned_by_def sub_linked_def poller_content_def fun_eq_iff)
  have "heap_ok ?s'" unfolding heap_ok_def
  proof (intro conjI allI impI)
    show "dom (kq_smons ?s') \<union> dom (kq_fmons ?s') \<subseteq> {..<kq_next ?s'}" "dom (kq_smons ?s') \<inter> dom (kq_fmons ?s') = {}"
      using heap unfolding heap_ok_def by auto
    fix f fm assume f: "kq_fmons ?s' f = Some fm"
    then have f: "kq_fmons s f = Some fm" by simp
    then obtain x where "kq_smons s (fm_smon fm) = Some x" "f \<in> set (ht_main (sm_fmons x))" using heap unfolding heap_ok_def by blast
    then show "\<exists>sm. kq_smons ?s' (fm_smon fm) = Some sm \<and> f \<in> set (ht_main (sm_fmons sm))" using other [OF f] by simp
  qed
  moreover have "fds_ok ?s'"
  proof (rule fds_closing [OF kq_invD(2) [OF inv] mon_fd_Some(1) [OF p]])
    show "mon_fd ?s' = (mon_fd s)(p := None)" 
    proof
      fix q show "mon_fd ?s' q = ((mon_fd s)(p := None)) q"
        using nf by (cases "q = p"; cases "kq_smons s q") (simp_all add: mon_fd_def)
    qed
  qed simp_all
  moreover have "poller_ok ?s' (kq_pollers ?s' k)" for k using kq_invD(3) [OF inv, of k] po [of k] by (auto simp: poller_ok_def)
  moreover have "smon_ok {} ?s' r x" if "kq_smons ?s' r = Some x" for r x
    using kq_invD(4) [OF inv, of r x] that by (simp add: smon_ok_def split: if_splits)
  ultimately show ?thesis by (simp add: kq_inv_def)
qed

lemma sub_monitor_free_ok:
  assumes inv: "kq_inv none s" and w: "walked {} s" and p: "kq_smons s p = Some sm"
  shows "succeeds (gam_kqueue_sub_monitor_free p s) (\<lambda>s'. kq_inv none s' \<and> walked {} s' \<and> kq_smons s' = (kq_smons s)(p := None) \<and>
    (\<forall>k. poller_content s' k = poller_content s k - {p}) \<and> kq_dir_hash s' = kq_dir_hash s \<and> kq_file_hash s' = kq_file_hash s \<and>
    same_sv s s')"
proof -
  obtain s1 po1 where s1: "gam_kqueue_poller_remove_sub_monitor missing_smon_poller p s = Some s1" "s1 = set_poller missing_smon_poller po1 s"
      "kq_inv none s1" "kframe p s s1" "content (po_smons po1) = content (po_smons (kq_pollers s missing_smon_poller)) - {p}"
    using poller_remove_inv [OF inv p, of missing_smon_poller] unfolding succeeds_def by blast
  have p1: "kq_smons s1 p = Some sm" using p by (simp add: s1(2))
  obtain s2 po2 where s2: "gam_kqueue_poller_remove_sub_monitor unsupported_smon_poller p s1 = Some s2" "s2 = set_poller unsupported_smon_poller po2 s1"
      "kq_inv none s2" "kframe p s1 s2" "content (po_smons po2) = content (po_smons (kq_pollers s1 unsupported_smon_poller)) - {p}"
    using poller_remove_inv [OF s1(3) p1, of unsupported_smon_poller] unfolding succeeds_def by blast
  have p2: "kq_smons s2 p = Some sm" using p1 by (simp add: s2(2))
  have fr2: "kframe p s s2" by (rule kframe_trans [OF s1(4) s2(4)])
  have st2: "still p s2" using still_frame [OF fr2] walked_still [OF w _ p] by simp
  let ?sm3 = "sm\<lparr>sm_unsupported := hash_table_empty, sm_fmons := hash_table_empty\<rparr>"
  obtain s3 where s3: "gam_kqueue_sub_monitor_clear_fmons p s2 = Some s3" "kq_inv none s3" "kframe p s2 s3" "kq_smons s3 p = Some ?sm3"
      "\<forall>k. k \<noteq> unsupported_fmon_poller \<longrightarrow> kq_pollers s3 k = kq_pollers s2 k" "p \<notin> poller_content s3 unsupported_fmon_poller"
    using clear_fmons_ok [OF s2(3) st2 p2] unfolding succeeds_def by blast
  have fr3: "kframe p s s3" by (rule kframe_trans [OF fr2 s3(3)])
  let ?s4 = "(closing (mo_fd ?sm3) s3)\<lparr>kq_smons := (kq_smons s3)(p := None)\<rparr>"
  have run: "gam_kqueue_sub_monitor_free p s = Some ?s4"
    using s1(1) s2(1) s3(1,4)
    by (simp add: gam_kqueue_sub_monitor_free_def gam_kqueue_monitor_free_def close_monitor_effect)
  have out: "p \<notin> poller_content s3 k" for k
    using s1(5) s2(5) s3(5,6) by (cases k) (simp_all add: poller_content_def s1(2) s2(2))
  have c: "poller_content s3 k = poller_content s k - {p}" for k
    using out [of k] kframeD(7) [OF fr3, of k] by (auto simp: poller_content_def same_poller_def)
  have w3: "walked {} s3" using walked_kframe [OF fr3] w by simp
  have "p \<notin> set (ht_main (po_smons (kq_pollers s3 k))) \<union> set (ht_additions (po_smons (kq_pollers s3 k)))" for k
    using out [of k] no_removals [OF s3(2) w3, of k] by (simp add: poller_content_def content_def)
  then have "kq_inv none ?s4" by (intro free_smon_inv [OF s3(2,4)]) (simp_all add: hash_table_empty_def)
  moreover have "walked {} ?s4" using w3 by (simp add: walked_def)
  moreover have "kq_smons ?s4 = (kq_smons s)(p := None)" using kframeD(6) [OF fr3] by (auto simp: fun_eq_iff)
  moreover have "poller_content ?s4 = poller_content s3" by (simp add: poller_content_def fun_eq_iff)
  moreover have "same_sv s ?s4" using kframeD(1) [OF fr3] by (simp add: same_sv_def)
  ultimately show ?thesis using run c kframeD(2,3) [OF fr3] by simp
qed

text \<open>The rest of the server may change its part of the state, with the subscriptions that have a monitor left alone.\<close>

lemma kq_ok_server:
  assumes ok: "kq_ok K s" and more: "srv.more s' = srv.more s"
    and subs: "\<And>p sm q. kq_smons s p = Some sm \<Longrightarrow> q \<in> set (sm_subs sm) \<Longrightarrow> sub_linked s' (mo_pathname sm) q \<and>
      (\<exists>sub. sv_subs s' q = Some sub \<and> sub_is_dir sub = sm_isdir sm)"
  shows "kq_ok K s'"
proof -
  note m = more_ksrv [OF more]
  note inv = kq_okD(1) [OF ok]
  have [simp]: "fmon_name s' = fmon_name s" "closed_fmons s' = closed_fmons s" "owned_by s' = owned_by s" "poller_content s' = poller_content s"
      "smon_hash s' = smon_hash s" "is_missing s' = is_missing s" "watched s' = watched s"
    by (simp_all add: fmon_name_def closed_fmons_def owned_by_def poller_content_def smon_hash_def is_missing_def watched_def
        fun_eq_iff m)
  have [simp]: "mon_fd s' = mon_fd s" by (rule mon_fd_cong) (rule m)+
  have "heap_ok s'" using kq_invD(1) [OF inv] by (simp add: heap_ok_def m)
  moreover have "fds_ok s'" by (rule fds_same [OF kq_invD(2) [OF inv]]) (simp_all add: m)
  moreover have "poller_ok s' (kq_pollers s' k)" for k using kq_invD(3) [OF inv, of k] by (simp add: poller_ok_def m)
  moreover have "smon_ok {} s' p sm" if "kq_smons s' p = Some sm" for p sm
    using kq_invD(4) [OF inv, of p sm] that subs [of p sm] by (simp add: smon_ok_def m)
  ultimately have "kq_inv none s'" by (simp add: kq_inv_def)
  moreover have "walked K s'" using kq_okD(2) [OF ok] by (simp add: walked_def m)
  moreover have "hashes_ok s'" using kq_okD(3) [OF ok] subs unfolding hashes_ok_def by (simp add: m)
  ultimately show ?thesis using ok by (simp add: kq_ok_def m)
qed

lemma sub_linked_alt: "sub_linked s path q \<longleftrightarrow> (\<exists>sub l. sv_subs s q = Some sub \<and> sub_path sub = path \<and> sub_listener sub = Some l \<and>
    (\<exists>x c. sv_listeners s l = Some x \<and> sv_conns s (ls_service x) = Some c \<and> 0 \<le> cn_fd c))"
  unfolding sub_linked_def by blast

lemma listener_add_effect:
  assumes "gam_listener_add_subscription l q s = Some s'"
  shows "srv.more s' = srv.more s" "sv_subs s' = sv_subs s" "sub_linked s' path r = sub_linked s path r"
proof -
  obtain ls where ls: "sv_listeners s l = Some ls" "s' = upd_listener l (\<lambda>ls. ls\<lparr>ls_subs := q # ls_subs ls\<rparr>) s"
    using assms by (auto simp: gam_listener_add_subscription_def split: Option.bind_splits if_splits)
  show "srv.more s' = srv.more s" "sv_subs s' = sv_subs s" by (simp_all add: ls(2) upd_listener_def)
  show "sub_linked s' path r = sub_linked s path r"
  proof -
    have "(\<exists>x c. sv_listeners s' k = Some x \<and> sv_conns s' (ls_service x) = Some c \<and> 0 \<le> cn_fd c) \<longleftrightarrow>
        (\<exists>x c. sv_listeners s k = Some x \<and> sv_conns s (ls_service x) = Some c \<and> 0 \<le> cn_fd c)" for k
      using ls(1) by (cases "k = l") (simp_all add: ls(2) upd_listener_def)
    moreover have "sv_subs s' = sv_subs s" by (simp add: ls(2) upd_listener_def)
    ultimately show ?thesis unfolding sub_linked_alt by simp
  qed
qed

text \<open>The subscriptions of a monitor change.\<close>

lemma put_subs_inv:
  assumes inv: "kq_inv none s" and p: "kq_smons s p = Some sm" and qs: "\<forall>q \<in> set qs. sub_linked s (mo_pathname sm) q"
  shows "kq_inv none (put_smon p (sm\<lparr>sm_subs := qs\<rparr>) s)"
proof -
  let ?sm = "sm\<lparr>sm_subs := qs\<rparr>"
  let ?s' = "put_smon p ?sm s"
  have d: "dom (kq_smons ?s') = dom (kq_smons s)" using p by auto
  have [simp]: "fmon_name ?s' = fmon_name s" "closed_fmons ?s' = closed_fmons s" "owned_by ?s' = owned_by s"
    by (simp_all add: fmon_name_def closed_fmons_def owned_by_def fun_eq_iff)
  have "heap_ok ?s'" using kq_invD(1) [OF inv] p unfolding heap_ok_def d by (auto simp: put_smon_def) fastforce+
  moreover have "mon_fd ?s' = mon_fd s"
    using mon_fd_smon [of ?s' s p ?sm] mon_fd_Some(1) [OF p] by (simp add: fun_upd_idem)
  then have "fds_ok ?s'" by (intro fds_same [OF kq_invD(2) [OF inv]]) simp_all
  moreover have "poller_ok ?s' (kq_pollers ?s' k)" for k using kq_invD(3) [OF inv, of k] unfolding poller_ok_dom [OF d] by simp
  moreover have "smon_ok {} ?s' r x" if "kq_smons ?s' r = Some x" for r x
  proof (cases "r = p")
    case True
    then have x: "x = ?sm" using that by simp
    show ?thesis unfolding x True using kq_invD(4) [OF inv p] qs by (simp add: smon_ok_def)
  next
    case False
    then show ?thesis using that kq_invD(4) [OF inv, of r x] by (simp add: smon_ok_def)
  qed
  ultimately show ?thesis by (simp add: kq_inv_def)
qed

lemma put_subs_ok:
  assumes ok: "kq_ok K s" and p: "kq_smons s p = Some sm" and qs: "qs \<noteq> []"
    "\<forall>q \<in> set qs. sub_linked s (mo_pathname sm) q \<and> (\<exists>sub. sv_subs s q = Some sub \<and> sub_is_dir sub = sm_isdir sm)"
  shows "kq_ok K (put_smon p (sm\<lparr>sm_subs := qs\<rparr>) s)"
proof -
  let ?sm = "sm\<lparr>sm_subs := qs\<rparr>"
  let ?s' = "put_smon p ?sm s"
  note inv = kq_okD(1) [OF ok]
  have d: "dom (kq_smons ?s') = dom (kq_smons s)" using p by auto
  have [simp]: "smon_hash ?s' = smon_hash s" by (simp add: smon_hash_def fun_eq_iff)
  have "kq_inv none ?s'" by (rule put_subs_inv [OF inv p]) (use qs(2) in blast)
  moreover have "walked K ?s'" using kq_okD(2) [OF ok] p by (auto simp: walked_def)
  moreover have "hashes_ok ?s'"
  proof -
    have a: "(\<exists>x. kq_smons ?s' r = Some x \<and> sm_isdir x = d \<and> mo_pathname x = path) \<longleftrightarrow>
        (\<exists>x. kq_smons s r = Some x \<and> sm_isdir x = d \<and> mo_pathname x = path)" for r d path
      using p by (cases "r = p") simp_all
    have "\<forall>d path r. smon_hash s d path = Some r \<longleftrightarrow> (\<exists>x. kq_smons s r = Some x \<and> sm_isdir x = d \<and> mo_pathname x = path)"
      using kq_okD(3) [OF ok] unfolding hashes_ok_def by blast
    moreover have "sm_subs x \<noteq> [] \<and> (\<forall>q \<in> set (sm_subs x). \<exists>sub. sv_subs s q = Some sub \<and> sub_is_dir sub = sm_isdir x)"
      if "kq_smons ?s' r = Some x" for r x
    proof (cases "r = p")
      case True
      then show ?thesis using that qs by auto
    next
      case False
      then show ?thesis using that kq_okD(3) [OF ok] unfolding hashes_ok_def by simp
    qed
    ultimately show ?thesis unfolding hashes_ok_def a by simp
  qed
  moreover have "watched ?s' r = watched s r" for r using p by (cases "r = p") (simp_all add: watched_def is_missing_def)
  ultimately show ?thesis using ok unfolding kq_ok_def d by blast
qed

definition kq_addable :: "'b ksrv_scheme \<Rightarrow> cptr \<Rightarrow> bool" where
  "kq_addable s q \<longleftrightarrow> (\<exists>sub l ls c. sv_subs s q = Some sub \<and> sub_listener sub = Some l \<and> sv_listeners s l = Some ls \<and>
     q \<notin> set (ls_subs ls) \<and> sv_conns s (ls_service ls) = Some c \<and> 0 \<le> cn_fd c)"

text \<open>A monitor for a path that had none.\<close>

definition new_smon :: "string \<Rightarrow> bool \<Rightarrow> cptr \<Rightarrow> SubMonitor" where
  "new_smon path d q = \<lparr>mo_pathname = path, mo_fd = -1, mo_sb = ministat_zero, mo_poll_count = 0, sm_subs = [q],
     sm_fmons = hash_table_empty, sm_unsupported = hash_table_empty, sm_isdir = d\<rparr>"

definition with_new_smon :: "string \<Rightarrow> bool \<Rightarrow> cptr \<Rightarrow> 'b ksrv_scheme \<Rightarrow> 'b ksrv_scheme" where
  "with_new_smon path d q s =
     (let s1 = put_smon (kq_next s) (new_smon path d q) (s\<lparr>kq_next := Suc (kq_next s)\<rparr>)
      in if d then s1\<lparr>kq_dir_hash := (kq_dir_hash s1)(path \<mapsto> kq_next s)\<rparr> else s1\<lparr>kq_file_hash := (kq_file_hash s1)(path \<mapsto> kq_next s)\<rparr>)"

lemma with_new_smon_simps [simp]:
  "kq_smons (with_new_smon path d q s) = (kq_smons s)(kq_next s \<mapsto> new_smon path d q)" "kq_fmons (with_new_smon path d q s) = kq_fmons s"
  "kq_pollers (with_new_smon path d q s) = kq_pollers s" "kq_next (with_new_smon path d q s) = Suc (kq_next s)"
  "kq_fds (with_new_smon path d q s) = kq_fds s" "kq_open_files (with_new_smon path d q s) = kq_open_files s"
  "kq_max_open_files (with_new_smon path d q s) = kq_max_open_files s" "kq_tick (with_new_smon path d q s) = kq_tick s"
  "srv.truncate (with_new_smon path d q s) = srv.truncate s" "sv_subs (with_new_smon path d q s) = sv_subs s"
  "sub_linked (with_new_smon path d q s) = sub_linked s" "smon_hash (with_new_smon path d q s) e = (if e = d then (smon_hash s e)(path \<mapsto> kq_next s) else smon_hash s e)"
  by (auto simp: with_new_smon_def Let_def srv.defs put_smon_def smon_hash_def sub_linked_def fun_eq_iff)

lemma with_new_smon_ok:
  assumes ok: "kq_ok {} s" and q: "sub_linked s path q" "sv_subs s q = Some sub" "sub_is_dir sub = d" and none: "smon_hash s d path = None"
  shows "kq_inv none (with_new_smon path d q s)" "walked {} (with_new_smon path d q s)" "hashes_ok (with_new_smon path d q s)"
    "r \<noteq> kq_next s \<Longrightarrow> watched (with_new_smon path d q s) r = watched s r"
    "kq_next s \<notin> poller_content (with_new_smon path d q s) k"
proof -
  let ?s' = "with_new_smon path d q s" and ?p = "kq_next s"
  note inv = kq_okD(1) [OF ok]
  note heap = kq_invD(1) [OF inv]
  have fresh: "kq_smons s ?p = None" "kq_fmons s ?p = None" using heap unfolding heap_ok_def by auto
  have [simp]: "fmon_name ?s' = fmon_name s" "closed_fmons ?s' = closed_fmons s" "owned_by ?s' = owned_by s" "poller_content ?s' = poller_content s"
    by (simp_all add: fmon_name_def closed_fmons_def owned_by_def poller_content_def fun_eq_iff)
  have po: "?p \<notin> set (ht_main (po_smons (kq_pollers s k))) \<union> set (ht_additions (po_smons (kq_pollers s k)))" for k
    using kq_invD(3) [OF inv, of k] fresh(1) unfolding poller_ok_def by blast
  show out: "?p \<notin> poller_content ?s' k" for k using po [of k] by (simp add: poller_content_def content_def)
  have "heap_ok ?s'" unfolding heap_ok_def
  proof (intro conjI allI impI)
    show "dom (kq_smons ?s') \<union> dom (kq_fmons ?s') \<subseteq> {..<kq_next ?s'}" using heap unfolding heap_ok_def by fastforce
    show "dom (kq_smons ?s') \<inter> dom (kq_fmons ?s') = {}" using heap fresh unfolding heap_ok_def by auto
    fix f fm assume "kq_fmons ?s' f = Some fm"
    then have "kq_fmons s f = Some fm" by simp
    then obtain x where "kq_smons s (fm_smon fm) = Some x" "f \<in> set (ht_main (sm_fmons x))" using heap unfolding heap_ok_def by blast
    moreover from this have "fm_smon fm \<noteq> ?p" using fresh by auto
    ultimately show "\<exists>sm. kq_smons ?s' (fm_smon fm) = Some sm \<and> f \<in> set (ht_main (sm_fmons sm))" by simp
  qed
  moreover have "fds_ok ?s'"
  proof (rule fds_same [OF kq_invD(2) [OF inv]])
    fix r fd assume "(0 :: int) \<le> fd"
    then show "mon_fd ?s' r = Some fd \<longleftrightarrow> mon_fd s r = Some fd"
      using fresh by (cases "r = ?p"; cases "kq_smons s r") (simp_all add: mon_fd_def new_smon_def)
  qed simp_all
  moreover have "poller_ok ?s' (kq_pollers ?s' k)" for k using kq_invD(3) [OF inv, of k] by (auto simp: poller_ok_def)
  moreover have "smon_ok {} ?s' r x" if "kq_smons ?s' r = Some x" for r x
  proof (cases "r = ?p")
    case True
    then have x: "x = new_smon path d q" using that by simp
    show ?thesis unfolding x True using q(1) out
      by (simp add: smon_ok_def new_smon_def hash_table_empty_def sub_table_ok_def table_ok_def content_def)
  next
    case False
    then show ?thesis using that kq_invD(4) [OF inv, of r x] by (auto simp: smon_ok_def)
  qed
  ultimately show "kq_inv none ?s'" by (simp add: kq_inv_def)
  show "walked {} ?s'" using kq_okD(2) [OF ok] by (auto simp: walked_def new_smon_def hash_table_empty_def)
  show "hashes_ok ?s'"
  proof -
    have H: "smon_hash s e y = Some r \<longleftrightarrow> (\<exists>x. kq_smons s r = Some x \<and> sm_isdir x = e \<and> mo_pathname x = y)" for e y r
      using kq_okD(3) [OF ok] unfolding hashes_ok_def by blast
    have "smon_hash ?s' e y = Some r \<longleftrightarrow> (\<exists>x. kq_smons ?s' r = Some x \<and> sm_isdir x = e \<and> mo_pathname x = y)" for e y r
    proof (cases "r = ?p")
      case True
      then show ?thesis using H [of e y ?p] fresh by (auto simp: new_smon_def)
    next
      case False
      then show ?thesis using H [of e y r] none by auto
    qed
    moreover have "sm_subs x \<noteq> [] \<and> (\<forall>q \<in> set (sm_subs x). \<exists>sub. sv_subs s q = Some sub \<and> sub_is_dir sub = sm_isdir x)"
      if "kq_smons ?s' r = Some x" for r x
    proof (cases "r = ?p")
      case True
      then show ?thesis using that q(2,3) by (auto simp: new_smon_def)
    next
      case False
      then show ?thesis using that kq_okD(3) [OF ok] unfolding hashes_ok_def by simp
    qed
    ultimately show ?thesis unfolding hashes_ok_def by simp
  qed
  show "watched ?s' r = watched s r" if "r \<noteq> ?p" using that by (simp add: watched_def is_missing_def)
qed

lemma add_new_ok:
  assumes en: "good_kenv en" and ok: "kq_ok {} s" and q: "sv_subs s q = Some sub" "sub_listener sub = Some l" "kq_addable s q"
    and none: "smon_hash s (sub_is_dir sub) (sub_path sub) = None"
  shows "\<exists>s1 s' p. gam_listener_add_subscription l q s = Some s1 \<and> gam_kqueue_add_subscription en q s = Some (True, s') \<and> kq_ok {} s' \<and>
    smon_hash s' (sub_is_dir sub) (sub_path sub) = Some p \<and>
    (\<exists>sm. kq_smons s' p = Some sm \<and> sm_subs sm = [q]) \<and>
    (case ke_lstat en (kq_tick s) (sub_path sub) of
       None \<Rightarrow> is_missing s' p \<and> (\<exists>evs. emits [q] evs s1 s' \<and>
         as_told evs = [(sub_path sub, GAMIN_EVENT_DELETED), (sub_path sub, GAMIN_EVENT_ENDEXISTS)])
     | Some sb \<Rightarrow> (let names = listed en (sub_is_dir sub \<and> mode_isdir (ks_mode sb)) (sub_path sub) (Suc (kq_tick s))
         in dir_names s' p = set names \<and> (\<exists>evs. emits [q] evs s1 s' \<and> as_told evs = first_told False (sub_path sub) names)))"
proof -
  let ?path = "sub_path sub" and ?d = "sub_is_dir sub"
  obtain s1 where s1: "gam_listener_add_subscription l q s = Some s1"
    using q by (auto simp: kq_addable_def gam_listener_add_subscription_def)
  note L = listener_add_effect [OF s1] and M = more_ksrv [OF listener_add_effect(1) [OF s1]]
  have ok1: "kq_ok {} s1"
  proof (rule kq_ok_server [OF ok L(1)])
    fix p sm r assume "kq_smons s p = Some sm" "r \<in> set (sm_subs sm)"
    then show "sub_linked s1 (mo_pathname sm) r \<and> (\<exists>sub. sv_subs s1 r = Some sub \<and> sub_is_dir sub = sm_isdir sm)"
      using smon_okD(8) [OF kq_invD(4) [OF kq_okD(1) [OF ok]]] kq_okD(3) [OF ok] unfolding L hashes_ok_def by blast
  qed
  have link: "sub_linked s1 ?path q" "sv_subs s1 q = Some sub" using q unfolding L by (auto simp: kq_addable_def sub_linked_def)
  have none1: "smon_hash s1 ?d ?path = None" using none by (cases ?d) (simp_all add: smon_hash_def M)
  let ?p = "kq_next s1" and ?s2 = "with_new_smon ?path ?d q s1" and ?sm = "new_smon ?path ?d q"
  note W = with_new_smon_ok [OF ok1 link refl none1]
  have p2: "kq_smons ?s2 ?p = Some ?sm" by simp
  have neg: "mo_fd ?sm < 0" and S: "sm_subs ?sm = [q]" "mo_pathname ?sm = ?path" "sm_isdir ?sm = ?d" by (simp_all add: new_smon_def)
  have st: "still ?p ?s2" by (rule walked_still [OF W(2) _ p2]) simp
  have ent: "dir_names ?s2 ?p = {}" using p2 by (simp add: dir_names_def new_smon_def hash_table_empty_def content_def)
  have ru: "?p \<notin> set (ht_removals (po_smons (kq_pollers ?s2 unsupported_smon_poller)))" "?p \<notin> set (ht_removals (po_smons (kq_pollers ?s2 missing_smon_poller)))"
    using no_removals [OF W(1,2)] by simp_all
  obtain s3 where s3: "gam_kqueue_sub_monitor_enable_notification en ?p 0 ?s2 = Some s3" "kq_inv none s3" "kframe ?p ?s2 s3" "watched s3 ?p"
      "case ke_lstat en (kq_tick ?s2) ?path of
       None \<Rightarrow> is_missing s3 ?p \<and> (\<exists>evs. emits [q] evs ?s2 s3 \<and> as_told evs = [(?path, GAMIN_EVENT_DELETED), (?path, GAMIN_EVENT_ENDEXISTS)])
     | Some sb \<Rightarrow> (let names = listed en (?d \<and> mode_isdir (ks_mode sb)) ?path (Suc (kq_tick ?s2))
         in dir_names s3 ?p = set names \<and> (\<exists>evs. emits [q] evs ?s2 s3 \<and> as_told evs = first_told False ?path names))"
    using enable_new_ok [OF en W(1) st p2 neg ent W(5) ru] unfolding succeeds_def S by blast
  have tick: "kq_tick ?s2 = kq_tick s" by (simp add: M)
  have em: "emits [q] evs ?s2 s3 = emits [q] evs s1 s3" for evs by (simp add: emits_def)
  have lk: "(if ?d then kq_dir_hash s1 else kq_file_hash s1) ?path = None" using none1 by (simp add: smon_hash_def)
  have "gam_kqueue_add_subscription en q s = Some (True, s3)"
  proof -
    have new: "gam_kqueue_sub_monitor_new q s1 = Some (?p, put_smon ?p (?sm\<lparr>sm_subs := []\<rparr>) (s1\<lparr>kq_next := Suc ?p\<rparr>))"
      using link(2) by (simp add: gam_kqueue_sub_monitor_new_def gam_kqueue_sub_monitor_init_fmons_def gam_kqueue_hash_table_new_def
          new_smon_def put_smon_def Let_def hash_table_empty_def)
    show ?thesis using q(1,2) s1 lk new s3(1)
      by (cases ?d) (simp_all add: gam_kqueue_add_subscription_def Let_def with_new_smon_def put_smon_def new_smon_def)
  qed
  moreover have "kq_ok {} s3"
  proof -
    have "watched s3 r" if "r \<in> dom (kq_smons s3)" for r
    proof (cases "r = ?p")
      case False
      have "r \<in> dom (kq_smons s1)" using that kframeD(8) [OF s3(3)] False by auto
      then have "watched ?s2 r" using W(4) [OF False] kq_okD(4) [OF ok1] by auto
      then show ?thesis using watched_other(2) [OF s3(3) False] by simp
    qed (use s3(4) in simp)
    then show ?thesis using s3(2) walked_kframe [OF s3(3)] W(2) hashes_kframe [OF s3(3) W(3)] by (simp add: kq_ok_def)
  qed
  moreover have "smon_hash s3 ?d ?path = Some ?p" using kframeD(2,3) [OF s3(3)] by (simp add: smon_hash_def with_new_smon_def Let_def)
  moreover have "\<exists>sm. kq_smons s3 ?p = Some sm \<and> sm_subs sm = [q]"
    by (rule kframeE [OF s3(3) p2]) (simp add: same_smon_def S)
  ultimately show ?thesis using s1 s3(5) unfolding tick em by blast
qed

lemma kq_subs:
  assumes ok: "kq_ok K s" and p: "kq_smons s p = Some sm" and q: "q \<in> set (sm_subs sm)"
  obtains sub where "sv_subs s q = Some sub" "sub_path sub = mo_pathname sm" "sub_is_dir sub = sm_isdir sm"
    "sub_linked s (mo_pathname sm) q"
proof -
  have l: "sub_linked s (mo_pathname sm) q" by (rule smon_okD(8) [OF kq_invD(4) [OF kq_okD(1) [OF ok] p] q])
  obtain sub where "sv_subs s q = Some sub" "sub_is_dir sub = sm_isdir sm" using kq_okD(3) [OF ok] p q unfolding hashes_ok_def by blast
  with that l show thesis by (simp add: sub_linked_def)
qed

lemma add_ok:
  assumes en: "good_kenv en" and ok: "kq_ok {} s" and add: "kq_addable s q"
  shows "\<exists>s'. gam_kqueue_add_subscription en q s = Some (True, s') \<and> kq_ok {} s'"
proof -
  obtain sub l where q: "sv_subs s q = Some sub" "sub_listener sub = Some l" using add by (auto simp: kq_addable_def)
  show ?thesis
  proof (cases "smon_hash s (sub_is_dir sub) (sub_path sub)")
    case None
    then show ?thesis using add_new_ok [OF en ok q add] by blast
  next
    case (Some p)
    obtain s1 where s1: "gam_listener_add_subscription l q s = Some s1"
      using q add by (auto simp: kq_addable_def gam_listener_add_subscription_def)
    note L = listener_add_effect [OF s1] and M = more_ksrv [OF listener_add_effect(1) [OF s1]]
    have ok1: "kq_ok {} s1"
    proof (rule kq_ok_server [OF ok L(1)])
      fix p sm r assume "kq_smons s p = Some sm" "r \<in> set (sm_subs sm)"
      then show "sub_linked s1 (mo_pathname sm) r \<and> (\<exists>sub. sv_subs s1 r = Some sub \<and> sub_is_dir sub = sm_isdir sm)"
        unfolding L by (rule kq_subs [OF ok]) blast
    qed
    obtain sm where sm: "kq_smons s p = Some sm" "sm_isdir sm = sub_is_dir sub" "mo_pathname sm = sub_path sub"
      using kq_okD(3) [OF ok] Some unfolding hashes_ok_def by blast
    have p1: "kq_smons s1 p = Some sm" using sm(1) by (simp add: M)
    have q1: "sub_linked s1 (sub_path sub) q" "sv_subs s1 q = Some sub" using q add unfolding L by (auto simp: kq_addable_def sub_linked_def)
    have "kq_ok {} (put_smon p (sm\<lparr>sm_subs := sm_subs sm @ [q]\<rparr>) s1)"
    proof (rule put_subs_ok [OF ok1 p1])
      show "\<forall>r \<in> set (sm_subs sm @ [q]). sub_linked s1 (mo_pathname sm) r \<and> (\<exists>sub. sv_subs s1 r = Some sub \<and> sub_is_dir sub = sm_isdir sm)"
      proof
        fix r assume r: "r \<in> set (sm_subs sm @ [q])"
        show "sub_linked s1 (mo_pathname sm) r \<and> (\<exists>sub. sv_subs s1 r = Some sub \<and> sub_is_dir sub = sm_isdir sm)"
        proof (cases "r = q")
          case True
          then show ?thesis using q1 sm by simp
        next
          case False
          then have "r \<in> set (sm_subs sm)" using r by simp
          then show ?thesis by (rule kq_subs [OF ok1 p1]) blast
        qed
      qed
    qed simp
    moreover have "(if sub_is_dir sub then kq_dir_hash s1 else kq_file_hash s1) (sub_path sub) = Some p"
      using Some by (simp add: smon_hash_def M split: if_splits)
    ultimately show ?thesis using q s1 p1 by (simp add: gam_kqueue_add_subscription_def)
  qed
qed

text \<open>The subscription is on no monitor.\<close>

definition unmonitored :: "'b ksrv_scheme \<Rightarrow> cptr \<Rightarrow> bool" where
  "unmonitored s q \<longleftrightarrow> (\<forall>p sm. kq_smons s p = Some sm \<longrightarrow> q \<notin> set (sm_subs sm))"

lemma cancel_linked: "sv_subs s q = Some sub \<Longrightarrow>
    sub_linked (s\<lparr>sv_subs := (sv_subs s)(q \<mapsto> gam_subscription_cancel sub)\<rparr>) path r = sub_linked s path r"
  by (cases "r = q") (simp_all add: sub_linked_def gam_subscription_cancel_def)

lemma cancel_ok:
  assumes ok: "kq_ok K s" and q: "sv_subs s q = Some sub"
  shows "kq_ok K (s\<lparr>sv_subs := (sv_subs s)(q \<mapsto> gam_subscription_cancel sub)\<rparr>)"
proof (rule kq_ok_server [OF ok])
  fix p sm r assume "kq_smons s p = Some sm" "r \<in> set (sm_subs sm)"
  then obtain x where "sv_subs s r = Some x" "sub_is_dir x = sm_isdir sm" "sub_linked s (mo_pathname sm) r" by (rule kq_subs [OF ok])
  then show "sub_linked (s\<lparr>sv_subs := (sv_subs s)(q \<mapsto> gam_subscription_cancel sub)\<rparr>) (mo_pathname sm) r \<and>
      (\<exists>sub'. sv_subs (s\<lparr>sv_subs := (sv_subs s)(q \<mapsto> gam_subscription_cancel sub)\<rparr>) r = Some sub' \<and> sub_is_dir sub' = sm_isdir sm)"
    unfolding cancel_linked [OF q] using q by (cases "r = q") (simp_all add: gam_subscription_cancel_def)
qed simp

lemma mon_fd_hash [simp]: "mon_fd (s\<lparr>kq_dir_hash := h\<rparr>) = mon_fd s" "mon_fd (s\<lparr>kq_file_hash := h\<rparr>) = mon_fd s"
  by (rule mon_fd_cong; simp)+

lemma kq_inv_hash [simp]: "kq_inv Y (s\<lparr>kq_dir_hash := h\<rparr>) = kq_inv Y s" "kq_inv Y (s\<lparr>kq_file_hash := h\<rparr>) = kq_inv Y s"
  by (simp_all add: kq_inv_def heap_ok_def fds_ok_def poller_ok_def smon_ok_def owned_by_def fmon_name_def
      closed_fmons_def poller_content_def sub_linked_def inj_on_def)

lemma removed_ok:
  assumes ok: "kq_ok {} s" and p: "kq_smons s p = Some sm"
    and inv: "kq_inv none s'" and w: "walked {} s'" and s': "kq_smons s' = (kq_smons s)(p := None)"
    and po: "\<And>k. poller_content s' k = poller_content s k - {p}" and sv: "sv_subs s' = sv_subs s"
    and h: "\<And>d. smon_hash s' d = (if d = sm_isdir sm then (smon_hash s d)(mo_pathname sm := None) else smon_hash s d)"
  shows "kq_ok {} s'"
proof -
  have H: "smon_hash s e y = Some r \<longleftrightarrow> (\<exists>x. kq_smons s r = Some x \<and> sm_isdir x = e \<and> mo_pathname x = y)" for e y r
    using kq_okD(3) [OF ok] unfolding hashes_ok_def by blast
  have "smon_hash s' e y = Some r \<longleftrightarrow> (\<exists>x. kq_smons s' r = Some x \<and> sm_isdir x = e \<and> mo_pathname x = y)" for e y r
  proof (cases "e = sm_isdir sm \<and> y = mo_pathname sm")
    case True
    have "\<not> (kq_smons s r = Some x \<and> sm_isdir x = e \<and> mo_pathname x = y)" if "r \<noteq> p" for x
    proof
      assume "kq_smons s r = Some x \<and> sm_isdir x = e \<and> mo_pathname x = y"
      then have "smon_hash s e y = Some r" "smon_hash s e y = Some p" using H p True by blast+
      with that show False by simp
    qed
    then show ?thesis using True by (auto simp: h s')
  next
    case False
    then have "smon_hash s' e y = smon_hash s e y" by (auto simp: h)
    then show ?thesis using H [of e y r] False p by (auto simp: s')
  qed
  moreover have "sm_subs x \<noteq> [] \<and> (\<forall>q \<in> set (sm_subs x). \<exists>sub. sv_subs s q = Some sub \<and> sub_is_dir sub = sm_isdir x)"
    if "kq_smons s' r = Some x" for r x
    using that kq_okD(3) [OF ok] unfolding hashes_ok_def s' by (simp split: if_splits)
  ultimately have "hashes_ok s'" unfolding hashes_ok_def sv by simp
  moreover have "watched s' r" if "r \<in> dom (kq_smons s')" for r
  proof -
    have r: "r \<noteq> p" "r \<in> dom (kq_smons s)" using that by (auto simp: s' split: if_splits)
    then have "watched s r" using ok by (simp add: kq_ok_def)
    then show ?thesis using r(1) by (simp add: watched_def is_missing_def s' po)
  qed
  ultimately show ?thesis using inv w by (simp add: kq_ok_def)
qed

lemma hash_unmonitored:
  assumes ok: "kq_ok K s" and q: "sv_subs s q = Some sub" and x: "kq_smons s p = Some sm" "q \<in> set (sm_subs sm)"
  shows "smon_hash s (sub_is_dir sub) (sub_path sub) = Some p"
proof -
  obtain sub' where "sv_subs s q = Some sub'" "sub_path sub' = mo_pathname sm" "sub_is_dir sub' = sm_isdir sm" by (rule kq_subs [OF ok x])
  then show ?thesis using q x(1) kq_okD(3) [OF ok] unfolding hashes_ok_def by auto
qed

text \<open>The monitors without a subscription: one that had no other is gone.\<close>

definition without_sub :: "cptr \<Rightarrow> (cptr \<rightharpoonup> SubMonitor) \<Rightarrow> cptr \<rightharpoonup> SubMonitor" where
  "without_sub q m = (\<lambda>p. case m p of None \<Rightarrow> None
     | Some sm \<Rightarrow> (let qs = removeAll q (sm_subs sm) in if qs = [] then None else Some (sm\<lparr>sm_subs := qs\<rparr>)))"

lemma without_sub_one:
  assumes "m p = Some sm" "\<And>r x. m r = Some x \<Longrightarrow> q \<in> set (sm_subs x) \<Longrightarrow> r = p" "\<And>r x. m r = Some x \<Longrightarrow> sm_subs x \<noteq> []"
  shows "without_sub q m = m(p := (let qs = removeAll q (sm_subs sm) in if qs = [] then None else Some (sm\<lparr>sm_subs := qs\<rparr>)))"
proof
  fix r
  show "without_sub q m r = (m(p := (let qs = removeAll q (sm_subs sm) in if qs = [] then None else Some (sm\<lparr>sm_subs := qs\<rparr>)))) r"
  proof (cases "r = p")
    case False
    show ?thesis
    proof (cases "m r")
      case (Some x)
      then have "q \<notin> set (sm_subs x)" "sm_subs x \<noteq> []" using assms(2,3) False by blast+
      then show ?thesis using Some False by (simp add: without_sub_def)
    qed (use False in \<open>simp add: without_sub_def\<close>)
  qed (use assms(1) in \<open>simp add: without_sub_def\<close>)
qed

lemma without_sub_none:
  assumes "\<And>r x. m r = Some x \<Longrightarrow> q \<notin> set (sm_subs x)" "\<And>r x. m r = Some x \<Longrightarrow> sm_subs x \<noteq> []"
  shows "without_sub q m = m"
proof
  fix r show "without_sub q m r = m r"
    using assms [of r] by (cases "m r") (simp_all add: without_sub_def)
qed

lemma remove_ok:
  assumes ok: "kq_ok {} s" and q: "sv_subs s q = Some sub"
  shows "\<exists>b s'. gam_kqueue_remove_subscription q s = Some (b, s') \<and> kq_ok {} s' \<and> unmonitored s' q \<and>
    kq_smons s' = without_sub q (kq_smons s) \<and> (b \<longleftrightarrow> smon_hash s (sub_is_dir sub) (sub_path sub) \<noteq> None) \<and>
    dom (sv_subs s') = dom (sv_subs s) \<and> sv_listeners s' = sv_listeners s"
proof -
  let ?d = "sub_is_dir sub" and ?path = "sub_path sub"
  have ne: "sm_subs x \<noteq> []" if "kq_smons s r = Some x" for r x using kq_okD(3) [OF ok] that unfolding hashes_ok_def by blast
  have lk: "smon_hash s ?d ?path = (if ?d then kq_dir_hash s else kq_file_hash s) ?path" by (simp add: smon_hash_def)
  show ?thesis
  proof (cases "smon_hash s ?d ?path")
    case None
    then have un: "unmonitored s q" using hash_unmonitored [OF ok q] by (fastforce simp: unmonitored_def)
    moreover have "without_sub q (kq_smons s) = kq_smons s" by (rule without_sub_none) (use un ne in \<open>auto simp: unmonitored_def\<close>)
    moreover have "(if ?d then kq_dir_hash s else kq_file_hash s) ?path = None" using None lk by simp
    ultimately show ?thesis using q ok None by (intro exI [of _ False] exI [of _ s]) (simp add: gam_kqueue_remove_subscription_def)
  next
    case (Some p)
    obtain sm where sm: "kq_smons s p = Some sm" "sm_isdir sm = ?d" "mo_pathname sm = ?path"
      using kq_okD(3) [OF ok] Some unfolding hashes_ok_def by blast
    let ?subs = "removeAll q (sm_subs sm)"
    let ?s1 = "put_smon p (sm\<lparr>sm_subs := ?subs\<rparr>) s"
    have only: "r = p" if "kq_smons s r = Some x" "q \<in> set (sm_subs x)" for r x
      using hash_unmonitored [OF ok q that] Some by simp
    have without: "without_sub q (kq_smons s) = (kq_smons s)(p := (if ?subs = [] then None else Some (sm\<lparr>sm_subs := ?subs\<rparr>)))"
      using without_sub_one [of "kq_smons s" p sm q] sm(1) only ne unfolding Let_def by blast
    have "\<exists>s2. (if ?subs = [] then gam_kqueue_sub_monitor_free p
          (if ?d then ?s1\<lparr>kq_dir_hash := (kq_dir_hash ?s1)(mo_pathname sm := None)\<rparr> else ?s1\<lparr>kq_file_hash := (kq_file_hash ?s1)(mo_pathname sm := None)\<rparr>)
        else Some ?s1) = Some s2 \<and> kq_ok {} s2 \<and> unmonitored s2 q \<and> kq_smons s2 = without_sub q (kq_smons s) \<and> sv_subs s2 = sv_subs s \<and> sv_listeners s2 = sv_listeners s"
    proof (cases "?subs = []")
      case False
      have "kq_ok {} ?s1"
      proof (rule put_subs_ok [OF ok sm(1) False])
        show "\<forall>r \<in> set ?subs. sub_linked s (mo_pathname sm) r \<and> (\<exists>sub. sv_subs s r = Some sub \<and> sub_is_dir sub = sm_isdir sm)"
        proof
          fix r assume "r \<in> set ?subs"
          then have "r \<in> set (sm_subs sm)" by simp
          then show "sub_linked s (mo_pathname sm) r \<and> (\<exists>sub. sv_subs s r = Some sub \<and> sub_is_dir sub = sm_isdir sm)"
            by (rule kq_subs [OF ok sm(1)]) blast
        qed
      qed
      moreover have "unmonitored ?s1 q" using only by (auto simp: unmonitored_def)
      moreover have "kq_smons ?s1 = without_sub q (kq_smons s)" using without False by simp
      ultimately show ?thesis unfolding if_not_P [OF False] by simp
    next
      case True
      let ?s2 = "if ?d then ?s1\<lparr>kq_dir_hash := (kq_dir_hash ?s1)(mo_pathname sm := None)\<rparr> else ?s1\<lparr>kq_file_hash := (kq_file_hash ?s1)(mo_pathname sm := None)\<rparr>"
      let ?sm2 = "sm\<lparr>sm_subs := ?subs\<rparr>"
      have "kq_inv none ?s1" by (rule put_subs_inv [OF kq_okD(1) [OF ok] sm(1)]) (simp add: True)
      then have i2: "kq_inv none ?s2" by (cases ?d) simp_all
      have S: "kq_smons ?s2 = (kq_smons s)(p \<mapsto> ?sm2)" "poller_content ?s2 = poller_content s" "sv_subs ?s2 = sv_subs s"
          "sv_listeners ?s2 = sv_listeners s"
        by (cases ?d; simp add: poller_content_def fun_eq_iff)+
      have "walked {} ?s1" using kq_okD(2) [OF ok] sm(1) by (auto simp: walked_def)
      then have w2: "walked {} ?s2" by (cases ?d) (simp_all add: walked_def)
      have p2: "kq_smons ?s2 p = Some ?sm2" using S by simp
      obtain s3 where s3: "gam_kqueue_sub_monitor_free p ?s2 = Some s3" "kq_inv none s3" "walked {} s3" "kq_smons s3 = (kq_smons ?s2)(p := None)"
          "\<forall>k. poller_content s3 k = poller_content ?s2 k - {p}" "kq_dir_hash s3 = kq_dir_hash ?s2" "kq_file_hash s3 = kq_file_hash ?s2" "same_sv ?s2 s3"
        using sub_monitor_free_ok [OF i2 w2 p2] unfolding succeeds_def by blast
      have hash: "smon_hash s3 d = (if d = sm_isdir sm then (smon_hash s d)(mo_pathname sm := None) else smon_hash s d)" for d
        using s3(6,7) sm(2) by (cases d; cases ?d) (simp_all add: smon_hash_def)
      have s3': "kq_smons s3 = (kq_smons s)(p := None)" using s3(4) S(1) by simp
      have sv: "sv_subs s3 = sv_subs s" "sv_listeners s3 = sv_listeners s" using s3(8) S(3,4) by (simp_all add: same_sv_def)
      have po: "poller_content s3 k = poller_content s k - {p}" for k using s3(5) S(2) by simp
      have "kq_ok {} s3" by (rule removed_ok [OF ok sm(1) s3(2,3) s3' po sv(1) hash])
      moreover have "unmonitored s3 q" using only by (auto simp: unmonitored_def s3' split: if_splits)
      moreover have "kq_smons s3 = without_sub q (kq_smons s)" using without True s3' by simp
      ultimately show ?thesis unfolding if_P [OF True] using s3(1) sv by blast
    qed
    then obtain s2 where s2: "(if ?subs = [] then gam_kqueue_sub_monitor_free p
          (if ?d then ?s1\<lparr>kq_dir_hash := (kq_dir_hash ?s1)(mo_pathname sm := None)\<rparr> else ?s1\<lparr>kq_file_hash := (kq_file_hash ?s1)(mo_pathname sm := None)\<rparr>)
        else Some ?s1) = Some s2" "kq_ok {} s2" "unmonitored s2 q" "sv_subs s2 = sv_subs s" "sv_listeners s2 = sv_listeners s"
        "kq_smons s2 = without_sub q (kq_smons s)" by blast
    have lk2: "(if ?d then kq_dir_hash s else kq_file_hash s) ?path = Some p" using Some lk by simp
    have q2: "sv_subs s2 q = Some sub" using s2(4) q by simp
    let ?s3 = "s2\<lparr>sv_subs := (sv_subs s2)(q \<mapsto> gam_subscription_cancel sub)\<rparr>"
    have "gam_kqueue_remove_subscription q s = Some (True, ?s3)"
      unfolding gam_kqueue_remove_subscription_def q Option.bind.simps lk2 option.case sm(1) Let_def s2(1) q2 ..
    moreover have "unmonitored ?s3 q" using s2(3) by (simp add: unmonitored_def)
    moreover have "dom (sv_subs ?s3) = dom (sv_subs s)" using q2 s2(4) by auto
    ultimately show ?thesis using cancel_ok [OF s2(2) q2] s2(5,6) Some by auto
  qed
qed

lemma remove_each_ok:
  "kq_ok {} s \<Longrightarrow> \<forall>q \<in> set qs. sv_subs s q \<noteq> None \<Longrightarrow> \<exists>b s'. remove_each qs s = Some (b, s') \<and> kq_ok {} s'"
proof (induction qs arbitrary: s)
  case Nil
  then show ?case by (intro exI [of _ True] exI [of _ s]) simp
next
  case (Cons q qs)
  obtain sub where "sv_subs s q = Some sub" using Cons.prems(2) by auto
  from remove_ok [OF Cons.prems(1) this] obtain b s1 where s1: "gam_kqueue_remove_subscription q s = Some (b, s1)" "kq_ok {} s1"
      "dom (sv_subs s1) = dom (sv_subs s)" by blast
  have "\<forall>r \<in> set qs. sv_subs s1 r \<noteq> None" using Cons.prems(2) s1(3) by auto
  then show ?case using Cons.IH [OF s1(2)] s1(1) by auto
qed

end
