(* ===== verification/Gam_Kqueue_Count.thy ===== *)
theory Gam_Kqueue_Count
  imports Gam_Kqueue_Hooks
begin

text \<open>
  The count of the descriptors that the kqueue back end has open. It is right after every run of every operation,
  also in the runs in which a descriptor is leaked and the invariant of \<^theory_text>\<open>Gam_Kqueue_Inv\<close> is lost: nothing but opening
  and closing a descriptor changes the count, and what is closed is the descriptor of a monitor, which is open.
\<close>

section \<open>The invariant\<close>

definition counted :: "'b ksrv_scheme \<Rightarrow> bool" where
  "counted s \<longleftrightarrow>
     dom (kq_smons s) \<union> dom (kq_fmons s) \<subseteq> {..<kq_next s} \<and> dom (kq_smons s) \<inter> dom (kq_fmons s) = {} \<and>
     (\<forall>q fd. mon_fd s q = Some fd \<and> 0 \<le> fd \<longrightarrow> kq_fds s fd = Some (Some q)) \<and>
     finite (dom (kq_fds s)) \<and> unat (kq_open_files s) = card (dom (kq_fds s)) \<and> kq_open_files s \<le> kq_max_open_files s"

text \<open>A result that satisfies the invariant if there is one, and an operation that keeps the invariant if it returns.\<close>

definition good :: "'b ksrv_scheme option \<Rightarrow> bool" where
  "good m \<longleftrightarrow> (\<forall>s. m = Some s \<longrightarrow> counted s)"

lemma good_simps [simp]: "good None" "good (Some s) = counted s"
  by (simp_all add: good_def)

lemma good_bind: "good m \<Longrightarrow> (\<And>s. m = Some s \<Longrightarrow> counted s \<Longrightarrow> good (f s)) \<Longrightarrow> good (Option.bind m f)"
  by (cases m) simp_all

lemma good_read: "(\<And>x. m = Some x \<Longrightarrow> good (f x)) \<Longrightarrow> good (Option.bind m f)"
  by (cases m) simp_all

lemma good_if: "(b \<Longrightarrow> good x) \<Longrightarrow> (\<not> b \<Longrightarrow> good y) \<Longrightarrow> good (if b then x else y)"
  by simp

definition keeps :: "('b ksrv_scheme \<Rightarrow> 'b ksrv_scheme option) \<Rightarrow> bool" where
  "keeps f \<longleftrightarrow> (\<forall>s. counted s \<longrightarrow> good (f s))"

lemma keepsI: "(\<And>s. counted s \<Longrightarrow> good (f s)) \<Longrightarrow> keeps f"
  by (simp add: keeps_def)

lemma keepsD: "keeps f \<Longrightarrow> counted s \<Longrightarrow> good (f s)"
  by (simp add: keeps_def)

text \<open>What the invariant looks at.\<close>

definition view :: "'b ksrv_scheme \<Rightarrow> _" where
  "view s = (\<lambda>p. map_option mo_fd (kq_smons s p), \<lambda>f. map_option mo_fd (kq_fmons s f), kq_fds s, kq_open_files s, kq_max_open_files s, kq_next s)"

lemma view_counted:
  assumes "view s' = view s" "counted s"
  shows "counted s'"
proof -
  have v: "map_option mo_fd (kq_smons s' p) = map_option mo_fd (kq_smons s p)"
      "map_option mo_fd (kq_fmons s' p) = map_option mo_fd (kq_fmons s p)" for p
    using assms(1) by (simp_all add: view_def fun_eq_iff)
  have d: "p \<in> dom (kq_smons s') \<longleftrightarrow> p \<in> dom (kq_smons s)" "p \<in> dom (kq_fmons s') \<longleftrightarrow> p \<in> dom (kq_fmons s)" for p
    using v [of p] by (cases "kq_smons s p"; cases "kq_smons s' p"; cases "kq_fmons s p"; cases "kq_fmons s' p"; auto)+
  have dd: "dom (kq_smons s') = dom (kq_smons s)" "dom (kq_fmons s') = dom (kq_fmons s)" using d by blast+
  have "mon_fd s' p = mon_fd s p" for p
    using v [of p] by (cases "kq_smons s p"; cases "kq_smons s' p") (auto simp: mon_fd_def)
  then show ?thesis using assms by (simp add: counted_def dd view_def)
qed

lemma map_mo_fd:
  "map_option mo_fd (map_option (\<lambda>sm. sm\<lparr>sm_fmons := g (sm_fmons sm)\<rparr>) x) = map_option mo_fd x"
  "map_option mo_fd (map_option (\<lambda>sm. sm\<lparr>sm_unsupported := g (sm_unsupported sm)\<rparr>) x) = map_option mo_fd x"
  by (cases x; simp)+

lemma view_table [simp]: "view (upd_table t g s) = view s"
proof (cases t)
  case (T_SMONS k)
  show ?thesis unfolding T_SMONS upd_table.simps view_def by simp
next
  case (T_FMONS p)
  have "(\<lambda>x. map_option mo_fd (((kq_smons s)(p := map_option (\<lambda>sm. sm\<lparr>sm_fmons := g (sm_fmons sm)\<rparr>) (kq_smons s p))) x)) =
      (\<lambda>x. map_option mo_fd (kq_smons s x))"
    by (rule ext) (simp add: map_mo_fd del: option.map_comp)
  then show ?thesis unfolding T_FMONS upd_table.simps view_def by simp
next
  case (T_UNSUPPORTED p)
  have "(\<lambda>x. map_option mo_fd (((kq_smons s)(p := map_option (\<lambda>sm. sm\<lparr>sm_unsupported := g (sm_unsupported sm)\<rparr>) (kq_smons s p))) x)) =
      (\<lambda>x. map_option mo_fd (kq_smons s x))"
    by (rule ext) (simp add: map_mo_fd del: option.map_comp)
  then show ?thesis unfolding T_UNSUPPORTED upd_table.simps view_def by simp
qed

lemma view_upd [simp]:
  "view (s\<lparr>kq_tick := n\<rparr>) = view s" "view (s\<lparr>kq_pollers := P\<rparr>) = view s"
  "view (s\<lparr>kq_dir_hash := D\<rparr>) = view s" "view (s\<lparr>kq_file_hash := D\<rparr>) = view s"
  by (simp_all add: view_def)

lemmas counted_upd [simp] = view_counted [OF view_table] view_counted [OF view_upd(1)] view_counted [OF view_upd(2)]
  view_counted [OF view_upd(3)] view_counted [OF view_upd(4)]

lemma counted_more:
  assumes "srv.more s' = srv.more s" "counted s"
  shows "counted s'"
  by (rule view_counted [OF _ assms(2)]) (simp add: view_def more_ksrv [OF assms(1)])

text \<open>The fields of a monitor other than its descriptor.\<close>

lemma counted_put_smon:
  assumes "counted s" "kq_smons s p = Some sm" "mo_fd sm' = mo_fd sm"
  shows "counted (put_smon p sm' s)"
proof (rule view_counted [OF _ assms(1)])
  have "(\<lambda>q. map_option mo_fd (((kq_smons s)(p \<mapsto> sm')) q)) = (\<lambda>q. map_option mo_fd (kq_smons s q))"
    using assms(2,3) by (simp add: fun_eq_iff)
  then show "view (put_smon p sm' s) = view s" by (simp add: view_def put_smon_def)
qed

lemma counted_put_fmon:
  assumes "counted s" "kq_fmons s p = Some fm" "mo_fd fm' = mo_fd fm"
  shows "counted (put_fmon p fm' s)"
proof (rule view_counted [OF _ assms(1)])
  have "(\<lambda>q. map_option mo_fd (((kq_fmons s)(p \<mapsto> fm')) q)) = (\<lambda>q. map_option mo_fd (kq_fmons s q))"
    using assms(2,3) by (simp add: fun_eq_iff)
  then show "view (put_fmon p fm' s) = view s" by (simp add: view_def put_fmon_def)
qed

section \<open>Opening and closing\<close>

lemma counted_closed:
  assumes c: "counted s" and fd: "0 \<le> fd" "mon_fd s q = Some fd"
    and s': "kq_fds s' = (kq_fds s)(fd := None)" "kq_open_files s' = kq_open_files s - 1"
      "kq_max_open_files s' = kq_max_open_files s" "kq_next s' = kq_next s"
    and new: "mon_fd s' = (mon_fd s)(q := y)" and y: "\<And>x. y = Some x \<Longrightarrow> x < 0"
    and d: "dom (kq_smons s') \<subseteq> dom (kq_smons s)" "dom (kq_fmons s') \<subseteq> dom (kq_fmons s)"
  shows "counted s'"
proof -
  have at: "kq_fds s fd = Some (Some q)" using c fd by (simp add: counted_def)
  have fin: "finite (dom (kq_fds s))" and n: "unat (kq_open_files s) = card (dom (kq_fds s))"
    using c by (simp_all add: counted_def)
  have in_dom: "fd \<in> dom (kq_fds s)" using at by blast
  have "unat (kq_open_files s) > 0" using n in_dom fin by (auto simp: card_gt_0_iff)
  then have nz: "kq_open_files s \<noteq> 0" by auto
  have u: "unat (kq_open_files s - 1) = unat (kq_open_files s) - 1" using nz by (simp add: unat_minus_one)
  then have "unat (kq_open_files s') = card (dom (kq_fds s'))"
    using n s' in_dom fin by (simp add: card_Diff_singleton)
  moreover have "kq_open_files s' \<le> kq_max_open_files s'"
    using c s' u unfolding counted_def word_le_nat_alt by (metis diff_le_self order_trans)
  moreover have "kq_fds s' x = Some (Some r)" if "mon_fd s' r = Some x" "0 \<le> x" for r x
  proof -
    have r: "r \<noteq> q" using that y by (auto simp: new)
    then have "kq_fds s x = Some (Some r)" using that c by (simp add: new counted_def)
    moreover from this have "x \<noteq> fd" using at r by auto
    ultimately show ?thesis by (simp add: s'(1))
  qed
  moreover have "dom (kq_smons s') \<union> dom (kq_fmons s') \<subseteq> {..<kq_next s'}" "dom (kq_smons s') \<inter> dom (kq_fmons s') = {}"
    using c d unfolding s'(4) counted_def by blast+
  moreover have "finite (dom (kq_fds s'))" using fin by (simp add: s'(1))
  ultimately show ?thesis unfolding counted_def by blast
qed

lemma counted_opened:
  assumes c: "counted s" and fd: "fd \<notin> dom (kq_fds s)" and neq: "kq_open_files s \<noteq> kq_max_open_files s"
    and s': "kq_fds s' = (kq_fds s)(fd \<mapsto> Some q)" "kq_open_files s' = kq_open_files s + 1"
      "kq_max_open_files s' = kq_max_open_files s" "kq_next s' = kq_next s"
    and new: "mon_fd s' = (mon_fd s)(q \<mapsto> fd)"
    and d: "dom (kq_smons s') = dom (kq_smons s)" "dom (kq_fmons s') = dom (kq_fmons s)"
  shows "counted s'"
proof -
  have lt: "kq_open_files s < kq_max_open_files s" using c neq unfolding counted_def by (blast intro: le_neq_trans)
  then have "kq_open_files s + 1 \<le> kq_max_open_files s" by (rule inc_le)
  moreover have "unat (kq_open_files s + 1) = Suc (unat (kq_open_files s))" using lt by unat_arith
  moreover have "kq_fds s' x = Some (Some r)" if "mon_fd s' r = Some x" "0 \<le> x" for r x
    using that c fd by (cases "r = q") (auto simp: s'(1) new counted_def)
  ultimately show ?thesis using c fd s' d by (simp add: counted_def)
qed

lemma counted_refused:
  assumes c: "counted s" and s': "kq_fds s' = kq_fds s" "kq_open_files s' = kq_open_files s"
      "kq_max_open_files s' = kq_max_open_files s" "kq_next s' = kq_next s"
    and new: "mon_fd s' = (mon_fd s)(q \<mapsto> y)" "y < 0 \<or> mon_fd s q = Some y"
    and d: "dom (kq_smons s') = dom (kq_smons s)" "dom (kq_fmons s') = dom (kq_fmons s)"
  shows "counted s'"
proof -
  have "kq_fds s' x = Some (Some r)" if "mon_fd s' r = Some x" "0 \<le> x" for r x
    using that c new(2) by (cases "r = q") (auto simp: s'(1) new(1) counted_def)
  then show ?thesis using c s' d by (simp add: counted_def)
qed

text \<open>Enabling a monitor, whether it has a descriptor or not.\<close>

lemma enable_any:
  assumes en: "fresh_fds en" and e: "gam_kqueue_monitor_enable_kqueue en q mon s = (ok, mon', s')"
  obtains (opened) t fd where "fd \<notin> dom (kq_fds s)" "mo_fd mon' = fd" "kq_open_files s \<noteq> kq_max_open_files s"
      "s' = s\<lparr>kq_tick := t, kq_fds := (kq_fds s)(fd \<mapsto> Some q), kq_open_files := kq_open_files s + 1\<rparr>"
  | (refused) t where "mo_fd mon' < 0 \<or> mo_fd mon' = mo_fd mon" "s' = s\<lparr>kq_tick := t\<rparr>"
proof -
  let ?fd = "ke_open en (kq_tick s) (kq_fds s) (mo_pathname mon)"
  consider "kq_open_files s = kq_max_open_files s" | "kq_open_files s \<noteq> kq_max_open_files s" "?fd < 0"
    | "kq_open_files s \<noteq> kq_max_open_files s" "0 \<le> ?fd" "ke_kevent en (Suc (kq_tick s)) ?fd"
    | "kq_open_files s \<noteq> kq_max_open_files s" "0 \<le> ?fd" "\<not> ke_kevent en (Suc (kq_tick s)) ?fd"
    by (cases "kq_open_files s = kq_max_open_files s"; cases "?fd < 0"; cases "ke_kevent en (Suc (kq_tick s)) ?fd")
       (simp_all add: not_less)
  then show thesis
  proof cases
    case 1
    show thesis by (rule refused [of "kq_tick s"]) (use 1 e in \<open>auto simp: gam_kqueue_monitor_enable_kqueue_def\<close>)
  next
    case 2
    show thesis by (rule refused [of "Suc (kq_tick s)"]) (use 2 e in \<open>auto simp: gam_kqueue_monitor_enable_kqueue_def kq_open_def\<close>)
  next
    case 3
    show thesis by (rule opened [of ?fd "Suc (Suc (kq_tick s))"])
        (use 3 e en in \<open>auto simp: gam_kqueue_monitor_enable_kqueue_def kq_open_def kq_kevent_def fresh_fds_def\<close>)
  next
    case 4
    have "kq_fds s ?fd = None" using en 4(2) by (auto simp: fresh_fds_def)
    then have "(kq_fds s)(?fd := None) = kq_fds s" by (simp add: fun_upd_idem)
    then show thesis by (intro refused [of "Suc (Suc (kq_tick s))"])
        (use 4 e in \<open>auto simp: gam_kqueue_monitor_enable_kqueue_def kq_open_def kq_kevent_def kq_close_def\<close>)
  qed
qed

lemma enable_smon:
  assumes en: "fresh_fds en" and c: "counted s" and p: "kq_smons s p = Some sm0" "mo_fd sm = mo_fd sm0"
    and e: "gam_kqueue_monitor_enable_kqueue en p sm s = (ok, sm1, s1)"
  shows "counted (put_smon p sm1 s1)"
  using en e
proof (cases rule: enable_any)
  case (opened t fd)
  let ?s = "put_smon p sm1 s1"
  have "mon_fd ?s = (mon_fd s)(p \<mapsto> fd)" using mon_fd_smon [of ?s s p sm1] opened by (simp add: put_smon_def)
  moreover have "insert p (dom (kq_smons s)) = dom (kq_smons s)" using p(1) by auto
  ultimately show ?thesis by (intro counted_opened [OF c opened(1,3)]) (simp_all add: opened(4) put_smon_def)
next
  case (refused t)
  let ?s = "put_smon p sm1 s1"
  have "mon_fd ?s = (mon_fd s)(p \<mapsto> mo_fd sm1)" using mon_fd_smon [of ?s s p sm1] refused by (simp add: put_smon_def)
  moreover have "insert p (dom (kq_smons s)) = dom (kq_smons s)" using p(1) by auto
  moreover have "mo_fd sm1 < 0 \<or> mon_fd s p = Some (mo_fd sm1)" using refused(1) p(2) mon_fd_Some(1) [OF p(1)] by auto
  ultimately show ?thesis by (intro counted_refused [OF c, of _ p "mo_fd sm1"]) (simp_all add: refused(2) put_smon_def)
qed

lemma fmon_no_smon: "counted s \<Longrightarrow> kq_fmons s f = Some fm \<Longrightarrow> kq_smons s f = None"
  by (cases "kq_smons s f") (auto simp: counted_def)

lemma enable_fmon:
  assumes en: "fresh_fds en" and c: "counted s" and p: "kq_fmons s p = Some sm0" "mo_fd sm = mo_fd sm0"
    and e: "gam_kqueue_monitor_enable_kqueue en p sm s = (ok, sm1, s1)"
  shows "counted (put_fmon p sm1 s1)"
proof -
  note n = fmon_no_smon [OF c p(1)]
  show ?thesis using en e
  proof (cases rule: enable_any)
    case (opened t fd)
    let ?s = "put_fmon p sm1 s1"
    have "mon_fd ?s = (mon_fd s)(p \<mapsto> fd)" using mon_fd_fmon [of ?s s p "Some sm1"] opened n by (simp add: put_fmon_def)
    moreover have "insert p (dom (kq_fmons s)) = dom (kq_fmons s)" using p(1) by auto
    ultimately show ?thesis by (intro counted_opened [OF c opened(1,3)]) (simp_all add: opened(4) put_fmon_def)
  next
    case (refused t)
    let ?s = "put_fmon p sm1 s1"
    have "mon_fd ?s = (mon_fd s)(p \<mapsto> mo_fd sm1)" using mon_fd_fmon [of ?s s p "Some sm1"] refused n by (simp add: put_fmon_def)
    moreover have "insert p (dom (kq_fmons s)) = dom (kq_fmons s)" using p(1) by auto
    moreover have "mo_fd sm1 < 0 \<or> mon_fd s p = Some (mo_fd sm1)" using refused(1) p(2) mon_fd_Some(2) [OF n p(1)] by auto
    ultimately show ?thesis by (intro counted_refused [OF c, of _ p "mo_fd sm1"]) (simp_all add: refused(2) put_fmon_def)
  qed
qed

text \<open>Closing the descriptor of a monitor, which stays with other fields changed, or goes.\<close>

lemma close_effect:
  assumes "close_monitor mon s = (mon1, s1)"
  shows "mo_fd mon1 < 0" "kq_smons s1 = kq_smons s" "kq_fmons s1 = kq_fmons s"
    "kq_next s1 = kq_next s" "kq_max_open_files s1 = kq_max_open_files s"
    "if 0 \<le> mo_fd mon then kq_fds s1 = (kq_fds s)(mo_fd mon := None) \<and> kq_open_files s1 = kq_open_files s - 1
     else kq_fds s1 = kq_fds s \<and> kq_open_files s1 = kq_open_files s"
  using assms by (auto simp: close_monitor_def kq_close_def split: if_splits)

lemma counted_given_up:
  assumes c: "counted s" and q: "mon_fd s q = Some fd"
    and s': "if 0 \<le> fd then kq_fds s' = (kq_fds s)(fd := None) \<and> kq_open_files s' = kq_open_files s - 1
       else kq_fds s' = kq_fds s \<and> kq_open_files s' = kq_open_files s"
      "kq_max_open_files s' = kq_max_open_files s" "kq_next s' = kq_next s"
    and new: "mon_fd s' = (mon_fd s)(q := y)" and y: "\<And>x. y = Some x \<Longrightarrow> x < 0"
    and d: "dom (kq_smons s') \<subseteq> dom (kq_smons s)" "dom (kq_fmons s') \<subseteq> dom (kq_fmons s)"
  shows "counted s'"
proof (cases "0 \<le> fd")
  case True
  then show ?thesis using s' counted_closed [OF c True q _ _ _ _ new y d] by simp
next
  case False
  have "kq_fds s' x = Some (Some r)" if "mon_fd s' r = Some x" "0 \<le> x" for r x
  proof -
    have "r \<noteq> q" using that y by (auto simp: new)
    then show ?thesis using that c False s'(1) by (simp add: new counted_def)
  qed
  moreover have "dom (kq_smons s') \<union> dom (kq_fmons s') \<subseteq> {..<kq_next s'}" "dom (kq_smons s') \<inter> dom (kq_fmons s') = {}"
    using c d unfolding s'(3) counted_def by blast+
  ultimately show ?thesis using c False s'(1,2) unfolding counted_def by simp
qed

lemma close_smon:
  assumes c: "counted s" and p: "kq_smons s p = Some sm" and cl: "close_monitor sm s = (sm1, s1)"
  shows "mo_fd sm2 = mo_fd sm1 \<Longrightarrow> counted (put_smon p sm2 s1)" "counted (s1\<lparr>kq_smons := (kq_smons s1)(p := None)\<rparr>)"
proof -
  note e = close_effect [OF cl]
  have d: "insert p (dom (kq_smons s)) = dom (kq_smons s)" using p by auto
  have n: "kq_fmons s p = None" using c p by (cases "kq_fmons s p") (auto simp: counted_def)
  show "counted (put_smon p sm2 s1)" if "mo_fd sm2 = mo_fd sm1"
  proof (rule counted_given_up [OF c mon_fd_Some(1) [OF p], where y = "Some (mo_fd sm2)"])
    show "mon_fd (put_smon p sm2 s1) = (mon_fd s)(p := Some (mo_fd sm2))" by (rule mon_fd_smon) (simp_all add: put_smon_def e)
  qed (use e that d in \<open>simp_all add: put_smon_def\<close>)
  show "counted (s1\<lparr>kq_smons := (kq_smons s1)(p := None)\<rparr>)"
  proof (rule counted_given_up [OF c mon_fd_Some(1) [OF p], where y = None])
    show "mon_fd (s1\<lparr>kq_smons := (kq_smons s1)(p := None)\<rparr>) = (mon_fd s)(p := None)"
    proof (rule ext)
      let ?s = "s1\<lparr>kq_smons := (kq_smons s1)(p := None)\<rparr>"
      have f: "kq_smons ?s = (kq_smons s)(p := None)" "kq_fmons ?s = kq_fmons s" by (simp_all add: e)
      fix x show "mon_fd ?s x = ((mon_fd s)(p := None)) x"
        unfolding mon_fd_def f using n by (cases "x = p") simp_all
    qed
  qed (use e in auto)
qed

lemma close_fmon:
  assumes c: "counted s" and p: "kq_fmons s p = Some fm" and cl: "close_monitor fm s = (fm1, s1)"
  shows "mo_fd fm2 = mo_fd fm1 \<Longrightarrow> counted (put_fmon p fm2 s1)" "counted (s1\<lparr>kq_fmons := (kq_fmons s1)(p := None)\<rparr>)"
proof -
  note e = close_effect [OF cl] and n = fmon_no_smon [OF c p]
  have d: "insert p (dom (kq_fmons s)) = dom (kq_fmons s)" using p by auto
  show "counted (put_fmon p fm2 s1)" if "mo_fd fm2 = mo_fd fm1"
  proof (rule counted_given_up [OF c mon_fd_Some(2) [OF n p], where y = "Some (mo_fd fm2)"])
    show "mon_fd (put_fmon p fm2 s1) = (mon_fd s)(p := Some (mo_fd fm2))"
      using mon_fd_fmon [of "put_fmon p fm2 s1" s p "Some fm2"] n by (simp add: put_fmon_def e)
  qed (use e that d in \<open>simp_all add: put_fmon_def\<close>)
  show "counted (s1\<lparr>kq_fmons := (kq_fmons s1)(p := None)\<rparr>)"
  proof (rule counted_given_up [OF c mon_fd_Some(2) [OF n p], where y = None])
    show "mon_fd (s1\<lparr>kq_fmons := (kq_fmons s1)(p := None)\<rparr>) = (mon_fd s)(p := None)"
      using mon_fd_fmon [of "s1\<lparr>kq_fmons := (kq_fmons s1)(p := None)\<rparr>" s p None] n by (simp add: e)
  qed (use e in auto)
qed

section \<open>Tables\<close>

definition mkeeps :: "'b ksrv_scheme HashTableMethods \<Rightarrow> bool" where
  "mkeeps m \<longleftrightarrow> (\<forall>t x. keeps (hm_add m t x) \<and> keeps (hm_remove m t x)) \<and>
     (\<forall>g t. hm_post_add m = Some g \<or> hm_post_remove m = Some g \<longrightarrow> keeps (g t))"

lemma keeps_post: "(\<And>g. f = Some g \<Longrightarrow> keeps (g t)) \<Longrightarrow> counted s \<Longrightarrow> good (post f t s)"
  by (cases f) (auto simp: post_def keeps_def)

lemma mkeepsD:
  assumes "mkeeps m" "counted s"
  shows "good (hm_add m t x s)" "good (hm_remove m t x s)" "good (post (hm_post_add m) t s)" "good (post (hm_post_remove m) t s)"
  using assms by (auto simp: mkeeps_def intro: keeps_post keepsD)

lemma keeps_table:
  assumes "mkeeps m" "counted s"
  shows "good (gam_kqueue_hash_table_add m t x s)" "good (gam_kqueue_hash_table_remove m t x s)"
  unfolding gam_kqueue_hash_table_add_def gam_kqueue_hash_table_remove_def
  using assms by (auto intro!: good_bind mkeepsD intro: good_read)

lemma keeps_each: "(\<And>x. keeps (f x)) \<Longrightarrow> counted s \<Longrightarrow> good (table_each f xs s)"
  by (induction xs arbitrary: s) (auto intro!: good_bind intro: keepsD)

lemma keeps_walk: "(\<And>x. keeps (f x)) \<Longrightarrow> counted s \<Longrightarrow> good (table_foreach t main f xs s)"
  by (induction xs arbitrary: s) (auto intro!: good_bind intro: good_read keepsD)

lemma keeps_applied:
  assumes "mkeeps m" "counted s"
  shows "good (apply_additions m t s)" "good (apply_removals m t s)"
proof -
  have a: "keeps (hm_add m t x)" "keeps (hm_remove m t x)" for x using assms(1) by (auto simp: mkeeps_def)
  show "good (apply_additions m t s)" "good (apply_removals m t s)"
    unfolding apply_additions_def apply_removals_def
    by (rule good_read, auto intro!: good_bind mkeepsD keeps_each a assms)+
qed

lemma keeps_foreach:
  assumes "mkeeps m" "\<And>x. keeps (f x)" "counted s"
  shows "good (gam_kqueue_hash_table_foreach en m t f s)"
  unfolding gam_kqueue_hash_table_foreach_def
  by (rule good_read) (auto simp: assms(3) intro!: good_bind keeps_walk keeps_applied assms)

lemma mkeeps_poller: "mkeeps poller_hash_table_methods"
proof -
  have "keeps (gam_kqueue_poller_post_add_cb t)" "keeps (gam_kqueue_poller_post_remove_cb t)" for t
    by (cases t; auto simp: keeps_def Let_def)+
  moreover have "keeps (gam_kqueue_hash_table_default_add_cb t x)" "keeps (gam_kqueue_hash_table_default_remove_cb t x)" for t x
    by (simp_all add: keeps_def gam_kqueue_hash_table_default_add_cb_def gam_kqueue_hash_table_default_remove_cb_def)
  ultimately show ?thesis by (auto simp: mkeeps_def poller_hash_table_methods_def)
qed

lemma keeps_poller:
  "counted s \<Longrightarrow> good (gam_kqueue_poller_add_sub_monitor k p s)" "counted s \<Longrightarrow> good (gam_kqueue_poller_remove_sub_monitor k p s)"
  by (simp_all add: gam_kqueue_poller_add_sub_monitor_def gam_kqueue_poller_remove_sub_monitor_def keeps_table mkeeps_poller)

section \<open>File monitors\<close>

lemma keeps_file_free: "counted s \<Longrightarrow> good (gam_kqueue_file_monitor_free f s)"
  unfolding gam_kqueue_file_monitor_free_def gam_kqueue_monitor_free_def Let_def
  by (rule good_read) (auto intro: close_fmon(2) [OF _ _ surjective_pairing])

lemma keeps_fmon_cbs:
  "keeps (gam_kqueue_sub_monitor_add_fmon_cb t x)" "keeps (gam_kqueue_sub_monitor_remove_fmon_cb t x)"
  unfolding gam_kqueue_sub_monitor_add_fmon_cb_def gam_kqueue_sub_monitor_remove_fmon_cb_def
  by (auto intro!: keepsI good_read keeps_file_free split: option.splits)

lemma mkeeps_fmons: "mkeeps sub_monitor_fmons_hash_table_methods"
  by (simp add: mkeeps_def sub_monitor_fmons_hash_table_methods_def keeps_fmon_cbs)

lemma mkeeps_unsupported: "mkeeps sub_monitor_unsupported_fmons_hash_table_methods"
proof -
  have "keeps (gam_kqueue_sub_monitor_post_add_unsupported_fmon_cb t)" "keeps (gam_kqueue_sub_monitor_post_remove_unsupported_fmon_cb t)" for t
    by (cases t; auto intro!: keepsI good_read keeps_poller)+
  moreover have "keeps (gam_kqueue_hash_table_default_add_cb t x)" "keeps (gam_kqueue_hash_table_default_remove_cb t x)" for t x
    by (simp_all add: keeps_def gam_kqueue_hash_table_default_add_cb_def gam_kqueue_hash_table_default_remove_cb_def)
  ultimately show ?thesis by (auto simp: mkeeps_def sub_monitor_unsupported_fmons_hash_table_methods_def)
qed

lemma keeps_fmon_tables:
  "counted s \<Longrightarrow> good (add_fmon p f s)" "counted s \<Longrightarrow> good (remove_fmon p f s)"
  "counted s \<Longrightarrow> good (add_unsupported p f s)" "counted s \<Longrightarrow> good (remove_unsupported p f s)"
  by (simp_all add: add_fmon_def remove_fmon_def add_unsupported_def remove_unsupported_def keeps_table mkeeps_fmons mkeeps_unsupported)

lemma mini_lstat_tick: "\<exists>t. snd (gam_kqueue_mini_lstat en path s) = s\<lparr>kq_tick := t\<rparr>"
  by (auto simp: gam_kqueue_mini_lstat_def kq_lstat_def Let_def split: option.splits)

lemma set_unsupported_counts:
  assumes "gam_kqueue_monitor_set_unsupported en mon s = (mon2, s2)"
  obtains mon1 s1 t where "close_monitor mon s = (mon1, s1)" "s2 = s1\<lparr>kq_tick := t\<rparr>" "mo_fd mon2 = mo_fd mon1"
proof -
  obtain mon1 s1 where c: "close_monitor mon s = (mon1, s1)" by (cases "close_monitor mon s")
  obtain t where "snd (gam_kqueue_mini_lstat en (mo_pathname mon1) s1) = s1\<lparr>kq_tick := t\<rparr>" using mini_lstat_tick by blast
  then show thesis using assms c by (intro that [OF c, of t]) (auto simp: gam_kqueue_monitor_set_unsupported_def split_beta)
qed

lemma put_tick: "put_smon p sm (s\<lparr>kq_tick := t\<rparr>) = (put_smon p sm s)\<lparr>kq_tick := t\<rparr>"
  "put_fmon f fm (s\<lparr>kq_tick := t\<rparr>) = (put_fmon f fm s)\<lparr>kq_tick := t\<rparr>"
  by (simp_all add: put_smon_def put_fmon_def)

lemma keeps_file_unsupported: "counted s \<Longrightarrow> good (gam_kqueue_file_monitor_set_unsupported en f s)"
proof -
  assume c: "counted s"
  have "good (add_unsupported (fm_smon fm2) f (put_fmon f fm2 s2))"
    if "kq_fmons s f = Some fm" "gam_kqueue_monitor_set_unsupported en fm s = (fm2, s2)" for fm fm2 s2
    using that(2)
  proof (rule set_unsupported_counts)
    fix fm1 s1 t assume "close_monitor fm s = (fm1, s1)" "s2 = s1\<lparr>kq_tick := t\<rparr>" "mo_fd fm2 = mo_fd fm1"
    then have "counted (put_fmon f fm2 s2)" using close_fmon(1) [OF c that(1)] by (simp add: put_tick)
    then show ?thesis by (rule keeps_fmon_tables)
  qed
  then show ?thesis unfolding gam_kqueue_file_monitor_set_unsupported_def by (auto intro!: good_read split: prod.splits)
qed

lemma counted_new_fmon:
  assumes c: "counted s" and fd: "mo_fd fm < 0"
  shows "counted (put_fmon (kq_next s) fm (s\<lparr>kq_next := Suc (kq_next s)\<rparr>))"
proof -
  let ?f = "kq_next s" and ?s = "put_fmon (kq_next s) fm (s\<lparr>kq_next := Suc (kq_next s)\<rparr>)"
  have n: "kq_smons s ?f = None" "kq_fmons s ?f = None"
    using c by (cases "kq_smons s ?f"; cases "kq_fmons s ?f"; auto simp: counted_def)+
  have "mon_fd ?s = (mon_fd s)(?f := map_option mo_fd (Some fm))" by (rule mon_fd_fmon) (simp_all add: put_fmon_def n)
  then have m: "mon_fd ?s q = Some x \<Longrightarrow> 0 \<le> x \<Longrightarrow> kq_fds s x = Some (Some q)" for q x
    using c fd by (cases "q = ?f") (auto simp: counted_def)
  have "dom (kq_smons s) \<union> dom (kq_fmons s) \<subseteq> {..<?f}" "dom (kq_smons s) \<inter> dom (kq_fmons s) = {}" using c by (simp_all add: counted_def)
  then have "dom (kq_smons s) \<union> insert ?f (dom (kq_fmons s)) \<subseteq> {..<Suc ?f}" "dom (kq_smons s) \<inter> insert ?f (dom (kq_fmons s)) = {}"
    by auto
  then show ?thesis using c m by (simp add: counted_def put_fmon_def)
qed

lemma keeps_file_new:
  assumes en: "fresh_fds en" and c: "counted s" and r: "gam_kqueue_file_monitor_new en p name s = Some (f, fl, s')"
  shows "counted s'"
proof -
  obtain sm where sm: "kq_smons s p = Some sm" using r by (cases "kq_smons s p") (simp_all add: gam_kqueue_file_monitor_new_def)
  define fm where "fm = \<lparr>mo_pathname = g_build_filename (mo_pathname sm) name, mo_fd = -1, mo_sb = ministat_zero, mo_poll_count = 0,
     fm_smon = p, fm_filename = after_slash (g_build_filename (mo_pathname sm) name)\<rparr>"
  let ?f = "kq_next s" and ?s0 = "put_fmon (kq_next s) fm (s\<lparr>kq_next := Suc (kq_next s)\<rparr>)"
  have c0: "counted ?s0" by (rule counted_new_fmon [OF c]) (simp add: fm_def)
  have r': "(do { s1 \<leftarrow> add_fmon p ?f ?s0;
      fm1 \<leftarrow> kq_fmons s1 ?f;
      let (ok, fm2, s2) = gam_kqueue_monitor_enable_kqueue en ?f fm1 s1; s3 = put_fmon ?f fm2 s2
      in if ok then Some (?f, 0, s3)
         else do { s4 \<leftarrow> gam_kqueue_file_monitor_set_unsupported en ?f s3;
                   fm4 \<leftarrow> kq_fmons s4 ?f;
                   Some (?f, dir_flag (mode_isdir (ms_mode (mo_sb fm4))), s4) } }) = Some (f, fl, s')"
    using r sm by (simp add: gam_kqueue_file_monitor_new_def Let_def fm_def)
  then obtain s1 fm1 where s1: "add_fmon p ?f ?s0 = Some s1" "kq_fmons s1 ?f = Some fm1" by (auto simp: bind_eq_Some_conv)
  have c1: "counted s1" using keeps_fmon_tables(1) [OF c0, of p ?f] s1(1) by simp
  obtain ok fm2 s2 where e: "gam_kqueue_monitor_enable_kqueue en ?f fm1 s1 = (ok, fm2, s2)"
    by (cases "gam_kqueue_monitor_enable_kqueue en ?f fm1 s1")
  have c3: "counted (put_fmon ?f fm2 s2)" by (rule enable_fmon [OF en c1 s1(2) refl e])
  show ?thesis
  proof (cases ok)
    case True
    then show ?thesis using r' s1 e c3 by auto
  next
    case False
    then have "gam_kqueue_file_monitor_set_unsupported en ?f (put_fmon ?f fm2 s2) = Some s'"
      using r' s1 e by (auto simp: bind_eq_Some_conv)
    then show ?thesis using keeps_file_unsupported [OF c3, of en ?f] by simp
  qed
qed

lemma keeps_file_new_then:
  assumes "fresh_fds en" "counted s" "\<And>f fl s'. counted s' \<Longrightarrow> good (g f fl s')"
  shows "good (do { (f, fl, s') \<leftarrow> gam_kqueue_file_monitor_new en p name s; g f fl s' })"
  by (rule good_read) (use keeps_file_new [OF assms(1,2)] assms(3) in \<open>auto split: prod.splits\<close>)

lemma keeps_emit: "counted s \<Longrightarrow> good (gam_server_emit_event path d e qs f s)"
proof (induction qs arbitrary: s)
  case (Cons q qs)
  have "counted s1" if "gam_server_emit_one_event path d e q f s = Some s1" for s1
    using emit_one_quiet [OF that] Cons.prems by (auto simp: quiet_def intro: counted_more)
  then show ?case using Cons.IH by (auto intro!: good_read)
qed simp

lemma counted_lstat [simp]: "counted s \<Longrightarrow> counted (snd (kq_lstat en path s))" "counted s \<Longrightarrow> counted (snd (kq_readdir en path s))"
  by (simp_all add: kq_lstat_def kq_readdir_def)

lemma keeps_file_emit:
  fixes s :: "'x ksrv_scheme"
  assumes en: "fresh_fds en"
  shows "counted s \<Longrightarrow> good (file_monitor_emit k en f event flags s)"
proof (induction k arbitrary: f event flags s)
  case (Suc k)
  have step: "good (let (r2, s3) = (if b then (r, s2) else kq_lstat en path s2)
        in if r2 \<noteq> None then
             do { (new, new_flags, s4) \<leftarrow> gam_kqueue_file_monitor_new en p name s3;
                  file_monitor_emit k en new GAMIN_EVENT_CREATED new_flags s4 }
           else remove_fmon p f s3)" if c: "counted s2" for b r path p name and s2 :: "'x ksrv_scheme"
  proof -
    have c3: "counted (snd (if b then (r, s2) else kq_lstat en path s2))" using c counted_lstat by simp
    obtain r2 s3 where e: "(if b then (r, s2) else kq_lstat en path s2) = (r2, s3)" by fastforce
    then have s3: "counted s3" using c3 by simp
    show ?thesis unfolding e Let_def prod.case
      by (rule good_if, rule keeps_file_new_then [OF en s3]) (auto intro: Suc.IH keeps_fmon_tables(2) s3)
  qed
  show ?case unfolding file_monitor_emit.simps
  proof (rule good_read, rule good_read)
    fix fm sm assume "kq_fmons s f = Some fm" "kq_smons s (fm_smon fm) = Some sm"
    let ?sd = "\<not> has_flag flags MONITOR_ISDIR \<and> \<not> has_flag flags MONITOR_ISNOTDIR"
    obtain r s0 where e: "(if ?sd then kq_lstat en (mo_pathname fm) s else (None, s)) = (r, s0)" by fastforce
    have "counted (snd (if ?sd then kq_lstat en (mo_pathname fm) s else (None, s)))" using counted_lstat Suc.prems by simp
    then have c0: "counted s0" using e by simp
    show "good (let stat_done = ?sd; (r, s0) = (if stat_done then kq_lstat en (mo_pathname fm) s else (None, s));
              isdir = (if stat_done then (case r of None \<Rightarrow> False | Some sb \<Rightarrow> mode_isdir (ks_mode sb))
                       else has_flag flags MONITOR_ISDIR)
          in do { s1 \<leftarrow> gam_server_emit_event (mo_pathname fm) isdir event (sm_subs sm) True s0;
                  if event = GAMIN_EVENT_DELETED \<or> event = GAMIN_EVENT_MOVED then
                    do { s2 \<leftarrow> (if mo_fd fm < 0 then remove_unsupported (fm_smon fm) f s1 else Some s1);
                         if has_flag flags FILE_MONITOR_POSSIBLY_RECREATED then
                           (let (r2, s3) = (if stat_done then (r, s2) else kq_lstat en (mo_pathname fm) s2)
                            in if r2 \<noteq> None then
                                 do { (new, new_flags, s4) \<leftarrow> gam_kqueue_file_monitor_new en (fm_smon fm) (fm_filename fm) s3;
                                      file_monitor_emit k en new GAMIN_EVENT_CREATED new_flags s4 }
                               else remove_fmon (fm_smon fm) f s3)
                         else remove_fmon (fm_smon fm) f s2 }
                  else Some s1 })"
      unfolding Let_def e prod.case
      by (rule good_bind [OF keeps_emit [OF c0]], rule good_if, rule good_bind)
         (use step keeps_fmon_tables in \<open>auto simp: Let_def\<close>)
  qed
qed simp

lemma keeps_file_emit_event: "fresh_fds en \<Longrightarrow> counted s \<Longrightarrow> good (gam_kqueue_file_monitor_emit_event en f event flags s)"
  by (simp add: gam_kqueue_file_monitor_emit_event_def keeps_file_emit)

section \<open>Monitors of subscriptions\<close>

lemma keeps_init_fmons: "counted s \<Longrightarrow> good (gam_kqueue_sub_monitor_init_fmons p s)"
  unfolding gam_kqueue_sub_monitor_init_fmons_def by (rule good_read) (simp add: counted_put_smon)

lemma keeps_destroy: "(\<And>x. keeps (f x)) \<Longrightarrow> counted s \<Longrightarrow> good (gam_kqueue_hash_table_destroy f t s)"
  unfolding gam_kqueue_hash_table_destroy_def
  by (rule good_read) (auto intro!: good_bind keeps_each)

lemma keeps_clear_fmons: "counted s \<Longrightarrow> good (gam_kqueue_sub_monitor_clear_fmons p s)"
proof -
  assume c: "counted s"
  have a: "keeps (\<lambda>s. Some s)" "keeps (gam_kqueue_file_monitor_free f)" for f by (simp_all add: keeps_def keeps_file_free)
  show ?thesis unfolding gam_kqueue_sub_monitor_clear_fmons_def
    by (rule good_read, rule good_bind, rule good_if)
       (auto simp: c intro!: good_bind keeps_poller keeps_destroy keeps_file_free keepsI)
qed

lemma keeps_smon_free: "counted s \<Longrightarrow> good (gam_kqueue_sub_monitor_free p s)"
proof -
  assume c: "counted s"
  have fin: "good (do { sm \<leftarrow> kq_smons s3 p; let s4 = gam_kqueue_monitor_free sm s3 in Some (s4\<lparr>kq_smons := (kq_smons s4)(p := None)\<rparr>) })"
    if "counted s3" for s3 :: "'a ksrv_scheme"
    unfolding gam_kqueue_monitor_free_def Let_def
    by (rule good_read) (use close_smon(2) [OF that _ surjective_pairing] in auto)
  show ?thesis unfolding gam_kqueue_sub_monitor_free_def
    by (rule good_bind [OF keeps_poller(2) [OF c]], rule good_bind [OF keeps_poller(2)], assumption,
        rule good_bind [OF keeps_clear_fmons], assumption, rule fin)
qed

lemma keeps_set_missing: "counted s \<Longrightarrow> good (gam_kqueue_sub_monitor_set_missing p s)"
proof -
  assume c: "counted s"
  show ?thesis unfolding gam_kqueue_sub_monitor_set_missing_def
  proof (rule good_read)
    fix sm assume p: "kq_smons s p = Some sm"
    obtain sm1 s0 where e: "close_monitor sm s = (sm1, s0)" by (cases "close_monitor sm s")
    have c1: "counted (put_smon p sm1 s0)" by (rule close_smon(1) [OF c p e refl])
    show "good (let (sm1, s0) = close_monitor sm s; s1 = put_smon p sm1 s0
          in do { s2 \<leftarrow> (if ht_main (sm_fmons sm1) \<noteq> []
                         then do { s2 \<leftarrow> gam_kqueue_sub_monitor_clear_fmons p s1;
                                   gam_kqueue_sub_monitor_init_fmons p s2 }
                         else Some s1);
                  s3 \<leftarrow> gam_kqueue_poller_remove_sub_monitor unsupported_smon_poller p s2;
                  gam_kqueue_poller_add_sub_monitor missing_smon_poller p s3 })"
      unfolding e Let_def prod.case
      by (rule good_bind, rule good_if) (auto simp: c1 intro!: good_bind keeps_clear_fmons keeps_init_fmons keeps_poller)
  qed
qed

lemma keeps_set_unsupported: "counted s \<Longrightarrow> good (gam_kqueue_sub_monitor_set_unsupported en p s)"
proof -
  assume c: "counted s"
  have "good (gam_kqueue_poller_add_sub_monitor unsupported_smon_poller p (put_smon p sm2 s2))"
    if "kq_smons s p = Some sm" "gam_kqueue_monitor_set_unsupported en sm s = (sm2, s2)" for sm sm2 s2
    using that(2)
  proof (rule set_unsupported_counts)
    fix sm1 s1 t assume "close_monitor sm s = (sm1, s1)" "s2 = s1\<lparr>kq_tick := t\<rparr>" "mo_fd sm2 = mo_fd sm1"
    then have "counted (put_smon p sm2 s2)" using close_smon(1) [OF c that(1)] by (simp add: put_tick)
    then show ?thesis by (rule keeps_poller)
  qed
  then show ?thesis unfolding gam_kqueue_sub_monitor_set_unsupported_def by (auto intro!: good_read split: prod.splits)
qed

lemma keeps_new_entries: "fresh_fds en \<Longrightarrow> counted s \<Longrightarrow> good (new_entries en p event names s)"
  by (induction names arbitrary: s) (auto intro!: keeps_file_new_then good_bind keeps_file_emit_event)

lemma keeps_change_entries:
  assumes en: "fresh_fds en"
  shows "counted s \<Longrightarrow> good (change_entries en p names s)"
proof (induction names arbitrary: s)
  case (Cons n names)
  have new: "good (do { (f, flags, s1) \<leftarrow> gam_kqueue_file_monitor_new en p n s;
                        gam_kqueue_file_monitor_emit_event en f GAMIN_EVENT_CREATED flags s1 })"
    by (rule keeps_file_new_then [OF en Cons.prems]) (rule keeps_file_emit_event [OF en])
  show ?case unfolding change_entries.simps
    by (rule good_read, rule good_read, rule good_bind) (use new Cons in \<open>auto intro: good_if\<close>)
qed simp

lemma keeps_directory_change:
  assumes en: "fresh_fds en" and c: "counted s"
  shows "good (gam_kqueue_sub_monitor_handle_directory_change en p isdir s)"
proof -
  have k: "keeps (gam_kqueue_sub_monitor_handle_directory_change_removal_cb en names f)" for names f
    unfolding gam_kqueue_sub_monitor_handle_directory_change_removal_cb_def
    by (rule keepsI, rule good_read) (simp add: keeps_file_emit_event [OF en])
  show ?thesis unfolding gam_kqueue_sub_monitor_handle_directory_change_def
  proof (rule good_read)
    fix sm :: SubMonitor
    obtain r s1 where e: "(if isdir then kq_readdir en (mo_pathname sm) s else (None, s)) = (r, s1)" by fastforce
    have "counted (snd (if isdir then kq_readdir en (mo_pathname sm) s else (None, s)))" using c by simp
    then have c1: "counted s1" using e by simp
    show "good (let (r, s1) = (if isdir then kq_readdir en (mo_pathname sm) s else (None, s));
              filenames = (case r of None \<Rightarrow> [] | Some names \<Rightarrow> names)
          in do { s2 \<leftarrow> change_entries en p filenames s1;
                  gam_kqueue_hash_table_foreach en sub_monitor_fmons_hash_table_methods (T_FMONS p)
                    (gam_kqueue_sub_monitor_handle_directory_change_removal_cb en filenames) s2 })"
      unfolding e Let_def prod.case
      by (rule good_bind [OF keeps_change_entries [OF en c1]], rule keeps_foreach [OF mkeeps_fmons k])
  qed
qed

lemma keeps_smon_emit:
  assumes en: "fresh_fds en" and c: "counted s"
  shows "good (gam_kqueue_sub_monitor_emit_event en p event flags s)"
  unfolding gam_kqueue_sub_monitor_emit_event_def
proof (rule good_read)
  fix sm :: SubMonitor
  obtain isdir s1 where e: "gam_kqueue_isdir en (mo_pathname sm) flags s = (isdir, s1)" by (cases "gam_kqueue_isdir en (mo_pathname sm) flags s")
  have "counted (snd (gam_kqueue_isdir en (mo_pathname sm) flags s))"
    using c counted_lstat(1) [OF c, of en "mo_pathname sm"] by (auto simp: gam_kqueue_isdir_def split_beta)
  then have c1: "counted s1" using e by simp
  show "good (let (isdir, s1) = gam_kqueue_isdir en (mo_pathname sm) flags s
          in if event = GAMIN_EVENT_CHANGED \<and> sm_isdir sm
             then gam_kqueue_sub_monitor_handle_directory_change en p isdir s1
             else
               do { s2 \<leftarrow> (if event = GAMIN_EVENT_DELETED \<or> event = GAMIN_EVENT_MOVED
                           then gam_kqueue_sub_monitor_set_missing p s1 else Some s1);
                    gam_server_emit_event (mo_pathname sm) isdir event (sm_subs sm) True s2 })"
    unfolding e Let_def prod.case
    by (rule good_if, rule keeps_directory_change [OF en c1], rule good_bind, rule good_if)
       (auto simp: c1 intro: keeps_set_missing keeps_emit)
qed

lemma keeps_enable_notification:
  assumes en: "fresh_fds en" and c: "counted s0"
  shows "good (gam_kqueue_sub_monitor_enable_notification en p flags0 s0)"
  unfolding gam_kqueue_sub_monitor_enable_notification_def
proof (rule good_read)
  fix sm :: SubMonitor
  let ?wm = "has_flag flags0 SUB_MONITOR_WAS_MISSING"
  obtain r s where e: "(if ?wm then (None, s0) else kq_lstat en (mo_pathname sm) s0) = (r, s)" by fastforce
  have "counted (snd (if ?wm then (None, s0) else kq_lstat en (mo_pathname sm) s0))" using c by simp
  then have c1: "counted s" using e by simp
  have last: "good (do { sm3 \<leftarrow> kq_smons s3 p;
                       let (ok, sm4, s4) = gam_kqueue_monitor_enable_kqueue en p sm3 s3;
                           s5 = put_smon p sm4 s4
                       in if \<not> ok then gam_kqueue_sub_monitor_set_unsupported en p s5 else Some s5 })"
    if c3: "counted s3" for s3 :: "'a ksrv_scheme"
  proof (rule good_read)
    fix sm3 assume p: "kq_smons s3 p = Some sm3"
    obtain ok sm4 s4 where e: "gam_kqueue_monitor_enable_kqueue en p sm3 s3 = (ok, sm4, s4)"
      by (cases "gam_kqueue_monitor_enable_kqueue en p sm3 s3")
    have "counted (put_smon p sm4 s4)" by (rule enable_smon [OF en c3 p refl e])
    then show "good (let (ok, sm4, s4) = gam_kqueue_monitor_enable_kqueue en p sm3 s3; s5 = put_smon p sm4 s4
        in if \<not> ok then gam_kqueue_sub_monitor_set_unsupported en p s5 else Some s5)"
      unfolding e Let_def prod.case by (auto intro: keeps_set_unsupported)
  qed
  have list: "good (let (names, s2) = kq_readdir en (mo_pathname sm) s1 in
      case names of None \<Rightarrow> Some s2 | Some filenames \<Rightarrow> new_entries en p gevent filenames s2)"
    if c1: "counted s1" for s1 :: "'a ksrv_scheme" and gevent
  proof -
    obtain names s2 where e: "kq_readdir en (mo_pathname sm) s1 = (names, s2)" by (cases "kq_readdir en (mo_pathname sm) s1")
    then have "counted s2" using counted_lstat(2) [OF c1, of en "mo_pathname sm"] by simp
    then show ?thesis unfolding e Let_def prod.case by (auto intro: keeps_new_entries [OF en] split: option.split)
  qed
  note emit = keeps_smon_emit [OF en]
  show "good (let was_missing = ?wm;
              (r, s) = (if was_missing then (None, s0) else kq_lstat en (mo_pathname sm) s0);
              exists = (was_missing \<or> r \<noteq> None);
              flags = (if was_missing then flags0
                       else flags0 OR dir_flag (case r of None \<Rightarrow> False | Some sb \<Rightarrow> mode_isdir (ks_mode sb)))
          in if exists then
               let gevent = (if was_missing then GAMIN_EVENT_CREATED else GAMIN_EVENT_EXISTS)
               in do { s1 \<leftarrow> gam_kqueue_sub_monitor_emit_event en p gevent flags s;
                       s2 \<leftarrow> (if sm_isdir sm \<and> has_flag flags MONITOR_ISDIR then
                               (let (names, s2) = kq_readdir en (mo_pathname sm) s1 in
                                case names of
                                  None \<Rightarrow> Some s2
                                | Some filenames \<Rightarrow> new_entries en p gevent filenames s2)
                              else Some s1);
                       s3 \<leftarrow> (if \<not> was_missing
                              then gam_kqueue_sub_monitor_emit_event en p GAMIN_EVENT_ENDEXISTS flags s2 else Some s2);
                       sm3 \<leftarrow> kq_smons s3 p;
                       let (ok, sm4, s4) = gam_kqueue_monitor_enable_kqueue en p sm3 s3;
                           s5 = put_smon p sm4 s4
                       in if \<not> ok then gam_kqueue_sub_monitor_set_unsupported en p s5 else Some s5 }
             else
               do { s1 \<leftarrow> gam_kqueue_sub_monitor_emit_event en p GAMIN_EVENT_DELETED flags s;
                    gam_kqueue_sub_monitor_emit_event en p GAMIN_EVENT_ENDEXISTS flags s1 })"
    unfolding Let_def e prod.case
    by (rule good_if; rule good_bind [OF emit [OF c1]])
       (auto intro!: good_bind emit last [unfolded Let_def] list [unfolded Let_def])
qed

section \<open>Events and timers\<close>

lemma keeps_smon_kevent:
  assumes en: "fresh_fds en" and c: "counted s"
  shows "good (gam_kqueue_sub_monitor_handle_kevent en p ev s)"
  unfolding gam_kqueue_sub_monitor_handle_kevent_def
  by (rule good_if, rule keeps_set_unsupported [OF c], rule good_bind, rule good_if)
     (auto simp: c intro!: keeps_smon_emit [OF en])

lemma keeps_fmon_kevent:
  assumes en: "fresh_fds en" and c: "counted s"
  shows "good (gam_kqueue_file_monitor_handle_kevent en p ev s)"
  unfolding gam_kqueue_file_monitor_handle_kevent_def
  by (rule good_if, rule keeps_file_unsupported [OF c], rule good_bind, rule good_if)
     (auto simp: c intro!: keeps_file_emit_event [OF en])

lemma keeps_kevents:
  assumes en: "fresh_fds en"
  shows "counted s \<Longrightarrow> good (handle_kevents en evs s)"
  by (induction evs arbitrary: s)
     (auto simp: handle_kevent_def intro!: good_bind keeps_smon_kevent [OF en] keeps_fmon_kevent [OF en])

lemma keeps_missing_poll:
  assumes en: "fresh_fds en" and c: "counted s"
  shows "good (gam_kqueue_missing_smon_poll en p s)"
  unfolding gam_kqueue_missing_smon_poll_def
proof (rule good_read)
  fix sm :: SubMonitor
  obtain r s1 where e: "kq_lstat en (mo_pathname sm) s = (r, s1)" by (cases "kq_lstat en (mo_pathname sm) s")
  then have "counted s1" using counted_lstat(1) [OF c, of en "mo_pathname sm"] by simp
  then show "good (let (r, s1) = kq_lstat en (mo_pathname sm) s
          in case r of
               None \<Rightarrow> Some s1
             | Some sb \<Rightarrow>
                 do { s2 \<leftarrow> gam_kqueue_poller_remove_sub_monitor missing_smon_poller p s1;
                      gam_kqueue_sub_monitor_enable_notification en p
                        (SUB_MONITOR_WAS_MISSING OR dir_flag (mode_isdir (ks_mode sb))) s2 })"
    unfolding e Let_def prod.case by (auto intro!: good_bind keeps_poller keeps_enable_notification [OF en] split: option.split)
qed

lemma keeps_unsupported_poll:
  assumes en: "fresh_fds en" and c: "counted s"
  shows "good (gam_kqueue_unsupported_smon_poll en p s)"
  unfolding gam_kqueue_unsupported_smon_poll_def
proof (rule good_read)
  fix sm assume p: "kq_smons s p = Some sm"
  let ?sm0 = "sm\<lparr>mo_poll_count := mo_poll_count sm + 1\<rparr>"
  let ?first = "if mo_poll_count ?sm0 = CFG_UNSUPPORTED_SMON_KQUEUE_RETRY_FREQUENCY then
       (let (ok, sm1, s1) = gam_kqueue_monitor_enable_kqueue en p (?sm0\<lparr>mo_poll_count := 0\<rparr>) s; s2 = put_smon p sm1 s1
        in if ok then gam_kqueue_poller_remove_sub_monitor missing_smon_poller p s2 else Some s2)
     else Some (put_smon p ?sm0 s)"
  have first: "good ?first"
  proof (rule good_if)
    obtain ok sm1 s1 where e: "gam_kqueue_monitor_enable_kqueue en p (?sm0\<lparr>mo_poll_count := 0\<rparr>) s = (ok, sm1, s1)"
      by (cases "gam_kqueue_monitor_enable_kqueue en p (?sm0\<lparr>mo_poll_count := 0\<rparr>) s")
    have "counted (put_smon p sm1 s1)" by (rule enable_smon [OF en c p _ e]) simp
    then show "good (let (ok, sm1, s1) = gam_kqueue_monitor_enable_kqueue en p (?sm0\<lparr>mo_poll_count := 0\<rparr>) s; s2 = put_smon p sm1 s1
        in if ok then gam_kqueue_poller_remove_sub_monitor missing_smon_poller p s2 else Some s2)"
      unfolding e Let_def prod.case by (auto intro: keeps_poller)
    show "good (Some (put_smon p ?sm0 s))" using counted_put_smon [OF c p, of ?sm0] by simp
  qed
  show "good (let sm0 = sm\<lparr>mo_poll_count := mo_poll_count sm + 1\<rparr>
          in do { s1 \<leftarrow> (if mo_poll_count sm0 = CFG_UNSUPPORTED_SMON_KQUEUE_RETRY_FREQUENCY then
                          (let (ok, sm1, s1) = gam_kqueue_monitor_enable_kqueue en p (sm0\<lparr>mo_poll_count := 0\<rparr>) s;
                               s2 = put_smon p sm1 s1
                           in if ok then gam_kqueue_poller_remove_sub_monitor missing_smon_poller p s2 else Some s2)
                         else Some (put_smon p sm0 s));
                  sm1 \<leftarrow> kq_smons s1 p;
                  let (sb, s2) = gam_kqueue_mini_lstat en (mo_pathname sm1) s1
                  in case smon_poll_event sb (mo_sb sm1) of
                       None \<Rightarrow> Some s2
                     | Some event \<Rightarrow>
                         gam_kqueue_sub_monitor_emit_event en p event (dir_flag (mode_isdir (ms_mode sb)))
                           (put_smon p (sm1\<lparr>mo_sb := sb\<rparr>) s2) })"
    unfolding Let_def
  proof (rule good_bind [OF first [unfolded Let_def]], rule good_read)
    fix s1 :: "'a ksrv_scheme" and sm1 assume c1: "counted s1" and p1: "kq_smons s1 p = Some sm1"
    obtain t sb where e: "gam_kqueue_mini_lstat en (mo_pathname sm1) s1 = (sb, s1\<lparr>kq_tick := t\<rparr>)" by (rule mini_lstat_effect)
    have "counted (put_smon p (sm1\<lparr>mo_sb := sb\<rparr>) (s1\<lparr>kq_tick := t\<rparr>))"
      by (rule counted_put_smon [of _ _ sm1]) (simp_all add: c1 p1)
    then show "good (case gam_kqueue_mini_lstat en (mo_pathname sm1) s1 of (sb, s2) \<Rightarrow>
        (case smon_poll_event sb (mo_sb sm1) of None \<Rightarrow> Some s2
         | Some event \<Rightarrow> gam_kqueue_sub_monitor_emit_event en p event (dir_flag (mode_isdir (ms_mode sb))) (put_smon p (sm1\<lparr>mo_sb := sb\<rparr>) s2)))"
      unfolding e prod.case by (auto simp: c1 intro!: keeps_smon_emit [OF en] split: option.split)
  qed
qed

lemma keeps_file_poll:
  assumes en: "fresh_fds en" and c: "counted s"
  shows "good (gam_kqueue_unsupported_fmon_poll_foreach_cb en f s)"
  unfolding gam_kqueue_unsupported_fmon_poll_foreach_cb_def
proof (rule good_read)
  fix fm assume f: "kq_fmons s f = Some fm"
  let ?fm0 = "fm\<lparr>mo_poll_count := mo_poll_count fm + 1\<rparr>"
  let ?first = "if mo_poll_count ?fm0 = CFG_UNSUPPORTED_FMON_KQUEUE_RETRY_FREQUENCY then
       (let (ok, fm1, s1) = gam_kqueue_monitor_enable_kqueue en f (?fm0\<lparr>mo_poll_count := 0\<rparr>) s; s2 = put_fmon f fm1 s1
        in if ok then remove_unsupported (fm_smon fm1) f s2 else Some s2)
     else Some (put_fmon f ?fm0 s)"
  have first: "good ?first"
  proof (rule good_if)
    obtain ok fm1 s1 where e: "gam_kqueue_monitor_enable_kqueue en f (?fm0\<lparr>mo_poll_count := 0\<rparr>) s = (ok, fm1, s1)"
      by (cases "gam_kqueue_monitor_enable_kqueue en f (?fm0\<lparr>mo_poll_count := 0\<rparr>) s")
    have "counted (put_fmon f fm1 s1)" by (rule enable_fmon [OF en c f _ e]) simp
    then show "good (let (ok, fm1, s1) = gam_kqueue_monitor_enable_kqueue en f (?fm0\<lparr>mo_poll_count := 0\<rparr>) s; s2 = put_fmon f fm1 s1
        in if ok then remove_unsupported (fm_smon fm1) f s2 else Some s2)"
      unfolding e Let_def prod.case by (auto intro: keeps_fmon_tables)
    show "good (Some (put_fmon f ?fm0 s))" using counted_put_fmon [OF c f, of ?fm0] by simp
  qed
  show "good (let fm0 = fm\<lparr>mo_poll_count := mo_poll_count fm + 1\<rparr>
          in do { s1 \<leftarrow> (if mo_poll_count fm0 = CFG_UNSUPPORTED_FMON_KQUEUE_RETRY_FREQUENCY then
                          (let (ok, fm1, s1) = gam_kqueue_monitor_enable_kqueue en f (fm0\<lparr>mo_poll_count := 0\<rparr>) s;
                               s2 = put_fmon f fm1 s1
                           in if ok then remove_unsupported (fm_smon fm1) f s2 else Some s2)
                         else Some (put_fmon f fm0 s));
                  fm1 \<leftarrow> kq_fmons s1 f;
                  let (sb, s2) = gam_kqueue_mini_lstat en (mo_pathname fm1) s1
                  in case smon_poll_event sb (mo_sb fm1) of
                       None \<Rightarrow> Some s2
                     | Some event \<Rightarrow>
                         gam_kqueue_file_monitor_emit_event en f event (dir_flag (mode_isdir (ms_mode sb)))
                           (put_fmon f (fm1\<lparr>mo_sb := sb\<rparr>) s2) })"
    unfolding Let_def
  proof (rule good_bind [OF first [unfolded Let_def]], rule good_read)
    fix s1 :: "'a ksrv_scheme" and fm1 assume c1: "counted s1" and f1: "kq_fmons s1 f = Some fm1"
    obtain t sb where e: "gam_kqueue_mini_lstat en (mo_pathname fm1) s1 = (sb, s1\<lparr>kq_tick := t\<rparr>)" by (rule mini_lstat_effect)
    have "counted (put_fmon f (fm1\<lparr>mo_sb := sb\<rparr>) (s1\<lparr>kq_tick := t\<rparr>))"
      by (rule counted_put_fmon [of _ _ fm1]) (simp_all add: c1 f1)
    then show "good (case gam_kqueue_mini_lstat en (mo_pathname fm1) s1 of (sb, s2) \<Rightarrow>
        (case smon_poll_event sb (mo_sb fm1) of None \<Rightarrow> Some s2
         | Some event \<Rightarrow> gam_kqueue_file_monitor_emit_event en f event (dir_flag (mode_isdir (ms_mode sb))) (put_fmon f (fm1\<lparr>mo_sb := sb\<rparr>) s2)))"
      unfolding e prod.case by (auto simp: c1 intro!: keeps_file_emit_event [OF en] split: option.split)
  qed
qed

lemma keeps_timer:
  assumes en: "fresh_fds en" and c: "counted s" and r: "gam_kqueue_poller_timeout_cb en k (poller_func k en) s = Some (b, s')"
  shows "counted s'"
proof -
  have "keeps (poller_func k en p)" for p
    by (cases k) (auto intro!: keepsI keeps_foreach [OF mkeeps_unsupported] keeps_file_poll [OF en]
        keeps_missing_poll [OF en] keeps_unsupported_poll [OF en] simp: gam_kqueue_unsupported_fmon_poll_def)
  from keeps_foreach [OF mkeeps_poller this c, of en "T_SMONS k"] show ?thesis
    using r by (auto simp: gam_kqueue_poller_timeout_cb_def good_def bind_eq_Some_conv)
qed

section \<open>The hooks\<close>

lemma counted_new_smon:
  assumes c: "counted s" and fd: "mo_fd sm < 0"
  shows "counted (put_smon (kq_next s) sm (s\<lparr>kq_next := Suc (kq_next s)\<rparr>))"
proof -
  let ?f = "kq_next s" and ?s = "put_smon (kq_next s) sm (s\<lparr>kq_next := Suc (kq_next s)\<rparr>)"
  have "mon_fd ?s = (mon_fd s)(?f \<mapsto> mo_fd sm)" by (rule mon_fd_smon) (simp_all add: put_smon_def)
  then have m: "mon_fd ?s q = Some x \<Longrightarrow> 0 \<le> x \<Longrightarrow> kq_fds s x = Some (Some q)" for q x
    using c fd by (cases "q = ?f") (auto simp: counted_def)
  have "dom (kq_smons s) \<union> dom (kq_fmons s) \<subseteq> {..<?f}" "dom (kq_smons s) \<inter> dom (kq_fmons s) = {}" using c by (simp_all add: counted_def)
  then have "insert ?f (dom (kq_smons s)) \<union> dom (kq_fmons s) \<subseteq> {..<Suc ?f}" "insert ?f (dom (kq_smons s)) \<inter> dom (kq_fmons s) = {}"
    by auto
  then show ?thesis using c m by (simp add: counted_def put_smon_def)
qed

lemma keeps_smon_new: "counted s \<Longrightarrow> gam_kqueue_sub_monitor_new q s = Some (p, s') \<Longrightarrow> counted s'"
proof -
  assume c: "counted s" and r: "gam_kqueue_sub_monitor_new q s = Some (p, s')"
  obtain sm where "gam_kqueue_sub_monitor_init_fmons (kq_next s) (put_smon (kq_next s) sm (s\<lparr>kq_next := Suc (kq_next s)\<rparr>)) = Some s'" "mo_fd sm < 0"
    using r by (auto simp: gam_kqueue_sub_monitor_new_def Let_def bind_eq_Some_conv)
  then show ?thesis using keeps_init_fmons [OF counted_new_smon [OF c, of sm], of "kq_next s"] by simp
qed

lemma counted_subs: "counted s \<Longrightarrow> kq_smons s p = Some sm \<Longrightarrow> counted (put_smon p (sm\<lparr>sm_subs := qs\<rparr>) s)"
  by (rule counted_put_smon) simp_all

lemma keeps_add:
  assumes en: "fresh_fds en" and c: "counted s" and r: "gam_kqueue_add_subscription en q s = Some (b, s')"
  shows "counted s'"
proof -
  obtain sub l s1 where s1: "sv_subs s q = Some sub" "sub_listener sub = Some l" "gam_listener_add_subscription l q s = Some s1"
    using r by (auto simp: gam_kqueue_add_subscription_def bind_eq_Some_conv)
  have c1: "counted s1" by (rule counted_more [OF listener_add_effect(1) [OF s1(3)] c])
  let ?h = "(if sub_is_dir sub then kq_dir_hash s1 else kq_file_hash s1) (sub_path sub)"
  show ?thesis
  proof (cases ?h)
    case (Some p)
    then obtain sm where "kq_smons s1 p = Some sm" "s' = put_smon p (sm\<lparr>sm_subs := sm_subs sm @ [q]\<rparr>) s1"
      using r s1 by (auto simp: gam_kqueue_add_subscription_def bind_eq_Some_conv)
    then show ?thesis using counted_subs [OF c1] by simp
  next
    case None
    obtain p s2 where s2: "gam_kqueue_sub_monitor_new q s1 = Some (p, s2)"
      using r s1 None by (auto simp: gam_kqueue_add_subscription_def bind_eq_Some_conv)
    obtain sm where sm: "kq_smons s2 p = Some sm"
      using r s1 None s2 by (auto simp: gam_kqueue_add_subscription_def bind_eq_Some_conv)
    let ?s3 = "put_smon p (sm\<lparr>sm_subs := sm_subs sm @ [q]\<rparr>) s2"
    let ?s4 = "if sub_is_dir sub then ?s3\<lparr>kq_dir_hash := (kq_dir_hash ?s3)(mo_pathname sm \<mapsto> p)\<rparr>
       else ?s3\<lparr>kq_file_hash := (kq_file_hash ?s3)(mo_pathname sm \<mapsto> p)\<rparr>"
    have c4: "counted ?s4" using counted_subs [OF keeps_smon_new [OF c1 s2] sm] by simp
    have "gam_kqueue_sub_monitor_enable_notification en p 0 ?s4 = Some s'"
      using r s1 None s2 sm unfolding gam_kqueue_add_subscription_def by (simp add: Let_def bind_eq_Some_conv)
    then show ?thesis using keeps_enable_notification [OF en c4, of p 0] by simp
  qed
qed

lemma keeps_remove:
  assumes c: "counted s" and r: "gam_kqueue_remove_subscription q s = Some (b, s')"
  shows "counted s'"
proof -
  obtain sub where sub: "sv_subs s q = Some sub" using r by (auto simp: gam_kqueue_remove_subscription_def bind_eq_Some_conv)
  let ?h = "(if sub_is_dir sub then kq_dir_hash s else kq_file_hash s) (sub_path sub)"
  show ?thesis
  proof (cases ?h)
    case None
    then show ?thesis using r sub c by (simp add: gam_kqueue_remove_subscription_def)
  next
    case (Some p)
    obtain sm where sm: "kq_smons s p = Some sm"
      using r sub Some by (auto simp: gam_kqueue_remove_subscription_def bind_eq_Some_conv)
    let ?subs = "removeAll q (sm_subs sm)"
    let ?s1 = "put_smon p (sm\<lparr>sm_subs := ?subs\<rparr>) s"
    let ?m2 = "if ?subs = [] then
        gam_kqueue_sub_monitor_free p
          (if sub_is_dir sub then ?s1\<lparr>kq_dir_hash := (kq_dir_hash ?s1)(mo_pathname sm := None)\<rparr>
           else ?s1\<lparr>kq_file_hash := (kq_file_hash ?s1)(mo_pathname sm := None)\<rparr>)
       else Some ?s1"
    have "(do { s2 \<leftarrow> ?m2; sub2 \<leftarrow> sv_subs s2 q; Some (True, s2\<lparr>sv_subs := (sv_subs s2)(q \<mapsto> gam_subscription_cancel sub2)\<rparr>) }) = Some (b, s')"
      using r sub Some sm unfolding gam_kqueue_remove_subscription_def by (simp add: Let_def)
    then obtain s2 sub2 where s2: "?m2 = Some s2" "s' = s2\<lparr>sv_subs := (sv_subs s2)(q \<mapsto> gam_subscription_cancel sub2)\<rparr>"
      unfolding bind_eq_Some_conv by blast
    have "good ?m2" using counted_subs [OF c sm] by (auto intro!: keeps_smon_free)
    then have "counted s2" unfolding s2(1) by simp
    then show ?thesis unfolding s2(2) by (rule counted_more [rotated]) simp
  qed
qed

lemma keeps_remove_each: "counted s \<Longrightarrow> remove_each qs s = Some (b, s') \<Longrightarrow> counted s'"
proof (induction qs arbitrary: s b)
  case (Cons q qs)
  obtain ok s1 b2 where "gam_kqueue_remove_subscription q s = Some (ok, s1)" "remove_each qs s1 = Some (b2, s')"
    using Cons.prems(2) by (auto simp: bind_eq_Some_conv)
  then show ?case using Cons.IH [of s1 b2] keeps_remove [OF Cons.prems(1)] by blast
qed simp

end
