(* ===== verification/Gam_Kqueue_Props.thy ===== *)
theory Gam_Kqueue_Props
  imports Gam_Kqueue_Count
begin

unbundle bit_operations_syntax

text \<open>
  The kqueue back end as a whole: the states that its calls lead to, and what holds in all of them.
\<close>

section \<open>Calls and reachable states\<close>

text \<open>The calls of the server and of the main loop: the hooks, the timers of the three pollers, and the callback of the
  kqueue descriptor with what \<^verbatim>\<open>kevent\<close> answers.\<close>

datatype kq_call = KQ_ADD cptr | KQ_REMOVE cptr | KQ_REMOVE_ALL cptr | KQ_TIMER poller | KQ_KEVENT "kevent list option"

fun do_kq_call :: "kenv \<Rightarrow> kq_call \<Rightarrow> ksrv \<Rightarrow> (bool \<times> ksrv) option" where
  "do_kq_call en (KQ_ADD q) s = gam_kqueue_add_subscription en q s"
| "do_kq_call en (KQ_REMOVE q) s = gam_kqueue_remove_subscription q s"
| "do_kq_call en (KQ_REMOVE_ALL l) s = gam_kqueue_remove_all_for l s"
| "do_kq_call en (KQ_TIMER k) s = gam_kqueue_poller_timeout_cb en k (poller_func k en) s"
| "do_kq_call en (KQ_KEVENT evs) s = gam_kqueue_kevent_cb en evs s"

text \<open>A subscription is added with its listener and connection. The kernel answers with at most one event, of a
  descriptor that is open. The timers run in any state.\<close>

fun kq_call_ok :: "kq_call \<Rightarrow> ksrv \<Rightarrow> bool" where
  "kq_call_ok (KQ_ADD q) s \<longleftrightarrow> kq_addable s q"
| "kq_call_ok (KQ_REMOVE q) s \<longleftrightarrow> sv_subs s q \<noteq> None"
| "kq_call_ok (KQ_REMOVE_ALL l) s \<longleftrightarrow> (\<exists>ls. sv_listeners s l = Some ls \<and> (\<forall>q \<in> set (ls_subs ls). sv_subs s q \<noteq> None))"
| "kq_call_ok (KQ_TIMER k) s \<longleftrightarrow> True"
| "kq_call_ok (KQ_KEVENT evs) s \<longleftrightarrow>
     (case evs of None \<Rightarrow> True
      | Some evs \<Rightarrow> length evs \<le> 1 \<and> (\<forall>ev \<in> set evs. \<exists>fd. kq_fds s fd = Some (Some (ev_udata ev))))"

text \<open>The timer for files that cannot be watched asks the kernel again at each tenth poll, and leaves a monitor that can then
  be watched in its poller (\<open>retried_monitor_stays_polled\<close>): ten polls later it is enabled a second time. This call
  does not do that.\<close>

fun no_second_retry :: "kq_call \<Rightarrow> ksrv \<Rightarrow> bool" where
  "no_second_retry (KQ_TIMER k) s \<longleftrightarrow> (k = unsupported_smon_poller \<longrightarrow> retry_safe s)"
| "no_second_retry c s \<longleftrightarrow> True"

text \<open>The rest of the server changes its own part of the state, and leaves the subscriptions that have a monitor with
  their listener and connection.\<close>

definition kq_server_step :: "ksrv \<Rightarrow> ksrv \<Rightarrow> bool" where
  "kq_server_step s s' \<longleftrightarrow> srv.more s' = srv.more s \<and>
     (\<forall>p sm q. kq_smons s p = Some sm \<and> q \<in> set (sm_subs sm) \<longrightarrow>
        sub_linked s' (mo_pathname sm) q \<and> map_option sub_is_dir (sv_subs s' q) = map_option sub_is_dir (sv_subs s q))"

definition kq_unstarted :: "ksrv \<Rightarrow> bool" where
  "kq_unstarted s \<longleftrightarrow> kq_smons s = Map.empty \<and> kq_fmons s = Map.empty \<and> kq_fds s = Map.empty \<and> kq_open_files s = 0"

text \<open>The runs. The file system and what the kernel answers may be different at every call. The flag says that no call so
  far has enabled a monitor a second time.\<close>

inductive kq_reach :: "bool \<Rightarrow> ksrv \<Rightarrow> bool" where
  start: "kq_unstarted s \<Longrightarrow> gam_kqueue_init kq sysctl en hk s = (True, hk', s') \<Longrightarrow> kq_reach True s'"
| call: "kq_reach f s \<Longrightarrow> good_kenv en \<Longrightarrow> kq_call_ok c s \<Longrightarrow> do_kq_call en c s = Some (b, s') \<Longrightarrow>
    kq_reach (f \<and> no_second_retry c s) s'"
| server: "kq_reach f s \<Longrightarrow> kq_server_step s s' \<Longrightarrow> kq_reach f s'"

inductive_cases kq_reach_cases: "kq_reach f s"

lemma kq_init_ok:
  assumes "kq_unstarted s" "gam_kqueue_init kq sysctl en hk s = (True, hk', s')"
  shows "kq_ok {} s'"
proof -
  obtain a b where "\<not> kq < 0" "gam_kqueue_get_uint_sysctl sysctl ''kern.maxfiles'' = Some a"
      "gam_kqueue_get_uint_sysctl sysctl ''kern.maxfilesperproc'' = Some b"
    using assms(2) unfolding gam_kqueue_init_def
    by (cases "kq < 0"; cases "gam_kqueue_get_uint_sysctl sysctl ''kern.maxfiles''";
        cases "gam_kqueue_get_uint_sysctl sysctl ''kern.maxfilesperproc''") (simp_all only: if_True option.case prod.inject if_False simp_thms)
  then have s': "s' = gam_kqueue_poller_init unsupported_fmon_poller 3000 (gam_kqueue_poller_init unsupported_smon_poller 3000
      (gam_kqueue_poller_init missing_smon_poller 1000 (s\<lparr>kq_max_open_files := max_files a b, kq_dir_hash := Map.empty, kq_file_hash := Map.empty\<rparr>)))"
    using assms(2) by (simp add: gam_kqueue_init_def Let_def)
  have po: "po_smons (kq_pollers s' k) = hash_table_empty" "po_timeout (kq_pollers s' k) = None" for k
    by (cases k; simp add: s' gam_kqueue_poller_init_def gam_kqueue_hash_table_new_def)+
  have f: "kq_smons s' = Map.empty" "kq_fmons s' = Map.empty" "kq_fds s' = Map.empty" "kq_open_files s' = 0"
    "kq_dir_hash s' = Map.empty" "kq_file_hash s' = Map.empty"
    using assms(1) by (simp_all add: s' kq_unstarted_def gam_kqueue_poller_init_def)
  have m: "mon_fd s' q = None" for q by (simp add: mon_fd_def f)
  show ?thesis
    by (simp add: kq_ok_def kq_inv_def heap_ok_def fds_ok_def poller_ok_def walked_def hashes_ok_def smon_hash_def f po m
        hash_table_empty_def table_ok_def)
qed

lemma kq_server_ok:
  assumes ok: "kq_ok {} s" and st: "kq_server_step s s'"
  shows "kq_ok {} s'"
proof (rule kq_ok_server [OF ok])
  show "srv.more s' = srv.more s" using st by (simp add: kq_server_step_def)
  fix p sm q assume a: "kq_smons s p = Some sm" "q \<in> set (sm_subs sm)"
  then obtain sub where "sv_subs s q = Some sub" "sub_is_dir sub = sm_isdir sm" by (rule kq_subs [OF ok])
  moreover have "sub_linked s' (mo_pathname sm) q" "map_option sub_is_dir (sv_subs s' q) = map_option sub_is_dir (sv_subs s q)"
    using st a unfolding kq_server_step_def by blast+
  ultimately show "sub_linked s' (mo_pathname sm) q \<and> (\<exists>sub. sv_subs s' q = Some sub \<and> sub_is_dir sub = sm_isdir sm)"
    by (cases "sv_subs s' q") auto
qed

text \<open>A descriptor that is open belongs to a monitor that is not missing.\<close>

lemma kevent_ok:
  assumes en: "good_kenv en" and ok: "kq_ok {} s" and fd: "kq_fds s fd = Some (Some (ev_udata ev))"
  shows "succeeds (handle_kevent en ev s) (kq_ok {})"
proof -
  let ?q = "ev_udata ev"
  have m: "0 \<le> fd" "mon_fd s ?q = Some fd" using kq_invD(2) [OF kq_okD(1) [OF ok]] fd by (auto simp: fds_ok_def)
  show ?thesis
  proof (cases "kq_smons s ?q")
    case (Some sm)
    then have "\<not> is_missing s ?q" using m by (simp add: is_missing_def mon_fd_def)
    then have "?q \<notin> poller_content s missing_smon_poller" using watched_missing [OF kq_okD(4) [OF ok Some]] by simp
    then show ?thesis using smon_kevent_ok [OF en ok Some] Some by (simp add: handle_kevent_def)
  next
    case None
    then obtain fm where "kq_fmons s ?q = Some fm" using m by (auto simp: mon_fd_def)
    then show ?thesis using fmon_kevent_ok [OF en ok] None by (simp add: handle_kevent_def)
  qed
qed

lemma do_kq_call_ok:
  assumes en: "good_kenv en" and ok: "kq_ok {} s" and c: "kq_call_ok c s" "no_second_retry c s"
  shows "\<exists>b s'. do_kq_call en c s = Some (b, s') \<and> kq_ok {} s'"
proof (cases c)
  case (KQ_ADD q)
  then show ?thesis using add_ok [OF en ok, of q] c by auto
next
  case (KQ_REMOVE q)
  then show ?thesis using remove_ok [OF ok, of q] c by auto
next
  case (KQ_REMOVE_ALL l)
  then obtain ls where "sv_listeners s l = Some ls" "\<forall>q \<in> set (ls_subs ls). sv_subs s q \<noteq> None" using c by auto
  then show ?thesis using remove_each_ok [OF ok, of "ls_subs ls"] KQ_REMOVE_ALL
    by (simp add: gam_kqueue_remove_all_for_def gam_listener_get_subscriptions_def)
next
  case (KQ_TIMER k)
  then show ?thesis using timer_ok [OF en ok, of k] c by (auto simp: succeeds_def)
next
  case (KQ_KEVENT evs)
  show ?thesis
  proof (cases "evs = None \<or> evs = Some []")
    case True
    then show ?thesis using KQ_KEVENT ok by (auto simp: gam_kqueue_kevent_cb_def)
  next
    case False
    then obtain ev where ev: "evs = Some [ev]" using c KQ_KEVENT by (cases "the evs"; cases "tl (the evs)") auto
    then obtain fd where "kq_fds s fd = Some (Some (ev_udata ev))" using c KQ_KEVENT by auto
    from kevent_ok [OF en ok this] show ?thesis using KQ_KEVENT ev by (auto simp: gam_kqueue_kevent_cb_def succeeds_def)
  qed
qed

lemma kq_reach_ok':
  assumes "kq_reach f s" f
  shows "kq_ok {} s"
  using assms
proof (induction rule: kq_reach.induct)
  case (call f s en c b s')
  then show ?case using do_kq_call_ok [of en s c] by auto
qed (auto intro: kq_init_ok kq_server_ok)

lemma kq_reach_ok: "kq_reach True s \<Longrightarrow> kq_ok {} s"
  by (rule kq_reach_ok' [OF _ TrueI])

text \<open>The count of the descriptors is right in every run.\<close>

lemma do_kq_call_counted:
  assumes en: "fresh_fds en" and c: "counted s" and r: "do_kq_call en c' s = Some (b, s')"
  shows "counted s'"
proof (cases c')
  case (KQ_REMOVE_ALL l)
  then obtain qs where "remove_each qs s = Some (b, s')" using r by (auto simp: gam_kqueue_remove_all_for_def bind_eq_Some_conv)
  then show ?thesis by (rule keeps_remove_each [OF c])
next
  case (KQ_KEVENT evs)
  then show ?thesis using r c keeps_kevents [OF en c]
    by (cases evs) (auto simp: gam_kqueue_kevent_cb_def bind_eq_Some_conv good_def)
qed (use r keeps_add [OF en c] keeps_remove [OF c] keeps_timer [OF en c] in auto)

lemma kq_reach_counted: "kq_reach f s \<Longrightarrow> counted s"
proof (induction rule: kq_reach.induct)
  case (start s kq sysctl en hk hk' s')
  then show ?case using kq_init_ok [OF start] by (auto simp: kq_ok_def kq_inv_def heap_ok_def fds_ok_def counted_def)
next
  case (call f s en c b s')
  then show ?case using do_kq_call_counted [of en s c b s'] by (simp add: good_kenv_def)
next
  case (server f s s')
  then show ?case using counted_more [of s' s] by (simp add: kq_server_step_def)
qed

section \<open>A run\<close>

text \<open>A file system with the directory \<open>/d\<close> and the files in it, and others beside it. \<^verbatim>\<open>open\<close> answers with the
  number of the call when it is not in use.\<close>

definition demo_kstat :: "bool \<Rightarrow> kstat" where
  "demo_kstat d = \<lparr>ks_ino = 1, ks_mode = (if d then 0x41ed else 0x81a4), ks_uid = 0, ks_gid = 0, ks_mtime = 1, ks_ctime = 1, ks_size = 1\<rparr>"

definition demo_kenv :: "string list \<Rightarrow> string list \<Rightarrow> kenv" where
  "demo_kenv names others = \<lparr>
     ke_lstat = (\<lambda>t p. if p = ''/d'' then Some (demo_kstat True)
                       else if p \<in> set others \<union> set (map (\<lambda>n. ''/d/'' @ n) names) then Some (demo_kstat False) else None),
     ke_readdir = (\<lambda>t p. if p = ''/d'' then Some names else None),
     ke_open = (\<lambda>t m p. if m (int t) = None then int t else -1), ke_kevent = (\<lambda>t fd. True), ke_order = (\<lambda>xs. xs)\<rparr>"

lemma demo_good_kenv: "distinct names \<Longrightarrow> \<forall>n \<in> set names. slash \<notin> set n \<Longrightarrow> good_kenv (demo_kenv names others)"
  by (auto simp: good_kenv_def fresh_fds_def good_order_def good_dirs_def demo_kenv_def split: if_splits)

definition demo_kq_unstarted :: ksrv where
  "demo_kq_unstarted = srv.extend (srv0\<lparr>sv_listeners := [1 \<mapsto> \<lparr>ls_service = 0, ls_pid = 42, ls_pidname = ''x'', ls_subs = []\<rparr>],
       sv_subs := [2 \<mapsto> gam_subscription_set_listener 1 (gam_subscription_new ''/d'' req_events 9 True 0),
                   3 \<mapsto> gam_subscription_set_listener 1 (gam_subscription_new ''/e'' req_events 10 False 0)]\<rparr>)
     \<lparr>kq_smons = Map.empty, kq_fmons = Map.empty, kq_next = 0, kq_fds = Map.empty, kq_tick = 0, kq_open_files = 0,
      kq_max_open_files = 0, kq_dir_hash = Map.empty, kq_file_hash = Map.empty,
      kq_pollers = (\<lambda>k. \<lparr>po_interval = 0, po_timeout = None, po_smons = hash_table_empty\<rparr>)\<rparr>"

definition demo_kq_hooks :: "ksrv hooks" where
  "demo_kq_hooks = \<lparr>hk_kernel_add = None, hk_kernel_remove = None, hk_kernel_remove_all = None, hk_poll_add = None,
     hk_poll_remove = None, hk_poll_remove_all = None, hk_exclude = (\<lambda>_. False), hk_mon_type = (\<lambda>_. GFS_MT_KERNEL),
     hk_pidname = (\<lambda>_. [])\<rparr>"

definition demo_sysctl :: "string \<Rightarrow> 32 word option" where
  "demo_sysctl name = Some 1000"

definition demo_kq_started :: ksrv where
  "demo_kq_started = snd (snd (gam_kqueue_init 3 demo_sysctl (demo_kenv [] []) demo_kq_hooks demo_kq_unstarted))"

text \<open>The directory with one file is watched, and a file that is not there.\<close>

definition demo_kq_watching :: ksrv where
  "demo_kq_watching = snd (the (do_kq_call (demo_kenv [''a''] []) (KQ_ADD 2) demo_kq_started))"

definition demo_kq_missing :: ksrv where
  "demo_kq_missing = snd (the (do_kq_call (demo_kenv [''a''] []) (KQ_ADD 3) demo_kq_watching))"

lemma demo_kq_reach: "kq_reach True demo_kq_started"
proof (rule kq_reach.start)
  show "kq_unstarted demo_kq_unstarted" by (simp add: kq_unstarted_def demo_kq_unstarted_def srv.defs)
  show "gam_kqueue_init 3 demo_sysctl (demo_kenv [] []) demo_kq_hooks demo_kq_unstarted =
      (True, fst (snd (gam_kqueue_init 3 demo_sysctl (demo_kenv [] []) demo_kq_hooks demo_kq_unstarted)), demo_kq_started)"
    by (simp add: demo_kq_started_def gam_kqueue_init_def gam_kqueue_get_uint_sysctl_def demo_sysctl_def Let_def)
qed

lemma demo_kq_step:
  assumes "kq_reach True s" "kq_call_ok c s" "no_second_retry c s" "distinct names" "\<forall>n \<in> set names. slash \<notin> set n"
  shows "kq_reach True (snd (the (do_kq_call (demo_kenv names others) c s)))"
proof -
  have en: "good_kenv (demo_kenv names others)" by (rule demo_good_kenv [OF assms(4,5)])
  obtain b s' where s': "do_kq_call (demo_kenv names others) c s = Some (b, s')"
    using do_kq_call_ok [OF en kq_reach_ok [OF assms(1)] assms(2,3)] by blast
  then show ?thesis using kq_reach.call [OF assms(1) en assms(2) s'] assms(3) by simp
qed

lemma demo_kq_addable: "kq_addable demo_kq_started 2" "kq_addable demo_kq_started 3"
  by (simp_all add: kq_addable_def demo_kq_started_def demo_kq_unstarted_def srv.defs gam_kqueue_init_def gam_kqueue_poller_init_def
      gam_kqueue_get_uint_sysctl_def demo_sysctl_def Let_def srv0_def conn0_def gam_subscription_set_listener_def gam_subscription_new_def)

lemma demo_kq_watching: "kq_reach True demo_kq_watching"
  unfolding demo_kq_watching_def by (rule demo_kq_step [OF demo_kq_reach]) (simp_all add: demo_kq_addable)

lemma demo_kq_missing: "kq_reach True demo_kq_missing"
  unfolding demo_kq_missing_def
proof (rule demo_kq_step [OF demo_kq_watching])
  have "sv_conns demo_kq_watching 0 \<noteq> None \<and> 0 \<le> cn_fd (the (sv_conns demo_kq_watching 0))"
    "map_option ls_subs (sv_listeners demo_kq_watching 1) = Some [2] \<and> map_option ls_service (sv_listeners demo_kq_watching 1) = Some 0"
    "map_option sub_listener (sv_subs demo_kq_watching 3) = Some (Some 1)" by code_simp+
  then have "kq_addable demo_kq_watching 3" by (auto simp: kq_addable_def)
  then show "kq_call_ok (KQ_ADD 3) demo_kq_watching" by simp
qed simp_all

lemma demo_kq_smon:
  obtains sm where "kq_smons demo_kq_watching 0 = Some sm" "sm_subs sm = [2]" "mo_pathname sm = ''/d''" "sm_isdir sm" "mo_fd sm = 5"
proof -
  have "map_option (\<lambda>sm. (sm_subs sm, mo_pathname sm, sm_isdir sm, mo_fd sm)) (kq_smons demo_kq_watching 0) = Some ([2], ''/d'', True, 5)"
    by code_simp
  then show thesis using that by auto
qed

section \<open>Properties of the back end\<close>

text \<open>C14. The kqueue back end never aborts and never uses an object that was freed, as long as no monitor is enabled a
  second time: in every state that starting it, adding and removing subscriptions, the timers of the pollers, the events
  of the kernel and the rest of the server can lead to, with any file system at each call, every one of these calls
  returns. No table changes while GLib walks it, and the state has the invariant: the monitors and their tables belong
  together, the open descriptors are those of the monitors, no table is left being walked, and every monitor is watched.
  The condition is on the timer of the poller for files that cannot be watched, in the runs up to the state and in the
  call: it does not, at a tenth poll, enable a monitor that has a descriptor already. The code does not see to that, for
  it leaves a monitor that it could enable in this poller; the second time the monitor's descriptor is leaked, and an
  event on it may then reach a monitor that was freed (\<open>retried_monitor_stays_polled\<close>, \<open>enabled_again_leaks\<close>). The
  hypotheses on the environment are that \<^verbatim>\<open>open\<close> answers with a fresh descriptor, that a walk visits every key once, and
  that a directory has distinct names without a slash; the calls are those described at \<open>kq_call_ok\<close>.\<close>

theorem kqueue_never_aborts:
  assumes "kq_reach True s" "good_kenv en" "kq_call_ok c s" "no_second_retry c s"
  shows "\<exists>b s'. do_kq_call en c s = Some (b, s') \<and> kq_ok {} s'"
  by (rule do_kq_call_ok [OF assms(2) kq_reach_ok [OF assms(1)] assms(3,4)])

theorem kqueue_never_aborts_witness:
  "\<exists>b s'. do_kq_call (demo_kenv [''b''] []) (KQ_KEVENT (Some [\<lparr>ev_udata = 0, ev_flags = 0, ev_fflags = 0x2\<rparr>])) demo_kq_watching = Some (b, s') \<and>
    kq_ok {} s'"
proof -
  have "kq_fds demo_kq_watching 5 = Some (Some 0)" by code_simp
  then have "kq_call_ok (KQ_KEVENT (Some [\<lparr>ev_udata = 0, ev_flags = 0, ev_fflags = 0x2\<rparr>])) demo_kq_watching" by auto
  from kqueue_never_aborts [OF demo_kq_watching demo_good_kenv this] show ?thesis by simp
qed

text \<open>How a poller has a monitor: in its table, with the timer running.\<close>

definition polled :: "'b ksrv_scheme \<Rightarrow> poller \<Rightarrow> cptr \<Rightarrow> bool" where
  "polled s k p \<longleftrightarrow> p \<in> set (ht_main (po_smons (kq_pollers s k))) \<and> po_timeout (kq_pollers s k) = Some (po_interval (kq_pollers s k))"

lemma polled_content:
  assumes ok: "kq_ok {} s"
  shows "p \<in> poller_content s k \<longleftrightarrow> polled s k p"
proof -
  have "poller_ok s (kq_pollers s k)" by (rule kq_invD(3) [OF kq_okD(1) [OF ok]])
  moreover have "\<not> ht_iterating (po_smons (kq_pollers s k))" using kq_okD(2) [OF ok] by (simp add: walked_def)
  ultimately show ?thesis by (auto simp: polled_def poller_content_def content_def poller_ok_def table_ok_def)
qed

text \<open>C15. Nothing goes unwatched: in every state of a run in which no monitor was enabled a second time (the condition of the
  property before), each monitor has a descriptor that the kernel reports on, or the
  running timer of the poller for missing files or of that for files that cannot be watched has it, and not both pollers;
  each file monitor of a directory has a descriptor that the kernel reports on, or is one of the files that the running
  timer for such files polls.\<close>

theorem kqueue_watches_everything:
  assumes "kq_reach True s" "kq_smons s p = Some sm"
  shows "(kq_fds s (mo_fd sm) = Some (Some p) \<or> polled s missing_smon_poller p \<or> polled s unsupported_smon_poller p) \<and>
    \<not> (polled s missing_smon_poller p \<and> (kq_fds s (mo_fd sm) \<noteq> None \<or> polled s unsupported_smon_poller p)) \<and>
    (\<forall>f \<in> set (ht_main (sm_fmons sm)). \<exists>fm. kq_fmons s f = Some fm \<and> fm_smon fm = p \<and>
       (if 0 \<le> mo_fd fm then kq_fds s (mo_fd fm) = Some (Some f)
        else f \<in> set (ht_main (sm_unsupported sm)) \<and> polled s unsupported_fmon_poller p))"
proof -
  note ok = kq_reach_ok [OF assms(1)]
  note inv = kq_okD(1) [OF ok]
  note smok = kq_invD(4) [OF inv assms(2)]
  have fds: "kq_fds s fd = Some u \<longleftrightarrow> 0 \<le> fd \<and> (\<exists>q. u = Some q \<and> mon_fd s q = Some fd)" for fd u
    using kq_invD(2) [OF inv] by (simp add: fds_ok_def)
  have it: "\<not> ht_iterating (sm_fmons sm)" "\<not> ht_iterating (sm_unsupported sm)" using kq_okD(2) [OF ok] assms(2) by (auto simp: walked_def)
  have c: "content (sm_fmons sm) = set (ht_main (sm_fmons sm))" "content (sm_unsupported sm) = set (ht_main (sm_unsupported sm))"
    using smon_okD(1,2) [OF smok] it by (simp_all add: content_sub_table sub_table_ok_def table_ok_def)
  have m: "mon_fd s p = Some (mo_fd sm)" by (rule mon_fd_Some(1) [OF assms(2)])
  have w: "watched s p" by (rule kq_okD(4) [OF ok assms(2)])
  have "kq_fds s (mo_fd sm) = Some (Some p) \<or> polled s missing_smon_poller p \<or> polled s unsupported_smon_poller p"
    using w m assms(2) by (auto simp: watched_def is_missing_def polled_content [OF ok] fds)
  moreover have "\<not> (polled s missing_smon_poller p \<and> (kq_fds s (mo_fd sm) \<noteq> None \<or> polled s unsupported_smon_poller p))"
  proof
    assume a: "polled s missing_smon_poller p \<and> (kq_fds s (mo_fd sm) \<noteq> None \<or> polled s unsupported_smon_poller p)"
    then have "is_missing s p" using watched_missing [OF w] polled_content [OF ok] by blast
    then have "mo_fd sm < 0" "\<not> polled s unsupported_smon_poller p" using assms(2) polled_content [OF ok] by (auto simp: is_missing_def)
    then show False using a fds [of "mo_fd sm"] by auto
  qed
  moreover have "\<exists>fm. kq_fmons s f = Some fm \<and> fm_smon fm = p \<and> (if 0 \<le> mo_fd fm then kq_fds s (mo_fd fm) = Some (Some f)
        else f \<in> set (ht_main (sm_unsupported sm)) \<and> polled s unsupported_fmon_poller p)" if f: "f \<in> set (ht_main (sm_fmons sm))" for f
  proof -
    obtain fm where fm: "kq_fmons s f = Some fm" "fm_smon fm = p" using smon_okD(3) [OF smok f] unfolding owned_by_def by blast
    show ?thesis
    proof (cases "0 \<le> mo_fd fm")
      case True
      have "mon_fd s f = Some (mo_fd fm)" by (rule mon_fd_Some(2) [OF owned_not_smon [OF kq_invD(1) [OF inv] fm(1)] fm(1)])
      then show ?thesis using True fm fds [of "mo_fd fm" "Some f"] by simp
    next
      case False
      have "f \<in> content (sm_unsupported sm)" using smon_okD(6) [OF smok] f c(1) fm(1) False by (auto simp: closed_fmons_def)
      then have "f \<in> set (ht_main (sm_unsupported sm))" using c(2) by simp
      moreover from this have "ht_main (sm_unsupported sm) \<noteq> []" by auto
      ultimately show ?thesis using False fm smon_okD(7) [OF smok] polled_content [OF ok] by auto
    qed
  qed
  ultimately show ?thesis by blast
qed

theorem kqueue_watches_everything_witness:
  "kq_fds demo_kq_watching 5 = Some (Some 0) \<or> polled demo_kq_watching missing_smon_poller 0 \<or> polled demo_kq_watching unsupported_smon_poller 0"
proof -
  obtain sm where sm: "kq_smons demo_kq_watching 0 = Some sm" "mo_fd sm = 5" by (rule demo_kq_smon)
  from kqueue_watches_everything [OF demo_kq_watching sm(1)] sm(2) show ?thesis by simp
qed

text \<open>C16. The count of open files is right and kept below the limit, in every reachable state without exception: the counter is
  the number of descriptors that the back end has open, this number is at most the limit computed at the start, and the
  descriptor of each monitor is open and registered with this monitor, so that no two monitors share one. In the runs in
  which no monitor was enabled a second time, each open descriptor is that of the monitor it was registered with, so
  none is leaked; enabling a monitor a second time does leak one (\<open>enabled_again_leaks\<close>), which stays counted.\<close>

theorem kqueue_descriptors_counted:
  assumes "kq_reach f s"
  shows "unat (kq_open_files s) = card (dom (kq_fds s)) \<and> card (dom (kq_fds s)) \<le> unat (kq_max_open_files s) \<and>
    (\<forall>q fd. mon_fd s q = Some fd \<and> 0 \<le> fd \<longrightarrow> kq_fds s fd = Some (Some q)) \<and>
    (f \<longrightarrow> (\<forall>fd \<in> dom (kq_fds s). \<exists>q. kq_fds s fd = Some (Some q) \<and> mon_fd s q = Some fd))"
proof -
  have "counted s" by (rule kq_reach_counted [OF assms])
  moreover have "\<forall>fd \<in> dom (kq_fds s). \<exists>q. kq_fds s fd = Some (Some q) \<and> mon_fd s q = Some fd" if f
  proof -
    have "fds_ok s" by (rule kq_invD(2) [OF kq_okD(1) [OF kq_reach_ok' [OF assms that]]])
    then show ?thesis unfolding fds_ok_def by fastforce
  qed
  ultimately show ?thesis unfolding counted_def word_le_nat_alt by metis
qed

theorem kqueue_descriptors_counted_witness:
  "card (dom (kq_fds demo_kq_watching)) = 2"
proof -
  have "unat (kq_open_files demo_kq_watching) = 2" by code_simp
  then show ?thesis using kqueue_descriptors_counted [OF demo_kq_watching] by simp
qed

text \<open>C17. What the kernel event of a changed directory leads to: the subscriptions of the directory are told that each name
  that is new in the listing was created, in the order of the listing, and that each name that is gone was deleted, once;
  afterwards the file monitors are those of the listing.\<close>

theorem kqueue_directory_change:
  assumes "kq_reach True s" "good_kenv en" and p: "kq_smons s p = Some sm" "sm_isdir sm" "0 \<le> mo_fd sm"
    and ev: "ev_flags ev AND EV_ERROR = 0" "ev_fflags ev AND VN_NOTE_CHANGED \<noteq> 0" "ev_fflags ev AND VN_NOTE_DELETED = 0"
      "ev_fflags ev AND NOTE_RENAME = 0"
    and dir: "ke_lstat en (kq_tick s) (mo_pathname sm) = Some sb" "mode_isdir (ks_mode sb)"
    and names: "ke_readdir en (Suc (kq_tick s)) (mo_pathname sm) = Some names"
  shows "\<exists>s' evs gone. gam_kqueue_sub_monitor_handle_kevent en p ev s = Some s' \<and> dir_names s' p = set names \<and>
    emits (sm_subs sm) evs s s' \<and> distinct gone \<and> set gone = dir_names s p - set names \<and>
    as_told evs = map (\<lambda>n. (g_build_filename (mo_pathname sm) n, GAMIN_EVENT_CREATED)) (filter (\<lambda>n. n \<notin> dir_names s p) names) @
      map (\<lambda>n. (g_build_filename (mo_pathname sm) n, GAMIN_EVENT_DELETED)) gone"
proof -
  note ok = kq_reach_ok [OF assms(1)]
  let ?s1 = "s\<lparr>kq_tick := Suc (kq_tick s)\<rparr>"
  have e1: "dir_names ?s1 p = dir_names s p" by (rule dir_names_same) simp
  have a: "kq_inv none ?s1" "still p ?s1" "kq_smons ?s1 p = Some sm"
    using kq_okD(1) [OF ok] walked_still [OF kq_okD(2) [OF ok] _ p(1)] p(1) by (simp_all add: still_def)
  have l: "listed en True (mo_pathname sm) (kq_tick ?s1) = names" using names by (simp add: listed_def)
  obtain s' evs gone where s': "gam_kqueue_sub_monitor_handle_directory_change en p True ?s1 = Some s'" "dir_names s' p = set names"
      "emits (sm_subs sm) evs ?s1 s'" "distinct gone" "set gone = dir_names ?s1 p - set names"
      "as_told evs = map (\<lambda>n. (g_build_filename (mo_pathname sm) n, GAMIN_EVENT_CREATED)) (filter (\<lambda>n. n \<notin> dir_names ?s1 p) names) @
        map (\<lambda>n. (g_build_filename (mo_pathname sm) n, GAMIN_EVENT_DELETED)) gone"
    using directory_change_ok [OF assms(2) a, of True] unfolding succeeds_def l by blast
  have "gam_kqueue_isdir en (mo_pathname sm) 0 s = (True, ?s1)" using dir by (simp add: gam_kqueue_isdir_def kq_lstat_def)
  then have "gam_kqueue_sub_monitor_handle_kevent en p ev s = Some s'"
    using ev p s'(1) by (simp add: gam_kqueue_sub_monitor_handle_kevent_def gam_kqueue_sub_monitor_emit_event_def)
  then show ?thesis using s' unfolding e1 by auto
qed

lemma distinct_one:
  assumes "distinct xs" "set xs = {a}"
  shows "xs = [a]"
proof -
  have "length xs = Suc 0" using distinct_card [OF assms(1)] assms(2) by simp
  then obtain x where "xs = [x]" by (auto simp: length_Suc_conv)
  then show ?thesis using assms(2) by simp
qed

theorem kqueue_directory_change_witness:
  "\<exists>s' evs. gam_kqueue_sub_monitor_handle_kevent (demo_kenv [''b''] []) 0 \<lparr>ev_udata = 0, ev_flags = 0, ev_fflags = 0x2\<rparr> demo_kq_watching = Some s' \<and>
    dir_names s' 0 = {''b''} \<and> emits [2] evs demo_kq_watching s' \<and>
    as_told evs = [(''/d/b'', GAMIN_EVENT_CREATED), (''/d/a'', GAMIN_EVENT_DELETED)]"
proof -
  obtain sm where sm: "kq_smons demo_kq_watching 0 = Some sm" "sm_subs sm = [2]" "mo_pathname sm = ''/d''" "sm_isdir sm" "mo_fd sm = 5"
    by (rule demo_kq_smon)
  have "map_option (\<lambda>sm. map (fmon_name demo_kq_watching) (ht_main (sm_fmons sm))) (kq_smons demo_kq_watching 0) = Some [''a'']"
      "map_option (\<lambda>sm. (ht_additions (sm_fmons sm), ht_removals (sm_fmons sm))) (kq_smons demo_kq_watching 0) = Some ([], [])" by code_simp+
  then have "map (fmon_name demo_kq_watching) (ht_main (sm_fmons sm)) = [''a'']" "ht_additions (sm_fmons sm) = []" "ht_removals (sm_fmons sm) = []"
    using sm(1) by simp_all
  then have e: "dir_names demo_kq_watching 0 = {''a''}" unfolding dir_names_Some [OF sm(1)] content_def by (auto simp: map_eq_Cons_conv)
  let ?en = "demo_kenv [''b''] []" and ?ev = "\<lparr>ev_udata = 0, ev_flags = 0, ev_fflags = 0x2\<rparr>"
  have en: "good_kenv ?en" by (rule demo_good_kenv) simp_all
  have ev: "ev_flags ?ev AND EV_ERROR = 0" "ev_fflags ?ev AND VN_NOTE_CHANGED \<noteq> 0" "ev_fflags ?ev AND VN_NOTE_DELETED = 0"
    "ev_fflags ?ev AND NOTE_RENAME = 0" by (simp_all add: VN_NOTE_CHANGED_def VN_NOTE_DELETED_def NOTE_RENAME_def)
  have dir: "ke_lstat ?en (kq_tick demo_kq_watching) (mo_pathname sm) = Some (demo_kstat True)" "mode_isdir (ks_mode (demo_kstat True))"
    "ke_readdir ?en (Suc (kq_tick demo_kq_watching)) (mo_pathname sm) = Some [''b'']"
    by (simp_all add: demo_kenv_def demo_kstat_def mode_isdir_def sm(3))
  have fd: "0 \<le> mo_fd sm" using sm(5) by simp
  obtain s' evs gone where s': "gam_kqueue_sub_monitor_handle_kevent ?en 0 ?ev demo_kq_watching = Some s'" "dir_names s' 0 = {''b''}"
      "emits [2] evs demo_kq_watching s'" "distinct gone" "set gone = {''a''}"
      "as_told evs = (''/d/b'', GAMIN_EVENT_CREATED) # map (\<lambda>n. (g_build_filename ''/d'' n, GAMIN_EVENT_DELETED)) gone"
    using kqueue_directory_change [OF demo_kq_watching en sm(1,4) fd ev dir] unfolding e sm(2,3) by (auto simp: g_build_filename_def)
  have "gone = [''a'']" by (rule distinct_one [OF s'(4,5)])
  then have "as_told evs = [(''/d/b'', GAMIN_EVENT_CREATED), (''/d/a'', GAMIN_EVENT_DELETED)]" using s'(6) by (simp add: g_build_filename_def)
  then show ?thesis using s'(1-3) by blast
qed

text \<open>C18. A first subscription for a path: it gets a monitor of its own in the hash table of its kind. When the file is
  there, the subscription is told that it exists, then for a directory each name of the listing in order, then the end
  of the listing, and the file monitors are those of the listing; when it is not there, it is told that it is deleted
  and that the listing ends, and the monitor waits in the poller for missing files. Nothing else is told to anybody.\<close>

theorem kqueue_first_told:
  assumes "kq_reach True s" "good_kenv en" and q: "sv_subs s q = Some sub" "sub_listener sub = Some l" "kq_addable s q"
    and none: "smon_hash s (sub_is_dir sub) (sub_path sub) = None"
  shows "\<exists>s1 s' p evs. gam_listener_add_subscription l q s = Some s1 \<and> gam_kqueue_add_subscription en q s = Some (True, s') \<and>
    smon_hash s' (sub_is_dir sub) (sub_path sub) = Some p \<and> map_option sm_subs (kq_smons s' p) = Some [q] \<and> emits [q] evs s1 s' \<and>
    (case ke_lstat en (kq_tick s) (sub_path sub) of
       None \<Rightarrow> polled s' missing_smon_poller p \<and> as_told evs = [(sub_path sub, GAMIN_EVENT_DELETED), (sub_path sub, GAMIN_EVENT_ENDEXISTS)]
     | Some sb \<Rightarrow>
         (let names = (if sub_is_dir sub \<and> mode_isdir (ks_mode sb)
                       then (case ke_readdir en (Suc (kq_tick s)) (sub_path sub) of None \<Rightarrow> [] | Some names \<Rightarrow> names) else [])
          in dir_names s' p = set names \<and>
             as_told evs = (sub_path sub, GAMIN_EVENT_EXISTS) # map (\<lambda>n. (g_build_filename (sub_path sub) n, GAMIN_EVENT_EXISTS)) names @
               [(sub_path sub, GAMIN_EVENT_ENDEXISTS)]))"
proof -
  obtain s1 s' p sm where s': "gam_listener_add_subscription l q s = Some s1" "gam_kqueue_add_subscription en q s = Some (True, s')" "kq_ok {} s'"
      "smon_hash s' (sub_is_dir sub) (sub_path sub) = Some p" "kq_smons s' p = Some sm" "sm_subs sm = [q]"
      "case ke_lstat en (kq_tick s) (sub_path sub) of
       None \<Rightarrow> is_missing s' p \<and> (\<exists>evs. emits [q] evs s1 s' \<and>
         as_told evs = [(sub_path sub, GAMIN_EVENT_DELETED), (sub_path sub, GAMIN_EVENT_ENDEXISTS)])
     | Some sb \<Rightarrow> (let names = listed en (sub_is_dir sub \<and> mode_isdir (ks_mode sb)) (sub_path sub) (Suc (kq_tick s))
         in dir_names s' p = set names \<and> (\<exists>evs. emits [q] evs s1 s' \<and> as_told evs = first_told False (sub_path sub) names))"
    using add_new_ok [OF assms(2) kq_reach_ok [OF assms(1)] q none] by blast
  show ?thesis
  proof (cases "ke_lstat en (kq_tick s) (sub_path sub)")
    case None
    then obtain evs where evs: "is_missing s' p" "emits [q] evs s1 s'"
        "as_told evs = [(sub_path sub, GAMIN_EVENT_DELETED), (sub_path sub, GAMIN_EVENT_ENDEXISTS)]" using s'(7) by auto
    have "polled s' missing_smon_poller p" using is_missing_content [OF evs(1)] polled_content [OF s'(3)] by simp
    then show ?thesis using None s'(1,2,4-6) evs(2,3)
      by (intro exI [of _ s1] exI [of _ s'] exI [of _ p] exI [of _ evs]) simp
  next
    case (Some sb)
    let ?names = "listed en (sub_is_dir sub \<and> mode_isdir (ks_mode sb)) (sub_path sub) (Suc (kq_tick s))"
    obtain evs where evs: "dir_names s' p = set ?names" "emits [q] evs s1 s'" "as_told evs = first_told False (sub_path sub) ?names"
      using s'(7) Some by (auto simp: Let_def)
    have T: "as_told evs = (sub_path sub, GAMIN_EVENT_EXISTS) # map (\<lambda>n. (g_build_filename (sub_path sub) n, GAMIN_EVENT_EXISTS)) ?names @
        [(sub_path sub, GAMIN_EVENT_ENDEXISTS)]"
      using evs(3) by (simp add: first_told_def found_simps)
    have "map_option sm_subs (kq_smons s' p) = Some [q]" using s'(5,6) by simp
    then show ?thesis unfolding Some option.case Let_def listed_def [symmetric] using s'(1,2,4) evs(1,2) T by blast
  qed
qed

theorem kqueue_first_told_witness:
  "\<exists>s1 s' p evs. gam_kqueue_add_subscription (demo_kenv [''a'', ''b''] []) 2 demo_kq_started = Some (True, s') \<and>
    emits [2] evs s1 s' \<and> dir_names s' p = {''a'', ''b''} \<and>
    as_told evs = [(''/d'', GAMIN_EVENT_EXISTS), (''/d/a'', GAMIN_EVENT_EXISTS), (''/d/b'', GAMIN_EVENT_EXISTS), (''/d'', GAMIN_EVENT_ENDEXISTS)]"
proof -
  let ?en = "demo_kenv [''a'', ''b''] []" and ?sub = "gam_subscription_set_listener 1 (gam_subscription_new ''/d'' req_events 9 True 0)"
  have en: "good_kenv ?en" by (rule demo_good_kenv) simp_all
  have s: "kq_tick demo_kq_started = 0" "kq_dir_hash demo_kq_started = Map.empty" "sv_subs demo_kq_started 2 = Some ?sub"
    by (simp_all add: demo_kq_started_def demo_kq_unstarted_def gam_kqueue_init_def gam_kqueue_poller_init_def
        gam_kqueue_get_uint_sysctl_def demo_sysctl_def Let_def srv.defs srv0_def)
  have sub: "sub_listener ?sub = Some 1" "sub_is_dir ?sub" "sub_path ?sub = ''/d''" by (simp_all add: gam_subscription_set_listener_def gam_subscription_new_def gam_subscription_set_event_def)
  have none: "smon_hash demo_kq_started (sub_is_dir ?sub) (sub_path ?sub) = None" by (simp add: smon_hash_def s sub)
  have env: "ke_lstat ?en 0 ''/d'' = Some (demo_kstat True)" "mode_isdir (ks_mode (demo_kstat True))" "ke_readdir ?en (Suc 0) ''/d'' = Some [''a'', ''b'']"
    by (simp_all add: demo_kenv_def demo_kstat_def mode_isdir_def)
  from kqueue_first_told [OF demo_kq_reach en s(3) sub(1) demo_kq_addable(1) none, unfolded sub s env, simplified env if_True]
  obtain s1 s' p evs where "gam_kqueue_add_subscription ?en 2 demo_kq_started = Some (True, s')" "emits [2] evs s1 s'"
      "dir_names s' p = set [''a'', ''b'']"
      "as_told evs = (''/d'', GAMIN_EVENT_EXISTS) # map (\<lambda>n. (g_build_filename ''/d'' n, GAMIN_EVENT_EXISTS)) [''a'', ''b''] @
        [(''/d'', GAMIN_EVENT_ENDEXISTS)]"
    by (auto simp: env Let_def g_build_filename_def)
  then show ?thesis by (intro exI [of _ s1] exI [of _ s'] exI [of _ p] exI [of _ evs]) (simp add: g_build_filename_def)
qed

text \<open>C19. Removing a subscription: the call answers whether a monitor of its kind and path is there; afterwards no monitor has
  it, a monitor that has others keeps them and is otherwise as before, and a monitor that has none is freed, with its
  descriptors, its file monitors and its places in the pollers and in the hash table, as the invariant says.\<close>

theorem kqueue_forgets_subscription:
  assumes "kq_reach True s" "sv_subs s q = Some sub"
  shows "\<exists>b s'. gam_kqueue_remove_subscription q s = Some (b, s') \<and> (b \<longleftrightarrow> smon_hash s (sub_is_dir sub) (sub_path sub) \<noteq> None) \<and>
    unmonitored s' q \<and> kq_smons s' = without_sub q (kq_smons s) \<and> kq_ok {} s' \<and>
    (\<forall>fd u. kq_fds s' fd = Some (Some u) \<longrightarrow> kq_smons s' u \<noteq> None \<or> (\<exists>fm. kq_fmons s' u = Some fm \<and> kq_smons s' (fm_smon fm) \<noteq> None))"
proof -
  obtain b s' where s': "gam_kqueue_remove_subscription q s = Some (b, s')" "kq_ok {} s'" "unmonitored s' q"
      "kq_smons s' = without_sub q (kq_smons s)" "b \<longleftrightarrow> smon_hash s (sub_is_dir sub) (sub_path sub) \<noteq> None"
    using remove_ok [OF kq_reach_ok [OF assms(1)] assms(2)] by blast
  have "kq_smons s' u \<noteq> None \<or> (\<exists>fm. kq_fmons s' u = Some fm \<and> kq_smons s' (fm_smon fm) \<noteq> None)" if "kq_fds s' fd = Some (Some u)" for fd u
  proof -
    have m: "mon_fd s' u = Some fd" using kq_invD(2) [OF kq_okD(1) [OF s'(2)]] that by (simp add: fds_ok_def)
    show ?thesis
    proof (cases "kq_smons s' u")
      case None
      then obtain fm where fm: "kq_fmons s' u = Some fm" using m by (auto simp: mon_fd_def)
      then show ?thesis using kq_invD(1) [OF kq_okD(1) [OF s'(2)]] unfolding heap_ok_def by blast
    qed simp
  qed
  then show ?thesis using s' by blast
qed

theorem kqueue_forgets_subscription_witness:
  "\<exists>b s'. gam_kqueue_remove_subscription 2 demo_kq_watching = Some (b, s') \<and> b \<and> unmonitored s' 2 \<and> kq_smons s' 0 = None"
proof -
  obtain sm where sm: "kq_smons demo_kq_watching 0 = Some sm" "sm_subs sm = [2]" "mo_pathname sm = ''/d''" "sm_isdir sm" by (rule demo_kq_smon)
  have ok: "kq_ok {} demo_kq_watching" by (rule kq_reach_ok [OF demo_kq_watching])
  have "2 \<in> set (sm_subs sm)" using sm(2) by simp
  then obtain sub where sub: "sv_subs demo_kq_watching 2 = Some sub" by (rule kq_subs [OF ok sm(1)])
  have "smon_hash demo_kq_watching (sub_is_dir sub) (sub_path sub) = Some 0"
    by (rule hash_unmonitored [OF ok sub sm(1)]) (simp add: sm(2))
  moreover have "without_sub 2 (kq_smons demo_kq_watching) 0 = None" using sm(1,2) by (simp add: without_sub_def)
  ultimately show ?thesis using kqueue_forgets_subscription [OF demo_kq_watching sub] by auto
qed

text \<open>A missing monitor that the timer has watched again.\<close>

definition missing_found :: "SubMonitor \<Rightarrow> 'b ksrv_scheme \<Rightarrow> cptr \<Rightarrow> bool" where
  "missing_found sm s p \<longleftrightarrow> (\<exists>sm'. kq_smons s p = Some sm' \<and> mo_pathname sm' = mo_pathname sm \<and> sm_subs sm' = sm_subs sm \<and>
     p \<notin> poller_content s missing_smon_poller)"

lemma missing_timer_ok:
  assumes en: "good_kenv en" and ok: "kq_ok {} s" and p: "p \<in> poller_content s missing_smon_poller" "kq_smons s p = Some sm"
    "always_there en (mo_pathname sm)"
  shows "\<exists>s'. gam_kqueue_poller_timeout_cb en missing_smon_poller (poller_func missing_smon_poller en) s = Some (True, s') \<and>
    kq_ok {} s' \<and> missing_found sm s' p"
proof -
  have "succeeds (gam_kqueue_poller_timeout_cb en missing_smon_poller (gam_kqueue_missing_smon_poll en) s)
    (\<lambda>(again, s'). again \<and> kq_ok {} s' \<and> (\<forall>r \<in> poller_content s missing_smon_poller. r = p \<longrightarrow> missing_found sm s' r))"
  proof (rule timeout_ok [OF en ok, where Pre = "\<lambda>s r. r \<in> poller_content s missing_smon_poller \<and> (r = p \<longrightarrow> kq_smons s r = Some sm)"])
    show "succeeds (gam_kqueue_missing_smon_poll en r t)
        (\<lambda>t'. kq_ok {missing_smon_poller} t' \<and> kframe r t t' \<and> (r = p \<longrightarrow> missing_found sm t' r))"
      if "kq_ok {missing_smon_poller} t" "kq_smons t r = Some rm" "r \<in> poller_content t missing_smon_poller \<and> (r = p \<longrightarrow> kq_smons t r = Some sm)"
      for r t rm
    proof (rule succeeds_mono [OF missing_poll_ok [OF en that(1) _ _ _ that(2)]])
      fix t' assume a: "kq_ok {missing_smon_poller} t' \<and> kframe r t t' \<and>
          (ke_lstat en (kq_tick t) (mo_pathname rm) \<noteq> None \<longrightarrow> r \<notin> poller_content t' missing_smon_poller)"
      have fr: "kframe r t t'" "kq_smons t r = Some rm" using a that(2) by blast+
      obtain rm' where rm': "kq_smons t' r = Some rm'" "same_smon rm rm'" by (rule kframeE [OF fr])
      have "missing_found sm t' r" if "r = p"
      proof -
        have "rm = sm" using that \<open>r \<in> poller_content t missing_smon_poller \<and> (r = p \<longrightarrow> kq_smons t r = Some sm)\<close> fr(2) by simp
        then show ?thesis using a rm' p(3) by (simp add: missing_found_def always_there_def same_smon_def)
      qed
      then show "kq_ok {missing_smon_poller} t' \<and> kframe r t t' \<and> (r = p \<longrightarrow> missing_found sm t' r)" using a by simp
    qed (use that(3) in simp_all)
    show "q \<in> poller_content t' missing_smon_poller \<and> (q = p \<longrightarrow> kq_smons t' q = Some sm)"
      if "kframe r t t'" "q \<noteq> r" "q \<in> poller_content t missing_smon_poller \<and> (q = p \<longrightarrow> kq_smons t q = Some sm)" for q r t t'
      using that(3) poller_content_other [OF kframeD(7) [OF that(1)] that(2)] kframeD(6) [OF that(1,2)] by auto
    show "q = p \<longrightarrow> missing_found sm t' q" if "kframe r t t'" "q \<noteq> r" "q = p \<longrightarrow> missing_found sm t q" for q r t t'
      using that(3) poller_content_other [OF kframeD(7) [OF that(1)] that(2)] kframeD(6) [OF that(1,2)] by (auto simp: missing_found_def)
  qed (use p(2) in \<open>simp_all add: missing_found_def\<close>)
  then show ?thesis using p(1) by (auto simp: succeeds_def)
qed

text \<open>C20. A missing file comes back: when a file is there at every look, the next run of the timer of the poller for missing
  files takes its monitor out of that poller and watches it, by the kernel or by the poller for files that cannot be
  watched, for the same subscriptions; the timer asks to be run again.\<close>

theorem kqueue_missing_is_found:
  assumes "kq_reach True s" "good_kenv en" and p: "polled s missing_smon_poller p" "kq_smons s p = Some sm" "always_there en (mo_pathname sm)"
  shows "\<exists>s' sm'. do_kq_call en (KQ_TIMER missing_smon_poller) s = Some (True, s') \<and> kq_smons s' p = Some sm' \<and>
    mo_pathname sm' = mo_pathname sm \<and> sm_subs sm' = sm_subs sm \<and>
    \<not> polled s' missing_smon_poller p \<and> (kq_fds s' (mo_fd sm') = Some (Some p) \<or> polled s' unsupported_smon_poller p)"
proof -
  note ok = kq_reach_ok [OF assms(1)]
  have in_p: "p \<in> poller_content s missing_smon_poller" using p(1) polled_content [OF ok] by simp
  obtain s' where s': "gam_kqueue_poller_timeout_cb en missing_smon_poller (poller_func missing_smon_poller en) s = Some (True, s')" "kq_ok {} s'"
      "missing_found sm s' p"
    using missing_timer_ok [OF assms(2) ok in_p p(2,3)] by blast
  obtain sm' where sm': "kq_smons s' p = Some sm'" "mo_pathname sm' = mo_pathname sm" "sm_subs sm' = sm_subs sm"
      "p \<notin> poller_content s' missing_smon_poller"
    using s'(3) by (auto simp: missing_found_def)
  have "0 \<le> mo_fd sm' \<or> p \<in> poller_content s' unsupported_smon_poller"
    using kq_okD(4) [OF s'(2) sm'(1)] sm'(1,4) by (auto simp: watched_def is_missing_def)
  moreover have "kq_fds s' (mo_fd sm') = Some (Some p)" if "0 \<le> mo_fd sm'"
    using kq_invD(2) [OF kq_okD(1) [OF s'(2)]] mon_fd_Some(1) [OF sm'(1)] that by (simp add: fds_ok_def)
  ultimately show ?thesis using s'(1) sm' polled_content [OF s'(2)] by auto
qed

theorem kqueue_missing_is_found_witness:
  "\<exists>s' sm'. do_kq_call (demo_kenv [''a''] [''/e'']) (KQ_TIMER missing_smon_poller) demo_kq_missing = Some (True, s') \<and>
    kq_smons s' 2 = Some sm' \<and> mo_pathname sm' = ''/e'' \<and> sm_subs sm' = [3] \<and> \<not> polled s' missing_smon_poller 2"
proof -
  let ?en = "demo_kenv [''a''] [''/e'']"
  have en: "good_kenv ?en" by (rule demo_good_kenv) simp_all
  have "map_option (\<lambda>sm. (mo_pathname sm, sm_subs sm)) (kq_smons demo_kq_missing 2) = Some (''/e'', [3])" by code_simp
  then obtain sm where sm: "kq_smons demo_kq_missing 2 = Some sm" "mo_pathname sm = ''/e''" "sm_subs sm = [3]" by auto
  have "let po = kq_pollers demo_kq_missing missing_smon_poller in
      2 \<in> set (ht_main (po_smons po)) \<and> po_timeout po = Some (po_interval po)" by code_simp
  then have m: "polled demo_kq_missing missing_smon_poller 2" by (simp add: polled_def Let_def)
  have "always_there ?en (mo_pathname sm)" by (simp add: always_there_def demo_kenv_def sm(2))
  from kqueue_missing_is_found [OF demo_kq_missing en m sm(1) this] sm(2,3) show ?thesis by auto
qed

end
