(* ===== verification/Gam_Kqueue_Gaps.thy ===== *)
theory Gam_Kqueue_Gaps
  imports Gam_Kqueue_Props
begin

unbundle bit_operations_syntax

text \<open>
  Where the kqueue back end does not do what it means to: a directory that can be
  watched again, a second subscription for a path, and sockets.
\<close>

section \<open>A directory that can be watched again\<close>

text \<open>The poller for missing files is asked to drop the monitor; the one that has it is another.\<close>

lemma missing_removal_keeps_unsupported:
  assumes "gam_kqueue_poller_remove_sub_monitor missing_smon_poller p s = Some s'"
  shows "kq_pollers s' unsupported_smon_poller = kq_pollers s unsupported_smon_poller \<and> kq_smons s' = kq_smons s \<and>
    kq_fds s' = kq_fds s \<and> kq_tick s' = kq_tick s"
  using assms
  by (auto simp: gam_kqueue_poller_remove_sub_monitor_def gam_kqueue_hash_table_remove_def poller_hash_table_methods_def
      gam_kqueue_hash_table_default_remove_cb_def post_def split: if_splits option.splits)

text \<open>At the tenth poll the kernel watches the directory again. Its monitor stays in the poller for directories that
  cannot be watched, with a descriptor.\<close>

lemma retried_monitor_stays_polled:
  assumes p: "kq_smons s p = Some sm" "mo_poll_count sm = 9" "p \<in> poller_content s unsupported_smon_poller"
    and on: "gam_kqueue_monitor_enable_kqueue en p (sm\<lparr>mo_poll_count := 0\<rparr>) s = (True, sm1, s1)"
    and same: "\<And>t. smon_poll_event (fst (gam_kqueue_mini_lstat en (mo_pathname sm) (s1\<lparr>kq_tick := t\<rparr>))) (mo_sb sm) = None"
    and poll: "gam_kqueue_unsupported_smon_poll en p s = Some s'"
  shows "p \<in> poller_content s' unsupported_smon_poller \<and> kq_smons s' p = Some sm1 \<and> 0 \<le> mo_fd sm1"
proof -
  have fd: "0 \<le> mo_fd sm1" and sm1: "mo_pathname sm1 = mo_pathname sm" "mo_sb sm1 = mo_sb sm" and po: "kq_pollers s1 = kq_pollers s"
    using on by (auto simp: gam_kqueue_monitor_enable_kqueue_def kq_open_def kq_kevent_def kq_close_def Let_def split: if_splits)
  have n: "mo_poll_count sm + 1 = CFG_UNSUPPORTED_SMON_KQUEUE_RETRY_FREQUENCY"
    by (simp add: p(2) CFG_UNSUPPORTED_SMON_KQUEUE_RETRY_FREQUENCY_def)
  obtain s2 where s2: "gam_kqueue_poller_remove_sub_monitor missing_smon_poller p (put_smon p sm1 s1) = Some s2"
    using poll on n by (cases "gam_kqueue_poller_remove_sub_monitor missing_smon_poller p (put_smon p sm1 s1)")
      (simp_all add: gam_kqueue_unsupported_smon_poll_def p(1) Let_def)
  note kept = missing_removal_keeps_unsupported [OF s2]
  have p2: "kq_smons s2 p = Some sm1" using kept by (simp add: put_smon_def)
  let ?r = "gam_kqueue_mini_lstat en (mo_pathname sm) s2"
  have "fst ?r = fst (gam_kqueue_mini_lstat en (mo_pathname sm) (s1\<lparr>kq_tick := kq_tick s2\<rparr>))"
    by (simp add: gam_kqueue_mini_lstat_def kq_lstat_def Let_def split: option.split)
  then have "smon_poll_event (fst ?r) (mo_sb sm) = None" using same by simp
  then have "s' = snd ?r" using poll on n s2 p2 sm1 by (simp add: gam_kqueue_unsupported_smon_poll_def p(1) Let_def split_beta)
  then have "s' = s2\<lparr>kq_tick := Suc (kq_tick s2)\<rparr>"
    by (simp add: gam_kqueue_mini_lstat_def kq_lstat_def Let_def split: option.splits)
  then have "kq_smons s' p = Some sm1" "poller_content s' unsupported_smon_poller = poller_content s unsupported_smon_poller"
    using p2 kept po by (simp_all add: poller_content_def put_smon_def)
  then show ?thesis using p(3) fd by auto
qed

text \<open>Enabling a monitor that has a descriptor opens another one. The first stays open, and no monitor has it.\<close>

lemma enabled_again_leaks:
  assumes "fresh_fds en" "kq_fds s (mo_fd mon) = Some (Some p)"
    and "gam_kqueue_monitor_enable_kqueue en p mon s = (True, mon', s')"
  shows "kq_fds s' (mo_fd mon) = Some (Some p) \<and> kq_fds s' (mo_fd mon') = Some (Some p) \<and> mo_fd mon' \<noteq> mo_fd mon"
proof -
  let ?fd = "ke_open en (kq_tick s) (kq_fds s) (mo_pathname mon)"
  have "mo_fd mon' = ?fd" "0 \<le> ?fd" "kq_fds s' = (kq_fds s)(?fd \<mapsto> Some p)"
    using assms(3) by (auto simp: gam_kqueue_monitor_enable_kqueue_def kq_open_def kq_kevent_def kq_close_def Let_def split: if_splits)
  moreover from this have "?fd \<notin> dom (kq_fds s)" using assms(1) by (simp add: fresh_fds_def)
  ultimately show ?thesis using assms(2) by auto
qed

section \<open>A second subscription for a path\<close>

text \<open>A subscription for a path that has a monitor joins it and is told nothing: neither that the file exists, nor the
  names in the directory, nor the end of the listing, which the first subscription was told.\<close>

lemma second_subscription_is_told_nothing:
  assumes q: "sv_subs s q = Some sub" "sub_listener sub = Some l" and l: "gam_listener_add_subscription l q s = Some s1"
    and p: "smon_hash s (sub_is_dir sub) (sub_path sub) = Some p"
    and add: "gam_kqueue_add_subscription en q s = Some (b, s')"
  shows "emits [q] [] s1 s'"
proof -
  note M = more_ksrv [OF listener_add_effect(1) [OF l]]
  have "(if sub_is_dir sub then kq_dir_hash s1 else kq_file_hash s1) (sub_path sub) = Some p"
    using p by (simp add: smon_hash_def M split: if_splits)
  then obtain sm where "s' = put_smon p sm s1"
    using add q l by (cases "kq_smons s1 p") (auto simp: gam_kqueue_add_subscription_def)
  then show ?thesis by (simp add: put_smon_def srv.truncate_def)
qed

section \<open>What counts as a directory\<close>

text \<open>The test is whether the bit of \<^verbatim>\<open>S_IFDIR\<close> is set: sockets and block devices have it too.\<close>

lemma sockets_and_disks_are_directories:
  "mode_isdir 0x41ed" "mode_isdir 0xc1ed" "mode_isdir 0x61b0" "\<not> mode_isdir 0x81a4"
  by (simp_all add: mode_isdir_def)

end
