(* ===== verification/Spec2Isabelle.thy ===== *)
theory Spec2Isabelle
  imports Gam_Api_Props Gam_Channel Gam_Poll_Report Gam_Inotify_Gaps Gam_Dnotify_View Gam_Kqueue_Gaps
begin

text \<open>
  Gamin is a file alteration monitor: a library (\<^verbatim>\<open>libgamin\<close>) that an application links, and one server
  process per user that watches files for all of the user's applications. This development models the
  library and the core of the server from their C sources and proves what makes them correct.

  The parts of the program and how they interact. The application calls the \<^verbatim>\<open>FAM...\<close> functions
  (\<^verbatim>\<open>libgamin/gam_api.c\<close>), which keep the requests of a connection in a table sorted by number and
  reassemble the events that come back (\<^verbatim>\<open>libgamin/gam_data.c\<close>). Requests and events are packets
  (\<^verbatim>\<open>libgamin/gam_protocol.h\<close>) on a local socket. In the server the sockets (\<^verbatim>\<open>server/gam_channel.c\<close>) feed
  the connections (\<^verbatim>\<open>server/gam_connection.c\<close>), which cut the bytes into requests. A request becomes a
  subscription (\<^verbatim>\<open>gam_subscription.c\<close>) of the connection's listener (\<^verbatim>\<open>gam_listener.c\<close>) and is handed to a
  monitoring back end that \<^verbatim>\<open>gam_server.c\<close> chooses with the exclude patterns, the file system properties
  and the configuration (\<^verbatim>\<open>gam_excludes.c\<close>, \<^verbatim>\<open>gam_fs.c\<close>, \<^verbatim>\<open>gam_conf.c\<close>). The back ends report events to
  \<^verbatim>\<open>gam_server_emit_event\<close>, which sends them to the subscriptions that want them, directly or through
  the event queue of the connection (\<^verbatim>\<open>gam_eq.c\<close>).

  The theories.
    \<^item> \<^theory_text>\<open>Gam_Prelude\<close>: the collections of simplification rules, little-endian bytes, C strings, lists.
    \<^item> \<^theory_text>\<open>Gam_Protocol\<close>: the packet, its bytes, the request types and event codes
      (\<^verbatim>\<open>gam_protocol.h\<close>, \<^verbatim>\<open>fam.h\<close>, \<^verbatim>\<open>lib/gam_event.c\<close>).
    \<^item> \<^theory_text>\<open>Gam_Data\<close>: the connection data of the client, \<^verbatim>\<open>GAMData\<close>, with one definition per function of
      \<^verbatim>\<open>gam_data.c\<close>; the two bisections are loops on integers with their termination proofs.
    \<^item> \<^theory_text>\<open>Gam_Request_Table\<close>: the table as a finite map (locale \<open>request_table\<close>, interpreted on the model)
      and the invariants of reachable connection data.
    \<^item> \<^theory_text>\<open>Gam_Delivery\<close>: reassembly and delivery of events, cancelling.
    \<^item> \<^theory_text>\<open>Gam_Api\<close>, \<^theory_text>\<open>Gam_Api_Props\<close>: the calls of \<^verbatim>\<open>gam_api.c\<close> with the kernel's answers as lists, and
      their properties.
    \<^item> \<^theory_text>\<open>Gam_Subscription\<close>, \<^theory_text>\<open>Gam_Eq\<close> (locale \<open>event_queue\<close>), \<^theory_text>\<open>Gam_Policy\<close>: subscriptions, the event queue,
      and excludes, file systems and configuration.
    \<^item> \<^theory_text>\<open>Gam_Srv\<close>: the state of the server as heaps of subscriptions, listeners and connections, sending
      and queueing events, the choice of the back end, the emission of events.
    \<^item> \<^theory_text>\<open>Gam_Connection\<close>: listeners, the life of a connection, the framing and the handling of requests.
    \<^item> \<^theory_text>\<open>Gam_Channel\<close>: credentials, reading, accepting and shutting down, the checks on the socket.
    \<^item> \<^theory_text>\<open>Gam_Node\<close>: the nodes, their tree and the lists of polled nodes (\<^verbatim>\<open>gam_node.c\<close>, \<^verbatim>\<open>gam_tree.c\<close>, the
      lists of \<^verbatim>\<open>gam_poll_generic.c\<close>); \<^theory_text>\<open>Gam_Poll\<close>: the scans of \<^verbatim>\<open>gam_poll_generic.c\<close> and the back end of
      \<^verbatim>\<open>gam_poll_basic.c\<close>.
    \<^item> \<^theory_text>\<open>Gam_Tree_Inv\<close>: the invariant of the tree and of the subscriptions in it; \<^theory_text>\<open>Gam_Poll_Inv\<close>: every
      scan keeps it and does not abort (locale \<open>poll_backend\<close>, interpreted on the basic back end);
      \<^theory_text>\<open>Gam_Poll_Tick\<close>: the timer and adding a subscription; \<^theory_text>\<open>Gam_Poll_Remove\<close>: removing one;
      \<^theory_text>\<open>Gam_Poll_Props\<close>, \<^theory_text>\<open>Gam_Poll_Report\<close>: the properties of polling.
    \<^item> \<^theory_text>\<open>Gam_Ik\<close>: the events of the kernel (\<^verbatim>\<open>inotify-kernel.c\<close>); \<^theory_text>\<open>Gam_Ip\<close>: subscriptions, watched directories,
      dispatch and the missing list (\<^verbatim>\<open>inotify-sub.c\<close>, \<^verbatim>\<open>inotify-path.c\<close>, \<^verbatim>\<open>inotify-missing.c\<close>, the callbacks);
      \<^theory_text>\<open>Gam_Inotify\<close>: the list of subscriptions, the hooks and starting (\<^verbatim>\<open>inotify-helper.c\<close>, \<^verbatim>\<open>gam_inotify.c\<close>).
    \<^item> \<^theory_text>\<open>Gam_Ik_Inv\<close>, \<^theory_text>\<open>Gam_Ik_Props\<close>: the invariant of the two event queues and the properties of reading and
      pairing; \<^theory_text>\<open>Gam_Ip_Inv\<close>: the invariant of the watched directories; \<^theory_text>\<open>Gam_Inotify_Inv\<close>, \<^theory_text>\<open>Gam_Inotify_Ops\<close>: that
      of the whole back end, kept by every operation; \<^theory_text>\<open>Gam_Inotify_Props\<close>: its properties; \<^theory_text>\<open>Gam_Inotify_Gaps\<close>:
      runs in which it does not do what it is meant to.
    \<^item> \<^theory_text>\<open>Gam_Dnotify\<close>: the directories open for dnotify (\<^verbatim>\<open>gam_dnotify.c\<close>) and the handlers through which polling
      turns kernel monitoring on and off (\<^verbatim>\<open>gam_poll_generic.c\<close>); \<^theory_text>\<open>Gam_Poll_Dnotify\<close>: the polling that goes with it
      (\<^verbatim>\<open>gam_poll_dnotify.c\<close>), signals, hooks and starting.
    \<^item> \<^theory_text>\<open>Gam_Dnotify_Inv\<close>, \<^theory_text>\<open>Gam_Dnotify_Ops\<close>: polling and the operations keep the invariant for any kernel hooks that
      keep to their part of the state (locale \<open>kernel_hooks\<close>, which provides \<open>poll_backend\<close>, \<open>scan_steps\<close> and
      \<open>first_scan_steps\<close>); \<^theory_text>\<open>Gam_Dnotify_Props\<close>: the tables as counters, the interpretation on dnotify, and its
      properties; \<^theory_text>\<open>Gam_Dnotify_View\<close>: what a poll observes, and runs that go wrong.
    \<^item> \<^theory_text>\<open>Gam_Kqueue\<close>: the kqueue back end (\<^verbatim>\<open>gam_kqueue.c\<close>): tables that may be changed while they are walked, the
      pollers, the monitors of subscriptions and of the files in a directory, the hooks.
    \<^item> \<^theory_text>\<open>Gam_Kqueue_Inv\<close>: its invariant, and operations on the tables and descriptors; \<^theory_text>\<open>Gam_Kqueue_Files\<close>: the events
      of file monitors and a changed directory; \<^theory_text>\<open>Gam_Kqueue_Subs\<close>: those of subscription monitors and the start of
      notification; \<^theory_text>\<open>Gam_Kqueue_Calls\<close>: the state between two calls and kernel events; \<^theory_text>\<open>Gam_Kqueue_Fpoll\<close>,
      \<^theory_text>\<open>Gam_Kqueue_Timers\<close>: the three timers; \<^theory_text>\<open>Gam_Kqueue_Hooks\<close>: adding and removing subscriptions;
      \<^theory_text>\<open>Gam_Kqueue_Count\<close>: the count of descriptors in every run; \<^theory_text>\<open>Gam_Kqueue_Props\<close>: reachable states and properties; \<^theory_text>\<open>Gam_Kqueue_Gaps\<close>: what goes wrong.
    \<^item> this theory: the properties that span client and server.

  The state corresponds to the code as follows. A C struct is a record with a prefix for its fields
  (\<^verbatim>\<open>GAMData\<close> \<open>gd_\<close>, \<^verbatim>\<open>GAMReqData\<close> \<open>rq_\<close>, \<^verbatim>\<open>GamSubscription\<close> \<open>sub_\<close>, \<^verbatim>\<open>GamListener\<close> \<open>ls_\<close>, \<^verbatim>\<open>GamConnData\<close> \<open>cn_\<close>). Pointers
  to heap objects are natural numbers and the heaps partial maps; \<^term>\<open>None\<close> as the result of an operation
  is a failed \<^verbatim>\<open>g_assert\<close> or the use of freed memory, never an ordinary error, which is the integer the
  code returns. The kernel's answers are arguments or lists in the state, each consumed by one call; an
  exhausted list answers with success, so that every list is a possible behaviour of the kernel. Fields
  of the packet are \<^typ>\<open>16 word\<close>, so that sequence numbers wrap as they do in the code. The code that is
  not in the repository (GLib's patterns and splitting, \<^verbatim>\<open>/etc/mtab\<close>, the process name) is a parameter.

  What the groups of lemmas show. From end to end: an event in a watched directory reaches the client
  as one event however the bytes are cut, and a monitor request reaches the server as one subscription.
  Framing, on both sides: the result depends on the bytes and not on the reads. The request table
  implements a finite map; it keeps within its bounds whatever is called, and sorted as long as the numbers of
  requests that the library and the caller choose are not mixed. Every call of the library releases its lock except where a finding says so. The event queue loses nothing and flushes
  in order; an event goes to exactly the subscriptions that want it. Clients and servers check each
  other's credentials before any data is used (the byte they look at is uninitialised when the peer has closed
  its side without sending one, which the model keeps as an arbitrary byte), and the socket directory is accepted only when safe.
  Polling a file implements an abstract observation of it, a new subscription is told a complete listing,
  a new entry is reported by the next scan, cancelling leaves what others watch alone, the tree stays well
  formed, and the timer's loops end although the lists change under them.
  Of the inotify back end: reading the bytes of the kernel gives back its events, each is handed on once and
  never half of a move alone, the dispatch of an event is a specification of who is told what, in which order,
  and which subscriptions are watched anew, no call aborts or uses a freed object, and a removed subscription is
  forgotten. \<^verbatim>\<open>inotify_add_watch\<close> may answer anything and the file system change at every step. The conditions are
  that GLib threads are off, which is a fact of the program, as it never calls \<^verbatim>\<open>g_thread_init\<close> (with them removing
  deadlocks), whole events in a read, and that the kernel finds the first component of a monitored path (else the
  loop of \<^verbatim>\<open>ip_watch_parent\<close> never ends); \<^theory_text>\<open>Gam_Inotify_Gaps\<close> and \<^theory_text>\<open>Gam_Ip_Inv\<close> prove what happens otherwise.
  Of the dnotify back end: no call aborts in any reachable state, the two tables count the requests and match the
  descriptors that are open, a poll observes a file as the basic back end does, and the timer ends. The conditions
  are that \<^verbatim>\<open>open\<close> never answers with a descriptor that is open, and that a signal comes between two calls of the
  main loop or between two pops of its queue: within an operation on the queue, which is a \<^verbatim>\<open>GQueue\<close> and not
  safe against signals, it could destroy the queue. The write to the pipe, which wakes the main loop, is left out.
  Of the kqueue back end: the count of open files is the number of descriptors and within the limit in every reachable
  state. As long as the timer enables no monitor a second time, no call aborts, each monitor is watched by the kernel
  or by a running timer, never by two of them, no descriptor is leaked, a new subscription and a change of a directory
  are told in full, a missing file is found, and a removed subscription is forgotten. Every system call may find a
  different file system. The condition (\<open>no_second_retry\<close>, the flag of \<open>kq_reach\<close>) is not one the code sees to:
  \<^theory_text>\<open>Gam_Kqueue_Gaps\<close> proves that a monitor the timer could enable stays in its poller and is enabled again ten polls
  later, and that its descriptor is then leaked. The hypotheses on the environment are that \<^verbatim>\<open>open\<close> answers with a
  fresh descriptor, GLib walks each key of a table once, and a directory has distinct names without a slash.

  Bounds. \<^verbatim>\<open>MAXPATHLEN\<close> is 4096, a packet has at most 4106 bytes. The loops of the code that can wait for ever
  on the kernel (\<^verbatim>\<open>EINTR\<close>) recurse over the list of its answers.
  A scan of a directory is given two levels of recursion, of which the second is never used in a state that
  satisfies the invariant. The loops of the timer are given a number of rounds; more rounds than nodes were
  ever allocated are enough (\<open>scan_callback_terminates\<close>, \<open>dnotify_timer_terminates\<close>). Climbing the tree is bounded by the number of nodes.
  \<^verbatim>\<open>ip_watch_parent\<close> and \<^verbatim>\<open>ik_event_free\<close> are partial functions, where not ending is \<^term>\<open>None\<close>. The loop that hands
  on the event queue is given one round more than the queue is long, and no callback queues an event.
  \<open>file_monitor_emit\<close> has two levels: the event for a file that exists again is about a new monitor and makes no other.

  Not modelled: the branches of \<^verbatim>\<open>GAMIN_DEBUG_API\<close>, debug output, the abstract socket name space, starting
  the server (\<^verbatim>\<open>gam_fork.c\<close>), the main loop and the signals that end the server, the Python binding, the dump of the inotify lists and the Hurd back end
  (\<^verbatim>\<open>gam_hurd_mach_notify.c\<close>), which is driven by a message server that MIG generates and by a thread of its own.
\<close>

unbundle bit_operations_syntax

section \<open>From the client to the server\<close>

lemma req_type_parts:
  assumes "type = GAM_REQ_FILE \<or> type = GAM_REQ_DIR"
  shows "req_type type c AND 0xF = type"
    "ucast (req_type type c AND 0xFFF0) AND opt_noexists \<noteq> 0 \<longleftrightarrow> type = GAM_REQ_DIR \<and> gd_noexist c"
  using assms by (auto simp: req_type_def gamin_data_get_exists_def req_defs opt_noexists_def)

text \<open>C5. A monitor request travels from the client to the server: the packet that the client sends for a
  file or directory makes the server create exactly one subscription, with the client's request
  number and path, for a directory exactly when a directory was asked for, with the option to leave
  out existence events exactly when the client asked for that, and hands it to the back end.\<close>

theorem monitor_request_roundtrip:
  assumes "sv_conns s conn = Some cn" "cn_state cn = GAM_STATE_OKAY" "0 \<le> cn_fd cn" "cn_listener cn = Some l"
    and "0 \<le> n" "n < 65536" "no_nul path" "path \<noteq> []" "length path < MAXPATHLEN"
    and "type = GAM_REQ_FILE \<or> type = GAM_REQ_DIR"
  shows "\<exists>sub. sub_path sub = path \<and> sub_reqno sub = n \<and> sub_is_dir sub = (type = GAM_REQ_DIR) \<and>
      gam_subscription_has_option (Some sub) opt_noexists = (type = GAM_REQ_DIR \<and> gd_noexist c) \<and>
      sub_listener sub = Some l \<and> \<not> sub_cancelled sub \<and>
      connection_data_loop hk conn (packet_bytes (make_packet n (req_type type c) path)) s =
        map_option (\<lambda>(r, s2). (0, [], s2))
          (gam_add_subscription hk (sv_next s)
             (s\<lparr>sv_subs := (sv_subs s)(sv_next s \<mapsto> sub), sv_next := Suc (sv_next s)\<rparr>))"
proof -
  let ?p = "make_packet n (req_type type c) path"
  let ?sub = "gam_subscription_set_listener l (gam_subscription_new path req_events n
      (type = GAM_REQ_DIR) (ucast (req_type type c AND 0xFFF0)))"
  have wf: "wf_request ?p" using assms(8,9) by (simp add: wf_request_def)
  have nil: "connection_data_loop hk conn [] s' = Some (0, [], s')" for s'
    by (subst connection_data_loop.simps) (simp add: size_defs)
  have "gam_connection_request hk conn (packet_bytes ?p) s =
      map_option (\<lambda>(r, s2). (0, s2)) (gam_add_subscription hk (sv_next s)
        (s\<lparr>sv_subs := (sv_subs s)(sv_next s \<mapsto> ?sub), sv_next := Suc (sv_next s)\<rparr>))"
    using serve_monitor_request [OF assms(1-7,9), of "req_type type c" hk] req_type_parts(1) [OF assms(10), of c]
      assms(10) by (simp add: alloc_sub_def)
  then have "connection_data_loop hk conn (packet_bytes ?p) s =
        map_option (\<lambda>(r, s2). (0, [], s2))
          (gam_add_subscription hk (sv_next s)
             (s\<lparr>sv_subs := (sv_subs s)(sv_next s \<mapsto> ?sub), sv_next := Suc (sv_next s)\<rparr>))"
    using loop_packet [OF wf, of hk conn "[]" s] nil by (auto split: option.split)
  then show ?thesis
    using req_type_parts(2) [OF assms(10), of c]
    by (intro exI [of _ ?sub]) (simp add: gam_subscription_has_option_def)
qed

theorem monitor_request_roundtrip_witness:
  "\<exists>sub. sub_path sub = ''/d'' \<and> sub_reqno sub = 1 \<and> sub_is_dir sub \<and>
      connection_data_loop no_hooks 0 (packet_bytes (make_packet 1 (req_type GAM_REQ_DIR fresh_data) ''/d'')) srv0 =
        map_option (\<lambda>(r, s2). (0, [], s2))
          (gam_add_subscription no_hooks 3 (srv0\<lparr>sv_subs := (sv_subs srv0)(3 \<mapsto> sub), sv_next := 4\<rparr>))"
proof -
  have "sv_next srv0 = 3" "sv_conns srv0 0 = Some conn0" by (simp_all add: srv0_def)
  with monitor_request_roundtrip [of srv0 0 conn0 1 1 "''/d''" GAM_REQ_DIR fresh_data no_hooks]
  show ?thesis by (auto simp: conn0_def no_nul_def size_defs)
qed

section \<open>From the server to the client\<close>

text \<open>The events the protocol has a code for.\<close>

abbreviation fam_events :: "evtype set" where
  "fam_events \<equiv> {GAMIN_EVENT_CHANGED, GAMIN_EVENT_CREATED, GAMIN_EVENT_DELETED, GAMIN_EVENT_MOVED,
     GAMIN_EVENT_EXISTS, GAMIN_EVENT_ENDEXISTS}"

lemma fam_code_fam_events:
  assumes "event \<in> fam_events"
  obtains code where "fam_code event = Some code" "uint (of_int code :: 16 word) = code" "code \<noteq> FAMAcknowledge"
  using assms by (auto simp: fam_code_def event_defs fam_defs)

text \<open>C1. An event in a monitored directory travels from the server to the client: the server writes one
  packet to the connection of the subscription, and the client, in whatever pieces it reads these
  bytes, delivers exactly one event, with the number of the request, the name of the entry without
  the directory, the code of the event and the user data given with the request.\<close>

theorem event_end_to_end:
  assumes srv: "sv_subs s q = Some sub" "sub_listener sub = Some l" "sv_listeners s l = Some ls"
      "conn_open (ls_service ls) s" "writes_ok s" "\<not> sv_inotify s"
    and sub: "sub_is_dir sub" "sub_pathlen sub = int (length (sub_path sub))"
      "gam_subscription_wants_event (Some sub) (Some (sub_path sub @ CHR ''/'' # name)) d event force"
      "event \<in> fam_events"
    and name: "name \<noteq> []" "no_nul name" "length name < MAXPATHLEN" "0 \<le> sub_reqno sub" "sub_reqno sub < 65536"
    and client: "data_inv c" "\<not> gd_evn_ready c" "gd_event c = []" "\<not> gd_restarted c"
      "req_map c (sub_reqno sub) = Some r" "rq_state r = REQ_INIT \<or> rq_state r = REQ_CONFIRMED"
    and reads: "list_all (\<lambda>n. 0 < n) ns" "GAM_PACKET_HEADER_LEN + length name \<le> length ns"
  shows "\<exists>s' bytes. gam_server_emit_one_event (sub_path sub @ CHR ''/'' # name) d event q force s = Some s' \<and>
    sv_sent s' = (sv_sent s)(conn_fd (ls_service ls) s := sv_sent s (conn_fd (ls_service ls) s) @ bytes) \<and>
    fst (receive ns bytes c) =
      [\<lparr>fe_reqnum = sub_reqno sub, fe_filename = name, fe_userdata = rq_userData r, fe_code = the (fam_code event)\<rparr>]"
proof -
  obtain code where code: "fam_code event = Some code" "uint (of_int code :: 16 word) = code"
      "code \<noteq> FAMAcknowledge" by (rule fam_code_fam_events [OF sub(4)])
  let ?p = "make_packet (sub_reqno sub) (of_int code) name"
  have entry: "event_subpath sub (sub_path sub @ CHR ''/'' # name) = name"
    using sub(1,2) name(1) by (rule event_subpath_entry)
  have sendable: "sendable event name" using code(1) name(3) by (simp add: sendable_def)
  obtain s' where s': "gam_server_emit_one_event (sub_path sub @ CHR ''/'' # name) d event q force s = Some s'"
    "sv_sent s' = (sv_sent s)(conn_fd (ls_service ls) s := sv_sent s (conn_fd (ls_service ls) s) @ packet_bytes ?p)"
    by (rule emit_one_sends [OF srv, of "sub_path sub @ CHR ''/'' # name" d event force])
       (use sub(3) entry sendable code(1) in \<open>simp add: event_packet_def\<close>)
  have seq: "uint (p_seq ?p) = sub_reqno sub" using name(4,5) by (simp add: uint_of_int_u16)
  have wf: "list_all wf_packet [?p]" using name(1,3) by (simp add: wf_make_packet)
  have part: "partial_of [?p] (gd_event c)" using client(3) by (simp add: partial_of_def size_defs)
  have ev: "gd_event c @ stream [?p] = stream [?p]" using client(3) by simp
  obtain evs c' t' where rcv: "receive ns (stream [?p]) c = (evs, c', t')" by (metis prod_cases3)
  obtain qs rs t where split: "[?p] = qs @ rs" "partial_of rs t" "t @ t' = stream rs"
      "evs = fst (client_packets qs c)" "length t' \<le> length (stream [?p]) - length ns"
    using receive_splits [OF wf client(2) part ev reads(1) rcv] by blast
  have "t' = []" using split(5) reads(2) by (simp add: size_defs)
  with split(2,3) have "rs = []" by (cases rs) (auto simp: partial_of_def)
  with split(1) have "qs = [?p]" by simp
  with split(4) have "evs = fst (client_packet ?p c)" by (simp add: split_beta)
  also have "\<dots> = [packet_event ?p (rq_userData r)]"
    using client code(2,3) seq by (intro client_packet_live(1)) simp_all
  finally have "fst (receive ns (packet_bytes ?p) c) = [packet_event ?p (rq_userData r)]"
    using rcv by simp
  with s' show ?thesis
    using code(1,2) seq name(2) by (auto simp: packet_event_def c_string_id)
qed

theorem event_end_to_end_witness:
  "\<exists>s' bytes. gam_server_emit_one_event (''/d'' @ CHR ''/'' # ''f'') False GAMIN_EVENT_CREATED 2 False
      (srv0\<lparr>sv_subs := [2 \<mapsto> gam_subscription_set_listener 1 (gam_subscription_new ''/d'' req_events 1 True 0)]\<rparr>)
      = Some s' \<and>
    fst (receive (replicate 11 1) bytes c_live) =
      [\<lparr>fe_reqnum = 1, fe_filename = ''f'', fe_userdata = 77, fe_code = 5\<rparr>]"
proof -
  let ?sub = "gam_subscription_set_listener 1 (gam_subscription_new ''/d'' req_events 1 True 0)"
  let ?s = "srv0\<lparr>sv_subs := [2 \<mapsto> ?sub]\<rparr>"
  let ?ls = "\<lparr>ls_service = 0, ls_pid = 42, ls_pidname = ''x'', ls_subs = [2]\<rparr>"
  have srv: "sv_subs ?s 2 = Some ?sub" "sub_listener ?sub = Some 1" "sv_listeners ?s 1 = Some ?ls"
      "conn_open (ls_service ?ls) ?s" "writes_ok ?s" "\<not> sv_inotify ?s"
    by (simp_all add: srv0_def conn_open_def conn0_def writes_ok_def)
  have sub: "sub_is_dir ?sub" "sub_pathlen ?sub = int (length (sub_path ?sub))"
      "gam_subscription_wants_event (Some ?sub) (Some (sub_path ?sub @ CHR ''/'' # ''f'')) False GAMIN_EVENT_CREATED False"
      "GAMIN_EVENT_CREATED \<in> fam_events"
    by (simp_all, code_simp)
  have name: "''f'' \<noteq> []" "no_nul ''f''" "length ''f'' < MAXPATHLEN" "0 \<le> sub_reqno ?sub" "sub_reqno ?sub < 65536"
    by (simp_all add: no_nul_def size_defs)
  have inv: "data_inv c_live"
    using add_req_spec [OF data_inv_new, where tab_ok = True and req_ok = True and f = "''/d''"
        and ty = 2 and u = 77]
    by (auto simp: c_live_def reqnos_below_def fresh_data_def req_list_def split: prod.splits option.splits)
  have client: "\<not> gd_evn_ready c_live" "gd_event c_live = []" "\<not> gd_restarted c_live"
      "req_map c_live (sub_reqno ?sub) = Some (new_req ''/d'' 2 77 1)"
    by (code_simp, code_simp, code_simp, simp, code_simp)
  have st: "rq_state (new_req ''/d'' 2 77 1) = REQ_INIT \<or> rq_state (new_req ''/d'' 2 77 1) = REQ_CONFIRMED"
    by (simp add: new_req_def)
  have reads: "list_all (\<lambda>n. 0 < n) (replicate 11 (1::nat))" "GAM_PACKET_HEADER_LEN + length ''f'' \<le> length (replicate 11 (1::nat))"
    by (simp_all add: list_all_iff size_defs)
  have "fam_code GAMIN_EVENT_CREATED = Some 5" by (simp add: fam_code_def event_defs fam_defs)
  with event_end_to_end [OF srv sub name inv client st reads] show ?thesis by (auto simp: new_req_def)
qed

end
